(* ===== verification/Prelude.thy ===== *)
theory Prelude
  imports Main "HOL-Library.Word" "HOL-Library.Log_Nat"
begin

unbundle bit_operations_syntax

text \<open>
  Shared vocabulary of the development.

  \<^item> \<open>outcome\<close>: the result of a routine that may stop at a failed \<open>CARBON_CHECK\<close>.
  \<^item> \<open>emitted\<close>: what a diagnostic emitter has received, as pairs of a byte location
    and a diagnostic, in the order of emission.
  \<^item> \<open>substr\<close>, \<open>starts_with\<close>, \<open>find_from\<close>: the string-view operations the lexer uses;
    a string view is the list of its bytes, with an explicit offset where the code does
    pointer arithmetic.
  \<^item> generic lemmas on lists, powers of two and prefixes that several components use.
\<close>

named_theorems never_fails \<open>facts that a routine never stops at a failed CARBON_CHECK\<close>
named_theorems frame_simps \<open>fields that an operation leaves unchanged\<close>

section \<open>Failed checks as values\<close>

text \<open>A failed \<open>CARBON_CHECK\<close> terminates the process; \<open>Fatal\<close> is that outcome.\<close>

datatype 'a outcome = Fatal | Ret 'a

fun bind_outcome :: "'a outcome \<Rightarrow> ('a \<Rightarrow> 'b outcome) \<Rightarrow> 'b outcome" where
  "bind_outcome Fatal f = Fatal"
| "bind_outcome (Ret x) f = f x"

definition carbon_check :: "bool \<Rightarrow> 'a outcome \<Rightarrow> 'a outcome" where
  "carbon_check b r = (if b then r else Fatal)"

lemma carbon_check_True [simp]: "carbon_check True r = r"
  by (simp add: carbon_check_def)

lemma bind_outcome_Ret_iff:
  "bind_outcome r f = Ret y \<longleftrightarrow> (\<exists>x. r = Ret x \<and> f x = Ret y)"
  by (cases r) auto

lemma bind_outcome_cong [fundef_cong]:
  "r = r' \<Longrightarrow> (\<And>x. r' = Ret x \<Longrightarrow> f x = f' x) \<Longrightarrow> bind_outcome r f = bind_outcome r' f'"
  by (cases r) auto

section \<open>Diagnostics\<close>

type_synonym 'd emitted = "(nat \<times> 'd) list"

section \<open>String views\<close>

text \<open>
  \<open>substr s start n\<close> is \<open>StringRef::substr\<close>: both the start and the length are clamped
  to the view.
\<close>

definition substr :: "'a list \<Rightarrow> nat \<Rightarrow> nat \<Rightarrow> 'a list" where
  "substr s start n = take n (drop start s)"

fun starts_with :: "'a list \<Rightarrow> 'a list \<Rightarrow> bool" where
  "starts_with s [] = True"
| "starts_with [] (p # ps) = False"
| "starts_with (c # s) (p # ps) = (c = p \<and> starts_with s ps)"

lemma starts_with_iff: "starts_with s p \<longleftrightarrow> (\<exists>t. s = p @ t)"
  by (induction s p rule: starts_with.induct) auto

lemma starts_with_take: "starts_with s p \<longleftrightarrow> take (length p) s = p"
  by (induction s p rule: starts_with.induct) auto

lemma starts_with_length: "starts_with s p \<Longrightarrow> length p \<le> length s"
  by (auto simp: starts_with_iff)

lemma starts_with_drop: "starts_with s p \<Longrightarrow> s = p @ drop (length p) s"
  by (auto simp: starts_with_iff)

text \<open>
  The index of the first element satisfying a predicate, \<open>None\<close> for \<open>npos\<close>.
\<close>

fun find_if :: "('a \<Rightarrow> bool) \<Rightarrow> 'a list \<Rightarrow> nat option" where
  "find_if P [] = None"
| "find_if P (x # xs) = (if P x then Some 0 else map_option Suc (find_if P xs))"

lemma find_if_Some:
  "find_if P xs = Some i \<Longrightarrow> i < length xs \<and> P (xs ! i) \<and> (\<forall>j<i. \<not> P (xs ! j))"
  by (induction xs arbitrary: i) (auto split: if_splits simp: nth_Cons less_Suc_eq_0_disj split: nat.splits)

lemma find_if_None: "find_if P xs = None \<longleftrightarrow> (\<forall>x \<in> set xs. \<not> P x)"
  by (induction xs) auto

lemma find_if_less [dest]: "find_if P xs = Some i \<Longrightarrow> i < length xs"
  by (simp add: find_if_Some)

text \<open>The index of the first occurrence of a pattern at or after \<open>i\<close>.\<close>

function find_str_from :: "'a list \<Rightarrow> 'a list \<Rightarrow> nat \<Rightarrow> nat option" where
  "find_str_from p s i =
     (if length s < i then None
      else if starts_with (drop i s) p then Some i
      else find_str_from p s (Suc i))"
  by pat_completeness auto
termination
  by (relation "measure (\<lambda>(p, s, i). Suc (length s) - i)") auto

declare find_str_from.simps [simp del]

lemma find_str_from_Some:
  "find_str_from p s i = Some j \<Longrightarrow> i \<le> j \<and> j \<le> length s \<and> starts_with (drop j s) p"
proof (induction p s i rule: find_str_from.induct)
  case (1 p s i)
  then show ?case
    by (auto simp: find_str_from.simps [of p s i] split: if_splits)
qed

section \<open>Generic lemmas\<close>

lemma take_while_eq_take: "takeWhile P xs = take (length (takeWhile P xs)) xs"
  by (induction xs) auto

lemma append_takeWhile_drop:
  "xs = takeWhile P xs @ drop (length (takeWhile P xs)) xs"
  by (metis append_take_drop_id take_while_eq_take)

lemma length_drop_less: "0 < n \<Longrightarrow> xs \<noteq> [] \<Longrightarrow> length (drop n xs) < length xs"
  by (cases xs) auto

lemma pow2_mono: "m \<le> n \<Longrightarrow> (2::int) ^ m \<le> 2 ^ n"
  by (simp add: power_increasing)

lemma set_bit_above_multiple:
  fixes u :: int
  assumes "2 ^ Suc k dvd u"
  shows "set_bit k u = u + 2 ^ k"
proof -
  from assms obtain q where "u = 2 ^ Suc k * q" by (auto simp: dvd_def)
  then have "u = push_bit (Suc k) q" by (simp add: push_bit_eq_mult)
  then have "\<not> bit u k" by (simp add: bit_push_bit_iff bit_0)
  then show ?thesis by (simp add: set_bit_eq)
qed

end
