(* ===== verification/Character_Set.thy ===== *)
theory Character_Set
  imports Prelude
begin

text \<open>
  The byte classes of \<open>toolchain/lex/character_set.h\<close>, and the digit limit of
  \<open>toolchain/lex/helpers.cpp\<close>. A \<open>char\<close> of the source is one byte; \<open>byte_of\<close> is its
  unsigned value and \<open>char_int\<close> its value as a signed \<open>char\<close>.
\<close>

definition byte_of :: "char \<Rightarrow> nat" where
  "byte_of c = of_char c"

definition char_int :: "char \<Rightarrow> int" where
  "char_int c = (if byte_of c < 128 then int (byte_of c) else int (byte_of c) - 256)"

definition IsAlpha :: "char \<Rightarrow> bool" where
  "IsAlpha c \<longleftrightarrow> (65 \<le> byte_of c \<and> byte_of c \<le> 90) \<or> (97 \<le> byte_of c \<and> byte_of c \<le> 122)"

definition IsDecimalDigit :: "char \<Rightarrow> bool" where
  "IsDecimalDigit c \<longleftrightarrow> 48 \<le> byte_of c \<and> byte_of c \<le> 57"

definition IsAlnum :: "char \<Rightarrow> bool" where
  "IsAlnum c \<longleftrightarrow> IsAlpha c \<or> IsDecimalDigit c"

definition IsUpperHexDigit :: "char \<Rightarrow> bool" where
  "IsUpperHexDigit c \<longleftrightarrow>
     (48 \<le> byte_of c \<and> byte_of c \<le> 57) \<or> (65 \<le> byte_of c \<and> byte_of c \<le> 70)"

definition IsLower :: "char \<Rightarrow> bool" where
  "IsLower c \<longleftrightarrow> 97 \<le> byte_of c \<and> byte_of c \<le> 122"

definition newline :: char where "newline = CHR 0x0A"
definition tab :: char where "tab = CHR 0x09"
definition carriage_return :: char where "carriage_return = CHR 0x0D"
definition squote :: char where "squote = CHR 0x27"
definition dquote :: char where "dquote = CHR 0x22"
definition backslash :: char where "backslash = CHR 0x5C"

definition IsHorizontalWhitespace :: "char \<Rightarrow> bool" where
  "IsHorizontalWhitespace c \<longleftrightarrow> c = CHR '' '' \<or> c = tab"

definition IsVerticalWhitespace :: "char \<Rightarrow> bool" where
  "IsVerticalWhitespace c \<longleftrightarrow> c = newline"

definition IsSpace :: "char \<Rightarrow> bool" where
  "IsSpace c \<longleftrightarrow> IsHorizontalWhitespace c \<or> IsVerticalWhitespace c"

definition DigitLimit :: nat where
  "DigitLimit = 10000"

text \<open>
  \<open>CanLexInt\<close> reports a digit sequence above the limit; the caller's emitter receives
  the size and the limit.
\<close>

definition CanLexInt :: "string \<Rightarrow> bool" where
  "CanLexInt text \<longleftrightarrow> \<not> length text > DigitLimit"

lemmas special_chars = newline_def tab_def carriage_return_def squote_def dquote_def backslash_def

lemma byte_of_less [simp]: "byte_of c < 256"
  by (simp add: byte_of_def)

lemma byte_of_inject [simp]: "byte_of c = byte_of d \<longleftrightarrow> c = d"
  by (simp add: byte_of_def)

lemma IsLower_imp_IsAlnum: "IsLower c \<Longrightarrow> IsAlnum c"
  by (simp add: IsLower_def IsAlnum_def IsAlpha_def)

lemma not_IsAlnum_special:
  "\<not> IsAlnum (CHR ''.'')" "\<not> IsAlnum (CHR ''+'')" "\<not> IsAlnum (CHR ''-'')"
  "\<not> IsAlnum (CHR ''_'')" "\<not> IsAlnum (CHR ''$'')" "\<not> IsAlnum newline"
  by (simp_all add: IsAlnum_def IsAlpha_def IsDecimalDigit_def byte_of_def special_chars)

lemma not_IsLower_digit: "IsDecimalDigit c \<Longrightarrow> \<not> IsLower c"
  by (simp add: IsLower_def IsDecimalDigit_def)

end
