(* ===== verification/APInt_Interface.thy ===== *)
theory APInt_Interface
  imports Prelude
begin

text \<open>
  The arbitrary-precision integers of LLVM (\<open>llvm::APInt\<close>), which the repository uses and
  does not define. They are a parameter of the model: a record of the operations the code
  calls, and a locale with what their documentation promises of them, stated through the
  unsigned value \<open>uval\<close> of the bit pattern. Every definition that computes with an
  \<open>APInt\<close> takes the record as its first argument.

  The second half gives an instance (bit patterns as lists, least significant bit first),
  which shows that the promises can be met together and lets witnesses be evaluated.
\<close>

section \<open>The interface\<close>

record 'a apint_ops =
  ap_make :: "nat \<Rightarrow> int \<Rightarrow> 'a"
  ap_width :: "'a \<Rightarrow> nat"
  ap_set_bit :: "nat \<Rightarrow> 'a \<Rightarrow> 'a"
  ap_set_sign_bit :: "'a \<Rightarrow> 'a"
  ap_assign :: "64 word \<Rightarrow> 'a \<Rightarrow> 'a"
  ap_mul :: "'a \<Rightarrow> 64 word \<Rightarrow> 'a"
  ap_add :: "'a \<Rightarrow> 64 word \<Rightarrow> 'a"
  ap_sub :: "'a \<Rightarrow> 64 word \<Rightarrow> 'a"
  ap_negate :: "'a \<Rightarrow> 'a"
  ap_is_negative :: "'a \<Rightarrow> bool"
  ap_zext :: "nat \<Rightarrow> 'a \<Rightarrow> 'a"
  ap_sext_or_trunc :: "nat \<Rightarrow> 'a \<Rightarrow> 'a"
  ap_zext_or_trunc :: "nat \<Rightarrow> 'a \<Rightarrow> 'a"
  ap_significant_bits :: "'a \<Rightarrow> nat"
  ap_active_bits :: "'a \<Rightarrow> nat"
  ap_sge :: "'a \<Rightarrow> int \<Rightarrow> bool"
  ap_sle :: "'a \<Rightarrow> int \<Rightarrow> bool"
  ap_ule :: "'a \<Rightarrow> int \<Rightarrow> bool"
  ap_sext_value :: "'a \<Rightarrow> int"
  ap_zext_value :: "'a \<Rightarrow> int"

text \<open>The value of a bit pattern of width \<open>w\<close> read as two's complement.\<close>

definition signed_of :: "nat \<Rightarrow> int \<Rightarrow> int" where
  "signed_of w u = (if u < 2 ^ (w - 1) then u else u - 2 ^ w)"

text \<open>The mathematical value of a pattern read as a signed integer.\<close>

definition signed_val :: "'a apint_ops \<Rightarrow> ('a \<Rightarrow> int) \<Rightarrow> 'a \<Rightarrow> int" where
  "signed_val A uval x = signed_of (ap_width A x) (uval x)"

locale apint =
  fixes A :: "'a apint_ops" and uval :: "'a \<Rightarrow> int"
  assumes uval_range: "0 \<le> uval x" "uval x < 2 ^ ap_width A x"
    and value_unique: "ap_width A x = ap_width A y \<Longrightarrow> uval x = uval y \<Longrightarrow> x = y"
    and make: "ap_width A (ap_make A w v) = w" "uval (ap_make A w v) = v mod 2 ^ w"
    and set_bit: "i < ap_width A x \<Longrightarrow> ap_width A (ap_set_bit A i x) = ap_width A x"
      "i < ap_width A x \<Longrightarrow> uval (ap_set_bit A i x) = Bit_Operations.set_bit i (uval x)"
    and set_sign_bit: "ap_width A (ap_set_sign_bit A x) = ap_width A x"
      "0 < ap_width A x \<Longrightarrow>
       uval (ap_set_sign_bit A x) = Bit_Operations.set_bit (ap_width A x - 1) (uval x)"
    and assign: "ap_width A (ap_assign A c x) = ap_width A x"
      "uval (ap_assign A c x) = uint c mod 2 ^ ap_width A x"
    and mul: "ap_width A (ap_mul A x c) = ap_width A x"
      "uval (ap_mul A x c) = uval x * uint c mod 2 ^ ap_width A x"
    and add: "ap_width A (ap_add A x c) = ap_width A x"
      "uval (ap_add A x c) = (uval x + uint c) mod 2 ^ ap_width A x"
    and sub: "ap_width A (ap_sub A x c) = ap_width A x"
      "uval (ap_sub A x c) = (uval x - uint c) mod 2 ^ ap_width A x"
    and negate: "ap_width A (ap_negate A x) = ap_width A x"
      "uval (ap_negate A x) = (- uval x) mod 2 ^ ap_width A x"
    and is_negative: "0 < ap_width A x \<Longrightarrow>
       ap_is_negative A x \<longleftrightarrow> signed_of (ap_width A x) (uval x) < 0"
    and zext: "ap_width A x \<le> w \<Longrightarrow> ap_width A (ap_zext A w x) = w"
      "ap_width A x \<le> w \<Longrightarrow> uval (ap_zext A w x) = uval x"
    and sext_or_trunc: "ap_width A (ap_sext_or_trunc A w x) = w"
      "uval (ap_sext_or_trunc A w x) = signed_of (ap_width A x) (uval x) mod 2 ^ w"
    and zext_or_trunc: "ap_width A (ap_zext_or_trunc A w x) = w"
      "uval (ap_zext_or_trunc A w x) = uval x mod 2 ^ w"
    and significant_bits: "0 < ap_width A x \<Longrightarrow> 0 < n \<Longrightarrow>
       ap_significant_bits A x \<le> n \<longleftrightarrow>
         - (2 ^ (n - 1)) \<le> signed_of (ap_width A x) (uval x)
         \<and> signed_of (ap_width A x) (uval x) < 2 ^ (n - 1)"
    and significant_bits_pos: "0 < ap_width A x \<Longrightarrow> 0 < ap_significant_bits A x"
    and active_bits: "ap_active_bits A x \<le> n \<longleftrightarrow> uval x < 2 ^ n"
    and sge: "0 < ap_width A x \<Longrightarrow> ap_sge A x v \<longleftrightarrow> v \<le> signed_of (ap_width A x) (uval x)"
    and sle: "0 < ap_width A x \<Longrightarrow> ap_sle A x v \<longleftrightarrow> signed_of (ap_width A x) (uval x) \<le> v"
    and ule: "0 \<le> v \<Longrightarrow> ap_ule A x v \<longleftrightarrow> uval x \<le> v"
    and sext_value: "0 < ap_width A x \<Longrightarrow> ap_significant_bits A x \<le> 64 \<Longrightarrow>
       ap_sext_value A x = signed_of (ap_width A x) (uval x)"
    and zext_value: "ap_active_bits A x \<le> 64 \<Longrightarrow> ap_zext_value A x = uval x"
begin

abbreviation sval :: "'a \<Rightarrow> int" where
  "sval \<equiv> signed_val A uval"

lemmas sval_def = signed_val_def [of A uval]

lemma sval_mod: "sval x mod 2 ^ ap_width A x = uval x"
  using uval_range [of x] by (simp add: sval_def signed_of_def)

lemma sval_nonneg: "uval x < 2 ^ (ap_width A x - 1) \<Longrightarrow> sval x = uval x"
  by (simp add: sval_def signed_of_def)

end

section \<open>Two's complement arithmetic\<close>

lemma signed_of_mod:
  fixes v :: int
  assumes "0 < w" "- (2 ^ (w - 1)) \<le> v" "v < 2 ^ (w - 1)"
  shows "signed_of w (v mod 2 ^ w) = v"
proof -
  have w: "(2::int) ^ w = 2 * 2 ^ (w - 1)"
    using assms(1) by (cases w) auto
  have m: "v mod 2 ^ w = (if 0 \<le> v then v else v + 2 ^ w)"
  proof (cases "0 \<le> v")
    case True
    with assms(3) w show ?thesis by simp
  next
    case False
    have "v mod 2 ^ w = (v + 2 ^ w) mod 2 ^ w" by simp
    also have "\<dots> = v + 2 ^ w"
      using False assms(2) w by (intro mod_pos_pos_trivial) auto
    finally show ?thesis using False by simp
  qed
  show ?thesis
    unfolding m signed_of_def using assms(2,3) w by auto
qed

lemma signed_of_range:
  fixes u :: int
  assumes "0 < w" "0 \<le> u" "u < 2 ^ w"
  shows "- (2 ^ (w - 1)) \<le> signed_of w u" "signed_of w u < 2 ^ (w - 1)"
proof -
  have w: "(2::int) ^ w = 2 * 2 ^ (w - 1)"
    using assms(1) by (cases w) auto
  have "(0::int) < 2 ^ (w - 1)" by simp
  then show "- (2 ^ (w - 1)) \<le> signed_of w u" "signed_of w u < 2 ^ (w - 1)"
    using assms(2,3) w by (auto simp: signed_of_def simp del: zero_less_power)
qed

section \<open>Bit lists as an instance\<close>

definition bits_uval :: "bool list \<Rightarrow> int" where
  "bits_uval bs = horner_sum of_bool 2 bs"

definition bits_of :: "nat \<Rightarrow> int \<Rightarrow> bool list" where
  "bits_of w v = map (bit v) [0..<w]"

definition bits_sval :: "bool list \<Rightarrow> int" where
  "bits_sval bs = signed_of (length bs) (bits_uval bs)"

definition bits_of_signed_value :: "int \<Rightarrow> nat" where
  "bits_of_signed_value v = Suc (floorlog 2 (nat (if 0 \<le> v then v else - v - 1)))"

definition apint_bits :: "bool list apint_ops" where
  "apint_bits = \<lparr>
     ap_make = bits_of,
     ap_width = length,
     ap_set_bit = (\<lambda>i x. x[i := True]),
     ap_set_sign_bit = (\<lambda>x. x[length x - 1 := True]),
     ap_assign = (\<lambda>v x. bits_of (length x) (uint v)),
     ap_mul = (\<lambda>x v. bits_of (length x) (bits_uval x * uint v)),
     ap_add = (\<lambda>x v. bits_of (length x) (bits_uval x + uint v)),
     ap_sub = (\<lambda>x v. bits_of (length x) (bits_uval x - uint v)),
     ap_negate = (\<lambda>x. bits_of (length x) (- bits_uval x)),
     ap_is_negative = (\<lambda>x. bits_sval x < 0),
     ap_zext = (\<lambda>w x. bits_of w (bits_uval x)),
     ap_sext_or_trunc = (\<lambda>w x. bits_of w (bits_sval x)),
     ap_zext_or_trunc = (\<lambda>w x. bits_of w (bits_uval x)),
     ap_significant_bits = (\<lambda>x. bits_of_signed_value (bits_sval x)),
     ap_active_bits = (\<lambda>x. floorlog 2 (nat (bits_uval x))),
     ap_sge = (\<lambda>x v. v \<le> bits_sval x),
     ap_sle = (\<lambda>x v. bits_sval x \<le> v),
     ap_ule = (\<lambda>x v. bits_uval x \<le> v),
     ap_sext_value = bits_sval,
     ap_zext_value = bits_uval \<rparr>"

lemma length_bits_of [simp]: "length (bits_of w v) = w"
  by (simp add: bits_of_def)

lemma bits_uval_bits_of [simp]: "bits_uval (bits_of w v) = v mod 2 ^ w"
  by (simp add: bits_uval_def bits_of_def horner_sum_bit_eq_take_bit take_bit_eq_mod)

lemma bit_bits_uval: "bit (bits_uval bs) n \<longleftrightarrow> n < length bs \<and> bs ! n"
  by (simp add: bits_uval_def bit_horner_sum_bit_iff)

lemma bits_of_bits_uval [simp]: "bits_of (length bs) (bits_uval bs) = bs"
  by (rule nth_equalityI) (simp_all add: bits_of_def bit_bits_uval)

lemma bits_uval_range: "0 \<le> bits_uval bs" "bits_uval bs < 2 ^ length bs"
proof -
  have "bits_uval bs = bits_uval bs mod 2 ^ length bs"
    using bits_uval_bits_of [of "length bs" "bits_uval bs"] by simp
  then show "0 \<le> bits_uval bs" "bits_uval bs < 2 ^ length bs"
    by (metis pos_mod_sign zero_less_numeral zero_less_power,
        metis pos_mod_bound zero_less_numeral zero_less_power)
qed

lemma bits_uval_update:
  "i < length bs \<Longrightarrow> bits_uval (bs[i := True]) = Bit_Operations.set_bit i (bits_uval bs)"
  by (rule bit_eqI) (auto simp: bit_bits_uval bit_set_bit_iff nth_list_update)

lemma floorlog_nat_le: "0 \<le> u \<Longrightarrow> floorlog 2 (nat u) \<le> n \<longleftrightarrow> u < 2 ^ n"
proof -
  assume "0 \<le> u"
  have "floorlog 2 (nat u) \<le> n \<longleftrightarrow> nat u < 2 ^ n"
    by (simp add: floorlog_le_iff)
  also have "\<dots> \<longleftrightarrow> u < 2 ^ n"
    using \<open>0 \<le> u\<close> nat_less_iff [of u "2 ^ n"] by simp
  finally show ?thesis .
qed

lemma bits_of_signed_value_pos [simp]: "0 < bits_of_signed_value v"
  by (simp add: bits_of_signed_value_def)

lemma bits_of_signed_value_le:
  assumes "0 < n"
  shows "bits_of_signed_value v \<le> n \<longleftrightarrow> - (2 ^ (n - 1)) \<le> v \<and> v < 2 ^ (n - 1)"
proof -
  let ?u = "if 0 \<le> v then v else - v - 1"
  have "bits_of_signed_value v \<le> n \<longleftrightarrow> floorlog 2 (nat ?u) \<le> n - 1"
    unfolding bits_of_signed_value_def using assms by (cases n) auto
  also have "\<dots> \<longleftrightarrow> ?u < 2 ^ (n - 1)"
    by (rule floorlog_nat_le) auto
  also have "\<dots> \<longleftrightarrow> - (2 ^ (n - 1)) \<le> v \<and> v < 2 ^ (n - 1)"
  proof -
    have "(0::int) < 2 ^ (n - 1)" by simp
    then show ?thesis by (cases "0 \<le> v") auto
  qed
  finally show ?thesis .
qed

interpretation bits: apint apint_bits bits_uval
proof (unfold_locales, goal_cases)
  case (3 x y)
  then have "bits_of (length x) (bits_uval x) = bits_of (length y) (bits_uval y)"
    by (simp add: apint_bits_def)
  then show ?case by simp
qed (auto simp: apint_bits_def bits_uval_range bits_uval_update bits_sval_def
       floorlog_nat_le bits_of_signed_value_le
     intro!: mod_pos_pos_trivial less_le_trans [OF bits_uval_range(2)] pow2_mono)

end
