(* ===== verification/Numeric_Literal.thy ===== *)
theory Numeric_Literal
  imports Character_Set APInt_Interface Complex_Main
begin

text \<open>
  Numeric literals: \<open>toolchain/lex/numeric_literal.{h,cpp}\<close>.

  \<^item> \<open>NumericLiteral_Lex\<close> is the greedy scan that delimits a literal.
  \<^item> \<open>Parser_*\<close> are the members of \<open>NumericLiteral::Parser\<close>; a \<open>StringRef\<close> member into the
    literal is a pair of its offset in the literal's text and its bytes, so that
    \<open>GetMantissa\<close> can do the code's pointer arithmetic and diagnostics have locations.
  \<^item> \<open>ParseBinary\<close>, \<open>ParseOctalOrHexadecimal\<close>, \<open>ParseDecimal\<close>, \<open>ParseInt\<close> are the
    hand-written conversions to \<open>APInt\<close>.
  The lemmas show that the scan never fails its check and delimits a maximal prefix, that
  the conversions compute the mathematical value of the digits without wrap-around, that
  the checks accept exactly the documented digit sequences, and that a real literal's
  mantissa and exponent denote the written number.
\<close>

section \<open>Data\<close>

datatype Radix = Binary | Octal | Decimal | Hexadecimal

fun radix_int :: "Radix \<Rightarrow> nat" where
  "radix_int Binary = 2"
| "radix_int Octal = 8"
| "radix_int Decimal = 10"
| "radix_int Hexadecimal = 16"

record NumericLiteral =
  nl_text :: string
  nl_radix_point :: nat
  nl_exponent :: nat

datatype 'a Value =
    IntValue 'a
  | RealValue Radix 'a 'a
  | UnrecoverableError

datatype numeric_diag =
    InvalidDigitSeparator
  | InvalidDigit char nat
  | EmptyDigitSequence
  | TooManyDigits nat nat
  | UnknownBaseSpecifier
  | InvalidRealLiteralRadix nat
  | WrongRealLiteralExponent char

text \<open>A view into the literal's text: where it begins and its bytes.\<close>

type_synonym sref = "nat \<times> string"

section \<open>The scan\<close>

record scan =
  seen_plus_minus :: bool
  seen_radix_point :: bool
  seen_potential_exponent :: bool
  scan_radix_point :: nat
  scan_exponent :: nat

definition initial_scan :: scan where
  "initial_scan = \<lparr>seen_plus_minus = False, seen_radix_point = False,
     seen_potential_exponent = False, scan_radix_point = 0, scan_exponent = 0\<rparr>"

text \<open>The body of the loop: the state to go on with, or \<open>None\<close> for \<open>break\<close>.\<close>

definition scan_step :: "string \<Rightarrow> bool \<Rightarrow> nat \<Rightarrow> scan \<Rightarrow> scan option outcome" where
  "scan_step s can_form_real i st =
     (let c = s ! i; n = length s in
      if IsAlnum c \<or> c = CHR ''_'' \<or> c = CHR ''$'' then
        Ret (Some (if IsLower c \<and> seen_radix_point st \<and> \<not> seen_plus_minus st
                   then st\<lparr>scan_exponent := i, seen_potential_exponent := True\<rparr> else st))
      else if c = CHR ''.'' \<and> can_form_real \<and> i + 1 \<noteq> n \<and> IsAlnum (s ! (i + 1))
              \<and> \<not> seen_radix_point st then
        Ret (Some (st\<lparr>scan_radix_point := i, seen_radix_point := True\<rparr>))
      else if (c = CHR ''+'' \<or> c = CHR ''-'') \<and> seen_potential_exponent st
              \<and> scan_exponent st = i - 1 \<and> i + 1 \<noteq> n \<and> IsAlnum (s ! (i + 1)) then
        carbon_check (\<not> seen_plus_minus st) (Ret (Some (st\<lparr>seen_plus_minus := True\<rparr>)))
      else Ret None)"

function scan_loop :: "string \<Rightarrow> bool \<Rightarrow> nat \<Rightarrow> scan \<Rightarrow> (nat \<times> scan) outcome" where
  "scan_loop s can_form_real i st =
     (if length s \<le> i then Ret (i, st)
      else bind_outcome (scan_step s can_form_real i st) (\<lambda>next.
        case next of None \<Rightarrow> Ret (i, st)
        | Some st' \<Rightarrow> scan_loop s can_form_real (i + 1) st'))"
  by pat_completeness auto
termination
  by (relation "measure (\<lambda>(s, r, i, st). length s - i)") auto

declare scan_loop.simps [simp del]

definition NumericLiteral_Lex :: "string \<Rightarrow> bool \<Rightarrow> NumericLiteral option outcome" where
  "NumericLiteral_Lex source_text can_form_real_literal =
     (if source_text = [] \<or> \<not> IsDecimalDigit (hd source_text) then Ret None
      else bind_outcome (scan_loop source_text can_form_real_literal 1 initial_scan) (\<lambda>(i, st).
        Ret (Some \<lparr>nl_text = take i source_text,
          nl_radix_point = (if seen_radix_point st then scan_radix_point st else i),
          nl_exponent = (if seen_potential_exponent st then scan_exponent st else i)\<rparr>)))"

section \<open>Conversion of digits\<close>

definition MinAPWidth :: nat where
  "MinAPWidth = 64"

fun ParseBinary_loop :: "'a apint_ops \<Rightarrow> string \<Rightarrow> int \<Rightarrow> 'a \<Rightarrow> 'a" where
  "ParseBinary_loop A [] cursor value = value"
| "ParseBinary_loop A (c # cs) cursor value =
     ParseBinary_loop A cs (cursor - 1)
       (if c = CHR ''1'' then ap_set_bit A (nat cursor) value else value)"

definition ParseBinary :: "'a apint_ops \<Rightarrow> string \<Rightarrow> bool \<Rightarrow> 'a" where
  "ParseBinary A digits is_signed =
     ParseBinary_loop A digits (int (length digits) - 1)
       (ap_make A (max MinAPWidth (length digits + of_bool is_signed)) 0)"

text \<open>The \<open>uint8_t\<close> value of one octal or hexadecimal digit.\<close>

definition digit_value :: "Radix \<Rightarrow> char \<Rightarrow> nat" where
  "digit_value radix c =
     nat ((if radix = Octal then char_int c - 48
           else if char_int c \<le> 57 then char_int c - 48 else char_int c - 65 + 10) mod 256)"

definition set_bit_if :: "'a apint_ops \<Rightarrow> bool \<Rightarrow> int \<Rightarrow> 'a \<Rightarrow> 'a" where
  "set_bit_if A b cursor value = (if b then ap_set_bit A (nat cursor) value else value)"

fun ParseOctalOrHexadecimal_loop ::
    "'a apint_ops \<Rightarrow> Radix \<Rightarrow> string \<Rightarrow> int \<Rightarrow> 'a \<Rightarrow> 'a" where
  "ParseOctalOrHexadecimal_loop A radix [] cursor value = value"
| "ParseOctalOrHexadecimal_loop A radix (c # cs) cursor value =
     (let digit = digit_value radix c;
          (cursor, value) =
            (if radix = Octal then (cursor, value)
             else (cursor - 1, set_bit_if A (bit digit 3) cursor value));
          value = set_bit_if A (bit digit 2) cursor value;
          value = set_bit_if A (bit digit 1) (cursor - 1) value;
          value = set_bit_if A (bit digit 0) (cursor - 2) value
      in ParseOctalOrHexadecimal_loop A radix cs (cursor - 3) value)"

definition BitsPerDigit :: "Radix \<Rightarrow> nat" where
  "BitsPerDigit radix = (if radix = Hexadecimal then 4 else 3)"

definition ParseOctalOrHexadecimal :: "'a apint_ops \<Rightarrow> Radix \<Rightarrow> string \<Rightarrow> bool \<Rightarrow> 'a" where
  "ParseOctalOrHexadecimal A radix digits is_signed =
     ParseOctalOrHexadecimal_loop A radix digits
       (int (length digits * BitsPerDigit radix) - 1)
       (ap_make A (max MinAPWidth (length digits * BitsPerDigit radix + of_bool is_signed)) 0)"

fun ParseDecimalChunk_loop :: "64 word \<Rightarrow> string \<Rightarrow> 64 word" where
  "ParseDecimalChunk_loop chunk_val [] = chunk_val"
| "ParseDecimalChunk_loop chunk_val (c # cs) =
     ParseDecimalChunk_loop (chunk_val * 10 + word_of_int (char_int c - 48)) cs"

definition ParseDecimalChunk :: "string \<Rightarrow> 64 word" where
  "ParseDecimalChunk digits = ParseDecimalChunk_loop 0 digits"

text \<open>
  \<open>std::ceil(n * std::log2(10))\<close>. The product is computed in double precision; its error is
  far below the distance of \<open>n * log2 10\<close> from an integer for the sizes that pass
  \<open>CanLexInt\<close>, so the rounded result is the exact ceiling, the least number of bits whose
  range holds all \<open>n\<close>-digit numbers.
\<close>

definition decimal_bits :: "nat \<Rightarrow> nat" where
  "decimal_bits n = ceillog2 (10 ^ n)"

definition DigitsPerChunk :: nat where
  "DigitsPerChunk = 19"

definition Mult :: "64 word" where
  "Mult = 10000000000000000000"

function ParseDecimal_loop :: "'a apint_ops \<Rightarrow> string \<Rightarrow> 'a \<Rightarrow> 'a" where
  "ParseDecimal_loop A digits value =
     (if digits = [] then value
      else ParseDecimal_loop A (drop DigitsPerChunk digits)
        (ap_add A (ap_mul A value Mult) (ParseDecimalChunk (take DigitsPerChunk digits))))"
  by pat_completeness auto
termination
  by (relation "measure (\<lambda>(A, digits, value). length digits)")
    (auto simp: DigitsPerChunk_def)

declare ParseDecimal_loop.simps [simp del]

definition ParseDecimal :: "'a apint_ops \<Rightarrow> string \<Rightarrow> bool \<Rightarrow> 'a" where
  "ParseDecimal A digits is_signed =
     (let value = ap_make A (max MinAPWidth (decimal_bits (length digits) + of_bool is_signed)) 0
      in if length digits \<le> DigitsPerChunk then ap_assign A (ParseDecimalChunk digits) value
         else let first_chunk_size = length digits mod DigitsPerChunk;
                  first_chunk_size = (if first_chunk_size = 0 then DigitsPerChunk
                                      else first_chunk_size);
                  value = ap_assign A (ParseDecimalChunk (take first_chunk_size digits)) value
              in ParseDecimal_loop A (drop first_chunk_size digits) value)"

definition ParseInt :: "'a apint_ops \<Rightarrow> string \<Rightarrow> Radix \<Rightarrow> bool \<Rightarrow> bool \<Rightarrow> 'a" where
  "ParseInt A digits radix needs_cleaning is_signed =
     (let digits = (if needs_cleaning
                    then filter (\<lambda>c. c \<noteq> CHR ''_'' \<and> c \<noteq> CHR ''.'') digits else digits);
          digits = dropWhile (\<lambda>c. c = CHR ''0'') digits
      in case radix of
           Binary \<Rightarrow> ParseBinary A digits is_signed
         | Octal \<Rightarrow> ParseOctalOrHexadecimal A Octal digits is_signed
         | Decimal \<Rightarrow> ParseDecimal A digits is_signed
         | Hexadecimal \<Rightarrow> ParseOctalOrHexadecimal A Hexadecimal digits is_signed)"

section \<open>The literal's parser\<close>

record Parser =
  p_literal :: NumericLiteral
  p_radix :: Radix
  p_int_part :: sref
  p_fract_part :: sref
  p_exponent_part :: sref
  p_mantissa_needs_cleaning :: bool
  p_exponent_needs_cleaning :: bool
  p_exponent_is_negative :: bool

definition consume_front :: "string \<Rightarrow> sref \<Rightarrow> sref option" where
  "consume_front p v =
     (if starts_with (snd v) p then Some (fst v + length p, drop (length p) (snd v)) else None)"

definition view :: "string \<Rightarrow> nat \<Rightarrow> nat \<Rightarrow> sref" where
  "view text start n = (min start (length text), substr text start n)"

definition Parser_init :: "NumericLiteral \<Rightarrow> Parser" where
  "Parser_init lit =
     (let text = nl_text lit;
          int_part = view text 0 (nl_radix_point lit);
          (radix, int_part) =
            (case consume_front ''0x'' int_part of Some v \<Rightarrow> (Hexadecimal, v)
             | None \<Rightarrow> (case consume_front ''0b'' int_part of Some v \<Rightarrow> (Binary, v)
             | None \<Rightarrow> (case consume_front ''0o'' int_part of Some v \<Rightarrow> (Octal, v)
             | None \<Rightarrow> (Decimal, int_part))));
          fract_part = view text (nl_radix_point lit + 1)
                         (nl_exponent lit - nl_radix_point lit - 1);
          exponent_part = view text (nl_exponent lit + 1) (length text);
          (exponent_is_negative, exponent_part) =
            (case consume_front ''+'' exponent_part of Some v \<Rightarrow> (False, v)
             | None \<Rightarrow> (case consume_front ''-'' exponent_part of Some v \<Rightarrow> (True, v)
             | None \<Rightarrow> (False, exponent_part)))
      in \<lparr>p_literal = lit, p_radix = radix, p_int_part = int_part, p_fract_part = fract_part,
          p_exponent_part = exponent_part, p_mantissa_needs_cleaning = False,
          p_exponent_needs_cleaning = False, p_exponent_is_negative = exponent_is_negative\<rparr>)"

definition IsInt :: "Parser \<Rightarrow> bool" where
  "IsInt p \<longleftrightarrow> nl_radix_point (p_literal p) = length (nl_text (p_literal p))"

definition valid_digit :: "Radix \<Rightarrow> char \<Rightarrow> bool" where
  "valid_digit radix c \<longleftrightarrow> c \<in> set (take (radix_int radix) ''0123456789ABCDEF'')"

text \<open>
  The loop of \<open>CheckDigitSequence\<close>: \<open>None\<close> when it returned at an invalid digit, otherwise
  the number of digit separators.
\<close>

function CheckDigitSequence_loop ::
    "sref \<Rightarrow> Radix \<Rightarrow> bool \<Rightarrow> nat \<Rightarrow> nat \<Rightarrow> numeric_diag emitted \<Rightarrow> nat option \<times> numeric_diag emitted"
where
  "CheckDigitSequence_loop v radix allow_seps i num ds =
     (let text = snd v; n = length text in
      if n \<le> i then (Some num, ds)
      else let c = text ! i in
        if valid_digit radix c then CheckDigitSequence_loop v radix allow_seps (i + 1) num ds
        else if c = CHR ''_'' then
          CheckDigitSequence_loop v radix allow_seps (i + 1) (num + 1)
            (if \<not> allow_seps \<or> i = 0 \<or> text ! (i - 1) = CHR ''_'' \<or> i + 1 = n
             then ds @ [(fst v + i, InvalidDigitSeparator)] else ds)
        else (None, ds @ [(fst v + i, InvalidDigit c (radix_int radix))]))"
  by pat_completeness auto
termination
  by (relation "measure (\<lambda>(v, radix, allow, i, num, ds). length (snd v) - i)") auto

declare CheckDigitSequence_loop.simps [simp del]

text \<open>The result: whether the sequence is ok, and whether it has digit separators.\<close>

definition CheckDigitSequence ::
    "sref \<Rightarrow> Radix \<Rightarrow> bool \<Rightarrow> numeric_diag emitted \<Rightarrow> (bool \<times> bool) \<times> numeric_diag emitted"
where
  "CheckDigitSequence v radix allow_seps ds =
     (case CheckDigitSequence_loop v radix allow_seps 0 0 ds of
        (None, ds) \<Rightarrow> ((False, False), ds)
      | (Some num, ds) \<Rightarrow>
          if num = length (snd v) then ((False, False), ds @ [(fst v, EmptyDigitSequence)])
          else if \<not> CanLexInt (snd v)
            then ((False, False), ds @ [(fst v, TooManyDigits (length (snd v)) DigitLimit)])
          else ((True, num \<noteq> 0), ds))"

definition CheckLeadingZero ::
    "Parser \<Rightarrow> numeric_diag emitted \<Rightarrow> bool \<times> numeric_diag emitted" where
  "CheckLeadingZero p ds =
     (if p_radix p = Decimal \<and> starts_with (snd (p_int_part p)) ''0''
         \<and> snd (p_int_part p) \<noteq> ''0''
      then (False, ds @ [(fst (p_int_part p), UnknownBaseSpecifier)]) else (True, ds))"

definition CheckIntPart ::
    "Parser \<Rightarrow> numeric_diag emitted \<Rightarrow> bool \<times> Parser \<times> numeric_diag emitted" where
  "CheckIntPart p ds =
     (case CheckDigitSequence (p_int_part p) (p_radix p) True ds of
        ((ok, seps), ds) \<Rightarrow>
          (ok, p\<lparr>p_mantissa_needs_cleaning := p_mantissa_needs_cleaning p \<or> seps\<rparr>, ds))"

definition CheckFractionalPart ::
    "Parser \<Rightarrow> numeric_diag emitted \<Rightarrow> bool \<times> Parser \<times> numeric_diag emitted" where
  "CheckFractionalPart p ds =
     (if IsInt p then (True, p, ds)
      else let ds = (if p_radix p = Binary \<or> p_radix p = Octal
                     then ds @ [(nl_radix_point (p_literal p),
                                 InvalidRealLiteralRadix (radix_int (p_radix p)))] else ds);
               p = p\<lparr>p_mantissa_needs_cleaning := True\<rparr>
           in case CheckDigitSequence (p_fract_part p) (p_radix p) False ds of
                ((ok, seps), ds) \<Rightarrow> (ok, p, ds))"

definition CheckExponentPart ::
    "Parser \<Rightarrow> numeric_diag emitted \<Rightarrow> bool \<times> Parser \<times> numeric_diag emitted" where
  "CheckExponentPart p ds =
     (let lit = p_literal p in
      if nl_exponent lit = length (nl_text lit) then (True, p, ds)
      else let expected = (if p_radix p = Decimal then CHR ''e'' else CHR ''p'') in
        if nl_text lit ! nl_exponent lit \<noteq> expected
        then (False, p, ds @ [(nl_exponent lit, WrongRealLiteralExponent expected)])
        else case CheckDigitSequence (p_exponent_part p) Decimal True ds of
               ((ok, seps), ds) \<Rightarrow> (ok, p\<lparr>p_exponent_needs_cleaning := seps\<rparr>, ds))"

definition Check :: "Parser \<Rightarrow> numeric_diag emitted \<Rightarrow> bool \<times> Parser \<times> numeric_diag emitted" where
  "Check p ds =
     (case CheckLeadingZero p ds of (ok, ds) \<Rightarrow>
        if \<not> ok then (False, p, ds)
        else case CheckIntPart p ds of (ok, p, ds) \<Rightarrow>
          if \<not> ok then (False, p, ds)
          else case CheckFractionalPart p ds of (ok, p, ds) \<Rightarrow>
            if \<not> ok then (False, p, ds) else CheckExponentPart p ds)"

definition view_end :: "sref \<Rightarrow> nat" where
  "view_end v = fst v + length (snd v)"

definition GetMantissa :: "'a apint_ops \<Rightarrow> Parser \<Rightarrow> 'a" where
  "GetMantissa A p =
     (let last = (if IsInt p then view_end (p_int_part p) else view_end (p_fract_part p));
          begin = fst (p_int_part p)
      in ParseInt A (substr (nl_text (p_literal p)) begin (last - begin)) (p_radix p)
           (p_mantissa_needs_cleaning p) True)"

definition GetExponent :: "'a apint_ops \<Rightarrow> Parser \<Rightarrow> 'a outcome" where
  "GetExponent A p =
     (let exponent =
            (if snd (p_exponent_part p) \<noteq> []
             then let e = ParseInt A (snd (p_exponent_part p)) Decimal
                            (p_exponent_needs_cleaning p) True
                  in if p_exponent_is_negative p then ap_negate A e else e
             else ap_make A MinAPWidth 0);
          excess_exponent = length (snd (p_fract_part p))
            * (if p_radix p = Hexadecimal then 4 else if p_radix p = Octal then 3 else 1);
          exponent = ap_sub A exponent (word_of_int (int excess_exponent))
      in carbon_check (64 \<le> ap_width A exponent)
           (Ret (if p_exponent_is_negative p \<and> \<not> ap_is_negative A exponent
                 then ap_set_sign_bit A (ap_zext A (ap_width A exponent + 1) exponent)
                 else exponent)))"

definition ComputeValue ::
    "'a apint_ops \<Rightarrow> NumericLiteral \<Rightarrow> ('a Value \<times> numeric_diag emitted) outcome" where
  "ComputeValue A lit =
     (case Check (Parser_init lit) [] of (ok, p, ds) \<Rightarrow>
        if \<not> ok then Ret (UnrecoverableError, ds)
        else if IsInt p then Ret (IntValue (GetMantissa A p), ds)
        else bind_outcome (GetExponent A p) (\<lambda>e.
          Ret (RealValue (if p_radix p = Decimal then Decimal else Binary)
                 (GetMantissa A p) e, ds)))"

section \<open>The scan delimits a literal\<close>
definition scan_inv :: "string \<Rightarrow> nat \<Rightarrow> scan \<Rightarrow> bool" where
  "scan_inv s i st \<longleftrightarrow>
     (seen_radix_point st \<longrightarrow> 0 < scan_radix_point st \<and> scan_radix_point st < i
          \<and> s ! scan_radix_point st = CHR ''.'')
     \<and> (seen_potential_exponent st \<longrightarrow> seen_radix_point st
          \<and> scan_radix_point st < scan_exponent st \<and> scan_exponent st < i)
     \<and> (seen_plus_minus st \<longrightarrow> seen_potential_exponent st \<and> scan_exponent st + 1 < i)"

lemma scan_step_cases:
  assumes "scan_step s r i st = res"
  obtains (stop) "res = Ret None"
  | (same) "res = Ret (Some st)"
  | (exponent) "res = Ret (Some (st\<lparr>scan_exponent := i, seen_potential_exponent := True\<rparr>))"
      "seen_radix_point st" "\<not> seen_plus_minus st"
  | (point) "res = Ret (Some (st\<lparr>scan_radix_point := i, seen_radix_point := True\<rparr>))"
      "\<not> seen_radix_point st" "s ! i = CHR ''.''"
  | (sign) "res = carbon_check (\<not> seen_plus_minus st) (Ret (Some (st\<lparr>seen_plus_minus := True\<rparr>)))"
      "seen_potential_exponent st" "scan_exponent st = i - 1"
  using assms unfolding scan_step_def Let_def by (simp split: if_splits)

lemma scan_step_inv:
  "scan_inv s i st \<Longrightarrow> 0 < i \<Longrightarrow>
   \<exists>nxt. scan_step s r i st = Ret nxt \<and> (\<forall>st'. nxt = Some st' \<longrightarrow> scan_inv s (i + 1) st')"
  by (rule scan_step_cases [OF refl, of s r i st])
    (simp_all add: scan_inv_def carbon_check_def, auto)

lemma scan_loop_inv:
  "scan_inv s i st \<Longrightarrow> 0 < i \<Longrightarrow> i \<le> length s \<Longrightarrow>
   \<exists>j st'. scan_loop s r i st = Ret (j, st') \<and> i \<le> j \<and> j \<le> length s \<and> scan_inv s j st'"
proof (induction s r i st rule: scan_loop.induct)
  case (1 s r i st)
  obtain nxt where nxt: "scan_step s r i st = Ret nxt"
    and inv: "\<And>st'. nxt = Some st' \<Longrightarrow> scan_inv s (i + 1) st'"
    using scan_step_inv [OF "1.prems"(1,2)] by blast
  show ?case
  proof (cases "length s \<le> i \<or> nxt = None")
    case True
    with nxt "1.prems" show ?thesis by (auto simp: scan_loop.simps [of s r i st])
  next
    case False
    then obtain st' where st': "nxt = Some st'" and less: "i < length s" by auto
    then have eq: "scan_loop s r i st = scan_loop s r (i + 1) st'"
      by (simp add: scan_loop.simps [of s r i st] nxt)
    from "1.IH" [OF _ nxt st'] less inv [OF st'] show ?thesis
      by (fastforce simp: eq)
  qed
qed


section \<open>The conversions compute the value of the digits\<close>

definition digit_of :: "char \<Rightarrow> int" where
  "digit_of c = (if char_int c \<le> 57 then char_int c - 48 else char_int c - 55)"

fun digits_val :: "nat \<Rightarrow> string \<Rightarrow> int" where
  "digits_val b [] = 0"
| "digits_val b (c # cs) = digit_of c * int b ^ length cs + digits_val b cs"

lemma digits_val_append:
  "digits_val b (xs @ ys) = digits_val b xs * int b ^ length ys + digits_val b ys"
  by (induction xs) (auto simp: power_add algebra_simps)

lemma valid_digit_range:
  assumes "valid_digit radix c"
  shows "0 \<le> digit_of c" "digit_of c < int (radix_int radix)"
  using assms
  by (cases radix; auto simp: valid_digit_def digit_of_def char_int_def byte_of_def)+

lemma valid_digit_not_sep: "valid_digit radix c \<Longrightarrow> c \<noteq> CHR ''_'' \<and> c \<noteq> CHR ''.''"
  by (cases radix) (auto simp: valid_digit_def)

lemma valid_digit_value:
  assumes "valid_digit radix c" "radix = Octal \<or> radix = Hexadecimal"
  shows "int (digit_value radix c) = digit_of c"
proof -
  have "char_int c \<le> 57" if "radix = Octal"
    using assms(1) that by (auto simp: valid_digit_def char_int_def byte_of_def)
  then have "digit_value radix c = nat (digit_of c mod 256)"
    by (auto simp: digit_value_def digit_of_def)
  moreover have "digit_of c mod 256 = digit_of c"
    using valid_digit_range [OF assms(1)] by (cases radix) auto
  ultimately show ?thesis using valid_digit_range(1) [OF assms(1)] by simp
qed

lemma digits_val_range:
  assumes "\<forall>c \<in> set cs. valid_digit radix c"
  shows "0 \<le> digits_val (radix_int radix) cs"
    "digits_val (radix_int radix) cs < int (radix_int radix) ^ length cs"
proof -
  have pos: "0 < int (radix_int radix)" by (cases radix) auto
  have "0 \<le> digits_val (radix_int radix) cs
      \<and> digits_val (radix_int radix) cs < int (radix_int radix) ^ length cs"
    using assms
  proof (induction cs)
    case (Cons c cs)
    let ?b = "int (radix_int radix)"
    have d: "0 \<le> digit_of c" "digit_of c \<le> ?b - 1"
      using valid_digit_range [of radix c] Cons.prems by auto
    have "digit_of c * ?b ^ length cs \<le> (?b - 1) * ?b ^ length cs"
      using d(2) pos by (intro mult_right_mono) auto
    then show ?case using Cons d(1) pos by (auto simp: algebra_simps)
  qed simp
  then show "0 \<le> digits_val (radix_int radix) cs"
    "digits_val (radix_int radix) cs < int (radix_int radix) ^ length cs" by auto
qed

lemma digits_val_dropWhile_zero:
  "digits_val b (dropWhile (\<lambda>c. c = CHR ''0'') cs) = digits_val b cs"
  by (induction cs) (auto simp: digit_of_def char_int_def byte_of_def)

context apint
begin

lemma set_bit_if_uval:
  assumes "int k = cursor" "k < ap_width A v" "2 ^ Suc k dvd uval v"
  shows "ap_width A (set_bit_if A b cursor v) = ap_width A v"
    "uval (set_bit_if A b cursor v) = uval v + of_bool b * 2 ^ k"
proof -
  have "nat cursor = k" using assms(1) by simp
  with assms(2,3) show "ap_width A (set_bit_if A b cursor v) = ap_width A v"
    "uval (set_bit_if A b cursor v) = uval v + of_bool b * 2 ^ k"
    by (simp_all add: set_bit_if_def set_bit set_bit_above_multiple)
qed

lemma ParseBinary_loop_uval:
  assumes "\<forall>c \<in> set cs. valid_digit Binary c" "length cs \<le> ap_width A v"
    "2 ^ length cs dvd uval v"
  shows "ap_width A (ParseBinary_loop A cs (int (length cs) - 1) v) = ap_width A v
    \<and> uval (ParseBinary_loop A cs (int (length cs) - 1) v) = uval v + digits_val 2 cs"
  using assms
proof (induction cs arbitrary: v)
  case (Cons c cs)
  define v1 where "v1 = set_bit_if A (c = CHR ''1'') (int (length cs)) v"
  have "valid_digit Binary c" using Cons.prems(1) by simp
  then have d: "digit_of c = of_bool (c = CHR ''1'')"
    by (auto simp: valid_digit_def digit_of_def char_int_def byte_of_def)
  have v1: "ap_width A v1 = ap_width A v" "uval v1 = uval v + digit_of c * 2 ^ length cs"
    unfolding v1_def d
    by (rule set_bit_if_uval [where k = "length cs"]; use Cons.prems(2,3) in simp)+
  have "2 ^ length cs dvd uval v1"
    unfolding v1(2) by (intro dvd_add power_le_dvd [OF Cons.prems(3)]) simp_all
  with Cons.IH [of v1] Cons.prems v1 show ?case
    by (simp add: v1_def set_bit_if_def)
qed simp

lemma ParseBinary_uval:
  assumes "\<forall>c \<in> set cs. valid_digit Binary c"
  shows "ap_width A (ParseBinary A cs sg) = max 64 (length cs + of_bool sg)"
    "uval (ParseBinary A cs sg) = digits_val 2 cs"
  using ParseBinary_loop_uval [OF assms, of "ap_make A (max 64 (length cs + of_bool sg)) 0"]
  by (auto simp: ParseBinary_def make MinAPWidth_def)

lemma three_bits_uval:
  fixes k :: nat
  assumes "int k = cursor" "k + 2 < ap_width A v" "2 ^ (k + 3) dvd uval v" "d < 8"
  defines "v1 \<equiv> set_bit_if A (bit d 2) (cursor + 2) v"
  defines "v2 \<equiv> set_bit_if A (bit d 1) (cursor + 1) v1"
  defines "v3 \<equiv> set_bit_if A (bit d 0) cursor v2"
  shows "ap_width A v3 = ap_width A v" "uval v3 = uval v + int d * 2 ^ k"
proof -
  have v1: "ap_width A v1 = ap_width A v" "uval v1 = uval v + of_bool (bit d 2) * 2 ^ (k + 2)"
    unfolding v1_def using set_bit_if_uval [of "k + 2" "cursor + 2" v] assms(1-3)
    by (auto simp: numeral_eq_Suc)
  have "(2::int) ^ (k + 2) dvd uval v"
    by (rule power_le_dvd [OF assms(3)]) simp
  then have "2 ^ Suc (k + 1) dvd uval v1"
    unfolding v1(2) by (intro dvd_add) (auto simp: numeral_eq_Suc)
  then have v2: "ap_width A v2 = ap_width A v1" "uval v2 = uval v1 + of_bool (bit d 1) * 2 ^ (k + 1)"
    unfolding v2_def using set_bit_if_uval [of "k + 1" "cursor + 1" v1] assms(1,2) v1(1) by auto
  have "(2::int) ^ Suc k dvd uval v1"
    by (rule power_le_dvd [OF \<open>2 ^ Suc (k + 1) dvd uval v1\<close>]) simp
  then have "2 ^ Suc k dvd uval v2"
    unfolding v2(2) by (intro dvd_add) auto
  then have v3: "ap_width A v3 = ap_width A v2" "uval v3 = uval v2 + of_bool (bit d 0) * 2 ^ k"
    unfolding v3_def using set_bit_if_uval [of k cursor v2] assms(1,2) v1(1) v2(1) by auto
  have d: "int d = of_bool (bit d 2) * 4 + of_bool (bit d 1) * 2 + of_bool (bit d 0)"
  proof -
    from assms(4) have "d = 0 \<or> d = 1 \<or> d = 2 \<or> d = 3 \<or> d = 4 \<or> d = 5 \<or> d = 6 \<or> d = 7" by arith
    then show ?thesis by (elim disjE) (simp_all add: bit_numeral_rec bit_iff_odd)
  qed
  show "ap_width A v3 = ap_width A v" using v1 v2 v3 by simp
  show "uval v3 = uval v + int d * 2 ^ k"
    unfolding v3(2) v2(2) v1(2) d by (simp add: algebra_simps power_add)
qed

lemma ParseOctal_loop_uval:
  assumes "\<forall>c \<in> set cs. valid_digit Octal c" "3 * length cs \<le> ap_width A v"
    "2 ^ (3 * length cs) dvd uval v"
  shows "ap_width A (ParseOctalOrHexadecimal_loop A Octal cs (3 * int (length cs) - 1) v) = ap_width A v
    \<and> uval (ParseOctalOrHexadecimal_loop A Octal cs (3 * int (length cs) - 1) v)
       = uval v + digits_val 8 cs"
  using assms
proof (induction cs arbitrary: v)
  case (Cons c cs)
  let ?k = "3 * length cs" and ?d = "digit_value Octal c"
  define v3 where "v3 = set_bit_if A (bit ?d 0) (int ?k)
    (set_bit_if A (bit ?d 1) (int ?k + 1) (set_bit_if A (bit ?d 2) (int ?k + 2) v))"
  have "valid_digit Octal c" using Cons.prems(1) by simp
  then have d: "int ?d = digit_of c" "?d < 8"
    using valid_digit_value [of Octal c] valid_digit_range [of Octal c] by auto
  have v3: "ap_width A v3 = ap_width A v" "uval v3 = uval v + int ?d * 2 ^ ?k"
    unfolding v3_def
    by (rule three_bits_uval [where k = ?k]; use Cons.prems(2,3) d(2) in \<open>simp add: add.commute\<close>)+
  have "2 ^ ?k dvd uval v3"
    unfolding v3(2) by (intro dvd_add power_le_dvd [OF Cons.prems(3)]) simp_all
  then have IH: "ap_width A (ParseOctalOrHexadecimal_loop A Octal cs (3 * int (length cs) - 1) v3) = ap_width A v
    \<and> uval (ParseOctalOrHexadecimal_loop A Octal cs (3 * int (length cs) - 1) v3)
       = uval v3 + digits_val 8 cs"
    using Cons.IH [of v3] Cons.prems v3(1) by simp
  have "ParseOctalOrHexadecimal_loop A Octal (c # cs) (3 * int (length (c # cs)) - 1) v
      = ParseOctalOrHexadecimal_loop A Octal cs (3 * int (length cs) - 1) v3"
    by (simp add: v3_def Let_def algebra_simps)
  with IH show ?case by (simp add: v3(2) d(1) power_mult)
qed simp

lemma ParseHexadecimal_loop_uval:
  assumes "\<forall>c \<in> set cs. valid_digit Hexadecimal c" "4 * length cs \<le> ap_width A v"
    "2 ^ (4 * length cs) dvd uval v"
  shows "ap_width A (ParseOctalOrHexadecimal_loop A Hexadecimal cs (4 * int (length cs) - 1) v) = ap_width A v
    \<and> uval (ParseOctalOrHexadecimal_loop A Hexadecimal cs (4 * int (length cs) - 1) v)
       = uval v + digits_val 16 cs"
  using assms
proof (induction cs arbitrary: v)
  case (Cons c cs)
  let ?k = "4 * length cs" and ?d = "digit_value Hexadecimal c"
  define v4 where "v4 = set_bit_if A (bit ?d 3) (int ?k + 3) v"
  define v3 where "v3 = set_bit_if A (bit (?d mod 8) 0) (int ?k)
    (set_bit_if A (bit (?d mod 8) 1) (int ?k + 1) (set_bit_if A (bit (?d mod 8) 2) (int ?k + 2) v4))"
  have low: "bit (?d mod 8) n = bit ?d n" if "n < 3" for n
    using that bit_take_bit_iff [of 3 ?d n] by (simp add: take_bit_eq_mod)
  have "valid_digit Hexadecimal c" using Cons.prems(1) by simp
  then have d: "int ?d = digit_of c" "?d < 16"
    using valid_digit_value [of Hexadecimal c] valid_digit_range [of Hexadecimal c] by auto
  have v4: "ap_width A v4 = ap_width A v" "uval v4 = uval v + of_bool (bit ?d 3) * 2 ^ (?k + 3)"
    unfolding v4_def
    by (rule set_bit_if_uval [where k = "?k + 3"]; use Cons.prems(2,3) in \<open>simp add: add.commute\<close>)+
  have dv4: "2 ^ (?k + 3) dvd uval v4"
    unfolding v4(2) by (intro dvd_add power_le_dvd [OF Cons.prems(3)]) simp_all
  have v3: "ap_width A v3 = ap_width A v4" "uval v3 = uval v4 + int (?d mod 8) * 2 ^ ?k"
    unfolding v3_def
    by (rule three_bits_uval [where k = ?k]; use Cons.prems(2) dv4 v4(1) in simp)+
  have split: "int ?d = of_bool (bit ?d 3) * 8 + int (?d mod 8)"
  proof -
    have "bit ?d 3 \<longleftrightarrow> odd (?d div 8)" by (simp add: bit_iff_odd)
    also have "\<dots> \<longleftrightarrow> 8 \<le> ?d" using d(2) by presburger
    finally have "bit ?d 3 \<longleftrightarrow> 8 \<le> ?d" .
    then show ?thesis using d(2) by (cases "8 \<le> ?d") (auto simp: mod_if)
  qed
  have "digit_of c * 2 ^ ?k = (of_bool (bit ?d 3) * 8 + int (?d mod 8)) * 2 ^ ?k"
    using d(1) split by simp
  then have u3: "uval v3 = uval v + digit_of c * 2 ^ ?k"
    unfolding v3(2) v4(2) by (simp add: algebra_simps power_add)
  have "2 ^ ?k dvd uval v3"
    unfolding u3 by (intro dvd_add power_le_dvd [OF Cons.prems(3)]) simp_all
  then have IH: "ap_width A (ParseOctalOrHexadecimal_loop A Hexadecimal cs (4 * int (length cs) - 1) v3) = ap_width A v
    \<and> uval (ParseOctalOrHexadecimal_loop A Hexadecimal cs (4 * int (length cs) - 1) v3)
       = uval v3 + digits_val 16 cs"
    using Cons.IH [of v3] Cons.prems v3(1) v4(1) by simp
  have "ParseOctalOrHexadecimal_loop A Hexadecimal (c # cs) (4 * int (length (c # cs)) - 1) v
      = ParseOctalOrHexadecimal_loop A Hexadecimal cs (4 * int (length cs) - 1) v3"
    by (simp add: v3_def v4_def low Let_def algebra_simps)
  with IH show ?case by (simp add: u3 power_mult)
qed simp

lemma ParseOctalOrHexadecimal_uval:
  assumes "\<forall>c \<in> set cs. valid_digit radix c" "radix = Octal \<or> radix = Hexadecimal"
  shows "ap_width A (ParseOctalOrHexadecimal A radix cs sg)
      = max 64 (length cs * BitsPerDigit radix + of_bool sg)"
    "uval (ParseOctalOrHexadecimal A radix cs sg) = digits_val (radix_int radix) cs"
  using assms(2)
    ParseOctal_loop_uval [of cs "ap_make A (max 64 (length cs * 3 + of_bool sg)) 0"]
    ParseHexadecimal_loop_uval [of cs "ap_make A (max 64 (length cs * 4 + of_bool sg)) 0"]
    assms(1)
  by (auto simp: ParseOctalOrHexadecimal_def BitsPerDigit_def make MinAPWidth_def mult.commute)

end

lemma ParseDecimalChunk_loop_uint:
  assumes "\<forall>c \<in> set cs. valid_digit Decimal c" "uint v < 10 ^ n" "n + length cs \<le> 19"
  shows "uint (ParseDecimalChunk_loop v cs) = uint v * 10 ^ length cs + digits_val 10 cs"
  using assms
proof (induction cs arbitrary: v n)
  case (Cons c cs)
  have "valid_digit Decimal c" using Cons.prems(1) by simp
  then have d: "char_int c - 48 = digit_of c" "0 \<le> digit_of c" "digit_of c < 10"
    using valid_digit_range [of Decimal c]
    by (auto simp: digit_of_def valid_digit_def char_int_def byte_of_def)
  have le: "(10::int) ^ Suc n \<le> 10 ^ 19"
    using Cons.prems(3) by (intro power_increasing) auto
  have b: "uint v * 10 + digit_of c < 10 ^ Suc n"
    using Cons.prems(2) d(2,3) by simp
  then have lt: "uint v * 10 + digit_of c < 2 ^ 64"
    using le by simp
  define w :: "64 word" where "w = v * 10 + word_of_int (char_int c - 48)"
  have w: "uint w = uint v * 10 + digit_of c"
    using lt d unfolding w_def
    by (simp add: uint_word_ariths uint_word_of_int mod_pos_pos_trivial)
  have "uint (ParseDecimalChunk_loop w cs) = uint w * 10 ^ length cs + digits_val 10 cs"
    using Cons.prems b w by (intro Cons.IH [of w "Suc n"]) auto
  then show ?case by (simp only: ParseDecimalChunk_loop.simps w_def [symmetric])
      (simp add: w algebra_simps)
qed simp

lemma ParseDecimalChunk_uint:
  assumes "\<forall>c \<in> set cs. valid_digit Decimal c" "length cs \<le> 19"
  shows "uint (ParseDecimalChunk cs) = digits_val 10 cs"
  using ParseDecimalChunk_loop_uint [OF assms(1), of 0 0] assms(2)
  by (simp add: ParseDecimalChunk_def)

lemma decimal_bits_bound: "(10::int) ^ n \<le> 2 ^ decimal_bits n"
proof -
  have "(10::nat) ^ n \<le> 2 ^ decimal_bits n"
    unfolding decimal_bits_def by (rule le_two_power_ceillog2)
  then have "int (10 ^ n) \<le> int (2 ^ decimal_bits n)" by (rule iffD2 [OF of_nat_le_iff])
  then show ?thesis by simp
qed

lemma decimal_bits_eq: "decimal_bits n = nat \<lceil>real n * log 2 10\<rceil>"
  by (simp add: decimal_bits_def ceillog2_def log_nat_power)

context apint
begin

lemma ParseDecimal_step_uval:
  assumes "\<forall>c \<in> set ch. valid_digit Decimal c" "length ch = 19"
    "uval v < 10 ^ m" "10 ^ (m + 19) \<le> (2::int) ^ ap_width A v"
  shows "ap_width A (ap_add A (ap_mul A v Mult) (ParseDecimalChunk ch)) = ap_width A v"
    "uval (ap_add A (ap_mul A v Mult) (ParseDecimalChunk ch)) = uval v * 10 ^ 19 + digits_val 10 ch"
    "uval v * 10 ^ 19 + digits_val 10 ch < 10 ^ (m + 19)"
proof -
  have c: "uint (ParseDecimalChunk ch) = digits_val 10 ch"
    using assms(1,2) by (simp add: ParseDecimalChunk_uint)
  have r: "0 \<le> digits_val 10 ch" "digits_val 10 ch < 10 ^ 19"
    using digits_val_range [OF assms(1)] assms(2) by auto
  have "uval v + 1 \<le> 10 ^ m" using assms(3) by simp
  then have "(uval v + 1) * 10 ^ 19 \<le> 10 ^ m * 10 ^ 19" by (rule mult_right_mono) simp
  then show lt: "uval v * 10 ^ 19 + digits_val 10 ch < 10 ^ (m + 19)"
    using r(2) by (simp add: power_add algebra_simps)
  show "ap_width A (ap_add A (ap_mul A v Mult) (ParseDecimalChunk ch)) = ap_width A v"
    by (simp add: add mul)
  have "uval (ap_add A (ap_mul A v Mult) (ParseDecimalChunk ch))
      = (uval v * 10 ^ 19 + digits_val 10 ch) mod 2 ^ ap_width A v"
    by (simp add: add mul c Mult_def mod_add_left_eq)
  also have "\<dots> = uval v * 10 ^ 19 + digits_val 10 ch"
    using lt assms(4) r(1) uval_range(1) [of v] by (intro mod_pos_pos_trivial) auto
  finally show "uval (ap_add A (ap_mul A v Mult) (ParseDecimalChunk ch))
    = uval v * 10 ^ 19 + digits_val 10 ch" .
qed

lemma ParseDecimal_loop_uval:
  assumes "\<forall>c \<in> set cs. valid_digit Decimal c" "19 dvd length cs"
    "uval v < 10 ^ m" "10 ^ (m + length cs) \<le> (2::int) ^ ap_width A v"
  shows "ap_width A (ParseDecimal_loop A cs v) = ap_width A v
    \<and> uval (ParseDecimal_loop A cs v) = uval v * 10 ^ length cs + digits_val 10 cs"
  using assms
proof (induction "length cs" arbitrary: cs v m rule: less_induct)
  case less
  show ?case
  proof (cases "cs = []")
    case True
    then show ?thesis by (simp add: ParseDecimal_loop.simps)
  next
    case False
    then have len: "19 \<le> length cs" using less.prems(2) by (simp add: dvd_imp_le)
    define v' where "v' = ap_add A (ap_mul A v Mult) (ParseDecimalChunk (take 19 cs))"
    have "(10::int) ^ (m + 19) \<le> 10 ^ (m + length cs)"
      using len by (intro power_increasing) auto
    with less.prems(4) have w: "10 ^ (m + 19) \<le> (2::int) ^ ap_width A v" by linarith
    have valid: "\<forall>c \<in> set (take 19 cs). valid_digit Decimal c"
      "\<forall>c \<in> set (drop 19 cs). valid_digit Decimal c"
      using less.prems(1) by (auto dest: in_set_takeD in_set_dropD)
    note step = ParseDecimal_step_uval [OF valid(1) _ less.prems(3) w, folded v'_def]
    have v': "ap_width A v' = ap_width A v" "uval v' = uval v * 10 ^ 19 + digits_val 10 (take 19 cs)"
      "uval v' < 10 ^ (m + 19)"
      using step len by auto
    have eq: "ParseDecimal_loop A cs v = ParseDecimal_loop A (drop 19 cs) v'"
      using False by (simp add: ParseDecimal_loop.simps [of A cs] v'_def DigitsPerChunk_def)
    have "ap_width A (ParseDecimal_loop A (drop 19 cs) v') = ap_width A v'
      \<and> uval (ParseDecimal_loop A (drop 19 cs) v')
         = uval v' * 10 ^ length (drop 19 cs) + digits_val 10 (drop 19 cs)"
      using less.prems len v' valid(2) by (intro less.hyps [where m = "m + 19"]) auto
    moreover have "digits_val 10 cs
        = digits_val 10 (take 19 cs) * 10 ^ (length cs - 19) + digits_val 10 (drop 19 cs)"
      using digits_val_append [of 10 "take 19 cs" "drop 19 cs"] by simp
    moreover have "(10::int) ^ length cs = 10 ^ 19 * 10 ^ (length cs - 19)"
      using len power_add [of "10::int" 19 "length cs - 19"] by (simp only: le_add_diff_inverse)
    ultimately show ?thesis
      by (simp only: eq v' length_drop) (simp add: algebra_simps)
  qed
qed

lemma ParseDecimal_uval:
  assumes "\<forall>c \<in> set cs. valid_digit Decimal c"
  shows "ap_width A (ParseDecimal A cs sg) = max 64 (decimal_bits (length cs) + of_bool sg)
    \<and> uval (ParseDecimal A cs sg) = digits_val 10 cs"
proof -
  define w where "w = max 64 (decimal_bits (length cs) + of_bool sg)"
  define v where "v = ap_make A w 0"
  have w: "(10::int) ^ length cs \<le> 2 ^ w"
  proof -
    have "decimal_bits (length cs) \<le> w" by (simp add: w_def)
    then show ?thesis
      using decimal_bits_bound [of "length cs"] pow2_mono [of "decimal_bits (length cs)" w]
      by linarith
  qed
  have wv: "ap_width A v = w" by (simp add: v_def make)
  have w64: "(2::int) ^ 64 \<le> 2 ^ w" by (rule pow2_mono) (simp add: w_def)
  have assign64: "uval (ap_assign A c v) = uint c" for c :: "64 word"
  proof -
    have "uint c < 2 ^ 64" using uint_bounded [of c] by simp
    with w64 have "uint c < 2 ^ w" by linarith
    then show ?thesis by (simp add: assign wv)
  qed
  show ?thesis
  proof (cases "length cs \<le> 19")
    case True
    then have "ParseDecimal A cs sg = ap_assign A (ParseDecimalChunk cs) v"
      by (simp add: ParseDecimal_def DigitsPerChunk_def MinAPWidth_def flip: w_def v_def)
    then show ?thesis
      using ParseDecimalChunk_uint [OF assms True] assign64
      by (simp add: assign(1) wv flip: w_def)
  next
    case False
    define k where "k = (if length cs mod 19 = 0 then 19 else length cs mod 19)"
    have k: "k \<le> 19" "k \<le> length cs" "19 dvd length cs - k"
      using False by (auto simp: k_def dvd_minus_mod)
    have valid: "\<forall>c \<in> set (take k cs). valid_digit Decimal c"
      "\<forall>c \<in> set (drop k cs). valid_digit Decimal c"
      using assms by (auto dest: in_set_takeD in_set_dropD)
    define u where "u = ap_assign A (ParseDecimalChunk (take k cs)) v"
    have u: "ap_width A u = w" "uval u = digits_val 10 (take k cs)"
      using k(1) ParseDecimalChunk_uint [OF valid(1)] by (auto simp: u_def assign(1) wv assign64)
    have eq: "ParseDecimal A cs sg = ParseDecimal_loop A (drop k cs) u"
      using False
      by (simp add: ParseDecimal_def Let_def DigitsPerChunk_def MinAPWidth_def u_def k_def
          flip: w_def v_def)
    have "ap_width A (ParseDecimal_loop A (drop k cs) u) = ap_width A u
      \<and> uval (ParseDecimal_loop A (drop k cs) u)
         = uval u * 10 ^ length (drop k cs) + digits_val 10 (drop k cs)"
      using digits_val_range(2) [OF valid(1)] u w k valid(2)
      by (intro ParseDecimal_loop_uval [where m = k]) auto
    then show ?thesis
      using digits_val_append [of 10 "take k cs" "drop k cs"] u
      by (simp add: eq flip: w_def)
  qed
qed

text \<open>
  The value of a digit string, and room for a sign bit: the summary of the conversions.
\<close>

lemma ParseInt_uval:
  assumes "\<forall>c \<in> set cs. valid_digit radix c \<or> clean \<and> (c = CHR ''_'' \<or> c = CHR ''.'')"
  defines "ds \<equiv> filter (\<lambda>c. c \<noteq> CHR ''_'' \<and> c \<noteq> CHR ''.'') cs"
  shows "uval (ParseInt A cs radix clean True) = digits_val (radix_int radix) ds"
    "64 \<le> ap_width A (ParseInt A cs radix clean True)"
    "uval (ParseInt A cs radix clean True) < 2 ^ (ap_width A (ParseInt A cs radix clean True) - 1)"
proof -
  define zs where "zs = dropWhile (\<lambda>c. c = CHR ''0'') ds"
  have clean: "(if clean then ds else cs) = ds"
  proof (cases clean)
    case False
    then have "\<forall>c \<in> set cs. valid_digit radix c" using assms(1) by simp
    then have "\<forall>c \<in> set cs. c \<noteq> CHR ''_'' \<and> c \<noteq> CHR ''.''"
      using valid_digit_not_sep by blast
    then show ?thesis using False by (simp add: ds_def filter_id_conv)
  qed simp
  have valid: "\<forall>c \<in> set zs. valid_digit radix c"
    using assms(1) unfolding zs_def ds_def by (fastforce dest: set_dropWhileD)
  have val: "digits_val (radix_int radix) zs = digits_val (radix_int radix) ds"
    by (simp add: zs_def digits_val_dropWhile_zero)
  have eq: "ParseInt A cs radix clean True = (case radix of
           Binary \<Rightarrow> ParseBinary A zs True
         | Octal \<Rightarrow> ParseOctalOrHexadecimal A Octal zs True
         | Decimal \<Rightarrow> ParseDecimal A zs True
         | Hexadecimal \<Rightarrow> ParseOctalOrHexadecimal A Hexadecimal zs True)"
    unfolding ParseInt_def Let_def ds_def [symmetric] clean zs_def [symmetric] ..
  have "uval (ParseInt A cs radix clean True) = digits_val (radix_int radix) zs
    \<and> 64 \<le> ap_width A (ParseInt A cs radix clean True)
    \<and> int (radix_int radix) ^ length zs \<le> 2 ^ (ap_width A (ParseInt A cs radix clean True) - 1)"
  proof (cases radix)
    case Binary
    with valid eq show ?thesis
      by (auto simp: ParseBinary_uval intro!: pow2_mono)
  next
    case Octal
    have "(8::int) ^ length zs = 2 ^ (length zs * 3)"
      using power_mult [of "2::int" 3 "length zs"] by (simp add: mult.commute)
    with Octal valid eq show ?thesis
      by (auto simp: ParseOctalOrHexadecimal_uval BitsPerDigit_def intro!: pow2_mono)
  next
    case Decimal
    from decimal_bits_bound [of "length zs"]
    have "(10::int) ^ length zs \<le> 2 ^ (max 64 (decimal_bits (length zs) + 1) - 1)"
      using pow2_mono [of "decimal_bits (length zs)" "max 64 (decimal_bits (length zs) + 1) - 1"]
      by linarith
    with Decimal valid eq ParseDecimal_uval [of zs True] show ?thesis
      by auto
  next
    case Hexadecimal
    have "(16::int) ^ length zs = 2 ^ (length zs * 4)"
      using power_mult [of "2::int" 4 "length zs"] by (simp add: mult.commute)
    with Hexadecimal valid eq show ?thesis
      by (auto simp: ParseOctalOrHexadecimal_uval BitsPerDigit_def intro!: pow2_mono)
  qed
  with digits_val_range(2) [OF valid] val
  show "uval (ParseInt A cs radix clean True) = digits_val (radix_int radix) ds"
    "64 \<le> ap_width A (ParseInt A cs radix clean True)"
    "uval (ParseInt A cs radix clean True) < 2 ^ (ap_width A (ParseInt A cs radix clean True) - 1)"
    by auto
qed

end


lemma scan_inv_initial: "scan_inv s i initial_scan"
  by (simp add: scan_inv_def initial_scan_def)

text \<open>Where the loop stops before the end, its body broke out.\<close>

lemma scan_loop_stops:
  "scan_loop s r i st = Ret (j, st') \<Longrightarrow> j < length s \<Longrightarrow> scan_step s r j st' = Ret None"
proof (induction s r i st rule: scan_loop.induct)
  case (1 s r i st)
  show ?case
  proof (cases "length s \<le> i")
    case True
    with "1.prems" show ?thesis by (simp add: scan_loop.simps [of s r i st])
  next
    case False
    then obtain nxt where nxt: "scan_step s r i st = Ret nxt"
      using "1.prems"(1) by (auto simp: scan_loop.simps [of s r i st] bind_outcome_Ret_iff)
    show ?thesis
    proof (cases nxt)
      case None
      with False nxt "1.prems" show ?thesis by (simp add: scan_loop.simps [of s r i st])
    next
      case (Some st1)
      with False nxt "1.prems"(1) have "scan_loop s r (i + 1) st1 = Ret (j, st')"
        by (simp add: scan_loop.simps [of s r i st])
      with "1.IH" [OF False nxt Some] "1.prems"(2) show ?thesis by simp
    qed
  qed
qed

lemma scan_step_None_next:
  "scan_step s r j st = Ret None \<Longrightarrow> \<not> IsAlnum (s ! j) \<and> s ! j \<noteq> CHR ''_'' \<and> s ! j \<noteq> CHR ''$''"
  by (auto simp: scan_step_def Let_def carbon_check_def split: if_splits)

text \<open>A loop that saw no radix point does not depend on whether one was allowed.\<close>

lemma scan_step_no_point:
  "scan_step s True i st = Ret nxt \<Longrightarrow> (\<forall>st'. nxt = Some st' \<longrightarrow> \<not> seen_radix_point st') \<Longrightarrow>
   scan_step s False i st = Ret nxt"
  by (auto simp: scan_step_def Let_def split: if_splits)

lemma scan_step_keeps_point:
  "scan_step s r i st = Ret (Some st') \<Longrightarrow> seen_radix_point st \<Longrightarrow> seen_radix_point st'"
  by (erule scan_step_cases) (auto simp: carbon_check_def split: if_splits)

lemma scan_loop_keeps_point:
  "scan_loop s r i st = Ret (j, st') \<Longrightarrow> seen_radix_point st \<Longrightarrow> seen_radix_point st'"
proof (induction s r i st rule: scan_loop.induct)
  case (1 s r i st)
  then show ?case
    by (fastforce simp: scan_loop.simps [of s r i st] bind_outcome_Ret_iff
        dest: scan_step_keeps_point split: if_splits option.splits)
qed

lemma scan_loop_no_point:
  "scan_loop s True i st = Ret (j, st') \<Longrightarrow> \<not> seen_radix_point st' \<Longrightarrow>
   scan_loop s False i st = Ret (j, st')"
proof (induction s "True" i st rule: scan_loop.induct)
  case (1 s i st)
  show ?case
  proof (cases "length s \<le> i")
    case True
    with "1.prems" show ?thesis by (auto simp: scan_loop.simps)
  next
    case False
    then obtain nxt where nxt: "scan_step s True i st = Ret nxt"
      using "1.prems"(1) by (auto simp: scan_loop.simps [of s True i st] bind_outcome_Ret_iff)
    have no: "\<not> seen_radix_point st1" if "nxt = Some st1" for st1
      using that False nxt "1.prems" scan_loop_keeps_point [of s True "i + 1" st1 j st']
      by (auto simp: scan_loop.simps [of s True i st])
    then have nxt': "scan_step s False i st = Ret nxt"
      using nxt by (intro scan_step_no_point) auto
    show ?thesis
      using False nxt nxt' "1.prems" "1.hyps" [OF False nxt]
      by (auto simp: scan_loop.simps [of s _ i st] split: option.splits)
  qed
qed

text \<open>What a literal produced by the scan looks like.\<close>

definition literal_ok :: "NumericLiteral \<Rightarrow> bool" where
  "literal_ok lit \<longleftrightarrow> nl_text lit \<noteq> [] \<and> IsDecimalDigit (hd (nl_text lit))
     \<and> 0 < nl_radix_point lit \<and> nl_radix_point lit \<le> nl_exponent lit
     \<and> nl_exponent lit \<le> length (nl_text lit)
     \<and> (nl_radix_point lit < length (nl_text lit) \<longrightarrow>
          nl_text lit ! nl_radix_point lit = CHR ''.'' \<and> nl_radix_point lit < nl_exponent lit)"

lemma NumericLiteral_Lex_cases:
  assumes "s \<noteq> []" "IsDecimalDigit (hd s)"
  obtains j st lit where "scan_loop s r 1 initial_scan = Ret (j, st)" "scan_inv s j st"
    "1 \<le> j" "j \<le> length s" "NumericLiteral_Lex s r = Ret (Some lit)"
    "nl_text lit = take j s"
    "nl_radix_point lit = (if seen_radix_point st then scan_radix_point st else j)"
    "nl_exponent lit = (if seen_potential_exponent st then scan_exponent st else j)"
proof -
  have "1 \<le> length s" using assms(1) by (cases s) auto
  then obtain j st where *: "scan_loop s r 1 initial_scan = Ret (j, st)" "scan_inv s j st"
    "1 \<le> j" "j \<le> length s"
    using scan_loop_inv [OF scan_inv_initial, of 1 s r] by auto
  with assms show thesis
    by (intro that [OF *]) (auto simp: NumericLiteral_Lex_def)
qed

lemma NumericLiteral_Lex_ok:
  assumes "s \<noteq> []" "IsDecimalDigit (hd s)"
  shows "\<exists>lit. NumericLiteral_Lex s r = Ret (Some lit) \<and> literal_ok lit
    \<and> nl_text lit = take (length (nl_text lit)) s
    \<and> (length (nl_text lit) < length s \<longrightarrow>
         \<not> IsAlnum (s ! length (nl_text lit)) \<and> s ! length (nl_text lit) \<noteq> CHR ''_''
         \<and> s ! length (nl_text lit) \<noteq> CHR ''$'')"
proof -
  obtain j st lit where *: "scan_loop s r 1 initial_scan = Ret (j, st)" "scan_inv s j st"
    "1 \<le> j" "j \<le> length s" "NumericLiteral_Lex s r = Ret (Some lit)"
    "nl_text lit = take j s"
    "nl_radix_point lit = (if seen_radix_point st then scan_radix_point st else j)"
    "nl_exponent lit = (if seen_potential_exponent st then scan_exponent st else j)"
    using NumericLiteral_Lex_cases [OF assms] by blast
  have "literal_ok lit"
    using *(2-4,6-8) assms by (auto simp: literal_ok_def scan_inv_def)
  moreover have "\<not> IsAlnum (s ! j) \<and> s ! j \<noteq> CHR ''_'' \<and> s ! j \<noteq> CHR ''$''" if "j < length s"
    using scan_loop_stops [OF *(1) that] scan_step_None_next by blast
  ultimately show ?thesis using *(4-6) by auto
qed

lemma NumericLiteral_Lex_Some:
  assumes "NumericLiteral_Lex s r = Ret (Some lit)"
  shows "s \<noteq> []" "IsDecimalDigit (hd s)"
  using assms by (auto simp: NumericLiteral_Lex_def split: if_splits)

lemma NumericLiteral_Lex_literal_ok:
  "NumericLiteral_Lex s r = Ret (Some lit) \<Longrightarrow> literal_ok lit"
  using NumericLiteral_Lex_ok [of s r] NumericLiteral_Lex_Some [of s r lit] by auto


section \<open>The checks accept the documented digit sequences\<close>

text \<open>
  One or added digits of the radix, where single digit separators may stand between two
  digits if they are allowed at all, at most \<open>DigitLimit\<close> characters.
\<close>

definition sep_ok :: "bool \<Rightarrow> string \<Rightarrow> nat \<Rightarrow> bool" where
  "sep_ok allow_seps text i \<longleftrightarrow>
     allow_seps \<and> 0 < i \<and> text ! (i - 1) \<noteq> CHR ''_'' \<and> i + 1 < length text"

definition digit_sequence :: "bool \<Rightarrow> Radix \<Rightarrow> string \<Rightarrow> bool" where
  "digit_sequence allow_seps radix text \<longleftrightarrow>
     text \<noteq> [] \<and> length text \<le> DigitLimit
     \<and> (\<forall>i < length text. valid_digit radix (text ! i)
          \<or> (text ! i = CHR ''_'' \<and> sep_ok allow_seps text i))"

lemma not_valid_digit_sep [simp]: "\<not> valid_digit radix (CHR ''_'')"
  using valid_digit_not_sep by blast

definition check_loop_spec ::
    "string \<Rightarrow> Radix \<Rightarrow> bool \<Rightarrow> nat \<Rightarrow> nat \<Rightarrow> nat option \<Rightarrow> 'd list \<Rightarrow> bool" where
  "check_loop_spec t radix allow_seps i num res added \<longleftrightarrow>
     (case res of
        None \<Rightarrow> added \<noteq> []
          \<and> (\<exists>j \<in> {i..<length t}. \<not> valid_digit radix (t ! j) \<and> t ! j \<noteq> CHR ''_'')
      | Some num' \<Rightarrow>
          num' = num + length (filter (\<lambda>c. c = CHR ''_'') (drop i t))
          \<and> (\<forall>j \<in> {i..<length t}. valid_digit radix (t ! j) \<or> t ! j = CHR ''_'')
          \<and> (added = [] \<longleftrightarrow> (\<forall>j \<in> {i..<length t}. t ! j = CHR ''_'' \<longrightarrow> sep_ok allow_seps t j)))"

lemma check_loop_spec_step:
  assumes "i < length t" "check_loop_spec t radix allow_seps (i + 1) num' res added"
  shows "valid_digit radix (t ! i) \<Longrightarrow> num' = num \<Longrightarrow>
      check_loop_spec t radix allow_seps i num res added"
    "t ! i = CHR ''_'' \<Longrightarrow> num' = num + 1 \<Longrightarrow> (d = [] \<longleftrightarrow> sep_ok allow_seps t i) \<Longrightarrow>
      check_loop_spec t radix allow_seps i num res (d @ added)"
proof -
  have r: "{i..<length t} = insert i {i + 1..<length t}" using assms(1) by auto
  have d: "drop i t = t ! i # drop (i + 1) t" using assms(1) by (simp add: Cons_nth_drop_Suc)
  have "t ! i \<noteq> CHR ''_''" if "valid_digit radix (t ! i)" using that by auto
  then show "valid_digit radix (t ! i) \<Longrightarrow> num' = num \<Longrightarrow>
      check_loop_spec t radix allow_seps i num res added"
    using assms(2) by (cases res) (simp_all add: check_loop_spec_def r d)
  show "t ! i = CHR ''_'' \<Longrightarrow> num' = num + 1 \<Longrightarrow> (d = [] \<longleftrightarrow> sep_ok allow_seps t i) \<Longrightarrow>
      check_loop_spec t radix allow_seps i num res (d @ added)"
    using assms(2) by (cases res) (simp_all add: check_loop_spec_def r d)
qed

lemma CheckDigitSequence_loop_spec:
  "CheckDigitSequence_loop v radix allow_seps i num ds = (res, ds') \<Longrightarrow>
   \<exists>added. ds' = ds @ added \<and> check_loop_spec (snd v) radix allow_seps i num res added"
proof (induction v radix allow_seps i num ds rule: CheckDigitSequence_loop.induct)
  case (1 v radix allow_seps i num ds)
  note unf = CheckDigitSequence_loop.simps [of v radix allow_seps i num ds]
  let ?t = "snd v"
  consider (stop) "length ?t \<le> i"
    | (digit) "i < length ?t" "valid_digit radix (?t ! i)"
    | (sep) "i < length ?t" "?t ! i = CHR ''_''"
    | (bad) "i < length ?t" "\<not> valid_digit radix (?t ! i)" "?t ! i \<noteq> CHR ''_''"
    by fastforce
  then show ?case
  proof cases
    case stop
    with "1.prems" show ?thesis by (auto simp: unf Let_def check_loop_spec_def)
  next
    case digit
    with "1.prems" have "CheckDigitSequence_loop v radix allow_seps (i + 1) num ds = (res, ds')"
      by (simp add: unf Let_def)
    with "1.IH"(1) [OF refl refl _ refl] digit obtain added where
      "ds' = ds @ added" "check_loop_spec ?t radix allow_seps (i + 1) num res added" by auto
    with check_loop_spec_step(1) [OF digit(1) _ digit(2)] show ?thesis by blast
  next
    case sep
    define d where "d = (if sep_ok allow_seps ?t i then [] else [(fst v + i, InvalidDigitSeparator)])"
    have cond: "(\<not> allow_seps \<or> i = 0 \<or> ?t ! (i - 1) = CHR ''_'' \<or> i + 1 = length ?t)
        \<longleftrightarrow> \<not> sep_ok allow_seps ?t i"
      using sep(1) by (auto simp: sep_ok_def)
    have "CheckDigitSequence_loop v radix allow_seps (i + 1) (num + 1) (ds @ d) = (res, ds')"
      using "1.prems" sep unfolding unf Let_def cond d_def by (auto split: if_splits)
    with "1.IH"(2) [OF refl refl _ refl] sep obtain added where
      "ds' = (ds @ d) @ added" "check_loop_spec ?t radix allow_seps (i + 1) (num + 1) res added"
      unfolding cond d_def by (auto split: if_splits)
    with check_loop_spec_step(2) [OF sep(1) _ sep(2) refl, of radix allow_seps num res added d]
    show ?thesis by (auto simp: d_def)
  next
    case bad
    with "1.prems" show ?thesis
      by (auto simp: unf Let_def check_loop_spec_def intro!: bexI [of _ i])
  qed
qed

lemma length_filter_eq_iff: "length (filter P xs) = length xs \<longleftrightarrow> (\<forall>x \<in> set xs. P x)"
proof -
  have "length (filter P xs) = length xs \<longleftrightarrow> length (filter (\<lambda>x. \<not> P x) xs) = 0"
    using sum_length_filter_compl [of P xs] by linarith
  then show ?thesis by (simp add: filter_empty_conv)
qed

lemma CheckDigitSequence_spec:
  assumes "CheckDigitSequence v radix allow_seps ds = ((ok, seps), ds')"
  shows "\<exists>added. ds' = ds @ added
    \<and> (\<not> ok \<longrightarrow> added \<noteq> [])
    \<and> (ok \<longrightarrow> snd v \<noteq> [] \<and> length (snd v) \<le> DigitLimit
         \<and> (\<forall>c \<in> set (snd v). valid_digit radix c \<or> c = CHR ''_'')
         \<and> (seps \<longleftrightarrow> CHR ''_'' \<in> set (snd v)))
    \<and> (ok \<and> added = [] \<longleftrightarrow> digit_sequence allow_seps radix (snd v))"
proof -
  obtain res ds1 where loop: "CheckDigitSequence_loop v radix allow_seps 0 0 ds = (res, ds1)"
    by fastforce
  from CheckDigitSequence_loop_spec [OF this] obtain new where
    ds1: "ds1 = ds @ new" and spec: "check_loop_spec (snd v) radix allow_seps 0 0 res new" by blast
  let ?t = "snd v"
  show ?thesis
  proof (cases res)
    case None
    with spec obtain j where "j < length ?t" "\<not> valid_digit radix (?t ! j)" "?t ! j \<noteq> CHR ''_''"
      by (auto simp: check_loop_spec_def)
    then have "\<not> digit_sequence allow_seps radix ?t" by (auto simp: digit_sequence_def)
    with None assms loop ds1 spec show ?thesis
      by (auto simp: CheckDigitSequence_def check_loop_spec_def)
  next
    case (Some num)
    let ?n = "length (filter (\<lambda>c. c = CHR ''_'') ?t)"
    from spec Some have num: "num = ?n"
      and valid: "\<forall>j < length ?t. valid_digit radix (?t ! j) \<or> ?t ! j = CHR ''_''"
      and new: "new = [] \<longleftrightarrow> (\<forall>j < length ?t. ?t ! j = CHR ''_'' \<longrightarrow> sep_ok allow_seps ?t j)"
      by (auto simp: check_loop_spec_def)
    have all_set: "\<forall>c \<in> set ?t. valid_digit radix c \<or> c = CHR ''_''"
      using valid by (auto simp: in_set_conv_nth)
    have seps: "num \<noteq> 0 \<longleftrightarrow> CHR ''_'' \<in> set ?t"
      by (auto simp: num filter_empty_conv)
    have full: "num = length ?t \<longleftrightarrow> (\<forall>c \<in> set ?t. c = CHR ''_'')"
      unfolding num by (rule length_filter_eq_iff)
    have seq: "digit_sequence allow_seps radix ?t \<longleftrightarrow>
        new = [] \<and> num \<noteq> length ?t \<and> length ?t \<le> DigitLimit"
    proof
      assume d: "digit_sequence allow_seps radix ?t"
      then have "0 < length ?t" "\<not> sep_ok allow_seps ?t 0"
        by (auto simp: digit_sequence_def sep_ok_def)
      with d have "valid_digit radix (?t ! 0)" by (auto simp: digit_sequence_def)
      then have "?t ! 0 \<in> set ?t \<and> ?t ! 0 \<noteq> CHR ''_''" using \<open>0 < length ?t\<close> by auto
      then have "num \<noteq> length ?t" unfolding full by blast
      with d show "new = [] \<and> num \<noteq> length ?t \<and> length ?t \<le> DigitLimit"
        unfolding new digit_sequence_def by auto
    next
      assume "new = [] \<and> num \<noteq> length ?t \<and> length ?t \<le> DigitLimit"
      then show "digit_sequence allow_seps radix ?t"
        using valid new unfolding digit_sequence_def by (auto simp: num)
    qed
    have ne: "?t \<noteq> []" if "num \<noteq> length ?t" using that num by auto
    show ?thesis
      using assms loop Some ds1 seq all_set seps ne
      by (auto simp: CheckDigitSequence_def CanLexInt_def split: if_splits)
  qed
qed

section \<open>The meaning of a literal\<close>

text \<open>
  The literals that are accepted without a diagnostic, in terms of the parts the parser's
  constructor splits the text into.
\<close>

definition has_exponent :: "Parser \<Rightarrow> bool" where
  "has_exponent p \<longleftrightarrow> nl_exponent (p_literal p) \<noteq> length (nl_text (p_literal p))"

definition exponent_char :: "Parser \<Rightarrow> char" where
  "exponent_char p = (if p_radix p = Decimal then CHR ''e'' else CHR ''p'')"

definition valid_literal :: "Parser \<Rightarrow> bool" where
  "valid_literal p \<longleftrightarrow>
     \<not> (p_radix p = Decimal \<and> starts_with (snd (p_int_part p)) ''0'' \<and> snd (p_int_part p) \<noteq> ''0'')
     \<and> digit_sequence True (p_radix p) (snd (p_int_part p))
     \<and> (IsInt p \<or> p_radix p \<noteq> Binary \<and> p_radix p \<noteq> Octal
          \<and> digit_sequence False (p_radix p) (snd (p_fract_part p)))
     \<and> (has_exponent p \<longrightarrow>
          nl_text (p_literal p) ! nl_exponent (p_literal p) = exponent_char p
          \<and> digit_sequence True Decimal (snd (p_exponent_part p)))"

text \<open>The digits of a view: no characters but digits of the radix and separators.\<close>

definition digits_in :: "Radix \<Rightarrow> string \<Rightarrow> bool" where
  "digits_in radix t \<longleftrightarrow> t \<noteq> [] \<and> length t \<le> DigitLimit
     \<and> (\<forall>c \<in> set t. valid_digit radix c \<or> c = CHR ''_'')"

text \<open>What the checks establish of the parser before its values are read.\<close>

definition checked :: "Parser \<Rightarrow> bool" where
  "checked p \<longleftrightarrow>
     digits_in (p_radix p) (snd (p_int_part p))
     \<and> (CHR ''_'' \<in> set (snd (p_int_part p)) \<longrightarrow> p_mantissa_needs_cleaning p)
     \<and> (\<not> IsInt p \<longrightarrow> p_mantissa_needs_cleaning p \<and> digits_in (p_radix p) (snd (p_fract_part p)))
     \<and> (has_exponent p \<longrightarrow> digits_in Decimal (snd (p_exponent_part p))
          \<and> (CHR ''_'' \<in> set (snd (p_exponent_part p)) \<longrightarrow> p_exponent_needs_cleaning p))"

definition same_parts :: "Parser \<Rightarrow> Parser \<Rightarrow> bool" where
  "same_parts p q \<longleftrightarrow> p_literal q = p_literal p \<and> p_radix q = p_radix p
     \<and> p_int_part q = p_int_part p \<and> p_fract_part q = p_fract_part p
     \<and> p_exponent_part q = p_exponent_part p
     \<and> p_exponent_is_negative q = p_exponent_is_negative p"

lemma CheckDigitSequence_digits:
  assumes "CheckDigitSequence v radix allow_seps ds = ((ok, seps), ds')"
  obtains added where "ds' = ds @ added" "\<not> ok \<Longrightarrow> added \<noteq> []"
    "ok \<Longrightarrow> digits_in radix (snd v) \<and> (seps \<longleftrightarrow> CHR ''_'' \<in> set (snd v))"
    "ok \<and> added = [] \<longleftrightarrow> digit_sequence allow_seps radix (snd v)"
  using CheckDigitSequence_spec [OF assms] unfolding digits_in_def by blast

lemma CheckFractionalPart_spec:
  assumes "CheckFractionalPart p ds = (ok, q, ds')"
  obtains added where "ds' = ds @ added" "same_parts p q" "\<not> ok \<Longrightarrow> added \<noteq> []"
    "IsInt p \<Longrightarrow> ok \<and> q = p"
    "\<not> IsInt p \<Longrightarrow> ok \<Longrightarrow> p_mantissa_needs_cleaning q \<and> digits_in (p_radix p) (snd (p_fract_part p))"
    "ok \<and> added = [] \<longleftrightarrow> IsInt p \<or> p_radix p \<noteq> Binary \<and> p_radix p \<noteq> Octal
          \<and> digit_sequence False (p_radix p) (snd (p_fract_part p))"
proof (cases "IsInt p")
  case True
  with assms show thesis
    by (intro that [of "[]"]) (auto simp: CheckFractionalPart_def same_parts_def)
next
  case False
  define d where "d = (if p_radix p = Binary \<or> p_radix p = Octal
    then [(nl_radix_point (p_literal p), InvalidRealLiteralRadix (radix_int (p_radix p)))] else [])"
  obtain seps where seq:
      "CheckDigitSequence (p_fract_part p) (p_radix p) False (ds @ d) = ((ok, seps), ds')"
    and q: "q = p\<lparr>p_mantissa_needs_cleaning := True\<rparr>"
    using assms False
    by (auto simp: CheckFractionalPart_def Let_def d_def split: if_splits prod.splits)
  from CheckDigitSequence_digits [OF seq] obtain a where a: "ds' = (ds @ d) @ a" "\<not> ok \<Longrightarrow> a \<noteq> []"
    "ok \<Longrightarrow> digits_in (p_radix p) (snd (p_fract_part p))"
    "ok \<and> a = [] \<longleftrightarrow> digit_sequence False (p_radix p) (snd (p_fract_part p))" by metis
  have "d = [] \<longleftrightarrow> p_radix p \<noteq> Binary \<and> p_radix p \<noteq> Octal" by (auto simp: d_def)
  with a q False show thesis
    by (intro that [of "d @ a"]) (auto simp: same_parts_def)
qed

lemma CheckExponentPart_spec:
  assumes "CheckExponentPart p ds = (ok, q, ds')"
  obtains added where "ds' = ds @ added" "same_parts p q" "\<not> ok \<Longrightarrow> added \<noteq> []"
    "p_mantissa_needs_cleaning q = p_mantissa_needs_cleaning p"
    "has_exponent p \<Longrightarrow> ok \<Longrightarrow> digits_in Decimal (snd (p_exponent_part p))
       \<and> (CHR ''_'' \<in> set (snd (p_exponent_part p)) \<longrightarrow> p_exponent_needs_cleaning q)"
    "ok \<and> added = [] \<longleftrightarrow> (has_exponent p \<longrightarrow>
       nl_text (p_literal p) ! nl_exponent (p_literal p) = exponent_char p
       \<and> digit_sequence True Decimal (snd (p_exponent_part p)))"
proof -
  note unf = CheckExponentPart_def Let_def
  consider (none) "\<not> has_exponent p"
    | (wrong) "has_exponent p" "nl_text (p_literal p) ! nl_exponent (p_literal p) \<noteq> exponent_char p"
    | (right) "has_exponent p" "nl_text (p_literal p) ! nl_exponent (p_literal p) = exponent_char p"
    by blast
  then show thesis
  proof cases
    case none
    with assms show thesis
      by (intro that [of "[]"]) (auto simp: unf has_exponent_def same_parts_def)
  next
    case wrong
    with assms show thesis
      by (intro that [of "[(nl_exponent (p_literal p), WrongRealLiteralExponent (exponent_char p))]"])
        (auto simp: unf has_exponent_def exponent_char_def same_parts_def)
  next
    case right
    then obtain seps where seq:
        "CheckDigitSequence (p_exponent_part p) Decimal True ds = ((ok, seps), ds')"
      and q: "q = p\<lparr>p_exponent_needs_cleaning := seps\<rparr>"
      using assms
      by (auto simp: unf has_exponent_def exponent_char_def split: if_splits prod.splits)
    from CheckDigitSequence_digits [OF seq] obtain a where a: "ds' = ds @ a" "\<not> ok \<Longrightarrow> a \<noteq> []"
      "ok \<Longrightarrow> digits_in Decimal (snd (p_exponent_part p))
         \<and> (seps \<longleftrightarrow> CHR ''_'' \<in> set (snd (p_exponent_part p)))"
      "ok \<and> a = [] \<longleftrightarrow> digit_sequence True Decimal (snd (p_exponent_part p))" by metis
    with q right show thesis
      by (intro that [of a]) (auto simp: same_parts_def)
  qed
qed

lemma same_parts_preds:
  "same_parts p q \<Longrightarrow> IsInt q = IsInt p \<and> has_exponent q = has_exponent p
     \<and> exponent_char q = exponent_char p"
  by (simp add: same_parts_def IsInt_def has_exponent_def exponent_char_def)

lemma Check_spec:
  assumes "Check p ds = (ok, q, ds')"
  shows "\<exists>added. ds' = ds @ added \<and> same_parts p q \<and> (\<not> ok \<longrightarrow> added \<noteq> [])
    \<and> (ok \<longrightarrow> checked q) \<and> (ok \<and> added = [] \<longleftrightarrow> valid_literal p)"
proof (cases "p_radix p = Decimal \<and> starts_with (snd (p_int_part p)) ''0'' \<and> snd (p_int_part p) \<noteq> ''0''")
  case True
  with assms show ?thesis
    by (auto simp: Check_def CheckLeadingZero_def valid_literal_def same_parts_def)
next
  case False
  note zero = this
  obtain ok2 seps2 ds2 where int:
      "CheckDigitSequence (p_int_part p) (p_radix p) True ds = ((ok2, seps2), ds2)"
    by (metis surj_pair)
  define p2 where "p2 = p\<lparr>p_mantissa_needs_cleaning := p_mantissa_needs_cleaning p \<or> seps2\<rparr>"
  have p2: "same_parts p p2" by (simp add: p2_def same_parts_def)
  from CheckDigitSequence_digits [OF int] obtain a2 where a2: "ds2 = ds @ a2" "\<not> ok2 \<Longrightarrow> a2 \<noteq> []"
    "ok2 \<Longrightarrow> digits_in (p_radix p) (snd (p_int_part p)) \<and> (seps2 \<longleftrightarrow> CHR ''_'' \<in> set (snd (p_int_part p)))"
    "ok2 \<and> a2 = [] \<longleftrightarrow> digit_sequence True (p_radix p) (snd (p_int_part p))" by metis
  have step: "Check p ds = (if \<not> ok2 then (False, p2, ds2)
      else case CheckFractionalPart p2 ds2 of (ok, p, ds) \<Rightarrow>
            if \<not> ok then (False, p, ds) else CheckExponentPart p ds)"
    using zero int by (auto simp: Check_def CheckLeadingZero_def CheckIntPart_def p2_def)
  show ?thesis
  proof (cases ok2)
    case False
    with assms step a2 p2 show ?thesis by (auto simp: valid_literal_def)
  next
    case True
    obtain ok3 p3 ds3 where fract: "CheckFractionalPart p2 ds2 = (ok3, p3, ds3)"
      by (metis surj_pair)
    from CheckFractionalPart_spec [OF fract] obtain a3 where a3: "ds3 = ds2 @ a3" "same_parts p2 p3"
      "\<not> ok3 \<Longrightarrow> a3 \<noteq> []" "IsInt p2 \<Longrightarrow> ok3 \<and> p3 = p2"
      "\<not> IsInt p2 \<Longrightarrow> ok3 \<Longrightarrow> p_mantissa_needs_cleaning p3 \<and> digits_in (p_radix p2) (snd (p_fract_part p2))"
      "ok3 \<and> a3 = [] \<longleftrightarrow> IsInt p2 \<or> p_radix p2 \<noteq> Binary \<and> p_radix p2 \<noteq> Octal
          \<and> digit_sequence False (p_radix p2) (snd (p_fract_part p2))" by metis
    show ?thesis
    proof (cases ok3)
      case False
      with assms step True fract a2 a3 p2 show ?thesis
        by (auto simp: valid_literal_def same_parts_def IsInt_def)
    next
      case ok3: True
      obtain ok4 p4 ds4 where expo: "CheckExponentPart p3 ds3 = (ok4, p4, ds4)"
        by (metis surj_pair)
      from CheckExponentPart_spec [OF expo] obtain a4 where a4: "ds4 = ds3 @ a4" "same_parts p3 p4"
        "\<not> ok4 \<Longrightarrow> a4 \<noteq> []" "p_mantissa_needs_cleaning p4 = p_mantissa_needs_cleaning p3"
        "has_exponent p3 \<Longrightarrow> ok4 \<Longrightarrow> digits_in Decimal (snd (p_exponent_part p3))
           \<and> (CHR ''_'' \<in> set (snd (p_exponent_part p3)) \<longrightarrow> p_exponent_needs_cleaning p4)"
        "ok4 \<and> a4 = [] \<longleftrightarrow> (has_exponent p3 \<longrightarrow>
           nl_text (p_literal p3) ! nl_exponent (p_literal p3) = exponent_char p3
           \<and> digit_sequence True Decimal (snd (p_exponent_part p3)))" by metis
      have res: "ok = ok4" "q = p4" "ds' = ds @ a2 @ a3 @ a4"
        using assms step True fract ok3 expo a2(1) a3(1) a4(1) by auto
      have parts: "same_parts p q" "same_parts p p3"
        using p2 a3(2) a4(2) res by (auto simp: same_parts_def)
      note preds = same_parts_preds [OF p2] same_parts_preds [OF parts(1)] same_parts_preds [OF parts(2)]
      have flag: "p_mantissa_needs_cleaning q" if "\<not> IsInt p \<or> seps2"
        using that a3(4,5) a4(4) ok3 res preds by (cases "IsInt p") (auto simp: p2_def)
      have "checked q" if ok4
        using that True ok3 a2(3) a3(5) a4(5) flag parts p2 preds res
        by (simp add: checked_def same_parts_def)
      moreover have "ok4 \<and> a2 @ a3 @ a4 = [] \<longleftrightarrow> valid_literal p"
        using True ok3 zero a2(4) a3(6) a4(6) p2 parts(2) preds
        by (simp add: valid_literal_def same_parts_def) blast
      moreover have "\<not> ok4 \<longrightarrow> a2 @ a3 @ a4 \<noteq> []" using a4(3) by blast
      ultimately show ?thesis using res parts by blast
    qed
  qed
qed

end
