(* ===== verification/Numeric_Scan.thy ===== *)
theory Numeric_Scan
  imports Numeric_Literal
begin

text \<open>
  What \<open>NumericLiteral::Lex\<close> delimits, said without its loop: the shapes of the text of a literal, and that
  the greedy scan finds the longest prefix that has one.
\<close>

section \<open>The shapes of a literal\<close>

definition word_char :: "char \<Rightarrow> bool" where
  "word_char c \<longleftrightarrow> IsAlnum c \<or> c = CHR ''_'' \<or> c = CHR ''$''"

definition word_part :: "string \<Rightarrow> bool" where
  "word_part t \<longleftrightarrow> t \<noteq> [] \<and> IsAlnum (hd t) \<and> (\<forall>c \<in> set t. word_char c)"

definition is_sign :: "char \<Rightarrow> bool" where
  "is_sign c \<longleftrightarrow> c = CHR ''+'' \<or> c = CHR ''-''"

text \<open>
  Letters, digits, underscores and dollar signs from a decimal digit on; for a real literal a period and another such part; and when
  that ends in a lower-case letter, a sign and one more.
\<close>

definition literal_shape :: "bool \<Rightarrow> string \<Rightarrow> bool" where
  "literal_shape can_form_real t \<longleftrightarrow>
     (\<exists>ip. word_part ip \<and> IsDecimalDigit (hd ip) \<and>
        (t = ip \<or> can_form_real \<and> (\<exists>fp. word_part fp \<and>
           (t = ip @ CHR ''.'' # fp \<or>
            (\<exists>sg ep. IsLower (last fp) \<and> is_sign sg \<and> word_part ep \<and> t = ip @ CHR ''.'' # fp @ sg # ep)))))"

text \<open>Where a run of such characters ends.\<close>

definition word_ends :: "string \<Rightarrow> bool" where
  "word_ends rest \<longleftrightarrow> (\<forall>c cs. rest = c # cs \<longrightarrow> \<not> word_char c)"

definition continues_with :: "(char \<Rightarrow> bool) \<Rightarrow> string \<Rightarrow> bool" where
  "continues_with P rest \<longleftrightarrow> (\<exists>d c cs. rest = d # c # cs \<and> P d \<and> IsAlnum c)"

lemma not_word_char: "\<not> word_char (CHR ''.'')" "is_sign c \<Longrightarrow> \<not> word_char c" "IsAlnum c \<Longrightarrow> word_char c"
  by (auto simp: word_char_def not_IsAlnum_special is_sign_def)

lemma word_run_unique:
  assumes "\<forall>c \<in> set xs. word_char c" "word_ends rest" "xs @ rest = ys @ rest'" "\<forall>c \<in> set ys. word_char c"
  shows "length ys \<le> length xs" "word_ends rest' \<Longrightarrow> ys = xs \<and> rest' = rest"
proof -
  have tw: "takeWhile word_char (us @ vs) = us" if "\<forall>c \<in> set us. word_char c" "word_ends vs" for us vs
    using that by (cases vs) (auto simp: word_ends_def takeWhile_append2)
  have e: "xs = takeWhile word_char (ys @ rest')" using tw [OF assms(1,2)] assms(3) by simp
  then have "xs = ys @ takeWhile word_char rest'" using assms(4) by (simp add: takeWhile_append2)
  then show "length ys \<le> length xs" by simp
  show "ys = xs \<and> rest' = rest" if "word_ends rest'" using tw [OF assms(4) that] e assms(3) by simp
qed

section \<open>Runs of the scan\<close>

text \<open>One past the last lower-case letter; zero when there is none.\<close>

definition exponent_at :: "string \<Rightarrow> nat" where
  "exponent_at t = length (dropWhile (\<lambda>c. \<not> IsLower c) (rev t))"

lemma exponent_at_snoc [simp]: "exponent_at (t @ [c]) = (if IsLower c then length t + 1 else exponent_at t)"
  by (simp add: exponent_at_def)

lemma exponent_at_Nil [simp]: "exponent_at [] = 0"
  by (simp add: exponent_at_def)

lemma exponent_at_le: "exponent_at t \<le> length t"
  using length_dropWhile_le [of "\<lambda>c. \<not> IsLower c" "rev t"] by (simp add: exponent_at_def)

lemma exponent_at_end: "t \<noteq> [] \<Longrightarrow> exponent_at t = length t \<longleftrightarrow> IsLower (last t)"
  using exponent_at_le [of "butlast t"] by (cases t rule: rev_cases) auto

lemma exponent_at_append: "\<forall>c \<in> set u. \<not> IsLower c \<Longrightarrow> exponent_at (t @ u) = exponent_at t"
  by (induction u rule: rev_induct) (simp_all flip: append_assoc)

lemma scan_loop_at:
  "scan_loop (pre @ c # rest) r (length pre) st =
     bind_outcome (scan_step (pre @ c # rest) r (length pre) st) (\<lambda>nxt. case nxt of
       None \<Rightarrow> Ret (length pre, st) | Some st' \<Rightarrow> scan_loop (pre @ c # rest) r (length pre + 1) st')"
  by (subst scan_loop.simps) simp

lemma scan_step_word:
  "word_char c \<Longrightarrow> scan_step (pre @ c # rest) r (length pre) st =
     Ret (Some (if IsLower c \<and> seen_radix_point st \<and> \<not> seen_plus_minus st
       then st\<lparr>scan_exponent := length pre, seen_potential_exponent := True\<rparr> else st))"
  by (simp add: scan_step_def word_char_def Let_def)

lemma scan_run_plain:
  assumes "\<forall>c \<in> set xs. word_char c" "\<not> seen_radix_point st \<or> seen_plus_minus st"
  shows "scan_loop (pre @ xs @ rest) r (length pre) st = scan_loop (pre @ xs @ rest) r (length (pre @ xs)) st"
  using assms(1)
proof (induction xs arbitrary: pre)
  case (Cons c xs)
  have "scan_loop (pre @ (c # xs) @ rest) r (length pre) st = scan_loop ((pre @ [c]) @ xs @ rest) r (length (pre @ [c])) st"
    using scan_loop_at [of pre c "xs @ rest"] scan_step_word [of c pre "xs @ rest"] Cons.prems assms(2) by auto
  with Cons.IH [of "pre @ [c]"] Cons.prems show ?case by simp
qed simp

definition mark_exponent :: "nat \<Rightarrow> string \<Rightarrow> scan \<Rightarrow> scan" where
  "mark_exponent p xs st = (if exponent_at xs = 0 then st
     else st\<lparr>scan_exponent := p + exponent_at xs - 1, seen_potential_exponent := True\<rparr>)"

lemma scan_run_fraction:
  assumes "\<forall>c \<in> set xs. word_char c" "seen_radix_point st" "\<not> seen_plus_minus st"
  shows "scan_loop (pre @ xs @ rest) r (length pre) st =
    scan_loop (pre @ xs @ rest) r (length (pre @ xs)) (mark_exponent (length pre) xs st)"
  using assms(1)
proof (induction xs arbitrary: rest rule: rev_induct)
  case (snoc c xs)
  let ?st = "mark_exponent (length pre) xs st"
  have s: "seen_radix_point ?st" "\<not> seen_plus_minus ?st" using assms(2,3) by (simp_all add: mark_exponent_def)
  have "scan_loop (pre @ (xs @ [c]) @ rest) r (length pre) st = scan_loop ((pre @ xs) @ c # rest) r (length (pre @ xs)) ?st"
    using snoc.IH [of "c # rest"] snoc.prems by simp
  also have "\<dots> = scan_loop (pre @ (xs @ [c]) @ rest) r (length (pre @ xs @ [c])) (mark_exponent (length pre) (xs @ [c]) st)"
    using scan_loop_at [of "pre @ xs" c rest r ?st] scan_step_word [of c "pre @ xs" rest r ?st] snoc.prems s
    by (simp add: mark_exponent_def)
  finally show ?case .
qed (simp add: mark_exponent_def)

lemma scan_point:
  assumes "IsAlnum c" "\<not> seen_radix_point st"
  shows "scan_loop (pre @ CHR ''.'' # c # rest) True (length pre) st =
    scan_loop (pre @ CHR ''.'' # c # rest) True (length pre + 1) (st\<lparr>scan_radix_point := length pre, seen_radix_point := True\<rparr>)"
proof -
  have "scan_step (pre @ CHR ''.'' # c # rest) True (length pre) st =
      Ret (Some (st\<lparr>scan_radix_point := length pre, seen_radix_point := True\<rparr>))"
    using assms by (simp add: scan_step_def Let_def not_IsAlnum_special nth_append)
  then show ?thesis by (simp add: scan_loop_at)
qed

lemma scan_sign:
  assumes "is_sign sg" "IsAlnum c" "\<not> seen_plus_minus st" "seen_potential_exponent st" "scan_exponent st + 1 = length pre"
  shows "scan_loop (pre @ sg # c # rest) r (length pre) st =
    scan_loop (pre @ sg # c # rest) r (length pre + 1) (st\<lparr>seen_plus_minus := True\<rparr>)"
proof -
  have "scan_step (pre @ sg # c # rest) r (length pre) st = Ret (Some (st\<lparr>seen_plus_minus := True\<rparr>))"
    using assms by (auto simp: scan_step_def Let_def not_IsAlnum_special nth_append is_sign_def)
  then show ?thesis by (simp add: scan_loop_at)
qed

lemma scan_stop:
  assumes "word_ends rest" "seen_radix_point st \<or> \<not> (r \<and> continues_with ((=) (CHR ''.'')) rest)"
    "seen_potential_exponent st \<and> scan_exponent st + 1 = length pre \<longrightarrow> \<not> continues_with is_sign rest"
    "pre \<noteq> []"
  shows "scan_loop (pre @ rest) r (length pre) st = Ret (length pre, st)"
proof (cases rest)
  case Nil
  then show ?thesis by (simp add: scan_loop.simps)
next
  case (Cons d ds)
  then have "\<not> word_char d" using assms(1) by (simp add: word_ends_def)
  moreover have "scan_exponent st = length pre - 1 \<longleftrightarrow> scan_exponent st + 1 = length pre" using assms(4) by (cases pre) auto
  ultimately have "scan_step (pre @ d # ds) r (length pre) st = Ret None"
    using assms(2,3) Cons by (cases ds) (auto simp: scan_step_def Let_def word_char_def nth_append continues_with_def is_sign_def)
  then show ?thesis by (simp add: Cons scan_loop_at)
qed

section \<open>What is lexed\<close>

lemma scan_from_start:
  assumes "word_part ip"
  shows "scan_loop (ip @ rest) r 1 initial_scan = scan_loop (ip @ rest) r (length ip) initial_scan"
proof -
  obtain c cs where ip: "ip = c # cs" "\<forall>x \<in> set cs. word_char x" using assms by (cases ip) (auto simp: word_part_def)
  show ?thesis using scan_run_plain [OF ip(2), of initial_scan "[c]"] by (simp add: ip initial_scan_def)
qed

lemma Lex_from_scan:
  assumes "scan_loop s r 1 initial_scan = Ret (j, st)" "s \<noteq> []" "IsDecimalDigit (hd s)"
  shows "NumericLiteral_Lex s r = Ret (Some \<lparr>nl_text = take j s,
    nl_radix_point = (if seen_radix_point st then scan_radix_point st else j),
    nl_exponent = (if seen_potential_exponent st then scan_exponent st else j)\<rparr>)"
  using assms by (simp add: NumericLiteral_Lex_def)

lemma Lex_integer_shape:
  assumes "word_part ip" "IsDecimalDigit (hd ip)" "word_ends rest" "\<not> (r \<and> continues_with ((=) (CHR ''.'')) rest)"
  shows "NumericLiteral_Lex (ip @ rest) r = Ret (Some \<lparr>nl_text = ip, nl_radix_point = length ip, nl_exponent = length ip\<rparr>)"
proof -
  have ne: "ip \<noteq> []" using assms(1) by (simp add: word_part_def)
  have "scan_loop (ip @ rest) r 1 initial_scan = Ret (length ip, initial_scan)"
    unfolding scan_from_start [OF assms(1)] by (rule scan_stop [OF assms(3) _ _ ne]) (use assms(4) in \<open>simp_all add: initial_scan_def\<close>)
  from Lex_from_scan [OF this] assms(2) ne show ?thesis by (simp add: initial_scan_def)
qed

text \<open>The state after the period and the part that follows it.\<close>

definition fraction_state :: "string \<Rightarrow> string \<Rightarrow> scan" where
  "fraction_state ip fp = mark_exponent (length ip + 1) fp (initial_scan\<lparr>scan_radix_point := length ip, seen_radix_point := True\<rparr>)"

lemma fraction_state_simps [simp]:
  "seen_radix_point (fraction_state ip fp)" "scan_radix_point (fraction_state ip fp) = length ip" "\<not> seen_plus_minus (fraction_state ip fp)"
  "seen_potential_exponent (fraction_state ip fp) \<longleftrightarrow> exponent_at fp \<noteq> 0"
  "exponent_at fp \<noteq> 0 \<Longrightarrow> scan_exponent (fraction_state ip fp) = length ip + exponent_at fp"
  by (simp_all add: fraction_state_def mark_exponent_def initial_scan_def)

lemma scan_to_fraction:
  assumes "word_part ip" "word_part fp"
  shows "scan_loop (ip @ CHR ''.'' # fp @ rest) True 1 initial_scan =
    scan_loop (ip @ CHR ''.'' # fp @ rest) True (length (ip @ CHR ''.'' # fp)) (fraction_state ip fp)"
proof -
  let ?st = "initial_scan\<lparr>scan_radix_point := length ip, seen_radix_point := True\<rparr>"
  obtain c cs where fp: "fp = c # cs" "IsAlnum c" "\<forall>x \<in> set fp. word_char x" using assms(2) by (cases fp) (auto simp: word_part_def)
  have "scan_loop (ip @ CHR ''.'' # fp @ rest) True 1 initial_scan =
      scan_loop (ip @ CHR ''.'' # fp @ rest) True (length ip + 1) ?st"
    unfolding scan_from_start [OF assms(1)] using scan_point [OF fp(2), of initial_scan ip "cs @ rest"] fp(1) by (simp add: initial_scan_def)
  also have "\<dots> = scan_loop ((ip @ ''.'') @ fp @ rest) True (length (ip @ ''.'')) ?st" by simp
  also have "\<dots> = scan_loop ((ip @ ''.'') @ fp @ rest) True (length ((ip @ ''.'') @ fp)) (mark_exponent (length (ip @ ''.'')) fp ?st)"
    by (rule scan_run_fraction [OF fp(3)]) (simp_all add: initial_scan_def)
  finally show ?thesis by (simp add: fraction_state_def)
qed

lemma Lex_fraction_shape:
  assumes "word_part ip" "IsDecimalDigit (hd ip)" "word_part fp" "word_ends rest" "IsLower (last fp) \<longrightarrow> \<not> continues_with is_sign rest"
  shows "NumericLiteral_Lex (ip @ CHR ''.'' # fp @ rest) True = Ret (Some \<lparr>nl_text = ip @ CHR ''.'' # fp, nl_radix_point = length ip,
    nl_exponent = (if exponent_at fp = 0 then length (ip @ CHR ''.'' # fp) else length ip + exponent_at fp)\<rparr>)"
proof -
  let ?pre = "ip @ CHR ''.'' # fp"
  have ne: "ip \<noteq> []" "fp \<noteq> []" using assms(1,3) by (simp_all add: word_part_def)
  have "scan_loop (?pre @ rest) True (length ?pre) (fraction_state ip fp) = Ret (length ?pre, fraction_state ip fp)"
    by (rule scan_stop [OF assms(4)]) (use assms(5) exponent_at_end [OF ne(2)] in auto)
  then have "scan_loop (?pre @ rest) True 1 initial_scan = Ret (length ?pre, fraction_state ip fp)"
    using scan_to_fraction [OF assms(1,3), of rest] by simp
  from Lex_from_scan [OF this] assms(2) ne show ?thesis by simp
qed

lemma Lex_signed_shape:
  assumes "word_part ip" "IsDecimalDigit (hd ip)" "word_part fp" "IsLower (last fp)" "is_sign sg" "word_part ep" "word_ends rest"
  shows "NumericLiteral_Lex (ip @ CHR ''.'' # fp @ sg # ep @ rest) True = Ret (Some \<lparr>nl_text = ip @ CHR ''.'' # fp @ sg # ep,
    nl_radix_point = length ip, nl_exponent = length ip + length fp\<rparr>)"
proof -
  let ?pre = "ip @ CHR ''.'' # fp" and ?st = "(fraction_state ip fp)\<lparr>seen_plus_minus := True\<rparr>"
  let ?s = "ip @ CHR ''.'' # fp @ sg # ep @ rest"
  have ne: "ip \<noteq> []" "fp \<noteq> []" using assms(1,3) by (simp_all add: word_part_def)
  then have ex: "exponent_at fp = length fp" "exponent_at fp \<noteq> 0" using exponent_at_end [OF ne(2)] assms(4) by auto
  obtain c cs where ep: "ep = c # cs" "IsAlnum c" "\<forall>x \<in> set ep. word_char x" using assms(6) by (cases ep) (auto simp: word_part_def)
  have "scan_loop ?s True 1 initial_scan = scan_loop (?pre @ sg # c # cs @ rest) True (length ?pre) (fraction_state ip fp)"
    using scan_to_fraction [OF assms(1,3), of "sg # ep @ rest"] ep(1) by simp
  also have "\<dots> = scan_loop (?pre @ sg # c # cs @ rest) True (length ?pre + 1) ?st"
    by (rule scan_sign [OF assms(5) ep(2)]) (use ex in simp_all)
  also have "\<dots> = scan_loop ((?pre @ [sg]) @ ep @ rest) True (length (?pre @ [sg])) ?st" using ep(1) by simp
  also have "\<dots> = scan_loop ((?pre @ [sg]) @ ep @ rest) True (length ((?pre @ [sg]) @ ep)) ?st" by (rule scan_run_plain [OF ep(3)]) simp
  also have "\<dots> = scan_loop ((?pre @ sg # ep) @ rest) True (length (?pre @ sg # ep)) ?st" by simp
  also have "\<dots> = Ret (length (?pre @ sg # ep), ?st)"
    by (rule scan_stop [OF assms(7)]) (use ex ep(1) in auto)
  finally have "scan_loop ?s True 1 initial_scan = Ret (length (?pre @ sg # ep), ?st)" .
  from Lex_from_scan [OF this] assms(2) ne ex show ?thesis by simp
qed

section \<open>The longest prefix\<close>

lemma word_split:
  obtains xs rest where "s = xs @ rest" "\<forall>c \<in> set xs. word_char c" "word_ends rest"
proof
  show "s = takeWhile word_char s @ dropWhile word_char s" by simp
  show "\<forall>c \<in> set (takeWhile word_char s). word_char c" by (auto dest: set_takeWhileD)
  show "word_ends (dropWhile word_char s)" unfolding word_ends_def by (metis hd_dropWhile list.distinct(1) list.sel(1))
qed

lemma word_split_part:
  assumes "s = c # cs" "IsAlnum c"
  obtains xs rest where "s = xs @ rest" "word_part xs" "word_ends rest" "hd xs = c"
proof -
  obtain xs rest where s: "s = xs @ rest" "\<forall>c \<in> set xs. word_char c" "word_ends rest" by (rule word_split)
  have "xs \<noteq> []" using s(1,3) assms not_word_char(3) by (auto simp: word_ends_def)
  then show thesis using that [OF s(1) _ s(3)] s(1,2) assms by (cases xs) (auto simp: word_part_def)
qed

text \<open>Every text that starts with a digit is one of the three shapes and a rest that does not continue it.\<close>

lemma Lex_shapes:
  assumes "s \<noteq> []" "IsDecimalDigit (hd s)"
  obtains (integer) ip rest where "s = ip @ rest" "word_part ip" "IsDecimalDigit (hd ip)" "word_ends rest"
      "\<not> (r \<and> continues_with ((=) (CHR ''.'')) rest)"
    | (fraction) ip fp rest where "r" "s = ip @ CHR ''.'' # fp @ rest" "word_part ip" "IsDecimalDigit (hd ip)" "word_part fp" "word_ends rest"
      "IsLower (last fp) \<longrightarrow> \<not> continues_with is_sign rest"
    | (signed_exponent) ip fp sg ep rest where "r" "s = ip @ CHR ''.'' # fp @ sg # ep @ rest" "word_part ip" "IsDecimalDigit (hd ip)"
      "word_part fp" "IsLower (last fp)" "is_sign sg" "word_part ep" "word_ends rest"
proof -
  obtain c cs where c: "s = c # cs" "IsAlnum c" using assms by (cases s) (auto simp: IsAlnum_def)
  obtain ip r1 where ip: "s = ip @ r1" "word_part ip" "word_ends r1" "hd ip = c" by (rule word_split_part [OF c])
  have d: "IsDecimalDigit (hd ip)" using assms(2) ip(4) c(1) by simp
  show thesis
  proof (cases "r \<and> continues_with ((=) (CHR ''.'')) r1")
    case False
    show ?thesis by (rule integer [OF ip(1,2) d ip(3) False])
  next
    case True
    then obtain c2 cs2 where r1: "r1 = CHR ''.'' # c2 # cs2" "IsAlnum c2" by (auto simp: continues_with_def)
    obtain fp r2 where fp: "c2 # cs2 = fp @ r2" "word_part fp" "word_ends r2" by (rule word_split_part [OF refl r1(2)])
    have s: "s = ip @ CHR ''.'' # fp @ r2" using ip(1) r1(1) fp(1) by simp
    show ?thesis
    proof (cases "IsLower (last fp) \<and> continues_with is_sign r2")
      case False
      then show ?thesis using fraction [OF _ s ip(2) d fp(2,3)] True by blast
    next
      case sign: True
      then obtain sg c3 cs3 where r2: "r2 = sg # c3 # cs3" "is_sign sg" "IsAlnum c3" by (auto simp: continues_with_def)
      obtain ep r3 where ep: "c3 # cs3 = ep @ r3" "word_part ep" "word_ends r3" by (rule word_split_part [OF refl r2(3)])
      have "s = ip @ CHR ''.'' # fp @ sg # ep @ r3" using s r2(1) ep(1) by simp
      from signed_exponent [OF _ this ip(2) d fp(2) _ r2(2) ep(2,3)] True sign show ?thesis by blast
    qed
  qed
qed

lemma word_part_chars: "word_part xs \<Longrightarrow> \<forall>c \<in> set xs. word_char c" "word_part xs \<Longrightarrow> xs \<noteq> []"
  by (simp_all add: word_part_def)

text \<open>The first part of a shape that is a prefix of a text is the first run of the text, or within it.\<close>

lemma shape_first:
  assumes "word_part ip" "word_ends rest" "ip @ rest = t @ cont" "literal_shape r t"
  shows "length t \<le> length ip \<or> r \<and> (\<exists>fp. word_part fp \<and>
    ((\<exists>u. t = ip @ CHR ''.'' # fp \<and> rest = CHR ''.'' # fp @ u) \<or>
     (\<exists>sg ep u. IsLower (last fp) \<and> is_sign sg \<and> word_part ep \<and> t = ip @ CHR ''.'' # fp @ sg # ep \<and> rest = CHR ''.'' # fp @ sg # ep @ u)))"
proof -
  obtain ip' where ip': "word_part ip'" "t = ip' \<or> r \<and> (\<exists>fp. word_part fp \<and> (t = ip' @ CHR ''.'' # fp \<or>
      (\<exists>sg ep. IsLower (last fp) \<and> is_sign sg \<and> word_part ep \<and> t = ip' @ CHR ''.'' # fp @ sg # ep)))"
    using assms(4) unfolding literal_shape_def by blast
  note run = word_run_unique [OF word_part_chars(1) [OF assms(1)] assms(2) _ word_part_chars(1) [OF ip'(1)]]
  have dot: "word_ends (CHR ''.'' # u)" for u by (simp add: word_ends_def not_word_char)
  show ?thesis
  proof (cases "t = ip'")
    case True
    then show ?thesis using run(1) [of cont] assms(3) by simp
  next
    case False
    with ip'(2) obtain fp where r: r and fp: "word_part fp" "t = ip' @ CHR ''.'' # fp \<or>
      (\<exists>sg ep. IsLower (last fp) \<and> is_sign sg \<and> word_part ep \<and> t = ip' @ CHR ''.'' # fp @ sg # ep)" by blast
    from fp(2) obtain v where v: "t = ip' @ CHR ''.'' # v" by blast
    then have "ip' = ip \<and> CHR ''.'' # v @ cont = rest" using run(2) [of "CHR ''.'' # v @ cont"] dot assms(3) by simp
    then show ?thesis using r fp v by auto
  qed
qed

lemma sign_ends: "is_sign sg \<Longrightarrow> word_ends (sg # u)"
  by (simp add: word_ends_def not_word_char)

lemma literal_shapes:
  assumes "word_part ip" "IsDecimalDigit (hd ip)"
  shows "literal_shape r ip"
    "word_part fp \<Longrightarrow> literal_shape True (ip @ CHR ''.'' # fp)"
    "word_part fp \<Longrightarrow> IsLower (last fp) \<Longrightarrow> is_sign sg \<Longrightarrow> word_part ep \<Longrightarrow> literal_shape True (ip @ CHR ''.'' # fp @ sg # ep)"
  using assms unfolding literal_shape_def by blast+

lemma longest_shape:
  assumes "NumericLiteral_Lex s r = Ret (Some lit)"
  shows "literal_shape r (nl_text lit)" "s = t @ cont \<Longrightarrow> literal_shape r t \<Longrightarrow> length t \<le> length (nl_text lit)"
    "nl_radix_point lit = length (takeWhile (\<lambda>c. c \<noteq> CHR ''.'') (nl_text lit))"
proof -
  note s = NumericLiteral_Lex_Some [OF assms]
  have no_dot: "takeWhile (\<lambda>c. c \<noteq> CHR ''.'') (ip @ CHR ''.'' # u) = ip" "takeWhile (\<lambda>c. c \<noteq> CHR ''.'') ip = ip"
    if "word_part ip" for ip u
  proof -
    have "\<forall>c \<in> set ip. c \<noteq> CHR ''.''" using word_part_chars(1) [OF that] not_word_char(1) by blast
    then show "takeWhile (\<lambda>c. c \<noteq> CHR ''.'') (ip @ CHR ''.'' # u) = ip" "takeWhile (\<lambda>c. c \<noteq> CHR ''.'') ip = ip"
      by (simp_all add: takeWhile_append2 takeWhile_eq_all_conv)
  qed
  have "literal_shape r (nl_text lit) \<and> (s = t @ cont \<and> literal_shape r t \<longrightarrow> length t \<le> length (nl_text lit)) \<and>
    nl_radix_point lit = length (takeWhile (\<lambda>c. c \<noteq> CHR ''.'') (nl_text lit))"
    using s
  proof (cases rule: Lex_shapes [of s r, case_names integer fraction signed_exponent])
    case (integer ip rest)
    have lit: "lit = \<lparr>nl_text = ip, nl_radix_point = length ip, nl_exponent = length ip\<rparr>"
      using Lex_integer_shape [OF integer(2-5)] assms integer(1) by simp
    have "length t \<le> length ip" if a: "s = t @ cont" "literal_shape r t"
    proof (rule ccontr)
      assume "\<not> length t \<le> length ip"
      with shape_first [OF integer(2,4), of t cont r] a integer(1) obtain fp u where "r" "word_part fp" "rest = CHR ''.'' # fp @ u" by auto
      then show False using integer(5) by (cases fp) (auto simp: continues_with_def word_part_def)
    qed
    then show ?thesis using literal_shapes(1) [OF integer(2,3)] by (simp add: lit no_dot(2) [OF integer(2)])
  next
    case (fraction ip fp rest)
    have lit: "nl_text lit = ip @ CHR ''.'' # fp" "nl_radix_point lit = length ip"
      using Lex_fraction_shape [OF fraction(3-7)] assms fraction(1,2) by auto
    have dot: "word_ends (CHR ''.'' # fp @ rest)" by (simp add: word_ends_def not_word_char)
    note run = word_run_unique [OF word_part_chars(1) [OF fraction(5)] fraction(6)]
    have "length t \<le> length (ip @ CHR ''.'' # fp)" if a: "s = t @ cont" "literal_shape r t"
    proof -
      consider "length t \<le> length ip" | fp' u where "word_part fp'" "t = ip @ CHR ''.'' # fp'" "fp @ rest = fp' @ u"
        | fp' sg ep u where "word_part fp'" "IsLower (last fp')" "is_sign sg" "word_part ep" "fp @ rest = fp' @ sg # ep @ u"
        using shape_first [OF fraction(3) dot, of t cont r] a fraction(2) by auto
      then show ?thesis
      proof cases
        case (2 fp' u)
        then show ?thesis using run(1) [OF 2(3) word_part_chars(1) [OF 2(1)]] by simp
      next
        case (3 fp' sg ep u)
        then have "fp' = fp \<and> sg # ep @ u = rest" using run(2) [OF 3(5) word_part_chars(1) [OF 3(1)] sign_ends] by blast
        then have "continues_with is_sign rest" "IsLower (last fp)"
          using 3(2-4) by (cases ep; auto simp: continues_with_def word_part_def)+
        with fraction(7) show ?thesis by blast
      qed simp
    qed
    then show ?thesis using literal_shapes(2) [OF fraction(3-5)] fraction(1) by (simp add: lit no_dot(1) [OF fraction(3)])
  next
    case (signed_exponent ip fp sg ep rest)
    have lit: "nl_text lit = ip @ CHR ''.'' # fp @ sg # ep" "nl_radix_point lit = length ip"
      using Lex_signed_shape [OF signed_exponent(3-9)] assms signed_exponent(1,2) by auto
    have dot: "word_ends (CHR ''.'' # fp @ sg # ep @ rest)" by (simp add: word_ends_def not_word_char)
    note run = word_run_unique [OF word_part_chars(1) [OF signed_exponent(5)] sign_ends [OF signed_exponent(7)]]
    note run2 = word_run_unique [OF word_part_chars(1) [OF signed_exponent(8)] signed_exponent(9)]
    have "length t \<le> length (ip @ CHR ''.'' # fp @ sg # ep)" if a: "s = t @ cont" "literal_shape r t"
    proof -
      consider "length t \<le> length ip" | fp' u where "word_part fp'" "t = ip @ CHR ''.'' # fp'" "fp @ sg # ep @ rest = fp' @ u"
        | fp' sg' ep' u where "word_part fp'" "is_sign sg'" "word_part ep'" "t = ip @ CHR ''.'' # fp' @ sg' # ep'"
          "fp @ sg # ep @ rest = fp' @ sg' # ep' @ u"
        using shape_first [OF signed_exponent(3) dot, of t cont r] a signed_exponent(2) by auto
      then show ?thesis
      proof cases
        case (2 fp' u)
        then show ?thesis using run(1) [OF 2(3) word_part_chars(1) [OF 2(1)]] by simp
      next
        case (3 fp' sg' ep' u)
        then have "fp' = fp \<and> ep @ rest = ep' @ u" using run(2) [OF 3(5) word_part_chars(1) [OF 3(1)] sign_ends] by auto
        then show ?thesis using run2(1) [of ep' u] word_part_chars(1) [OF 3(3)] 3(4) by simp
      qed simp
    qed
    then show ?thesis using literal_shapes(3) [OF signed_exponent(3-8)] signed_exponent(1) by (simp add: lit no_dot(1) [OF signed_exponent(3)])
  qed
  then show "literal_shape r (nl_text lit)" "s = t @ cont \<Longrightarrow> literal_shape r t \<Longrightarrow> length t \<le> length (nl_text lit)"
    "nl_radix_point lit = length (takeWhile (\<lambda>c. c \<noteq> CHR ''.'') (nl_text lit))" by blast+
qed

section \<open>The mark of the exponent\<close>

text \<open>
  The exponent begins at the last lower-case letter behind the radix point and before any sign, or at the end when there is none.
\<close>

definition exponent_letter :: "NumericLiteral \<Rightarrow> nat \<Rightarrow> bool" where
  "exponent_letter lit i \<longleftrightarrow> nl_radix_point lit < i \<and> i < length (nl_text lit) \<and> IsLower (nl_text lit ! i)
     \<and> (\<forall>j < i. \<not> is_sign (nl_text lit ! j))"

definition marks_exponent :: "NumericLiteral \<Rightarrow> bool" where
  "marks_exponent lit \<longleftrightarrow> (\<forall>i. exponent_letter lit i \<longrightarrow> i \<le> nl_exponent lit)
     \<and> (if \<exists>i. exponent_letter lit i then exponent_letter lit (nl_exponent lit) else nl_exponent lit = length (nl_text lit))"

lemma exponent_at_nth:
  "exponent_at t \<noteq> 0 \<Longrightarrow> IsLower (t ! (exponent_at t - 1))" "exponent_at t \<le> i \<Longrightarrow> i < length t \<Longrightarrow> \<not> IsLower (t ! i)"
proof -
  have "(exponent_at t \<noteq> 0 \<longrightarrow> IsLower (t ! (exponent_at t - 1))) \<and> (\<forall>i. exponent_at t \<le> i \<and> i < length t \<longrightarrow> \<not> IsLower (t ! i))"
  proof (induction t rule: rev_induct)
    case (snoc c t)
    then show ?case using exponent_at_le [of t] by (auto simp: nth_append less_Suc_eq)
  qed simp
  then show "exponent_at t \<noteq> 0 \<Longrightarrow> IsLower (t ! (exponent_at t - 1))" "exponent_at t \<le> i \<Longrightarrow> i < length t \<Longrightarrow> \<not> IsLower (t ! i)"
    by blast+
qed

lemma word_no_sign: "word_part t \<Longrightarrow> i < length t \<Longrightarrow> \<not> is_sign (t ! i)"
  using word_part_chars(1) [of t] not_word_char(2) nth_mem by blast

text \<open>The letters of a literal with a fraction that are behind the radix point.\<close>

lemma nth_fraction:
  "(ip @ CHR ''.'' # u) ! (length ip + 1 + k) = u ! k" "length ip < i \<Longrightarrow> (ip @ CHR ''.'' # u) ! i = u ! (i - (length ip + 1))"
  by (simp_all add: nth_append nth_Cons split: nat.split) (metis Suc_diff_Suc diff_Suc_1 diff_Suc_eq_diff_pred nat.inject)

lemma Lex_marks_exponent:
  assumes "NumericLiteral_Lex s r = Ret (Some lit)"
  shows "marks_exponent lit"
  using NumericLiteral_Lex_Some [OF assms]
proof (cases rule: Lex_shapes [of s r, case_names integer fraction signed_exponent])
  case (integer ip rest)
  then have "lit = \<lparr>nl_text = ip, nl_radix_point = length ip, nl_exponent = length ip\<rparr>"
    using Lex_integer_shape [OF integer(2-5)] assms by simp
  then show ?thesis by (auto simp: marks_exponent_def exponent_letter_def)
next
  case (fraction ip fp rest)
  let ?e = "exponent_at fp"
  have lit: "lit = \<lparr>nl_text = ip @ CHR ''.'' # fp, nl_radix_point = length ip,
      nl_exponent = (if ?e = 0 then length (ip @ CHR ''.'' # fp) else length ip + ?e)\<rparr>"
    using Lex_fraction_shape [OF fraction(3-7)] assms fraction(1,2) by simp
  have sign: "\<not> is_sign ((ip @ CHR ''.'' # fp) ! j)" if "j < length (ip @ CHR ''.'' # fp)" for j
    using that word_no_sign [OF fraction(3)] word_no_sign [OF fraction(5)] nth_fraction(2) [of ip j fp]
    by (cases "j < length ip"; cases "j = length ip") (auto simp: nth_append is_sign_def)
  have letter: "exponent_letter lit i \<longleftrightarrow> length ip < i \<and> i < length ip + 1 + length fp \<and> IsLower (fp ! (i - (length ip + 1)))" for i
    using sign nth_fraction(2) [of ip i fp] by (auto simp: exponent_letter_def lit)
  have bound: "i \<le> length ip + ?e" if "exponent_letter lit i" for i
  proof -
    have i: "length ip < i" "i - (length ip + 1) < length fp" "IsLower (fp ! (i - (length ip + 1)))"
      using that unfolding letter by auto
    have "i - (length ip + 1) < ?e" using exponent_at_nth(2) [OF _ i(2)] i(3) by (meson not_less)
    then show ?thesis using i(1) by simp
  qed
  have "exponent_letter lit (length ip + ?e)" if "?e \<noteq> 0"
    using that exponent_at_nth(1) [OF that] exponent_at_le [of fp] unfolding letter by auto
  moreover have "\<not> exponent_letter lit i" if "?e = 0" for i using bound [of i] that by (auto simp: letter)
  ultimately show ?thesis using bound unfolding marks_exponent_def by (auto simp: lit)
next
  case (signed_exponent ip fp sg ep rest)
  let ?t = "ip @ CHR ''.'' # fp @ sg # ep"
  have lit: "lit = \<lparr>nl_text = ?t, nl_radix_point = length ip, nl_exponent = length ip + length fp\<rparr>"
    using Lex_signed_shape [OF signed_exponent(3-9)] assms signed_exponent(1,2) by simp
  have fp: "fp \<noteq> []" using signed_exponent(5) by (simp add: word_part_def)
  have sg: "?t ! (length ip + 1 + length fp) = sg" using nth_fraction(1) [of ip "fp @ sg # ep" "length fp"] by simp
  have at: "?t ! (length ip + length fp) = last fp"
    using nth_fraction(1) [of ip "fp @ sg # ep" "length fp - 1"] fp by (simp add: nth_append last_conv_nth)
  have "\<not> is_sign (?t ! j)" if "j < length ip + length fp" for j
    using that word_no_sign [OF signed_exponent(3)] word_no_sign [OF signed_exponent(5)] nth_fraction(2) [of ip j "fp @ sg # ep"]
    by (cases "j < length ip"; cases "j = length ip") (auto simp: nth_append is_sign_def)
  then have "exponent_letter lit (length ip + length fp)"
    using at signed_exponent(6) fp by (simp add: exponent_letter_def lit)
  moreover have "i \<le> length ip + length fp" if "exponent_letter lit i" for i
  proof (rule ccontr)
    assume "\<not> i \<le> length ip + length fp"
    then consider "i = length ip + 1 + length fp" | "length ip + 1 + length fp < i" by linarith
    then show False
    proof cases
      case 1
      then have "IsLower sg" using that sg by (simp add: exponent_letter_def lit)
      then show False using signed_exponent(7) by (auto simp: is_sign_def IsLower_def byte_of_def)
    next
      case 2
      then have "\<not> is_sign (?t ! (length ip + 1 + length fp))" using that unfolding exponent_letter_def lit by simp
      then show False using sg signed_exponent(7) by simp
    qed
  qed
  ultimately show ?thesis unfolding marks_exponent_def by (auto simp: lit)
qed

end
