(* ===== verification/Numeric_Value.thy ===== *)
theory Numeric_Value
  imports Numeric_Scan
begin

text \<open>
  The value that \<open>NumericLiteral::ComputeValue\<close> computes (\<open>toolchain/lex/numeric_literal.cpp\<close>):
  the parts the parser's constructor splits the text into, the mantissa and the exponent read
  from them, and the properties of the component with their witnesses. \<open>APInt\<close> is a parameter;
  the properties assume the interface \<open>apint\<close> and the witnesses instantiate it by bit lists.
\<close>

section \<open>The parts of a literal\<close>

text \<open>The length of the radix prefix of the literal.\<close>

definition prefix_size :: "Radix \<Rightarrow> nat" where
  "prefix_size radix = (if radix = Decimal then 0 else 2)"

definition clean :: "string \<Rightarrow> string" where
  "clean = filter (\<lambda>c. c \<noteq> CHR ''_'' \<and> c \<noteq> CHR ''.'')"

lemma clean_append [simp]: "clean (xs @ ys) = clean xs @ clean ys"
  by (simp add: clean_def)

lemma clean_Cons: "clean (c # cs) = (if c = CHR ''_'' \<or> c = CHR ''.'' then clean cs else c # clean cs)"
  by (simp add: clean_def)

lemma Parser_init_simps [simp]:
  "p_literal (Parser_init lit) = lit"
  "p_fract_part (Parser_init lit) =
     view (nl_text lit) (nl_radix_point lit + 1) (nl_exponent lit - nl_radix_point lit - 1)"
  by (simp_all add: Parser_init_def Let_def split: prod.splits)

lemma consume_front_at_start:
  "consume_front pre (0, t) = Some v \<Longrightarrow> v = (length pre, drop (length pre) t) \<and> length pre \<le> length t"
  using starts_with_length [of t pre] by (auto simp: consume_front_def split: if_splits)

lemma Parser_init_radix:
  "(p_radix (Parser_init lit), p_int_part (Parser_init lit)) =
     (let v = (0, take (nl_radix_point lit) (nl_text lit)) in
      case consume_front ''0x'' v of Some v \<Rightarrow> (Hexadecimal, v)
      | None \<Rightarrow> (case consume_front ''0b'' v of Some v \<Rightarrow> (Binary, v)
      | None \<Rightarrow> (case consume_front ''0o'' v of Some v \<Rightarrow> (Octal, v)
      | None \<Rightarrow> (Decimal, v))))"
proof -
  have "view (nl_text lit) 0 (nl_radix_point lit) = (0, take (nl_radix_point lit) (nl_text lit))"
    by (simp add: view_def substr_def)
  then show ?thesis by (simp add: Parser_init_def Let_def split_def cong: option.case_cong)
qed

lemma Parser_init_int_part:
  defines "t \<equiv> \<lambda>lit. take (nl_radix_point lit) (nl_text lit)"
  shows "p_int_part (Parser_init lit) =
     (prefix_size (p_radix (Parser_init lit)), drop (prefix_size (p_radix (Parser_init lit))) (t lit))
     \<and> prefix_size (p_radix (Parser_init lit)) \<le> length (t lit)"
  using Parser_init_radix [of lit] unfolding Let_def t_def prefix_size_def
  by (simp split: option.splits) (auto dest!: consume_front_at_start simp: numeral_2_eq_2)

text \<open>The digits that \<open>GetMantissa\<close> reads.\<close>

definition mantissa_text :: "Parser \<Rightarrow> string" where
  "mantissa_text p =
     (let last = (if IsInt p then view_end (p_int_part p) else view_end (p_fract_part p));
          begin = fst (p_int_part p)
      in substr (nl_text (p_literal p)) begin (last - begin))"

lemma GetMantissa_eq:
  "GetMantissa A p = ParseInt A (mantissa_text p) (p_radix p) (p_mantissa_needs_cleaning p) True"
  by (simp add: GetMantissa_def mantissa_text_def Let_def)

lemma substr_join:
  "k \<le> r \<Longrightarrow> r < e \<Longrightarrow> e \<le> length t \<Longrightarrow>
   substr t k (e - k) = drop k (take r t) @ t ! r # substr t (r + 1) (e - r - 1)"
proof -
  assume a: "k \<le> r" "r < e" "e \<le> length t"
  have "take e t = take r t @ t ! r # take (e - r - 1) (drop (r + 1) t)"
  proof -
    have "take e t = take (r + (e - r)) t" using a by simp
    also have "\<dots> = take r t @ take (e - r) (drop r t)" by (simp only: take_add)
    also have "drop r t = t ! r # drop (r + 1) t" using a by (simp add: Cons_nth_drop_Suc)
    finally show ?thesis using a by (simp add: take_Cons')
  qed
  then have "drop k (take e t) = drop k (take r t) @ t ! r # take (e - r - 1) (drop (r + 1) t)"
    using a by simp
  then show ?thesis by (simp add: substr_def drop_take)
qed

lemma mantissa_text_parts:
  assumes "literal_ok lit" "same_parts (Parser_init lit) p"
  shows "IsInt p \<Longrightarrow> mantissa_text p = snd (p_int_part p) \<and> snd (p_fract_part p) = []
           \<and> \<not> has_exponent p"
    "\<not> IsInt p \<Longrightarrow> mantissa_text p = snd (p_int_part p) @ CHR ''.'' # snd (p_fract_part p)"
proof -
  let ?t = "nl_text lit" and ?r = "nl_radix_point lit" and ?e = "nl_exponent lit"
  let ?k = "prefix_size (p_radix p)"
  have parts: "p_literal p = lit" "p_int_part p = (?k, drop ?k (take ?r ?t))"
    "?k \<le> length (take ?r ?t)" "p_fract_part p = view ?t (?r + 1) (?e - ?r - 1)"
    using assms(2) Parser_init_int_part [of lit] by (auto simp: same_parts_def)
  have bounds: "?r \<le> ?e" "?e \<le> length ?t" "?k \<le> ?r"
    using assms(1) parts(3) by (auto simp: literal_ok_def)
  show "mantissa_text p = snd (p_int_part p) \<and> snd (p_fract_part p) = [] \<and> \<not> has_exponent p"
    if "IsInt p"
    using that bounds
    by (auto simp: mantissa_text_def has_exponent_def IsInt_def view_end_def parts view_def substr_def)
  show "mantissa_text p = snd (p_int_part p) @ CHR ''.'' # snd (p_fract_part p)" if "\<not> IsInt p"
  proof -
    have r: "?r < length ?t" "?t ! ?r = CHR ''.''" "?r < ?e"
      using that assms(1) bounds by (auto simp: IsInt_def parts literal_ok_def)
    have "view_end (p_fract_part p) = ?e"
      using r bounds by (simp add: parts view_end_def view_def substr_def)
    with that r bounds show ?thesis
      using substr_join [of ?k ?r ?e ?t] by (simp add: mantissa_text_def parts view_def)
  qed
qed


section \<open>The value of a literal\<close>

lemma digits_in_clean: "digits_in radix t \<Longrightarrow> \<forall>c \<in> set (clean t). valid_digit radix c"
  by (auto simp: digits_in_def clean_def)

lemma length_clean_le: "length (clean t) \<le> length t"
  by (simp add: clean_def)

text \<open>The excess exponent that the digits after the radix point contribute.\<close>

definition excess :: "Parser \<Rightarrow> nat" where
  "excess p = length (snd (p_fract_part p))
     * (if p_radix p = Hexadecimal then 4 else if p_radix p = Octal then 3 else 1)"

text \<open>The exponent as written: zero when there is none.\<close>

definition written_exponent :: "Parser \<Rightarrow> int" where
  "written_exponent p =
     (if p_exponent_is_negative p then - digits_val 10 (clean (snd (p_exponent_part p)))
      else digits_val 10 (clean (snd (p_exponent_part p))))"

text \<open>The exponent before the excess is taken off.\<close>

definition base_exponent :: "'a apint_ops \<Rightarrow> Parser \<Rightarrow> 'a" where
  "base_exponent A p =
     (if snd (p_exponent_part p) \<noteq> []
      then let e = ParseInt A (snd (p_exponent_part p)) Decimal (p_exponent_needs_cleaning p) True
           in if p_exponent_is_negative p then ap_negate A e else e
      else ap_make A MinAPWidth 0)"

context apint
begin

lemma GetMantissa_uval:
  assumes "literal_ok lit" "same_parts (Parser_init lit) p" "checked p"
  shows "uval (GetMantissa A p) =
      digits_val (radix_int (p_radix p)) (clean (snd (p_int_part p)) @ clean (snd (p_fract_part p)))"
    "sval (GetMantissa A p) = uval (GetMantissa A p)"
proof -
  let ?m = "mantissa_text p"
  have "\<forall>c \<in> set ?m. valid_digit (p_radix p) c
      \<or> p_mantissa_needs_cleaning p \<and> (c = CHR ''_'' \<or> c = CHR ''.'')"
    using mantissa_text_parts [OF assms(1,2)] assms(3)
    by (cases "IsInt p") (auto simp: checked_def digits_in_def)
  note val = ParseInt_uval [OF this, folded clean_def]
  have "clean ?m = clean (snd (p_int_part p)) @ clean (snd (p_fract_part p))"
    using mantissa_text_parts [OF assms(1,2)] by (cases "IsInt p") (simp_all add: clean_def)
  with val(1) show "uval (GetMantissa A p) =
      digits_val (radix_int (p_radix p)) (clean (snd (p_int_part p)) @ clean (snd (p_fract_part p)))"
    by (simp add: GetMantissa_eq)
  show "sval (GetMantissa A p) = uval (GetMantissa A p)"
    using val(3) by (simp add: GetMantissa_eq sval_nonneg)
qed

lemma base_exponent_val:
  assumes "snd (p_exponent_part p) \<noteq> [] \<Longrightarrow> digits_in Decimal (snd (p_exponent_part p))
      \<and> (CHR ''_'' \<in> set (snd (p_exponent_part p)) \<longrightarrow> p_exponent_needs_cleaning p)"
  defines "w \<equiv> ap_width A (base_exponent A p)"
  shows "64 \<le> w" "uval (base_exponent A p) = written_exponent p mod 2 ^ w"
    "- (2 ^ (w - 1)) < written_exponent p" "written_exponent p < 2 ^ (w - 1)"
    "p_exponent_is_negative p \<Longrightarrow> written_exponent p \<le> 0"
    "\<not> p_exponent_is_negative p \<Longrightarrow> 0 \<le> written_exponent p"
proof -
  let ?t = "snd (p_exponent_part p)"
  let ?e = "ParseInt A ?t Decimal (p_exponent_needs_cleaning p) True"
  have "64 \<le> w \<and> uval (base_exponent A p) = written_exponent p mod 2 ^ w
    \<and> 0 \<le> digits_val 10 (clean ?t) \<and> digits_val 10 (clean ?t) < 2 ^ (w - 1)"
  proof (cases "?t = []")
    case True
    then show ?thesis
      by (simp add: w_def base_exponent_def make MinAPWidth_def written_exponent_def clean_def)
  next
    case False
    with assms(1) have d: "digits_in Decimal ?t"
      "\<forall>c \<in> set ?t. valid_digit Decimal c \<or> p_exponent_needs_cleaning p \<and> (c = CHR ''_'' \<or> c = CHR ''.'')"
      by (auto simp: digits_in_def)
    note val = ParseInt_uval [OF d(2), folded clean_def, simplified]
    have "0 \<le> digits_val 10 (clean ?t)" using val(1) uval_range(1) [of ?e] by simp
    moreover have "w = ap_width A ?e" using False by (simp add: w_def base_exponent_def negate Let_def)
    moreover have "uval (base_exponent A p) = written_exponent p mod 2 ^ w"
      using False val uval_range [of ?e]
      by (simp add: calculation(2) base_exponent_def written_exponent_def negate Let_def)
    ultimately show ?thesis using val by simp
  qed
  then show "64 \<le> w" "uval (base_exponent A p) = written_exponent p mod 2 ^ w"
    "- (2 ^ (w - 1)) < written_exponent p" "written_exponent p < 2 ^ (w - 1)"
    "p_exponent_is_negative p \<Longrightarrow> written_exponent p \<le> 0"
    "\<not> p_exponent_is_negative p \<Longrightarrow> 0 \<le> written_exponent p"
    by (auto simp: written_exponent_def)
qed


lemma signed_wrap:
  assumes "0 < ap_width A x" "uval x = v mod 2 ^ ap_width A x"
    "- (2 ^ (ap_width A x - 1)) \<le> v" "v < 2 ^ (ap_width A x - 1)"
  shows "sval x = v"
  using signed_of_mod [OF assms(1,3,4)] assms(2) by (simp add: sval_def)

text \<open>The repair of a negative exponent that no longer fits: one more bit, the sign.\<close>

lemma widen_negative:
  assumes "64 \<le> ap_width A x" "uval x = v mod 2 ^ ap_width A x"
    "- (2 ^ ap_width A x) \<le> v" "v < - (2 ^ (ap_width A x - 1))"
  shows "sval (ap_set_sign_bit A (ap_zext A (ap_width A x + 1) x)) = v"
    "\<not> ap_is_negative A x"
proof -
  let ?w = "ap_width A x"
  have w: "(2::int) ^ ?w = 2 * 2 ^ (?w - 1)" using assms(1) by (cases ?w) auto
  have u: "uval x = v + 2 ^ ?w"
  proof -
    have "v mod 2 ^ ?w = (v + 2 ^ ?w) mod 2 ^ ?w" by simp
    also have "\<dots> = v + 2 ^ ?w" using assms(3,4) w by (intro mod_pos_pos_trivial) auto
    finally show ?thesis using assms(2) by simp
  qed
  show "\<not> ap_is_negative A x"
    using assms(1,4) u w uval_range [of x] by (simp add: is_negative signed_of_def)
  have "\<not> bit (uval x) ?w"
    using uval_range [of x] by (simp add: bit_iff_odd)
  then have "uval (ap_set_sign_bit A (ap_zext A (?w + 1) x)) = v + 2 ^ ?w + 2 ^ ?w"
    using u by (simp add: set_sign_bit zext set_bit_eq)
  then show "sval (ap_set_sign_bit A (ap_zext A (?w + 1) x)) = v"
    using assms(3) by (simp add: sval_def signed_of_def set_sign_bit zext)
qed

lemma GetExponent_sval:
  assumes "snd (p_exponent_part p) \<noteq> [] \<Longrightarrow> digits_in Decimal (snd (p_exponent_part p))
      \<and> (CHR ''_'' \<in> set (snd (p_exponent_part p)) \<longrightarrow> p_exponent_needs_cleaning p)"
    and "0 < excess p" "excess p \<le> 40000"
  shows "\<exists>e. GetExponent A p = Ret e \<and> sval e = written_exponent p - int (excess p)"
proof -
  note base = base_exponent_val [OF assms(1)]
  let ?w = "ap_width A (base_exponent A p)" and ?t = "written_exponent p - int (excess p)"
  define x where "x = ap_sub A (base_exponent A p) (word_of_int (int (excess p)))"
  have "uint (word_of_int (int (excess p)) :: 64 word) = int (excess p)"
    using assms(3) by (subst uint_word_of_int_eq) (simp add: take_bit_eq_mod)
  then have x: "ap_width A x = ?w" "uval x = ?t mod 2 ^ ?w"
    using base(2) by (simp_all add: x_def sub mod_diff_left_eq)
  have "(2::int) ^ 16 \<le> 2 ^ (?w - 1)" using base(1) by (intro pow2_mono) simp
  then have big: "(40000::int) \<le> 2 ^ (?w - 1)" by simp
  have w: "(2::int) ^ ?w = 2 * 2 ^ (?w - 1)" using base(1) by (cases ?w) auto
  have res: "GetExponent A p = Ret (if p_exponent_is_negative p \<and> \<not> ap_is_negative A x
      then ap_set_sign_bit A (ap_zext A (ap_width A x + 1) x) else x)"
    using base(1) x(1)
    by (simp add: GetExponent_def Let_def x_def base_exponent_def excess_def carbon_check_def)
  show ?thesis
  proof (cases "- (2 ^ (?w - 1)) \<le> ?t")
    case True
    then have s: "sval x = ?t"
      using x base(1,4) assms(2) by (intro signed_wrap) auto
    have "ap_is_negative A x" if "p_exponent_is_negative p"
      using that s base(1,5) x(1) assms(2) by (simp add: is_negative sval_def)
    with res s show ?thesis by auto
  next
    case False
    then have neg: "p_exponent_is_negative p"
      using base(6) assms(3) big by force
    have "sval (ap_set_sign_bit A (ap_zext A (ap_width A x + 1) x)) = ?t" "\<not> ap_is_negative A x"
      using widen_negative [of x ?t] x base(1,3) False big w assms(3) by auto
    with res neg show ?thesis by auto
  qed
qed

end


lemma scan_loop_False_no_point:
  "scan_loop s False i st = Ret (j, st') \<Longrightarrow> seen_radix_point st' = seen_radix_point st"
proof (induction s False i st rule: scan_loop.induct)
  case (1 s i st)
  have step: "seen_radix_point st2 = seen_radix_point st" if "scan_step s False i st = Ret (Some st2)" for st2
    using that by (auto simp: scan_step_def Let_def carbon_check_def split: if_splits)
  show ?case
    using "1.prems" "1.hyps" step
    by (auto simp: scan_loop.simps [of s False i st] bind_outcome_Ret_iff split: if_splits option.splits)
qed

text \<open>What the constructor and the checks establish for a lexed literal.\<close>

lemma Parser_init_no_exponent:
  "\<not> has_exponent (Parser_init lit) \<Longrightarrow> snd (p_exponent_part (Parser_init lit)) = []"
  by (simp add: Parser_init_def has_exponent_def Let_def split_def view_def substr_def consume_front_def)

lemma checked_exponent:
  assumes "same_parts (Parser_init lit) p" "checked p" "snd (p_exponent_part p) \<noteq> []"
  shows "digits_in Decimal (snd (p_exponent_part p))
      \<and> (CHR ''_'' \<in> set (snd (p_exponent_part p)) \<longrightarrow> p_exponent_needs_cleaning p)"
  using assms Parser_init_no_exponent [of lit] same_parts_preds [OF assms(1)]
  by (auto simp: checked_def same_parts_def)

lemma checked_excess: "checked p \<Longrightarrow> \<not> IsInt p \<Longrightarrow> 0 < excess p \<and> excess p \<le> 40000"
  by (auto simp: checked_def digits_in_def excess_def DigitLimit_def)

context apint
begin

lemma GetExponent_checked:
  assumes "same_parts (Parser_init lit) p" "checked p" "\<not> IsInt p"
  shows "\<exists>e. GetExponent A p = Ret e \<and> sval e = written_exponent p - int (excess p)"
  using checked_exponent [OF assms(1,2)] checked_excess [OF assms(2,3)] by (intro GetExponent_sval) auto

end

text \<open>The number that the parts of a literal write.\<close>

definition written_int :: "Parser \<Rightarrow> int" where
  "written_int p = digits_val (radix_int (p_radix p)) (clean (snd (p_int_part p)))"

definition written_real :: "Parser \<Rightarrow> real" where
  "written_real p =
     (real_of_int (written_int p)
        + real_of_int (digits_val (radix_int (p_radix p)) (snd (p_fract_part p)))
          / real (radix_int (p_radix p)) ^ length (snd (p_fract_part p)))
     * (if p_radix p = Decimal then 10 else 2) powi written_exponent p"

lemma same_parts_written:
  "same_parts p q \<Longrightarrow> written_int q = written_int p \<and> written_real q = written_real p
     \<and> written_exponent q = written_exponent p \<and> excess q = excess p"
  by (simp add: same_parts_def written_int_def written_real_def written_exponent_def excess_def)

lemma digit_sequence_no_seps: "digit_sequence False radix t \<Longrightarrow> clean t = t"
proof -
  assume "digit_sequence False radix t"
  then have "\<forall>c \<in> set t. valid_digit radix c"
    by (auto simp: digit_sequence_def sep_ok_def in_set_conv_nth)
  then show ?thesis
    unfolding clean_def filter_id_conv using valid_digit_not_sep by blast
qed

lemma shift_digits:
  "real_of_int (digits_val b (xs @ ys)) / real b ^ length ys
     = real_of_int (digits_val b xs) + real_of_int (digits_val b ys) / real b ^ length ys"
  if "0 < b"
  using that by (simp add: digits_val_append add_divide_distrib)

lemma real_value_scaled:
  assumes "p_radix p = Decimal \<or> p_radix p = Hexadecimal" "clean (snd (p_fract_part p)) = snd (p_fract_part p)"
  shows "real_of_int (digits_val (radix_int (p_radix p))
             (clean (snd (p_int_part p)) @ clean (snd (p_fract_part p))))
         * (if p_radix p = Decimal then 10 else 2) powi (written_exponent p - int (excess p))
       = written_real p"
proof -
  let ?b = "radix_int (p_radix p)" and ?f = "snd (p_fract_part p)"
  let ?B = "if p_radix p = Decimal then 10 else 2 :: real"
  have "?B ^ excess p = real ?b ^ length ?f"
    using assms(1) power_mult [of "2::real" 4 "length ?f"]
    by (auto simp: excess_def mult.commute)
  moreover have "?B powi (written_exponent p - int (excess p))
      = ?B powi written_exponent p / ?B ^ excess p"
    by (simp add: power_int_diff)
  moreover have "0 < ?b" using assms(1) by auto
  ultimately show ?thesis
    using shift_digits [of ?b "clean (snd (p_int_part p))" ?f]
    by (simp add: written_real_def written_int_def assms(2) field_simps)
qed

lemma ComputeValue_cases:
  assumes "Check (Parser_init lit) [] = (ok, p, ds)"
  shows "ComputeValue A lit = (if \<not> ok then Ret (UnrecoverableError, ds)
     else if IsInt p then Ret (IntValue (GetMantissa A p), ds)
     else bind_outcome (GetExponent A p) (\<lambda>e.
          Ret (RealValue (if p_radix p = Decimal then Decimal else Binary) (GetMantissa A p) e, ds)))"
    and "same_parts (Parser_init lit) p" "\<not> ok \<Longrightarrow> ds \<noteq> []" "ok \<Longrightarrow> checked p"
    "ok \<and> ds = [] \<longleftrightarrow> valid_literal (Parser_init lit)"
  using assms Check_spec [OF assms] by (auto simp: ComputeValue_def)

section \<open>Properties\<close>

text \<open>
  C13. Lexing a numeric literal: on text that starts with a decimal digit \<open>Lex\<close> passes its check and returns the longest
  prefix of the text with the shape of a literal. The radix point is the first period of the literal, or its end when it
  has none; the exponent begins at the last lower-case letter behind it, before any sign; the radix point and the exponent are in order within the
  literal; and the next byte does not continue a part of it.
\<close>

theorem numeric_lex_delimits:
  assumes "s \<noteq> []" "IsDecimalDigit (hd s)"
  shows "\<exists>lit. NumericLiteral_Lex s can_form_real = Ret (Some lit) \<and> literal_ok lit
    \<and> nl_text lit = take (length (nl_text lit)) s
    \<and> literal_shape can_form_real (nl_text lit)
    \<and> (\<forall>k \<le> length s. literal_shape can_form_real (take k s) \<longrightarrow> k \<le> length (nl_text lit))
    \<and> nl_radix_point lit = length (takeWhile (\<lambda>c. c \<noteq> CHR ''.'') (nl_text lit))
    \<and> marks_exponent lit
    \<and> (length (nl_text lit) < length s \<longrightarrow>
         \<not> IsAlnum (s ! length (nl_text lit)) \<and> s ! length (nl_text lit) \<noteq> CHR ''_''
         \<and> s ! length (nl_text lit) \<noteq> CHR ''$'')"
proof -
  obtain lit where lit: "NumericLiteral_Lex s can_form_real = Ret (Some lit)" and
    rest: "literal_ok lit" "nl_text lit = take (length (nl_text lit)) s" "length (nl_text lit) < length s \<longrightarrow>
         \<not> IsAlnum (s ! length (nl_text lit)) \<and> s ! length (nl_text lit) \<noteq> CHR ''_'' \<and> s ! length (nl_text lit) \<noteq> CHR ''$''"
    using NumericLiteral_Lex_ok [OF assms, of can_form_real] by blast
  have "k \<le> length (nl_text lit)" if "k \<le> length s" "literal_shape can_form_real (take k s)" for k
    using longest_shape(2) [OF lit, of "take k s" "drop k s"] that by simp
  with lit rest longest_shape(1,3) [OF lit] Lex_marks_exponent [OF lit] show ?thesis by blast
qed

lemma ComputeValue_total:
  assumes "apint A uval" "NumericLiteral_Lex s can_form_real = Ret (Some lit)"
  shows "\<exists>v ds. ComputeValue A lit = Ret (v, ds)
    \<and> (ds = [] \<longleftrightarrow> valid_literal (Parser_init lit))
    \<and> (v = UnrecoverableError \<longrightarrow> ds \<noteq> [])"
proof -
  obtain ok p ds where chk: "Check (Parser_init lit) [] = (ok, p, ds)" by (metis surj_pair)
  note c = ComputeValue_cases [OF chk]
  have "\<exists>e. GetExponent A p = Ret e" if ok "\<not> IsInt p"
    using apint.GetExponent_checked [OF assms(1) c(2)] c(4) that by blast
  with c show ?thesis by (cases ok; cases "IsInt p") auto
qed


text \<open>
  C11. The value of an integer literal is exactly the number its digits write in its radix,
  non-negative as a signed integer whatever its size.
\<close>

theorem numeric_int_value:
  assumes "apint A uval" "NumericLiteral_Lex s can_form_real = Ret (Some lit)"
    "ComputeValue A lit = Ret (IntValue m, ds)"
  shows "signed_val A uval m = written_int (Parser_init lit)
    \<and> nl_radix_point lit = length (nl_text lit)"
proof -
  obtain ok p ds' where chk: "Check (Parser_init lit) [] = (ok, p, ds')" by (metis surj_pair)
  note c = ComputeValue_cases [OF chk]
  have ok: ok "IsInt p" "m = GetMantissa A p"
    using assms(3) unfolding c(1) by (auto split: if_splits simp: bind_outcome_Ret_iff)
  note lit = NumericLiteral_Lex_literal_ok [OF assms(2)]
  have "snd (p_fract_part p) = []" using mantissa_text_parts [OF lit c(2)] ok(2) by simp
  then have "signed_val A uval m = written_int p"
    using apint.GetMantissa_uval [OF assms(1) lit c(2)] c(4) ok
    by (simp add: written_int_def clean_def)
  with same_parts_written [OF c(2)] same_parts_preds [OF c(2)] ok(2) show ?thesis
    by (simp add: IsInt_def)
qed

text \<open>
  The value of a literal that passed the checks as a real literal, by the parts it was split into: \<open>m * B^e\<close> is exactly
  the integer and fraction digits in the literal's radix, scaled by the written power, also for exponents
  too large for the width the exponent was parsed in.
\<close>

lemma ComputeValue_real:
  assumes "apint A uval" "NumericLiteral_Lex s can_form_real = Ret (Some lit)"
    "valid_literal (Parser_init lit)" "nl_radix_point lit \<noteq> length (nl_text lit)"
  shows "\<exists>radix m e. ComputeValue A lit = Ret (RealValue radix m e, [])
    \<and> radix = (if p_radix (Parser_init lit) = Decimal then Decimal else Binary)
    \<and> real_of_int (signed_val A uval m) * real (radix_int radix) powi signed_val A uval e
       = written_real (Parser_init lit)"
proof -
  obtain ok p ds where chk: "Check (Parser_init lit) [] = (ok, p, ds)" by (metis surj_pair)
  note c = ComputeValue_cases [OF chk]
  note lit = NumericLiteral_Lex_literal_ok [OF assms(2)]
  have ok: ok "ds = []" "checked p" using assms(3) c by auto
  have real: "\<not> IsInt p" "\<not> IsInt (Parser_init lit)"
    using assms(4) same_parts_preds [OF c(2)] by (simp_all add: IsInt_def)
  then obtain e where e: "GetExponent A p = Ret e"
      "signed_val A uval e = written_exponent p - int (excess p)"
    using apint.GetExponent_checked [OF assms(1) c(2) ok(3)] by blast
  have "p_radix p = Decimal \<or> p_radix p = Hexadecimal" "digit_sequence False (p_radix p) (snd (p_fract_part p))"
    using assms(3) real c(2)
    by (auto simp: valid_literal_def same_parts_def intro: Radix.exhaust [of "p_radix p"])
  then have "real_of_int (signed_val A uval (GetMantissa A p))
      * (if p_radix p = Decimal then 10 else 2) powi signed_val A uval e = written_real p"
    using real_value_scaled [OF _ digit_sequence_no_seps, of p] e(2)
      apint.GetMantissa_uval [OF assms(1) lit c(2) ok(3)] by simp
  moreover have "ComputeValue A lit =
      Ret (RealValue (if p_radix p = Decimal then Decimal else Binary) (GetMantissa A p) e, [])"
    unfolding c(1) using ok real e(1) by simp
  moreover have "p_radix p = p_radix (Parser_init lit)" using c(2) by (simp add: same_parts_def)
  ultimately show ?thesis
    using same_parts_written [OF c(2)] by (auto split: if_splits)
qed

section \<open>Real literals as they are written\<close>

text \<open>Digits with, where allowed, single underscores between two digits.\<close>

definition digits_text :: "bool \<Rightarrow> string \<Rightarrow> string \<Rightarrow> bool" where
  "digits_text seps digits t \<longleftrightarrow> t \<noteq> [] \<and> length t \<le> 10000 \<and> (\<forall>i < length t. t ! i \<in> set digits \<or>
     seps \<and> t ! i = CHR ''_'' \<and> 0 < i \<and> i + 1 < length t \<and> t ! (i - 1) \<in> set digits \<and> t ! (i + 1) \<in> set digits)"

text \<open>
  A real literal by its parts, decimal or hexadecimal: the digits before and after the period and the exponent,
  which is none or a sign (possibly empty) and digits.
\<close>

record real_text =
  rt_hex :: bool
  rt_int :: string
  rt_fraction :: string
  rt_exponent :: "(string \<times> string) option"

definition rt_prefix :: "real_text \<Rightarrow> string" where
  "rt_prefix w = (if rt_hex w then ''0x'' else [])"

definition exponent_text :: "real_text \<Rightarrow> string" where
  "exponent_text w = (case rt_exponent w of None \<Rightarrow> []
     | Some (sg, ds) \<Rightarrow> (if rt_hex w then CHR ''p'' else CHR ''e'') # sg @ ds)"

definition real_literal_text :: "real_text \<Rightarrow> string" where
  "real_literal_text w = rt_prefix w @ rt_int w @ CHR ''.'' # rt_fraction w @ exponent_text w"

definition real_literal_ok :: "real_text \<Rightarrow> bool" where
  "real_literal_ok w \<longleftrightarrow>
     (let digits = (if rt_hex w then ''0123456789ABCDEF'' else ''0123456789'') in
      digits_text True digits (rt_int w) \<and> digits_text False digits (rt_fraction w))
     \<and> (\<not> rt_hex w \<and> hd (rt_int w) = CHR ''0'' \<longrightarrow> rt_int w = ''0'')
     \<and> (case rt_exponent w of None \<Rightarrow> True
        | Some (sg, ds) \<Rightarrow> (sg = [] \<or> sg = ''+'' \<or> sg = ''-'') \<and> digits_text True ''0123456789'' ds)"

definition exponent_number :: "real_text \<Rightarrow> int" where
  "exponent_number w = (case rt_exponent w of None \<Rightarrow> 0
     | Some (sg, ds) \<Rightarrow> if sg = ''-'' then - digits_val 10 (clean ds) else digits_val 10 (clean ds))"

definition real_literal_number :: "real_text \<Rightarrow> real" where
  "real_literal_number w = (let b = (if rt_hex w then 16 else 10) in
     (real_of_int (digits_val b (clean (rt_int w)))
        + real_of_int (digits_val b (rt_fraction w)) / real b ^ length (rt_fraction w))
     * (if rt_hex w then 2 else 10) powi exponent_number w)"

definition rt_radix :: "real_text \<Rightarrow> Radix" where
  "rt_radix w = (if rt_hex w then Hexadecimal else Decimal)"

lemma digits_text_sequence:
  assumes "digits_text seps digits t" "set digits = {c. valid_digit radix c}"
  shows "digit_sequence seps radix t"
proof -
  have "CHR ''_'' \<notin> set digits" using assms(2) by simp
  then have "\<forall>i < length t. valid_digit radix (t ! i) \<or> t ! i = CHR ''_'' \<and> sep_ok seps t i"
    using assms unfolding digits_text_def sep_ok_def by (metis mem_Collect_eq)
  then show ?thesis using assms(1) by (simp add: digit_sequence_def digits_text_def DigitLimit_def)
qed

lemma valid_digits:
  "set ''0123456789ABCDEF'' = {c. valid_digit Hexadecimal c}" "set ''0123456789'' = {c. valid_digit Decimal c}"
  by (auto simp: valid_digit_def)

lemma real_literal_sequences:
  assumes "real_literal_ok w"
  shows "digit_sequence True (rt_radix w) (rt_int w)" "digit_sequence False (rt_radix w) (rt_fraction w)"
    "rt_exponent w = Some (sg, ds) \<Longrightarrow> digit_sequence True Decimal ds \<and> (sg = [] \<or> sg = ''+'' \<or> sg = ''-'')"
  using assms digits_text_sequence [OF _ valid_digits(1)] digits_text_sequence [OF _ valid_digits(2)]
  unfolding real_literal_ok_def rt_radix_def Let_def by (cases "rt_hex w"; auto)+

lemma sequence_chars:
  assumes "digit_sequence seps radix t"
  shows "t \<noteq> []" "valid_digit radix (hd t)" "valid_digit radix (last t)"
    "c \<in> set t \<Longrightarrow> valid_digit radix c \<or> c = CHR ''_''"
proof -
  show ne: "t \<noteq> []" using assms by (simp add: digit_sequence_def)
  have "\<forall>i < length t. valid_digit radix (t ! i) \<or> t ! i = CHR ''_'' \<and> 0 < i \<and> i + 1 < length t"
    using assms unfolding digit_sequence_def sep_ok_def by blast
  then show "valid_digit radix (hd t)" "valid_digit radix (last t)" "c \<in> set t \<Longrightarrow> valid_digit radix c \<or> c = CHR ''_''"
    using ne by (simp_all add: hd_conv_nth last_conv_nth in_set_conv_nth) (cases "length t"; force)+
qed

lemma valid_digit_chars:
  "valid_digit radix c \<Longrightarrow> IsAlnum c \<and> \<not> IsLower c" "valid_digit Decimal c \<Longrightarrow> IsDecimalDigit c"
  by (cases radix; auto simp: valid_digit_def IsAlnum_def IsAlpha_def IsDecimalDigit_def IsLower_def byte_of_def)+

lemma sequence_word:
  assumes "digit_sequence seps radix t"
  shows "word_part t" "\<forall>c \<in> set t. \<not> IsLower c"
proof -
  have "\<not> IsLower (CHR ''_'')" by (simp add: IsLower_def byte_of_def)
  then show "\<forall>c \<in> set t. \<not> IsLower c" using sequence_chars(4) [OF assms] valid_digit_chars(1) by blast
  have "word_char c" if "c \<in> set t" for c
    using sequence_chars(4) [OF assms that] valid_digit_chars(1) not_word_char(3) by (auto simp: word_char_def)
  with sequence_chars(1,2) [OF assms] valid_digit_chars(1) show "word_part t" by (auto simp: word_part_def)
qed

text \<open>The literal such a text is lexed as.\<close>

definition rt_literal :: "real_text \<Rightarrow> NumericLiteral" where
  "rt_literal w = \<lparr>nl_text = real_literal_text w, nl_radix_point = length (rt_prefix w @ rt_int w),
     nl_exponent = length (rt_prefix w @ rt_int w @ CHR ''.'' # rt_fraction w)\<rparr>"

lemma prefix_chars: "IsAlnum (CHR ''0'')" "IsAlnum (CHR ''x'')"
  by (simp_all add: IsAlnum_def IsAlpha_def IsDecimalDigit_def byte_of_def)

lemma rt_int_word:
  assumes "real_literal_ok w"
  shows "word_part (rt_prefix w @ rt_int w)" "IsDecimalDigit (hd (rt_prefix w @ rt_int w))"
proof -
  note int = real_literal_sequences(1) [OF assms]
  show "word_part (rt_prefix w @ rt_int w)"
    using sequence_word(1) [OF int] not_word_char(3) prefix_chars by (auto simp: rt_prefix_def word_part_def)
  show "IsDecimalDigit (hd (rt_prefix w @ rt_int w))"
    using sequence_chars(1,2) [OF int] valid_digit_chars(2)
    by (cases "rt_hex w") (simp_all add: rt_prefix_def rt_radix_def IsDecimalDigit_def byte_of_def)
qed

lemma Lex_real_text:
  assumes "real_literal_ok w" "word_ends rest"
  shows "NumericLiteral_Lex (real_literal_text w @ rest) True = Ret (Some (rt_literal w))"
proof -
  note ip = rt_int_word [OF assms(1)] and f = sequence_word [OF real_literal_sequences(2) [OF assms(1)]]
  have fp: "word_part (rt_fraction w @ u)" if "\<forall>c \<in> set u. word_char c" for u
    using f(1) that by (auto simp: word_part_def)
  have last: "\<not> IsLower (last (rt_fraction w))" using f by (simp add: word_part_def)
  have none: "exponent_at (rt_fraction w) = 0" using exponent_at_append [OF f(2), of "[]"] by simp
  let ?c = "if rt_hex w then CHR ''p'' else CHR ''e''"
  have c: "IsLower ?c" "word_char ?c" by (simp_all add: IsLower_def word_char_def IsAlnum_def IsAlpha_def byte_of_def)
  note unf = real_literal_text_def exponent_text_def rt_literal_def
  show ?thesis
  proof (cases "rt_exponent w")
    case None
    then show ?thesis using Lex_fraction_shape [OF ip fp [of "[]"] assms(2)] last none by (simp add: unf)
  next
    case (Some e)
    obtain sg ds where e: "rt_exponent w = Some (sg, ds)" using Some by (cases e) auto
    then have ds: "digit_sequence True Decimal ds" "sg = [] \<or> sg = ''+'' \<or> sg = ''-''"
      using real_literal_sequences(3) [OF assms(1)] by auto
    note d = sequence_word [OF ds(1)]
    show ?thesis
    proof (cases "sg = []")
      case True
      have u: "\<forall>x \<in> set (?c # ds). word_char x" using d(1) c(2) by (auto simp: word_part_def)
      have at: "exponent_at (rt_fraction w @ ?c # ds) = length (rt_fraction w) + 1"
        using exponent_at_append [OF d(2), of "rt_fraction w @ [?c]"] c(1) by simp
      have "\<not> IsLower (last (rt_fraction w @ ?c # ds))" using d by (simp add: word_part_def)
      then show ?thesis using Lex_fraction_shape [OF ip fp [OF u] assms(2)] at e True by (simp add: unf)
    next
      case False
      then obtain s1 where s1: "sg = [s1]" "is_sign s1" using ds(2) by (auto simp: is_sign_def)
      have "IsLower (last (rt_fraction w @ [?c]))" using c(1) by simp
      from Lex_signed_shape [OF ip fp this s1(2) d(1) assms(2)] c(2) e s1(1) show ?thesis by (simp add: unf)
    qed
  qed
qed

lemma Parser_init_real_text:
  assumes "real_literal_ok w"
  shows "p_radix (Parser_init (rt_literal w)) = rt_radix w"
    "snd (p_int_part (Parser_init (rt_literal w))) = rt_int w"
    "snd (p_fract_part (Parser_init (rt_literal w))) = rt_fraction w"
    "snd (p_exponent_part (Parser_init (rt_literal w))) = (case rt_exponent w of None \<Rightarrow> [] | Some (sg, ds) \<Rightarrow> ds)"
    "p_exponent_is_negative (Parser_init (rt_literal w)) = (case rt_exponent w of None \<Rightarrow> False | Some (sg, ds) \<Rightarrow> sg = ''-'')"
proof -
  let ?p = "Parser_init (rt_literal w)" and ?u = "rt_prefix w @ rt_int w"
  have t: "nl_text (rt_literal w) = ?u @ CHR ''.'' # rt_fraction w @ exponent_text w" "nl_radix_point (rt_literal w) = length ?u"
    "nl_exponent (rt_literal w) = length ?u + length (rt_fraction w) + 1"
    by (simp_all add: rt_literal_def real_literal_text_def)
  have "(p_radix ?p, p_int_part ?p) = (rt_radix w, (length (rt_prefix w), rt_int w))"
  proof (cases "rt_hex w")
    case True
    then show ?thesis using t by (simp add: Parser_init_radix consume_front_def rt_radix_def rt_prefix_def)
  next
    case False
    obtain c cs where "rt_int w = c # cs" "c = CHR ''0'' \<longrightarrow> cs = []"
      using False assms by (cases "rt_int w") (auto simp: real_literal_ok_def digits_text_def)
    then show ?thesis using t False by (cases cs) (auto simp: Parser_init_radix consume_front_def rt_radix_def rt_prefix_def)
  qed
  then show "p_radix ?p = rt_radix w" "snd (p_int_part ?p) = rt_int w" by simp_all
  show "snd (p_fract_part ?p) = rt_fraction w" by (simp add: t view_def substr_def)
  have e: "snd (view (nl_text (rt_literal w)) (nl_exponent (rt_literal w) + 1) (length (nl_text (rt_literal w)))) = drop 1 (exponent_text w)"
    by (simp add: t view_def substr_def)
  have "p_exponent_is_negative ?p = (case rt_exponent w of None \<Rightarrow> False | Some (sg, ds) \<Rightarrow> sg = ''-'') \<and>
    snd (p_exponent_part ?p) = (case rt_exponent w of None \<Rightarrow> [] | Some (sg, ds) \<Rightarrow> ds)"
  proof (cases "rt_exponent w")
    case None
    then show ?thesis using e by (simp add: Parser_init_def Let_def split_def consume_front_def exponent_text_def)
  next
    case (Some x)
    obtain sg ds where x: "rt_exponent w = Some (sg, ds)" using Some by (cases x) auto
    then have ds: "sg = [] \<or> sg = ''+'' \<or> sg = ''-''" "digit_sequence True Decimal ds"
      using real_literal_sequences(3) [OF assms] by auto
    then obtain c cs where c: "ds = c # cs" "c \<noteq> CHR ''+''" "c \<noteq> CHR ''-''"
      using sequence_chars(1,2) [OF ds(2)] by (cases ds) (auto simp: valid_digit_def)
    show ?thesis using e ds(1) c x by (auto simp: Parser_init_def Let_def split_def consume_front_def exponent_text_def)
  qed
  then show "snd (p_exponent_part ?p) = (case rt_exponent w of None \<Rightarrow> [] | Some (sg, ds) \<Rightarrow> ds)"
    "p_exponent_is_negative ?p = (case rt_exponent w of None \<Rightarrow> False | Some (sg, ds) \<Rightarrow> sg = ''-'')" by simp_all
qed

lemma real_text_value:
  assumes "real_literal_ok w"
  shows "valid_literal (Parser_init (rt_literal w))"
    "nl_radix_point (rt_literal w) \<noteq> length (nl_text (rt_literal w))"
    "written_real (Parser_init (rt_literal w)) = real_literal_number w"
proof -
  note parts = Parser_init_real_text [OF assms] and seq = real_literal_sequences [OF assms]
  let ?p = "Parser_init (rt_literal w)"
  have exp: "has_exponent ?p \<longleftrightarrow> exponent_text w \<noteq> []"
    by (simp add: has_exponent_def rt_literal_def real_literal_text_def)
  have at: "nl_text (rt_literal w) ! nl_exponent (rt_literal w) = exponent_text w ! 0" if "exponent_text w \<noteq> []"
  proof -
    have "(xs @ CHR ''.'' # ys @ zs) ! (length xs + Suc (length ys)) = zs ! 0" for xs ys zs :: string
      by (simp add: nth_append)
    from this [of "rt_prefix w @ rt_int w" "rt_fraction w" "exponent_text w"] show ?thesis
      by (simp add: rt_literal_def real_literal_text_def add.assoc)
  qed
  have zero: "\<not> (\<not> rt_hex w \<and> starts_with (rt_int w) ''0'' \<and> rt_int w \<noteq> ''0'')"
    using assms by (cases "rt_int w") (auto simp: real_literal_ok_def)
  have e: "nl_text (rt_literal w) ! nl_exponent (rt_literal w) = exponent_char ?p
      \<and> digit_sequence True Decimal (snd (p_exponent_part ?p))" if "has_exponent ?p"
    using that seq(3) at unfolding exp parts exponent_char_def rt_radix_def
    by (auto simp: exponent_text_def split: option.splits)
  show "valid_literal ?p"
    using seq(1,2) zero e unfolding valid_literal_def parts Parser_init_simps(1)
    by (auto simp: rt_radix_def)
  show "nl_radix_point (rt_literal w) \<noteq> length (nl_text (rt_literal w))"
    by (simp add: rt_literal_def real_literal_text_def)
  have "written_exponent ?p = exponent_number w"
    unfolding written_exponent_def parts exponent_number_def by (simp add: clean_def split: option.splits prod.splits)
  then show "written_real ?p = real_literal_number w"
    unfolding written_real_def written_int_def parts real_literal_number_def by (simp add: rt_radix_def)
qed


lemma NumericLiteral_Lex_integer:
  assumes "s \<noteq> []" "IsDecimalDigit (hd s)"
  shows "\<exists>lit. NumericLiteral_Lex s False = Ret (Some lit)
    \<and> nl_radix_point lit = length (nl_text lit) \<and> nl_exponent lit = length (nl_text lit)
    \<and> (\<forall>lit'. NumericLiteral_Lex s True = Ret (Some lit') \<longrightarrow>
         nl_radix_point lit' = length (nl_text lit') \<longrightarrow> lit' = lit)"
proof -
  obtain j st lit where f: "scan_loop s False 1 initial_scan = Ret (j, st)" "scan_inv s j st"
    "1 \<le> j" "j \<le> length s" "NumericLiteral_Lex s False = Ret (Some lit)" "nl_text lit = take j s"
    "nl_radix_point lit = (if seen_radix_point st then scan_radix_point st else j)"
    "nl_exponent lit = (if seen_potential_exponent st then scan_exponent st else j)"
    using NumericLiteral_Lex_cases [OF assms] by metis
  have np: "\<not> seen_radix_point st"
    using scan_loop_False_no_point [OF f(1)] by (simp add: initial_scan_def)
  then have ne: "\<not> seen_potential_exponent st" using f(2) by (auto simp: scan_inv_def)
  have "lit' = lit" if l: "NumericLiteral_Lex s True = Ret (Some lit')"
      "nl_radix_point lit' = length (nl_text lit')" for lit'
  proof -
    obtain k st' lit2 where t: "scan_loop s True 1 initial_scan = Ret (k, st')" "scan_inv s k st'"
      "k \<le> length s" "NumericLiteral_Lex s True = Ret (Some lit2)" "nl_text lit2 = take k s"
      "nl_radix_point lit2 = (if seen_radix_point st' then scan_radix_point st' else k)"
      using NumericLiteral_Lex_cases [OF assms, of True] by metis
    from l(1) t(4) have "lit2 = lit'" by simp
    with t(2-6) l(2) have "\<not> seen_radix_point st'" by (auto simp: scan_inv_def split: if_splits)
    from scan_loop_no_point [OF t(1) this] have "scan_loop s False 1 initial_scan = Ret (k, st')" .
    then have "NumericLiteral_Lex s False = NumericLiteral_Lex s True"
      using t(1) by (simp add: NumericLiteral_Lex_def)
    with l(1) f(5) show ?thesis by simp
  qed
  with f np ne show ?thesis by auto
qed

text \<open>
  A literal that was lexed as an integer is lexed to the same literal when a real literal
  may not be formed (after a period, for tuple indexing), and a literal lexed in that
  context is always an integer.
\<close>

theorem numeric_lex_integer_context:
  assumes "s \<noteq> []" "IsDecimalDigit (hd s)"
  shows "\<exists>lit. NumericLiteral_Lex s False = Ret (Some lit)
    \<and> nl_radix_point lit = length (nl_text lit) \<and> nl_exponent lit = length (nl_text lit)
    \<and> (\<forall>lit'. NumericLiteral_Lex s True = Ret (Some lit') \<longrightarrow>
         nl_radix_point lit' = length (nl_text lit') \<longrightarrow> lit' = lit)"
  using assms by (rule NumericLiteral_Lex_integer)

section \<open>Witnesses\<close>

lemma numeric_lex_delimits_witness:
  "\<exists>lit. NumericLiteral_Lex ''12.5e+3;'' True = Ret (Some lit) \<and> literal_ok lit"
  using numeric_lex_delimits [of "''12.5e+3;''" True] by (auto simp: IsDecimalDigit_def byte_of_def)

lemma numeric_lex_integer_context_witness:
  "\<exists>lit. NumericLiteral_Lex ''12.5'' False = Ret (Some lit) \<and> nl_radix_point lit = length (nl_text lit)"
  using numeric_lex_integer_context [of "''12.5''"] by (auto simp: IsDecimalDigit_def byte_of_def)

lemma lex_hex: "NumericLiteral_Lex ''0x1_F'' True =
    Ret (Some \<lparr>nl_text = ''0x1_F'', nl_radix_point = 5, nl_exponent = 5\<rparr>)"
  by code_simp

lemma lex_real: "NumericLiteral_Lex ''12.5e-3;'' True =
    Ret (Some \<lparr>nl_text = ''12.5e-3'', nl_radix_point = 2, nl_exponent = 4\<rparr>)"
  by code_simp


lemma compute_hex: "ComputeValue apint_bits \<lparr>nl_text = ''0x1_F'', nl_radix_point = 5, nl_exponent = 5\<rparr>
    = Ret (IntValue (bits_of 64 31), [])"
  by code_simp

lemma numeric_int_value_witness:
  "signed_val apint_bits bits_uval (bits_of 64 31)
     = written_int (Parser_init \<lparr>nl_text = ''0x1_F'', nl_radix_point = 5, nl_exponent = 5\<rparr>)"
  using numeric_int_value [OF bits.apint_axioms lex_hex compute_hex] by blast


end
