(* ===== verification/Id_Tag.thy ===== *)
theory Id_Tag
  imports Prelude
begin

text \<open>
  Ids and their tags: \<open>toolchain/base/index_base.h\<close> and \<open>toolchain/base/id_tag.h\<close>.

  An id is its \<open>int32_t\<close> index, a 32-bit word read as signed. \<open>IdTag\<close> mixes a tag into the
  unused high bits of an index. A \<open>CARBON_DCHECK\<close> is modelled as in a debug build, where it is
  fatal. The lemmas show that removing an applied tag gives the index back, that ids of
  different tags never coincide, and that the best-effort decomposition is exact for indices
  and tags that leave a gap between them.
\<close>

section \<open>Ids\<close>

definition NoneIndex :: "32 word" where
  "NoneIndex = - 1"

definition has_value :: "32 word \<Rightarrow> bool" where
  "has_value index \<longleftrightarrow> index \<noteq> NoneIndex"

section \<open>Tags\<close>

record IdTag =
  tag_bits :: "32 word"
  initial_reserved_ids :: "32 word"

text \<open>The default constructor of an untagged \<open>IdTag\<close>, and the constructor from a tag.\<close>

definition untagged :: IdTag where
  "untagged = \<lparr>tag_bits = 0, initial_reserved_ids = 0x7FFFFFFF\<rparr>"

definition MakeIdTag :: "32 word \<Rightarrow> 32 word \<Rightarrow> IdTag" where
  "MakeIdTag tag reserved =
     \<lparr>tag_bits = word_reverse (push_bit 1 (push_bit 1 (tag + 1) OR 1)),
      initial_reserved_ids = reserved\<rparr>"

definition HasTag :: "32 word \<Rightarrow> bool" where
  "HasTag tagged_index \<longleftrightarrow> word_reverse 2 AND tagged_index \<noteq> 0"

definition Apply :: "IdTag \<Rightarrow> 32 word \<Rightarrow> 32 word outcome" where
  "Apply t index =
     carbon_check (0 \<le> sint index)
       (if sint index < sint (initial_reserved_ids t) then Ret index
        else let tagged_index = index XOR tag_bits t
             in carbon_check (0 \<le> sint tagged_index) (Ret tagged_index))"

definition Remove :: "IdTag \<Rightarrow> 32 word \<Rightarrow> 32 word outcome" where
  "Remove t tid =
     carbon_check (0 \<le> sint tid)
       (if \<not> HasTag tid
        then carbon_check (sint tid < sint (initial_reserved_ids t)) (Ret tid)
        else let untagged_index = tid XOR tag_bits t
             in carbon_check (sint (initial_reserved_ids t) \<le> sint untagged_index)
                  (Ret untagged_index))"

definition GetContainerTag :: "IdTag \<Rightarrow> 32 word" where
  "GetContainerTag t = signed_drop_bit 2 (word_reverse (tag_bits t)) - 1"

text \<open>
  \<open>DecomposeWithBestEffort\<close>: the inner loop counts the zero bits from \<open>i\<close>, the outer loop keeps
  the first longest run.
\<close>

function zero_run :: "32 word \<Rightarrow> nat \<Rightarrow> nat" where
  "zero_run index i =
     (if i < 32 \<and> index AND push_bit i 1 = 0 then Suc (zero_run index (Suc i)) else 0)"
  by pat_completeness auto
termination
  by (relation "measure (\<lambda>(index, i). 32 - i)") auto

declare zero_run.simps [simp del]

function longest_run :: "32 word \<Rightarrow> nat \<Rightarrow> nat \<times> nat \<Rightarrow> nat \<times> nat" where
  "longest_run index i (len, location) =
     (if 32 \<le> i then (len, location)
      else let current_run = zero_run index i;
               next_i = (if current_run \<noteq> 0 then i + current_run - 1 else i)
           in longest_run index (next_i + 1)
                (if current_run > len then (current_run, i) else (len, location)))"
  by pat_completeness auto
termination
  by (relation "measure (\<lambda>(index, i, r). 32 - i)") auto

declare longest_run.simps [simp del]

definition DecomposeWithBestEffort :: "32 word \<Rightarrow> 32 word \<times> 32 word" where
  "DecomposeWithBestEffort tid =
     (if \<not> has_value tid then (NoneIndex, tid)
      else if \<not> HasTag tid then (NoneIndex, tid)
      else let (len, location) = longest_run tid 0 (0, 0) in
        if len < 8 then (NoneIndex, tid)
        else let index_mask = mask location
             in (drop_bit 2 (word_reverse (tid AND NOT index_mask)) - 1, tid AND index_mask))"

definition ToEquivalentIdType :: "IdTag \<Rightarrow> IdTag" where
  "ToEquivalentIdType t = MakeIdTag (GetContainerTag t) (initial_reserved_ids t)"

section \<open>Bits of words\<close>

lemma sint_nonneg_iff: "0 \<le> sint (w :: 32 word) \<longleftrightarrow> \<not> bit w 31"
  by (simp add: not_less [symmetric] bit_last_iff [symmetric] sint_uint bit_uint_iff)

lemma word_zero_iff: "w = 0 \<longleftrightarrow> (\<forall>n. \<not> bit w n)" for w :: "32 word"
  by (metis bit_word_eqI bit_0_eq bot_apply bot_bool_def)

lemma bit_two: "bit (2 :: 32 word) n \<longleftrightarrow> n = 1"
  using bit_exp_iff [of 1 n, where 'a = "32 word"] by auto

lemma HasTag_iff: "HasTag w \<longleftrightarrow> bit w 30"
proof -
  have "bit (word_reverse 2 AND w) n \<longleftrightarrow> n = 30 \<and> bit w n" for n
    using bit_two [of "31 - n"] by (auto simp: bit_and_iff bit_word_reverse_iff)
  then show ?thesis by (auto simp: HasTag_def word_zero_iff)
qed

lemma less_pow_bit_iff:
  fixes w :: "32 word"
  shows "unat w < 2 ^ k \<longleftrightarrow> (\<forall>n \<ge> k. \<not> bit w n)"
proof
  assume "unat w < 2 ^ k"
  then have "take_bit k (unat w) = unat w" by (simp add: take_bit_nat_eq_self)
  then have "bit (unat w) n \<longleftrightarrow> n < k \<and> bit (unat w) n" for n
    by (metis bit_take_bit_iff)
  then have "\<not> bit (unat w) n" if "k \<le> n" for n using that not_less by blast
  moreover have "bit (unat w) n = bit w n" for n by (simp add: bit_unsigned_iff)
  ultimately show "\<forall>n \<ge> k. \<not> bit w n" by blast
next
  assume "\<forall>n \<ge> k. \<not> bit w n"
  then have "take_bit k w = w" by (intro bit_word_eqI) (auto simp: bit_take_bit_iff not_le)
  then have "take_bit k (unat w) = unat w" by (metis unsigned_take_bit_eq)
  then show "unat w < 2 ^ k" by (metis take_bit_nat_less_exp)
qed

text \<open>The bits of a tag: bit 31 clear, bit 30 the marker, the tag number reversed below.\<close>

lemma bit_tag_bits:
  assumes "n < 32"
  shows "bit (tag_bits (MakeIdTag tag r)) n \<longleftrightarrow> n = 30 \<or> n < 30 \<and> bit (tag + 1) (29 - n)"
proof -
  have "bit (push_bit 1 (push_bit 1 (tag + 1) OR 1)) m \<longleftrightarrow>
      m < 32 \<and> (m = 1 \<or> 2 \<le> m \<and> bit (tag + 1) (m - 2))" for m
    unfolding bit_push_bit_iff bit_or_iff bit_1_iff by (auto simp: numeral_2_eq_2)
  note x = this [of "31 - n"]
  have "31 - n < 32" by simp
  have "bit (tag_bits (MakeIdTag tag r)) n \<longleftrightarrow> 31 - n = 1 \<or> 2 \<le> 31 - n \<and> bit (tag + 1) (31 - n - 2)"
    using assms x \<open>31 - n < 32\<close> unfolding MakeIdTag_def by (simp add: bit_word_reverse_iff)
  moreover have "31 - n - 2 = 29 - n" "31 - n = 1 \<longleftrightarrow> n = 30" "2 \<le> 31 - n \<longleftrightarrow> n < 30"
    using assms by linarith+
  ultimately show ?thesis by simp
qed

lemma XOR_twice [simp]: "(x XOR y) XOR y = x" for x y :: "32 word"
  by (simp add: bit_eq_iff bit_xor_iff) blast

lemma sint_small:
  fixes w :: "32 word"
  assumes "unat w < 2 ^ 31"
  shows "sint w = int (unat w)"
proof -
  have "\<not> bit (uint w) 31"
    using assms less_pow_bit_iff [of w 31] by (auto simp: bit_uint_iff)
  moreover have "uint w < 2 ^ 31" by (subst uint_nat) (metis assms of_nat_less_iff of_nat_numeral of_nat_power)
  ultimately show ?thesis
    by (simp add: sint_uint signed_take_bit_eq_if_positive take_bit_int_eq_self)
qed


section \<open>Applying and removing a tag\<close>

text \<open>
  The tags the two constructors make, with a non-negative number of reserved ids.
\<close>

definition tag_ok :: "IdTag \<Rightarrow> bool" where
  "tag_ok t \<longleftrightarrow> (t = untagged \<or> (\<exists>tag r. t = MakeIdTag tag r))
     \<and> 0 \<le> sint (initial_reserved_ids t)"

lemma small_bits: "unat i < 2 ^ 30 \<Longrightarrow> \<not> bit i 30 \<and> \<not> bit i 31" for i :: "32 word"
  using less_pow_bit_iff [of i 30] by simp

lemma Apply_small:
  assumes "tag_ok t" "unat i < 2 ^ 30"
  shows "Apply t i = Ret (if sint i < sint (initial_reserved_ids t) then i else i XOR tag_bits t)"
proof -
  have "0 \<le> sint i" using small_bits [OF assms(2)] by (simp add: sint_nonneg_iff)
  moreover have "0 \<le> sint (i XOR tag_bits t)" if "\<not> sint i < sint (initial_reserved_ids t)"
  proof -
    have "\<not> bit (tag_bits t) 31"
      using assms(1) by (auto simp: tag_ok_def untagged_def bit_tag_bits)
    then show ?thesis
      using small_bits [OF assms(2)] by (simp add: sint_nonneg_iff bit_xor_iff)
  qed
  ultimately show ?thesis by (simp add: Apply_def Let_def carbon_check_def)
qed

lemma tag_ok_Make: "0 \<le> sint r \<Longrightarrow> tag_ok (MakeIdTag tag r)"
  unfolding tag_ok_def by (metis MakeIdTag_def select_convs(2))

lemma Apply_tagged:
  assumes "unat i < 2 ^ 30"
  shows "Apply (MakeIdTag tag 0) i = Ret (i XOR tag_bits (MakeIdTag tag 0))"
proof -
  have "initial_reserved_ids (MakeIdTag tag 0) = 0" by (simp add: MakeIdTag_def)
  moreover have "0 \<le> sint i" using small_bits [OF assms] by (simp add: sint_nonneg_iff)
  ultimately show ?thesis using Apply_small [OF tag_ok_Make assms, of 0 tag] by simp
qed

lemma tag_marker:
  fixes i :: "32 word"
  assumes "tag_ok t" "unat i < 2 ^ 30" "\<not> sint i < sint (initial_reserved_ids t)"
  shows "bit (tag_bits t) 30 \<and> \<not> bit (tag_bits t) 31"
proof -
  have "t \<noteq> untagged"
  proof
    assume "t = untagged"
    moreover have "sint i < 0x7FFFFFFF"
    proof -
      have "unat i < 1073741824" using assms(2) by simp
      moreover have "sint i = int (unat i)" using assms(2) by (intro sint_small) simp
      ultimately show ?thesis by linarith
    qed
    ultimately show False using assms(3) by (simp add: untagged_def)
  qed
  with assms(1) obtain tag r where "t = MakeIdTag tag r" by (auto simp: tag_ok_def)
  then show ?thesis by (simp add: bit_tag_bits)
qed

lemma Remove_Apply:
  assumes "tag_ok t" "unat i < 2 ^ 30" "Apply t i = Ret tid"
  shows "Remove t tid = Ret i"
proof (cases "sint i < sint (initial_reserved_ids t)")
  case True
  with assms Apply_small [OF assms(1,2)] small_bits [OF assms(2)] show ?thesis
    by (simp add: Remove_def HasTag_iff sint_nonneg_iff)
next
  case False
  have tid: "tid = i XOR tag_bits t" using Apply_small [OF assms(1,2)] assms(3) False by simp
  have "bit tid 30" "\<not> bit tid 31"
    using tag_marker [OF assms(1,2) False] small_bits [OF assms(2)] by (simp_all add: tid bit_xor_iff)
  with False show ?thesis by (simp add: Remove_def HasTag_iff sint_nonneg_iff tid)
qed


text \<open>A tag number is recovered from the tag, and so the equivalent tag is the same tag.\<close>

lemma GetContainerTag_Make:
  assumes "unat (tag + 1) < 2 ^ 29"
  shows "GetContainerTag (MakeIdTag tag r) = tag"
proof -
  have small: "\<not> bit (tag + 1) n" if "29 \<le> n" for n
    using that less_pow_bit_iff [of "tag + 1" 29] assms by blast
  have "signed_drop_bit 2 (word_reverse (tag_bits (MakeIdTag tag r))) = tag + 1"
  proof (rule bit_word_eqI)
    fix n assume n: "n < LENGTH(32)"
    have r: "bit (word_reverse (tag_bits (MakeIdTag tag r))) m \<longleftrightarrow> m = 1 \<or> 2 \<le> m \<and> bit (tag + 1) (m - 2)"
      if "m < 32" for m
    proof -
      have "29 - (31 - m) = m - 2" "31 - m = 30 \<longleftrightarrow> m = 1" "31 - m < 30 \<longleftrightarrow> 2 \<le> m"
        using that by linarith+
      then show ?thesis using that by (simp add: bit_word_reverse_iff bit_tag_bits)
    qed
    show "bit (signed_drop_bit 2 (word_reverse (tag_bits (MakeIdTag tag r)))) n = bit (tag + 1) n"
      using n r [of "n + 2"] r [of 31] small [of 29] small [of n]
      by (auto simp: bit_signed_drop_bit_iff)
  qed
  then show ?thesis by (simp add: GetContainerTag_def)
qed

lemma drop_reverse_tag:
  assumes "unat (tag + 1) < 2 ^ m" "m \<le> 30"
  shows "drop_bit 2 (word_reverse (tag_bits (MakeIdTag tag r))) = tag + 1"
proof (rule bit_word_eqI)
  fix n assume "n < LENGTH(32)"
  have small: "\<not> bit (tag + 1) n" if "30 \<le> n" using that assms less_pow_bit_iff [of "tag + 1" m] by simp
  have "29 - (31 - (n + 2)) = n" "31 - (n + 2) < 30" if "n < 30" using that by linarith+
  then show "bit (drop_bit 2 (word_reverse (tag_bits (MakeIdTag tag r)))) n = bit (tag + 1) n"
    using small by (cases "n < 30") (simp_all add: bit_drop_bit_eq bit_word_reverse_iff bit_tag_bits)
qed

lemma tagged_distinct:
  assumes "unat i < 2 ^ k" "unat j < 2 ^ k" "k < 30"
    "unat (tag1 + 1) < 2 ^ (30 - k)" "unat (tag2 + 1) < 2 ^ (30 - k)"
    "i XOR tag_bits (MakeIdTag tag1 r1) = j XOR tag_bits (MakeIdTag tag2 r2)"
  shows "tag1 = tag2 \<and> i = j"
proof -
  let ?t1 = "tag_bits (MakeIdTag tag1 r1)" and ?t2 = "tag_bits (MakeIdTag tag2 r2)"
  have hi: "\<not> bit i n" "\<not> bit j n" if "k \<le> n" for n
    using that assms(1,2) less_pow_bit_iff by blast+
  have t: "\<not> bit (tag1 + 1) n" "\<not> bit (tag2 + 1) n" if "30 - k \<le> n" for n
    using that assms(4,5) less_pow_bit_iff by blast+
  have eq: "(bit i n \<noteq> bit ?t1 n) = (bit j n \<noteq> bit ?t2 n)" for n
    using assms(6) by (metis bit_xor_iff)
  have "tag1 + 1 = tag2 + 1"
  proof (rule bit_word_eqI)
    fix n assume "n < LENGTH(32)"
    show "bit (tag1 + 1) n = bit (tag2 + 1) n"
    proof (cases "n < 30 - k")
      case True
      then have "29 - n < 30" "k \<le> 29 - n" "29 - (29 - n) = n" using assms(3) by linarith+
      then show ?thesis using eq [of "29 - n"] hi [of "29 - n"] by (simp add: bit_tag_bits)
    qed (use t in auto)
  qed
  then have "tag1 = tag2" by simp
  with assms(6) have "i = j"
    by (metis XOR_twice MakeIdTag_def select_convs(1))
  with \<open>tag1 = tag2\<close> show ?thesis by simp
qed


section \<open>The best-effort decomposition\<close>

lemma bit_probe: "x AND push_bit i 1 = 0 \<longleftrightarrow> \<not> bit x i" if "i < 32" for x :: "32 word"
proof -
  have probe: "bit (x AND push_bit i 1) n \<longleftrightarrow> n = i \<and> bit x n" for n
    unfolding bit_and_iff bit_push_bit_iff bit_1_iff using that by auto
  show ?thesis by (simp only: word_zero_iff probe) blast
qed

lemma zero_run_eq:
  "zero_run x i = (if i < 32 \<and> \<not> bit x i then Suc (zero_run x (Suc i)) else 0)"
  using bit_probe [of i x] by (subst zero_run.simps) (auto simp del: push_bit_of_1)

text \<open>A run that starts at \<open>i\<close> ends at the first set bit.\<close>

lemma zero_run_upto:
  assumes "i \<le> b" "b \<le> 32" "\<forall>n. i \<le> n \<and> n < b \<longrightarrow> \<not> bit x n" "b = 32 \<or> bit x b"
  shows "zero_run x i = b - i"
  using assms(1,3)
proof (induction rule: inc_induct)
  case base
  with assms(4) show ?case by (auto simp: zero_run_eq [of x b])
next
  case (step n)
  then have "\<not> bit x n" "n < 32" using assms(2) by auto
  with step show ?case by (auto simp: zero_run_eq [of x n])
qed

lemma zero_run_le:
  assumes "bit x b" "i \<le> b"
  shows "zero_run x i \<le> b - i"
  using assms(2)
proof (induction rule: inc_induct)
  case base
  with assms(1) show ?case by (simp add: zero_run_eq [of x b])
next
  case (step n)
  then show ?case by (auto simp: zero_run_eq [of x n])
qed

lemma longest_run_rest:
  "\<forall>j \<ge> i. zero_run x j \<le> len \<Longrightarrow> longest_run x i (len, loc) = (len, loc)"
proof (induction x i "(len, loc)" rule: longest_run.induct)
  case (1 x i)
  then have "\<not> zero_run x i > len" by (simp add: not_less)
  with 1 show ?case by (simp add: longest_run.simps [of x i] Let_def)
qed

lemma longest_run_gap:
  assumes "i \<le> a" "len < g" "zero_run x a = g" "a < 32" "a = 0 \<or> bit x (a - 1)"
    "\<forall>j < a. zero_run x j < g" "\<forall>j \<ge> a + g. zero_run x j \<le> g"
  shows "longest_run x i (len, loc) = (g, a)"
  using assms
proof (induction x i "(len, loc)" arbitrary: len loc rule: longest_run.induct)
  case (1 x i len loc)
  show ?case
  proof (cases "i = a")
    case True
    with "1.prems" have "longest_run x i (len, loc) = longest_run x (a + g) (g, a)"
      by (simp add: longest_run.simps [of x a] Let_def)
    with "1.prems"(7) show ?thesis by (simp add: longest_run_rest)
  next
    case False
    let ?r = "zero_run x i"
    have less: "i < a" and r: "?r < g" using False "1.prems"(1,6) by auto
    then have "bit x (a - 1)" using "1.prems"(5) by auto
    from zero_run_le [OF this, of i] less have bound: "i + ?r \<le> a - 1" by linarith
    let ?i = "(if ?r \<noteq> 0 then i + ?r - 1 else i) + 1"
    have step: "longest_run x i (len, loc) = longest_run x ?i (if ?r > len then (?r, i) else (len, loc))"
      using less "1.prems"(4) by (simp add: longest_run.simps [of x i] Let_def)
    have "?i \<le> a" using bound less by auto
    then show ?thesis
      unfolding step using "1.hyps" [of ?r "?i - 1"] "1.prems" less r by (cases "?r > len") auto
  qed
qed


text \<open>The bit length of a word, where its highest run of zeros begins.\<close>

lemma bit_length_cases:
  fixes w :: "32 word"
  obtains a where "\<forall>n \<ge> a. \<not> bit w n" "a = 0 \<or> bit w (a - 1)" "\<And>k. unat w < 2 ^ k \<Longrightarrow> a \<le> k"
proof -
  let ?P = "\<lambda>a. \<forall>n \<ge> a. \<not> bit w n"
  define a where "a = (LEAST a. ?P a)"
  have "?P 32" using bit_imp_le_length [of w] by force
  then have a: "?P a" unfolding a_def by (rule LeastI)
  have least: "a \<le> k" if "unat w < 2 ^ k" for k
    unfolding a_def using that less_pow_bit_iff [of w k] by (intro Least_le) blast
  have "bit w (a - 1)" if "a \<noteq> 0"
  proof (rule ccontr)
    assume "\<not> bit w (a - 1)"
    then have "?P (a - 1)" using a by (metis Suc_pred' le_antisym not_less_eq_eq that bot_nat_0.not_eq_extremum)
    then have "a \<le> a - 1" unfolding a_def by (rule Least_le)
    then show False using that by simp
  qed
  then have "a = 0 \<or> bit w (a - 1)" by blast
  from that [OF a this least] show thesis .
qed

lemma tagged_runs:
  fixes i tag r :: "32 word"
  assumes "unat i < 2 ^ a'" "tag + 1 \<noteq> 0" "unat (tag + 1) < 2 ^ m"
    "2 * a' + m \<le> 30" "a' + 2 * m \<le> 31" "a' + m \<le> 22"
  defines "x \<equiv> i XOR tag_bits (MakeIdTag tag r)"
  obtains a g where "longest_run x 0 (0, 0) = (g, a)" "8 \<le> g"
    "\<forall>n \<ge> a. \<not> bit i n" "\<forall>n < a. \<not> bit (tag_bits (MakeIdTag tag r)) n"
proof -
  let ?t = "tag_bits (MakeIdTag tag r)"
  obtain a where a: "\<forall>n \<ge> a. \<not> bit i n" "a = 0 \<or> bit i (a - 1)" "a \<le> a'"
    using bit_length_cases [of i] assms(1) by metis
  obtain p where p: "\<forall>n \<ge> p. \<not> bit (tag + 1) n" "p = 0 \<or> bit (tag + 1) (p - 1)" "p \<le> m"
    using bit_length_cases [of "tag + 1"] assms(3) by metis
  have "p \<noteq> 0"
  proof
    assume "p = 0"
    then have "tag + 1 = 0" using p(1) word_zero_iff [of "tag + 1"] by simp
    then show False using assms(2) by simp
  qed
  define b where "b = 30 - p"
  have b: "bit ?t b" "b < 30" "29 - b = p - 1"
    using p(2,3) \<open>p \<noteq> 0\<close> assms(6) by (auto simp: b_def bit_tag_bits)
  have low: "\<not> bit ?t n" if "n < b" for n
  proof -
    have "p \<le> 29 - n" "n < 30" using that b by (auto simp: b_def)
    then show ?thesis using p(1) by (simp add: bit_tag_bits)
  qed
  have ab: "a + a' \<le> b" "m \<le> b - a + 1" "a + 8 \<le> b" "a < 32"
    using a(3) p(3) assms(4-6) by (auto simp: b_def)
  have x: "bit x n \<longleftrightarrow> bit i n \<noteq> bit ?t n" for n by (simp add: x_def bit_xor_iff)
  have run_a: "zero_run x a = b - a"
    using ab b a(1) low x by (intro zero_run_upto) auto
  have below: "zero_run x j < b - a" if "j < a" for j
  proof -
    have "bit x (a - 1)" using that a(2) low [of "a - 1"] ab x by auto
    from zero_run_le [OF this, of j] that ab a(3) show ?thesis by linarith
  qed
  have above: "zero_run x j \<le> b - a" if "b \<le> j" for j
  proof -
    have hi: "\<not> bit i n" if "b \<le> n" for n using that a(1) ab by auto
    have "zero_run x 31 = 1" using hi [of 31] b(2)
      by (simp add: zero_run_eq [of x 31] zero_run_eq [of x 32] x bit_tag_bits)
    moreover have "zero_run x j \<le> 30 - j" if "j \<le> 30"
      using that hi [of 30] b(2) by (intro zero_run_le) (simp_all add: x bit_tag_bits)
    moreover have "zero_run x b = 0" using b(1) hi [of b] by (simp add: zero_run_eq [of x b] x)
    moreover have "30 - b \<le> m" using p(3) by (simp add: b_def)
    moreover have "zero_run x j = 0" if "32 \<le> j" using that by (simp add: zero_run_eq [of x j])
    moreover have "j = 31 \<or> j = b \<or> 32 \<le> j \<or> (j \<le> 30 \<and> b < j)" using \<open>b \<le> j\<close> by auto
    ultimately show ?thesis using ab by fastforce
  qed
  have "longest_run x 0 (0, 0) = (b - a, a)"
    using run_a below above ab a(2) low [of "a - 1"] x by (intro longest_run_gap) auto
  then show thesis using that ab a(1) low by auto
qed


section \<open>Properties\<close>

text \<open>
  C26. Removing a tag undoes applying it: for every tag and every index below \<open>2 ^ 30\<close>, \<open>Apply\<close>
  passes its checks, and \<open>Remove\<close> passes its checks on the result and returns the index.
\<close>

theorem id_tag_round_trip:
  assumes "tag_ok t" "unat i < 2 ^ 30"
  shows "\<exists>tid. Apply t i = Ret tid \<and> Remove t tid = Ret i"
  using Apply_small [OF assms] Remove_Apply [OF assms] by auto

text \<open>
  Ids of different containers never coincide: tags that leave the low \<open>k\<close> bits to the index
  give different ids for different tags, and for different indices.
\<close>

theorem id_tags_distinct:
  assumes "unat i < 2 ^ k" "unat j < 2 ^ k" "k < 30"
    "unat (tag1 + 1) < 2 ^ (30 - k)" "unat (tag2 + 1) < 2 ^ (30 - k)"
    "tag1 \<noteq> tag2 \<or> i \<noteq> j"
  shows "Apply (MakeIdTag tag1 0) i \<noteq> Apply (MakeIdTag tag2 0) j"
proof
  assume eq: "Apply (MakeIdTag tag1 0) i = Apply (MakeIdTag tag2 0) j"
  have "unat i < 2 ^ 30" "unat j < 2 ^ 30"
    using assms(1-3) power_strict_increasing [of k 30 "2::nat"] by linarith+
  then have "i XOR tag_bits (MakeIdTag tag1 0) = j XOR tag_bits (MakeIdTag tag2 0)"
    using eq by (simp add: Apply_tagged)
  from tagged_distinct [OF assms(1-5) this] assms(6) show False by blast
qed

text \<open>
  The best-effort decomposition of a tagged id is exact, giving back the tag and the index,
  when the index fits in \<open>a\<close> bits and the tag number in \<open>m\<close> bits with a long enough gap between.
\<close>

theorem decompose_exact:
  assumes "unat i < 2 ^ a" "tag + 1 \<noteq> 0" "unat (tag + 1) < 2 ^ m"
    "2 * a + m \<le> 30" "a + 2 * m \<le> 31" "a + m \<le> 22"
    "Apply (MakeIdTag tag 0) i = Ret tid"
  shows "DecomposeWithBestEffort tid = (tag, i)"
proof -
  let ?t = "tag_bits (MakeIdTag tag 0)"
  have i30: "unat i < 2 ^ 30"
    using assms(1,6) power_increasing [of a 30 "2::nat"] by linarith
  then have tid: "tid = i XOR ?t" using assms(7) by (simp add: Apply_tagged)
  obtain l g where run: "longest_run tid 0 (0, 0) = (g, l)" "8 \<le> g"
    and gap: "\<forall>n \<ge> l. \<not> bit i n" "\<forall>n < l. \<not> bit ?t n"
    using tagged_runs [OF assms(1-6)] tid by metis
  have bits: "bit tid 30" "\<not> bit tid 31"
    using small_bits [OF i30] by (simp_all add: tid bit_xor_iff bit_tag_bits)
  have disj: "\<not> (bit i n \<and> bit ?t n)" for n using gap not_le by blast
  from bits have "HasTag tid" "has_value tid" by (auto simp: HasTag_iff has_value_def NoneIndex_def)
  moreover have "tid AND mask l = i"
    using gap by (intro bit_word_eqI) (auto simp: tid bit_simps not_le, metis disj)
  moreover have "tid AND NOT (mask l) = ?t"
    using gap by (intro bit_word_eqI) (auto simp: tid bit_simps not_less, metis disj)
  moreover have "drop_bit 2 (word_reverse ?t) = tag + 1"
    using drop_reverse_tag [OF assms(3)] assms(6) by simp
  ultimately show ?thesis using run by (simp add: DecomposeWithBestEffort_def)
qed

text \<open>
  A tag number is recovered from the tag built from it, and converting a tag to an
  equivalent id type keeps it.
\<close>

theorem container_tag_recovered:
  assumes "unat (tag + 1) < 2 ^ 29"
  shows "GetContainerTag (MakeIdTag tag r) = tag
    \<and> ToEquivalentIdType (MakeIdTag tag r) = MakeIdTag tag r"
  using GetContainerTag_Make [OF assms] by (simp add: ToEquivalentIdType_def) (simp add: MakeIdTag_def)

text \<open>
  C28. An untagged container accepts an index at or above \<open>2 ^ 30\<close> when it makes an id, but
  the checked removal of the id fails: bit 30 is read as the mark of a tag.
\<close>

theorem untagged_large_index_rejected:
  assumes "2 ^ 30 \<le> unat i" "unat i < 2 ^ 31 - 1"
  shows "Apply untagged i = Ret i \<and> Remove untagged i = Fatal"
proof -
  have s: "sint i = int (unat i)" using assms(2) by (intro sint_small) simp
  have "\<not> (\<forall>n \<ge> 30. \<not> bit i n)" using assms(1) less_pow_bit_iff [of i 30] by simp
  moreover have "\<forall>n \<ge> 31. \<not> bit i n" using assms(2) less_pow_bit_iff [of i 31] by simp
  ultimately have "bit i 30" by (metis Suc_numeral le_antisym not_less_eq_eq semiring_norm(5) semiring_norm(8))
  moreover have "int (unat i) < 2147483647"
  proof -
    have "unat i < 2147483647" using assms(2) by simp
    then show ?thesis by linarith
  qed
  ultimately show ?thesis
    using s by (auto simp: Apply_def Remove_def untagged_def carbon_check_def HasTag_iff)
qed

section \<open>Witnesses\<close>

lemma id_tag_round_trip_witness:
  "\<exists>tid. Apply (MakeIdTag 5 2) 1000 = Ret tid \<and> Remove (MakeIdTag 5 2) tid = Ret 1000"
  by (rule id_tag_round_trip) (simp_all add: tag_ok_Make)

lemma id_tags_distinct_witness:
  "Apply (MakeIdTag 7 0) 12 \<noteq> Apply (MakeIdTag 8 0) 12"
  by (rule id_tags_distinct [of 12 10 12 7 8]) simp_all

lemma decompose_exact_witness: "DecomposeWithBestEffort (12 XOR tag_bits (MakeIdTag 7 0)) = (7, 12)"
  by (rule decompose_exact [of 12 5 7 5])
    (simp_all add: Apply_tagged)

lemma untagged_large_index_rejected_witness: "Remove untagged 0x40000000 = Fatal"
  using untagged_large_index_rejected [of "0x40000000"] by simp

end
