(* ===== verification/Value_Store.thy ===== *)
theory Value_Store
  imports Id_Tag
begin

text \<open>
  \<open>ValueStore\<close>: \<open>toolchain/base/value_store.h\<close> and \<open>value_store_impl.h\<close>.

  A store is a number of elements, a tag and a vector of chunks of fixed capacity. A chunk is
  the list of its constructed elements, \<open>num_\<close> being the length. The layout (whether the
  build is a debug build, and the size of the value type) fixes the capacity. Debug checks are
  fatal. The abstract view of a store is the list of all its values: the locale \<open>id_store\<close> is
  that contract, and the interpretation shows that the chunked representation meets it.
\<close>

section \<open>Layout of chunks\<close>

record store_layout =
  debug_build :: bool
  value_size :: nat

definition MaxAllocationBytes :: "store_layout \<Rightarrow> nat" where
  "MaxAllocationBytes L = (if debug_build L then value_size L * 5 else 4 * 1024)"

text \<open>\<open>std::bit_floor\<close> and \<open>std::bit_width\<close>.\<close>

definition bit_width :: "nat \<Rightarrow> nat" where
  "bit_width n = floorlog 2 n"

definition bit_floor :: "nat \<Rightarrow> nat" where
  "bit_floor n = (if n = 0 then 0 else 2 ^ (bit_width n - 1))"

definition Capacity :: "store_layout \<Rightarrow> nat" where
  "Capacity L = bit_floor (MaxAllocationBytes L div value_size L)"

definition IndexBits :: "store_layout \<Rightarrow> nat" where
  "IndexBits L = bit_width (Capacity L - 1)"

section \<open>Chunks\<close>

type_synonym 'v Chunk = "'v list"

definition Chunk_Get :: "'v Chunk \<Rightarrow> nat \<Rightarrow> 'v outcome" where
  "Chunk_Get c i = carbon_check (i < length c) (Ret (c ! i))"

definition Chunk_Add :: "store_layout \<Rightarrow> 'v Chunk \<Rightarrow> 'v \<Rightarrow> 'v Chunk outcome" where
  "Chunk_Add L c v = carbon_check (length c < Capacity L) (Ret (c @ [v]))"

definition UninitializedFill :: "store_layout \<Rightarrow> 'v Chunk \<Rightarrow> nat \<Rightarrow> 'v \<Rightarrow> 'v Chunk outcome" where
  "UninitializedFill L c fill_count default_value =
     carbon_check (length c + fill_count \<le> Capacity L) (Ret (c @ replicate fill_count default_value))"

section \<open>The store\<close>

record 'v ValueStore =
  vs_size :: nat
  vs_tag :: IdTag
  vs_chunks :: "'v Chunk list"

definition ValueStore_empty :: "IdTag \<Rightarrow> 'v ValueStore" where
  "ValueStore_empty tag = \<lparr>vs_size = 0, vs_tag = tag, vs_chunks = []\<rparr>"

definition RawIndexToChunkIndices :: "store_layout \<Rightarrow> nat \<Rightarrow> nat \<times> nat" where
  "RawIndexToChunkIndices L index =
     (drop_bit (IndexBits L) index, index AND (push_bit (IndexBits L) 1 - 1))"

text \<open>\<open>SmallVector::resize\<close>: drops chunks at the end, or adds empty ones.\<close>

definition resize_chunks :: "nat \<Rightarrow> 'v Chunk list \<Rightarrow> 'v Chunk list" where
  "resize_chunks n cs = take n cs @ replicate (n - length cs) []"

definition ValueStore_Add ::
    "store_layout \<Rightarrow> 'v \<Rightarrow> 'v ValueStore \<Rightarrow> (32 word \<times> 'v ValueStore) outcome" where
  "ValueStore_Add L v s =
     carbon_check (vs_size s < 2 ^ 31 - 1)
       (bind_outcome (Apply (vs_tag s) (of_nat (vs_size s))) (\<lambda>new_id.
          let (chunk_index, pos) = RawIndexToChunkIndices L (vs_size s);
              s = s\<lparr>vs_size := vs_size s + 1\<rparr>
          in carbon_check (chunk_index \<le> length (vs_chunks s))
            (let cs = (if chunk_index = length (vs_chunks s) then vs_chunks s @ [[]] else vs_chunks s)
             in carbon_check (pos = length (cs ! chunk_index))
                  (bind_outcome (Chunk_Add L (cs ! chunk_index) v) (\<lambda>c.
                     Ret (new_id, s\<lparr>vs_chunks := cs[chunk_index := c]\<rparr>))))))"

definition GetRawIndex :: "'v ValueStore \<Rightarrow> 32 word \<Rightarrow> nat outcome" where
  "GetRawIndex s tid =
     carbon_check (0 \<le> sint tid)
       (bind_outcome (Remove (vs_tag s) tid) (\<lambda>index.
          carbon_check (unat index < vs_size s) (Ret (unat index))))"

definition ValueStore_Get :: "store_layout \<Rightarrow> 'v ValueStore \<Rightarrow> 32 word \<Rightarrow> 'v outcome" where
  "ValueStore_Get L s tid =
     carbon_check (0 \<le> sint tid)
       (bind_outcome (GetRawIndex s tid) (\<lambda>index.
          let (chunk_index, pos) = RawIndexToChunkIndices L index
          in Chunk_Get (vs_chunks s ! chunk_index) pos))"

definition ValueStore_Set :: "store_layout \<Rightarrow> 'v ValueStore \<Rightarrow> 32 word \<Rightarrow> 'v \<Rightarrow> 'v ValueStore outcome" where
  "ValueStore_Set L s tid v =
     carbon_check (0 \<le> sint tid)
       (bind_outcome (GetRawIndex s tid) (\<lambda>index.
          let (chunk_index, pos) = RawIndexToChunkIndices L index
          in carbon_check (pos < length (vs_chunks s ! chunk_index))
               (Ret (s\<lparr>vs_chunks :=
                  (vs_chunks s)[chunk_index := (vs_chunks s ! chunk_index)[pos := v]]\<rparr>))))"

definition GetWithDefault :: "store_layout \<Rightarrow> 'v ValueStore \<Rightarrow> 32 word \<Rightarrow> 'v \<Rightarrow> 'v outcome" where
  "GetWithDefault L s tid default_value =
     carbon_check (0 \<le> sint tid)
       (bind_outcome (Remove (vs_tag s) tid) (\<lambda>index.
          if vs_size s \<le> unat index then Ret default_value
          else let (chunk_index, pos) = RawIndexToChunkIndices L (unat index)
               in Chunk_Get (vs_chunks s ! chunk_index) pos))"

definition ValueStore_Reserve :: "store_layout \<Rightarrow> nat \<Rightarrow> 'v ValueStore \<Rightarrow> 'v ValueStore" where
  "ValueStore_Reserve L new_size s =
     (if new_size \<le> vs_size s then s
      else let (final_chunk_index, pos) = RawIndexToChunkIndices L (new_size - 1)
           in s\<lparr>vs_chunks := resize_chunks (final_chunk_index + 1) (vs_chunks s)\<rparr>)"

text \<open>The loop over the intermediate chunks of \<open>Resize\<close>.\<close>

function fill_chunks :: "store_layout \<Rightarrow> nat \<Rightarrow> nat \<Rightarrow> 'v \<Rightarrow> 'v Chunk list \<Rightarrow> 'v Chunk list outcome" where
  "fill_chunks L i end_chunk_index v cs =
     (if i < end_chunk_index
      then bind_outcome (UninitializedFill L (cs ! i) (Capacity L) v) (\<lambda>c.
             fill_chunks L (i + 1) end_chunk_index v (cs[i := c]))
      else Ret cs)"
  by pat_completeness auto
termination
  by (relation "measure (\<lambda>(L, i, e, v, cs). e - i)") auto

declare fill_chunks.simps [simp del]

definition ValueStore_Resize :: "store_layout \<Rightarrow> nat \<Rightarrow> 'v \<Rightarrow> 'v ValueStore \<Rightarrow> 'v ValueStore outcome" where
  "ValueStore_Resize L new_size default_value s =
     (if new_size \<le> vs_size s then Ret s
      else let (begin_chunk_index, begin_pos) = RawIndexToChunkIndices L (vs_size s);
               (end_chunk_index, end_pos) = RawIndexToChunkIndices L (new_size - 1);
               cs = resize_chunks (end_chunk_index + 1) (vs_chunks s)
           in bind_outcome
                (if begin_chunk_index = end_chunk_index
                 then bind_outcome
                        (UninitializedFill L (cs ! begin_chunk_index) (end_pos - begin_pos + 1) default_value)
                        (\<lambda>c. Ret (cs[begin_chunk_index := c]))
                 else bind_outcome
                        (UninitializedFill L (cs ! begin_chunk_index) (Capacity L - begin_pos) default_value)
                        (\<lambda>c. bind_outcome
                          (fill_chunks L (begin_chunk_index + 1) end_chunk_index default_value
                             (cs[begin_chunk_index := c]))
                          (\<lambda>cs. bind_outcome
                            (UninitializedFill L (cs ! end_chunk_index) (end_pos + 1) default_value)
                            (\<lambda>c. Ret (cs[end_chunk_index := c])))))
                (\<lambda>cs. Ret (s\<lparr>vs_chunks := cs, vs_size := new_size\<rparr>)))"

text \<open>The ranges over ids, values and pairs of both.\<close>

fun sequence :: "'a outcome list \<Rightarrow> 'a list outcome" where
  "sequence [] = Ret []"
| "sequence (x # xs) = bind_outcome x (\<lambda>y. bind_outcome (sequence xs) (\<lambda>ys. Ret (y # ys)))"

definition ValueStore_ids :: "'v ValueStore \<Rightarrow> 32 word list outcome" where
  "ValueStore_ids s = sequence (map (\<lambda>i. Apply (vs_tag s) (of_nat i)) [0..<vs_size s])"

definition ValueStore_enumerate :: "store_layout \<Rightarrow> 'v ValueStore \<Rightarrow> (32 word \<times> 'v) list outcome" where
  "ValueStore_enumerate L s =
     sequence (map (\<lambda>i. bind_outcome (Apply (vs_tag s) (of_nat i)) (\<lambda>tid.
       bind_outcome (ValueStore_Get L s tid) (\<lambda>v. Ret (tid, v)))) [0..<vs_size s])"

definition ValueStore_values :: "store_layout \<Rightarrow> 'v ValueStore \<Rightarrow> 'v list outcome" where
  "ValueStore_values L s =
     sequence (map (\<lambda>i. bind_outcome (Apply (vs_tag s) (of_nat i)) (\<lambda>tid.
       ValueStore_Get L s tid)) [0..<vs_size s])"

section \<open>The layout\<close>

text \<open>The static assertions: at least one element fits in an allocation.\<close>

definition layout_ok :: "store_layout \<Rightarrow> bool" where
  "layout_ok L \<longleftrightarrow> 0 < value_size L \<and> (debug_build L \<or> value_size L \<le> 4096)"

lemma bit_width_pow: "bit_width (2 ^ k - 1) = k"
proof (rule antisym)
  show "bit_width (2 ^ k - 1) \<le> k" by (simp add: bit_width_def floorlog_le_iff)
  show "k \<le> bit_width (2 ^ k - 1)"
  proof (cases k)
    case (Suc j)
    have "2 ^ j \<le> (2 ^ k - 1 :: nat)" using Suc by simp
    then show ?thesis using Suc by (simp add: bit_width_def floorlog_ge_SucI)
  qed simp
qed

lemma Capacity_pow2:
  assumes "layout_ok L"
  shows "Capacity L = 2 ^ IndexBits L" "0 < Capacity L"
proof -
  let ?n = "MaxAllocationBytes L div value_size L"
  have "?n \<noteq> 0"
    using assms by (auto simp: layout_ok_def MaxAllocationBytes_def div_eq_0_iff)
  then have "Capacity L = 2 ^ (bit_width ?n - 1)" by (simp add: Capacity_def bit_floor_def)
  then show "Capacity L = 2 ^ IndexBits L" "0 < Capacity L"
    by (simp_all add: IndexBits_def bit_width_pow [simplified])
qed

lemma RawIndexToChunkIndices_eq:
  assumes "layout_ok L"
  shows "RawIndexToChunkIndices L i = (i div Capacity L, i mod Capacity L)"
proof -
  have "i AND (push_bit (IndexBits L) 1 - 1) = i mod 2 ^ IndexBits L"
    using take_bit_eq_mask [of "IndexBits L" i] by (simp add: mask_eq_exp_minus_1 take_bit_eq_mod)
  then show ?thesis
    using Capacity_pow2 [OF assms] by (simp add: RawIndexToChunkIndices_def drop_bit_eq_div)
qed


section \<open>The store as a list of values\<close>

text \<open>The values of a list cut into \<open>n\<close> chunks of capacity \<open>c\<close>.\<close>

definition chunked :: "nat \<Rightarrow> 'v list \<Rightarrow> nat \<Rightarrow> 'v Chunk list" where
  "chunked c vs n = map (\<lambda>i. take c (drop (i * c) vs)) [0..<n]"

definition contents :: "'v ValueStore \<Rightarrow> 'v list" where
  "contents s = concat (vs_chunks s)"

definition store_ok :: "store_layout \<Rightarrow> 'v ValueStore \<Rightarrow> bool" where
  "store_ok L s \<longleftrightarrow> layout_ok L \<and> tag_ok (vs_tag s)
     \<and> vs_chunks s = chunked (Capacity L) (contents s) (length (vs_chunks s))
     \<and> vs_size s = length (contents s)
     \<and> vs_size s \<le> length (vs_chunks s) * Capacity L
     \<and> vs_size s \<le> 2 ^ 30"

lemma length_chunked [simp]: "length (chunked c vs n) = n"
  by (simp add: chunked_def)

lemma chunked_nth [simp]: "i < n \<Longrightarrow> chunked c vs n ! i = take c (drop (i * c) vs)"
  by (simp add: chunked_def)

lemma concat_chunked: "concat (chunked c vs n) = take (n * c) vs"
proof (induction n)
  case (Suc n)
  then show ?case by (simp add: chunked_def take_add [of "n * c" c, symmetric] add.commute)
qed (simp add: chunked_def)

lemma store_okI:
  assumes "layout_ok L" "tag_ok (vs_tag s)" "vs_chunks s = chunked (Capacity L) vs n"
    "vs_size s = length vs" "length vs \<le> n * Capacity L" "length vs \<le> 2 ^ 30"
  shows "store_ok L s \<and> contents s = vs"
proof -
  have "contents s = vs" using assms(3,5) by (simp add: contents_def concat_chunked)
  with assms show ?thesis by (simp add: store_ok_def)
qed

lemma store_ok_empty: "layout_ok L \<Longrightarrow> tag_ok t \<Longrightarrow> store_ok L (ValueStore_empty t)"
  by (simp add: store_ok_def ValueStore_empty_def contents_def chunked_def)

lemma chunked_extend: "length vs \<le> n * c \<Longrightarrow> chunked c vs n @ [[]] = chunked c vs (n + 1)"
  by (simp add: chunked_def)

lemma resize_chunked:
  assumes "length vs \<le> n * c" "length vs \<le> m * c"
  shows "resize_chunks m (chunked c vs n) = chunked c vs m"
proof (rule nth_equalityI)
  fix i assume "i < length (resize_chunks m (chunked c vs n))"
  then have i: "i < m" by (simp add: resize_chunks_def)
  show "resize_chunks m (chunked c vs n) ! i = chunked c vs m ! i"
  proof (cases "i < n")
    case True
    with i show ?thesis by (simp add: resize_chunks_def nth_append)
  next
    case False
    then have "length vs \<le> i * c" using assms(1) by (metis mult_le_mono1 not_less order_trans)
    with i False show ?thesis by (simp add: resize_chunks_def nth_append)
  qed
qed (simp add: resize_chunks_def)

lemma div_chunk_bounds:
  fixes c :: nat
  assumes "0 < c"
  shows "i div c * c \<le> i" "i < (i div c + 1) * c" "i - i div c * c = i mod c"
proof -
  have e: "i = i div c * c + i mod c" by simp
  have "i mod c < c" using assms by simp
  with e show "i div c * c \<le> i" "i < (i div c + 1) * c" "i - i div c * c = i mod c"
    unfolding add_mult_distrib by linarith+
qed

lemma chunked_snoc:
  assumes "0 < c" "length vs div c < n"
  defines "ci \<equiv> length vs div c"
  shows "chunked c (vs @ [v]) n = (chunked c vs n)[ci := chunked c vs n ! ci @ [v]]"
    "length (chunked c vs n ! ci) = length vs mod c"
proof -
  note b = div_chunk_bounds [OF assms(1), of "length vs"]
  show len: "length (chunked c vs n ! ci) = length vs mod c"
    using assms b by (simp add: mod_less_divisor less_imp_le)
  show "chunked c (vs @ [v]) n = (chunked c vs n)[ci := chunked c vs n ! ci @ [v]]"
  proof (rule nth_equalityI)
    fix i assume "i < length (chunked c (vs @ [v]) n)"
    then have i: "i < n" by simp
    consider "i < ci" | "i = ci" | "ci < i" by linarith
    then show "chunked c (vs @ [v]) n ! i = (chunked c vs n)[ci := chunked c vs n ! ci @ [v]] ! i"
    proof cases
      case 1
      then have "(i + 1) * c \<le> length vs div c * c" unfolding ci_def by (intro mult_le_mono1) simp
      then have "(i + 1) * c \<le> length vs" using b(1) by (rule order_trans)
      with i 1 show ?thesis by (simp add: drop_append take_append)
    next
      case 2
      with i b len assms(1) show ?thesis
        by (simp add: ci_def drop_append take_append mod_less_divisor Suc_leI)
    next
      case 3
      then have "length vs < i * c"
        using b(2) mult_le_mono1 [of "ci + 1" i c] by (simp add: ci_def)
      with i 3 show ?thesis by simp
    qed
  qed simp
qed

lemma chunk_lookup:
  assumes "0 < c" "i < length vs" "length vs \<le> n * c"
  shows "i div c < n" "i mod c < length (chunked c vs n ! (i div c))"
    "chunked c vs n ! (i div c) ! (i mod c) = vs ! i"
proof -
  show n: "i div c < n" using assms by (metis less_mult_imp_div_less order_less_le_trans)
  have m: "i div c * c + i mod c = i" by simp
  then show "i mod c < length (chunked c vs n ! (i div c))"
    using n assms mod_less_divisor [OF assms(1), of i] by (simp add: less_diff_conv add.commute)
  show "chunked c vs n ! (i div c) ! (i mod c) = vs ! i"
  proof -
    have "drop (i div c * c) vs ! (i mod c) = vs ! (i div c * c + i mod c)"
      using assms(2) div_chunk_bounds(1) [OF assms(1), of i] by (intro nth_drop) linarith
    with n assms(1) show ?thesis by (simp add: m)
  qed
qed


section \<open>What each operation does to the list\<close>

text \<open>The id of the element at an index of the list.\<close>

definition id_of :: "'v ValueStore \<Rightarrow> nat \<Rightarrow> 32 word" where
  "id_of s i = (if sint (word_of_nat i :: 32 word) < sint (initial_reserved_ids (vs_tag s))
                then word_of_nat i else word_of_nat i XOR tag_bits (vs_tag s))"

lemma unat_of_nat_small: "i < 2 ^ 30 \<Longrightarrow> unat (word_of_nat i :: 32 word) = i"
  by (simp add: unat_of_nat take_bit_nat_eq_self)

lemma Apply_id_of: "tag_ok (vs_tag s) \<Longrightarrow> i < 2 ^ 30 \<Longrightarrow> Apply (vs_tag s) (word_of_nat i) = Ret (id_of s i)"
  by (simp add: Apply_small unat_of_nat_small id_of_def)

lemma Remove_id_of:
  assumes "tag_ok (vs_tag s)" "i < 2 ^ 30"
  shows "Remove (vs_tag s) (id_of s i) = Ret (word_of_nat i)" "0 \<le> sint (id_of s i)"
proof -
  show r: "Remove (vs_tag s) (id_of s i) = Ret (word_of_nat i)"
    using Remove_Apply [OF assms(1) _ Apply_id_of [OF assms]] assms(2) by (simp add: unat_of_nat_small)
  then show "0 \<le> sint (id_of s i)"
    by (simp add: Remove_def carbon_check_def split: if_splits)
qed

lemma id_of_inj: "tag_ok (vs_tag s) \<Longrightarrow> i < 2 ^ 30 \<Longrightarrow> j < 2 ^ 30 \<Longrightarrow> id_of s i = id_of s j \<Longrightarrow> i = j"
  by (metis Remove_id_of(1) outcome.inject unat_of_nat_small)

lemma ValueStore_Add_eq:
  assumes "vs_size s < 2 ^ 31 - 1" "Apply (vs_tag s) (word_of_nat (vs_size s)) = Ret tid"
    "RawIndexToChunkIndices L (vs_size s) = (ci, pos)" "ci \<le> length (vs_chunks s)"
    "cs = (if ci = length (vs_chunks s) then vs_chunks s @ [[]] else vs_chunks s)"
    "pos = length (cs ! ci)" "length (cs ! ci) < Capacity L"
  shows "ValueStore_Add L v s =
    Ret (tid, s\<lparr>vs_size := vs_size s + 1, vs_chunks := cs[ci := cs ! ci @ [v]]\<rparr>)"
  unfolding ValueStore_Add_def assms(2,3) Let_def Chunk_Add_def
  using assms(1,4,6,7)
  by (cases "ci = length (vs_chunks s)") (simp_all add: assms(5) carbon_check_def)

lemma ValueStore_Add_spec:
  assumes "store_ok L s" "vs_size s < 2 ^ 30"
  shows "\<exists>s'. ValueStore_Add L v s = Ret (id_of s (length (contents s)), s')
    \<and> store_ok L s' \<and> contents s' = contents s @ [v] \<and> vs_tag s' = vs_tag s"
proof -
  let ?c = "Capacity L" and ?vs = "contents s" and ?n = "length (vs_chunks s)"
  note ok = assms(1)[unfolded store_ok_def]
  have c: "0 < ?c" using ok Capacity_pow2 by blast
  let ?ci = "length ?vs div ?c"
  have ci: "?ci \<le> ?n" using ok c by (metis div_le_mono div_mult_self_is_m)
  define n' where "n' = max ?n (?ci + 1)"
  define cs where "cs = (if ?ci = ?n then vs_chunks s @ [[]] else vs_chunks s)"
  have cs: "cs = chunked ?c ?vs n'"
  proof (cases "?ci = ?n")
    case True
    then have "cs = vs_chunks s @ [[]]" by (simp add: cs_def)
    also have "\<dots> = chunked ?c ?vs ?n @ [[]]" using ok by metis
    also have "\<dots> = chunked ?c ?vs (?n + 1)" using ok by (intro chunked_extend) simp
    finally show ?thesis using True by (simp add: n'_def)
  next
    case False
    with ci have "n' = ?n" by (simp add: n'_def)
    with False ok show ?thesis by (simp add: cs_def)
  qed
  have less: "?ci < n'" by (simp add: n'_def)
  note snoc = chunked_snoc [OF c less]
  let ?s = "s\<lparr>vs_size := vs_size s + 1, vs_chunks := cs[?ci := cs ! ?ci @ [v]]\<rparr>"
  have "ValueStore_Add L v s = Ret (id_of s (length ?vs), ?s)"
  proof (rule ValueStore_Add_eq [OF _ _ _ ci cs_def])
    show "length ?vs mod ?c = length (cs ! ?ci)" "length (cs ! ?ci) < Capacity L"
      using snoc(2) c by (simp_all only: cs mod_less_divisor)
  qed (use ok assms(2) Apply_id_of [of s "length ?vs"] in \<open>simp_all add: RawIndexToChunkIndices_eq\<close>)
  moreover have "store_ok L ?s \<and> contents ?s = ?vs @ [v]"
  proof (rule store_okI)
    have "length ?vs < (?ci + 1) * ?c" using div_chunk_bounds(2) [OF c] .
    moreover have "(?ci + 1) * ?c \<le> n' * ?c" using less by (intro mult_le_mono1) simp
    ultimately show "length (?vs @ [v]) \<le> n' * ?c" by simp
  qed (use ok assms(2) snoc(1) cs in auto)
  ultimately show ?thesis by auto
qed

lemma GetRawIndex_spec:
  assumes "store_ok L s" "i < length (contents s)"
  shows "GetRawIndex s (id_of s i) = Ret i"
proof -
  have i: "i < 2 ^ 30" "tag_ok (vs_tag s)" using assms by (auto simp: store_ok_def)
  from Remove_id_of [OF i(2,1)] i(1) assms show ?thesis
    by (simp add: GetRawIndex_def unat_of_nat_small store_ok_def)
qed

lemma store_ok_lookup:
  assumes "store_ok L s" "i < length (contents s)"
  shows "RawIndexToChunkIndices L i = (i div Capacity L, i mod Capacity L)"
    "i div Capacity L < length (vs_chunks s)"
    "i mod Capacity L < length (vs_chunks s ! (i div Capacity L))"
    "vs_chunks s ! (i div Capacity L) ! (i mod Capacity L) = contents s ! i"
proof -
  note ok = assms(1)[unfolded store_ok_def]
  have c: "0 < Capacity L" using ok Capacity_pow2 by blast
  have b: "length (contents s) \<le> length (vs_chunks s) * Capacity L" using ok by simp
  show "RawIndexToChunkIndices L i = (i div Capacity L, i mod Capacity L)"
    using ok by (simp add: RawIndexToChunkIndices_eq)
  show "i div Capacity L < length (vs_chunks s)"
    "i mod Capacity L < length (vs_chunks s ! (i div Capacity L))"
    "vs_chunks s ! (i div Capacity L) ! (i mod Capacity L) = contents s ! i"
    using chunk_lookup [OF c assms(2) b] ok by metis+
qed

lemma ValueStore_Get_spec:
  assumes "store_ok L s" "i < length (contents s)"
  shows "ValueStore_Get L s (id_of s i) = Ret (contents s ! i)"
proof -
  have i: "i < 2 ^ 30" "tag_ok (vs_tag s)" using assms by (auto simp: store_ok_def)
  with store_ok_lookup [OF assms] GetRawIndex_spec [OF assms] Remove_id_of(2) [OF i(2,1)] show ?thesis
    by (simp add: ValueStore_Get_def Chunk_Get_def)
qed


lemma GetWithDefault_spec:
  assumes "store_ok L s" "i < 2 ^ 30"
  shows "GetWithDefault L s (id_of s i) d = Ret (if i < length (contents s) then contents s ! i else d)"
proof -
  have ok: "tag_ok (vs_tag s)" "vs_size s = length (contents s)" using assms by (auto simp: store_ok_def)
  show ?thesis
    using Remove_id_of [OF ok(1) assms(2)] assms(2) ok(2) store_ok_lookup [OF assms(1), of i]
    by (auto simp: GetWithDefault_def unat_of_nat_small Chunk_Get_def)
qed

lemma chunked_update:
  assumes "0 < c" "i < length vs" "length vs \<le> n * c"
  shows "(chunked c vs n)[i div c := (chunked c vs n ! (i div c))[i mod c := v]] = chunked c (vs[i := v]) n"
proof (rule nth_equalityI)
  fix j assume "j < length ((chunked c vs n)[i div c := (chunked c vs n ! (i div c))[i mod c := v]])"
  then have j: "j < n" by simp
  consider "j = i div c" | "j < i div c" | "i div c < j" by linarith
  then show "(chunked c vs n)[i div c := (chunked c vs n ! (i div c))[i mod c := v]] ! j
      = chunked c (vs[i := v]) n ! j"
  proof cases
    case 1
    then show ?thesis
      using j div_chunk_bounds [OF assms(1), of i] by (simp add: drop_update_swap take_update_swap)
  next
    case 2
    then have "(j + 1) * c \<le> i div c * c" by (intro mult_le_mono1) simp
    then have "(j + 1) * c \<le> i" using div_chunk_bounds(1) [OF assms(1), of i] by (rule order_trans)
    then show ?thesis using 2 j by (simp add: drop_update_swap take_update_cancel)
  next
    case 3
    then have "(i div c + 1) * c \<le> j * c" by (intro mult_le_mono1) simp
    then have "i < j * c" using div_chunk_bounds(2) [OF assms(1), of i] by simp
    then show ?thesis using 3 j by (simp add: drop_update_cancel)
  qed
qed simp

lemma ValueStore_Set_spec:
  assumes "store_ok L s" "i < length (contents s)"
  shows "\<exists>s'. ValueStore_Set L s (id_of s i) v = Ret s' \<and> store_ok L s'
    \<and> contents s' = (contents s)[i := v] \<and> vs_tag s' = vs_tag s"
proof -
  note ok = assms(1)[unfolded store_ok_def]
  have i: "i < 2 ^ 30" using assms ok by simp
  have c: "0 < Capacity L" using ok Capacity_pow2 by blast
  let ?ci = "i div Capacity L" and ?pos = "i mod Capacity L"
  let ?s = "s\<lparr>vs_chunks := (vs_chunks s)[?ci := (vs_chunks s ! ?ci)[?pos := v]]\<rparr>"
  have "ValueStore_Set L s (id_of s i) v = Ret ?s"
    using store_ok_lookup [OF assms] GetRawIndex_spec [OF assms] Remove_id_of(2) [of s i] i ok
    by (simp add: ValueStore_Set_def)
  moreover have "vs_chunks ?s = chunked (Capacity L) ((contents s)[i := v]) (length (vs_chunks s))"
    using chunked_update [OF c assms(2), of "length (vs_chunks s)" v] ok by simp
  then have "store_ok L ?s \<and> contents ?s = (contents s)[i := v]"
    using ok by (intro store_okI) auto
  ultimately show ?thesis by auto
qed

lemma ValueStore_Reserve_spec:
  assumes "store_ok L s"
  shows "store_ok L (ValueStore_Reserve L n s) \<and> contents (ValueStore_Reserve L n s) = contents s
    \<and> vs_tag (ValueStore_Reserve L n s) = vs_tag s"
proof (cases "n \<le> vs_size s")
  case True
  with assms show ?thesis by (simp add: ValueStore_Reserve_def)
next
  case False
  note ok = assms[unfolded store_ok_def]
  have c: "0 < Capacity L" using ok Capacity_pow2 by blast
  let ?m = "(n - 1) div Capacity L + 1"
  have m: "length (contents s) \<le> ?m * Capacity L"
    using div_chunk_bounds(2) [OF c, of "n - 1"] False ok by linarith
  let ?s = "ValueStore_Reserve L n s"
  have s: "?s = s\<lparr>vs_chunks := resize_chunks ?m (vs_chunks s)\<rparr>"
    using False ok by (simp add: ValueStore_Reserve_def RawIndexToChunkIndices_eq)
  have "length (contents s) \<le> length (vs_chunks s) * Capacity L" using ok by simp
  from resize_chunked [OF this m] ok
  have "resize_chunks ?m (vs_chunks s) = chunked (Capacity L) (contents s) ?m" by metis
  then have "store_ok L ?s \<and> contents ?s = contents s"
    using ok m unfolding s by (intro store_okI) auto
  then show ?thesis by (simp add: s)
qed

lemma fill_chunks_spec:
  assumes "\<forall>j. i \<le> j \<and> j < e \<longrightarrow> cs ! j = []" "e \<le> length cs"
  shows "fill_chunks L i e v cs =
    Ret (map (\<lambda>j. if i \<le> j \<and> j < e then replicate (Capacity L) v else cs ! j) [0..<length cs])"
  using assms
proof (induction L i e v cs rule: fill_chunks.induct)
  case (1 L i e v cs)
  show ?case
  proof (cases "i < e")
    case False
    then show ?thesis by (auto simp: fill_chunks.simps [of L i] intro!: nth_equalityI)
  next
    case True
    then have fill: "UninitializedFill L (cs ! i) (Capacity L) v = Ret (replicate (Capacity L) v)"
      using "1.prems" by (simp add: UninitializedFill_def)
    let ?cs = "cs[i := replicate (Capacity L) v]"
    have "fill_chunks L i e v cs = fill_chunks L (i + 1) e v ?cs"
      using True fill by (simp add: fill_chunks.simps [of L i])
    also have "\<dots> = Ret (map (\<lambda>j. if i + 1 \<le> j \<and> j < e then replicate (Capacity L) v else ?cs ! j)
        [0..<length ?cs])"
      using "1.prems" by (intro "1.IH" [OF True fill]) auto
    also have "\<dots> = Ret (map (\<lambda>j. if i \<le> j \<and> j < e then replicate (Capacity L) v else cs ! j)
        [0..<length cs])"
      using True by (auto simp: nth_list_update)
    finally show ?thesis .
  qed
qed


text \<open>The number of the first \<open>x\<close> values that fall into chunk \<open>i\<close>.\<close>

definition share :: "nat \<Rightarrow> nat \<Rightarrow> nat \<Rightarrow> nat" where
  "share c x i = min c (x - i * c)"

lemma share_cases:
  assumes "0 < c"
  shows "i < x div c \<Longrightarrow> share c x i = c" "share c x (x div c) = x mod c"
    "x div c < i \<Longrightarrow> share c x i = 0"
proof -
  note b = div_chunk_bounds [OF assms, of x]
  show "share c x i = c" if "i < x div c"
  proof -
    have "(i + 1) * c \<le> x div c * c" using that by (intro mult_le_mono1) simp
    then have "(i + 1) * c \<le> x" using b(1) by (rule order_trans)
    then show ?thesis by (simp add: share_def)
  qed
  show "share c x (x div c) = x mod c"
    using b(3) mod_less_divisor [OF assms, of x] by (simp add: share_def)
  show "share c x i = 0" if "x div c < i"
  proof -
    have "(x div c + 1) * c \<le> i * c" using that by (intro mult_le_mono1) simp
    then show ?thesis using b(2) by (simp add: share_def)
  qed
qed

lemma share_last:
  assumes "0 < c" "0 < n"
  shows "i < (n - 1) div c \<Longrightarrow> share c n i = c" "share c n ((n - 1) div c) = (n - 1) mod c + 1"
proof -
  note b = div_chunk_bounds [OF assms(1), of "n - 1"]
  show "share c n i = c" if "i < (n - 1) div c"
    using share_cases(1) [OF assms(1) that] by (auto simp: share_def)
  have "(n - 1) mod c < c" using assms(1) by simp
  moreover have "n - (n - 1) div c * c = (n - 1) mod c + 1" using b(1,3) assms(2) by linarith
  ultimately show "share c n ((n - 1) div c) = (n - 1) mod c + 1" by (simp add: share_def)
qed

text \<open>Appending values extends each chunk to its share of the new total.\<close>

lemma chunked_grow:
  assumes "i < m" "length vs \<le> n"
  shows "chunked c (vs @ replicate (n - length vs) v) m ! i
    = chunked c vs m ! i @ replicate (share c n i - share c (length vs) i) v"
  using assms by (auto simp: take_append drop_append share_def min_def) arith

lemma length_chunked_share: "i < m \<Longrightarrow> length (chunked c vs m ! i) = share c (length vs) i"
  by (simp add: share_def min.commute)

lemma ValueStore_Resize_chunks:
  fixes L :: store_layout and vs :: "'v list" and n :: nat
  defines "c \<equiv> Capacity L"
  defines "bc \<equiv> length vs div c" and "ec \<equiv> (n - 1) div c"
  assumes "0 < c" "length vs < n"
  defines "cs \<equiv> chunked c vs (ec + 1)"
  shows "(if bc = ec
     then bind_outcome (UninitializedFill L (cs ! bc) ((n - 1) mod c - length vs mod c + 1) v)
            (\<lambda>ch. Ret (cs[bc := ch]))
     else bind_outcome (UninitializedFill L (cs ! bc) (c - length vs mod c) v)
            (\<lambda>ch. bind_outcome (fill_chunks L (bc + 1) ec v (cs[bc := ch]))
              (\<lambda>cs. bind_outcome (UninitializedFill L (cs ! ec) ((n - 1) mod c + 1) v)
                (\<lambda>ch. Ret (cs[ec := ch])))))
    = Ret (chunked c (vs @ replicate (n - length vs) v) (ec + 1))"
proof -
  let ?T = "chunked c (vs @ replicate (n - length vs) v) (ec + 1)"
  have le: "bc \<le> ec" unfolding bc_def ec_def using assms(5) by (intro div_le_mono) simp
  have n: "0 < n" using assms(5) by simp
  note sh = share_cases [OF \<open>0 < c\<close>, where x = "length vs", folded bc_def]
    and sl = share_last [OF \<open>0 < c\<close> n, folded ec_def]
  have T: "?T ! i = cs ! i @ replicate (share c n i - share c (length vs) i) v"
    if "i \<le> ec" for i
    unfolding cs_def using that assms(5) by (intro chunked_grow) simp_all
  have len: "length (cs ! i) = share c (length vs) i" if "i \<le> ec" for i
    unfolding cs_def using that by (intro length_chunked_share) simp
  have m: "length vs mod c < c" "(n - 1) mod c < c" using \<open>0 < c\<close> by simp_all
  have low: "cs ! i = ?T ! i" if "i < bc" for i
    using T [of i] that le sh(1) [of i] by (simp add: share_def)
  show ?thesis
  proof (cases "bc = ec")
    case True
    have mle: "length vs mod c \<le> (n - 1) mod c"
      using True assms(5) unfolding bc_def ec_def
      by (metis div_mod_decomp add_le_cancel_left less_eq_Suc_le Suc_diff_1 Suc_le_mono n)
    then have a: "?T ! bc = cs ! bc @ replicate ((n - 1) mod c - length vs mod c + 1) v"
      using T [of bc] True sh(2) sl(2) by (simp add: Suc_diff_le)
    have "cs[bc := cs ! bc @ replicate ((n - 1) mod c - length vs mod c + 1) v] = ?T"
    proof (rule nth_equalityI)
      fix i assume "i < length (cs[bc := cs ! bc @ replicate ((n - 1) mod c - length vs mod c + 1) v])"
      then have "i = bc \<or> i < bc" using True by (auto simp: cs_def)
      then show "cs[bc := cs ! bc @ replicate ((n - 1) mod c - length vs mod c + 1) v] ! i = ?T ! i"
        using a low True by (auto simp: cs_def)
    qed (simp add: cs_def)
    with True m mle len [of bc] sh(2) show ?thesis
      by (simp add: UninitializedFill_def c_def [symmetric] carbon_check_def)
  next
    case False
    then have lt: "bc < ec" using le by simp
    define cs1 where "cs1 = cs[bc := cs ! bc @ replicate (c - length vs mod c) v]"
    have empty: "cs ! j = []" if "bc < j" "j \<le> ec" for j
      using len [OF that(2)] sh(3) [OF that(1)] by simp
    have l1: "length cs1 = ec + 1" by (simp add: cs1_def cs_def)
    define cs2 where "cs2 = map (\<lambda>j. if bc + 1 \<le> j \<and> j < ec then replicate c v else cs1 ! j) [0..<ec + 1]"
    have mid: "fill_chunks L (bc + 1) ec v cs1 = Ret cs2"
      using fill_chunks_spec [of "bc + 1" ec cs1 L v] empty l1 by (simp add: cs1_def cs2_def c_def)
    have "cs2[ec := replicate ((n - 1) mod c + 1) v] = ?T"
    proof (rule nth_equalityI)
      fix i assume "i < length (cs2[ec := replicate ((n - 1) mod c + 1) v])"
      then have "i \<le> ec" by (simp add: cs2_def)
      then consider "i < bc" | "i = bc" | "bc < i" "i < ec" | "i = ec" by linarith
      then show "cs2[ec := replicate ((n - 1) mod c + 1) v] ! i = ?T ! i"
      proof cases
        case 1
        with lt low show ?thesis by (simp add: cs2_def cs1_def del: upt_Suc)
      next
        case 2
        with lt T [of bc] sh(2) sl(1) show ?thesis by (simp add: cs2_def cs1_def cs_def del: upt_Suc)
      next
        case 3
        with T [of i] sh(3) sl(1) empty show ?thesis by (simp add: cs2_def del: upt_Suc)
      next
        case 4
        with T [of ec] sh(3) [of ec] sl(2) empty [of ec] lt show ?thesis
          by (simp add: cs2_def del: upt_Suc)
      qed
    qed (simp add: cs2_def)
    moreover have "cs2 ! ec = []" using empty [of ec] lt by (simp add: cs2_def cs1_def del: upt_Suc)
    ultimately show ?thesis
      using False m len [of bc] le sh(2) mid
      by (simp add: UninitializedFill_def c_def [symmetric] cs1_def [symmetric])
  qed
qed


lemma ValueStore_Resize_spec:
  assumes "store_ok L s" "n \<le> 2 ^ 30"
  shows "\<exists>s'. ValueStore_Resize L n d s = Ret s' \<and> store_ok L s'
    \<and> contents s' = contents s @ replicate (n - length (contents s)) d \<and> vs_tag s' = vs_tag s"
proof (cases "n \<le> vs_size s")
  case True
  with assms show ?thesis by (auto simp: ValueStore_Resize_def store_ok_def)
next
  case False
  note ok = assms(1)[unfolded store_ok_def]
  let ?c = "Capacity L" and ?vs = "contents s"
  let ?m = "(n - 1) div ?c + 1" and ?new = "?vs @ replicate (n - length ?vs) d"
  have c: "0 < ?c" using ok Capacity_pow2 by blast
  have less: "length ?vs < n" using False ok by simp
  have m: "length ?vs \<le> ?m * ?c" "n \<le> ?m * ?c"
    using div_chunk_bounds(2) [OF c, of "n - 1"] less by linarith+
  have "length ?vs \<le> length (vs_chunks s) * ?c" using ok by simp
  from resize_chunked [OF this m(1)] ok
  have cs: "resize_chunks ?m (vs_chunks s) = chunked ?c ?vs ?m" by metis
  let ?s = "s\<lparr>vs_chunks := chunked ?c ?new ?m, vs_size := n\<rparr>"
  have "ValueStore_Resize L n d s = Ret ?s"
  proof -
    have raw: "RawIndexToChunkIndices L i = (i div ?c, i mod ?c)" for i
      using ok by (simp add: RawIndexToChunkIndices_eq)
    have "vs_size s = length ?vs" using ok by simp
    then show ?thesis
      unfolding ValueStore_Resize_def raw Let_def prod.case cs using less
      by (simp only: ValueStore_Resize_chunks [OF c less] bind_outcome.simps not_le if_False)
        (simp add: not_le)
  qed
  moreover have "store_ok L ?s \<and> contents ?s = ?new"
    using ok m less assms(2) by (intro store_okI [where n = ?m]) auto
  ultimately show ?thesis by auto
qed

lemma sequence_Ret: "(\<And>x. x \<in> set xs \<Longrightarrow> f x = Ret (g x)) \<Longrightarrow> sequence (map f xs) = Ret (map g xs)"
  by (induction xs) auto

lemma ValueStore_enumerate_spec:
  assumes "store_ok L s"
  shows "ValueStore_ids s = Ret (map (id_of s) [0..<length (contents s)])"
    "ValueStore_enumerate L s = Ret (zip (map (id_of s) [0..<length (contents s)]) (contents s))"
    "ValueStore_values L s = Ret (contents s)"
proof -
  have ok: "tag_ok (vs_tag s)" "vs_size s = length (contents s)" "vs_size s \<le> 2 ^ 30"
    using assms by (auto simp: store_ok_def)
  have app: "Apply (vs_tag s) (word_of_nat i) = Ret (id_of s i)" if "i < vs_size s" for i
    using that ok by (intro Apply_id_of) auto
  show "ValueStore_ids s = Ret (map (id_of s) [0..<length (contents s)])"
    unfolding ValueStore_ids_def ok(2) [symmetric] by (rule sequence_Ret) (simp add: app)
  have "ValueStore_enumerate L s = Ret (map (\<lambda>i. (id_of s i, contents s ! i)) [0..<length (contents s)])"
    unfolding ValueStore_enumerate_def ok(2) [symmetric]
    by (rule sequence_Ret) (use app ok(2) ValueStore_Get_spec [OF assms] in simp)
  also have "map (\<lambda>i. (id_of s i, contents s ! i)) [0..<length (contents s)]
      = zip (map (id_of s) [0..<length (contents s)]) (contents s)"
    by (rule nth_equalityI) simp_all
  finally show "ValueStore_enumerate L s = Ret (zip (map (id_of s) [0..<length (contents s)]) (contents s))" .
  have "ValueStore_values L s = Ret (map (\<lambda>i. contents s ! i) [0..<length (contents s)])"
    unfolding ValueStore_values_def ok(2) [symmetric]
    by (rule sequence_Ret) (use app ok(2) ValueStore_Get_spec [OF assms] in simp)
  then show "ValueStore_values L s = Ret (contents s)" by (simp add: map_nth)
qed

section \<open>The contract of an id store\<close>

text \<open>
  What clients rely on: values are only appended, the id returned for a value keeps giving
  that value back, and ids of different elements are different.
\<close>

locale id_store =
  fixes add :: "'v \<Rightarrow> 's \<Rightarrow> ('i \<times> 's) outcome"
    and get :: "'s \<Rightarrow> 'i \<Rightarrow> 'v outcome"
    and vals :: "'s \<Rightarrow> 'v list"
    and ok :: "'s \<Rightarrow> bool"
    and room :: "'s \<Rightarrow> bool"
    and ident :: "'s \<Rightarrow> nat \<Rightarrow> 'i"
  assumes add_law: "ok s \<Longrightarrow> room s \<Longrightarrow> \<exists>s'. add v s = Ret (ident s (length (vals s)), s')
      \<and> ok s' \<and> vals s' = vals s @ [v] \<and> ident s' = ident s"
    and get_law: "ok s \<Longrightarrow> i < length (vals s) \<Longrightarrow> get s (ident s i) = Ret (vals s ! i)"
    and ident_inj: "ok s \<Longrightarrow> i < length (vals s) \<Longrightarrow> j < length (vals s) \<Longrightarrow>
      ident s i = ident s j \<Longrightarrow> i = j"
begin

lemma get_after_add:
  assumes "ok s" "room s" "add v s = Ret (new_id, s')"
  shows "get s' new_id = Ret v" "ok s'"
    "i < length (vals s) \<Longrightarrow> get s' (ident s i) = get s (ident s i)"
    "i < length (vals s) \<Longrightarrow> new_id \<noteq> ident s i"
proof -
  have a: "new_id = ident s (length (vals s))" "ok s'" "vals s' = vals s @ [v]" "ident s' = ident s"
    using add_law [OF assms(1,2), of v] assms(3) by auto
  then show "get s' new_id = Ret v" "ok s'"
    using get_law [of s' "length (vals s)"] by simp_all
  show "get s' (ident s i) = get s (ident s i)" if "i < length (vals s)"
    using that a get_law [of s' i] get_law [OF assms(1) that] by (simp add: nth_append)
  show "new_id \<noteq> ident s i" if "i < length (vals s)"
    using that a ident_inj [of s' "length (vals s)" i] by auto
qed

end

interpretation vs_store: id_store "ValueStore_Add L" "ValueStore_Get L" contents "store_ok L"
  "\<lambda>s. vs_size s < 2 ^ 30" id_of for L
proof
  fix s :: "'a ValueStore" and v
  assume "store_ok L s" "vs_size s < 2 ^ 30"
  from ValueStore_Add_spec [OF this, of v]
  show "\<exists>s'. ValueStore_Add L v s = Ret (id_of s (length (contents s)), s')
      \<and> store_ok L s' \<and> contents s' = contents s @ [v] \<and> id_of s' = id_of s"
    by (auto simp: id_of_def fun_eq_iff)
next
  fix s :: "'a ValueStore" and i j
  assume "store_ok L s" "i < length (contents s)" "j < length (contents s)" "id_of s i = id_of s j"
  then show "i = j" by (intro id_of_inj [of s i j]) (auto simp: store_ok_def)
qed (rule ValueStore_Get_spec)


section \<open>Properties\<close>

text \<open>
  C24. A store of any layout behaves as a list: \<open>Add\<close> passes all its checks, appends the value
  and returns an id from which \<open>Get\<close> reads it; every id handed out before still reads the
  same value and is different from the new one.
\<close>

theorem value_store_add_get:
  assumes "store_ok L s" "vs_size s < 2 ^ 30"
  shows "\<exists>new_id s'. ValueStore_Add L v s = Ret (new_id, s') \<and> store_ok L s'
    \<and> contents s' = contents s @ [v]
    \<and> ValueStore_Get L s' new_id = Ret v
    \<and> (\<forall>i < length (contents s). new_id \<noteq> id_of s i
         \<and> ValueStore_Get L s' (id_of s i) = ValueStore_Get L s (id_of s i))"
proof -
  obtain s' where a: "ValueStore_Add L v s = Ret (id_of s (length (contents s)), s')"
    "contents s' = contents s @ [v]" using ValueStore_Add_spec [OF assms] by blast
  from vs_store.get_after_add [OF assms a(1)] a show ?thesis by blast
qed

text \<open>
  \<open>Resize\<close> and \<open>Reserve\<close> keep the store well formed and all ids valid: \<open>Resize\<close> passes
  its checks on every combination of partial, full and final chunks and appends exactly the
  missing default values, and \<open>Reserve\<close> changes no value.
\<close>

theorem value_store_grow:
  assumes "store_ok L s" "n \<le> 2 ^ 30"
  shows "\<exists>s'. ValueStore_Resize L n d s = Ret s' \<and> store_ok L s'
    \<and> contents s' = contents s @ replicate (n - length (contents s)) d
    \<and> store_ok L (ValueStore_Reserve L n s) \<and> contents (ValueStore_Reserve L n s) = contents s
    \<and> id_of s' = id_of s \<and> id_of (ValueStore_Reserve L n s) = id_of s"
  using ValueStore_Resize_spec [OF assms, of d] ValueStore_Reserve_spec [OF assms(1), of n]
  by (auto simp: id_of_def fun_eq_iff)

text \<open>
  The ranges over a store enumerate each id once, in order, with its value; and
  \<open>GetWithDefault\<close> reads the same values, falling back to the default beyond the end.
\<close>

theorem value_store_ranges:
  assumes "store_ok L s"
  shows "ValueStore_enumerate L s = Ret (zip (map (id_of s) [0..<length (contents s)]) (contents s))
    \<and> ValueStore_values L s = Ret (contents s)
    \<and> ValueStore_ids s = Ret (map (id_of s) [0..<length (contents s)])
    \<and> distinct (map (id_of s) [0..<length (contents s)])
    \<and> (\<forall>i < 2 ^ 30. GetWithDefault L s (id_of s i) d
         = Ret (if i < length (contents s) then contents s ! i else d))"
proof -
  have "distinct (map (id_of s) [0..<length (contents s)])"
    using assms by (auto simp: distinct_map inj_on_def store_ok_def intro: id_of_inj)
  with ValueStore_enumerate_spec [OF assms] GetWithDefault_spec [OF assms] show ?thesis by blast
qed

section \<open>Witnesses\<close>

definition example_layout :: store_layout where
  "example_layout = \<lparr>debug_build = True, value_size = 4\<rparr>"

definition example_store :: "nat ValueStore" where
  "example_store = ValueStore_empty (MakeIdTag 3 1)"

lemma example_ok: "store_ok example_layout example_store"
  unfolding example_store_def
  by (rule store_ok_empty) (simp_all add: layout_ok_def example_layout_def tag_ok_Make)

lemma value_store_add_get_witness:
  "\<exists>new_id s'. ValueStore_Add example_layout 7 example_store = Ret (new_id, s')
    \<and> ValueStore_Get example_layout s' new_id = Ret 7"
  using value_store_add_get [OF example_ok, of 7] by (auto simp: example_store_def ValueStore_empty_def)

lemma value_store_grow_witness:
  "\<exists>s'. ValueStore_Resize example_layout 9 5 example_store = Ret s' \<and> contents s' = replicate 9 5"
proof -
  have "contents example_store = []" by (simp add: example_store_def ValueStore_empty_def contents_def)
  with value_store_grow [OF example_ok, of 9 5] show ?thesis by auto
qed

lemma value_store_ranges_witness:
  "ValueStore_values example_layout example_store = Ret (contents example_store)"
  using value_store_ranges [OF example_ok] by blast

end
