(* ===== verification/Canonical_Store.thy ===== *)
theory Canonical_Store
  imports Value_Store
begin

text \<open>
  \<open>CanonicalValueStore\<close>: \<open>toolchain/base/canonical_value_store.h\<close>, a value store with
  deduplication by key. \<open>key\<close> is \<open>GetAsKey\<close>; the translating key context compares the keys of
  the values that ids name.

  The hash set of ids is modelled at its interface (\<open>common/set.h\<close>): the ids it holds, with
  lookup by translated key. The probing and growth of the table are not part of this theory.

  The locale \<open>canonical_store\<close> is the contract for clients: one id per key.
\<close>

section \<open>The set of ids\<close>

fun Set_Lookup :: "('i \<Rightarrow> 'k outcome) \<Rightarrow> 'i list \<Rightarrow> 'k \<Rightarrow> 'i option outcome" where
  "Set_Lookup translate [] k = Ret None"
| "Set_Lookup translate (x # xs) k =
     bind_outcome (translate x) (\<lambda>kx. if kx = k then Ret (Some x) else Set_Lookup translate xs k)"

section \<open>The store\<close>

record 'v CanonicalValueStore =
  cs_values :: "'v ValueStore"
  cs_set :: "32 word list"

definition Canonical_empty :: "IdTag \<Rightarrow> 'v CanonicalValueStore" where
  "Canonical_empty tag = \<lparr>cs_values = ValueStore_empty tag, cs_set = []\<rparr>"

definition TranslateKey :: "store_layout \<Rightarrow> ('v \<Rightarrow> 'k) \<Rightarrow> 'v ValueStore \<Rightarrow> 32 word \<Rightarrow> 'k outcome" where
  "TranslateKey L key vs tid = bind_outcome (ValueStore_Get L vs tid) (\<lambda>v. Ret (key v))"

definition Canonical_Add ::
    "store_layout \<Rightarrow> ('v \<Rightarrow> 'k) \<Rightarrow> 'v \<Rightarrow> 'v CanonicalValueStore \<Rightarrow>
     (32 word \<times> 'v CanonicalValueStore) outcome" where
  "Canonical_Add L key v c =
     bind_outcome (Set_Lookup (TranslateKey L key (cs_values c)) (cs_set c) (key v)) (\<lambda>found.
       case found of
         Some tid \<Rightarrow> Ret (tid, c)
       | None \<Rightarrow> bind_outcome (ValueStore_Add L v (cs_values c)) (\<lambda>(tid, vs).
           Ret (tid, c\<lparr>cs_values := vs, cs_set := cs_set c @ [tid]\<rparr>)))"

definition Canonical_Update ::
    "store_layout \<Rightarrow> ('v \<Rightarrow> 'k) \<Rightarrow> 32 word \<Rightarrow> 'v \<Rightarrow> 'v CanonicalValueStore \<Rightarrow>
     'v CanonicalValueStore outcome" where
  "Canonical_Update L key tid v c =
     bind_outcome (ValueStore_Get L (cs_values c) tid) (\<lambda>storage.
       carbon_check (key v = key storage)
         (bind_outcome (ValueStore_Set L (cs_values c) tid v) (\<lambda>vs. Ret (c\<lparr>cs_values := vs\<rparr>))))"

definition Canonical_Get :: "store_layout \<Rightarrow> 'v CanonicalValueStore \<Rightarrow> 32 word \<Rightarrow> 'v outcome" where
  "Canonical_Get L c tid = ValueStore_Get L (cs_values c) tid"

definition Canonical_Lookup ::
    "store_layout \<Rightarrow> ('v \<Rightarrow> 'k) \<Rightarrow> 32 word \<Rightarrow> 'v CanonicalValueStore \<Rightarrow> 'k \<Rightarrow> 32 word outcome" where
  "Canonical_Lookup L key none c k =
     bind_outcome (Set_Lookup (TranslateKey L key (cs_values c)) (cs_set c) k) (\<lambda>found.
       Ret (case found of Some tid \<Rightarrow> tid | None \<Rightarrow> none))"

definition Canonical_Reserve :: "store_layout \<Rightarrow> nat \<Rightarrow> 'v CanonicalValueStore \<Rightarrow> 'v CanonicalValueStore" where
  "Canonical_Reserve L n c = c\<lparr>cs_values := ValueStore_Reserve L n (cs_values c)\<rparr>"

section \<open>Lookup by key over an id store\<close>

context id_store
begin

lemma Set_Lookup_ids:
  assumes "ok s" "n \<le> length (vals s)"
  shows "Set_Lookup (\<lambda>i. bind_outcome (get s i) (\<lambda>v. Ret (key v))) (map (ident s) [m..<n]) k
    = Ret (map_option (\<lambda>i. ident s (m + i)) (find_if (\<lambda>v. key v = k) (take (n - m) (drop m (vals s)))))"
proof (induction "n - m" arbitrary: m)
  case 0
  then show ?case by simp
next
  case (Suc d)
  then have m: "m < n" by simp
  have "[m..<n] = m # [Suc m..<n]" using m by (simp add: upt_conv_Cons)
  moreover have "take (n - m) (drop m (vals s)) = vals s ! m # take (n - Suc m) (drop (Suc m) (vals s))"
    using m assms(2) by (simp add: Cons_nth_drop_Suc [symmetric] take_Cons' Suc_diff_Suc)
  moreover have "d = n - Suc m" using Suc.hyps(2) by simp
  ultimately show ?case
    using Suc.hyps(1) [of "Suc m"] get_law [OF assms(1), of m] m assms(2)
    by (simp add: option.map_comp comp_def)
qed

end

section \<open>The contract of a canonical store\<close>

locale canonical_store =
  fixes add :: "'v \<Rightarrow> 's \<Rightarrow> ('i \<times> 's) outcome"
    and lookup :: "'s \<Rightarrow> 'k \<Rightarrow> 'i outcome"
    and get :: "'s \<Rightarrow> 'i \<Rightarrow> 'v outcome"
    and key :: "'v \<Rightarrow> 'k"
    and none :: 'i
    and vals :: "'s \<Rightarrow> 'v list"
    and ok :: "'s \<Rightarrow> bool"
    and room :: "'s \<Rightarrow> bool"
    and ident :: "'s \<Rightarrow> nat \<Rightarrow> 'i"
  assumes add_found: "ok s \<Longrightarrow> i < length (vals s) \<Longrightarrow> key (vals s ! i) = key v \<Longrightarrow>
      add v s = Ret (ident s i, s)"
    and add_new: "ok s \<Longrightarrow> room s \<Longrightarrow> key v \<notin> key ` set (vals s) \<Longrightarrow>
      \<exists>s'. add v s = Ret (ident s (length (vals s)), s') \<and> ok s' \<and> vals s' = vals s @ [v]
        \<and> ident s' = ident s"
    and lookup_found: "ok s \<Longrightarrow> i < length (vals s) \<Longrightarrow> lookup s (key (vals s ! i)) = Ret (ident s i)"
    and lookup_none: "ok s \<Longrightarrow> k \<notin> key ` set (vals s) \<Longrightarrow> lookup s k = Ret none"
    and get_law: "ok s \<Longrightarrow> i < length (vals s) \<Longrightarrow> get s (ident s i) = Ret (vals s ! i)"
    and distinct_keys: "ok s \<Longrightarrow> distinct (map key (vals s))"
begin

text \<open>Adding a value: the new state has a place with the value's key, and older places stay.\<close>

lemma add_place:
  assumes "ok s" "room s"
  obtains s' i where "add v s = Ret (ident s i, s')" "ok s'" "i < length (vals s')"
    "key (vals s' ! i) = key v" "\<exists>new. vals s' = vals s @ new \<and> set new \<subseteq> {v}" "ident s' = ident s"
proof (cases "key v \<in> key ` set (vals s)")
  case True
  then obtain i where i: "i < length (vals s)" "key (vals s ! i) = key v"
    by (auto simp: in_set_conv_nth)
  from add_found [OF assms(1) this] i assms(1) show thesis by (intro that [of i s]) auto
next
  case False
  from add_new [OF assms False] obtain s' where
    "add v s = Ret (ident s (length (vals s)), s')" "ok s'" "vals s' = vals s @ [v]" "ident s' = ident s"
    by blast
  then show thesis by (intro that [of "length (vals s)" s']) auto
qed

lemma add_get_lookup:
  assumes "ok s" "room s" "add v s = Ret (new_id, s')"
  shows "ok s'" "\<exists>w. get s' new_id = Ret w \<and> key w = key v" "lookup s' (key v) = Ret new_id"
    "add v s' = Ret (new_id, s')"
proof -
  obtain i where i: "new_id = ident s i" "ok s'" "i < length (vals s')" "key (vals s' ! i) = key v"
    "ident s' = ident s"
    using add_place [OF assms(1,2), of v] assms(3) by (metis Pair_inject outcome.inject)
  then show "ok s'" "\<exists>w. get s' new_id = Ret w \<and> key w = key v"
    using get_law [of s' i] by auto
  show "lookup s' (key v) = Ret new_id" "add v s' = Ret (new_id, s')"
    using lookup_found [OF i(2,3)] add_found [OF i(2-4)] i by simp_all
qed

end

section \<open>The store meets the contract\<close>

definition canon_ok :: "store_layout \<Rightarrow> ('v \<Rightarrow> 'k) \<Rightarrow> 'v CanonicalValueStore \<Rightarrow> bool" where
  "canon_ok L key c \<longleftrightarrow> store_ok L (cs_values c)
     \<and> cs_set c = map (id_of (cs_values c)) [0..<length (contents (cs_values c))]
     \<and> distinct (map key (contents (cs_values c)))"

abbreviation canon_vals :: "'v CanonicalValueStore \<Rightarrow> 'v list" where
  "canon_vals c \<equiv> contents (cs_values c)"

lemma canon_ok_empty: "layout_ok L \<Longrightarrow> tag_ok t \<Longrightarrow> canon_ok L key (Canonical_empty t)"
  using store_ok_empty [of L t]
  by (simp add: canon_ok_def Canonical_empty_def) (simp add: ValueStore_empty_def contents_def)

lemma canon_lookup:
  assumes "canon_ok L key c"
  shows "Set_Lookup (TranslateKey L key (cs_values c)) (cs_set c) k
    = Ret (map_option (id_of (cs_values c)) (find_if (\<lambda>v. key v = k) (canon_vals c)))"
  using vs_store.Set_Lookup_ids [of L "cs_values c" "length (canon_vals c)" key 0 k] assms
  by (simp add: canon_ok_def TranslateKey_def [abs_def])

lemma find_if_key:
  assumes "distinct (map key xs)" "i < length xs"
  shows "find_if (\<lambda>v. key v = key (xs ! i)) xs = Some i"
proof (cases "find_if (\<lambda>v. key v = key (xs ! i)) xs")
  case None
  then show ?thesis using assms(2) nth_mem by (fastforce simp: find_if_None)
next
  case (Some j)
  from find_if_Some [OF this] have "j < length xs" "map key xs ! j = map key xs ! i"
    using assms(2) by auto
  then show ?thesis using Some assms by (simp add: nth_eq_iff_index_eq del: nth_map)
qed

lemma find_if_no_key: "k \<notin> key ` set xs \<Longrightarrow> find_if (\<lambda>v. key v = k) xs = None"
  by (auto simp: find_if_None)

interpretation canon: canonical_store "Canonical_Add L key" "Canonical_Lookup L key none" "Canonical_Get L"
  key none canon_vals "canon_ok L key" "\<lambda>c. vs_size (cs_values c) < 2 ^ 30" "\<lambda>c. id_of (cs_values c)"
  for L key none
proof
  fix c :: "'a CanonicalValueStore" and i v
  assume ok: "canon_ok L key c" and i: "i < length (canon_vals c)"
  then have d: "distinct (map key (canon_vals c))" "store_ok L (cs_values c)" by (simp_all add: canon_ok_def)
  show "Canonical_Get L c (id_of (cs_values c) i) = Ret (canon_vals c ! i)"
    unfolding Canonical_Get_def by (rule ValueStore_Get_spec [OF d(2) i])
  show "Canonical_Lookup L key none c (key (canon_vals c ! i)) = Ret (id_of (cs_values c) i)"
    using find_if_key [OF d(1) i] by (simp add: Canonical_Lookup_def canon_lookup [OF ok])
  assume "key (canon_vals c ! i) = key v"
  then show "Canonical_Add L key v c = Ret (id_of (cs_values c) i, c)"
    using find_if_key [OF d(1) i] by (simp add: Canonical_Add_def canon_lookup [OF ok])
next
  fix c :: "'a CanonicalValueStore" and v
  assume ok: "canon_ok L key c" and room: "vs_size (cs_values c) < 2 ^ 30"
    and new: "key v \<notin> key ` set (canon_vals c)"
  from ok have s: "store_ok L (cs_values c)" by (simp add: canon_ok_def)
  from ValueStore_Add_spec [OF s room, of v] obtain vs where vs:
    "ValueStore_Add L v (cs_values c) = Ret (id_of (cs_values c) (length (canon_vals c)), vs)"
    "store_ok L vs" "contents vs = canon_vals c @ [v]" "vs_tag vs = vs_tag (cs_values c)" by blast
  have ids: "id_of vs = id_of (cs_values c)" using vs(4) by (simp add: id_of_def fun_eq_iff)
  let ?c = "c\<lparr>cs_values := vs, cs_set := cs_set c @ [id_of (cs_values c) (length (canon_vals c))]\<rparr>"
  have "Canonical_Add L key v c = Ret (id_of (cs_values c) (length (canon_vals c)), ?c)"
    using find_if_no_key [OF new] vs(1) by (simp add: Canonical_Add_def canon_lookup [OF ok])
  moreover have "canon_ok L key ?c" using ok vs ids new by (simp add: canon_ok_def)
  ultimately show "\<exists>s'. Canonical_Add L key v c = Ret (id_of (cs_values c) (length (canon_vals c)), s')
      \<and> canon_ok L key s' \<and> canon_vals s' = canon_vals c @ [v] \<and> id_of (cs_values s') = id_of (cs_values c)"
    using vs ids by auto
next
  fix c :: "'a CanonicalValueStore" and k
  assume "canon_ok L key c" "k \<notin> key ` set (canon_vals c)"
  then show "Canonical_Lookup L key none c k = Ret none"
    by (simp add: Canonical_Lookup_def canon_lookup find_if_no_key)
qed (simp add: canon_ok_def)


lemma canon_Update:
  assumes "canon_ok L key c" "i < length (canon_vals c)" "key v = key (canon_vals c ! i)"
  shows "\<exists>c'. Canonical_Update L key (id_of (cs_values c) i) v c = Ret c' \<and> canon_ok L key c'
    \<and> canon_vals c' = (canon_vals c)[i := v]"
proof -
  have s: "store_ok L (cs_values c)" using assms(1) by (simp add: canon_ok_def)
  obtain vs where vs: "ValueStore_Set L (cs_values c) (id_of (cs_values c) i) v = Ret vs" "store_ok L vs"
    "contents vs = (canon_vals c)[i := v]" "vs_tag vs = vs_tag (cs_values c)"
    using ValueStore_Set_spec [OF s assms(2)] by blast
  have ids: "id_of vs = id_of (cs_values c)" using vs(4) by (simp add: id_of_def fun_eq_iff)
  have "map key ((canon_vals c)[i := v]) = map key (canon_vals c)"
    using assms(2,3) by (simp add: map_update list_update_same_conv)
  with assms vs ids ValueStore_Get_spec [OF s assms(2)] show ?thesis
    by (simp add: Canonical_Update_def canon_ok_def)
qed

section \<open>Properties\<close>

text \<open>
  C25. Adding to a canonical store passes all checks and returns an id that reads back a value
  with the added key, is what \<open>Lookup\<close> returns for the key, and is returned again, with the
  store unchanged, when the value is added once more.
\<close>

theorem canonical_add:
  assumes "canon_ok L key c" "vs_size (cs_values c) < 2 ^ 30"
  shows "\<exists>new_id c'. Canonical_Add L key v c = Ret (new_id, c') \<and> canon_ok L key c'
    \<and> (\<exists>w. Canonical_Get L c' new_id = Ret w \<and> key w = key v)
    \<and> Canonical_Lookup L key none c' (key v) = Ret new_id
    \<and> Canonical_Add L key v c' = Ret (new_id, c')"
proof -
  obtain new_id c' where "Canonical_Add L key v c = Ret (new_id, c')"
    using canon.add_place [OF assms] by metis
  with canon.add_get_lookup [OF assms this] show ?thesis by blast
qed

text \<open>
  One id per key: two values added one after the other get the same id exactly when their
  keys are equal.
\<close>

theorem canonical_one_id_per_key:
  assumes "canon_ok L key c" "vs_size (cs_values c) < 2 ^ 30"
    "Canonical_Add L key v c = Ret (id1, c1)" "vs_size (cs_values c1) < 2 ^ 30"
    "Canonical_Add L key w c1 = Ret (id2, c2)"
  shows "id1 = id2 \<longleftrightarrow> key v = key w"
proof
  have c1: "canon_ok L key c1" using canon.add_get_lookup(1) [OF assms(1-3)] .
  obtain i where i: "id1 = id_of (cs_values c) i" "i < length (canon_vals c1)"
    "key (canon_vals c1 ! i) = key v" "id_of (cs_values c1) = id_of (cs_values c)"
    using canon.add_place [OF assms(1,2), of v] assms(3) by (metis Pair_inject outcome.inject)
  show "key v = key w" if "id1 = id2"
  proof -
    obtain j new where j: "id2 = id_of (cs_values c1) j" "j < length (canon_vals c2)"
      "key (canon_vals c2 ! j) = key w" "canon_vals c2 = canon_vals c1 @ new" "canon_ok L key c2"
      using canon.add_place [OF c1 assms(4), of w] assms(5) by (metis Pair_inject outcome.inject)
    have "length (canon_vals c2) \<le> 2 ^ 30" "tag_ok (vs_tag (cs_values c1))"
      using j(5) c1 by (auto simp: canon_ok_def store_ok_def)
    then have "i = j" using that i j by (intro id_of_inj [of "cs_values c1" i j]) auto
    with i j show ?thesis by (simp add: nth_append)
  qed
  show "id1 = id2" if "key v = key w"
    using canon.add_found [OF c1 i(2)] i that assms(5) by simp
qed

text \<open>
  \<open>Update\<close> replaces the value of an id in place when the keys agree, keeping the store
  well formed, and fails its check when they do not.
\<close>

theorem canonical_update:
  assumes "canon_ok L key c" "i < length (canon_vals c)"
  shows "if key v = key (canon_vals c ! i)
     then \<exists>c'. Canonical_Update L key (id_of (cs_values c) i) v c = Ret c' \<and> canon_ok L key c'
       \<and> canon_vals c' = (canon_vals c)[i := v]
     else Canonical_Update L key (id_of (cs_values c) i) v c = Fatal"
proof (cases "key v = key (canon_vals c ! i)")
  case True
  with canon_Update [OF assms True] show ?thesis by simp
next
  case False
  have "store_ok L (cs_values c)" using assms(1) by (simp add: canon_ok_def)
  with False assms(2) show ?thesis
    by (simp add: Canonical_Update_def ValueStore_Get_spec carbon_check_def)
qed

section \<open>Witnesses\<close>

definition example_canon :: "nat CanonicalValueStore" where
  "example_canon = Canonical_empty untagged"

lemma example_canon_ok: "canon_ok example_layout (\<lambda>n. n) example_canon"
  unfolding example_canon_def
  by (rule canon_ok_empty) (simp_all add: layout_ok_def example_layout_def tag_ok_def untagged_def)

lemma example_canon_size: "vs_size (cs_values example_canon) < 2 ^ 30"
  by (simp add: example_canon_def Canonical_empty_def ValueStore_empty_def)

lemma canonical_add_witness:
  "\<exists>new_id c'. Canonical_Add example_layout (\<lambda>n. n) 7 example_canon = Ret (new_id, c')
     \<and> Canonical_Lookup example_layout (\<lambda>n. n) 99 c' 7 = Ret new_id"
  using canonical_add [OF example_canon_ok example_canon_size, of 7 99] by blast

lemma example_layout_ok: "layout_ok example_layout"
  by (simp add: layout_ok_def example_layout_def)

lemma example_layout_capacity: "Capacity example_layout = 4"
  by code_simp

text \<open>The store after adding 7: one chunk, id 0.\<close>

definition example_canon1 :: "nat CanonicalValueStore" where
  "example_canon1 = \<lparr>cs_values = \<lparr>vs_size = 1, vs_tag = untagged, vs_chunks = [[7]]\<rparr>, cs_set = [0]\<rparr>"

definition example_canon2 :: "nat CanonicalValueStore" where
  "example_canon2 = \<lparr>cs_values = \<lparr>vs_size = 2, vs_tag = untagged, vs_chunks = [[7, 8]]\<rparr>, cs_set = [0, 1]\<rparr>"

lemma example_adds:
  "Canonical_Add example_layout (\<lambda>n. n) 7 example_canon = Ret (0, example_canon1)"
  "Canonical_Add example_layout (\<lambda>n. n) 8 example_canon1 = Ret (1, example_canon2)"
  by (simp_all add: example_canon_def example_canon1_def example_canon2_def Canonical_Add_def
      Canonical_empty_def ValueStore_empty_def ValueStore_Add_def RawIndexToChunkIndices_eq example_layout_ok
      example_layout_capacity TranslateKey_def ValueStore_Get_def GetRawIndex_def Chunk_Add_def Chunk_Get_def
      Apply_def Remove_def HasTag_iff untagged_def carbon_check_def)

lemma canonical_one_id_per_key_witness: "(0::32 word) = 1 \<longleftrightarrow> (7::nat) = 8"
  by (rule canonical_one_id_per_key [OF example_canon_ok example_canon_size example_adds(1) _ example_adds(2)])
    (simp add: example_canon1_def)

end
