(* ===== verification/Int_Store.thy ===== *)
theory Int_Store
  imports Canonical_Store APInt_Interface
begin

text \<open>
  Canonical integers: \<open>toolchain/base/int.h\<close> and \<open>int.cpp\<close>.

  An \<open>IntId\<close> is 32 bits: small values are embedded in the id, larger ones are an index into a
  canonical store of \<open>APInt\<close>s, counted downwards from \<open>ZeroIndexId\<close>. \<open>APInt\<close> is a parameter
  (\<open>APInt_Interface\<close>); two of them are equal keys when width and value agree. An \<open>int64_t\<close>
  argument is an integer within its range.

  The lemmas show that ids and mathematical values correspond one to one whatever the width
  or signedness an integer was added with, and that token payloads round trip.
\<close>

section \<open>Ids\<close>

type_synonym IntId = "32 word"

definition TokenIdBits :: nat where
  "TokenIdBits = 23"

definition TokenIdBitsShift :: nat where
  "TokenIdBitsShift = 32 - TokenIdBits"

definition MaxValue :: IntId where
  "MaxValue = signed_drop_bit TokenIdBitsShift 0x7FFFFFFF"

definition ZeroIndexId :: IntId where
  "ZeroIndexId = signed_drop_bit (TokenIdBitsShift + 1) 0x80000000"

definition MinValue :: IntId where
  "MinValue = ZeroIndexId + 1"

definition NoneId :: IntId where
  "NoneId = 0x80000000"

definition MakeFromTokenPayload :: "32 word \<Rightarrow> IntId" where
  "MakeFromTokenPayload payload = signed_drop_bit TokenIdBitsShift (push_bit TokenIdBitsShift payload)"

definition is_embedded_value :: "IntId \<Rightarrow> bool" where
  "is_embedded_value i \<longleftrightarrow> sint ZeroIndexId < sint i"

definition is_index :: "IntId \<Rightarrow> bool" where
  "is_index i \<longleftrightarrow> sint i \<le> sint ZeroIndexId"

definition IntId_has_value :: "IntId \<Rightarrow> bool" where
  "IntId_has_value i \<longleftrightarrow> i \<noteq> NoneId"

definition AsValue :: "IntId \<Rightarrow> int outcome" where
  "AsValue i = carbon_check (is_embedded_value i) (Ret (sint i))"

definition AsIndex :: "IntId \<Rightarrow> 32 word outcome" where
  "AsIndex i = carbon_check (is_index i) (Ret (ZeroIndexId - i))"

definition AsTokenPayload :: "IntId \<Rightarrow> 32 word outcome" where
  "AsTokenPayload i = carbon_check (i = MakeFromTokenPayload i) (Ret i)"

text \<open>\<open>None.AsIndex()\<close>, which is also the \<open>None\<close> of \<open>APIntId\<close>.\<close>

definition IntId_NoneIndex :: "32 word" where
  "IntId_NoneIndex = ZeroIndexId - NoneId"

section \<open>The store\<close>

record 'a IntStore =
  is_values :: "'a CanonicalValueStore"

definition IntStore_MinAPWidth :: nat where
  "IntStore_MinAPWidth = 64"

definition CanonicalBitWidth :: "nat \<Rightarrow> nat" where
  "CanonicalBitWidth significant_bits =
     max IntStore_MinAPWidth ((significant_bits + 64 - 1) div 64 * 64)"

definition CanonicalizeSigned :: "'a apint_ops \<Rightarrow> 'a \<Rightarrow> 'a" where
  "CanonicalizeSigned A x = ap_sext_or_trunc A (CanonicalBitWidth (ap_significant_bits A x)) x"

definition CanonicalizeUnsigned :: "'a apint_ops \<Rightarrow> 'a \<Rightarrow> 'a" where
  "CanonicalizeUnsigned A x = ap_zext_or_trunc A (CanonicalBitWidth (ap_active_bits A x + 1)) x"

definition MakeIndexOrNone :: "32 word \<Rightarrow> IntId outcome" where
  "MakeIndexOrNone index =
     carbon_check (0 \<le> sint index \<and> sint index \<le> sint IntId_NoneIndex) (Ret (ZeroIndexId - index))"

definition TryMakeValue :: "int \<Rightarrow> IntId" where
  "TryMakeValue v =
     (if sint MinValue \<le> v \<and> v \<le> sint MaxValue then word_of_int v else NoneId)"

definition TryMakeSignedValue :: "'a apint_ops \<Rightarrow> 'a \<Rightarrow> IntId" where
  "TryMakeSignedValue A x =
     (if ap_sge A x (sint MinValue) \<and> ap_sle A x (sint MaxValue)
      then word_of_int (ap_sext_value A x) else NoneId)"

definition TryMakeUnsignedValue :: "'a apint_ops \<Rightarrow> 'a \<Rightarrow> IntId" where
  "TryMakeUnsignedValue A x =
     (if ap_ule A x (sint MaxValue) then word_of_int (ap_zext_value A x) else NoneId)"

text \<open>Adding a canonical \<open>APInt\<close> and looking one up, shared by the large cases.\<close>

definition add_ap :: "store_layout \<Rightarrow> 'a \<Rightarrow> 'a IntStore \<Rightarrow> (IntId \<times> 'a IntStore) outcome" where
  "add_ap L x s =
     bind_outcome (Canonical_Add L (\<lambda>x. x) x (is_values s)) (\<lambda>(ap_id, vs).
       bind_outcome (MakeIndexOrNone ap_id) (\<lambda>i. Ret (i, s\<lparr>is_values := vs\<rparr>)))"

definition lookup_ap :: "store_layout \<Rightarrow> 'a IntStore \<Rightarrow> 'a \<Rightarrow> IntId outcome" where
  "lookup_ap L s x =
     bind_outcome (Canonical_Lookup L (\<lambda>x. x) IntId_NoneIndex (is_values s) x) MakeIndexOrNone"

definition AddLarge :: "'a apint_ops \<Rightarrow> store_layout \<Rightarrow> int \<Rightarrow> 'a IntStore \<Rightarrow> (IntId \<times> 'a IntStore) outcome" where
  "AddLarge A L v s = add_ap L (ap_make A (CanonicalBitWidth 64) v) s"

definition AddSignedLarge :: "'a apint_ops \<Rightarrow> store_layout \<Rightarrow> 'a \<Rightarrow> 'a IntStore \<Rightarrow> (IntId \<times> 'a IntStore) outcome" where
  "AddSignedLarge A L x s = add_ap L (CanonicalizeSigned A x) s"

definition AddUnsignedLarge :: "'a apint_ops \<Rightarrow> store_layout \<Rightarrow> 'a \<Rightarrow> 'a IntStore \<Rightarrow> (IntId \<times> 'a IntStore) outcome" where
  "AddUnsignedLarge A L x s = add_ap L (CanonicalizeUnsigned A x) s"

definition LookupLarge :: "'a apint_ops \<Rightarrow> store_layout \<Rightarrow> 'a IntStore \<Rightarrow> int \<Rightarrow> IntId outcome" where
  "LookupLarge A L s v = lookup_ap L s (ap_make A (CanonicalBitWidth 64) v)"

definition LookupSignedLarge :: "'a apint_ops \<Rightarrow> store_layout \<Rightarrow> 'a IntStore \<Rightarrow> 'a \<Rightarrow> IntId outcome" where
  "LookupSignedLarge A L s x = lookup_ap L s (CanonicalizeSigned A x)"

definition IntStore_Add :: "'a apint_ops \<Rightarrow> store_layout \<Rightarrow> int \<Rightarrow> 'a IntStore \<Rightarrow> (IntId \<times> 'a IntStore) outcome" where
  "IntStore_Add A L v s =
     (let i = TryMakeValue v in if IntId_has_value i then Ret (i, s) else AddLarge A L v s)"

definition AddSigned :: "'a apint_ops \<Rightarrow> store_layout \<Rightarrow> 'a \<Rightarrow> 'a IntStore \<Rightarrow> (IntId \<times> 'a IntStore) outcome" where
  "AddSigned A L x s =
     (let i = TryMakeSignedValue A x in if IntId_has_value i then Ret (i, s) else AddSignedLarge A L x s)"

definition AddUnsigned :: "'a apint_ops \<Rightarrow> store_layout \<Rightarrow> 'a \<Rightarrow> 'a IntStore \<Rightarrow> (IntId \<times> 'a IntStore) outcome" where
  "AddUnsigned A L x s =
     (let i = TryMakeUnsignedValue A x in if IntId_has_value i then Ret (i, s) else AddUnsignedLarge A L x s)"

text \<open>An \<open>APSInt\<close> is an \<open>APInt\<close> with a signedness.\<close>

definition AddAPSInt :: "'a apint_ops \<Rightarrow> store_layout \<Rightarrow> bool \<times> 'a \<Rightarrow> 'a IntStore \<Rightarrow> (IntId \<times> 'a IntStore) outcome" where
  "AddAPSInt A L v s = (if fst v then AddSigned A L (snd v) s else AddUnsigned A L (snd v) s)"

definition IntStore_Get :: "'a apint_ops \<Rightarrow> store_layout \<Rightarrow> 'a IntStore \<Rightarrow> IntId \<Rightarrow> 'a outcome" where
  "IntStore_Get A L s i =
     (if is_embedded_value i
      then bind_outcome (AsValue i) (\<lambda>v. Ret (ap_make A IntStore_MinAPWidth v))
      else bind_outcome (AsIndex i) (\<lambda>index. Canonical_Get L (is_values s) index))"

text \<open>
  The width is an \<open>int\<close>, 32 bits, which \<open>sextOrTrunc\<close> reads as unsigned.
\<close>

definition GetAtWidth :: "'a apint_ops \<Rightarrow> store_layout \<Rightarrow> 'a IntStore \<Rightarrow> IntId \<Rightarrow> 32 word \<Rightarrow> 'a outcome" where
  "GetAtWidth A L s i width =
     bind_outcome (IntStore_Get A L s i) (\<lambda>x.
       Ret (if ap_width A x \<noteq> unat width then ap_sext_or_trunc A (unat width) x else x))"

text \<open>
  \<open>isStrictlyPositive\<close> is a signed comparison with 1, \<open>isSignedIntN(64)\<close> a bound on the bits; the \<open>int64_t\<close> that passes them is
  narrowed to the \<open>int\<close> of the call.
\<close>

definition GetAtWidthId :: "'a apint_ops \<Rightarrow> store_layout \<Rightarrow> 'a IntStore \<Rightarrow> IntId \<Rightarrow> IntId \<Rightarrow> 'a outcome" where
  "GetAtWidthId A L s i bit_width_id =
     bind_outcome (IntStore_Get A L s bit_width_id) (\<lambda>width.
       carbon_check (ap_sge A width 1 \<and> ap_significant_bits A width \<le> IntStore_MinAPWidth)
         (GetAtWidth A L s i (word_of_int (ap_sext_value A width))))"

definition IntStore_Lookup :: "'a apint_ops \<Rightarrow> store_layout \<Rightarrow> 'a IntStore \<Rightarrow> int \<Rightarrow> IntId outcome" where
  "IntStore_Lookup A L s v =
     (let i = TryMakeValue v in if IntId_has_value i then Ret i else LookupLarge A L s v)"

definition LookupSigned :: "'a apint_ops \<Rightarrow> store_layout \<Rightarrow> 'a IntStore \<Rightarrow> 'a \<Rightarrow> IntId outcome" where
  "LookupSigned A L s x =
     (let i = TryMakeSignedValue A x in if IntId_has_value i then Ret i else LookupSignedLarge A L s x)"

section \<open>The id space\<close>

lemma id_constants:
  "MaxValue = 0x3FFFFF" "ZeroIndexId = 0xFFE00000" "MinValue = 0xFFE00001"
  "IntId_NoneIndex = 0x7FE00000"
  "sint MaxValue = 2 ^ 22 - 1" "sint ZeroIndexId = - (2 ^ 21)" "sint MinValue = 1 - 2 ^ 21"
  "sint NoneId = - (2 ^ 31)" "sint IntId_NoneIndex = 2 ^ 31 - 2 ^ 21"
  by code_simp+

lemma sint_of_small_int:
  "- (2 ^ 31) \<le> v \<Longrightarrow> v < 2 ^ 31 \<Longrightarrow> sint (word_of_int v :: 32 word) = v"
  by (simp add: signed_of_int signed_take_bit_int_eq_self)

lemma index_id: "ZeroIndexId - word_of_nat k = word_of_int (- (2 ^ 21) - int k)"
proof -
  have "ZeroIndexId = word_of_int (- (2 ^ 21))" by (simp add: id_constants)
  then show ?thesis by (simp add: of_int_diff)
qed

lemma sint_index_id: "k < 2 ^ 30 \<Longrightarrow> sint (word_of_int (- (2 ^ 21) - int k) :: 32 word) = - (2 ^ 21) - int k"
  by (rule sint_of_small_int) auto

lemma AsIndex_index_id:
  assumes "k < 2 ^ 30"
  shows "AsIndex (word_of_int (- (2 ^ 21) - int k)) = Ret (word_of_nat k)"
    "\<not> is_embedded_value (word_of_int (- (2 ^ 21) - int k))"
proof -
  have "ZeroIndexId - (ZeroIndexId - word_of_nat k) = word_of_nat k" by simp
  then show "AsIndex (word_of_int (- (2 ^ 21) - int k)) = Ret (word_of_nat k)"
    using sint_index_id [OF assms] unfolding AsIndex_def is_index_def id_constants(6) index_id
    by (simp add: carbon_check_def)
  show "\<not> is_embedded_value (word_of_int (- (2 ^ 21) - int k))"
    using sint_index_id [OF assms] unfolding is_embedded_value_def id_constants(6) by simp
qed

lemma MakeIndexOrNone_index:
  assumes "k < 2 ^ 30"
  shows "MakeIndexOrNone (word_of_nat k) = Ret (word_of_int (- (2 ^ 21) - int k))"
proof -
  have "sint (word_of_nat k :: 32 word) = int k"
    using assms sint_of_small_int [of "int k"] by simp
  then show ?thesis
    using assms unfolding MakeIndexOrNone_def id_constants(9) index_id by (simp add: carbon_check_def)
qed

lemma MakeIndexOrNone_none: "MakeIndexOrNone IntId_NoneIndex = Ret NoneId"
proof -
  have "0 \<le> sint IntId_NoneIndex" unfolding id_constants(9) by simp
  then show ?thesis by (simp add: MakeIndexOrNone_def IntId_NoneIndex_def)
qed

section \<open>Canonical widths\<close>

lemma CanonicalBitWidth_bounds: "64 \<le> CanonicalBitWidth n" "n \<le> CanonicalBitWidth n"
proof -
  show "64 \<le> CanonicalBitWidth n" by (simp add: CanonicalBitWidth_def IntStore_MinAPWidth_def)
  have "n + 63 = (n + 63) div 64 * 64 + (n + 63) mod 64" by simp
  moreover have "(n + 63) mod 64 \<le> 63" by simp
  ultimately have "n \<le> (n + 63) div 64 * 64" by linarith
  then show "n \<le> CanonicalBitWidth n" by (simp add: CanonicalBitWidth_def)
qed

lemma CanonicalBitWidth_small: "n \<le> 64 \<Longrightarrow> CanonicalBitWidth n = 64"
proof -
  assume "n \<le> 64"
  then have "(n + 63) div 64 \<le> 1" by simp
  then have "(n + 63) div 64 * 64 \<le> 64" by simp
  then show ?thesis by (simp add: CanonicalBitWidth_def IntStore_MinAPWidth_def)
qed

text \<open>What is stored: integers outside the embedded range, at their canonical width.\<close>

definition large_canonical :: "'a apint_ops \<Rightarrow> ('a \<Rightarrow> int) \<Rightarrow> 'a \<Rightarrow> bool" where
  "large_canonical A uval x \<longleftrightarrow>
     ap_width A x = CanonicalBitWidth (ap_significant_bits A x)
     \<and> \<not> (- (2 ^ 21) < signed_val A uval x \<and> signed_val A uval x < 2 ^ 22)"

context apint
begin

lemma sig_bits: "0 < ap_width A x \<Longrightarrow> 0 < n \<Longrightarrow>
    ap_significant_bits A x \<le> n \<longleftrightarrow> - (2 ^ (n - 1)) \<le> sval x \<and> sval x < 2 ^ (n - 1)"
  using significant_bits [of x n] by (simp add: signed_val_def)

lemma sval_fits: "0 < ap_width A x \<Longrightarrow> - (2 ^ (ap_width A x - 1)) \<le> sval x \<and> sval x < 2 ^ (ap_width A x - 1)"
  using signed_of_range [of "ap_width A x" "uval x"] uval_range [of x] by (simp add: signed_val_def)

text \<open>The significant bits are determined by the mathematical value.\<close>

lemma sig_bits_eq:
  assumes "0 < ap_width A x" "0 < ap_width A y" "sval x = sval y"
  shows "ap_significant_bits A x = ap_significant_bits A y"
proof (rule antisym)
  show "ap_significant_bits A x \<le> ap_significant_bits A y"
    using sig_bits [OF assms(2), of "ap_significant_bits A y"] significant_bits_pos [OF assms(2)] assms
    by (simp add: sig_bits)
  show "ap_significant_bits A y \<le> ap_significant_bits A x"
    using sig_bits [OF assms(1), of "ap_significant_bits A x"] significant_bits_pos [OF assms(1)] assms
    by (simp add: sig_bits)
qed

lemma sval_mod_width: "uval x = sval x mod 2 ^ ap_width A x"
  using sval_mod [of x] by simp

lemma canonical_unique:
  assumes "ap_width A x = CanonicalBitWidth (ap_significant_bits A x)"
    "ap_width A y = CanonicalBitWidth (ap_significant_bits A y)" "sval x = sval y"
  shows "x = y"
proof -
  have "0 < ap_width A x" "0 < ap_width A y"
    using assms(1,2) CanonicalBitWidth_bounds(1) by (metis not_numeral_le_zero neq0_conv)+
  from sig_bits_eq [OF this assms(3)] have "ap_width A x = ap_width A y" using assms(1,2) by simp
  then show ?thesis using assms(3) sval_mod_width [of x] sval_mod_width [of y] by (intro value_unique) simp_all
qed

lemma fits_canonical:
  assumes "0 < n" "- (2 ^ (n - 1)) \<le> v" "v < 2 ^ (n - 1)"
  shows "- (2 ^ (CanonicalBitWidth n - 1)) \<le> (v::int) \<and> v < 2 ^ (CanonicalBitWidth n - 1)"
proof -
  have "n - 1 \<le> CanonicalBitWidth n - 1" using CanonicalBitWidth_bounds(2) [of n] by simp
  from pow2_mono [OF this] assms show ?thesis by linarith
qed

lemma wrap_value:
  assumes "0 < ap_width A y" "uval y = v mod 2 ^ ap_width A y"
    "- (2 ^ (ap_width A y - 1)) \<le> v" "v < 2 ^ (ap_width A y - 1)"
  shows "sval y = v"
  using signed_of_mod [OF assms(1,3,4)] assms(2) by (simp add: signed_val_def)

lemma CanonicalizeSigned_val:
  assumes "0 < ap_width A x"
  shows "sval (CanonicalizeSigned A x) = sval x"
    "ap_width A (CanonicalizeSigned A x) = CanonicalBitWidth (ap_significant_bits A (CanonicalizeSigned A x))"
proof -
  let ?n = "ap_significant_bits A x" and ?y = "CanonicalizeSigned A x"
  have w: "ap_width A ?y = CanonicalBitWidth ?n" by (simp add: CanonicalizeSigned_def sext_or_trunc)
  then have pos: "0 < ap_width A ?y" using CanonicalBitWidth_bounds(1) [of ?n] by simp
  have n: "0 < ?n" using significant_bits_pos [OF assms] .
  have "- (2 ^ (?n - 1)) \<le> sval x" "sval x < 2 ^ (?n - 1)" using sig_bits [OF assms n] by simp_all
  from fits_canonical [OF n this] w show v: "sval ?y = sval x"
    by (intro wrap_value [OF pos]) (simp_all add: CanonicalizeSigned_def sext_or_trunc signed_val_def)
  show "ap_width A ?y = CanonicalBitWidth (ap_significant_bits A ?y)"
    using sig_bits_eq [OF pos assms v] w by simp
qed

lemma CanonicalizeUnsigned_val:
  shows "sval (CanonicalizeUnsigned A x) = uval x"
    "ap_width A (CanonicalizeUnsigned A x) = CanonicalBitWidth (ap_significant_bits A (CanonicalizeUnsigned A x))"
proof -
  let ?n = "ap_active_bits A x + 1" and ?y = "CanonicalizeUnsigned A x"
  have w: "ap_width A ?y = CanonicalBitWidth ?n" by (simp add: CanonicalizeUnsigned_def zext_or_trunc)
  then have pos: "0 < ap_width A ?y" using CanonicalBitWidth_bounds(1) [of ?n] by simp
  have fits: "- (2 ^ (?n - 1)) \<le> uval x" "uval x < 2 ^ (?n - 1)"
    using active_bits [of x "ap_active_bits A x"] uval_range(1) [of x] by (simp_all add: order_trans)
  from fits_canonical [OF _ fits] w show v: "sval ?y = uval x"
    by (intro wrap_value [OF pos]) (simp_all add: CanonicalizeUnsigned_def zext_or_trunc)
  have "ap_significant_bits A ?y = ?n"
  proof (rule antisym)
    show "ap_significant_bits A ?y \<le> ?n" using sig_bits [OF pos, of ?n] fits v by simp
    let ?m = "ap_significant_bits A ?y"
    have m: "0 < ?m" using significant_bits_pos [OF pos] .
    then have "uval x < 2 ^ (?m - 1)" using sig_bits [OF pos m] v by simp
    then have "ap_active_bits A x \<le> ?m - 1" by (simp add: active_bits)
    then show "?n \<le> ?m" using m by simp
  qed
  with w show "ap_width A ?y = CanonicalBitWidth (ap_significant_bits A ?y)" by simp
qed

lemma make64_val:
  assumes "- (2 ^ 63) \<le> v" "v < 2 ^ 63"
  shows "sval (ap_make A 64 v) = v"
    "ap_width A (ap_make A 64 v) = CanonicalBitWidth (ap_significant_bits A (ap_make A 64 v))"
proof -
  let ?y = "ap_make A 64 v"
  have w: "ap_width A ?y = 64" by (simp add: make)
  show v: "sval ?y = v" using assms w by (intro wrap_value) (simp_all add: make)
  have "ap_significant_bits A ?y \<le> 64" using sig_bits [of ?y 64] w v assms by simp
  with w show "ap_width A ?y = CanonicalBitWidth (ap_significant_bits A ?y)"
    by (simp add: CanonicalBitWidth_small)
qed

end


section \<open>Ids and mathematical values\<close>

abbreviation large_ints :: "'a IntStore \<Rightarrow> 'a list" where
  "large_ints s \<equiv> canon_vals (is_values s)"

definition int_ok :: "'a apint_ops \<Rightarrow> ('a \<Rightarrow> int) \<Rightarrow> store_layout \<Rightarrow> 'a IntStore \<Rightarrow> bool" where
  "int_ok A uval L s \<longleftrightarrow> canon_ok L (\<lambda>x. x) (is_values s)
     \<and> (\<forall>k < 2 ^ 30. id_of (cs_values (is_values s)) k = word_of_nat k)
     \<and> (\<forall>x \<in> set (large_ints s). large_canonical A uval x)"

text \<open>There is room for another large integer.\<close>

definition int_room :: "'a IntStore \<Rightarrow> bool" where
  "int_room s \<longleftrightarrow> vs_size (cs_values (is_values s)) < 2 ^ 30"

text \<open>The ids that are in use: those of embedded values and those of stored integers.\<close>

definition valid_id :: "'a IntStore \<Rightarrow> IntId \<Rightarrow> bool" where
  "valid_id s i \<longleftrightarrow> (- (2 ^ 21) < sint i \<and> sint i < 2 ^ 22)
     \<or> (\<exists>k < length (large_ints s). i = word_of_int (- (2 ^ 21) - int k))"

text \<open>An id in use denotes the mathematical value of what \<open>Get\<close> returns for it.\<close>

definition denotes :: "'a apint_ops \<Rightarrow> ('a \<Rightarrow> int) \<Rightarrow> store_layout \<Rightarrow> 'a IntStore \<Rightarrow> IntId \<Rightarrow> int \<Rightarrow> bool" where
  "denotes A uval L s i v \<longleftrightarrow> valid_id s i
     \<and> (\<exists>x. IntStore_Get A L s i = Ret x \<and> signed_val A uval x = v)"

definition extends :: "'a IntStore \<Rightarrow> 'a IntStore \<Rightarrow> bool" where
  "extends s s' \<longleftrightarrow> (\<exists>new. large_ints s' = large_ints s @ new)"

lemma extends_refl [simp]: "extends s s"
  by (simp add: extends_def)

lemma int_ok_bound: "int_ok A uval L s \<Longrightarrow> length (large_ints s) \<le> 2 ^ 30"
  by (simp add: int_ok_def canon_ok_def store_ok_def)

lemma Get_index:
  assumes "int_ok A uval L s" "k < length (large_ints s)"
  shows "IntStore_Get A L s (word_of_int (- (2 ^ 21) - int k)) = Ret (large_ints s ! k)"
proof -
  have k: "k < 2 ^ 30" using assms int_ok_bound [OF assms(1)] by simp
  have "Canonical_Get L (is_values s) (word_of_nat k) = Ret (large_ints s ! k)"
    using canon.get_law [of L "\<lambda>x. x", OF _ assms(2)] assms(1) k by (simp add: int_ok_def)
  then show ?thesis by (simp only: IntStore_Get_def AsIndex_index_id [OF k] if_False bind_outcome.simps)
qed

context apint
begin

lemma denotes_embedded:
  assumes "- (2 ^ 21) < v" "v < 2 ^ 22"
  shows "denotes A uval L s (word_of_int v) v"
proof -
  have s: "sint (word_of_int v :: 32 word) = v" using assms by (intro sint_of_small_int) auto
  then have "is_embedded_value (word_of_int v)" using assms by (simp add: is_embedded_value_def id_constants)
  then have "IntStore_Get A L s (word_of_int v) = Ret (ap_make A 64 v)"
    using s by (simp add: IntStore_Get_def AsValue_def IntStore_MinAPWidth_def)
  moreover have "sval (ap_make A 64 v) = v" using assms by (intro make64_val) auto
  ultimately show ?thesis using s assms by (simp add: denotes_def valid_id_def)
qed

lemma denotes_index:
  assumes "int_ok A uval L s" "k < length (large_ints s)"
  shows "denotes A uval L s (word_of_int (- (2 ^ 21) - int k)) (sval (large_ints s ! k))"
  using Get_index [OF assms] assms(2) by (auto simp: denotes_def valid_id_def)

lemma denotes_cases:
  assumes "int_ok A uval L s" "denotes A uval L s i v"
  obtains (embedded) "- (2 ^ 21) < v" "v < 2 ^ 22" "i = word_of_int v"
  | (stored) k where "k < length (large_ints s)" "i = word_of_int (- (2 ^ 21) - int k)"
      "sval (large_ints s ! k) = v" "\<not> (- (2 ^ 21) < v \<and> v < 2 ^ 22)"
proof (cases "- (2 ^ 21) < sint i \<and> sint i < 2 ^ 22")
  case True
  then have "denotes A uval L s (word_of_int (sint i)) (sint i)" by (intro denotes_embedded) auto
  then have "v = sint i" using assms(2) by (auto simp: denotes_def)
  with True show thesis by (intro embedded) auto
next
  case False
  with assms(2) obtain k where k: "k < length (large_ints s)" "i = word_of_int (- (2 ^ 21) - int k)"
    by (auto simp: denotes_def valid_id_def)
  from Get_index [OF assms(1) k(1)] k assms(2) have v: "sval (large_ints s ! k) = v"
    by (auto simp: denotes_def)
  have "large_canonical A uval (large_ints s ! k)" using assms(1) k(1) by (simp add: int_ok_def)
  with k v show thesis by (intro stored) (auto simp: large_canonical_def)
qed

lemma denotes_inj:
  assumes "int_ok A uval L s" "denotes A uval L s i v" "denotes A uval L s j v"
  shows "i = j"
  using assms(1,2)
proof (cases rule: denotes_cases)
  case embedded
  from assms(1,3) show ?thesis by (cases rule: denotes_cases) (use embedded in auto)
next
  case (stored k)
  from assms(1,3) show ?thesis
  proof (cases rule: denotes_cases)
    case (stored l)
    have c: "large_canonical A uval (large_ints s ! k)" "large_canonical A uval (large_ints s ! l)"
      using assms(1) stored(1) \<open>k < length (large_ints s)\<close> by (auto simp: int_ok_def)
    then have "large_ints s ! k = large_ints s ! l"
      using \<open>sval (large_ints s ! k) = v\<close> stored(3)
      by (intro canonical_unique) (simp_all add: large_canonical_def)
    moreover have "distinct (large_ints s)" using assms(1) by (simp add: int_ok_def canon_ok_def)
    ultimately have "k = l" using stored(1) \<open>k < length (large_ints s)\<close> by (simp add: nth_eq_iff_index_eq)
    then show ?thesis using stored(2) \<open>i = _\<close> by simp
  qed (use stored in auto)
qed

lemma denotes_extends:
  assumes "int_ok A uval L s" "int_ok A uval L s'" "extends s s'" "denotes A uval L s i v"
  shows "denotes A uval L s' i v"
  using assms(1,4)
proof (cases rule: denotes_cases)
  case embedded
  then show ?thesis using denotes_embedded by simp
next
  case (stored k)
  obtain new where "large_ints s' = large_ints s @ new" using assms(3) by (auto simp: extends_def)
  with stored denotes_index [OF assms(2), of k] show ?thesis by (simp add: nth_append)
qed

lemma add_ap_denotes:
  assumes "int_ok A uval L s" "int_room s" "large_canonical A uval x"
  shows "\<exists>i s'. add_ap L x s = Ret (i, s') \<and> int_ok A uval L s' \<and> extends s s'
    \<and> denotes A uval L s' i (sval x)"
proof -
  let ?c = "is_values s"
  have ok: "canon_ok L (\<lambda>x. x) ?c" and ids: "\<And>k. k < 2 ^ 30 \<Longrightarrow> id_of (cs_values ?c) k = word_of_nat k"
    using assms(1) by (simp_all add: int_ok_def)
  obtain c' k where c': "Canonical_Add L (\<lambda>x. x) x ?c = Ret (id_of (cs_values ?c) k, c')"
    "canon_ok L (\<lambda>x. x) c'" "k < length (canon_vals c')" "canon_vals c' ! k = x"
    "\<exists>new. canon_vals c' = canon_vals ?c @ new \<and> set new \<subseteq> {x}"
    "id_of (cs_values c') = id_of (cs_values ?c)"
    using canon.add_place [OF ok assms(2)[unfolded int_room_def], of x] by metis
  let ?s = "s\<lparr>is_values := c'\<rparr>"
  have s': "int_ok A uval L ?s" using assms(1,3) c' ids by (auto simp: int_ok_def)
  have k: "k < 2 ^ 30" using int_ok_bound [OF s'] c'(3) by simp
  have "add_ap L x s = Ret (word_of_int (- (2 ^ 21) - int k), ?s)"
    unfolding add_ap_def c'(1) ids [OF k] by (simp only: bind_outcome.simps prod.case MakeIndexOrNone_index [OF k])
  moreover have "denotes A uval L ?s (word_of_int (- (2 ^ 21) - int k)) (sval x)"
    using denotes_index [OF s', of k] c'(3,4) by simp
  moreover have "extends s ?s" using c'(5) by (auto simp: extends_def)
  ultimately show ?thesis using s' by blast
qed

lemma lookup_ap_denotes:
  assumes "int_ok A uval L s" "large_canonical A uval x"
  shows "\<exists>i. lookup_ap L s x = Ret i
    \<and> (denotes A uval L s i (sval x) \<or> i = NoneId \<and> (\<forall>j. \<not> denotes A uval L s j (sval x)))"
proof (cases "x \<in> set (large_ints s)")
  case True
  then obtain k where k: "k < length (large_ints s)" "large_ints s ! k = x" by (auto simp: in_set_conv_nth)
  have b: "k < 2 ^ 30" using k(1) int_ok_bound [OF assms(1)] by simp
  have ok: "canon_ok L (\<lambda>x. x) (is_values s)" "id_of (cs_values (is_values s)) k = word_of_nat k"
    using assms(1) b by (simp_all add: int_ok_def)
  have "Canonical_Lookup L (\<lambda>x. x) IntId_NoneIndex (is_values s) x = Ret (word_of_nat k)"
    using canon.lookup_found [OF ok(1) k(1), of IntId_NoneIndex] k(2) ok(2) by simp
  then have "lookup_ap L s x = Ret (word_of_int (- (2 ^ 21) - int k))"
    unfolding lookup_ap_def by (simp only: bind_outcome.simps MakeIndexOrNone_index [OF b])
  then show ?thesis using denotes_index [OF assms(1) k(1)] k(2) by blast
next
  case False
  have ok: "canon_ok L (\<lambda>x. x) (is_values s)" using assms(1) by (simp add: int_ok_def)
  from canon.lookup_none [OF ok, of x IntId_NoneIndex] False
  have "lookup_ap L s x = Ret NoneId" by (simp add: lookup_ap_def MakeIndexOrNone_none)
  moreover have "\<not> denotes A uval L s j (sval x)" for j
  proof
    assume "denotes A uval L s j (sval x)"
    with assms(1) show False
    proof (cases rule: denotes_cases)
      case embedded
      with assms(2) show False by (simp add: large_canonical_def)
    next
      case (stored k)
      have "large_canonical A uval (large_ints s ! k)" using assms(1) stored(1) by (auto simp: int_ok_def)
      then have "large_ints s ! k = x"
        using stored(3) assms(2) by (intro canonical_unique) (simp_all add: large_canonical_def)
      with False stored(1) show False by auto
    qed
  qed
  ultimately show ?thesis by blast
qed


text \<open>Each way to add an integer, with the mathematical value it adds.\<close>

lemma try_value:
  "TryMakeValue v = (if - (2 ^ 21) < v \<and> v < 2 ^ 22 then word_of_int v else NoneId)"
  unfolding TryMakeValue_def id_constants by auto

lemma embedded_has_value: "- (2 ^ 21) < v \<Longrightarrow> v < 2 ^ 22 \<Longrightarrow> IntId_has_value (word_of_int v)"
proof -
  assume "- (2 ^ 21) < v" "v < 2 ^ 22"
  then have "sint (word_of_int v :: 32 word) = v" by (intro sint_of_small_int) auto
  with \<open>- (2 ^ 21) < v\<close> show ?thesis using id_constants(8) by (auto simp: IntId_has_value_def)
qed

lemma try_signed:
  assumes "0 < ap_width A x"
  shows "TryMakeSignedValue A x = TryMakeValue (sval x)"
proof -
  have "ap_sext_value A x = sval x" if "- (2 ^ 21) < sval x" "sval x < 2 ^ 22"
    using that sig_bits [OF assms, of 64] sext_value [OF assms] by (simp add: signed_val_def)
  then show ?thesis
    unfolding TryMakeSignedValue_def TryMakeValue_def id_constants
    using sge [OF assms] sle [OF assms] by (auto simp: signed_val_def)
qed

lemma try_unsigned: "TryMakeUnsignedValue A x = TryMakeValue (uval x)"
proof -
  have "ap_zext_value A x = uval x" if "uval x < 2 ^ 22"
    using that active_bits [of x 64] zext_value [of x] by simp
  moreover have "ap_ule A x (2 ^ 22 - 1) \<longleftrightarrow> uval x < 2 ^ 22" using ule [of "2 ^ 22 - 1" x] by auto
  ultimately show ?thesis
    unfolding TryMakeUnsignedValue_def TryMakeValue_def id_constants using uval_range(1) [of x] by auto
qed

text \<open>The common shape of the three ways to add, and of the two ways to look up.\<close>

lemma add_int_denotes:
  assumes "int_ok A uval L s" "int_room s"
    and "sval y = v" "ap_width A y = CanonicalBitWidth (ap_significant_bits A y)"
  shows "\<exists>i s'. (let i = TryMakeValue v in if IntId_has_value i then Ret (i, s) else add_ap L y s) = Ret (i, s')
    \<and> int_ok A uval L s' \<and> extends s s' \<and> denotes A uval L s' i v"
proof (cases "- (2 ^ 21) < v \<and> v < 2 ^ 22")
  case True
  with assms(1) show ?thesis
    using denotes_embedded [of v L s] embedded_has_value [of v] by (auto simp: try_value)
next
  case False
  with assms(3,4) have "large_canonical A uval y" by (simp add: large_canonical_def)
  moreover have "TryMakeValue v = NoneId" using False unfolding try_value by auto
  ultimately show ?thesis
    using add_ap_denotes [OF assms(1,2), of y] assms(3) by (simp add: IntId_has_value_def)
qed

lemma lookup_int_denotes:
  assumes "int_ok A uval L s"
    and "sval y = v" "ap_width A y = CanonicalBitWidth (ap_significant_bits A y)"
  shows "\<exists>i. (let i = TryMakeValue v in if IntId_has_value i then Ret i else lookup_ap L s y) = Ret i
    \<and> (denotes A uval L s i v \<or> i = NoneId \<and> (\<forall>j. \<not> denotes A uval L s j v))"
proof (cases "- (2 ^ 21) < v \<and> v < 2 ^ 22")
  case True
  with assms(1) show ?thesis
    using denotes_embedded [of v L s] embedded_has_value [of v] by (auto simp: try_value)
next
  case False
  with assms(2,3) have "large_canonical A uval y" by (simp add: large_canonical_def)
  moreover have "TryMakeValue v = NoneId" using False unfolding try_value by auto
  ultimately show ?thesis
    using lookup_ap_denotes [OF assms(1), of y] assms(2) by (simp add: IntId_has_value_def)
qed

end

text \<open>The arguments an integer can be added from, with its mathematical value.\<close>

datatype 'a int_source = FromInt64 int | FromSigned 'a | FromUnsigned 'a

fun source_value :: "'a apint_ops \<Rightarrow> ('a \<Rightarrow> int) \<Rightarrow> 'a int_source \<Rightarrow> int" where
  "source_value A uval (FromInt64 v) = v"
| "source_value A uval (FromSigned x) = signed_val A uval x"
| "source_value A uval (FromUnsigned x) = uval x"

fun source_ok :: "'a apint_ops \<Rightarrow> 'a int_source \<Rightarrow> bool" where
  "source_ok A (FromInt64 v) \<longleftrightarrow> - (2 ^ 63) \<le> v \<and> v < 2 ^ 63"
| "source_ok A (FromSigned x) \<longleftrightarrow> 0 < ap_width A x"
| "source_ok A (FromUnsigned x) \<longleftrightarrow> True"

fun add_source :: "'a apint_ops \<Rightarrow> store_layout \<Rightarrow> 'a int_source \<Rightarrow> 'a IntStore \<Rightarrow> (IntId \<times> 'a IntStore) outcome" where
  "add_source A L (FromInt64 v) s = IntStore_Add A L v s"
| "add_source A L (FromSigned x) s = AddAPSInt A L (True, x) s"
| "add_source A L (FromUnsigned x) s = AddAPSInt A L (False, x) s"

context apint
begin

lemma add_source_denotes:
  assumes "int_ok A uval L s" "int_room s" "source_ok A src"
  shows "\<exists>i s'. add_source A L src s = Ret (i, s') \<and> int_ok A uval L s' \<and> extends s s'
    \<and> denotes A uval L s' i (source_value A uval src)"
proof (cases src)
  case (FromInt64 v)
  then have v: "- (2 ^ 63) \<le> v" "v < 2 ^ 63" using assms(3) by auto
  show ?thesis
    unfolding FromInt64 add_source.simps source_value.simps IntStore_Add_def AddLarge_def
      CanonicalBitWidth_small [OF order_refl]
    by (rule add_int_denotes [OF assms(1,2) make64_val [OF v]])
next
  case (FromSigned x)
  then have x: "0 < ap_width A x" using assms(3) by simp
  have "add_source A L src s = (let i = TryMakeValue (sval x)
      in if IntId_has_value i then Ret (i, s) else add_ap L (CanonicalizeSigned A x) s)"
    unfolding FromSigned add_source.simps AddAPSInt_def AddSigned_def AddSignedLarge_def fst_conv snd_conv
    by (simp add: try_signed [OF x])
  with add_int_denotes [OF assms(1,2) CanonicalizeSigned_val [OF x]] show ?thesis
    unfolding FromSigned source_value.simps by metis
next
  case (FromUnsigned x)
  have "add_source A L src s = (let i = TryMakeValue (uval x)
      in if IntId_has_value i then Ret (i, s) else add_ap L (CanonicalizeUnsigned A x) s)"
    unfolding FromUnsigned add_source.simps AddAPSInt_def AddUnsigned_def AddUnsignedLarge_def fst_conv snd_conv
    by (simp add: try_unsigned)
  with add_int_denotes [OF assms(1,2) CanonicalizeUnsigned_val] show ?thesis
    unfolding FromUnsigned source_value.simps by metis
qed

end


context apint
begin

lemma denotes_width:
  assumes "int_ok A uval L s" "denotes A uval L s i v" "IntStore_Get A L s i = Ret x"
  shows "0 < ap_width A x"
  using assms(1,2)
proof (cases rule: denotes_cases)
  case embedded
  have "sint (word_of_int v :: 32 word) = v" using embedded by (intro sint_of_small_int) auto
  with embedded assms(3) have "x = ap_make A 64 v"
    by (simp add: IntStore_Get_def AsValue_def IntStore_MinAPWidth_def is_embedded_value_def id_constants)
  then show ?thesis by (simp add: make)
next
  case (stored k)
  then have "x = large_ints s ! k" using Get_index [OF assms(1) stored(1)] assms(3) by simp
  then have "large_canonical A uval x" using assms(1) stored(1) by (simp add: int_ok_def)
  then show ?thesis using CanonicalBitWidth_bounds(1) [of "ap_significant_bits A x"]
    by (simp add: large_canonical_def)
qed

end

section \<open>Token payloads\<close>

lemma bit_MakeFromTokenPayload:
  "n < 32 \<Longrightarrow> bit (MakeFromTokenPayload w) n = bit w (min n 22)"
  unfolding MakeFromTokenPayload_def TokenIdBitsShift_def TokenIdBits_def
  by (auto simp: bit_signed_drop_bit_iff bit_push_bit_iff min_def simp del: push_bit_numeral)

lemma small_sign_bits:
  fixes i :: "32 word"
  assumes "- (2 ^ 22) \<le> sint i" "sint i < 2 ^ 22" "22 \<le> n" "n < 32"
  shows "bit i n = bit i 22"
proof -
  have "signed_take_bit 22 (sint i) = sint i"
    using assms(1,2) by (intro signed_take_bit_int_eq_self) auto
  then have "bit (sint i) n = bit (signed_take_bit 22 (sint i)) n" by simp
  also have "\<dots> = bit (sint i) 22" using assms(3) by (simp add: bit_signed_take_bit_iff)
  finally have "bit (sint i) n = bit (sint i) 22" .
  moreover have "bit (sint i) m = bit i m" if "m < 32" for m
    using that by (simp add: bit_sint_iff)
  ultimately show ?thesis using assms(4) by simp
qed

lemma MakeFromTokenPayload_eq:
  assumes "- (2 ^ 22) \<le> sint i" "sint i < 2 ^ 22" "take_bit 23 w = take_bit 23 i"
  shows "MakeFromTokenPayload w = i"
proof (rule bit_word_eqI)
  fix n assume "n < LENGTH(32)"
  then have n: "n < 32" by simp
  have low: "bit w m = bit i m" if "m < 23" for m
    using that assms(3) by (metis bit_take_bit_iff)
  show "bit (MakeFromTokenPayload w) n = bit i n"
    using n low [of "min n 22"] small_sign_bits [OF assms(1,2), of n]
    by (cases "22 \<le> n") (simp_all add: bit_MakeFromTokenPayload)
qed

section \<open>Properties\<close>

text \<open>
  C22. Every integer, given as \<open>int64_t\<close>, signed or unsigned \<open>APInt\<close> of any width, gets an id
  that denotes exactly its mathematical value; the checks of the store pass, and every id
  handed out before still denotes the value it did.
\<close>

theorem int_store_add:
  assumes "apint A uval" "int_ok A uval L s" "int_room s" "source_ok A src"
  shows "\<exists>i s'. add_source A L src s = Ret (i, s') \<and> int_ok A uval L s'
    \<and> denotes A uval L s' i (source_value A uval src)
    \<and> (\<forall>j w. denotes A uval L s j w \<longrightarrow> denotes A uval L s' j w)"
  using apint.add_source_denotes [OF assms] apint.denotes_extends [OF assms(1,2)] by blast

text \<open>
  C23. Integers are canonical: ids in use are equal exactly when the values they denote are, so
  that equal integers added at different widths and signedness share one id.
\<close>

theorem int_store_canonical:
  assumes "apint A uval" "int_ok A uval L s" "denotes A uval L s i v" "denotes A uval L s j w"
  shows "i = j \<longleftrightarrow> v = w"
  using apint.denotes_inj [OF assms(1,2)] assms(3,4) by (auto simp: denotes_def)

text \<open>
  \<open>Lookup\<close> and \<open>LookupSigned\<close> return the id that denotes the value, and \<open>None\<close> exactly when
  no id in use does.
\<close>

theorem int_store_lookup:
  assumes "apint A uval" "int_ok A uval L s" "- (2 ^ 63) \<le> v" "v < 2 ^ 63" "0 < ap_width A x"
  shows "\<exists>i j. IntStore_Lookup A L s v = Ret i \<and> LookupSigned A L s x = Ret j
    \<and> (denotes A uval L s i v \<or> i = NoneId \<and> (\<forall>k. \<not> denotes A uval L s k v))
    \<and> (denotes A uval L s j (signed_val A uval x)
       \<or> j = NoneId \<and> (\<forall>k. \<not> denotes A uval L s k (signed_val A uval x)))"
proof -
  have "\<exists>i. IntStore_Lookup A L s v = Ret i
      \<and> (denotes A uval L s i v \<or> i = NoneId \<and> (\<forall>k. \<not> denotes A uval L s k v))"
    unfolding IntStore_Lookup_def LookupLarge_def CanonicalBitWidth_small [OF order_refl]
    by (rule apint.lookup_int_denotes [OF assms(1,2) apint.make64_val [OF assms(1,3,4)]])
  moreover have "\<exists>j. LookupSigned A L s x = Ret j
      \<and> (denotes A uval L s j (signed_val A uval x)
         \<or> j = NoneId \<and> (\<forall>k. \<not> denotes A uval L s k (signed_val A uval x)))"
    unfolding LookupSigned_def LookupSignedLarge_def apint.try_signed [OF assms(1,5)]
    by (rule apint.lookup_int_denotes [OF assms(1,2) apint.CanonicalizeSigned_val [OF assms(1,5)]])
  ultimately show ?thesis by blast
qed

lemma GetAtWidth_value:
  assumes "apint A uval" "denotes A uval L s i v" "0 < n"
  shows "\<exists>x. GetAtWidth A L s i n = Ret x \<and> ap_width A x = unat n \<and> uval x = v mod 2 ^ unat n"
proof -
  obtain x where x: "IntStore_Get A L s i = Ret x" "signed_val A uval x = v" using assms(2) by (auto simp: denotes_def)
  show ?thesis
  proof (cases "ap_width A x = unat n")
    case True
    then have "uval x = v mod 2 ^ unat n" using apint.sval_mod [OF assms(1), of x] x(2) by simp
    with True x(1) show ?thesis by (simp add: GetAtWidth_def)
  next
    case False
    have "0 < unat n" using assms(3) by (simp add: word_greater_zero_iff unat_gt_0)
    with False x apint.sext_or_trunc [OF assms(1), of "unat n" x] show ?thesis
      by (simp add: GetAtWidth_def signed_val_def)
  qed
qed

lemma GetAtWidthId_eq:
  assumes "apint A uval" "int_ok A uval L s" "denotes A uval L s wid w"
  shows "GetAtWidthId A L s i wid = (if 0 < w \<and> w < 2 ^ 63 then GetAtWidth A L s i (word_of_int w) else Fatal)"
proof -
  obtain y where y: "IntStore_Get A L s wid = Ret y" "signed_val A uval y = w" "0 < ap_width A y"
    using assms(3) apint.denotes_width [OF assms(1,2,3)] by (auto simp: denotes_def)
  have "ap_sge A y 1 \<longleftrightarrow> 0 < w" using apint.sge [OF assms(1) y(3), of 1] y(2) by (auto simp: signed_val_def)
  moreover have "ap_significant_bits A y \<le> 64 \<longleftrightarrow> - (2 ^ 63) \<le> w \<and> w < 2 ^ 63"
    using apint.sig_bits [OF assms(1) y(3), of 64] y(2) by simp
  ultimately have chk: "ap_sge A y 1 \<and> ap_significant_bits A y \<le> 64 \<longleftrightarrow> 0 < w \<and> w < 2 ^ 63" by auto
  show ?thesis
  proof (cases "0 < w \<and> w < 2 ^ 63")
    case True
    then have "ap_sext_value A y = w"
      using chk apint.sext_value [OF assms(1) y(3)] y(2) by (simp add: signed_val_def)
    with True show ?thesis
      unfolding GetAtWidthId_def y(1) bind_outcome.simps IntStore_MinAPWidth_def chk by simp
  next
    case False
    then show ?thesis
      unfolding GetAtWidthId_def y(1) bind_outcome.simps IntStore_MinAPWidth_def chk carbon_check_def
      by (simp only: if_False)
  qed
qed

text \<open>
  C27. \<open>GetAtWidth\<close> returns the value wrapped to the requested width. The overload that takes the width as an id passes its
  check exactly for widths that are positive and fit in 64 bits, and then uses their low 32 bits: the width itself
  below \<open>2 ^ 32\<close>, and a smaller one above.
\<close>

theorem int_store_at_width:
  assumes "apint A uval" "int_ok A uval L s" "denotes A uval L s i v" "denotes A uval L s wid w" "0 < n"
  shows "(\<exists>x. GetAtWidth A L s i n = Ret x \<and> ap_width A x = unat n \<and> uval x = v mod 2 ^ unat n)
    \<and> GetAtWidthId A L s i wid =
       (if 0 < w \<and> w < 2 ^ 63 then GetAtWidth A L s i (word_of_int w) else Fatal)
    \<and> (0 < w \<and> w < 2 ^ 63 \<and> w mod 2 ^ 32 \<noteq> 0 \<longrightarrow> (\<exists>x. GetAtWidthId A L s i wid = Ret x
         \<and> ap_width A x = nat (w mod 2 ^ 32) \<and> uval x = v mod 2 ^ nat (w mod 2 ^ 32)))"
proof -
  note id = GetAtWidthId_eq [OF assms(1,2,4), of i]
  have low: "unat (word_of_int w :: 32 word) = nat (w mod 2 ^ 32)"
    by (simp add: unat_eq_nat_uint uint_word_of_int)
  have "\<exists>x. GetAtWidthId A L s i wid = Ret x \<and> ap_width A x = nat (w mod 2 ^ 32) \<and> uval x = v mod 2 ^ nat (w mod 2 ^ 32)"
    if w: "0 < w \<and> w < 2 ^ 63 \<and> w mod 2 ^ 32 \<noteq> 0"
  proof -
    have "0 < w mod 2 ^ 32" using w by (simp add: order_less_le)
    then have "0 < unat (word_of_int w :: 32 word)" unfolding low by simp
    then have "0 < (word_of_int w :: 32 word)" by (simp add: word_greater_zero_iff unat_gt_0)
    from GetAtWidth_value [OF assms(1,3) this] show ?thesis unfolding id low using w by simp
  qed
  with GetAtWidth_value [OF assms(1,3,5)] id show ?thesis by blast
qed

text \<open>
  Token payloads: an id whose value fits in 23 bits, which covers every embedded value and
  the first two million indices, passes the check of \<open>AsTokenPayload\<close>, and is read back from
  the low 23 bits of the payload whatever the other bits hold.
\<close>

theorem int_id_payload_round_trip:
  assumes "- (2 ^ 22) \<le> sint i" "sint i < 2 ^ 22" "take_bit 23 payload = take_bit 23 i"
  shows "AsTokenPayload i = Ret i \<and> MakeFromTokenPayload payload = i"
  using MakeFromTokenPayload_eq [OF assms(1,2)] assms(3) by (simp add: AsTokenPayload_def)


section \<open>Witnesses\<close>

definition example_ints :: "bool list IntStore" where
  "example_ints = \<lparr>is_values = Canonical_empty untagged\<rparr>"

lemma untagged_ids: "k < 2 ^ 30 \<Longrightarrow> vs_tag s = untagged \<Longrightarrow> id_of s k = word_of_nat k"
proof -
  assume "k < 2 ^ 30" "vs_tag s = untagged"
  moreover from \<open>k < 2 ^ 30\<close> have "sint (word_of_nat k :: 32 word) = int k"
    using sint_of_small_int [of "int k"] by simp
  ultimately show ?thesis by (simp add: id_of_def untagged_def)
qed

lemma example_ints_ok: "int_ok apint_bits bits_uval example_layout example_ints"
proof -
  have "canon_ok example_layout (\<lambda>x. x) (is_values example_ints)"
    unfolding example_ints_def IntStore.simps
    by (rule canon_ok_empty) (simp_all add: layout_ok_def example_layout_def tag_ok_def untagged_def)
  then show ?thesis
    by (auto simp: int_ok_def example_ints_def Canonical_empty_def ValueStore_empty_def contents_def
        intro!: untagged_ids)
qed

lemma example_ints_room: "int_room example_ints"
  by (simp add: int_room_def example_ints_def Canonical_empty_def ValueStore_empty_def)

lemma int_store_add_witness:
  "\<exists>i s'. IntStore_Add apint_bits example_layout 5000000000 example_ints = Ret (i, s')
    \<and> denotes apint_bits bits_uval example_layout s' i 5000000000"
  using int_store_add [OF bits.apint_axioms example_ints_ok example_ints_room, of "FromInt64 5000000000"] by auto

lemma int_store_canonical_witness: "(word_of_int 7 :: 32 word) = word_of_int 8 \<longleftrightarrow> (7::int) = 8"
  by (rule int_store_canonical [OF bits.apint_axioms example_ints_ok])
    (rule bits.denotes_embedded, simp, simp)+

lemma int_store_lookup_witness:
  "\<exists>i. IntStore_Lookup apint_bits example_layout example_ints 5000000000 = Ret i"
  using int_store_lookup [OF bits.apint_axioms example_ints_ok, of 5000000000 "bits_of 8 3"]
  by (auto simp: apint_bits_def)

lemma int_store_at_width_witness:
  "\<exists>x. GetAtWidth apint_bits example_layout example_ints (word_of_int (- 1)) 8 = Ret x
     \<and> bits_uval x = (- 1) mod 2 ^ 8"
  using int_store_at_width [OF bits.apint_axioms example_ints_ok
      bits.denotes_embedded [of "- 1"] bits.denotes_embedded [of 8], of 8] by auto

lemma int_id_payload_round_trip_witness:
  "AsTokenPayload (- 5) = Ret (- 5) \<and> MakeFromTokenPayload 0x7FFFFB = - 5"
  by (rule int_id_payload_round_trip) code_simp+

end
