(* ===== verification/Token_Kind.thy ===== *)
theory Token_Kind
  imports Prelude
begin

text \<open>
  Token kinds: \<open>toolchain/lex/token_kind.{def,h,cpp}\<close>.

  The x-macro file groups the enumerators: symbols (plain, one-character, opening and closing
  group symbols), keywords (declaration introducers first) and the rest. The enumeration is a
  datatype of these groups with the source's names, keywords with the suffix \<open>_kw\<close>. The lists
  \<open>SymbolTokens\<close> and \<open>KeywordTokens\<close> are in the order of the file, which the lexer relies on.
\<close>

section \<open>The enumeration\<close>

datatype (plugins only: code) symbol =
    GreaterGreaterEqual | LessEqualGreater | LessLessEqual | MinusGreaterQuestion
   | PeriodPeriodPeriod | AmpEqual | CaretEqual | ColonEqual | ColonQuestion | EqualEqual
   | EqualGreater | ExclaimEqual | GreaterEqual | GreaterGreater | LessEqual | LessGreater
   | LessLess | LessMinus | MinusEqual | MinusGreater | MinusMinus | PercentEqual | PipeEqual
   | PlusEqual | PlusPlus | SlashEqual | StarEqual | TildeEqual | Amp | At | Backslash | Caret
   | Colon | Equal | Exclaim | Greater | Less | Minus | Percent | Period | Pipe | Plus | Question
   | Slash | Star | Tilde | Comma | Semi | OpenParen | OpenCurlyBrace | OpenSquareBracket
   | CloseParen | CloseCurlyBrace | CloseSquareBracket

datatype (plugins only: code) keyword =
    Adapt_kw | Alias_kw | Base_kw | Choice_kw | Class_kw | Constraint_kw | Export_kw | Fn_kw
   | Impl_kw | Import_kw | Interface_kw | Let_kw | Library_kw | MatchFirst_kw | Namespace_kw
   | Package_kw | Require_kw | Union_kw | Var_kw | Abstract_kw | And_kw | Array_kw | As_kw
   | Auto_kw | Bool_kw | Break_kw | Case_kw | Char_kw | Const_kw | Continue_kw | Core_kw | Cpp_kw
   | Default_kw | Each_kw | Else_kw | Eval_kw | Expand_kw | Extend_kw | Extern_kw | False_kw
   | Final_kw | For_kw | Form_kw | Forall_kw | Friend_kw | Generic_kw | If_kw | Impls_kw | In_kw
   | Inline_kw | Like_kw | Match_kw | MustEval_kw | Not_kw | Observe_kw | Or_kw | Overload_kw
   | Override_kw | Partial_kw | Private_kw | Protected_kw | Ref_kw | Return_kw | Returned_kw
   | Runtime_kw | SelfTypeIdentifier_kw | SelfValueIdentifier_kw | Static_kw | Str_kw
   | Template_kw | Then_kw | True_kw | Type_kw | TypeOf_kw | Underscore_kw | Unsafe_kw | Unused_kw
   | Virtual_kw | Val_kw | Where_kw | While_kw

datatype TokenKind =
    Error
  | Symbol symbol
  | Keyword keyword
  | Identifier
  | IntLiteral
  | RealLiteral
  | StringLiteral
  | CharLiteral
  | IntTypeLiteral
  | UnsignedIntTypeLiteral
  | FloatTypeLiteral
  | DollarIntLiteral
  | FileStart
  | FileEnd

section \<open>The tables\<close>

definition SymbolTokens :: "symbol list" where
  "SymbolTokens =
     [GreaterGreaterEqual, LessEqualGreater, LessLessEqual, MinusGreaterQuestion, PeriodPeriodPeriod
      , AmpEqual, CaretEqual, ColonEqual, ColonQuestion, EqualEqual, EqualGreater, ExclaimEqual
      , GreaterEqual, GreaterGreater, LessEqual, LessGreater, LessLess, LessMinus, MinusEqual
      , MinusGreater, MinusMinus, PercentEqual, PipeEqual, PlusEqual, PlusPlus, SlashEqual, StarEqual
      , TildeEqual, Amp, At, Backslash, Caret, Colon, Equal, Exclaim, Greater, Less, Minus, Percent
      , Period, Pipe, Plus, Question, Slash, Star, Tilde, Comma, Semi, OpenParen, OpenCurlyBrace
      , OpenSquareBracket, CloseParen, CloseCurlyBrace, CloseSquareBracket]"

definition KeywordTokens :: "keyword list" where
  "KeywordTokens =
     [Adapt_kw, Alias_kw, Base_kw, Choice_kw, Class_kw, Constraint_kw, Export_kw, Fn_kw, Impl_kw
      , Import_kw, Interface_kw, Let_kw, Library_kw, MatchFirst_kw, Namespace_kw, Package_kw
      , Require_kw, Union_kw, Var_kw, Abstract_kw, And_kw, Array_kw, As_kw, Auto_kw, Bool_kw, Break_kw
      , Case_kw, Char_kw, Const_kw, Continue_kw, Core_kw, Cpp_kw, Default_kw, Each_kw, Else_kw
      , Eval_kw, Expand_kw, Extend_kw, Extern_kw, False_kw, Final_kw, For_kw, Form_kw, Forall_kw
      , Friend_kw, Generic_kw, If_kw, Impls_kw, In_kw, Inline_kw, Like_kw, Match_kw, MustEval_kw
      , Not_kw, Observe_kw, Or_kw, Overload_kw, Override_kw, Partial_kw, Private_kw, Protected_kw
      , Ref_kw, Return_kw, Returned_kw, Runtime_kw, SelfTypeIdentifier_kw, SelfValueIdentifier_kw
      , Static_kw, Str_kw, Template_kw, Then_kw, True_kw, Type_kw, TypeOf_kw, Underscore_kw, Unsafe_kw
      , Unused_kw, Virtual_kw, Val_kw, Where_kw, While_kw]"

primrec symbol_spelling :: "symbol \<Rightarrow> string" where
  "symbol_spelling GreaterGreaterEqual = ''>>=''"
| "symbol_spelling LessEqualGreater = ''<=>''"
| "symbol_spelling LessLessEqual = ''<<=''"
| "symbol_spelling MinusGreaterQuestion = ''->?''"
| "symbol_spelling PeriodPeriodPeriod = ''...''"
| "symbol_spelling AmpEqual = ''&=''"
| "symbol_spelling CaretEqual = ''^=''"
| "symbol_spelling ColonEqual = '':=''"
| "symbol_spelling ColonQuestion = '':?''"
| "symbol_spelling EqualEqual = ''==''"
| "symbol_spelling EqualGreater = ''=>''"
| "symbol_spelling ExclaimEqual = ''!=''"
| "symbol_spelling GreaterEqual = ''>=''"
| "symbol_spelling GreaterGreater = ''>>''"
| "symbol_spelling LessEqual = ''<=''"
| "symbol_spelling LessGreater = ''<>''"
| "symbol_spelling LessLess = ''<<''"
| "symbol_spelling LessMinus = ''<-''"
| "symbol_spelling MinusEqual = ''-=''"
| "symbol_spelling MinusGreater = ''->''"
| "symbol_spelling MinusMinus = ''--''"
| "symbol_spelling PercentEqual = ''%=''"
| "symbol_spelling PipeEqual = ''|=''"
| "symbol_spelling PlusEqual = ''+=''"
| "symbol_spelling PlusPlus = ''++''"
| "symbol_spelling SlashEqual = ''/=''"
| "symbol_spelling StarEqual = ''*=''"
| "symbol_spelling TildeEqual = ''~=''"
| "symbol_spelling Amp = ''&''"
| "symbol_spelling At = ''@''"
| "symbol_spelling Backslash = [CHR 0x5C]"
| "symbol_spelling Caret = ''^''"
| "symbol_spelling Colon = '':''"
| "symbol_spelling Equal = ''=''"
| "symbol_spelling Exclaim = ''!''"
| "symbol_spelling Greater = ''>''"
| "symbol_spelling Less = ''<''"
| "symbol_spelling Minus = ''-''"
| "symbol_spelling Percent = ''%''"
| "symbol_spelling Period = ''.''"
| "symbol_spelling Pipe = ''|''"
| "symbol_spelling Plus = ''+''"
| "symbol_spelling Question = ''?''"
| "symbol_spelling Slash = ''/''"
| "symbol_spelling Star = ''*''"
| "symbol_spelling Tilde = ''~''"
| "symbol_spelling Comma = '',''"
| "symbol_spelling Semi = '';''"
| "symbol_spelling OpenParen = ''(''"
| "symbol_spelling OpenCurlyBrace = ''{''"
| "symbol_spelling OpenSquareBracket = ''[''"
| "symbol_spelling CloseParen = '')''"
| "symbol_spelling CloseCurlyBrace = ''}''"
| "symbol_spelling CloseSquareBracket = '']''"

primrec keyword_spelling :: "keyword \<Rightarrow> string" where
  "keyword_spelling Adapt_kw = ''adapt''"
| "keyword_spelling Alias_kw = ''alias''"
| "keyword_spelling Base_kw = ''base''"
| "keyword_spelling Choice_kw = ''choice''"
| "keyword_spelling Class_kw = ''class''"
| "keyword_spelling Constraint_kw = ''constraint''"
| "keyword_spelling Export_kw = ''export''"
| "keyword_spelling Fn_kw = ''fn''"
| "keyword_spelling Impl_kw = ''impl''"
| "keyword_spelling Import_kw = ''import''"
| "keyword_spelling Interface_kw = ''interface''"
| "keyword_spelling Let_kw = ''let''"
| "keyword_spelling Library_kw = ''library''"
| "keyword_spelling MatchFirst_kw = ''match_first''"
| "keyword_spelling Namespace_kw = ''namespace''"
| "keyword_spelling Package_kw = ''package''"
| "keyword_spelling Require_kw = ''require''"
| "keyword_spelling Union_kw = ''union''"
| "keyword_spelling Var_kw = ''var''"
| "keyword_spelling Abstract_kw = ''abstract''"
| "keyword_spelling And_kw = ''and''"
| "keyword_spelling Array_kw = ''array''"
| "keyword_spelling As_kw = ''as''"
| "keyword_spelling Auto_kw = ''auto''"
| "keyword_spelling Bool_kw = ''bool''"
| "keyword_spelling Break_kw = ''break''"
| "keyword_spelling Case_kw = ''case''"
| "keyword_spelling Char_kw = ''char''"
| "keyword_spelling Const_kw = ''const''"
| "keyword_spelling Continue_kw = ''continue''"
| "keyword_spelling Core_kw = ''Core''"
| "keyword_spelling Cpp_kw = ''Cpp''"
| "keyword_spelling Default_kw = ''default''"
| "keyword_spelling Each_kw = ''each''"
| "keyword_spelling Else_kw = ''else''"
| "keyword_spelling Eval_kw = ''eval''"
| "keyword_spelling Expand_kw = ''expand''"
| "keyword_spelling Extend_kw = ''extend''"
| "keyword_spelling Extern_kw = ''extern''"
| "keyword_spelling False_kw = ''false''"
| "keyword_spelling Final_kw = ''final''"
| "keyword_spelling For_kw = ''for''"
| "keyword_spelling Form_kw = ''form''"
| "keyword_spelling Forall_kw = ''forall''"
| "keyword_spelling Friend_kw = ''friend''"
| "keyword_spelling Generic_kw = ''generic''"
| "keyword_spelling If_kw = ''if''"
| "keyword_spelling Impls_kw = ''impls''"
| "keyword_spelling In_kw = ''in''"
| "keyword_spelling Inline_kw = ''inline''"
| "keyword_spelling Like_kw = ''like''"
| "keyword_spelling Match_kw = ''match''"
| "keyword_spelling MustEval_kw = ''musteval''"
| "keyword_spelling Not_kw = ''not''"
| "keyword_spelling Observe_kw = ''observe''"
| "keyword_spelling Or_kw = ''or''"
| "keyword_spelling Overload_kw = ''overload''"
| "keyword_spelling Override_kw = ''override''"
| "keyword_spelling Partial_kw = ''partial''"
| "keyword_spelling Private_kw = ''private''"
| "keyword_spelling Protected_kw = ''protected''"
| "keyword_spelling Ref_kw = ''ref''"
| "keyword_spelling Return_kw = ''return''"
| "keyword_spelling Returned_kw = ''returned''"
| "keyword_spelling Runtime_kw = ''runtime''"
| "keyword_spelling SelfTypeIdentifier_kw = ''Self''"
| "keyword_spelling SelfValueIdentifier_kw = ''self''"
| "keyword_spelling Static_kw = ''static''"
| "keyword_spelling Str_kw = ''str''"
| "keyword_spelling Template_kw = ''template''"
| "keyword_spelling Then_kw = ''then''"
| "keyword_spelling True_kw = ''true''"
| "keyword_spelling Type_kw = ''type''"
| "keyword_spelling TypeOf_kw = ''typeof''"
| "keyword_spelling Underscore_kw = ''_''"
| "keyword_spelling Unsafe_kw = ''unsafe''"
| "keyword_spelling Unused_kw = ''unused''"
| "keyword_spelling Virtual_kw = ''virtual''"
| "keyword_spelling Val_kw = ''val''"
| "keyword_spelling Where_kw = ''where''"
| "keyword_spelling While_kw = ''while''"

fun fixed_spelling :: "TokenKind \<Rightarrow> string" where
  "fixed_spelling (Symbol s) = symbol_spelling s"
| "fixed_spelling (Keyword k) = keyword_spelling k"
| "fixed_spelling k = []"

definition one_char_symbols :: "symbol list" where
  "one_char_symbols = [Comma, Semi, OpenParen, OpenCurlyBrace, OpenSquareBracket, CloseParen, CloseCurlyBrace, CloseSquareBracket]"

fun is_symbol :: "TokenKind \<Rightarrow> bool" where
  "is_symbol (Symbol s) = True"
| "is_symbol k = False"

fun is_opening_symbol :: "TokenKind \<Rightarrow> bool" where
  "is_opening_symbol (Symbol s) = (s \<in> {OpenParen, OpenCurlyBrace, OpenSquareBracket})"
| "is_opening_symbol k = False"

fun is_closing_symbol :: "TokenKind \<Rightarrow> bool" where
  "is_closing_symbol (Symbol s) = (s \<in> {CloseParen, CloseCurlyBrace, CloseSquareBracket})"
| "is_closing_symbol k = False"

definition is_grouping_symbol :: "TokenKind \<Rightarrow> bool" where
  "is_grouping_symbol k \<longleftrightarrow> is_opening_symbol k \<or> is_closing_symbol k"

fun is_one_char_symbol :: "TokenKind \<Rightarrow> bool" where
  "is_one_char_symbol (Symbol s) = (s \<in> set one_char_symbols)"
| "is_one_char_symbol k = False"

text \<open>The tables \<open>ClosingSymbol\<close> and \<open>OpeningSymbol\<close>, with \<open>Error\<close> where there is none.\<close>

definition ClosingSymbol :: "TokenKind \<Rightarrow> TokenKind" where
  "ClosingSymbol k =
     (if k = Symbol OpenParen then Symbol CloseParen
      else if k = Symbol OpenCurlyBrace then Symbol CloseCurlyBrace
      else if k = Symbol OpenSquareBracket then Symbol CloseSquareBracket
      else Error)"

definition OpeningSymbol :: "TokenKind \<Rightarrow> TokenKind" where
  "OpeningSymbol k =
     (if k = Symbol CloseParen then Symbol OpenParen
      else if k = Symbol CloseCurlyBrace then Symbol OpenCurlyBrace
      else if k = Symbol CloseSquareBracket then Symbol OpenSquareBracket
      else Error)"

definition closing_symbol :: "TokenKind \<Rightarrow> TokenKind outcome" where
  "closing_symbol k = carbon_check (ClosingSymbol k \<noteq> Error) (Ret (ClosingSymbol k))"

definition opening_symbol :: "TokenKind \<Rightarrow> TokenKind outcome" where
  "opening_symbol k = carbon_check (OpeningSymbol k \<noteq> Error) (Ret (OpeningSymbol k))"

fun is_keyword :: "TokenKind \<Rightarrow> bool" where
  "is_keyword (Keyword k) = True"
| "is_keyword k = False"

definition is_sized_type_literal :: "TokenKind \<Rightarrow> bool" where
  "is_sized_type_literal k \<longleftrightarrow>
     k = IntTypeLiteral \<or> k = UnsignedIntTypeLiteral \<or> k = FloatTypeLiteral"

definition is_dollar_int_literal :: "TokenKind \<Rightarrow> bool" where
  "is_dollar_int_literal k \<longleftrightarrow> k = DollarIntLiteral"

definition is_word :: "TokenKind \<Rightarrow> bool" where
  "is_word k \<longleftrightarrow> k = Identifier \<or> k = Keyword Underscore_kw \<or> is_keyword k \<or> is_sized_type_literal k"

definition is_binding_pattern_operator :: "TokenKind \<Rightarrow> bool" where
  "is_binding_pattern_operator k \<longleftrightarrow> k = Symbol Colon \<or> k = Symbol ColonQuestion"

definition expected_max_parse_tree_size :: "TokenKind \<Rightarrow> nat" where
  "expected_max_parse_tree_size k =
     (if k \<in> {Symbol PeriodPeriodPeriod, Symbol ColonQuestion, Symbol Colon, Symbol Equal, Symbol Period
              , Keyword Fn_kw, Keyword Var_kw, Keyword And_kw, Keyword Else_kw, Keyword Or_kw
              , Keyword SelfValueIdentifier_kw, Keyword Where_kw}
      then 2 else 1)"

fun IsOneOf :: "TokenKind \<Rightarrow> TokenKind list \<Rightarrow> bool" where
  "IsOneOf k [] = False"
| "IsOneOf k (kind # kinds) = (if k = kind then True else IsOneOf k kinds)"

text \<open>Brackets read from left to right, with the kinds that are open.\<close>

fun open_after :: "TokenKind list \<Rightarrow> TokenKind list \<Rightarrow> TokenKind list option" where
  "open_after [] opens = Some opens"
| "open_after (k # ks) opens =
     (if is_opening_symbol k then open_after ks (k # opens)
      else if is_closing_symbol k
      then (case opens of [] \<Rightarrow> None | p # ps \<Rightarrow> if closing_symbol p = Ret k then open_after ks ps else None)
      else open_after ks opens)"

definition balanced :: "TokenKind list \<Rightarrow> bool" where
  "balanced ks \<longleftrightarrow> open_after ks [] = Some []"

section \<open>The tables agree\<close>

lemma SymbolTokens_complete: "s \<in> set SymbolTokens"
  by (cases s) (simp_all add: SymbolTokens_def)

lemma KeywordTokens_complete: "k \<in> set KeywordTokens"
  by (cases k) (simp_all add: KeywordTokens_def)

lemma symbol_spellings_distinct: "distinct (map symbol_spelling SymbolTokens)"
  by (simp add: SymbolTokens_def)

lemma keyword_spellings_distinct: "distinct (map keyword_spelling KeywordTokens)"
  by (simp add: KeywordTokens_def)

lemma symbol_spelling_inj: "symbol_spelling s = symbol_spelling t \<longleftrightarrow> s = t"
  using symbol_spellings_distinct SymbolTokens_complete by (metis distinct_map inj_on_eq_iff)

lemma keyword_spelling_inj: "keyword_spelling k = keyword_spelling l \<longleftrightarrow> k = l"
  using keyword_spellings_distinct KeywordTokens_complete by (metis distinct_map inj_on_eq_iff)

lemma symbols_longest_first: "sorted_wrt (\<lambda>s t. length (symbol_spelling t) \<le> length (symbol_spelling s)) SymbolTokens"
  by (simp add: SymbolTokens_def)

lemma symbol_spelling_nonempty: "symbol_spelling s \<noteq> []"
  by (cases s) simp_all

text \<open>A one-character symbol's character starts no other symbol.\<close>

lemma one_char_symbol_alone:
  assumes "s \<in> set one_char_symbols"
  shows "length (symbol_spelling s) = 1" "hd (symbol_spelling s) \<in> set (symbol_spelling t) \<Longrightarrow> t = s"
proof -
  show "length (symbol_spelling s) = 1" using assms by (auto simp: one_char_symbols_def)
  have "\<forall>t \<in> set SymbolTokens. \<forall>s \<in> set one_char_symbols. hd (symbol_spelling s) \<in> set (symbol_spelling t) \<longrightarrow> t = s"
    by (simp add: SymbolTokens_def one_char_symbols_def)
  then show "hd (symbol_spelling s) \<in> set (symbol_spelling t) \<Longrightarrow> t = s"
    using SymbolTokens_complete assms by blast
qed

text \<open>Brackets.\<close>

lemma open_after_append:
  "open_after (xs @ ys) s = (case open_after xs s of None \<Rightarrow> None | Some t \<Rightarrow> open_after ys t)"
  by (induction xs s rule: open_after.induct) (auto split: list.splits)

lemma balanced_append: "balanced xs \<Longrightarrow> balanced ys \<Longrightarrow> balanced (xs @ ys)"
  by (simp add: balanced_def open_after_append)

lemma open_after_groupless: "list_all (\<lambda>k. \<not> is_grouping_symbol k) ks \<Longrightarrow> open_after ks s = Some s"
  by (induction ks) (simp_all add: is_grouping_symbol_def)

lemma open_after_filter: "open_after (filter is_grouping_symbol ks) s = open_after ks s"
  by (induction ks s rule: open_after.induct) (auto simp: is_grouping_symbol_def split: list.splits)

section \<open>Properties\<close>

text \<open>
  Opening and closing symbols correspond: an opening symbol has a closing symbol, whose
  opening symbol it is, and conversely; the checks of both lookups fail for every other kind.
\<close>

theorem grouping_symbols_match:
  "is_opening_symbol k = (\<exists>c. closing_symbol k = Ret c \<and> is_closing_symbol c \<and> opening_symbol c = Ret k)
   \<and> is_closing_symbol k = (\<exists>o'. opening_symbol k = Ret o' \<and> is_opening_symbol o' \<and> closing_symbol o' = Ret k)
   \<and> (\<not> is_opening_symbol k \<longleftrightarrow> closing_symbol k = Fatal)
   \<and> (\<not> is_closing_symbol k \<longleftrightarrow> opening_symbol k = Fatal)"
  by (cases k)
    (auto simp: closing_symbol_def opening_symbol_def ClosingSymbol_def OpeningSymbol_def carbon_check_def)

text \<open>
  The spellings support the lexer: symbols and keywords are each spelled differently, no
  spelling is empty, symbols come longest first, and the character of a one-character symbol
  occurs in no other symbol.
\<close>

theorem token_spellings:
  "distinct (map symbol_spelling SymbolTokens) \<and> set SymbolTokens = UNIV
   \<and> distinct (map keyword_spelling KeywordTokens) \<and> set KeywordTokens = UNIV
   \<and> sorted_wrt (\<lambda>s t. length (symbol_spelling t) \<le> length (symbol_spelling s)) SymbolTokens
   \<and> (is_one_char_symbol (Symbol s) \<longrightarrow> length (fixed_spelling (Symbol s)) = 1
        \<and> (hd (fixed_spelling (Symbol s)) \<in> set (symbol_spelling t) \<longrightarrow> t = s))"
  using symbol_spellings_distinct keyword_spellings_distinct SymbolTokens_complete KeywordTokens_complete
    symbols_longest_first one_char_symbol_alone by auto

section \<open>Witness\<close>

lemma token_spellings_witness:
  "length (fixed_spelling (Symbol Comma)) = 1 \<and>
   hd (fixed_spelling (Symbol Comma)) \<notin> set (symbol_spelling Semi)"
  using token_spellings [of Comma Semi] by (simp add: one_char_symbols_def)

end
