(* ===== verification/Precedence.thy ===== *)
theory Precedence
  imports Token_Kind
begin

text \<open>
  Operator precedence: \<open>toolchain/parse/precedence.{h,cpp}\<close>.

  The priority table is built as the constructor builds it, on a matrix of rows indexed by the
  levels: the declared relationships, their transitive closure by the repeated triple loop, the
  symmetric entries, the diagonal of associativities, and the consistency checks. The closure
  loop is a \<open>partial_function\<close>, since it stops only when a pass changes nothing; it is proved
  to return, and to compute the transitive closure, on every square table.
\<close>

section \<open>Levels and priorities\<close>

datatype OperatorPriority = LeftFirst | Ambiguous | RightFirst

datatype Associativity = LeftToRight | NoAssociativity | RightToLeft

datatype (plugins only: code) PrecedenceLevel =
    Highest | TermPrefix | IncrementDecrement | NumericPrefix | Modulo | Multiplicative | Additive
  | BitwisePrefix | BitwiseAnd | BitwiseOr | BitwiseXor | BitShift | TypePrefix | TypePostfix
  | Where | As | LogicalPrefix | Relational | LogicalAnd | LogicalOr | If_level | Ref
  | Assignment | Lowest

text \<open>The integer value of an enumerator.\<close>

primrec level_int :: "PrecedenceLevel \<Rightarrow> nat" where
  "level_int Highest = 0"
| "level_int TermPrefix = 1"
| "level_int IncrementDecrement = 2"
| "level_int NumericPrefix = 3"
| "level_int Modulo = 4"
| "level_int Multiplicative = 5"
| "level_int Additive = 6"
| "level_int BitwisePrefix = 7"
| "level_int BitwiseAnd = 8"
| "level_int BitwiseOr = 9"
| "level_int BitwiseXor = 10"
| "level_int BitShift = 11"
| "level_int TypePrefix = 12"
| "level_int TypePostfix = 13"
| "level_int Where = 14"
| "level_int As = 15"
| "level_int LogicalPrefix = 16"
| "level_int Relational = 17"
| "level_int LogicalAnd = 18"
| "level_int LogicalOr = 19"
| "level_int If_level = 20"
| "level_int Ref = 21"
| "level_int Assignment = 22"
| "level_int Lowest = 23"

definition NumPrecedenceLevels :: nat where
  "NumPrecedenceLevels = level_int Lowest + 1"

section \<open>The table\<close>

type_synonym priority_table = "OperatorPriority list list"

definition tget :: "priority_table \<Rightarrow> nat \<Rightarrow> nat \<Rightarrow> OperatorPriority" where
  "tget t a b = t ! a ! b"

definition tset :: "priority_table \<Rightarrow> nat \<Rightarrow> nat \<Rightarrow> OperatorPriority \<Rightarrow> priority_table" where
  "tset t a b v = t[a := (t ! a)[b := v]]"

definition empty_table :: priority_table where
  "empty_table = replicate NumPrecedenceLevels (replicate NumPrecedenceLevels Ambiguous)"

definition MarkHigherThan ::
    "PrecedenceLevel list \<Rightarrow> PrecedenceLevel list \<Rightarrow> priority_table \<Rightarrow> priority_table" where
  "MarkHigherThan higher_group lower_group =
     fold (\<lambda>higher. fold (\<lambda>lower t. tset t (level_int higher) (level_int lower) LeftFirst) lower_group)
       higher_group"

text \<open>The three nested loops of one pass, on the table and the flag \<open>changed\<close>.\<close>

definition close_c :: "nat \<Rightarrow> nat \<Rightarrow> nat \<Rightarrow> priority_table \<times> bool \<Rightarrow> priority_table \<times> bool" where
  "close_c a b c s =
     (if tget (fst s) b c = LeftFirst \<and> tget (fst s) a c \<noteq> LeftFirst
      then (tset (fst s) a c LeftFirst, True) else s)"

definition close_b :: "nat \<Rightarrow> nat \<Rightarrow> nat \<Rightarrow> priority_table \<times> bool \<Rightarrow> priority_table \<times> bool" where
  "close_b n a b s =
     (if tget (fst s) a b = LeftFirst then fold (close_c a b) [0..<n] s else s)"

definition closure_pass :: "nat \<Rightarrow> priority_table \<Rightarrow> priority_table \<times> bool" where
  "closure_pass n t = fold (\<lambda>a. fold (close_b n a) [0..<n]) [0..<n] (t, False)"

partial_function (option) MakeTransitivelyClosed :: "nat \<Rightarrow> priority_table \<Rightarrow> priority_table option" where
  "MakeTransitivelyClosed n t =
     (case closure_pass n t of
        (t', changed) \<Rightarrow> if changed then MakeTransitivelyClosed n t' else Some t')"

declare MakeTransitivelyClosed.simps [code]

definition symmetric_entry :: "nat \<Rightarrow> nat \<Rightarrow> priority_table \<Rightarrow> priority_table outcome" where
  "symmetric_entry a b t =
     (if tget t a b = LeftFirst
      then carbon_check (tget t b a \<noteq> LeftFirst) (Ret (tset t b a RightFirst)) else Ret t)"

fun fold_outcome :: "('x \<Rightarrow> 's \<Rightarrow> 's outcome) \<Rightarrow> 'x list \<Rightarrow> 's \<Rightarrow> 's outcome" where
  "fold_outcome f [] s = Ret s"
| "fold_outcome f (x # xs) s = bind_outcome (f x s) (fold_outcome f xs)"

definition MakeSymmetric :: "nat \<Rightarrow> priority_table \<Rightarrow> priority_table outcome" where
  "MakeSymmetric n = fold_outcome (\<lambda>a. fold_outcome (symmetric_entry a) [0..<n]) [0..<n]"

definition set_diagonal :: "OperatorPriority \<Rightarrow> PrecedenceLevel \<Rightarrow> priority_table \<Rightarrow> priority_table" where
  "set_diagonal p l t = tset t (level_int l) (level_int l) p"

definition AddAssociativityRules :: "priority_table \<Rightarrow> priority_table" where
  "AddAssociativityRules t =
     fold (set_diagonal LeftFirst)
       [Multiplicative, Additive, BitwiseAnd, BitwiseOr, BitwiseXor, LogicalAnd, LogicalOr]
       (fold (set_diagonal LeftFirst) [TypePostfix]
         (fold (set_diagonal RightFirst) [TermPrefix, If_level] t))"

definition level_consistent :: "priority_table \<Rightarrow> nat \<Rightarrow> bool" where
  "level_consistent t level \<longleftrightarrow>
     (level \<noteq> level_int Highest \<longrightarrow>
        tget t (level_int Highest) level = LeftFirst \<and> tget t level (level_int Highest) = RightFirst)
     \<and> (level \<noteq> level_int Lowest \<longrightarrow>
        tget t (level_int Lowest) level = RightFirst \<and> tget t level (level_int Lowest) = LeftFirst)"

definition ConsistencyCheck :: "priority_table \<Rightarrow> priority_table outcome" where
  "ConsistencyCheck t =
     fold_outcome (\<lambda>level t. carbon_check (level_consistent t level) (Ret t)) [0..<NumPrecedenceLevels] t"

text \<open>The declared relationships, in the order of the constructor.\<close>

definition declared :: "(PrecedenceLevel list \<times> PrecedenceLevel list) list" where
  "declared =
     [([Highest], [TermPrefix, LogicalPrefix]),
      ([TermPrefix], [NumericPrefix, BitwisePrefix, IncrementDecrement]),
      ([NumericPrefix, BitwisePrefix, TypePostfix],
       [As, Multiplicative, Modulo, BitwiseAnd, BitwiseOr, BitwiseXor, BitShift]),
      ([Multiplicative], [Additive]),
      ([Additive, Modulo, BitwiseAnd, BitwiseOr, BitwiseXor, BitShift], [Relational, Where]),
      ([Relational, LogicalPrefix], [LogicalAnd, LogicalOr]),
      ([As, LogicalAnd, LogicalOr, Where], [Ref]),
      ([Ref], [If_level]),
      ([If_level], [Assignment]),
      ([Assignment, IncrementDecrement], [Lowest]),
      ([Highest], [TypePrefix]),
      ([TypePrefix], [TypePostfix])]"

definition declared_table :: priority_table where
  "declared_table = fold (\<lambda>(higher, lower). MarkHigherThan higher lower) declared empty_table"

text \<open>The constructor: \<open>None\<close> if the closure loop did not end.\<close>

definition OperatorPriorityTable :: "priority_table outcome option" where
  "OperatorPriorityTable =
     (case MakeTransitivelyClosed NumPrecedenceLevels declared_table of
        None \<Rightarrow> None
      | Some t \<Rightarrow> Some (bind_outcome (MakeSymmetric NumPrecedenceLevels t) (\<lambda>t.
          ConsistencyCheck (AddAssociativityRules t))))"

definition Lookup_table :: priority_table where
  "Lookup_table = (case OperatorPriorityTable of Some (Ret t) \<Rightarrow> t | _ \<Rightarrow> [])"

definition GetPriority :: "PrecedenceLevel \<Rightarrow> PrecedenceLevel \<Rightarrow> OperatorPriority" where
  "GetPriority left right = tget Lookup_table (level_int left) (level_int right)"

fun GetAssociativity_cast :: "OperatorPriority \<Rightarrow> Associativity" where
  "GetAssociativity_cast LeftFirst = LeftToRight"
| "GetAssociativity_cast Ambiguous = NoAssociativity"
| "GetAssociativity_cast RightFirst = RightToLeft"

definition GetAssociativity :: "PrecedenceLevel \<Rightarrow> Associativity" where
  "GetAssociativity l = GetAssociativity_cast (GetPriority l l)"

section \<open>Levels of contexts and tokens\<close>

definition ForPostfixExpr :: PrecedenceLevel where "ForPostfixExpr = Highest"
definition ForTopLevelExpr :: PrecedenceLevel where "ForTopLevelExpr = If_level"
definition ForExprStatement :: PrecedenceLevel where "ForExprStatement = Lowest"
definition ForType :: PrecedenceLevel where "ForType = ForTopLevelExpr"
definition ForImplAs :: PrecedenceLevel where "ForImplAs = As"
definition ForRequirements :: PrecedenceLevel where "ForRequirements = Where"
definition ForTopLevelPattern :: PrecedenceLevel where "ForTopLevelPattern = Relational"

definition ForLeading :: "TokenKind \<Rightarrow> PrecedenceLevel option" where
  "ForLeading kind =
     (if kind = Symbol Star \<or> kind = Symbol Amp \<or> kind = Keyword Expand_kw then Some TermPrefix
      else if kind = Keyword Not_kw then Some LogicalPrefix
      else if kind = Symbol Minus then Some NumericPrefix
      else if kind = Symbol MinusMinus \<or> kind = Symbol PlusPlus then Some IncrementDecrement
      else if kind = Symbol Caret then Some BitwisePrefix
      else if kind = Keyword If_kw then Some If_level
      else if kind = Keyword Ref_kw then Some Ref
      else if kind = Keyword Const_kw \<or> kind = Keyword Partial_kw then Some TypePrefix
      else None)"

record Trailing =
  trailing_level :: PrecedenceLevel
  is_binary :: bool

definition binary :: "PrecedenceLevel \<Rightarrow> Trailing option" where
  "binary l = Some \<lparr>trailing_level = l, is_binary = True\<rparr>"

definition ForTrailing :: "TokenKind \<Rightarrow> bool \<Rightarrow> Trailing option" where
  "ForTrailing kind infix_position =
     (if kind \<in> Symbol ` {Equal, PlusEqual, MinusEqual, StarEqual, SlashEqual, PercentEqual, AmpEqual,
           PipeEqual, CaretEqual, GreaterGreaterEqual, LessLessEqual} then binary Assignment
      else if kind = Keyword And_kw then binary LogicalAnd
      else if kind = Keyword Or_kw then binary LogicalOr
      else if kind = Symbol Amp then binary BitwiseAnd
      else if kind = Symbol Pipe then binary BitwiseOr
      else if kind = Symbol Caret then binary BitwiseXor
      else if kind \<in> Symbol ` {GreaterGreater, LessLess} then binary BitShift
      else if kind \<in> Symbol ` {EqualEqual, ExclaimEqual, Less, LessEqual, Greater, GreaterEqual,
                LessEqualGreater} then binary Relational
      else if kind \<in> Symbol ` {Plus, Minus} then binary Additive
      else if kind = Symbol Slash then binary Multiplicative
      else if kind = Symbol Percent then binary Modulo
      else if kind = Symbol Star then
        (if infix_position then binary Multiplicative
         else Some \<lparr>trailing_level = TypePostfix, is_binary = False\<rparr>)
      else if kind = Keyword As_kw then binary As
      else if kind = Keyword Where_kw then binary Where
      else None)"


section \<open>The closure loop computes the transitive closure\<close>

definition square :: "nat \<Rightarrow> priority_table \<Rightarrow> bool" where
  "square n t \<longleftrightarrow> length t = n \<and> (\<forall>row \<in> set t. length row = n)"

definition left_rel :: "nat \<Rightarrow> priority_table \<Rightarrow> (nat \<times> nat) set" where
  "left_rel n t = {(a, b). a < n \<and> b < n \<and> tget t a b = LeftFirst}"

lemma square_tset: "square n t \<Longrightarrow> square n (tset t a b v)"
proof (cases "a < length t")
  case True
  assume "square n t"
  with True have "length ((t ! a)[b := v]) = n" "length t = n" "\<forall>row \<in> set t. length row = n"
    by (auto simp: square_def)
  then show ?thesis
    unfolding square_def tset_def using set_update_subset_insert [of t a "(t ! a)[b := v]"] by auto
qed (simp add: square_def tset_def list_update_beyond)

lemma tget_tset:
  assumes "square n t" "a < n" "b < n" "c < n" "d < n"
  shows "tget (tset t a b v) c d = (if c = a \<and> d = b then v else tget t c d)"
  using assms by (auto simp: tget_def tset_def square_def nth_list_update)

lemma left_rel_tset:
  "square n t \<Longrightarrow> a < n \<Longrightarrow> b < n \<Longrightarrow> left_rel n (tset t a b LeftFirst) = insert (a, b) (left_rel n t)"
  by (auto simp: left_rel_def tget_tset)

text \<open>
  What one step of a pass may do: add pairs of the transitive closure, and raise the flag
  exactly when it adds one.
\<close>

definition grows :: "nat \<Rightarrow> (priority_table \<times> bool \<Rightarrow> priority_table \<times> bool) \<Rightarrow> bool" where
  "grows n f \<longleftrightarrow> (\<forall>t ch t' ch'. square n t \<longrightarrow> f (t, ch) = (t', ch') \<longrightarrow>
     square n t' \<and> left_rel n t \<subseteq> left_rel n t' \<and> left_rel n t' \<subseteq> (left_rel n t)\<^sup>+
     \<and> (if ch' then ch \<or> left_rel n t \<subset> left_rel n t' else \<not> ch \<and> t' = t))"

lemma growsD:
  assumes "grows n f" "square n t" "f (t, ch) = (t', ch')"
  shows "square n t'" "left_rel n t \<subseteq> left_rel n t'" "left_rel n t' \<subseteq> (left_rel n t)\<^sup>+"
    "ch' \<Longrightarrow> ch \<or> left_rel n t \<subset> left_rel n t'" "\<not> ch' \<Longrightarrow> \<not> ch \<and> t' = t"
  using assms unfolding grows_def by (metis (full_types))+

lemma grows_comp:
  assumes "grows n f" "grows n g"
  shows "grows n (\<lambda>s. g (f s))"
  unfolding grows_def
proof (intro allI impI)
  fix t ch t' ch' assume sq: "square n t" and eq: "g (f (t, ch)) = (t', ch')"
  obtain t1 ch1 where f: "f (t, ch) = (t1, ch1)" by fastforce
  note F = growsD [OF assms(1) sq f]
  note G = growsD [OF assms(2) F(1) eq [unfolded f]]
  have "left_rel n t' \<subseteq> (left_rel n t)\<^sup>+"
  proof
    fix p assume "p \<in> left_rel n t'"
    then have "p \<in> (left_rel n t1)\<^sup>+" using G(3) by blast
    then have "p \<in> ((left_rel n t)\<^sup>+)\<^sup>+" using F(3) by (rule trancl_mono)
    then show "p \<in> (left_rel n t)\<^sup>+" by (simp add: trancl_id)
  qed
  moreover have "if ch' then ch \<or> left_rel n t \<subset> left_rel n t' else \<not> ch \<and> t' = t"
    using F(2,4,5) G(2,4,5) by (cases ch'; cases ch1) auto
  ultimately show "square n t' \<and> left_rel n t \<subseteq> left_rel n t' \<and> left_rel n t' \<subseteq> (left_rel n t)\<^sup>+
     \<and> (if ch' then ch \<or> left_rel n t \<subset> left_rel n t' else \<not> ch \<and> t' = t)"
    using F(2) G(1,2) by blast
qed

lemma grows_id: "grows n (\<lambda>s. s)"
  by (auto simp: grows_def)

lemma grows_fold: "(\<And>x. x \<in> set xs \<Longrightarrow> grows n (f x)) \<Longrightarrow> grows n (fold f xs)"
proof (induction xs)
  case Nil
  show ?case unfolding fold_simps id_def by (rule grows_id)
next
  case (Cons x xs)
  then have "grows n (\<lambda>s. fold f xs (f x s))"
    using grows_comp [of n "f x" "fold f xs"] by simp
  then show ?case by (simp add: comp_def)
qed

lemma grows_stable_fold:
  assumes "\<And>x. x \<in> set xs \<Longrightarrow> grows n (f x)" "square n t" "fold f xs (t, False) = (t', False)"
  shows "t' = t \<and> (\<forall>x \<in> set xs. f x (t, False) = (t, False))"
  using assms
proof (induction xs)
  case (Cons x xs)
  obtain t1 ch1 where f: "f x (t, False) = (t1, ch1)" by fastforce
  have rest: "fold f xs (t1, ch1) = (t', False)" using Cons.prems(3) f by simp
  have gx: "grows n (f x)" and gs: "grows n (fold f xs)" using Cons.prems(1) by (auto intro: grows_fold)
  have "\<not> ch1" using growsD(5) [OF gs growsD(1) [OF gx Cons.prems(2) f] rest] by simp
  then have "t1 = t" "ch1 = False" using growsD(5) [OF gx Cons.prems(2) f] by simp_all
  with Cons f rest show ?case by auto
qed simp

lemma close_c_grows:
  assumes "a < n" "b < n" "c < n"
  shows "grows n (\<lambda>s. if tget (fst s) a b = LeftFirst then close_c a b c s else s)"
  unfolding grows_def
proof (intro allI impI)
  fix t ch t' ch' assume sq: "square n t"
    and eq: "(if tget (fst (t, ch)) a b = LeftFirst then close_c a b c (t, ch) else (t, ch)) = (t', ch')"
  show "square n t' \<and> left_rel n t \<subseteq> left_rel n t' \<and> left_rel n t' \<subseteq> (left_rel n t)\<^sup>+
     \<and> (if ch' then ch \<or> left_rel n t \<subset> left_rel n t' else \<not> ch \<and> t' = t)"
  proof (cases "tget t a b = LeftFirst \<and> tget t b c = LeftFirst \<and> tget t a c \<noteq> LeftFirst")
    case True
    then have t': "t' = tset t a c LeftFirst" "ch'" using eq by (auto simp: close_c_def)
    have ab: "(a, b) \<in> left_rel n t" "(b, c) \<in> left_rel n t" "(a, c) \<notin> left_rel n t"
      using True assms by (auto simp: left_rel_def)
    then have "(a, c) \<in> (left_rel n t)\<^sup>+" by (meson trancl.simps)
    with ab t' left_rel_tset [OF sq assms(1,3)] square_tset [OF sq] show ?thesis by auto
  next
    case False
    then show ?thesis using eq sq by (auto simp: close_c_def split: if_splits)
  qed
qed

text \<open>Within the loop over \<open>c\<close> the entry that admitted it stays.\<close>

lemma close_b_alt:
  assumes "square n t" "a < n" "b < n" "m \<le> n"
  shows "tget t a b = LeftFirst \<Longrightarrow> fold (close_c a b) [0..<m] (t, ch)
    = fold (\<lambda>c s. if tget (fst s) a b = LeftFirst then close_c a b c s else s) [0..<m] (t, ch)
    \<and> tget (fst (fold (close_c a b) [0..<m] (t, ch))) a b = LeftFirst"
  using assms(4)
proof (induction m)
  case (Suc m)
  let ?g = "\<lambda>c s. if tget (fst s) a b = LeftFirst then close_c a b c s else s"
  obtain t1 ch1 where s1: "fold (close_c a b) [0..<m] (t, ch) = (t1, ch1)" by fastforce
  have IH: "fold ?g [0..<m] (t, ch) = (t1, ch1)" "tget t1 a b = LeftFirst"
    using Suc s1 by auto
  have "grows n (fold ?g [0..<m])" using Suc.prems(2) assms(2,3) by (intro grows_fold) (auto intro: close_c_grows)
  from growsD(1) [OF this assms(1) IH(1)] have sq: "square n t1" .
  have "tget (fst (close_c a b m (t1, ch1))) a b = LeftFirst"
    using IH(2) sq Suc.prems(2) assms(2,3) by (auto simp: close_c_def tget_tset)
  with s1 IH show ?case by simp
qed simp

lemma close_b_grows:
  assumes "a < n" "b < n"
  shows "grows n (close_b n a b)"
proof -
  let ?g = "\<lambda>c s. if tget (fst s) a b = LeftFirst then close_c a b c s else s"
  have g: "grows n (fold ?g [0..<n])" using assms by (intro grows_fold) (auto intro: close_c_grows)
  show ?thesis
    unfolding grows_def
  proof (intro allI impI)
    fix t ch t' ch' assume sq: "square n t" and eq: "close_b n a b (t, ch) = (t', ch')"
    show "square n t' \<and> left_rel n t \<subseteq> left_rel n t' \<and> left_rel n t' \<subseteq> (left_rel n t)\<^sup>+
       \<and> (if ch' then ch \<or> left_rel n t \<subset> left_rel n t' else \<not> ch \<and> t' = t)"
    proof (cases "tget t a b = LeftFirst")
      case True
      with eq close_b_alt [OF sq assms order_refl True] have "fold ?g [0..<n] (t, ch) = (t', ch')"
        by (simp add: close_b_def)
      with g sq show ?thesis unfolding grows_def by blast
    next
      case False
      with eq sq show ?thesis by (auto simp: close_b_def)
    qed
  qed
qed

lemma close_row_grows: "a < n \<Longrightarrow> grows n (fold (close_b n a) [0..<n])"
  using close_b_grows [of a n] by (intro grows_fold) auto

lemma closure_pass_grows: "grows n (fold (\<lambda>a. fold (close_b n a) [0..<n]) [0..<n])"
  by (rule grows_fold) (simp add: close_row_grows)

lemma closure_pass_stable:
  assumes "square n t" "closure_pass n t = (t', False)"
  shows "t' = t" "trans (left_rel n t)"
proof -
  note outer = grows_stable_fold [OF _ assms(1) assms(2)[unfolded closure_pass_def]]
  have o: "t' = t \<and> (\<forall>a \<in> set [0..<n]. fold (close_b n a) [0..<n] (t, False) = (t, False))"
    by (rule outer) (simp add: close_row_grows)
  then show "t' = t" by blast
  show "trans (left_rel n t)"
  proof (rule transI)
    fix a b c assume ab: "(a, b) \<in> left_rel n t" and bc: "(b, c) \<in> left_rel n t"
    then have lt: "a < n" "b < n" "c < n" by (auto simp: left_rel_def)
    have "\<forall>b \<in> set [0..<n]. close_b n a b (t, False) = (t, False)"
      using grows_stable_fold [OF _ assms(1), of "[0..<n]" "close_b n a" t] o lt close_b_grows by auto
    then have b: "fold (close_c a b) [0..<n] (t, False) = (t, False)"
      using lt ab by (auto simp: close_b_def left_rel_def split: if_splits)
    let ?g = "\<lambda>c s. if tget (fst s) a b = LeftFirst then close_c a b c s else s"
    have "tget t a b = LeftFirst" using ab by (simp add: left_rel_def)
    from close_b_alt [OF assms(1) lt(1,2) order_refl this, of False] b
    have "fold ?g [0..<n] (t, False) = (t, False)" by simp
    then have "\<forall>c \<in> set [0..<n]. ?g c (t, False) = (t, False)"
      using grows_stable_fold [OF _ assms(1), of "[0..<n]" ?g t] close_c_grows lt by auto
    then have "close_c a b c (t, False) = (t, False)" using lt ab by (auto simp: left_rel_def)
    then show "(a, c) \<in> left_rel n t"
      using bc lt by (auto simp: close_c_def left_rel_def split: if_splits)
  qed
qed


lemma finite_left_rel: "finite (left_rel n t)"
  by (rule finite_subset [of _ "{0..<n} \<times> {0..<n}"]) (auto simp: left_rel_def)

lemma card_left_rel: "card (left_rel n t) \<le> n * n"
proof -
  have "card (left_rel n t) \<le> card ({0..<n} \<times> {0..<n})"
    by (rule card_mono) (auto simp: left_rel_def)
  then show ?thesis by simp
qed

lemma MakeTransitivelyClosed_spec:
  "square n t \<Longrightarrow> \<exists>t'. MakeTransitivelyClosed n t = Some t' \<and> square n t'
     \<and> left_rel n t' = (left_rel n t)\<^sup>+"
proof (induction "n * n - card (left_rel n t)" arbitrary: t rule: less_induct)
  case less
  obtain t1 ch where pass: "closure_pass n t = (t1, ch)" by fastforce
  note g = growsD [OF closure_pass_grows less.prems pass[unfolded closure_pass_def]]
  show ?case
  proof (cases ch)
    case False
    with pass have p: "closure_pass n t = (t1, False)" by simp
    have "MakeTransitivelyClosed n t = Some t1"
      by (subst MakeTransitivelyClosed.simps) (simp add: p)
    moreover have "left_rel n t1 = (left_rel n t)\<^sup>+"
      using closure_pass_stable [OF less.prems p] by (simp add: trancl_id)
    ultimately show ?thesis using g(1) by blast
  next
    case True
    with g(4) have sub: "left_rel n t \<subset> left_rel n t1" by blast
    have "card (left_rel n t) < card (left_rel n t1)"
      using psubset_card_mono [OF finite_left_rel sub] .
    then have "n * n - card (left_rel n t1) < n * n - card (left_rel n t)"
      using card_left_rel [of n t1] by linarith
    from less.hyps [OF this g(1)] obtain t' where t': "MakeTransitivelyClosed n t1 = Some t'"
      "square n t'" "left_rel n t' = (left_rel n t1)\<^sup>+" by blast
    have "MakeTransitivelyClosed n t = Some t'"
      by (subst MakeTransitivelyClosed.simps) (simp add: pass True t'(1))
    moreover have "(left_rel n t1)\<^sup>+ = (left_rel n t)\<^sup>+"
    proof
      show "(left_rel n t1)\<^sup>+ \<subseteq> (left_rel n t)\<^sup>+"
        using trancl_mono [OF _ g(3)] trancl_id [OF trans_trancl] by blast
      show "(left_rel n t)\<^sup>+ \<subseteq> (left_rel n t1)\<^sup>+" using trancl_mono [OF _ g(2)] by blast
    qed
    ultimately show ?thesis using t' by simp
  qed
qed

section \<open>The table of the operators\<close>

text \<open>The pairs of the declared relationships.\<close>

definition declared_higher :: "(PrecedenceLevel \<times> PrecedenceLevel) set" where
  "declared_higher = {(h, l). \<exists>(hs, ls) \<in> set declared. h \<in> set hs \<and> l \<in> set ls}"

definition all_levels :: "PrecedenceLevel list" where
  "all_levels =
     [Highest, TermPrefix, IncrementDecrement, NumericPrefix, Modulo, Multiplicative, Additive,
      BitwisePrefix, BitwiseAnd, BitwiseOr, BitwiseXor, BitShift, TypePrefix, TypePostfix, Where, As,
      LogicalPrefix, Relational, LogicalAnd, LogicalOr, If_level, Ref, Assignment, Lowest]"

lemma all_levels_complete: "l \<in> set all_levels"
  by (cases l) (simp_all add: all_levels_def)

lemma level_int_nth: "level_int l < 24 \<and> all_levels ! level_int l = l"
  by (cases l) (simp_all add: all_levels_def)

lemma level_int_inj: "level_int l = level_int r \<longleftrightarrow> l = r"
  using level_int_nth by metis

lemma square_declared: "square 24 declared_table"
  unfolding square_def by code_simp

lemma declared_entries:
  "\<forall>h \<in> set all_levels. \<forall>l \<in> set all_levels. tget declared_table (level_int h) (level_int l) = LeftFirst
     \<longleftrightarrow> (\<exists>(hs, ls) \<in> set declared. h \<in> set hs \<and> l \<in> set ls)"
  by code_simp


text \<open>The table after the closure loop and the finished table, one string per row.\<close>

definition priority_of_char :: "char \<Rightarrow> OperatorPriority" where
  "priority_of_char c =
     (if c = CHR ''<'' then LeftFirst else if c = CHR ''>'' then RightFirst else Ambiguous)"

definition closed_table :: priority_table where
  "closed_table = map (map priority_of_char)
     [''.<<<<<<<<<<<<<<<<<<<<<<<'',
      ''..<<<<<<<<<<..<<.<<<<<<<'',
      ''.......................<'',
      ''....<<<.<<<<..<<.<<<<<<<'',
      ''..............<..<<<<<<<'',
      ''......<.......<..<<<<<<<'',
      ''..............<..<<<<<<<'',
      ''....<<<.<<<<..<<.<<<<<<<'',
      ''..............<..<<<<<<<'',
      ''..............<..<<<<<<<'',
      ''..............<..<<<<<<<'',
      ''..............<..<<<<<<<'',
      ''....<<<.<<<<.<<<.<<<<<<<'',
      ''....<<<.<<<<..<<.<<<<<<<'',
      ''....................<<<<'',
      ''....................<<<<'',
      ''..................<<<<<<'',
      ''..................<<<<<<'',
      ''....................<<<<'',
      ''....................<<<<'',
      ''......................<<'',
      ''....................<.<<'',
      ''.......................<'',
      ''........................'']"

definition finished_table :: priority_table where
  "finished_table = map (map priority_of_char)
     [''.<<<<<<<<<<<<<<<<<<<<<<<'',
      ''>><<<<<<<<<<..<<.<<<<<<<'',
      ''>>.....................<'',
      ''>>..<<<.<<<<..<<.<<<<<<<'',
      ''>>.>...>....>><..<<<<<<<'',
      ''>>.>.<<>....>><..<<<<<<<'',
      ''>>.>.><>....>><..<<<<<<<'',
      ''>>..<<<.<<<<..<<.<<<<<<<'',
      ''>>.>...><...>><..<<<<<<<'',
      ''>>.>...>.<..>><..<<<<<<<'',
      ''>>.>...>..<.>><..<<<<<<<'',
      ''>>.>...>....>><..<<<<<<<'',
      ''>...<<<.<<<<.<<<.<<<<<<<'',
      ''>...<<<.<<<<><<<.<<<<<<<'',
      ''>>.>>>>>>>>>>>......<<<<'',
      ''>>.>...>....>>......<<<<'',
      ''>.................<<<<<<'',
      ''>>.>>>>>>>>>>>....<<<<<<'',
      ''>>.>>>>>>>>>>>..>><.<<<<'',
      ''>>.>>>>>>>>>>>..>>.<<<<<'',
      ''>>.>>>>>>>>>>>>>>>>>>><<'',
      ''>>.>>>>>>>>>>>>>>>>><.<<'',
      ''>>.>>>>>>>>>>>>>>>>>>>.<'',
      ''>>>>>>>>>>>>>>>>>>>>>>>.'']"

lemma closed_table_eq: "MakeTransitivelyClosed NumPrecedenceLevels declared_table = Some closed_table"
  by code_simp

lemma finished_table_eq:
  "bind_outcome (MakeSymmetric NumPrecedenceLevels closed_table) (\<lambda>t. ConsistencyCheck (AddAssociativityRules t))
     = Ret finished_table"
  by code_simp

lemma OperatorPriorityTable_eq: "OperatorPriorityTable = Some (Ret finished_table)"
  by (simp add: OperatorPriorityTable_def closed_table_eq finished_table_eq)

lemma GetPriority_eq: "GetPriority l r = tget finished_table (level_int l) (level_int r)"
  by (simp add: GetPriority_def Lookup_table_def OperatorPriorityTable_eq)

definition entries_agree :: "priority_table \<Rightarrow> priority_table \<Rightarrow> bool" where
  "entries_agree f c \<longleftrightarrow> (\<forall>l \<in> set all_levels. \<forall>r \<in> set all_levels. l = r \<or>
     (tget f (level_int l) (level_int r) = LeftFirst \<longleftrightarrow> tget c (level_int l) (level_int r) = LeftFirst)
     \<and> (tget f (level_int l) (level_int r) = RightFirst \<longleftrightarrow> tget c (level_int r) (level_int l) = LeftFirst))"

lemma finished_entries: "entries_agree finished_table closed_table"
  by code_simp

lemma closed_is_trancl: "left_rel 24 closed_table = (left_rel 24 declared_table)\<^sup>+"
  using MakeTransitivelyClosed_spec [OF square_declared] closed_table_eq
  by (auto simp: NumPrecedenceLevels_def)

lemma left_rel_declared: "left_rel 24 declared_table = (\<lambda>(h, l). (level_int h, level_int l)) ` declared_higher"
proof (intro set_eqI iffI)
  fix p assume "p \<in> left_rel 24 declared_table"
  then obtain a b where p: "p = (a, b)" "a < 24" "b < 24" "tget declared_table a b = LeftFirst"
    by (auto simp: left_rel_def)
  have len: "length all_levels = 24" by (simp add: all_levels_def)
  have idx: "level_int (all_levels ! i) = i" if "i < 24" for i
  proof -
    have "map level_int all_levels = [0..<24]" by code_simp
    then show ?thesis using that len by (metis add_0 nth_map nth_upt)
  qed
  have "(all_levels ! a, all_levels ! b) \<in> declared_higher"
    using declared_entries [rule_format, OF all_levels_complete all_levels_complete,
        of "all_levels ! a" "all_levels ! b"] p idx by (simp add: declared_higher_def)
  then show "p \<in> (\<lambda>(h, l). (level_int h, level_int l)) ` declared_higher"
    using p idx by (intro image_eqI [of _ _ "(all_levels ! a, all_levels ! b)"]) auto
next
  fix p assume "p \<in> (\<lambda>(h, l). (level_int h, level_int l)) ` declared_higher"
  then show "p \<in> left_rel 24 declared_table"
    using declared_entries all_levels_complete level_int_nth by (auto simp: declared_higher_def left_rel_def)
qed

lemma trancl_image_inj:
  assumes "inj f"
  shows "(f x, f y) \<in> ((\<lambda>(h, l). (f h, f l)) ` R)\<^sup>+ \<longleftrightarrow> (x, y) \<in> R\<^sup>+"
proof
  have "\<exists>y. q = f y \<and> (x, y) \<in> R\<^sup>+" if "(f x, q) \<in> ((\<lambda>(h, l). (f h, f l)) ` R)\<^sup>+" for q
    using that
  proof (induction rule: trancl_induct)
    case (base y)
    then show ?case using injD [OF assms] by (auto dest: injD [OF assms])
  next
    case (step y z)
    then show ?case using injD [OF assms] by (auto dest: injD [OF assms] intro: trancl_into_trancl)
  qed
  then show "(f x, f y) \<in> ((\<lambda>(h, l). (f h, f l)) ` R)\<^sup>+ \<Longrightarrow> (x, y) \<in> R\<^sup>+"
    using injD [OF assms] by blast
  show "(x, y) \<in> R\<^sup>+ \<Longrightarrow> (f x, f y) \<in> ((\<lambda>(h, l). (f h, f l)) ` R)\<^sup>+"
  proof (induction rule: trancl_induct)
    case (base y)
    then show ?case by force
  next
    case (step y z)
    then have "(f y, f z) \<in> (\<lambda>(h, l). (f h, f l)) ` R" by force
    with step.IH show ?case by (rule trancl_into_trancl)
  qed
qed

lemma closed_entry_iff:
  "tget closed_table (level_int l) (level_int r) = LeftFirst \<longleftrightarrow> (l, r) \<in> declared_higher\<^sup>+"
proof -
  have "tget closed_table (level_int l) (level_int r) = LeftFirst
      \<longleftrightarrow> (level_int l, level_int r) \<in> left_rel 24 closed_table"
    using level_int_nth by (simp add: left_rel_def)
  also have "\<dots> \<longleftrightarrow> (l, r) \<in> declared_higher\<^sup>+"
    unfolding closed_is_trancl left_rel_declared
    by (rule trancl_image_inj) (simp add: inj_def level_int_inj)
  finally show ?thesis .
qed

text \<open>The levels the token lookups return, and what the table says of them.\<close>

definition leading_levels :: "PrecedenceLevel list" where
  "leading_levels = [TermPrefix, LogicalPrefix, NumericPrefix, IncrementDecrement, BitwisePrefix, If_level,
     Ref, TypePrefix]"

definition trailing_levels :: "PrecedenceLevel list" where
  "trailing_levels = [Assignment, LogicalAnd, LogicalOr, BitwiseAnd, BitwiseOr, BitwiseXor, BitShift,
     Relational, Additive, Multiplicative, Modulo, TypePostfix, As, Where]"

lemma ForLeading_levels: "ForLeading k = Some l \<Longrightarrow> l \<in> set leading_levels"
  by (auto simp: ForLeading_def leading_levels_def split: if_splits)

lemma ForTrailing_levels: "ForTrailing k b = Some t \<Longrightarrow> trailing_level t \<in> set trailing_levels"
  unfolding ForTrailing_def binary_def trailing_levels_def
  by (simp split: if_splits) auto

definition sentinels_agree :: "priority_table \<Rightarrow> bool" where
  "sentinels_agree t \<longleftrightarrow>
     (\<forall>l \<in> set (leading_levels @ trailing_levels).
        tget t (level_int Highest) (level_int l) = LeftFirst \<and> tget t (level_int l) (level_int Lowest) = LeftFirst)
     \<and> (\<forall>l \<in> set trailing_levels. l = Assignment \<or> tget t (level_int l) (level_int If_level) = LeftFirst)"

lemma sentinel_entries: "sentinels_agree finished_table"
  by code_simp

definition associativity_agree :: "priority_table \<Rightarrow> bool" where
  "associativity_agree t \<longleftrightarrow> (\<forall>l \<in> set all_levels.
     (GetAssociativity_cast (tget t (level_int l) (level_int l)) = LeftToRight \<longleftrightarrow>
        l \<in> {Multiplicative, Additive, BitwiseAnd, BitwiseOr, BitwiseXor, LogicalAnd, LogicalOr, TypePostfix})
     \<and> (GetAssociativity_cast (tget t (level_int l) (level_int l)) = RightToLeft \<longleftrightarrow> l \<in> {TermPrefix, If_level}))"

lemma associativity_entries: "associativity_agree finished_table"
  by code_simp

section \<open>Properties\<close>

text \<open>
  C35. On every square table \<open>MakeTransitivelyClosed\<close> returns, and the relation it leaves is the
  transitive closure of the relation it was given.
\<close>

theorem closure_loop_computes_closure:
  assumes "square n t"
  shows "\<exists>t'. MakeTransitivelyClosed n t = Some t' \<and> square n t' \<and> left_rel n t' = (left_rel n t)\<^sup>+"
  using assms by (rule MakeTransitivelyClosed_spec)

text \<open>
  C34. The table is built without a failed check, and for different levels the priority is
  \<open>LeftFirst\<close> exactly when the left level is above the right one by the declared relationships
  and their transitive consequences, and \<open>RightFirst\<close> exactly in the opposite case.
\<close>

theorem priority_is_declared_order:
  "(\<exists>t. OperatorPriorityTable = Some (Ret t))
   \<and> (l \<noteq> r \<longrightarrow> (GetPriority l r = LeftFirst \<longleftrightarrow> (l, r) \<in> declared_higher\<^sup>+)
        \<and> (GetPriority l r = RightFirst \<longleftrightarrow> (r, l) \<in> declared_higher\<^sup>+))"
  using finished_entries all_levels_complete OperatorPriorityTable_eq
  by (auto simp: entries_agree_def GetPriority_eq closed_entry_iff)

text \<open>
  Every prefix, infix or postfix operator binds looser than a postfix expression and
  tighter than a statement; every trailing operator but assignment binds tighter than a
  top-level expression, so that it can occur in one without parentheses.
\<close>

theorem operators_between_sentinels:
  assumes "ForLeading k = Some l \<or> ForTrailing k b = Some \<lparr>trailing_level = l, is_binary = bin\<rparr>"
  shows "GetPriority ForPostfixExpr l = LeftFirst \<and> GetPriority l ForExprStatement = LeftFirst
    \<and> (ForTrailing k b = Some \<lparr>trailing_level = l, is_binary = bin\<rparr> \<longrightarrow>
         l = Assignment \<or> GetPriority l ForTopLevelExpr = LeftFirst)"
proof -
  have "l \<in> set leading_levels \<or> l \<in> set trailing_levels"
    and trail: "ForTrailing k b = Some \<lparr>trailing_level = l, is_binary = bin\<rparr> \<Longrightarrow> l \<in> set trailing_levels"
    using assms ForLeading_levels ForTrailing_levels by fastforce+
  with sentinel_entries show ?thesis
    by (auto simp: sentinels_agree_def GetPriority_eq ForPostfixExpr_def ForExprStatement_def ForTopLevelExpr_def)
qed

text \<open>
  Associativity: exactly the traditionally associative operators and the postfix \<open>*\<close> are
  left to right, exactly the term prefixes and \<open>if\<close> right to left, and a chain of any other
  operator needs parentheses.
\<close>

theorem associativity_rules:
  "(GetAssociativity l = LeftToRight \<longleftrightarrow> l \<in> {Multiplicative, Additive, BitwiseAnd, BitwiseOr, BitwiseXor,
       LogicalAnd, LogicalOr, TypePostfix})
   \<and> (GetAssociativity l = RightToLeft \<longleftrightarrow> l \<in> {TermPrefix, If_level})"
  using associativity_entries all_levels_complete [of l]
  by (auto simp: GetAssociativity_def GetPriority_eq associativity_agree_def)

section \<open>Witnesses\<close>

lemma closure_loop_computes_closure_witness:
  "\<exists>t'. MakeTransitivelyClosed 24 declared_table = Some t' \<and> left_rel 24 t' = (left_rel 24 declared_table)\<^sup>+"
  using closure_loop_computes_closure [OF square_declared] by blast

lemma priority_is_declared_order_witness:
  "GetPriority Multiplicative Additive = LeftFirst \<longleftrightarrow> (Multiplicative, Additive) \<in> declared_higher\<^sup>+"
  using priority_is_declared_order [of Multiplicative Additive] by simp

lemma operators_between_sentinels_witness:
  "GetPriority ForPostfixExpr NumericPrefix = LeftFirst \<and> GetPriority NumericPrefix ForExprStatement = LeftFirst"
  using operators_between_sentinels [of "Symbol Minus" NumericPrefix] by (simp add: ForLeading_def)

end
