(* ===== verification/Token_Info.thy ===== *)
theory Token_Info
  imports Token_Kind Int_Store
begin

text \<open>
  Packed token information: \<open>toolchain/lex/token_info.h\<close> and \<open>token_index.h\<close>.

  The payload is a bitfield of 23 bits. A constructor that leaves it out leaves it
  uninitialised: the payload is then \<open>None\<close>, and reading it is an error of the program, as a
  failed check is. A \<open>TokenIndex\<close> is an \<open>int\<close>, its \<open>None\<close> being \<open>-1\<close>.
\<close>

section \<open>Data\<close>

definition TokenIndex_Bits :: nat where
  "TokenIndex_Bits = 23"

definition TokenIndex_Max :: nat where
  "TokenIndex_Max = 2 ^ TokenIndex_Bits"

definition TokenIndex_None :: int where
  "TokenIndex_None = -1"

record TokenInfo =
  ti_kind :: TokenKind
  ti_has_leading_space :: bool
  ti_payload :: "23 word option"
  ti_byte_offset :: nat

definition TokenInfo_plain :: "TokenKind \<Rightarrow> bool \<Rightarrow> nat \<Rightarrow> TokenInfo" where
  "TokenInfo_plain kind has_leading_space byte_offset =
     \<lparr>ti_kind = kind, ti_has_leading_space = has_leading_space, ti_payload = None,
      ti_byte_offset = byte_offset\<rparr>"

definition TokenInfo_payload :: "TokenKind \<Rightarrow> bool \<Rightarrow> int \<Rightarrow> nat \<Rightarrow> TokenInfo" where
  "TokenInfo_payload kind has_leading_space payload byte_offset =
     \<lparr>ti_kind = kind, ti_has_leading_space = has_leading_space, ti_payload = Some (word_of_int payload),
      ti_byte_offset = byte_offset\<rparr>"

definition WithLeadingSpace :: "bool \<Rightarrow> TokenInfo \<Rightarrow> TokenInfo" where
  "WithLeadingSpace b ti = ti\<lparr>ti_has_leading_space := b\<rparr>"

section \<open>Accessors\<close>

definition token_payload :: "TokenInfo \<Rightarrow> 23 word outcome" where
  "token_payload ti = (case ti_payload ti of None \<Rightarrow> Fatal | Some p \<Rightarrow> Ret p)"

definition ident_id :: "TokenInfo \<Rightarrow> 32 word outcome" where
  "ident_id ti = carbon_check (ti_kind ti = Identifier)
     (bind_outcome (token_payload ti) (\<lambda>p. Ret (ucast p)))"

definition set_ident_id :: "32 word \<Rightarrow> TokenInfo \<Rightarrow> TokenInfo outcome" where
  "set_ident_id tid ti = carbon_check (ti_kind ti = Identifier) (Ret (ti\<lparr>ti_payload := Some (ucast tid)\<rparr>))"

definition string_literal_id :: "TokenInfo \<Rightarrow> 32 word outcome" where
  "string_literal_id ti = carbon_check (ti_kind ti = StringLiteral)
     (bind_outcome (token_payload ti) (\<lambda>p. Ret (ucast p)))"

definition char_literal_value :: "TokenInfo \<Rightarrow> int outcome" where
  "char_literal_value ti = carbon_check (ti_kind ti = CharLiteral)
     (bind_outcome (token_payload ti) (\<lambda>p. Ret (uint p)))"

definition int_id :: "TokenInfo \<Rightarrow> IntId outcome" where
  "int_id ti = carbon_check (ti_kind ti \<in> {IntLiteral, IntTypeLiteral, UnsignedIntTypeLiteral,
       FloatTypeLiteral, DollarIntLiteral})
     (bind_outcome (token_payload ti) (\<lambda>p. Ret (MakeFromTokenPayload (ucast p))))"

definition real_id :: "TokenInfo \<Rightarrow> 32 word outcome" where
  "real_id ti = carbon_check (ti_kind ti = RealLiteral)
     (bind_outcome (token_payload ti) (\<lambda>p. Ret (ucast p)))"

definition closing_token_index :: "TokenInfo \<Rightarrow> int outcome" where
  "closing_token_index ti = carbon_check (is_opening_symbol (ti_kind ti))
     (bind_outcome (token_payload ti) (\<lambda>p. Ret (uint p)))"

definition set_closing_token_index :: "int \<Rightarrow> TokenInfo \<Rightarrow> TokenInfo outcome" where
  "set_closing_token_index i ti = carbon_check (is_opening_symbol (ti_kind ti))
     (Ret (ti\<lparr>ti_payload := Some (word_of_int i)\<rparr>))"

definition opening_token_index :: "TokenInfo \<Rightarrow> int outcome" where
  "opening_token_index ti = carbon_check (is_closing_symbol (ti_kind ti))
     (bind_outcome (token_payload ti) (\<lambda>p. Ret (uint p)))"

definition set_opening_token_index :: "int \<Rightarrow> TokenInfo \<Rightarrow> TokenInfo outcome" where
  "set_opening_token_index i ti = carbon_check (is_closing_symbol (ti_kind ti))
     (Ret (ti\<lparr>ti_payload := Some (word_of_int i)\<rparr>))"

definition error_length :: "TokenInfo \<Rightarrow> nat outcome" where
  "error_length ti = carbon_check (ti_kind ti = Error)
     (bind_outcome (token_payload ti) (\<lambda>p. Ret (unat p)))"

definition AsError :: "nat \<Rightarrow> TokenInfo \<Rightarrow> TokenInfo" where
  "AsError len ti = TokenInfo_payload Error (ti_has_leading_space ti) (int len) (ti_byte_offset ti)"

definition AsErrorRecoveryIdentifier :: "32 word \<Rightarrow> TokenInfo \<Rightarrow> TokenInfo outcome" where
  "AsErrorRecoveryIdentifier tid ti = carbon_check (is_word (ti_kind ti))
     (Ret (TokenInfo_payload Identifier (ti_has_leading_space ti) (sint tid) (ti_byte_offset ti)))"

section \<open>Payloads\<close>

lemma payload_uint: "0 \<le> i \<Longrightarrow> i < 2 ^ 23 \<Longrightarrow> uint (word_of_int i :: 23 word) = i"
  by (simp add: uint_word_of_int take_bit_eq_mod)

lemma payload_unat: "n < 2 ^ 23 \<Longrightarrow> unat (word_of_nat n :: 23 word) = n"
  by (simp add: unat_of_nat take_bit_nat_eq_self)

lemma payload_ucast:
  assumes "unat w < 2 ^ 23"
  shows "(ucast (ucast w :: 23 word) :: 32 word) = w"
proof -
  have "unat (ucast (ucast w :: 23 word) :: 32 word) = unat w"
    using assms by (simp add: unsigned_ucast_eq unsigned_take_bit_eq take_bit_nat_eq_self)
  then show ?thesis by (rule unsigned_word_eqI)
qed

lemma payload_sint_ucast: "(scast (w :: 32 word) :: 23 word) = ucast w"
  by (rule bit_word_eqI) (simp add: bit_signed_iff bit_unsigned_iff)

lemma TokenInfo_payload_simps [simp]:
  "ti_kind (TokenInfo_payload k sp p off) = k"
  "ti_has_leading_space (TokenInfo_payload k sp p off) = sp"
  "ti_byte_offset (TokenInfo_payload k sp p off) = off"
  "token_payload (TokenInfo_payload k sp p off) = Ret (word_of_int p)"
  by (simp_all add: TokenInfo_payload_def token_payload_def)

lemma TokenInfo_plain_simps [simp]:
  "ti_kind (TokenInfo_plain k sp off) = k"
  "ti_has_leading_space (TokenInfo_plain k sp off) = sp"
  "ti_byte_offset (TokenInfo_plain k sp off) = off"
  by (simp_all add: TokenInfo_plain_def)

lemma token_payload_update [simp]: "token_payload (ti\<lparr>ti_payload := Some p\<rparr>) = Ret p"
  by (simp add: token_payload_def)

lemma error_length_payload: "n < 2 ^ 23 \<Longrightarrow> error_length (TokenInfo_payload Error sp (int n) off) = Ret n"
  by (simp add: error_length_def payload_unat)

lemma ident_id_payload:
  "unat tid < 2 ^ 23 \<Longrightarrow> ident_id (TokenInfo_payload Identifier sp (sint tid) off) = Ret tid"
  by (simp add: ident_id_def payload_sint_ucast payload_ucast)

section \<open>Properties\<close>

text \<open>
  C39. What a token is built with is read back: a token index, an error length or an id below
  the limit of 23 bits through each accessor of its kind. The \<open>None\<close> index does not survive:
  it is read back as the largest index a payload can hold.
\<close>

theorem token_payload_round_trip:
  "(\<forall>i. 0 \<le> i \<and> i < int TokenIndex_Max \<longrightarrow>
      (\<forall>k. is_opening_symbol k \<longrightarrow>
         bind_outcome (set_closing_token_index i (TokenInfo_plain k sp off)) closing_token_index = Ret i) \<and>
      (\<forall>k. is_closing_symbol k \<longrightarrow> opening_token_index (TokenInfo_payload k sp i off) = Ret i) \<and>
      error_length (TokenInfo_payload Error sp i off) = Ret (nat i)) \<and>
   (\<forall>tid. unat tid < TokenIndex_Max \<longrightarrow>
      ident_id (TokenInfo_payload Identifier sp (sint tid) off) = Ret tid) \<and>
   (\<forall>k. is_closing_symbol k \<longrightarrow>
      bind_outcome (set_opening_token_index TokenIndex_None (TokenInfo_plain k sp off)) opening_token_index
        = Ret (int TokenIndex_Max - 1))"
proof (intro conjI allI impI)
  fix i k assume i: "0 \<le> i \<and> i < int TokenIndex_Max"
  then have u: "uint (word_of_int i :: 23 word) = i"
    by (intro payload_uint) (auto simp: TokenIndex_Max_def TokenIndex_Bits_def)
  show "error_length (TokenInfo_payload Error sp i off) = Ret (nat i)"
    using error_length_payload [of "nat i"] i by (simp add: TokenIndex_Max_def TokenIndex_Bits_def nat_less_iff)
  show "bind_outcome (set_closing_token_index i (TokenInfo_plain k sp off)) closing_token_index = Ret i"
    if "is_opening_symbol k"
    using u that by (simp add: set_closing_token_index_def closing_token_index_def)
  show "opening_token_index (TokenInfo_payload k sp i off) = Ret i" if "is_closing_symbol k"
    using u that by (simp add: opening_token_index_def)
next
  fix tid :: "32 word" assume "unat tid < TokenIndex_Max"
  then show "ident_id (TokenInfo_payload Identifier sp (sint tid) off) = Ret tid"
    by (intro ident_id_payload) (simp add: TokenIndex_Max_def TokenIndex_Bits_def)
next
  fix k assume "is_closing_symbol k"
  then show "bind_outcome (set_opening_token_index TokenIndex_None (TokenInfo_plain k sp off)) opening_token_index
        = Ret (int TokenIndex_Max - 1)"
    by (simp add: set_opening_token_index_def opening_token_index_def TokenIndex_Max_def TokenIndex_Bits_def
        TokenIndex_None_def unsigned_minus_1_eq_mask mask_eq_exp_minus_1)
qed

theorem token_payload_round_trip_witness:
  "error_length (TokenInfo_payload Error True 7 3) = Ret 7"
  using token_payload_round_trip [of True 3] by (simp add: TokenIndex_Max_def TokenIndex_Bits_def)

end
