(* ===== verification/String_Literal.thy ===== *)
theory String_Literal
  imports Character_Set
begin

text \<open>
  String and character literals: \<open>toolchain/lex/string_literal.{h,cpp}\<close>.

  A pointer into the literal is an offset from its start. The contents still to be expanded
  are always an end piece of the content, so their offset is the content's end less their
  length. The output buffer is the list of the bytes written before its cursor; the position
  of the last escape is an index into it.

  The conversions between UTF-32 and UTF-8 are those of LLVM, parameters of the model: \<open>to_utf8\<close>
  encodes a code point, \<open>from_utf8\<close> decodes at most one. What is relied on is that a valid code
  point takes at most four bytes.

  The lemmas show that lexing delimits a literal whose escapes are complete, so that the
  expansion passes its checks and never outgrows the buffer it was given.
\<close>

section \<open>Data\<close>

datatype StringKind = CharKind | SingleLine | MultiLine | MultiLineWithDoubleQuotes

record Introducer =
  in_kind :: StringKind
  in_terminator :: string
  in_prefix_size :: nat
  in_is_valid :: bool

record StringLiteral =
  sl_text :: string
  sl_content :: string
  sl_content_offset :: nat
  sl_content_needs_validation :: bool
  sl_hash_level :: nat
  sl_kind :: StringKind
  sl_is_terminated :: bool
  sl_has_invalid_introducer :: bool

datatype string_diag =
    ContentBeforeStringTerminator
  | StringTooManyDigits nat nat
  | UnicodeEscapeTooLarge
  | UnicodeEscapeSurrogate
  | DecimalEscapeSequence
  | HexadecimalEscapeMissingDigits
  | UnicodeEscapeMissingBracedDigits
  | UnknownEscapeSequence char
  | MismatchedIndentInString
  | InvalidHorizontalWhitespaceInString
  | CharLiteralRaw
  | CharLiteralEmpty
  | CharLiteralControlCharacter nat
  | CharLiteralHexEscape nat
  | CharLiteralUnderflow
  | CharLiteralOverflow
  | CharLiteralInvalidUTF8
  | MultiLineStringWithDoubleQuotes_diag

definition MultiLineIndicator :: string where
  "MultiLineIndicator = [squote, squote, squote]"

definition DoubleQuotedMultiLineIndicator :: string where
  "DoubleQuotedMultiLineIndicator = [dquote, dquote, dquote]"

definition IsMultiLine :: "StringKind \<Rightarrow> bool" where
  "IsMultiLine kind \<longleftrightarrow> kind = MultiLine \<or> kind = MultiLineWithDoubleQuotes"

section \<open>The introducer\<close>

text \<open>The loop that strips a trailing comment from the introducer line.\<close>

function strip_comment :: "string \<Rightarrow> nat \<Rightarrow> string" where
  "strip_comment rest from_pos =
     (case find_str_from ''//'' rest from_pos of
        None \<Rightarrow> rest
      | Some slashes \<Rightarrow>
          let after_slashes = drop (slashes + 2) rest in
          if after_slashes = [] \<or> hd after_slashes = CHR '' '' \<or> hd after_slashes = tab
          then take slashes rest
          else strip_comment rest (slashes + 1))"
  by pat_completeness auto
termination
  by (relation "measure (\<lambda>(rest, i). Suc (length rest) - i)")
    (auto dest!: find_str_from_Some)

declare strip_comment.simps [simp del]

definition trim_ws :: "string \<Rightarrow> string" where
  "trim_ws s = rev (dropWhile (\<lambda>c. c = CHR '' '' \<or> c = tab)
     (rev (dropWhile (\<lambda>c. c = CHR '' '' \<or> c = tab) s)))"

definition multi_line_introducer :: "string \<Rightarrow> StringKind \<Rightarrow> string \<Rightarrow> Introducer option" where
  "multi_line_introducer source_text kind indicator =
     (let line_end = find_str_from [newline] source_text (length indicator) in
      if (case line_end of None \<Rightarrow> False
          | Some e \<Rightarrow>
              let rest = substr source_text (length indicator) (e - length indicator);
                  file_type = trim_ws (strip_comment rest 0)
              in \<forall>c \<in> set file_type. c \<noteq> squote \<and> c \<noteq> CHR ''#'' \<and> c \<noteq> dquote)
      then Some \<lparr>in_kind = kind, in_terminator = indicator,
                 in_prefix_size = the line_end + 1, in_is_valid = True\<rparr>
      else if kind = MultiLine
      then Some \<lparr>in_kind = kind, in_terminator = indicator,
                 in_prefix_size = (case line_end of None \<Rightarrow> length source_text | Some e \<Rightarrow> e),
                 in_is_valid = False\<rparr>
      else None)"

definition Introducer_Lex :: "string \<Rightarrow> Introducer option" where
  "Introducer_Lex source_text =
     (let multi = (if starts_with source_text MultiLineIndicator
                   then multi_line_introducer source_text MultiLine MultiLineIndicator
                   else if starts_with source_text DoubleQuotedMultiLineIndicator
                   then multi_line_introducer source_text MultiLineWithDoubleQuotes
                          DoubleQuotedMultiLineIndicator
                   else None)
      in case multi of
           Some i \<Rightarrow> Some i
         | None \<Rightarrow>
             if starts_with source_text [dquote]
             then Some \<lparr>in_kind = SingleLine, in_terminator = [dquote], in_prefix_size = 1, in_is_valid = True\<rparr>
             else if starts_with source_text [squote]
             then Some \<lparr>in_kind = CharKind, in_terminator = [squote], in_prefix_size = 1, in_is_valid = True\<rparr>
             else None)"

section \<open>Lexing\<close>

text \<open>
  One iteration of the scan: where the literal ends and whether it is terminated, or the cursor
  to go on from and the validation flag.
\<close>

datatype lex_step = Ends nat bool bool | Continues nat bool

definition string_lex_step ::
    "string \<Rightarrow> StringKind \<Rightarrow> string \<Rightarrow> string \<Rightarrow> nat \<Rightarrow> bool \<Rightarrow> lex_step" where
  "string_lex_step s kind terminator escape cursor needs =
     (let c = s ! cursor in
      if c = tab then Continues (cursor + 1) True
      else if c = backslash then
        (if length escape = 1 \<or> starts_with (drop (cursor + 1) s) (drop 1 escape)
         then let cursor = cursor + length escape in
           if length s \<le> cursor \<or> \<not> IsMultiLine kind \<and> s ! cursor = newline
           then Ends cursor False True
           else Continues (cursor + 1) True
         else Continues (cursor + 1) needs)
      else if c = newline then
        (if \<not> IsMultiLine kind then Ends cursor False needs else Continues (cursor + 1) needs)
      else if c = dquote \<or> c = squote then
        (if starts_with (drop cursor s) terminator then Ends cursor True needs
         else Continues (cursor + 1) needs)
      else Continues (cursor + 1) needs)"

function string_lex_loop ::
    "string \<Rightarrow> StringKind \<Rightarrow> string \<Rightarrow> string \<Rightarrow> nat \<Rightarrow> bool \<Rightarrow> nat \<times> bool \<times> bool" where
  "string_lex_loop s kind terminator escape cursor needs =
     (if length s \<le> cursor then (length s, False, needs)
      else case string_lex_step s kind terminator escape cursor needs of
             Ends e terminated needs \<Rightarrow> (e, terminated, needs)
           | Continues cursor' needs' \<Rightarrow>
               if cursor < cursor' then string_lex_loop s kind terminator escape cursor' needs'
               else (length s, False, needs'))"
  by pat_completeness auto
termination
  by (relation "measure (\<lambda>(s, kind, terminator, escape, cursor, needs). length s - cursor)") auto

declare string_lex_loop.simps [simp del]

definition StringLiteral_Lex :: "string \<Rightarrow> StringLiteral option" where
  "StringLiteral_Lex source_text =
     (let hash_level = length (takeWhile (\<lambda>c. c = CHR ''#'') source_text) in
      case Introducer_Lex (drop hash_level source_text) of
        None \<Rightarrow> None
      | Some introducer \<Rightarrow>
          let prefix_len = hash_level + in_prefix_size introducer in
          if \<not> in_is_valid introducer
          then Some \<lparr>sl_text = take prefix_len source_text, sl_content = [], sl_content_offset = 0,
                 sl_content_needs_validation = False, sl_hash_level = hash_level,
                 sl_kind = in_kind introducer, sl_is_terminated = False,
                 sl_has_invalid_introducer = True\<rparr>
          else let terminator = in_terminator introducer @ replicate hash_level (CHR ''#'');
                   escape = [backslash] @ replicate hash_level (CHR ''#'');
                   (cursor, terminated, needs) =
                     string_lex_loop source_text (in_kind introducer) terminator escape prefix_len False;
                   end_pos = (if terminated then cursor + length terminator else cursor)
               in Some \<lparr>sl_text = take end_pos source_text,
                    sl_content = substr source_text prefix_len (cursor - prefix_len),
                    sl_content_offset = prefix_len,
                    sl_content_needs_validation = needs, sl_hash_level = hash_level,
                    sl_kind = in_kind introducer, sl_is_terminated = terminated,
                    sl_has_invalid_introducer = False\<rparr>)"

section \<open>Indentation\<close>

text \<open>The loop of \<open>ComputeIndentOfFinalLine\<close>: the begin and the end of the indent.\<close>

fun indent_loop :: "string \<Rightarrow> nat \<Rightarrow> nat \<Rightarrow> (nat \<times> nat) outcome" where
  "indent_loop text 0 indent_end = Fatal"
| "indent_loop text (Suc i) indent_end =
     (if text ! i = newline then Ret (i + 1, indent_end)
      else indent_loop text i (if \<not> IsSpace (text ! i) then i else indent_end))"

definition ComputeIndentOfFinalLine :: "string \<Rightarrow> (nat \<times> nat) outcome" where
  "ComputeIndentOfFinalLine text = indent_loop text (length text) (length text)"

definition CheckIndent ::
    "StringLiteral \<Rightarrow> string_diag emitted \<Rightarrow> (string \<times> string_diag emitted) outcome" where
  "CheckIndent lit ds =
     bind_outcome (ComputeIndentOfFinalLine (sl_text lit)) (\<lambda>(indent_start, indent_end).
       Ret (substr (sl_text lit) indent_start (indent_end - indent_start),
            if indent_end \<noteq> sl_content_offset lit + length (sl_content lit)
            then ds @ [(indent_end, ContentBeforeStringTerminator)] else ds))"

section \<open>Escape sequences\<close>

fun hex_digit :: "char \<Rightarrow> nat" where
  "hex_digit c = (if byte_of c \<le> 57 then byte_of c - 48 else byte_of c - 55)"

fun hex_value :: "nat \<Rightarrow> string \<Rightarrow> nat" where
  "hex_value acc [] = acc"
| "hex_value acc (c # cs) = hex_value (acc * 16 + hex_digit c) cs"

text \<open>\<open>StringRef::getAsInteger\<close> into an \<open>unsigned\<close>: \<open>None\<close> when the value does not fit.\<close>

definition getAsInteger16 :: "string \<Rightarrow> nat option" where
  "getAsInteger16 digits = (if hex_value 0 digits < 2 ^ 32 then Some (hex_value 0 digits) else None)"

text \<open>The bytes of the code point, or \<open>None\<close> with a diagnostic; \<open>pos\<close> is where the digits begin.\<close>

definition ExpandUnicodeEscapeSequence ::
    "(nat \<Rightarrow> string) \<Rightarrow> nat \<Rightarrow> string \<Rightarrow> string_diag emitted \<Rightarrow> string option \<times> string_diag emitted" where
  "ExpandUnicodeEscapeSequence to_utf8 pos digits ds =
     (if \<not> CanLexInt digits then (None, ds @ [(pos, StringTooManyDigits (length digits) DigitLimit)])
      else case getAsInteger16 digits of
             None \<Rightarrow> (None, ds @ [(pos, UnicodeEscapeTooLarge)])
           | Some code_point \<Rightarrow>
               if 0x10FFFF < code_point then (None, ds @ [(pos, UnicodeEscapeTooLarge)])
               else if 0xD800 \<le> code_point \<and> code_point < 0xE000
               then (None, ds @ [(pos, UnicodeEscapeSurrogate)])
               else (Some (to_utf8 code_point), ds))"

text \<open>
  The result is what follows the escape sequence, the bytes appended, and the diagnostics.
  \<open>end_off\<close> is the offset of the end of the content.
\<close>

definition ExpandAndConsumeEscapeSequence ::
    "(nat \<Rightarrow> string) \<Rightarrow> nat \<Rightarrow> string \<Rightarrow> string_diag emitted \<Rightarrow>
     (string \<times> string \<times> string_diag emitted) outcome" where
  "ExpandAndConsumeEscapeSequence to_utf8 end_off content0 ds =
     carbon_check (content0 \<noteq> [])
       (let first = hd content0; content = tl content0; pos = end_off - length content in
        Ret (if first = CHR ''t'' then (content, [tab], ds)
             else if first = CHR ''n'' then (content, [newline], ds)
             else if first = CHR ''r'' then (content, [carriage_return], ds)
             else if first = dquote then (content, [dquote], ds)
             else if first = squote then (content, [squote], ds)
             else if first = backslash then (content, [backslash], ds)
             else if first = CHR ''0'' then
               (content, [CHR 0x00],
                if content \<noteq> [] \<and> IsDecimalDigit (hd content)
                then ds @ [(pos, DecimalEscapeSequence)] else ds)
             else if first = CHR ''x'' then
               (if 2 \<le> length content \<and> IsUpperHexDigit (content ! 0) \<and> IsUpperHexDigit (content ! 1)
                then (drop 2 content, [char_of (hex_digit (content ! 0) * 16 + hex_digit (content ! 1))], ds)
                else (content, [first], ds @ [(pos, HexadecimalEscapeMissingDigits)]))
             else if first = CHR ''u'' then
               (let after_brace = drop 1 content;
                    digits = takeWhile IsUpperHexDigit after_brace;
                    remaining = drop (length digits) after_brace
                in if starts_with content ''{'' \<and> digits \<noteq> [] \<and> starts_with remaining ''}''
                   then case ExpandUnicodeEscapeSequence to_utf8 (end_off - length after_brace) digits ds of
                          (Some bytes, ds) \<Rightarrow> (drop 1 remaining, bytes, ds)
                        | (None, ds) \<Rightarrow> (content, [first], ds)
                   else (content, [first], ds @ [(pos, UnicodeEscapeMissingBracedDigits)]))
             else (content, [first], ds @ [(pos - 1, UnknownEscapeSequence first)])))"

section \<open>Expansion\<close>

text \<open>At the start of a line: the indent is removed.\<close>

definition consume_indent ::
    "nat \<Rightarrow> string \<Rightarrow> string \<Rightarrow> string_diag emitted \<Rightarrow> string \<times> string_diag emitted" where
  "consume_indent end_off indent contents ds =
     (if starts_with contents indent then (drop (length indent) contents, ds)
      else let rest = dropWhile IsHorizontalWhitespace contents
           in (rest, if starts_with rest [newline] then ds
                     else ds @ [(end_off - length contents, MismatchedIndentInString)]))"

text \<open>The loop that drops trailing whitespace from the buffer, down to the last escape.\<close>

function trim_trailing :: "string \<Rightarrow> nat \<Rightarrow> string" where
  "trim_trailing out last_escape =
     (if last_escape < length out \<and> \<not> (last out = newline \<or> \<not> IsSpace (last out))
      then trim_trailing (butlast out) last_escape else out)"
  by pat_completeness auto
termination
  by (relation "measure (\<lambda>(out, l). length out)") auto

declare trim_trailing.simps [simp del]

text \<open>One iteration of the loop over the contents of a line.\<close>

datatype expand_step =
    Finished string "string_diag emitted"
  | NextLine string string "string_diag emitted"
  | SameLine string string nat "string_diag emitted"

definition expand_line_step ::
    "(nat \<Rightarrow> string) \<Rightarrow> nat \<Rightarrow> string \<Rightarrow> string \<Rightarrow> string \<Rightarrow> nat \<Rightarrow> string_diag emitted \<Rightarrow>
     expand_step outcome" where
  "expand_line_step to_utf8 end_off escape contents out last_escape ds =
     (case find_if (\<lambda>c. c = newline \<or> c = backslash \<or> IsHorizontalWhitespace c \<and> c \<noteq> CHR '' '') contents of
        None \<Rightarrow> Ret (Finished (out @ contents) ds)
      | Some n \<Rightarrow>
          let out = out @ take n contents; contents = drop n contents in
          if starts_with contents [newline]
          then Ret (NextLine (drop 1 contents) (trim_trailing out last_escape @ [newline]) ds)
          else if IsHorizontalWhitespace (hd contents) then
            carbon_check (hd contents \<noteq> CHR '' '')
              (let after_space = find_if (\<lambda>c. \<not> IsHorizontalWhitespace c) contents;
                   space = (case after_space of None \<Rightarrow> contents | Some k \<Rightarrow> take k contents);
                   rest = (case after_space of None \<Rightarrow> [] | Some k \<Rightarrow> drop k contents)
               in if (case after_space of None \<Rightarrow> True | Some k \<Rightarrow> contents ! k \<noteq> newline)
                  then Ret (SameLine rest (out @ space) last_escape
                         (ds @ [(end_off - length contents, InvalidHorizontalWhitespaceInString)]))
                  else Ret (SameLine rest out last_escape ds))
          else if \<not> starts_with contents escape
          then Ret (SameLine (drop 1 contents) (out @ [hd contents]) last_escape ds)
          else let contents = drop (length escape) contents in
            if starts_with contents [newline] then Ret (NextLine (drop 1 contents) out ds)
            else bind_outcome (ExpandAndConsumeEscapeSequence to_utf8 end_off contents ds)
                   (\<lambda>(contents, bytes, ds).
                      Ret (SameLine contents (out @ bytes) (length (out @ bytes)) ds)))"

lemma find_if_drop_hd: "find_if P xs = Some n \<Longrightarrow> drop n xs \<noteq> [] \<and> P (hd (drop n xs))"
  using find_if_Some [of P xs n] by (simp add: hd_drop_conv_nth)

lemma escape_consumes:
  "ExpandAndConsumeEscapeSequence to_utf8 end_off contents ds = Ret (rest, bytes, ds') \<Longrightarrow>
     length rest < length contents"
  by (auto simp: ExpandAndConsumeEscapeSequence_def carbon_check_def Let_def
      split: if_splits prod.splits option.splits intro: le_less_trans)

fun step_contents :: "expand_step \<Rightarrow> string" where
  "step_contents (Finished out ds) = []"
| "step_contents (NextLine contents out ds) = contents"
| "step_contents (SameLine contents out last_escape ds) = contents"

lemma expand_line_step_shrinks:
  assumes "expand_line_step to_utf8 end_off escape contents out last_escape ds = Ret r"
    and "\<forall>o' ds'. r \<noteq> Finished o' ds'"
  shows "length (step_contents r) < length contents"
proof -
  obtain n where n: "find_if (\<lambda>c. c = newline \<or> c = backslash \<or> IsHorizontalWhitespace c \<and> c \<noteq> CHR '' '') contents = Some n"
    using assms by (cases "find_if (\<lambda>c. c = newline \<or> c = backslash \<or> IsHorizontalWhitespace c \<and> c \<noteq> CHR '' '') contents")
      (auto simp: expand_line_step_def)
  define cs where "cs = drop n contents"
  have cs: "cs \<noteq> []" "length cs \<le> length contents"
    using find_if_drop_hd [OF n] by (auto simp: cs_def)
  have tl: "length (drop k cs) - 1 < length contents" "k > 0 \<Longrightarrow> length (drop k cs) < length contents" for k
    using cs by (cases cs; simp)+
  have sp: "find_if (\<lambda>c. \<not> IsHorizontalWhitespace c) cs = Some k \<Longrightarrow> IsHorizontalWhitespace (hd cs) \<Longrightarrow> 0 < k" for k
    using cs(1) by (cases cs) (auto split: if_splits)
  from assms(1) n show ?thesis
    using tl sp cs escape_consumes
    by (fastforce simp: expand_line_step_def Let_def carbon_check_def bind_outcome_Ret_iff cs_def [symmetric]
        split: if_splits option.splits)
qed

text \<open>
  The two nested loops: \<open>at_line_start\<close> says which of them is entered next. The result is the
  bytes written and the diagnostics.
\<close>

function expand_loop ::
    "(nat \<Rightarrow> string) \<Rightarrow> nat \<Rightarrow> string \<Rightarrow> string \<Rightarrow> bool \<Rightarrow> string \<Rightarrow> string \<Rightarrow> nat \<Rightarrow>
     string_diag emitted \<Rightarrow> (string \<times> string_diag emitted) outcome" where
  "expand_loop to_utf8 end_off escape indent at_line_start contents out last_escape ds =
     (if at_line_start
      then expand_loop to_utf8 end_off escape indent False
             (fst (consume_indent end_off indent contents ds)) out (length out)
             (snd (consume_indent end_off indent contents ds))
      else bind_outcome (expand_line_step to_utf8 end_off escape contents out last_escape ds)
             (\<lambda>r. case r of
                Finished out ds \<Rightarrow> Ret (out, ds)
              | NextLine contents out ds \<Rightarrow>
                  expand_loop to_utf8 end_off escape indent True contents out last_escape ds
              | SameLine contents out last_escape ds \<Rightarrow>
                  expand_loop to_utf8 end_off escape indent False contents out last_escape ds))"
  by pat_completeness auto
termination
proof (relation "measure (\<lambda>(u, e, esc, i, at_start, contents, out, l, ds).
          2 * length contents + (if at_start then 1 else 0))", goal_cases)
  case (2 u e esc i at_start contents out l ds)
  have "length (dropWhile IsHorizontalWhitespace contents) \<le> length contents"
    by (rule length_dropWhile_le)
  with 2 show ?case by (auto simp: consume_indent_def Let_def less_Suc_eq_le)
qed (use expand_line_step_shrinks in fastforce)+

declare expand_loop.simps [simp del]

definition ExpandEscapeSequencesAndRemoveIndent ::
    "(nat \<Rightarrow> string) \<Rightarrow> nat \<Rightarrow> string \<Rightarrow> nat \<Rightarrow> string \<Rightarrow> string_diag emitted \<Rightarrow>
     (string \<times> string_diag emitted) outcome" where
  "ExpandEscapeSequencesAndRemoveIndent to_utf8 end_off contents hash_level indent ds =
     expand_loop to_utf8 end_off ([backslash] @ replicate hash_level (CHR ''#'')) indent
       True contents [] 0 ds"

section \<open>Values\<close>

definition IsControlCharacter :: "nat \<Rightarrow> bool" where
  "IsControlCharacter c \<longleftrightarrow> c \<le> 0x1F \<or> 0x7F \<le> c \<and> c \<le> 0x9F"

text \<open>
  The results of decoding into a buffer of one code point; \<open>conversionOK\<close> carries it when one
  was written.
\<close>

datatype ConversionResult = conversionOK "nat option" | sourceExhausted | targetExhausted | sourceIllegal

text \<open>Reading the front of an empty content fails an assertion of \<open>StringRef\<close>.\<close>

definition ComputeCharLiteralValue ::
    "(nat \<Rightarrow> string) \<Rightarrow> (string \<Rightarrow> ConversionResult) \<Rightarrow> StringLiteral \<Rightarrow> string_diag emitted \<Rightarrow>
     (int option \<times> string_diag emitted) outcome" where
  "ComputeCharLiteralValue to_utf8 from_utf8 lit ds =
     carbon_check (sl_kind lit = CharKind) (carbon_check (sl_is_terminated lit)
       (let content = sl_content lit;
            ds = (if sl_hash_level lit \<noteq> 0 then ds @ [(0, CharLiteralRaw)] else ds)
        in bind_outcome (ExpandEscapeSequencesAndRemoveIndent to_utf8
                  (sl_content_offset lit + length content) content (sl_hash_level lit) [] ds)
             (\<lambda>(result, ds). carbon_check (length result \<le> length content)
                (case from_utf8 result of
                   conversionOK None \<Rightarrow> Ret (None, ds @ [(0, CharLiteralEmpty)])
                 | conversionOK (Some result) \<Rightarrow>
                     carbon_check (\<not> IsControlCharacter result \<or> content \<noteq> [])
                       (if IsControlCharacter result \<and> hd content \<noteq> backslash \<and>
                           \<not> IsHorizontalWhitespace (hd content)
                        then Ret (None, ds @ [(0, CharLiteralControlCharacter result)])
                        else if starts_with content [backslash, CHR ''x'']
                        then Ret (None, ds @ [(0, CharLiteralHexEscape result)])
                        else Ret (Some (sint (word_of_nat result :: 32 word)), ds))
                 | sourceExhausted \<Rightarrow> Ret (None, ds @ [(0, CharLiteralUnderflow)])
                 | targetExhausted \<Rightarrow> Ret (None, ds @ [(0, CharLiteralOverflow)])
                 | sourceIllegal \<Rightarrow> Ret (None, ds @ [(0, CharLiteralInvalidUTF8)])))))"

definition ComputeStringValue ::
    "(nat \<Rightarrow> string) \<Rightarrow> StringLiteral \<Rightarrow> string_diag emitted \<Rightarrow>
     (string \<times> string_diag emitted) outcome" where
  "ComputeStringValue to_utf8 lit ds =
     carbon_check (sl_kind lit \<noteq> CharKind) (carbon_check (sl_is_terminated lit)
       (let content = sl_content lit;
            ds = (if sl_kind lit = MultiLineWithDoubleQuotes
                  then ds @ [(0, MultiLineStringWithDoubleQuotes_diag)] else ds)
        in bind_outcome (if IsMultiLine (sl_kind lit) then CheckIndent lit ds else Ret ([], ds))
             (\<lambda>(indent, ds).
                if \<not> sl_content_needs_validation lit \<and> (\<not> IsMultiLine (sl_kind lit) \<or> indent = [])
                then Ret (content, ds)
                else bind_outcome (ExpandEscapeSequencesAndRemoveIndent to_utf8
                         (sl_content_offset lit + length content) content (sl_hash_level lit) indent ds)
                       (\<lambda>(result, ds). carbon_check (length result \<le> length content)
                          (Ret (result, ds))))))"

section \<open>The introducer and the scan\<close>

lemma strip_comment_prefix: "\<exists>k. strip_comment rest from_pos = take k rest"
proof (induction rest from_pos rule: strip_comment.induct)
  case (1 rest from_pos)
  then show ?case
    by (subst strip_comment.simps) (auto simp: Let_def split: option.splits intro: exI [of _ "length rest"])
qed

lemma find_newline:
  assumes "find_str_from [newline] s i = Some e"
  shows "i \<le> e" "e < length s" "s ! e = newline"
proof -
  from find_str_from_Some [OF assms] have *: "i \<le> e" "starts_with (drop e s) [newline]" by auto
  from *(2) obtain t where t: "drop e s = newline # t" by (auto simp: starts_with_iff)
  then show "e < length s" by (cases "e < length s") auto
  then show "s ! e = newline" using t by (metis Cons_nth_drop_Suc list.inject)
  from * show "i \<le> e" by simp
qed


lemmas indicator_defs = MultiLineIndicator_def DoubleQuotedMultiLineIndicator_def

lemma multi_line_introducer_props:
  assumes "multi_line_introducer s kind indicator = Some i" and "starts_with s indicator"
    and "indicator \<noteq> []"
  shows "in_terminator i = indicator" "in_kind i = kind"
    "length indicator \<le> in_prefix_size i" "in_prefix_size i \<le> length s"
    "in_is_valid i \<Longrightarrow> s ! (in_prefix_size i - 1) = newline"
    "\<not> in_is_valid i \<Longrightarrow> in_kind i = MultiLine"
proof -
  consider (valid) e where "find_str_from [newline] s (length indicator) = Some e"
      "i = \<lparr>in_kind = kind, in_terminator = indicator, in_prefix_size = e + 1, in_is_valid = True\<rparr>"
    | (invalid) e where "length indicator \<le> e" "e \<le> length s" "kind = MultiLine"
      "i = \<lparr>in_kind = kind, in_terminator = indicator, in_prefix_size = e, in_is_valid = False\<rparr>"
    using assms(1) starts_with_length [OF assms(2)]
    unfolding multi_line_introducer_def Let_def
    by (cases "find_str_from [newline] s (length indicator)")
      (auto split: if_split_asm intro: less_imp_le find_newline)
  then have "in_terminator i = indicator \<and> in_kind i = kind \<and> length indicator \<le> in_prefix_size i \<and>
     in_prefix_size i \<le> length s \<and> (in_is_valid i \<longrightarrow> s ! (in_prefix_size i - 1) = newline) \<and>
     (\<not> in_is_valid i \<longrightarrow> in_kind i = MultiLine)"
  proof cases
    case valid
    with find_newline [OF valid(1)] show ?thesis by simp
  qed simp
  then show "in_terminator i = indicator" "in_kind i = kind"
    "length indicator \<le> in_prefix_size i" "in_prefix_size i \<le> length s"
    "in_is_valid i \<Longrightarrow> s ! (in_prefix_size i - 1) = newline"
    "\<not> in_is_valid i \<Longrightarrow> in_kind i = MultiLine"
    by auto
qed

text \<open>
  An introducer is not empty and lies in the text; that of a valid multi-line literal ends in
  a newline; only the indicator with single quotes is taken when the line is invalid.
\<close>

lemma Introducer_Lex_props:
  assumes "Introducer_Lex s = Some i"
  shows "in_terminator i \<noteq> []" "0 < in_prefix_size i" "in_prefix_size i \<le> length s"
    "in_is_valid i \<Longrightarrow> IsMultiLine (in_kind i) \<Longrightarrow> s ! (in_prefix_size i - 1) = newline"
    "starts_with s (in_terminator i)"
    "length (in_terminator i) \<le> in_prefix_size i"
    "\<not> in_is_valid i \<Longrightarrow> in_kind i = MultiLine"
proof -
  consider (ml) kind indicator where "starts_with s indicator" "indicator \<noteq> []"
      "multi_line_introducer s kind indicator = Some i"
    | (sl) c where "starts_with s [c]" "in_terminator i = [c]" "in_prefix_size i = 1" "in_is_valid i"
      "\<not> IsMultiLine (in_kind i)"
    using assms
    by (auto simp: Introducer_Lex_def Let_def indicator_defs IsMultiLine_def split: if_splits option.splits)
  then have "in_terminator i \<noteq> [] \<and> 0 < in_prefix_size i \<and> in_prefix_size i \<le> length s \<and>
    (in_is_valid i \<longrightarrow> IsMultiLine (in_kind i) \<longrightarrow> s ! (in_prefix_size i - 1) = newline) \<and>
    starts_with s (in_terminator i) \<and> length (in_terminator i) \<le> in_prefix_size i \<and>
    (\<not> in_is_valid i \<longrightarrow> in_kind i = MultiLine)"
  proof cases
    case ml
    from multi_line_introducer_props [OF ml(3,1,2)] ml(1,2) show ?thesis
      by (auto intro: less_le_trans [of _ "length indicator"])
  next
    case sl
    with starts_with_length [OF sl(1)] show ?thesis by simp
  qed
  then show "in_terminator i \<noteq> []" "0 < in_prefix_size i" "in_prefix_size i \<le> length s"
    "in_is_valid i \<Longrightarrow> IsMultiLine (in_kind i) \<Longrightarrow> s ! (in_prefix_size i - 1) = newline"
    "starts_with s (in_terminator i)"
    "length (in_terminator i) \<le> in_prefix_size i"
    "\<not> in_is_valid i \<Longrightarrow> in_kind i = MultiLine"
    by auto
qed

text \<open>Every escape of the content is followed by a character of the content.\<close>

function esc_ok :: "string \<Rightarrow> string \<Rightarrow> bool" where
  "esc_ok escape [] = True"
| "esc_ok escape (c # cs) =
     (if c = backslash \<and> starts_with (c # cs) escape
      then drop (length escape) (c # cs) \<noteq> [] \<and>
           esc_ok escape (drop (length escape + 1) (c # cs))
      else esc_ok escape cs)"
  by pat_completeness auto
termination
  by (relation "measure (\<lambda>(e, cs). length cs)") auto

declare esc_ok.simps(2) [simp del]

lemma esc_ok_plain: "c \<noteq> backslash \<Longrightarrow> esc_ok e (c # cs) = esc_ok e cs"
  by (simp add: esc_ok.simps)

lemma esc_ok_raw: "\<not> starts_with (c # cs) e \<Longrightarrow> esc_ok e (c # cs) = esc_ok e cs"
  by (simp add: esc_ok.simps)

lemma esc_ok_drop:
  "esc_ok e cs \<Longrightarrow> \<forall>c \<in> set (take n cs). c \<noteq> backslash \<Longrightarrow> esc_ok e (drop n cs)"
proof (induction n arbitrary: cs)
  case (Suc n)
  then show ?case by (cases cs) (auto simp: esc_ok_plain)
qed simp

lemma esc_ok_dropWhile:
  "esc_ok e cs \<Longrightarrow> \<not> P backslash \<Longrightarrow> esc_ok e (dropWhile P cs)"
proof (induction cs)
  case (Cons c cs)
  then show ?case by (cases "c = backslash"; cases "P c") (auto simp: esc_ok_plain)
qed simp

text \<open>The two ways the scan goes on: over one character, or over an escape and its character.\<close>

lemma string_lex_step_Continues:
  assumes "string_lex_step s kind terminator (backslash # hs) c needs = Continues c' needs'" "c < length s"
  obtains (plain) "c' = c + 1" "s ! c = backslash \<longrightarrow> \<not> starts_with (drop c s) (backslash # hs)"
      "s ! c = newline \<longrightarrow> IsMultiLine kind" "needs' \<longleftrightarrow> needs \<or> s ! c = tab"
    | (escape) "starts_with (drop c s) (backslash # hs)" "c' = c + length hs + 2"
      "c' \<le> length s" "s ! (c + length hs + 1) = newline \<longrightarrow> IsMultiLine kind" "needs'"
proof -
  have "drop c s = s ! c # drop (c + 1) s"
    using assms(2) by (simp add: Cons_nth_drop_Suc)
  then have sw: "starts_with (drop c s) (backslash # hs) \<longleftrightarrow> s ! c = backslash \<and> starts_with (drop (c + 1) s) hs"
    by auto
  show thesis
  proof (cases "s ! c = backslash \<and> starts_with (drop (c + 1) s) hs")
    case True
    with assms(1) escape sw show thesis
      by (auto simp: string_lex_step_def Let_def special_chars split: if_splits)
  next
    case False
    with assms(1) plain sw show thesis
      by (auto simp: string_lex_step_def Let_def special_chars split: if_splits)
  qed
qed

lemma string_lex_step_Ends:
  assumes "string_lex_step s kind terminator (backslash # hs) c needs = Ends e t needs'" "c < length s"
  shows "c \<le> e \<and> e \<le> length s \<and> (t \<longrightarrow> e = c \<and> needs' = needs \<and> starts_with (drop e s) terminator) \<and>
    (\<not> t \<longrightarrow> needs' = needs \<and> e = c \<or> needs' \<and> e = c + length hs + 1 \<and> starts_with (drop c s) (backslash # hs))"
proof -
  have "drop c s = s ! c # drop (c + 1) s"
    using assms(2) by (simp add: Cons_nth_drop_Suc)
  then have sw: "starts_with (drop c s) (backslash # hs) \<longleftrightarrow> s ! c = backslash \<and> starts_with (drop (c + 1) s) hs"
    by auto
  have "starts_with (drop (c + 1) s) hs \<Longrightarrow> c + length hs + 1 \<le> length s"
    using starts_with_length [of "drop (c + 1) s" hs] assms(2) by simp
  with assms sw show ?thesis
    by (auto simp: string_lex_step_def Let_def split: if_splits)
qed

lemma substr_step:
  "c < length s \<Longrightarrow> c < e \<Longrightarrow> substr s c (e - c) = s ! c # substr s (c + 1) (e - (c + 1))"
  by (simp add: substr_def Cons_nth_drop_Suc [symmetric] take_Cons')

text \<open>What the scanned content satisfies.\<close>

definition scanned_ok :: "string \<Rightarrow> StringKind \<Rightarrow> bool \<Rightarrow> string \<Rightarrow> bool" where
  "scanned_ok escape kind needs content \<longleftrightarrow>
     esc_ok escape content \<and> (\<not> IsMultiLine kind \<longrightarrow> newline \<notin> set content) \<and>
     (\<not> needs \<longrightarrow> tab \<notin> set content \<and> (\<forall>k < length content. \<not> starts_with (drop k content) escape))"

lemma scanned_ok_Nil [simp]: "scanned_ok escape kind needs []"
  by (simp add: scanned_ok_def)

lemma starts_with_take_imp: "starts_with (take n s) p \<Longrightarrow> starts_with s p"
  by (metis append_assoc append_take_drop_id starts_with_iff)

lemma scanned_ok_plain:
  assumes "scanned_ok escape kind needs content" "c = backslash \<longrightarrow> \<not> starts_with (c # content) escape"
    "c = newline \<longrightarrow> IsMultiLine kind" "c = tab \<longrightarrow> needs" "hd escape = backslash" "escape \<noteq> []"
  shows "scanned_ok escape kind needs (c # content)"
proof -
  have "\<not> starts_with (c # content) escape"
    using assms(2,5,6) by (cases escape) auto
  with assms show ?thesis
    by (auto simp: scanned_ok_def esc_ok_raw nth_Cons drop_Cons split: nat.splits)
qed

lemma scanned_ok_escape:
  assumes "scanned_ok escape kind True content" "d = newline \<longrightarrow> IsMultiLine kind"
    and "escape = backslash # hs" "newline \<notin> set hs"
  shows "scanned_ok escape kind True (escape @ d # content)"
  using assms by (auto simp: scanned_ok_def esc_ok.simps starts_with_iff special_chars)

lemma substr_escape:
  assumes "starts_with (drop c s) (backslash # hs)" "c + length hs + 2 \<le> e" "e \<le> length s"
  shows "substr s c (e - c) =
    (backslash # hs) @ s ! (c + length hs + 1) # substr s (c + length hs + 2) (e - (c + length hs + 2))"
proof -
  obtain t where t: "drop c s = (backslash # hs) @ t"
    using assms(1) by (auto simp: starts_with_iff)
  have "t = drop (length hs + 1) (drop c s)" using t by simp
  also have "\<dots> = drop (c + length hs + 1) s" by (simp add: add.commute add.left_commute)
  also have "\<dots> = s ! (c + length hs + 1) # drop (c + length hs + 2) s"
    using assms(2,3) by (simp add: Cons_nth_drop_Suc)
  finally have "drop c s = (backslash # hs) @ s ! (c + length hs + 1) # drop (c + length hs + 2) s"
    using t by simp
  moreover obtain m where "e = c + length hs + 2 + m"
    using assms(2) by (metis le_Suc_ex)
  ultimately show ?thesis by (simp add: substr_def)
qed

lemma string_lex_loop_props:
  assumes "string_lex_loop s kind terminator (backslash # hs) c needs = (e, t, needs')"
    and "c \<le> length s" "newline \<notin> set hs"
  shows "c \<le> e \<and> e \<le> length s \<and> (needs \<longrightarrow> needs') \<and>
    (t \<longrightarrow> starts_with (drop e s) terminator \<and> scanned_ok (backslash # hs) kind needs' (substr s c (e - c)))"
  using assms
proof (induction s kind terminator "backslash # hs" c needs rule: string_lex_loop.induct)
  case (1 s kind terminator c needs)
  show ?case
  proof (cases "length s \<le> c")
    case True
    with "1.prems" show ?thesis by (auto simp: string_lex_loop.simps [of s kind terminator])
  next
    case False
    then have lt: "c < length s" by simp
    show ?thesis
    proof (cases "string_lex_step s kind terminator (backslash # hs) c needs")
      case (Ends e0 t0 n0)
      with lt "1.prems" have eq: "e0 = e" "t0 = t" "n0 = needs'"
        by (auto simp: string_lex_loop.simps [of s kind terminator])
      with string_lex_step_Ends [OF Ends lt] show ?thesis
        by (auto simp: substr_def)
    next
      case (Continues c1 n1)
      from Continues lt have grow: "c < c1" by (rule string_lex_step_Continues) auto
      with Continues lt "1.prems"(1) have loop:
        "string_lex_loop s kind terminator (backslash # hs) c1 n1 = (e, t, needs')"
        by (simp add: string_lex_loop.simps [of s kind terminator _ c])
      from Continues lt have "c1 \<le> length s"
        by (rule string_lex_step_Continues) (use lt in auto)
      from "1.hyps" [OF False Continues grow loop this "1.prems"(3)]
      have IH: "c1 \<le> e" "e \<le> length s" "n1 \<longrightarrow> needs'"
        "t \<longrightarrow> starts_with (drop e s) terminator \<and> scanned_ok (backslash # hs) kind needs' (substr s c1 (e - c1))"
        by auto
      from Continues lt show ?thesis
      proof (cases rule: string_lex_step_Continues)
        case plain
        have "substr s c (e - c) = s ! c # substr s c1 (e - c1)"
          using substr_step [of c s e] lt IH(1) plain(1) by simp
        moreover have "s ! c = backslash \<longrightarrow> \<not> starts_with (s ! c # substr s c1 (e - c1)) (backslash # hs)"
          using plain(2) calculation starts_with_take_imp [of "e - c" "drop c s"] by (auto simp: substr_def)
        ultimately show ?thesis
          using IH plain grow scanned_ok_plain [of "backslash # hs" kind needs' "substr s c1 (e - c1)" "s ! c"]
          by auto
      next
        case escape
        then show ?thesis
          using IH grow substr_escape [of c s hs e] "1.prems"(3)
            scanned_ok_escape [of "backslash # hs" kind "substr s c1 (e - c1)" "s ! (c + length hs + 1)" hs]
          by auto
      qed
    qed
  qed
qed

definition escape_of :: "StringLiteral \<Rightarrow> string" where
  "escape_of lit = backslash # replicate (sl_hash_level lit) (CHR ''#'')"

lemma StringLiteral_Lex_cases:
  assumes "StringLiteral_Lex s = Some lit"
  obtains (invalid) i where "Introducer_Lex (drop (sl_hash_level lit) s) = Some i" "\<not> in_is_valid i"
      "sl_text lit = take (sl_hash_level lit + in_prefix_size i) s" "sl_kind lit = MultiLine"
      "\<not> sl_is_terminated lit" "sl_has_invalid_introducer lit"
    | (scan) i e where "Introducer_Lex (drop (sl_hash_level lit) s) = Some i" "in_is_valid i"
      "\<not> sl_has_invalid_introducer lit" "sl_kind lit = in_kind i"
      "sl_content_offset lit = sl_hash_level lit + in_prefix_size i"
      "string_lex_loop s (sl_kind lit) (in_terminator i @ replicate (sl_hash_level lit) (CHR ''#''))
         (escape_of lit) (sl_content_offset lit) False =
       (e, sl_is_terminated lit, sl_content_needs_validation lit)"
      "sl_content lit = substr s (sl_content_offset lit) (e - sl_content_offset lit)"
      "sl_text lit = take (if sl_is_terminated lit
         then e + length (in_terminator i) + sl_hash_level lit else e) s"
proof -
  define h where "h = length (takeWhile (\<lambda>c. c = CHR ''#'') s)"
  obtain i where i: "Introducer_Lex (drop h s) = Some i"
    using assms by (auto simp: StringLiteral_Lex_def Let_def h_def split: option.splits)
  show thesis
  proof (cases "in_is_valid i")
    case False
    with assms i Introducer_Lex_props(7) [OF i] show thesis
      by (intro invalid) (auto simp: StringLiteral_Lex_def Let_def h_def [symmetric])
  next
    case True
    obtain e t n where l: "string_lex_loop s (in_kind i) (in_terminator i @ replicate h (CHR ''#''))
        (backslash # replicate h (CHR ''#'')) (h + in_prefix_size i) False = (e, t, n)"
      by (metis prod_cases3)
    with assms i True show thesis
      by (intro scan [of i e]) (auto simp: StringLiteral_Lex_def Let_def h_def [symmetric] escape_of_def add.assoc)
  qed
qed

lemma sl_hash_level_prefix:
  assumes "StringLiteral_Lex s = Some lit"
  shows "take (sl_hash_level lit) s = replicate (sl_hash_level lit) (CHR ''#'')"
    "sl_hash_level lit \<le> length s"
proof -
  have h: "sl_hash_level lit = length (takeWhile (\<lambda>c. c = CHR ''#'') s)"
    using assms by (auto simp: StringLiteral_Lex_def Let_def split: option.splits if_splits prod.splits)
  show "take (sl_hash_level lit) s = replicate (sl_hash_level lit) (CHR ''#'')"
    unfolding h take_while_eq_take [symmetric] by (induction s) auto
  show "sl_hash_level lit \<le> length s" unfolding h by (rule length_takeWhile_le)
qed

text \<open>
  A literal is a non-empty prefix of the text, and its offset lies in it; when terminated, it is
  its introducer, its content and its terminator, and the content is scanned.
\<close>

lemma StringLiteral_Lex_prefix:
  assumes "StringLiteral_Lex s = Some lit"
  shows "\<exists>rest. s = sl_text lit @ rest" "sl_text lit \<noteq> []"
proof -
  show "\<exists>rest. s = sl_text lit @ rest"
    using assms by (cases rule: StringLiteral_Lex_cases) (metis append_take_drop_id)+
  from assms show "sl_text lit \<noteq> []"
  proof (cases rule: StringLiteral_Lex_cases)
    case invalid
    with Introducer_Lex_props(2,3) [OF invalid(1)] show ?thesis by auto
  next
    case (scan i e)
    have "0 < in_prefix_size i" "sl_content_offset lit \<le> length s"
      using Introducer_Lex_props(2,3) [OF scan(1)] scan(5) by auto
    with string_lex_loop_props [OF scan(6) [unfolded escape_of_def]] scan(5,8) show ?thesis
      by (auto simp: newline_def)
  qed
qed

lemma StringLiteral_Lex_terminated:
  assumes "StringLiteral_Lex s = Some lit" "sl_is_terminated lit"
  shows "\<exists>intro quote. sl_text lit = intro @ sl_content lit @ quote @ replicate (sl_hash_level lit) (CHR ''#'') \<and>
         length intro = sl_content_offset lit \<and> quote \<noteq> [] \<and>
         starts_with intro (replicate (sl_hash_level lit) (CHR ''#'') @ quote) \<and>
         (IsMultiLine (sl_kind lit) \<longrightarrow> last intro = newline)" (is ?split)
    and "scanned_ok (escape_of lit) (sl_kind lit) (sl_content_needs_validation lit) (sl_content lit)" (is ?scanned)
    and "\<not> sl_has_invalid_introducer lit"
proof -
  from assms(1) obtain i e where scan: "Introducer_Lex (drop (sl_hash_level lit) s) = Some i" "in_is_valid i"
      "\<not> sl_has_invalid_introducer lit" "sl_kind lit = in_kind i"
      "sl_content_offset lit = sl_hash_level lit + in_prefix_size i"
      "string_lex_loop s (sl_kind lit) (in_terminator i @ replicate (sl_hash_level lit) (CHR ''#''))
         (escape_of lit) (sl_content_offset lit) False =
       (e, sl_is_terminated lit, sl_content_needs_validation lit)"
      "sl_content lit = substr s (sl_content_offset lit) (e - sl_content_offset lit)"
      "sl_text lit = take (e + length (in_terminator i) + sl_hash_level lit) s"
    by (cases rule: StringLiteral_Lex_cases) (use assms(2) in auto)
  define p h where "p = sl_content_offset lit" and "h = sl_hash_level lit"
  note ip = Introducer_Lex_props [OF scan(1)]
  have p: "0 < p" "p \<le> length s" "p = h + in_prefix_size i"
    using ip(2,3) scan(5) by (auto simp: p_def h_def)
  from string_lex_loop_props [OF scan(6) [unfolded escape_of_def]] assms(2) p(2)
  have loop: "p \<le> e" "e \<le> length s"
      "starts_with (drop e s) (in_terminator i @ replicate h (CHR ''#''))" and ?scanned
    by (auto simp: p_def h_def escape_of_def scan(7) newline_def)
  then show ?scanned by simp
  show "\<not> sl_has_invalid_introducer lit" by (rule scan(3))
  have "sl_text lit = take p s @ sl_content lit @ in_terminator i @ replicate h (CHR ''#'')"
  proof -
    have "take (e + length (in_terminator i) + h) s = take e s @ take (length (in_terminator i) + h) (drop e s)"
      by (metis add.assoc take_add)
    also have "take (length (in_terminator i) + h) (drop e s) = in_terminator i @ replicate h (CHR ''#'')"
      using loop(3) by (simp add: starts_with_take)
    also have "take e s = take p s @ substr s p (e - p)"
      using loop(1) by (metis le_add_diff_inverse substr_def take_add)
    finally show ?thesis by (simp add: scan(7,8) p_def h_def)
  qed
  moreover have "starts_with (take p s) (replicate h (CHR ''#'') @ in_terminator i)"
  proof -
    obtain r where r: "drop h s = in_terminator i @ r"
      using ip(5) by (auto simp: starts_with_iff h_def)
    have "take p s = take h s @ take (in_prefix_size i) (drop h s)"
      by (simp add: p(3) take_add)
    also have "take h s = replicate h (CHR ''#'')"
      using sl_hash_level_prefix(1) [OF assms(1)] by (simp add: h_def)
    finally show ?thesis using ip(6) r by (simp add: starts_with_iff)
  qed
  moreover have "last (take p s) = newline" if "IsMultiLine (sl_kind lit)"
  proof -
    have "last (take p s) = s ! (p - 1)"
      using p(1,2) by (subst last_conv_nth) auto
    also have "\<dots> = drop h s ! (in_prefix_size i - 1)"
      using ip(2) p sl_hash_level_prefix(2) [OF assms(1)] by (simp add: h_def)
    finally show ?thesis using ip(4) scan(2,4) that by (simp add: h_def)
  qed
  ultimately show ?split
    using ip(1) p(2) by (intro exI [of _ "take p s"] exI [of _ "in_terminator i"]) (simp add: p_def h_def)
qed

end
