(* ===== verification/String_Scan.thy ===== *)
theory String_Scan
  imports String_Literal
begin

text \<open>
  What \<open>StringLiteral::Lex\<close> delimits (\<open>toolchain/lex/string_literal.cpp\<close>), said without its code: which quotes open a literal of
  which kind, where the line of a multi-line literal's introducer is well formed, and where its content ends.
\<close>

section \<open>The introducer line\<close>

text \<open>A comment begins with two slashes before a space, a tab or the end of the line.\<close>

definition comment_at :: "string \<Rightarrow> nat \<Rightarrow> bool" where
  "comment_at line k \<longleftrightarrow> (\<exists>u. drop k line = CHR ''/'' # CHR ''/'' # u \<and> (u = [] \<or> hd u = CHR '' '' \<or> hd u = tab))"

text \<open>No quote and no \<open>#\<close> before the first comment.\<close>

definition plain_line :: "string \<Rightarrow> bool" where
  "plain_line line \<longleftrightarrow> (\<forall>k < length line. line ! k \<in> {squote, dquote, CHR ''#''} \<longrightarrow> (\<exists>j < k. comment_at line j))"

definition introducer_line :: "string \<Rightarrow> string \<Rightarrow> string \<Rightarrow> bool" where
  "introducer_line quotes body line \<longleftrightarrow>
     (\<exists>rest. body = quotes @ line @ newline # rest) \<and> newline \<notin> set line \<and> plain_line line"

section \<open>The kinds and their quotes\<close>

fun quotes_of :: "StringKind \<Rightarrow> string" where
  "quotes_of CharKind = [squote]"
| "quotes_of SingleLine = [dquote]"
| "quotes_of MultiLine = [squote, squote, squote]"
| "quotes_of MultiLineWithDoubleQuotes = [dquote, dquote, dquote]"

definition spans_lines :: "StringKind \<Rightarrow> bool" where
  "spans_lines kind \<longleftrightarrow> length (quotes_of kind) = 3"

text \<open>A literal of the kind is opened by the text that \<open>body\<close> begins with.\<close>

definition literal_opens :: "StringKind \<Rightarrow> string \<Rightarrow> string \<Rightarrow> bool" where
  "literal_opens kind intro body \<longleftrightarrow>
     (if spans_lines kind
      then \<exists>line. introducer_line (quotes_of kind) body line \<and> intro = quotes_of kind @ line @ [newline]
      else intro = quotes_of kind \<and> starts_with body intro
        \<and> \<not> starts_with body [squote, squote, squote]
        \<and> \<not> (\<exists>line. introducer_line [dquote, dquote, dquote] body line))"

section \<open>The end of the content\<close>

text \<open>
  The content of a literal and whether it is followed by the terminator. An escape takes the character after it,
  whatever it is; without lines, a newline ends the content, escaped or not.
\<close>

fun content_scan :: "bool \<Rightarrow> string \<Rightarrow> string \<Rightarrow> string \<Rightarrow> nat \<times> bool" where
  "content_scan multi escape terminator [] = (0, False)"
| "content_scan multi escape terminator (c # cs) =
     (if starts_with (c # cs) terminator then (0, True)
      else if c = newline \<and> \<not> multi then (0, False)
      else if starts_with (c # cs) escape then
        (case drop (length escape) (c # cs) of
           [] \<Rightarrow> (length escape, False)
         | d # ds \<Rightarrow> if d = newline \<and> \<not> multi then (length escape, False)
             else case content_scan multi escape terminator (drop (length escape) cs) of
               (n, ended) \<Rightarrow> (length escape + 1 + n, ended))
      else case content_scan multi escape terminator cs of (n, ended) \<Rightarrow> (n + 1, ended))"

declare content_scan.simps(2) [simp del]

section \<open>The introducer is as described\<close>

lemma comment_at_iff:
  "comment_at line k \<longleftrightarrow> starts_with (drop k line) ''//'' \<and>
     (drop (k + 2) line = [] \<or> hd (drop (k + 2) line) = CHR '' '' \<or> hd (drop (k + 2) line) = tab)"
proof -
  have *: "(\<exists>u. l = CHR ''/'' # CHR ''/'' # u \<and> P u) \<longleftrightarrow> starts_with l ''//'' \<and> P (drop 2 l)" for P and l :: string
    by (auto simp: starts_with_iff)
  show ?thesis
    unfolding comment_at_def * [of "drop k line"] by (simp add: add.commute)
qed

lemma find_str_from_first:
  "find_str_from p s i = Some j \<Longrightarrow> i \<le> k \<Longrightarrow> k < j \<Longrightarrow> \<not> starts_with (drop k s) p"
proof (induction p s i rule: find_str_from.induct)
  case (1 p s i)
  then show ?case
    by (cases "k = i") (auto simp: find_str_from.simps [of p s i] split: if_splits)
qed

lemma find_str_from_None:
  "find_str_from p s i = None \<Longrightarrow> i \<le> k \<Longrightarrow> k \<le> length s \<Longrightarrow> \<not> starts_with (drop k s) p"
proof (induction p s i rule: find_str_from.induct)
  case (1 p s i)
  then show ?case
    by (cases "k = i") (auto simp: find_str_from.simps [of p s i] split: if_splits)
qed

lemma strip_comment_first:
  assumes "\<forall>k < i. \<not> comment_at line k"
  obtains n where "strip_comment line i = take n line" "n \<le> length line" "n = length line \<or> comment_at line n"
    "\<forall>k < n. \<not> comment_at line k"
  using assms
proof (induction line i arbitrary: thesis rule: strip_comment.induct)
  case (1 line i)
  have slashes: "comment_at line k \<Longrightarrow> starts_with (drop k line) ''//''" for k by (simp add: comment_at_iff)
  show ?case
  proof (cases "find_str_from ''//'' line i")
    case None
    have "\<not> comment_at line k" if "k < length line" for k
    proof (cases "k < i")
      case False
      then show ?thesis using find_str_from_None [OF None, of k] that slashes [of k] by auto
    qed (use "1.prems"(2) in blast)
    with None show ?thesis by (intro "1.prems"(1) [of "length line"]) (simp_all add: strip_comment.simps)
  next
    case (Some j)
    note j = find_str_from_Some [OF Some]
    have before: "\<forall>k < j. \<not> comment_at line k"
    proof (intro allI impI)
      fix k assume "k < j"
      then show "\<not> comment_at line k"
        using find_str_from_first [OF Some, of k] slashes [of k] "1.prems"(2) by (cases "k < i") auto
    qed
    show ?thesis
    proof (cases "comment_at line j")
      case True
      then show ?thesis using Some j before
        by (intro "1.prems"(1) [of j]) (auto simp: strip_comment.simps [of line i] comment_at_iff Let_def)
    next
      case False
      then have step: "strip_comment line i = strip_comment line (j + 1)"
        and c: "\<not> (drop (j + 2) line = [] \<or> hd (drop (j + 2) line) = CHR '' '' \<or> hd (drop (j + 2) line) = tab)"
        using Some j by (auto simp: strip_comment.simps [of line i] comment_at_iff Let_def)
      have "\<forall>k < j + 1. \<not> comment_at line k" using before False less_Suc_eq by auto
      from "1.IH" [OF Some refl c _ this] "1.prems"(1) show ?thesis unfolding step by blast
    qed
  qed
qed

lemma set_trim_ws:
  "c \<noteq> CHR '' '' \<Longrightarrow> c \<noteq> tab \<Longrightarrow> c \<in> set (trim_ws s) \<longleftrightarrow> c \<in> set s"
proof -
  assume c: "c \<noteq> CHR '' ''" "c \<noteq> tab"
  let ?P = "\<lambda>c. c = CHR '' '' \<or> c = tab"
  have "c \<in> set (dropWhile ?P xs) \<longleftrightarrow> c \<in> set xs" for xs
    by (induction xs) (use c in auto)
  then show ?thesis by (simp add: trim_ws_def)
qed

lemma plain_line_iff:
  "plain_line line \<longleftrightarrow> (\<forall>c \<in> set (trim_ws (strip_comment line 0)). c \<noteq> squote \<and> c \<noteq> CHR ''#'' \<and> c \<noteq> dquote)"
proof -
  obtain n where n: "strip_comment line 0 = take n line" "n \<le> length line" "n = length line \<or> comment_at line n"
    "\<forall>k < n. \<not> comment_at line k" by (rule strip_comment_first [of 0]) auto
  let ?bad = "{squote, dquote, CHR ''#''}"
  have "(\<forall>c \<in> set (trim_ws (strip_comment line 0)). c \<noteq> squote \<and> c \<noteq> CHR ''#'' \<and> c \<noteq> dquote) \<longleftrightarrow>
      (\<forall>c \<in> ?bad. c \<notin> set (trim_ws (take n line)))" by (auto simp: n(1))
  also have "\<dots> \<longleftrightarrow> (\<forall>c \<in> ?bad. c \<notin> set (take n line))" by (simp add: set_trim_ws special_chars)
  also have "\<dots> \<longleftrightarrow> (\<forall>k < n. line ! k \<notin> ?bad)" using n(2) by (auto simp: in_set_conv_nth)
  also have "\<dots> \<longleftrightarrow> plain_line line"
  proof
    assume a: "\<forall>k < n. line ! k \<notin> ?bad"
    show "plain_line line"
      unfolding plain_line_def
    proof (intro allI impI)
      fix k assume k: "k < length line" "line ! k \<in> ?bad"
      then have "n \<le> k" "comment_at line n" using a n(3) by (metis leI, metis leI leD)
      moreover have "n \<noteq> k" using k \<open>comment_at line n\<close>
        by (auto simp: comment_at_def special_chars Cons_nth_drop_Suc [OF k(1), symmetric])
      ultimately show "\<exists>j < k. comment_at line j" by (metis le_neq_implies_less)
    qed
  next
    assume p: "plain_line line"
    show "\<forall>k < n. line ! k \<notin> ?bad"
      using p n(2,4) unfolding plain_line_def by (meson less_le_trans less_trans)
  qed
  finally show ?thesis by blast
qed

lemma find_newline_line:
  assumes "starts_with body quotes"
  shows "find_str_from [newline] body (length quotes) = Some e \<Longrightarrow>
      body = quotes @ substr body (length quotes) (e - length quotes) @ newline # drop (e + 1) body \<and>
      newline \<notin> set (substr body (length quotes) (e - length quotes)) \<and> length quotes \<le> e"
    "find_str_from [newline] body (length quotes) = None \<Longrightarrow> newline \<notin> set (drop (length quotes) body)"
proof -
  let ?n = "length quotes"
  have nl: "starts_with (drop k body) [newline] \<longleftrightarrow> body ! k = newline" if "k < length body" for k
    by (simp add: Cons_nth_drop_Suc [OF that, symmetric])
  show "newline \<notin> set (drop ?n body)" if "find_str_from [newline] body ?n = None"
  proof
    assume "newline \<in> set (drop ?n body)"
    then obtain k where "?n + k < length body" "body ! (?n + k) = newline"
      by (auto simp: in_set_conv_nth less_diff_conv add.commute)
    with find_str_from_None [OF that, of "?n + k"] nl [of "?n + k"] show False by simp
  qed
  assume e: "find_str_from [newline] body ?n = Some e"
  note f = find_newline [OF e]
  have "body = take ?n body @ drop ?n body" by simp
  also have "take ?n body = quotes" using assms by (simp add: starts_with_take)
  also have "drop ?n body = take (e - ?n) (drop ?n body) @ drop (e - ?n) (drop ?n body)"
    by (rule append_take_drop_id [symmetric])
  also have "drop (e - ?n) (drop ?n body) = newline # drop (e + 1) body"
    using f by (simp add: Cons_nth_drop_Suc [OF f(2), symmetric])
  finally have "body = quotes @ substr body ?n (e - ?n) @ newline # drop (e + 1) body" by (simp add: substr_def)
  moreover have "newline \<notin> set (substr body ?n (e - ?n))"
  proof
    assume "newline \<in> set (substr body ?n (e - ?n))"
    then obtain k where "k < e - ?n" "?n + k < length body" "body ! (?n + k) = newline"
      by (auto simp: substr_def in_set_conv_nth)
    moreover from this(1) have "?n + k < e" by arith
    ultimately show False using find_str_from_first [OF e, of "?n + k"] nl [of "?n + k"] by simp
  qed
  ultimately show "body = quotes @ substr body ?n (e - ?n) @ newline # drop (e + 1) body \<and>
      newline \<notin> set (substr body ?n (e - ?n)) \<and> ?n \<le> e" using f(1) by blast
qed

lemma takeWhile_line: "newline \<notin> set line \<Longrightarrow> takeWhile (\<lambda>c. c \<noteq> newline) (line @ newline # rest) = line"
  by (induction line) auto

lemma introducer_line_unique:
  "body = quotes @ line @ newline # rest \<Longrightarrow> newline \<notin> set line \<Longrightarrow> introducer_line quotes body line' \<Longrightarrow> line' = line"
  using takeWhile_line [of line rest] takeWhile_line [of line'] by (auto simp: introducer_line_def)

lemma multi_line_introducer_cases:
  assumes "starts_with body quotes"
  obtains (line) line where "introducer_line quotes body line"
      "multi_line_introducer body kind quotes =
         Some \<lparr>in_kind = kind, in_terminator = quotes, in_prefix_size = length (quotes @ line @ [newline]), in_is_valid = True\<rparr>"
    | (invalid) "\<not> (\<exists>line. introducer_line quotes body line)" "multi_line_introducer body kind quotes =
        (if kind = MultiLine
         then Some \<lparr>in_kind = kind, in_terminator = quotes,
           in_prefix_size = length quotes + length (takeWhile (\<lambda>c. c \<noteq> newline) (drop (length quotes) body)), in_is_valid = False\<rparr>
         else None)"
proof (cases "find_str_from [newline] body (length quotes)")
  case None
  have body: "body = quotes @ drop (length quotes) body" using assms by (simp add: starts_with_drop)
  note no = find_newline_line(2) [OF assms None]
  have "\<not> introducer_line quotes body line" for line
  proof
    assume "introducer_line quotes body line"
    then obtain r where "body = quotes @ line @ newline # r" by (auto simp: introducer_line_def)
    then show False using no by simp
  qed
  moreover have "length quotes + length (takeWhile (\<lambda>c. c \<noteq> newline) (drop (length quotes) body)) = length body"
  proof -
    have "takeWhile (\<lambda>c. c \<noteq> newline) (drop (length quotes) body) = drop (length quotes) body"
      using no by (auto simp: takeWhile_eq_all_conv)
    with starts_with_length [OF assms] show ?thesis by (simp only: length_drop)
  qed
  ultimately show ?thesis using None invalid by (simp add: multi_line_introducer_def)
next
  case (Some e)
  let ?line = "substr body (length quotes) (e - length quotes)"
  note l = find_newline_line(1) [OF assms Some]
  then have len: "e = length quotes + length ?line"
    using find_newline(2) [OF Some] by (simp add: substr_def)
  have iff: "introducer_line quotes body ?line \<longleftrightarrow>
      (\<forall>c \<in> set (trim_ws (strip_comment ?line 0)). c \<noteq> squote \<and> c \<noteq> CHR ''#'' \<and> c \<noteq> dquote)"
    unfolding introducer_line_def plain_line_iff [symmetric] using l by blast
  show ?thesis
  proof (cases "introducer_line quotes body ?line")
    case True
    then show ?thesis using line [OF True] Some len iff by (simp add: multi_line_introducer_def Let_def)
  next
    case False
    then have "\<not> (\<exists>line. introducer_line quotes body line)"
      using introducer_line_unique l by blast
    moreover have "takeWhile (\<lambda>c. c \<noteq> newline) (drop (length quotes) body) = ?line"
    proof -
      have "drop (length quotes) body = ?line @ newline # drop (e + 1) body"
        using l by (metis append_eq_conv_conj)
      with takeWhile_line l show ?thesis by simp
    qed
    ultimately show ?thesis using invalid False Some len iff by (simp add: multi_line_introducer_def Let_def)
  qed
qed

lemma introducer_line_starts: "introducer_line quotes body line \<Longrightarrow> starts_with body quotes"
  by (auto simp: introducer_line_def starts_with_iff)

lemma Introducer_Lex_opens:
  assumes "Introducer_Lex body = Some i"
  obtains (valid) intro rest where "in_is_valid i" "literal_opens (in_kind i) intro body" "in_prefix_size i = length intro"
      "body = intro @ rest" "in_terminator i = quotes_of (in_kind i)"
    | (invalid) "\<not> in_is_valid i" "in_kind i = MultiLine" "starts_with body (quotes_of MultiLine)"
      "\<not> (\<exists>line. introducer_line (quotes_of MultiLine) body line)"
      "take (in_prefix_size i) body = takeWhile (\<lambda>c. c \<noteq> newline) body"
proof -
  let ?s3 = "[squote, squote, squote]" and ?d3 = "[dquote, dquote, dquote]"
  have by_line: thesis if l: "introducer_line (quotes_of kind) body line" and "spans_lines kind"
    "i = \<lparr>in_kind = kind, in_terminator = quotes_of kind, in_prefix_size = length (quotes_of kind @ line @ [newline]), in_is_valid = True\<rparr>"
    for kind line
  proof -
    obtain rest where "body = (quotes_of kind @ line @ [newline]) @ rest" using l by (auto simp: introducer_line_def)
    with that show thesis by (intro valid [of "quotes_of kind @ line @ [newline]" rest]) (auto simp: literal_opens_def)
  qed
  have by_single: thesis if st: "starts_with body (quotes_of kind)" "\<not> spans_lines kind" "\<not> starts_with body ?s3"
    "\<not> (\<exists>line. introducer_line ?d3 body line)"
    "i = \<lparr>in_kind = kind, in_terminator = quotes_of kind, in_prefix_size = 1, in_is_valid = True\<rparr>" for kind
  proof -
    obtain rest where "body = quotes_of kind @ rest" using st(1) by (auto simp: starts_with_iff)
    moreover have "length (quotes_of kind) = 1" using st(2) by (cases kind) (auto simp: spans_lines_def)
    ultimately show thesis using st by (intro valid [of "quotes_of kind" rest]) (auto simp: literal_opens_def)
  qed
  have spans: "spans_lines MultiLine" "spans_lines MultiLineWithDoubleQuotes" "\<not> spans_lines SingleLine" "\<not> spans_lines CharKind"
    by (simp_all add: spans_lines_def)
  note unf = Introducer_Lex_def Let_def indicator_defs
  show thesis
  proof (cases "starts_with body ?s3")
    case s3: True
    have i: "multi_line_introducer body MultiLine ?s3 = Some i"
    proof -
      have "multi_line_introducer body MultiLine ?s3 \<noteq> None" by (simp add: multi_line_introducer_def Let_def)
      with assms s3 show ?thesis by (auto simp: unf split: option.splits)
    qed
    show thesis
    proof (rule multi_line_introducer_cases [OF s3, of MultiLine], goal_cases)
      case (1 l)
      with i by_line [of MultiLine l] spans show thesis by simp
    next
      case 2
      obtain r where r: "body = ?s3 @ r" using s3 by (auto simp: starts_with_iff)
      have i': "i = \<lparr>in_kind = MultiLine, in_terminator = ?s3, in_prefix_size = 3 + length (takeWhile (\<lambda>c. c \<noteq> newline) r), in_is_valid = False\<rparr>"
        using i 2 r by simp
      have take: "take (3 + length (takeWhile (\<lambda>c. c \<noteq> newline) r)) body = takeWhile (\<lambda>c. c \<noteq> newline) body"
        by (simp add: r special_chars take_while_eq_take [symmetric] numeral_3_eq_3)
      show thesis by (rule invalid) (use i' 2(1) s3 take in simp_all)
    qed
  next
    case s3: False
    show thesis
    proof (cases "starts_with body ?d3")
      case d3: True
      then have dq: "starts_with body [dquote]" by (auto simp: starts_with_iff)
      show thesis
      proof (rule multi_line_introducer_cases [OF d3, of MultiLineWithDoubleQuotes], goal_cases)
        case (1 l)
        with assms s3 d3 by_line [of MultiLineWithDoubleQuotes l] spans show thesis by (simp add: unf)
      next
        case 2
        with assms s3 d3 dq by_single [of SingleLine] spans show thesis by (simp add: unf)
      qed
    next
      case d3: False
      then have "\<not> (\<exists>line. introducer_line ?d3 body line)" using introducer_line_starts by blast
      with assms s3 d3 by_single [of SingleLine] by_single [of CharKind] spans show thesis by (auto simp: unf split: if_splits)
    qed
  qed
qed

lemma string_lex_loop_scan:
  assumes "string_lex_loop s kind (q # ts) (backslash # hs) c needs = (e, t, needs')" "c \<le> length s" "q = squote \<or> q = dquote"
  shows "c \<le> e \<and> content_scan (IsMultiLine kind) (backslash # hs) (q # ts) (drop c s) = (e - c, t)"
  using assms(1,2)
proof (induction s kind "q # ts" "backslash # hs" c needs arbitrary: e t needs' rule: string_lex_loop.induct)
  case (1 s kind c needs)
  note loop = trans [OF string_lex_loop.simps [of s kind "q # ts" "backslash # hs" c needs, symmetric] "1.prems"(1)]
  show ?case
  proof (cases "length s \<le> c")
    case True
    with loop "1.prems"(2) show ?thesis by simp
  next
    case False
    then have d: "drop c s = s ! c # drop (c + 1) s" by (simp add: Cons_nth_drop_Suc)
    let ?esc = "s ! c = backslash \<and> starts_with (drop (c + 1) s) hs" and ?fin = "starts_with (drop c s) (q # ts)"
    have esc: "starts_with (drop c s) (backslash # hs) \<longleftrightarrow> ?esc" by (simp add: d)
    have quote: "s ! c = q" if ?fin using that by (simp add: d)
    have skip: "c \<le> e \<and> content_scan (IsMultiLine kind) (backslash # hs) (q # ts) (drop c s) = (e - c, t)"
      if "string_lex_step s kind (q # ts) (backslash # hs) c needs = Continues (c + 1) n" "\<not> ?fin" "\<not> ?esc"
        "s ! c = newline \<longrightarrow> IsMultiLine kind" for n
    proof -
      have "string_lex_loop s kind (q # ts) (backslash # hs) (c + 1) n = (e, t, needs')" using loop False that(1) by simp
      from "1.hyps" [OF False that(1) _ this] False
      have "c + 1 \<le> e \<and> content_scan (IsMultiLine kind) (backslash # hs) (q # ts) (drop (c + 1) s) = (e - (c + 1), t)" by simp
      then show ?thesis using that(2-4) esc unfolding d content_scan.simps(2) by (auto simp: d)
    qed
    consider (plain) "\<not> ?fin" "\<not> ?esc" "s ! c = newline \<longrightarrow> IsMultiLine kind" | (stop) "\<not> ?fin" "s ! c = newline" "\<not> IsMultiLine kind"
      | (finish) ?fin | (escape) "\<not> ?fin" ?esc by blast
    then show ?thesis
    proof cases
      case plain
      then have "string_lex_step s kind (q # ts) (backslash # hs) c needs = Continues (c + 1) (needs \<or> s ! c = tab)"
        by (auto simp: string_lex_step_def Let_def special_chars)
      from skip [OF this plain] show ?thesis .
    next
      case stop
      then have "e = c" "\<not> t" using loop False by (simp_all add: string_lex_step_def special_chars)
      then show ?thesis using stop unfolding d content_scan.simps(2) by simp
    next
      case finish
      then have "s ! c \<noteq> newline" "s ! c \<noteq> backslash" "s ! c \<noteq> tab" using quote assms(3) by (auto simp: special_chars)
      then have "string_lex_step s kind (q # ts) (backslash # hs) c needs = Ends c True needs"
        using finish quote assms(3) by (auto simp: string_lex_step_def Let_def)
      then have "e = c" "t" using loop False by simp_all
      then show ?thesis using finish by (simp add: d content_scan.simps(2))
    next
      case escape
      let ?c = "c + 1 + length hs"
      have len: "?c \<le> length s" using escape(2) starts_with_length [of "drop (c + 1) s" hs] False by simp
      have after: "drop (length (backslash # hs)) (s ! c # drop (c + 1) s) = drop ?c s" by (simp add: add.commute)
      have step: "string_lex_step s kind (q # ts) (backslash # hs) c needs =
          (if length s \<le> ?c \<or> \<not> IsMultiLine kind \<and> s ! ?c = newline then Ends ?c False True else Continues (?c + 1) True)"
        using escape(2) by (simp add: string_lex_step_def Let_def special_chars add.commute)
      show ?thesis
      proof (cases "length s \<le> ?c \<or> \<not> IsMultiLine kind \<and> s ! ?c = newline")
        case True
        then have "e = ?c" "\<not> t" using loop False step by simp_all
        moreover have "drop ?c s = [] \<or> (\<exists>ds. drop ?c s = newline # ds) \<and> \<not> IsMultiLine kind"
          using True by (metis Cons_nth_drop_Suc drop_all not_less)
        ultimately show ?thesis using escape esc unfolding d content_scan.simps(2) after
          by (auto simp: d special_chars)
      next
        case going: False
        then have cont: "string_lex_step s kind (q # ts) (backslash # hs) c needs = Continues (?c + 1) True" using step by simp
        then have "string_lex_loop s kind (q # ts) (backslash # hs) (?c + 1) True = (e, t, needs')" using loop False by simp
        from "1.hyps" [OF False cont _ this] going
        have "?c + 1 \<le> e \<and> content_scan (IsMultiLine kind) (backslash # hs) (q # ts) (drop (?c + 1) s) = (e - (?c + 1), t)" by simp
        moreover have "drop ?c s = s ! ?c # drop (?c + 1) s" using going by (simp add: Cons_nth_drop_Suc)
        moreover have "drop (length (backslash # hs)) (drop (c + 1) s) = drop (?c + 1) s" by (simp add: add.commute)
        ultimately show ?thesis using escape esc going unfolding d content_scan.simps(2) after
          by (auto simp: d special_chars)
      qed
    qed
  qed
qed

end
