(* ===== verification/String_Value.thy ===== *)
theory String_Value
  imports String_Scan
begin

text \<open>
  Correctness of the values of string and character literals, over the model of
  \<open>toolchain/lex/string_literal.cpp\<close> in theory \<open>String_Literal\<close>: the expansion of a lexed
  literal passes its checks and stays within its buffer, the fast path of single-line
  literals agrees with the expansion, and that of multi-line literals does so exactly when no line ends in a space.
\<close>

section \<open>The expansion\<close>

text \<open>What is relied on of the encoder: a valid code point takes at most four bytes.\<close>

definition utf8_encoder :: "(nat \<Rightarrow> string) \<Rightarrow> bool" where
  "utf8_encoder to_utf8 \<longleftrightarrow>
     (\<forall>cp \<le> 0x10FFFF. \<not> (0xD800 \<le> cp \<and> cp < 0xE000) \<longrightarrow> length (to_utf8 cp) \<le> 4)"

fun step_out :: "expand_step \<Rightarrow> string" where
  "step_out (Finished out ds) = out"
| "step_out (NextLine contents out ds) = out"
| "step_out (SameLine contents out last_escape ds) = out"

lemma trim_trailing_length: "length (trim_trailing out last_escape) \<le> length out"
  by (induction out last_escape rule: trim_trailing.induct) (subst trim_trailing.simps, auto)

lemma unicode_escape_length:
  assumes "utf8_encoder to_utf8" "ExpandUnicodeEscapeSequence to_utf8 pos digits ds = (Some bytes, ds')"
  shows "length bytes \<le> 4"
  using assms
  by (auto simp: ExpandUnicodeEscapeSequence_def utf8_encoder_def split: if_splits option.splits)

lemma IsUpperHexDigit_not_backslash: "IsUpperHexDigit c \<Longrightarrow> c \<noteq> backslash"
  by (auto simp: IsUpperHexDigit_def byte_of_def special_chars)

lemma not_IsUpperHexDigit_backslash [simp]: "\<not> IsUpperHexDigit backslash"
  using IsUpperHexDigit_not_backslash by blast

lemma esc_ok_unicode:
  assumes "starts_with content ''{''" "starts_with (drop (length ds) (drop 1 content)) ''}''"
    "ds = takeWhile IsUpperHexDigit (drop 1 content)" "esc_ok e content"
  shows "esc_ok e (drop (length ds + 2) content)" "length ds + 2 \<le> length content"
proof -
  obtain r where r: "drop (length ds) (drop 1 content) = CHR ''}'' # r"
    using assms(2) by (auto simp: starts_with_iff)
  obtain t where t: "content = CHR ''{'' # t" using assms(1) by (auto simp: starts_with_iff)
  have "content = CHR ''{'' # ds @ CHR ''}'' # r"
    using append_takeWhile_drop [of t IsUpperHexDigit] r t assms(3) by simp
  moreover have "\<forall>c \<in> set ds. c \<noteq> backslash"
    using assms(3) by (auto dest: set_takeWhileD IsUpperHexDigit_not_backslash)
  ultimately show "esc_ok e (drop (length ds + 2) content)" "length ds + 2 \<le> length content"
    using esc_ok_drop [OF assms(4), of "length ds + 2"] by (auto simp: special_chars)
qed

lemma ExpandAndConsumeEscapeSequence_ok:
  assumes "utf8_encoder to_utf8" "content0 \<noteq> []" "esc_ok e (tl content0)"
  obtains rest bytes ds' where
    "ExpandAndConsumeEscapeSequence to_utf8 end_off content0 ds = Ret (rest, bytes, ds')"
    "length rest + length bytes \<le> length content0" "esc_ok e rest"
proof -
  obtain rest bytes ds' where r: "ExpandAndConsumeEscapeSequence to_utf8 end_off content0 ds = Ret (rest, bytes, ds')"
    using assms(2) by (cases "ExpandAndConsumeEscapeSequence to_utf8 end_off content0 ds")
      (auto simp: ExpandAndConsumeEscapeSequence_def Let_def)
  obtain f content where c: "content0 = f # content" using assms(2) by (cases content0) auto
  define digits where "digits = takeWhile IsUpperHexDigit (drop (Suc 0) content)"
  then have digits: "digits = takeWhile IsUpperHexDigit (drop 1 content)" by simp
  consider (char) "rest = content" "length bytes = 1"
    | (hex) "f = CHR ''x''" "rest = drop 2 content" "length bytes = 1" "2 \<le> length content"
        "IsUpperHexDigit (content ! 0)" "IsUpperHexDigit (content ! 1)"
    | (unicode) ds1 where "starts_with content ''{''" "digits \<noteq> []"
        "starts_with (drop (length digits) (drop 1 content)) ''}''" 
        "rest = drop (length digits + 2) content"
        "ExpandUnicodeEscapeSequence to_utf8 (end_off - (length content - 1)) digits ds = (Some bytes, ds1)"
  proof -
    consider "f = CHR ''u''" | "f = CHR ''x''" | "f \<noteq> CHR ''u''" "f \<noteq> CHR ''x''" by blast
    then show thesis
    proof cases
      case 1
      show thesis
      proof (cases "starts_with content ''{'' \<and> digits \<noteq> [] \<and> starts_with (drop (length digits) (drop 1 content)) ''}''")
        case True
        with r 1 char unicode show thesis
          by (cases "ExpandUnicodeEscapeSequence to_utf8 (end_off - (length content - 1)) digits ds")
            (auto simp: ExpandAndConsumeEscapeSequence_def Let_def c digits_def [symmetric] special_chars
              split: option.splits)
      next
        case False
        with r 1 char show thesis
          by (auto simp: ExpandAndConsumeEscapeSequence_def Let_def c digits_def [symmetric] special_chars
              split: if_split_asm)
      qed
    next
      case 2
      with r char hex show thesis
        by (auto simp: ExpandAndConsumeEscapeSequence_def Let_def c special_chars simp del: hex_digit.simps
            split: if_split_asm)
    next
      case 3
      with r have "rest = content \<and> length bytes = 1"
        by (auto simp: ExpandAndConsumeEscapeSequence_def Let_def c split: if_split_asm)
      with char show thesis by blast
    qed
  qed
  then have "length rest + length bytes \<le> length content0 \<and> esc_ok e rest"
  proof cases
    case char
    then show ?thesis using assms(3) by (simp add: c)
  next
    case hex
    have "\<forall>x \<in> set (take 2 content). x \<noteq> backslash"
      using hex(4-6) by (auto simp: in_set_conv_nth less_2_cases_iff dest: IsUpperHexDigit_not_backslash)
    with esc_ok_drop [of e content 2] assms(3) hex show ?thesis by (simp add: c)
  next
    case unicode
    have "1 \<le> length digits" using unicode(2) by (cases digits) auto
    with unicode_escape_length [OF assms(1) unicode(5)] esc_ok_unicode [OF unicode(1,3) digits]
      assms(3) unicode(4) show ?thesis by (simp add: c)
  qed
  with r that show thesis by blast
qed

lemma esc_ok_escape:
  assumes "esc_ok (backslash # hs) cs" "starts_with cs (backslash # hs)"
  shows "drop (length hs + 1) cs \<noteq> []" "esc_ok (backslash # hs) (tl (drop (length hs + 1) cs))"
proof -
  obtain t where "cs = backslash # t" using assms(2) by (cases cs) auto
  with assms show "drop (length hs + 1) cs \<noteq> []" "esc_ok (backslash # hs) (tl (drop (length hs + 1) cs))"
    by (auto simp: esc_ok.simps(2) drop_Suc tl_drop)
qed

lemma find_if_not_split:
  "(case find_if (\<lambda>c. \<not> P c) xs of None \<Rightarrow> xs | Some k \<Rightarrow> take k xs) = takeWhile P xs"
  "(case find_if (\<lambda>c. \<not> P c) xs of None \<Rightarrow> [] | Some k \<Rightarrow> drop k xs) = dropWhile P xs"
  by (induction xs) (auto split: option.splits)

lemma expand_line_step_ok:
  assumes enc: "utf8_encoder to_utf8" and ok: "esc_ok (backslash # hs) contents"
  obtains r where "expand_line_step to_utf8 end_off (backslash # hs) contents out last_escape ds = Ret r"
    "esc_ok (backslash # hs) (step_contents r)"
    "length (step_contents r) + length (step_out r) \<le> length contents + length out"
proof (cases "find_if (\<lambda>c. c = newline \<or> c = backslash \<or> IsHorizontalWhitespace c \<and> c \<noteq> CHR '' '') contents")
  case None
  with that [of "Finished (out @ contents) ds"] show thesis by (simp add: expand_line_step_def)
next
  case (Some n)
  define cs out' where "cs = drop n contents" and "out' = out @ take n contents"
  have stop: "cs \<noteq> []" "hd cs = newline \<or> hd cs = backslash \<or> IsHorizontalWhitespace (hd cs) \<and> hd cs \<noteq> CHR '' ''"
    using find_if_drop_hd [OF Some] by (auto simp: cs_def)
  have len: "length cs + length out' = length contents + length out"
    using find_if_less [OF Some] by (simp add: cs_def out'_def)
  have "\<forall>c \<in> set (take n contents). c \<noteq> backslash"
    using find_if_Some [OF Some] by (auto simp: in_set_conv_nth)
  then have cok: "esc_ok (backslash # hs) cs" unfolding cs_def by (rule esc_ok_drop [OF ok])
  note step = expand_line_step_def [of to_utf8 end_off "backslash # hs" contents out last_escape ds,
      unfolded Some option.case Let_def, folded cs_def out'_def]
  have drop1: "hd cs \<noteq> backslash \<or> \<not> starts_with cs (backslash # hs) \<Longrightarrow> esc_ok (backslash # hs) (drop 1 cs)"
    "length (drop 1 cs) + 1 = length cs"
    using cok stop(1) by (cases cs; auto simp: esc_ok_plain esc_ok_raw)+
  consider (nl) "hd cs = newline" | (space) "IsHorizontalWhitespace (hd cs)" "hd cs \<noteq> CHR '' ''"
    | (raw) "hd cs = backslash" "\<not> starts_with cs (backslash # hs)"
    | (esc) "hd cs = backslash" "starts_with cs (backslash # hs)"
    using stop by blast
  then show thesis
  proof cases
    case nl
    then have "starts_with cs [newline]" using stop(1) by (cases cs) auto
    with that [of "NextLine (drop 1 cs) (trim_trailing out' last_escape @ [newline]) ds"] step drop1 len
      trim_trailing_length [of out' last_escape] nl show thesis
      by (simp add: special_chars)
  next
    case space
    have ns: "\<not> starts_with cs [newline]"
      using stop(1) space by (cases cs) (auto simp: IsHorizontalWhitespace_def special_chars)
    have wok: "esc_ok (backslash # hs) (dropWhile IsHorizontalWhitespace cs)"
      by (rule esc_ok_dropWhile [OF cok]) (simp add: IsHorizontalWhitespace_def special_chars)
    have wlen: "length (takeWhile IsHorizontalWhitespace cs) + length (dropWhile IsHorizontalWhitespace cs) = length cs"
      by (metis length_append takeWhile_dropWhile_id)
    define after_space where "after_space = find_if (\<lambda>c. \<not> IsHorizontalWhitespace c) cs"
    have sp: "(case after_space of None \<Rightarrow> cs | Some k \<Rightarrow> take k cs) = takeWhile IsHorizontalWhitespace cs"
      "(case after_space of None \<Rightarrow> [] | Some k \<Rightarrow> drop k cs) = dropWhile IsHorizontalWhitespace cs"
      unfolding after_space_def by (rule find_if_not_split)+
    show thesis
    proof (cases "case after_space of None \<Rightarrow> True | Some k \<Rightarrow> cs ! k \<noteq> newline")
      case True
      with that [of "SameLine (dropWhile IsHorizontalWhitespace cs) (out' @ takeWhile IsHorizontalWhitespace cs)
          last_escape (ds @ [(end_off - length cs, InvalidHorizontalWhitespaceInString)])"] step space ns wok wlen len
      show thesis by (simp add: after_space_def [symmetric] sp)
    next
      case False
      with that [of "SameLine (dropWhile IsHorizontalWhitespace cs) out' last_escape ds"] step space ns wok wlen len
      show thesis by (simp add: after_space_def [symmetric] sp)
    qed
  next
    case raw
    then have "\<not> starts_with cs [newline]" "\<not> IsHorizontalWhitespace (hd cs)"
      using stop(1) by (cases cs; auto simp: IsHorizontalWhitespace_def special_chars)+
    with that [of "SameLine (drop 1 cs) (out' @ [hd cs]) last_escape ds"] step drop1 len raw show thesis
      by simp
  next
    case esc
    then have n: "\<not> starts_with cs [newline]" "\<not> IsHorizontalWhitespace (hd cs)"
      using stop(1) by (cases cs; auto simp: IsHorizontalWhitespace_def special_chars)+
    define ct where "ct = drop (length (backslash # hs)) cs"
    have ct: "ct \<noteq> []" "esc_ok (backslash # hs) (tl ct)" "length ct < length cs"
      using esc_ok_escape [OF cok esc(2)] stop(1) by (auto simp: ct_def)
    from ExpandAndConsumeEscapeSequence_ok [OF enc ct(1,2)]
    obtain rest bytes ds' where x:
      "ExpandAndConsumeEscapeSequence to_utf8 end_off ct ds = Ret (rest, bytes, ds')"
      "length rest + length bytes \<le> length ct" "esc_ok (backslash # hs) rest" .
    show thesis
    proof (cases "starts_with ct [newline]")
      case True
      with that [of "NextLine (drop 1 ct) out' ds"] step [folded ct_def] n esc(2) ct len show thesis
        by (simp add: drop_Suc)
    next
      case False
      with that [of "SameLine rest (out' @ bytes) (length (out' @ bytes)) ds'"] step [folded ct_def]
        n esc(2) ct len x show thesis
        by simp
    qed
  qed
qed

lemma consume_indent_ok:
  assumes "esc_ok e contents" "backslash \<notin> set indent"
  shows "esc_ok e (fst (consume_indent end_off indent contents ds))"
    "length (fst (consume_indent end_off indent contents ds)) \<le> length contents"
proof -
  have w: "esc_ok e (dropWhile IsHorizontalWhitespace contents)"
    by (rule esc_ok_dropWhile [OF assms(1)]) (simp add: IsHorizontalWhitespace_def special_chars)
  have i: "esc_ok e (drop (length indent) contents)" if "starts_with contents indent"
    by (rule esc_ok_drop [OF assms(1)]) (use that assms(2) in \<open>auto simp: starts_with_take\<close>)
  show "esc_ok e (fst (consume_indent end_off indent contents ds))"
    using w i by (simp add: consume_indent_def Let_def)
  show "length (fst (consume_indent end_off indent contents ds)) \<le> length contents"
    using length_dropWhile_le [of IsHorizontalWhitespace contents]
    by (simp add: consume_indent_def Let_def)
qed

text \<open>The expansion never fails, and what is written and what is left never outgrow the content.\<close>

lemma expand_loop_ok:
  assumes "utf8_encoder to_utf8" "backslash \<notin> set indent" "esc_ok (backslash # hs) contents"
  shows "\<exists>result ds'. expand_loop to_utf8 end_off (backslash # hs) indent at_start contents out last_escape ds =
      Ret (result, ds') \<and> length result \<le> length contents + length out"
  using assms
proof (induction to_utf8 end_off "backslash # hs" indent at_start contents out last_escape ds
    rule: expand_loop.induct)
  case (1 to_utf8 end_off indent at_start contents out last_escape ds)
  show ?case
  proof (cases at_start)
    case True
    from consume_indent_ok [OF "1.prems"(3,2), of end_off ds] "1.hyps"(1) [OF True "1.prems"(1,2)]
    show ?thesis
      by (subst expand_loop.simps) (use True in \<open>auto intro: le_trans\<close>)
  next
    case False
    obtain r where r: "expand_line_step to_utf8 end_off (backslash # hs) contents out last_escape ds = Ret r"
      "esc_ok (backslash # hs) (step_contents r)"
      "length (step_contents r) + length (step_out r) \<le> length contents + length out"
      using expand_line_step_ok [OF "1.prems"(1,3)] .
    show ?thesis
    proof (cases r)
      case (Finished o' d')
      with r False show ?thesis by (subst expand_loop.simps) simp
    next
      case (NextLine c' o' d')
      with r False "1.hyps"(2) [OF False r(1) NextLine "1.prems"(1,2)] show ?thesis
        by (subst expand_loop.simps) (auto intro: le_trans)
    next
      case (SameLine c' o' l' d')
      with r False "1.hyps"(3) [OF False r(1) SameLine "1.prems"(1,2)] show ?thesis
        by (subst expand_loop.simps) (auto intro: le_trans)
    qed
  qed
qed

lemma Expand_ok:
  assumes "utf8_encoder to_utf8" "backslash \<notin> set indent" "scanned_ok (escape_of lit) kind needs content"
  obtains result ds' where
    "ExpandEscapeSequencesAndRemoveIndent to_utf8 end_off content (sl_hash_level lit) indent ds = Ret (result, ds')"
    "length result \<le> length content"
  using expand_loop_ok [OF assms(1,2), of "replicate (sl_hash_level lit) (CHR ''#'')" content end_off True "[]" 0 ds]
    assms(3)
  by (auto simp: ExpandEscapeSequencesAndRemoveIndent_def scanned_ok_def escape_of_def)

section \<open>Indentation\<close>

lemma indent_loop_ok:
  assumes "newline \<in> set (take i str)" "i \<le> ie" "ie \<le> length str" "\<forall>k. i \<le> k \<and> k < ie \<longrightarrow> IsSpace (str ! k)"
  shows "\<exists>b e. indent_loop str i ie = Ret (b, e) \<and> b \<le> e \<and> e \<le> length str \<and>
      (\<forall>k. b \<le> k \<and> k < e \<longrightarrow> IsSpace (str ! k))"
  using assms
proof (induction str i ie rule: indent_loop.induct)
  case (2 str i ie)
  show ?case
  proof (cases "str ! i = newline")
    case True
    with "2.prems" show ?thesis by simp
  next
    case False
    define ie' where "ie' = (if \<not> IsSpace (str ! i) then i else ie)"
    have "newline \<in> set (take i str)"
      using "2.prems"(1,2,3) False by (simp add: take_Suc_conv_app_nth)
    moreover have "IsSpace (str ! k)" if "i \<le> k" "k < ie'" for k
      using "2.prems"(4) that by (cases "k = i") (auto simp: ie'_def split: if_splits)
    moreover have "i \<le> ie'" "ie' \<le> length str" using "2.prems"(2,3) by (auto simp: ie'_def)
    ultimately have "\<exists>b e. indent_loop str i ie' = Ret (b, e) \<and> b \<le> e \<and> e \<le> length str \<and>
        (\<forall>k. b \<le> k \<and> k < e \<longrightarrow> IsSpace (str ! k))"
      using "2.IH" [OF False, folded ie'_def] by blast
    moreover have "indent_loop str (Suc i) ie = indent_loop str i ie'"
      using False by (simp add: ie'_def)
    ultimately show ?thesis by simp
  qed
qed simp

lemma CheckIndent_ok:
  assumes "newline \<in> set (sl_text lit)"
  obtains indent ds' where "CheckIndent lit ds = Ret (indent, ds')" "backslash \<notin> set indent"
proof -
  obtain b e where be: "indent_loop (sl_text lit) (length (sl_text lit)) (length (sl_text lit)) = Ret (b, e)"
      "e \<le> length (sl_text lit)" "\<forall>k. b \<le> k \<and> k < e \<longrightarrow> IsSpace (sl_text lit ! k)"
  proof -
    have "\<exists>b e. indent_loop (sl_text lit) (length (sl_text lit)) (length (sl_text lit)) = Ret (b, e) \<and> b \<le> e \<and>
        e \<le> length (sl_text lit) \<and> (\<forall>k. b \<le> k \<and> k < e \<longrightarrow> IsSpace (sl_text lit ! k))"
      by (rule indent_loop_ok) (use assms in auto)
    with that show thesis by blast
  qed
  have "\<forall>c \<in> set (substr (sl_text lit) b (e - b)). IsSpace c"
    using be(2,3) by (auto simp: substr_def in_set_conv_nth)
  moreover have "\<not> IsSpace backslash"
    by (simp add: IsSpace_def IsHorizontalWhitespace_def IsVerticalWhitespace_def special_chars)
  ultimately have "backslash \<notin> set (substr (sl_text lit) b (e - b))" by blast
  with be(1) that show thesis
    by (simp add: CheckIndent_def ComputeIndentOfFinalLine_def)
qed

section \<open>Plain contents\<close>

text \<open>A content with no newline, no tab and no escape.\<close>

definition plain_content :: "string \<Rightarrow> string \<Rightarrow> bool" where
  "plain_content escape contents \<longleftrightarrow> newline \<notin> set contents \<and> tab \<notin> set contents \<and>
     (\<forall>k < length contents. \<not> starts_with (drop k contents) escape)"

lemma plain_content_drop: "plain_content e cs \<Longrightarrow> plain_content e (drop n cs)"
  by (auto simp: plain_content_def in_set_dropD add.commute dest: in_set_dropD)

lemma expand_line_step_plain:
  assumes "plain_content escape contents"
    "find_if (\<lambda>c. c = newline \<or> c = backslash \<or> IsHorizontalWhitespace c \<and> c \<noteq> CHR '' '') contents = Some n"
  shows "expand_line_step to_utf8 end_off escape contents out last_escape ds =
    Ret (SameLine (drop (Suc n) contents) (out @ take (Suc n) contents) last_escape ds)"
proof -
  have n: "n < length contents" using assms(2) by (rule find_if_less)
  then have hd: "hd (drop n contents) = contents ! n" by (simp add: hd_drop_conv_nth)
  have "contents ! n \<noteq> newline" "contents ! n \<noteq> tab"
    using assms(1) nth_mem [OF n] by (auto simp: plain_content_def)
  moreover have "\<not> starts_with (drop n contents) [newline]"
    using n \<open>contents ! n \<noteq> newline\<close> by (simp add: Cons_nth_drop_Suc [symmetric])
  moreover have "contents ! n = backslash"
    using find_if_Some [OF assms(2)] calculation by (auto simp: IsHorizontalWhitespace_def)
  moreover have "\<not> starts_with (drop n contents) escape"
    using assms(1) n by (simp add: plain_content_def)
  ultimately show ?thesis
    using n assms(2)
    by (simp add: expand_line_step_def Let_def hd IsHorizontalWhitespace_def take_Suc_conv_app_nth special_chars)
qed

lemma expand_loop_plain:
  "plain_content escape contents \<Longrightarrow>
   expand_loop to_utf8 end_off escape indent False contents out last_escape ds = Ret (out @ contents, ds)"
proof (induction "length contents" arbitrary: contents out rule: less_induct)
  case less
  show ?case
  proof (cases "find_if (\<lambda>c. c = newline \<or> c = backslash \<or> IsHorizontalWhitespace c \<and> c \<noteq> CHR '' '') contents")
    case None
    then show ?thesis by (subst expand_loop.simps) (simp add: expand_line_step_def)
  next
    case (Some n)
    have "length (drop (Suc n) contents) < length contents" using find_if_less [OF Some] by simp
    from less.hyps [OF this plain_content_drop [OF less.prems]]
    show ?thesis
      by (subst expand_loop.simps) (simp add: expand_line_step_plain [OF less.prems Some])
  qed
qed

section \<open>Properties\<close>

lemma Introducer_Lex_None_iff:
  "Introducer_Lex s = None \<longleftrightarrow> \<not> (\<exists>r. s = dquote # r \<or> s = squote # r)"
proof (cases s)
  case (Cons c r)
  have "multi_line_introducer s MultiLine ind \<noteq> None" for ind
    by (simp add: multi_line_introducer_def Let_def)
  then show ?thesis
    using Cons by (auto simp: Introducer_Lex_def Let_def indicator_defs special_chars split: option.splits)
qed (simp add: Introducer_Lex_def indicator_defs)

lemma StringLiteral_Lex_scan:
  assumes "StringLiteral_Lex s = Some lit" "\<not> sl_has_invalid_introducer lit"
  defines "h \<equiv> sl_hash_level lit" and "hashes \<equiv> replicate (sl_hash_level lit) (CHR ''#'')"
  obtains intro rest n where "literal_opens (sl_kind lit) intro (drop h s)" "s = hashes @ intro @ rest"
    "sl_content_offset lit = h + length intro"
    "content_scan (spans_lines (sl_kind lit)) (backslash # hashes) (quotes_of (sl_kind lit) @ hashes) rest = (n, sl_is_terminated lit)"
    "sl_content lit = take n rest"
    "sl_text lit = hashes @ intro @ take n rest @ (if sl_is_terminated lit then quotes_of (sl_kind lit) @ hashes else [])"
proof -
  from assms(1) obtain i e where scan: "Introducer_Lex (drop h s) = Some i" "in_is_valid i" "sl_kind lit = in_kind i"
      "sl_content_offset lit = h + in_prefix_size i"
      "string_lex_loop s (sl_kind lit) (in_terminator i @ hashes) (backslash # hashes) (sl_content_offset lit) False =
       (e, sl_is_terminated lit, sl_content_needs_validation lit)"
      "sl_content lit = substr s (sl_content_offset lit) (e - sl_content_offset lit)"
      "sl_text lit = take (if sl_is_terminated lit then e + length (in_terminator i) + h else e) s"
    by (cases rule: StringLiteral_Lex_cases) (use assms(2) in \<open>auto simp: h_def hashes_def escape_of_def\<close>)
  obtain intro rest where o: "literal_opens (in_kind i) intro (drop h s)" "in_prefix_size i = length intro"
      "drop h s = intro @ rest" "in_terminator i = quotes_of (in_kind i)"
    by (rule Introducer_Lex_opens [OF scan(1)]) (use scan(2) in auto)
  have s: "s = hashes @ intro @ rest"
    using sl_hash_level_prefix [OF assms(1)] o(3) append_take_drop_id [of h s] by (simp add: h_def hashes_def)
  have off: "sl_content_offset lit = length (hashes @ intro)" using scan(4) o(2) by (simp add: h_def hashes_def)
  obtain q ts where q: "quotes_of (sl_kind lit) @ hashes = q # ts" "q = squote \<or> q = dquote" by (cases "sl_kind lit") auto
  have rest: "rest = drop (sl_content_offset lit) s" using off s by simp
  have len: "sl_content_offset lit \<le> length s" using off arg_cong [OF s, of length] by simp
  note loop = string_lex_loop_scan [OF scan(5) [unfolded o(4) scan(3) [symmetric] q(1)] _ q(2)]
  have multi: "IsMultiLine (sl_kind lit) = spans_lines (sl_kind lit)" by (cases "sl_kind lit") (simp_all add: IsMultiLine_def spans_lines_def)
  have cs: "sl_content_offset lit \<le> e"
    "content_scan (spans_lines (sl_kind lit)) (backslash # hashes) (quotes_of (sl_kind lit) @ hashes) rest =
      (e - sl_content_offset lit, sl_is_terminated lit)"
    using loop [OF len] unfolding multi q(1) rest by simp_all
  have "sl_content lit = take (e - sl_content_offset lit) rest" by (simp add: scan(6) rest substr_def)
  moreover have "take e s = hashes @ intro @ take (e - sl_content_offset lit) rest"
    using cs(1) off s by (simp add: add.commute)
  moreover have "sl_text lit = take e s @ quotes_of (sl_kind lit) @ hashes" if "sl_is_terminated lit"
  proof -
    have "starts_with (drop e s) (in_terminator i @ hashes)"
      using string_lex_loop_props [OF scan(5)] that len by (simp add: hashes_def newline_def)
    then have "take (length (in_terminator i) + h) (drop e s) = in_terminator i @ hashes"
      by (simp add: starts_with_take hashes_def h_def)
    then show ?thesis using scan(3,7) o(4) that by (simp add: take_add add.assoc)
  qed
  moreover have "sl_text lit = take e s" if "\<not> sl_is_terminated lit" using scan(7) that by simp
  ultimately show thesis
    using that [OF _ s _ cs(2)] o(1) scan(3) off by (auto simp: hashes_def h_def)
qed

lemma sl_hash_level_eq: "StringLiteral_Lex s = Some lit \<Longrightarrow> sl_hash_level lit = length (takeWhile (\<lambda>c. c = CHR ''#'') s)"
  by (auto simp: StringLiteral_Lex_def Let_def split: option.splits if_splits prod.splits)

lemma StringLiteral_Lex_invalid:
  assumes lex: "StringLiteral_Lex s = Some lit" and inv: "sl_has_invalid_introducer lit"
  defines "h \<equiv> sl_hash_level lit"
  shows "sl_kind lit = MultiLine \<and> starts_with (drop h s) (quotes_of MultiLine)
      \<and> \<not> (\<exists>line. introducer_line (quotes_of MultiLine) (drop h s) line)
      \<and> sl_text lit = replicate h (CHR ''#'') @ takeWhile (\<lambda>c. c \<noteq> newline) (drop h s) \<and> \<not> sl_is_terminated lit"
proof -
  obtain i where i: "Introducer_Lex (drop h s) = Some i" "\<not> in_is_valid i" "sl_text lit = take (h + in_prefix_size i) s"
    "sl_kind lit = MultiLine" "\<not> sl_is_terminated lit"
    using lex inv unfolding h_def by (auto elim: StringLiteral_Lex_cases)
  have "take (h + in_prefix_size i) s = take h s @ take (in_prefix_size i) (drop h s)" by (rule take_add)
  moreover have "take h s = replicate h (CHR ''#'')" using sl_hash_level_prefix(1) [OF lex] by (simp add: h_def)
  ultimately show ?thesis using i by (auto elim: Introducer_Lex_opens)
qed

text \<open>
  C15. A string or character literal is lexed exactly where a run of \<open>#\<close> is followed by a quote, and is a non-empty prefix of
  the source. Its kind is the one its quotes open: three quotes open lines of text where the rest of their line is well
  formed. The content ends at the first terminator that is not escaped, the same quotes and as many \<open>#\<close>, which ends the
  text; without one the literal is unterminated and ends with the source or, for the kinds of one line, with the line. When the line after
  three single quotes is not well formed, the literal is that line and is marked invalid.
\<close>

theorem string_literal_delimits:
  "let h = length (takeWhile (\<lambda>c. c = CHR ''#'') s); hashes = replicate h (CHR ''#''); body = drop h s in
   (StringLiteral_Lex s = None \<longleftrightarrow> \<not> starts_with body [dquote] \<and> \<not> starts_with body [squote]) \<and>
   (\<forall>lit. StringLiteral_Lex s = Some lit \<longrightarrow>
      sl_text lit \<noteq> [] \<and> (\<exists>rest. s = sl_text lit @ rest) \<and> sl_hash_level lit = h \<and>
      (if sl_has_invalid_introducer lit
       then sl_kind lit = MultiLine \<and> starts_with body (quotes_of MultiLine)
         \<and> \<not> (\<exists>line. introducer_line (quotes_of MultiLine) body line)
         \<and> sl_text lit = hashes @ takeWhile (\<lambda>c. c \<noteq> newline) body \<and> \<not> sl_is_terminated lit
       else \<exists>intro rest n. literal_opens (sl_kind lit) intro body \<and> s = hashes @ intro @ rest
         \<and> sl_content_offset lit = h + length intro
         \<and> content_scan (spans_lines (sl_kind lit)) (backslash # hashes) (quotes_of (sl_kind lit) @ hashes) rest
             = (n, sl_is_terminated lit)
         \<and> sl_content lit = take n rest
         \<and> sl_text lit = hashes @ intro @ take n rest @ (if sl_is_terminated lit then quotes_of (sl_kind lit) @ hashes else [])))"
proof -
  define h where "h = length (takeWhile (\<lambda>c. c = CHR ''#'') s)"
  have none: "StringLiteral_Lex s = None \<longleftrightarrow> \<not> starts_with (drop h s) [dquote] \<and> \<not> starts_with (drop h s) [squote]"
  proof -
    have "StringLiteral_Lex s = None \<longleftrightarrow> Introducer_Lex (drop h s) = None"
      by (auto simp: StringLiteral_Lex_def Let_def h_def split: option.splits prod.splits)
    then show ?thesis unfolding Introducer_Lex_None_iff by (auto simp: starts_with_iff)
  qed
  have level: "sl_hash_level lit = h" if "StringLiteral_Lex s = Some lit" for lit
    using sl_hash_level_eq [OF that] by (simp add: h_def)
  have valid: "\<exists>intro rest n. literal_opens (sl_kind lit) intro (drop h s) \<and> s = replicate h (CHR ''#'') @ intro @ rest
      \<and> sl_content_offset lit = h + length intro
      \<and> content_scan (spans_lines (sl_kind lit)) (backslash # replicate h (CHR ''#''))
          (quotes_of (sl_kind lit) @ replicate h (CHR ''#'')) rest = (n, sl_is_terminated lit)
      \<and> sl_content lit = take n rest
      \<and> sl_text lit = replicate h (CHR ''#'') @ intro @ take n rest
          @ (if sl_is_terminated lit then quotes_of (sl_kind lit) @ replicate h (CHR ''#'') else [])"
    if lex: "StringLiteral_Lex s = Some lit" and val: "\<not> sl_has_invalid_introducer lit" for lit
    by (rule StringLiteral_Lex_scan [OF lex val, unfolded level [OF lex]]) blast
  show ?thesis
    unfolding Let_def h_def [symmetric]
  proof (intro conjI allI impI none, goal_cases)
    case (1 lit)
    then show ?case by (rule StringLiteral_Lex_prefix)
  next
    case (2 lit)
    then show ?case by (rule StringLiteral_Lex_prefix)
  next
    case (3 lit)
    then show ?case by (rule level)
  next
    case (4 lit)
    then show ?case using StringLiteral_Lex_invalid [OF 4] level [OF 4] valid [OF 4] by (cases "sl_has_invalid_introducer lit") simp_all
  qed
qed

text \<open>A string in double quotes before a semicolon.\<close>

theorem string_literal_delimits_witness:
  "(\<exists>lit. StringLiteral_Lex [dquote, CHR ''a'', dquote, CHR '';''] = Some lit \<and> sl_text lit = [dquote, CHR ''a'', dquote]) \<and>
   literal_opens SingleLine [dquote] [dquote, CHR ''a'', dquote, CHR '';'']"
proof -
  have lex: "StringLiteral_Lex [dquote, CHR ''a'', dquote, CHR '';''] =
    Some \<lparr>sl_text = [dquote, CHR ''a'', dquote], sl_content = ''a'', sl_content_offset = 1,
      sl_content_needs_validation = False, sl_hash_level = 0, sl_kind = SingleLine,
      sl_is_terminated = True, sl_has_invalid_introducer = False\<rparr>"
    by code_simp
  let ?s = "[dquote, CHR ''a'', dquote, CHR '';'']"
  have h: "length (takeWhile (\<lambda>c. c = CHR ''#'') ?s) = 0" by (simp add: special_chars)
  obtain intro where "literal_opens SingleLine intro ?s"
    using conjunct2 [OF string_literal_delimits [of ?s, unfolded Let_def h], rule_format, OF lex] by auto
  moreover from this have "intro = [dquote]" by (simp add: literal_opens_def spans_lines_def)
  ultimately show ?thesis using lex by simp
qed

lemma terminated_multi_line_newline:
  assumes "StringLiteral_Lex s = Some lit" "sl_is_terminated lit" "IsMultiLine (sl_kind lit)"
  shows "newline \<in> set (sl_text lit)"
proof -
  obtain intro quote where i:
    "sl_text lit = intro @ sl_content lit @ quote @ replicate (sl_hash_level lit) (CHR ''#'')"
    "quote \<noteq> []" "starts_with intro (replicate (sl_hash_level lit) (CHR ''#'') @ quote)" "last intro = newline"
    using StringLiteral_Lex_terminated(1) [OF assms(1,2)] assms(3) by blast
  then have "intro \<noteq> []" by (auto simp: starts_with_iff)
  then have "newline \<in> set intro" using i(4) last_in_set by metis
  then show ?thesis using i(1) by simp
qed

lemma ComputeStringValue_ok:
  assumes "utf8_encoder to_utf8" "StringLiteral_Lex s = Some lit" "sl_is_terminated lit" "sl_kind lit \<noteq> CharKind"
  shows "\<exists>v ds'. ComputeStringValue to_utf8 lit ds = Ret (v, ds') \<and> length v \<le> length (sl_content lit)"
proof -
  define ds1 where "ds1 = (if sl_kind lit = MultiLineWithDoubleQuotes
    then ds @ [(0, MultiLineStringWithDoubleQuotes_diag)] else ds)"
  obtain indent ds2 where ind:
    "(if IsMultiLine (sl_kind lit) then CheckIndent lit ds1 else Ret ([], ds1)) = Ret (indent, ds2)"
    "backslash \<notin> set indent"
  proof (cases "IsMultiLine (sl_kind lit)")
    case True
    from CheckIndent_ok [OF terminated_multi_line_newline [OF assms(2,3) True], of ds1] that True
    show thesis by auto
  next
    case False
    with that [of "[]" ds1] show thesis by simp
  qed
  obtain v ds3 where ex: "ExpandEscapeSequencesAndRemoveIndent to_utf8
      (sl_content_offset lit + length (sl_content lit)) (sl_content lit) (sl_hash_level lit) indent ds2 = Ret (v, ds3)"
    "length v \<le> length (sl_content lit)"
    using Expand_ok [OF assms(1) ind(2) StringLiteral_Lex_terminated(2) [OF assms(2,3)]] .
  show ?thesis
    using assms(3,4) ind(1) ex by (simp add: ComputeStringValue_def Let_def ds1_def [symmetric])
qed

text \<open>
  C14. The value of every terminated string literal is computed: no check fails, the final line's
  indent is found, and the value is no longer than the content, so the buffer allocated for
  it is never exceeded.
\<close>

theorem string_value_total:
  assumes "utf8_encoder to_utf8"
    and "StringLiteral_Lex s = Some lit" "sl_is_terminated lit" "sl_kind lit \<noteq> CharKind"
  shows "\<exists>v ds'. ComputeStringValue to_utf8 lit ds = Ret (v, ds') \<and> length v \<le> length (sl_content lit)"
  using assms by (rule ComputeStringValue_ok)

text \<open>The encoder that instantiates the parameter in the witnesses: UTF-8 itself.\<close>

definition utf8_encode :: "nat \<Rightarrow> string" where
  "utf8_encode cp =
     (if cp < 0x80 then [char_of cp]
      else if cp < 0x800 then [char_of (0xC0 + cp div 64), char_of (0x80 + cp mod 64)]
      else if cp < 0x10000
      then [char_of (0xE0 + cp div 4096), char_of (0x80 + cp div 64 mod 64), char_of (0x80 + cp mod 64)]
      else [char_of (0xF0 + cp div 262144), char_of (0x80 + cp div 4096 mod 64),
            char_of (0x80 + cp div 64 mod 64), char_of (0x80 + cp mod 64)])"

lemma utf8_encode_encoder: "utf8_encoder utf8_encode"
  by (simp add: utf8_encoder_def utf8_encode_def)

definition tab_literal :: StringLiteral where
  "tab_literal = \<lparr>sl_text = [dquote, backslash, CHR ''t'', dquote], sl_content = [backslash, CHR ''t''],
      sl_content_offset = 1, sl_content_needs_validation = True, sl_hash_level = 0, sl_kind = SingleLine,
      sl_is_terminated = True, sl_has_invalid_introducer = False\<rparr>"

theorem string_value_total_witness:
  "\<exists>v ds'. ComputeStringValue utf8_encode tab_literal [] = Ret (v, ds') \<and> length v \<le> 2"
proof -
  have "StringLiteral_Lex [dquote, backslash, CHR ''t'', dquote, CHR '';''] = Some tab_literal"
    by code_simp
  from string_value_total [OF utf8_encode_encoder this, of "[]"] show ?thesis
    by (simp add: tab_literal_def numeral_2_eq_2)
qed

lemma ExpandEscape_plain:
  assumes "plain_content (escape_of lit) content"
  shows "ExpandEscapeSequencesAndRemoveIndent to_utf8 end_off content (sl_hash_level lit) [] ds = Ret (content, ds)"
  unfolding ExpandEscapeSequencesAndRemoveIndent_def
  by (subst expand_loop.simps)
    (use expand_loop_plain [OF assms [unfolded escape_of_def]] in \<open>simp add: consume_indent_def\<close>)

text \<open>
  C36. For a single-line literal the fast path is sound: when lexing saw nothing that needs
  validation, the value, which is the content itself, is what the expansion would have
  produced, with no diagnostic.
\<close>

theorem string_fast_path_single_line:
  assumes "StringLiteral_Lex s = Some lit" "sl_is_terminated lit" "sl_kind lit = SingleLine"
    and "\<not> sl_content_needs_validation lit"
  shows "ComputeStringValue to_utf8 lit ds = Ret (sl_content lit, ds) \<and>
     ExpandEscapeSequencesAndRemoveIndent to_utf8 end_off (sl_content lit) (sl_hash_level lit) [] ds =
       Ret (sl_content lit, ds)"
proof -
  from StringLiteral_Lex_terminated(2) [OF assms(1,2)] assms(3,4)
  have "plain_content (escape_of lit) (sl_content lit)"
    by (simp add: scanned_ok_def plain_content_def IsMultiLine_def)
  then show ?thesis
    using assms(2-4) by (simp add: ExpandEscape_plain ComputeStringValue_def IsMultiLine_def)
qed

theorem string_fast_path_single_line_witness:
  "ComputeStringValue utf8_encode (the (StringLiteral_Lex [dquote, CHR ''a'', CHR '' '', dquote])) [] = Ret (''a '', [])"
proof -
  have l: "StringLiteral_Lex [dquote, CHR ''a'', CHR '' '', dquote] =
    Some \<lparr>sl_text = [dquote, CHR ''a'', CHR '' '', dquote], sl_content = ''a '', sl_content_offset = 1,
      sl_content_needs_validation = False, sl_hash_level = 0, sl_kind = SingleLine,
      sl_is_terminated = True, sl_has_invalid_introducer = False\<rparr>"
    by code_simp
  from string_fast_path_single_line [OF l] l show ?thesis by simp
qed

section \<open>Lines of text\<close>

text \<open>Lines of text without the spaces that end a line.\<close>

fun strip_lines :: "string \<Rightarrow> string" where
  "strip_lines [] = []"
| "strip_lines (c # cs) =
     (if c = CHR '' '' \<and> starts_with (strip_lines cs) [newline] then strip_lines cs else c # strip_lines cs)"

definition rstrip :: "string \<Rightarrow> string" where
  "rstrip line = rev (dropWhile (\<lambda>c. c = CHR '' '') (rev line))"

lemma rstrip_snoc [simp]: "rstrip (line @ [c]) = (if c = CHR '' '' then rstrip line else line @ [c])"
  by (simp add: rstrip_def)

lemma rstrip_Nil [simp]: "rstrip [] = []"
  by (simp add: rstrip_def)

lemma strip_lines_newline: "newline \<notin> set line \<Longrightarrow> strip_lines (line @ newline # rest) = rstrip line @ newline # strip_lines rest"
proof (induction line arbitrary: rest rule: rev_induct)
  case (snoc c line)
  show ?case
  proof (cases "c = CHR '' ''")
    case True
    have "strip_lines (line @ c # newline # rest) = strip_lines (line @ newline # rest)"
    proof -
      have "strip_lines (c # newline # rest) = strip_lines (newline # rest)" using True by (simp add: newline_def)
      then show ?thesis by (induction line) simp_all
    qed
    with snoc True show ?thesis by simp
  next
    case False
    have "strip_lines (c # newline # rest) = c # newline # strip_lines rest" using False by (simp add: newline_def)
    moreover have "strip_lines (ys @ c # u) = ys @ strip_lines (c # u)" if "newline \<notin> set (ys @ [c])" for ys u
      using that False
    proof (induction ys)
      case (Cons y ys)
      have "\<not> starts_with (ys @ strip_lines (c # u)) [newline]" using Cons.prems False by (cases ys) auto
      with Cons show ?case by simp
    qed simp
    ultimately show ?thesis using snoc.prems False by simp
  qed
qed (simp add: newline_def)

lemma strip_lines_one: "newline \<notin> set line \<Longrightarrow> strip_lines line = line"
  by (induction line) (auto split: if_splits dest!: arg_cong [of _ _ hd] simp: starts_with_iff)

lemma trim_trailing_line:
  "newline \<notin> set line \<Longrightarrow> tab \<notin> set line \<Longrightarrow> trim_trailing (base @ line) (length base) = base @ rstrip line"
proof (induction line rule: rev_induct)
  case Nil
  then show ?case by (subst trim_trailing.simps) simp
next
  case (snoc c line)
  have "trim_trailing (base @ line @ [c]) (length base) =
      (if IsSpace c then trim_trailing (base @ line) (length base) else base @ line @ [c])"
    using snoc.prems by (subst trim_trailing.simps) (auto simp: butlast_append)
  moreover have "IsSpace c \<longleftrightarrow> c = CHR '' ''"
    using snoc.prems by (auto simp: IsSpace_def IsHorizontalWhitespace_def IsVerticalWhitespace_def)
  ultimately show ?case using snoc by simp
qed

text \<open>The expansion of content without escapes and tabs, with no indent.\<close>

lemma expand_loop_lines:
  assumes "tab \<notin> set (line @ contents)" "\<forall>k < length contents. \<not> starts_with (drop k contents) escape" "newline \<notin> set line"
  shows "expand_loop to_utf8 end_off escape [] False contents (base @ line) (length base) ds =
    Ret (base @ strip_lines (line @ contents), ds)"
  using assms
proof (induction "length contents" arbitrary: contents base line rule: less_induct)
  case less
  let ?P = "\<lambda>c. c = newline \<or> c = backslash \<or> IsHorizontalWhitespace c \<and> c \<noteq> CHR '' ''"
  note tabs = less.prems(1) and esc = less.prems(2) and line = less.prems(3)
  show ?case
  proof (cases "find_if ?P contents")
    case None
    then have "newline \<notin> set contents" by (auto simp: find_if_None)
    then have "strip_lines (line @ contents) = line @ contents" using line by (intro strip_lines_one) simp
    then show ?thesis using None by (subst expand_loop.simps) (simp add: expand_line_step_def)
  next
    case (Some n)
    have n: "n < length contents" by (rule find_if_less [OF Some])
    then have split: "contents = take n contents @ contents ! n # drop (n + 1) contents" by (simp add: id_take_nth_drop)
    have at: "contents ! n = newline \<or> contents ! n = backslash"
    proof -
      have "contents ! n \<noteq> tab" using tabs nth_mem [OF n] by auto
      then show ?thesis using find_if_Some [OF Some] by (auto simp: IsHorizontalWhitespace_def)
    qed
    have before: "newline \<notin> set (take n contents)"
      using find_if_Some [OF Some] by (auto simp: in_set_conv_nth)
    have rest: "length (drop (n + 1) contents) < length contents" "tab \<notin> set (drop (n + 1) contents)"
      "\<forall>k < length (drop (n + 1) contents). \<not> starts_with (drop k (drop (n + 1) contents)) escape"
      "tab \<notin> set (take n contents)"
      using n tabs esc by (auto dest: in_set_dropD in_set_takeD)
    have hd: "hd (drop n contents) = contents ! n" "starts_with (drop n contents) [newline] \<longleftrightarrow> contents ! n = newline"
      "drop 1 (drop n contents) = drop (n + 1) contents"
      using n by (simp_all add: Cons_nth_drop_Suc [symmetric])
    show ?thesis
    proof (cases "contents ! n = newline")
      case True
      let ?base = "base @ rstrip (line @ take n contents) @ [newline]"
      have "expand_line_step to_utf8 end_off escape contents (base @ line) (length base) ds =
          Ret (NextLine (drop (n + 1) contents) ?base ds)"
        using Some hd True trim_trailing_line [of "line @ take n contents" base] before line rest(4) tabs
        by (simp add: expand_line_step_def Let_def)
      moreover have "expand_loop to_utf8 end_off escape [] False (drop (n + 1) contents) ?base (length ?base) ds =
          Ret (?base @ strip_lines (drop (n + 1) contents), ds)"
        using less.hyps [OF rest(1), of "[]" ?base] rest(2,3) by simp
      moreover have "expand_loop to_utf8 end_off escape [] True cs out l ds = expand_loop to_utf8 end_off escape [] False cs out (length out) ds"
        for cs out l by (subst expand_loop.simps) (simp add: consume_indent_def)
      ultimately have "expand_loop to_utf8 end_off escape [] False contents (base @ line) (length base) ds =
          Ret (?base @ strip_lines (drop (n + 1) contents), ds)"
        by (subst expand_loop.simps) simp
      moreover have "strip_lines (line @ contents) = rstrip (line @ take n contents) @ newline # strip_lines (drop (n + 1) contents)"
        using strip_lines_newline [of "line @ take n contents" "drop (n + 1) contents"] split True before line by simp
      ultimately show ?thesis by simp
    next
      case False
      then have bs: "contents ! n = backslash" using at by blast
      let ?line = "line @ take n contents @ [backslash]"
      have "expand_line_step to_utf8 end_off escape contents (base @ line) (length base) ds =
          Ret (SameLine (drop (n + 1) contents) (base @ ?line) (length base) ds)"
        using Some hd bs esc n by (simp add: expand_line_step_def Let_def IsHorizontalWhitespace_def special_chars)
      moreover have "expand_loop to_utf8 end_off escape [] False (drop (n + 1) contents) (base @ ?line) (length base) ds =
          Ret (base @ strip_lines (?line @ drop (n + 1) contents), ds)"
        by (rule less.hyps [OF rest(1)]) (use rest before line tabs in \<open>auto simp: special_chars\<close>)
      moreover have "?line @ drop (n + 1) contents = line @ contents" using split bs by simp
      ultimately show ?thesis by (subst expand_loop.simps) simp
    qed
  qed
qed

text \<open>The expansion changes the content exactly when a line of it ends in a space.\<close>

lemma length_strip_lines: "length (strip_lines s) \<le> length s"
  by (induction s) auto

lemma strip_lines_changes:
  "strip_lines s \<noteq> s \<longleftrightarrow> (\<exists>k. k + 1 < length s \<and> s ! k = CHR '' '' \<and> s ! (k + 1) = newline)"
proof (induction s)
  case (Cons c cs)
  let ?E = "\<lambda>s. \<exists>k. k + 1 < length s \<and> s ! k = CHR '' '' \<and> s ! (k + 1) = newline"
  have ex: "?E (c # cs) \<longleftrightarrow> c = CHR '' '' \<and> starts_with cs [newline] \<or> ?E cs"
  proof
    assume "?E (c # cs)"
    then obtain k where k: "k + 1 < length (c # cs)" "(c # cs) ! k = CHR '' ''" "cs ! k = newline" by auto
    then show "c = CHR '' '' \<and> starts_with cs [newline] \<or> ?E cs" by (cases k; cases cs) auto
  next
    assume "c = CHR '' '' \<and> starts_with cs [newline] \<or> ?E cs"
    then show "?E (c # cs)"
    proof
      assume "c = CHR '' '' \<and> starts_with cs [newline]"
      then show ?thesis by (cases cs) (auto intro: exI [of _ 0])
    next
      assume "?E cs"
      then obtain k where "k + 1 < length cs \<and> cs ! k = CHR '' '' \<and> cs ! (k + 1) = newline" ..
      then show ?thesis by (intro exI [of _ "Suc k"]) simp
    qed
  qed
  have "starts_with (strip_lines cs) [newline]" if "starts_with cs [newline]"
    using that by (cases cs) (auto simp: newline_def)
  moreover have "strip_lines cs \<noteq> c # cs" using length_strip_lines [of cs] by auto
  ultimately show ?case using Cons.IH unfolding ex by auto
qed simp

text \<open>The terminator of the literal begins its line.\<close>

lemma CheckIndent_no_indent:
  assumes "sl_text lit = before @ newline # term" "\<forall>c \<in> set term. \<not> IsSpace c" "term \<noteq> []"
    "sl_content_offset lit + length (sl_content lit) = length before + 1"
  shows "CheckIndent lit ds = Ret ([], ds)"
proof -
  have "indent_loop (before @ newline # u @ v) (length (before @ newline # u)) e = Ret (length before + 1, if u = [] then e else length before + 1)"
    if "\<forall>c \<in> set u. \<not> IsSpace c" for u v :: string and e
    using that
  proof (induction u arbitrary: v e rule: rev_induct)
    case (snoc c u)
    have c: "(before @ newline # (u @ [c]) @ v) ! length (before @ newline # u) = c" by (simp add: nth_append)
    have "c \<noteq> newline" "\<not> IsSpace c" using snoc.prems by (auto simp: IsSpace_def IsVerticalWhitespace_def)
    with c snoc.IH [of "c # v" "length (before @ newline # u)"] snoc.prems show ?case by (auto simp: nth_append)
  qed (simp add: nth_append)
  from this [OF assms(2), of "[]"] assms show ?thesis
    by (simp add: CheckIndent_def ComputeIndentOfFinalLine_def substr_def)
qed


text \<open>
  C38. For lines of text the fast path is not sound. When lexing saw no escape and no tab and the terminator begins its line, the
  content is returned as it is, with no diagnostic, while the expansion would have removed the spaces that end a line: the
  two differ exactly when there is such a space.
\<close>

theorem multi_line_fast_path_keeps_blanks:
  assumes "StringLiteral_Lex s = Some lit" "sl_is_terminated lit" "sl_kind lit = MultiLine" "\<not> sl_content_needs_validation lit"
    and "sl_content lit = [] \<or> last (sl_content lit) = newline"
  shows "ComputeStringValue to_utf8 lit ds = Ret (sl_content lit, ds) \<and>
     ExpandEscapeSequencesAndRemoveIndent to_utf8 end_off (sl_content lit) (sl_hash_level lit) [] ds =
       Ret (strip_lines (sl_content lit), ds) \<and>
     (strip_lines (sl_content lit) \<noteq> sl_content lit \<longleftrightarrow>
       (\<exists>k. k + 1 < length (sl_content lit) \<and> sl_content lit ! k = CHR '' '' \<and> sl_content lit ! (k + 1) = newline))"
proof -
  let ?h = "replicate (sl_hash_level lit) (CHR ''#'')"
  obtain intro rest n where i: "literal_opens (sl_kind lit) intro (drop (sl_hash_level lit) s)"
      "sl_content_offset lit = sl_hash_level lit + length intro" "sl_content lit = take n rest"
      "sl_text lit = ?h @ intro @ take n rest @ quotes_of (sl_kind lit) @ ?h"
    by (rule StringLiteral_Lex_scan [OF assms(1) StringLiteral_Lex_terminated(3) [OF assms(1,2)]]) (use assms(2) in auto)
  obtain line where intro: "intro = quotes_of MultiLine @ line @ [newline]"
    using i(1) assms(3) by (auto simp: literal_opens_def spans_lines_def)
  obtain before where before: "?h @ intro @ sl_content lit = before @ [newline]"
  proof (cases "sl_content lit = []")
    case True
    then show ?thesis using that [of "?h @ quotes_of MultiLine @ line"] intro by simp
  next
    case False
    then have "sl_content lit = butlast (sl_content lit) @ [newline]" using assms(5) by (metis append_butlast_last_id)
    then show ?thesis using that [of "?h @ intro @ butlast (sl_content lit)"] by simp
  qed
  have "CheckIndent lit ds = Ret ([], ds)"
  proof (rule CheckIndent_no_indent)
    show "sl_text lit = before @ newline # quotes_of (sl_kind lit) @ ?h"
      using before i(3,4) by (metis append.assoc append_Cons append_Nil)
    show "\<forall>c \<in> set (quotes_of (sl_kind lit) @ ?h). \<not> IsSpace c"
      using assms(3) by (auto simp: IsSpace_def IsHorizontalWhitespace_def IsVerticalWhitespace_def special_chars)
    show "quotes_of (sl_kind lit) @ ?h \<noteq> []" using assms(3) by simp
    show "sl_content_offset lit + length (sl_content lit) = length before + 1"
      using arg_cong [OF before, of length] i(2) by simp
  qed
  moreover have "ExpandEscapeSequencesAndRemoveIndent to_utf8 end_off (sl_content lit) (sl_hash_level lit) [] ds =
      Ret (strip_lines (sl_content lit), ds)"
  proof -
    have "tab \<notin> set (sl_content lit)" "\<forall>k < length (sl_content lit). \<not> starts_with (drop k (sl_content lit)) (escape_of lit)"
      using StringLiteral_Lex_terminated(2) [OF assms(1,2)] assms(4) by (simp_all add: scanned_ok_def)
    from expand_loop_lines [of "[]" "sl_content lit" "escape_of lit" to_utf8 end_off "[]" ds] this
    show ?thesis unfolding ExpandEscapeSequencesAndRemoveIndent_def escape_of_def
      by (subst expand_loop.simps) (simp add: consume_indent_def)
  qed
  ultimately show ?thesis
    using assms(2-4) strip_lines_changes [of "sl_content lit"] by (simp add: ComputeStringValue_def IsMultiLine_def)
qed

text \<open>A line that ends in a space.\<close>

theorem multi_line_fast_path_keeps_blanks_witness:
  "ComputeStringValue utf8_encode (the (StringLiteral_Lex [squote, squote, squote, newline, CHR ''a'', CHR '' '', newline, squote, squote, squote])) [] =
     Ret ([CHR ''a'', CHR '' '', newline], []) \<and>
   strip_lines [CHR ''a'', CHR '' '', newline] = [CHR ''a'', newline]"
proof -
  have l: "StringLiteral_Lex [squote, squote, squote, newline, CHR ''a'', CHR '' '', newline, squote, squote, squote] =
    Some \<lparr>sl_text = [squote, squote, squote, newline, CHR ''a'', CHR '' '', newline, squote, squote, squote],
      sl_content = [CHR ''a'', CHR '' '', newline], sl_content_offset = 4,
      sl_content_needs_validation = False, sl_hash_level = 0, sl_kind = MultiLine,
      sl_is_terminated = True, sl_has_invalid_introducer = False\<rparr>"
    by code_simp
  have "newline \<noteq> CHR '' ''" by (simp add: newline_def)
  with multi_line_fast_path_keeps_blanks [OF l, of utf8_encode "[]"] show ?thesis by (simp add: l)
qed

section \<open>Characters\<close>

text \<open>What is relied on of the decoder: nothing comes of no bytes, and a code point is in range.\<close>

definition utf8_decoder :: "(string \<Rightarrow> ConversionResult) \<Rightarrow> bool" where
  "utf8_decoder from_utf8 \<longleftrightarrow> from_utf8 [] = conversionOK None \<and>
     (\<forall>bytes cp. from_utf8 bytes = conversionOK (Some cp) \<longrightarrow> cp \<le> 0x10FFFF)"

lemma sint_code_point:
  assumes "cp \<le> 0x10FFFF"
  shows "sint (word_of_nat cp :: 32 word) = int cp"
proof -
  have "signed_take_bit 31 (int cp) = int cp"
    by (rule signed_take_bit_int_eq_self) (use assms in auto)
  then show ?thesis by (simp add: sint_sbintrunc' unsigned_of_nat signed_of_nat)
qed

lemma ComputeCharLiteralValue_ok:
  assumes "utf8_encoder to_utf8" "utf8_decoder from_utf8"
    and "StringLiteral_Lex s = Some lit" "sl_is_terminated lit" "sl_kind lit = CharKind"
  shows "\<exists>r ds'. ComputeCharLiteralValue to_utf8 from_utf8 lit [] = Ret (r, ds') \<and>
    (case r of
       None \<Rightarrow> ds' \<noteq> []
     | Some v \<Rightarrow> \<exists>bytes ds1. from_utf8 bytes = conversionOK (Some (nat v)) \<and> 0 \<le> v \<and> v \<le> 0x10FFFF \<and>
         \<not> starts_with (sl_content lit) [backslash, CHR ''x''] \<and>
         ExpandEscapeSequencesAndRemoveIndent to_utf8 (sl_content_offset lit + length (sl_content lit))
           (sl_content lit) (sl_hash_level lit) [] ds1 = Ret (bytes, ds'))"
proof -
  define ds1 :: "string_diag emitted" where
    "ds1 = (if sl_hash_level lit \<noteq> 0 then [] @ [(0, CharLiteralRaw)] else [])"
  obtain bytes ds2 where ex: "ExpandEscapeSequencesAndRemoveIndent to_utf8
      (sl_content_offset lit + length (sl_content lit)) (sl_content lit) (sl_hash_level lit) [] ds1 = Ret (bytes, ds2)"
    "length bytes \<le> length (sl_content lit)"
    by (rule Expand_ok [OF assms(1) _ StringLiteral_Lex_terminated(2) [OF assms(3,4)]]) auto
  have result_eq: "ComputeCharLiteralValue to_utf8 from_utf8 lit [] =
     (case from_utf8 bytes of
         conversionOK None \<Rightarrow> Ret (None, ds2 @ [(0, CharLiteralEmpty)])
       | conversionOK (Some result) \<Rightarrow>
           carbon_check (\<not> IsControlCharacter result \<or> sl_content lit \<noteq> [])
             (if IsControlCharacter result \<and> hd (sl_content lit) \<noteq> backslash \<and>
                 \<not> IsHorizontalWhitespace (hd (sl_content lit))
              then Ret (None, ds2 @ [(0, CharLiteralControlCharacter result)])
              else if starts_with (sl_content lit) [backslash, CHR ''x'']
              then Ret (None, ds2 @ [(0, CharLiteralHexEscape result)])
              else Ret (Some (sint (word_of_nat result :: 32 word)), ds2))
       | sourceExhausted \<Rightarrow> Ret (None, ds2 @ [(0, CharLiteralUnderflow)])
       | targetExhausted \<Rightarrow> Ret (None, ds2 @ [(0, CharLiteralOverflow)])
       | sourceIllegal \<Rightarrow> Ret (None, ds2 @ [(0, CharLiteralInvalidUTF8)]))"
    using ex assms(4,5) by (simp add: ComputeCharLiteralValue_def Let_def ds1_def)
  show ?thesis
  proof (cases "\<exists>cp. from_utf8 bytes = conversionOK (Some cp)")
    case True
    then obtain cp where cp: "from_utf8 bytes = conversionOK (Some cp)" by blast
    have "cp \<le> 0x10FFFF" using assms(2) cp by (auto simp: utf8_decoder_def)
    note sint = sint_code_point [OF this]
    have "sl_content lit \<noteq> []"
      using assms(2) ex(2) cp by (auto simp: utf8_decoder_def)
    with result_eq cp sint ex(1) \<open>cp \<le> 0x10FFFF\<close> show ?thesis
      by (auto simp: nat_le_iff)
  next
    case False
    with result_eq show ?thesis by (auto split: ConversionResult.splits option.splits)
  qed
qed


definition char_literal :: StringLiteral where
  "char_literal = \<lparr>sl_text = [squote, CHR ''a'', squote], sl_content = ''a'', sl_content_offset = 1,
      sl_content_needs_validation = False, sl_hash_level = 0, sl_kind = CharKind,
      sl_is_terminated = True, sl_has_invalid_introducer = False\<rparr>"

text \<open>A decoder that instantiates the parameter: single-byte code points only.\<close>

fun ascii_decode :: "string \<Rightarrow> ConversionResult" where
  "ascii_decode [] = conversionOK None"
| "ascii_decode [c] = (if byte_of c < 128 then conversionOK (Some (byte_of c)) else sourceIllegal)"
| "ascii_decode (c # d # cs) = targetExhausted"


end
