(* ===== verification/Tokenized_Buffer.thy ===== *)
theory Tokenized_Buffer
  imports Token_Info Numeric_Value String_Value
begin

text \<open>
  The tokenized buffer: \<open>toolchain/lex/tokenized_buffer.{h,cpp}\<close> and the value stores it shares
  (\<open>toolchain/base/shared_value_stores.h\<close>).

  The buffer's own stores of tokens, lines and comments are never tagged, so the id of an entry
  is its index: they are lists, and \<open>store_get\<close> fails out of range as the check of
  \<open>ValueStore::Get\<close> does. The shared stores of integers, reals, identifiers and strings are the
  stores of the base library. \<open>lex_env\<close> collects what the buffer and the lexer take from
  outside: the arithmetic of \<open>APInt\<close>, the conversions of UTF-8, the layouts of the stores and
  whether vector instructions are used.
\<close>

section \<open>Data\<close>

record 'a lex_env =
  env_apint :: "'a apint_ops"
  env_to_utf8 :: "nat \<Rightarrow> string"
  env_from_utf8 :: "string \<Rightarrow> ConversionResult"
  env_int_layout :: store_layout
  env_real_layout :: store_layout
  env_string_layout :: store_layout
  env_use_simd :: bool

record 'a Real =
  real_mantissa :: 'a
  real_exponent :: 'a
  real_is_decimal :: bool

record 'a SharedValueStores =
  svs_ints :: "'a IntStore"
  svs_reals :: "'a Real ValueStore"
  svs_identifiers :: "string CanonicalValueStore"
  svs_string_literal_values :: "string CanonicalValueStore"

record LineInfo =
  line_start :: nat
  line_indent :: nat

definition LineInfo_at :: "nat \<Rightarrow> LineInfo" where
  "LineInfo_at start = \<lparr>line_start = start, line_indent = 0\<rparr>"

record CommentData =
  comment_start :: nat
  comment_length :: nat
  comment_is_trailing :: bool

type_synonym InclusiveTokenRange = "int \<times> int"

record 'a TokenizedBuffer =
  tb_value_stores :: "'a SharedValueStores"
  tb_source :: string
  tb_token_infos :: "TokenInfo list"
  tb_line_infos :: "LineInfo list"
  tb_comments :: "CommentData list"
  tb_has_include_in_dumps :: bool
  tb_dump_sem_ir_ranges :: "InclusiveTokenRange list"
  tb_expected_max_parse_tree_size :: nat
  tb_has_errors :: bool
  tb_post_lexing_recovery_tokens :: nat
  tb_recovery_tokens :: "bool list"

definition TokenizedBuffer_init :: "'a SharedValueStores \<Rightarrow> string \<Rightarrow> 'a TokenizedBuffer" where
  "TokenizedBuffer_init stores source =
     \<lparr>tb_value_stores = stores, tb_source = source, tb_token_infos = [], tb_line_infos = [],
      tb_comments = [], tb_has_include_in_dumps = False, tb_dump_sem_ir_ranges = [],
      tb_expected_max_parse_tree_size = 0, tb_has_errors = False,
      tb_post_lexing_recovery_tokens = 0, tb_recovery_tokens = []\<rparr>"

definition store_get :: "'v list \<Rightarrow> nat \<Rightarrow> 'v outcome" where
  "store_get xs i = (if i < length xs then Ret (xs ! i) else Fatal)"

section \<open>Tokens\<close>

definition AddToken :: "TokenInfo \<Rightarrow> 'a TokenizedBuffer \<Rightarrow> nat \<times> 'a TokenizedBuffer" where
  "AddToken info tb =
     (length (tb_token_infos tb),
      tb\<lparr>tb_expected_max_parse_tree_size :=
           tb_expected_max_parse_tree_size tb + expected_max_parse_tree_size (ti_kind info),
         tb_token_infos := tb_token_infos tb @ [info]\<rparr>)"

definition GetKind :: "'a TokenizedBuffer \<Rightarrow> nat \<Rightarrow> TokenKind outcome" where
  "GetKind tb token = bind_outcome (store_get (tb_token_infos tb) token) (\<lambda>ti. Ret (ti_kind ti))"

definition HasLeadingWhitespace :: "'a TokenizedBuffer \<Rightarrow> nat \<Rightarrow> bool outcome" where
  "HasLeadingWhitespace tb token =
     bind_outcome (store_get (tb_token_infos tb) token) (\<lambda>ti. Ret (ti_has_leading_space ti))"

definition tokens_end :: "'a TokenizedBuffer \<Rightarrow> nat" where
  "tokens_end tb = length (tb_token_infos tb) - tb_post_lexing_recovery_tokens tb"

definition HasTrailingWhitespace :: "'a TokenizedBuffer \<Rightarrow> nat \<Rightarrow> bool outcome" where
  "HasTrailingWhitespace tb token =
     (if token + 1 \<noteq> tokens_end tb
      then bind_outcome (store_get (tb_token_infos tb) (token + 1)) (\<lambda>ti. Ret (ti_has_leading_space ti))
      else Ret False)"

definition GetIdentifier :: "'a TokenizedBuffer \<Rightarrow> nat \<Rightarrow> 32 word outcome" where
  "GetIdentifier tb token = bind_outcome (store_get (tb_token_infos tb) token)
     (\<lambda>ti. carbon_check (ti_kind ti = Identifier) (ident_id ti))"

definition GetIntLiteral :: "'a TokenizedBuffer \<Rightarrow> nat \<Rightarrow> IntId outcome" where
  "GetIntLiteral tb token = bind_outcome (store_get (tb_token_infos tb) token)
     (\<lambda>ti. carbon_check (ti_kind ti = IntLiteral) (int_id ti))"

definition GetRealLiteral :: "'a TokenizedBuffer \<Rightarrow> nat \<Rightarrow> 32 word outcome" where
  "GetRealLiteral tb token = bind_outcome (store_get (tb_token_infos tb) token)
     (\<lambda>ti. carbon_check (ti_kind ti = RealLiteral) (real_id ti))"

definition GetStringLiteralValue :: "'a TokenizedBuffer \<Rightarrow> nat \<Rightarrow> 32 word outcome" where
  "GetStringLiteralValue tb token = bind_outcome (store_get (tb_token_infos tb) token)
     (\<lambda>ti. carbon_check (ti_kind ti = StringLiteral) (string_literal_id ti))"

definition GetCharLiteralValue :: "'a TokenizedBuffer \<Rightarrow> nat \<Rightarrow> int outcome" where
  "GetCharLiteralValue tb token = bind_outcome (store_get (tb_token_infos tb) token)
     (\<lambda>ti. carbon_check (ti_kind ti = CharLiteral) (char_literal_value ti))"

definition GetTypeLiteralSize :: "'a TokenizedBuffer \<Rightarrow> nat \<Rightarrow> IntId outcome" where
  "GetTypeLiteralSize tb token = bind_outcome (store_get (tb_token_infos tb) token)
     (\<lambda>ti. carbon_check (is_sized_type_literal (ti_kind ti)) (int_id ti))"

definition GetMatchedClosingToken :: "'a TokenizedBuffer \<Rightarrow> nat \<Rightarrow> int outcome" where
  "GetMatchedClosingToken tb token = bind_outcome (store_get (tb_token_infos tb) token)
     (\<lambda>ti. carbon_check (is_opening_symbol (ti_kind ti)) (closing_token_index ti))"

definition GetMatchedOpeningToken :: "'a TokenizedBuffer \<Rightarrow> nat \<Rightarrow> int outcome" where
  "GetMatchedOpeningToken tb token = bind_outcome (store_get (tb_token_infos tb) token)
     (\<lambda>ti. carbon_check (is_closing_symbol (ti_kind ti)) (opening_token_index ti))"

section \<open>The text of a token\<close>

abbreviation identifier_get :: "'a lex_env \<Rightarrow> 'a TokenizedBuffer \<Rightarrow> 32 word \<Rightarrow> string outcome" where
  "identifier_get env tb tid \<equiv>
     Canonical_Get (env_string_layout env) (svs_identifiers (tb_value_stores tb)) tid"

definition info_is_raw :: "'a lex_env \<Rightarrow> 'a TokenizedBuffer \<Rightarrow> TokenInfo \<Rightarrow> bool outcome" where
  "info_is_raw env tb ti =
     (if ti_kind ti \<noteq> Identifier then Ret False
      else let token_text = drop (ti_byte_offset ti) (tb_source tb) in
        if 2 < length token_text \<and> starts_with token_text ''r#''
        then bind_outcome (ident_id ti) (\<lambda>tid. bind_outcome (identifier_get env tb tid) (\<lambda>ident.
               carbon_check (ident \<noteq> []) (Ret (token_text ! 2 = hd ident))))
        else Ret False)"

definition IsRawIdentifier :: "'a lex_env \<Rightarrow> 'a TokenizedBuffer \<Rightarrow> nat \<Rightarrow> bool outcome" where
  "IsRawIdentifier env tb token = bind_outcome (store_get (tb_token_infos tb) token) (info_is_raw env tb)"

definition relexed_number :: "string \<Rightarrow> bool \<Rightarrow> string outcome" where
  "relexed_number s can_form_real =
     bind_outcome (NumericLiteral_Lex s can_form_real)
       (\<lambda>r. case r of None \<Rightarrow> Fatal | Some lit \<Rightarrow> Ret (nl_text lit))"

definition relexed_string :: "string \<Rightarrow> string outcome" where
  "relexed_string s = (case StringLiteral_Lex s of None \<Rightarrow> Fatal | Some lit \<Rightarrow> Ret (sl_text lit))"

definition info_text :: "'a lex_env \<Rightarrow> 'a TokenizedBuffer \<Rightarrow> TokenInfo \<Rightarrow> string outcome" where
  "info_text env tb ti =
     (let source = tb_source tb; kind = ti_kind ti; off = ti_byte_offset ti in
      if fixed_spelling kind \<noteq> [] then Ret (fixed_spelling kind)
      else if kind = Error then bind_outcome (error_length ti) (\<lambda>n. Ret (substr source off n))
      else if kind = IntLiteral \<or> kind = RealLiteral
      then relexed_number (drop off source) (kind = RealLiteral)
      else if kind = StringLiteral \<or> kind = CharLiteral then relexed_string (drop off source)
      else if is_sized_type_literal kind \<or> is_dollar_int_literal kind
      then Ret (substr source off (length (takeWhile IsDecimalDigit (drop (off + 1) source)) + 1))
      else if kind = FileStart \<or> kind = FileEnd then Ret []
      else carbon_check (kind = Identifier)
        (bind_outcome (ident_id ti) (\<lambda>tid. bind_outcome (identifier_get env tb tid) (\<lambda>ident.
           bind_outcome (info_is_raw env tb ti) (\<lambda>raw.
             if raw
             then let raw_ident = substr source off (length ident + 2)
                  in carbon_check (raw_ident ! 0 = CHR ''r'' \<and> raw_ident ! 1 = CHR ''#'' \<and>
                       drop 2 raw_ident = ident) (Ret raw_ident)
             else Ret ident)))))"

definition GetTokenText :: "'a lex_env \<Rightarrow> 'a TokenizedBuffer \<Rightarrow> nat \<Rightarrow> string outcome" where
  "GetTokenText env tb token = bind_outcome (store_get (tb_token_infos tb) token) (info_text env tb)"

section \<open>Lines\<close>

text \<open>\<open>llvm::partition_point\<close>: binary search for the first element the predicate fails on.\<close>

function partition_loop :: "('v \<Rightarrow> bool) \<Rightarrow> 'v list \<Rightarrow> nat \<Rightarrow> nat \<Rightarrow> nat" where
  "partition_loop P xs first len =
     (if len = 0 then first
      else let half = len div 2 in
        if P (xs ! (first + half)) then partition_loop P xs (first + half + 1) (len - half - 1)
        else partition_loop P xs first half)"
  by pat_completeness auto
termination
  by (relation "measure (\<lambda>(P, xs, first, len). len)") auto

declare partition_loop.simps [simp del]

definition partition_point :: "('v \<Rightarrow> bool) \<Rightarrow> 'v list \<Rightarrow> nat" where
  "partition_point P xs = partition_loop P xs 0 (length xs)"

definition FindLineIndex :: "'a TokenizedBuffer \<Rightarrow> nat \<Rightarrow> nat outcome" where
  "FindLineIndex tb byte_offset =
     (let lines = tb_line_infos tb;
          it = partition_point (\<lambda>l. line_start l \<le> byte_offset) lines
      in carbon_check (0 < length lines) (carbon_check (0 < it)
           (let it = it - 1;
                it = (if it \<noteq> 0 \<and> line_start (lines ! it) = length (tb_source tb) then it - 1 else it)
            in carbon_check (line_start (lines ! it) \<le> byte_offset) (Ret it))))"

definition GetLine :: "'a TokenizedBuffer \<Rightarrow> nat \<Rightarrow> nat outcome" where
  "GetLine tb token = bind_outcome (store_get (tb_token_infos tb) token)
     (\<lambda>ti. FindLineIndex tb (ti_byte_offset ti))"

definition GetLineNumber :: "'a TokenizedBuffer \<Rightarrow> nat \<Rightarrow> nat outcome" where
  "GetLineNumber tb token = bind_outcome (GetLine tb token) (\<lambda>l. Ret (l + 1))"

definition GetLine_comment :: "'a TokenizedBuffer \<Rightarrow> nat \<Rightarrow> nat outcome" where
  "GetLine_comment tb comment = bind_outcome (store_get (tb_comments tb) comment)
     (\<lambda>c. FindLineIndex tb (comment_start c))"

definition GetColumnNumber :: "'a TokenizedBuffer \<Rightarrow> nat \<Rightarrow> nat outcome" where
  "GetColumnNumber tb token =
     bind_outcome (store_get (tb_token_infos tb) token) (\<lambda>ti.
       bind_outcome (FindLineIndex tb (ti_byte_offset ti)) (\<lambda>l.
         bind_outcome (store_get (tb_line_infos tb) l) (\<lambda>line.
           Ret (ti_byte_offset ti - line_start line + 1))))"

definition GetIndentColumnNumber :: "'a TokenizedBuffer \<Rightarrow> nat \<Rightarrow> nat outcome" where
  "GetIndentColumnNumber tb line =
     bind_outcome (store_get (tb_line_infos tb) line) (\<lambda>l. Ret (line_indent l + 1))"

text \<open>What follows the last newline; the whole text when it has none.\<close>

definition after_last_newline :: "string \<Rightarrow> string" where
  "after_last_newline s = rev (takeWhile (\<lambda>c. c \<noteq> newline) (rev s))"

definition GetEndLoc :: "'a lex_env \<Rightarrow> 'a TokenizedBuffer \<Rightarrow> nat \<Rightarrow> (nat \<times> nat) outcome" where
  "GetEndLoc env tb token =
     bind_outcome (GetLine tb token) (\<lambda>line.
       bind_outcome (GetColumnNumber tb token) (\<lambda>column.
         bind_outcome (GetTokenText env tb token) (\<lambda>token_text.
           if newline \<notin> set token_text then Ret (line, column + length token_text)
           else let after_newline = after_last_newline token_text;
                    before_newline = take (length token_text - length after_newline - 1) token_text
                in Ret (line + length (filter (\<lambda>c. c = newline) before_newline) + 1,
                        1 + length after_newline))))"

text \<open>The line's text, and its number and column, both 1-based; the offset may be the end.\<close>

definition SourcePointerToDiagnosticLoc ::
    "'a TokenizedBuffer \<Rightarrow> nat \<Rightarrow> (string \<times> nat \<times> nat) outcome" where
  "SourcePointerToDiagnosticLoc tb offset =
     carbon_check (offset \<le> length (tb_source tb))
       (let lines = tb_line_infos tb;
            next_line = partition_point (\<lambda>l. line_start l \<le> offset) lines
        in carbon_check (next_line \<noteq> 0)
             (let line_number = next_line - 1;
                  start = line_start (lines ! line_number);
                  line = (if next_line < length lines
                          then substr (tb_source tb) start (line_start (lines ! next_line) - start)
                          else drop start (tb_source tb));
                  line = (if line \<noteq> [] \<and> last line = newline then butlast line else line)
              in Ret (line, line_number + 1, offset - start + 1)))"

definition TokenToDiagnosticLoc ::
    "'a lex_env \<Rightarrow> 'a TokenizedBuffer \<Rightarrow> nat \<Rightarrow> (string \<times> nat \<times> nat \<times> nat) outcome" where
  "TokenToDiagnosticLoc env tb token =
     bind_outcome (store_get (tb_token_infos tb) token) (\<lambda>ti.
       bind_outcome (SourcePointerToDiagnosticLoc tb (ti_byte_offset ti)) (\<lambda>(line, number, column).
         bind_outcome (GetTokenText env tb token) (\<lambda>token_text.
           Ret (line, number, column, length token_text))))"

section \<open>Comments\<close>

datatype CommentCategory = Ordinary | Directive | Invalid

definition GetCommentCategory :: "string \<Rightarrow> nat \<Rightarrow> CommentCategory" where
  "GetCommentCategory source start =
     (if length source \<le> start + 2 \<or> IsSpace (source ! (start + 2)) then Ordinary
      else if source ! (start + 2) = CHR ''@'' then Directive
      else Invalid)"

definition AddComment ::
    "nat \<Rightarrow> nat \<Rightarrow> nat \<Rightarrow> bool \<Rightarrow> 'a TokenizedBuffer \<Rightarrow> 'a TokenizedBuffer outcome" where
  "AddComment indent start end_pos is_trailing tb =
     carbon_check (start \<le> end_pos)
       (let add = tb\<lparr>tb_comments := tb_comments tb @
              [\<lparr>comment_start = start, comment_length = end_pos - start, comment_is_trailing = is_trailing\<rparr>]\<rparr>
        in if \<not> is_trailing \<and> tb_comments tb \<noteq> []
           then let comment = last (tb_comments tb) in
             if \<not> comment_is_trailing comment \<and> comment_start comment + comment_length comment + indent = start \<and>
                GetCommentCategory (tb_source tb) (comment_start comment) = GetCommentCategory (tb_source tb) start
             then carbon_check (comment_start comment \<le> end_pos)
                    (Ret (tb\<lparr>tb_comments := butlast (tb_comments tb) @
                       [comment\<lparr>comment_length := end_pos - comment_start comment\<rparr>]\<rparr>))
             else Ret add
           else Ret add)"

definition IsAfterComment :: "'a TokenizedBuffer \<Rightarrow> nat \<Rightarrow> nat \<Rightarrow> bool outcome" where
  "IsAfterComment tb token comment =
     bind_outcome (store_get (tb_comments tb) comment) (\<lambda>c.
       bind_outcome (store_get (tb_token_infos tb) token) (\<lambda>ti.
         Ret (comment_start c < ti_byte_offset ti)))"

definition GetCommentText :: "'a TokenizedBuffer \<Rightarrow> nat \<Rightarrow> string outcome" where
  "GetCommentText tb comment =
     bind_outcome (store_get (tb_comments tb) comment) (\<lambda>c.
       Ret (substr (tb_source tb) (comment_start c) (comment_length c)))"

definition IsTrailingComment :: "'a TokenizedBuffer \<Rightarrow> nat \<Rightarrow> bool outcome" where
  "IsTrailingComment tb comment =
     bind_outcome (store_get (tb_comments tb) comment) (\<lambda>c. Ret (comment_is_trailing c))"

section \<open>Recovery tokens and dump ranges\<close>

definition IsRecoveryToken :: "'a TokenizedBuffer \<Rightarrow> nat \<Rightarrow> bool outcome" where
  "IsRecoveryToken tb token =
     (if tb_recovery_tokens tb = [] then Ret False else store_get (tb_recovery_tokens tb) token)"

definition AddPostLexingRecoveryToken :: "TokenInfo \<Rightarrow> 'a TokenizedBuffer \<Rightarrow> nat \<times> 'a TokenizedBuffer" where
  "AddPostLexingRecoveryToken info tb =
     (let recovery = (if tb_recovery_tokens tb = [] then replicate (length (tb_token_infos tb)) False
                      else tb_recovery_tokens tb)
      in (length (tb_token_infos tb),
          tb\<lparr>tb_token_infos := tb_token_infos tb @ [info],
             tb_recovery_tokens := recovery @ [True],
             tb_post_lexing_recovery_tokens := tb_post_lexing_recovery_tokens tb + 1\<rparr>))"

definition add_identifier ::
    "'a lex_env \<Rightarrow> string \<Rightarrow> 'a TokenizedBuffer \<Rightarrow> (32 word \<times> 'a TokenizedBuffer) outcome" where
  "add_identifier env word tb =
     bind_outcome (Canonical_Add (env_string_layout env) (\<lambda>s. s) word (svs_identifiers (tb_value_stores tb)))
       (\<lambda>(tid, identifiers). Ret (tid, tb\<lparr>tb_value_stores := (tb_value_stores tb)\<lparr>svs_identifiers := identifiers\<rparr>\<rparr>))"

definition AddPostLexingRecoveryTokenAsIdentifier ::
    "'a lex_env \<Rightarrow> nat \<Rightarrow> 'a TokenizedBuffer \<Rightarrow> (nat \<times> 'a TokenizedBuffer) outcome" where
  "AddPostLexingRecoveryTokenAsIdentifier env token tb =
     bind_outcome (store_get (tb_token_infos tb) token) (\<lambda>ti.
       carbon_check (is_word (ti_kind ti)) (carbon_check (ti_kind ti \<noteq> Identifier)
         (bind_outcome (GetTokenText env tb token) (\<lambda>word.
           bind_outcome (add_identifier env word tb) (\<lambda>(tid, tb).
             bind_outcome (AsErrorRecoveryIdentifier tid ti) (\<lambda>info.
               Ret (AddPostLexingRecoveryToken info tb)))))))"

fun overlaps_ranges :: "InclusiveTokenRange list \<Rightarrow> InclusiveTokenRange \<Rightarrow> bool" where
  "overlaps_ranges [] r = False"
| "overlaps_ranges (dump_range # rest) r =
     (if fst r \<le> snd dump_range then fst dump_range \<le> snd r else overlaps_ranges rest r)"

definition OverlapsWithDumpSemIRRange :: "'a TokenizedBuffer \<Rightarrow> InclusiveTokenRange \<Rightarrow> bool outcome" where
  "OverlapsWithDumpSemIRRange tb r =
     carbon_check (tb_dump_sem_ir_ranges tb \<noteq> []) (Ret (overlaps_ranges (tb_dump_sem_ir_ranges tb) r))"

end
