(* ===== verification/Identifier_Scan.thy ===== *)
theory Identifier_Scan
  imports Character_Set
begin

text \<open>
  Scanning the prefix of identifier characters: \<open>toolchain/lex/lex.cpp\<close>, the byte tables, the
  scalar loop and the loop with 16-byte vectors of x86.

  A vector is the list of its 16 bytes, and an intrinsic works lane by lane. The lemmas show
  that the two loops and the plain description of the prefix agree on every text.
\<close>

section \<open>Tables\<close>

definition IsIdStartByteTable :: "nat \<Rightarrow> bool" where
  "IsIdStartByteTable b \<longleftrightarrow> 65 \<le> b \<and> b \<le> 90 \<or> 97 \<le> b \<and> b \<le> 122 \<or> b = 95 \<or> b = 36"

definition IsIdByteTable :: "nat \<Rightarrow> bool" where
  "IsIdByteTable b \<longleftrightarrow> (IsIdStartByteTable b \<or> 48 \<le> b \<and> b \<le> 57) \<and> b \<noteq> 36"

definition HighLUT :: "8 word list" where
  "HighLUT = [0, 0, 0, 2, 4, 9, 4, 8, 128, 128, 128, 128, 128, 128, 128, 128]"

definition LowLUT :: "8 word list" where
  "LowLUT = [138, 142, 142, 142, 142, 142, 142, 142, 142, 142, 140, 132, 132, 132, 132, 133]"

section \<open>The scalar loop\<close>

function id_loop :: "string \<Rightarrow> nat \<Rightarrow> nat" where
  "id_loop s i = (if i < length s \<and> IsIdByteTable (byte_of (s ! i)) then id_loop s (i + 1) else i)"
  by pat_completeness auto
termination
  by (relation "measure (\<lambda>(s, i). length s - i)") auto

declare id_loop.simps [simp del]

definition ScanForIdentifierPrefixScalar :: "string \<Rightarrow> nat \<Rightarrow> string" where
  "ScanForIdentifierPrefixScalar s i =
     (if i = 0 \<and> s \<noteq> []
      then if \<not> IsIdStartByteTable (byte_of (s ! 0)) then [] else take (id_loop s 1) s
      else take (id_loop s i) s)"

section \<open>The vector loop\<close>

text \<open>One lane of \<open>_mm_shuffle_epi8\<close>: the low four bits index the table, a set high bit gives zero.\<close>

definition shuffle_lane :: "8 word list \<Rightarrow> nat \<Rightarrow> 8 word" where
  "shuffle_lane lut b = (if 128 \<le> b then 0 else lut ! (b mod 16))"

definition lane_mask :: "nat \<Rightarrow> 8 word" where
  "lane_mask b = (shuffle_lane LowLUT b AND shuffle_lane HighLUT (b div 16 mod 16))"

text \<open>The bits of the tail mask, the lanes whose mask is zero; counting trailing zeros finds the first.\<close>

definition tail_ascii_mask :: "nat list \<Rightarrow> bool list" where
  "tail_ascii_mask input = map (\<lambda>b. lane_mask b = 0) input"

function x86_loop :: "string \<Rightarrow> nat \<Rightarrow> string" where
  "x86_loop s i =
     (if i + 16 \<le> length s
      then let input = map byte_of (substr s i 16) in
        if \<exists>b \<in> set input. 128 \<le> b then ScanForIdentifierPrefixScalar s i
        else case find_if (\<lambda>t. t) (tail_ascii_mask input) of
               Some k \<Rightarrow> take (i + k) s
             | None \<Rightarrow> x86_loop s (i + 16)
      else ScanForIdentifierPrefixScalar s i)"
  by pat_completeness auto
termination
  by (relation "measure (\<lambda>(s, i). length s - i)") auto

declare x86_loop.simps [simp del]

definition ScanForIdentifierPrefixX86 :: "string \<Rightarrow> string" where
  "ScanForIdentifierPrefixX86 s =
     (if s \<noteq> []
      then if \<not> IsIdStartByteTable (byte_of (s ! 0)) then [] else x86_loop s 1
      else x86_loop s 0)"

definition ScanForIdentifierPrefix :: "bool \<Rightarrow> string \<Rightarrow> string" where
  "ScanForIdentifierPrefix use_simd s =
     (if use_simd then ScanForIdentifierPrefixX86 s else ScanForIdentifierPrefixScalar s 0)"

section \<open>Agreement\<close>

abbreviation id_char :: "char \<Rightarrow> bool" where
  "id_char c \<equiv> IsIdByteTable (byte_of c)"

abbreviation id_start_char :: "char \<Rightarrow> bool" where
  "id_start_char c \<equiv> IsIdStartByteTable (byte_of c)"

definition id_prefix :: "string \<Rightarrow> string" where
  "id_prefix s = (case s of [] \<Rightarrow> [] | c # cs \<Rightarrow> if id_start_char c then c # takeWhile id_char cs else [])"

lemma id_loop_takeWhile: "i \<le> length s \<Longrightarrow> id_loop s i = i + length (takeWhile id_char (drop i s))"
proof (induction s i rule: id_loop.induct)
  case (1 s i)
  show ?case
  proof (cases "i < length s")
    case True
    with 1 show ?thesis by (subst id_loop.simps) (simp add: Cons_nth_drop_Suc [symmetric])
  next
    case False
    then show ?thesis by (subst id_loop.simps) simp
  qed
qed

lemma take_id_loop: "i \<le> length s \<Longrightarrow> take (id_loop s i) s = take i s @ takeWhile id_char (drop i s)"
  by (simp add: id_loop_takeWhile take_add take_while_eq_take [symmetric])

lemma lane_mask_ascii:
  assumes "b < 128"
  shows "lane_mask b = 0 \<longleftrightarrow> \<not> IsIdByteTable b"
proof -
  have "\<forall>b \<in> set [0..<128]. (lane_mask b = 0) = (\<not> IsIdByteTable b)" by code_simp
  then show ?thesis using assms by simp
qed

lemma takeWhile_find_if:
  "takeWhile P xs = (case find_if (\<lambda>x. \<not> P x) xs of None \<Rightarrow> xs | Some k \<Rightarrow> take k xs)"
  by (induction xs) (auto split: option.splits)

lemma find_if_map: "find_if P (map f xs) = find_if (\<lambda>x. P (f x)) xs"
  by (induction xs) auto

lemma find_if_cong: "(\<And>x. x \<in> set xs \<Longrightarrow> P x = Q x) \<Longrightarrow> find_if P xs = find_if Q xs"
  by (induction xs) auto

lemma takeWhile_take_all:
  "takeWhile P (take n xs) = take n xs \<Longrightarrow> takeWhile P xs = take n xs @ takeWhile P (drop n xs)"
proof (induction n arbitrary: xs)
  case (Suc n)
  then show ?case by (cases xs) (auto split: if_splits)
qed simp

lemma takeWhile_take_prefix:
  "takeWhile P (take n xs) \<noteq> take n xs \<Longrightarrow> takeWhile P xs = takeWhile P (take n xs)"
  by (metis append_take_drop_id takeWhile_append1 takeWhile_append2 takeWhile_eq_all_conv)

lemma x86_loop_scalar:
  "i \<le> length s \<Longrightarrow> 0 < i \<Longrightarrow> x86_loop s i = take i s @ takeWhile id_char (drop i s)"
proof (induction s i rule: x86_loop.induct)
  case (1 s i)
  define input where "input = map byte_of (substr s i 16)"
  have scalar: "ScanForIdentifierPrefixScalar s i = take i s @ takeWhile id_char (drop i s)"
    using "1.prems" by (simp add: ScanForIdentifierPrefixScalar_def take_id_loop)
  show ?case
  proof (cases "i + 16 \<le> length s \<and> \<not> (\<exists>b \<in> set input. 128 \<le> b)")
    case False
    then show ?thesis
      by (subst x86_loop.simps) (auto simp: scalar input_def [symmetric])
  next
    case True
    have "find_if (\<lambda>t. t) (tail_ascii_mask input) = find_if (\<lambda>b. \<not> IsIdByteTable b) input"
      unfolding tail_ascii_mask_def find_if_map
      by (rule find_if_cong) (use True in \<open>auto simp: lane_mask_ascii not_le\<close>)
    also have "\<dots> = find_if (\<lambda>c. \<not> id_char c) (take 16 (drop i s))"
      by (simp add: input_def substr_def find_if_map)
    finally have f: "find_if (\<lambda>t. t) (tail_ascii_mask input) = find_if (\<lambda>c. \<not> id_char c) (take 16 (drop i s))" .
    show ?thesis
    proof (cases "find_if (\<lambda>c. \<not> id_char c) (take 16 (drop i s))")
      case None
      then have all: "takeWhile id_char (take 16 (drop i s)) = take 16 (drop i s)"
        by (simp add: takeWhile_find_if)
      have "takeWhile id_char (drop i s) = take 16 (drop i s) @ takeWhile id_char (drop (i + 16) s)"
        using takeWhile_take_all [OF all] by (simp add: add.commute)
      moreover have "x86_loop s i = x86_loop s (i + 16)"
        using True None f by (subst x86_loop.simps) (simp add: input_def [symmetric])
      moreover have "x86_loop s (i + 16) = take (i + 16) s @ takeWhile id_char (drop (i + 16) s)"
        using "1.IH" [of input] True None f "1.prems" by (simp add: input_def [symmetric])
      ultimately show ?thesis by (simp add: take_add)
    next
      case (Some k)
      have k: "k < 16" using find_if_less [OF Some] by simp
      have "takeWhile id_char (take 16 (drop i s)) = take k (drop i s)"
        using Some k by (simp add: takeWhile_find_if min_def)
      moreover have "length (take k (drop i s)) \<noteq> length (take 16 (drop i s))"
        using k conjunct1 [OF True] by (simp add: min_def)
      ultimately have "takeWhile id_char (drop i s) = take k (drop i s)"
        using takeWhile_take_prefix [of id_char 16 "drop i s"] by metis
      moreover have "x86_loop s i = take (i + k) s"
        using True Some f by (subst x86_loop.simps) (simp add: input_def [symmetric])
      ultimately show ?thesis by (simp add: take_add)
    qed
  qed
qed

lemma ScanForIdentifierPrefix_eq: "ScanForIdentifierPrefix use_simd s = id_prefix s"
proof (cases s)
  case (Cons c cs)
  then show ?thesis
    by (simp add: ScanForIdentifierPrefix_def ScanForIdentifierPrefixX86_def x86_loop_scalar
        ScanForIdentifierPrefixScalar_def take_id_loop id_prefix_def)
qed (simp add: ScanForIdentifierPrefix_def ScanForIdentifierPrefixX86_def x86_loop.simps
    ScanForIdentifierPrefixScalar_def id_prefix_def)

section \<open>Property\<close>

text \<open>
  C16. The vectorised scan, with its two nibble tables, its fallback on non-ASCII bytes and its
  scalar tail, returns on every text what the scalar scan returns: the longest prefix of
  identifier characters when the first byte may start an identifier, and nothing otherwise.
\<close>

theorem identifier_scan_vector_scalar:
  "ScanForIdentifierPrefixX86 s = ScanForIdentifierPrefixScalar s 0 \<and>
   ScanForIdentifierPrefix use_simd s =
     (case s of [] \<Rightarrow> [] | c # cs \<Rightarrow>
        if IsIdStartByteTable (byte_of c) then c # takeWhile (\<lambda>c. IsIdByteTable (byte_of c)) cs else [])"
  using ScanForIdentifierPrefix_eq [of True s] ScanForIdentifierPrefix_eq [of False s]
    ScanForIdentifierPrefix_eq [of use_simd s]
  by (simp add: ScanForIdentifierPrefix_def id_prefix_def)

end
