(* ===== verification/Lexer.thy ===== *)
theory Lexer
  imports Tokenized_Buffer Identifier_Scan
begin

text \<open>
  The lexer: the class \<open>Lexer\<close> of \<open>toolchain/lex/lex.cpp\<close> and its dispatch table.

  A method that changes the lexer takes and returns it; a method with a position argument
  returns the new position. The stack of open groups is a list whose head is the back of the
  vector. Emitted diagnostics are recorded with the byte offset they are reported at; those of an unmatched
  bracket carry the note with the place and kind of the bracket that may be missing. Two word
  routines can return without a token, \<open>None\<close>; every other method forms one or stops.

  The dispatch functions call each other in tail position until the text is consumed.
  \<open>DispatchNext\<close> counts the calls down: \<open>None\<close> is that they did not suffice. One call more than
  the text has bytes always suffices, as is shown in theory \<open>Lexer_Total\<close>.
\<close>

section \<open>State\<close>

datatype lex_diag =
    FromNumber numeric_diag
  | FromString string_diag
  | UnsupportedLfCrLineEnding
  | UnsupportedCrLineEnding
  | DumpSemIRRangeMissingBegin
  | DumpSemIRRangeMissingEnd
  | NoWhitespaceAfterCommentIntroducer
  | UnterminatedString bool
  | MultiLineStringInvalidIntroducer
  | TooManyTypeBitWidthDigits nat nat
  | CharacterOnlyAllowedAtStart
  | InvalidCharacterInDollarIntLiteral
  | DollarIntLiteralMissingNumber
  | DollarIntLiteralLeadingZero
  | TooManyDollarIntDigits nat nat
  | UnrecognizedCharacters
  | UnmatchedOpening "(nat \<times> TokenKind) option"
  | UnmatchedClosing "(nat \<times> TokenKind) option"
  | TooManyTokens

record 'a Lexer =
  lx_buffer :: "'a TokenizedBuffer"
  lx_line_index :: nat
  lx_has_leading_space :: bool
  lx_open_groups :: "nat list"
  lx_has_mismatched_brackets :: bool
  lx_diags :: "lex_diag emitted"

definition Lexer_init :: "'a SharedValueStores \<Rightarrow> string \<Rightarrow> 'a Lexer" where
  "Lexer_init stores source =
     \<lparr>lx_buffer = TokenizedBuffer_init stores source, lx_line_index = 0, lx_has_leading_space = False,
      lx_open_groups = [], lx_has_mismatched_brackets = False, lx_diags = []\<rparr>"

definition emit :: "nat \<Rightarrow> lex_diag \<Rightarrow> 'a Lexer \<Rightarrow> 'a Lexer" where
  "emit pos d lx = lx\<lparr>lx_diags := lx_diags lx @ [(pos, d)]\<rparr>"

text \<open>The diagnostics of a literal, reported relative to its start.\<close>

definition emit_all :: "nat \<Rightarrow> ('d \<Rightarrow> lex_diag) \<Rightarrow> 'd emitted \<Rightarrow> 'a Lexer \<Rightarrow> 'a Lexer" where
  "emit_all off f ds lx = lx\<lparr>lx_diags := lx_diags lx @ map (\<lambda>(p, d). (off + p, f d)) ds\<rparr>"

abbreviation lx_token_infos :: "'a Lexer \<Rightarrow> TokenInfo list" where
  "lx_token_infos lx \<equiv> tb_token_infos (lx_buffer lx)"

abbreviation lx_lines :: "'a Lexer \<Rightarrow> LineInfo list" where
  "lx_lines lx \<equiv> tb_line_infos (lx_buffer lx)"

definition set_line_indent :: "nat \<Rightarrow> nat \<Rightarrow> 'a Lexer \<Rightarrow> 'a Lexer" where
  "set_line_indent i indent lx =
     lx\<lparr>lx_buffer := (lx_buffer lx)\<lparr>tb_line_infos :=
        (lx_lines lx)[i := (lx_lines lx ! i)\<lparr>line_indent := indent\<rparr>]\<rparr>\<rparr>"

definition set_token_info :: "nat \<Rightarrow> TokenInfo \<Rightarrow> 'a Lexer \<Rightarrow> 'a Lexer" where
  "set_token_info i info lx =
     lx\<lparr>lx_buffer := (lx_buffer lx)\<lparr>tb_token_infos := (lx_token_infos lx)[i := info]\<rparr>\<rparr>"

definition current_line_info :: "'a Lexer \<Rightarrow> LineInfo outcome" where
  "current_line_info lx = store_get (lx_lines lx) (lx_line_index lx)"

definition next_line_info :: "'a Lexer \<Rightarrow> LineInfo outcome" where
  "next_line_info lx = store_get (lx_lines lx) (lx_line_index lx + 1)"

definition NoteWhitespace :: "'a Lexer \<Rightarrow> 'a Lexer" where
  "NoteWhitespace lx = lx\<lparr>lx_has_leading_space := True\<rparr>"

section \<open>Adding tokens\<close>

definition AddLexedToken :: "TokenInfo \<Rightarrow> 'a Lexer \<Rightarrow> nat \<times> 'a Lexer" where
  "AddLexedToken info lx =
     (let (token, tb) = AddToken info (lx_buffer lx)
      in (token, lx\<lparr>lx_has_leading_space := False, lx_buffer := tb\<rparr>))"

definition LexToken :: "TokenKind \<Rightarrow> nat \<Rightarrow> 'a Lexer \<Rightarrow> (nat \<times> 'a Lexer) outcome" where
  "LexToken kind byte_offset lx =
     carbon_check (\<not> IsOneOf kind [Identifier, StringLiteral, IntLiteral, IntTypeLiteral,
         UnsignedIntTypeLiteral, FloatTypeLiteral, RealLiteral, Error])
       (Ret (AddLexedToken (TokenInfo_plain kind (lx_has_leading_space lx) byte_offset) lx))"

definition LexTokenWithPayload :: "TokenKind \<Rightarrow> int \<Rightarrow> nat \<Rightarrow> 'a Lexer \<Rightarrow> nat \<times> 'a Lexer" where
  "LexTokenWithPayload kind payload byte_offset lx =
     AddLexedToken (TokenInfo_payload kind (lx_has_leading_space lx) payload byte_offset) lx"

section \<open>Lines and whitespace\<close>

function make_lines_loop :: "string \<Rightarrow> nat \<Rightarrow> LineInfo list \<times> nat" where
  "make_lines_loop s start =
     (case find_str_from [newline] s start of
        None \<Rightarrow> ([], start)
      | Some nl \<Rightarrow> let (lines, last_start) = make_lines_loop s (nl + 1)
                   in (LineInfo_at start # lines, last_start))"
  by pat_completeness auto
termination
proof (relation "measure (\<lambda>(s, start). Suc (length s) - start)", goal_cases)
  case (2 s start nl)
  from find_newline(1,2) [OF 2] show ?case by auto
qed simp

declare make_lines_loop.simps [simp del]

definition MakeLines_list :: "string \<Rightarrow> LineInfo list" where
  "MakeLines_list s =
     (if s = [] then [LineInfo_at 0]
      else let (lines, start) = make_lines_loop s 0
           in lines @ [LineInfo_at start] @ (if start \<noteq> length s then [LineInfo_at (length s)] else []))"

definition MakeLines :: "string \<Rightarrow> 'a Lexer \<Rightarrow> 'a Lexer" where
  "MakeLines s lx =
     lx\<lparr>lx_buffer := (lx_buffer lx)\<lparr>tb_line_infos := lx_lines lx @ MakeLines_list s\<rparr>, lx_line_index := 0\<rparr>"

function SkipHorizontalWhitespace :: "string \<Rightarrow> nat \<Rightarrow> nat" where
  "SkipHorizontalWhitespace s pos =
     (if pos < length s \<and> (s ! pos = CHR '' '' \<or> s ! pos = tab)
      then SkipHorizontalWhitespace s (pos + 1) else pos)"
  by pat_completeness auto
termination
  by (relation "measure (\<lambda>(s, pos). length s - pos)") auto

declare SkipHorizontalWhitespace.simps [simp del]

definition AdvanceToLine :: "string \<Rightarrow> nat \<Rightarrow> 'a Lexer \<Rightarrow> ('a Lexer \<times> nat) outcome" where
  "AdvanceToLine s to_line_index lx =
     carbon_check (lx_line_index lx \<le> to_line_index)
       (let lx = lx\<lparr>lx_line_index := to_line_index\<rparr> in
        bind_outcome (current_line_info lx) (\<lambda>line_info.
          let start = line_start line_info; pos = SkipHorizontalWhitespace s start
          in Ret (set_line_indent to_line_index (pos - start) lx, pos)))"

definition LexHorizontalWhitespace :: "string \<Rightarrow> nat \<Rightarrow> 'a Lexer \<Rightarrow> ('a Lexer \<times> nat) outcome" where
  "LexHorizontalWhitespace s pos lx =
     carbon_check (s ! pos = CHR '' '' \<or> s ! pos = tab)
       (Ret (NoteWhitespace lx, SkipHorizontalWhitespace s pos))"

definition LexVerticalWhitespace :: "string \<Rightarrow> nat \<Rightarrow> 'a Lexer \<Rightarrow> ('a Lexer \<times> nat) outcome" where
  "LexVerticalWhitespace s pos lx =
     (let lx = NoteWhitespace lx in AdvanceToLine s (lx_line_index lx + 1) lx)"

definition LexCR :: "string \<Rightarrow> nat \<Rightarrow> 'a Lexer \<Rightarrow> ('a Lexer \<times> nat) outcome" where
  "LexCR s pos lx =
     (if pos + 1 < length s \<and> s ! (pos + 1) = newline then LexVerticalWhitespace s pos lx
      else let is_lfcr = 0 < pos \<and> s ! (pos - 1) = newline;
               lx = emit pos (if is_lfcr then UnsupportedLfCrLineEnding else UnsupportedCrLineEnding) lx
           in Ret (NoteWhitespace lx, pos + 1))"

section \<open>Errors\<close>

definition error_char :: "char \<Rightarrow> bool" where
  "error_char c \<longleftrightarrow> \<not> IsAlnum c \<and> c \<noteq> CHR ''_'' \<and> c \<noteq> tab \<and> c \<noteq> newline \<and>
     \<not> list_ex (\<lambda>s. starts_with [c] (symbol_spelling s)) SymbolTokens"

definition LexError :: "string \<Rightarrow> nat \<Rightarrow> 'a Lexer \<Rightarrow> ('a Lexer \<times> nat) outcome" where
  "LexError s pos lx =
     (let error_text = takeWhile error_char (drop pos s);
          error_text = (if error_text = [] then substr s pos 1 else error_text);
          (token, lx) = LexTokenWithPayload Error (int (length error_text)) pos lx
      in Ret (emit pos UnrecognizedCharacters lx, pos + length error_text))"

section \<open>Symbols\<close>

definition multi_char_symbol :: "string \<Rightarrow> symbol option" where
  "multi_char_symbol s =
     find (\<lambda>smb. starts_with s (symbol_spelling smb)) (filter (\<lambda>smb. smb \<notin> set one_char_symbols) SymbolTokens)"

definition LexSymbolToken :: "string \<Rightarrow> nat \<Rightarrow> 'a Lexer \<Rightarrow> ('a Lexer \<times> nat) outcome" where
  "LexSymbolToken s pos lx =
     (case multi_char_symbol (drop pos s) of
        None \<Rightarrow> LexError s pos lx
      | Some smb \<Rightarrow> bind_outcome (LexToken (Symbol smb) pos lx) (\<lambda>(token, lx).
          Ret (lx, pos + length (fixed_spelling (Symbol smb)))))"

definition LexOneCharSymbolToken ::
    "string \<Rightarrow> TokenKind \<Rightarrow> nat \<Rightarrow> 'a Lexer \<Rightarrow> ('a Lexer \<times> nat) outcome" where
  "LexOneCharSymbolToken s kind pos lx =
     carbon_check (kind \<noteq> Error) (carbon_check (length (fixed_spelling kind) = 1)
       (carbon_check (s ! pos = hd (fixed_spelling kind))
         (bind_outcome (LexToken kind pos lx) (\<lambda>(token, lx). Ret (lx, pos + 1)))))"

definition LexOpeningSymbolToken ::
    "string \<Rightarrow> TokenKind \<Rightarrow> nat \<Rightarrow> 'a Lexer \<Rightarrow> ('a Lexer \<times> nat) outcome" where
  "LexOpeningSymbolToken s kind pos lx =
     carbon_check (is_opening_symbol kind) (carbon_check (length (fixed_spelling kind) = 1)
       (carbon_check (s ! pos = hd (fixed_spelling kind))
         (bind_outcome (LexToken kind pos lx) (\<lambda>(token, lx).
            Ret (lx\<lparr>lx_open_groups := token # lx_open_groups lx\<rparr>, pos + 1)))))"

definition LexClosingSymbolToken ::
    "string \<Rightarrow> TokenKind \<Rightarrow> nat \<Rightarrow> 'a Lexer \<Rightarrow> ('a Lexer \<times> nat) outcome" where
  "LexClosingSymbolToken s kind pos lx =
     carbon_check (is_closing_symbol kind) (carbon_check (length (fixed_spelling kind) = 1)
       (carbon_check (s ! pos = hd (fixed_spelling kind))
         (case lx_open_groups lx of
            [] \<Rightarrow> bind_outcome (LexToken kind pos (lx\<lparr>lx_has_mismatched_brackets := True\<rparr>))
                    (\<lambda>(token, lx). Ret (lx, pos + 1))
          | opening_token # rest \<Rightarrow>
              let (token, lx) = LexTokenWithPayload kind (int opening_token) pos (lx\<lparr>lx_open_groups := rest\<rparr>) in
              bind_outcome (store_get (lx_token_infos lx) opening_token) (\<lambda>opening_info.
                bind_outcome (opening_symbol kind) (\<lambda>expected.
                  if ti_kind opening_info \<noteq> expected
                  then bind_outcome (store_get (lx_token_infos lx) token) (\<lambda>info.
                         bind_outcome (set_opening_token_index TokenIndex_None info) (\<lambda>info.
                           Ret ((set_token_info token info lx)\<lparr>lx_has_mismatched_brackets := True\<rparr>, pos + 1)))
                  else bind_outcome (set_closing_token_index (int token) opening_info) (\<lambda>opening_info.
                         Ret (set_token_info opening_token opening_info lx, pos + 1)))))))"

section \<open>Dump ranges and comments\<close>

definition EndDumpSemIRRange :: "nat \<Rightarrow> 'a Lexer \<Rightarrow> 'a Lexer" where
  "EndDumpSemIRRange diag_loc lx =
     (let ranges = tb_dump_sem_ir_ranges (lx_buffer lx) in
      if ranges = [] \<or> snd (last ranges) \<noteq> TokenIndex_None
      then emit diag_loc DumpSemIRRangeMissingBegin lx
      else lx\<lparr>lx_buffer := (lx_buffer lx)\<lparr>tb_dump_sem_ir_ranges :=
             butlast ranges @ [(fst (last ranges), int (length (lx_token_infos lx)) - 1)]\<rparr>\<rparr>)"

definition EndDumpSemIRRangeIfIncomplete :: "nat \<Rightarrow> 'a Lexer \<Rightarrow> 'a Lexer" where
  "EndDumpSemIRRangeIfIncomplete diag_loc lx =
     (let ranges = tb_dump_sem_ir_ranges (lx_buffer lx) in
      if ranges = [] \<or> snd (last ranges) \<noteq> TokenIndex_None then lx
      else EndDumpSemIRRange diag_loc (emit diag_loc DumpSemIRRangeMissingEnd lx))"

definition BeginDumpSemIRRange :: "nat \<Rightarrow> 'a Lexer \<Rightarrow> 'a Lexer" where
  "BeginDumpSemIRRange diag_loc lx =
     (let lx = EndDumpSemIRRangeIfIncomplete diag_loc lx
      in lx\<lparr>lx_buffer := (lx_buffer lx)\<lparr>tb_dump_sem_ir_ranges :=
            tb_dump_sem_ir_ranges (lx_buffer lx) @ [(int (length (lx_token_infos lx)), TokenIndex_None)]\<rparr>\<rparr>)"

text \<open>\<open>add_directive_comment_line\<close>\<close>

definition add_directive_comment_line ::
    "string \<Rightarrow> LineInfo \<Rightarrow> nat \<Rightarrow> 'a Lexer \<Rightarrow> ('a Lexer \<times> nat) outcome" where
  "add_directive_comment_line s line_info start lx =
     bind_outcome (next_line_info lx) (\<lambda>next_info.
       bind_outcome (AddComment (line_indent line_info) start (line_start next_info) False (lx_buffer lx)) (\<lambda>tb.
         AdvanceToLine s (lx_line_index lx + 1) (lx\<lparr>lx_buffer := tb\<rparr>)))"

text \<open>\<open>skip_to_next_line\<close>: the line index and the position it leaves, and the line's indent.\<close>

definition skip_to_next_line ::
    "nat \<Rightarrow> nat \<Rightarrow> 'a Lexer \<Rightarrow> ('a Lexer \<times> nat \<times> nat) outcome" where
  "skip_to_next_line indent line_index lx =
     bind_outcome (store_get (lx_lines lx) (line_index + 1)) (\<lambda>info.
       Ret (set_line_indent (line_index + 1) indent lx, line_index + 1, line_start info))"

text \<open>A vector of 16 bytes, the masks for its first bytes, and the masked comparison.\<close>

definition vec16 :: "string \<Rightarrow> nat \<Rightarrow> 8 word list" where
  "vec16 s pos = map (\<lambda>c. word_of_nat (byte_of c)) (substr s pos 16)"

definition PrefixMasks :: "nat \<Rightarrow> 8 word list" where
  "PrefixMasks n = map (\<lambda>k. if k < n then -1 else 0) [0..<16]"

definition masked_equal :: "8 word list \<Rightarrow> 8 word list \<Rightarrow> 8 word list \<Rightarrow> bool" where
  "masked_equal msk x y \<longleftrightarrow> list_all (\<lambda>(m, a, b). m AND (a XOR b) = 0) (zip msk (zip x y))"

function simd_block ::
    "string \<Rightarrow> nat \<Rightarrow> nat \<Rightarrow> nat \<Rightarrow> nat \<Rightarrow> nat \<Rightarrow> 'a Lexer \<Rightarrow> ('a Lexer \<times> nat \<times> nat) outcome" where
  "simd_block s first_line_start prefix_len indent line_index pos lx =
     (if \<not> masked_equal (PrefixMasks prefix_len) (vec16 s first_line_start) (vec16 s pos)
      then Ret (lx, line_index, pos)
      else if line_index + 1 < length (lx_lines lx)
      then case skip_to_next_line indent line_index lx of
             Fatal \<Rightarrow> Fatal
           | Ret (lx, line_index, pos) \<Rightarrow>
               if pos + 16 < length s
               then simd_block s first_line_start prefix_len indent line_index pos lx
               else Ret (lx, line_index, pos)
      else Fatal)"
  by pat_completeness auto
termination
  by (relation "measure (\<lambda>(s, f, p, i, line_index, pos, lx). length (lx_lines lx) - line_index)")
    (auto simp: skip_to_next_line_def bind_outcome_Ret_iff set_line_indent_def store_get_def split: if_splits)

definition continues_block :: "string \<Rightarrow> nat \<Rightarrow> nat \<Rightarrow> bool \<Rightarrow> nat \<Rightarrow> bool" where
  "continues_block s first_line_start prefix_len is_valid_after_slashes pos =
     (if length s < pos + prefix_len then False
      else if substr s first_line_start prefix_len \<noteq> substr s pos prefix_len then False
      else if is_valid_after_slashes then True
      else if pos + prefix_len = length s then False
      else let after_slashes = s ! (pos + prefix_len)
           in \<not> IsSpace after_slashes \<and> after_slashes \<noteq> CHR ''@'')"

function scalar_block ::
    "string \<Rightarrow> nat \<Rightarrow> nat \<Rightarrow> bool \<Rightarrow> nat \<Rightarrow> nat \<Rightarrow> nat \<Rightarrow> 'a Lexer \<Rightarrow> ('a Lexer \<times> nat \<times> nat) outcome" where
  "scalar_block s first_line_start prefix_len valid indent line_index pos lx =
     (if \<not> continues_block s first_line_start prefix_len valid pos then Ret (lx, line_index, pos)
      else if line_index + 1 < length (lx_lines lx)
      then case skip_to_next_line indent line_index lx of
             Fatal \<Rightarrow> Fatal
           | Ret (lx, line_index, pos) \<Rightarrow>
               scalar_block s first_line_start prefix_len valid indent line_index pos lx
      else Fatal)"
  by pat_completeness auto
termination
  by (relation "measure (\<lambda>(s, f, p, v, i, line_index, pos, lx). length (lx_lines lx) - line_index)")
    (auto simp: skip_to_next_line_def bind_outcome_Ret_iff set_line_indent_def store_get_def split: if_splits)

declare simd_block.simps [simp del] scalar_block.simps [simp del]

definition MaxIndent :: nat where
  "MaxIndent = 13"

text \<open>Skipping the rest of the line, or the block of lines, of a comment.\<close>

definition LexComment_rest ::
    "'a lex_env \<Rightarrow> string \<Rightarrow> LineInfo \<Rightarrow> bool \<Rightarrow> bool \<Rightarrow> nat \<Rightarrow> 'a Lexer \<Rightarrow> ('a Lexer \<times> nat) outcome" where
  "LexComment_rest env s line_info is_trailing valid start lx =
     (let line_index = lx_line_index lx + 1; indent = line_indent line_info;
          first_line_start = line_start line_info; prefix_len = indent + (if valid then 3 else 2)
      in bind_outcome (store_get (lx_lines lx) line_index) (\<lambda>info.
        let pos = line_start info in
        if is_trailing
        then bind_outcome (AddComment indent start pos True (lx_buffer lx)) (\<lambda>tb.
               AdvanceToLine s line_index (NoteWhitespace (lx\<lparr>lx_buffer := tb\<rparr>)))
        else bind_outcome
               (if env_use_simd env \<and> valid \<and> pos + 16 < length s \<and> indent \<le> MaxIndent
                then simd_block s first_line_start prefix_len indent line_index pos lx
                else scalar_block s first_line_start prefix_len valid indent line_index pos lx)
               (\<lambda>(lx, line_index, pos).
                  bind_outcome (AddComment indent start pos False (lx_buffer lx)) (\<lambda>tb.
                    AdvanceToLine s line_index (lx\<lparr>lx_buffer := tb\<rparr>)))))"

definition LexComment :: "'a lex_env \<Rightarrow> string \<Rightarrow> nat \<Rightarrow> 'a Lexer \<Rightarrow> ('a Lexer \<times> nat) outcome" where
  "LexComment env s pos lx =
     carbon_check (starts_with (drop pos s) ''//'')
       (bind_outcome (current_line_info lx) (\<lambda>line_info.
          let is_trailing = (pos \<noteq> line_start line_info + line_indent line_info);
              comment_text = drop pos s
          in if pos + 2 < length s \<and> \<not> IsSpace (s ! (pos + 2))
             then if \<not> is_trailing \<and> starts_with comment_text (''//@include-in-dumps'' @ [newline])
               then add_directive_comment_line s line_info pos
                      (lx\<lparr>lx_buffer := (lx_buffer lx)\<lparr>tb_has_include_in_dumps := True\<rparr>\<rparr>)
               else if \<not> is_trailing \<and> starts_with comment_text (''//@dump-sem-ir-begin'' @ [newline])
               then add_directive_comment_line s line_info pos (BeginDumpSemIRRange pos lx)
               else if \<not> is_trailing \<and> starts_with comment_text (''//@dump-sem-ir-end'' @ [newline])
               then add_directive_comment_line s line_info pos (EndDumpSemIRRange pos lx)
               else LexComment_rest env s line_info is_trailing False pos
                      (emit (pos + 2) NoWhitespaceAfterCommentIntroducer lx)
             else LexComment_rest env s line_info is_trailing True pos lx))"

definition LexCommentOrSlash :: "'a lex_env \<Rightarrow> string \<Rightarrow> nat \<Rightarrow> 'a Lexer \<Rightarrow> ('a Lexer \<times> nat) outcome" where
  "LexCommentOrSlash env s pos lx =
     carbon_check (s ! pos = CHR ''/'')
       (if pos + 1 < length s \<and> s ! (pos + 1) = CHR ''/'' then LexComment env s pos lx
        else LexSymbolToken s pos lx)"

section \<open>Literals\<close>

definition CanFormRealLiteral :: "'a Lexer \<Rightarrow> bool outcome" where
  "CanFormRealLiteral lx =
     (if lx_has_leading_space lx then Ret True
      else bind_outcome (GetKind (lx_buffer lx) (tokens_end (lx_buffer lx) - 1)) (\<lambda>kind.
             Ret (kind \<noteq> Symbol Period \<and> kind \<noteq> Symbol MinusGreater)))"

definition add_unsigned :: "'a lex_env \<Rightarrow> 'a \<Rightarrow> 'a Lexer \<Rightarrow> (32 word \<times> 'a Lexer) outcome" where
  "add_unsigned env x lx =
     (let stores = tb_value_stores (lx_buffer lx) in
      bind_outcome (AddUnsigned (env_apint env) (env_int_layout env) x (svs_ints stores)) (\<lambda>(tid, ints).
        bind_outcome (AsTokenPayload tid) (\<lambda>payload.
          Ret (payload, lx\<lparr>lx_buffer := (lx_buffer lx)\<lparr>tb_value_stores := stores\<lparr>svs_ints := ints\<rparr>\<rparr>\<rparr>))))"

definition add_int :: "'a lex_env \<Rightarrow> int \<Rightarrow> 'a Lexer \<Rightarrow> (32 word \<times> 'a Lexer) outcome" where
  "add_int env v lx =
     (let stores = tb_value_stores (lx_buffer lx) in
      bind_outcome (IntStore_Add (env_apint env) (env_int_layout env) v (svs_ints stores)) (\<lambda>(tid, ints).
        bind_outcome (AsTokenPayload tid) (\<lambda>payload.
          Ret (payload, lx\<lparr>lx_buffer := (lx_buffer lx)\<lparr>tb_value_stores := stores\<lparr>svs_ints := ints\<rparr>\<rparr>\<rparr>))))"

definition add_real :: "'a lex_env \<Rightarrow> 'a Real \<Rightarrow> 'a Lexer \<Rightarrow> (32 word \<times> 'a Lexer) outcome" where
  "add_real env r lx =
     (let stores = tb_value_stores (lx_buffer lx) in
      bind_outcome (ValueStore_Add (env_real_layout env) r (svs_reals stores)) (\<lambda>(tid, reals).
        Ret (tid, lx\<lparr>lx_buffer := (lx_buffer lx)\<lparr>tb_value_stores := stores\<lparr>svs_reals := reals\<rparr>\<rparr>\<rparr>)))"

definition add_string :: "'a lex_env \<Rightarrow> string \<Rightarrow> 'a Lexer \<Rightarrow> (32 word \<times> 'a Lexer) outcome" where
  "add_string env v lx =
     (let stores = tb_value_stores (lx_buffer lx) in
      bind_outcome (Canonical_Add (env_string_layout env) (\<lambda>s. s) v (svs_string_literal_values stores))
        (\<lambda>(tid, strings).
           Ret (tid, lx\<lparr>lx_buffer := (lx_buffer lx)\<lparr>tb_value_stores :=
                  stores\<lparr>svs_string_literal_values := strings\<rparr>\<rparr>\<rparr>)))"

definition LexNumericLiteral :: "'a lex_env \<Rightarrow> string \<Rightarrow> nat \<Rightarrow> 'a Lexer \<Rightarrow> ('a Lexer \<times> nat) outcome" where
  "LexNumericLiteral env s pos lx =
     bind_outcome (CanFormRealLiteral lx) (\<lambda>can_form_real.
       bind_outcome (NumericLiteral_Lex (drop pos s) can_form_real) (\<lambda>literal.
         case literal of
           None \<Rightarrow> LexError s pos lx
         | Some lit \<Rightarrow>
             let token_size = length (nl_text lit); byte_offset = pos; pos = pos + token_size in
             bind_outcome (ComputeValue (env_apint env) lit) (\<lambda>(v, ds).
               let lx = emit_all byte_offset FromNumber ds lx in
               case v of
                 IntValue x \<Rightarrow> bind_outcome (add_unsigned env x lx) (\<lambda>(payload, lx).
                   Ret (snd (LexTokenWithPayload IntLiteral (sint payload) byte_offset lx), pos))
               | RealValue radix m e \<Rightarrow>
                   bind_outcome (add_real env \<lparr>real_mantissa = m, real_exponent = e,
                       real_is_decimal = (radix = Decimal)\<rparr> lx) (\<lambda>(tid, lx).
                     Ret (snd (LexTokenWithPayload RealLiteral (sint tid) byte_offset lx), pos))
               | UnrecoverableError \<Rightarrow>
                   Ret (snd (LexTokenWithPayload Error (int token_size) byte_offset lx), pos))))"

text \<open>The lines a multi-line literal spans: the index of the last, then their indents.\<close>

function advance_lines :: "nat \<Rightarrow> 'a Lexer \<Rightarrow> 'a Lexer outcome" where
  "advance_lines pos lx =
     (case next_line_info lx of
        Fatal \<Rightarrow> Fatal
      | Ret info \<Rightarrow>
          if line_start info < pos then advance_lines pos (lx\<lparr>lx_line_index := lx_line_index lx + 1\<rparr>)
          else Ret lx)"
  by pat_completeness auto
termination
  by (relation "measure (\<lambda>(pos, lx). length (lx_lines lx) - lx_line_index lx)")
    (auto simp: next_line_info_def store_get_def split: if_splits)

declare advance_lines.simps [simp del]

definition span_lines :: "string \<Rightarrow> nat \<Rightarrow> 'a Lexer \<Rightarrow> 'a Lexer outcome" where
  "span_lines s pos lx =
     (let first_spanned_line = lx_line_index lx + 1 in
      bind_outcome (advance_lines pos lx) (\<lambda>lx.
        bind_outcome (current_line_info lx) (\<lambda>closing.
          let indent = SkipHorizontalWhitespace s (line_start closing) - line_start closing
          in Ret (fold (\<lambda>i. set_line_indent i indent) [first_spanned_line..<lx_line_index lx + 1] lx))))"

definition LexStringLiteral :: "'a lex_env \<Rightarrow> string \<Rightarrow> nat \<Rightarrow> 'a Lexer \<Rightarrow> ('a Lexer \<times> nat) outcome" where
  "LexStringLiteral env s pos lx =
     (case StringLiteral_Lex (drop pos s) of
        None \<Rightarrow> LexError s pos lx
      | Some lit \<Rightarrow>
          let byte_offset = pos; token_size = length (sl_text lit); pos = pos + token_size;
              lex_as_error = (\<lambda>lx. Ret (snd (LexTokenWithPayload Error (int token_size) byte_offset lx), pos))
          in if sl_kind lit = CharKind
             then if \<not> sl_is_terminated lit then lex_as_error (emit byte_offset (UnterminatedString True) lx)
               else bind_outcome (ComputeCharLiteralValue (env_to_utf8 env) (env_from_utf8 env) lit []) (\<lambda>(r, ds).
                 let lx = emit_all byte_offset FromString ds lx in
                 case r of
                   Some v \<Rightarrow> Ret (snd (LexTokenWithPayload CharLiteral v byte_offset lx), pos)
                 | None \<Rightarrow> lex_as_error lx)
             else if sl_has_invalid_introducer lit
             then lex_as_error (emit byte_offset MultiLineStringInvalidIntroducer lx)
             else bind_outcome (if sl_kind lit \<noteq> SingleLine then span_lines s pos lx else Ret lx) (\<lambda>lx.
               if \<not> sl_is_terminated lit then lex_as_error (emit byte_offset (UnterminatedString False) lx)
               else bind_outcome (ComputeStringValue (env_to_utf8 env) lit []) (\<lambda>(v, ds).
                 bind_outcome (add_string env v (emit_all byte_offset FromString ds lx)) (\<lambda>(tid, lx).
                   Ret (snd (LexTokenWithPayload StringLiteral (sint tid) byte_offset lx), pos)))))"

section \<open>Words\<close>

text \<open>\<open>std::numeric_limits<int64_t>::digits10\<close>\<close>

definition WordDigitLimit :: nat where
  "WordDigitLimit = 18"

text \<open>The loop that accumulates the digits; \<open>None\<close> when a character is not a digit.\<close>

fun suffix_value_loop :: "64 word \<Rightarrow> string \<Rightarrow> 64 word option" where
  "suffix_value_loop acc [] = Some acc"
| "suffix_value_loop acc (c # cs) =
     (if \<not> IsDecimalDigit c then None
      else suffix_value_loop (acc * 10 + word_of_nat (byte_of c - 48)) cs)"

definition LexWordAsTypeLiteralToken ::
    "'a lex_env \<Rightarrow> string \<Rightarrow> nat \<Rightarrow> 'a Lexer \<Rightarrow> 'a Lexer option outcome" where
  "LexWordAsTypeLiteralToken env word byte_offset lx =
     (if length word < 2 then Ret None
      else let kind = (if hd word = CHR ''i'' then Some IntTypeLiteral
                       else if hd word = CHR ''u'' then Some UnsignedIntTypeLiteral
                       else if hd word = CHR ''f'' then Some FloatTypeLiteral else None)
           in case kind of
                None \<Rightarrow> Ret None
              | Some kind \<Rightarrow>
                  if byte_of (word ! 1) < 49 \<or> 57 < byte_of (word ! 1) then Ret None
                  else let suffix = drop 1 word in
                    if WordDigitLimit < length suffix
                    then if \<not> list_all IsDecimalDigit suffix then Ret None
                      else Ret (Some (snd (LexTokenWithPayload Error (int (length word)) byte_offset
                             (emit (byte_offset + 1) (TooManyTypeBitWidthDigits (length suffix) WordDigitLimit) lx))))
                    else case suffix_value_loop (word_of_nat (byte_of (suffix ! 0) - 48)) (drop 1 suffix) of
                           None \<Rightarrow> Ret None
                         | Some suffix_value \<Rightarrow>
                             carbon_check (0 \<le> sint suffix_value)
                               (bind_outcome (add_int env (sint suffix_value) lx) (\<lambda>(payload, lx).
                                  Ret (Some (snd (LexTokenWithPayload kind (sint payload) byte_offset lx))))))"

definition LexWordAsDollarIntLiteralToken ::
    "'a lex_env \<Rightarrow> string \<Rightarrow> nat \<Rightarrow> 'a Lexer \<Rightarrow> 'a Lexer option outcome" where
  "LexWordAsDollarIntLiteralToken env word byte_offset lx =
     (if \<not> starts_with word ''$'' then Ret None
      else let prev_token = tokens_end (lx_buffer lx) - 1;
               error = (\<lambda>d. Ret (Some (snd (LexTokenWithPayload Error (int (length word)) byte_offset
                          (emit (byte_offset + 1) d lx)))))
           in bind_outcome (if lx_has_leading_space lx then Ret False
                            else bind_outcome (GetKind (lx_buffer lx) prev_token) (\<lambda>kind. Ret (is_word kind)))
             (\<lambda>after_word.
               if after_word
               then bind_outcome (store_get (lx_token_infos lx) prev_token) (\<lambda>prev_info.
                 bind_outcome (GetTokenText env (lx_buffer lx) prev_token) (\<lambda>prev_text.
                   Ret (Some (set_token_info prev_token
                     (TokenInfo_payload Error (lx_has_leading_space lx)
                        (int (length prev_text + length word)) (ti_byte_offset prev_info))
                     (emit byte_offset CharacterOnlyAllowedAtStart lx)))))
               else if length word < 2 then error DollarIntLiteralMissingNumber
               else if word ! 1 = CHR ''0'' \<and> 2 < length word then error DollarIntLiteralLeadingZero
               else if byte_of (word ! 1) < 48 \<or> 57 < byte_of (word ! 1) then error InvalidCharacterInDollarIntLiteral
               else let suffix = drop 1 word in
                 if WordDigitLimit < length suffix
                 then if \<not> list_all IsDecimalDigit suffix then error InvalidCharacterInDollarIntLiteral
                   else error (TooManyDollarIntDigits (length suffix) WordDigitLimit)
                 else case suffix_value_loop (word_of_nat (byte_of (suffix ! 0) - 48)) (drop 1 suffix) of
                        None \<Rightarrow> error InvalidCharacterInDollarIntLiteral
                      | Some suffix_value \<Rightarrow>
                          carbon_check (0 \<le> sint suffix_value)
                            (bind_outcome (add_int env (sint suffix_value) lx) (\<lambda>(payload, lx).
                               Ret (Some (snd (LexTokenWithPayload DollarIntLiteral (sint payload) byte_offset lx)))))))"

definition keyword_of :: "string \<Rightarrow> keyword option" where
  "keyword_of word = find (\<lambda>k. keyword_spelling k = word) KeywordTokens"

definition lift_add_identifier :: "'a lex_env \<Rightarrow> string \<Rightarrow> 'a Lexer \<Rightarrow> (32 word \<times> 'a Lexer) outcome" where
  "lift_add_identifier env word lx =
     bind_outcome (add_identifier env word (lx_buffer lx)) (\<lambda>(tid, tb). Ret (tid, lx\<lparr>lx_buffer := tb\<rparr>))"

definition LexKeywordOrIdentifier ::
    "'a lex_env \<Rightarrow> string \<Rightarrow> nat \<Rightarrow> 'a Lexer \<Rightarrow> ('a Lexer \<times> nat) outcome" where
  "LexKeywordOrIdentifier env s pos lx =
     (if 127 < byte_of (s ! pos) then LexError s pos lx
      else carbon_check (IsIdStartByteTable (byte_of (s ! pos)))
        (let byte_offset = pos; word = ScanForIdentifierPrefix (env_use_simd env) (drop pos s)
         in carbon_check (word \<noteq> [])
           (let pos = pos + length word in
            bind_outcome (LexWordAsTypeLiteralToken env word byte_offset lx) (\<lambda>result.
              case result of
                Some lx \<Rightarrow> Ret (lx, pos)
              | None \<Rightarrow> bind_outcome (LexWordAsDollarIntLiteralToken env word byte_offset lx) (\<lambda>result.
                  case result of
                    Some lx \<Rightarrow> Ret (lx, pos)
                  | None \<Rightarrow> (case keyword_of word of
                        Some k \<Rightarrow> bind_outcome (LexToken (Keyword k) byte_offset lx) (\<lambda>(token, lx). Ret (lx, pos))
                      | None \<Rightarrow> bind_outcome (lift_add_identifier env word lx) (\<lambda>(tid, lx).
                          Ret (snd (LexTokenWithPayload Identifier (sint tid) byte_offset lx), pos))))))))"

definition LexHash :: "'a lex_env \<Rightarrow> string \<Rightarrow> nat \<Rightarrow> 'a Lexer \<Rightarrow> ('a Lexer \<times> nat) outcome" where
  "LexHash env s pos lx =
     (let prev_token = length (lx_token_infos lx) - 1 in
      bind_outcome (store_get (lx_token_infos lx) prev_token) (\<lambda>prev_info.
        if ti_kind prev_info \<noteq> Identifier \<or> s ! (pos - 1) \<noteq> CHR ''r'' \<or> pos + 1 = length s \<or>
           \<not> IsIdStartByteTable (byte_of (s ! (pos + 1))) \<or> int (ti_byte_offset prev_info) \<noteq> int pos - 1
        then LexStringLiteral env s pos lx
        else bind_outcome (ident_id prev_info) (\<lambda>tid.
          bind_outcome (identifier_get env (lx_buffer lx) tid) (\<lambda>ident.
            carbon_check (ident = ''r'')
              (let word = ScanForIdentifierPrefix (env_use_simd env) (drop (pos + 1) s)
               in carbon_check (word \<noteq> [])
                 (bind_outcome (lift_add_identifier env word lx) (\<lambda>(tid, lx).
                    bind_outcome (set_ident_id tid prev_info) (\<lambda>info.
                      Ret (set_token_info prev_token info lx, pos + 1 + length word)))))))))"

section \<open>Dispatch\<close>

datatype dispatch =
    DispatchLexError | DispatchLexSymbolToken | DispatchLexKeywordOrIdentifier | DispatchLexHash
  | DispatchLexNumericLiteral | DispatchLexStringLiteral
  | DispatchLexOneCharSymbolToken | DispatchLexOpeningSymbolToken | DispatchLexClosingSymbolToken
  | DispatchLexHorizontalWhitespace | DispatchLexVerticalWhitespace | DispatchLexCR
  | DispatchLexCommentOrSlash

definition symbol_byte :: "symbol \<Rightarrow> nat" where
  "symbol_byte smb = byte_of (hd (symbol_spelling smb))"

text \<open>The last assignment to an entry of a table is the first match from the end.\<close>

definition OneCharTokenKindTable :: "nat \<Rightarrow> TokenKind" where
  "OneCharTokenKindTable b =
     (case find (\<lambda>smb. symbol_byte smb = b) (rev one_char_symbols) of
        Some smb \<Rightarrow> Symbol smb | None \<Rightarrow> Error)"

definition MakeDispatchTable :: "nat \<Rightarrow> dispatch" where
  "MakeDispatchTable b =
     (if b = 13 then DispatchLexCR
      else if b = 10 then DispatchLexVerticalWhitespace
      else if b = 9 \<or> b = 32 then DispatchLexHorizontalWhitespace
      else if b = 35 then DispatchLexHash
      else if b = 34 \<or> b = 39 then DispatchLexStringLiteral
      else if 48 \<le> b \<and> b \<le> 57 then DispatchLexNumericLiteral
      else if 128 \<le> b \<or> 65 \<le> b \<and> b \<le> 90 \<or> 97 \<le> b \<and> b \<le> 122 \<or> b = 36 \<or> b = 95
      then DispatchLexKeywordOrIdentifier
      else if b = 47 then DispatchLexCommentOrSlash
      else case find (\<lambda>smb. symbol_byte smb = b) (rev one_char_symbols) of
             Some smb \<Rightarrow>
               if is_closing_symbol (Symbol smb) then DispatchLexClosingSymbolToken
               else if is_opening_symbol (Symbol smb) then DispatchLexOpeningSymbolToken
               else DispatchLexOneCharSymbolToken
           | None \<Rightarrow> if list_ex (\<lambda>smb. symbol_byte smb = b) SymbolTokens then DispatchLexSymbolToken
                     else DispatchLexError)"

fun run_dispatch ::
    "'a lex_env \<Rightarrow> dispatch \<Rightarrow> string \<Rightarrow> nat \<Rightarrow> 'a Lexer \<Rightarrow> ('a Lexer \<times> nat) outcome" where
  "run_dispatch env DispatchLexError s pos lx = LexError s pos lx"
| "run_dispatch env DispatchLexSymbolToken s pos lx = LexSymbolToken s pos lx"
| "run_dispatch env DispatchLexKeywordOrIdentifier s pos lx = LexKeywordOrIdentifier env s pos lx"
| "run_dispatch env DispatchLexHash s pos lx = LexHash env s pos lx"
| "run_dispatch env DispatchLexNumericLiteral s pos lx = LexNumericLiteral env s pos lx"
| "run_dispatch env DispatchLexStringLiteral s pos lx = LexStringLiteral env s pos lx"
| "run_dispatch env DispatchLexOneCharSymbolToken s pos lx =
     LexOneCharSymbolToken s (OneCharTokenKindTable (byte_of (s ! pos))) pos lx"
| "run_dispatch env DispatchLexOpeningSymbolToken s pos lx =
     LexOpeningSymbolToken s (OneCharTokenKindTable (byte_of (s ! pos))) pos lx"
| "run_dispatch env DispatchLexClosingSymbolToken s pos lx =
     LexClosingSymbolToken s (OneCharTokenKindTable (byte_of (s ! pos))) pos lx"
| "run_dispatch env DispatchLexHorizontalWhitespace s pos lx = LexHorizontalWhitespace s pos lx"
| "run_dispatch env DispatchLexVerticalWhitespace s pos lx = LexVerticalWhitespace s pos lx"
| "run_dispatch env DispatchLexCR s pos lx = LexCR s pos lx"
| "run_dispatch env DispatchLexCommentOrSlash s pos lx = LexCommentOrSlash env s pos lx"

definition LexFileStart :: "string \<Rightarrow> nat \<Rightarrow> 'a Lexer \<Rightarrow> ('a Lexer \<times> nat) outcome" where
  "LexFileStart s pos lx =
     carbon_check (pos = 0)
       (bind_outcome (LexToken FileStart 0 lx) (\<lambda>(token, lx).
          let lx = NoteWhitespace lx in
          bind_outcome (current_line_info lx) (\<lambda>info.
            carbon_check (line_start info = 0) (AdvanceToLine s 0 lx))))"

definition LexFileEnd :: "string \<Rightarrow> nat \<Rightarrow> 'a Lexer \<Rightarrow> 'a Lexer outcome" where
  "LexFileEnd s pos lx =
     carbon_check (pos = length s)
       (bind_outcome (current_line_info lx) (\<lambda>info.
          let back = (pos = line_start info \<and> lx_line_index lx \<noteq> 0);
              lx = (if back then lx\<lparr>lx_line_index := lx_line_index lx - 1\<rparr> else lx);
              pos = (if back then pos - 1 else pos)
          in bind_outcome (LexToken FileEnd pos (NoteWhitespace lx)) (\<lambda>(token, lx). Ret lx)))"

fun DispatchNext :: "nat \<Rightarrow> 'a lex_env \<Rightarrow> string \<Rightarrow> nat \<Rightarrow> 'a Lexer \<Rightarrow> 'a Lexer outcome option" where
  "DispatchNext 0 env s pos lx = None"
| "DispatchNext (Suc n) env s pos lx =
     (if pos < length s
      then case run_dispatch env (MakeDispatchTable (byte_of (s ! pos))) s pos lx of
             Fatal \<Rightarrow> Some Fatal
           | Ret (lx, pos) \<Rightarrow> DispatchNext n env s pos lx
      else Some (LexFileEnd s pos
             (if tb_dump_sem_ir_ranges (lx_buffer lx) \<noteq> []
              then EndDumpSemIRRangeIfIncomplete (length s - 1) lx else lx)))"

definition Reserve_identifiers :: "'a lex_env \<Rightarrow> 'a Lexer \<Rightarrow> 'a Lexer" where
  "Reserve_identifiers env lx =
     (let stores = tb_value_stores (lx_buffer lx) in
      lx\<lparr>lx_buffer := (lx_buffer lx)\<lparr>tb_value_stores := stores\<lparr>svs_identifiers :=
         Canonical_Reserve (env_string_layout env) (length (lx_lines lx)) (svs_identifiers stores)\<rparr>\<rparr>\<rparr>)"

text \<open>Lexing up to the end of the file, before brackets are repaired.\<close>

definition Lex_file :: "'a lex_env \<Rightarrow> 'a SharedValueStores \<Rightarrow> string \<Rightarrow> 'a Lexer outcome option" where
  "Lex_file env stores source =
     (if \<not> int (length source) < 2 ^ 31 - 1 then Some Fatal
      else let lx = Reserve_identifiers env (MakeLines source (Lexer_init stores source)) in
        case LexFileStart source 0 lx of
          Fatal \<Rightarrow> Some Fatal
        | Ret (lx, pos) \<Rightarrow> DispatchNext (length source + 1) env source pos lx)"

end
