(* ===== verification/Lexer_Lines.thy ===== *)
theory Lexer_Lines
  imports Lexer
begin

text \<open>
  Lines: what \<open>MakeLines\<close> builds, that the binary search finds the line of a byte, and the
  invariant that relates the lexer's position to its current line.
\<close>

section \<open>Line starts\<close>

text \<open>
  Each line begins after the newline that ends the line before it; the last entry may instead
  be the end of the text.
\<close>

fun line_chain :: "string \<Rightarrow> nat list \<Rightarrow> bool" where
  "line_chain s (x # y # r) \<longleftrightarrow> x < y \<and> y \<le> length s \<and> (\<forall>k. x \<le> k \<and> k + 1 < y \<longrightarrow> s ! k \<noteq> newline) \<and>
     (s ! (y - 1) = newline \<or> y = length s) \<and> line_chain s (y # r)"
| "line_chain s xs \<longleftrightarrow> True"

lemma find_newline_first:
  "find_str_from [newline] s i = Some e \<Longrightarrow> \<forall>k. i \<le> k \<and> k < e \<longrightarrow> s ! k \<noteq> newline"
proof (induction "[newline]" s i rule: find_str_from.induct)
  case (1 s i)
  show ?case
  proof (cases "starts_with (drop i s) [newline]")
    case True
    with "1.prems" show ?thesis by (auto simp: find_str_from.simps [of _ s i] split: if_splits)
  next
    case False
    then have i: "i < length s \<Longrightarrow> s ! i \<noteq> newline" by (auto simp: Cons_nth_drop_Suc [symmetric])
    from False "1.prems" have r: "\<not> length s < i" "find_str_from [newline] s (Suc i) = Some e"
      by (auto simp: find_str_from.simps [of _ s i] split: if_splits)
    have "e < length s" using find_newline(2) [OF r(2)] .
    show ?thesis
    proof (intro allI impI)
      fix k assume k: "i \<le> k \<and> k < e"
      show "s ! k \<noteq> newline"
        using "1.hyps" [OF r(1) False r(2)] i k \<open>e < length s\<close> by (cases "k = i") auto
    qed
  qed
qed

lemma find_newline_None:
  "find_str_from [newline] s i = None \<Longrightarrow> \<forall>k. i \<le> k \<and> k < length s \<longrightarrow> s ! k \<noteq> newline"
proof (induction "[newline]" s i rule: find_str_from.induct)
  case (1 s i)
  show ?case
  proof (cases "length s < i")
    case False
    with "1.prems" have r: "\<not> starts_with (drop i s) [newline]" "find_str_from [newline] s (Suc i) = None"
      by (auto simp: find_str_from.simps [of _ s i] split: if_splits)
    then have i: "i < length s \<Longrightarrow> s ! i \<noteq> newline" by (auto simp: Cons_nth_drop_Suc [symmetric])
    show ?thesis
    proof (intro allI impI)
      fix k assume k: "i \<le> k \<and> k < length s"
      show "s ! k \<noteq> newline" using "1.hyps" [OF False r] i k by (cases "k = i") auto
    qed
  qed auto
qed

lemma make_lines_chain:
  assumes "make_lines_loop s start = (lines, e)" "start \<le> length s"
  shows "line_chain s (map line_start lines @ e # (if e \<noteq> length s then [length s] else []))"
    "hd (map line_start lines @ [e]) = start" "e \<le> length s"
  using assms
proof (induction s start arbitrary: lines rule: make_lines_loop.induct)
  case (1 s start)
  {
    case 1
    show ?case
    proof (cases "find_str_from [newline] s start")
      case None
      with 1 have "lines = []" "e = start" by (auto simp: make_lines_loop.simps [of s start])
      with 1 find_newline_None [OF None] show ?thesis by auto
    next
      case (Some nl)
      obtain ls where ls: "make_lines_loop s (nl + 1) = (ls, e)" "lines = LineInfo_at start # ls"
        using 1 Some by (auto simp: make_lines_loop.simps [of s start] split: prod.splits)
      note nl = find_newline [OF Some] find_newline_first [OF Some]
      note IH = "1.IH" [OF Some ls(1)]
      have nl1: "nl + 1 \<le> length s" using nl(2) by simp
      obtain t where t: "map line_start ls @ [e] = (nl + 1) # t"
        using IH(2) [OF nl1] by (cases "map line_start ls @ [e]") auto
      define r where "r = (if e \<noteq> length s then [length s] else [])"
      have tail: "map line_start ls @ e # r = (nl + 1) # t @ r"
        using t by (metis append_Cons append_assoc append_Nil)
      then have all: "map line_start lines @ e # r = start # (nl + 1) # t @ r"
        using ls(2) by (simp add: LineInfo_at_def)
      show ?thesis
        unfolding r_def [symmetric] all using IH(1) [OF nl1, folded r_def, unfolded tail] nl by simp
    qed
  next
    case 2
    show ?case
      using 2 by (auto simp: make_lines_loop.simps [of s start] LineInfo_at_def split: option.splits prod.splits)
  next
    case 3
    show ?case
    proof (cases "find_str_from [newline] s start")
      case None
      with 3 show ?thesis by (auto simp: make_lines_loop.simps [of s start])
    next
      case (Some nl)
      obtain ls where ls: "make_lines_loop s (nl + 1) = (ls, e)"
        using 3 Some by (auto simp: make_lines_loop.simps [of s start] split: prod.splits)
      show ?thesis using "1.IH"(3) [OF Some ls] find_newline(2) [OF Some] by simp
    qed
  }
qed

definition line_starts :: "string \<Rightarrow> nat list" where
  "line_starts s = map line_start (MakeLines_list s)"

lemma line_starts_chain:
  "line_chain s (line_starts s)" "line_starts s \<noteq> []" "line_starts s ! 0 = 0" "last (line_starts s) = length s"
proof -
  obtain lines e where m: "make_lines_loop s 0 = (lines, e)" by fastforce
  note c = make_lines_chain [OF m]
  show "line_chain s (line_starts s)" "line_starts s \<noteq> []" "last (line_starts s) = length s"
    using c(1,3) m by (auto simp: line_starts_def MakeLines_list_def LineInfo_at_def)
  show "line_starts s ! 0 = 0"
    using c(2) m by (cases lines) (auto simp: line_starts_def MakeLines_list_def LineInfo_at_def)
qed

lemma line_chain_nth:
  "line_chain s xs \<Longrightarrow> i + 1 < length xs \<Longrightarrow>
     xs ! i < xs ! (i + 1) \<and> xs ! (i + 1) \<le> length s \<and>
     (\<forall>k. xs ! i \<le> k \<and> k + 1 < xs ! (i + 1) \<longrightarrow> s ! k \<noteq> newline) \<and>
     (s ! (xs ! (i + 1) - 1) = newline \<or> xs ! (i + 1) = length s)"
proof (induction s xs arbitrary: i rule: line_chain.induct)
  case (1 s x y r)
  then show ?case by (cases i) auto
qed auto

lemma line_starts_nth:
  assumes "i + 1 < length (line_starts s)"
  shows "line_starts s ! i < line_starts s ! (i + 1)" "line_starts s ! (i + 1) \<le> length s"
    "\<And>k. line_starts s ! i \<le> k \<Longrightarrow> k + 1 < line_starts s ! (i + 1) \<Longrightarrow> s ! k \<noteq> newline"
    "s ! (line_starts s ! (i + 1) - 1) = newline \<or> line_starts s ! (i + 1) = length s"
  using line_chain_nth [OF line_starts_chain(1) assms] by auto

lemma line_starts_less: "i < j \<Longrightarrow> j < length (line_starts s) \<Longrightarrow> line_starts s ! i < line_starts s ! j"
proof (induction j)
  case (Suc j)
  then show ?case using line_starts_nth(1) [of j s] by (cases "i = j") auto
qed simp

lemma line_starts_le_length: "i < length (line_starts s) \<Longrightarrow> line_starts s ! i \<le> length s"
  using line_starts_nth(2) [of "i - 1" s] line_starts_chain(3) [of s] by (cases i) auto

lemma line_starts_before_end:
  assumes "i < length (line_starts s)" "line_starts s ! i < length s"
  shows "i + 1 < length (line_starts s)"
proof (rule ccontr)
  assume "\<not> ?thesis"
  then have "i = length (line_starts s) - 1" using assms(1) by simp
  then have "line_starts s ! i = length s"
    using line_starts_chain(2,4) [of s] by (simp add: last_conv_nth)
  then show False using assms(2) by simp
qed

section \<open>The position and its line\<close>

definition line_ok :: "string \<Rightarrow> nat \<Rightarrow> nat \<Rightarrow> bool" where
  "line_ok s li pos \<longleftrightarrow> li < length (line_starts s) \<and> line_starts s ! li \<le> pos \<and>
     (pos < length s \<longrightarrow> li + 1 < length (line_starts s) \<and> pos < line_starts s ! (li + 1))"

lemma line_ok_advance:
  assumes "line_ok s li pos" "pos \<le> pos'" "\<And>k. pos \<le> k \<Longrightarrow> k < pos' \<Longrightarrow> s ! k \<noteq> newline"
  shows "line_ok s li pos'"
proof -
  have "li + 1 < length (line_starts s) \<and> pos' < line_starts s ! (li + 1)" if "pos' < length s"
  proof -
    have n: "li + 1 < length (line_starts s)" "pos < line_starts s ! (li + 1)"
      using assms(1,2) that by (auto simp: line_ok_def)
    have "pos' < line_starts s ! (li + 1)"
    proof (rule ccontr)
      assume le: "\<not> pos' < line_starts s ! (li + 1)"
      then have "s ! (line_starts s ! (li + 1) - 1) = newline" using line_starts_nth(4) [OF n(1)] that by auto
      moreover have "s ! (line_starts s ! (li + 1) - 1) \<noteq> newline"
        by (rule assms(3)) (use le n(2) in auto)
      ultimately show False by simp
    qed
    with n(1) show ?thesis by simp
  qed
  with assms(1,2) show ?thesis by (auto simp: line_ok_def)
qed

lemma line_ok_start: "j < length (line_starts s) \<Longrightarrow> line_ok s j (line_starts s ! j)"
  using line_starts_before_end [of j s] line_starts_nth(1) [of j s] by (auto simp: line_ok_def)

lemma SkipHorizontalWhitespace_props:
  "pos \<le> length s \<Longrightarrow> pos \<le> SkipHorizontalWhitespace s pos \<and> SkipHorizontalWhitespace s pos \<le> length s \<and>
     (\<forall>k. pos \<le> k \<and> k < SkipHorizontalWhitespace s pos \<longrightarrow> IsHorizontalWhitespace (s ! k))"
proof (induction s pos rule: SkipHorizontalWhitespace.induct)
  case (1 s pos)
  show ?case
  proof (cases "pos < length s \<and> (s ! pos = CHR '' '' \<or> s ! pos = tab)")
    case True
    with 1 have IH: "pos + 1 \<le> SkipHorizontalWhitespace s (pos + 1)"
        "SkipHorizontalWhitespace s (pos + 1) \<le> length s"
        "\<And>k. pos + 1 \<le> k \<Longrightarrow> k < SkipHorizontalWhitespace s (pos + 1) \<Longrightarrow> IsHorizontalWhitespace (s ! k)"
      by auto
    have eq: "SkipHorizontalWhitespace s pos = SkipHorizontalWhitespace s (pos + 1)"
      using True by (subst SkipHorizontalWhitespace.simps) simp
    have "IsHorizontalWhitespace (s ! k)" if "pos \<le> k" "k < SkipHorizontalWhitespace s (pos + 1)" for k
      using IH(3) [of k] that True by (cases "k = pos") (auto simp: IsHorizontalWhitespace_def)
    with IH(1,2) eq show ?thesis by auto
  next
    case False
    then have "SkipHorizontalWhitespace s pos = pos"
      by (subst SkipHorizontalWhitespace.simps) auto
    with "1.prems" show ?thesis by auto
  qed
qed

lemma SkipHorizontalWhitespace_grows:
  "pos < length s \<Longrightarrow> IsHorizontalWhitespace (s ! pos) \<Longrightarrow> pos < SkipHorizontalWhitespace s pos"
  using SkipHorizontalWhitespace_props [of "pos + 1" s]
  by (subst SkipHorizontalWhitespace.simps) (auto simp: IsHorizontalWhitespace_def)

lemma IsHorizontalWhitespace_not_newline: "IsHorizontalWhitespace c \<Longrightarrow> c \<noteq> newline"
  by (auto simp: IsHorizontalWhitespace_def special_chars)

lemma line_ok_skip:
  assumes "line_ok s li pos" "pos \<le> length s"
  shows "line_ok s li (SkipHorizontalWhitespace s pos)"
  using assms(1) SkipHorizontalWhitespace_props [OF assms(2)]
  by (auto intro!: line_ok_advance [of s li pos] dest: IsHorizontalWhitespace_not_newline)

section \<open>Finding the line of a byte\<close>

definition partition_at :: "('v \<Rightarrow> bool) \<Rightarrow> 'v list \<Rightarrow> nat \<Rightarrow> bool" where
  "partition_at P xs k \<longleftrightarrow> k \<le> length xs \<and> (\<forall>i < k. P (xs ! i)) \<and> (\<forall>i. k \<le> i \<and> i < length xs \<longrightarrow> \<not> P (xs ! i))"

lemma partition_loop_at:
  assumes mono: "\<And>i j. i \<le> j \<Longrightarrow> j < length xs \<Longrightarrow> P (xs ! j) \<Longrightarrow> P (xs ! i)"
  shows "first + len \<le> length xs \<Longrightarrow> \<forall>i < first. P (xs ! i) \<Longrightarrow>
     \<forall>i. first + len \<le> i \<and> i < length xs \<longrightarrow> \<not> P (xs ! i) \<Longrightarrow>
     partition_at P xs (partition_loop P xs first len)"
proof (induction len arbitrary: first rule: less_induct)
  case (less len)
  show ?case
  proof (cases "len = 0")
    case True
    with less.prems show ?thesis by (simp add: partition_at_def partition_loop.simps)
  next
    case False
    define half where "half = len div 2"
    have half: "half < len" using False by (simp add: half_def)
    show ?thesis
    proof (cases "P (xs ! (first + half))")
      case True
      have "\<forall>i < first + half + 1. P (xs ! i)"
        using mono [OF _ _ True] less.prems(1) half by simp
      then have "partition_at P xs (partition_loop P xs (first + half + 1) (len - half - 1))"
        using less.prems half by (intro less.IH) auto
      with True False show ?thesis by (subst partition_loop.simps) (simp add: half_def [symmetric] Let_def)
    next
      case neg: False
      have "\<forall>i. first + half \<le> i \<and> i < length xs \<longrightarrow> \<not> P (xs ! i)"
        using mono neg by blast
      then have "partition_at P xs (partition_loop P xs first half)"
        using less.prems half by (intro less.IH) auto
      with neg False show ?thesis by (subst partition_loop.simps) (simp add: half_def [symmetric] Let_def)
    qed
  qed
qed

lemma partition_point_at:
  assumes "\<And>i j. i \<le> j \<Longrightarrow> j < length xs \<Longrightarrow> P (xs ! j) \<Longrightarrow> P (xs ! i)"
  shows "partition_at P xs (partition_point P xs)"
  unfolding partition_point_def by (rule partition_loop_at) (use assms in auto)

definition newlines :: "string \<Rightarrow> nat" where
  "newlines s = length (filter (\<lambda>c. c = newline) s)"

lemma newlines_take_Suc:
  "i < length s \<Longrightarrow> newlines (take (Suc i) s) = newlines (take i s) + (if s ! i = newline then 1 else 0)"
  by (simp add: newlines_def take_Suc_conv_app_nth)

lemma newlines_take_plain:
  "i \<le> j \<Longrightarrow> j \<le> length s \<Longrightarrow> (\<And>k. i \<le> k \<Longrightarrow> k < j \<Longrightarrow> s ! k \<noteq> newline) \<Longrightarrow>
     newlines (take j s) = newlines (take i s)"
proof (induction j)
  case (Suc j)
  then show ?case by (cases "i = Suc j") (auto simp: newlines_take_Suc)
qed simp

text \<open>A line that does not begin at the end of the text is numbered by the newlines before it.\<close>

lemma newlines_line_start:
  "j < length (line_starts s) \<Longrightarrow> line_starts s ! j < length s \<Longrightarrow> newlines (take (line_starts s ! j) s) = j"
proof (induction j)
  case 0
  then show ?case by (simp add: line_starts_chain(3) newlines_def)
next
  case (Suc j)
  note n = line_starts_nth [of j s, simplified Suc_eq_plus1 [symmetric], OF Suc.prems(1)]
  obtain e where e: "line_starts s ! Suc j = Suc e" using n(1) by (cases "line_starts s ! Suc j") auto
  have "newlines (take (Suc e) s) = newlines (take e s) + 1"
    using n(4) e Suc.prems(2) by (simp add: newlines_take_Suc)
  also have "newlines (take e s) = newlines (take (line_starts s ! j) s)"
    using n(1-3) e by (intro newlines_take_plain) auto
  also have "\<dots> = j" using Suc n(1) by simp
  finally show ?case using e by simp
qed

lemma FindLineIndex_props:
  assumes "tb_source tb = s" "map line_start (tb_line_infos tb) = line_starts s" "off \<le> length s"
  obtains k where "FindLineIndex tb off = Ret k" "k < length (line_starts s)" "line_starts s ! k \<le> off"
    "off < length s \<Longrightarrow> line_ok s k off" "k \<noteq> 0 \<Longrightarrow> line_starts s ! k < length s"
proof -
  define lines where "lines = tb_line_infos tb"
  have start: "line_start (lines ! i) = line_starts s ! i" if "i < length (line_starts s)" for i
    using that assms(2) by (metis length_map lines_def nth_map)
  have len: "length lines = length (line_starts s)" using assms(2) by (metis length_map lines_def)
  have le: "line_starts s ! i \<le> line_starts s ! j" if "i \<le> j" "j < length (line_starts s)" for i j
    using line_starts_less [of i j s] that by (cases "i = j") auto
  define it where "it = partition_point (\<lambda>l. line_start l \<le> off) lines"
  have "partition_at (\<lambda>l. line_start l \<le> off) lines it"
    unfolding it_def by (rule partition_point_at) (use le len start in \<open>auto intro: le_trans\<close>)
  then have it: "it \<le> length lines" "\<And>i. i < it \<Longrightarrow> line_starts s ! i \<le> off"
      "\<And>i. it \<le> i \<Longrightarrow> i < length lines \<Longrightarrow> off < line_starts s ! i"
    using start len by (auto simp: partition_at_def not_le)
  have it0: "0 < it" using it(3) [of 0] line_starts_chain(2,3) [of s] len by (cases it) auto
  define k where "k = (if it - 1 \<noteq> 0 \<and> line_starts s ! (it - 1) = length s then it - 2 else it - 1)"
  have klen: "k < length (line_starts s)" "k \<le> it - 1" using it(1) it0 len by (auto simp: k_def)
  have kle: "line_starts s ! k \<le> off" using it(2) [of k] klen it0 by simp
  have eq: "FindLineIndex tb off = Ret k"
    using it0 it(1) kle klen start len
    by (auto simp: FindLineIndex_def lines_def [symmetric] it_def [symmetric] Let_def k_def assms(1)
        carbon_check_def numeral_2_eq_2 split: if_splits)
  have "line_ok s k off" if "off < length s"
  proof -
    have "line_starts s ! (it - 1) \<noteq> length s" using it(2) [of "it - 1"] it0 that by auto
    then have k: "k = it - 1" by (simp add: k_def)
    have "it < length (line_starts s)"
      using line_starts_before_end [OF klen(1)] kle that it0 k by simp
    then show ?thesis using it(3) [of it] it0 k klen kle len by (simp add: line_ok_def)
  qed
  moreover have "line_starts s ! k < length s" if "k \<noteq> 0"
  proof (cases "line_starts s ! (it - 1) = length s")
    case True
    then show ?thesis using that line_starts_less [of k "it - 1" s] it(1) it0 len by (auto simp: k_def split: if_splits)
  next
    case False
    then show ?thesis using that klen line_starts_le_length [OF klen(1)] by (auto simp: k_def split: if_splits)
  qed
  ultimately show thesis using that [OF eq klen(1) kle] by blast
qed

text \<open>
  C17. The binary search for the line of a byte finds it: its index is the number of newlines
  before the byte, and it begins right after the last of them. The search passes its checks
  for every offset up to the end of the text, and never returns the line that is only added
  to mark the end.
\<close>

theorem find_line_index_correct:
  assumes "tb_source tb = s" "tb_line_infos tb = MakeLines_list s" "off \<le> length s"
  shows "\<exists>k. FindLineIndex tb off = Ret k \<and> k < length (MakeLines_list s) \<and>
    line_start (MakeLines_list s ! k) \<le> off \<and>
    (k \<noteq> 0 \<longrightarrow> line_start (MakeLines_list s ! k) < length s) \<and>
    (off < length s \<longrightarrow> k = newlines (take off s) \<and>
      newline \<notin> set (take (off - line_start (MakeLines_list s ! k)) (drop (line_start (MakeLines_list s ! k)) s)))"
proof -
  have m: "map line_start (tb_line_infos tb) = line_starts s" using assms(2) by (simp add: line_starts_def)
  obtain k where k: "FindLineIndex tb off = Ret k" "k < length (line_starts s)" "line_starts s ! k \<le> off"
    "off < length s \<Longrightarrow> line_ok s k off" "k \<noteq> 0 \<Longrightarrow> line_starts s ! k < length s"
    by (rule FindLineIndex_props [OF assms(1) m assms(3)]) blast
  have start: "line_start (MakeLines_list s ! k) = line_starts s ! k" "k < length (MakeLines_list s)"
    using k(2) by (auto simp: line_starts_def)
  have plain: "s ! j \<noteq> newline" if "off < length s" "line_starts s ! k \<le> j" "j < off" for j
    using k(4) [OF that(1)] line_starts_nth(3) [of k s j] that by (auto simp: line_ok_def)
  have "k = newlines (take off s)" if "off < length s"
    using newlines_take_plain [of "line_starts s ! k" off s] newlines_line_start [OF k(2)] plain [OF that] k(3) that by simp
  moreover have "newline \<notin> set (take (off - line_starts s ! k) (drop (line_starts s ! k) s))" if "off < length s"
    using plain [OF that] k(3) that by (auto simp: in_set_conv_nth)
  ultimately show ?thesis using k start by auto
qed

text \<open>Empty stores, and an environment, for the witnesses.\<close>

definition example_stores :: "bool list SharedValueStores" where
  "example_stores = \<lparr>svs_ints = example_ints, svs_reals = ValueStore_empty untagged,
     svs_identifiers = Canonical_empty untagged, svs_string_literal_values = Canonical_empty untagged\<rparr>"

definition example_env :: "bool list lex_env" where
  "example_env = \<lparr>env_apint = apint_bits, env_to_utf8 = utf8_encode, env_from_utf8 = ascii_decode,
     env_int_layout = example_layout, env_real_layout = example_layout, env_string_layout = example_layout,
     env_use_simd = True\<rparr>"

definition two_line_buffer :: "bool list TokenizedBuffer" where
  "two_line_buffer = (TokenizedBuffer_init example_stores [CHR ''a'', newline, CHR ''b''])
     \<lparr>tb_line_infos := MakeLines_list [CHR ''a'', newline, CHR ''b'']\<rparr>"

theorem find_line_index_correct_witness: "FindLineIndex two_line_buffer 2 = Ret 1"
proof -
  have "newlines (take 2 [CHR ''a'', newline, CHR ''b'']) = 1"
    by (simp add: newlines_def newline_def)
  with find_line_index_correct [of two_line_buffer "[CHR ''a'', newline, CHR ''b'']" 2]
  show ?thesis by (auto simp: two_line_buffer_def TokenizedBuffer_init_def)
qed

end
