(* ===== verification/Lexer_Stores.thy ===== *)
theory Lexer_Stores
  imports Lexer_Lines
begin

text \<open>
  The value stores as the lexer uses them: each store accepts one more entry, what it returned
  before stays valid, and every id fits the payload of a token while there are fewer than
  \<open>2 ^ 21\<close> entries.
\<close>

section \<open>Canonical strings\<close>

lemma canon_add_one:
  assumes "canon_ok L key c" "vs_size (cs_values c) < 2 ^ 30"
  obtains c' i new where "Canonical_Add L key v c = Ret (id_of (cs_values c) i, c')" "canon_ok L key c'"
    "i < length (canon_vals c')" "key (canon_vals c' ! i) = key v" "canon_vals c' = canon_vals c @ new"
    "length new \<le> 1" "id_of (cs_values c') = id_of (cs_values c)"
proof -
  obtain c' i new where c: "Canonical_Add L key v c = Ret (id_of (cs_values c) i, c')" "canon_ok L key c'"
    "i < length (canon_vals c')" "key (canon_vals c' ! i) = key v" "canon_vals c' = canon_vals c @ new"
    "set new \<subseteq> {v}" "id_of (cs_values c') = id_of (cs_values c)"
    using canon.add_place [OF assms, of v] by metis
  have "distinct new" using c(2,5) by (auto simp: canon_ok_def distinct_map)
  then have "length new \<le> 1" using c(6) distinct_card card_mono [of "{v}" "set new"] by fastforce
  with c that show thesis by blast
qed

definition strings_ok :: "store_layout \<Rightarrow> nat \<Rightarrow> string CanonicalValueStore \<Rightarrow> bool" where
  "strings_ok L m c \<longleftrightarrow> canon_ok L (\<lambda>s. s) c \<and> (\<forall>k < 2 ^ 30. id_of (cs_values c) k = word_of_nat k) \<and>
     length (canon_vals c) \<le> m"

lemma strings_ok_mono: "strings_ok L m c \<Longrightarrow> m \<le> n \<Longrightarrow> strings_ok L n c"
  by (simp add: strings_ok_def)

lemma strings_get:
  assumes "strings_ok L m c" "j < length (canon_vals c)"
  shows "Canonical_Get L c (word_of_nat j) = Ret (canon_vals c ! j)"
proof -
  have "length (canon_vals c) \<le> 2 ^ 30" using assms(1) by (simp add: strings_ok_def canon_ok_def store_ok_def)
  then have "id_of (cs_values c) j = word_of_nat j" using assms by (simp add: strings_ok_def)
  with canon.get_law [of L "\<lambda>s. s" c j] assms show ?thesis by (simp add: strings_ok_def)
qed

lemma strings_add:
  assumes "strings_ok L m c" "m < 2 ^ 30"
  obtains c' i new where "Canonical_Add L (\<lambda>s. s) v c = Ret (word_of_nat i, c')" "strings_ok L (m + 1) c'"
    "i \<le> m" "i < length (canon_vals c')" "canon_vals c' ! i = v" "canon_vals c' = canon_vals c @ new"
proof -
  have c: "canon_ok L (\<lambda>s. s) c" "length (canon_vals c) \<le> m"
      "\<And>k. k < 2 ^ 30 \<Longrightarrow> id_of (cs_values c) k = word_of_nat k"
    using assms(1) by (auto simp: strings_ok_def)
  have room: "vs_size (cs_values c) < 2 ^ 30"
    using c(1,2) assms(2) by (simp add: canon_ok_def store_ok_def)
  obtain c' i new where a: "Canonical_Add L (\<lambda>s. s) v c = Ret (id_of (cs_values c) i, c')" "canon_ok L (\<lambda>s. s) c'"
    "i < length (canon_vals c')" "canon_vals c' ! i = v" "canon_vals c' = canon_vals c @ new"
    "length new \<le> 1" "id_of (cs_values c') = id_of (cs_values c)"
    using canon_add_one [OF c(1) room] .
  have i: "i \<le> m" using a(3,5,6) c(2) by simp
  then have "id_of (cs_values c) i = word_of_nat i" using c(3) assms(2) by simp
  moreover have "strings_ok L (m + 1) c'" using a c by (simp add: strings_ok_def)
  ultimately show thesis using that a i by simp
qed

lemma strings_reserve:
  assumes "strings_ok L m c"
  shows "strings_ok L m (Canonical_Reserve L n c)" "canon_vals (Canonical_Reserve L n c) = canon_vals c"
proof -
  have s: "store_ok L (cs_values c)" using assms by (simp add: strings_ok_def canon_ok_def)
  note r = ValueStore_Reserve_spec [OF s, of n]
  have "id_of (ValueStore_Reserve L n (cs_values c)) = id_of (cs_values c)"
    using r by (simp add: id_of_def fun_eq_iff)
  with r assms show "strings_ok L m (Canonical_Reserve L n c)"
      "canon_vals (Canonical_Reserve L n c) = canon_vals c"
    by (auto simp: strings_ok_def canon_ok_def Canonical_Reserve_def)
qed

section \<open>Integers\<close>

definition ints_ok :: "'a lex_env \<Rightarrow> ('a \<Rightarrow> int) \<Rightarrow> nat \<Rightarrow> 'a IntStore \<Rightarrow> bool" where
  "ints_ok env uval m s \<longleftrightarrow> int_ok (env_apint env) uval (env_int_layout env) s \<and> length (large_ints s) \<le> m"

lemma add_ap_one:
  assumes "int_ok A uval L s" "int_room s" "add_ap L x s = Ret (i, s')"
  shows "length (large_ints s') \<le> length (large_ints s) + 1"
proof -
  have "canon_ok L (\<lambda>x. x) (is_values s)" "vs_size (cs_values (is_values s)) < 2 ^ 30"
    using assms(1,2) by (auto simp: int_ok_def int_room_def)
  from canon_add_one [OF this, of x] obtain c' k new where c:
    "Canonical_Add L (\<lambda>x. x) x (is_values s) = Ret (k, c')" "canon_vals c' = large_ints s @ new" "length new \<le> 1"
    by metis
  with assms(3) show ?thesis by (auto simp: add_ap_def bind_outcome_Ret_iff)
qed

lemma add_source_one:
  assumes "int_ok A uval L s" "int_room s" "add_source A L src s = Ret (i, s')"
  shows "length (large_ints s') \<le> length (large_ints s) + 1"
  using assms(3) add_ap_one [OF assms(1,2), of _ i s']
  by (cases src) (auto simp: Let_def IntStore_Add_def AddAPSInt_def AddSigned_def AddUnsigned_def
      AddLarge_def AddSignedLarge_def AddUnsignedLarge_def split: if_splits)

lemma valid_id_payload:
  assumes "valid_id s i" "length (large_ints s) \<le> 2 ^ 21"
  shows "AsTokenPayload i = Ret i"
proof -
  have "- (2 ^ 22) \<le> sint i \<and> sint i < 2 ^ 22"
  proof (cases "- (2 ^ 21) < sint i \<and> sint i < 2 ^ 22")
    case False
    then obtain k where k: "k < length (large_ints s)" "i = word_of_int (- (2 ^ 21) - int k)"
      using assms(1) by (auto simp: valid_id_def)
    then show ?thesis using sint_index_id [of k] assms(2) by simp
  qed simp
  with MakeFromTokenPayload_eq [of i i] show ?thesis by (simp add: AsTokenPayload_def)
qed

lemma ints_add:
  assumes "apint (env_apint env) uval" "ints_ok env uval m s" "m < 2 ^ 21" "source_ok (env_apint env) src"
  obtains i s' where "add_source (env_apint env) (env_int_layout env) src s = Ret (i, s')"
    "ints_ok env uval (m + 1) s'" "AsTokenPayload i = Ret i"
    "denotes (env_apint env) uval (env_int_layout env) s' i (source_value (env_apint env) uval src)"
proof -
  have ok: "int_ok (env_apint env) uval (env_int_layout env) s" "length (large_ints s) \<le> m"
    using assms(2) by (auto simp: ints_ok_def)
  then have room: "int_room s" using assms(3) by (simp add: int_room_def int_ok_def canon_ok_def store_ok_def)
  obtain i s' where i: "add_source (env_apint env) (env_int_layout env) src s = Ret (i, s')"
    "int_ok (env_apint env) uval (env_int_layout env) s'"
    "denotes (env_apint env) uval (env_int_layout env) s' i (source_value (env_apint env) uval src)"
    using apint.add_source_denotes [OF assms(1) ok(1) room assms(4)] by blast
  have len: "length (large_ints s') \<le> m + 1" using add_source_one [OF ok(1) room i(1)] ok(2) by simp
  have "AsTokenPayload i = Ret i"
    using i(3) len assms(3) by (intro valid_id_payload [of s']) (auto simp: denotes_def)
  with i len that show thesis by (simp add: ints_ok_def)
qed

section \<open>Reals\<close>

definition reals_ok :: "store_layout \<Rightarrow> nat \<Rightarrow> 'v ValueStore \<Rightarrow> bool" where
  "reals_ok L m s \<longleftrightarrow> store_ok L s \<and> length (contents s) \<le> m"

lemma reals_add:
  assumes "reals_ok L m s" "m < 2 ^ 30"
  obtains i s' where "ValueStore_Add L v s = Ret (i, s')" "reals_ok L (m + 1) s'"
proof -
  have "store_ok L s" "vs_size s < 2 ^ 30" using assms by (auto simp: reals_ok_def store_ok_def)
  from ValueStore_Add_spec [OF this, of v] assms(1) that show thesis by (auto simp: reals_ok_def)
qed

section \<open>All stores\<close>

definition stores_ok :: "'a lex_env \<Rightarrow> ('a \<Rightarrow> int) \<Rightarrow> nat \<Rightarrow> 'a SharedValueStores \<Rightarrow> bool" where
  "stores_ok env uval m st \<longleftrightarrow> ints_ok env uval m (svs_ints st) \<and> reals_ok (env_real_layout env) m (svs_reals st) \<and>
     strings_ok (env_string_layout env) m (svs_identifiers st) \<and>
     strings_ok (env_string_layout env) m (svs_string_literal_values st)"

lemma stores_ok_mono: "stores_ok env uval m st \<Longrightarrow> m \<le> n \<Longrightarrow> stores_ok env uval n st"
  by (simp add: stores_ok_def ints_ok_def reals_ok_def strings_ok_def)

abbreviation identifier_vals :: "'a SharedValueStores \<Rightarrow> string list" where
  "identifier_vals st \<equiv> canon_vals (svs_identifiers st)"

lemma example_stores_ok: "stores_ok example_env bits_uval 0 example_stores"
proof -
  have L: "layout_ok example_layout" "tag_ok untagged"
    by (simp_all add: layout_ok_def example_layout_def tag_ok_def untagged_def)
  have "ints_ok example_env bits_uval 0 example_ints"
    using example_ints_ok
    by (simp add: ints_ok_def example_env_def)
      (simp add: example_ints_def Canonical_empty_def ValueStore_empty_def contents_def)
  moreover have "strings_ok example_layout 0 (Canonical_empty untagged)"
    using canon_ok_empty [OF L]
    by (auto simp: strings_ok_def Canonical_empty_def ValueStore_empty_def contents_def intro!: untagged_ids)
  moreover have "reals_ok example_layout 0 (ValueStore_empty untagged)"
    using store_ok_empty [OF L] by (simp add: reals_ok_def) (simp add: ValueStore_empty_def contents_def)
  ultimately show ?thesis by (simp add: stores_ok_def example_stores_def example_env_def)
qed

end
