(* ===== verification/Lexer_Tokens.thy ===== *)
theory Lexer_Tokens
  imports Lexer_Stores
begin

text \<open>
  What the tokens of a lexer look like at any time: the text of each is found in the source at
  its offset, the bytes between two tokens are blank or belong to a comment, and the matched
  groups refer to each other and nest. This theory states it of lists of tokens and shows what
  adding a token, opening a group and closing one keep of it.
\<close>

section \<open>Tokens and their texts\<close>

definition tok_ok :: "'a lex_env \<Rightarrow> 'a TokenizedBuffer \<Rightarrow> TokenInfo \<Rightarrow> string \<Rightarrow> bool" where
  "tok_ok env tb ti w \<longleftrightarrow> info_text env tb ti = Ret w \<and> starts_with (drop (ti_byte_offset ti) (tb_source tb)) w \<and>
     (w = [] \<longleftrightarrow> ti_kind ti \<in> {FileStart, FileEnd}) \<and>
     (ti_kind ti = Identifier \<longrightarrow>
       (\<exists>j < length (identifier_vals (tb_value_stores tb)). ti_payload ti = Some (word_of_nat j)))"

definition blank :: "char \<Rightarrow> bool" where
  "blank c \<longleftrightarrow> c = CHR '' '' \<or> c = tab \<or> c = newline \<or> c = carriage_return"

definition in_comment :: "'a TokenizedBuffer \<Rightarrow> nat \<Rightarrow> bool" where
  "in_comment tb k \<longleftrightarrow> (\<exists>c \<in> set (tb_comments tb). comment_start c \<le> k \<and> k < comment_start c + comment_length c)"

definition comments_ok :: "'a TokenizedBuffer \<Rightarrow> bool" where
  "comments_ok tb \<longleftrightarrow> (\<forall>c \<in> set (tb_comments tb). starts_with (drop (comment_start c) (tb_source tb)) ''//'' \<and>
     comment_start c + comment_length c \<le> length (tb_source tb))"

definition gap :: "'a TokenizedBuffer \<Rightarrow> nat \<Rightarrow> nat \<Rightarrow> bool" where
  "gap tb a b \<longleftrightarrow> a \<le> b \<and> (\<forall>k. a \<le> k \<and> k < b \<longrightarrow> blank (tb_source tb ! k) \<or> in_comment tb k)"

lemma gap_refl [simp]: "gap tb a a"
  by (auto simp: gap_def)

lemma gap_trans: "gap tb a b \<Longrightarrow> gap tb b c \<Longrightarrow> gap tb a c"
  by (auto simp: gap_def) (meson not_le)

lemma gap_shorter: "gap tb a b \<Longrightarrow> a \<le> c \<Longrightarrow> c \<le> b \<Longrightarrow> gap tb a c"
  by (auto simp: gap_def)

text \<open>A reversed list of tokens: each ends where the next begins, but for a gap.\<close>

fun ends_before :: "'a lex_env \<Rightarrow> 'a TokenizedBuffer \<Rightarrow> TokenInfo list \<Rightarrow> nat \<Rightarrow> bool" where
  "ends_before env tb [] pos \<longleftrightarrow> True"
| "ends_before env tb (t # ts) pos \<longleftrightarrow>
     (\<exists>w. tok_ok env tb t w \<and> gap tb (ti_byte_offset t + length w) pos) \<and> ends_before env tb ts (ti_byte_offset t)"

lemma ends_before_cong:
  assumes "list_all2 (\<lambda>t t'. ti_byte_offset t' = ti_byte_offset t \<and> (\<forall>w. tok_ok env tb t w \<longrightarrow> tok_ok env tb' t' w)) ts ts'"
    and "\<And>a b. gap tb a b \<Longrightarrow> gap tb' a b"
  shows "ends_before env tb ts pos \<Longrightarrow> ends_before env tb' ts' pos"
  using assms(1)
proof (induction arbitrary: pos rule: list_all2_induct)
  case (Cons t ts t' ts')
  then show ?case using assms(2) by fastforce
qed simp

text \<open>The text of a token depends on the source and the identifiers only.\<close>

lemma ident_id_word:
  assumes "ti_kind ti = Identifier" "ti_payload ti = Some (word_of_nat j)" "j < 2 ^ 23"
  shows "ident_id ti = Ret (word_of_nat j)"
  using assms by (simp add: ident_id_def token_payload_def)
    (simp add: unsigned_of_nat take_bit_nat_eq_self)

definition extends_ids :: "'a SharedValueStores \<Rightarrow> 'a SharedValueStores \<Rightarrow> bool" where
  "extends_ids st st' \<longleftrightarrow> (\<exists>new. identifier_vals st' = identifier_vals st @ new)"

lemma extends_ids_refl [simp]: "extends_ids st st"
  by (simp add: extends_ids_def)

lemma identifier_of_payload:
  assumes "stores_ok env uval m (tb_value_stores tb)" "m < 2 ^ 23" "ti_kind ti = Identifier"
    "j < length (identifier_vals (tb_value_stores tb))" "ti_payload ti = Some (word_of_nat j)"
  shows "ident_id ti = Ret (word_of_nat j)"
    "identifier_get env tb (word_of_nat j) = Ret (identifier_vals (tb_value_stores tb) ! j)"
proof -
  have s: "strings_ok (env_string_layout env) m (svs_identifiers (tb_value_stores tb))"
    using assms(1) by (simp add: stores_ok_def)
  then have "j < 2 ^ 23" using assms(2,4) by (simp add: strings_ok_def)
  with ident_id_word [OF assms(3,5)] show "ident_id ti = Ret (word_of_nat j)" by simp
  show "identifier_get env tb (word_of_nat j) = Ret (identifier_vals (tb_value_stores tb) ! j)"
    by (rule strings_get [OF s assms(4)])
qed

lemma tok_ok_frame:
  assumes "tok_ok env tb ti w" "tb_source tb' = tb_source tb"
    "extends_ids (tb_value_stores tb) (tb_value_stores tb')"
    "stores_ok env uval m (tb_value_stores tb)" "stores_ok env uval m' (tb_value_stores tb')" "m < 2 ^ 23" "m' < 2 ^ 23"
  shows "tok_ok env tb' ti w"
proof (cases "ti_kind ti = Identifier")
  case False
  then show ?thesis
    using assms(1,2) by (auto simp: tok_ok_def info_text_def Let_def carbon_check_def split: if_splits)
next
  case True
  then obtain j where j: "j < length (identifier_vals (tb_value_stores tb))" "ti_payload ti = Some (word_of_nat j)"
    using assms(1) by (auto simp: tok_ok_def)
  obtain new where new: "identifier_vals (tb_value_stores tb') = identifier_vals (tb_value_stores tb) @ new"
    using assms(3) by (auto simp: extends_ids_def)
  then have j': "j < length (identifier_vals (tb_value_stores tb'))" using j(1) by simp
  note i = identifier_of_payload [OF assms(4,6) True j]
  note i' = identifier_of_payload [OF assms(5,7) True j' j(2)]
  have get: "identifier_get env tb' (word_of_nat j) = identifier_get env tb (word_of_nat j)"
    using i(2) i'(2) j(1) new by (simp add: nth_append)
  have "info_is_raw env tb' ti = info_is_raw env tb ti"
    using True i(1) get assms(2) by (simp add: info_is_raw_def Let_def)
  then have "info_text env tb' ti = info_text env tb ti"
    using True i(1) get assms(2) by (simp add: info_text_def Let_def)
  with assms(1,2) True j j' show ?thesis by (auto simp: tok_ok_def)
qed

section \<open>Groups\<close>

definition closes :: "TokenInfo list \<Rightarrow> nat \<Rightarrow> nat \<Rightarrow> bool" where
  "closes ts i j \<longleftrightarrow> i < j \<and> j < length ts \<and> opening_symbol (ti_kind (ts ! j)) = Ret (ti_kind (ts ! i)) \<and>
     ti_payload (ts ! j) = Some (word_of_nat i) \<and> ti_payload (ts ! i) = Some (word_of_nat j)"

definition groups_ok :: "TokenInfo list \<Rightarrow> nat list \<Rightarrow> bool" where
  "groups_ok ts og \<longleftrightarrow>
     (\<forall>j < length ts. is_closing_symbol (ti_kind (ts ! j)) \<longrightarrow> (\<exists>i. closes ts i j)) \<and>
     (\<forall>i < length ts. is_opening_symbol (ti_kind (ts ! i)) \<longrightarrow> i \<in> set og \<or> (\<exists>j. closes ts i j)) \<and>
     (\<forall>i j i' j'. closes ts i j \<and> closes ts i' j' \<and> i < i' \<and> i' < j \<longrightarrow> j' < j) \<and>
     (\<forall>g \<in> set og. \<forall>i j. closes ts i j \<longrightarrow> \<not> (i \<le> g \<and> g < j))"

lemma groups_okI:
  assumes "\<And>j. j < length ts \<Longrightarrow> is_closing_symbol (ti_kind (ts ! j)) \<Longrightarrow> \<exists>i. closes ts i j"
    "\<And>i. i < length ts \<Longrightarrow> is_opening_symbol (ti_kind (ts ! i)) \<Longrightarrow> i \<in> set og \<or> (\<exists>j. closes ts i j)"
    "\<And>i j i' j'. closes ts i j \<Longrightarrow> closes ts i' j' \<Longrightarrow> i < i' \<Longrightarrow> i' < j \<Longrightarrow> j' < j"
    "\<And>g i j. g \<in> set og \<Longrightarrow> closes ts i j \<Longrightarrow> i \<le> g \<Longrightarrow> g < j \<Longrightarrow> False"
  shows "groups_ok ts og"
  unfolding groups_ok_def
proof (intro conjI allI impI ballI notI, goal_cases)
  case (1 j) then show ?case by (rule assms(1))
next
  case (2 i) then show ?case by (rule assms(2))
next
  case (3 i j i' j') then show ?case using assms(3) [of i j i' j'] by simp
next
  case (4 g i j) then show ?case using assms(4) [of g i j] by simp
qed

lemma groups_okD:
  assumes "groups_ok ts og"
  shows "j < length ts \<Longrightarrow> is_closing_symbol (ti_kind (ts ! j)) \<Longrightarrow> \<exists>i. closes ts i j"
    "i < length ts \<Longrightarrow> is_opening_symbol (ti_kind (ts ! i)) \<Longrightarrow> i \<in> set og \<or> (\<exists>j. closes ts i j)"
    "closes ts i j \<Longrightarrow> closes ts i' j' \<Longrightarrow> i < i' \<Longrightarrow> i' < j \<Longrightarrow> j' < j"
    "g \<in> set og \<Longrightarrow> closes ts i j \<Longrightarrow> i \<le> g \<Longrightarrow> g < j \<Longrightarrow> False"
proof -
  note a = assms [unfolded groups_ok_def]
  note a1 = a [THEN conjunct1] and a2 = a [THEN conjunct2, THEN conjunct1]
    and a3 = a [THEN conjunct2, THEN conjunct2, THEN conjunct1] and a4 = a [THEN conjunct2, THEN conjunct2, THEN conjunct2]
  show "j < length ts \<Longrightarrow> is_closing_symbol (ti_kind (ts ! j)) \<Longrightarrow> \<exists>i. closes ts i j" by (rule a1 [rule_format])
  show "i < length ts \<Longrightarrow> is_opening_symbol (ti_kind (ts ! i)) \<Longrightarrow> i \<in> set og \<or> (\<exists>j. closes ts i j)"
    by (rule a2 [rule_format])
  show "closes ts i j \<Longrightarrow> closes ts i' j' \<Longrightarrow> i < i' \<Longrightarrow> i' < j \<Longrightarrow> j' < j" by (rule a3 [rule_format]) simp
  show "g \<in> set og \<Longrightarrow> closes ts i j \<Longrightarrow> i \<le> g \<Longrightarrow> g < j \<Longrightarrow> False" using a4 [rule_format, of g i j] by simp
qed

definition opens_ok :: "TokenInfo list \<Rightarrow> nat list \<Rightarrow> bool" where
  "opens_ok ts og \<longleftrightarrow> sorted_wrt (>) og \<and> (\<forall>g \<in> set og. g < length ts \<and> is_opening_symbol (ti_kind (ts ! g)))"

abbreviation groupless :: "TokenInfo \<Rightarrow> bool" where
  "groupless t \<equiv> \<not> is_grouping_symbol (ti_kind t)"

lemma opening_symbol_kinds:
  "opening_symbol k = Ret k' \<Longrightarrow> is_closing_symbol k \<and> is_opening_symbol k'"
  by (auto simp: opening_symbol_def OpeningSymbol_def carbon_check_def split: if_splits)

lemma opening_closing_exclusive: "is_opening_symbol k \<Longrightarrow> \<not> is_closing_symbol k"
  by (cases k) auto

lemma closes_kinds:
  "closes ts i j \<Longrightarrow> is_closing_symbol (ti_kind (ts ! j)) \<and> is_opening_symbol (ti_kind (ts ! i)) \<and> i < j \<and> j < length ts"
  using opening_symbol_kinds by (auto simp: closes_def)

text \<open>Lists that agree on group symbols, the longer one adding no closing symbol, close alike.\<close>

definition group_agree :: "TokenInfo list \<Rightarrow> TokenInfo list \<Rightarrow> bool" where
  "group_agree ts ts' \<longleftrightarrow> length ts \<le> length ts' \<and>
     (\<forall>k < length ts. ts' ! k = ts ! k \<or> groupless (ts' ! k) \<and> groupless (ts ! k))"

lemma group_agree_at:
  assumes "group_agree ts ts'" "k < length ts" "is_grouping_symbol (ti_kind (ts ! k)) \<or> is_grouping_symbol (ti_kind (ts' ! k))"
  shows "ts' ! k = ts ! k"
  using assms by (auto simp: group_agree_def)

lemma closes_agree:
  assumes "group_agree ts ts'" "\<And>k. length ts \<le> k \<Longrightarrow> k < length ts' \<Longrightarrow> \<not> is_closing_symbol (ti_kind (ts' ! k))"
  shows "closes ts' i j \<longleftrightarrow> closes ts i j"
proof
  assume c: "closes ts' i j"
  note k = closes_kinds [OF c]
  have j: "j < length ts" using assms(2) [of j] k by (cases "j < length ts") auto
  then have "ts' ! j = ts ! j" "ts' ! i = ts ! i"
    using group_agree_at [OF assms(1), of j] group_agree_at [OF assms(1), of i] k by (auto simp: is_grouping_symbol_def)
  with c j show "closes ts i j" by (simp add: closes_def)
next
  assume c: "closes ts i j"
  note k = closes_kinds [OF c]
  then have "ts' ! j = ts ! j" "ts' ! i = ts ! i"
    using group_agree_at [OF assms(1), of j] group_agree_at [OF assms(1), of i] by (auto simp: is_grouping_symbol_def)
  with c assms(1) show "closes ts' i j" by (simp add: closes_def group_agree_def)
qed

lemma groups_ok_agree:
  assumes "groups_ok ts og" "group_agree ts ts'" "\<And>k. length ts \<le> k \<Longrightarrow> k < length ts' \<Longrightarrow> groupless (ts' ! k)"
  shows "groups_ok ts' og"
proof -
  have c: "closes ts' i j \<longleftrightarrow> closes ts i j" for i j
    by (rule closes_agree [OF assms(2)]) (use assms(3) in \<open>auto simp: is_grouping_symbol_def\<close>)
  have k: "k < length ts \<and> ts' ! k = ts ! k" if "k < length ts'" "is_grouping_symbol (ti_kind (ts' ! k))" for k
    using assms(3) [of k] group_agree_at [OF assms(2), of k] that by (cases "k < length ts") auto
  note g = groups_okD [OF assms(1)]
  show ?thesis
  proof (rule groups_okI, unfold c)
    show "\<exists>i. closes ts i j" if "j < length ts'" "is_closing_symbol (ti_kind (ts' ! j))" for j
      using g(1) [of j] k [of j] that by (simp add: is_grouping_symbol_def)
    show "i \<in> set og \<or> (\<exists>j. closes ts i j)" if "i < length ts'" "is_opening_symbol (ti_kind (ts' ! i))" for i
      using g(2) [of i] k [of i] that by (simp add: is_grouping_symbol_def)
  qed (rule g(3) g(4), assumption+)+
qed

lemma opens_ok_agree:
  assumes "opens_ok ts og" "group_agree ts ts'"
  shows "opens_ok ts' og"
proof -
  have "g < length ts' \<and> is_opening_symbol (ti_kind (ts' ! g))" if "g \<in> set og" for g
    using that assms(1) group_agree_at [OF assms(2), of g] assms(2)
    by (auto simp: opens_ok_def is_grouping_symbol_def group_agree_def)
  then show ?thesis using assms(1) by (simp add: opens_ok_def)
qed

lemma opens_ok_open:
  assumes "opens_ok ts og" "is_opening_symbol (ti_kind t)"
  shows "opens_ok (ts @ [t]) (length ts # og)"
  using assms by (auto simp: opens_ok_def nth_append)

lemma groups_ok_open:
  assumes "groups_ok ts og" "is_opening_symbol (ti_kind t)"
  shows "groups_ok (ts @ [t]) (length ts # og)"
proof -
  have c: "closes (ts @ [t]) i j \<longleftrightarrow> closes ts i j" for i j
    by (rule closes_agree) (use assms(2) opening_closing_exclusive in \<open>auto simp: nth_append group_agree_def\<close>)
  note g = groups_okD [OF assms(1)]
  have t: "\<not> is_closing_symbol (ti_kind t)" using opening_closing_exclusive [OF assms(2)] .
  show ?thesis
  proof (rule groups_okI, unfold c)
    show "\<exists>i. closes ts i j" if "j < length (ts @ [t])" "is_closing_symbol (ti_kind ((ts @ [t]) ! j))" for j
      using that g(1) [of j] t by (cases "j = length ts") (auto simp: nth_append)
    show "i \<in> set (length ts # og) \<or> (\<exists>j. closes ts i j)"
      if "i < length (ts @ [t])" "is_opening_symbol (ti_kind ((ts @ [t]) ! i))" for i
      using that g(2) [of i] by (cases "i = length ts") (auto simp: nth_append)
    show False if "h \<in> set (length ts # og)" "closes ts i j" "i \<le> h" "h < j" for h i j
      using that g(4) [of h i j] closes_kinds [OF that(2)] by auto
  qed (rule g(3), assumption+)
qed

text \<open>Closing the innermost open group.\<close>

definition close_group :: "TokenInfo list \<Rightarrow> nat \<Rightarrow> TokenInfo \<Rightarrow> TokenInfo list" where
  "close_group ts g t = (ts @ [t])[g := (ts ! g)\<lparr>ti_payload := Some (word_of_nat (length ts))\<rparr>]"

lemma close_group_nth:
  assumes "g < length ts"
  shows "length (close_group ts g t) = Suc (length ts)" "close_group ts g t ! length ts = t"
    "close_group ts g t ! g = (ts ! g)\<lparr>ti_payload := Some (word_of_nat (length ts))\<rparr>"
    "k < length ts \<Longrightarrow> k \<noteq> g \<Longrightarrow> close_group ts g t ! k = ts ! k"
  using assms by (auto simp: close_group_def nth_append)

lemma close_group_kind:
  "g < length ts \<Longrightarrow> k < length ts \<Longrightarrow> ti_kind (close_group ts g t ! k) = ti_kind (ts ! k)"
  using close_group_nth(3,4) [of g ts] by (cases "k = g") auto

lemma opens_ok_close:
  assumes "opens_ok ts (g # og)"
  shows "opens_ok (close_group ts g t) og"
proof -
  have "g < length ts" using assms by (simp add: opens_ok_def)
  with assms close_group_kind [OF this, of _ t] close_group_nth(1) [OF this, of t] show ?thesis
    by (auto simp: opens_ok_def)
qed

lemma payload_inj: "i < 2 ^ 23 \<Longrightarrow> j < 2 ^ 23 \<Longrightarrow> (word_of_nat i :: 23 word) = word_of_nat j \<longleftrightarrow> i = j"
  using payload_unat [of i] payload_unat [of j] by metis

lemma closes_close:
  assumes "groups_ok ts (g # og)" "opens_ok ts (g # og)" "length ts < 2 ^ 23"
    "opening_symbol (ti_kind t) = Ret (ti_kind (ts ! g))" "ti_payload t = Some (word_of_nat g)"
  shows "closes (close_group ts g t) i j \<longleftrightarrow> closes ts i j \<or> i = g \<and> j = length ts"
proof -
  define us where "us = close_group ts g t"
  have g: "g < length ts" "is_opening_symbol (ti_kind (ts ! g))" using assms(2) by (auto simp: opens_ok_def)
  note nth = close_group_nth [OF g(1), where t = t, folded us_def]
  have not_g: "i \<noteq> g \<and> j \<noteq> g" if "closes ts i j"
    using groups_okD(4) [OF assms(1), of g i j] that closes_kinds [OF that] opening_closing_exclusive [OF g(2)] by auto
  consider "j = length ts" "i < length ts" | "j < length ts" "i < j" | "\<not> (i < j \<and> j < length us)"
    using nth(1) by linarith
  then have "closes us i j \<longleftrightarrow> closes ts i j \<or> i = g \<and> j = length ts"
  proof cases
    case 1
    have "i = g" if "closes us i j"
      using that 1 nth(2) assms(3,5) g(1) payload_inj [of g i] by (simp add: closes_def)
    moreover have "closes us g (length ts)"
      using nth g(1) assms(4,5) by (simp add: closes_def)
    moreover have "\<not> closes ts i j" using 1 by (simp add: closes_def)
    ultimately show ?thesis using 1 by auto
  next
    case 2
    show ?thesis
    proof (cases "i = g \<or> j = g")
      case True
      have "\<not> closes us i j"
      proof
        assume c: "closes us i j"
        have "j \<noteq> g" using closes_kinds [OF c] nth(3) g(2) opening_closing_exclusive by auto
        then have "i = g" using True by simp
        then show False using c nth(3) 2 assms(3) payload_inj [of "length ts" j] by (simp add: closes_def)
      qed
      then show ?thesis using True not_g 2 by auto
    next
      case False
      then show ?thesis using 2 nth(1) nth(4) [of i] nth(4) [of j] by (simp add: closes_def)
    qed
  next
    case 3
    then show ?thesis using nth(1) g(1) by (auto simp: closes_def)
  qed
  then show ?thesis by (simp add: us_def)
qed

lemma groups_ok_close:
  assumes "groups_ok ts (g # og)" "opens_ok ts (g # og)" "length ts < 2 ^ 23"
    "opening_symbol (ti_kind t) = Ret (ti_kind (ts ! g))" "ti_payload t = Some (word_of_nat g)"
  shows "groups_ok (close_group ts g t) og"
proof -
  define us where "us = close_group ts g t"
  note c = closes_close [OF assms, folded us_def]
  have g: "g < length ts" "\<And>h. h \<in> set og \<Longrightarrow> h < g" using assms(2) by (auto simp: opens_ok_def)
  note nth = close_group_nth [OF g(1), where t = t, folded us_def]
    and kind = close_group_kind [OF g(1), where t = t, folded us_def]
  note ok = groups_okD [OF assms(1)]
  have kt: "\<not> is_opening_symbol (ti_kind t)"
    using opening_symbol_kinds [OF assms(4)] opening_closing_exclusive by auto
  show ?thesis
    unfolding us_def [symmetric]
  proof (rule groups_okI, unfold c)
    show "\<exists>i. closes ts i j \<or> i = g \<and> j = length ts" if "j < length us" "is_closing_symbol (ti_kind (us ! j))" for j
      using that nth(1) kind [of j] ok(1) [of j] by (cases "j = length ts") auto
    show "i \<in> set og \<or> (\<exists>j. closes ts i j \<or> i = g \<and> j = length ts)"
      if "i < length us" "is_opening_symbol (ti_kind (us ! i))" for i
      using that nth(1,2) kind [of i] ok(2) [of i] kt by (cases "i = length ts"; cases "i = g") auto
    show "j' < j" if "closes ts i j \<or> i = g \<and> j = length ts" "closes ts i' j' \<or> i' = g \<and> j' = length ts"
      "i < i'" "i' < j" for i j i' j'
    proof (cases "i' = g \<and> j' = length ts")
      case True
      then show ?thesis using that ok(4) [of g i j] by auto
    next
      case False
      then have c': "closes ts i' j'" using that(2) by blast
      then show ?thesis using that ok(3) [of i j i' j'] closes_kinds [OF c'] by auto
    qed
    show False if "h \<in> set og" "closes ts i j \<or> i = g \<and> j = length ts" "i \<le> h" "h < j" for h i j
      using that ok(4) [of h i j] g(2) [of h] by auto
  qed
qed

section \<open>Brackets read so far\<close>

text \<open>
  Reading the brackets of the tokens leaves the open groups, unless a mismatch was noted; then it fails.
\<close>

definition brackets_seen :: "TokenInfo list \<Rightarrow> nat list \<Rightarrow> bool \<Rightarrow> bool" where
  "brackets_seen ts og mismatched \<longleftrightarrow>
     open_after (map ti_kind ts) [] = (if mismatched then None else Some (map (\<lambda>g. ti_kind (ts ! g)) og))"

lemma open_after_snoc: "\<not> is_grouping_symbol k \<Longrightarrow> open_after (ks @ [k]) s = open_after ks s"
  by (auto simp: open_after_append is_grouping_symbol_def split: option.splits)

lemma brackets_seen_kinds:
  assumes "opens_ok ts og"
  shows "map (\<lambda>g. ti_kind ((ts @ us) ! g)) og = map (\<lambda>g. ti_kind (ts ! g)) og"
  using assms by (simp add: opens_ok_def nth_append)

lemma brackets_seen_add:
  assumes "brackets_seen ts og b" "opens_ok ts og" "groupless t"
  shows "brackets_seen (ts @ [t]) og b"
  using assms(1) brackets_seen_kinds [OF assms(2)] open_after_snoc [OF assms(3)] by (simp add: brackets_seen_def)

lemma brackets_seen_open:
  assumes "brackets_seen ts og b" "opens_ok ts og" "is_opening_symbol (ti_kind t)"
  shows "brackets_seen (ts @ [t]) (length ts # og) b"
  using assms(1) brackets_seen_kinds [OF assms(2)] assms(3)
  by (simp add: brackets_seen_def open_after_append)

lemma closing_of_opening: "opening_symbol k = Ret p \<longleftrightarrow> closing_symbol p = Ret k"
  by (auto simp: opening_symbol_def closing_symbol_def OpeningSymbol_def ClosingSymbol_def carbon_check_def split: if_splits)

lemma brackets_seen_mismatch:
  assumes "brackets_seen ts og b" "is_closing_symbol (ti_kind t)"
    "og = [] \<or> opening_symbol (ti_kind t) \<noteq> Ret (ti_kind (ts ! hd og))"
  shows "brackets_seen (ts @ [t]) og' True"
proof (cases b)
  case True
  then show ?thesis using assms(1) by (simp add: brackets_seen_def open_after_append)
next
  case False
  then have "open_after (map ti_kind ts) [] = Some (map (\<lambda>g. ti_kind (ts ! g)) og)" using assms(1) by (simp add: brackets_seen_def)
  then show ?thesis using assms(2,3) opening_closing_exclusive [of "ti_kind t"] closing_of_opening
    by (cases og) (auto simp: brackets_seen_def open_after_append)
qed

lemma brackets_seen_close:
  assumes "brackets_seen ts (g # og) b" "opens_ok ts (g # og)" "opening_symbol (ti_kind t) = Ret (ti_kind (ts ! g))"
  shows "brackets_seen (close_group ts g t) og b"
proof -
  have k: "is_closing_symbol (ti_kind t)" "\<not> is_opening_symbol (ti_kind t)" "closing_symbol (ti_kind (ts ! g)) = Ret (ti_kind t)"
    using opening_symbol_kinds [OF assms(3)] opening_closing_exclusive assms(3) closing_of_opening by blast+
  have g: "g < length ts" "\<forall>h \<in> set og. h < length ts" using assms(2) by (auto simp: opens_ok_def)
  have "map ti_kind (close_group ts g t) = map ti_kind ts @ [ti_kind t]"
    using g(1) by (simp add: close_group_def list_update_append map_update list_update_same_conv)
  moreover have "map (\<lambda>h. ti_kind (close_group ts g t ! h)) og = map (\<lambda>h. ti_kind (ts ! h)) og"
    using close_group_kind [OF g(1)] g(2) by simp
  ultimately show ?thesis using assms(1) k by (simp add: brackets_seen_def open_after_append)
qed

lemma brackets_seen_replace:
  assumes "brackets_seen (ts @ [t]) og b" "opens_ok (ts @ [t]) og" "groupless t" "groupless u"
  shows "brackets_seen (ts @ [u]) og b"
proof -
  have "\<forall>g \<in> set og. g < length ts"
  proof
    fix g assume "g \<in> set og"
    then have "g < Suc (length ts)" "is_opening_symbol (ti_kind ((ts @ [t]) ! g))" using assms(2) by (auto simp: opens_ok_def)
    then show "g < length ts" using assms(3) by (cases "g = length ts") (auto simp: is_grouping_symbol_def)
  qed
  then have "map (\<lambda>g. ti_kind ((ts @ [u]) ! g)) og = map (\<lambda>g. ti_kind ((ts @ [t]) ! g)) og" by (simp add: nth_append)
  then show ?thesis using assms(1) open_after_snoc [OF assms(3)] open_after_snoc [OF assms(4)]
    by (simp add: brackets_seen_def del: map_eq_conv)
qed

end
