(* ===== verification/Lexer_Inv.thy ===== *)
theory Lexer_Inv
  imports Lexer_Tokens
begin

text \<open>
  The invariant of the lexer before each dispatch, at a position of the text: the buffer's lines
  are those of the text and the current line is that of the position; the tokens are as in theory
  \<open>Lexer_Tokens\<close>, and the last one ends at the position unless whitespace was noted since; the
  open groups are the opening tokens not yet closed; the stores hold at most one entry more for
  each byte consumed.

  After the word \<open>r\<close> of a raw identifier, whose token is only completed by the next dispatch,
  the invariant holds but for the text of the last token: \<open>pending\<close>.
\<close>

section \<open>Definition\<close>

abbreviation last_token :: "'a Lexer \<Rightarrow> TokenInfo" where
  "last_token lx \<equiv> last (lx_token_infos lx)"

abbreviation last_offset :: "'a Lexer \<Rightarrow> nat" where
  "last_offset lx \<equiv> ti_byte_offset (last_token lx)"

abbreviation lx_stores :: "'a Lexer \<Rightarrow> 'a SharedValueStores" where
  "lx_stores lx \<equiv> tb_value_stores (lx_buffer lx)"

definition buffer_ok :: "'a lex_env \<Rightarrow> ('a \<Rightarrow> int) \<Rightarrow> string \<Rightarrow> nat \<Rightarrow> 'a TokenizedBuffer \<Rightarrow> bool" where
  "buffer_ok env uval src m tb \<longleftrightarrow> tb_source tb = src \<and> map line_start (tb_line_infos tb) = line_starts src \<and>
     tb_post_lexing_recovery_tokens tb = 0 \<and> tb_recovery_tokens tb = [] \<and> stores_ok env uval m (tb_value_stores tb) \<and> m < 2 ^ 21 \<and>
     comments_ok tb"

definition pre_core :: "'a lex_env \<Rightarrow> ('a \<Rightarrow> int) \<Rightarrow> string \<Rightarrow> nat \<Rightarrow> 'a Lexer \<Rightarrow> bool" where
  "pre_core env uval src m lx \<longleftrightarrow> buffer_ok env uval src m (lx_buffer lx) \<and>
     lx_token_infos lx \<noteq> [] \<and> ti_kind (hd (lx_token_infos lx)) = FileStart \<and>
     FileEnd \<notin> ti_kind ` set (butlast (lx_token_infos lx)) \<and> length (lx_token_infos lx) \<le> last_offset lx + 2 \<and>
     ends_before env (lx_buffer lx) (tl (rev (lx_token_infos lx))) (last_offset lx) \<and>
     opens_ok (lx_token_infos lx) (lx_open_groups lx) \<and>
     (\<not> lx_has_mismatched_brackets lx \<longrightarrow> groups_ok (lx_token_infos lx) (lx_open_groups lx)) \<and>
     brackets_seen (lx_token_infos lx) (lx_open_groups lx) (lx_has_mismatched_brackets lx)"

definition core :: "'a lex_env \<Rightarrow> ('a \<Rightarrow> int) \<Rightarrow> string \<Rightarrow> nat \<Rightarrow> nat \<Rightarrow> 'a Lexer \<Rightarrow> bool" where
  "core env uval src m pos lx \<longleftrightarrow> pre_core env uval src m lx \<and> length (lx_token_infos lx) \<le> pos + 1 \<and> ti_kind (last_token lx) \<noteq> FileEnd \<and>
     (\<exists>w. tok_ok env (lx_buffer lx) (last_token lx) w \<and> gap (lx_buffer lx) (last_offset lx + length w) pos \<and>
        (if lx_has_leading_space lx then last_offset lx + length w < pos \<or> last_offset lx + length w = 0
         else last_offset lx + length w = pos))"

definition pending :: "'a lex_env \<Rightarrow> ('a \<Rightarrow> int) \<Rightarrow> string \<Rightarrow> nat \<Rightarrow> nat \<Rightarrow> 'a Lexer \<Rightarrow> bool" where
  "pending env uval src m pos lx \<longleftrightarrow> pre_core env uval src m lx \<and> \<not> lx_has_leading_space lx \<and>
     last_offset lx + 1 = pos \<and> pos + 1 < length src \<and> src ! (pos - 1) = CHR ''r'' \<and> src ! pos = CHR ''#'' \<and>
     IsIdStartByteTable (byte_of (src ! (pos + 1))) \<and> ti_kind (last_token lx) = Identifier \<and>
     (\<exists>j < length (identifier_vals (lx_stores lx)). ti_payload (last_token lx) = Some (word_of_nat j) \<and>
        identifier_vals (lx_stores lx) ! j = ''r'')"

abbreviation current_indent :: "'a Lexer \<Rightarrow> nat" where
  "current_indent lx \<equiv> line_indent (lx_lines lx ! lx_line_index lx)"

definition line_inv :: "string \<Rightarrow> nat \<Rightarrow> 'a Lexer \<Rightarrow> bool" where
  "line_inv src pos lx \<longleftrightarrow> pos \<le> length src \<and> line_ok src (lx_line_index lx) pos \<and>
     (lx_has_leading_space lx \<or> line_starts src ! lx_line_index lx < pos) \<and>
     (pos < length src \<longrightarrow> line_starts src ! lx_line_index lx + current_indent lx \<le> pos \<and>
        (lx_has_leading_space lx \<or> line_starts src ! lx_line_index lx + current_indent lx < pos))"

definition lex_inv :: "'a lex_env \<Rightarrow> ('a \<Rightarrow> int) \<Rightarrow> string \<Rightarrow> nat \<Rightarrow> nat \<Rightarrow> 'a Lexer \<Rightarrow> bool" where
  "lex_inv env uval src m pos lx \<longleftrightarrow>
     (core env uval src m pos lx \<or> pending env uval src m pos lx) \<and> line_inv src pos lx"

text \<open>What a handler promises at a position: it returns, further on, with the invariant.\<close>

definition advances :: "'a lex_env \<Rightarrow> ('a \<Rightarrow> int) \<Rightarrow> string \<Rightarrow> nat \<Rightarrow> nat \<Rightarrow> ('a Lexer \<times> nat) outcome \<Rightarrow> bool" where
  "advances env uval src m pos r \<longleftrightarrow>
     (\<exists>lx' pos'. r = Ret (lx', pos') \<and> pos < pos' \<and> lex_inv env uval src (m + 1) pos' lx')"

section \<open>What changes to the state keep\<close>

definition frame :: "'a lex_env \<Rightarrow> ('a \<Rightarrow> int) \<Rightarrow> nat \<Rightarrow> 'a Lexer \<Rightarrow> 'a Lexer \<Rightarrow> bool" where
  "frame env uval m lx lx' \<longleftrightarrow>
     tb_source (lx_buffer lx') = tb_source (lx_buffer lx) \<and>
     map line_start (lx_lines lx') = map line_start (lx_lines lx) \<and>
     tb_post_lexing_recovery_tokens (lx_buffer lx') = tb_post_lexing_recovery_tokens (lx_buffer lx) \<and>
     tb_recovery_tokens (lx_buffer lx') = tb_recovery_tokens (lx_buffer lx) \<and>
     lx_token_infos lx' = lx_token_infos lx \<and> lx_open_groups lx' = lx_open_groups lx \<and>
     lx_has_mismatched_brackets lx' = lx_has_mismatched_brackets lx \<and>
     extends_ids (lx_stores lx) (lx_stores lx') \<and>
     (\<forall>a b. gap (lx_buffer lx) a b \<longrightarrow> gap (lx_buffer lx') a b) \<and>
     stores_ok env uval m (lx_stores lx') \<and> m < 2 ^ 21 \<and> comments_ok (lx_buffer lx')"

lemma map_update_same: "f y = f (xs ! i) \<Longrightarrow> map f (xs[i := y]) = map f xs"
proof (cases "i < length xs")
  case True
  assume "f y = f (xs ! i)"
  with True have "map f (xs[i := y]) = (map f xs)[i := map f xs ! i]" by (simp add: map_update)
  then show ?thesis by simp
qed (simp add: list_update_beyond)

lemma gap_cong: "tb_source tb' = tb_source tb \<Longrightarrow> tb_comments tb' = tb_comments tb \<Longrightarrow> gap tb' a b = gap tb a b"
  by (simp add: gap_def in_comment_def)

lemma comments_ok_cong:
  "tb_source tb' = tb_source tb \<Longrightarrow> tb_comments tb' = tb_comments tb \<Longrightarrow> comments_ok tb' = comments_ok tb"
  by (simp add: comments_ok_def)

lemma buffer_ok_cong:
  assumes "buffer_ok env uval src m tb" "tb_source tb' = tb_source tb" "tb_comments tb' = tb_comments tb"
    "tb_value_stores tb' = tb_value_stores tb" "map line_start (tb_line_infos tb') = map line_start (tb_line_infos tb)"
    "tb_post_lexing_recovery_tokens tb' = tb_post_lexing_recovery_tokens tb" "tb_recovery_tokens tb' = tb_recovery_tokens tb"
  shows "buffer_ok env uval src m tb'"
  using assms(1) by (auto simp: buffer_ok_def comments_ok_def assms(2-))

lemma tok_ok_cong:
  "tb_source tb' = tb_source tb \<Longrightarrow> tb_value_stores tb' = tb_value_stores tb \<Longrightarrow> tok_ok env tb' ti w = tok_ok env tb ti w"
proof -
  assume a: "tb_source tb' = tb_source tb" "tb_value_stores tb' = tb_value_stores tb"
  then have "info_is_raw env tb' ti = info_is_raw env tb ti" by (simp add: info_is_raw_def Let_def)
  with a have "info_text env tb' ti = info_text env tb ti" by (simp add: info_text_def Let_def)
  with a show ?thesis by (simp add: tok_ok_def)
qed

lemma ends_before_same:
  "tb_source tb' = tb_source tb \<Longrightarrow> tb_value_stores tb' = tb_value_stores tb \<Longrightarrow> tb_comments tb' = tb_comments tb \<Longrightarrow>
   ends_before env tb' ts pos = ends_before env tb ts pos"
  by (induction ts arbitrary: pos) (simp_all add: gap_cong [of tb' tb] tok_ok_cong [of tb' tb])

lemma buffer_ok_frame:
  assumes "buffer_ok env uval src m (lx_buffer lx)" "frame env uval m' lx lx'"
  shows "buffer_ok env uval src m' (lx_buffer lx')"
    "\<And>ti w. tok_ok env (lx_buffer lx) ti w \<Longrightarrow> tok_ok env (lx_buffer lx') ti w"
    "\<And>ts pos. ends_before env (lx_buffer lx) ts pos \<Longrightarrow> ends_before env (lx_buffer lx') ts pos"
proof -
  show "buffer_ok env uval src m' (lx_buffer lx')"
    using assms by (simp add: buffer_ok_def frame_def)
  show tok: "tok_ok env (lx_buffer lx') ti w" if "tok_ok env (lx_buffer lx) ti w" for ti w
    by (rule tok_ok_frame [OF that, where m = m and m' = m' and uval = uval])
      (use assms in \<open>simp_all add: buffer_ok_def frame_def\<close>)
  show "ends_before env (lx_buffer lx') ts pos" if "ends_before env (lx_buffer lx) ts pos" for ts pos
    using that by (rule ends_before_cong [rotated -1])
      (use assms(2) tok in \<open>auto simp: frame_def list_all2_same\<close>)
qed

lemma pre_core_frame:
  assumes "pre_core env uval src m lx" "frame env uval m' lx lx'"
  shows "pre_core env uval src m' lx'"
proof -
  have "buffer_ok env uval src m (lx_buffer lx)" using assms(1) by (simp add: pre_core_def)
  note b = buffer_ok_frame [OF this assms(2)]
  have same: "lx_token_infos lx' = lx_token_infos lx" "lx_open_groups lx' = lx_open_groups lx"
      "lx_has_mismatched_brackets lx' = lx_has_mismatched_brackets lx"
    using assms(2) by (simp_all add: frame_def)
  show ?thesis using assms(1) b(1,3) by (simp add: pre_core_def same)
qed

lemma core_frame:
  assumes "core env uval src m pos lx" "frame env uval m' lx lx'"
    "lx_has_leading_space lx' = lx_has_leading_space lx"
  shows "core env uval src m' pos lx'"
proof -
  have c: "pre_core env uval src m lx" and "buffer_ok env uval src m (lx_buffer lx)"
    using assms(1) by (simp_all add: core_def pre_core_def)
  note b = buffer_ok_frame [OF this(2) assms(2)] and p = pre_core_frame [OF c assms(2)]
  have same: "lx_token_infos lx' = lx_token_infos lx" "\<And>a b. gap (lx_buffer lx) a b \<Longrightarrow> gap (lx_buffer lx') a b"
    using assms(2) by (simp_all add: frame_def)
  obtain w where w: "tok_ok env (lx_buffer lx) (last_token lx) w" "gap (lx_buffer lx) (last_offset lx + length w) pos"
      "if lx_has_leading_space lx then last_offset lx + length w < pos \<or> last_offset lx + length w = 0
       else last_offset lx + length w = pos" "length (lx_token_infos lx) \<le> pos + 1" "ti_kind (last_token lx) \<noteq> FileEnd"
    using assms(1) by (auto simp: core_def)
  show ?thesis using p b(2) [OF w(1)] same(2) [OF w(2)] w(3-5) assms(3) by (auto simp: core_def same(1))
qed

lemma core_skip:
  assumes "core env uval src m pos lx" "frame env uval m' lx lx'"
    "lx_has_leading_space lx'" "gap (lx_buffer lx') pos pos'" "pos < pos'"
  shows "core env uval src m' pos' lx'"
proof -
  define lx1 where "lx1 = lx'\<lparr>lx_has_leading_space := lx_has_leading_space lx\<rparr>"
  have "core env uval src m' pos lx1"
    by (rule core_frame [OF assms(1)]) (use assms(2) in \<open>simp_all add: lx1_def frame_def\<close>)
  then obtain w where w: "pre_core env uval src m' lx1" "length (lx_token_infos lx') \<le> pos + 1"
      "tok_ok env (lx_buffer lx') (last_token lx') w" "gap (lx_buffer lx') (last_offset lx' + length w) pos"
      "ti_kind (last_token lx') \<noteq> FileEnd"
    by (auto simp: core_def lx1_def)
  have "pre_core env uval src m' lx'" using w(1) by (simp add: pre_core_def lx1_def)
  moreover have "last_offset lx' + length w \<le> pos" using w(4) by (simp add: gap_def)
  ultimately show ?thesis
    using w(2,3,5) gap_trans [OF w(4) assms(4)] assms(3,5) by (auto simp: core_def)
qed

section \<open>Adding and replacing tokens\<close>

abbreviation add_tok :: "TokenInfo \<Rightarrow> 'a Lexer \<Rightarrow> 'a Lexer" where
  "add_tok info lx \<equiv> snd (AddLexedToken info lx)"

lemma add_tok_simps [simp]:
  "lx_token_infos (add_tok info lx) = lx_token_infos lx @ [info]"
  "fst (AddLexedToken info lx) = length (lx_token_infos lx)"
  "\<not> lx_has_leading_space (add_tok info lx)" "lx_line_index (add_tok info lx) = lx_line_index lx"
  "lx_lines (add_tok info lx) = lx_lines lx" "lx_stores (add_tok info lx) = lx_stores lx"
  "tb_source (lx_buffer (add_tok info lx)) = tb_source (lx_buffer lx)"
  "tb_comments (lx_buffer (add_tok info lx)) = tb_comments (lx_buffer lx)"
  "tb_post_lexing_recovery_tokens (lx_buffer (add_tok info lx)) = tb_post_lexing_recovery_tokens (lx_buffer lx)"
  "tb_recovery_tokens (lx_buffer (add_tok info lx)) = tb_recovery_tokens (lx_buffer lx)"
  "tb_dump_sem_ir_ranges (lx_buffer (add_tok info lx)) = tb_dump_sem_ir_ranges (lx_buffer lx)"
  "lx_open_groups (add_tok info lx) = lx_open_groups lx"
  "lx_has_mismatched_brackets (add_tok info lx) = lx_has_mismatched_brackets lx"
  "lx_diags (add_tok info lx) = lx_diags lx"
  by (simp_all add: AddLexedToken_def AddToken_def)

lemma core_ends_before:
  assumes "core env uval src m pos lx"
  shows "ends_before env (lx_buffer lx) (rev (lx_token_infos lx)) pos"
proof -
  have "lx_token_infos lx \<noteq> []" "ends_before env (lx_buffer lx) (tl (rev (lx_token_infos lx))) (last_offset lx)"
      "\<exists>w. tok_ok env (lx_buffer lx) (last_token lx) w \<and> gap (lx_buffer lx) (last_offset lx + length w) pos"
    using assms by (auto simp: core_def pre_core_def)
  then show ?thesis
    by (cases "lx_token_infos lx" rule: rev_cases) auto
qed

text \<open>A lexer whose tokens are extended by one that starts at the position.\<close>

lemma pre_core_extend:
  assumes "core env uval src m pos lx" "buffer_ok env uval src m (lx_buffer lx')"
    "lx_token_infos lx' = us @ [info]" "map ti_kind us = map ti_kind (lx_token_infos lx)" "ti_byte_offset info = pos"
    "ends_before env (lx_buffer lx') (rev us) pos" "opens_ok (us @ [info]) (lx_open_groups lx')"
    "\<not> lx_has_mismatched_brackets lx' \<Longrightarrow> groups_ok (us @ [info]) (lx_open_groups lx')"
    "brackets_seen (us @ [info]) (lx_open_groups lx') (lx_has_mismatched_brackets lx')"
  shows "pre_core env uval src m lx'"
proof -
  have c: "lx_token_infos lx \<noteq> []" "ti_kind (hd (lx_token_infos lx)) = FileStart" "length (lx_token_infos lx) \<le> pos + 1"
    using assms(1) by (simp_all add: core_def pre_core_def)
  have "length us = length (lx_token_infos lx)" using assms(4) by (rule map_eq_imp_length_eq)
  moreover have "us \<noteq> []" using assms(4) c(1) by auto
  moreover have "ti_kind (hd us) = FileStart" using assms(4) c(1,2) calculation(2) by (simp flip: hd_map)
  moreover have "FileEnd \<notin> ti_kind ` set us"
  proof -
    have "FileEnd \<notin> set (map ti_kind us)"
      using assms(1,4) c(1) by (cases "lx_token_infos lx" rule: rev_cases) (auto simp: core_def pre_core_def)
    then show ?thesis by simp
  qed
  ultimately show ?thesis using c(3) assms(2,3,5-9) by (simp add: pre_core_def)
qed

lemma core_tokens:
  assumes "core env uval src m pos lx"
  shows "opens_ok (lx_token_infos lx) (lx_open_groups lx)" "buffer_ok env uval src m (lx_buffer lx)"
    "\<not> lx_has_mismatched_brackets lx \<Longrightarrow> groups_ok (lx_token_infos lx) (lx_open_groups lx)"
    "length (lx_token_infos lx) \<le> pos + 1" "lx_token_infos lx \<noteq> []"
    "brackets_seen (lx_token_infos lx) (lx_open_groups lx) (lx_has_mismatched_brackets lx)"
  using assms by (simp_all add: core_def pre_core_def)

lemma group_agree_append: "group_agree ts (ts @ us)"
  by (auto simp: group_agree_def nth_append)

lemma pre_core_add:
  assumes "core env uval src m pos lx" "ti_byte_offset info = pos" "groupless info"
  shows "pre_core env uval src m (add_tok info lx)"
proof (rule pre_core_extend [OF assms(1), where info = info and us = "lx_token_infos lx"])
  note c = core_tokens [OF assms(1)]
  show "buffer_ok env uval src m (lx_buffer (add_tok info lx))" by (rule buffer_ok_cong [OF c(2)]) simp_all
  show "opens_ok (lx_token_infos lx @ [info]) (lx_open_groups (add_tok info lx))"
    using opens_ok_agree [OF c(1) group_agree_append] by simp
  show "groups_ok (lx_token_infos lx @ [info]) (lx_open_groups (add_tok info lx))"
    if "\<not> lx_has_mismatched_brackets (add_tok info lx)"
    using groups_ok_agree [OF c(3) group_agree_append [of _ "[info]"]] that assms(3) by (auto simp: nth_append less_Suc_eq)
  show "brackets_seen (lx_token_infos lx @ [info]) (lx_open_groups (add_tok info lx)) (lx_has_mismatched_brackets (add_tok info lx))"
    using brackets_seen_add [OF c(6,1) assms(3)] by simp
  show "ends_before env (lx_buffer (add_tok info lx)) (rev (lx_token_infos lx)) pos"
    using core_ends_before [OF assms(1)] ends_before_same [of "lx_buffer (add_tok info lx)" "lx_buffer lx"] by simp
qed (simp_all add: assms(2))

lemma pre_core_open:
  assumes "core env uval src m pos lx" "ti_byte_offset info = pos" "is_opening_symbol (ti_kind info)"
  shows "pre_core env uval src m ((add_tok info lx)\<lparr>lx_open_groups := length (lx_token_infos lx) # lx_open_groups lx\<rparr>)"
    (is "pre_core env uval src m ?lx")
proof (rule pre_core_extend [OF assms(1), where info = info and us = "lx_token_infos lx"])
  note c = core_tokens [OF assms(1)]
  show "buffer_ok env uval src m (lx_buffer ?lx)" by (rule buffer_ok_cong [OF c(2)]) simp_all
  show "opens_ok (lx_token_infos lx @ [info]) (lx_open_groups ?lx)"
    using opens_ok_open [OF c(1) assms(3)] by simp
  show "groups_ok (lx_token_infos lx @ [info]) (lx_open_groups ?lx)" if "\<not> lx_has_mismatched_brackets ?lx"
    using groups_ok_open [OF c(3) assms(3)] that by simp
  show "brackets_seen (lx_token_infos lx @ [info]) (lx_open_groups ?lx) (lx_has_mismatched_brackets ?lx)"
    using brackets_seen_open [OF c(6,1) assms(3)] by simp
  show "ends_before env (lx_buffer ?lx) (rev (lx_token_infos lx)) pos"
    using core_ends_before [OF assms(1)] ends_before_same [of "lx_buffer ?lx" "lx_buffer lx"] by simp
qed (simp_all add: assms(2))

text \<open>A closing token that matches nothing.\<close>

lemma pre_core_mismatch:
  assumes "core env uval src m pos lx" "ti_byte_offset info = pos"
    "lx_open_groups lx' = tl (lx_open_groups lx)" "lx_has_mismatched_brackets lx'"
    "lx_token_infos lx' = lx_token_infos lx @ [info]" "buffer_ok env uval src m (lx_buffer lx')"
    "tb_comments (lx_buffer lx') = tb_comments (lx_buffer lx)" "lx_stores lx' = lx_stores lx" "is_closing_symbol (ti_kind info)"
    "lx_open_groups lx = [] \<or> opening_symbol (ti_kind info) \<noteq> Ret (ti_kind (lx_token_infos lx ! hd (lx_open_groups lx)))"
  shows "pre_core env uval src m lx'"
proof (rule pre_core_extend [OF assms(1), where info = info and us = "lx_token_infos lx"])
  note c = core_tokens [OF assms(1)]
  show "brackets_seen (lx_token_infos lx @ [info]) (lx_open_groups lx') (lx_has_mismatched_brackets lx')"
    using brackets_seen_mismatch [OF c(6) assms(9,10)] assms(4) by simp
  have "opens_ok (lx_token_infos lx) (tl (lx_open_groups lx))"
    using c(1) by (cases "lx_open_groups lx") (auto simp: opens_ok_def)
  from opens_ok_agree [OF this group_agree_append]
  show "opens_ok (lx_token_infos lx @ [info]) (lx_open_groups lx')" using assms(3) by simp
  have "tb_source (lx_buffer lx') = tb_source (lx_buffer lx)" using assms(6) c(2) by (simp add: buffer_ok_def)
  then show "ends_before env (lx_buffer lx') (rev (lx_token_infos lx)) pos"
    using core_ends_before [OF assms(1)] ends_before_same [of "lx_buffer lx'" "lx_buffer lx"] assms(7,8) by simp
qed (simp_all add: assms)

lemma tok_ok_payload:
  "fixed_spelling (ti_kind ti) \<noteq> [] \<Longrightarrow> tok_ok env tb (ti\<lparr>ti_payload := p\<rparr>) w = tok_ok env tb ti w"
  by (cases "ti_kind ti") (simp_all add: tok_ok_def info_text_def)

lemma ends_before_update_payload:
  assumes "ends_before env tb ts pos" "k < length ts" "fixed_spelling (ti_kind (ts ! k)) \<noteq> []"
  shows "ends_before env tb (ts[k := (ts ! k)\<lparr>ti_payload := p\<rparr>]) pos"
  using assms(1)
  by (rule ends_before_cong [rotated -1])
    (use assms(2,3) in \<open>auto simp: list_all2_conv_all_nth nth_list_update tok_ok_payload\<close>)

lemma pre_core_close:
  assumes "core env uval src m pos lx" "ti_byte_offset info = pos" "lx_open_groups lx = g # rest"
    "opening_symbol (ti_kind info) = Ret (ti_kind (lx_token_infos lx ! g))" "ti_payload info = Some (word_of_nat g)"
    "lx_open_groups lx' = rest" "lx_has_mismatched_brackets lx' = lx_has_mismatched_brackets lx"
    "lx_token_infos lx' = close_group (lx_token_infos lx) g info" "buffer_ok env uval src m (lx_buffer lx')"
    "tb_comments (lx_buffer lx') = tb_comments (lx_buffer lx)" "lx_stores lx' = lx_stores lx" "pos < 2 ^ 22"
  shows "pre_core env uval src m lx'"
proof (rule pre_core_extend [OF assms(1), where info = info])
  define ts us where "ts = lx_token_infos lx"
    and "us = ts[g := (ts ! g)\<lparr>ti_payload := Some (word_of_nat (length ts))\<rparr>]"
  note c = core_tokens [OF assms(1), folded ts_def]
  have g: "g < length ts" "is_opening_symbol (ti_kind (ts ! g))" using c(1) assms(3) by (simp_all add: opens_ok_def)
  have close: "close_group ts g info = us @ [info]" using g(1) by (simp add: close_group_def us_def list_update_append)
  show "lx_token_infos lx' = us @ [info]" using assms(8) close by (simp add: ts_def)
  show "map ti_kind us = map ti_kind (lx_token_infos lx)"
    unfolding us_def ts_def by (rule map_update_same) simp
  have len: "length ts < 2 ^ 23" using c(4) assms(12) by simp
  show "opens_ok (us @ [info]) (lx_open_groups lx')"
    using opens_ok_close [of ts g rest info] c(1) assms(3,6) close by simp
  show "groups_ok (us @ [info]) (lx_open_groups lx')" if "\<not> lx_has_mismatched_brackets lx'"
    using groups_ok_close [of ts g rest info] c(1,3) assms(3-7) that len close by (simp add: ts_def)
  show "brackets_seen (us @ [info]) (lx_open_groups lx') (lx_has_mismatched_brackets lx')"
    using brackets_seen_close [of ts g rest _ info] c(1,6) assms(3,4,6,7) close by (simp add: ts_def)
  have fixed: "fixed_spelling (ti_kind (ts ! g)) \<noteq> []"
    using g(2) symbol_spelling_nonempty by (cases "ti_kind (ts ! g)") auto
  have "tb_source (lx_buffer lx') = tb_source (lx_buffer lx)" using assms(9) core_tokens(2) [OF assms(1)] by (simp add: buffer_ok_def)
  then have "ends_before env (lx_buffer lx') (rev ts) pos"
    using core_ends_before [OF assms(1)] ends_before_same [of "lx_buffer lx'" "lx_buffer lx"] assms(10,11) by (simp add: ts_def)
  from ends_before_update_payload [OF this, of "length ts - Suc g" "Some (word_of_nat (length ts))"]
  show "ends_before env (lx_buffer lx') (rev us) pos"
    using g(1) fixed by (simp add: us_def rev_update rev_nth)
qed (simp_all add: assms)

lemma core_finish:
  assumes "pre_core env uval src m lx" "tok_ok env (lx_buffer lx) (last_token lx) w" "w \<noteq> []"
    "\<not> lx_has_leading_space lx" "pos' = last_offset lx + length w"
  shows "core env uval src m pos' lx"
proof -
  have "length (lx_token_infos lx) \<le> pos' + 1"
    using assms(1,3,5) by (cases w) (auto simp: pre_core_def)
  moreover have "ti_kind (last_token lx) \<noteq> FileEnd" using assms(2,3) by (auto simp: tok_ok_def)
  ultimately show ?thesis using assms by (auto simp: core_def)
qed

lemma core_add:
  assumes "core env uval src m pos lx" "ti_byte_offset info = pos" "groupless info"
    "tok_ok env (lx_buffer lx) info w" "w \<noteq> []"
  shows "core env uval src m (pos + length w) (add_tok info lx)"
proof (rule core_finish [OF pre_core_add [OF assms(1-3)] _ assms(5)])
  show "tok_ok env (lx_buffer (add_tok info lx)) (last_token (add_tok info lx)) w"
    using tok_ok_cong [of "lx_buffer (add_tok info lx)" "lx_buffer lx"] assms(4) by simp
qed (simp_all add: assms(2))

text \<open>Replacing the last token.\<close>

abbreviation replace_last :: "TokenInfo \<Rightarrow> 'a Lexer \<Rightarrow> 'a Lexer" where
  "replace_last info lx \<equiv> set_token_info (length (lx_token_infos lx) - 1) info lx"

lemma set_token_info_simps [simp]:
  "lx_token_infos (set_token_info i info lx) = (lx_token_infos lx)[i := info]"
  "lx_has_leading_space (set_token_info i info lx) = lx_has_leading_space lx"
  "lx_line_index (set_token_info i info lx) = lx_line_index lx"
  "lx_lines (set_token_info i info lx) = lx_lines lx" "lx_stores (set_token_info i info lx) = lx_stores lx"
  "tb_source (lx_buffer (set_token_info i info lx)) = tb_source (lx_buffer lx)"
  "tb_comments (lx_buffer (set_token_info i info lx)) = tb_comments (lx_buffer lx)"
  "tb_post_lexing_recovery_tokens (lx_buffer (set_token_info i info lx)) = tb_post_lexing_recovery_tokens (lx_buffer lx)"
  "tb_recovery_tokens (lx_buffer (set_token_info i info lx)) = tb_recovery_tokens (lx_buffer lx)"
  "lx_open_groups (set_token_info i info lx) = lx_open_groups lx"
  "lx_has_mismatched_brackets (set_token_info i info lx) = lx_has_mismatched_brackets lx"
  by (simp_all add: set_token_info_def)

lemma replace_last_infos:
  "lx_token_infos lx \<noteq> [] \<Longrightarrow> lx_token_infos (replace_last info lx) = butlast (lx_token_infos lx) @ [info]"
  by (cases "lx_token_infos lx" rule: rev_cases) (auto simp: list_update_append)

lemma pre_core_replace:
  assumes "pre_core env uval src m lx" "ti_byte_offset info = last_offset lx" "groupless info"
    "groupless (last_token lx)" "ti_kind (last_token lx) \<noteq> FileStart"
  shows "pre_core env uval src m (replace_last info lx)"
proof -
  have ne: "lx_token_infos lx \<noteq> []" using assms(1) by (simp add: pre_core_def)
  then obtain ts t where tt: "lx_token_infos lx = ts @ [t]" by (cases "lx_token_infos lx" rule: rev_cases) auto
  have p: "buffer_ok env uval src m (lx_buffer lx)"
      "opens_ok (ts @ [t]) (lx_open_groups lx)"
      "\<not> lx_has_mismatched_brackets lx \<Longrightarrow> groups_ok (ts @ [t]) (lx_open_groups lx)"
      "ends_before env (lx_buffer lx) (rev ts) (ti_byte_offset t)" "ti_kind (hd (ts @ [t])) = FileStart"
      "length ts + 1 \<le> ti_byte_offset t + 2" "FileEnd \<notin> ti_kind ` set ts"
      "brackets_seen (ts @ [t]) (lx_open_groups lx) (lx_has_mismatched_brackets lx)"
    using assms(1) by (simp_all add: pre_core_def tt)
  have infos: "lx_token_infos (replace_last info lx) = ts @ [info]"
    using replace_last_infos [OF ne, of info] by (simp add: tt)
  have g: "ti_byte_offset info = ti_byte_offset t" "groupless t" "ti_kind t \<noteq> FileStart"
    using assms(2,4,5) by (simp_all add: tt)
  have a: "group_agree (ts @ [t]) (ts @ [info])"
    using assms(3) g(2) by (auto simp: group_agree_def nth_append)
  have ts: "ts \<noteq> []" using p(5) g(3) by auto
  have e: "ends_before env (lx_buffer (replace_last info lx)) (rev ts) (ti_byte_offset t)"
    using p(4) ends_before_same [of "lx_buffer (replace_last info lx)" "lx_buffer lx"] by simp
  have "opens_ok (ts @ [info]) (lx_open_groups lx)" using opens_ok_agree [OF p(2) a] .
  moreover have "groups_ok (ts @ [info]) (lx_open_groups lx)" if "\<not> lx_has_mismatched_brackets lx"
    using groups_ok_agree [OF p(3) [OF that] a] by simp
  moreover have "buffer_ok env uval src m (lx_buffer (replace_last info lx))" by (rule buffer_ok_cong [OF p(1)]) simp_all
  moreover have "brackets_seen (ts @ [info]) (lx_open_groups lx) (lx_has_mismatched_brackets lx)"
    using brackets_seen_replace [OF p(8,2) g(2) assms(3)] .
  ultimately show ?thesis
    using e ts p(5-7) g(1) unfolding pre_core_def infos by simp
qed

section \<open>Changes that keep everything but the position\<close>

lemma frame_refl: "buffer_ok env uval src m (lx_buffer lx) \<Longrightarrow> m \<le> m' \<Longrightarrow> m' < 2 ^ 21 \<Longrightarrow> frame env uval m' lx lx"
  by (auto simp: frame_def buffer_ok_def intro: stores_ok_mono)

lemma frame_trans: "frame env uval m lx lx' \<Longrightarrow> frame env uval m' lx' lx'' \<Longrightarrow> frame env uval m' lx lx''"
  by (auto simp: frame_def extends_ids_def)

text \<open>The line index, noted whitespace, indents, diagnostics and dump ranges.\<close>

lemma emit_simps [simp]:
  "lx_buffer (emit p d lx) = lx_buffer lx" "lx_line_index (emit p d lx) = lx_line_index lx"
  "lx_has_leading_space (emit p d lx) = lx_has_leading_space lx" "lx_open_groups (emit p d lx) = lx_open_groups lx"
  "lx_has_mismatched_brackets (emit p d lx) = lx_has_mismatched_brackets lx"
  by (simp_all add: emit_def)

lemma emit_all_simps [simp]:
  "lx_buffer (emit_all p f ds lx) = lx_buffer lx" "lx_line_index (emit_all p f ds lx) = lx_line_index lx"
  "lx_has_leading_space (emit_all p f ds lx) = lx_has_leading_space lx"
  "lx_open_groups (emit_all p f ds lx) = lx_open_groups lx"
  "lx_has_mismatched_brackets (emit_all p f ds lx) = lx_has_mismatched_brackets lx"
  by (simp_all add: emit_all_def)

lemma NoteWhitespace_simps [simp]:
  "lx_buffer (NoteWhitespace lx) = lx_buffer lx" "lx_line_index (NoteWhitespace lx) = lx_line_index lx"
  "lx_has_leading_space (NoteWhitespace lx)" "lx_open_groups (NoteWhitespace lx) = lx_open_groups lx"
  "lx_has_mismatched_brackets (NoteWhitespace lx) = lx_has_mismatched_brackets lx"
  by (simp_all add: NoteWhitespace_def)

lemma set_line_indent_simps [simp]:
  "lx_line_index (set_line_indent i n lx) = lx_line_index lx" "lx_token_infos (set_line_indent i n lx) = lx_token_infos lx"
  "lx_has_leading_space (set_line_indent i n lx) = lx_has_leading_space lx"
  "lx_open_groups (set_line_indent i n lx) = lx_open_groups lx" "lx_stores (set_line_indent i n lx) = lx_stores lx"
  "lx_has_mismatched_brackets (set_line_indent i n lx) = lx_has_mismatched_brackets lx"
  "tb_source (lx_buffer (set_line_indent i n lx)) = tb_source (lx_buffer lx)"
  "tb_comments (lx_buffer (set_line_indent i n lx)) = tb_comments (lx_buffer lx)"
  "tb_post_lexing_recovery_tokens (lx_buffer (set_line_indent i n lx)) = tb_post_lexing_recovery_tokens (lx_buffer lx)"
  "tb_recovery_tokens (lx_buffer (set_line_indent i n lx)) = tb_recovery_tokens (lx_buffer lx)"
  "lx_lines (set_line_indent i n lx) = (lx_lines lx)[i := (lx_lines lx ! i)\<lparr>line_indent := n\<rparr>]"
  by (simp_all add: set_line_indent_def)

lemma line_start_update [simp]:
  "map line_start (xs[i := (xs ! i)\<lparr>line_indent := n\<rparr>]) = map line_start xs"
  by (rule map_update_same) simp

lemma frame_buffer_eq:
  assumes "frame env uval m lx lx1" "lx_buffer lx' = lx_buffer lx1" "lx_open_groups lx' = lx_open_groups lx1"
    "lx_has_mismatched_brackets lx' = lx_has_mismatched_brackets lx1"
  shows "frame env uval m lx lx'"
  using assms by (simp add: frame_def)

lemma frame_set_line_indent:
  assumes "frame env uval m lx lx1"
  shows "frame env uval m lx (set_line_indent i n lx1)"
  using assms gap_cong [of "lx_buffer (set_line_indent i n lx1)" "lx_buffer lx1"]
    comments_ok_cong [of "lx_buffer (set_line_indent i n lx1)" "lx_buffer lx1"] by (simp add: frame_def)

section \<open>Lines\<close>

lemma line_inv_advance:
  assumes "line_inv src pos lx" "lx_line_index lx' = lx_line_index lx" "lx_lines lx' = lx_lines lx"
    "pos < pos'" "pos' \<le> length src" "\<And>k. pos \<le> k \<Longrightarrow> k < pos' \<Longrightarrow> src ! k \<noteq> newline"
  shows "line_inv src pos' lx'"
proof -
  define li where "li = lx_line_index lx"
  have i: "line_ok src li pos" "line_starts src ! li \<le> pos" "line_starts src ! li + current_indent lx \<le> pos"
    using assms(1,4,5) by (simp_all add: line_inv_def line_ok_def li_def)
  have "line_ok src li pos'"
    by (rule line_ok_advance [OF i(1)]) (use assms(4,6) in simp_all)
  then show ?thesis using i(2,3) assms(2-5) by (simp add: line_inv_def li_def)
qed

lemma buffer_ok_lines:
  assumes "buffer_ok env uval src m tb"
  shows "length (tb_line_infos tb) = length (line_starts src)"
    "i < length (line_starts src) \<Longrightarrow> line_start (tb_line_infos tb ! i) = line_starts src ! i"
proof -
  have "map line_start (tb_line_infos tb) = line_starts src" using assms by (simp add: buffer_ok_def)
  then show len: "length (tb_line_infos tb) = length (line_starts src)"
      "i < length (line_starts src) \<Longrightarrow> line_start (tb_line_infos tb ! i) = line_starts src ! i"
    by (metis length_map, metis length_map nth_map)
qed

text \<open>Moving to a line: whitespace was noted, and only horizontal whitespace is skipped.\<close>

lemma AdvanceToLine_ok:
  assumes "buffer_ok env uval src m (lx_buffer lx)" "lx_has_leading_space lx"
    "lx_line_index lx \<le> j" "j < length (line_starts src)"
  obtains lx' pos' where "AdvanceToLine src j lx = Ret (lx', pos')" "frame env uval m lx lx'"
    "lx_has_leading_space lx'" "line_inv src pos' lx'" "line_starts src ! j \<le> pos'"
    "gap (lx_buffer lx') (line_starts src ! j) pos'" "tb_comments (lx_buffer lx') = tb_comments (lx_buffer lx)"
    "tb_dump_sem_ir_ranges (lx_buffer lx') = tb_dump_sem_ir_ranges (lx_buffer lx)"
proof -
  note lines = buffer_ok_lines [OF assms(1)]
  define start pos' where "start = line_starts src ! j" and "pos' = SkipHorizontalWhitespace src start"
  define lx' where "lx' = set_line_indent j (pos' - start) (lx\<lparr>lx_line_index := j\<rparr>)"
  have eq: "AdvanceToLine src j lx = Ret (lx', pos')"
    using assms(3,4) lines
    by (simp add: AdvanceToLine_def current_line_info_def store_get_def lx'_def pos'_def start_def Let_def)
  have start: "start \<le> length src" using line_starts_le_length [OF assms(4)] by (simp add: start_def)
  note skip = SkipHorizontalWhitespace_props [OF start, folded pos'_def]
  have src: "tb_source (lx_buffer lx) = src" using assms(1) by (simp add: buffer_ok_def)
  have fr: "frame env uval m lx lx'"
    unfolding lx'_def
    by (rule frame_set_line_indent, rule frame_buffer_eq [OF frame_refl [OF assms(1)]])
      (use assms(1) in \<open>simp_all add: buffer_ok_def\<close>)
  have "line_ok src j pos'"
    unfolding pos'_def by (rule line_ok_skip [OF _ start]) (use line_ok_start [OF assms(4)] in \<open>simp add: start_def\<close>)
  then have li: "line_inv src pos' lx'"
    using skip assms(2,4) lines(1) by (simp add: line_inv_def lx'_def start_def [symmetric])
  have gp: "gap (lx_buffer lx') start pos'"
    using skip src by (auto simp: gap_def lx'_def blank_def IsHorizontalWhitespace_def)
  show thesis
    by (rule that [OF eq fr]) (use assms(2) li gp skip in \<open>simp_all add: lx'_def start_def set_line_indent_def\<close>)
qed

section \<open>Comments\<close>

lemma gap_comments:
  assumes "tb_source tb' = tb_source tb" "\<And>k. in_comment tb k \<Longrightarrow> in_comment tb' k" "gap tb a b"
  shows "gap tb' a b"
  using assms by (auto simp: gap_def)

lemma AddComment_ok:
  assumes "start \<le> e" "e \<le> length (tb_source tb)" "starts_with (drop start (tb_source tb)) ''//''" "comments_ok tb"
  obtains cs where "AddComment indent start e tr tb = Ret (tb\<lparr>tb_comments := cs\<rparr>)"
    "\<And>k. in_comment tb k \<Longrightarrow> in_comment (tb\<lparr>tb_comments := cs\<rparr>) k" "gap (tb\<lparr>tb_comments := cs\<rparr>) start e"
    "comments_ok (tb\<lparr>tb_comments := cs\<rparr>)"
proof -
  define c where "c = last (tb_comments tb)"
  define merge where "merge \<longleftrightarrow> \<not> tr \<and> tb_comments tb \<noteq> [] \<and> \<not> comment_is_trailing c \<and>
    comment_start c + comment_length c + indent = start \<and>
    GetCommentCategory (tb_source tb) (comment_start c) = GetCommentCategory (tb_source tb) start"
  show thesis
  proof (cases merge)
    case False
    define cs where "cs = tb_comments tb @ [\<lparr>comment_start = start, comment_length = e - start, comment_is_trailing = tr\<rparr>]"
    have "AddComment indent start e tr tb = Ret (tb\<lparr>tb_comments := cs\<rparr>)"
      using False assms(1) by (auto simp: AddComment_def merge_def c_def cs_def Let_def)
    then show thesis by (rule that) (use assms in \<open>auto simp: in_comment_def gap_def comments_ok_def cs_def\<close>)
  next
    case True
    then obtain cs0 where cs0: "tb_comments tb = cs0 @ [c]"
      by (cases "tb_comments tb" rule: rev_cases) (auto simp: merge_def c_def)
    have m: "comment_start c + comment_length c + indent = start" using True by (simp add: merge_def)
    define cs where "cs = cs0 @ [c\<lparr>comment_length := e - comment_start c\<rparr>]"
    have "AddComment indent start e tr tb = Ret (tb\<lparr>tb_comments := cs\<rparr>)"
      using True m assms(1) cs0 by (simp add: AddComment_def merge_def cs_def Let_def)
    then show thesis by (rule that) (use assms m cs0 in \<open>auto simp: in_comment_def gap_def comments_ok_def cs_def\<close>)
  qed
qed

text \<open>Adding a comment, then moving to the line after it.\<close>

lemma comment_advance_ok:
  assumes "core env uval src m pos lx" "frame env uval m lx lx1" "lx_has_leading_space lx1" "lx_line_index lx1 \<le> j"
    "j < length (line_starts src)" "starts_with (drop pos src) ''//''" "pos < line_starts src ! j" "m + 1 < 2 ^ 21"
  shows "advances env uval src m pos
    (bind_outcome (AddComment indent pos (line_starts src ! j) tr (lx_buffer lx1)) (\<lambda>tb. AdvanceToLine src j (lx1\<lparr>lx_buffer := tb\<rparr>)))"
proof -
  have b1: "buffer_ok env uval src m (lx_buffer lx1)"
    using buffer_ok_frame(1) [OF core_tokens(2) [OF assms(1)] assms(2)] .
  then have b1': "tb_source (lx_buffer lx1) = src" "comments_ok (lx_buffer lx1)" by (simp_all add: buffer_ok_def)
  obtain cs where cs: "AddComment indent pos (line_starts src ! j) tr (lx_buffer lx1) = Ret ((lx_buffer lx1)\<lparr>tb_comments := cs\<rparr>)"
    "\<And>k. in_comment (lx_buffer lx1) k \<Longrightarrow> in_comment ((lx_buffer lx1)\<lparr>tb_comments := cs\<rparr>) k"
    "gap ((lx_buffer lx1)\<lparr>tb_comments := cs\<rparr>) pos (line_starts src ! j)" "comments_ok ((lx_buffer lx1)\<lparr>tb_comments := cs\<rparr>)"
    by (rule AddComment_ok [of pos "line_starts src ! j" "lx_buffer lx1" indent tr])
      (use assms(6,7) line_starts_le_length [OF assms(5)] b1' in auto)
  define lx2 where "lx2 = lx1\<lparr>lx_buffer := (lx_buffer lx1)\<lparr>tb_comments := cs\<rparr>\<rparr>"
  have b2: "buffer_ok env uval src m (lx_buffer lx2)"
    using b1 cs(4) by (simp add: buffer_ok_def lx2_def)
  have "frame env uval m lx1 lx2"
    using b1 cs(4) gap_comments [of "(lx_buffer lx1)\<lparr>tb_comments := cs\<rparr>" "lx_buffer lx1", OF _ cs(2)]
    by (simp add: frame_def lx2_def buffer_ok_def)
  then have f2: "frame env uval m lx lx2" by (rule frame_trans [OF assms(2)])
  obtain lx' pos' where a: "AdvanceToLine src j lx2 = Ret (lx', pos')" "frame env uval m lx2 lx'"
    "lx_has_leading_space lx'" "line_inv src pos' lx'" "line_starts src ! j \<le> pos'"
    "gap (lx_buffer lx') (line_starts src ! j) pos'" "tb_comments (lx_buffer lx') = tb_comments (lx_buffer lx2)"
    by (rule AdvanceToLine_ok [OF b2, of j]) (use assms(3-5) in \<open>auto simp: lx2_def\<close>)
  have "gap (lx_buffer lx') pos (line_starts src ! j)"
    using cs(3) a(2) by (simp add: frame_def lx2_def)
  then have g: "gap (lx_buffer lx') pos pos'" using a(6) by (rule gap_trans)
  have "frame env uval (m + 1) lx lx'"
    using frame_trans [OF f2 a(2)] assms(8) by (auto simp: frame_def intro: stores_ok_mono)
  from core_skip [OF assms(1) this a(3) g] assms(7) a(4,5)
  have "lex_inv env uval src (m + 1) pos' lx'" "pos < pos'" by (auto simp: lex_inv_def)
  then show ?thesis using cs(1) a(1) by (auto simp: advances_def lx2_def)
qed

end
