(* ===== verification/Lexer_Handlers.thy ===== *)
theory Lexer_Handlers
  imports Lexer_Inv
begin

text \<open>
  The handlers that need nothing from outside: whitespace, errors, symbols, groups and comments.
  Each returns at a later position with the invariant kept.
\<close>

definition ready :: "'a lex_env \<Rightarrow> ('a \<Rightarrow> int) \<Rightarrow> string \<Rightarrow> nat \<Rightarrow> nat \<Rightarrow> 'a Lexer \<Rightarrow> bool" where
  "ready env uval src m pos lx \<longleftrightarrow> core env uval src m pos lx \<and> line_inv src pos lx \<and> pos < length src \<and>
     m + 1 < 2 ^ 21 \<and> length src < 2 ^ 21"

lemma ready_source: "ready env uval src m pos lx \<Longrightarrow> tb_source (lx_buffer lx) = src"
  by (auto simp: ready_def core_def pre_core_def buffer_ok_def)

lemma ready_buffer: "ready env uval src m pos lx \<Longrightarrow> buffer_ok env uval src m (lx_buffer lx)"
  by (auto simp: ready_def core_def pre_core_def)

lemma ready_frame:
  assumes "ready env uval src m pos lx"
  shows "frame env uval (m + 1) lx lx" "frame env uval m lx lx"
proof -
  have "m + 1 < 2 ^ 21" using assms by (simp add: ready_def)
  with frame_refl [OF ready_buffer [OF assms], of "m + 1"] frame_refl [OF ready_buffer [OF assms], of m]
  show "frame env uval (m + 1) lx lx" "frame env uval m lx lx" by simp_all
qed

lemma lex_inv_emit [simp]: "lex_inv env uval src m pos (emit p d lx) = lex_inv env uval src m pos lx"
  by (simp add: lex_inv_def core_def pending_def pre_core_def line_inv_def)

lemma advances_emit [simp]:
  "advances env uval src m pos (Ret (emit p d lx, pos')) = advances env uval src m pos (Ret (lx, pos'))"
  by (simp add: advances_def)

section \<open>Token texts\<close>

lemma tok_ok_fixed:
  assumes "fixed_spelling (ti_kind ti) \<noteq> []" "starts_with (drop (ti_byte_offset ti) (tb_source tb)) (fixed_spelling (ti_kind ti))"
  shows "tok_ok env tb ti (fixed_spelling (ti_kind ti))"
proof -
  have "ti_kind ti \<notin> {FileStart, FileEnd, Identifier}" using assms(1) by auto
  with assms show ?thesis by (simp add: tok_ok_def info_text_def)
qed

lemma starts_with_substr: "starts_with (drop off s) (substr s off n)"
  by (auto simp: starts_with_iff substr_def intro: append_take_drop_id [symmetric])

lemma tok_ok_error:
  assumes "0 < n" "n < 2 ^ 23" "off + n \<le> length (tb_source tb)"
  shows "tok_ok env tb (TokenInfo_payload Error sp (int n) off) (substr (tb_source tb) off n)"
  using assms error_length_payload [OF assms(2), of sp off]
  by (simp add: tok_ok_def info_text_def starts_with_substr Let_def) (simp add: substr_def)

text \<open>Adding a token of a known text.\<close>

lemma starts_with_nth: "starts_with (drop pos s) w \<Longrightarrow> k < length w \<Longrightarrow> s ! (pos + k) = w ! k"
proof -
  assume a: "starts_with (drop pos s) w" "k < length w"
  then obtain t where t: "drop pos s = w @ t" by (auto simp: starts_with_iff)
  then have "pos \<le> length s" using a(2) by (cases "pos \<le> length s") auto
  then have "s ! (pos + k) = drop pos s ! k" by simp
  with t a(2) show ?thesis by (simp add: nth_append)
qed

lemma starts_with_drop_length: "starts_with (drop pos s) w \<Longrightarrow> w \<noteq> [] \<Longrightarrow> pos + length w \<le> length s"
  using starts_with_length [of "drop pos s" w] by (cases w) auto

lemma text_no_newline:
  assumes "starts_with (drop pos s) w" "newline \<notin> set w" "pos \<le> k" "k < pos + length w"
  shows "s ! k \<noteq> newline"
proof -
  have "s ! (pos + (k - pos)) = w ! (k - pos)"
    using assms(3,4) by (intro starts_with_nth [OF assms(1)]) simp
  moreover have "w ! (k - pos) \<in> set w" using assms(3,4) by (intro nth_mem) simp
  ultimately have "s ! k \<in> set w" using assms(3) by simp
  with assms(2) show ?thesis by auto
qed

lemma line_inv_text:
  assumes "line_inv src pos lx" "lx_line_index lx' = lx_line_index lx" "lx_lines lx' = lx_lines lx"
    "starts_with (drop pos src) w" "w \<noteq> []" "newline \<notin> set w"
  shows "line_inv src (pos + length w) lx'"
proof (rule line_inv_advance [OF assms(1-3)])
  show "src ! k \<noteq> newline" if "pos \<le> k" "k < pos + length w" for k
    using text_no_newline [OF assms(4,6) that] .
qed (use assms(5) starts_with_drop_length [OF assms(4,5)] in simp_all)

lemma token_advances:
  assumes "ready env uval src m pos lx" "frame env uval (m + 1) lx lx1"
    "lx_has_leading_space lx1 = lx_has_leading_space lx" "lx_line_index lx1 = lx_line_index lx" "lx_lines lx1 = lx_lines lx"
    "ti_byte_offset info = pos" "groupless info" "tok_ok env (lx_buffer lx1) info w" "w \<noteq> []" "newline \<notin> set w"
    "pos' = pos + length w"
  shows "advances env uval src m pos (Ret (add_tok info lx1, pos'))"
proof -
  have r: "core env uval src m pos lx" "line_inv src pos lx" using assms(1) by (simp_all add: ready_def)
  have "core env uval src (m + 1) pos lx1" by (rule core_frame [OF r(1) assms(2,3)])
  from core_add [OF this assms(6-9)] have c: "core env uval src (m + 1) (pos + length w) (add_tok info lx1)" .
  have "starts_with (drop pos src) w"
    using assms(6,8) ready_source [OF assms(1)] assms(2) by (simp add: tok_ok_def frame_def)
  then have "line_inv src (pos + length w) (add_tok info lx1)"
    by (intro line_inv_text [OF r(2)]) (simp_all add: assms(4,5,9,10))
  with c assms(9,11) show ?thesis by (simp add: advances_def lex_inv_def)
qed

section \<open>Whitespace\<close>

lemma skip_advances:
  assumes "ready env uval src m pos lx" "frame env uval m lx lx'" "lx_has_leading_space lx'"
    "gap (lx_buffer lx') pos pos'" "pos < pos'" "line_inv src pos' lx'"
  shows "advances env uval src m pos (Ret (lx', pos'))"
proof -
  have "frame env uval (m + 1) lx lx'"
    using assms(1,2) by (auto simp: frame_def ready_def intro: stores_ok_mono)
  with assms core_skip [of env uval src m pos lx] show ?thesis by (simp add: advances_def lex_inv_def ready_def)
qed

lemma frame_NoteWhitespace: "frame env uval m lx lx1 \<Longrightarrow> frame env uval m lx (NoteWhitespace lx1)"
  by (erule frame_buffer_eq) simp_all

lemma frame_emit: "frame env uval m lx lx1 \<Longrightarrow> frame env uval m lx (emit p d lx1)"
  by (erule frame_buffer_eq) simp_all

lemma frame_emit_all: "frame env uval m lx lx1 \<Longrightarrow> frame env uval m lx (emit_all p f ds lx1)"
  by (erule frame_buffer_eq) simp_all

lemma gap_blank:
  assumes "tb_source tb = src" "a \<le> b" "\<And>k. a \<le> k \<Longrightarrow> k < b \<Longrightarrow> blank (src ! k)"
  shows "gap tb a b"
  using assms by (simp add: gap_def)

lemma LexHorizontalWhitespace_ok:
  assumes "ready env uval src m pos lx" "src ! pos = CHR '' '' \<or> src ! pos = tab"
  shows "advances env uval src m pos (LexHorizontalWhitespace src pos lx)"
proof -
  have pos: "pos < length src" "line_inv src pos lx" using assms(1) by (simp_all add: ready_def)
  define pos' where "pos' = SkipHorizontalWhitespace src pos"
  have le: "pos \<le> length src" using pos(1) by simp
  have skip: "pos < pos'" "pos' \<le> length src" "\<And>k. pos \<le> k \<Longrightarrow> k < pos' \<Longrightarrow> IsHorizontalWhitespace (src ! k)"
    using SkipHorizontalWhitespace_props [OF le] SkipHorizontalWhitespace_grows [OF pos(1)] assms(2)
    by (auto simp: pos'_def IsHorizontalWhitespace_def)
  have "advances env uval src m pos (Ret (NoteWhitespace lx, pos'))"
  proof (rule skip_advances [OF assms(1) frame_NoteWhitespace [OF ready_frame(2) [OF assms(1)]]])
    show "gap (lx_buffer (NoteWhitespace lx)) pos pos'"
      by (rule gap_blank) (use ready_source [OF assms(1)] skip in \<open>auto simp: blank_def IsHorizontalWhitespace_def\<close>)
    show "line_inv src pos' (NoteWhitespace lx)"
      by (rule line_inv_advance [OF pos(2)]) (use skip IsHorizontalWhitespace_not_newline in auto)
  qed (use skip in simp_all)
  then show ?thesis using assms(2) by (simp add: LexHorizontalWhitespace_def pos'_def)
qed

lemma next_line_of:
  assumes "line_inv src pos lx" "pos < length src"
  shows "lx_line_index lx + 1 < length (line_starts src)" "pos < line_starts src ! (lx_line_index lx + 1)"
  using assms by (simp_all add: line_inv_def line_ok_def)

lemma next_line_after_newline:
  assumes "line_inv src pos lx" "pos \<le> e" "e < length src" "src ! e = newline"
    "\<And>k. pos \<le> k \<Longrightarrow> k < e \<Longrightarrow> src ! k \<noteq> newline"
  shows "line_starts src ! (lx_line_index lx + 1) = e + 1"
proof -
  define li where "li = lx_line_index lx"
  have n: "li + 1 < length (line_starts src)" "pos < line_starts src ! (li + 1)"
    using next_line_of [OF assms(1)] assms(2,3) by (simp_all add: li_def)
  have le: "line_starts src ! li \<le> pos" using assms(1) by (simp add: line_inv_def line_ok_def li_def)
  have "\<not> e + 1 < line_starts src ! (li + 1)" using line_starts_nth(3) [OF n(1), of e] le assms(2,4) by auto
  moreover have "\<not> line_starts src ! (li + 1) \<le> e"
  proof
    assume less: "line_starts src ! (li + 1) \<le> e"
    then have "src ! (line_starts src ! (li + 1) - 1) = newline" using line_starts_nth(4) [OF n(1)] assms(3) by auto
    moreover have "pos \<le> line_starts src ! (li + 1) - 1" "line_starts src ! (li + 1) - 1 < e" using n(2) less by linarith+
    ultimately show False using assms(5) by blast
  qed
  ultimately show ?thesis by (simp add: li_def)
qed

lemma LexVerticalWhitespace_ok:
  assumes "ready env uval src m pos lx" "pos \<le> e" "e < length src" "src ! e = newline"
    "\<And>k. pos \<le> k \<Longrightarrow> k < e \<Longrightarrow> src ! k = carriage_return"
  shows "advances env uval src m pos (LexVerticalWhitespace src pos lx)"
proof -
  have pos: "pos < length src" "line_inv src pos lx" using assms(1) by (simp_all add: ready_def)
  have n: "lx_line_index lx + 1 < length (line_starts src)" using next_line_of [OF pos(2,1)] by simp
  have start: "line_starts src ! (lx_line_index lx + 1) = e + 1"
    by (rule next_line_after_newline [OF pos(2) assms(2-4)]) (use assms(5) in \<open>auto simp: special_chars\<close>)
  obtain lx' pos' where a: "AdvanceToLine src (lx_line_index lx + 1) (NoteWhitespace lx) = Ret (lx', pos')"
    "frame env uval m (NoteWhitespace lx) lx'" "lx_has_leading_space lx'" "line_inv src pos' lx'"
    "line_starts src ! (lx_line_index lx + 1) \<le> pos'" "gap (lx_buffer lx') (line_starts src ! (lx_line_index lx + 1)) pos'"
    by (rule AdvanceToLine_ok [of env uval src m "NoteWhitespace lx" "lx_line_index lx + 1"])
      (use ready_buffer [OF assms(1)] n in auto)
  have fr: "frame env uval m lx lx'"
    using frame_trans [OF frame_NoteWhitespace [OF ready_frame(2) [OF assms(1)]] a(2)] .
  have "gap (lx_buffer lx') pos (e + 1)"
  proof (rule gap_blank)
    show "tb_source (lx_buffer lx') = src" using fr ready_source [OF assms(1)] by (simp add: frame_def)
    show "blank (src ! k)" if "pos \<le> k" "k < e + 1" for k
      using that assms(4) assms(5) [of k] by (cases "k = e") (auto simp: blank_def)
  qed (use assms(2) in simp)
  with a(6) have "gap (lx_buffer lx') pos pos'" unfolding start by (rule gap_trans [rotated])
  then have "advances env uval src m pos (Ret (lx', pos'))"
    using a(3-5) start assms(2) by (intro skip_advances [OF assms(1) fr]) auto
  then show ?thesis using a(1) by (simp add: LexVerticalWhitespace_def)
qed

lemma LexCR_ok:
  assumes "ready env uval src m pos lx" "src ! pos = carriage_return"
  shows "advances env uval src m pos (LexCR src pos lx)"
proof (cases "pos + 1 < length src \<and> src ! (pos + 1) = newline")
  case True
  then have "advances env uval src m pos (LexVerticalWhitespace src pos lx)"
    by (intro LexVerticalWhitespace_ok [OF assms(1), of "pos + 1"]) (use assms(2) in \<open>auto simp: le_Suc_eq less_Suc_eq\<close>)
  with True show ?thesis by (simp add: LexCR_def)
next
  case False
  have pos: "pos < length src" "line_inv src pos lx" using assms(1) by (simp_all add: ready_def)
  define lx1 where "lx1 = emit pos (if 0 < pos \<and> src ! (pos - 1) = newline then UnsupportedLfCrLineEnding
    else UnsupportedCrLineEnding) lx"
  have "advances env uval src m pos (Ret (NoteWhitespace lx1, pos + 1))"
  proof (rule skip_advances [OF assms(1)])
    show "frame env uval m lx (NoteWhitespace lx1)"
      unfolding lx1_def by (intro frame_NoteWhitespace frame_emit ready_frame(2) [OF assms(1)])
    show "gap (lx_buffer (NoteWhitespace lx1)) pos (pos + 1)"
      by (rule gap_blank) (use ready_source [OF assms(1)] assms(2) in \<open>auto simp: lx1_def blank_def less_Suc_eq\<close>)
    show "line_inv src (pos + 1) (NoteWhitespace lx1)"
      by (rule line_inv_advance [OF pos(2)])
        (use pos(1) assms(2) in \<open>auto simp: lx1_def less_Suc_eq special_chars\<close>)
  qed simp_all
  moreover have "LexCR src pos lx = Ret (NoteWhitespace lx1, pos + 1)"
    unfolding LexCR_def lx1_def Let_def using False by (simp only: if_False)
  ultimately show ?thesis by simp
qed

section \<open>Errors and symbols\<close>

lemma error_token_advances:
  assumes "ready env uval src m pos lx" "frame env uval (m + 1) lx lx1"
    "lx_has_leading_space lx1 = lx_has_leading_space lx" "lx_line_index lx1 = lx_line_index lx" "lx_lines lx1 = lx_lines lx"
    "0 < n" "pos + n \<le> length src" "newline \<notin> set (substr src pos n)"
  shows "advances env uval src m pos (Ret (add_tok (TokenInfo_payload Error sp (int n) pos) lx1, pos + n))"
proof (rule token_advances [OF assms(1-5)])
  have src: "tb_source (lx_buffer lx1) = src" using assms(2) ready_source [OF assms(1)] by (simp add: frame_def)
  have "n < 2 ^ 23" using assms(1,7) by (simp add: ready_def)
  then show "tok_ok env (lx_buffer lx1) (TokenInfo_payload Error sp (int n) pos) (substr src pos n)"
    using tok_ok_error [of n pos "lx_buffer lx1" env sp] assms(6,7) src by simp
  show "groupless (TokenInfo_payload Error sp (int n) pos)" by (simp add: is_grouping_symbol_def)
  show "pos + n = pos + length (substr src pos n)" "substr src pos n \<noteq> []" using assms(6,7) by (auto simp: substr_def)
qed (use assms(8) in simp_all)

lemma LexError_ok:
  assumes "ready env uval src m pos lx" "src ! pos \<noteq> newline"
  shows "advances env uval src m pos (LexError src pos lx)"
proof -
  have pos: "pos < length src" using assms(1) by (simp add: ready_def)
  define t where "t = takeWhile error_char (drop pos src)"
  define n where "n = (if t = [] then 1 else length t)"
  have len: "length t \<le> length src - pos"
    using length_takeWhile_le [of error_char "drop pos src"] by (simp add: t_def)
  have eq: "(if t = [] then substr src pos 1 else t) = substr src pos n"
    using take_while_eq_take [of error_char "drop pos src"] by (simp add: n_def t_def substr_def)
  have n: "0 < n" "pos + n \<le> length src" using len pos by (auto simp: n_def)
  have nl: "newline \<notin> set (substr src pos n)"
  proof (cases "t = []")
    case True
    then show ?thesis using assms(2) pos by (simp add: n_def substr_def take_Suc_conv_app_nth hd_drop_conv_nth take_Suc)
  next
    case False
    then have "substr src pos n = t" using eq by simp
    then show ?thesis unfolding t_def by (auto dest: set_takeWhileD simp: error_char_def)
  qed
  have "advances env uval src m pos (Ret (add_tok (TokenInfo_payload Error (lx_has_leading_space lx) (int n) pos) lx, pos + n))"
    by (rule error_token_advances [OF assms(1) ready_frame(1) [OF assms(1)]]) (use n nl in simp_all)
  moreover have "LexError src pos lx = Ret (emit pos UnrecognizedCharacters
      (add_tok (TokenInfo_payload Error (lx_has_leading_space lx) (int n) pos) lx), pos + n)"
    using n unfolding LexError_def Let_def t_def [symmetric] eq
    by (simp add: LexTokenWithPayload_def split_def) (simp add: substr_def)
  ultimately show ?thesis by simp
qed

lemma LexToken_ok:
  "fixed_spelling kind \<noteq> [] \<Longrightarrow> LexToken kind off lx =
     Ret (length (lx_token_infos lx), add_tok (TokenInfo_plain kind (lx_has_leading_space lx) off) lx)"
  by (cases kind) (simp_all add: LexToken_def AddLexedToken_def AddToken_def)

lemma symbol_spelling_no_newline: "newline \<notin> set (symbol_spelling s)"
  by (cases s) (simp_all add: newline_def)

lemma keyword_spelling_no_newline: "newline \<notin> set (keyword_spelling k)"
  by (cases k) (simp_all add: newline_def)

lemma fixed_spelling_no_newline: "newline \<notin> set (fixed_spelling k)"
  by (cases k) (simp_all add: symbol_spelling_no_newline keyword_spelling_no_newline)

lemma fixed_token_advances:
  assumes "ready env uval src m pos lx" "fixed_spelling kind \<noteq> []" "starts_with (drop pos src) (fixed_spelling kind)"
    "\<not> is_grouping_symbol kind" "pos' = pos + length (fixed_spelling kind)"
  shows "advances env uval src m pos (bind_outcome (LexToken kind pos lx) (\<lambda>(token, lx). Ret (lx, pos')))"
proof -
  have "advances env uval src m pos (Ret (add_tok (TokenInfo_plain kind (lx_has_leading_space lx) pos) lx, pos'))"
    by (rule token_advances [OF assms(1) ready_frame(1) [OF assms(1)]])
      (use tok_ok_fixed [of "TokenInfo_plain kind (lx_has_leading_space lx) pos" "lx_buffer lx" env] assms
        ready_source [OF assms(1)] fixed_spelling_no_newline in simp_all)
  then show ?thesis using LexToken_ok [OF assms(2), of pos lx] by simp
qed

lemma multi_char_symbol_props:
  assumes "multi_char_symbol s = Some smb"
  shows "starts_with s (symbol_spelling smb)" "smb \<notin> set one_char_symbols" "\<not> is_grouping_symbol (Symbol smb)"
proof -
  show s: "starts_with s (symbol_spelling smb)" "smb \<notin> set one_char_symbols"
    using assms by (auto simp: multi_char_symbol_def find_Some_iff dest: nth_mem)
  show "\<not> is_grouping_symbol (Symbol smb)"
    using s(2) by (auto simp: is_grouping_symbol_def one_char_symbols_def)
qed

lemma LexSymbolToken_ok:
  assumes "ready env uval src m pos lx" "src ! pos \<noteq> newline"
  shows "advances env uval src m pos (LexSymbolToken src pos lx)"
proof (cases "multi_char_symbol (drop pos src)")
  case None
  then show ?thesis using LexError_ok [OF assms] by (simp add: LexSymbolToken_def)
next
  case (Some smb)
  note p = multi_char_symbol_props [OF Some]
  have "advances env uval src m pos (bind_outcome (LexToken (Symbol smb) pos lx)
      (\<lambda>(token, lx). Ret (lx, pos + length (fixed_spelling (Symbol smb)))))"
    by (rule fixed_token_advances [OF assms(1)]) (use p symbol_spelling_nonempty in simp_all)
  with Some show ?thesis by (simp add: LexSymbolToken_def)
qed


section \<open>Groups\<close>

text \<open>The entry of the table for a byte that dispatches to a one-character symbol.\<close>

lemma OneCharTokenKindTable_props:
  assumes "find (\<lambda>smb. symbol_byte smb = byte_of c) (rev one_char_symbols) = Some smb"
  shows "OneCharTokenKindTable (byte_of c) = Symbol smb" "smb \<in> set one_char_symbols" "symbol_spelling smb = [c]"
proof -
  show "OneCharTokenKindTable (byte_of c) = Symbol smb" using assms by (simp add: OneCharTokenKindTable_def)
  have "smb \<in> set one_char_symbols \<and> symbol_byte smb = byte_of c"
    using assms by (auto simp: find_Some_iff) (metis length_rev nth_mem set_rev)
  then have s: "smb \<in> set one_char_symbols" "symbol_byte smb = byte_of c" by simp_all
  show "smb \<in> set one_char_symbols" by fact
  show "symbol_spelling smb = [c]"
    using one_char_symbol_alone(1) [OF s(1)] s(2) by (cases "symbol_spelling smb") (auto simp: symbol_byte_def)
qed

lemma starts_with_single: "pos < length s \<Longrightarrow> starts_with (drop pos s) [s ! pos]"
  by (simp add: Cons_nth_drop_Suc [symmetric])

lemma LexOneCharSymbolToken_ok:
  assumes "ready env uval src m pos lx" "fixed_spelling kind = [src ! pos]" "\<not> is_grouping_symbol kind"
  shows "advances env uval src m pos (LexOneCharSymbolToken src kind pos lx)"
proof -
  have pos: "pos < length src" using assms(1) by (simp add: ready_def)
  have "kind \<noteq> Error" using assms(2) by auto
  with fixed_token_advances [OF assms(1), of kind "pos + 1"] assms(2,3) starts_with_single [OF pos]
  show ?thesis by (simp add: LexOneCharSymbolToken_def)
qed

lemma line_inv_single:
  assumes "ready env uval src m pos lx" "lx_line_index lx' = lx_line_index lx" "lx_lines lx' = lx_lines lx" "src ! pos \<noteq> newline"
  shows "line_inv src (pos + 1) lx'"
  using line_inv_text [OF _ assms(2,3), of src pos "[src ! pos]"] assms(1,4) starts_with_single [of pos src]
  by (simp add: ready_def)

lemma fixed_single_not_newline: "fixed_spelling kind = [c] \<Longrightarrow> c \<noteq> newline"
  using fixed_spelling_no_newline [of kind] by auto

text \<open>A state whose last token is the one character at the position.\<close>

lemma group_token_advances:
  assumes "ready env uval src m pos lx" "pre_core env uval src m lx'" "fixed_spelling (ti_kind (last_token lx')) = [src ! pos]"
    "last_offset lx' = pos" "\<not> lx_has_leading_space lx'" "lx_line_index lx' = lx_line_index lx" "lx_lines lx' = lx_lines lx"
  shows "advances env uval src m pos (Ret (lx', pos + 1))"
proof -
  have pos: "pos < length src" "m + 1 < 2 ^ 21" using assms(1) by (simp_all add: ready_def)
  have "buffer_ok env uval src m (lx_buffer lx')" using assms(2) by (simp add: pre_core_def)
  then have p: "pre_core env uval src (m + 1) lx'" "tb_source (lx_buffer lx') = src"
    using pre_core_frame [OF assms(2) frame_refl, of src m "m + 1"] pos(2) by (simp_all add: buffer_ok_def)
  have "tok_ok env (lx_buffer lx') (last_token lx') [src ! pos]"
    using tok_ok_fixed [of "last_token lx'" "lx_buffer lx'" env] assms(3,4) p(2) starts_with_single [OF pos(1)] by simp
  from core_finish [OF p(1) this, of "pos + 1"] assms(4,5)
  have "core env uval src (m + 1) (pos + 1) lx'" by simp
  moreover have "line_inv src (pos + 1) lx'"
    by (rule line_inv_single [OF assms(1,6,7)]) (use fixed_single_not_newline [OF assms(3)] in simp)
  ultimately show ?thesis by (simp add: advances_def lex_inv_def)
qed

lemma LexOpeningSymbolToken_ok:
  assumes "ready env uval src m pos lx" "fixed_spelling kind = [src ! pos]" "is_opening_symbol kind"
  shows "advances env uval src m pos (LexOpeningSymbolToken src kind pos lx)"
proof -
  define info where "info = TokenInfo_plain kind (lx_has_leading_space lx) pos"
  define lx' where "lx' = (add_tok info lx)\<lparr>lx_open_groups := length (lx_token_infos lx) # lx_open_groups lx\<rparr>"
  have "core env uval src m pos lx" using assms(1) by (simp add: ready_def)
  from pre_core_open [OF this, of info] assms(3) have "pre_core env uval src m lx'" by (simp add: lx'_def info_def)
  from group_token_advances [OF assms(1) this] assms(2) have "advances env uval src m pos (Ret (lx', pos + 1))"
    by (simp add: lx'_def info_def)
  then show ?thesis
    using LexToken_ok [of kind pos lx] assms(2,3) by (simp add: LexOpeningSymbolToken_def lx'_def info_def)
qed

lemma LexClosingSymbolToken_ok:
  assumes "ready env uval src m pos lx" "fixed_spelling kind = [src ! pos]" "is_closing_symbol kind"
  shows "advances env uval src m pos (LexClosingSymbolToken src kind pos lx)"
proof -
  have c: "core env uval src m pos lx" "pos < 2 ^ 22" using assms(1) by (simp_all add: ready_def)
  note buf = ready_buffer [OF assms(1)]
  obtain expected where expected: "opening_symbol kind = Ret expected"
    using assms(3) by (cases kind) (auto simp: opening_symbol_def OpeningSymbol_def)
  show ?thesis
  proof (cases "lx_open_groups lx")
    case Nil
    define info where "info = TokenInfo_plain kind (lx_has_leading_space lx) pos"
    define lx' where "lx' = add_tok info (lx\<lparr>lx_has_mismatched_brackets := True\<rparr>)"
    have "pre_core env uval src m lx'"
      by (rule pre_core_mismatch [OF c(1), of info])
        (use Nil buf assms(3) in \<open>auto simp: lx'_def info_def intro!: buffer_ok_cong [OF buf]\<close>)
    from group_token_advances [OF assms(1) this] assms(2) have "advances env uval src m pos (Ret (lx', pos + 1))"
      by (simp add: lx'_def info_def)
    then show ?thesis
      using LexToken_ok [of kind pos "lx\<lparr>lx_has_mismatched_brackets := True\<rparr>"] assms(2,3) Nil
      by (simp add: LexClosingSymbolToken_def lx'_def info_def)
  next
    case (Cons g rest)
    define ts where "ts = lx_token_infos lx"
    define info where "info = TokenInfo_payload kind (lx_has_leading_space lx) (int g) pos"
    define lx1 where "lx1 = add_tok info (lx\<lparr>lx_open_groups := rest\<rparr>)"
    have g: "g < length ts" "is_opening_symbol (ti_kind (ts ! g))"
      using core_tokens(1) [OF c(1)] Cons by (simp_all add: opens_ok_def ts_def)
    have infos: "lx_token_infos lx1 = ts @ [info]" by (simp add: lx1_def ts_def)
    have eq: "LexClosingSymbolToken src kind pos lx =
      (if ti_kind (ts ! g) \<noteq> expected
       then Ret ((set_token_info (length ts) (info\<lparr>ti_payload := Some (word_of_int TokenIndex_None)\<rparr>) lx1)
                  \<lparr>lx_has_mismatched_brackets := True\<rparr>, pos + 1)
       else Ret (set_token_info g ((ts ! g)\<lparr>ti_payload := Some (word_of_nat (length ts))\<rparr>) lx1, pos + 1))"
      using assms(2,3) Cons g expected opening_symbol_kinds [OF expected]
      by (simp add: LexClosingSymbolToken_def LexTokenWithPayload_def split_def store_get_def
          set_closing_token_index_def set_opening_token_index_def nth_append info_def lx1_def ts_def Let_def)
    show ?thesis
    proof (cases "ti_kind (ts ! g) = expected")
      case True
      define lx' where "lx' = set_token_info g ((ts ! g)\<lparr>ti_payload := Some (word_of_nat (length ts))\<rparr>) lx1"
      have tk: "lx_token_infos lx' = close_group ts g info" by (simp add: lx'_def infos close_group_def)
      have "pre_core env uval src m lx'"
        by (rule pre_core_close [OF c(1), of info g rest])
          (use Cons expected True tk c(2) in \<open>auto simp: lx'_def lx1_def info_def ts_def TokenInfo_payload_def
            intro!: buffer_ok_cong [OF buf]\<close>)
      moreover have "last_token lx' = info"
        using g(1) by (simp add: tk close_group_def list_update_append)
      ultimately have "advances env uval src m pos (Ret (lx', pos + 1))"
        using group_token_advances [OF assms(1), of lx'] assms(2) by (simp add: info_def) (simp add: lx'_def lx1_def)
      then show ?thesis using eq True by (simp add: lx'_def)
    next
      case False
      define info' lx' where "info' = info\<lparr>ti_payload := Some (word_of_int TokenIndex_None)\<rparr>"
        and "lx' = (set_token_info (length ts) info' lx1)\<lparr>lx_has_mismatched_brackets := True\<rparr>"
      have tk: "lx_token_infos lx' = ts @ [info']" by (simp add: lx'_def infos)
      have "pre_core env uval src m lx'"
        by (rule pre_core_mismatch [OF c(1), of info'])
          (use Cons tk assms(3) expected False in \<open>auto simp: lx'_def lx1_def info'_def info_def ts_def intro!: buffer_ok_cong [OF buf]\<close>)
      then have "advances env uval src m pos (Ret (lx', pos + 1))"
        using group_token_advances [OF assms(1), of lx'] assms(2) tk
        by (simp add: info'_def info_def) (simp add: lx'_def lx1_def)
      then show ?thesis using eq False by (simp add: lx'_def info'_def)
    qed
  qed
qed


section \<open>Comments\<close>

definition same_place :: "'a Lexer \<Rightarrow> 'a Lexer \<Rightarrow> bool" where
  "same_place lx lx' \<longleftrightarrow> lx_has_leading_space lx' = lx_has_leading_space lx \<and> lx_line_index lx' = lx_line_index lx"

lemma frame_with_buffer:
  assumes "frame env uval m lx lx1" "lx_open_groups lx' = lx_open_groups lx1"
    "lx_has_mismatched_brackets lx' = lx_has_mismatched_brackets lx1"
    "tb_source (lx_buffer lx') = tb_source (lx_buffer lx1)" "lx_lines lx' = lx_lines lx1" "lx_stores lx' = lx_stores lx1"
    "lx_token_infos lx' = lx_token_infos lx1" "tb_comments (lx_buffer lx') = tb_comments (lx_buffer lx1)"
    "tb_post_lexing_recovery_tokens (lx_buffer lx') = tb_post_lexing_recovery_tokens (lx_buffer lx1)"
    "tb_recovery_tokens (lx_buffer lx') = tb_recovery_tokens (lx_buffer lx1)"
  shows "frame env uval m lx lx'"
  using assms gap_cong [of "lx_buffer lx'" "lx_buffer lx1"] comments_ok_cong [of "lx_buffer lx'" "lx_buffer lx1"]
  by (simp add: frame_def)

lemma frame_EndDump:
  "frame env uval m lx lx1 \<Longrightarrow> frame env uval m lx (EndDumpSemIRRange p lx1) \<and> same_place lx1 (EndDumpSemIRRange p lx1) \<and>
     lx_lines (EndDumpSemIRRange p lx1) = lx_lines lx1"
  by (auto simp: EndDumpSemIRRange_def Let_def same_place_def intro: frame_with_buffer)

lemma frame_EndDumpIfIncomplete:
  "frame env uval m lx lx1 \<Longrightarrow> frame env uval m lx (EndDumpSemIRRangeIfIncomplete p lx1) \<and>
     same_place lx1 (EndDumpSemIRRangeIfIncomplete p lx1) \<and> lx_lines (EndDumpSemIRRangeIfIncomplete p lx1) = lx_lines lx1"
  using frame_EndDump [of env uval m lx "emit p DumpSemIRRangeMissingEnd lx1" p]
  by (auto simp: EndDumpSemIRRangeIfIncomplete_def Let_def same_place_def intro: frame_emit)

lemma frame_BeginDump:
  assumes "frame env uval m lx lx1"
  shows "frame env uval m lx (BeginDumpSemIRRange p lx1) \<and> same_place lx1 (BeginDumpSemIRRange p lx1) \<and>
     lx_lines (BeginDumpSemIRRange p lx1) = lx_lines lx1"
  using frame_EndDumpIfIncomplete [OF assms, of p]
  by (auto simp: BeginDumpSemIRRange_def Let_def same_place_def intro: frame_with_buffer)

lemma skip_to_next_line_ok:
  assumes "buffer_ok env uval src m (lx_buffer lx)" "j + 1 < length (line_starts src)"
  shows "skip_to_next_line indent j lx = Ret (set_line_indent (j + 1) indent lx, j + 1, line_starts src ! (j + 1))"
    "buffer_ok env uval src m (lx_buffer (set_line_indent (j + 1) indent lx))"
    "frame env uval m lx (set_line_indent (j + 1) indent lx)"
proof -
  have f: "frame env uval m lx lx" by (rule frame_refl [OF assms(1)]) (use assms(1) in \<open>simp_all add: buffer_ok_def\<close>)
  show "frame env uval m lx (set_line_indent (j + 1) indent lx)" by (rule frame_set_line_indent [OF f])
  from buffer_ok_frame(1) [OF assms(1) this] show "buffer_ok env uval src m (lx_buffer (set_line_indent (j + 1) indent lx))" .
  show "skip_to_next_line indent j lx = Ret (set_line_indent (j + 1) indent lx, j + 1, line_starts src ! (j + 1))"
    using buffer_ok_lines [OF assms(1)] assms(2) by (simp add: skip_to_next_line_def store_get_def)
qed

text \<open>A block of lines ends at the start of a line.\<close>

definition block_ends :: "'a lex_env \<Rightarrow> ('a \<Rightarrow> int) \<Rightarrow> string \<Rightarrow> nat \<Rightarrow> nat \<Rightarrow> 'a Lexer \<Rightarrow> ('a Lexer \<times> nat \<times> nat) outcome \<Rightarrow> bool" where
  "block_ends env uval src m i lx r \<longleftrightarrow> (\<exists>lx' j. r = Ret (lx', j, line_starts src ! j) \<and> i \<le> j \<and>
     j < length (line_starts src) \<and> frame env uval m lx lx' \<and> same_place lx lx')"

lemma block_ends_here:
  assumes "buffer_ok env uval src m (lx_buffer lx)" "i < length (line_starts src)"
  shows "block_ends env uval src m i lx (Ret (lx, i, line_starts src ! i))"
  using assms frame_refl [OF assms(1), of m] by (auto simp: block_ends_def same_place_def buffer_ok_def)

lemma block_ends_next:
  assumes "buffer_ok env uval src m (lx_buffer lx)" "i + 1 < length (line_starts src)"
    "block_ends env uval src m (i + 1) (set_line_indent (i + 1) indent lx) r"
  shows "block_ends env uval src m i lx r"
  using assms(3) skip_to_next_line_ok(3) [OF assms(1,2), of indent]
  by (auto simp: block_ends_def same_place_def intro: frame_trans)

lemma simd_block_ok:
  "buffer_ok env uval src m (lx_buffer lx) \<Longrightarrow> i < length (line_starts src) \<Longrightarrow> pos = line_starts src ! i \<Longrightarrow>
   pos + 16 < length src \<Longrightarrow> block_ends env uval src m i lx (simd_block src f pl indent i pos lx)"
proof (induction src f pl indent i pos lx rule: simd_block.induct)
  case (1 src f pl indent i pos lx)
  show ?case
  proof (cases "masked_equal (PrefixMasks pl) (vec16 src f) (vec16 src pos)")
    case False
    then show ?thesis
      using block_ends_here [OF "1.prems"(1,2)] "1.prems"(3) by (subst simd_block.simps) simp
  next
    case True
    have n: "i + 1 < length (line_starts src)" using line_starts_before_end "1.prems"(2-4) by simp
    note s = skip_to_next_line_ok [OF "1.prems"(1) n, of indent]
    have len: "i + 1 < length (lx_lines lx)" using buffer_ok_lines(1) [OF "1.prems"(1)] n by simp
    have "block_ends env uval src m (i + 1) (set_line_indent (i + 1) indent lx)
      (if line_starts src ! (i + 1) + 16 < length src
       then simd_block src f pl indent (i + 1) (line_starts src ! (i + 1)) (set_line_indent (i + 1) indent lx)
       else Ret (set_line_indent (i + 1) indent lx, i + 1, line_starts src ! (i + 1)))"
    proof (cases "line_starts src ! (i + 1) + 16 < length src")
      case w: True
      show ?thesis
        using "1.IH" [OF _ len s(1) refl refl w s(2) n refl w] True w by simp
    next
      case False
      then show ?thesis using block_ends_here [OF s(2) n] by simp
    qed
    from block_ends_next [OF "1.prems"(1) n this] True len s(1) show ?thesis
      by (simp add: simd_block.simps [of src f pl indent i pos lx] split: if_splits)
  qed
qed

lemma scalar_block_ok:
  "buffer_ok env uval src m (lx_buffer lx) \<Longrightarrow> i < length (line_starts src) \<Longrightarrow> pos = line_starts src ! i \<Longrightarrow>
   0 < pl \<Longrightarrow> block_ends env uval src m i lx (scalar_block src f pl v indent i pos lx)"
proof (induction src f pl v indent i pos lx rule: scalar_block.induct)
  case (1 src f pl v indent i pos lx)
  show ?case
  proof (cases "continues_block src f pl v pos")
    case False
    then show ?thesis
      using block_ends_here [OF "1.prems"(1,2)] "1.prems"(3) by (subst scalar_block.simps) simp
  next
    case True
    then have "pos < length src" using "1.prems"(4) by (auto simp: continues_block_def split: if_splits)
    then have n: "i + 1 < length (line_starts src)" using line_starts_before_end "1.prems"(2,3) by simp
    note s = skip_to_next_line_ok [OF "1.prems"(1) n, of indent]
    have len: "i + 1 < length (lx_lines lx)" using buffer_ok_lines(1) [OF "1.prems"(1)] n by simp
    have "block_ends env uval src m (i + 1) (set_line_indent (i + 1) indent lx)
       (scalar_block src f pl v indent (i + 1) (line_starts src ! (i + 1)) (set_line_indent (i + 1) indent lx))"
      using "1.IH" [OF _ len s(1) refl refl s(2) n refl "1.prems"(4)] True by simp
    from block_ends_next [OF "1.prems"(1) n this] True len s(1) show ?thesis
      by (simp add: scalar_block.simps [of src f pl v indent i pos lx])
  qed
qed


lemma NoteWhitespace_buffer: "NoteWhitespace (lx\<lparr>lx_buffer := tb\<rparr>) = (NoteWhitespace lx)\<lparr>lx_buffer := tb\<rparr>"
  by (simp add: NoteWhitespace_def)

lemma LexComment_rest_ok:
  assumes "ready env uval src m pos lx" "frame env uval m lx lx1" "same_place lx lx1" "starts_with (drop pos src) ''//''"
    "\<not> tr \<Longrightarrow> lx_has_leading_space lx"
  shows "advances env uval src m pos (LexComment_rest env src line_info tr v pos lx1)"
proof -
  have r: "core env uval src m pos lx" "line_inv src pos lx" "pos < length src" "m + 1 < 2 ^ 21"
    using assms(1) by (simp_all add: ready_def)
  define i where "i = lx_line_index lx + 1"
  have i: "i < length (line_starts src)" "pos < line_starts src ! i" "Suc (lx_line_index lx1) = i"
    using next_line_of [OF r(2,3)] assms(3) by (simp_all add: i_def same_place_def)
  have buf: "buffer_ok env uval src m (lx_buffer lx1)" by (rule buffer_ok_frame(1) [OF ready_buffer [OF assms(1)] assms(2)])
  have get: "store_get (lx_lines lx1) i = Ret (lx_lines lx1 ! i)" "line_start (lx_lines lx1 ! i) = line_starts src ! i"
    using buffer_ok_lines [OF buf] i(1) by (simp_all add: store_get_def)
  show ?thesis
  proof (cases tr)
    case True
    have "advances env uval src m pos (bind_outcome (AddComment (line_indent line_info) pos (line_starts src ! i) True
      (lx_buffer (NoteWhitespace lx1))) (\<lambda>tb. AdvanceToLine src i ((NoteWhitespace lx1)\<lparr>lx_buffer := tb\<rparr>)))"
      by (rule comment_advance_ok [OF r(1) frame_NoteWhitespace [OF assms(2)]]) (use i assms(4) r(4) in simp_all)
    with True get show ?thesis by (simp add: LexComment_rest_def i(3) Let_def NoteWhitespace_buffer)
  next
    case False
    define pl where "pl = line_indent line_info + (if v then 3 else 2)"
    define b where "b = (if env_use_simd env \<and> v \<and> line_starts src ! i + 16 < length src \<and> line_indent line_info \<le> MaxIndent
       then simd_block src (line_start line_info) pl (line_indent line_info) i (line_starts src ! i) lx1
       else scalar_block src (line_start line_info) pl v (line_indent line_info) i (line_starts src ! i) lx1)"
    have "block_ends env uval src m i lx1 b"
      unfolding b_def using simd_block_ok [OF buf i(1) refl] scalar_block_ok [OF buf i(1) refl] by (simp add: pl_def)
    then obtain lx2 j where b2: "b = Ret (lx2, j, line_starts src ! j)" "i \<le> j" "j < length (line_starts src)"
        "frame env uval m lx1 lx2" "same_place lx1 lx2"
      by (auto simp: block_ends_def)
    have le: "line_starts src ! i \<le> line_starts src ! j"
      using line_starts_less [of i j src] b2(2,3) by (cases "i = j") auto
    have "advances env uval src m pos (bind_outcome (AddComment (line_indent line_info) pos (line_starts src ! j) False
      (lx_buffer lx2)) (\<lambda>tb. AdvanceToLine src j (lx2\<lparr>lx_buffer := tb\<rparr>)))"
      by (rule comment_advance_ok [OF r(1) frame_trans [OF assms(2) b2(4)]])
        (use False assms(3-5) b2(2,3,5) i le r(4) in \<open>auto simp: same_place_def\<close>)
    moreover have "LexComment_rest env src line_info tr v pos lx1 =
      bind_outcome b (\<lambda>(lx, line_index, pos'). bind_outcome (AddComment (line_indent line_info) pos pos' False (lx_buffer lx))
        (\<lambda>tb. AdvanceToLine src line_index (lx\<lparr>lx_buffer := tb\<rparr>)))"
      using False get by (simp add: LexComment_rest_def i(3) Let_def b_def pl_def)
    ultimately show ?thesis using b2(1) by simp
  qed
qed

lemma add_directive_comment_line_ok:
  assumes "ready env uval src m pos lx" "frame env uval m lx lx1 \<and> same_place lx lx1" "starts_with (drop pos src) ''//''"
    "lx_has_leading_space lx"
  shows "advances env uval src m pos (add_directive_comment_line src line_info pos lx1)"
proof -
  have r: "core env uval src m pos lx" "line_inv src pos lx" "pos < length src" "m + 1 < 2 ^ 21"
    using assms(1) by (simp_all add: ready_def)
  define i where "i = lx_line_index lx + 1"
  have i: "i < length (line_starts src)" "pos < line_starts src ! i" "Suc (lx_line_index lx1) = i"
    using next_line_of [OF r(2,3)] assms(2) by (simp_all add: i_def same_place_def)
  have buf: "buffer_ok env uval src m (lx_buffer lx1)"
    using buffer_ok_frame(1) [OF ready_buffer [OF assms(1)]] assms(2) by blast
  have get: "next_line_info lx1 = Ret (lx_lines lx1 ! i)" "line_start (lx_lines lx1 ! i) = line_starts src ! i"
    using buffer_ok_lines [OF buf] i(1,3) by (simp_all add: next_line_info_def store_get_def)
  have "advances env uval src m pos (bind_outcome (AddComment (line_indent line_info) pos (line_starts src ! i) False
      (lx_buffer lx1)) (\<lambda>tb. AdvanceToLine src i (lx1\<lparr>lx_buffer := tb\<rparr>)))"
    by (rule comment_advance_ok [OF r(1)]) (use assms(2-4) i r(4) in \<open>auto simp: same_place_def\<close>)
  with get i(3) show ?thesis by (simp add: add_directive_comment_line_def)
qed

lemma LexComment_ok:
  assumes "ready env uval src m pos lx" "starts_with (drop pos src) ''//''"
  shows "advances env uval src m pos (LexComment env src pos lx)"
proof -
  have li: "line_inv src pos lx" "pos < length src" using assms(1) by (simp_all add: ready_def)
  define l where "l = lx_lines lx ! lx_line_index lx"
  have idx: "lx_line_index lx < length (line_starts src)" using next_line_of(1) [OF li] by simp
  note lines = buffer_ok_lines [OF ready_buffer [OF assms(1)]]
  have cur: "current_line_info lx = Ret l" "line_start l = line_starts src ! lx_line_index lx"
    using lines idx by (simp_all add: current_line_info_def store_get_def l_def)
  define tr where "tr \<longleftrightarrow> pos \<noteq> line_start l + line_indent l"
  have hls: "lx_has_leading_space lx" if "\<not> tr"
  proof -
    have "lx_has_leading_space lx \<or> line_start l + line_indent l < pos"
      using li by (simp add: line_inv_def cur(2)) (simp add: l_def)
    with that show ?thesis by (simp add: tr_def)
  qed
  note f = ready_frame(2) [OF assms(1)]
  have rest: "advances env uval src m pos (LexComment_rest env src l tr v pos lx)" for v
    by (rule LexComment_rest_ok [OF assms(1) f]) (use assms(2) hls in \<open>simp_all add: same_place_def\<close>)
  have rest_emit: "advances env uval src m pos (LexComment_rest env src l tr v pos (emit p d lx))" for v p d
    by (rule LexComment_rest_ok [OF assms(1) frame_emit [OF f]]) (use assms(2) hls in \<open>simp_all add: same_place_def\<close>)
  have dir: "advances env uval src m pos (add_directive_comment_line src l pos lx1)"
    if "\<not> tr" "frame env uval m lx lx1 \<and> same_place lx lx1" for lx1
    by (rule add_directive_comment_line_ok [OF assms(1) that(2) assms(2) hls [OF that(1)]])
  have inc: "frame env uval m lx (lx\<lparr>lx_buffer := (lx_buffer lx)\<lparr>tb_has_include_in_dumps := True\<rparr>\<rparr>) \<and>
      same_place lx (lx\<lparr>lx_buffer := (lx_buffer lx)\<lparr>tb_has_include_in_dumps := True\<rparr>\<rparr>)"
    by (auto simp: same_place_def intro: frame_with_buffer [OF f])
  show ?thesis
    using assms(2) cur(1) rest rest_emit dir inc frame_BeginDump [OF f, of pos] frame_EndDump [OF f, of pos]
    by (cases tr) (simp_all add: LexComment_def Let_def tr_def [symmetric])
qed

lemma LexCommentOrSlash_ok:
  assumes "ready env uval src m pos lx" "src ! pos = CHR ''/''"
  shows "advances env uval src m pos (LexCommentOrSlash env src pos lx)"
proof (cases "pos + 1 < length src \<and> src ! (pos + 1) = CHR ''/''")
  case True
  have "pos < length src" using assms(1) by (simp add: ready_def)
  then have "starts_with (drop pos src) ''//''"
    using True assms(2) by (simp add: Cons_nth_drop_Suc [symmetric])
  from LexComment_ok [OF assms(1) this] True assms(2) show ?thesis by (simp add: LexCommentOrSlash_def)
next
  case False
  then have "LexCommentOrSlash env src pos lx = LexSymbolToken src pos lx"
    using assms(2) by (auto simp: LexCommentOrSlash_def)
  with LexSymbolToken_ok [OF assms(1)] assms(2) show ?thesis by (simp add: newline_def)
qed

end
