(* ===== verification/Lexer_Literals.thy ===== *)
theory Lexer_Literals
  imports Lexer_Handlers
begin

text \<open>
  The handlers of literals. What they take from outside is the interface \<open>lexing\<close>: the arithmetic of
  \<open>APInt\<close> and the two conversions of UTF-8. Under it every handler returns at a later position with
  the invariant kept.
\<close>

locale lexing =
  fixes env :: "'a lex_env" and uval :: "'a \<Rightarrow> int"
  assumes arith: "apint (env_apint env) uval"
    and encoder: "utf8_encoder (env_to_utf8 env)"
    and decoder: "utf8_decoder (env_from_utf8 env)"

section \<open>Extending the stores\<close>

text \<open>A lexer at the same place whose stores may have grown by an entry.\<close>

definition grown :: "'a lex_env \<Rightarrow> ('a \<Rightarrow> int) \<Rightarrow> nat \<Rightarrow> 'a Lexer \<Rightarrow> 'a Lexer \<Rightarrow> bool" where
  "grown env uval m lx lx' \<longleftrightarrow> frame env uval (m + 1) lx lx' \<and> same_place lx lx' \<and> lx_lines lx' = lx_lines lx"

lemma grown_tokens: "grown env uval m lx lx' \<Longrightarrow> lx_token_infos lx' = lx_token_infos lx"
  by (simp add: grown_def frame_def)

lemma grown_emit_all:
  assumes "grown env uval m lx lx1"
  shows "grown env uval m lx (emit_all p f ds lx1)" "grown env uval m lx (emit p d lx1)"
  using assms by (auto simp: grown_def same_place_def intro: frame_emit_all frame_emit)

lemma grown_refl: "ready env uval src m pos lx \<Longrightarrow> grown env uval m lx lx"
  using ready_frame(1) by (auto simp: grown_def same_place_def)

lemma grown_stores:
  assumes "grown env uval m lx lx1" "stores_ok env uval (m + 1) st" "identifier_vals st = identifier_vals (lx_stores lx1) @ new"
  shows "grown env uval m lx (lx1\<lparr>lx_buffer := (lx_buffer lx1)\<lparr>tb_value_stores := st\<rparr>\<rparr>)"
proof -
  define lx2 where "lx2 = lx1\<lparr>lx_buffer := (lx_buffer lx1)\<lparr>tb_value_stores := st\<rparr>\<rparr>"
  have "extends_ids (lx_stores lx1) (lx_stores lx2)" using assms(3) by (simp add: extends_ids_def lx2_def)
  then have "extends_ids (lx_stores lx) (lx_stores lx2)"
    using assms(1) by (auto simp: extends_ids_def grown_def frame_def)
  moreover have "gap (lx_buffer lx2) a b = gap (lx_buffer lx1) a b" for a b by (rule gap_cong) (simp_all add: lx2_def)
  moreover have "comments_ok (lx_buffer lx2) = comments_ok (lx_buffer lx1)" by (rule comments_ok_cong) (simp_all add: lx2_def)
  ultimately show ?thesis using assms(1,2)
    by (simp add: grown_def frame_def same_place_def lx2_def [symmetric]) (simp add: lx2_def)
qed

context lexing
begin

lemma add_source_ok:
  assumes "ready env uval src m pos lx" "grown env uval m lx lx1" "lx_stores lx1 = lx_stores lx"
    "source_ok (env_apint env) x"
  obtains i st where "add_source (env_apint env) (env_int_layout env) x (svs_ints (lx_stores lx1)) = Ret (i, st)"
    "AsTokenPayload i = Ret i"
    "grown env uval m lx (lx1\<lparr>lx_buffer := (lx_buffer lx1)\<lparr>tb_value_stores := (lx_stores lx1)\<lparr>svs_ints := st\<rparr>\<rparr>\<rparr>)"
proof -
  have s: "stores_ok env uval m (lx_stores lx1)" "m < 2 ^ 21"
    using ready_buffer [OF assms(1)] assms(3) by (simp_all add: buffer_ok_def)
  have "ints_ok env uval m (svs_ints (lx_stores lx1))" using s(1) by (simp add: stores_ok_def)
  from ints_add [OF arith this s(2) assms(4)] obtain i st where i:
    "add_source (env_apint env) (env_int_layout env) x (svs_ints (lx_stores lx1)) = Ret (i, st)"
    "ints_ok env uval (m + 1) st" "AsTokenPayload i = Ret i"
    by blast
  have "stores_ok env uval (m + 1) ((lx_stores lx1)\<lparr>svs_ints := st\<rparr>)"
    using stores_ok_mono [OF s(1), of "m + 1"] i(2) by (simp add: stores_ok_def)
  from grown_stores [OF assms(2) this, of "[]"] i show thesis by (intro that) simp_all
qed

lemma add_unsigned_ok:
  assumes "ready env uval src m pos lx" "grown env uval m lx lx1" "lx_stores lx1 = lx_stores lx"
  obtains payload lx' where "add_unsigned env x lx1 = Ret (payload, lx')" "grown env uval m lx lx'"
proof -
  obtain i st where "add_source (env_apint env) (env_int_layout env) (FromUnsigned x) (svs_ints (lx_stores lx1)) = Ret (i, st)"
    "AsTokenPayload i = Ret i"
    "grown env uval m lx (lx1\<lparr>lx_buffer := (lx_buffer lx1)\<lparr>tb_value_stores := (lx_stores lx1)\<lparr>svs_ints := st\<rparr>\<rparr>\<rparr>)"
    by (rule add_source_ok [OF assms, of "FromUnsigned x"]) auto
  then show thesis by (intro that) (auto simp: add_unsigned_def AddAPSInt_def Let_def)
qed

lemma add_int_ok:
  assumes "ready env uval src m pos lx" "- (2 ^ 63) \<le> v" "v < 2 ^ 63"
  obtains payload lx' where "add_int env v lx = Ret (payload, lx')" "grown env uval m lx lx'"
proof -
  have "source_ok (env_apint env) (FromInt64 v)" using assms(2,3) by simp
  then obtain i st where "add_source (env_apint env) (env_int_layout env) (FromInt64 v) (svs_ints (lx_stores lx)) = Ret (i, st)"
    "AsTokenPayload i = Ret i"
    "grown env uval m lx (lx\<lparr>lx_buffer := (lx_buffer lx)\<lparr>tb_value_stores := (lx_stores lx)\<lparr>svs_ints := st\<rparr>\<rparr>\<rparr>)"
    by (rule add_source_ok [OF assms(1) grown_refl [OF assms(1)] refl])
  then show thesis by (intro that) (auto simp: add_int_def Let_def)
qed

end

lemma add_real_ok:
  assumes "ready env uval src m pos lx" "grown env uval m lx lx1" "lx_stores lx1 = lx_stores lx"
  obtains tid lx' where "add_real env r lx1 = Ret (tid, lx')" "grown env uval m lx lx'"
proof -
  have s: "stores_ok env uval m (lx_stores lx1)" "m < 2 ^ 30"
    using ready_buffer [OF assms(1)] assms(3) by (simp_all add: buffer_ok_def)
  have "reals_ok (env_real_layout env) m (svs_reals (lx_stores lx1))" using s(1) by (simp add: stores_ok_def)
  from reals_add [OF this s(2), of r] obtain i st where i:
    "ValueStore_Add (env_real_layout env) r (svs_reals (lx_stores lx1)) = Ret (i, st)" "reals_ok (env_real_layout env) (m + 1) st"
    by blast
  have "stores_ok env uval (m + 1) ((lx_stores lx1)\<lparr>svs_reals := st\<rparr>)"
    using stores_ok_mono [OF s(1), of "m + 1"] i(2) by (simp add: stores_ok_def)
  from grown_stores [OF assms(2) this, of "[]"] i(1) show thesis
    by (intro that) (simp_all add: add_real_def Let_def)
qed

lemma add_string_ok:
  assumes "ready env uval src m pos lx" "grown env uval m lx lx1" "lx_stores lx1 = lx_stores lx"
  obtains tid lx' where "add_string env v lx1 = Ret (tid, lx')" "grown env uval m lx lx'"
proof -
  have s: "stores_ok env uval m (lx_stores lx1)" "m < 2 ^ 30"
    using ready_buffer [OF assms(1)] assms(3) by (simp_all add: buffer_ok_def)
  have "strings_ok (env_string_layout env) m (svs_string_literal_values (lx_stores lx1))" using s(1) by (simp add: stores_ok_def)
  from strings_add [OF this s(2), of v] obtain i st where i:
    "Canonical_Add (env_string_layout env) (\<lambda>s. s) v (svs_string_literal_values (lx_stores lx1)) = Ret (word_of_nat i, st)"
    "strings_ok (env_string_layout env) (m + 1) st"
    by metis
  have "stores_ok env uval (m + 1) ((lx_stores lx1)\<lparr>svs_string_literal_values := st\<rparr>)"
    using stores_ok_mono [OF s(1), of "m + 1"] i(2) by (simp add: stores_ok_def)
  from grown_stores [OF assms(2) this, of "[]"] i(1) show thesis
    by (intro that) (simp_all add: add_string_def Let_def)
qed

lemma add_identifier_ok:
  assumes "ready env uval src m pos lx \<or> pending env uval src m pos lx \<and> m + 1 < 2 ^ 21"
  obtains j lx' where "lift_add_identifier env word lx = Ret (word_of_nat j, lx')"
    "frame env uval (m + 1) lx lx'" "same_place lx lx'" "lx_lines lx' = lx_lines lx"
    "j < length (identifier_vals (lx_stores lx'))" "identifier_vals (lx_stores lx') ! j = word" "j < 2 ^ 22"
proof -
  have b: "buffer_ok env uval src m (lx_buffer lx)" "m + 1 < 2 ^ 21"
    using assms by (auto simp: ready_def core_def pending_def pre_core_def)
  then have s: "stores_ok env uval m (lx_stores lx)" "m < 2 ^ 30" by (simp_all add: buffer_ok_def)
  have "strings_ok (env_string_layout env) m (svs_identifiers (lx_stores lx))" using s(1) by (simp add: stores_ok_def)
  from strings_add [OF this s(2), of word] obtain j st new where j:
    "Canonical_Add (env_string_layout env) (\<lambda>s. s) word (svs_identifiers (lx_stores lx)) = Ret (word_of_nat j, st)"
    "strings_ok (env_string_layout env) (m + 1) st" "j \<le> m" "j < length (canon_vals st)" "canon_vals st ! j = word"
    "canon_vals st = identifier_vals (lx_stores lx) @ new"
    by metis
  have st: "stores_ok env uval (m + 1) ((lx_stores lx)\<lparr>svs_identifiers := st\<rparr>)"
    using stores_ok_mono [OF s(1), of "m + 1"] j(2) by (simp add: stores_ok_def)
  have "grown env uval m lx lx" using frame_refl [OF b(1), of "m + 1"] b(2) by (simp add: grown_def same_place_def)
  define lx' where "lx' = lx\<lparr>lx_buffer := (lx_buffer lx)\<lparr>tb_value_stores := (lx_stores lx)\<lparr>svs_identifiers := st\<rparr>\<rparr>\<rparr>"
  have "grown env uval m lx lx'"
    using grown_stores [OF \<open>grown env uval m lx lx\<close> st, of new] j(6) by (simp add: lx'_def)
  then show thesis
    using j(1,3-5) b(2)
    by (intro that [of j lx']) (simp_all add: grown_def lift_add_identifier_def add_identifier_def lx'_def)
qed

section \<open>Numbers\<close>

lemma scan_step_Some_char: "scan_step s r i st = Ret (Some st') \<Longrightarrow> s ! i \<noteq> newline"
  by (auto simp: scan_step_def Let_def newline_def IsAlnum_def IsAlpha_def IsDecimalDigit_def byte_of_def split: if_splits)

lemma scan_loop_no_newline:
  "scan_loop s r i st = Ret (j, st') \<Longrightarrow> i \<le> k \<Longrightarrow> k < j \<Longrightarrow> s ! k \<noteq> newline"
proof (induction s r i st rule: scan_loop.induct)
  case (1 s r i st)
  show ?case
  proof (cases "length s \<le> i")
    case True
    with "1.prems" show ?thesis by (simp add: scan_loop.simps [of s r i st])
  next
    case False
    then obtain nxt where nxt: "scan_step s r i st = Ret nxt"
      using "1.prems"(1) by (auto simp: scan_loop.simps [of s r i st] bind_outcome_Ret_iff)
    show ?thesis
    proof (cases nxt)
      case None
      with False nxt "1.prems" show ?thesis by (simp add: scan_loop.simps [of s r i st])
    next
      case (Some st1)
      with False nxt "1.prems"(1) have l: "scan_loop s r (i + 1) st1 = Ret (j, st')"
        by (simp add: scan_loop.simps [of s r i st])
      show ?thesis
        using "1.IH" [OF False nxt Some l] "1.prems"(2,3) scan_step_Some_char [of s r i st st1] nxt Some
        by (cases "k = i") auto
    qed
  qed
qed

lemma NumericLiteral_Lex_text:
  assumes "NumericLiteral_Lex s r = Ret (Some lit)"
  shows "starts_with s (nl_text lit)" "nl_text lit \<noteq> []" "newline \<notin> set (nl_text lit)"
proof -
  note s = NumericLiteral_Lex_Some [OF assms]
  obtain j st lit' where l: "scan_loop s r 1 initial_scan = Ret (j, st)" "1 \<le> j" "j \<le> length s"
    "NumericLiteral_Lex s r = Ret (Some lit')" "nl_text lit' = take j s"
    using NumericLiteral_Lex_cases [OF s, of r] by metis
  then have t: "nl_text lit = take j s" using assms by simp
  show "starts_with s (nl_text lit)" using t starts_with_substr [of 0 s j] by (simp add: substr_def)
  show "nl_text lit \<noteq> []" using t l(2) s(1) by auto
  have h: "s ! 0 \<noteq> newline" using s by (auto simp: IsDecimalDigit_def byte_of_def newline_def hd_conv_nth)
  have "s ! k \<noteq> newline" if "k < j" for k
    using scan_loop_no_newline [OF l(1), of k] that h by (cases k) auto
  then show "newline \<notin> set (nl_text lit)" using t l(3) by (auto simp: in_set_conv_nth)
qed

lemma ComputeValue_point:
  assumes "ComputeValue A lit = Ret (v, ds)"
  shows "v = IntValue x \<Longrightarrow> nl_radix_point lit = length (nl_text lit)"
    "v = RealValue radix m e \<Longrightarrow> nl_radix_point lit \<noteq> length (nl_text lit)"
proof -
  obtain ok p ds' where chk: "Check (Parser_init lit) [] = (ok, p, ds')" by (metis surj_pair)
  note c = ComputeValue_cases [OF chk]
  have i: "IsInt p \<longleftrightarrow> nl_radix_point lit = length (nl_text lit)"
    using same_parts_preds [OF c(2)] by (simp add: IsInt_def)
  show "v = IntValue x \<Longrightarrow> nl_radix_point lit = length (nl_text lit)"
    "v = RealValue radix m e \<Longrightarrow> nl_radix_point lit \<noteq> length (nl_text lit)"
    using assms i unfolding c(1) by (auto split: if_splits simp: bind_outcome_Ret_iff)
qed

lemma relexed_number_ok:
  assumes "NumericLiteral_Lex s r = Ret (Some lit)" "ComputeValue A lit = Ret (v, ds)"
  shows "v = IntValue x \<Longrightarrow> relexed_number s False = Ret (nl_text lit)"
    "v = RealValue radix m e \<Longrightarrow> relexed_number s True = Ret (nl_text lit)"
proof -
  note s = NumericLiteral_Lex_Some [OF assms(1)]
  obtain l where l: "NumericLiteral_Lex s False = Ret (Some l)" "nl_radix_point l = length (nl_text l)"
    "\<And>lit'. NumericLiteral_Lex s True = Ret (Some lit') \<Longrightarrow> nl_radix_point lit' = length (nl_text lit') \<Longrightarrow> lit' = l"
    using NumericLiteral_Lex_integer [OF s] by blast
  note p = ComputeValue_point [OF assms(2)]
  show "relexed_number s False = Ret (nl_text lit)" if "v = IntValue x"
    using p(1) [OF that] l assms(1) by (cases r) (auto simp: relexed_number_def)
  show "relexed_number s True = Ret (nl_text lit)" if "v = RealValue radix m e"
    using p(2) [OF that] l assms(1) by (cases r) (auto simp: relexed_number_def)
qed

text \<open>A token after which the stores may have grown.\<close>

lemma grown_advances:
  assumes "ready env uval src m pos lx" "grown env uval m lx lx1" "ti_kind info \<notin> {Identifier, FileStart, FileEnd}"
    "ti_byte_offset info = pos" "groupless info" "info_text env (lx_buffer lx1) info = Ret w" "starts_with (drop pos src) w"
    "w \<noteq> []" "newline \<notin> set w" "pos' = pos + length w"
  shows "advances env uval src m pos (Ret (add_tok info lx1, pos'))"
proof (rule token_advances [OF assms(1)])
  have g: "frame env uval (m + 1) lx lx1" "same_place lx lx1" "lx_lines lx1 = lx_lines lx"
    using assms(2) by (simp_all add: grown_def)
  then show "frame env uval (m + 1) lx lx1" "lx_lines lx1 = lx_lines lx"
      "lx_has_leading_space lx1 = lx_has_leading_space lx" "lx_line_index lx1 = lx_line_index lx"
    by (simp_all add: same_place_def)
  have "tb_source (lx_buffer lx1) = src" using g(1) ready_source [OF assms(1)] by (simp add: frame_def)
  then show "tok_ok env (lx_buffer lx1) info w" using assms(3,4,6-8) by (simp add: tok_ok_def)
qed (use assms in simp_all)

lemma grown_error_advances:
  assumes "ready env uval src m pos lx" "grown env uval m lx lx1" "starts_with (drop pos src) w" "w \<noteq> []" "newline \<notin> set w"
  shows "advances env uval src m pos
    (Ret (snd (LexTokenWithPayload Error (int (length w)) pos lx1), pos + length w))"
proof -
  have g: "frame env uval (m + 1) lx lx1" "same_place lx lx1" "lx_lines lx1 = lx_lines lx"
    using assms(2) by (simp_all add: grown_def)
  have "substr src pos (length w) = w" using assms(3) by (simp add: substr_def starts_with_take)
  then show ?thesis
    unfolding LexTokenWithPayload_def
    using g assms(4,5) starts_with_drop_length [OF assms(3,4)]
    by (intro error_token_advances [OF assms(1)]) (simp_all add: same_place_def)
qed

lemma grown_source: "ready env uval src m pos lx \<Longrightarrow> grown env uval m lx lx1 \<Longrightarrow> tb_source (lx_buffer lx1) = src"
  using ready_source by (auto simp: grown_def frame_def)

lemma CanFormRealLiteral_ok:
  assumes "ready env uval src m pos lx"
  obtains r where "CanFormRealLiteral lx = Ret r"
proof -
  have "lx_token_infos lx \<noteq> []" "tb_post_lexing_recovery_tokens (lx_buffer lx) = 0"
    using assms ready_buffer [OF assms] by (simp_all add: ready_def core_def pre_core_def buffer_ok_def)
  with that show thesis
    by (cases "lx_has_leading_space lx") (simp_all add: CanFormRealLiteral_def GetKind_def tokens_end_def store_get_def)
qed

context lexing
begin

lemma LexNumericLiteral_ok:
  assumes "ready env uval src m pos lx" "IsDecimalDigit (src ! pos)"
  shows "advances env uval src m pos (LexNumericLiteral env src pos lx)"
proof -
  have pos: "pos < length src" using assms(1) by (simp add: ready_def)
  define s where "s = drop pos src"
  have s: "s \<noteq> []" "IsDecimalDigit (hd s)" using pos assms(2) by (simp_all add: s_def hd_drop_conv_nth)
  obtain r where r: "CanFormRealLiteral lx = Ret r" by (rule CanFormRealLiteral_ok [OF assms(1)])
  obtain lit where lit: "NumericLiteral_Lex s r = Ret (Some lit)" using NumericLiteral_Lex_ok [OF s] by blast
  obtain v ds where v: "ComputeValue (env_apint env) lit = Ret (v, ds)" using ComputeValue_total [OF arith lit] by blast
  note nt = NumericLiteral_Lex_text [OF lit]
  have at: "starts_with (drop pos src) (nl_text lit)" using nt(1) by (simp add: s_def)
  define lx1 where "lx1 = emit_all pos FromNumber ds lx"
  have g1: "grown env uval m lx lx1" "lx_stores lx1 = lx_stores lx"
    unfolding lx1_def by (simp_all add: grown_emit_all grown_refl [OF assms(1)])
  note relex = relexed_number_ok [OF lit v]
  show ?thesis
  proof (cases v)
    case (IntValue x)
    obtain payload lx2 where a: "add_unsigned env x lx1 = Ret (payload, lx2)" "grown env uval m lx lx2"
      by (rule add_unsigned_ok [OF assms(1) g1])
    have "info_text env (lx_buffer lx2) (TokenInfo_payload IntLiteral (lx_has_leading_space lx2) (sint payload) pos) = Ret (nl_text lit)"
      using relex(1) [OF IntValue] grown_source [OF assms(1) a(2)] by (simp add: info_text_def s_def Let_def)
    from grown_advances [OF assms(1) a(2) _ _ _ this at nt(2,3) refl]
    show ?thesis using r lit v IntValue a(1)
      by (simp add: LexNumericLiteral_def s_def lx1_def Let_def LexTokenWithPayload_def is_grouping_symbol_def)
  next
    case (RealValue radix mant e)
    obtain tid lx2 where a: "add_real env \<lparr>real_mantissa = mant, real_exponent = e, real_is_decimal = (radix = Decimal)\<rparr> lx1 = Ret (tid, lx2)"
        "grown env uval m lx lx2"
      by (rule add_real_ok [OF assms(1) g1])
    have "info_text env (lx_buffer lx2) (TokenInfo_payload RealLiteral (lx_has_leading_space lx2) (sint tid) pos) = Ret (nl_text lit)"
      using relex(2) [OF RealValue] grown_source [OF assms(1) a(2)] by (simp add: info_text_def s_def Let_def)
    from grown_advances [OF assms(1) a(2) _ _ _ this at nt(2,3) refl]
    show ?thesis using r lit v RealValue a(1)
      by (simp add: LexNumericLiteral_def s_def lx1_def Let_def LexTokenWithPayload_def is_grouping_symbol_def)
  next
    case UnrecoverableError
    from grown_error_advances [OF assms(1) g1(1) at nt(2,3)] r lit v UnrecoverableError
    show ?thesis by (simp add: LexNumericLiteral_def s_def lx1_def Let_def)
  qed
qed

end

end
