(* ===== verification/Lexer_Strings.thy ===== *)
theory Lexer_Strings
  imports Lexer_Literals
begin

text \<open>
  The handler of string and character literals: which literals span lines, that the lines a
  multi-line literal spans are found, and that the handler keeps the invariant.
\<close>

section \<open>Newlines in a literal\<close>

lemma string_lex_step_Ends_plain:
  assumes "string_lex_step s kind terminator (backslash # hs) c needs = Ends e t needs'" "c < length s" "newline \<notin> set hs"
    "c \<le> k" "k < e"
  shows "s ! k \<noteq> newline"
proof -
  have e: "e = c + length hs + 1" "starts_with (drop c s) (backslash # hs)"
    using string_lex_step_Ends [OF assms(1,2)] assms(4,5) by auto
  have "newline \<notin> set (backslash # hs)" using assms(3) by (auto simp: special_chars)
  from text_no_newline [OF e(2) this assms(4)] assms(5) e(1) show ?thesis by simp
qed

lemma string_lex_step_Continues_plain:
  assumes "string_lex_step s kind terminator (backslash # hs) c needs = Continues c' needs'" "c < length s" "newline \<notin> set hs"
    "\<not> IsMultiLine kind" "c \<le> k" "k < c'"
  shows "s ! k \<noteq> newline"
  using assms(1,2)
proof (cases rule: string_lex_step_Continues)
  case plain
  then show ?thesis using assms(4-6) by (auto simp: less_Suc_eq)
next
  case escape
  have "newline \<notin> set (backslash # hs)" using assms(3) by (auto simp: special_chars)
  from text_no_newline [OF escape(1) this assms(5)] escape(2,4) assms(4,6) show ?thesis
    by (cases "k = c + length hs + 1") auto
qed

lemma string_lex_loop_plain:
  "string_lex_loop s kind terminator (backslash # hs) c needs = (e, t, needs') \<Longrightarrow> newline \<notin> set hs \<Longrightarrow>
   \<not> IsMultiLine kind \<Longrightarrow> c \<le> length s \<Longrightarrow> c \<le> k \<Longrightarrow> k < e \<Longrightarrow> s ! k \<noteq> newline"
proof (induction s kind terminator "backslash # hs" c needs rule: string_lex_loop.induct)
  case (1 s kind terminator c needs)
  show ?case
  proof (cases "length s \<le> c")
    case True
    then show ?thesis using "1.prems" by (auto simp: string_lex_loop.simps [of s kind terminator _ c needs])
  next
    case False
    then have c: "c < length s" by simp
    show ?thesis
    proof (cases "string_lex_step s kind terminator (backslash # hs) c needs")
      case (Ends e' t' n')
      then have "e' = e" using "1.prems"(1) False by (simp add: string_lex_loop.simps [of s kind terminator _ c needs])
      with string_lex_step_Ends_plain [OF Ends c "1.prems"(2,5)] "1.prems"(6) show ?thesis by simp
    next
      case (Continues c' n')
      have c': "c < c'" "c' \<le> length s"
        using Continues c by (auto elim!: string_lex_step_Continues)
      then have l: "string_lex_loop s kind terminator (backslash # hs) c' n' = (e, t, needs')"
        using "1.prems"(1) False Continues by (simp add: string_lex_loop.simps [of s kind terminator _ c needs])
      show ?thesis
        using "1.hyps" [OF False Continues c'(1) l "1.prems"(2,3) c'(2)] "1.prems"(5,6)
          string_lex_step_Continues_plain [OF Continues c "1.prems"(2,3,5)]
        by (cases "k < c'") auto
    qed
  qed
qed

lemma string_lex_loop_unterminated:
  "string_lex_loop s kind terminator (backslash # hs) c needs = (e, False, needs') \<Longrightarrow> IsMultiLine kind \<Longrightarrow> e = length s"
proof (induction s kind terminator "backslash # hs" c needs rule: string_lex_loop.induct)
  case (1 s kind terminator c needs)
  show ?case
  proof (cases "length s \<le> c")
    case True
    then show ?thesis using "1.prems" by (simp add: string_lex_loop.simps [of s kind terminator _ c needs])
  next
    case False
    then have c: "c < length s" by simp
    show ?thesis
    proof (cases "string_lex_step s kind terminator (backslash # hs) c needs")
      case (Ends e' t' n')
      then have e: "e' = e" "\<not> t'" using "1.prems"(1) False by (simp_all add: string_lex_loop.simps [of s kind terminator _ c needs])
      then have "length s \<le> e" using Ends "1.prems"(2) by (auto simp: string_lex_step_def Let_def split: if_splits)
      then show ?thesis using string_lex_step_Ends [OF Ends c] e by simp
    next
      case (Continues c' n')
      show ?thesis
      proof (cases "c < c'")
        case True
        then have "string_lex_loop s kind terminator (backslash # hs) c' n' = (e, False, needs')"
          using "1.prems"(1) False Continues by (simp add: string_lex_loop.simps [of s kind terminator _ c needs])
        from "1.hyps" [OF False Continues True this "1.prems"(2)] show ?thesis .
      next
        case neg: False
        then show ?thesis using "1.prems"(1) False Continues by (simp add: string_lex_loop.simps [of s kind terminator _ c needs])
      qed
    qed
  qed
qed

lemma Introducer_Lex_split:
  assumes "Introducer_Lex s = Some i"
  obtains (multi) kind indicator where "starts_with s indicator" "multi_line_introducer s kind indicator = Some i"
      "kind = MultiLine \<and> indicator = MultiLineIndicator \<or>
       kind = MultiLineWithDoubleQuotes \<and> indicator = DoubleQuotedMultiLineIndicator"
    | (single) "i = \<lparr>in_kind = SingleLine, in_terminator = [dquote], in_prefix_size = 1, in_is_valid = True\<rparr>"
    | (char) "i = \<lparr>in_kind = CharKind, in_terminator = [squote], in_prefix_size = 1, in_is_valid = True\<rparr>"
  using assms unfolding Introducer_Lex_def Let_def by (simp split: if_split_asm option.split_asm)

lemma indicator_nonempty: "MultiLineIndicator \<noteq> []" "DoubleQuotedMultiLineIndicator \<noteq> []"
  by (simp_all add: MultiLineIndicator_def DoubleQuotedMultiLineIndicator_def)

lemma if_Some_cases: "(if P then Some a else if Q then Some b else None) = Some i \<Longrightarrow> i = a \<or> i = b"
  by (simp split: if_split_asm)

lemma Introducer_Lex_invalid_plain:
  assumes "Introducer_Lex s = Some i" "\<not> in_is_valid i" "k < in_prefix_size i"
  shows "s ! k \<noteq> newline"
proof -
  have m: "starts_with s MultiLineIndicator" "multi_line_introducer s MultiLine MultiLineIndicator = Some i"
    using assms(1)
    by (rule Introducer_Lex_split; use assms(2) multi_line_introducer_props(2,6) indicator_nonempty in fastforce)+
  have q: "s ! k \<noteq> newline" if "k < 3"
    using text_no_newline [of 0 s MultiLineIndicator k] m(1) that by (simp add: MultiLineIndicator_def special_chars)
  show ?thesis
  proof (cases "find_str_from [newline] s (length MultiLineIndicator)")
    case None
    then have "k < length s" using m(2) assms(2,3) None by (auto simp: multi_line_introducer_def Let_def)
    with find_newline_None [OF None] q show ?thesis by (cases "k < 3") (auto simp: MultiLineIndicator_def)
  next
    case (Some e)
    from if_Some_cases [OF m(2) [unfolded multi_line_introducer_def Let_def Some]]
    have "k < e" using assms(2,3) by auto
    with find_newline_first [OF Some] q show ?thesis by (cases "k < 3") (auto simp: MultiLineIndicator_def)
  qed
qed

lemma Introducer_Lex_single:
  assumes "Introducer_Lex s = Some i" "\<not> IsMultiLine (in_kind i)"
  shows "in_prefix_size i = 1" "in_terminator i = [dquote] \<or> in_terminator i = [squote]"
  using assms(1)
  by (rule Introducer_Lex_split; use assms(2) multi_line_introducer_props(2) indicator_nonempty in \<open>fastforce simp: IsMultiLine_def\<close>)+

lemma Introducer_Lex_quotes:
  assumes "Introducer_Lex s = Some i"
  shows "set (in_terminator i) \<subseteq> {dquote, squote}" "in_terminator i \<noteq> []"
proof -
  show "in_terminator i \<noteq> []" by (rule Introducer_Lex_props(1) [OF assms])
  show "set (in_terminator i) \<subseteq> {dquote, squote}"
    using assms
  proof (cases rule: Introducer_Lex_split)
    case (multi kind indicator)
    have "in_terminator i = indicator"
      using multi_line_introducer_props(1) [OF multi(2,1)] multi(3) indicator_nonempty by auto
    then show ?thesis using multi(3) by (auto simp: MultiLineIndicator_def DoubleQuotedMultiLineIndicator_def)
  qed auto
qed

lemma nth_hash_prefix:
  assumes "StringLiteral_Lex s = Some lit" "k < sl_hash_level lit"
  shows "s ! k = CHR ''#''"
  using sl_hash_level_prefix [OF assms(1)] assms(2) by (metis nth_replicate nth_take)

text \<open>Only a multi-line literal with a valid introducer spans lines.\<close>

lemma StringLiteral_Lex_single_line:
  assumes "StringLiteral_Lex s = Some lit" "sl_has_invalid_introducer lit \<or> \<not> IsMultiLine (sl_kind lit)"
  shows "newline \<notin> set (sl_text lit)"
  using assms(1)
proof (cases rule: StringLiteral_Lex_cases)
  case (invalid i)
  have "s ! k \<noteq> newline" if k: "k < sl_hash_level lit + in_prefix_size i" "k < length s" for k
  proof (cases "k < sl_hash_level lit")
    case True
    then show ?thesis using nth_hash_prefix [OF assms(1)] by (simp add: newline_def)
  next
    case False
    then have "drop (sl_hash_level lit) s ! (k - sl_hash_level lit) \<noteq> newline"
      using k by (intro Introducer_Lex_invalid_plain [OF invalid(1,2)]) simp
    then show ?thesis using False k(2) by simp
  qed
  then show ?thesis using invalid(3) by (auto simp: in_set_conv_nth)
next
  case (scan i e)
  define h where "h = sl_hash_level lit"
  have nm: "\<not> IsMultiLine (sl_kind lit)" using assms(2) scan(3) by simp
  note single = Introducer_Lex_single [OF scan(1)] nm scan(4)
  have i: "in_prefix_size i = 1" "in_terminator i = [dquote] \<or> in_terminator i = [squote]"
    using Introducer_Lex_single [OF scan(1)] nm scan(4) by simp_all
  have off: "sl_content_offset lit = h + 1" using scan(5) i(1) by (simp add: h_def)
  have hl: "h + 1 \<le> length s" using Introducer_Lex_props(2,3) [OF scan(1)] i(1) by (simp add: h_def)
  have hs: "newline \<notin> set (replicate h (CHR ''#''))" by (simp add: newline_def)
  define T where "T = in_terminator i @ replicate h (CHR ''#'')"
  have loop: "string_lex_loop s (sl_kind lit) T (backslash # replicate h (CHR ''#'')) (h + 1) False =
      (e, sl_is_terminated lit, sl_content_needs_validation lit)"
    using scan(6) off by (simp add: escape_of_def h_def T_def)
  note props = string_lex_loop_props [OF loop hl hs]
  have quote: "drop h s ! 0 = hd (in_terminator i)"
    using Introducer_Lex_props(5) [OF scan(1)] i(2) hl by (cases "drop h s") (auto simp: h_def)
  have T: "newline \<notin> set T" using i(2) hs by (auto simp: T_def special_chars)
  have plain: "s ! k \<noteq> newline" if "k < e" for k
  proof -
    consider "k < h" | "k = h" | "h + 1 \<le> k" by linarith
    then show ?thesis
    proof cases
      case 1 then show ?thesis using nth_hash_prefix [OF assms(1)] by (simp add: h_def newline_def)
    next
      case 2 then show ?thesis using quote i(2) hl by (auto simp: special_chars)
    next
      case 3 then show ?thesis using string_lex_loop_plain [OF loop hs nm hl] that by simp
    qed
  qed
  have closing: "s ! k \<noteq> newline" if "sl_is_terminated lit" "e \<le> k" "k < e + length T" for k
    using text_no_newline [of e s T k] props that T by simp
  have len: "length T = length (in_terminator i) + h" by (simp add: T_def)
  have "s ! k \<noteq> newline" if "k < (if sl_is_terminated lit then e + length (in_terminator i) + sl_hash_level lit else e)" for k
    using that plain [of k] closing [of k] len by (cases "k < e") (auto simp: h_def split: if_splits)
  then show ?thesis unfolding scan(8) by (auto simp: in_set_conv_nth)
qed

lemma StringLiteral_Lex_multi_line_end:
  assumes "StringLiteral_Lex s = Some lit" "IsMultiLine (sl_kind lit)" "\<not> sl_has_invalid_introducer lit"
  shows "\<not> sl_is_terminated lit \<Longrightarrow> sl_text lit = s"
    "sl_is_terminated lit \<Longrightarrow> last (sl_text lit) \<noteq> newline \<and> \<not> IsHorizontalWhitespace (last (sl_text lit))"
proof -
  show "sl_text lit = s" if "\<not> sl_is_terminated lit"
    using assms(1)
  proof (cases rule: StringLiteral_Lex_cases)
    case (scan i e)
    then have "e = length s"
      using string_lex_loop_unterminated [of s "sl_kind lit" _ "replicate (sl_hash_level lit) (CHR ''#'')"] that assms(2)
      by (simp add: escape_of_def)
    then show ?thesis using scan(8) that by simp
  qed (use assms(3) in simp)
  show "last (sl_text lit) \<noteq> newline \<and> \<not> IsHorizontalWhitespace (last (sl_text lit))" if t: "sl_is_terminated lit"
    using assms(1)
  proof (cases rule: StringLiteral_Lex_cases)
    case (scan i e)
    define T where "T = in_terminator i @ replicate (sl_hash_level lit) (CHR ''#'')"
    have loop: "string_lex_loop s (sl_kind lit) T (backslash # replicate (sl_hash_level lit) (CHR ''#''))
        (sl_content_offset lit) False = (e, True, sl_content_needs_validation lit)"
      using scan(6) t by (simp add: escape_of_def T_def)
    have off: "sl_content_offset lit \<le> length s"
      using scan(5) Introducer_Lex_props(3) [OF scan(1)] sl_hash_level_prefix(2) [OF assms(1)] by simp
    have "newline \<notin> set (replicate (sl_hash_level lit) (CHR ''#''))" by (simp add: newline_def)
    from string_lex_loop_props [OF loop off this] have e: "e \<le> length s" "starts_with (drop e s) T" by simp_all
    obtain r where r: "drop e s = T @ r" using e(2) by (auto simp: starts_with_iff)
    have "sl_text lit = take (e + length T) s" using scan(8) t by (simp add: T_def add.assoc)
    also have "\<dots> = take e s @ T" using r e(1) by (simp add: take_add)
    finally have "last (sl_text lit) = last T" using Introducer_Lex_quotes(2) [OF scan(1)] by (simp add: T_def)
    moreover have "last T \<in> {dquote, squote, CHR ''#''}"
      using Introducer_Lex_quotes [OF scan(1)] last_in_set [of T] by (auto simp: T_def)
    ultimately show ?thesis by (auto simp: IsHorizontalWhitespace_def special_chars)
  qed (use assms(3) in simp)
qed

section \<open>Lines of a literal\<close>

lemma advance_lines_ok:
  "buffer_ok env uval src m (lx_buffer lx) \<Longrightarrow> lx_line_index lx < length (line_starts src) \<Longrightarrow>
   line_starts src ! lx_line_index lx < e \<Longrightarrow> e \<le> length src \<Longrightarrow>
   \<exists>j. advance_lines e lx = Ret (lx\<lparr>lx_line_index := j\<rparr>) \<and> lx_line_index lx \<le> j \<and> j + 1 < length (line_starts src) \<and>
     line_starts src ! j < e \<and> e \<le> line_starts src ! (j + 1)"
proof (induction e lx rule: advance_lines.induct)
  case (1 e lx)
  define i where "i = lx_line_index lx"
  have n: "i + 1 < length (line_starts src)"
    by (rule line_starts_before_end) (use "1.prems" in \<open>simp_all add: i_def\<close>)
  note lines = buffer_ok_lines [OF "1.prems"(1)]
  have nx: "next_line_info lx = Ret (lx_lines lx ! (i + 1))" "line_start (lx_lines lx ! (i + 1)) = line_starts src ! (i + 1)"
    using lines n by (simp_all add: next_line_info_def store_get_def i_def)
  show ?case
  proof (cases "line_starts src ! (i + 1) < e")
    case True
    then have "\<exists>j. advance_lines e (lx\<lparr>lx_line_index := i + 1\<rparr>) = Ret (lx\<lparr>lx_line_index := j\<rparr>) \<and> i + 1 \<le> j \<and>
      j + 1 < length (line_starts src) \<and> line_starts src ! j < e \<and> e \<le> line_starts src ! (j + 1)"
      using "1.IH" [OF nx(1)] "1.prems" n nx(2) by (simp add: i_def)
    with True nx show ?thesis by (subst advance_lines.simps) (auto simp: i_def)
  next
    case False
    with nx "1.prems" n show ?thesis
      by (subst advance_lines.simps) (auto simp: i_def intro!: exI [of _ "lx_line_index lx"])
  qed
qed

lemma fold_indents:
  defines "f \<equiv> \<lambda>n idx lx. fold (\<lambda>i. set_line_indent i n) idx lx"
  shows "lx_line_index (f n idx lx) = lx_line_index lx" "lx_has_leading_space (f n idx lx) = lx_has_leading_space lx"
    "frame env uval m lx0 lx \<Longrightarrow> frame env uval m lx0 (f n idx lx)" "lx_stores (f n idx lx) = lx_stores lx"
    "length (lx_lines (f n idx lx)) = length (lx_lines lx)"
    "j < length (lx_lines lx) \<Longrightarrow> line_indent (lx_lines (f n idx lx) ! j) = (if j \<in> set idx then n else line_indent (lx_lines lx ! j))"
  unfolding f_def
  by (induction idx arbitrary: lx) (auto simp: frame_set_line_indent nth_list_update)

text \<open>The position after a literal: it ends the text, or its last byte is neither blank nor a newline.\<close>

lemma span_lines_ok:
  assumes "buffer_ok env uval src m (lx_buffer lx)" "line_inv src pos lx" "pos < pos'" "pos' \<le> length src"
    "pos' = length src \<or> src ! (pos' - 1) \<noteq> newline \<and> \<not> IsHorizontalWhitespace (src ! (pos' - 1))"
  obtains lx1 where "span_lines src pos' lx = Ret lx1" "frame env uval m lx lx1" "lx_stores lx1 = lx_stores lx"
    "lx_has_leading_space lx1 = lx_has_leading_space lx" "line_inv src pos' (lx1\<lparr>lx_has_leading_space := False\<rparr>)"
proof -
  define i where "i = lx_line_index lx"
  have i: "i < length (line_starts src)" "line_starts src ! i \<le> pos" "line_starts src ! i + current_indent lx \<le> pos"
    using assms(2-4) by (simp_all add: line_inv_def line_ok_def i_def)
  note lines = buffer_ok_lines [OF assms(1)]
  obtain j where j: "advance_lines pos' lx = Ret (lx\<lparr>lx_line_index := j\<rparr>)" "i \<le> j" "j + 1 < length (line_starts src)"
    "line_starts src ! j < pos'" "pos' \<le> line_starts src ! (j + 1)"
    using advance_lines_ok [OF assms(1), of pos'] i assms(3,4) by (auto simp: i_def)
  define start where "start = line_starts src ! j"
  define n where "n = SkipHorizontalWhitespace src start - start"
  define lx1 where "lx1 = fold (\<lambda>i. set_line_indent i n) [i + 1..<j + 1] (lx\<lparr>lx_line_index := j\<rparr>)"
  have "current_line_info (lx\<lparr>lx_line_index := j\<rparr>) = Ret (lx_lines lx ! j)" "line_start (lx_lines lx ! j) = start"
    using lines j(3) by (simp_all add: current_line_info_def store_get_def start_def)
  then have eq: "span_lines src pos' lx = Ret lx1"
    using j(1) by (simp add: span_lines_def lx1_def n_def i_def Let_def)
  have f: "frame env uval m lx (lx\<lparr>lx_line_index := j\<rparr>)"
    by (rule frame_buffer_eq [OF frame_refl [OF assms(1)]]) (use assms(1) in \<open>simp_all add: buffer_ok_def\<close>)
  note fold = fold_indents [where n = n and idx = "[i + 1..<j + 1]" and lx = "lx\<lparr>lx_line_index := j\<rparr>", folded lx1_def]
  have jl: "j < length (lx_lines lx)" using lines(1) j(3) by simp
  have start: "start \<le> length src" "start < pos'" using j(3,4) line_starts_le_length [of j src] by (simp_all add: start_def)
  have skip: "start \<le> SkipHorizontalWhitespace src start"
      "\<And>k. start \<le> k \<Longrightarrow> k < SkipHorizontalWhitespace src start \<Longrightarrow> IsHorizontalWhitespace (src ! k)"
    using SkipHorizontalWhitespace_props [OF start(1)] by auto
  have indent: "start + current_indent lx1 < pos'" if "pos' < length src"
  proof (cases "i < j")
    case True
    have "\<not> pos' - 1 < SkipHorizontalWhitespace src start" 
    proof -
      have "start \<le> pos' - 1" using start(2) by linarith
      then show ?thesis using skip(2) [of "pos' - 1"] assms(5) that by auto
    qed
    then show ?thesis using fold(1,6) jl True skip(1) start(2) by (simp add: n_def)
  next
    case False
    then have "i = j" using j(2) by simp
    then show ?thesis using fold(1,6) jl i(3) assms(3) by (simp add: start_def i_def)
  qed
  have "pos' < line_starts src ! (j + 1)" if "pos' < length src"
    using line_starts_nth(4) [OF j(3)] j(5) assms(5) that by (cases "pos' = line_starts src ! (j + 1)") auto
  then have "line_inv src pos' (lx1\<lparr>lx_has_leading_space := False\<rparr>)"
    using indent j(3,4) assms(4) fold(1) by (auto simp: line_inv_def line_ok_def start_def)
  then show thesis by (intro that [OF eq]) (use fold(2,4) fold(3) [OF f] in simp_all)
qed

section \<open>The handler\<close>

text \<open>A token at the end of lines that were spanned.\<close>

lemma spanned_advances:
  assumes "ready env uval src m pos lx" "frame env uval (m + 1) lx lx2"
    "lx_has_leading_space lx2 = lx_has_leading_space lx" "line_inv src pos' (lx2\<lparr>lx_has_leading_space := False\<rparr>)"
    "ti_byte_offset info = pos" "groupless info" "tok_ok env (lx_buffer lx2) info w" "w \<noteq> []" "pos' = pos + length w"
  shows "advances env uval src m pos (Ret (add_tok info lx2, pos'))"
proof -
  have "core env uval src m pos lx" using assms(1) by (simp add: ready_def)
  then have "core env uval src (m + 1) pos lx2" by (rule core_frame [OF _ assms(2,3)])
  from core_add [OF this assms(5-8)] have "core env uval src (m + 1) pos' (add_tok info lx2)" using assms(9) by simp
  moreover have "line_inv src pos' (add_tok info lx2)" using assms(4) by (simp add: line_inv_def)
  ultimately show ?thesis using assms(8,9) by (simp add: advances_def lex_inv_def)
qed

lemma tok_ok_string:
  assumes "StringLiteral_Lex (drop off (tb_source tb)) = Some lit" "kind = StringLiteral \<or> kind = CharLiteral"
  shows "tok_ok env tb (TokenInfo_payload kind sp p off) (sl_text lit)"
proof -
  have "starts_with (drop off (tb_source tb)) (sl_text lit)" "sl_text lit \<noteq> []"
    using StringLiteral_Lex_prefix [OF assms(1)] by (auto simp: starts_with_iff)
  with assms show ?thesis by (auto simp: tok_ok_def info_text_def relexed_string_def)
qed

lemma frame_same_mono:
  "frame env uval m lx lx1 \<Longrightarrow> m' < 2 ^ 21 \<Longrightarrow> m \<le> m' \<Longrightarrow> frame env uval m' lx lx1"
  by (auto simp: frame_def intro: stores_ok_mono)

text \<open>The end of a multi-line literal in the source.\<close>

lemma multi_line_text_end:
  assumes "StringLiteral_Lex (drop pos src) = Some lit" "IsMultiLine (sl_kind lit)" "\<not> sl_has_invalid_introducer lit"
    "pos < length src" "pos' = pos + length (sl_text lit)"
  shows "pos' = length src \<or> src ! (pos' - 1) \<noteq> newline \<and> \<not> IsHorizontalWhitespace (src ! (pos' - 1))"
proof (cases "sl_is_terminated lit")
  case False
  then show ?thesis using StringLiteral_Lex_multi_line_end(1) [OF assms(1-3)] assms(4,5) by simp
next
  case True
  obtain rest where r: "drop pos src = sl_text lit @ rest" and ne: "sl_text lit \<noteq> []"
    using StringLiteral_Lex_prefix [OF assms(1)] by blast
  have "src ! (pos' - 1) = last (sl_text lit)"
  proof -
    have "src ! (pos + (length (sl_text lit) - 1)) = sl_text lit ! (length (sl_text lit) - 1)"
      by (rule starts_with_nth) (use r ne in \<open>auto simp: starts_with_iff\<close>)
    moreover have "pos' - 1 = pos + (length (sl_text lit) - 1)" using ne assms(5) by (cases "sl_text lit") auto
    ultimately show ?thesis using ne by (simp add: last_conv_nth)
  qed
  then show ?thesis using StringLiteral_Lex_multi_line_end(2) [OF assms(1-3) True] by simp
qed

context lexing
begin

lemma LexStringLiteral_multi_line:
  assumes "ready env uval src m pos lx" "StringLiteral_Lex (drop pos src) = Some lit" "IsMultiLine (sl_kind lit)"
    "\<not> sl_has_invalid_introducer lit"
  shows "advances env uval src m pos (LexStringLiteral env src pos lx)"
proof -
  have r: "line_inv src pos lx" "pos < length src" "m + 1 < 2 ^ 21" "length src < 2 ^ 21"
    using assms(1) by (simp_all add: ready_def)
  define w pos' where "w = sl_text lit" and "pos' = pos + length w"
  have w: "starts_with (drop pos src) w" "w \<noteq> []"
    using StringLiteral_Lex_prefix [OF assms(2)] by (auto simp: starts_with_iff w_def)
  have pos': "pos < pos'" "pos' \<le> length src"
    using w starts_with_drop_length [OF w] by (auto simp: pos'_def)
  note at_end = multi_line_text_end [OF assms(2-4) r(2), of pos', folded w_def, OF pos'_def]
  obtain lx1 where s: "span_lines src pos' lx = Ret lx1" "frame env uval m lx lx1" "lx_stores lx1 = lx_stores lx"
    "lx_has_leading_space lx1 = lx_has_leading_space lx" "line_inv src pos' (lx1\<lparr>lx_has_leading_space := False\<rparr>)"
    by (rule span_lines_ok [OF ready_buffer [OF assms(1)] r(1) pos' at_end])
  have f1: "frame env uval (m + 1) lx lx1" by (rule frame_same_mono [OF s(2)]) (use r(3) in simp_all)
  have kind: "sl_kind lit \<noteq> CharKind" "sl_kind lit \<noteq> SingleLine" using assms(3) by (auto simp: IsMultiLine_def)
  show ?thesis
  proof (cases "sl_is_terminated lit")
    case False
    define lx2 where "lx2 = emit pos (UnterminatedString False) lx1"
    have src2: "tb_source (lx_buffer lx2) = src" using f1 ready_source [OF assms(1)] by (simp add: lx2_def frame_def)
    have "advances env uval src m pos (Ret (add_tok (TokenInfo_payload Error (lx_has_leading_space lx2) (int (length w)) pos) lx2, pos'))"
    proof (rule spanned_advances [OF assms(1), where w = w])
      show "frame env uval (m + 1) lx lx2" unfolding lx2_def by (rule frame_emit [OF f1])
      have "substr src pos (length w) = w" using w(1) by (simp add: substr_def starts_with_take)
      then show "tok_ok env (lx_buffer lx2) (TokenInfo_payload Error (lx_has_leading_space lx2) (int (length w)) pos) w"
        using tok_ok_error [of "length w" pos "lx_buffer lx2" env] w(2) pos' r(4) src2 by (simp add: pos'_def)
      show "line_inv src pos' (lx2\<lparr>lx_has_leading_space := False\<rparr>)" using s(5) by (simp add: lx2_def line_inv_def)
    qed (use s(4) w(2) in \<open>simp_all add: lx2_def pos'_def is_grouping_symbol_def\<close>)
    then show ?thesis
      using assms(2,4) kind False s(1)
      by (simp add: LexStringLiteral_def w_def [symmetric] pos'_def [symmetric] lx2_def LexTokenWithPayload_def Let_def)
  next
    case True
    obtain v ds where v: "ComputeStringValue (env_to_utf8 env) lit [] = Ret (v, ds)"
      using ComputeStringValue_ok [OF encoder assms(2) True kind(1)] by blast
    define lx2 where "lx2 = emit_all pos FromString ds lx1"
    have st: "stores_ok env uval m (lx_stores lx2)" "m < 2 ^ 30"
      using ready_buffer [OF assms(1)] s(3) by (simp_all add: buffer_ok_def lx2_def)
    have "strings_ok (env_string_layout env) m (svs_string_literal_values (lx_stores lx2))" using st(1) by (simp add: stores_ok_def)
    from strings_add [OF this st(2), of v] obtain j strs where j:
      "Canonical_Add (env_string_layout env) (\<lambda>s. s) v (svs_string_literal_values (lx_stores lx2)) = Ret (word_of_nat j, strs)"
      "strings_ok (env_string_layout env) (m + 1) strs"
      by metis
    define lx3 where "lx3 = lx2\<lparr>lx_buffer := (lx_buffer lx2)\<lparr>tb_value_stores := (lx_stores lx2)\<lparr>svs_string_literal_values := strs\<rparr>\<rparr>\<rparr>"
    have add: "add_string env v lx2 = Ret (word_of_nat j, lx3)" using j(1) by (simp add: add_string_def Let_def lx3_def)
    have "stores_ok env uval (m + 1) (lx_stores lx3)"
      using stores_ok_mono [OF st(1), of "m + 1"] j(2) by (simp add: stores_ok_def lx3_def)
    then have f3: "frame env uval (m + 1) lx lx3"
      using f1 gap_cong [of "lx_buffer lx3" "lx_buffer lx1"] comments_ok_cong [of "lx_buffer lx3" "lx_buffer lx1"]
      by (simp add: frame_def lx3_def lx2_def extends_ids_def)
    have "advances env uval src m pos
      (Ret (add_tok (TokenInfo_payload StringLiteral (lx_has_leading_space lx3) (sint (word_of_nat j :: 32 word)) pos) lx3, pos'))"
    proof (rule spanned_advances [OF assms(1) f3, where w = w])
      have "tb_source (lx_buffer lx3) = src" using f3 ready_source [OF assms(1)] by (simp add: frame_def)
      then show "tok_ok env (lx_buffer lx3) (TokenInfo_payload StringLiteral (lx_has_leading_space lx3) (sint (word_of_nat j :: 32 word)) pos) w"
        unfolding w_def by (intro tok_ok_string) (simp_all add: assms(2))
      show "line_inv src pos' (lx3\<lparr>lx_has_leading_space := False\<rparr>)" using s(5) by (simp add: lx3_def lx2_def line_inv_def)
    qed (use s(4) w(2) in \<open>simp_all add: lx3_def lx2_def pos'_def is_grouping_symbol_def\<close>)
    then show ?thesis
      using assms(2,4) kind True s(1) v add
      by (simp add: LexStringLiteral_def w_def [symmetric] pos'_def [symmetric] lx2_def LexTokenWithPayload_def Let_def)
  qed
qed

lemma LexStringLiteral_single_line:
  assumes "ready env uval src m pos lx" "StringLiteral_Lex (drop pos src) = Some lit"
    "sl_has_invalid_introducer lit \<or> \<not> IsMultiLine (sl_kind lit)"
  shows "advances env uval src m pos (LexStringLiteral env src pos lx)"
proof -
  define w pos' where "w = sl_text lit" and "pos' = pos + length w"
  have w: "starts_with (drop pos src) w" "w \<noteq> []"
    using StringLiteral_Lex_prefix [OF assms(2)] by (auto simp: starts_with_iff w_def)
  have nl: "newline \<notin> set w" using StringLiteral_Lex_single_line [OF assms(2,3)] by (simp add: w_def)
  have err: "advances env uval src m pos (Ret (snd (LexTokenWithPayload Error (int (length w)) pos lx1), pos'))"
    if "grown env uval m lx lx1" for lx1
    unfolding pos'_def by (rule grown_error_advances [OF assms(1) that w nl])
  note g0 = grown_refl [OF assms(1)]
  have tok: "advances env uval src m pos (Ret (snd (LexTokenWithPayload kind p pos lx1), pos'))"
    if "kind = StringLiteral \<or> kind = CharLiteral" "grown env uval m lx lx1" for kind p lx1
  proof -
    have "tb_source (lx_buffer lx1) = src" by (rule grown_source [OF assms(1) that(2)])
    then have "info_text env (lx_buffer lx1) (TokenInfo_payload kind (lx_has_leading_space lx1) p pos) = Ret w"
      using tok_ok_string [of pos "lx_buffer lx1" lit kind env] that(1) assms(2) by (simp add: tok_ok_def w_def)
    from grown_advances [OF assms(1) that(2) _ _ _ this w nl pos'_def] that(1)
    show ?thesis by (auto simp: LexTokenWithPayload_def is_grouping_symbol_def)
  qed
  consider (char) "sl_kind lit = CharKind" | (invalid) "sl_kind lit \<noteq> CharKind" "sl_has_invalid_introducer lit"
    | (string) "sl_kind lit = SingleLine" "\<not> sl_has_invalid_introducer lit"
    using assms(3) by (cases "sl_kind lit") (auto simp: IsMultiLine_def)
  then show ?thesis
  proof cases
    case char
    show ?thesis
    proof (cases "sl_is_terminated lit")
      case True
      obtain v ds where v: "ComputeCharLiteralValue (env_to_utf8 env) (env_from_utf8 env) lit [] = Ret (v, ds)"
        using ComputeCharLiteralValue_ok [OF encoder decoder assms(2) True char] by blast
      note g = grown_emit_all(1) [OF g0, of pos FromString ds]
      show ?thesis
        using assms(2) char True v err [OF g] tok [OF _ g, of CharLiteral]
        by (cases v) (simp_all add: LexStringLiteral_def w_def [symmetric] pos'_def [symmetric] Let_def)
    next
      case False
      with err [OF grown_emit_all(2) [OF g0]] assms(2) char show ?thesis
        by (simp add: LexStringLiteral_def w_def [symmetric] pos'_def [symmetric] Let_def)
    qed
  next
    case invalid
    with err [OF grown_emit_all(2) [OF g0]] assms(2) show ?thesis
      by (simp add: LexStringLiteral_def w_def [symmetric] pos'_def [symmetric] Let_def)
  next
    case string
    show ?thesis
    proof (cases "sl_is_terminated lit")
      case True
      obtain v ds where v: "ComputeStringValue (env_to_utf8 env) lit [] = Ret (v, ds)"
        using ComputeStringValue_ok [OF encoder assms(2) True, of "[]"] string(1) by auto
      note g = grown_emit_all(1) [OF g0, of pos FromString ds]
      obtain tid lx2 where a: "add_string env v (emit_all pos FromString ds lx) = Ret (tid, lx2)" "grown env uval m lx lx2"
        by (rule add_string_ok [OF assms(1) g]) simp_all
      show ?thesis
        using assms(2) string True v a(1) tok [OF _ a(2), of StringLiteral]
        by (simp add: LexStringLiteral_def w_def [symmetric] pos'_def [symmetric] Let_def)
    next
      case False
      with err [OF grown_emit_all(2) [OF g0]] assms(2) string show ?thesis
        by (simp add: LexStringLiteral_def w_def [symmetric] pos'_def [symmetric] Let_def)
    qed
  qed
qed

lemma LexStringLiteral_ok:
  assumes "ready env uval src m pos lx" "src ! pos \<noteq> newline"
  shows "advances env uval src m pos (LexStringLiteral env src pos lx)"
proof (cases "StringLiteral_Lex (drop pos src)")
  case None
  with LexError_ok [OF assms] show ?thesis by (simp add: LexStringLiteral_def)
next
  case (Some lit)
  with LexStringLiteral_multi_line [OF assms(1) Some] LexStringLiteral_single_line [OF assms(1) Some]
  show ?thesis by blast
qed

end

end
