(* ===== verification/Lexer_Words.thy ===== *)
theory Lexer_Words
  imports Lexer_Strings
begin

text \<open>
  The handlers of words: keywords, identifiers, raw identifiers, type literals and dollar
  literals. The word \<open>r\<close> of a raw identifier is first lexed as an identifier; the handler of the
  hash after it completes its token.
\<close>

section \<open>Words in the source\<close>

lemma id_char_not_newline: "id_char c \<Longrightarrow> c \<noteq> newline"
  by (auto simp: IsIdByteTable_def IsIdStartByteTable_def byte_of_def newline_def)

lemma id_start_char_not_newline: "id_start_char c \<Longrightarrow> c \<noteq> newline"
  by (auto simp: IsIdStartByteTable_def byte_of_def newline_def)

lemma digit_id_char: "IsDecimalDigit c \<Longrightarrow> id_char c"
  by (simp add: IsDecimalDigit_def IsIdByteTable_def)

lemma id_prefix_props:
  assumes "pos < length s" "id_start_char (s ! pos)"
  shows "id_prefix (drop pos s) = s ! pos # takeWhile id_char (drop (pos + 1) s)"
    "starts_with (drop pos s) (id_prefix (drop pos s))" "newline \<notin> set (id_prefix (drop pos s))"
proof -
  have d: "drop pos s = s ! pos # drop (pos + 1) s" using assms(1) by (simp add: Cons_nth_drop_Suc)
  show p: "id_prefix (drop pos s) = s ! pos # takeWhile id_char (drop (pos + 1) s)"
    unfolding d using assms(2) by (simp add: id_prefix_def)
  have "drop (pos + 1) s = takeWhile id_char (drop (pos + 1) s) @ dropWhile id_char (drop (pos + 1) s)" by simp
  then show "starts_with (drop pos s) (id_prefix (drop pos s))"
    unfolding p unfolding d by (simp add: starts_with_iff) (metis takeWhile_dropWhile_id)
  show "newline \<notin> set (id_prefix (drop pos s))"
    unfolding p using id_char_not_newline id_start_char_not_newline [OF assms(2)] by (auto dest: set_takeWhileD)
qed

lemma takeWhile_weaker: "list_all P (takeWhile Q xs) \<Longrightarrow> (\<And>x. P x \<Longrightarrow> Q x) \<Longrightarrow> takeWhile P xs = takeWhile Q xs"
  by (induction xs) auto

text \<open>A suffix of digits makes the whole word the text of a type or dollar literal.\<close>

lemma digits_word_text:
  assumes "pos < length s" "id_start_char (s ! pos)" "list_all IsDecimalDigit (drop 1 (id_prefix (drop pos s)))"
  shows "substr s pos (length (takeWhile IsDecimalDigit (drop (pos + 1) s)) + 1) = id_prefix (drop pos s)"
proof -
  note p = id_prefix_props [OF assms(1,2)]
  have "takeWhile IsDecimalDigit (drop (pos + 1) s) = takeWhile id_char (drop (pos + 1) s)"
    by (rule takeWhile_weaker) (use assms(3) p(1) digit_id_char in auto)
  then have "length (takeWhile IsDecimalDigit (drop (pos + 1) s)) + 1 = length (id_prefix (drop pos s))"
    using p(1) by simp
  with p(2) show ?thesis by (simp add: substr_def starts_with_take)
qed

section \<open>The number of a word\<close>

lemma suffix_value_loop_bound:
  "suffix_value_loop acc cs = Some v \<Longrightarrow> unat acc < 10 ^ k \<Longrightarrow> k + length cs \<le> 18 \<Longrightarrow>
   list_all IsDecimalDigit cs \<and> unat v < 10 ^ (k + length cs)"
proof (induction cs arbitrary: acc k)
  case (Cons c cs)
  have d: "IsDecimalDigit c" "suffix_value_loop (acc * 10 + word_of_nat (byte_of c - 48)) cs = Some v"
    using Cons.prems(1) by (auto split: if_splits)
  have digit: "byte_of c - 48 < 10" using d(1) by (auto simp: IsDecimalDigit_def)
  have "(10::nat) ^ Suc k \<le> 10 ^ 18" using Cons.prems(3) by (intro power_increasing) auto
  moreover have "unat acc * 10 + (byte_of c - 48) < 10 ^ Suc k" using Cons.prems(2) digit by simp
  ultimately have b: "unat acc * 10 + (byte_of c - 48) < 10 ^ Suc k" "unat acc * 10 + (byte_of c - 48) < 2 ^ 64" by simp_all
  have "unat (acc * 10 + word_of_nat (byte_of c - 48)) = unat acc * 10 + (byte_of c - 48)"
  proof -
    have "acc * 10 + word_of_nat (byte_of c - 48) = word_of_nat (unat acc * 10 + (byte_of c - 48))"
      by simp
    then show ?thesis using b(2) by (simp only: unat_of_nat) (simp add: take_bit_nat_eq_self)
  qed
  with Cons.IH [OF d(2), of "Suc k"] b(1) Cons.prems(3) d(1) show ?case by simp
qed simp

lemma suffix_value_sint:
  assumes "suffix_value_loop (word_of_nat (byte_of (suffix ! 0) - 48)) (drop 1 suffix) = Some v"
    "suffix \<noteq> []" "IsDecimalDigit (suffix ! 0)" "length suffix \<le> WordDigitLimit"
  shows "0 \<le> sint v" "sint v < 2 ^ 63" "list_all IsDecimalDigit suffix"
proof -
  obtain c cs where s: "suffix = c # cs" using assms(2) by (cases suffix) auto
  have d: "byte_of c - 48 < 10" using assms(3) s by (auto simp: IsDecimalDigit_def)
  then have "unat (word_of_nat (byte_of c - 48) :: 64 word) < 10 ^ 1"
    by (simp add: unat_of_nat take_bit_nat_eq_self)
  from suffix_value_loop_bound [OF _ this, of cs v] assms(1,4) s
  have v: "list_all IsDecimalDigit cs" "unat v < 10 ^ (1 + length cs)" by (simp_all add: WordDigitLimit_def)
  then show "list_all IsDecimalDigit suffix" using assms(3) s by simp
  have "(10::nat) ^ (1 + length cs) \<le> 10 ^ 18" using assms(4) s by (intro power_increasing) (auto simp: WordDigitLimit_def)
  then have "unat v < 2 ^ 63" using v(2) by simp
  then have "int (unat v) < int (2 ^ 63)" by (simp only: of_nat_less_iff)
  then have "uint v < 2 ^ 63" by simp
  moreover from this have "signed_take_bit 63 (uint v) = uint v"
    by (intro signed_take_bit_int_eq_self) (auto intro: order_trans [OF _ uint_ge_0])
  then have "sint v = uint v" by (simp add: sint_uint)
  ultimately show "0 \<le> sint v" "sint v < 2 ^ 63" by simp_all
qed

section \<open>Type and dollar literals\<close>

text \<open>What the two routines promise of a word: no token, or the token of the word.\<close>

definition word_result :: "'a lex_env \<Rightarrow> ('a \<Rightarrow> int) \<Rightarrow> string \<Rightarrow> nat \<Rightarrow> nat \<Rightarrow> string \<Rightarrow> 'a Lexer option outcome \<Rightarrow> bool" where
  "word_result env uval src m pos word r \<longleftrightarrow>
     r = Ret None \<or> (\<exists>lx'. r = Ret (Some lx') \<and> advances env uval src m pos (Ret (lx', pos + length word)))"

lemma word_result_if:
  "(b \<Longrightarrow> word_result env uval src m pos word x) \<Longrightarrow> (\<not> b \<Longrightarrow> word_result env uval src m pos word y) \<Longrightarrow>
   word_result env uval src m pos word (if b then x else y)"
  by simp

lemma word_result_case:
  "word_result env uval src m pos word x \<Longrightarrow> (\<And>v. r = Some v \<Longrightarrow> word_result env uval src m pos word (f v)) \<Longrightarrow>
   word_result env uval src m pos word (case r of None \<Rightarrow> x | Some v \<Rightarrow> f v)"
  by (cases r) simp_all

definition at_word :: "'a lex_env \<Rightarrow> ('a \<Rightarrow> int) \<Rightarrow> string \<Rightarrow> nat \<Rightarrow> nat \<Rightarrow> 'a Lexer \<Rightarrow> string \<Rightarrow> bool" where
  "at_word env uval src m pos lx word \<longleftrightarrow>
     ready env uval src m pos lx \<and> id_start_char (src ! pos) \<and> word = id_prefix (drop pos src)"

lemma at_wordD:
  assumes "at_word env uval src m pos lx word"
  shows "ready env uval src m pos lx" "id_start_char (src ! pos)" "word = id_prefix (drop pos src)" "pos < length src"
    "starts_with (drop pos src) word" "word \<noteq> []" "newline \<notin> set word" "word ! 0 = src ! pos" "pos + length word \<le> length src"
proof -
  show a: "ready env uval src m pos lx" "id_start_char (src ! pos)" "word = id_prefix (drop pos src)"
    using assms by (simp_all add: at_word_def)
  then show l: "pos < length src" by (simp add: ready_def)
  note p = id_prefix_props [OF l a(2), folded a(3)]
  show w: "starts_with (drop pos src) word" "word \<noteq> []" "newline \<notin> set word" "word ! 0 = src ! pos" using p by simp_all
  show "pos + length word \<le> length src" by (rule starts_with_drop_length [OF w(1,2)])
qed

lemma error_word:
  assumes "at_word env uval src m pos lx word"
  shows "word_result env uval src m pos word (Ret (Some (snd (LexTokenWithPayload Error (int (length word)) pos (emit p d lx)))))"
  unfolding word_result_def
  using grown_error_advances [OF at_wordD(1) [OF assms] grown_emit_all(2) [OF grown_refl [OF at_wordD(1) [OF assms]]]
      at_wordD(5-7) [OF assms]] by blast

lemma number_word:
  assumes wa: "at_word env uval src m pos lx word"
    and "is_sized_type_literal kind \<or> is_dollar_int_literal kind" "list_all IsDecimalDigit (drop 1 word)" "grown env uval m lx lx1"
  shows "word_result env uval src m pos word (Ret (Some (snd (LexTokenWithPayload kind p pos lx1))))"
proof -
  note rdy = at_wordD(1) [OF wa]
  have k: "kind \<in> {IntTypeLiteral, UnsignedIntTypeLiteral, FloatTypeLiteral, DollarIntLiteral}"
    using assms(2) by (auto simp: is_sized_type_literal_def is_dollar_int_literal_def)
  have "info_text env (lx_buffer lx1) (TokenInfo_payload kind (lx_has_leading_space lx1) p pos) = Ret word"
    using digits_word_text [OF at_wordD(4,2) [OF wa], folded at_wordD(3) [OF wa], OF assms(3)] grown_source [OF rdy assms(4)] k
    by (auto simp: info_text_def is_sized_type_literal_def is_dollar_int_literal_def)
  from grown_advances [OF rdy assms(4) _ _ _ this at_wordD(5-7) [OF wa] refl] k
  have "advances env uval src m pos (Ret (snd (LexTokenWithPayload kind p pos lx1), pos + length word))"
    by (auto simp: LexTokenWithPayload_def is_grouping_symbol_def)
  then show ?thesis by (simp add: word_result_def)
qed

context lexing
begin

text \<open>The number after the first character, of at most \<open>WordDigitLimit\<close> digits.\<close>

lemma suffix_word:
  assumes wa: "at_word env uval src m pos lx word"
    and "is_sized_type_literal kind \<or> is_dollar_int_literal kind" "1 < length word" "IsDecimalDigit (word ! 1)"
    "length (drop 1 word) \<le> WordDigitLimit"
    "suffix_value_loop (word_of_nat (byte_of (drop 1 word ! 0) - 48)) (drop 1 (drop 1 word)) = Some v"
  shows "word_result env uval src m pos word (carbon_check (0 \<le> sint v) (bind_outcome (add_int env (sint v) lx) (\<lambda>(payload, lx).
     Ret (Some (snd (LexTokenWithPayload kind (sint payload) pos lx))))))"
proof -
  have s: "drop 1 word \<noteq> []" "IsDecimalDigit (drop 1 word ! 0)" using assms(3,4) by auto
  note v = suffix_value_sint [OF assms(6) s assms(5)]
  obtain payload lx1 where a: "add_int env (sint v) lx = Ret (payload, lx1)" "grown env uval m lx lx1"
    by (rule add_int_ok [OF at_wordD(1) [OF wa], of "sint v"]) (use v in auto)
  show ?thesis using number_word [OF wa assms(2) v(3) a(2)] a(1) v(1) by simp
qed

lemma LexWordAsTypeLiteralToken_ok:
  assumes wa: "at_word env uval src m pos lx word"
  shows "word_result env uval src m pos word (LexWordAsTypeLiteralToken env word pos lx)"
proof -
  define kind where "kind = (if hd word = CHR ''i'' then Some IntTypeLiteral
     else if hd word = CHR ''u'' then Some UnsignedIntTypeLiteral
     else if hd word = CHR ''f'' then Some FloatTypeLiteral else None)"
  have none: "word_result env uval src m pos word (Ret None)" by (simp add: word_result_def)
  show ?thesis
  proof (cases "length word < 2 \<or> kind = None \<or> byte_of (word ! 1) < 49 \<or> 57 < byte_of (word ! 1)")
    case True
    then have "LexWordAsTypeLiteralToken env word pos lx = Ret None"
      by (auto simp: LexWordAsTypeLiteralToken_def kind_def [symmetric] Let_def split: option.splits)
    with none show ?thesis by simp
  next
    case False
    then obtain k where k: "kind = Some k" "is_sized_type_literal k"
      by (auto simp: kind_def is_sized_type_literal_def split: if_splits)
    have w: "1 < length word" "IsDecimalDigit (word ! 1)" using False by (auto simp: IsDecimalDigit_def)
    have step: "LexWordAsTypeLiteralToken env word pos lx =
      (if WordDigitLimit < length (drop 1 word)
       then if \<not> list_all IsDecimalDigit (drop 1 word) then Ret None
         else Ret (Some (snd (LexTokenWithPayload Error (int (length word)) pos
                (emit (pos + 1) (TooManyTypeBitWidthDigits (length (drop 1 word)) WordDigitLimit) lx))))
       else case suffix_value_loop (word_of_nat (byte_of (drop 1 word ! 0) - 48)) (drop 1 (drop 1 word)) of
              None \<Rightarrow> Ret None
            | Some v \<Rightarrow> carbon_check (0 \<le> sint v) (bind_outcome (add_int env (sint v) lx) (\<lambda>(payload, lx).
                Ret (Some (snd (LexTokenWithPayload k (sint payload) pos lx))))))"
      using False k(1) by (simp add: LexWordAsTypeLiteralToken_def kind_def [symmetric] Let_def)
    show ?thesis
      using none error_word [OF wa] suffix_word [OF wa _ w, of k] k(2) unfolding step
      by (auto split: option.splits)
  qed
qed

text \<open>A dollar word after a word: its text is added to the token before, which becomes an error.\<close>

lemma dollar_after_word:
  assumes wa: "at_word env uval src m pos lx word"
    and "\<not> lx_has_leading_space lx" "is_word (ti_kind (last_token lx))"
  obtains w where "GetTokenText env (lx_buffer lx) (length (lx_token_infos lx) - 1) = Ret w"
    "advances env uval src m pos (Ret (replace_last (TokenInfo_payload Error (lx_has_leading_space lx)
       (int (length w + length word)) (last_offset lx)) (emit p d lx), pos + length word))"
proof -
  note rdy = at_wordD(1) [OF wa] and word_props = at_wordD(5-9) [OF wa]
  have c: "core env uval src m pos lx" "pre_core env uval src m lx" "m + 1 < 2 ^ 21" "length src < 2 ^ 21" "line_inv src pos lx"
    using rdy by (simp_all add: ready_def core_def)
  obtain w where w: "tok_ok env (lx_buffer lx) (last_token lx) w" "last_offset lx + length w = pos"
    using c(1) assms(2) by (auto simp: core_def)
  have ne: "lx_token_infos lx \<noteq> []" by (rule core_tokens(5) [OF c(1)])
  then have get: "GetTokenText env (lx_buffer lx) (length (lx_token_infos lx) - 1) = Ret w"
    using w(1) by (simp add: GetTokenText_def store_get_def tok_ok_def last_conv_nth)
  have k: "groupless (last_token lx)" "ti_kind (last_token lx) \<noteq> FileStart"
    using assms(3) by (auto simp: is_word_def is_grouping_symbol_def is_sized_type_literal_def elim: is_keyword.elims)
  define n where "n = length w + length word"
  define info where "info = TokenInfo_payload Error (lx_has_leading_space lx) (int n) (last_offset lx)"
  define lx1 where "lx1 = emit p d lx"
  have "pre_core env uval src (m + 1) lx1"
    unfolding lx1_def by (rule pre_core_frame [OF c(2) frame_emit [OF ready_frame(1) [OF rdy]]])
  then have p: "pre_core env uval src (m + 1) (replace_last info lx1)"
    by (rule pre_core_replace) (use k in \<open>simp_all add: lx1_def info_def is_grouping_symbol_def\<close>)
  have n: "0 < n" "last_offset lx + n = pos + length word" "last_offset lx + n \<le> length src" "n < 2 ^ 23"
    using w(2) word_props(2,5) c(4) by (auto simp: n_def)
  have last: "last_token (replace_last info lx1) = info"
    using ne replace_last_infos [of lx1 info] by (simp add: lx1_def)
  have src: "tb_source (lx_buffer (replace_last info lx1)) = src" using ready_source [OF rdy] by (simp add: lx1_def)
  have "tok_ok env (lx_buffer (replace_last info lx1)) info (substr src (last_offset lx) n)"
    using tok_ok_error [of n "last_offset lx" "lx_buffer (replace_last info lx1)" env] n src by (simp add: info_def)
  then have "core env uval src (m + 1) (pos + length word) (replace_last info lx1)"
    using n assms(2) last by (intro core_finish [OF p, of "substr src (last_offset lx) n"])
      (auto simp: lx1_def info_def substr_def)
  moreover have "line_inv src (pos + length word) (replace_last info lx1)"
    by (rule line_inv_text [OF c(5) _ _ word_props(1-3)]) (simp_all add: lx1_def)
  ultimately have "advances env uval src m pos (Ret (replace_last info lx1, pos + length word))"
    using word_props(2) by (simp add: advances_def lex_inv_def)
  with get show thesis by (intro that) (simp_all add: lx1_def info_def n_def)
qed

lemma LexWordAsDollarIntLiteralToken_ok:
  assumes wa: "at_word env uval src m pos lx word"
  shows "word_result env uval src m pos word (LexWordAsDollarIntLiteralToken env word pos lx)"
proof (cases "starts_with word ''$''")
  case False
  then show ?thesis by (simp add: LexWordAsDollarIntLiteralToken_def word_result_def)
next
  case True
  note rdy = at_wordD(1) [OF wa]
  have ne: "lx_token_infos lx \<noteq> []" "tb_post_lexing_recovery_tokens (lx_buffer lx) = 0"
    using rdy ready_buffer [OF rdy] by (simp_all add: ready_def core_def pre_core_def buffer_ok_def)
  define after where "after \<longleftrightarrow> \<not> lx_has_leading_space lx \<and> is_word (ti_kind (last_token lx))"
  have b: "(if lx_has_leading_space lx then Ret False
      else bind_outcome (GetKind (lx_buffer lx) (tokens_end (lx_buffer lx) - 1)) (\<lambda>kind. Ret (is_word kind))) = Ret after"
    using ne by (simp add: after_def GetKind_def store_get_def tokens_end_def last_conv_nth)
  have tk: "tokens_end (lx_buffer lx) - 1 = length (lx_token_infos lx) - 1" using ne by (simp add: tokens_end_def)
  show ?thesis
  proof (cases after)
    case aft: True
    then obtain w where w: "GetTokenText env (lx_buffer lx) (length (lx_token_infos lx) - 1) = Ret w"
      "advances env uval src m pos (Ret (replace_last (TokenInfo_payload Error (lx_has_leading_space lx)
         (int (length w + length word)) (last_offset lx)) (emit pos CharacterOnlyAllowedAtStart lx), pos + length word))"
      using dollar_after_word [OF wa, of pos CharacterOnlyAllowedAtStart] unfolding after_def by metis
    have sg: "store_get (lx_token_infos lx) (length (lx_token_infos lx) - 1) = Ret (last_token lx)"
      using ne by (simp add: store_get_def last_conv_nth)
    have "LexWordAsDollarIntLiteralToken env word pos lx = Ret (Some (set_token_info (length (lx_token_infos lx) - 1)
        (TokenInfo_payload Error (lx_has_leading_space lx) (int (length w + length word)) (last_offset lx))
        (emit pos CharacterOnlyAllowedAtStart lx)))"
      unfolding LexWordAsDollarIntLiteralToken_def Let_def tk b [unfolded tk] bind_outcome.simps sg w(1)
      by (simp only: True aft if_True if_False not_True_eq_False)
    with w(2) show ?thesis by (simp add: word_result_def)
  next
    case False
    define error where "error = (\<lambda>d. Ret (Some (snd (LexTokenWithPayload Error (int (length word)) pos (emit (pos + 1) d lx)))))"
    have err: "word_result env uval src m pos word (error d)" for d unfolding error_def by (rule error_word [OF wa])
    have step: "LexWordAsDollarIntLiteralToken env word pos lx =
      (if length word < 2 then error DollarIntLiteralMissingNumber
       else if word ! 1 = CHR ''0'' \<and> 2 < length word then error DollarIntLiteralLeadingZero
       else if byte_of (word ! 1) < 48 \<or> 57 < byte_of (word ! 1) then error InvalidCharacterInDollarIntLiteral
       else if WordDigitLimit < length (drop 1 word)
       then if \<not> list_all IsDecimalDigit (drop 1 word) then error InvalidCharacterInDollarIntLiteral
         else error (TooManyDollarIntDigits (length (drop 1 word)) WordDigitLimit)
       else case suffix_value_loop (word_of_nat (byte_of (drop 1 word ! 0) - 48)) (drop 1 (drop 1 word)) of
              None \<Rightarrow> error InvalidCharacterInDollarIntLiteral
            | Some v \<Rightarrow> carbon_check (0 \<le> sint v) (bind_outcome (add_int env (sint v) lx) (\<lambda>(payload, lx).
                Ret (Some (snd (LexTokenWithPayload DollarIntLiteral (sint payload) pos lx))))))"
      unfolding LexWordAsDollarIntLiteralToken_def Let_def b bind_outcome.simps error_def
      by (simp only: True False not_True_eq_False if_False)
    have sfx: "word_result env uval src m pos word (carbon_check (0 \<le> sint v) (bind_outcome (add_int env (sint v) lx) (\<lambda>(payload, lx).
        Ret (Some (snd (LexTokenWithPayload DollarIntLiteral (sint payload) pos lx))))))"
      if "\<not> length word < 2" "\<not> (byte_of (word ! 1) < 48 \<or> 57 < byte_of (word ! 1))" "\<not> WordDigitLimit < length (drop 1 word)"
        "suffix_value_loop (word_of_nat (byte_of (drop 1 word ! 0) - 48)) (drop 1 (drop 1 word)) = Some v" for v
    proof (rule suffix_word [OF wa _ _ _ _ that(4)])
      show "1 < length word" "IsDecimalDigit (word ! 1)" using that(1,2) by (simp_all add: IsDecimalDigit_def)
    qed (use that(3) in \<open>simp_all add: is_dollar_int_literal_def not_less\<close>)
    show ?thesis unfolding step by (intro word_result_if word_result_case err sfx) assumption+
  qed
qed

end

section \<open>Identifiers\<close>

lemma hash_not_id_char: "\<not> id_char (CHR ''#'')" "\<not> id_start_char (CHR ''#'')"
  by (simp_all add: IsIdByteTable_def IsIdStartByteTable_def byte_of_def)

lemma sint_index: "j < 2 ^ 22 \<Longrightarrow> sint (word_of_nat j :: 32 word) = int j"
proof -
  assume "j < 2 ^ 22"
  then have "signed_take_bit 31 (int j) = int j" by (intro signed_take_bit_int_eq_self) auto
  then show ?thesis by (simp add: sint_sbintrunc' unsigned_of_nat signed_of_nat)
qed

text \<open>The text of an identifier that is not raw, and of one that is.\<close>

lemma identifier_plain_text:
  assumes "stores_ok env uval m (tb_value_stores tb)" "m < 2 ^ 23" "ti_kind ti = Identifier"
    "j < length (identifier_vals (tb_value_stores tb))" "ti_payload ti = Some (word_of_nat j)"
    "\<not> starts_with (drop (ti_byte_offset ti) (tb_source tb)) (''r#'' @ [hd (identifier_vals (tb_value_stores tb) ! j)])"
    "identifier_vals (tb_value_stores tb) ! j \<noteq> []"
  shows "info_text env tb ti = Ret (identifier_vals (tb_value_stores tb) ! j)"
proof -
  define ident s where "ident = identifier_vals (tb_value_stores tb) ! j" and "s = drop (ti_byte_offset ti) (tb_source tb)"
  note i = identifier_of_payload [OF assms(1-5), folded ident_def]
  have "s ! 2 \<noteq> hd ident" if "2 < length s" "starts_with s ''r#''"
    using that assms(6) by (auto simp: ident_def [symmetric] s_def [symmetric] starts_with_iff nth_Cons split: nat.splits)
      (metis hd_Cons_tl length_greater_0_conv nth_Cons_0)
  then have "info_is_raw env tb ti = Ret False"
    using assms(3,7) i by (auto simp: info_is_raw_def s_def [symmetric] ident_def [symmetric] Let_def)
  with assms(3) i show ?thesis
    by (simp add: info_text_def Let_def is_sized_type_literal_def is_dollar_int_literal_def ident_def)
qed

lemma identifier_raw_text:
  assumes "stores_ok env uval m (tb_value_stores tb)" "m < 2 ^ 23" "ti_kind ti = Identifier"
    "j < length (identifier_vals (tb_value_stores tb))" "ti_payload ti = Some (word_of_nat j)"
    "starts_with (drop (ti_byte_offset ti) (tb_source tb)) (''r#'' @ identifier_vals (tb_value_stores tb) ! j)"
    "identifier_vals (tb_value_stores tb) ! j \<noteq> []"
  shows "info_text env tb ti = Ret (''r#'' @ identifier_vals (tb_value_stores tb) ! j)"
proof -
  define ident s where "ident = identifier_vals (tb_value_stores tb) ! j" and "s = drop (ti_byte_offset ti) (tb_source tb)"
  note i = identifier_of_payload [OF assms(1-5), folded ident_def]
  obtain r where r: "s = ''r#'' @ ident @ r" using assms(6) by (auto simp: ident_def s_def starts_with_iff)
  obtain c cs where c: "ident = c # cs" using assms(7) by (cases ident) (auto simp: ident_def)
  have raw: "info_is_raw env tb ti = Ret True"
    using assms(3) i r c by (simp add: info_is_raw_def s_def [symmetric] Let_def)
  have sub: "substr (tb_source tb) (ti_byte_offset ti) (length ident + 2) = ''r#'' @ ident"
    using r by (simp add: substr_def s_def [symmetric])
  show ?thesis
    using assms(3) i raw sub
    by (simp add: info_text_def Let_def is_sized_type_literal_def is_dollar_int_literal_def ident_def [symmetric])
qed

text \<open>The new token of an identifier has its text, or it is the word of a raw identifier.\<close>

lemma identifier_word:
  assumes wa: "at_word env uval src m pos lx word"
    and a: "frame env uval (m + 1) lx lx1" "same_place lx lx1" "lx_lines lx1 = lx_lines lx"
      "j < length (identifier_vals (lx_stores lx1))" "identifier_vals (lx_stores lx1) ! j = word" "j < 2 ^ 22"
  shows "advances env uval src m pos (Ret (snd (LexTokenWithPayload Identifier (sint (word_of_nat j :: 32 word)) pos lx1), pos + length word))"
proof -
  note w = at_wordD [OF wa]
  define info where "info = TokenInfo_payload Identifier (lx_has_leading_space lx1) (sint (word_of_nat j :: 32 word)) pos"
  have info: "ti_kind info = Identifier" "ti_byte_offset info = pos" "ti_payload info = Some (word_of_nat j)" "groupless info"
    using sint_index [OF a(6)] by (simp_all add: info_def TokenInfo_payload_def is_grouping_symbol_def)
  define lx2 where "lx2 = add_tok info lx1"
  have c0: "core env uval src m pos lx" and l: "line_inv src pos lx" using w(1) by (simp_all add: ready_def)
  have c1: "core env uval src (m + 1) pos lx1"
    by (rule core_frame [OF c0 a(1)]) (use a(2) in \<open>simp add: same_place_def\<close>)
  have p2: "pre_core env uval src (m + 1) lx2" unfolding lx2_def by (rule pre_core_add [OF c1 info(2,4)])
  have src: "tb_source (lx_buffer lx1) = src" using a(1) ready_source [OF w(1)] by (simp add: frame_def)
  have st: "stores_ok env uval (m + 1) (lx_stores lx1)" "m + 1 < 2 ^ 23" using a(1) by (simp_all add: frame_def)
  have li: "line_inv src (pos + length word) lx2"
    by (rule line_inv_text [OF l _ _ w(5-7)]) (use a(2,3) in \<open>simp_all add: lx2_def same_place_def\<close>)
  have "core env uval src (m + 1) (pos + length word) lx2 \<or> pending env uval src (m + 1) (pos + length word) lx2"
  proof (cases "starts_with (drop pos src) (''r#'' @ [hd word])")
    case False
    have "info_text env (lx_buffer lx1) info = Ret word"
      using identifier_plain_text [OF st info(1) a(4) info(3)] info(2) src a(5) w(6) False by simp
    then have "tok_ok env (lx_buffer lx1) info word" using info w(5,6) src a(4) by (auto simp: tok_ok_def)
    from core_add [OF c1 info(2,4) this w(6)] show ?thesis by (simp add: lx2_def)
  next
    case True
    then obtain r where r: "drop pos src = CHR ''r'' # CHR ''#'' # hd word # r" by (auto simp: starts_with_iff)
    have n: "src ! pos = CHR ''r''" "src ! (pos + 1) = CHR ''#''" "src ! (pos + 2) = hd word" "pos + 2 < length src"
      using starts_with_nth [OF True, of 0] starts_with_nth [OF True, of 1] starts_with_nth [OF True, of 2]
        starts_with_drop_length [OF True] by simp_all
    have "word = ''r''" using w(3) r hash_not_id_char(1) n(1) w(2) by (simp add: id_prefix_def)
    then have "pending env uval src (m + 1) (pos + 1) lx2"
      using p2 n info a(4,5) w(2) by (auto simp: pending_def lx2_def)
    then show ?thesis using \<open>word = ''r''\<close> by simp
  qed
  with li w(6) show ?thesis
    by (simp add: advances_def lex_inv_def lx2_def info_def LexTokenWithPayload_def)
qed

lemma keyword_of_Some: "keyword_of word = Some k \<Longrightarrow> keyword_spelling k = word"
  by (auto simp: keyword_of_def find_Some_iff)

context lexing
begin

lemma LexKeywordOrIdentifier_ok:
  assumes "ready env uval src m pos lx" "127 < byte_of (src ! pos) \<or> id_start_char (src ! pos)"
  shows "advances env uval src m pos (LexKeywordOrIdentifier env src pos lx)"
proof (cases "127 < byte_of (src ! pos)")
  case True
  then have "src ! pos \<noteq> newline" by (auto simp: byte_of_def newline_def)
  with LexError_ok [OF assms(1)] True show ?thesis by (simp add: LexKeywordOrIdentifier_def)
next
  case False
  define word where "word = id_prefix (drop pos src)"
  have wa: "at_word env uval src m pos lx word" using assms False by (simp add: at_word_def word_def)
  note w = at_wordD [OF wa]
  define rest where "rest = (case keyword_of word of
        Some k \<Rightarrow> bind_outcome (LexToken (Keyword k) pos lx) (\<lambda>(token, lx). Ret (lx, pos + length word))
      | None \<Rightarrow> bind_outcome (lift_add_identifier env word lx) (\<lambda>(tid, lx).
          Ret (snd (LexTokenWithPayload Identifier (sint tid) pos lx), pos + length word)))"
  have rest: "advances env uval src m pos rest"
  proof (cases "keyword_of word")
    case None
    obtain j lx1 where a: "lift_add_identifier env word lx = Ret (word_of_nat j, lx1)"
      "frame env uval (m + 1) lx lx1" "same_place lx lx1" "lx_lines lx1 = lx_lines lx"
      "j < length (identifier_vals (lx_stores lx1))" "identifier_vals (lx_stores lx1) ! j = word" "j < 2 ^ 22"
      by (rule add_identifier_ok [OF disjI1 [OF w(1)]])
    show ?thesis using identifier_word [OF wa a(2-7)] a(1) None by (simp add: rest_def)
  next
    case (Some k)
    have "advances env uval src m pos (bind_outcome (LexToken (Keyword k) pos lx) (\<lambda>(token, lx). Ret (lx, pos + length word)))"
      by (rule fixed_token_advances [OF w(1)])
        (use keyword_of_Some [OF Some] w(5,6) in \<open>simp_all add: is_grouping_symbol_def\<close>)
    then show ?thesis using Some by (simp add: rest_def)
  qed
  have eq: "LexKeywordOrIdentifier env src pos lx =
    bind_outcome (LexWordAsTypeLiteralToken env word pos lx) (\<lambda>result. case result of
        Some lx \<Rightarrow> Ret (lx, pos + length word)
      | None \<Rightarrow> bind_outcome (LexWordAsDollarIntLiteralToken env word pos lx) (\<lambda>result. case result of
          Some lx \<Rightarrow> Ret (lx, pos + length word) | None \<Rightarrow> rest))"
    unfolding rest_def LexKeywordOrIdentifier_def ScanForIdentifierPrefix_eq Let_def word_def [symmetric]
    using False w(2,6) by simp
  show ?thesis
    unfolding eq using LexWordAsTypeLiteralToken_ok [OF wa] LexWordAsDollarIntLiteralToken_ok [OF wa] rest
    by (auto simp: word_result_def)
qed

end

section \<open>Raw identifiers\<close>

text \<open>The conditions under which the hash continues the identifier \<open>r\<close> before it.\<close>

definition raw_at :: "string \<Rightarrow> nat \<Rightarrow> TokenInfo \<Rightarrow> bool" where
  "raw_at src pos prev \<longleftrightarrow> ti_kind prev = Identifier \<and> src ! (pos - 1) = CHR ''r'' \<and> pos + 1 \<noteq> length src \<and>
     id_start_char (src ! (pos + 1)) \<and> int (ti_byte_offset prev) = int pos - 1"

lemma core_raw_pending:
  assumes "core env uval src m pos lx" "pos < length src" "src ! pos = CHR ''#''" "raw_at src pos (last_token lx)"
  shows "pending env uval src m pos lx"
proof -
  define ti where "ti = last_token lx"
  have r: "ti_kind ti = Identifier" "src ! (pos - 1) = CHR ''r''" "pos + 1 < length src" "id_start_char (src ! (pos + 1))"
      "ti_byte_offset ti + 1 = pos"
    using assms(2,4) by (auto simp: raw_at_def ti_def)
  obtain w where w: "tok_ok env (lx_buffer lx) ti w" "gap (lx_buffer lx) (ti_byte_offset ti + length w) pos"
    "if lx_has_leading_space lx then ti_byte_offset ti + length w < pos \<or> ti_byte_offset ti + length w = 0
     else ti_byte_offset ti + length w = pos"
    using assms(1) unfolding core_def ti_def by blast
  have ne: "w \<noteq> []" using w(1) r(1) by (auto simp: tok_ok_def)
  then have len: "length w = 1" using w(2) r(5) by (cases w) (auto simp: gap_def)
  have hls: "\<not> lx_has_leading_space lx" using w(3) r(5) len by (auto split: if_splits)
  have b: "buffer_ok env uval src m (lx_buffer lx)" by (rule core_tokens(2) [OF assms(1)])
  then have st: "stores_ok env uval m (lx_stores lx)" "m < 2 ^ 23" "tb_source (lx_buffer lx) = src" by (simp_all add: buffer_ok_def)
  obtain j where j: "j < length (identifier_vals (lx_stores lx))" "ti_payload ti = Some (word_of_nat j)"
    using w(1) r(1) by (auto simp: tok_ok_def)
  define ident where "ident = identifier_vals (lx_stores lx) ! j"
  note i = identifier_of_payload [OF st(1,2) r(1) j, folded ident_def]
  have "src ! (ti_byte_offset ti + 0) = w ! 0"
    by (rule starts_with_nth) (use w(1) st(3) ne in \<open>auto simp: tok_ok_def\<close>)
  then have wr: "w = ''r''" using len r(2,5) by (cases w) auto
  have "w = ident"
  proof -
    have tx: "info_text env (lx_buffer lx) ti = Ret w" using w(1) by (simp add: tok_ok_def)
    then obtain raw where raw: "info_is_raw env (lx_buffer lx) ti = Ret raw"
      using r(1) i by (auto simp: info_text_def Let_def is_sized_type_literal_def is_dollar_int_literal_def bind_outcome_Ret_iff)
    show ?thesis
    proof (cases raw)
      case False
      then show ?thesis using tx raw r(1) i
        by (simp add: info_text_def Let_def is_sized_type_literal_def is_dollar_int_literal_def)
    next
      case True
      then have "drop 2 w = ident" "ident \<noteq> []"
        using tx raw r(1) i by (auto simp: info_text_def info_is_raw_def Let_def is_sized_type_literal_def
            is_dollar_int_literal_def carbon_check_def split: if_splits)
      then show ?thesis using len by simp
    qed
  qed
  then show ?thesis
    using assms(1,3) hls r j wr by (auto simp: pending_def core_def ti_def ident_def)
qed

lemma raw_identifier:
  assumes "pending env uval src m pos lx" "line_inv src pos lx" "m + 1 < 2 ^ 21" "src ! pos = CHR ''#''"
    "raw_at src pos (last_token lx)"
  shows "advances env uval src m pos (LexHash env src pos lx)"
proof -
  define prev where "prev = last_token lx"
  have p: "pre_core env uval src m lx" "\<not> lx_has_leading_space lx" "ti_byte_offset prev + 1 = pos" "pos + 1 < length src"
      "src ! (pos - 1) = CHR ''r''" "id_start_char (src ! (pos + 1))" "ti_kind prev = Identifier"
    using assms(1) by (simp_all add: pending_def prev_def)
  obtain i where i: "i < length (identifier_vals (lx_stores lx))" "ti_payload prev = Some (word_of_nat i)"
      "identifier_vals (lx_stores lx) ! i = ''r''"
    using assms(1) by (auto simp: pending_def prev_def)
  have b: "buffer_ok env uval src m (lx_buffer lx)" "lx_token_infos lx \<noteq> []" using p(1) by (simp_all add: pre_core_def)
  then have st: "stores_ok env uval m (lx_stores lx)" "m < 2 ^ 23" "tb_source (lx_buffer lx) = src" by (simp_all add: buffer_ok_def)
  note get = identifier_of_payload [OF st(1,2) p(7) i(1,2), unfolded i(3)]
  define word where "word = id_prefix (drop (pos + 1) src)"
  note word = id_prefix_props [OF p(4,6), folded word_def]
  have ne: "word \<noteq> []" using word(1) by simp
  obtain j lx1 where a: "lift_add_identifier env word lx = Ret (word_of_nat j, lx1)"
      "frame env uval (m + 1) lx lx1" "same_place lx lx1" "lx_lines lx1 = lx_lines lx"
      "j < length (identifier_vals (lx_stores lx1))" "identifier_vals (lx_stores lx1) ! j = word" "j < 2 ^ 22"
    by (rule add_identifier_ok [of env uval src m pos lx word]) (use assms(1,3) in auto)
  define info where "info = prev\<lparr>ti_payload := Some (word_of_nat j)\<rparr>"
  have tk: "lx_token_infos lx1 = lx_token_infos lx" "tb_source (lx_buffer lx1) = src"
    using a(2) st(3) by (simp_all add: frame_def)
  define lx2 where "lx2 = set_token_info (length (lx_token_infos lx) - 1) info lx1"
  have sg: "store_get (lx_token_infos lx) (length (lx_token_infos lx) - 1) = Ret prev"
    using b(2) by (simp add: store_get_def last_conv_nth prev_def)
  have uj: "(ucast (word_of_nat j :: 32 word) :: 23 word) = word_of_nat j"
    by (rule unsigned_word_eqI) (use a(7) in \<open>simp add: unsigned_ucast_eq unsigned_take_bit_eq unsigned_of_nat take_bit_nat_eq_self\<close>)
  have eq: "LexHash env src pos lx = Ret (lx2, pos + 1 + length word)"
    using assms(5) p(7) sg get ne a(1) uj
    by (simp add: LexHash_def raw_at_def prev_def [symmetric] ScanForIdentifierPrefix_eq word_def [symmetric, simplified]
        set_ident_id_def lx2_def info_def Let_def)
  have "pre_core env uval src (m + 1) lx1" by (rule pre_core_frame [OF p(1) a(2)])
  then have p2: "pre_core env uval src (m + 1) lx2"
    using pre_core_replace [of env uval src "m + 1" lx1 info] p(7) tk(1)
    by (simp add: lx2_def info_def prev_def is_grouping_symbol_def)
  have last: "last_token lx2 = info"
    using b(2) tk(1) replace_last_infos [of lx1 info] by (simp add: lx2_def)
  define w where "w = ''r#'' @ word"
  have sw: "starts_with (drop (ti_byte_offset prev) src) w"
  proof -
    define o' where "o' = ti_byte_offset prev"
    have o': "o' + 1 = pos" "o' < length src" using p(3,4) by (simp_all add: o'_def)
    have "drop o' src = src ! o' # src ! (o' + 1) # drop (o' + 2) src"
      using o' p(4) Cons_nth_drop_Suc [of o' src] Cons_nth_drop_Suc [of "o' + 1" src] by simp
    moreover have "src ! o' = CHR ''r''" "src ! (o' + 1) = CHR ''#''" using p(5) assms(4) o'(1) by (auto simp: o'_def)
    moreover have "drop (o' + 2) src = drop (pos + 1) src" using o'(1) by auto
    ultimately show ?thesis using word(2) by (simp add: w_def o'_def)
  qed
  have st2: "stores_ok env uval (m + 1) (lx_stores lx2)" "m + 1 < 2 ^ 23" "lx_stores lx2 = lx_stores lx1" "tb_source (lx_buffer lx2) = src"
    using a(2) assms(3) tk(2) by (simp_all add: frame_def lx2_def)
  have ki: "ti_kind info = Identifier" "ti_payload info = Some (word_of_nat j)" "ti_byte_offset info = ti_byte_offset prev"
    using p(7) by (simp_all add: info_def)
  have "info_text env (lx_buffer lx2) info = Ret w"
    using identifier_raw_text [OF st2(1,2) ki(1), of j] a(5,6) ki(2,3) sw st2(3,4) ne by (simp add: w_def)
  then have "tok_ok env (lx_buffer lx2) info w"
    using ki sw st2(3,4) a(5) by (auto simp: tok_ok_def w_def)
  then have c: "core env uval src (m + 1) (pos + 1 + length word) lx2"
    by (intro core_finish [OF p2]) (use last ki(3) p(2,3) a(3) in \<open>auto simp: w_def lx2_def same_place_def\<close>)
  have "starts_with (drop pos src) (CHR ''#'' # word)"
    using word(2) p(4) assms(4) by (simp add: Cons_nth_drop_Suc [symmetric])
  from line_inv_text [OF assms(2) _ _ this, of lx2] word(3) a(3,4)
  have "line_inv src (pos + 1 + length word) lx2" by (simp add: lx2_def same_place_def newline_def)
  with c eq show ?thesis by (simp add: advances_def lex_inv_def)
qed

context lexing
begin

lemma LexHash_ok:
  assumes "lex_inv env uval src m pos lx" "pos < length src" "m + 1 < 2 ^ 21" "length src < 2 ^ 21" "src ! pos = CHR ''#''"
  shows "advances env uval src m pos (LexHash env src pos lx)"
proof (cases "raw_at src pos (last_token lx)")
  case True
  have "pending env uval src m pos lx"
    using assms(1) core_raw_pending [OF _ assms(2,5) True] by (auto simp: lex_inv_def)
  with raw_identifier [OF _ _ assms(3,5) True] assms(1) show ?thesis by (simp add: lex_inv_def)
next
  case False
  then have "\<not> pending env uval src m pos lx" by (auto simp: pending_def raw_at_def)
  then have rdy: "ready env uval src m pos lx" using assms(1-4) by (simp add: lex_inv_def ready_def)
  have ne: "lx_token_infos lx \<noteq> []" using rdy by (simp add: ready_def core_def pre_core_def)
  then have sg: "store_get (lx_token_infos lx) (length (lx_token_infos lx) - 1) = Ret (last_token lx)"
    by (simp add: store_get_def last_conv_nth)
  have cond: "(ti_kind (last_token lx) \<noteq> Identifier \<or> src ! (pos - 1) \<noteq> CHR ''r'' \<or> pos + 1 = length src \<or>
      \<not> id_start_char (src ! (pos + 1)) \<or> int (last_offset lx) \<noteq> int pos - 1) = True"
    using False unfolding raw_at_def by blast
  have "LexHash env src pos lx = LexStringLiteral env src pos lx"
    unfolding LexHash_def Let_def sg bind_outcome.simps cond by (simp only: if_True)
  with LexStringLiteral_ok [OF rdy] assms(5) show ?thesis by (simp add: newline_def)
qed

end

end
