(* ===== verification/Lexer_Total.thy ===== *)
theory Lexer_Total
  imports Lexer_Words
begin

text \<open>
  The lexer as a whole: every dispatch makes progress, so the loop ends within the calls it is
  given, and what the invariant says of the finished buffer.
\<close>

section \<open>Dispatch\<close>

lemma byte_chars:
  "byte_of c = 13 \<Longrightarrow> c = carriage_return" "byte_of c = 10 \<Longrightarrow> c = newline" "byte_of c = 9 \<Longrightarrow> c = tab"
  "byte_of c = 32 \<Longrightarrow> c = CHR '' ''" "byte_of c = 35 \<Longrightarrow> c = CHR ''#''" "byte_of c = 47 \<Longrightarrow> c = CHR ''/''"
  using byte_of_inject [of c carriage_return] byte_of_inject [of c newline] byte_of_inject [of c tab]
    byte_of_inject [of c "CHR '' ''"] byte_of_inject [of c "CHR ''#''"] byte_of_inject [of c "CHR ''/''"]
  by (simp_all add: byte_of_def special_chars)

context lexing
begin

lemma dispatch_symbol:
  assumes "ready env uval src m pos lx" "src ! pos \<noteq> newline"
    "d = (case find (\<lambda>smb. symbol_byte smb = byte_of (src ! pos)) (rev one_char_symbols) of
             Some smb \<Rightarrow>
               if is_closing_symbol (Symbol smb) then DispatchLexClosingSymbolToken
               else if is_opening_symbol (Symbol smb) then DispatchLexOpeningSymbolToken
               else DispatchLexOneCharSymbolToken
           | None \<Rightarrow> if P then DispatchLexSymbolToken else DispatchLexError)"
  shows "advances env uval src m pos (run_dispatch env d src pos lx)"
proof (cases "find (\<lambda>smb. symbol_byte smb = byte_of (src ! pos)) (rev one_char_symbols)")
  case None
  then show ?thesis using assms(3) LexSymbolToken_ok [OF assms(1,2)] LexError_ok [OF assms(1,2)] by simp
next
  case (Some smb)
  note t = OneCharTokenKindTable_props [OF Some]
  have k: "fixed_spelling (Symbol smb) = [src ! pos]" using t(3) by simp
  show ?thesis
    using assms(3) Some t(1) LexClosingSymbolToken_ok [OF assms(1) k] LexOpeningSymbolToken_ok [OF assms(1) k]
      LexOneCharSymbolToken_ok [OF assms(1) k]
    by (simp add: is_grouping_symbol_def)
qed

lemma dispatch_ok:
  assumes "lex_inv env uval src m pos lx" "pos < length src" "m + 1 < 2 ^ 21" "length src < 2 ^ 21"
  shows "advances env uval src m pos (run_dispatch env (MakeDispatchTable (byte_of (src ! pos))) src pos lx)"
proof (cases "byte_of (src ! pos) = 35")
  case True
  then have "MakeDispatchTable (byte_of (src ! pos)) = DispatchLexHash" by (simp add: MakeDispatchTable_def)
  with LexHash_ok [OF assms byte_chars(5) [OF True]] show ?thesis by simp
next
  case hash: False
  define b where "b = byte_of (src ! pos)"
  have "\<not> pending env uval src m pos lx" using hash by (auto simp: pending_def byte_of_def)
  then have rdy: "ready env uval src m pos lx" using assms by (simp add: lex_inv_def ready_def)
  note c = byte_chars [of "src ! pos", folded b_def]
  consider "b = 13" | "b = 10" | "b = 9 \<or> b = 32" | "b = 34 \<or> b = 39" | "48 \<le> b \<and> b \<le> 57"
    | "128 \<le> b \<or> 65 \<le> b \<and> b \<le> 90 \<or> 97 \<le> b \<and> b \<le> 122 \<or> b = 36 \<or> b = 95" | "b = 47"
    | (other) "b \<noteq> 13" "b \<noteq> 10" "\<not> (b = 9 \<or> b = 32)" "\<not> (b = 34 \<or> b = 39)" "\<not> (48 \<le> b \<and> b \<le> 57)"
      "\<not> (128 \<le> b \<or> 65 \<le> b \<and> b \<le> 90 \<or> 97 \<le> b \<and> b \<le> 122 \<or> b = 36 \<or> b = 95)" "b \<noteq> 47"
    by blast
  then have "advances env uval src m pos (run_dispatch env (MakeDispatchTable b) src pos lx)"
  proof cases
    case 1
    then have "MakeDispatchTable b = DispatchLexCR" by (simp add: MakeDispatchTable_def)
    with LexCR_ok [OF rdy c(1) [OF 1]] show ?thesis by simp
  next
    case 2
    then have "MakeDispatchTable b = DispatchLexVerticalWhitespace" by (simp add: MakeDispatchTable_def)
    with LexVerticalWhitespace_ok [OF rdy order_refl assms(2) c(2) [OF 2]] show ?thesis by simp
  next
    case 3
    then have "MakeDispatchTable b = DispatchLexHorizontalWhitespace" by (auto simp: MakeDispatchTable_def)
    with LexHorizontalWhitespace_ok [OF rdy] 3 c(3,4) show ?thesis by fastforce
  next
    case 4
    then have "src ! pos \<noteq> newline" by (auto simp: b_def byte_of_def newline_def)
    moreover have "MakeDispatchTable b = DispatchLexStringLiteral" using 4 by (auto simp: MakeDispatchTable_def)
    ultimately show ?thesis using LexStringLiteral_ok [OF rdy] by simp
  next
    case 5
    then have "MakeDispatchTable b = DispatchLexNumericLiteral" by (simp add: MakeDispatchTable_def)
    with LexNumericLiteral_ok [OF rdy] 5 show ?thesis by (simp add: IsDecimalDigit_def b_def)
  next
    case 6
    then have "MakeDispatchTable b = DispatchLexKeywordOrIdentifier" by (auto simp: MakeDispatchTable_def)
    with LexKeywordOrIdentifier_ok [OF rdy] 6 show ?thesis by (auto simp: IsIdStartByteTable_def b_def)
  next
    case 7
    then have "MakeDispatchTable b = DispatchLexCommentOrSlash" by (simp add: MakeDispatchTable_def)
    with LexCommentOrSlash_ok [OF rdy] c(6) [OF 7] show ?thesis by simp
  next
    case other
    have nl: "src ! pos \<noteq> newline" using other(2) by (auto simp: b_def byte_of_def newline_def)
    show ?thesis
      by (rule dispatch_symbol [OF rdy nl, folded b_def, where P = "list_ex (\<lambda>smb. symbol_byte smb = b) SymbolTokens"])
        (simp only: MakeDispatchTable_def other hash [folded b_def] if_False)
  qed
  then show ?thesis by (simp add: b_def)
qed


lemma DispatchNext_ok:
  assumes "lex_inv env uval src m pos lx" "m + (length src - pos) < 2 ^ 21 - 1" "length src < 2 ^ 21" "length src - pos < n"
  shows "\<exists>lx' m'. lex_inv env uval src m' (length src) lx' \<and> m' < 2 ^ 21 - 1 \<and> DispatchNext n env src pos lx =
     Some (LexFileEnd src (length src) (if tb_dump_sem_ir_ranges (lx_buffer lx') \<noteq> []
       then EndDumpSemIRRangeIfIncomplete (length src - 1) lx' else lx'))"
  using assms(1,2,4)
proof (induction n arbitrary: m pos lx)
  case (Suc n)
  have le: "pos \<le> length src" using Suc.prems(1) by (simp add: lex_inv_def line_inv_def)
  show ?case
  proof (cases "pos < length src")
    case False
    then have "pos = length src" using le by simp
    with Suc.prems show ?thesis by (intro exI [of _ lx] exI [of _ m]) simp
  next
    case True
    have "m + 1 < 2 ^ 21" using Suc.prems(2) True by simp
    from dispatch_ok [OF Suc.prems(1) True this assms(3)] obtain lx1 pos1 where s:
      "run_dispatch env (MakeDispatchTable (byte_of (src ! pos))) src pos lx = Ret (lx1, pos1)" "pos < pos1"
      "lex_inv env uval src (m + 1) pos1 lx1"
      by (auto simp: advances_def)
    have "\<exists>lx' m'. lex_inv env uval src m' (length src) lx' \<and> m' < 2 ^ 21 - 1 \<and> DispatchNext n env src pos1 lx1 =
        Some (LexFileEnd src (length src) (if tb_dump_sem_ir_ranges (lx_buffer lx') \<noteq> []
          then EndDumpSemIRRangeIfIncomplete (length src - 1) lx' else lx'))"
      by (rule Suc.IH [OF s(3)]) (use Suc.prems(2,3) s(2) True in simp_all)
    with s(1) True show ?thesis by simp
  qed
qed simp

end

section \<open>The start and the end of a file\<close>

definition final_ok :: "'a lex_env \<Rightarrow> ('a \<Rightarrow> int) \<Rightarrow> string \<Rightarrow> 'a Lexer \<Rightarrow> bool" where
  "final_ok env uval src lx \<longleftrightarrow> tb_source (lx_buffer lx) = src \<and> map line_start (lx_lines lx) = line_starts src \<and>
     comments_ok (lx_buffer lx) \<and> ti_kind (hd (lx_token_infos lx)) = FileStart \<and> ti_kind (last_token lx) = FileEnd \<and>
     FileEnd \<notin> ti_kind ` set (butlast (lx_token_infos lx)) \<and>
     2 \<le> length (lx_token_infos lx) \<and> length (lx_token_infos lx) \<le> length src + 2 \<and>
     ends_before env (lx_buffer lx) (rev (lx_token_infos lx)) (length src) \<and>
     opens_ok (lx_token_infos lx) (lx_open_groups lx) \<and>
     (\<not> lx_has_mismatched_brackets lx \<longrightarrow> groups_ok (lx_token_infos lx) (lx_open_groups lx)) \<and>
     brackets_seen (lx_token_infos lx) (lx_open_groups lx) (lx_has_mismatched_brackets lx) \<and>
     tb_post_lexing_recovery_tokens (lx_buffer lx) = 0 \<and> tb_recovery_tokens (lx_buffer lx) = []"

lemma LexFileEnd_ok:
  assumes "lex_inv env uval src m (length src) lx"
  shows "\<exists>lx'. LexFileEnd src (length src) lx = Ret lx' \<and> final_ok env uval src lx'"
proof -
  have c: "core env uval src m (length src) lx" "line_inv src (length src) lx"
    using assms by (auto simp: lex_inv_def pending_def)
  note tk = core_tokens [OF c(1)]
  define i where "i = lx_line_index lx"
  have i: "i < length (line_starts src)" "line_starts src ! i \<le> length src"
      "lx_has_leading_space lx \<or> line_starts src ! i < length src"
    using c(2) by (simp_all add: line_inv_def line_ok_def i_def)
  define bk where "bk \<longleftrightarrow> length src = line_starts src ! i \<and> i \<noteq> 0"
  define p where "p = (if bk then length src - 1 else length src)"
  define lx1 where "lx1 = NoteWhitespace (if bk then lx\<lparr>lx_line_index := i - 1\<rparr> else lx)"
  define info where "info = TokenInfo_plain FileEnd True p"
  have cur: "current_line_info lx = Ret (lx_lines lx ! i)" "line_start (lx_lines lx ! i) = line_starts src ! i"
    using buffer_ok_lines [OF tk(2)] i(1) by (simp_all add: current_line_info_def store_get_def i_def)
  have eq: "LexFileEnd src (length src) lx = Ret (add_tok info lx1)"
    using cur by (simp add: LexFileEnd_def LexToken_def bk_def i_def [symmetric] p_def lx1_def info_def split_def Let_def)
  define lx' where "lx' = add_tok info lx1"
  have same: "lx_token_infos lx1 = lx_token_infos lx" "lx_buffer lx1 = lx_buffer lx" "lx_open_groups lx1 = lx_open_groups lx"
      "lx_has_mismatched_brackets lx1 = lx_has_mismatched_brackets lx"
    by (simp_all add: lx1_def)
  obtain w where w: "tok_ok env (lx_buffer lx) (last_token lx) w" "gap (lx_buffer lx) (last_offset lx + length w) (length src)"
      "if lx_has_leading_space lx then last_offset lx + length w < length src \<or> last_offset lx + length w = 0
       else last_offset lx + length w = length src"
    using c(1) by (auto simp: core_def)
  have pe: "last_offset lx + length w \<le> p" "p \<le> length src"
  proof -
    have "last_offset lx + length w \<le> length src" using w(2) by (simp add: gap_def)
    moreover have "last_offset lx + length w < length src" if bk
      using that w(3) i(3) line_starts_less [of 0 i src] i(1) by (auto simp: bk_def split: if_splits)
    ultimately show "last_offset lx + length w \<le> p" "p \<le> length src" by (auto simp: p_def)
  qed
  have gp: "gap (lx_buffer lx) (last_offset lx + length w) p" by (rule gap_shorter [OF w(2) pe])
  have gl: "gap (lx_buffer lx) p (length src)"
    using w(2) pe(1) by (auto simp: gap_def p_def)
  have e: "ends_before env (lx_buffer lx) (rev (lx_token_infos lx)) p"
    using c(1) w(1) gp by (cases "lx_token_infos lx" rule: rev_cases) (auto simp: core_def pre_core_def)
  have "tok_ok env (lx_buffer lx) info []" by (simp add: tok_ok_def info_text_def info_def is_sized_type_literal_def is_dollar_int_literal_def)
  then have e': "ends_before env (lx_buffer lx) (rev (lx_token_infos lx @ [info])) (length src)"
    using e gl by (auto simp: info_def)
  have "ends_before env (lx_buffer lx') (rev (lx_token_infos lx')) (length src)"
    using e' ends_before_same [of "lx_buffer lx'" "lx_buffer lx" env "rev (lx_token_infos lx @ [info])" "length src"] same
    by (simp add: lx'_def del: ends_before.simps rev_append)
  moreover have "opens_ok (lx_token_infos lx') (lx_open_groups lx')"
    using opens_ok_agree [OF tk(1) group_agree_append] same by (simp add: lx'_def)
  moreover have "groups_ok (lx_token_infos lx') (lx_open_groups lx')" if "\<not> lx_has_mismatched_brackets lx'"
    using groups_ok_agree [OF tk(3) group_agree_append [of _ "[info]"]] that same
    by (auto simp: lx'_def nth_append less_Suc_eq info_def is_grouping_symbol_def)
  moreover have "brackets_seen (lx_token_infos lx') (lx_open_groups lx') (lx_has_mismatched_brackets lx')"
    using brackets_seen_add [OF tk(6,1), of info] same by (simp add: lx'_def info_def is_grouping_symbol_def)
  moreover have "comments_ok (lx_buffer lx')"
    using comments_ok_cong [of "lx_buffer lx'" "lx_buffer lx"] tk(2) same by (simp add: lx'_def buffer_ok_def)
  moreover have "ti_kind (hd (lx_token_infos lx)) = FileStart" using c(1) by (simp add: core_def pre_core_def)
  moreover have "FileEnd \<notin> ti_kind ` set (butlast (lx_token_infos lx'))"
  proof -
    have "FileEnd \<notin> ti_kind ` set (butlast (lx_token_infos lx))" "ti_kind (last_token lx) \<noteq> FileEnd"
      using c(1) by (simp_all add: core_def pre_core_def)
    then have "FileEnd \<notin> ti_kind ` set (lx_token_infos lx)"
      using tk(5) by (cases "lx_token_infos lx" rule: rev_cases) auto
    then show ?thesis using same(1) by (simp add: lx'_def)
  qed
  ultimately have "final_ok env uval src lx'"
    using tk(2,4,5) same by (cases "lx_token_infos lx") (simp_all add: final_ok_def lx'_def buffer_ok_def info_def)
  with eq show ?thesis by (simp add: lx'_def)
qed

lemma MakeLines_buffer:
  assumes "stores_ok env uval m stores" "m < 2 ^ 21"
  shows "buffer_ok env uval src m (lx_buffer (Reserve_identifiers env (MakeLines src (Lexer_init stores src))))"
proof -
  have "strings_ok (env_string_layout env) m (svs_identifiers stores)" using assms(1) by (simp add: stores_ok_def)
  from strings_reserve(1) [OF this] assms show ?thesis
    by (simp add: buffer_ok_def Reserve_identifiers_def MakeLines_def Lexer_init_def TokenizedBuffer_init_def
        line_starts_def comments_ok_def stores_ok_def Let_def)
qed

lemma LexFileStart_ok:
  assumes "stores_ok env uval m stores" "m < 2 ^ 21"
  obtains lx pos where
    "LexFileStart src 0 (Reserve_identifiers env (MakeLines src (Lexer_init stores src))) = Ret (lx, pos)"
    "lex_inv env uval src m pos lx"
proof -
  define lx0 where "lx0 = Reserve_identifiers env (MakeLines src (Lexer_init stores src))"
  note b0 = MakeLines_buffer [OF assms, of src, folded lx0_def]
  have l0: "lx_token_infos lx0 = []" "lx_line_index lx0 = 0" "\<not> lx_has_leading_space lx0" "lx_open_groups lx0 = []"
      "\<not> lx_has_mismatched_brackets lx0"
    by (simp_all add: lx0_def Reserve_identifiers_def MakeLines_def Lexer_init_def TokenizedBuffer_init_def Let_def)
  define info where "info = TokenInfo_plain FileStart False 0"
  define lx1 where "lx1 = NoteWhitespace (add_tok info lx0)"
  have l1: "lx_token_infos lx1 = [info]" "lx_line_index lx1 = 0" "lx_open_groups lx1 = []" "\<not> lx_has_mismatched_brackets lx1"
      "lx_has_leading_space lx1"
    using l0 by (simp_all add: lx1_def)
  have b1: "buffer_ok env uval src m (lx_buffer lx1)" by (rule buffer_ok_cong [OF b0]) (simp_all add: lx1_def)
  have z: "0 < length (line_starts src)" "line_starts src ! 0 = 0" using line_starts_chain(2,3) by auto
  obtain lx pos where a: "AdvanceToLine src 0 lx1 = Ret (lx, pos)" "frame env uval m lx1 lx"
    "lx_has_leading_space lx" "line_inv src pos lx" "gap (lx_buffer lx) (line_starts src ! 0) pos"
    by (rule AdvanceToLine_ok [OF b1 l1(5), of 0]) (use l1(2) z in simp_all)
  have "current_line_info lx1 = Ret (lx_lines lx1 ! 0)" "line_start (lx_lines lx1 ! 0) = 0"
    using buffer_ok_lines [OF b1] z l1(2) by (simp_all add: current_line_info_def store_get_def)
  then have eq: "LexFileStart src 0 lx0 = Ret (lx, pos)"
    using a(1) l0(3) by (simp add: LexFileStart_def LexToken_def lx1_def info_def split_def Let_def)
  have tk: "lx_token_infos lx = [info]" "lx_open_groups lx = []" "\<not> lx_has_mismatched_brackets lx"
    using a(2) l1 by (simp_all add: frame_def)
  have "groups_ok [info] []" by (rule groups_okI) (auto simp: info_def closes_def)
  moreover have "tok_ok env (lx_buffer lx) info []"
    by (simp add: tok_ok_def info_text_def info_def is_sized_type_literal_def is_dollar_int_literal_def)
  ultimately have "core env uval src m pos lx"
    using buffer_ok_frame(1) [OF b1 a(2)] tk a(3,5) z(2)
    by (auto simp: core_def pre_core_def opens_ok_def info_def brackets_seen_def)
  then show thesis using a(4) eq by (intro that [of lx pos]) (simp_all add: lex_inv_def lx0_def)
qed

context lexing
begin

lemma Lex_file_ok:
  assumes "stores_ok env uval m stores" "m + length src < 2 ^ 21 - 1"
  shows "\<exists>lx. Lex_file env stores src = Some (Ret lx) \<and> final_ok env uval src lx"
proof -
  have m: "m < 2 ^ 21" "length src < 2 ^ 21" using assms(2) by simp_all
  obtain lx0 pos where s: "LexFileStart src 0 (Reserve_identifiers env (MakeLines src (Lexer_init stores src))) = Ret (lx0, pos)"
    "lex_inv env uval src m pos lx0"
    by (rule LexFileStart_ok [OF assms(1) m(1)])
  obtain lx1 m' where d: "lex_inv env uval src m' (length src) lx1" "m' < 2 ^ 21 - 1"
    "DispatchNext (length src + 1) env src pos lx0 = Some (LexFileEnd src (length src)
       (if tb_dump_sem_ir_ranges (lx_buffer lx1) \<noteq> [] then EndDumpSemIRRangeIfIncomplete (length src - 1) lx1 else lx1))"
  proof -
    have "m + (length src - pos) < 2 ^ 21 - 1" "length src - pos < length src + 1" using assms(2) by simp_all
    from DispatchNext_ok [OF s(2) this(1) m(2) this(2)] show thesis using that by blast
  qed
  define lx2 where "lx2 = (if tb_dump_sem_ir_ranges (lx_buffer lx1) \<noteq> []
    then EndDumpSemIRRangeIfIncomplete (length src - 1) lx1 else lx1)"
  have c: "core env uval src m' (length src) lx1" "line_inv src (length src) lx1"
    using d(1) by (auto simp: lex_inv_def pending_def)
  have f: "frame env uval m' lx1 lx1"
    by (rule frame_refl [OF core_tokens(2) [OF c(1)]]) (use d(2) in simp_all)
  have "frame env uval m' lx1 lx2 \<and> same_place lx1 lx2 \<and> lx_lines lx2 = lx_lines lx1"
    unfolding lx2_def using frame_EndDumpIfIncomplete [OF f] f by (simp add: same_place_def)
  then have "lex_inv env uval src m' (length src) lx2"
    using core_frame [OF c(1)] c(2) by (simp add: lex_inv_def line_inv_def same_place_def)
  from LexFileEnd_ok [OF this] obtain lx where "LexFileEnd src (length src) lx2 = Ret lx" "final_ok env uval src lx" by blast
  moreover have "int (length src) < 2 ^ 31 - 1" using m(2) by simp
  ultimately show ?thesis using s(1) d(3) by (simp add: Lex_file_def lx2_def Let_def)
qed

end

end
