(* ===== verification/Lexer_Props.thy ===== *)
theory Lexer_Props
  imports Lexer_Total
begin

text \<open>
  Properties of single routines of the lexer: symbols, the vector comparison that continues a
  block of comments, the indents of such a block and dollar words; and the instance of the
  interface of theory \<open>Lexer_Literals\<close> that the witnesses use.
\<close>

section \<open>An instance of the interface\<close>

lemma ascii_decode_decoder: "utf8_decoder ascii_decode"
proof -
  have "cp \<le> 0x10FFFF" if "ascii_decode bytes = conversionOK (Some cp)" for bytes cp
    using that by (cases bytes rule: ascii_decode.cases) (auto split: if_splits)
  then show ?thesis by (auto simp: utf8_decoder_def)
qed

interpretation example: lexing example_env bits_uval
  by unfold_locales
    (simp_all add: example_env_def bits.apint_axioms [unfolded apint_def] utf8_encode_encoder ascii_decode_decoder)

section \<open>Symbols\<close>

lemma find_sorted_longest:
  assumes "sorted_wrt (\<lambda>x y. len y \<le> (len x :: nat)) xs" "find P xs = Some x" "y \<in> set xs" "P y"
  shows "len y \<le> len x"
  using assms by (induction xs) (auto split: if_splits)

text \<open>
  C18. Lexing a symbol takes the longest one: when a symbol is found its spelling begins the text
  and no symbol that begins the text has a longer one; when none is found, only a symbol that is
  dispatched by its single character can begin the text.
\<close>

theorem symbol_longest_match:
  "case multi_char_symbol s of
     Some smb \<Rightarrow> starts_with s (symbol_spelling smb) \<and>
       (\<forall>t. starts_with s (symbol_spelling t) \<longrightarrow> length (symbol_spelling t) \<le> length (symbol_spelling smb))
   | None \<Rightarrow> (\<forall>t. starts_with s (symbol_spelling t) \<longrightarrow> is_one_char_symbol (Symbol t))"
proof (cases "multi_char_symbol s")
  case None
  have "is_one_char_symbol (Symbol t)" if "starts_with s (symbol_spelling t)" for t
    using None that SymbolTokens_complete [of t] by (auto simp: multi_char_symbol_def find_None_iff)
  with None show ?thesis by simp
next
  case (Some smb)
  define multi where "multi = filter (\<lambda>smb. smb \<notin> set one_char_symbols) SymbolTokens"
  have sorted: "sorted_wrt (\<lambda>s t. length (symbol_spelling t) \<le> length (symbol_spelling s)) multi"
    unfolding multi_def by (rule sorted_wrt_filter [OF symbols_longest_first])
  have "length (symbol_spelling t) \<le> length (symbol_spelling smb)" if t: "starts_with s (symbol_spelling t)" for t
  proof (cases "t \<in> set one_char_symbols")
    case True
    then show ?thesis using one_char_symbol_alone(1) symbol_spelling_nonempty [of smb] by (cases "symbol_spelling smb") auto
  next
    case False
    then have "t \<in> set multi" using SymbolTokens_complete by (simp add: multi_def)
    from find_sorted_longest [OF sorted _ this, of "\<lambda>smb. starts_with s (symbol_spelling smb)"] Some t
    show ?thesis by (simp add: multi_char_symbol_def multi_def)
  qed
  then show ?thesis using Some multi_char_symbol_props(1) [OF Some] by simp
qed

theorem symbol_longest_match_witness:
  "multi_char_symbol ''->?x'' = Some MinusGreaterQuestion \<and>
   length (symbol_spelling MinusGreater) \<le> length (symbol_spelling MinusGreaterQuestion)"
proof -
  have "multi_char_symbol ''->?x'' = Some MinusGreaterQuestion" by code_simp
  with symbol_longest_match [of "''->?x''"] show ?thesis by auto
qed

section \<open>Blocks of comments\<close>

lemma xor_zero_iff: "x XOR y = (0 :: 8 word) \<longleftrightarrow> x = y"
  by (metis xor.assoc xor.left_neutral xor.right_neutral xor_self_eq)

lemma vec16_nth: "pos + 16 \<le> length s \<Longrightarrow> k < 16 \<Longrightarrow> vec16 s pos ! k = word_of_nat (byte_of (s ! (pos + k)))"
  by (simp add: vec16_def substr_def)

lemma byte_word_inject: "(word_of_nat (byte_of c) :: 8 word) = word_of_nat (byte_of d) \<longleftrightarrow> c = d"
proof -
  have "unat (word_of_nat (byte_of x) :: 8 word) = byte_of x" for x
    using byte_of_less [of x] by (simp add: unat_of_nat take_bit_nat_eq_self)
  then show ?thesis by (metis byte_of_inject)
qed

text \<open>
  The vector comparison that decides whether a line continues a block of comments compares
  exactly the prefix: with the mask of a prefix of at most 16 bytes, two vectors agree if and only if
  the prefixes of the two lines do.
\<close>

theorem masked_prefix_compare:
  assumes "first + 16 \<le> length s" "pos + 16 \<le> length s" "n \<le> 16"
  shows "masked_equal (PrefixMasks n) (vec16 s first) (vec16 s pos) \<longleftrightarrow> substr s first n = substr s pos n"
proof -
  have len: "length (PrefixMasks n) = 16" "length (vec16 s first) = 16" "length (vec16 s pos) = 16"
    using assms(1,2) by (simp_all add: PrefixMasks_def vec16_def substr_def)
  have "masked_equal (PrefixMasks n) (vec16 s first) (vec16 s pos) \<longleftrightarrow>
      (\<forall>k < 16. PrefixMasks n ! k AND (vec16 s first ! k XOR vec16 s pos ! k) = 0)"
    using len by (simp add: masked_equal_def list_all_length)
  also have "\<dots> \<longleftrightarrow> (\<forall>k < n. s ! (first + k) = s ! (pos + k))"
  proof -
    have "PrefixMasks n ! k AND (vec16 s first ! k XOR vec16 s pos ! k) = 0 \<longleftrightarrow> (k < n \<longrightarrow> s ! (first + k) = s ! (pos + k))"
      if "k < 16" for k
      using that vec16_nth [OF assms(1) that] vec16_nth [OF assms(2) that]
      by (simp add: PrefixMasks_def xor_zero_iff byte_word_inject)
    then show ?thesis using assms(3) by (meson less_le_trans)
  qed
  also have "\<dots> \<longleftrightarrow> substr s first n = substr s pos n"
    using assms by (simp add: substr_def list_eq_iff_nth_eq)
  finally show ?thesis .
qed

theorem masked_prefix_compare_witness:
  "masked_equal (PrefixMasks 3) (vec16 ''// aaaaaaaaaaaaa// bbbbbbbbbbbbb'' 0) (vec16 ''// aaaaaaaaaaaaa// bbbbbbbbbbbbb'' 16)"
  using masked_prefix_compare [of 0 "''// aaaaaaaaaaaaa// bbbbbbbbbbbbb''" 16 3] by (simp add: substr_def)

definition example_result :: "string \<Rightarrow> bool list Lexer option" where
  "example_result src = (case Lex_file example_env example_stores src of Some (Ret lx) \<Rightarrow> Some lx | _ \<Rightarrow> None)"

text \<open>
  The second line of a block of comments is left with the indent 0: the line index is
  advanced past it before an indent is stored. Of three comments that each follow one blank, the
  first and the third line get the indent 1 and the second does not.
\<close>

theorem comment_block_second_line_indent:
  "map_option (\<lambda>lx. map (\<lambda>l. (line_start l, line_indent l)) (lx_lines lx))
     (example_result ('' // '' @ [newline] @ '' // '' @ [newline] @ '' // '' @ [newline]))
   = Some [(0, 1), (5, 0), (10, 1), (15, 0)]"
  by code_simp

section \<open>Dollar words\<close>

text \<open>
  C40. A dollar word right after another word is added to it: the token of the word becomes an error
  token at its place whose length is that of both, a diagnostic is emitted, and no token is added.
  The new token is marked as having no leading space, also when the token it replaces had one.
\<close>

theorem dollar_word_joins_previous:
  assumes "starts_with word ''$''" "\<not> lx_has_leading_space lx" "lx_token_infos lx = ts @ [prev]" "is_word (ti_kind prev)"
    "tb_post_lexing_recovery_tokens (lx_buffer lx) = 0" "GetTokenText env (lx_buffer lx) (length ts) = Ret w"
  shows "\<exists>lx'. LexWordAsDollarIntLiteralToken env word pos lx = Ret (Some lx') \<and>
    lx_token_infos lx' = ts @ [TokenInfo_payload Error False (int (length w + length word)) (ti_byte_offset prev)] \<and>
    lx_diags lx' = lx_diags lx @ [(pos, CharacterOnlyAllowedAtStart)]"
proof -
  have te: "tokens_end (lx_buffer lx) - 1 = length ts" using assms(3,5) by (simp add: tokens_end_def)
  have sg: "store_get (lx_token_infos lx) (length ts) = Ret prev" "GetKind (lx_buffer lx) (length ts) = Ret (ti_kind prev)"
    using assms(3) by (simp_all add: store_get_def GetKind_def)
  have "LexWordAsDollarIntLiteralToken env word pos lx = Ret (Some (set_token_info (length ts)
     (TokenInfo_payload Error False (int (length w + length word)) (ti_byte_offset prev)) (emit pos CharacterOnlyAllowedAtStart lx)))"
    unfolding LexWordAsDollarIntLiteralToken_def Let_def te sg assms(6) bind_outcome.simps
    by (simp only: assms(1,2,4) if_True if_False not_True_eq_False sg assms(6) bind_outcome.simps)
  then show ?thesis using assms(3) by (simp add: emit_def) (simp add: set_token_info_def)
qed

text \<open>A lexer whose last token is the keyword \<open>fn\<close>, with a space before it.\<close>

definition after_fn :: "bool list Lexer" where
  "after_fn = (let lx = Lexer_init example_stores '' fn$1'' in
     lx\<lparr>lx_buffer := (lx_buffer lx)\<lparr>tb_token_infos := [TokenInfo_plain (Keyword Fn_kw) True 1]\<rparr>\<rparr>)"

theorem dollar_word_joins_previous_witness:
  "\<exists>lx'. LexWordAsDollarIntLiteralToken example_env ''$1'' 3 after_fn = Ret (Some lx') \<and>
    lx_token_infos lx' = [TokenInfo_payload Error False 4 1]"
proof -
  have t: "lx_token_infos after_fn = [] @ [TokenInfo_plain (Keyword Fn_kw) True 1]" "\<not> lx_has_leading_space after_fn"
      "tb_post_lexing_recovery_tokens (lx_buffer after_fn) = 0"
    by (simp_all add: after_fn_def Lexer_init_def TokenizedBuffer_init_def Let_def)
  have "GetTokenText example_env (lx_buffer after_fn) (length ([] :: TokenInfo list)) = Ret ''fn''"
    using t(1) by (simp add: GetTokenText_def store_get_def info_text_def)
  from dollar_word_joins_previous [OF _ t(2,1) _ t(3) this, of "''$1''" 3] show ?thesis
    by (auto simp: is_word_def)
qed

end
