(* ===== verification/Bracket_Kinds.thy ===== *)
theory Bracket_Kinds
  imports Token_Kind
begin

text \<open>
  The data of bracket recovery: \<open>toolchain/lex/mismatched_brackets.h\<close>. A token is reduced to the
  category that matters for matching, with the layout around it; a correction pairs a diagnostic
  with a change of the token stream. Token indexes are integers with \<open>-1\<close> for no token.
\<close>

section \<open>Categories of tokens\<close>

datatype (plugins only: code) BracketTokenKind =
    OpenParen_k | CloseParen_k | OpenCurlyBrace_k | CloseCurlyBrace_k | OpenSquareBracket_k
  | CloseSquareBracket_k | Semi_k | Comma_k | Period_k | StatementIntroducer_k | Leaf_k
  | Assignment_k | As_k | StructuralOp_k | ComparisonOp_k | ModifierKeyword_k | FileEnd_k | Other_k

definition IsValueEndingKind :: "BracketTokenKind \<Rightarrow> bool" where
  "IsValueEndingKind kind \<longleftrightarrow> kind = Leaf_k \<or> kind = CloseParen_k"

definition IsStructuralOpKind :: "BracketTokenKind \<Rightarrow> bool" where
  "IsStructuralOpKind kind \<longleftrightarrow> kind = Assignment_k \<or> kind = As_k \<or> kind = StructuralOp_k"

definition IsOpeningBracket :: "BracketTokenKind \<Rightarrow> bool" where
  "IsOpeningBracket kind \<longleftrightarrow> kind = OpenParen_k \<or> kind = OpenCurlyBrace_k \<or> kind = OpenSquareBracket_k"

definition IsClosingBracket :: "BracketTokenKind \<Rightarrow> bool" where
  "IsClosingBracket kind \<longleftrightarrow> kind = CloseParen_k \<or> kind = CloseCurlyBrace_k \<or> kind = CloseSquareBracket_k"

fun MatchingClosingKind :: "BracketTokenKind \<Rightarrow> BracketTokenKind" where
  "MatchingClosingKind OpenParen_k = CloseParen_k"
| "MatchingClosingKind OpenCurlyBrace_k = CloseCurlyBrace_k"
| "MatchingClosingKind OpenSquareBracket_k = CloseSquareBracket_k"
| "MatchingClosingKind _ = Other_k"

fun MatchingOpeningKind :: "BracketTokenKind \<Rightarrow> BracketTokenKind" where
  "MatchingOpeningKind CloseParen_k = OpenParen_k"
| "MatchingOpeningKind CloseCurlyBrace_k = OpenCurlyBrace_k"
| "MatchingOpeningKind CloseSquareBracket_k = OpenSquareBracket_k"
| "MatchingOpeningKind _ = Other_k"

fun ToTokenKind :: "BracketTokenKind \<Rightarrow> TokenKind" where
  "ToTokenKind OpenParen_k = Symbol OpenParen"
| "ToTokenKind CloseParen_k = Symbol CloseParen"
| "ToTokenKind OpenCurlyBrace_k = Symbol OpenCurlyBrace"
| "ToTokenKind CloseCurlyBrace_k = Symbol CloseCurlyBrace"
| "ToTokenKind OpenSquareBracket_k = Symbol OpenSquareBracket"
| "ToTokenKind CloseSquareBracket_k = Symbol CloseSquareBracket"
| "ToTokenKind Semi_k = Symbol Semi"
| "ToTokenKind _ = Error"

section \<open>Tokens and corrections\<close>

record MismatchedBracketToken =
  mb_token_index :: int
  mb_kind :: BracketTokenKind
  mb_line :: nat
  mb_line_indent :: nat
  mb_is_at_end_of_line :: bool
  mb_is_struct_brace :: bool
  mb_is_paren_keyword :: bool
  mb_is_else_keyword :: bool
  mb_has_leading_space :: bool
  mb_has_wide_leading_space :: bool

datatype BracketFixAction = InsertBefore | InsertAfter | ReplaceWithError

datatype BracketDiagnosticKind = UnmatchedOpening_d | UnmatchedClosing_d

record BracketCorrection =
  bc_diagnostic_kind :: BracketDiagnosticKind
  bc_diagnostic_token_index :: int
  bc_fix_action :: BracketFixAction
  bc_fix_token_index :: int
  bc_fix_token_kind :: TokenKind
  bc_is_tied :: bool
  bc_rule_name :: string

section \<open>Facts on the categories\<close>

lemma opening_cases: "IsOpeningBracket k \<Longrightarrow> k = OpenParen_k \<or> k = OpenCurlyBrace_k \<or> k = OpenSquareBracket_k"
  by (simp add: IsOpeningBracket_def)

lemma closing_cases: "IsClosingBracket k \<Longrightarrow> k = CloseParen_k \<or> k = CloseCurlyBrace_k \<or> k = CloseSquareBracket_k"
  by (simp add: IsClosingBracket_def)

lemma opening_not_closing: "IsOpeningBracket k \<Longrightarrow> \<not> IsClosingBracket k"
  by (auto simp: IsOpeningBracket_def IsClosingBracket_def)

lemma matching_closing [simp]: "IsOpeningBracket k \<Longrightarrow> IsClosingBracket (MatchingClosingKind k)"
  by (auto simp: IsOpeningBracket_def IsClosingBracket_def)

lemma matching_opening [simp]: "IsClosingBracket k \<Longrightarrow> IsOpeningBracket (MatchingOpeningKind k)"
  by (auto simp: IsOpeningBracket_def IsClosingBracket_def)

lemma matching_inverse:
  "IsOpeningBracket k \<Longrightarrow> MatchingOpeningKind (MatchingClosingKind k) = k"
  "IsClosingBracket k \<Longrightarrow> MatchingClosingKind (MatchingOpeningKind k) = k"
  by (auto simp: IsOpeningBracket_def IsClosingBracket_def)

lemma matching_iff:
  "IsClosingBracket c \<Longrightarrow> MatchingClosingKind k = c \<longleftrightarrow> k = MatchingOpeningKind c"
  by (cases k) (auto simp: IsClosingBracket_def)

lemma ToTokenKind_bracket:
  "IsOpeningBracket k \<Longrightarrow> is_opening_symbol (ToTokenKind k)"
  "IsClosingBracket k \<Longrightarrow> is_closing_symbol (ToTokenKind k)"
  "IsOpeningBracket k \<Longrightarrow> \<not> is_closing_symbol (ToTokenKind k)"
  "IsClosingBracket k \<Longrightarrow> \<not> is_opening_symbol (ToTokenKind k)"
  by (auto simp: IsOpeningBracket_def IsClosingBracket_def)

end
