(* ===== verification/Bracket_Stack.thy ===== *)
theory Bracket_Stack
  imports Bracket_Kinds
begin

text \<open>
  The store of open-bracket stacks of the repair search (\<open>OpenStackStore\<close> of
  \<open>toolchain/lex/mismatched_brackets.cpp\<close>): a stack is a cell with the bracket on top and the id of
  the stack below, equal stacks share one id, and each cell caches what the rules ask of the whole
  stack. The contract is that of a list of brackets, top first; the locale \<open>stack_store\<close> states it
  and the interpretation shows that the cells meet it. The hash map that interns the cells is
  taken at its interface.
\<close>

section \<open>Open brackets\<close>

record OpenBracketKey =
  ob_token_index :: int
  ob_insertion_token_index :: int
  ob_token_pos :: int
  ob_line :: nat
  ob_line_indent :: nat
  ob_effective_header_indent :: nat
  ob_kind :: BracketTokenKind
  ob_is_synthetic :: bool
  ob_is_struct_brace :: bool
  ob_is_call_paren :: bool

record OpenBracketInfo = OpenBracketKey +
  ob_rule_name :: string

abbreviation key_of :: "OpenBracketInfo \<Rightarrow> OpenBracketKey" where
  "key_of \<equiv> OpenBracketKey.truncate"

section \<open>The store\<close>

text \<open>The empty stack has no cell: its id is \<open>None\<close>.\<close>

type_synonym OpenStackId = "nat option"

record OpenStackCellKey =
  ck_parent :: OpenStackId
  ck_entry :: OpenBracketKey

record Cell =
  cell_parent :: OpenStackId
  cell_entry :: OpenBracketInfo
  cell_depth :: nat
  cell_open_kinds :: "8 word"
  cell_has_synthetic :: bool

record OpenStackStore =
  os_cells :: "Cell list"
  os_intern :: "OpenStackCellKey \<Rightarrow> nat option"

definition OpenStackStore_empty :: OpenStackStore where
  "OpenStackStore_empty = \<lparr>os_cells = [], os_intern = \<lambda>_. None\<rparr>"

definition kind_int :: "BracketTokenKind \<Rightarrow> nat" where
  "kind_int k = (case k of
       OpenParen_k \<Rightarrow> 0 | CloseParen_k \<Rightarrow> 1 | OpenCurlyBrace_k \<Rightarrow> 2 | CloseCurlyBrace_k \<Rightarrow> 3
     | OpenSquareBracket_k \<Rightarrow> 4 | CloseSquareBracket_k \<Rightarrow> 5 | Semi_k \<Rightarrow> 6 | Comma_k \<Rightarrow> 7 | Period_k \<Rightarrow> 8
     | StatementIntroducer_k \<Rightarrow> 9 | Leaf_k \<Rightarrow> 10 | Assignment_k \<Rightarrow> 11 | As_k \<Rightarrow> 12 | StructuralOp_k \<Rightarrow> 13
     | ComparisonOp_k \<Rightarrow> 14 | ModifierKeyword_k \<Rightarrow> 15 | FileEnd_k \<Rightarrow> 16 | Other_k \<Rightarrow> 17)"

definition KindBit :: "BracketTokenKind \<Rightarrow> 8 word" where
  "KindBit kind = push_bit (kind_int kind) 1"

definition IsEmpty :: "OpenStackId \<Rightarrow> bool" where
  "IsEmpty stack \<longleftrightarrow> stack = None"

definition Pop :: "OpenStackStore \<Rightarrow> OpenStackId \<Rightarrow> OpenStackId" where
  "Pop st stack = cell_parent (os_cells st ! the stack)"

definition Top :: "OpenStackStore \<Rightarrow> OpenStackId \<Rightarrow> OpenBracketInfo" where
  "Top st stack = cell_entry (os_cells st ! the stack)"

definition Depth :: "OpenStackStore \<Rightarrow> OpenStackId \<Rightarrow> nat" where
  "Depth st stack = (if IsEmpty stack then 0 else cell_depth (os_cells st ! the stack))"

definition HasSynthetic :: "OpenStackStore \<Rightarrow> OpenStackId \<Rightarrow> bool" where
  "HasSynthetic st stack \<longleftrightarrow> \<not> IsEmpty stack \<and> cell_has_synthetic (os_cells st ! the stack)"

definition Contains :: "OpenStackStore \<Rightarrow> OpenStackId \<Rightarrow> BracketTokenKind \<Rightarrow> bool" where
  "Contains st stack kind \<longleftrightarrow>
     \<not> IsEmpty stack \<and> (cell_open_kinds (os_cells st ! the stack) AND KindBit kind) \<noteq> 0"

definition OpenKinds :: "OpenStackStore \<Rightarrow> OpenStackId \<Rightarrow> 8 word" where
  "OpenKinds st stack = (if IsEmpty stack then 0 else cell_open_kinds (os_cells st ! the stack))"

definition Push :: "OpenStackStore \<Rightarrow> OpenStackId \<Rightarrow> OpenBracketInfo \<Rightarrow> OpenStackId \<times> OpenStackStore" where
  "Push st stack entry =
     (let ck = \<lparr>ck_parent = stack, ck_entry = key_of entry\<rparr> in
      case os_intern st ck of
        Some i \<Rightarrow> (Some i, st)
      | None \<Rightarrow>
          (Some (length (os_cells st)),
           st\<lparr>os_cells := os_cells st @
                [\<lparr>cell_parent = stack, cell_entry = entry, cell_depth = Depth st stack + 1,
                  cell_open_kinds = OpenKinds st stack OR KindBit (ob_kind entry),
                  cell_has_synthetic = HasSynthetic st stack \<or> ob_is_synthetic entry\<rparr>],
              os_intern := (os_intern st)(ck \<mapsto> length (os_cells st))\<rparr>))"

section \<open>Stacks as lists\<close>

text \<open>The brackets of a stack, top first.\<close>

function stack_from :: "Cell list \<Rightarrow> OpenStackId \<Rightarrow> OpenBracketKey list" where
  "stack_from cs None = []"
| "stack_from cs (Some i) = key_of (cell_entry (cs ! i)) #
     (case cell_parent (cs ! i) of Some j \<Rightarrow> if j < i then stack_from cs (Some j) else [] | None \<Rightarrow> [])"
  by pat_completeness auto
termination
  by (relation "measure (\<lambda>(cs, s). case s of None \<Rightarrow> 0 | Some i \<Rightarrow> Suc i)") auto

declare stack_from.simps(2) [simp del]

definition stack_of :: "OpenStackStore \<Rightarrow> OpenStackId \<Rightarrow> OpenBracketKey list" where
  "stack_of st stack = stack_from (os_cells st) stack"

definition valid_stack_id :: "nat \<Rightarrow> OpenStackId \<Rightarrow> bool" where
  "valid_stack_id n stack \<longleftrightarrow> (case stack of None \<Rightarrow> True | Some i \<Rightarrow> i < n)"

definition stack_ok :: "OpenStackStore \<Rightarrow> OpenStackId \<Rightarrow> bool" where
  "stack_ok st stack \<longleftrightarrow> valid_stack_id (length (os_cells st)) stack"

text \<open>What a cell caches of the stack it is the top of.\<close>

definition cell_ok :: "Cell list \<Rightarrow> nat \<Rightarrow> bool" where
  "cell_ok cs i \<longleftrightarrow> (let c = cs ! i; s = stack_from cs (Some i) in
     valid_stack_id i (cell_parent c) \<and> cell_depth c = length s \<and>
     cell_has_synthetic c = (\<exists>e \<in> set s. ob_is_synthetic e) \<and>
     cell_open_kinds c = foldr (\<lambda>e w. w OR KindBit (ob_kind e)) s 0)"

definition stacks_ok :: "OpenStackStore \<Rightarrow> bool" where
  "stacks_ok st \<longleftrightarrow> (\<forall>i < length (os_cells st). cell_ok (os_cells st) i) \<and>
     (\<forall>k i. os_intern st k = Some i \<longleftrightarrow> i < length (os_cells st) \<and>
        k = \<lparr>ck_parent = cell_parent (os_cells st ! i), ck_entry = key_of (cell_entry (os_cells st ! i))\<rparr>)"

lemma stack_from_append:
  "valid_stack_id (length cs) s \<Longrightarrow> stack_from (cs @ cs') s = stack_from cs s"
proof (induction cs s rule: stack_from.induct)
  case (2 cs i)
  then show ?case
    by (auto simp: stack_from.simps(2) valid_stack_id_def nth_append split: option.splits)
qed simp

lemma cell_ok_append: "i < length cs \<Longrightarrow> cell_ok (cs @ cs') i = cell_ok cs i"
  by (simp add: cell_ok_def nth_append stack_from_append valid_stack_id_def)

lemma stack_from_cell:
  assumes "valid_stack_id i (cell_parent (cs ! i))"
  shows "stack_from cs (Some i) = key_of (cell_entry (cs ! i)) # stack_from cs (cell_parent (cs ! i))"
  using assms by (auto simp: stack_from.simps(2) valid_stack_id_def split: option.splits)

lemma stack_cell:
  assumes "stacks_ok st" "i < length (os_cells st)"
  shows "stack_of st (Some i) = key_of (cell_entry (os_cells st ! i)) # stack_of st (cell_parent (os_cells st ! i))"
    "stack_ok st (cell_parent (os_cells st ! i))"
proof -
  have "valid_stack_id i (cell_parent (os_cells st ! i))" using assms by (simp add: stacks_ok_def cell_ok_def Let_def)
  from stack_from_cell [OF this] this assms(2)
  show "stack_of st (Some i) = key_of (cell_entry (os_cells st ! i)) # stack_of st (cell_parent (os_cells st ! i))"
    "stack_ok st (cell_parent (os_cells st ! i))"
    by (auto simp: stack_of_def stack_ok_def valid_stack_id_def split: option.splits)
qed

lemma stacks_ok_cell: "stacks_ok st \<Longrightarrow> i < length (os_cells st) \<Longrightarrow> cell_ok (os_cells st) i"
  by (simp add: stacks_ok_def)

lemma stack_caches:
  assumes "stacks_ok st" "stack_ok st s"
  shows "IsEmpty s \<longleftrightarrow> stack_of st s = []" "Depth st s = length (stack_of st s)"
    "HasSynthetic st s \<longleftrightarrow> (\<exists>e \<in> set (stack_of st s). ob_is_synthetic e)"
    "OpenKinds st s = foldr (\<lambda>e w. w OR KindBit (ob_kind e)) (stack_of st s) 0"
proof -
  have "(IsEmpty s \<longleftrightarrow> stack_of st s = []) \<and> Depth st s = length (stack_of st s) \<and>
    (HasSynthetic st s \<longleftrightarrow> (\<exists>e \<in> set (stack_of st s). ob_is_synthetic e)) \<and>
    OpenKinds st s = foldr (\<lambda>e w. w OR KindBit (ob_kind e)) (stack_of st s) 0"
  proof (cases s)
    case None
    then show ?thesis by (simp add: IsEmpty_def Depth_def HasSynthetic_def OpenKinds_def stack_of_def)
  next
    case (Some i)
    then have i: "i < length (os_cells st)" using assms(2) by (simp add: stack_ok_def valid_stack_id_def)
    have "cell_ok (os_cells st) i" by (rule stacks_ok_cell [OF assms(1) i])
    moreover have "stack_of st s \<noteq> []" using stack_cell(1) [OF assms(1) i] Some by simp
    ultimately show ?thesis using Some
      by (simp add: IsEmpty_def Depth_def HasSynthetic_def OpenKinds_def cell_ok_def Let_def stack_of_def)
  qed
  then show "IsEmpty s \<longleftrightarrow> stack_of st s = []" "Depth st s = length (stack_of st s)"
    "HasSynthetic st s \<longleftrightarrow> (\<exists>e \<in> set (stack_of st s). ob_is_synthetic e)"
    "OpenKinds st s = foldr (\<lambda>e w. w OR KindBit (ob_kind e)) (stack_of st s) 0" by blast+
qed

lemma Top_Pop:
  assumes "stacks_ok st" "stack_ok st s" "\<not> IsEmpty s"
  shows "stack_of st s = key_of (Top st s) # stack_of st (Pop st s)" "stack_ok st (Pop st s)"
proof -
  obtain i where i: "s = Some i" "i < length (os_cells st)"
    using assms(2,3) by (auto simp: IsEmpty_def stack_ok_def valid_stack_id_def)
  from stack_cell [OF assms(1) i(2)] i(1)
  show "stack_of st s = key_of (Top st s) # stack_of st (Pop st s)" "stack_ok st (Pop st s)"
    by (simp_all add: Top_def Pop_def)
qed

lemma Push_new:
  assumes "stacks_ok st" "stack_ok st s" "os_intern st \<lparr>ck_parent = s, ck_entry = key_of entry\<rparr> = None"
    "Push st s entry = (s', st')"
  shows "stacks_ok st'" "s' = Some (length (os_cells st))" "stack_of st' s' = key_of entry # stack_of st s"
    "\<exists>c. os_cells st' = os_cells st @ [c]"
proof -
  define c where "c = \<lparr>cell_parent = s, cell_entry = entry, cell_depth = Depth st s + 1,
     cell_open_kinds = OpenKinds st s OR KindBit (ob_kind entry),
     cell_has_synthetic = HasSynthetic st s \<or> ob_is_synthetic entry\<rparr>"
  let ?cs = "os_cells st" and ?n = "length (os_cells st)"
  have c: "cell_parent c = s" "cell_entry c = entry" "cell_depth c = Depth st s + 1"
      "cell_open_kinds c = OpenKinds st s OR KindBit (ob_kind entry)"
      "cell_has_synthetic c = (HasSynthetic st s \<or> ob_is_synthetic entry)"
    by (simp_all add: c_def)
  have st': "st' = st\<lparr>os_cells := ?cs @ [c],
        os_intern := (os_intern st)(\<lparr>ck_parent = s, ck_entry = key_of entry\<rparr> \<mapsto> ?n)\<rparr>" and s': "s' = Some ?n"
    using assms(3,4) by (auto simp: Push_def Let_def c_def)
  have v: "valid_stack_id ?n s" using assms(2) by (simp add: stack_ok_def)
  then have from_n: "stack_from (?cs @ [c]) (Some ?n) = key_of entry # stack_from ?cs s"
    using stack_from_cell [of ?n "?cs @ [c]"] stack_from_append [OF v] by (simp add: nth_append c)
  show "stack_of st' s' = key_of entry # stack_of st s" using from_n by (simp add: st' s' stack_of_def)
  have "cell_ok (?cs @ [c]) ?n"
    using stack_caches [OF assms(1,2)] v
    by (simp add: cell_ok_def Let_def from_n nth_append c stack_of_def OpenBracketKey.truncate_def disj_commute)
  moreover have "cell_ok (?cs @ [c]) i" if "i < ?n" for i
    using that assms(1) by (simp add: cell_ok_append stacks_ok_def)
  ultimately have cells: "\<forall>i < length (?cs @ [c]). cell_ok (?cs @ [c]) i" by (simp add: less_Suc_eq)
  let ?k = "\<lparr>ck_parent = s, ck_entry = key_of entry\<rparr>" and ?ki = "\<lambda>cs i. \<lparr>ck_parent = cell_parent (cs ! i), ck_entry = key_of (cell_entry (cs ! i))\<rparr>"
  have old: "os_intern st k = Some i \<longleftrightarrow> i < ?n \<and> k = ?ki ?cs i" for k i
    using assms(1) by (simp add: stacks_ok_def)
  have "((os_intern st)(?k \<mapsto> ?n)) k = Some i \<longleftrightarrow> i < length (?cs @ [c]) \<and> k = ?ki (?cs @ [c]) i" for k i
  proof (cases "i < ?n")
    case True
    then have "?ki (?cs @ [c]) i = ?ki ?cs i" by (simp add: nth_append)
    moreover have "?ki ?cs i \<noteq> ?k" using old [of ?k i] assms(3) True by auto
    ultimately show ?thesis using old [of k i] True by auto
  next
    case False
    then have "os_intern st k \<noteq> Some i" using old [of k i] by simp
    moreover have "?ki (?cs @ [c]) ?n = ?k" by (simp add: c)
    ultimately show ?thesis using False by (cases "i = ?n") auto
  qed
  with cells show "stacks_ok st'" by (simp add: stacks_ok_def st')
  show "s' = Some ?n" "\<exists>c. os_cells st' = ?cs @ [c]" by (simp_all add: s' st')
qed

lemma Push_old:
  assumes "stacks_ok st" "os_intern st \<lparr>ck_parent = s, ck_entry = key_of entry\<rparr> = Some i"
    "Push st s entry = (s', st')"
  shows "st' = st" "s' = Some i" "stack_ok st s'" "stack_of st s' = key_of entry # stack_of st s"
proof -
  show "st' = st" "s' = Some i" using assms(2,3) by (auto simp: Push_def Let_def)
  have "i < length (os_cells st)" "s = cell_parent (os_cells st ! i)" "key_of entry = key_of (cell_entry (os_cells st ! i))"
    using assms(1,2) unfolding stacks_ok_def by auto
  then show "stack_ok st s'" "stack_of st s' = key_of entry # stack_of st s"
    using stack_cell [OF assms(1), of i] \<open>s' = Some i\<close> by (simp_all add: stack_ok_def valid_stack_id_def)
qed

lemma Push_ok:
  assumes "stacks_ok st" "stack_ok st s" "Push st s entry = (s', st')"
  shows "stacks_ok st'" "stack_ok st' s'" "stack_of st' s' = key_of entry # stack_of st s"
    "stack_ok st t \<Longrightarrow> stack_ok st' t \<and> stack_of st' t = stack_of st t"
proof -
  consider (new) "os_intern st \<lparr>ck_parent = s, ck_entry = key_of entry\<rparr> = None"
    | (old) i where "os_intern st \<lparr>ck_parent = s, ck_entry = key_of entry\<rparr> = Some i" by fastforce
  then have "stacks_ok st' \<and> stack_ok st' s' \<and> stack_of st' s' = key_of entry # stack_of st s \<and>
    (stack_ok st t \<longrightarrow> stack_ok st' t \<and> stack_of st' t = stack_of st t)"
  proof cases
    case new
    note p = Push_new [OF assms(1,2) new assms(3)]
    from p(4) obtain c where c: "os_cells st' = os_cells st @ [c]" by blast
    have "stack_ok st' t \<and> stack_of st' t = stack_of st t" if "stack_ok st t"
      using that stack_from_append [of "os_cells st" t "[c]"]
      by (auto simp: c stack_ok_def valid_stack_id_def stack_of_def split: option.splits)
    with p(1-3) c show ?thesis by (simp add: stack_ok_def valid_stack_id_def)
  next
    case old
    from Push_old [OF assms(1) old assms(3)] assms(1) show ?thesis by simp
  qed
  then show "stacks_ok st'" "stack_ok st' s'" "stack_of st' s' = key_of entry # stack_of st s"
    "stack_ok st t \<Longrightarrow> stack_ok st' t \<and> stack_of st' t = stack_of st t" by blast+
qed

lemma stacks_ok_empty: "stacks_ok OpenStackStore_empty"
  by (simp add: stacks_ok_def OpenStackStore_empty_def)

lemma stack_ok_None [simp]: "stack_ok st None" "stack_of st None = []"
  by (simp_all add: stack_ok_def valid_stack_id_def stack_of_def)

lemma kind_int_nth:
  "[OpenParen_k, CloseParen_k, OpenCurlyBrace_k, CloseCurlyBrace_k, OpenSquareBracket_k, CloseSquareBracket_k,
    Semi_k, Comma_k, Period_k, StatementIntroducer_k, Leaf_k, Assignment_k, As_k, StructuralOp_k, ComparisonOp_k,
    ModifierKeyword_k, FileEnd_k, Other_k] ! kind_int k = k"
  by (cases k) (simp_all add: kind_int_def)

lemma KindBit_disjoint: "kind_int k < 8 \<Longrightarrow> KindBit j AND KindBit k \<noteq> 0 \<longleftrightarrow> j = k"
proof -
  assume k: "kind_int k < 8"
  have "bit (KindBit j AND KindBit k) n \<longleftrightarrow> n < 8 \<and> n = kind_int j \<and> n = kind_int k" for n
    by (auto simp: KindBit_def bit_simps)
  moreover have "w \<noteq> 0 \<longleftrightarrow> (\<exists>n. bit w n)" for w :: "8 word" by (metis bit_eqI bit_0_eq bot_apply bot_boolE)
  ultimately have "KindBit j AND KindBit k \<noteq> 0 \<longleftrightarrow> kind_int j = kind_int k" using k by auto
  also have "\<dots> \<longleftrightarrow> j = k" using kind_int_nth by metis
  finally show ?thesis .
qed

lemma word_and_or_zero: "(v OR w) AND x = 0 \<longleftrightarrow> v AND x = 0 \<and> w AND x = (0 :: 8 word)"
  by (auto simp: bit_eq_iff bit_simps)

lemma kinds_word:
  "kind_int k < 8 \<Longrightarrow> foldr (\<lambda>e w. w OR KindBit (ob_kind e)) s 0 AND KindBit k \<noteq> 0 \<longleftrightarrow> k \<in> ob_kind ` set s"
  using KindBit_disjoint by (induction s) (auto simp: word_and_or_zero)

lemma Contains_iff:
  assumes "stacks_ok st" "stack_ok st s" "IsOpeningBracket k"
  shows "Contains st s k \<longleftrightarrow> k \<in> ob_kind ` set (stack_of st s)"
proof -
  have k: "kind_int k < 8" using assms(3) by (auto simp: IsOpeningBracket_def kind_int_def)
  have "Contains st s k \<longleftrightarrow> OpenKinds st s AND KindBit k \<noteq> 0"
    by (simp add: Contains_def OpenKinds_def)
  with stack_caches(4) [OF assms(1,2)] kinds_word [OF k] show ?thesis by simp
qed

lemma stack_id_inj:
  assumes "stacks_ok st" "stack_ok st s" "stack_ok st t" "stack_of st s = stack_of st t"
  shows "s = t"
  using assms(2-4)
proof (induction "stack_of st s" arbitrary: s t)
  case Nil
  then show ?case using stack_caches(1) [OF assms(1), of s] stack_caches(1) [OF assms(1), of t] by (simp add: IsEmpty_def)
next
  case (Cons e r)
  then obtain i j where ij: "s = Some i" "t = Some j"
    using stack_caches(1) [OF assms(1)] by (metis IsEmpty_def list.distinct(1) not_None_eq)
  have lt: "i < length (os_cells st)" "j < length (os_cells st)"
    using Cons.prems ij by (simp_all add: stack_ok_def valid_stack_id_def)
  note ci = stack_cell [OF assms(1) lt(1)] and cj = stack_cell [OF assms(1) lt(2)]
  have "cell_parent (os_cells st ! i) = cell_parent (os_cells st ! j)"
    using Cons ci cj ij by simp
  moreover have "key_of (cell_entry (os_cells st ! i)) = key_of (cell_entry (os_cells st ! j))"
    using Cons ci cj ij by simp
  ultimately have "Some i = Some j" using assms(1) lt unfolding stacks_ok_def by (metis (no_types, lifting))
  with ij show ?case by simp
qed

section \<open>The contract\<close>

text \<open>
  A store of shared stacks: pushing gives an id whose view is the view below with the entry on
  top, and changes no other stack.
\<close>

locale stack_store =
  fixes ok :: "'s \<Rightarrow> bool" and has :: "'s \<Rightarrow> 'i \<Rightarrow> bool" and view :: "'s \<Rightarrow> 'i \<Rightarrow> 'k list"
    and push :: "'s \<Rightarrow> 'i \<Rightarrow> 'e \<Rightarrow> 'i \<times> 's" and pop :: "'s \<Rightarrow> 'i \<Rightarrow> 'i" and top_entry :: "'s \<Rightarrow> 'i \<Rightarrow> 'e" and key :: "'e \<Rightarrow> 'k"
  assumes push: "ok s \<Longrightarrow> has s i \<Longrightarrow> push s i e = (j, s') \<Longrightarrow> ok s' \<and> has s' j \<and> view s' j = key e # view s i"
    and push_keeps: "ok s \<Longrightarrow> has s i \<Longrightarrow> push s i e = (j, s') \<Longrightarrow> has s h \<Longrightarrow> has s' h \<and> view s' h = view s h"
    and shared: "ok s \<Longrightarrow> has s i \<Longrightarrow> has s j \<Longrightarrow> view s i = view s j \<Longrightarrow> i = j"
    and top_pop: "ok s \<Longrightarrow> has s i \<Longrightarrow> view s i = k # ks \<Longrightarrow>
      key (top_entry s i) = k \<and> view s (pop s i) = ks \<and> has s (pop s i)"
begin

lemma pop_push:
  assumes "ok s" "has s i" "push s i e = (j, s')"
  shows "pop s' j = i" "key (top_entry s' j) = key e"
proof -
  have j: "ok s'" "has s' j" "view s' j = key e # view s i" using push [OF assms] by auto
  have i: "has s' i" "view s' i = view s i" using push_keeps [OF assms assms(2)] by auto
  from top_pop [OF j] i show "key (top_entry s' j) = key e" "pop s' j = i"
    using shared [OF j(1)] by auto
qed

lemma push_twice_same:
  assumes "ok s" "has s i" "push s i e = (j, s')" "key e = key f" "push s' i f = (k, s'')"
  shows "k = j"
proof -
  have s': "ok s'" "has s' j" "view s' j = key e # view s i" using push [OF assms(1-3)] by auto
  have i: "has s' i" "view s' i = view s i" using push_keeps [OF assms(1-3) assms(2)] by auto
  have k: "ok s''" "has s'' k" "view s'' k = key f # view s' i" using push [OF s'(1) i(1) assms(5)] by auto
  have "has s'' j" "view s'' j = view s' j" using push_keeps [OF s'(1) i(1) assms(5) s'(2)] by auto
  with shared [OF k(1,2)] k(3) s'(3) i(2) assms(4) show ?thesis by simp
qed

end

interpretation brackets: stack_store stacks_ok stack_ok stack_of Push Pop Top key_of
proof (unfold_locales, goal_cases)
  case (1 s i e j s')
  then show ?case using Push_ok(1-3) by blast
next
  case (2 s i e j s' h)
  then show ?case using Push_ok(4) by blast
next
  case (3 s i j)
  then show ?case by (rule stack_id_inj)
next
  case (4 s i k ks)
  then show ?case using Top_Pop stack_caches(1) by (metis list.distinct(1) list.inject)
qed

text \<open>
  C20. The store of open brackets refines lists: \<open>Push\<close> gives the id of the stack with the entry on top, \<open>Pop\<close> and \<open>Top\<close> give the
  stack and the entry back, every other stack stays as it was, the values cached in a cell are those of the stack, and ids are equal exactly when
  the stacks are.
\<close>

theorem open_stack_refines_lists:
  assumes "stacks_ok st" "stack_ok st s" "Push st s entry = (s', st')"
  shows "stacks_ok st' \<and> stack_ok st' s' \<and> stack_of st' s' = key_of entry # stack_of st s \<and>
    Pop st' s' = s \<and> key_of (Top st' s') = key_of entry \<and> Depth st' s' = Suc (length (stack_of st s)) \<and>
    (HasSynthetic st' s' \<longleftrightarrow> ob_is_synthetic entry \<or> (\<exists>e \<in> set (stack_of st s). ob_is_synthetic e)) \<and>
    (\<forall>k. IsOpeningBracket k \<longrightarrow> (Contains st' s' k \<longleftrightarrow> k = ob_kind entry \<or> k \<in> ob_kind ` set (stack_of st s))) \<and>
    (\<forall>t. stack_ok st t \<longrightarrow> stack_ok st' t \<and> stack_of st' t = stack_of st t \<and> (stack_of st' t = stack_of st' s' \<longleftrightarrow> t = s'))"
proof -
  note p = brackets.push [OF assms] and k = brackets.push_keeps [OF assms]
  note c = stack_caches [of st' s'] and i = Contains_iff [of st' s']
  have key: "ob_is_synthetic (key_of entry) = ob_is_synthetic entry" "ob_kind (key_of entry) = ob_kind entry"
    by (simp_all add: OpenBracketKey.truncate_def)
  have "\<forall>k. IsOpeningBracket k \<longrightarrow> (Contains st' s' k \<longleftrightarrow> k = ob_kind entry \<or> k \<in> ob_kind ` set (stack_of st s))"
    using p i key by auto
  moreover have "\<forall>t. stack_ok st t \<longrightarrow> stack_ok st' t \<and> stack_of st' t = stack_of st t \<and> (stack_of st' t = stack_of st' s' \<longleftrightarrow> t = s')"
    using k brackets.shared [of st'] p by blast
  ultimately show ?thesis using p c key brackets.pop_push [OF assms] by auto
qed

theorem open_stack_refines_lists_witness:
  "stacks_ok OpenStackStore_empty \<and> stack_ok OpenStackStore_empty None \<and>
   (\<forall>entry. case Push OpenStackStore_empty None entry of (s', st') \<Rightarrow> stack_of st' s' = [key_of entry] \<and> Pop st' s' = None)"
proof -
  have "case Push OpenStackStore_empty None entry of (s', st') \<Rightarrow> stack_of st' s' = [key_of entry] \<and> Pop st' s' = None" for entry
    using open_stack_refines_lists [OF stacks_ok_empty stack_ok_None(1)] by (cases "Push OpenStackStore_empty None entry") auto
  then show ?thesis using stacks_ok_empty by simp
qed

end
