(* ===== verification/Bracket_Rules.thy ===== *)
theory Bracket_Rules
  imports Bracket_Stack
begin

text \<open>
  The rule tables of the repair search (\<open>toolchain/lex/mismatched_brackets.cpp\<close>): contextual cues,
  the three tables of priced rules, and their lookup through an index that maps a context category
  and a token kind to a 64-bit set of candidate rules. Cue sets, kind sets and sets of categories, which
  the code holds as bit masks, are sets. The index and its scan are modelled bit by bit
  and shown to be the search of the table from its front.
\<close>

section \<open>Costs and cues\<close>

definition CostReplaceClosing :: int where "CostReplaceClosing = 30"
definition CostReplaceOpening :: int where "CostReplaceOpening = 50"
definition CostCloseAtEnd :: int where "CostCloseAtEnd = 12"
definition CostCloseParenAtEnd :: int where "CostCloseParenAtEnd = 22"
definition CostCloseStructAtEnd :: int where "CostCloseStructAtEnd = 20"
definition CostCloseParenBeforeSpacedPeriod :: int where "CostCloseParenBeforeSpacedPeriod = 6"
definition CostCloseAtWideGap :: int where "CostCloseAtWideGap = 6"
definition CostBraceIndentMismatchBase :: int where "CostBraceIndentMismatchBase = 30"
definition CostBraceIndentMismatchPerColumn :: int where "CostBraceIndentMismatchPerColumn = 20"

datatype (plugins only: code) Cue =
    FirstOnLine | LeadingSpace | WideGap | StructBrace | ElseKeyword | PrevValueEnding
    | PrevValueLike | PrevHasLeadingSpace | PrevKeywordWantsParen | PrevKeywordWantsSquare
    | PrevIntroducesType | PrevIsPeriod | PrevIsComma | PrevIsOpenBracket | PrevIsOpenCurly
    | PrevIsCloseParen | PrevIsCloseSquare | PrevIsCloseCurly | PrevItemIsLeaf | PrevItemIsTypeName
    | CollapsedBlock | ContainsScopeBrace | FollowsStatementHeader | HeaderHasOpenCurly
    | CallParenTop | AfterOpenTop | DedentToHeader | DedentToOpenerLine | NewLineFromTop | Cascade
    | CloserInserted | CloserFixesAdjacency | OpenerHere | BracketInsertedHere

type_synonym CueSet = "Cue set"
type_synonym KindSet = "BracketTokenKind set"

section \<open>Categories and sets of kinds\<close>

text \<open>The category of the innermost open bracket, and of a bracket to insert.\<close>

definition Top_Paren :: "nat set" where "Top_Paren = {0}"
definition Top_Square :: "nat set" where "Top_Square = {1}"
definition Top_Struct :: "nat set" where "Top_Struct = {2}"
definition Top_Scope :: "nat set" where "Top_Scope = {3}"
definition Top_None :: "nat set" where "Top_None = {4}"
definition Top_ParenLike :: "nat set" where "Top_ParenLike = Top_Paren \<union> Top_Square"
definition Top_Any :: "nat set" where "Top_Any = Top_ParenLike \<union> Top_Struct \<union> Top_Scope \<union> Top_None"
definition Ins_Paren :: "nat set" where "Ins_Paren = {0}"
definition Ins_Square :: "nat set" where "Ins_Square = {1}"
definition Ins_ScopeBrace :: "nat set" where "Ins_ScopeBrace = {2}"
definition Ins_StructBrace :: "nat set" where "Ins_StructBrace = {3}"
definition Ins_ParenLike :: "nat set" where "Ins_ParenLike = Ins_Paren \<union> Ins_Square"
definition NumContextCategories :: nat where "NumContextCategories = max 5 4"

definition TopCategoryOf :: "'x OpenBracketKey_scheme \<Rightarrow> nat" where
  "TopCategoryOf top_bracket = (if ob_kind top_bracket = OpenParen_k then 0
     else if ob_kind top_bracket = OpenSquareBracket_k then 1
     else if ob_is_struct_brace top_bracket then 2 else 3)"

definition TopCategoryOfStack :: "OpenStackStore \<Rightarrow> OpenStackId \<Rightarrow> nat" where
  "TopCategoryOfStack stacks stack = (if IsEmpty stack then 4 else TopCategoryOf (Top stacks stack))"

definition InsCategoryOf :: "BracketTokenKind \<Rightarrow> bool \<Rightarrow> nat" where
  "InsCategoryOf kind is_struct_brace = (if kind = OpenParen_k then 0 else if kind = OpenSquareBracket_k then 1
     else if is_struct_brace then 3 else 2)"

definition all_bracket_kinds :: "BracketTokenKind list" where
  "all_bracket_kinds = [OpenParen_k, CloseParen_k, OpenCurlyBrace_k, CloseCurlyBrace_k, OpenSquareBracket_k,
     CloseSquareBracket_k, Semi_k, Comma_k, Period_k, StatementIntroducer_k, Leaf_k, Assignment_k, As_k,
     StructuralOp_k, ComparisonOp_k, ModifierKeyword_k, FileEnd_k, Other_k]"

definition Kinds_Any :: KindSet where "Kinds_Any = - {}"
definition Kinds_OpenGroup :: KindSet where "Kinds_OpenGroup = {OpenParen_k, OpenSquareBracket_k}"
definition Kinds_CloseGroup :: KindSet where "Kinds_CloseGroup = {CloseParen_k, CloseSquareBracket_k}"
definition Kinds_Opener :: KindSet where "Kinds_Opener = Kinds_OpenGroup \<union> {OpenCurlyBrace_k}"
definition Kinds_NonOpener :: KindSet where "Kinds_NonOpener = - Kinds_Opener"
definition Kinds_AnyStructural :: KindSet where "Kinds_AnyStructural = {Assignment_k, As_k, StructuralOp_k}"
definition Kinds_BinaryConnector :: KindSet where
  "Kinds_BinaryConnector = Kinds_AnyStructural \<union> {ComparisonOp_k}"
definition Kinds_AnyOther :: KindSet where
  "Kinds_AnyOther = Kinds_AnyStructural \<union> {Other_k, ComparisonOp_k, ModifierKeyword_k}"
definition Kinds_GroupStarter :: KindSet where
  "Kinds_GroupStarter = Kinds_Opener \<union> {Leaf_k, Period_k, ModifierKeyword_k}"
definition Kinds_LeafLike :: KindSet where "Kinds_LeafLike = {Leaf_k, ModifierKeyword_k}"
definition Kinds_Dedentable :: KindSet where
  "Kinds_Dedentable = - (Kinds_CloseGroup \<union> {CloseCurlyBrace_k, FileEnd_k})"

section \<open>Rules\<close>

definition DeclineCost :: int where "DeclineCost = -1"

record BracketRule =
  br_ctx :: "nat set"
  br_kinds :: KindSet
  br_when :: CueSet
  br_unless :: CueSet
  br_not_all :: CueSet
  br_any_of :: CueSet
  br_cost :: int
  br_rule_name :: string

definition Rule :: "nat set \<Rightarrow> KindSet \<Rightarrow> BracketRule" where
  "Rule ctx kinds = \<lparr>br_ctx = ctx, br_kinds = kinds, br_when = {}, br_unless = {}, br_not_all = {},
     br_any_of = {}, br_cost = DeclineCost, br_rule_name = []\<rparr>"

definition When :: "CueSet \<Rightarrow> BracketRule \<Rightarrow> BracketRule" where
  "When cues r = r\<lparr>br_when := cues\<rparr>"
definition Unless :: "CueSet \<Rightarrow> BracketRule \<Rightarrow> BracketRule" where
  "Unless cues r = r\<lparr>br_unless := cues\<rparr>"
definition NotAll :: "CueSet \<Rightarrow> BracketRule \<Rightarrow> BracketRule" where
  "NotAll cues r = r\<lparr>br_not_all := cues\<rparr>"
definition AnyOf :: "CueSet \<Rightarrow> BracketRule \<Rightarrow> BracketRule" where
  "AnyOf cues r = r\<lparr>br_any_of := cues\<rparr>"
definition Cost :: "int \<Rightarrow> string \<Rightarrow> BracketRule \<Rightarrow> BracketRule" where
  "Cost c n r = r\<lparr>br_cost := c, br_rule_name := n\<rparr>"
definition Decline :: "BracketRule \<Rightarrow> BracketRule" where
  "Decline r = r\<lparr>br_cost := DeclineCost\<rparr>"

definition Matches :: "BracketRule \<Rightarrow> CueSet \<Rightarrow> bool" where
  "Matches r cues \<longleftrightarrow> br_when r \<subseteq> cues \<and> cues \<inter> br_unless r = {} \<and>
     (br_not_all r = {} \<or> \<not> br_not_all r \<subseteq> cues) \<and> (br_any_of r = {} \<or> cues \<inter> br_any_of r \<noteq> {})"

definition CloserRules :: "BracketRule list" where
  "CloserRules = [
      Cost 4 ''Close_EmptyGroup'' (When {AfterOpenTop} (Rule Top_ParenLike {Comma_k})),
      Cost 4 ''Close_EmptyGroup'' (When {AfterOpenTop} (Rule Top_ParenLike Kinds_BinaryConnector)),
      Cost 4 ''Close_EmptyGroup'' (When {AfterOpenTop, LeadingSpace} (Rule Top_ParenLike {Period_k})),
      Cost 6 ''Close_ParenBeforeSemi'' (Rule Top_ParenLike {Semi_k}),
      Cost 3 ''Close_ParenCascade'' (When {Cascade} (Rule Top_ParenLike Kinds_Any)),
      Cost 11 ''Close_ParenBeforeBrace'' (NotAll {StructBrace, CallParenTop} (Rule Top_Paren
        {OpenCurlyBrace_k})),
      Cost 8 ''Close_ParenBeforeStructuralOp'' (When {LeadingSpace} (Rule Top_Paren Kinds_AnyStructural)),
      Cost 8 ''Close_ParenBeforeStructuralOp'' (When {LeadingSpace} (Rule Top_Square {Assignment_k})),
      Cost 4 ''Close_SquareAtLeafAdjacency'' (When {PrevValueEnding} (Rule Top_Square {Leaf_k})),
      Cost 6 ''Close_ParenBeforeSpacedPeriod'' (Unless {FirstOnLine} (When {LeadingSpace, PrevValueLike}
        (Rule Top_ParenLike {Period_k}))),
      Cost 6 ''Close_ParenBeforeSpacedOpen'' (Unless {FirstOnLine} (When {LeadingSpace, PrevValueLike} (Rule
        Top_ParenLike Kinds_OpenGroup))),
      Cost 11 ''Close_ParenBeforeComparison'' (Rule Top_Square {ComparisonOp_k}),
      Cost 11 ''Close_ParenBeforeComparison'' (When {CallParenTop} (Rule Top_Paren {ComparisonOp_k})),
      Cost 6 ''Close_BeforeSpacedComma'' (Unless {FirstOnLine} (When {LeadingSpace, PrevValueLike} (Rule
        Top_ParenLike {Comma_k}))),
      Cost 6 ''Close_BeforeSpacedCloser'' (Unless {FirstOnLine} (When {LeadingSpace, PrevValueLike} (Rule
        Top_ParenLike Kinds_CloseGroup))),
      Cost CostCloseAtEnd ''Close_ParenAtFileEnd'' (Rule Top_ParenLike {FileEnd_k}),
      Cost CostCloseAtWideGap ''Close_ParenAtWideGap'' (Unless {FirstOnLine} (When {WideGap} (Rule
        Top_ParenLike Kinds_Any))),
      Cost 10 ''Close_SquareAtContinuation'' (When {FirstOnLine, NewLineFromTop} (Rule Top_Square Kinds_Any)),
      Cost 14 ''Close_SquareBeforeBlock'' (Unless {StructBrace, CallParenTop} (Rule Top_Square
        {OpenCurlyBrace_k})),
      Decline (Rule Top_ParenLike Kinds_Any),
      Cost 6 ''Close_StructBeforeSemi'' (Rule Top_Struct {Semi_k}),
      Cost 6 ''Close_StructCascade'' (When {Cascade} (Rule Top_Struct Kinds_Any)),
      Cost 14 ''Close_StructBeforeBlock'' (Unless {StructBrace} (Rule Top_Struct {OpenCurlyBrace_k})),
      Cost CostCloseAtWideGap ''Close_StructAtWideGap'' (Unless {FirstOnLine} (When {WideGap} (Rule
        Top_Struct Kinds_Any))),
      Cost CostCloseAtEnd ''Close_StructAtFileEnd'' (Rule Top_Struct {FileEnd_k}),
      Cost 12 ''Close_StructAtDedent'' (When {FirstOnLine, DedentToHeader} (Rule Top_Struct Kinds_Any)),
      Cost 40 ''Close_StructBaseline'' (Rule Top_Struct Kinds_Any),
      Cost 4 ''Close_ScopeBeforeElse'' (When {ElseKeyword, FirstOnLine} (Rule Top_Scope Kinds_Any)),
      Cost 6 ''Close_ScopeAtDedent'' (When {FirstOnLine, DedentToHeader} (Rule Top_Scope Kinds_Any)),
      Cost 6 ''Close_ScopeCascade'' (When {Cascade} (Rule Top_Scope Kinds_Any)),
      Cost CostCloseAtEnd ''Close_ScopeAtFileEnd'' (Rule Top_Scope {FileEnd_k}),
      Cost 45 ''Close_ScopeBaseline'' (Rule Top_Scope Kinds_Any)]"

definition OpenerRules :: "BracketRule list" where
  "OpenerRules = [
      Cost 3 ''Open_AfterParenKeyword'' (When {PrevKeywordWantsParen} (Rule Ins_Paren Kinds_NonOpener)),
      Cost 3 ''Open_AfterParenKeyword'' (When {PrevKeywordWantsSquare} (Rule Ins_Square Kinds_NonOpener)),
      Cost 3 ''Open_AtLeafAdjacency'' (When {PrevValueEnding} (Rule Ins_ParenLike Kinds_LeafLike)),
      Cost CostCloseParenBeforeSpacedPeriod ''Open_BeforeSpacedPeriod'' (Unless {FirstOnLine} (When
        {LeadingSpace, PrevValueEnding} (Rule Ins_Paren {Period_k}))),
      Cost 4 ''Open_AfterPeriodGap'' (Unless {FirstOnLine, PrevHasLeadingSpace} (When {LeadingSpace,
        PrevIsPeriod} (Rule Ins_ParenLike {Leaf_k}))),
      Cost 4 ''Open_AfterOpenGap'' (Unless {FirstOnLine} (When {LeadingSpace, PrevIsOpenBracket} (Rule
        Ins_ParenLike {Leaf_k}))),
      Cost CostCloseAtWideGap ''Open_AtWideGap'' (Unless {FirstOnLine} (When {WideGap} (Rule Ins_ParenLike
        Kinds_GroupStarter))),
      Cost 5 ''Open_EmptyParens'' (Unless {PrevItemIsTypeName} (When {PrevItemIsLeaf, LeadingSpace} (Rule
        Ins_Paren {CloseParen_k}))),
      Cost 12 ''Open_EmptySquares'' (Unless {PrevItemIsTypeName} (When {PrevItemIsLeaf, LeadingSpace} (Rule
        Ins_Square {CloseSquareBracket_k}))),
      Cost 8 ''Open_EmptyParensAfterClose'' (Unless {FirstOnLine} (When {PrevIsCloseParen, LeadingSpace}
        (Rule Ins_Paren {CloseParen_k}))),
      Cost 70 ''Open_ParenBaseline'' (Rule Ins_ParenLike Kinds_Any),
      Decline (Rule Ins_ScopeBrace Kinds_Opener),
      Cost 8 ''Open_ScopeAfterHeader'' (Unless {HeaderHasOpenCurly} (When {FollowsStatementHeader} (Rule
        Ins_ScopeBrace Kinds_Any))),
      Cost 30 ''Open_ScopeBaseline'' (Rule Ins_ScopeBrace Kinds_Any),
      Cost 5 ''Open_StructBeforeDesignator'' (Unless {PrevValueEnding} (Rule Ins_StructBrace {Period_k})),
      Cost 10 ''Open_StructEmptyBraces'' (AnyOf {PrevValueEnding, PrevIsCloseCurly, PrevIsCloseSquare,
        PrevIsComma} (Unless {FirstOnLine} (Rule Ins_StructBrace {CloseCurlyBrace_k}))),
      Decline (Rule Ins_StructBrace Kinds_Any)]"

definition AdvanceRules :: "BracketRule list" where
  "AdvanceRules = [
      Cost 40 ''Adv_DedentInScope'' (When {FirstOnLine, DedentToHeader} (Rule (Top_Struct \<union> Top_Scope)
        Kinds_Dedentable)),
      Cost 25 ''Adv_DedentInParen'' (When {FirstOnLine, DedentToOpenerLine} (Rule Top_ParenLike
        Kinds_Dedentable)),
      Cost 40 ''Adv_ScopeBlockInParen'' (When {CollapsedBlock, ContainsScopeBrace} (Rule (Top_ParenLike
        \<union> Top_Struct) Kinds_Opener)),
      Cost 40 ''Adv_ScopeBraceInParen'' (Unless {CollapsedBlock, StructBrace} (Rule (Top_ParenLike \<union>
        Top_Struct) {OpenCurlyBrace_k})),
      Cost 5 ''Adv_StructBraceInParen'' (Unless {CollapsedBlock} (When {StructBrace} (Rule (Top_ParenLike
        \<union> Top_Struct) {OpenCurlyBrace_k}))),
      Cost 10 ''Adv_SpacedOpenAfterValue'' (Unless {FirstOnLine, CollapsedBlock, CloserInserted} (When
        {LeadingSpace, PrevValueLike} (Rule Top_Any Kinds_OpenGroup))),
      Cost 8 ''Adv_SpacedCloserUnexplained'' (Unless {FirstOnLine, BracketInsertedHere} (When {LeadingSpace,
        PrevValueLike} (Rule Top_Any Kinds_CloseGroup))),
      Cost 100 ''Adv_SemiInParen'' (Rule (Top_ParenLike \<union> Top_Struct) {Semi_k}),
      Cost 50 ''Adv_CommaAtStatementLevel'' (Rule (Top_None \<union> Top_Scope) {Comma_k}),
      Cost 50 ''Adv_CommaAfterOpen'' (When {AfterOpenTop} (Rule (Top_ParenLike \<union> Top_Struct)
        {Comma_k})),
      Cost 8 ''Adv_SpacedCommaInParen'' (Unless {FirstOnLine, CloserInserted, AfterOpenTop} (When
        {LeadingSpace, PrevValueLike} (Rule (Top_ParenLike \<union> Top_Struct) {Comma_k}))),
      Cost 60 ''Adv_IntroducerInParen'' (Rule (Top_ParenLike \<union> Top_Struct) {StatementIntroducer_k}),
      Cost 60 ''Adv_LeafAdjacency'' (Unless {OpenerHere, CloserFixesAdjacency} (When {PrevValueEnding} (Rule
        Top_Any Kinds_LeafLike))),
      Cost 5 ''Adv_StructuralOpInParen'' (When {LeadingSpace} (Rule Top_ParenLike {Assignment_k,
        StructuralOp_k})),
      Cost 1 ''Adv_AsOpInParen'' (When {LeadingSpace} (Rule Top_ParenLike {As_k})),
      Cost 8 ''Adv_ComparisonInSquare'' (Rule Top_Square {ComparisonOp_k}),
      Cost 8 ''Adv_ComparisonInCall'' (When {CallParenTop} (Rule Top_Paren {ComparisonOp_k})),
      Cost 10 ''Adv_WideGapUnexplained'' (Unless {FirstOnLine, BracketInsertedHere} (When {WideGap} (Rule
        Top_Any Kinds_AnyOther))),
      Cost 10 ''Adv_SpacedPeriodInParen'' (AnyOf {PrevValueLike, PrevIsOpenBracket, PrevIsOpenCurly} (Unless
        {FirstOnLine, BracketInsertedHere} (When {LeadingSpace} (Rule Top_Any {Period_k}))))]"

section \<open>The index\<close>

type_synonym RuleIndex = "64 word list list"

definition add_rule :: "nat \<Rightarrow> BracketRule \<Rightarrow> RuleIndex \<Rightarrow> RuleIndex" where
  "add_rule r rule index =
     map (\<lambda>(t, row). if t \<notin> br_ctx rule then row
                    else map (\<lambda>(k, w). if k \<notin> br_kinds rule then w else w OR push_bit r 1) (zip all_bracket_kinds row))
       (zip [0..<NumContextCategories] index)"

definition BuildRuleIndex :: "BracketRule list \<Rightarrow> RuleIndex" where
  "BuildRuleIndex rules = fold (\<lambda>(r, rule). add_rule r rule) (zip [0..<length rules] rules)
     (replicate NumContextCategories (replicate (length all_bracket_kinds) 0))"

definition CandidateRules :: "RuleIndex \<Rightarrow> nat \<Rightarrow> BracketTokenKind \<Rightarrow> 64 word" where
  "CandidateRules index ctx_category kind = index ! ctx_category ! kind_int kind"

text \<open>\<open>std::countr_zero\<close>: the number of zero bits below the lowest one.\<close>

definition countr_zero :: "64 word \<Rightarrow> nat" where
  "countr_zero w = length (takeWhile (\<lambda>n. \<not> bit w n) [0..<64])"

lemma clear_lowest_less: "w \<noteq> 0 \<Longrightarrow> unat (w AND (w - 1)) < unat (w :: 64 word)"
proof -
  assume w: "w \<noteq> 0"
  have "w AND (w - 1) \<le> w - 1" by (rule word_and_le1)
  then have "unat (w AND (w - 1)) \<le> unat (w - 1)" by (simp add: word_le_nat_alt)
  also have "\<dots> < unat w" using w by (metis unat_minus_one diff_less unat_gt_0 zero_less_one)
  finally show ?thesis .
qed

function find_rule_loop :: "BracketRule list \<Rightarrow> 64 word \<Rightarrow> CueSet \<Rightarrow> BracketRule option" where
  "find_rule_loop rules candidates cues =
     (if candidates = 0 then None
      else let rule = rules ! countr_zero candidates; rest = candidates AND (candidates - 1) in
        if Matches rule cues then Some rule else find_rule_loop rules rest cues)"
  by pat_completeness auto
termination
  by (relation "measure (\<lambda>(rules, w, cues). unat w)") (auto simp: clear_lowest_less)

declare find_rule_loop.simps [simp del]

definition FindMatchingRule ::
    "BracketRule list \<Rightarrow> RuleIndex \<Rightarrow> nat \<Rightarrow> BracketTokenKind \<Rightarrow> CueSet \<Rightarrow> BracketRule option" where
  "FindMatchingRule rules index ctx_category kind cues =
     find_rule_loop rules (CandidateRules index ctx_category kind) cues"

function sum_rules_loop :: "BracketRule list \<Rightarrow> 64 word \<Rightarrow> CueSet \<Rightarrow> int \<Rightarrow> int" where
  "sum_rules_loop rules candidates cues sum_so_far =
     (if candidates = 0 then sum_so_far
      else let rule = rules ! countr_zero candidates; rest = candidates AND (candidates - 1) in
        sum_rules_loop rules rest cues (if Matches rule cues then sum_so_far + br_cost rule else sum_so_far))"
  by pat_completeness auto
termination
  by (relation "measure (\<lambda>(rules, w, cues, sum_so_far). unat w)") (auto simp: clear_lowest_less)

declare sum_rules_loop.simps [simp del]

definition SumMatchingRules ::
    "BracketRule list \<Rightarrow> RuleIndex \<Rightarrow> nat \<Rightarrow> BracketTokenKind \<Rightarrow> CueSet \<Rightarrow> int" where
  "SumMatchingRules rules index ctx_category kind cues =
     sum_rules_loop rules (CandidateRules index ctx_category kind) cues 0"

definition CloserRuleIndex :: RuleIndex where "CloserRuleIndex = BuildRuleIndex CloserRules"
definition OpenerRuleIndex :: RuleIndex where "OpenerRuleIndex = BuildRuleIndex OpenerRules"
definition AdvanceRuleIndex :: RuleIndex where "AdvanceRuleIndex = BuildRuleIndex AdvanceRules"

section \<open>Items and their cues\<close>

record Item =
  it_token_start_index :: nat
  it_token_end_index :: nat
  it_token :: MismatchedBracketToken
  it_effective_header_indent :: nat
  it_cues :: CueSet

definition HasAll :: "Item \<Rightarrow> CueSet \<Rightarrow> bool" where
  "HasAll item wanted \<longleftrightarrow> wanted \<subseteq> it_cues item"

definition PrevKindCue :: "BracketTokenKind \<Rightarrow> CueSet" where
  "PrevKindCue kind =
     (if kind = Period_k then {PrevIsPeriod}
      else if kind = OpenParen_k \<or> kind = OpenSquareBracket_k then {PrevIsOpenBracket}
      else if kind = OpenCurlyBrace_k then {PrevIsOpenCurly}
      else if kind = CloseParen_k then {PrevIsCloseParen}
      else if kind = CloseCurlyBrace_k then {PrevIsCloseCurly}
      else if kind = CloseSquareBracket_k then {PrevIsCloseSquare}
      else if kind = Comma_k then {PrevIsComma} else {})"

definition CueIf :: "bool \<Rightarrow> Cue \<Rightarrow> CueSet" where
  "CueIf holds cue = (if holds then {cue} else {})"

definition PrevIsValueLike :: "MismatchedBracketToken option \<Rightarrow> bool" where
  "PrevIsValueLike prev_token = (case prev_token of None \<Rightarrow> False
     | Some t \<Rightarrow> IsValueEndingKind (mb_kind t) \<or> mb_kind t = CloseSquareBracket_k \<or> mb_kind t = CloseCurlyBrace_k)"

definition ComputeItemCues ::
    "MismatchedBracketToken \<Rightarrow> MismatchedBracketToken option \<Rightarrow> Item option \<Rightarrow> CueSet \<Rightarrow> CueSet" where
  "ComputeItemCues token prev_token prev_item context_cues =
     context_cues \<union> CueIf (mb_has_leading_space token) LeadingSpace
       \<union> CueIf (mb_has_wide_leading_space token) WideGap
       \<union> CueIf (mb_is_else_keyword token) ElseKeyword
       \<union> CueIf (mb_is_struct_brace token) StructBrace
       \<union> CueIf (PrevIsValueLike prev_token) PrevValueLike
       \<union> (case prev_token of None \<Rightarrow> {}
          | Some p \<Rightarrow> let wants_paren = mb_kind p = StatementIntroducer_k in
              CueIf (mb_is_paren_keyword p \<and> wants_paren) PrevKeywordWantsParen
              \<union> CueIf (mb_is_paren_keyword p \<and> \<not> wants_paren) PrevKeywordWantsSquare
              \<union> CueIf (mb_has_leading_space p) PrevHasLeadingSpace
              \<union> CueIf (IsValueEndingKind (mb_kind p)) PrevValueEnding
              \<union> CueIf (mb_kind p = As_k \<or> mb_kind p = StructuralOp_k) PrevIntroducesType
              \<union> PrevKindCue (mb_kind p))
       \<union> (case prev_item of None \<Rightarrow> {}
          | Some p \<Rightarrow> CueIf (mb_kind (it_token p) = Leaf_k) PrevItemIsLeaf
              \<union> CueIf (HasAll p {PrevIntroducesType}) PrevItemIsTypeName)"

definition MatchesDeeperOpener :: "OpenStackStore \<Rightarrow> OpenStackId \<Rightarrow> BracketTokenKind \<Rightarrow> bool" where
  "MatchesDeeperOpener stacks stack closing_kind =
     (if \<not> IsClosingBracket closing_kind \<or> Depth stacks stack < 2 then False
      else Contains stacks (Pop stacks stack) (MatchingOpeningKind closing_kind))"

definition ComputeTopCues ::
    "OpenBracketInfo \<Rightarrow> Item \<Rightarrow> OpenStackStore \<Rightarrow> OpenStackId \<Rightarrow> CueSet" where
  "ComputeTopCues top_bracket item stacks stack =
     (let token = it_token item in
      CueIf (ob_is_call_paren top_bracket) CallParenTop
      \<union> CueIf (MatchesDeeperOpener stacks stack (mb_kind token)) Cascade
      \<union> CueIf (ob_token_pos top_bracket = int (it_token_start_index item) - 1) AfterOpenTop
      \<union> CueIf (mb_line_indent token \<le> ob_effective_header_indent top_bracket) DedentToHeader
      \<union> CueIf (mb_line token \<noteq> ob_line top_bracket) NewLineFromTop)"

definition classified :: "BracketRule option \<Rightarrow> (int \<times> string) option" where
  "classified rule = (case rule of None \<Rightarrow> None
     | Some r \<Rightarrow> if br_cost r = DeclineCost then None else Some (br_cost r, br_rule_name r))"

definition ClassifyCloserInsertion ::
    "OpenBracketInfo \<Rightarrow> Item \<Rightarrow> OpenStackStore \<Rightarrow> OpenStackId \<Rightarrow> (int \<times> string) option" where
  "ClassifyCloserInsertion top_bracket item stacks stack =
     (let cues = it_cues item \<union> ComputeTopCues top_bracket item stacks stack in
      classified (FindMatchingRule CloserRules CloserRuleIndex (TopCategoryOf top_bracket) (mb_kind (it_token item)) cues))"

definition ClassifyOpenerInsertion :: "BracketTokenKind \<Rightarrow> bool \<Rightarrow> Item \<Rightarrow> (int \<times> string) option" where
  "ClassifyOpenerInsertion kind is_struct_brace item =
     classified (FindMatchingRule OpenerRules OpenerRuleIndex (InsCategoryOf kind is_struct_brace)
       (mb_kind (it_token item)) (it_cues item))"

section \<open>The index finds the first matching rule\<close>

text \<open>The rules of a table that apply, without the index.\<close>

definition applies :: "nat \<Rightarrow> BracketTokenKind \<Rightarrow> CueSet \<Rightarrow> BracketRule \<Rightarrow> bool" where
  "applies ctx_category kind cues r \<longleftrightarrow> ctx_category \<in> br_ctx r \<and> kind \<in> br_kinds r \<and> Matches r cues"

lemma clear_lowest_bit:
  fixes w :: "64 word"
  assumes "bit w z" "\<And>n. n < z \<Longrightarrow> \<not> bit w n"
  shows "w AND (w - 1) = unset_bit z w"
proof -
  have z: "z < 64" using bit_imp_le_length [OF assms(1)] by simp
  define q where "q = drop_bit (Suc z) w"
  have w: "w = push_bit (Suc z) q OR push_bit z 1"
  proof (rule bit_word_eqI)
    fix n assume "n < LENGTH(64)"
    then show "bit w n = bit (push_bit (Suc z) q OR push_bit z 1) n"
      using assms z by (cases n z rule: linorder_cases) (auto simp: q_def bit_simps not_less_eq_eq simp del: push_bit_Suc)
  qed
  have "push_bit (Suc z) q AND push_bit z 1 = 0" "push_bit (Suc z) q AND mask z = (0 :: 64 word)"
    by (rule bit_word_eqI, auto simp: bit_simps simp del: push_bit_Suc)+
  then have "push_bit (Suc z) q OR push_bit z 1 = push_bit (Suc z) q + push_bit z 1"
      "push_bit (Suc z) q OR mask z = push_bit (Suc z) q + mask z"
    by (simp_all only: disjunctive_add_eq_or)
  moreover have "mask z = push_bit z 1 - (1 :: 64 word)" by (simp add: mask_eq_exp_minus_1 push_bit_eq_mult)
  ultimately have "w - 1 = push_bit (Suc z) q OR mask z" by (subst w) (simp only: add_diff_eq)
  then have "bit (w - 1) n \<longleftrightarrow> n < 64 \<and> (n < z \<or> z < n \<and> bit w n)" for n
    by (auto simp: q_def bit_simps simp del: push_bit_Suc)
  with assms show ?thesis
    by (intro bit_word_eqI) (auto simp: bit_simps dest: linorder_neqE_nat)
qed

lemma countr_zero_lowest:
  assumes "w \<noteq> 0"
  shows "bit w (countr_zero w)" "n < countr_zero w \<Longrightarrow> \<not> bit w n" "countr_zero w < 64"
proof -
  have ex: "\<exists>n < 64. bit w n"
  proof (rule ccontr)
    assume "\<not> ?thesis"
    then have "w = 0" by (intro bit_word_eqI) simp
    with assms show False by simp
  qed
  have lt: "countr_zero w < 64"
  proof (rule ccontr)
    assume "\<not> ?thesis"
    moreover have "takeWhile (\<lambda>n. \<not> bit w n) [0..<64] = take (countr_zero w) [0..<64]"
      unfolding countr_zero_def by (rule takeWhile_eq_take)
    ultimately have "takeWhile (\<lambda>n. \<not> bit w n) [0..<64] = [0..<64]" by simp
    then show False using ex unfolding takeWhile_eq_all_conv by auto
  qed
  then show "countr_zero w < 64" .
  from nth_length_takeWhile [of "\<lambda>n. \<not> bit w n" "[0..<64]"] lt show "bit w (countr_zero w)"
    by (simp add: countr_zero_def)
  show "\<not> bit w n" if "n < countr_zero w"
    using that lt set_takeWhileD [of _ "\<lambda>n. \<not> bit w n" "[0..<64]"] takeWhile_nth [of n "\<lambda>n. \<not> bit w n" "[0..<64]"]
    unfolding countr_zero_def by (metis add_0 length_upt nth_mem nth_upt order_less_trans diff_zero)
qed

text \<open>The positions of the bits of a word, from the lowest.\<close>

definition bits_of_word :: "64 word \<Rightarrow> nat list" where
  "bits_of_word w = filter (bit w) [0..<64]"

lemma bits_of_word_rec:
  "bits_of_word w = (if w = 0 then [] else countr_zero w # bits_of_word (w AND (w - 1)))"
proof (cases "w = 0")
  case False
  define z where "z = countr_zero w"
  have z: "bit w z" "\<And>n. n < z \<Longrightarrow> \<not> bit w n" "z < 64" using countr_zero_lowest [OF False] by (simp_all add: z_def)
  have "[0..<64] = [0..<z] @ z # [Suc z..<64]" using z(3) upt_conv_Cons [of z 64] upt_add_eq_append [of 0 z "64 - z"] by simp
  then have "bits_of_word w = z # filter (bit w) [Suc z..<64]" "bits_of_word (unset_bit z w) = filter (bit w) [Suc z..<64]"
    using z by (auto simp: bits_of_word_def bit_simps filter_empty_conv intro!: filter_cong)
  then show ?thesis using clear_lowest_bit [OF z(1,2)] False by (simp add: z_def)
qed (simp add: bits_of_word_def)

lemma find_rule_loop_eq:
  "find_rule_loop rules w cues = find (\<lambda>r. Matches r cues) (map ((!) rules) (bits_of_word w))"
proof (induction rules w cues rule: find_rule_loop.induct)
  case (1 rules w cues)
  then show ?case
    by (subst bits_of_word_rec, subst find_rule_loop.simps) (simp add: Let_def)
qed

lemma sum_rules_loop_eq:
  "sum_rules_loop rules w cues s =
     s + (\<Sum>r \<leftarrow> filter (\<lambda>r. Matches r cues) (map ((!) rules) (bits_of_word w)). br_cost r)"
proof (induction rules w cues s rule: sum_rules_loop.induct)
  case (1 rules w cues s)
  then show ?case
    by (subst bits_of_word_rec, subst sum_rules_loop.simps) (simp add: Let_def)
qed

lemma kind_int_less: "kind_int k < length all_bracket_kinds" "all_bracket_kinds ! kind_int k = k"
  using kind_int_nth by (cases k; simp add: kind_int_def all_bracket_kinds_def)+

definition index_dims :: "RuleIndex \<Rightarrow> bool" where
  "index_dims index \<longleftrightarrow> length index = NumContextCategories \<and>
     (\<forall>row \<in> set index. length row = length all_bracket_kinds)"

lemma add_rule_dims: "index_dims index \<Longrightarrow> index_dims (add_rule r rule index)"
  by (auto simp: index_dims_def add_rule_def dest: set_zip_rightD)

lemma add_rule_candidates:
  assumes "index_dims index" "t < NumContextCategories"
  shows "CandidateRules (add_rule r rule index) t k =
    (if t \<in> br_ctx rule \<and> k \<in> br_kinds rule then CandidateRules index t k OR push_bit r 1 else CandidateRules index t k)"
  using assms kind_int_less [of k] by (auto simp: add_rule_def CandidateRules_def index_dims_def)

lemma BuildRuleIndex_snoc:
  "BuildRuleIndex (rules @ [rule]) = add_rule (length rules) rule (BuildRuleIndex rules)"
  by (simp add: BuildRuleIndex_def)

lemma BuildRuleIndex_dims: "index_dims (BuildRuleIndex rules)"
proof (induction rules rule: rev_induct)
  case Nil
  show ?case by (simp add: BuildRuleIndex_def index_dims_def)
next
  case (snoc rule rules)
  then show ?case by (simp add: BuildRuleIndex_snoc add_rule_dims)
qed

lemma BuildRuleIndex_bit:
  assumes "t < NumContextCategories" "length rules \<le> 64"
  shows "bit (CandidateRules (BuildRuleIndex rules) t k) n \<longleftrightarrow>
    n < length rules \<and> t \<in> br_ctx (rules ! n) \<and> k \<in> br_kinds (rules ! n)"
  using assms(2)
proof (induction rules rule: rev_induct)
  case Nil
  show ?case using kind_int_less [of k] assms(1) by (simp add: BuildRuleIndex_def CandidateRules_def)
next
  case (snoc rule rules)
  then show ?case
    using add_rule_candidates [OF BuildRuleIndex_dims assms(1)]
    by (auto simp: BuildRuleIndex_snoc bit_simps nth_append less_Suc_eq)
qed

lemma candidate_rules:
  assumes "t < NumContextCategories" "length rules \<le> 64"
  shows "map ((!) rules) (bits_of_word (CandidateRules (BuildRuleIndex rules) t k)) =
    filter (\<lambda>r. t \<in> br_ctx r \<and> k \<in> br_kinds r) rules"
proof -
  have s: "[0..<64] = [0..<length rules] @ [length rules..<64]" using assms(2) upt_add_eq_append [of 0 "length rules" "64 - length rules"] by simp
  have "bits_of_word (CandidateRules (BuildRuleIndex rules) t k) =
      filter (\<lambda>n. t \<in> br_ctx (rules ! n) \<and> k \<in> br_kinds (rules ! n)) [0..<length rules]"
    unfolding bits_of_word_def s
    by (auto simp: BuildRuleIndex_bit [OF assms] filter_empty_conv intro!: filter_cong)
  also have "map ((!) rules) \<dots> = filter (\<lambda>r. t \<in> br_ctx r \<and> k \<in> br_kinds r) (map ((!) rules) [0..<length rules])"
    by (simp add: filter_map comp_def)
  finally show ?thesis by (simp add: map_nth)
qed

lemma find_filter: "find P (filter Q xs) = find (\<lambda>x. Q x \<and> P x) xs"
  by (induction xs) auto

lemma FindMatchingRule_eq:
  assumes "t < NumContextCategories" "length rules \<le> 64"
  shows "FindMatchingRule rules (BuildRuleIndex rules) t k cues = find (applies t k cues) rules"
  by (simp add: FindMatchingRule_def find_rule_loop_eq candidate_rules [OF assms] find_filter applies_def [abs_def])

lemma SumMatchingRules_eq:
  assumes "t < NumContextCategories" "length rules \<le> 64"
  shows "SumMatchingRules rules (BuildRuleIndex rules) t k cues = (\<Sum>r \<leftarrow> filter (applies t k cues) rules. br_cost r)"
  by (simp add: SumMatchingRules_def sum_rules_loop_eq candidate_rules [OF assms] applies_def [abs_def] conj_commute
      conj_left_commute)

lemma rule_counts: "length CloserRules \<le> 64" "length OpenerRules \<le> 64" "length AdvanceRules \<le> 64"
  by (simp_all add: CloserRules_def OpenerRules_def AdvanceRules_def)

text \<open>
  C19. The bit-mask index of the rules: for every category, kind and set of cues, the indexed lookup in the closer and opener tables finds
  the first rule of the table that applies, and the indexed sum over the advance table adds the costs of all that apply.
\<close>

theorem rule_index_equals_scan:
  assumes "t < NumContextCategories"
  shows "FindMatchingRule CloserRules CloserRuleIndex t k cues = find (applies t k cues) CloserRules \<and>
    FindMatchingRule OpenerRules OpenerRuleIndex t k cues = find (applies t k cues) OpenerRules \<and>
    SumMatchingRules AdvanceRules AdvanceRuleIndex t k cues = (\<Sum>r \<leftarrow> filter (applies t k cues) AdvanceRules. br_cost r)"
  using FindMatchingRule_eq [OF assms rule_counts(1)] FindMatchingRule_eq [OF assms rule_counts(2)]
    SumMatchingRules_eq [OF assms rule_counts(3)]
  by (simp add: CloserRuleIndex_def OpenerRuleIndex_def AdvanceRuleIndex_def)

theorem rule_index_equals_scan_witness:
  "4 < NumContextCategories \<and>
   SumMatchingRules AdvanceRules AdvanceRuleIndex 4 Semi_k {} = (\<Sum>r \<leftarrow> filter (applies 4 Semi_k {}) AdvanceRules. br_cost r)"
  using rule_index_equals_scan [of 4 Semi_k "{}"] by (simp add: NumContextCategories_def)

end
