(* ===== verification/Bracket_Analysis.thy ===== *)
theory Bracket_Analysis
  imports Bracket_Rules
begin

text \<open>
  The passes of \<open>FixMismatchedBrackets\<close> before the search (\<open>toolchain/lex/mismatched_brackets.cpp\<close>):
  indentation of statements, headers, a first pairing of brackets, statement segments, the pairs
  that can be trusted, the items the search runs over and the regions it is run on. The partner
  of a token is \<open>None\<close> for the code's \<open>-1\<close>; a loop that counts an index down to \<open>-1\<close> runs here
  on the index plus one.
\<close>

section \<open>Indentation of statements\<close>

fun branch_loop :: "MismatchedBracketToken list \<Rightarrow> nat \<Rightarrow> nat \<Rightarrow> nat option" where
  "branch_loop tokens 0 depth = None"
| "branch_loop tokens (Suc j) depth =
     (if mb_kind (tokens ! j) = CloseCurlyBrace_k then branch_loop tokens j (depth + 1)
      else if mb_kind (tokens ! j) = OpenCurlyBrace_k
      then (if depth = 0 then Some j else branch_loop tokens j (depth - 1))
      else branch_loop tokens j depth)"

definition FindBranchBrace :: "MismatchedBracketToken list \<Rightarrow> nat \<Rightarrow> nat option" where
  "FindBranchBrace tokens else_index = branch_loop tokens else_index 0"

lemma branch_loop_less: "branch_loop tokens j depth = Some b \<Longrightarrow> b < j"
  by (induction tokens j depth rule: branch_loop.induct) (auto split: if_splits)

text \<open>A closed group before \<open>p\<close> is skipped; \<open>None\<close> when it starts the input.\<close>

definition skip_group :: "MismatchedBracketToken list \<Rightarrow> nat option list \<Rightarrow> nat \<Rightarrow> nat option" where
  "skip_group tokens match_partner p =
     (if mb_kind (tokens ! p) = CloseParen_k \<or> mb_kind (tokens ! p) = CloseSquareBracket_k
      then case match_partner ! p of
             Some q \<Rightarrow> if q < p then (if q = 0 then None else Some (q - 1)) else Some p
           | None \<Rightarrow> Some p
      else Some p)"

lemma skip_group_le: "skip_group tokens match_partner p = Some q \<Longrightarrow> q \<le> p"
  by (auto simp: skip_group_def split: if_splits option.splits)

definition else_brace :: "MismatchedBracketToken list \<Rightarrow> nat \<Rightarrow> nat option" where
  "else_brace tokens j =
     (if mb_is_else_keyword (tokens ! j) \<and> mb_line (tokens ! j) \<noteq> mb_line (tokens ! (j - 1))
      then (case FindBranchBrace tokens j of Some brace \<Rightarrow> if 0 < brace then Some brace else None | None \<Rightarrow> None)
      else None)"

lemma else_brace_less: "else_brace tokens j = Some b \<Longrightarrow> b < j"
  by (auto simp: else_brace_def FindBranchBrace_def dest: branch_loop_less split: if_splits option.splits)

function outer_loop :: "MismatchedBracketToken list \<Rightarrow> nat option list \<Rightarrow> nat \<Rightarrow> nat \<Rightarrow> nat" where
  "outer_loop tokens match_partner j result_indent =
     (if j = 0 then result_indent
      else case else_brace tokens j of
        Some brace \<Rightarrow> outer_loop tokens match_partner brace (mb_line_indent (tokens ! brace))
      | None \<Rightarrow>
        (case skip_group tokens match_partner (j - 1) of
           None \<Rightarrow> result_indent
         | Some p \<Rightarrow>
             if mb_kind (tokens ! p) = StatementIntroducer_k
             then if mb_line (tokens ! j) = mb_line (tokens ! p) \<or> mb_line_indent (tokens ! j) \<le> mb_line_indent (tokens ! p)
                  then outer_loop tokens match_partner p (mb_line_indent (tokens ! p))
                  else mb_line_indent (tokens ! p)
             else result_indent))"
  by pat_completeness auto
termination
  by (relation "measure (\<lambda>(tokens, mp, j, r). j)") (auto dest: else_brace_less skip_group_le)

declare outer_loop.simps [simp del]

definition GetOuterStatementIntroducerIndent ::
    "MismatchedBracketToken list \<Rightarrow> nat option list \<Rightarrow> nat \<Rightarrow> nat" where
  "GetOuterStatementIntroducerIndent tokens match_partner j =
     outer_loop tokens match_partner j (mb_line_indent (tokens ! j))"

text \<open>
  \<open>walk_result\<close>: an entry \<open>None\<close> is \<open>NeedsCaller\<close>. The lambda \<open>continue_walk\<close> takes the next position
  plus one.
\<close>

definition continue_walk :: "nat option list \<Rightarrow> nat \<Rightarrow> nat \<Rightarrow> nat" where
  "continue_walk walk_result n indent =
     (if n = 0 then indent else case walk_result ! (n - 1) of Some r \<Rightarrow> r | None \<Rightarrow> indent)"

definition walk_entry ::
    "MismatchedBracketToken list \<Rightarrow> nat option list \<Rightarrow> nat option list \<Rightarrow> nat \<Rightarrow> nat option" where
  "walk_entry tokens match_partner walk_result j =
     (let kind = mb_kind (tokens ! j) in
      case (if IsClosingBracket kind
            then (case match_partner ! j of Some q \<Rightarrow> if q < j then Some q else None | None \<Rightarrow> None) else None) of
        Some open_index \<Rightarrow> Some (continue_walk walk_result open_index (mb_line_indent (tokens ! open_index)))
      | None \<Rightarrow>
        if kind = Semi_k \<or> kind = OpenCurlyBrace_k \<or> kind = CloseCurlyBrace_k then None
        else if kind = StatementIntroducer_k then Some (GetOuterStatementIntroducerIndent tokens match_partner j)
        else Some (continue_walk walk_result j (mb_line_indent (tokens ! j))))"

primrec walk_results :: "MismatchedBracketToken list \<Rightarrow> nat option list \<Rightarrow> nat \<Rightarrow> nat option list" where
  "walk_results tokens match_partner 0 = []"
| "walk_results tokens match_partner (Suc j) =
     (let w = walk_results tokens match_partner j in w @ [walk_entry tokens match_partner w j])"

definition ComputeAssociatedLineIndents ::
    "MismatchedBracketToken list \<Rightarrow> nat option list \<Rightarrow> nat list" where
  "ComputeAssociatedLineIndents tokens match_partner =
     (let w = walk_results tokens match_partner (length tokens) in
      map (\<lambda>i. if mb_kind (tokens ! i) = FileEnd_k then 0 else continue_walk w i (mb_line_indent (tokens ! i)))
        [0..<length tokens])"

section \<open>Statement headers\<close>

text \<open>The step of the scan at a statement introducer: whether the header ends before the token.\<close>

definition introducer_ends_header :: "MismatchedBracketToken list \<Rightarrow> nat \<Rightarrow> nat \<Rightarrow> bool" where
  "introducer_ends_header tokens token_index j =
     (if mb_kind (tokens ! token_index) = StatementIntroducer_k
      then if mb_line (tokens ! token_index) = mb_line (tokens ! j)
           then \<not> list_all (\<lambda>k. mb_kind (tokens ! k) = StatementIntroducer_k) [j + 1..<token_index]
           else \<not> mb_line_indent (tokens ! token_index) \<le> mb_line_indent (tokens ! j)
      else True)"

function follows_loop :: "MismatchedBracketToken list \<Rightarrow> nat option list \<Rightarrow> nat \<Rightarrow> nat \<Rightarrow> bool" where
  "follows_loop tokens match_partner token_index n =
     (if n = 0 then False
      else let j = n - 1; kind = mb_kind (tokens ! j) in
        case (if kind = CloseParen_k \<or> kind = CloseSquareBracket_k
              then (case match_partner ! j of Some q \<Rightarrow> if q < j then Some q else None | None \<Rightarrow> None) else None) of
          Some q \<Rightarrow> follows_loop tokens match_partner token_index q
        | None \<Rightarrow>
          if kind = Semi_k \<or> kind = OpenCurlyBrace_k \<or> kind = CloseCurlyBrace_k \<or> kind = OpenParen_k
             \<or> kind = OpenSquareBracket_k then False
          else if kind = StatementIntroducer_k then introducer_ends_header tokens token_index j
          else follows_loop tokens match_partner token_index j)"
  by pat_completeness auto
termination
  by (relation "measure (\<lambda>(tokens, mp, i, n). n)") (auto split: if_splits option.splits)

declare follows_loop.simps [simp del]

definition ComputeFollowsStatementHeader ::
    "MismatchedBracketToken list \<Rightarrow> nat option list \<Rightarrow> nat \<Rightarrow> bool" where
  "ComputeFollowsStatementHeader tokens match_partner token_index =
     (if token_index = 0 \<or> length tokens \<le> token_index then False
      else let curr_kind = mb_kind (tokens ! token_index); prev_kind = mb_kind (tokens ! (token_index - 1));
               is_first_on_line = mb_line (tokens ! token_index) \<noteq> mb_line (tokens ! (token_index - 1)) in
        if curr_kind = Semi_k \<or> curr_kind = OpenCurlyBrace_k \<or> IsClosingBracket curr_kind \<or> curr_kind = FileEnd_k
        then False
        else if \<not> is_first_on_line \<and> curr_kind \<noteq> StatementIntroducer_k \<and> prev_kind \<noteq> CloseParen_k then False
        else if IsStructuralOpKind curr_kind \<or> curr_kind = ComparisonOp_k \<or> curr_kind = Period_k then False
        else follows_loop tokens match_partner token_index token_index)"

function header_loop :: "MismatchedBracketToken list \<Rightarrow> nat option list \<Rightarrow> nat \<Rightarrow> bool" where
  "header_loop tokens match_partner j =
     (if length tokens \<le> j then False
      else let kind = mb_kind (tokens ! j) in
        if kind = OpenCurlyBrace_k then True
        else case (if kind = OpenParen_k \<or> kind = OpenSquareBracket_k
                   then (case match_partner ! j of Some q \<Rightarrow> if j < q then Some q else None | None \<Rightarrow> None) else None) of
          Some q \<Rightarrow> header_loop tokens match_partner (q + 1)
        | None \<Rightarrow>
          if kind = Semi_k \<or> kind = CloseCurlyBrace_k \<or> kind = FileEnd_k \<or> kind = StatementIntroducer_k then False
          else header_loop tokens match_partner (j + 1))"
  by pat_completeness auto
termination
  by (relation "measure (\<lambda>(tokens, mp, j). length tokens - j)") (auto split: if_splits option.splits)

declare header_loop.simps [simp del]

definition ComputeHeaderHasOpenCurlyBrace ::
    "MismatchedBracketToken list \<Rightarrow> nat option list \<Rightarrow> nat \<Rightarrow> bool" where
  "ComputeHeaderHasOpenCurlyBrace tokens match_partner token_index =
     (if token_index = 0 \<or> length tokens \<le> token_index then False
      else header_loop tokens match_partner token_index)"

section \<open>The first pairing of brackets\<close>

definition plausible_opener :: "MismatchedBracketToken \<Rightarrow> MismatchedBracketToken \<Rightarrow> bool" where
  "plausible_opener opener closer =
     (if mb_kind closer \<noteq> CloseCurlyBrace_k then mb_kind opener = MatchingOpeningKind (mb_kind closer)
      else mb_kind opener = OpenCurlyBrace_k \<and>
        (mb_line opener = mb_line closer \<or> mb_is_struct_brace opener \<or> mb_line_indent opener = mb_line_indent closer))"

fun opener_loop :: "MismatchedBracketToken list \<Rightarrow> nat list \<Rightarrow> MismatchedBracketToken \<Rightarrow> nat \<Rightarrow> nat option" where
  "opener_loop tokens open_stack closer 0 = None"
| "opener_loop tokens open_stack closer (Suc s) =
     (if plausible_opener (tokens ! (open_stack ! s)) closer then Some s else opener_loop tokens open_stack closer s)"

definition FindMatchingOpener :: "MismatchedBracketToken list \<Rightarrow> nat list \<Rightarrow> nat \<Rightarrow> nat option" where
  "FindMatchingOpener tokens open_stack closer_index =
     opener_loop tokens open_stack (tokens ! closer_index) (length open_stack)"

text \<open>One token of the walk; the back of the vector of open brackets is the end of the list.\<close>

definition match_step ::
    "MismatchedBracketToken list \<Rightarrow> nat \<Rightarrow> nat option list \<times> nat list \<Rightarrow> nat option list \<times> nat list" where
  "match_step tokens i st = (case st of (match_partner, open_stack) \<Rightarrow>
     let kind = mb_kind (tokens ! i) in
     if IsOpeningBracket kind then (match_partner, open_stack @ [i])
     else if IsClosingBracket kind
     then (case FindMatchingOpener tokens open_stack i of
             None \<Rightarrow> (match_partner, open_stack)
           | Some s \<Rightarrow> (match_partner[open_stack ! s := Some i, i := Some (open_stack ! s)], take s open_stack))
     else (match_partner, open_stack))"

definition MatchBracketPairs :: "MismatchedBracketToken list \<Rightarrow> nat option list" where
  "MatchBracketPairs tokens =
     fst (fold (match_step tokens) [0..<length tokens] (replicate (length tokens) None, []))"

section \<open>Segments and the analysis\<close>

record Segments =
  seg_id :: "nat list"
  seg_first :: "nat list"

definition segment_step :: "MismatchedBracketToken list \<Rightarrow> nat \<Rightarrow> Segments \<Rightarrow> Segments" where
  "segment_step tokens i segs =
     (let prev_kind = mb_kind (tokens ! (i - 1));
          new_seg = prev_kind = Semi_k \<or> prev_kind = OpenCurlyBrace_k \<or> prev_kind = CloseCurlyBrace_k
      in segs\<lparr>seg_id := (seg_id segs)[i := seg_id segs ! (i - 1) + (if new_seg then 1 else 0)],
              seg_first := (seg_first segs)[i := (if new_seg then i else seg_first segs ! (i - 1))]\<rparr>)"

definition ComputeSegments :: "MismatchedBracketToken list \<Rightarrow> Segments" where
  "ComputeSegments tokens =
     fold (segment_step tokens) [1..<length tokens]
       \<lparr>seg_id = replicate (length tokens) 0, seg_first = replicate (length tokens) 0\<rparr>"

record UnmatchedGroupBrackets =
  ug_open_parens :: "nat list"
  ug_open_squares :: "nat list"
  ug_close_parens :: "nat list"
  ug_close_squares :: "nat list"

definition OpenersOfKind :: "UnmatchedGroupBrackets \<Rightarrow> BracketTokenKind \<Rightarrow> nat list" where
  "OpenersOfKind u open_kind = (if open_kind = OpenParen_k then ug_open_parens u else ug_open_squares u)"

definition ClosersOfKind :: "UnmatchedGroupBrackets \<Rightarrow> BracketTokenKind \<Rightarrow> nat list" where
  "ClosersOfKind u open_kind = (if open_kind = OpenParen_k then ug_close_parens u else ug_close_squares u)"

definition unmatched_of :: "MismatchedBracketToken list \<Rightarrow> nat option list \<Rightarrow> BracketTokenKind \<Rightarrow> nat list" where
  "unmatched_of tokens match_partner kind =
     filter (\<lambda>i. match_partner ! i = None \<and> mb_kind (tokens ! i) = kind) [0..<length tokens]"

definition FindUnmatchedGroupBrackets ::
    "MismatchedBracketToken list \<Rightarrow> nat option list \<Rightarrow> UnmatchedGroupBrackets" where
  "FindUnmatchedGroupBrackets tokens match_partner =
     \<lparr>ug_open_parens = unmatched_of tokens match_partner OpenParen_k,
      ug_open_squares = unmatched_of tokens match_partner OpenSquareBracket_k,
      ug_close_parens = unmatched_of tokens match_partner CloseParen_k,
      ug_close_squares = unmatched_of tokens match_partner CloseSquareBracket_k\<rparr>"

record TokenAnalysis =
  ta_match_partner :: "nat option list"
  ta_segments :: Segments
  ta_unmatched :: UnmatchedGroupBrackets
  ta_effective_header_indent :: "nat list"
  ta_is_first_on_line :: "bool list"
  ta_follows_statement_header :: "bool list"
  ta_header_has_open_curly_brace :: "bool list"

definition AnalyzeTokens :: "MismatchedBracketToken list \<Rightarrow> TokenAnalysis" where
  "AnalyzeTokens tokens =
     (let match_partner = MatchBracketPairs tokens;
          follows = map (ComputeFollowsStatementHeader tokens match_partner) [0..<length tokens]
      in \<lparr>ta_match_partner = match_partner,
          ta_segments = ComputeSegments tokens,
          ta_unmatched = FindUnmatchedGroupBrackets tokens match_partner,
          ta_effective_header_indent = ComputeAssociatedLineIndents tokens match_partner,
          ta_is_first_on_line =
            map (\<lambda>i. i = 0 \<or> mb_line (tokens ! i) \<noteq> mb_line (tokens ! (i - 1))) [0..<length tokens],
          ta_follows_statement_header = follows,
          ta_header_has_open_curly_brace =
            map (\<lambda>i. follows ! i \<and> ComputeHeaderHasOpenCurlyBrace tokens match_partner i) [0..<length tokens]\<rparr>)"

section \<open>Pairs that can be trusted\<close>

text \<open>
  The first element at or after \<open>lo\<close> of a sorted list, as \<open>std::lower_bound\<close> finds it, and the first
  after a value, as \<open>std::upper_bound\<close> does.
\<close>

definition ContainsInRange :: "nat list \<Rightarrow> nat \<Rightarrow> int \<Rightarrow> bool" where
  "ContainsInRange xs lo hi = (case dropWhile (\<lambda>x. x < lo) xs of [] \<Rightarrow> False | x # _ \<Rightarrow> int x \<le> hi)"

fun separator_loop :: "BracketTokenKind \<Rightarrow> BracketTokenKind list \<Rightarrow> int \<Rightarrow> bool" where
  "separator_loop bad_kind [] depth = True"
| "separator_loop bad_kind (k # ks) depth =
     (if IsOpeningBracket k then separator_loop bad_kind ks (depth + 1)
      else if IsClosingBracket k then separator_loop bad_kind ks (depth - 1)
      else if k = bad_kind \<and> depth = 0 then False
      else separator_loop bad_kind ks depth)"

definition BracePairIsClean ::
    "MismatchedBracketToken list \<Rightarrow> TokenAnalysis \<Rightarrow> nat \<Rightarrow> nat \<Rightarrow> bool" where
  "BracePairIsClean tokens analysis open_idx close_idx =
     (let opener = tokens ! open_idx; closer = tokens ! close_idx;
          header_indent = ta_effective_header_indent analysis ! open_idx in
      if mb_line opener \<noteq> mb_line closer \<and>
         (\<not> mb_is_struct_brace opener \<and> (\<not> mb_is_at_end_of_line opener \<or> header_indent \<noteq> mb_line_indent closer)
          \<or> mb_is_struct_brace opener \<and> mb_line_indent closer < header_indent)
      then False
      else separator_loop (if mb_is_struct_brace opener then Semi_k else Comma_k)
             (map (\<lambda>j. mb_kind (tokens ! j)) [open_idx + 1..<close_idx]) 0)"

definition GroupPairIsClean ::
    "MismatchedBracketToken list \<Rightarrow> TokenAnalysis \<Rightarrow> nat \<Rightarrow> nat \<Rightarrow> bool" where
  "GroupPairIsClean tokens analysis open_idx close_idx =
     (let kind = mb_kind (tokens ! open_idx); segs = ta_segments analysis in
      if ContainsInRange (OpenersOfKind (ta_unmatched analysis) kind) (seg_first segs ! open_idx) (int open_idx - 1)
      then False
      else case dropWhile (\<lambda>x. x \<le> close_idx) (ClosersOfKind (ta_unmatched analysis) kind) of
             [] \<Rightarrow> True
           | c # _ \<Rightarrow> seg_id segs ! c \<noteq> seg_id segs ! close_idx)"

definition interior_ok ::
    "MismatchedBracketToken list \<Rightarrow> TokenAnalysis \<Rightarrow> bool list \<Rightarrow> nat \<Rightarrow> nat \<Rightarrow> nat \<Rightarrow> bool" where
  "interior_ok tokens analysis is_clean_range open_idx close_idx j =
     (let opener = tokens ! open_idx; token = tokens ! j in
      (case ta_match_partner analysis ! j of
         None \<Rightarrow> \<not> (IsOpeningBracket (mb_kind token) \<or> IsClosingBracket (mb_kind token))
       | Some partner \<Rightarrow> \<not> (partner < open_idx \<or> close_idx < partner)) \<and>
      \<not> (IsOpeningBracket (mb_kind token) \<and> \<not> is_clean_range ! j) \<and>
      \<not> (mb_kind opener = OpenCurlyBrace_k \<and> \<not> mb_is_struct_brace opener \<and> ta_is_first_on_line analysis ! j \<and>
         mb_line token \<noteq> mb_line (tokens ! close_idx) \<and>
         mb_line_indent token \<le> ta_effective_header_indent analysis ! open_idx))"

definition PairInteriorIsClean ::
    "MismatchedBracketToken list \<Rightarrow> TokenAnalysis \<Rightarrow> bool list \<Rightarrow> nat \<Rightarrow> nat \<Rightarrow> bool" where
  "PairInteriorIsClean tokens analysis is_clean_range open_idx close_idx =
     list_all (interior_ok tokens analysis is_clean_range open_idx close_idx) [open_idx + 1..<close_idx]"

definition mark_step :: "MismatchedBracketToken list \<Rightarrow> TokenAnalysis \<Rightarrow> nat \<Rightarrow> bool list \<Rightarrow> bool list" where
  "mark_step tokens analysis i is_clean_range =
     (case ta_match_partner analysis ! i of
        None \<Rightarrow> is_clean_range
      | Some close_idx \<Rightarrow>
          if close_idx \<le> i then is_clean_range
          else is_clean_range[i :=
            (if mb_kind (tokens ! i) = OpenCurlyBrace_k then BracePairIsClean tokens analysis i close_idx
             else GroupPairIsClean tokens analysis i close_idx)
            \<and> PairInteriorIsClean tokens analysis is_clean_range i close_idx])"

definition MarkCleanRanges :: "MismatchedBracketToken list \<Rightarrow> TokenAnalysis \<Rightarrow> bool list" where
  "MarkCleanRanges tokens analysis =
     fold (mark_step tokens analysis) (rev [0..<length tokens]) (replicate (length tokens) False)"

section \<open>Items and regions\<close>

definition make_item ::
    "MismatchedBracketToken list \<Rightarrow> TokenAnalysis \<Rightarrow> Item list \<Rightarrow> nat \<Rightarrow> nat \<Rightarrow> bool \<Rightarrow> bool \<Rightarrow> Item" where
  "make_item tokens analysis items start_index end_index collapsed has_scope =
     \<lparr>it_token_start_index = start_index, it_token_end_index = end_index, it_token = tokens ! start_index,
      it_effective_header_indent = ta_effective_header_indent analysis ! start_index,
      it_cues = ComputeItemCues (tokens ! start_index) (if 0 < start_index then Some (tokens ! (start_index - 1)) else None)
        (if items = [] then None else Some (last items))
        (CueIf collapsed CollapsedBlock \<union> CueIf has_scope ContainsScopeBrace
         \<union> CueIf (ta_is_first_on_line analysis ! start_index) FirstOnLine
         \<union> CueIf (ta_follows_statement_header analysis ! start_index) FollowsStatementHeader
         \<union> CueIf (ta_header_has_open_curly_brace analysis ! start_index) HeaderHasOpenCurly)\<rparr>"

text \<open>
  The loop of \<open>BuildItems\<close>. A clean range is only marked at an opener whose partner comes after it, so the
  test that it does is never false.
\<close>

function build_loop ::
    "MismatchedBracketToken list \<Rightarrow> TokenAnalysis \<Rightarrow> bool list \<Rightarrow> nat \<Rightarrow> Item list \<Rightarrow> Item list" where
  "build_loop tokens analysis is_clean_range i items =
     (if length tokens \<le> i then items
      else if \<not> is_clean_range ! i
      then build_loop tokens analysis is_clean_range (i + 1)
             (items @ [make_item tokens analysis items i i False
                (mb_kind (tokens ! i) = OpenCurlyBrace_k \<or> mb_kind (tokens ! i) = CloseCurlyBrace_k)])
      else case ta_match_partner analysis ! i of
             None \<Rightarrow> items
           | Some close_idx \<Rightarrow>
               if close_idx < i then items
               else build_loop tokens analysis is_clean_range (close_idx + 1)
                 (items @ [make_item tokens analysis items i close_idx True
                    (list_ex (\<lambda>j. mb_kind (tokens ! j) = OpenCurlyBrace_k \<and> \<not> mb_is_struct_brace (tokens ! j))
                       [i..<close_idx + 1])]))"
  by pat_completeness auto
termination
  by (relation "measure (\<lambda>(tokens, a, c, i, items). length tokens - i)") auto

declare build_loop.simps [simp del]

definition BuildItems :: "MismatchedBracketToken list \<Rightarrow> TokenAnalysis \<Rightarrow> bool list \<Rightarrow> Item list" where
  "BuildItems tokens analysis is_clean_range = build_loop tokens analysis is_clean_range 0 []"

definition starts_region :: "MismatchedBracketToken list \<Rightarrow> Item list \<Rightarrow> nat \<Rightarrow> bool" where
  "starts_region tokens items i =
     (let item = items ! i in
      if i = 0 \<or> HasAll item {CollapsedBlock} \<or> mb_kind (it_token item) \<noteq> StatementIntroducer_k \<or>
         mb_is_else_keyword (it_token item) \<or> 1 < mb_line_indent (it_token item) \<or> \<not> HasAll item {FirstOnLine}
      then False
      else let prev_end_kind = mb_kind (tokens ! it_token_end_index (items ! (i - 1))) in
        prev_end_kind = Semi_k \<or> prev_end_kind = CloseCurlyBrace_k)"

definition FindRegionBoundaries :: "MismatchedBracketToken list \<Rightarrow> Item list \<Rightarrow> nat list" where
  "FindRegionBoundaries tokens items =
     (let boundaries = fold (\<lambda>i bs. if starts_region tokens items i \<and> last bs \<noteq> i then bs @ [i] else bs)
            [0..<length items] [0]
      in if last boundaries \<noteq> length items then boundaries @ [length items] else boundaries)"

text \<open>The open kinds, innermost first; \<open>None\<close> when a closer does not match.\<close>

fun balance_loop :: "Item list \<Rightarrow> BracketTokenKind list \<Rightarrow> BracketTokenKind list option" where
  "balance_loop [] open_kinds = Some open_kinds"
| "balance_loop (item # items) open_kinds =
     (let kind = mb_kind (it_token item) in
      if HasAll item {CollapsedBlock} then balance_loop items open_kinds
      else if IsOpeningBracket kind then balance_loop items (kind # open_kinds)
      else if IsClosingBracket kind
      then (case open_kinds of
              [] \<Rightarrow> None
            | k # ks \<Rightarrow> if MatchingClosingKind k \<noteq> kind then None else balance_loop items ks)
      else balance_loop items open_kinds)"

definition RegionIsBalanced :: "Item list \<Rightarrow> bool" where
  "RegionIsBalanced region \<longleftrightarrow> balance_loop region [] = Some []"

end
