(* ===== verification/Bracket_Search.thy ===== *)
theory Bracket_Search
  imports Bracket_Analysis
begin

text \<open>
  The repair of one region and of the whole token stream
  (\<open>toolchain/lex/mismatched_brackets.cpp\<close>): the greedy fallback, the layered beam search over
  open-bracket stacks, the reconstruction of corrections from its nodes with the detection of
  ties, and \<open>FixMismatchedBrackets\<close>. The nodes a search reaches are a list that only grows; a layer
  names nodes by their index. Costs are unbounded integers. Two loops whose end depends on the shape of the data
  are partial functions, with \<open>None\<close> for a loop that does not end; theory \<open>Bracket_Fix\<close> shows
  that both always end.
\<close>

section \<open>Limits and corrections\<close>

definition MaxRegionItemsForSearch :: nat where "MaxRegionItemsForSearch = 1500"
definition MaxBeamWidth :: nat where "MaxBeamWidth = 16"
definition MaxSearchStackDepth :: nat where "MaxSearchStackDepth = 12"
definition MaxOptimalPaths :: nat where "MaxOptimalPaths = 100"

definition ReplaceWithError_fix ::
    "MismatchedBracketToken \<Rightarrow> BracketDiagnosticKind \<Rightarrow> string \<Rightarrow> BracketCorrection" where
  "ReplaceWithError_fix token diagnostic_kind rule_name =
     \<lparr>bc_diagnostic_kind = diagnostic_kind, bc_diagnostic_token_index = mb_token_index token,
      bc_fix_action = ReplaceWithError, bc_fix_token_index = mb_token_index token,
      bc_fix_token_kind = ToTokenKind (mb_kind token), bc_is_tied = False, bc_rule_name = rule_name\<rparr>"

section \<open>The greedy fallback\<close>

text \<open>The stack of open tokens has its back at the head of the list.\<close>

definition naive_step ::
    "Item \<Rightarrow> BracketCorrection list \<times> MismatchedBracketToken list \<Rightarrow> BracketCorrection list \<times> MismatchedBracketToken list" where
  "naive_step item st = (case st of (corrections, open_stack) \<Rightarrow>
     if HasAll item {CollapsedBlock} then (corrections, open_stack)
     else
       let token = it_token item; kind = mb_kind token;
           is_group = (\<lambda>t. mb_kind t = OpenParen_k \<or> mb_kind t = OpenSquareBracket_k);
           (corrections, open_stack) =
             (if kind = Semi_k \<or> kind = StatementIntroducer_k \<or> kind = OpenCurlyBrace_k \<or> kind = FileEnd_k
              then (corrections @ map (\<lambda>t. ReplaceWithError_fix t UnmatchedOpening_d ''Naive_UnclosedParenBracket'')
                      (takeWhile is_group open_stack),
                    dropWhile is_group open_stack)
              else (corrections, open_stack))
       in if IsOpeningBracket kind then (corrections, token # open_stack)
          else if IsClosingBracket kind
          then (case find_if (\<lambda>t. MatchingClosingKind (mb_kind t) = kind) (take 16 open_stack) of
                  None \<Rightarrow> (corrections @ [ReplaceWithError_fix token UnmatchedClosing_d ''Naive_UnmatchedClosing''], open_stack)
                | Some m \<Rightarrow> (corrections @ map (\<lambda>t. ReplaceWithError_fix t UnmatchedOpening_d ''Naive_PoppedOpener'')
                               (take m open_stack), drop (m + 1) open_stack))
          else (corrections, open_stack))"

definition SolveNaive :: "Item list \<Rightarrow> BracketCorrection list \<Rightarrow> BracketCorrection list" where
  "SolveNaive items corrections =
     (case fold naive_step items (corrections, []) of (corrections, open_stack) \<Rightarrow>
        corrections @ map (\<lambda>t. ReplaceWithError_fix t UnmatchedOpening_d ''Naive_UnclosedAtEnd'') open_stack)"

section \<open>Search states\<close>

text \<open>An edge without a correction has \<open>None\<close> for it.\<close>

record ParentEdge =
  pe_parent_node_index :: nat
  pe_correction :: "BracketCorrection option"

record BeamNode =
  bn_item_index :: nat
  bn_stack :: OpenStackId
  bn_cost :: int
  bn_closer_inserted :: BracketTokenKind
  bn_parent_edges :: "ParentEdge list"

record SearchState =
  ss_stack :: OpenStackId
  ss_cost :: int
  ss_closer_inserted :: BracketTokenKind

record StateKey =
  sk_stack :: OpenStackId
  sk_closer_inserted :: BracketTokenKind

definition Snapshot :: "BeamNode \<Rightarrow> SearchState" where
  "Snapshot node = \<lparr>ss_stack = bn_stack node, ss_cost = bn_cost node, ss_closer_inserted = bn_closer_inserted node\<rparr>"

definition EdgesEqual :: "ParentEdge \<Rightarrow> ParentEdge \<Rightarrow> bool" where
  "EdgesEqual a b \<longleftrightarrow> pe_parent_node_index a = pe_parent_node_index b \<and>
     (case (pe_correction a, pe_correction b) of
        (None, None) \<Rightarrow> True
      | (Some c, Some d) \<Rightarrow> bc_diagnostic_token_index c = bc_diagnostic_token_index d \<and>
          bc_fix_action c = bc_fix_action d \<and> bc_fix_token_index c = bc_fix_token_index d \<and>
          bc_fix_token_kind c = bc_fix_token_kind d
      | _ \<Rightarrow> False)"

definition OpenerSynthesizedHere :: "OpenStackStore \<Rightarrow> OpenStackId \<Rightarrow> Item \<Rightarrow> bool" where
  "OpenerSynthesizedHere stacks stack item \<longleftrightarrow> \<not> IsEmpty stack \<and> ob_is_synthetic (Top stacks stack) \<and>
     ob_insertion_token_index (Top stacks stack) = mb_token_index (it_token item)"

definition CloserFixesLeafAdjacency :: "BracketTokenKind \<Rightarrow> bool" where
  "CloserFixesLeafAdjacency closer_inserted \<longleftrightarrow>
     closer_inserted = CloseSquareBracket_k \<or> closer_inserted = CloseCurlyBrace_k"

definition ComputeAdvanceCues :: "OpenStackStore \<Rightarrow> SearchState \<Rightarrow> Item \<Rightarrow> CueSet" where
  "ComputeAdvanceCues stacks node item =
     (let opener_here = OpenerSynthesizedHere stacks (ss_stack node) item;
          closer_here = ss_closer_inserted node \<noteq> Other_k;
          cues = it_cues item \<union> CueIf closer_here CloserInserted
            \<union> CueIf (CloserFixesLeafAdjacency (ss_closer_inserted node)) CloserFixesAdjacency
            \<union> CueIf opener_here OpenerHere
            \<union> CueIf (closer_here \<or> opener_here) BracketInsertedHere
      in if IsEmpty (ss_stack node) then cues
         else let top_bracket = Top stacks (ss_stack node) in
           cues \<union> CueIf (ob_is_call_paren top_bracket) CallParenTop
             \<union> CueIf (ob_token_pos top_bracket = int (it_token_start_index item) - 1) AfterOpenTop
             \<union> CueIf (mb_line_indent (it_token item) \<le> ob_effective_header_indent top_bracket) DedentToHeader
             \<union> CueIf (mb_line_indent (it_token item) \<le> ob_line_indent top_bracket) DedentToOpenerLine)"

definition AdvancePenalty :: "OpenStackStore \<Rightarrow> SearchState \<Rightarrow> Item \<Rightarrow> int" where
  "AdvancePenalty stacks node item =
     SumMatchingRules AdvanceRules AdvanceRuleIndex (TopCategoryOfStack stacks (ss_stack node))
       (mb_kind (it_token item)) (ComputeAdvanceCues stacks node item)"

definition DirectMatchPreferred :: "OpenBracketInfo \<Rightarrow> Item \<Rightarrow> bool" where
  "DirectMatchPreferred top_bracket item =
     (let kind = mb_kind (it_token item);
          direct_match_ok = kind \<noteq> CloseCurlyBrace_k \<or> ob_is_struct_brace top_bracket \<or>
            mb_line (it_token item) = ob_line top_bracket \<or>
            ob_effective_header_indent top_bracket \<le> mb_line_indent (it_token item);
          spaced_suspicious = kind \<noteq> CloseCurlyBrace_k \<and> \<not> HasAll item {FirstOnLine} \<and>
            HasAll item {LeadingSpace, PrevValueLike}
      in direct_match_ok \<and> \<not> spaced_suspicious)"

definition SyntheticOpeners :: "(BracketTokenKind \<times> bool) list" where
  "SyntheticOpeners = [(OpenParen_k, False), (OpenSquareBracket_k, False), (OpenCurlyBrace_k, False), (OpenCurlyBrace_k, True)]"

definition RealOpener :: "Item \<Rightarrow> OpenBracketInfo" where
  "RealOpener item =
     \<lparr>ob_token_index = mb_token_index (it_token item), ob_insertion_token_index = -1,
      ob_token_pos = int (it_token_start_index item), ob_line = mb_line (it_token item),
      ob_line_indent = mb_line_indent (it_token item),
      ob_effective_header_indent = it_effective_header_indent item, ob_kind = mb_kind (it_token item),
      ob_is_synthetic = False, ob_is_struct_brace = mb_is_struct_brace (it_token item),
      ob_is_call_paren = HasAll item {PrevValueEnding}, ob_rule_name = []\<rparr>"

definition SyntheticOpener :: "Item \<Rightarrow> BracketTokenKind \<Rightarrow> bool \<Rightarrow> string \<Rightarrow> OpenBracketInfo" where
  "SyntheticOpener item open_kind is_struct_brace rule_name =
     \<lparr>ob_token_index = -1, ob_insertion_token_index = mb_token_index (it_token item), ob_token_pos = -1,
      ob_line = mb_line (it_token item), ob_line_indent = mb_line_indent (it_token item),
      ob_effective_header_indent = it_effective_header_indent item, ob_kind = open_kind, ob_is_synthetic = True,
      ob_is_struct_brace = is_struct_brace, ob_is_call_paren = False, ob_rule_name = rule_name\<rparr>"

definition MatchClosePenalty :: "OpenBracketInfo \<Rightarrow> Item \<Rightarrow> int option" where
  "MatchClosePenalty top_bracket item =
     (let token = it_token item in
      if mb_kind token \<noteq> CloseCurlyBrace_k \<or> ob_is_struct_brace top_bracket \<or> mb_line token = ob_line top_bracket
      then Some 0
      else if mb_line_indent token < ob_effective_header_indent top_bracket then None
      else if HasAll item {FirstOnLine} \<and> mb_line_indent token \<noteq> ob_effective_header_indent top_bracket
      then Some (CostBraceIndentMismatchBase + CostBraceIndentMismatchPerColumn *
                   \<bar>int (ob_effective_header_indent top_bracket) - int (mb_line_indent token)\<bar>)
      else Some 0)"

definition InsertOpenerCorrection :: "OpenBracketInfo \<Rightarrow> MismatchedBracketToken \<Rightarrow> BracketCorrection" where
  "InsertOpenerCorrection opener closer =
     \<lparr>bc_diagnostic_kind = UnmatchedClosing_d, bc_diagnostic_token_index = mb_token_index closer,
      bc_fix_action = InsertBefore, bc_fix_token_index = ob_insertion_token_index opener,
      bc_fix_token_kind = ToTokenKind (ob_kind opener), bc_is_tied = False, bc_rule_name = ob_rule_name opener\<rparr>"

definition InsertCloserCorrection :: "OpenBracketInfo \<Rightarrow> int \<Rightarrow> string \<Rightarrow> BracketCorrection" where
  "InsertCloserCorrection opener target rule_name =
     \<lparr>bc_diagnostic_kind = UnmatchedOpening_d, bc_diagnostic_token_index = ob_token_index opener,
      bc_fix_action = InsertBefore, bc_fix_token_index = target,
      bc_fix_token_kind = ToTokenKind (MatchingClosingKind (ob_kind opener)), bc_is_tied = False,
      bc_rule_name = rule_name\<rparr>"

definition CostToCloseAtEnd :: "OpenBracketInfo \<Rightarrow> int" where
  "CostToCloseAtEnd opener = (if ob_kind opener \<noteq> OpenCurlyBrace_k then CostCloseParenAtEnd
     else if ob_is_struct_brace opener then CostCloseStructAtEnd else CostCloseAtEnd)"

section \<open>The beam search\<close>

record RegionSearch =
  rs_nodes :: "BeamNode list"
  rs_min_goal_cost :: int
  rs_current_layer :: "nat list"
  rs_layer_dedup :: "StateKey \<Rightarrow> nat option"
  rs_stacks :: OpenStackStore

definition RegionSearch_init :: RegionSearch where
  "RegionSearch_init = \<lparr>rs_nodes = [], rs_min_goal_cost = 2 ^ 31 - 1, rs_current_layer = [],
     rs_layer_dedup = (\<lambda>_. None), rs_stacks = OpenStackStore_empty\<rparr>"

text \<open>Both return the worklist too; a caller that passes none drops it.\<close>

definition MergeIntoNode ::
    "nat \<Rightarrow> int \<Rightarrow> ParentEdge \<Rightarrow> nat list \<Rightarrow> RegionSearch \<Rightarrow> nat list \<times> RegionSearch" where
  "MergeIntoNode idx cost edge worklist rs =
     (let node = rs_nodes rs ! idx in
      if cost < bn_cost node
      then (worklist @ [idx],
            rs\<lparr>rs_nodes := (rs_nodes rs)[idx := node\<lparr>bn_cost := cost, bn_parent_edges := [edge]\<rparr>]\<rparr>)
      else if cost = bn_cost node \<and> \<not> list_ex (\<lambda>e. EdgesEqual e edge) (bn_parent_edges node)
      then (worklist, rs\<lparr>rs_nodes := (rs_nodes rs)[idx := node\<lparr>bn_parent_edges := bn_parent_edges node @ [edge]\<rparr>]\<rparr>)
      else (worklist, rs))"

definition AddToLayer ::
    "nat list \<Rightarrow> nat \<Rightarrow> OpenStackId \<Rightarrow> BracketTokenKind \<Rightarrow> int \<Rightarrow> ParentEdge \<Rightarrow> nat list \<Rightarrow> RegionSearch \<Rightarrow>
     nat list \<times> nat list \<times> RegionSearch" where
  "AddToLayer layer next_item_idx next_stack closer_inserted next_cost edge worklist rs =
     (if rs_min_goal_cost rs < next_cost then (layer, worklist, rs)
      else let key = \<lparr>sk_stack = next_stack, sk_closer_inserted = closer_inserted\<rparr> in
        case rs_layer_dedup rs key of
          Some existing \<Rightarrow> (layer, MergeIntoNode existing next_cost edge worklist rs)
        | None \<Rightarrow>
            let new_idx = length (rs_nodes rs) in
            (layer @ [new_idx], worklist @ [new_idx],
             rs\<lparr>rs_nodes := rs_nodes rs @ [\<lparr>bn_item_index = next_item_idx, bn_stack = next_stack, bn_cost = next_cost,
                   bn_closer_inserted = closer_inserted, bn_parent_edges = [edge]\<rparr>],
                rs_layer_dedup := (rs_layer_dedup rs)(key \<mapsto> new_idx)\<rparr>))"

definition PruneBeam :: "BeamNode list \<Rightarrow> nat list \<Rightarrow> nat list" where
  "PruneBeam nodes layer =
     (if MaxBeamWidth < length layer then take MaxBeamWidth (sort_key (\<lambda>a. bn_cost (nodes ! a)) layer) else layer)"

text \<open>One entry of the worklist of \<open>InsertSyntheticClosers\<close>.\<close>

definition closer_step :: "Item \<Rightarrow> nat \<Rightarrow> nat \<Rightarrow> nat list \<Rightarrow> RegionSearch \<Rightarrow> nat list \<times> RegionSearch" where
  "closer_step item item_idx node_idx worklist rs =
     (let current = Snapshot (rs_nodes rs ! node_idx); stacks = rs_stacks rs in
      if rs_min_goal_cost rs < ss_cost current \<or> IsEmpty (ss_stack current) then (worklist, rs)
      else let top_bracket = Top stacks (ss_stack current) in
        if ob_is_synthetic top_bracket then (worklist, rs)
        else if mb_kind (it_token item) = MatchingClosingKind (ob_kind top_bracket) \<and> DirectMatchPreferred top_bracket item
        then (worklist, rs)
        else case ClassifyCloserInsertion top_bracket item stacks (ss_stack current) of
          None \<Rightarrow> (worklist, rs)
        | Some (cost, rule_name) \<Rightarrow>
            (case AddToLayer (rs_current_layer rs) item_idx (Pop stacks (ss_stack current))
                (MatchingClosingKind (ob_kind top_bracket)) (ss_cost current + cost)
                \<lparr>pe_parent_node_index = node_idx,
                 pe_correction = Some (InsertCloserCorrection top_bracket (mb_token_index (it_token item)) rule_name)\<rparr>
                worklist rs
             of (layer, worklist, rs) \<Rightarrow> (worklist, rs\<lparr>rs_current_layer := layer\<rparr>)))"

partial_function (option) closers_loop :: "Item \<Rightarrow> nat \<Rightarrow> nat \<Rightarrow> nat list \<Rightarrow> RegionSearch \<Rightarrow> RegionSearch option" where
  "closers_loop item item_idx head worklist rs =
     (if length worklist \<le> head then Some rs
      else case closer_step item item_idx (worklist ! head) worklist rs of
             (worklist, rs) \<Rightarrow> closers_loop item item_idx (head + 1) worklist rs)"

declare closers_loop.simps [code]

definition InsertSyntheticClosers :: "Item list \<Rightarrow> nat \<Rightarrow> RegionSearch \<Rightarrow> RegionSearch option" where
  "InsertSyntheticClosers items item_idx rs =
     closers_loop (items ! item_idx) item_idx 0 (rs_current_layer rs) rs"

definition opener_step ::
    "Item \<Rightarrow> nat \<Rightarrow> nat \<Rightarrow> SearchState \<Rightarrow> BracketTokenKind \<times> bool \<Rightarrow> RegionSearch \<Rightarrow> RegionSearch" where
  "opener_step item item_idx node_idx current flavor rs = (case flavor of (open_kind, is_struct_brace) \<Rightarrow>
     case ClassifyOpenerInsertion open_kind is_struct_brace item of
       None \<Rightarrow> rs
     | Some (cost, rule_name) \<Rightarrow>
         (case Push (rs_stacks rs) (ss_stack current) (SyntheticOpener item open_kind is_struct_brace rule_name) of
            (next_stack, stacks) \<Rightarrow>
              (case AddToLayer (rs_current_layer rs) item_idx next_stack (ss_closer_inserted current) (ss_cost current + cost)
                  \<lparr>pe_parent_node_index = node_idx, pe_correction = None\<rparr> [] (rs\<lparr>rs_stacks := stacks\<rparr>)
               of (layer, _, rs) \<Rightarrow> rs\<lparr>rs_current_layer := layer\<rparr>)))"

definition openers_of_node :: "Item \<Rightarrow> nat \<Rightarrow> nat \<Rightarrow> RegionSearch \<Rightarrow> RegionSearch" where
  "openers_of_node item item_idx idx rs =
     (let node_idx = rs_current_layer rs ! idx; current = Snapshot (rs_nodes rs ! node_idx) in
      if rs_min_goal_cost rs < ss_cost current \<or> MaxSearchStackDepth \<le> Depth (rs_stacks rs) (ss_stack current) then rs
      else fold (opener_step item item_idx node_idx current) SyntheticOpeners rs)"

definition InsertSyntheticOpeners :: "Item list \<Rightarrow> nat \<Rightarrow> RegionSearch \<Rightarrow> RegionSearch" where
  "InsertSyntheticOpeners items item_idx rs =
     fold (openers_of_node (items ! item_idx) item_idx) [0..<length (rs_current_layer rs)] rs"

definition seed_dedup :: "RegionSearch \<Rightarrow> RegionSearch" where
  "seed_dedup rs = fold (\<lambda>idx rs.
     let node = rs_nodes rs ! idx; key = \<lparr>sk_stack = bn_stack node, sk_closer_inserted = bn_closer_inserted node\<rparr> in
     case rs_layer_dedup rs key of
       Some _ \<Rightarrow> rs
     | None \<Rightarrow> rs\<lparr>rs_layer_dedup := (rs_layer_dedup rs)(key \<mapsto> idx)\<rparr>) (rs_current_layer rs) rs"

definition InsertBracketsBefore :: "Item list \<Rightarrow> nat \<Rightarrow> RegionSearch \<Rightarrow> RegionSearch option" where
  "InsertBracketsBefore items item_idx rs =
     map_option (\<lambda>rs.
       let rs = (InsertSyntheticOpeners items item_idx rs)\<lparr>rs_layer_dedup := (\<lambda>_. None)\<rparr>
       in rs\<lparr>rs_current_layer := PruneBeam (rs_nodes rs) (rs_current_layer rs)\<rparr>)
       (InsertSyntheticClosers items item_idx (seed_dedup rs))"

text \<open>The lambda \<open>advance\<close> of \<open>AdvanceNode\<close>.\<close>

definition advance ::
    "nat \<Rightarrow> nat \<Rightarrow> SearchState \<Rightarrow> OpenStackId \<Rightarrow> int \<Rightarrow> BracketCorrection option \<Rightarrow>
     nat list \<times> RegionSearch \<Rightarrow> nat list \<times> RegionSearch" where
  "advance node_idx item_idx current next_stack add_cost correction st = (case st of (next_layer, rs) \<Rightarrow>
     case AddToLayer next_layer (item_idx + 1) next_stack Other_k (ss_cost current + add_cost)
         \<lparr>pe_parent_node_index = node_idx, pe_correction = correction\<rparr> [] rs
     of (next_layer, _, rs) \<Rightarrow> (next_layer, rs))"

definition AdvanceNode :: "Item list \<Rightarrow> nat \<Rightarrow> nat \<Rightarrow> nat list \<times> RegionSearch \<Rightarrow> nat list \<times> RegionSearch" where
  "AdvanceNode items item_idx node_idx st = (case st of (next_layer, rs) \<Rightarrow>
     let current = Snapshot (rs_nodes rs ! node_idx) in
     if rs_min_goal_cost rs < ss_cost current then (next_layer, rs)
     else
       let item = items ! item_idx; kind = mb_kind (it_token item); stack = ss_stack current;
           penalty = AdvancePenalty (rs_stacks rs) current item
       in if HasAll item {CollapsedBlock} then advance node_idx item_idx current stack penalty None (next_layer, rs)
          else if IsOpeningBracket kind
          then advance node_idx item_idx current stack CostReplaceOpening
                 (Some (ReplaceWithError_fix (it_token item) UnmatchedOpening_d ''Adv_ReplaceOpener''))
                 (if Depth (rs_stacks rs) stack < MaxSearchStackDepth
                  then (case Push (rs_stacks rs) stack (RealOpener item) of (next_stack, stacks) \<Rightarrow>
                          advance node_idx item_idx current next_stack penalty None (next_layer, rs\<lparr>rs_stacks := stacks\<rparr>))
                  else (next_layer, rs))
          else if IsClosingBracket kind
          then advance node_idx item_idx current stack CostReplaceClosing
                 (Some (ReplaceWithError_fix (it_token item) UnmatchedClosing_d ''Adv_ReplaceCloser''))
                 (if \<not> IsEmpty stack \<and> ob_kind (Top (rs_stacks rs) stack) = MatchingOpeningKind kind
                  then (let popped = Top (rs_stacks rs) stack in
                        case MatchClosePenalty popped item of
                          None \<Rightarrow> (next_layer, rs)
                        | Some match_cost \<Rightarrow>
                            advance node_idx item_idx current (Pop (rs_stacks rs) stack) (penalty + match_cost)
                              (if ob_is_synthetic popped then Some (InsertOpenerCorrection popped (it_token item)) else None)
                              (next_layer, rs))
                  else (next_layer, rs))
          else advance node_idx item_idx current stack penalty None (next_layer, rs))"

definition AdvanceOverItem :: "Item list \<Rightarrow> nat \<Rightarrow> RegionSearch \<Rightarrow> nat list \<times> RegionSearch" where
  "AdvanceOverItem items item_idx rs =
     (case fold (AdvanceNode items item_idx) (rs_current_layer rs) ([], rs) of (next_layer, rs) \<Rightarrow>
        (PruneBeam (rs_nodes rs) next_layer, rs\<lparr>rs_layer_dedup := (\<lambda>_. None)\<rparr>))"

text \<open>The stacks from a stack down to the empty one, which has as many steps as the stack is deep.\<close>

primrec stacks_below :: "OpenStackStore \<Rightarrow> nat \<Rightarrow> OpenStackId \<Rightarrow> OpenStackId list" where
  "stacks_below stacks 0 stack = []"
| "stacks_below stacks (Suc n) stack =
     (if IsEmpty stack then [] else stack # stacks_below stacks n (Pop stacks stack))"

definition end_closer ::
    "Item list \<Rightarrow> int \<Rightarrow> OpenStackStore \<Rightarrow> OpenStackId \<Rightarrow> int \<times> nat \<times> BeamNode list \<Rightarrow> int \<times> nat \<times> BeamNode list" where
  "end_closer items region_end_token stacks open_stack st = (case st of (finish_cost, parent, nodes) \<Rightarrow>
     let opener = Top stacks open_stack; finish_cost = finish_cost + CostToCloseAtEnd opener in
     (finish_cost, length nodes,
      nodes @ [\<lparr>bn_item_index = length items, bn_stack = None, bn_cost = finish_cost, bn_closer_inserted = Other_k,
        bn_parent_edges = [\<lparr>pe_parent_node_index = parent,
          pe_correction = Some (InsertCloserCorrection opener region_end_token ''Close_RegionEnd'')\<rparr>]\<rparr>]))"

definition close_node ::
    "Item list \<Rightarrow> int \<Rightarrow> nat \<Rightarrow> nat list \<times> RegionSearch \<Rightarrow> nat list \<times> RegionSearch" where
  "close_node items region_end_token node_idx st = (case st of (goals, rs) \<Rightarrow>
     let current = Snapshot (rs_nodes rs ! node_idx); stacks = rs_stacks rs in
     if rs_min_goal_cost rs < ss_cost current \<or> HasSynthetic stacks (ss_stack current) then (goals, rs)
     else case fold (end_closer items region_end_token stacks)
              (stacks_below stacks (Depth stacks (ss_stack current)) (ss_stack current)) (ss_cost current, node_idx, rs_nodes rs) of
       (finish_cost, parent, nodes) \<Rightarrow>
         let rs = rs\<lparr>rs_nodes := nodes\<rparr>;
             (goals, rs) = (if finish_cost < rs_min_goal_cost rs then ([], rs\<lparr>rs_min_goal_cost := finish_cost\<rparr>) else (goals, rs))
         in (if finish_cost = rs_min_goal_cost rs then goals @ [parent] else goals, rs))"

definition CloseAtRegionEnd :: "Item list \<Rightarrow> int \<Rightarrow> RegionSearch \<Rightarrow> nat list \<times> RegionSearch" where
  "CloseAtRegionEnd items region_end_token rs =
     fold (close_node items region_end_token) (rs_current_layer rs) ([], rs)"

section \<open>Corrections from the nodes\<close>

text \<open>
  The stack of frames has its back at the head. The path so far is kept from its back, which is the
  order the code reverses it to.
\<close>

partial_function (option) paths_loop ::
    "BeamNode list \<Rightarrow> (nat \<times> nat) list \<Rightarrow> BracketCorrection list \<Rightarrow> BracketCorrection list list \<Rightarrow>
     BracketCorrection list list option" where
  "paths_loop nodes stack current_path all_paths =
     (case stack of
        [] \<Rightarrow> Some all_paths
      | (node_index, edge_index) # rest \<Rightarrow>
          let node = nodes ! node_index in
          if bn_parent_edges node = []
          then let all_paths = all_paths @ [current_path] in
               if MaxOptimalPaths \<le> length all_paths then Some all_paths
               else paths_loop nodes rest current_path all_paths
          else
            let current_path =
                  (if 0 < edge_index \<and> pe_correction (bn_parent_edges node ! (edge_index - 1)) \<noteq> None
                   then tl current_path else current_path)
            in if edge_index < length (bn_parent_edges node)
               then let edge = bn_parent_edges node ! edge_index in
                 paths_loop nodes ((pe_parent_node_index edge, 0) # (node_index, edge_index + 1) # rest)
                   (case pe_correction edge of Some c \<Rightarrow> c # current_path | None \<Rightarrow> current_path) all_paths
               else paths_loop nodes rest current_path all_paths)"

declare paths_loop.simps [code]

definition EnumerateOptimalPaths :: "BeamNode list \<Rightarrow> nat list \<Rightarrow> BracketCorrection list list option" where
  "EnumerateOptimalPaths nodes goal_node_indices = paths_loop nodes (map (\<lambda>g. (g, 0)) (rev goal_node_indices)) [] []"

record key_counts =
  kc_ids :: "64 word \<Rightarrow> nat option"
  kc_key_id :: "nat list"
  kc_rank :: "nat list"
  kc_count :: "nat list"

definition count_key :: "(BracketCorrection \<Rightarrow> 64 word) \<Rightarrow> BracketCorrection \<Rightarrow> key_counts \<Rightarrow> key_counts" where
  "count_key repair_key corr kc =
     (let key = repair_key corr;
          (key_id, ids, counts) = (case kc_ids kc key of
              Some i \<Rightarrow> (i, kc_ids kc, kc_count kc)
            | None \<Rightarrow> (length (kc_count kc), (kc_ids kc)(key \<mapsto> length (kc_count kc)), kc_count kc @ [0]));
          counts = counts[key_id := counts ! key_id + 1]
      in \<lparr>kc_ids = ids, kc_key_id = kc_key_id kc @ [key_id], kc_rank = kc_rank kc @ [counts ! key_id], kc_count = counts\<rparr>)"

definition path_counts ::
    "(BracketCorrection \<Rightarrow> 64 word) \<Rightarrow> (64 word \<Rightarrow> nat option) \<Rightarrow> nat \<Rightarrow> BracketCorrection list \<Rightarrow> nat list" where
  "path_counts repair_key ids n path =
     fold (\<lambda>corr counts. case ids (repair_key corr) of Some i \<Rightarrow> counts[i := counts ! i + 1] | None \<Rightarrow> counts)
       path (replicate n 0)"

definition FindTiedCorrections ::
    "BracketCorrection list list \<Rightarrow> (BracketCorrection \<Rightarrow> 64 word) \<Rightarrow> bool list" where
  "FindTiedCorrections all_paths repair_key =
     (let kc = fold (count_key repair_key) (hd all_paths) \<lparr>kc_ids = (\<lambda>_. None), kc_key_id = [], kc_rank = [], kc_count = []\<rparr>;
          min_count = fold (\<lambda>path mins. map2 min mins (path_counts repair_key (kc_ids kc) (length (kc_count kc)) path))
            (tl all_paths) (kc_count kc)
      in map2 (\<lambda>key_id rank. min_count ! key_id < rank) (kc_key_id kc) (kc_rank kc))"

definition run_starts :: "Item list \<Rightarrow> nat list" where
  "run_starts items =
     fold (\<lambda>idx rs.
       let continues_run = 0 < idx \<and> \<not> HasAll (items ! idx) {CollapsedBlock} \<and> \<not> HasAll (items ! (idx - 1)) {CollapsedBlock} \<and>
             mb_kind (it_token (items ! (idx - 1))) = mb_kind (it_token (items ! idx))
       in rs @ [if continues_run then rs ! (idx - 1) else idx]) [0..<length items] []"

definition token_to_item :: "Item list \<Rightarrow> int \<Rightarrow> int \<Rightarrow> nat option" where
  "token_to_item items region_end_token =
     (fold (\<lambda>(idx, item) m. m(mb_token_index (it_token item) \<mapsto> idx)) (zip [0..<length items] items) (\<lambda>_. None))
       (region_end_token \<mapsto> length items)"

definition all_token_kinds :: "TokenKind list" where
  "all_token_kinds = [Error] @ map Symbol SymbolTokens @ map Keyword KeywordTokens @
     [Identifier, IntLiteral, RealLiteral, StringLiteral, CharLiteral, IntTypeLiteral, UnsignedIntTypeLiteral,
      FloatTypeLiteral, DollarIntLiteral, FileStart, FileEnd]"

definition TokenKind_AsInt :: "TokenKind \<Rightarrow> nat" where
  "TokenKind_AsInt kind = length (takeWhile (\<lambda>k. k \<noteq> kind) all_token_kinds)"

definition fix_action_int :: "BracketFixAction \<Rightarrow> nat" where
  "fix_action_int a = (case a of InsertBefore \<Rightarrow> 0 | InsertAfter \<Rightarrow> 1 | ReplaceWithError \<Rightarrow> 2)"

definition repair_key :: "Item list \<Rightarrow> int \<Rightarrow> BracketCorrection \<Rightarrow> 64 word" where
  "repair_key items region_end_token c =
     (let (position_is_item, position) =
            (case (if bc_fix_action c = InsertBefore then token_to_item items region_end_token (bc_fix_token_index c) else None) of
               None \<Rightarrow> (False, bc_fix_token_index c)
             | Some position \<Rightarrow>
                 (True, int (if 0 < position \<and> \<not> HasAll (items ! (position - 1)) {CollapsedBlock} \<and>
                              ToTokenKind (mb_kind (it_token (items ! (position - 1)))) = bc_fix_token_kind c
                           then run_starts items ! (position - 1) else position)))
      in push_bit 40 (word_of_nat (fix_action_int (bc_fix_action c))) OR
         push_bit 33 (word_of_nat (TokenKind_AsInt (bc_fix_token_kind c))) OR
         push_bit 32 (of_bool position_is_item) OR
         ucast (word_of_int position :: 32 word))"

definition ReconstructCorrections ::
    "BeamNode list \<Rightarrow> nat list \<Rightarrow> Item list \<Rightarrow> int \<Rightarrow> BracketCorrection list \<Rightarrow> BracketCorrection list option" where
  "ReconstructCorrections nodes goal_node_indices items region_end_token corrections =
     map_option (\<lambda>all_paths.
       if all_paths = [] then SolveNaive items corrections
       else corrections @ map2 (\<lambda>corr tied. corr\<lparr>bc_is_tied := tied\<rparr>) (hd all_paths)
              (FindTiedCorrections all_paths (repair_key items region_end_token)))
       (EnumerateOptimalPaths nodes goal_node_indices)"

section \<open>Solving a region and the whole input\<close>

definition search_item :: "Item list \<Rightarrow> nat \<Rightarrow> RegionSearch option \<Rightarrow> RegionSearch option" where
  "search_item items i rs =
     map_option (\<lambda>rs. case AdvanceOverItem items i rs of (layer, rs) \<Rightarrow> rs\<lparr>rs_current_layer := layer\<rparr>)
       (if mb_kind (it_token (items ! i)) \<noteq> FileEnd_k
        then (case rs of None \<Rightarrow> None | Some rs \<Rightarrow> InsertBracketsBefore items i rs) else rs)"

definition search_layers :: "Item list \<Rightarrow> RegionSearch option" where
  "search_layers items =
     fold (search_item items) [0..<length items]
       (Some (RegionSearch_init\<lparr>rs_nodes := [\<lparr>bn_item_index = 0, bn_stack = None, bn_cost = 0,
           bn_closer_inserted = Other_k, bn_parent_edges = []\<rparr>], rs_current_layer := [0]\<rparr>))"

definition RegionSearch_Solve ::
    "Item list \<Rightarrow> int \<Rightarrow> BracketCorrection list \<Rightarrow> BracketCorrection list option" where
  "RegionSearch_Solve items region_end_token corrections =
     (case search_layers items of
        None \<Rightarrow> None
      | Some rs \<Rightarrow>
          (case CloseAtRegionEnd items region_end_token rs of (goals, rs) \<Rightarrow>
             if goals = [] then Some (SolveNaive items corrections)
             else ReconstructCorrections (rs_nodes rs) goals items region_end_token corrections))"

definition SolveRegionCostBased ::
    "Item list \<Rightarrow> int \<Rightarrow> BracketCorrection list \<Rightarrow> BracketCorrection list option" where
  "SolveRegionCostBased items region_end_token corrections =
     (if MaxRegionItemsForSearch < length items then Some (SolveNaive items corrections)
      else RegionSearch_Solve items region_end_token corrections)"

text \<open>The order of the final sort: by diagnosed token, then by fixed token.\<close>

definition sort_corrections :: "BracketCorrection list \<Rightarrow> BracketCorrection list" where
  "sort_corrections cs = sort_key (\<lambda>c. bc_diagnostic_token_index c) (sort_key (\<lambda>c. bc_fix_token_index c) cs)"

definition solve_region ::
    "MismatchedBracketToken list \<Rightarrow> Item list \<Rightarrow> nat \<times> nat \<Rightarrow> BracketCorrection list option \<Rightarrow> BracketCorrection list option" where
  "solve_region tokens items bounds corrections = (case bounds of (start_index, end_index) \<Rightarrow>
     if end_index \<le> start_index then corrections
     else let region = take (end_index - start_index) (drop start_index items) in
       if RegionIsBalanced region then corrections
       else let region_end_token = (if end_index < length items then mb_token_index (it_token (items ! end_index))
                                    else mb_token_index (last tokens))
         in (case corrections of None \<Rightarrow> None | Some cs \<Rightarrow> SolveRegionCostBased region region_end_token cs))"

definition FixMismatchedBrackets :: "MismatchedBracketToken list \<Rightarrow> BracketCorrection list option" where
  "FixMismatchedBrackets tokens =
     (if tokens = [] then Some []
      else let analysis = AnalyzeTokens tokens;
               is_clean_range = MarkCleanRanges tokens analysis;
               items = BuildItems tokens analysis is_clean_range;
               boundaries = FindRegionBoundaries tokens items
           in map_option sort_corrections
                (fold (solve_region tokens items) (zip boundaries (tl boundaries)) (Some [])))"

end
