(* ===== verification/Bracket_Paths.thy ===== *)
theory Bracket_Paths
  imports Bracket_Search "HOL-Library.Product_Lexorder" "HOL-Library.Multiset"
begin

text \<open>
  What a repair of a region is, apart from how it is searched for: a path over the items that keeps a
  stack of open brackets, inserts brackets in front of items, and keeps or gives up each bracket it
  passes. A path leaves behind the brackets of the repaired stream, each with the place it goes to
  and the pair it belongs to; scanning them pairs each closer with the opener it was
  made for. The corrections of the path describe exactly those brackets, and leaving out a pair
  leaves the rest balanced, which is what is done with corrections that are tied.
\<close>

section \<open>Events\<close>

text \<open>
  The place of a bracket: the token it stands at, then whether it is a closer inserted before the token, an
  opener inserted there or the token itself, then the order of closers. A pair is named by its
  opener: a token of the input, or an insertion.
\<close>

type_synonym place = "int \<times> nat \<times> int"

datatype pair_id = Opened int | Inserted int

type_synonym event = "place \<times> pair_id \<times> BracketTokenKind"

fun scan_events :: "event list \<Rightarrow> (pair_id \<times> BracketTokenKind) list \<Rightarrow> (pair_id \<times> BracketTokenKind) list option" where
  "scan_events [] s = Some s"
| "scan_events ((place, b, k) # es) s =
     (if IsOpeningBracket k then scan_events es ((b, k) # s)
      else (case s of [] \<Rightarrow> None
            | (b', k') # s' \<Rightarrow> if b' = b \<and> IsClosingBracket k \<and> MatchingClosingKind k' = k then scan_events es s' else None))"

lemma scan_events_append: "scan_events (xs @ ys) s = (case scan_events xs s of None \<Rightarrow> None | Some t \<Rightarrow> scan_events ys t)"
  by (induction xs s rule: scan_events.induct) (auto split: list.splits)

lemma scan_events_filter:
  "scan_events es s = Some t \<Longrightarrow>
   scan_events (filter (\<lambda>e. P (fst (snd e))) es) (filter (\<lambda>x. P (fst x)) s) = Some (filter (\<lambda>x. P (fst x)) t)"
  by (induction es s rule: scan_events.induct) (auto split: list.splits if_splits)

lemma closing_symbol_ToTokenKind:
  "IsClosingBracket k \<Longrightarrow> MatchingClosingKind k' = k \<Longrightarrow> closing_symbol (ToTokenKind k') = Ret (ToTokenKind k)"
  by (cases k') (auto simp: IsClosingBracket_def closing_symbol_def ClosingSymbol_def carbon_check_def)

lemma scan_events_open_after:
  "scan_events es s = Some t \<Longrightarrow>
   open_after (map (\<lambda>e. ToTokenKind (snd (snd e))) es) (map (\<lambda>x. ToTokenKind (snd x)) s) =
     Some (map (\<lambda>x. ToTokenKind (snd x)) t)"
proof (induction es s rule: scan_events.induct)
  case (2 place b k es s)
  show ?case
  proof (cases "IsOpeningBracket k")
    case True
    with 2 show ?thesis by (simp add: ToTokenKind_bracket)
  next
    case False
    with 2 show ?thesis
      by (auto simp: ToTokenKind_bracket closing_symbol_ToTokenKind split: list.splits if_splits)
  qed
qed simp

definition opens_of :: "event list \<Rightarrow> pair_id list" where
  "opens_of es = map (\<lambda>e. fst (snd e)) (filter (\<lambda>e. IsOpeningBracket (snd (snd e))) es)"

definition closes_of :: "event list \<Rightarrow> pair_id list" where
  "closes_of es = map (\<lambda>e. fst (snd e)) (filter (\<lambda>e. \<not> IsOpeningBracket (snd (snd e))) es)"

lemma scan_events_pairs:
  "scan_events es s = Some t \<Longrightarrow> mset (closes_of es) + mset (map fst t) = mset (map fst s) + mset (opens_of es)"
  by (induction es s rule: scan_events.induct) (auto simp: closes_of_def opens_of_def split: list.splits if_splits)

lemma scan_events_pair_unique:
  assumes "scan_events es [] = Some t" "distinct (opens_of es)"
  shows "distinct (closes_of es)" "set (closes_of es) \<subseteq> set (opens_of es)" "fst ` set t \<subseteq> set (opens_of es)"
    "set (closes_of es) \<inter> fst ` set t = {}"
proof -
  have m: "mset (closes_of es @ map fst t) = mset (opens_of es)" using scan_events_pairs [OF assms(1)] by simp
  then have d: "distinct (closes_of es @ map fst t)" using assms(2) mset_eq_imp_distinct_iff by blast
  from mset_eq_setD [OF m] d
  show "distinct (closes_of es)" "set (closes_of es) \<subseteq> set (opens_of es)" "fst ` set t \<subseteq> set (opens_of es)"
    "set (closes_of es) \<inter> fst ` set t = {}"
    by auto
qed

lemma distinct_map_filter_unique:
  assumes "distinct (map f (filter P xs))" "x \<in> set xs" "y \<in> set xs" "P x" "P y" "f x = f y"
  shows "x = y"
  using assms by (auto simp: distinct_map dest!: inj_onD [of _ _ x y])

lemma closes_unique:
  assumes "scan_events es [] = Some t" "distinct (opens_of es)" "e \<in> set es" "e' \<in> set es"
    "\<not> IsOpeningBracket (snd (snd e))" "\<not> IsOpeningBracket (snd (snd e'))" "fst (snd e) = fst (snd e')"
  shows "e = e'"
  using distinct_map_filter_unique [OF scan_events_pair_unique(1) [OF assms(1,2), unfolded closes_of_def] assms(3,4)] assms(5-7) by simp

section \<open>Lists in strict order\<close>

lemma strict_order_unique:
  assumes "sorted_wrt R xs" "sorted_wrt R ys" "set xs = set ys" "\<And>x y. R x y \<Longrightarrow> \<not> R y x"
  shows "xs = ys"
  using assms(1-3)
proof (induction xs arbitrary: ys)
  case (Cons x xs)
  then obtain y ys' where ys: "ys = y # ys'" by (cases ys) auto
  have "x = y"
  proof (rule ccontr)
    assume "x \<noteq> y"
    then have "R x y" "R y x" using Cons.prems ys by auto
    then show False using assms(4) by blast
  qed
  moreover have "\<not> R z z" for z using assms(4) by blast
  then have "x \<notin> set xs" "y \<notin> set ys'" using Cons.prems ys by auto
  ultimately show ?case using Cons ys by (metis insert_ident list.simps(15) sorted_wrt.simps(2))
qed simp

abbreviation in_order :: "(place \<times> 'x) list \<Rightarrow> bool" where
  "in_order \<equiv> sorted_wrt (\<lambda>x y. fst x < fst y)"

lemma in_order_unique: "in_order xs \<Longrightarrow> in_order ys \<Longrightarrow> set xs = set ys \<Longrightarrow> xs = ys"
  by (rule strict_order_unique [where R = "\<lambda>x y. fst x < fst y"]) (simp_all add: order.asym)

lemma in_order_place: "in_order xs \<Longrightarrow> x \<in> set xs \<Longrightarrow> y \<in> set xs \<Longrightarrow> fst x = fst y \<Longrightarrow> x = y"
  by (induction xs) auto

lemma in_order_distinct: "in_order xs \<Longrightarrow> distinct (map fst xs)"
  by (induction xs) (auto simp: less_le)

section \<open>Paths\<close>

text \<open>What a correction does: the action, the token, the kind and the diagnosed token.\<close>

type_synonym fix_data = "BracketFixAction \<times> int \<times> TokenKind \<times> int"

definition fix_of :: "BracketCorrection \<Rightarrow> fix_data" where
  "fix_of c = (bc_fix_action c, bc_fix_token_index c, bc_fix_token_kind c, bc_diagnostic_token_index c)"

definition pair_of :: "OpenBracketKey \<Rightarrow> pair_id \<times> BracketTokenKind" where
  "pair_of x = (if ob_is_synthetic x then Inserted (ob_insertion_token_index x) else Opened (ob_token_index x), ob_kind x)"

definition tok :: "Item \<Rightarrow> int" where
  "tok item = mb_token_index (it_token item)"

definition gap_at :: "Item list \<Rightarrow> int \<Rightarrow> nat \<Rightarrow> int" where
  "gap_at items rend i = (if i < length items then tok (items ! i) else rend)"

abbreviation item_kind :: "Item \<Rightarrow> BracketTokenKind" where
  "item_kind item \<equiv> mb_kind (it_token item)"

abbreviation is_bracket :: "BracketTokenKind \<Rightarrow> bool" where
  "is_bracket k \<equiv> IsOpeningBracket k \<or> IsClosingBracket k"

text \<open>
  \<open>path items rend blk E cs s i\<close>: some way to get before item \<open>i\<close> leaves the brackets \<open>E\<close>,
  makes the fixes \<open>cs\<close> and has the stack \<open>s\<close> open. \<open>blk\<close> gives the brackets inside a collapsed item.
\<close>

inductive path :: "Item list \<Rightarrow> int \<Rightarrow> (Item \<Rightarrow> event list) \<Rightarrow> event list \<Rightarrow> fix_data list \<Rightarrow> OpenBracketKey list \<Rightarrow> nat \<Rightarrow> bool"
  for items :: "Item list" and rend :: int and blk :: "Item \<Rightarrow> event list" where
  path_start: "path items rend blk [] [] [] 0"
| path_closer: "path items rend blk E cs (x # s) i \<Longrightarrow> \<not> ob_is_synthetic x \<Longrightarrow> i \<le> length items \<Longrightarrow>
    path items rend blk
      (E @ [((gap_at items rend i, 0, - ob_token_index x), Opened (ob_token_index x), MatchingClosingKind (ob_kind x))])
      (cs @ [(InsertBefore, gap_at items rend i, ToTokenKind (MatchingClosingKind (ob_kind x)), ob_token_index x)]) s i"
| path_opener: "path items rend blk E cs s i \<Longrightarrow> i < length items \<Longrightarrow> ob_is_synthetic x \<Longrightarrow> IsOpeningBracket (ob_kind x) \<Longrightarrow>
    ob_insertion_token_index x = tok (items ! i) \<Longrightarrow> Inserted (tok (items ! i)) \<notin> fst ` pair_of ` set s \<Longrightarrow>
    path items rend blk (E @ [((tok (items ! i), 1, 0), Inserted (tok (items ! i)), ob_kind x)]) cs (x # s) i"
| path_block: "path items rend blk E cs s i \<Longrightarrow> i < length items \<Longrightarrow> HasAll (items ! i) {CollapsedBlock} \<Longrightarrow>
    path items rend blk (E @ blk (items ! i)) cs s (i + 1)"
| path_plain: "path items rend blk E cs s i \<Longrightarrow> i < length items \<Longrightarrow> \<not> HasAll (items ! i) {CollapsedBlock} \<Longrightarrow>
    \<not> is_bracket (item_kind (items ! i)) \<Longrightarrow> path items rend blk E cs s (i + 1)"
| path_push: "path items rend blk E cs s i \<Longrightarrow> i < length items \<Longrightarrow> \<not> HasAll (items ! i) {CollapsedBlock} \<Longrightarrow>
    IsOpeningBracket (item_kind (items ! i)) \<Longrightarrow> \<not> ob_is_synthetic x \<Longrightarrow> ob_token_index x = tok (items ! i) \<Longrightarrow>
    ob_kind x = item_kind (items ! i) \<Longrightarrow>
    path items rend blk (E @ [((tok (items ! i), 2, 0), Opened (tok (items ! i)), item_kind (items ! i))]) cs (x # s) (i + 1)"
| path_error: "path items rend blk E cs s i \<Longrightarrow> i < length items \<Longrightarrow> \<not> HasAll (items ! i) {CollapsedBlock} \<Longrightarrow>
    is_bracket (item_kind (items ! i)) \<Longrightarrow>
    path items rend blk E
      (cs @ [(ReplaceWithError, tok (items ! i), ToTokenKind (item_kind (items ! i)), tok (items ! i))]) s (i + 1)"
| path_match: "path items rend blk E cs (x # s) i \<Longrightarrow> i < length items \<Longrightarrow> \<not> HasAll (items ! i) {CollapsedBlock} \<Longrightarrow>
    IsClosingBracket (item_kind (items ! i)) \<Longrightarrow> ob_kind x = MatchingOpeningKind (item_kind (items ! i)) \<Longrightarrow>
    path items rend blk (E @ [((tok (items ! i), 2, 0), fst (pair_of x), item_kind (items ! i))])
      (if ob_is_synthetic x
       then cs @ [(InsertBefore, ob_insertion_token_index x, ToTokenKind (ob_kind x), tok (items ! i))] else cs) s (i + 1)"

section \<open>Regions\<close>

text \<open>The tokens of an item with their kinds, and the brackets of a collapsed one.\<close>

definition block_ok :: "(int \<times> BracketTokenKind) list \<Rightarrow> event list \<Rightarrow> bool" where
  "block_ok ts es \<longleftrightarrow>
     map (\<lambda>e. (fst e, snd (snd e))) es = map (\<lambda>(p, k). ((p, 2, 0), k)) (filter (\<lambda>(p, k). is_bracket k) ts) \<and>
     (\<forall>s. scan_events es s = Some s) \<and> (\<forall>e \<in> set es. IsOpeningBracket (snd (snd e)) \<longrightarrow> fst (snd e) = Opened (fst (fst e)))"

text \<open>The end of a region is the token after it; the end of the file ends the last region and belongs to it.\<close>

definition plain_item :: "Item \<Rightarrow> bool" where
  "plain_item item \<longleftrightarrow> \<not> HasAll item {CollapsedBlock} \<and> \<not> is_bracket (item_kind item)"

definition region_ok :: "Item list \<Rightarrow> int \<Rightarrow> (Item \<Rightarrow> (int \<times> BracketTokenKind) list) \<Rightarrow> (Item \<Rightarrow> event list) \<Rightarrow> bool" where
  "region_ok items rend toks blk \<longleftrightarrow>
     sorted_wrt (<) (map fst (concat (map toks items))) \<and>
     (\<forall>item \<in> set items. \<forall>x \<in> set (toks item). fst x < rend \<or> (fst x = rend \<and> plain_item item)) \<and>
     (\<forall>item \<in> set items. toks item \<noteq> [] \<and> fst (hd (toks item)) = tok item \<and>
        (if HasAll item {CollapsedBlock} then block_ok (toks item) (blk item) else toks item = [(tok item, item_kind item)]))"

definition passed :: "Item list \<Rightarrow> (Item \<Rightarrow> (int \<times> BracketTokenKind) list) \<Rightarrow> nat \<Rightarrow> (int \<times> BracketTokenKind) list" where
  "passed items toks i = concat (map toks (take i items))"

lemma passed_Suc: "i < length items \<Longrightarrow> passed items toks (Suc i) = passed items toks i @ toks (items ! i)"
  by (simp add: passed_def take_Suc_conv_app_nth)

lemma passed_all: "passed items toks (length items) = concat (map toks items)"
  by (simp add: passed_def)

lemma concat_split: "i < length items \<Longrightarrow>
  concat (map toks items) = passed items toks i @ toks (items ! i) @ concat (map toks (drop (Suc i) items))"
  by (metis append_take_drop_id Cons_nth_drop_Suc concat.simps(2) concat_append list.simps(9) map_append passed_def)

lemma region_item:
  assumes "region_ok items rend toks blk" "i < length items"
  shows "toks (items ! i) \<noteq> []" "fst (hd (toks (items ! i))) = tok (items ! i)"
    "HasAll (items ! i) {CollapsedBlock} \<Longrightarrow> block_ok (toks (items ! i)) (blk (items ! i))"
    "\<not> HasAll (items ! i) {CollapsedBlock} \<Longrightarrow> toks (items ! i) = [(tok (items ! i), item_kind (items ! i))]"
  using assms unfolding region_ok_def by (metis nth_mem)+

lemma region_order:
  assumes "region_ok items rend toks blk" "i < length items"
  shows "\<And>x. x \<in> set (passed items toks i) \<Longrightarrow> fst x < tok (items ! i)"
    "\<And>x. x \<in> set (toks (items ! i)) \<Longrightarrow> tok (items ! i) \<le> fst x"
    "sorted_wrt (<) (map fst (toks (items ! i)))"
    "\<And>x. x \<in> set (toks (items ! i)) \<Longrightarrow> fst x \<le> gap_at items rend (Suc i)"
    "\<And>x. x \<in> set (toks (items ! i)) \<Longrightarrow> \<not> plain_item (items ! i) \<Longrightarrow> fst x < gap_at items rend (Suc i)"
proof -
  note r = region_item [OF assms]
  have sorted: "sorted_wrt (<) (map fst (passed items toks i @ toks (items ! i) @ concat (map toks (drop (Suc i) items))))"
    and less: "\<forall>x \<in> set (toks (items ! i)). fst x < rend \<or> (fst x = rend \<and> plain_item (items ! i))"
    using assms concat_split [OF assms(2), of toks] by (auto simp: region_ok_def)
  obtain y ys where y: "toks (items ! i) = y # ys" "fst y = tok (items ! i)"
    using r(1,2) by (cases "toks (items ! i)") auto
  show s: "sorted_wrt (<) (map fst (toks (items ! i)))" using sorted by (simp add: sorted_wrt_append)
  show "fst x < tok (items ! i)" if "x \<in> set (passed items toks i)" for x
    using sorted that y by (force simp: sorted_wrt_append)
  show "tok (items ! i) \<le> fst x" if "x \<in> set (toks (items ! i))" for x
    using that s y by (auto simp: less_imp_le)
  have up: "fst x \<le> gap_at items rend (Suc i) \<and> (\<not> plain_item (items ! i) \<longrightarrow> fst x < gap_at items rend (Suc i))"
    if x: "x \<in> set (toks (items ! i))" for x
  proof (cases "Suc i < length items")
    case True
    note r' = region_item [OF assms(1) True]
    then have "hd (toks (items ! Suc i)) \<in> set (concat (map toks (drop (Suc i) items)))"
      using True by (metis Cons_nth_drop_Suc UnI1 concat.simps(2) hd_in_set list.simps(9) set_append)
    then have "fst x < fst (hd (toks (items ! Suc i)))" using sorted x by (auto simp: sorted_wrt_append)
    with r'(2) True show ?thesis by (simp add: gap_at_def)
  next
    case False
    then show ?thesis using less x by (auto simp: gap_at_def)
  qed
  then show "\<And>x. x \<in> set (toks (items ! i)) \<Longrightarrow> fst x \<le> gap_at items rend (Suc i)"
    "\<And>x. x \<in> set (toks (items ! i)) \<Longrightarrow> \<not> plain_item (items ! i) \<Longrightarrow> fst x < gap_at items rend (Suc i)" by blast+
qed

section \<open>The brackets a path leaves\<close>

definition event_ok :: "int \<Rightarrow> event \<Rightarrow> bool" where
  "event_ok g0 e = (case e of ((p, c, q), b, k) \<Rightarrow>
     (c = 0 \<and> b = Opened (- q) \<and> IsClosingBracket k \<and> g0 \<le> - q \<and> - q < p) \<or>
     (c = 1 \<and> q = 0 \<and> g0 \<le> p \<and> b = Inserted p \<and> IsOpeningBracket k) \<or>
     (c = 2 \<and> q = 0 \<and> g0 \<le> p \<and> is_bracket k \<and> (IsOpeningBracket k \<longrightarrow> b = Opened p)))"

text \<open>
  Before a token \<open>g\<close>: the brackets are in order and well formed and leave the stack open; when an opener was just
  inserted it is on top; closers just inserted closed brackets above the stack.
\<close>

definition events_inv :: "int \<Rightarrow> int \<Rightarrow> event list \<Rightarrow> OpenBracketKey list \<Rightarrow> bool" where
  "events_inv g0 g E s \<longleftrightarrow>
     in_order E \<and> (\<forall>e \<in> set E. event_ok g0 e \<and> fst e < (g, 2, 0)) \<and> scan_events E [] = Some (map pair_of s) \<and>
     ((g, 1, 0) \<in> fst ` set E \<longrightarrow> s \<noteq> [] \<and> fst (pair_of (hd s)) = Inserted g) \<and>
     (\<forall>p. (g, 0, - p) \<in> fst ` set E \<longrightarrow> (\<forall>x \<in> set s. \<not> ob_is_synthetic x \<longrightarrow> ob_token_index x < p)) \<and>
     sorted_wrt (\<lambda>x y. \<not> ob_is_synthetic x \<and> \<not> ob_is_synthetic y \<longrightarrow> ob_token_index y < ob_token_index x) s \<and>
     (\<forall>x \<in> set s. IsOpeningBracket (ob_kind x) \<and> (\<not> ob_is_synthetic x \<longrightarrow> g0 \<le> ob_token_index x \<and> ob_token_index x < g))"

lemma events_invD:
  assumes "events_inv g0 g E s"
  shows "in_order E" "\<And>e. e \<in> set E \<Longrightarrow> event_ok g0 e" "\<And>e. e \<in> set E \<Longrightarrow> fst e < (g, 2, 0)"
    "scan_events E [] = Some (map pair_of s)" "(g, 1, 0) \<in> fst ` set E \<Longrightarrow> s \<noteq> [] \<and> fst (pair_of (hd s)) = Inserted g"
    "\<And>p x. (g, 0, - p) \<in> fst ` set E \<Longrightarrow> x \<in> set s \<Longrightarrow> \<not> ob_is_synthetic x \<Longrightarrow> ob_token_index x < p"
    "sorted_wrt (\<lambda>x y. \<not> ob_is_synthetic x \<and> \<not> ob_is_synthetic y \<longrightarrow> ob_token_index y < ob_token_index x) s"
    "\<And>x. x \<in> set s \<Longrightarrow> IsOpeningBracket (ob_kind x)" "\<And>x. x \<in> set s \<Longrightarrow> \<not> ob_is_synthetic x \<Longrightarrow> g0 \<le> ob_token_index x \<and> ob_token_index x < g"
  using assms unfolding events_inv_def by blast+

lemma events_invI:
  assumes "in_order E" "\<And>e. e \<in> set E \<Longrightarrow> event_ok g0 e" "\<And>e. e \<in> set E \<Longrightarrow> fst e < (g, 2, 0)"
    "scan_events E [] = Some (map pair_of s)" "(g, 1, 0) \<in> fst ` set E \<Longrightarrow> s \<noteq> [] \<and> fst (pair_of (hd s)) = Inserted g"
    "\<And>p x. (g, 0, - p) \<in> fst ` set E \<Longrightarrow> x \<in> set s \<Longrightarrow> \<not> ob_is_synthetic x \<Longrightarrow> ob_token_index x < p"
    "sorted_wrt (\<lambda>x y. \<not> ob_is_synthetic x \<and> \<not> ob_is_synthetic y \<longrightarrow> ob_token_index y < ob_token_index x) s"
    "\<And>x. x \<in> set s \<Longrightarrow> IsOpeningBracket (ob_kind x)" "\<And>x. x \<in> set s \<Longrightarrow> \<not> ob_is_synthetic x \<Longrightarrow> g0 \<le> ob_token_index x \<and> ob_token_index x < g"
  shows "events_inv g0 g E s"
  using assms unfolding events_inv_def by blast

lemma in_order_snoc: "in_order (E @ [e]) \<longleftrightarrow> in_order E \<and> (\<forall>x \<in> set E. fst x < fst e)"
  by (auto simp: sorted_wrt_append)

text \<open>Where the brackets before \<open>g\<close> are.\<close>

lemma event_place_cases:
  assumes "event_ok g0 e" "fst e < (g, 2, 0)"
  obtains (earlier) "fst (fst e) < g" | (closer) q where "fst e = (g, 0, q)" | (opener) "fst e = (g, 1, 0)"
proof (cases "fst (fst e)" g rule: linorder_cases)
  case equal
  then show ?thesis using assms closer opener by (cases e) (fastforce simp: event_ok_def)
next
  case greater
  then show ?thesis using assms(2) by (cases e) auto
qed (use earlier in blast)

lemma events_closer:
  assumes "events_inv g0 g E (x # s)" "\<not> ob_is_synthetic x"
  shows "events_inv g0 g (E @ [((g, 0, - ob_token_index x), Opened (ob_token_index x), MatchingClosingKind (ob_kind x))]) s"
    (is "events_inv g0 g (E @ [?e]) s")
proof -
  note i = events_invD [OF assms(1)]
  have k: "IsOpeningBracket (ob_kind x)" using i(8) by simp
  have before: "fst y < fst ?e" if y: "y \<in> set E" for y
    using i(2,3) [OF y]
  proof (cases rule: event_place_cases)
    case earlier
    then show ?thesis by (cases y) auto
  next
    case (closer q)
    then have "(g, 0, - (- q)) \<in> fst ` set E" using y by force
    with i(6) [of "- q" x] assms(2) closer show ?thesis by simp
  next
    case opener
    then have "(g, 1, 0) \<in> fst ` set E" using y by force
    with i(5) assms(2) show ?thesis by (simp add: pair_of_def)
  qed
  show ?thesis
  proof (rule events_invI)
    show "in_order (E @ [?e])" using i(1) before by (simp only: in_order_snoc) blast
    have "event_ok g0 ?e" using k i(9) [of x] assms(2) by (simp add: event_ok_def)
    then show "event_ok g0 e" if "e \<in> set (E @ [?e])" for e using that i(2) [of e] by auto
    show "fst e < (g, 2, 0)" if "e \<in> set (E @ [?e])" for e using that i(3) [of e] by auto
    show "scan_events (E @ [?e]) [] = Some (map pair_of s)"
      using i(4) k by (auto simp: scan_events_append pair_of_def assms(2) dest: opening_not_closing)
    show "s \<noteq> [] \<and> fst (pair_of (hd s)) = Inserted g" if g1: "(g, 1, 0) \<in> fst ` set (E @ [?e])"
    proof -
      from g1 obtain y where "y \<in> set E" "fst y = (g, 1, 0)" by auto
      with before [of y] show ?thesis by simp
    qed
    show "ob_token_index y < p" if "(g, 0, - p) \<in> fst ` set (E @ [?e])" "y \<in> set s" "\<not> ob_is_synthetic y" for p y
    proof (cases "(g, 0, - p) \<in> fst ` set E")
      case True
      with i(6) that(2,3) show ?thesis by simp
    next
      case False
      then have "p = ob_token_index x" using that(1) by auto
      with i(7) that(2,3) assms(2) show ?thesis by simp
    qed
    show "sorted_wrt (\<lambda>x y. \<not> ob_is_synthetic x \<and> \<not> ob_is_synthetic y \<longrightarrow> ob_token_index y < ob_token_index x) s"
      using i(7) by simp
    show "IsOpeningBracket (ob_kind y)" if "y \<in> set s" for y using that i(8) by simp
    show "g0 \<le> ob_token_index y \<and> ob_token_index y < g" if "y \<in> set s" "\<not> ob_is_synthetic y" for y using that i(9) by simp
  qed
qed

lemma events_opener:
  assumes "events_inv g0 g E s" "ob_is_synthetic x" "IsOpeningBracket (ob_kind x)" "ob_insertion_token_index x = g"
    "Inserted g \<notin> fst ` pair_of ` set s" "g0 \<le> g"
  shows "events_inv g0 g (E @ [((g, 1, 0), Inserted g, ob_kind x)]) (x # s)" (is "events_inv g0 g (E @ [?e]) (x # s)")
proof -
  note i = events_invD [OF assms(1)]
  have no: "(g, 1, 0) \<notin> fst ` set E" using i(5) assms(5) by (metis image_eqI list.set_sel(1))
  have before: "fst y < fst ?e" if y: "y \<in> set E" for y
    using i(2,3) [OF y]
  proof (cases rule: event_place_cases)
    case earlier
    then show ?thesis by (cases y) auto
  next
    case opener
    then show ?thesis using no y by force
  qed simp
  show ?thesis
  proof (rule events_invI)
    show "in_order (E @ [?e])" using i(1) before by (simp only: in_order_snoc) blast
    have "event_ok g0 ?e" using assms(3,6) by (simp add: event_ok_def)
    then show "event_ok g0 e" if "e \<in> set (E @ [?e])" for e using that i(2) [of e] by auto
    show "fst e < (g, 2, 0)" if "e \<in> set (E @ [?e])" for e using that i(3) [of e] by auto
    show "scan_events (E @ [?e]) [] = Some (map pair_of (x # s))"
      using i(4) assms(2-4) by (simp add: scan_events_append pair_of_def)
    show "x # s \<noteq> [] \<and> fst (pair_of (hd (x # s))) = Inserted g" using assms(2,4) by (simp add: pair_of_def)
    show "ob_token_index y < p"
      if "(g, 0, - p) \<in> fst ` set (E @ [?e])" "y \<in> set (x # s)" "\<not> ob_is_synthetic y" for p y
    proof -
      have "(g, 0, - p) \<in> fst ` set E" using that(1) by auto
      with i(6) that(2,3) assms(2) show ?thesis by auto
    qed
    show "sorted_wrt (\<lambda>x y. \<not> ob_is_synthetic x \<and> \<not> ob_is_synthetic y \<longrightarrow> ob_token_index y < ob_token_index x) (x # s)"
      using i(7) assms(2) by simp
    show "IsOpeningBracket (ob_kind y)" if "y \<in> set (x # s)" for y using that i(8) assms(3) by auto
    show "g0 \<le> ob_token_index y \<and> ob_token_index y < g" if "y \<in> set (x # s)" "\<not> ob_is_synthetic y" for y using that i(9) assms(2) by auto
  qed
qed

text \<open>Moving on past tokens of the input, whose brackets are \<open>B\<close>.\<close>

lemma events_pass:
  assumes "events_inv g0 g E s" "g < g'" "in_order B" "\<And>e. e \<in> set B \<Longrightarrow> event_ok g0 e \<and> (\<exists>p. fst e = (p, 2, 0) \<and> g \<le> p \<and> p < g')"
    "scan_events B (map pair_of s) = Some (map pair_of s')"
    "sorted_wrt (\<lambda>x y. \<not> ob_is_synthetic x \<and> \<not> ob_is_synthetic y \<longrightarrow> ob_token_index y < ob_token_index x) s'"
    "\<And>x. x \<in> set s' \<Longrightarrow> IsOpeningBracket (ob_kind x) \<and> (\<not> ob_is_synthetic x \<longrightarrow> g0 \<le> ob_token_index x \<and> ob_token_index x < g')"
  shows "events_inv g0 g' (E @ B) s'"
proof -
  note i = events_invD [OF assms(1)]
  have early: "fst e < (g, 2, 0)" "fst (fst e) < g'" if "e \<in> set E" for e
    using i(3) [OF that] assms(2) by (cases e; auto)+
  have late: "(g, 2, 0) \<le> fst e" "fst (fst e) < g'" if "e \<in> set B" for e
    using assms(4) [OF that] by auto
  have all: "fst (fst e) < g'" if "e \<in> set (E @ B)" for e using that early(2) [of e] late(2) [of e] by auto
  have none: "(g', c, q) \<notin> fst ` set (E @ B)" for c q
  proof
    assume "(g', c, q) \<in> fst ` set (E @ B)"
    then obtain e where "e \<in> set (E @ B)" "fst e = (g', c, q)" by (metis imageE)
    with all [of e] show False by simp
  qed
  show ?thesis
  proof (rule events_invI)
    show "in_order (E @ B)"
      using i(1) assms(3) early(1) late(1) by (simp add: sorted_wrt_append) (meson order_less_le_trans)
    show "event_ok g0 e" if "e \<in> set (E @ B)" for e using that i(2) [of e] assms(4) [of e] by auto
    show "fst e < (g', 2, 0)" if "e \<in> set (E @ B)" for e using all [OF that] by (cases e) auto
    show "scan_events (E @ B) [] = Some (map pair_of s')" using i(4) assms(5) by (simp add: scan_events_append)
  qed (use none assms(6,7) in auto)
qed

lemma events_later: "events_inv g0 g E s \<Longrightarrow> g \<le> g' \<Longrightarrow> events_inv g0 g' E s"
  using events_pass [of g0 g E s g' "[]" s] events_invD(7-9) [of g0 g E s] by (cases "g = g'") fastforce+

section \<open>The invariant of a path\<close>

lemma in_order_map: "in_order es \<longleftrightarrow> sorted_wrt (<) (map fst es)"
  by (simp add: sorted_wrt_map)

lemma block_events:
  assumes "block_ok ts es" "sorted_wrt (<) (map fst ts)" "\<forall>x \<in> set ts. g0 \<le> fst x"
  shows "in_order es" "\<And>e. e \<in> set es \<Longrightarrow> event_ok g0 e \<and> (\<exists>x \<in> set ts. fst e = (fst x, 2, 0))"
    "\<And>s. scan_events es s = Some s"
proof -
  let ?bs = "filter (\<lambda>(p, k). is_bracket k) ts"
  have m: "map (\<lambda>e. (fst e, snd (snd e))) es = map (\<lambda>(p, k). ((p, 2, 0), k)) ?bs"
    and opens: "\<And>e. e \<in> set es \<Longrightarrow> IsOpeningBracket (snd (snd e)) \<Longrightarrow> fst (snd e) = Opened (fst (fst e))"
    using assms(1) by (auto simp: block_ok_def)
  show "\<And>s. scan_events es s = Some s" using assms(1) by (simp add: block_ok_def)
  have "map fst es = map (\<lambda>p. (p, 2, 0)) (map fst ?bs)"
    using arg_cong [OF m, of "map fst"] by (simp add: case_prod_unfold comp_def)
  moreover have "sorted_wrt (<) (map fst ?bs)"
    using assms(2) by (simp add: sorted_wrt_map sorted_wrt_filter)
  ultimately show "in_order es" by (simp add: in_order_map sorted_wrt_map)
  fix e assume e: "e \<in> set es"
  then have "(fst e, snd (snd e)) \<in> set (map (\<lambda>(p, k). ((p, 2, 0), k)) ?bs)"
    using m by (metis (no_types, lifting) image_eqI list.set_map)
  then obtain p k where "(p, k) \<in> set ts" "is_bracket k" "fst e = (p, 2, 0)" "snd (snd e) = k" by auto
  with opens [OF e] assms(3) show "event_ok g0 e \<and> (\<exists>x \<in> set ts. fst e = (fst x, 2, 0))"
    by (cases e) (force simp: event_ok_def)
qed

lemma gap_mono:
  assumes "region_ok items rend toks blk" "i < length items"
  shows "gap_at items rend i = tok (items ! i)" "gap_at items rend i \<le> gap_at items rend (Suc i)"
    "\<not> plain_item (items ! i) \<Longrightarrow> gap_at items rend i < gap_at items rend (Suc i)"
proof -
  show g: "gap_at items rend i = tok (items ! i)" using assms(2) by (simp add: gap_at_def)
  have "hd (toks (items ! i)) \<in> set (toks (items ! i))" using region_item(1) [OF assms] by simp
  then show "gap_at items rend i \<le> gap_at items rend (Suc i)"
    "\<not> plain_item (items ! i) \<Longrightarrow> gap_at items rend i < gap_at items rend (Suc i)"
    using region_order(4,5) [OF assms, of "hd (toks (items ! i))"] region_item(2) [OF assms] g by simp_all
qed

lemma gap_ge:
  assumes "region_ok items rend toks blk"
  shows "i \<le> length items \<Longrightarrow> gap_at items rend 0 \<le> gap_at items rend i"
proof (induction i)
  case (Suc i)
  then show ?case using gap_mono(2) [OF assms, of i] by simp
qed simp

text \<open>Moving on past one token of the input that keeps its bracket.\<close>

lemma events_token:
  assumes "events_inv g0 g E s" "g0 \<le> g" "g < g'" "is_bracket k" "IsOpeningBracket k \<Longrightarrow> b = Opened g"
    "scan_events [((g, 2, 0), b, k)] (map pair_of s) = Some (map pair_of s')"
    "sorted_wrt (\<lambda>x y. \<not> ob_is_synthetic x \<and> \<not> ob_is_synthetic y \<longrightarrow> ob_token_index y < ob_token_index x) s'"
    "\<And>x. x \<in> set s' \<Longrightarrow> IsOpeningBracket (ob_kind x) \<and> (\<not> ob_is_synthetic x \<longrightarrow> g0 \<le> ob_token_index x \<and> ob_token_index x < g')"
  shows "events_inv g0 g' (E @ [((g, 2, 0), b, k)]) s'"
  using assms(1,3) _ _ assms(6-8)
proof (rule events_pass)
  show "in_order [((g, 2, 0), b, k)]" by simp
  show "event_ok g0 e \<and> (\<exists>p. fst e = (p, 2, 0) \<and> g \<le> p \<and> p < g')" if "e \<in> set [((g, 2, 0), b, k)]" for e
    using that assms(2-5) by (simp add: event_ok_def)
qed

theorem path_events:
  assumes "region_ok items rend toks blk" "path items rend blk E cs s i"
  shows "i \<le> length items \<and> events_inv (gap_at items rend 0) (gap_at items rend i) E s"
  using assms(2)
proof induction
  case path_start
  then show ?case by (simp add: events_inv_def)
next
  case (path_closer E cs x s i)
  then show ?case using events_closer by blast
next
  case (path_opener E cs s i x)
  then show ?case
    using events_opener [of _ "tok (items ! i)" E s x] gap_mono(1) [OF assms(1)] gap_ge [OF assms(1), of i] by simp
next
  case (path_block E cs s i)
  note i = path_block(4) and len = path_block(2)
  note o = region_order [OF assms(1) len]
  have np: "\<not> plain_item (items ! i)" using path_block(3) by (simp add: plain_item_def)
  note g = gap_mono(1,3) [OF assms(1) len]
  have "events_inv (gap_at items rend 0) (gap_at items rend (Suc i)) (E @ blk (items ! i)) s"
  proof (rule events_pass)
    show "events_inv (gap_at items rend 0) (gap_at items rend i) E s" using i by simp
    show "gap_at items rend i < gap_at items rend (Suc i)" by (rule g(2) [OF np])
    have ge: "\<forall>x \<in> set (toks (items ! i)). gap_at items rend 0 \<le> fst x"
      using o(2) gap_ge [OF assms(1), of i] g(1) len by fastforce
    note b = block_events [OF region_item(3) [OF assms(1) len path_block(3)] o(3) ge]
    show "in_order (blk (items ! i))" by (rule b(1))
    show "scan_events (blk (items ! i)) (map pair_of s) = Some (map pair_of s)" by (rule b(3))
    show "event_ok (gap_at items rend 0) e \<and>
        (\<exists>p. fst e = (p, 2, 0) \<and> gap_at items rend i \<le> p \<and> p < gap_at items rend (Suc i))"
      if "e \<in> set (blk (items ! i))" for e
      using b(2) [OF that] o(2,5) np g(1) by auto
    show "sorted_wrt (\<lambda>x y. \<not> ob_is_synthetic x \<and> \<not> ob_is_synthetic y \<longrightarrow> ob_token_index y < ob_token_index x) s"
      using events_invD(7) i by blast
    show "IsOpeningBracket (ob_kind x) \<and>
        (\<not> ob_is_synthetic x \<longrightarrow> gap_at items rend 0 \<le> ob_token_index x \<and> ob_token_index x < gap_at items rend (Suc i))"
      if "x \<in> set s" for x
      using events_invD(8,9) [of _ _ E s x] i that g(2) [OF np] by force
  qed
  then show ?case using len by simp
next
  case (path_plain E cs s i)
  then show ?case using events_later gap_mono(2) [OF assms(1)] by (metis Suc_eq_plus1 Suc_leI)
next
  case (path_push E cs s i x)
  note len = path_push(2)
  have np: "\<not> plain_item (items ! i)" using path_push(4) by (simp add: plain_item_def)
  note g = gap_mono(1) [OF assms(1) len] gap_mono(3) [OF assms(1) len np] and ge = gap_ge [OF assms(1), of i]
  have i: "events_inv (gap_at items rend 0) (tok (items ! i)) E s" using path_push.IH g(1) by simp
  note inv = events_invD [OF i]
  have "events_inv (gap_at items rend 0) (gap_at items rend (Suc i))
     (E @ [((tok (items ! i), 2, 0), Opened (tok (items ! i)), item_kind (items ! i))]) (x # s)"
    using i
  proof (rule events_token)
    show "gap_at items rend 0 \<le> tok (items ! i)" "tok (items ! i) < gap_at items rend (Suc i)" using g ge len by simp_all
    show "sorted_wrt (\<lambda>x y. \<not> ob_is_synthetic x \<and> \<not> ob_is_synthetic y \<longrightarrow> ob_token_index y < ob_token_index x) (x # s)"
      using inv(7,9) path_push(6) by simp
    show "IsOpeningBracket (ob_kind y) \<and>
        (\<not> ob_is_synthetic y \<longrightarrow> gap_at items rend 0 \<le> ob_token_index y \<and> ob_token_index y < gap_at items rend (Suc i))"
      if "y \<in> set (x # s)" for y
      using that inv(8,9) [of y] path_push(4,6,7) g ge len by auto
  qed (use path_push(4-7) in \<open>auto simp: pair_of_def\<close>)
  then show ?case using len by simp
next
  case (path_error E cs s i)
  then show ?case using events_later gap_mono(2) [OF assms(1)] by (metis Suc_eq_plus1 Suc_leI)
next
  case (path_match E cs x s i)
  note len = path_match(2)
  have np: "\<not> plain_item (items ! i)" using path_match(4) by (simp add: plain_item_def)
  note g = gap_mono(1) [OF assms(1) len] gap_mono(3) [OF assms(1) len np] and ge = gap_ge [OF assms(1), of i]
  have i: "events_inv (gap_at items rend 0) (tok (items ! i)) E (x # s)" using path_match.IH g(1) by simp
  note inv = events_invD [OF i]
  have "events_inv (gap_at items rend 0) (gap_at items rend (Suc i))
     (E @ [((tok (items ! i), 2, 0), fst (pair_of x), item_kind (items ! i))]) s"
    using i
  proof (rule events_token)
    show "gap_at items rend 0 \<le> tok (items ! i)" "tok (items ! i) < gap_at items rend (Suc i)" using g ge len by simp_all
    show "scan_events [((tok (items ! i), 2, 0), fst (pair_of x), item_kind (items ! i))] (map pair_of (x # s)) = Some (map pair_of s)"
      using path_match(4,5) by (auto simp: pair_of_def matching_inverse dest: opening_not_closing)
    show "sorted_wrt (\<lambda>x y. \<not> ob_is_synthetic x \<and> \<not> ob_is_synthetic y \<longrightarrow> ob_token_index y < ob_token_index x) s"
      using inv(7) by simp
    show "IsOpeningBracket (ob_kind y) \<and>
        (\<not> ob_is_synthetic y \<longrightarrow> gap_at items rend 0 \<le> ob_token_index y \<and> ob_token_index y < gap_at items rend (Suc i))"
      if "y \<in> set s" for y
      using that inv(8,9) [of y] g ge len by auto
  qed (use path_match(4) in \<open>auto dest: opening_not_closing\<close>)
  then show ?case using len by simp
qed

end
