(* ===== verification/Bracket_Repair.thy ===== *)
theory Bracket_Repair
  imports Bracket_Paths
begin

text \<open>
  What the corrections of a region do to its brackets. A path makes its corrections
  in step with the brackets it leaves; a correction that is tied gives up the pair it belongs to. The
  brackets that result are balanced, whatever corrections are tied.
\<close>

section \<open>The corrections and the brackets of a path\<close>

definition kept :: "event list \<Rightarrow> (int \<times> BracketTokenKind) set" where
  "kept E = {(p, k). \<exists>b. ((p, 2, 0), b, k) \<in> set E}"

definition errs :: "fix_data list \<Rightarrow> int set" where
  "errs cs = {t. \<exists>kk d. (ReplaceWithError, t, kk, d) \<in> set cs}"

definition closed_by :: "event list \<Rightarrow> int \<Rightarrow> TokenKind \<Rightarrow> int \<Rightarrow> bool" where
  "closed_by E t kk d \<longleftrightarrow> (\<exists>b k. ((t, 0, - d), b, k) \<in> set E \<and> kk = ToTokenKind k)"

definition opened_by :: "event list \<Rightarrow> int \<Rightarrow> TokenKind \<Rightarrow> int \<Rightarrow> bool" where
  "opened_by E t kk d \<longleftrightarrow>
     (\<exists>b k k'. ((t, 1, 0), b, k) \<in> set E \<and> kk = ToTokenKind k \<and> ((d, 2, 0), Inserted t, k') \<in> set E)"

definition book :: "(int \<times> BracketTokenKind) list \<Rightarrow> event list \<Rightarrow> fix_data list \<Rightarrow> bool" where
  "book P E cs \<longleftrightarrow>
     kept E = {(p, k) \<in> set P. is_bracket k \<and> p \<notin> errs cs} \<and>
     (\<forall>t kk d. (ReplaceWithError, t, kk, d) \<in> set cs \<longrightarrow> d = t \<and> (\<exists>k. (t, k) \<in> set P \<and> is_bracket k)) \<and>
     (\<forall>t kk d. (InsertBefore, t, kk, d) \<in> set cs \<longleftrightarrow> closed_by E t kk d \<or> opened_by E t kk d) \<and>
     (\<forall>c \<in> set cs. fst c \<noteq> InsertAfter) \<and> distinct cs"

lemma bookD:
  assumes "book P E cs"
  shows "kept E = {(p, k) \<in> set P. is_bracket k \<and> p \<notin> errs cs}"
    "\<And>t kk d. (ReplaceWithError, t, kk, d) \<in> set cs \<Longrightarrow> d = t \<and> (\<exists>k. (t, k) \<in> set P \<and> is_bracket k)"
    "\<And>t kk d. (InsertBefore, t, kk, d) \<in> set cs \<longleftrightarrow> closed_by E t kk d \<or> opened_by E t kk d"
    "\<And>c. c \<in> set cs \<Longrightarrow> fst c \<noteq> InsertAfter" "distinct cs"
  using assms unfolding book_def by blast+

lemma bookI:
  assumes "kept E = {(p, k) \<in> set P. is_bracket k \<and> p \<notin> errs cs}"
    "\<And>t kk d. (ReplaceWithError, t, kk, d) \<in> set cs \<Longrightarrow> d = t \<and> (\<exists>k. (t, k) \<in> set P \<and> is_bracket k)"
    "\<And>t kk d. (InsertBefore, t, kk, d) \<in> set cs \<longleftrightarrow> closed_by E t kk d \<or> opened_by E t kk d"
    "\<And>c. c \<in> set cs \<Longrightarrow> fst c \<noteq> InsertAfter" "distinct cs"
  shows "book P E cs"
  using assms unfolding book_def by blast

lemma kept_append: "kept (E @ B) = kept E \<union> kept B"
  by (auto simp: kept_def)

lemma closed_by_append: "closed_by (E @ B) t kk d \<longleftrightarrow> closed_by E t kk d \<or> closed_by B t kk d"
  by (auto simp: closed_by_def)

lemma errs_append: "errs (xs @ ys) = errs xs \<union> errs ys"
  by (auto simp: errs_def)

lemma scan_events_open_event:
  "scan_events es s = Some t \<Longrightarrow> (b, k) \<in> set t \<Longrightarrow> (b, k) \<in> set s \<or> (IsOpeningBracket k \<and> (\<exists>pl. (pl, b, k) \<in> set es))"
  by (induction es s rule: scan_events.induct) (fastforce split: list.splits if_splits)+

lemma event_ok_opening:
  "event_ok g0 (pl, b, k) \<Longrightarrow> IsOpeningBracket k \<Longrightarrow>
   (pl, b) = ((fst pl, 1, 0), Inserted (fst pl)) \<or> (pl, b) = ((fst pl, 2, 0), Opened (fst pl))"
  by (cases pl) (auto simp: event_ok_def dest: opening_not_closing)

text \<open>A bracket that closes an inserted opener comes after it.\<close>

lemma inserted_close_event:
  assumes "events_inv g0 g E s" "((d, c, q), Inserted t, k) \<in> set E" "\<not> IsOpeningBracket k"
  shows "\<exists>k'. ((t, 1, 0), Inserted t, k') \<in> set E"
proof -
  note i = events_invD [OF assms(1)]
  have "Inserted t \<in> set (closes_of E)" using assms(2,3) by (force simp: closes_of_def)
  then have "Inserted t \<in># mset (closes_of E) + mset (map fst (map pair_of s))" by simp
  moreover have "mset (closes_of E) + mset (map fst (map pair_of s)) = mset (opens_of E)" using scan_events_pairs [OF i(4)] by simp
  ultimately have "Inserted t \<in># mset (opens_of E)" by (simp only:)
  then have "Inserted t \<in> set (opens_of E)" by simp
  then obtain pl k' where e: "(pl, Inserted t, k') \<in> set E" "IsOpeningBracket k'" by (force simp: opens_of_def)
  from event_ok_opening [OF i(2) [OF e(1)] e(2)] have "pl = (t, 1, 0)" by (cases pl) auto
  with e show ?thesis by blast
qed

section \<open>Steps\<close>

lemma book_closer:
  assumes "book P E cs" "events_inv g0 g (E @ [((g, 0, - o'), Opened o', k)]) s"
  shows "book P (E @ [((g, 0, - o'), Opened o', k)]) (cs @ [(InsertBefore, g, ToTokenKind k, o')])" (is "book P (E @ [?e]) ?cs")
proof -
  note b = bookD [OF assms(1)] and i = events_invD [OF assms(2)]
  have fresh: "fst e \<noteq> fst ?e" if "e \<in> set E" for e using that i(1) by (fastforce simp: sorted_wrt_append)
  have k: "IsClosingBracket k" using i(2) [of ?e] by (simp add: event_ok_def)
  have op: "IsOpeningBracket k'" if "((t, 1, 0), b', k') \<in> set E" for t b' k'
    using i(2) [of "((t, 1, 0), b', k')"] that by (simp add: event_ok_def)
  have new: "\<not> closed_by E g (ToTokenKind k) o'" using fresh by (force simp: closed_by_def)
  have "\<not> opened_by E g (ToTokenKind k) o'" using op ToTokenKind_bracket k by (metis opened_by_def)
  with new b(3) have d: "(InsertBefore, g, ToTokenKind k, o') \<notin> set cs" by blast
  have opened: "opened_by (E @ [?e]) = opened_by E" by (auto simp: opened_by_def fun_eq_iff)
  show ?thesis
  proof (rule bookI)
    show "kept (E @ [?e]) = {(p, k) \<in> set P. is_bracket k \<and> p \<notin> errs ?cs}"
      using b(1) by (auto simp: kept_append errs_append kept_def errs_def)
    show "d = t \<and> (\<exists>k. (t, k) \<in> set P \<and> is_bracket k)" if "(ReplaceWithError, t, kk, d) \<in> set ?cs" for t kk d
      using that b(2) [of t kk d] by simp
    show "(InsertBefore, t, kk, d) \<in> set ?cs \<longleftrightarrow> closed_by (E @ [?e]) t kk d \<or> opened_by (E @ [?e]) t kk d" for t kk d
      using b(3) [of t kk d] unfolding opened closed_by_append by (auto simp: closed_by_def)
    show "fst c \<noteq> InsertAfter" if "c \<in> set ?cs" for c using that b(4) [of c] by auto
    show "distinct ?cs" using b(5) d by simp
  qed
qed

lemma book_opener:
  assumes "book P E cs" "events_inv g0 g (E @ [((g, 1, 0), Inserted g, k)]) s" "events_inv g0 g E s'"
  shows "book P (E @ [((g, 1, 0), Inserted g, k)]) cs" (is "book P (E @ [?e]) cs")
proof -
  note b = bookD [OF assms(1)] and i = events_invD [OF assms(2)] and i' = events_invD [OF assms(3)]
  have fresh: "fst e \<noteq> fst ?e" if "e \<in> set E" for e using that i(1) by (fastforce simp: sorted_wrt_append)
  have no: "((d, 2, 0), Inserted g, k') \<notin> set E" for d k'
  proof
    assume e: "((d, 2, 0), Inserted g, k') \<in> set E"
    have "\<not> IsOpeningBracket k'" using i'(2) [OF e] by (simp add: event_ok_def)
    from inserted_close_event [OF assms(3) e this] fresh show False by fastforce
  qed
  have opened: "opened_by (E @ [?e]) t kk d = opened_by E t kk d" for t kk d
    using no by (auto simp: opened_by_def)
  show ?thesis
    using b unfolding book_def opened closed_by_append kept_append
    by (simp add: kept_def closed_by_def)
qed

text \<open>Brackets of the input that are kept.\<close>

lemma book_keep:
  assumes "book P E cs" "kept B = {(p, k) \<in> set ts. is_bracket k}" "\<And>e. e \<in> set B \<Longrightarrow> fst (snd (fst e)) = 2"
    "\<And>t d k. ((d, 2, 0), Inserted t, k) \<notin> set B" "\<And>x y. x \<in> set P \<Longrightarrow> y \<in> set ts \<Longrightarrow> fst x < fst y"
  shows "book (P @ ts) (E @ B) cs"
proof -
  note b = bookD [OF assms(1)]
  have "p \<notin> errs cs" if "(p, k) \<in> set ts" for p k using that b(2) assms(5) by (fastforce simp: errs_def)
  then have k: "kept (E @ B) = {(p, k) \<in> set (P @ ts). is_bracket k \<and> p \<notin> errs cs}"
    unfolding kept_append b(1) assms(2) by auto
  have closed: "closed_by (E @ B) t kk d = closed_by E t kk d" for t kk d
    using assms(3) by (force simp: closed_by_def)
  have opened: "opened_by (E @ B) t kk d = opened_by E t kk d" for t kk d
    using assms(3,4) by (fastforce simp: opened_by_def)
  show ?thesis
  proof (rule bookI)
    show "d = t \<and> (\<exists>k. (t, k) \<in> set (P @ ts) \<and> is_bracket k)" if "(ReplaceWithError, t, kk, d) \<in> set cs" for t kk d
      using b(2) [OF that] by auto
  qed (use k b(3-5) in \<open>simp_all add: closed opened\<close>)
qed

lemma book_error:
  assumes "book P E cs" "is_bracket k" "\<And>x. x \<in> set P \<Longrightarrow> fst x < g"
  shows "book (P @ [(g, k)]) E (cs @ [(ReplaceWithError, g, ToTokenKind k, g)])" (is "book ?P E ?cs")
proof -
  note b = bookD [OF assms(1)]
  have new: "g \<notin> errs cs" using b(2) assms(3) by (fastforce simp: errs_def)
  have e: "errs ?cs = insert g (errs cs)" by (auto simp: errs_def)
  have P: "(g, k') \<notin> set P" for k' using assms(3) by force
  show ?thesis
  proof (rule bookI)
    show "kept E = {(p, k) \<in> set ?P. is_bracket k \<and> p \<notin> errs ?cs}"
      unfolding b(1) e using P by (auto dest: assms(3))
    show "d = t \<and> (\<exists>k. (t, k) \<in> set ?P \<and> is_bracket k)" if "(ReplaceWithError, t, kk, d) \<in> set ?cs" for t kk d
      using that b(2) [of t kk d] assms(2) by auto
    show "(InsertBefore, t, kk, d) \<in> set ?cs \<longleftrightarrow> closed_by E t kk d \<or> opened_by E t kk d" for t kk d
      using b(3) [of t kk d] by simp
    show "fst c \<noteq> InsertAfter" if "c \<in> set ?cs" for c using that b(4) [of c] by auto
    show "distinct ?cs" using b(5) new by (auto simp: errs_def)
  qed
qed

text \<open>A bracket of the input that closes an inserted opener.\<close>

lemma book_match:
  assumes "book P E cs" "events_inv g0 g E s" "events_inv g0 g' (E @ [((g, 2, 0), Inserted t, k)]) s'"
    "((t, 1, 0), Inserted t, k') \<in> set E" "\<And>x. x \<in> set P \<Longrightarrow> fst x < g" "is_bracket k"
  shows "book (P @ [(g, k)]) (E @ [((g, 2, 0), Inserted t, k)]) (cs @ [(InsertBefore, t, ToTokenKind k', g)])"
    (is "book ?P (E @ [?e]) ?cs")
proof -
  note b = bookD [OF assms(1)] and i = events_invD [OF assms(2)] and i' = events_invD [OF assms(3)]
  have e: "errs ?cs = errs cs" by (auto simp: errs_def)
  have new: "g \<notin> errs cs" using b(2) assms(5) by (fastforce simp: errs_def)
  have k': "IsOpeningBracket k'" using i(2) [OF assms(4)] by (simp add: event_ok_def)
  have early: "fst y \<noteq> fst ?e" if "y \<in> set E" for y using i(3) [OF that] by auto
  have "\<not> opened_by E t (ToTokenKind k') g" using early by (fastforce simp: opened_by_def)
  moreover have "\<not> closed_by E t (ToTokenKind k') g"
  proof
    assume "closed_by E t (ToTokenKind k') g"
    then obtain b' c where y: "((t, 0, - g), b', c) \<in> set E" "ToTokenKind k' = ToTokenKind c" by (auto simp: closed_by_def)
    have "IsClosingBracket c" using i(2) [OF y(1)] by (simp add: event_ok_def)
    then show False using ToTokenKind_bracket(2) [of c] ToTokenKind_bracket(3) [OF k'] y(2) by simp
  qed
  ultimately have d: "(InsertBefore, t, ToTokenKind k', g) \<notin> set cs" using b(3) by blast
  have uniq: "k'' = k'" if "((t, 1, 0), b', k'') \<in> set E" for b' k''
    using in_order_place [OF i(1) that assms(4)] by simp
  have closed: "closed_by (E @ [?e]) t' kk d = closed_by E t' kk d" for t' kk d by (auto simp: closed_by_def)
  have opened: "opened_by (E @ [?e]) t' kk d \<longleftrightarrow> opened_by E t' kk d \<or> (t' = t \<and> kk = ToTokenKind k' \<and> d = g)" for t' kk d
  proof
    assume "opened_by (E @ [?e]) t' kk d"
    then obtain b1 k1 k2 where y: "((t', 1, 0), b1, k1) \<in> set (E @ [?e])" "kk = ToTokenKind k1"
        "((d, 2, 0), Inserted t', k2) \<in> set (E @ [?e])" unfolding opened_by_def by blast
    have y1: "((t', 1, 0), b1, k1) \<in> set E" using y(1) by simp
    show "opened_by E t' kk d \<or> (t' = t \<and> kk = ToTokenKind k' \<and> d = g)"
    proof (cases "((d, 2, 0), Inserted t', k2) \<in> set E")
      case True
      with y1 y(2) show ?thesis unfolding opened_by_def by blast
    next
      case False
      with y(3) have "t' = t" "d = g" by simp_all
      with uniq y1 y(2) show ?thesis by blast
    qed
  next
    assume "opened_by E t' kk d \<or> (t' = t \<and> kk = ToTokenKind k' \<and> d = g)"
    with assms(4) show "opened_by (E @ [?e]) t' kk d" unfolding opened_by_def set_append by fastforce
  qed
  show ?thesis
  proof (rule bookI)
    show "kept (E @ [?e]) = {(p, k) \<in> set ?P. is_bracket k \<and> p \<notin> errs ?cs}"
      unfolding kept_append b(1) e using new assms(6) by (auto simp: kept_def)
    show "d = t' \<and> (\<exists>k. (t', k) \<in> set ?P \<and> is_bracket k)" if "(ReplaceWithError, t', kk, d) \<in> set ?cs" for t' kk d
      using that b(2) [of t' kk d] by auto
    show "(InsertBefore, t', kk, d) \<in> set ?cs \<longleftrightarrow> closed_by (E @ [?e]) t' kk d \<or> opened_by (E @ [?e]) t' kk d" for t' kk d
      unfolding closed opened using b(3) [of t' kk d] by auto
    show "fst c \<noteq> InsertAfter" if "c \<in> set ?cs" for c using that b(4) [of c] by auto
    show "distinct ?cs" using b(5) d by simp
  qed
qed

lemma block_kept:
  assumes "block_ok ts es"
  shows "kept es = {(p, k) \<in> set ts. is_bracket k}" "\<And>e. e \<in> set es \<Longrightarrow> fst (snd (fst e)) = 2"
    "\<And>t d k. ((d, 2, 0), Inserted t, k) \<notin> set es"
proof -
  have m: "map (\<lambda>e. (fst e, snd (snd e))) es = map (\<lambda>(p, k). ((p, 2, 0), k)) (filter (\<lambda>(p, k). is_bracket k) ts)"
    and opens: "\<And>e. e \<in> set es \<Longrightarrow> IsOpeningBracket (snd (snd e)) \<Longrightarrow> fst (snd e) = Opened (fst (fst e))"
    and sc: "scan_events es [] = Some []"
    using assms by (auto simp: block_ok_def)
  have s: "(\<lambda>e. (fst e, snd (snd e))) ` set es = {((p, 2, 0), k) |p k. (p, k) \<in> set ts \<and> is_bracket k}"
    using arg_cong [OF m, of set] by force
  have "(p, k) \<in> kept es \<longleftrightarrow> ((p, 2, 0), k) \<in> (\<lambda>e. (fst e, snd (snd e))) ` set es" for p k
    by (force simp: kept_def)
  then show "kept es = {(p, k) \<in> set ts. is_bracket k}" unfolding s by auto
  show "fst (snd (fst e)) = 2" if "e \<in> set es" for e
  proof -
    have "(fst e, snd (snd e)) \<in> (\<lambda>e. (fst e, snd (snd e))) ` set es" using that by blast
    then show ?thesis unfolding s by auto
  qed
  have "Inserted t \<notin> set (opens_of es)" for t using opens by (auto simp: opens_of_def)
  moreover have "set (closes_of es) = set (opens_of es)" using scan_events_pairs [OF sc] by (simp flip: set_mset_mset)
  ultimately have "Inserted t \<noteq> fst (snd e)" if "e \<in> set es" for e t
    using that by (force simp: opens_of_def closes_of_def)
  then show "\<And>t d k. ((d, 2, 0), Inserted t, k) \<notin> set es" by force
qed

section \<open>The invariant\<close>

lemma passed_less:
  "region_ok items rend toks blk \<Longrightarrow> i < length items \<Longrightarrow> x \<in> set (passed items toks i) \<Longrightarrow> y \<in> set (toks (items ! i)) \<Longrightarrow>
   fst x < fst y"
  using region_order(1,2) by (metis order_less_le_trans)

theorem path_book:
  assumes "region_ok items rend toks blk" "path items rend blk E cs s i"
  shows "book (passed items toks i) E cs"
  using assms(2)
proof induction
  case path_start
  then show ?case by (simp add: book_def kept_def closed_by_def opened_by_def passed_def)
next
  case (path_closer E cs x s i)
  from path_events [OF assms(1) path.path_closer [OF path_closer(1-3)]] path_closer(4) show ?case
    using book_closer by blast
next
  case (path_opener E cs s i x)
  from path_events [OF assms(1) path.path_opener [OF path_opener(1-6)]] path_events [OF assms(1) path_opener(1)]
    path_opener(7) show ?case
    using book_opener gap_mono(1) [OF assms(1) path_opener(2)] by metis
next
  case (path_block E cs s i)
  note k = block_kept [OF region_item(3) [OF assms(1) path_block(2,3)]]
  show ?case
    using book_keep [OF path_block(4) k passed_less [OF assms(1) path_block(2)]] passed_Suc [OF path_block(2)] by simp
next
  case (path_plain E cs s i)
  note t = region_item(4) [OF assms(1) path_plain(2,3)]
  have "book (passed items toks i @ toks (items ! i)) (E @ []) cs"
    by (rule book_keep [OF path_plain(5)])
      (use path_plain(4) passed_less [OF assms(1) path_plain(2)] in \<open>auto simp: t kept_def\<close>)
  then show ?case using passed_Suc [OF path_plain(2), of toks] by simp
next
  case (path_push E cs s i x)
  note t = region_item(4) [OF assms(1) path_push(2,3)]
  have "book (passed items toks i @ toks (items ! i)) (E @ [((tok (items ! i), 2, 0), Opened (tok (items ! i)), item_kind (items ! i))]) cs"
    by (rule book_keep [OF path_push(8)])
      (use path_push(4) passed_less [OF assms(1) path_push(2)] in \<open>auto simp: t kept_def\<close>)
  then show ?case using passed_Suc [OF path_push(2), of toks] by simp
next
  case (path_error E cs s i)
  note t = region_item(4) [OF assms(1) path_error(2,3)]
  show ?case
    using book_error [OF path_error(5,4)] region_order(1) [OF assms(1) path_error(2)] passed_Suc [OF path_error(2), of toks] t
    by simp
next
  case (path_match E cs x s i)
  note t = region_item(4) [OF assms(1) path_match(2,3)]
  let ?g = "tok (items ! i)" and ?k = "item_kind (items ! i)"
  show ?case
  proof (cases "ob_is_synthetic x")
    case False
    have "book (passed items toks i @ toks (items ! i)) (E @ [((?g, 2, 0), fst (pair_of x), ?k)]) cs"
      by (rule book_keep [OF path_match(6)])
        (use path_match(4) False passed_less [OF assms(1) path_match(2)] in \<open>auto simp: t kept_def pair_of_def\<close>)
    then show ?thesis using passed_Suc [OF path_match(2), of toks] False by simp
  next
    case True
    have i: "events_inv (gap_at items rend 0) ?g E (x # s)"
      using path_events [OF assms(1) path_match(1)] gap_mono(1) [OF assms(1) path_match(2)] by simp
    note inv = events_invD [OF i]
    have x: "pair_of x = (Inserted (ob_insertion_token_index x), ob_kind x)" using True by (simp add: pair_of_def)
    then obtain pl where pl: "(pl, Inserted (ob_insertion_token_index x), ob_kind x) \<in> set E" "IsOpeningBracket (ob_kind x)"
      using scan_events_open_event [OF inv(4), of "Inserted (ob_insertion_token_index x)" "ob_kind x"] by auto
    then have "pl = (ob_insertion_token_index x, 1, 0)" using event_ok_opening [OF inv(2) [OF pl(1)] pl(2)] by (cases pl) auto
    with pl(1) have e: "((ob_insertion_token_index x, 1, 0), Inserted (ob_insertion_token_index x), ob_kind x) \<in> set E" by simp
    have "events_inv (gap_at items rend 0) (gap_at items rend (i + 1))
        (E @ [((?g, 2, 0), Inserted (ob_insertion_token_index x), ?k)]) s"
      using path_events [OF assms(1) path.path_match [OF path_match(1-5)]] x by simp
    from book_match [OF path_match(6) i this e region_order(1) [OF assms(1) path_match(2)]] path_match(4)
    show ?thesis using passed_Suc [OF path_match(2), of toks] t True x by simp
  qed
qed

end
