(* ===== verification/Bracket_Contract.thy ===== *)
theory Bracket_Contract
  imports Bracket_Repair
begin

section \<open>What the corrections of a region promise\<close>

text \<open>
  A correction inserts its bracket unless it is tied; a tied one gives up the bracket it was diagnosed at, as
  \<open>DiagnoseAndFixMismatchedBrackets\<close> does.
\<close>

definition inserts :: "BracketCorrection \<Rightarrow> bool" where
  "inserts c \<longleftrightarrow> bc_fix_action c \<noteq> ReplaceWithError \<and> \<not> bc_is_tied c"

definition given_up :: "BracketCorrection list \<Rightarrow> int set" where
  "given_up C = {t. \<exists>c \<in> set C. (bc_fix_action c = ReplaceWithError \<and> t = bc_fix_token_index c) \<or>
     (bc_fix_action c \<noteq> ReplaceWithError \<and> bc_is_tied c \<and> t = bc_diagnostic_token_index c)}"

definition slot :: "BracketCorrection \<Rightarrow> place \<times> TokenKind" where
  "slot c = ((bc_fix_token_index c, if is_closing_symbol (bc_fix_token_kind c) then 0 else 1,
     if is_closing_symbol (bc_fix_token_kind c) then - bc_diagnostic_token_index c else 0), bc_fix_token_kind c)"

definition slots :: "(int \<times> BracketTokenKind) list \<Rightarrow> BracketCorrection list \<Rightarrow> (place \<times> TokenKind) set" where
  "slots ts C = slot ` {c \<in> set C. inserts c} \<union>
     {((p, 2, 0), ToTokenKind k) | p k. (p, k) \<in> set ts \<and> is_bracket k \<and> p \<notin> given_up C}"

definition correction_ok :: "int \<Rightarrow> int \<Rightarrow> (int \<times> BracketTokenKind) list \<Rightarrow> BracketCorrection \<Rightarrow> bool" where
  "correction_ok lo hi ts c \<longleftrightarrow> bc_fix_action c \<noteq> InsertAfter \<and>
     (\<exists>k. (bc_diagnostic_token_index c, k) \<in> set ts \<and> is_bracket k) \<and>
     (if bc_fix_action c = ReplaceWithError then bc_fix_token_index c = bc_diagnostic_token_index c
      else lo \<le> bc_fix_token_index c \<and> bc_fix_token_index c \<le> hi \<and>
        (is_opening_symbol (bc_fix_token_kind c) \<or> is_closing_symbol (bc_fix_token_kind c)))"

definition repairs :: "int \<Rightarrow> int \<Rightarrow> (int \<times> BracketTokenKind) list \<Rightarrow> BracketCorrection list \<Rightarrow> bool" where
  "repairs lo hi ts C \<longleftrightarrow>
     (\<exists>S. in_order S \<and> set S = slots ts C \<and> balanced (map snd S)) \<and>
     (\<forall>x \<in> slots ts C. (lo, 1, 0) \<le> fst x \<and> fst x < (hi, 1, 0)) \<and>
     (\<forall>c \<in> set C. correction_ok lo hi ts c) \<and> distinct (map slot (filter inserts C)) \<and>
     distinct (map bc_diagnostic_token_index (filter inserts C))"

section \<open>Pairs that are given up\<close>

definition pair_given_up :: "BracketCorrection \<Rightarrow> pair_id" where
  "pair_given_up c = (if is_closing_symbol (bc_fix_token_kind c) then Opened (bc_diagnostic_token_index c)
     else Inserted (bc_fix_token_index c))"

definition tied_pairs :: "BracketCorrection list \<Rightarrow> pair_id set" where
  "tied_pairs C = pair_given_up ` {c \<in> set C. bc_fix_action c \<noteq> ReplaceWithError \<and> bc_is_tied c}"

text \<open>A complete path and a list of corrections with the same fixes.\<close>

definition complete_path ::
    "int \<Rightarrow> int \<Rightarrow> (int \<times> BracketTokenKind) list \<Rightarrow> event list \<Rightarrow> fix_data list \<Rightarrow> BracketCorrection list \<Rightarrow> bool" where
  "complete_path lo hi ts E cs C \<longleftrightarrow> events_inv lo hi E [] \<and> book ts E cs \<and> mset (map fix_of C) = mset cs"

lemma complete_pathD:
  assumes "complete_path lo hi ts E cs C"
  shows "events_inv lo hi E []" "book ts E cs" "mset (map fix_of C) = mset cs"
    "\<And>x. x \<in> set cs \<longleftrightarrow> x \<in> fix_of ` set C" "scan_events E [] = Some []" "(hi, 1, 0) \<notin> fst ` set E"
proof -
  show c: "events_inv lo hi E []" "book ts E cs" "mset (map fix_of C) = mset cs"
    using assms by (auto simp: complete_path_def)
  show "x \<in> set cs \<longleftrightarrow> x \<in> fix_of ` set C" for x using arg_cong [OF c(3), of set_mset] by simp
  show "scan_events E [] = Some []" "(hi, 1, 0) \<notin> fst ` set E" using events_invD(4,5) [OF c(1)] by auto
qed

lemma complete_distinct:
  assumes "complete_path lo hi ts E cs C"
  shows "distinct C" "\<And>c c'. c \<in> set C \<Longrightarrow> c' \<in> set C \<Longrightarrow> fix_of c = fix_of c' \<Longrightarrow> c = c'"
proof -
  have "distinct (map fix_of C)"
    using bookD(5) [OF complete_pathD(2) [OF assms]] mset_eq_imp_distinct_iff [OF complete_pathD(3) [OF assms]] by blast
  then show "distinct C" "\<And>c c'. c \<in> set C \<Longrightarrow> c' \<in> set C \<Longrightarrow> fix_of c = fix_of c' \<Longrightarrow> c = c'"
    by (auto simp: distinct_map inj_on_def)
qed

lemma opens_distinct:
  assumes "events_inv lo hi E s"
  shows "distinct (opens_of E)"
  unfolding opens_of_def distinct_map
proof
  note i = events_invD [OF assms]
  show "distinct (filter (\<lambda>e. IsOpeningBracket (snd (snd e))) E)"
    using in_order_distinct [OF i(1)] by (simp add: distinct_map)
  show "inj_on (\<lambda>e. fst (snd e)) (set (filter (\<lambda>e. IsOpeningBracket (snd (snd e))) E))"
  proof (rule inj_onI)
    fix x y assume x: "x \<in> set (filter (\<lambda>e. IsOpeningBracket (snd (snd e))) E)"
      and y: "y \<in> set (filter (\<lambda>e. IsOpeningBracket (snd (snd e))) E)" and xy: "fst (snd x) = fst (snd y)"
    obtain p b k q b' k' where [simp]: "x = (p, b, k)" "y = (q, b', k')" by (cases x, cases y)
    have "p = q"
      using event_ok_opening [OF i(2), of p b k] event_ok_opening [OF i(2), of q b' k'] x y xy by auto
    with in_order_place [OF i(1), of x y] x y show "x = y" by simp
  qed
qed

lemma close_unique:
  assumes "complete_path lo hi ts E cs C" "(p, b, k) \<in> set E" "(q, b, k') \<in> set E"
    "IsClosingBracket k" "IsClosingBracket k'"
  shows "p = q" "k = k'"
  using closes_unique [OF complete_pathD(5) opens_distinct [OF complete_pathD(1)], OF assms(1,1), of "(p, b, k)" "(q, b, k')"]
    assms(2-5) opening_not_closing by auto

lemma event_cases:
  assumes "complete_path lo hi ts E cs C" "((p, c, q), b, k) \<in> set E"
  obtains (closer) d where "c = 0" "q = - d" "b = Opened d" "IsClosingBracket k" "lo \<le> d" "d < p"
  | (opener) "c = 1" "q = 0" "b = Inserted p" "IsOpeningBracket k" "lo \<le> p"
  | (token_open) "c = 2" "q = 0" "b = Opened p" "IsOpeningBracket k" "lo \<le> p"
  | (token_close) "c = 2" "q = 0" "IsClosingBracket k" "lo \<le> p"
proof -
  have "event_ok lo ((p, c, q), b, k)" by (rule events_invD(2) [OF complete_pathD(1) [OF assms(1)] assms(2)])
  then consider "c = 0" "b = Opened (- q)" "IsClosingBracket k" "lo \<le> - q" "- q < p"
    | "c = 1" "q = 0" "lo \<le> p" "b = Inserted p" "IsOpeningBracket k"
    | "c = 2" "q = 0" "lo \<le> p" "is_bracket k" "IsOpeningBracket k \<longrightarrow> b = Opened p"
    unfolding event_ok_def by auto
  then show ?thesis using closer [of "- q"] opener token_open token_close by cases auto
qed

lemma pair_events:
  assumes "complete_path lo hi ts E cs C" "(pl, b, k) \<in> set E"
  obtains pl' k' where "(pl', b, k') \<in> set E" "IsOpeningBracket k' \<longleftrightarrow> \<not> IsOpeningBracket k"
proof -
  have "set (closes_of E) = set (opens_of E)"
    using scan_events_pairs [OF complete_pathD(5) [OF assms(1)]] by (simp flip: set_mset_mset)
  moreover have "b \<in> set (if IsOpeningBracket k then opens_of E else closes_of E)"
    using assms(2) by (force simp: closes_of_def opens_of_def)
  ultimately have "b \<in> set (if IsOpeningBracket k then closes_of E else opens_of E)" by (simp split: if_splits)
  then obtain e where "e \<in> set E" "IsOpeningBracket (snd (snd e)) \<longleftrightarrow> \<not> IsOpeningBracket k" "b = fst (snd e)"
    by (auto simp: opens_of_def closes_of_def split: if_splits)
  then show ?thesis using that [of "fst e" "snd (snd e)"] by simp
qed

text \<open>An insertion and the brackets it stands for.\<close>

lemma insertion_cases:
  assumes "complete_path lo hi ts E cs C" "c \<in> set C" "bc_fix_action c \<noteq> ReplaceWithError"
  obtains (closer) k where "bc_fix_action c = InsertBefore" "is_closing_symbol (bc_fix_token_kind c)"
      "bc_fix_token_kind c = ToTokenKind k" "IsClosingBracket k" "pair_given_up c = Opened (bc_diagnostic_token_index c)"
      "((bc_fix_token_index c, 0, - bc_diagnostic_token_index c), Opened (bc_diagnostic_token_index c), k) \<in> set E"
      "lo \<le> bc_diagnostic_token_index c" "bc_diagnostic_token_index c < bc_fix_token_index c"
  | (opener) k k' where "bc_fix_action c = InsertBefore" "\<not> is_closing_symbol (bc_fix_token_kind c)"
      "bc_fix_token_kind c = ToTokenKind k" "IsOpeningBracket k" "pair_given_up c = Inserted (bc_fix_token_index c)"
      "((bc_fix_token_index c, 1, 0), Inserted (bc_fix_token_index c), k) \<in> set E"
      "((bc_diagnostic_token_index c, 2, 0), Inserted (bc_fix_token_index c), k') \<in> set E" "IsClosingBracket k'"
      "lo \<le> bc_fix_token_index c"
proof -
  let ?t = "bc_fix_token_index c" and ?kk = "bc_fix_token_kind c" and ?d = "bc_diagnostic_token_index c"
  note b = bookD [OF complete_pathD(2) [OF assms(1)]]
  have f: "fix_of c \<in> set cs" using assms(2) complete_pathD(4) [OF assms(1)] by blast
  have a: "bc_fix_action c = InsertBefore"
    using b(4) [OF f] assms(3) by (cases "bc_fix_action c") (auto simp: fix_of_def)
  with f have "closed_by E ?t ?kk ?d \<or> opened_by E ?t ?kk ?d" using b(3) by (simp add: fix_of_def)
  then show ?thesis
  proof
    assume "closed_by E ?t ?kk ?d"
    then obtain b' k where e: "((?t, 0, - ?d), b', k) \<in> set E" "?kk = ToTokenKind k" by (auto simp: closed_by_def)
    from assms(1) e(1) show ?thesis
    proof (cases rule: event_cases)
      case (closer d)
      with e a ToTokenKind_bracket [of k] show ?thesis using that(1) [of k] by (simp add: pair_given_up_def)
    qed simp_all
  next
    assume "opened_by E ?t ?kk ?d"
    then obtain b' k k' where e: "((?t, 1, 0), b', k) \<in> set E" "?kk = ToTokenKind k" "((?d, 2, 0), Inserted ?t, k') \<in> set E"
      by (auto simp: opened_by_def)
    from assms(1) e(1) show ?thesis
    proof (cases rule: event_cases)
      case opener
      moreover have "IsClosingBracket k'" using assms(1) e(3) by (cases rule: event_cases) simp_all
      ultimately show ?thesis using e a ToTokenKind_bracket [of k] that(2) [of k k'] by (simp add: pair_given_up_def)
    qed simp_all
  qed
qed

section \<open>A complete path is a repair\<close>

definition event_slot :: "event \<Rightarrow> place \<times> TokenKind" where
  "event_slot e = (fst e, ToTokenKind (snd (snd e)))"

text \<open>A token keeps its bracket unless its pair is given up.\<close>

lemma token_given_up:
  assumes "complete_path lo hi ts E cs C" "((p, 2, 0), b, k) \<in> set E"
  shows "b \<in> tied_pairs C \<longleftrightarrow> p \<in> given_up C"
proof -
  note d = complete_pathD [OF assms(1)]
  have notfix: "\<not> (bc_fix_action c = ReplaceWithError \<and> p = bc_fix_token_index c)" if "c \<in> set C" for c
  proof
    assume "bc_fix_action c = ReplaceWithError \<and> p = bc_fix_token_index c"
    then have "p \<in> errs cs" using that d(4) by (force simp: errs_def fix_of_def)
    moreover have "(p, k) \<in> kept E" using assms(2) by (auto simp: kept_def)
    ultimately show False using bookD(1) [OF d(2)] by simp
  qed
  have "b = pair_given_up c \<longleftrightarrow> p = bc_diagnostic_token_index c"
    if c: "c \<in> set C" "bc_fix_action c \<noteq> ReplaceWithError" for c
    using assms(1) c
  proof (cases rule: insertion_cases)
    case (closer k1)
    obtain pl k2 where o: "(pl, Opened (bc_diagnostic_token_index c), k2) \<in> set E" "IsOpeningBracket k2"
      using pair_events [OF assms(1) closer(6)] closer(4) by (metis opening_not_closing)
    then have pl: "pl = (bc_diagnostic_token_index c, 2, 0)"
      using event_ok_opening [OF events_invD(2) [OF d(1) o(1)] o(2)] by (cases pl) auto
    show ?thesis
    proof
      assume "b = pair_given_up c"
      then have b: "b = Opened (bc_diagnostic_token_index c)" using closer(5) by simp
      show "p = bc_diagnostic_token_index c"
        using assms
      proof (cases rule: event_cases)
        case token_close
        with close_unique(1) [OF assms(1) assms(2) [unfolded b] closer(6) _ closer(4)] show ?thesis by simp
      qed (use b in auto)
    next
      assume "p = bc_diagnostic_token_index c"
      with in_order_place [OF events_invD(1) [OF d(1)] assms(2) o(1)] pl closer(5) show "b = pair_given_up c" by simp
    qed
  next
    case (opener k1 k2)
    show ?thesis
    proof
      assume "b = pair_given_up c"
      then have b: "b = Inserted (bc_fix_token_index c)" using opener(5) by simp
      from assms have "IsClosingBracket k" by (cases rule: event_cases) (simp_all add: b)
      with close_unique(1) [OF assms(1) assms(2) [unfolded b] opener(7) _ opener(8)] show "p = bc_diagnostic_token_index c"
        by simp
    next
      assume "p = bc_diagnostic_token_index c"
      with in_order_place [OF events_invD(1) [OF d(1)] assms(2) opener(7)] opener(5) show "b = pair_given_up c" by simp
    qed
  qed
  with notfix show ?thesis unfolding tied_pairs_def given_up_def by blast
qed

text \<open>A correction is inserted unless its pair is given up.\<close>

lemma insertion_slot:
  assumes "complete_path lo hi ts E cs C" "c \<in> set C" "bc_fix_action c \<noteq> ReplaceWithError"
  obtains e where "e \<in> set E" "slot c = event_slot e" "fst (snd e) = pair_given_up c" "fst (snd (fst e)) < 2"
  using assms
proof (cases rule: insertion_cases)
  case (closer k)
  then show ?thesis using that [OF closer(6)] by (simp add: slot_def event_slot_def)
next
  case (opener k k')
  then show ?thesis using that [OF opener(6)] by (simp add: slot_def event_slot_def)
qed

lemma pair_given_up_inj:
  assumes "complete_path lo hi ts E cs C" "c \<in> set C" "bc_fix_action c \<noteq> ReplaceWithError"
    "c' \<in> set C" "bc_fix_action c' \<noteq> ReplaceWithError" "pair_given_up c = pair_given_up c'"
  shows "c = c'"
  using assms(1-3)
proof (cases rule: insertion_cases)
  case (closer k)
  note c = closer
  show ?thesis
    using assms(1,4,5)
  proof (cases rule: insertion_cases)
    case (closer k')
    have d: "bc_diagnostic_token_index c = bc_diagnostic_token_index c'" using c(5) closer(5) assms(6) by simp
    note u = close_unique [OF assms(1) c(6) [unfolded d] closer(6) c(4) closer(4)]
    from u d have "fix_of c = fix_of c'" using c(1,3) closer(1,3) by (simp add: fix_of_def)
    then show ?thesis using complete_distinct(2) [OF assms(1,2,4)] by simp
  next
    case (opener k k')
    then show ?thesis using c(5) assms(6) by simp
  qed
next
  case (opener k k')
  note c = opener
  show ?thesis
    using assms(1,4,5)
  proof (cases rule: insertion_cases)
    case (closer k')
    then show ?thesis using c(5) assms(6) by simp
  next
    case (opener k1 k2)
    have t: "bc_fix_token_index c = bc_fix_token_index c'" using c(5) opener(5) assms(6) by simp
    have "bc_diagnostic_token_index c = bc_diagnostic_token_index c'"
      using close_unique(1) [OF assms(1) c(7) [unfolded t] opener(7) c(8) opener(8)] by simp
    moreover have "k = k1"
      using in_order_place [OF events_invD(1) [OF complete_pathD(1) [OF assms(1)]] c(6) opener(6)] t by simp
    ultimately have "fix_of c = fix_of c'" using c(1,3) opener(1,3) t by (simp add: fix_of_def)
    then show ?thesis using complete_distinct(2) [OF assms(1,2,4)] by simp
  qed
qed

lemma insertion_event:
  assumes "complete_path lo hi ts E cs C" "e \<in> set E" "fst (snd (fst e)) < 2"
  obtains c where "c \<in> set C" "bc_fix_action c \<noteq> ReplaceWithError" "slot c = event_slot e" "fst (snd e) = pair_given_up c"
proof -
  obtain p q r b k where e: "e = ((p, q, r), b, k)" by (cases e) auto
  note d = complete_pathD [OF assms(1)] and bk = bookD [OF complete_pathD(2) [OF assms(1)]]
  have E: "((p, q, r), b, k) \<in> set E" using assms(2) e by simp
  have "\<exists>dd. (InsertBefore, p, ToTokenKind k, dd) \<in> set cs \<and> (IsClosingBracket k \<longrightarrow> b = Opened dd \<and> q = 0 \<and> r = - dd) \<and>
     (IsOpeningBracket k \<longrightarrow> b = Inserted p \<and> q = 1 \<and> r = 0) \<and> is_bracket k"
    using assms(1) E
  proof (cases rule: event_cases)
    case (closer dd)
    then have "closed_by E p (ToTokenKind k) dd" using E by (auto simp: closed_by_def)
    with closer bk(3) show ?thesis using opening_not_closing by blast
  next
    case opener
    obtain pl k' where pl: "(pl, b, k') \<in> set E" "\<not> IsOpeningBracket k'" using pair_events [OF assms(1) E] opener(4) by metis
    obtain p' q' r' where "pl = (p', q', r')" by (cases pl)
    with pl have p': "((p', q', r'), Inserted p, k') \<in> set E" using opener(3) by simp
    from assms(1) p' have "q' = 2 \<and> r' = 0" using pl(2) by (cases rule: event_cases) auto
    with p' have "((p', 2, 0), Inserted p, k') \<in> set E" by simp
    then have "opened_by E p (ToTokenKind k) p'" using E opener by (auto simp: opened_by_def)
    with opener bk(3) show ?thesis using opening_not_closing by blast
  qed (use assms(3) e in auto)
  then obtain dd where dd: "(InsertBefore, p, ToTokenKind k, dd) \<in> set cs" "IsClosingBracket k \<longrightarrow> b = Opened dd \<and> q = 0 \<and> r = - dd"
     "IsOpeningBracket k \<longrightarrow> b = Inserted p \<and> q = 1 \<and> r = 0" "is_bracket k" by blast
  from dd(1) obtain c where c: "c \<in> set C" "fix_of c = (InsertBefore, p, ToTokenKind k, dd)" using d(4) by (metis imageE)
  show ?thesis
    by (rule that [OF c(1)]) (use c(2) dd(2-4) ToTokenKind_bracket [of k] in
      \<open>auto simp: fix_of_def slot_def event_slot_def pair_given_up_def e\<close>)
qed

lemma path_slots:
  assumes "complete_path lo hi ts E cs C"
  shows "slots ts C = event_slot ` {e \<in> set E. fst (snd e) \<notin> tied_pairs C}" (is "?l = ?r")
proof
  note d = complete_pathD [OF assms] and bk = bookD [OF complete_pathD(2) [OF assms]]
  have tied: "bc_is_tied c \<longleftrightarrow> pair_given_up c \<in> tied_pairs C" if "c \<in> set C" "bc_fix_action c \<noteq> ReplaceWithError" for c
    using that pair_given_up_inj [OF assms that] by (auto simp: tied_pairs_def)
  show "?l \<subseteq> ?r"
  proof
    fix x assume "x \<in> ?l"
    then consider c where "c \<in> set C" "inserts c" "x = slot c"
      | p k where "(p, k) \<in> set ts" "is_bracket k" "p \<notin> given_up C" "x = ((p, 2, 0), ToTokenKind k)"
      unfolding slots_def by blast
    then show "x \<in> ?r"
    proof cases
      case 1
      then have r: "bc_fix_action c \<noteq> ReplaceWithError" "\<not> bc_is_tied c" by (simp_all add: inserts_def)
      obtain e where "e \<in> set E" "slot c = event_slot e" "fst (snd e) = pair_given_up c"
        using insertion_slot [OF assms 1(1) r(1)] by metis
      with 1 r tied show ?thesis by auto
    next
      case 2
      have "p \<notin> errs cs"
      proof
        assume "p \<in> errs cs"
        then obtain kk dd where "(ReplaceWithError, p, kk, dd) \<in> fix_of ` set C" using d(4) by (auto simp: errs_def)
        then have "p \<in> given_up C" by (auto simp: given_up_def fix_of_def)
        with 2(3) show False by simp
      qed
      with 2(1,2) have "(p, k) \<in> kept E" unfolding bk(1) by simp
      then obtain b where e: "((p, 2, 0), b, k) \<in> set E" by (auto simp: kept_def)
      then have "b \<notin> tied_pairs C" using token_given_up [OF assms e] 2(3) by simp
      with e show ?thesis by (auto simp: 2(4) event_slot_def intro!: image_eqI [of _ _ "((p, 2, 0), b, k)"])
    qed
  qed
  show "?r \<subseteq> ?l"
  proof
    fix x assume "x \<in> ?r"
    then obtain e where e: "e \<in> set E" "fst (snd e) \<notin> tied_pairs C" "x = event_slot e" by auto
    show "x \<in> ?l"
    proof (cases "fst (snd (fst e)) < 2")
      case True
      obtain c where c: "c \<in> set C" "bc_fix_action c \<noteq> ReplaceWithError" "slot c = event_slot e" "fst (snd e) = pair_given_up c"
        using insertion_event [OF assms e(1) True] by metis
      with e tied have "inserts c" by (simp add: inserts_def)
      with c(1) have "slot c \<in> slots ts C" unfolding slots_def by blast
      with c(3) e(3) show ?thesis by simp
    next
      case False
      obtain p q r b k where ee: "e = ((p, q, r), b, k)" by (cases e) auto
      from assms e(1) [unfolded ee] have "q = 2 \<and> r = 0" using False ee by (cases rule: event_cases) auto
      with e(1) ee have k: "((p, 2, 0), b, k) \<in> set E" by simp
      then have "(p, k) \<in> kept E" by (auto simp: kept_def)
      then have "(p, k) \<in> set ts" "is_bracket k" unfolding bk(1) by auto
      moreover have "p \<notin> given_up C" using token_given_up [OF assms k] e(2) ee by simp
      ultimately show ?thesis using e(3) ee \<open>q = 2 \<and> r = 0\<close> by (auto simp: slots_def event_slot_def)
    qed
  qed
qed

lemma complete_path_balanced:
  assumes "complete_path lo hi ts E cs C"
  shows "\<exists>S. in_order S \<and> set S = slots ts C \<and> balanced (map snd S)"
proof (intro exI conjI)
  let ?F = "filter (\<lambda>e. fst (snd e) \<notin> tied_pairs C) E"
  note d = complete_pathD [OF assms]
  have "in_order ?F" using events_invD(1) [OF d(1)] by (rule sorted_wrt_filter)
  then show "in_order (map event_slot ?F)" by (simp add: sorted_wrt_map event_slot_def)
  show "set (map event_slot ?F) = slots ts C" unfolding path_slots [OF assms] by simp
  have "scan_events ?F [] = Some []" using scan_events_filter [OF d(5), of "\<lambda>b. b \<notin> tied_pairs C"] by simp
  from scan_events_open_after [OF this] show "balanced (map snd (map event_slot ?F))"
    by (simp add: balanced_def event_slot_def comp_def)
qed

text \<open>The bracket an insertion is diagnosed at is kept, and belongs to the pair of the insertion.\<close>

lemma insertion_token:
  assumes "complete_path lo hi ts E cs C" "c \<in> set C" "bc_fix_action c \<noteq> ReplaceWithError"
  obtains k where "((bc_diagnostic_token_index c, 2, 0), pair_given_up c, k) \<in> set E"
  using assms
proof (cases rule: insertion_cases)
  case (closer k)
  obtain pl k2 where o: "(pl, Opened (bc_diagnostic_token_index c), k2) \<in> set E" "IsOpeningBracket k2"
    using pair_events [OF assms(1) closer(6)] closer(4) by (metis opening_not_closing)
  then have "pl = (bc_diagnostic_token_index c, 2, 0)"
    using event_ok_opening [OF events_invD(2) [OF complete_pathD(1) [OF assms(1)] o(1)] o(2)] by (cases pl) auto
  with o(1) closer(5) show thesis using that by simp
next
  case (opener k k')
  then show thesis using that by simp
qed

lemma insertion_diag_inj:
  assumes "complete_path lo hi ts E cs C"
  shows "inj_on bc_diagnostic_token_index (set (filter inserts C))"
proof (rule inj_onI)
  fix c c' assume c: "c \<in> set (filter inserts C)" "c' \<in> set (filter inserts C)"
    "bc_diagnostic_token_index c = bc_diagnostic_token_index c'"
  then have n: "c \<in> set C" "bc_fix_action c \<noteq> ReplaceWithError" "c' \<in> set C" "bc_fix_action c' \<noteq> ReplaceWithError"
    by (auto simp: inserts_def)
  obtain k where k: "((bc_diagnostic_token_index c, 2, 0), pair_given_up c, k) \<in> set E" using insertion_token [OF assms n(1,2)] .
  obtain k' where k': "((bc_diagnostic_token_index c', 2, 0), pair_given_up c', k') \<in> set E" using insertion_token [OF assms n(3,4)] .
  from in_order_place [OF events_invD(1) [OF complete_pathD(1) [OF assms]] k k'] c(3)
  show "c = c'" using pair_given_up_inj [OF assms n] by simp
qed

lemma correction_in_range:
  assumes "complete_path lo hi ts E cs C" "c \<in> set C"
  shows "correction_ok lo hi ts c"
proof -
  note d = complete_pathD [OF assms(1)] and bk = bookD [OF complete_pathD(2) [OF assms(1)]]
  have f: "fix_of c \<in> set cs" using assms(2) d(4) by blast
  have kept: "(p, k) \<in> set ts \<and> is_bracket k" if "((p, 2, 0), b, k) \<in> set E" for p b k
  proof -
    have "(p, k) \<in> kept E" using that by (auto simp: kept_def)
    then show ?thesis unfolding bk(1) by simp
  qed
  have hi: "p \<le> hi" if "((p, q, r), b, k) \<in> set E" for p q r b k
    using events_invD(3) [OF d(1) that] by auto
  show ?thesis
  proof (cases "bc_fix_action c = ReplaceWithError")
    case True
    then show ?thesis using bk(2) [of "bc_fix_token_index c" "bc_fix_token_kind c" "bc_diagnostic_token_index c"] f
      by (auto simp: fix_of_def correction_ok_def)
  next
    case False
    with assms show ?thesis
    proof (cases rule: insertion_cases)
      case (closer k)
      obtain k2 where "((bc_diagnostic_token_index c, 2, 0), pair_given_up c, k2) \<in> set E" using insertion_token [OF assms False] .
      with kept have "(bc_diagnostic_token_index c, k2) \<in> set ts \<and> is_bracket k2" by blast
      with closer hi [OF closer(6)] show ?thesis by (auto simp: correction_ok_def ToTokenKind_bracket)
    next
      case (opener k k')
      with kept [OF opener(7)] hi [OF opener(6)] show ?thesis by (auto simp: correction_ok_def ToTokenKind_bracket)
    qed
  qed
qed

theorem complete_path_repairs:
  assumes "complete_path lo hi ts E cs C"
  shows "repairs lo hi ts C"
  unfolding repairs_def
proof (intro conjI ballI)
  note d = complete_pathD [OF assms]
  show "\<exists>S. in_order S \<and> set S = slots ts C \<and> balanced (map snd S)" by (rule complete_path_balanced [OF assms])
  show "correction_ok lo hi ts c" if "c \<in> set C" for c by (rule correction_in_range [OF assms that])
  show "distinct (map slot (filter inserts C))"
    unfolding distinct_map
  proof
    show "distinct (filter inserts C)" using complete_distinct(1) [OF assms] by simp
    show "inj_on slot (set (filter inserts C))"
    proof (rule inj_onI)
      fix c c' assume c: "c \<in> set (filter inserts C)" "c' \<in> set (filter inserts C)" "slot c = slot c'"
      then have n: "c \<in> set C" "bc_fix_action c \<noteq> ReplaceWithError" "c' \<in> set C" "bc_fix_action c' \<noteq> ReplaceWithError"
        by (auto simp: inserts_def)
      obtain e where e: "e \<in> set E" "slot c = event_slot e" "fst (snd e) = pair_given_up c"
        using insertion_slot [OF assms n(1,2)] by metis
      obtain e' where e': "e' \<in> set E" "slot c' = event_slot e'" "fst (snd e') = pair_given_up c'"
        using insertion_slot [OF assms n(3,4)] by metis
      have "e = e'" using in_order_place [OF events_invD(1) [OF d(1)] e(1) e'(1)] c(3) e(2) e'(2) by (simp add: event_slot_def)
      with pair_given_up_inj [OF assms n] e(3) e'(3) show "c = c'" by simp
    qed
  qed
  show "distinct (map bc_diagnostic_token_index (filter inserts C))"
    using complete_distinct(1) [OF assms] insertion_diag_inj [OF assms] by (simp add: distinct_map)
  fix x assume "x \<in> slots ts C"
  then obtain e where e: "e \<in> set E" "fst x = fst e" unfolding path_slots [OF assms] by (auto simp: event_slot_def)
  obtain p q r b k where ee: "e = ((p, q, r), b, k)" by (cases e) auto
  have less: "fst e < (hi, 2, 0)" by (rule events_invD(3) [OF d(1) e(1)])
  have ne: "(hi, 1, 0) \<noteq> fst e" using d(6) e(1) by force
  from assms e(1) [unfolded ee] show "(lo, 1, 0) \<le> fst x" unfolding e(2)
    by (cases rule: event_cases) (auto simp: ee)
  from assms e(1) [unfolded ee] show "fst x < (hi, 1, 0)" unfolding e(2)
    using less ne by (cases rule: event_cases) (auto simp: ee)
qed

text \<open>The same for the items of a region, with the fixes in any order.\<close>

definition path_fixes :: "Item list \<Rightarrow> int \<Rightarrow> (Item \<Rightarrow> event list) \<Rightarrow> BracketCorrection list \<Rightarrow> bool" where
  "path_fixes items rend blk C \<longleftrightarrow>
     (\<exists>E cs. path items rend blk E cs [] (length items) \<and> mset (map fix_of C) = mset cs)"

theorem path_fixes_repairs:
  assumes "region_ok items rend toks blk" "path_fixes items rend blk C"
  shows "repairs (gap_at items rend 0) rend (concat (map toks items)) C"
proof -
  obtain E cs where p: "path items rend blk E cs [] (length items)" and m: "mset (map fix_of C) = mset cs"
    using assms(2) by (auto simp: path_fixes_def)
  have "events_inv (gap_at items rend 0) rend E []" using path_events [OF assms(1) p] by (simp add: gap_at_def)
  moreover have "book (concat (map toks items)) E cs" using path_book [OF assms(1) p] by (simp add: passed_all)
  ultimately show ?thesis using m by (intro complete_path_repairs) (simp add: complete_path_def)
qed

end
