(* ===== verification/Bracket_Naive.thy ===== *)
theory Bracket_Naive
  imports Bracket_Contract
begin

text \<open>
  The greedy fallback and the test for balanced regions, as paths. The fallback gives up an opener long after
  it has passed it; a path that kept the opener open all the way can be changed into one that gave it up at
  once.
\<close>

section \<open>Giving up an open bracket\<close>

definition give_up :: "int \<Rightarrow> BracketTokenKind \<Rightarrow> fix_data" where
  "give_up t k = (ReplaceWithError, t, ToTokenKind k, t)"

lemma path_drop:
  assumes "path items rend blk E cs st i" "st = u @ x # s" "\<not> ob_is_synthetic x"
  shows "\<exists>E' cs'. path items rend blk E' cs' (u @ s) i \<and>
    mset cs' = add_mset (give_up (ob_token_index x) (ob_kind x)) (mset cs)"
  using assms
proof (induction arbitrary: u rule: path.induct)
  case (path_closer E cs y st i)
  then obtain E' cs' where "path items rend blk E' cs' (y # u @ s) i"
      "mset cs' = add_mset (give_up (ob_token_index x) (ob_kind x)) (mset cs)"
    using path_closer.IH [of "y # u"] by auto
  with path.path_closer [OF this(1) path_closer(2,3)] show ?case by fastforce
next
  case (path_opener E cs st i y)
  show ?case
  proof (cases u)
    case Nil
    then show ?thesis using path_opener by simp
  next
    case (Cons z u')
    with path_opener obtain E' cs' where p: "path items rend blk E' cs' (u' @ s) i"
        "mset cs' = add_mset (give_up (ob_token_index x) (ob_kind x)) (mset cs)"
      using path_opener.IH [of u'] by auto
    have "Inserted (tok (items ! i)) \<notin> fst ` pair_of ` set (u' @ s)" using path_opener(6,8) Cons by auto
    from path.path_opener [OF p(1) path_opener(2-5) this] p(2) Cons path_opener(8) show ?thesis by fastforce
  qed
next
  case (path_block E cs st i)
  then obtain E' cs' where p: "path items rend blk E' cs' (u @ s) i"
      "mset cs' = add_mset (give_up (ob_token_index x) (ob_kind x)) (mset cs)" by blast
  from path.path_block [OF p(1) path_block(2,3)] p(2) show ?case by blast
next
  case (path_plain E cs st i)
  then obtain E' cs' where p: "path items rend blk E' cs' (u @ s) i"
      "mset cs' = add_mset (give_up (ob_token_index x) (ob_kind x)) (mset cs)" by blast
  from path.path_plain [OF p(1) path_plain(2-4)] p(2) show ?case by blast
next
  case (path_push E cs st i y)
  show ?case
  proof (cases u)
    case Nil
    then have "y = x" "st = s" using path_push(9) by auto
    with path.path_error [OF path_push(1-3)] path_push(4,6,7) Nil show ?thesis
      by (auto simp: give_up_def intro!: exI [of _ E] exI [of _ "cs @ [give_up (ob_token_index x) (ob_kind x)]"])
  next
    case (Cons z u')
    with path_push obtain E' cs' where p: "path items rend blk E' cs' (u' @ s) i"
        "mset cs' = add_mset (give_up (ob_token_index x) (ob_kind x)) (mset cs)"
      using path_push.IH [of u'] by auto
    from path.path_push [OF p(1) path_push(2-7)] p(2) Cons path_push(9) show ?thesis by fastforce
  qed
next
  case (path_error E cs st i)
  then obtain E' cs' where p: "path items rend blk E' cs' (u @ s) i"
      "mset cs' = add_mset (give_up (ob_token_index x) (ob_kind x)) (mset cs)" by blast
  from path.path_error [OF p(1) path_error(2-4)] p(2) show ?case by fastforce
next
  case (path_match E cs y st i)
  then obtain E' cs' where p: "path items rend blk E' cs' (y # u @ s) i"
      "mset cs' = add_mset (give_up (ob_token_index x) (ob_kind x)) (mset cs)"
    using path_match.IH [of "y # u"] by auto
  from path.path_match [OF p(1) path_match(2-5)] p(2) show ?case by fastforce
qed simp

text \<open>A path whose fixes are some corrections in some order.\<close>

definition path_with ::
    "Item list \<Rightarrow> int \<Rightarrow> (Item \<Rightarrow> event list) \<Rightarrow> BracketCorrection list \<Rightarrow> OpenBracketKey list \<Rightarrow> nat \<Rightarrow> bool" where
  "path_with items rend blk C s i \<longleftrightarrow> (\<exists>E cs. path items rend blk E cs s i \<and> mset (map fix_of C) = mset cs)"

lemma path_withD: "path_with items rend blk C s i \<Longrightarrow> \<exists>E cs. path items rend blk E cs s i \<and> mset (map fix_of C) = mset cs"
  by (simp add: path_with_def)

lemma path_withI: "path items rend blk E cs s i \<Longrightarrow> mset (map fix_of C) = mset cs \<Longrightarrow> path_with items rend blk C s i"
  by (auto simp: path_with_def)

lemma path_fixes_iff: "path_fixes items rend blk C \<longleftrightarrow> path_with items rend blk C [] (length items)"
  by (simp add: path_fixes_def path_with_def)

section \<open>The greedy fallback\<close>

definition token_key :: "MismatchedBracketToken \<Rightarrow> OpenBracketKey" where
  "token_key t = \<lparr>ob_token_index = mb_token_index t, ob_insertion_token_index = -1, ob_token_pos = -1, ob_line = mb_line t,
     ob_line_indent = mb_line_indent t, ob_effective_header_indent = 0, ob_kind = mb_kind t, ob_is_synthetic = False,
     ob_is_struct_brace = mb_is_struct_brace t, ob_is_call_paren = False\<rparr>"

lemma fix_of_error: "fix_of (ReplaceWithError_fix t d r) = give_up (mb_token_index t) (mb_kind t)"
  by (simp add: fix_of_def ReplaceWithError_fix_def give_up_def)

lemma path_drop_all:
  assumes "path_with items rend blk C (map token_key u @ s) i"
  shows "path_with items rend blk (C @ map (\<lambda>t. ReplaceWithError_fix t d r) u) s i"
  using assms
proof (induction u arbitrary: C)
  case (Cons t u)
  from path_withD [OF Cons.prems] obtain E cs where
    p: "path items rend blk E cs (token_key t # map token_key u @ s) i" "mset (map fix_of C) = mset cs" by auto
  obtain E' cs' where q: "path items rend blk E' cs' (map token_key u @ s) i"
      "mset cs' = add_mset (give_up (mb_token_index t) (mb_kind t)) (mset cs)"
    using path_drop [OF p(1), of "[]" "token_key t" "map token_key u @ s"] by (auto simp: token_key_def)
  have "path_with items rend blk (C @ [ReplaceWithError_fix t d r]) (map token_key u @ s) i"
    by (rule path_withI [OF q(1)]) (use p(2) q(2) in \<open>simp add: fix_of_error\<close>)
  from Cons.IH [OF this] show ?case by simp
qed simp

lemma naive_step_path:
  assumes "path_with items rend blk C (map token_key st) i" "i < length items"
    "naive_step (items ! i) (C0 @ C, st) = (C1, st1)"
  shows "\<exists>C'. C1 = C0 @ C' \<and> path_with items rend blk C' (map token_key st1) (Suc i)"
proof (cases "HasAll (items ! i) {CollapsedBlock}")
  case True
  then have "C1 = C0 @ C" "st1 = st" using assms(3) by (simp_all add: naive_step_def)
  moreover have "path_with items rend blk C (map token_key st) (Suc i)"
    using path_withD [OF assms(1)] path.path_block [OF _ assms(2) True] by (force intro: path_withI)
  ultimately show ?thesis by blast
next
  case False
  let ?item = "items ! i" and ?group = "\<lambda>t. mb_kind t = OpenParen_k \<or> mb_kind t = OpenSquareBracket_k"
  let ?k = "item_kind ?item"
  define stops where "stops \<longleftrightarrow> ?k = Semi_k \<or> ?k = StatementIntroducer_k \<or> ?k = OpenCurlyBrace_k \<or> ?k = FileEnd_k"
  define D where "D = (if stops then C @ map (\<lambda>t. ReplaceWithError_fix t UnmatchedOpening_d ''Naive_UnclosedParenBracket'')
                      (takeWhile ?group st) else C)"
  define s where "s = (if stops then dropWhile ?group st else st)"
  have D: "path_with items rend blk D (map token_key s) i"
    using path_drop_all [of items rend blk C "takeWhile ?group st" "map token_key (dropWhile ?group st)" i] assms(1)
    by (simp add: D_def s_def flip: map_append)
  consider (opens) "IsOpeningBracket ?k" "C1 = C0 @ D" "st1 = it_token ?item # s"
    | (none) "IsClosingBracket ?k"
        "C1 = C0 @ D @ [ReplaceWithError_fix (it_token ?item) UnmatchedClosing_d ''Naive_UnmatchedClosing'']" "st1 = s"
    | (found) m where "IsClosingBracket ?k" "find_if (\<lambda>t. MatchingClosingKind (mb_kind t) = ?k) (take 16 s) = Some m"
        "C1 = C0 @ D @ map (\<lambda>t. ReplaceWithError_fix t UnmatchedOpening_d ''Naive_PoppedOpener'') (take m s)"
        "st1 = drop (m + 1) s"
    | (other) "\<not> is_bracket ?k" "C1 = C0 @ D" "st1 = s"
    using assms(3) False unfolding naive_step_def D_def s_def stops_def
    by (auto simp: Let_def split: if_splits option.splits)
  then show ?thesis
  proof cases
    case opens
    from path_withD [OF D] obtain E cs where p: "path items rend blk E cs (map token_key s) i" "mset (map fix_of D) = mset cs" by blast
    have "path_with items rend blk D (token_key (it_token ?item) # map token_key s) (i + 1)"
      by (rule path_withI [OF path.path_push [OF p(1) assms(2) False opens(1)] p(2)]) (simp_all add: token_key_def tok_def)
    then show ?thesis using opens by auto
  next
    case none
    from path_withD [OF D] obtain E cs where p: "path items rend blk E cs (map token_key s) i" "mset (map fix_of D) = mset cs" by blast
    have "path_with items rend blk (D @ [ReplaceWithError_fix (it_token ?item) UnmatchedClosing_d ''Naive_UnmatchedClosing''])
        (map token_key s) (i + 1)"
      by (rule path_withI [OF path.path_error [OF p(1) assms(2) False]]) (use none p(2) in \<open>simp_all add: fix_of_error give_up_def tok_def\<close>)
    then show ?thesis using none by auto
  next
    case found
    let ?D = "D @ map (\<lambda>t. ReplaceWithError_fix t UnmatchedOpening_d ''Naive_PoppedOpener'') (take m s)"
    have m: "m < length s" "MatchingClosingKind (mb_kind (s ! m)) = ?k" using find_if_Some [OF found(2)] by auto
    have "map token_key s = map token_key (take m s) @ map token_key (drop m s)" by (simp flip: map_append)
    with D have "path_with items rend blk ?D (map token_key (drop m s)) i" using path_drop_all by metis
    moreover have "drop m s = s ! m # drop (m + 1) s" using m(1) by (simp add: Cons_nth_drop_Suc)
    ultimately obtain E cs where
      p: "path items rend blk E cs (token_key (s ! m) # map token_key (drop (m + 1) s)) i" "mset (map fix_of ?D) = mset cs"
      using path_withD by fastforce
    have k: "ob_kind (token_key (s ! m)) = MatchingOpeningKind ?k"
      using m(2) found(1) matching_iff [of ?k] by (simp add: token_key_def)
    have "path_with items rend blk ?D (map token_key (drop (m + 1) s)) (i + 1)"
      by (rule path_withI [OF path.path_match [OF p(1) assms(2) False found(1) k]]) (use p(2) in \<open>simp add: token_key_def\<close>)
    then show ?thesis using found(3,4) by auto
  next
    case other
    then show ?thesis using path_withD [OF D] path.path_plain [OF _ assms(2) False other(1)] by (force intro: path_withI)
  qed
qed

theorem SolveNaive_path:
  "\<exists>C. SolveNaive items C0 = C0 @ C \<and> path_fixes items rend blk C"
proof -
  have "i \<le> length items \<Longrightarrow>
    \<exists>C st. fold naive_step (take i items) (C0, []) = (C0 @ C, st) \<and> path_with items rend blk C (map token_key st) i" for i
  proof (induction i)
    case 0
    show ?case using path.path_start by (force intro: path_withI)
  next
    case (Suc i)
    then obtain C st where f: "fold naive_step (take i items) (C0, []) = (C0 @ C, st)"
        "path_with items rend blk C (map token_key st) i" by auto
    obtain C1 st1 where s: "naive_step (items ! i) (C0 @ C, st) = (C1, st1)" by force
    have "fold naive_step (take (Suc i) items) (C0, []) = (C1, st1)" using Suc.prems f(1) s by (simp add: take_Suc_conv_app_nth)
    then show ?case using naive_step_path [OF f(2) _ s] Suc.prems by auto
  qed
  from this [of "length items"] obtain C st where f: "fold naive_step items (C0, []) = (C0 @ C, st)"
      "path_with items rend blk C (map token_key st) (length items)" by auto
  with path_drop_all [of items rend blk C st "[]"] show ?thesis by (auto simp: SolveNaive_def path_fixes_iff)
qed

section \<open>Balanced regions\<close>

lemma balance_path:
  assumes "i \<le> length items" "balance_loop (drop i items) (map ob_kind s) = Some []" "path_with items rend blk C s i"
    "\<forall>x \<in> set s. \<not> ob_is_synthetic x"
  shows "path_fixes items rend blk C"
  using assms
proof (induction "length items - i" arbitrary: i s)
  case 0
  then show ?case by (simp add: path_fixes_iff)
next
  case (Suc n)
  then have i: "i < length items" by simp
  let ?item = "items ! i"
  let ?k = "item_kind ?item"
  have d: "drop i items = ?item # drop (Suc i) items" using i by (simp add: Cons_nth_drop_Suc)
  note b = Suc.prems(2) [unfolded d]
  from path_withD [OF Suc.prems(3)] obtain E cs where p: "path items rend blk E cs s i" "mset (map fix_of C) = mset cs" by blast
  have n: "n = length items - Suc i" "Suc i \<le> length items" using Suc.hyps(2) i by auto
  note next' = Suc.hyps(1) [OF n]
  show ?case
  proof (cases "HasAll ?item {CollapsedBlock}")
    case True
    have "path_with items rend blk C s (i + 1)" by (rule path_withI [OF path.path_block [OF p(1) i True] p(2)])
    with next' [of s] Suc.prems(4) True b show ?thesis by simp
  next
    case False
    consider (op) "IsOpeningBracket ?k" | (cl) "IsClosingBracket ?k" | (no) "\<not> is_bracket ?k" by blast
    then show ?thesis
    proof cases
      case op
      have "path_with items rend blk C (token_key (it_token ?item) # s) (i + 1)"
        by (rule path_withI [OF path.path_push [OF p(1) i False op] p(2)]) (simp_all add: token_key_def tok_def)
      with next' [of "token_key (it_token ?item) # s"] Suc.prems(4) False op b show ?thesis by (simp add: token_key_def Let_def)
    next
      case cl
      with b False obtain x s' where x: "s = x # s'" "MatchingClosingKind (ob_kind x) = ?k"
          "balance_loop (drop (Suc i) items) (map ob_kind s') = Some []"
        by (cases s) (auto simp: Let_def dest: opening_not_closing split: if_splits)
      have k: "ob_kind x = MatchingOpeningKind ?k" using x(2) cl matching_iff [of ?k] by simp
      have "path_with items rend blk C s' (i + 1)"
        by (rule path_withI [OF path.path_match [OF p(1) [unfolded x(1)] i False cl k]])
          (use p(2) Suc.prems(4) x(1) in simp)
      with next' [of s'] Suc.prems(4) x show ?thesis by simp
    next
      case no
      have "path_with items rend blk C s (i + 1)" by (rule path_withI [OF path.path_plain [OF p(1) i False no] p(2)])
      with next' [of s] Suc.prems(4) False no b show ?thesis by (simp add: Let_def)
    qed
  qed
qed

theorem RegionIsBalanced_path: "RegionIsBalanced items \<Longrightarrow> path_fixes items rend blk []"
  using balance_path [of 0 items "[]" rend blk "[]"] path_withI [OF path.path_start, of "[]"] by (simp add: RegionIsBalanced_def)

end
