(* ===== verification/Bracket_Nodes.thy ===== *)
theory Bracket_Nodes
  imports Bracket_Naive
begin

text \<open>
  The graph of search nodes, apart from how it grows: each node has a state, the open brackets before an item, and
  each parent edge is a step of a repair from the parent's state. Steps only lead to later states, so
  walking the edges back ends at the root, and the corrections met on the way are those of a path.
\<close>

section \<open>Steps\<close>

type_synonym search_point = "OpenBracketKey list \<times> nat"

inductive step :: "Item list \<Rightarrow> int \<Rightarrow> search_point \<Rightarrow> fix_data option \<Rightarrow> search_point \<Rightarrow> bool" for items :: "Item list" and rend :: int where
  step_closer: "\<not> ob_is_synthetic x \<Longrightarrow> i \<le> length items \<Longrightarrow>
    step items rend (x # s, i)
      (Some (InsertBefore, gap_at items rend i, ToTokenKind (MatchingClosingKind (ob_kind x)), ob_token_index x)) (s, i)"
| step_opener: "i < length items \<Longrightarrow> ob_is_synthetic x \<Longrightarrow> IsOpeningBracket (ob_kind x) \<Longrightarrow>
    ob_insertion_token_index x = tok (items ! i) \<Longrightarrow> Inserted (tok (items ! i)) \<notin> fst ` pair_of ` set s \<Longrightarrow>
    step items rend (s, i) None (x # s, i)"
| step_block: "i < length items \<Longrightarrow> HasAll (items ! i) {CollapsedBlock} \<Longrightarrow> step items rend (s, i) None (s, Suc i)"
| step_plain: "i < length items \<Longrightarrow> \<not> HasAll (items ! i) {CollapsedBlock} \<Longrightarrow> \<not> is_bracket (item_kind (items ! i)) \<Longrightarrow>
    step items rend (s, i) None (s, Suc i)"
| step_push: "i < length items \<Longrightarrow> \<not> HasAll (items ! i) {CollapsedBlock} \<Longrightarrow> IsOpeningBracket (item_kind (items ! i)) \<Longrightarrow>
    \<not> ob_is_synthetic x \<Longrightarrow> ob_token_index x = tok (items ! i) \<Longrightarrow> ob_kind x = item_kind (items ! i) \<Longrightarrow>
    step items rend (s, i) None (x # s, Suc i)"
| step_error: "i < length items \<Longrightarrow> \<not> HasAll (items ! i) {CollapsedBlock} \<Longrightarrow> is_bracket (item_kind (items ! i)) \<Longrightarrow>
    step items rend (s, i) (Some (ReplaceWithError, tok (items ! i), ToTokenKind (item_kind (items ! i)), tok (items ! i))) (s, Suc i)"
| step_match: "i < length items \<Longrightarrow> \<not> HasAll (items ! i) {CollapsedBlock} \<Longrightarrow> IsClosingBracket (item_kind (items ! i)) \<Longrightarrow>
    ob_kind x = MatchingOpeningKind (item_kind (items ! i)) \<Longrightarrow>
    step items rend (x # s, i)
      (if ob_is_synthetic x then Some (InsertBefore, ob_insertion_token_index x, ToTokenKind (ob_kind x), tok (items ! i)) else None)
      (s, Suc i)"

definition opt_list :: "'x option \<Rightarrow> 'x list" where
  "opt_list = case_option [] (\<lambda>x. [x])"

lemma opt_list_simps [simp]: "opt_list None = []" "opt_list (Some x) = [x]"
  by (simp_all add: opt_list_def)

lemma path_step:
  assumes "step items rend p c q" "path items rend blk E cs (fst p) (snd p)"
  shows "\<exists>E'. path items rend blk E' (cs @ opt_list c) (fst q) (snd q)"
  using assms
proof (induction rule: step.induct)
  case (step_closer x i s)
  then show ?case using path_closer by fastforce
next
  case (step_opener i x s)
  then show ?case using path_opener by fastforce
next
  case (step_block i s)
  then show ?case using path_block by fastforce
next
  case (step_plain i s)
  then show ?case using path_plain by fastforce
next
  case (step_push i x s)
  then show ?case using path_push by fastforce
next
  case (step_error i s)
  then show ?case using path_error by fastforce
next
  case (step_match i x s)
  then show ?case using path_match [of items rend blk E cs x s i] by (cases "ob_is_synthetic x") fastforce+
qed

text \<open>A step leads to a later state: a later item, an opener just inserted, or fewer open brackets.\<close>

definition here :: "Item list \<Rightarrow> search_point \<Rightarrow> nat" where
  "here items p = (if fst p \<noteq> [] \<and> snd p < length items \<and> fst (pair_of (hd (fst p))) = Inserted (tok (items ! snd p)) then 1 else 0)"

definition rank :: "Item list \<Rightarrow> nat \<Rightarrow> search_point \<Rightarrow> nat" where
  "rank items m p = (2 * snd p + here items p) * Suc m + (m - length (fst p))"

lemma rank_less:
  assumes "a < b" shows "a * Suc m + (m - x) < b * Suc m + (m - y)"
proof -
  have "a * Suc m + (m - x) < Suc a * Suc m" by simp
  also have "\<dots> \<le> b * Suc m" using assms by (intro mult_le_mono1) simp
  finally show ?thesis by simp
qed

lemma step_rank:
  assumes "step items rend p c q" "length (fst p) \<le> m"
  shows "rank items m p < rank items m q"
proof -
  have le: "here items x \<le> 1" for x by (simp add: here_def)
  have later: "rank items m (s, i) < rank items m (s', Suc i)" for s s' i
    unfolding rank_def using le [of "(s, i)"] by (intro rank_less) simp
  from assms show ?thesis
  proof (induction rule: step.induct)
    case (step_closer x i s)
    then have h: "here items (x # s, i) = 0" by (simp add: here_def pair_of_def)
    show ?case
    proof (cases "here items (s, i) = 0")
      case True
      with h step_closer show ?thesis by (simp add: rank_def)
    next
      case False
      with h show ?thesis unfolding rank_def by (intro rank_less) simp
    qed
  next
    case (step_opener i x s)
    then have "here items (s, i) = 0" "here items (x # s, i) = 1"
      by (auto simp: here_def pair_of_def image_iff dest!: list.set_sel(1))
    then show ?case unfolding rank_def by (intro rank_less) simp
  qed (rule later)+
qed

section \<open>Nodes\<close>

definition edges_ok :: "Item list \<Rightarrow> int \<Rightarrow> BeamNode list \<Rightarrow> (nat \<Rightarrow> search_point) \<Rightarrow> bool" where
  "edges_ok items rend nodes g \<longleftrightarrow> (\<forall>n < length nodes.
     (bn_parent_edges (nodes ! n) = [] \<longrightarrow> g n = ([], 0)) \<and>
     (\<forall>e \<in> set (bn_parent_edges (nodes ! n)). pe_parent_node_index e < length nodes \<and>
        step items rend (g (pe_parent_node_index e)) (map_option fix_of (pe_correction e)) (g n)))"

lemma edges_okD:
  assumes "edges_ok items rend nodes g" "n < length nodes"
  shows "bn_parent_edges (nodes ! n) = [] \<Longrightarrow> g n = ([], 0)"
    "e \<in> set (bn_parent_edges (nodes ! n)) \<Longrightarrow> pe_parent_node_index e < length nodes"
    "e \<in> set (bn_parent_edges (nodes ! n)) \<Longrightarrow>
       step items rend (g (pe_parent_node_index e)) (map_option fix_of (pe_correction e)) (g n)"
  using assms unfolding edges_ok_def by blast+

text \<open>\<open>route nodes n p\<close>: the edges from the root to node \<open>n\<close> make the corrections \<open>p\<close>, in this order.\<close>

inductive route :: "BeamNode list \<Rightarrow> nat \<Rightarrow> BracketCorrection list \<Rightarrow> bool" for nodes :: "BeamNode list" where
  route_root: "bn_parent_edges (nodes ! n) = [] \<Longrightarrow> route nodes n []"
| route_edge: "route nodes (pe_parent_node_index e) p \<Longrightarrow> e \<in> set (bn_parent_edges (nodes ! n)) \<Longrightarrow>
    route nodes n (p @ opt_list (pe_correction e))"

lemma opt_list_map: "map f (opt_list x) = opt_list (map_option f x)"
  by (cases x) simp_all

lemma route_path:
  assumes "edges_ok items rend nodes g" "route nodes n p" "n < length nodes"
  shows "\<exists>E. path items rend blk E (map fix_of p) (fst (g n)) (snd (g n))"
  using assms(2,3)
proof (induction)
  case (route_root n)
  then show ?case using edges_okD(1) [OF assms(1) route_root(2,1)] path_start by fastforce
next
  case (route_edge e p n)
  note e = edges_okD(2,3) [OF assms(1) route_edge(4,2)]
  from route_edge.IH [OF e(1)] obtain E where
    "path items rend blk E (map fix_of p) (fst (g (pe_parent_node_index e))) (snd (g (pe_parent_node_index e)))" by blast
  from path_step [OF e(2) this] show ?case by (simp add: opt_list_map)
qed

section \<open>Walking back\<close>

text \<open>The visit of a node adds its routes, each followed by what was collected before, and goes on.\<close>

definition visits :: "BeamNode list \<Rightarrow> nat \<Rightarrow> BracketCorrection list list \<Rightarrow> bool" where
  "visits nodes n ps \<longleftrightarrow> ps \<noteq> [] \<and> (\<forall>p \<in> set ps. route nodes n p) \<and>
     (\<forall>rest cur acc. length acc < MaxOptimalPaths \<longrightarrow>
        paths_loop nodes ((n, 0) # rest) cur acc =
          (let acc' = acc @ map (\<lambda>p. p @ cur) ps in
           if MaxOptimalPaths \<le> length acc' then Some (take MaxOptimalPaths acc') else paths_loop nodes rest cur acc'))"

definition after_edges :: "BeamNode \<Rightarrow> nat \<Rightarrow> BracketCorrection list \<Rightarrow> BracketCorrection list" where
  "after_edges node j cur = (if 0 < j then opt_list (pe_correction (bn_parent_edges node ! (j - 1))) @ cur else cur)"

lemma edges_visit:
  assumes "\<And>e. e \<in> set (bn_parent_edges (nodes ! n)) \<Longrightarrow> visits nodes (pe_parent_node_index e) (ps e)"
    "bn_parent_edges (nodes ! n) \<noteq> []" "j \<le> length (bn_parent_edges (nodes ! n))" "length acc < MaxOptimalPaths"
  shows "paths_loop nodes ((n, j) # rest) (after_edges (nodes ! n) j cur) acc =
    (let acc' = acc @ map (\<lambda>p. p @ cur)
           (concat (map (\<lambda>e. map (\<lambda>p. p @ opt_list (pe_correction e)) (ps e)) (drop j (bn_parent_edges (nodes ! n))))) in
     if MaxOptimalPaths \<le> length acc' then Some (take MaxOptimalPaths acc') else paths_loop nodes rest cur acc')"
  using assms(3,4)
proof (induction "length (bn_parent_edges (nodes ! n)) - j" arbitrary: j acc)
  case 0
  then show ?case using assms(2)
    by (subst paths_loop.simps) (auto simp: after_edges_def Let_def split: option.splits)
next
  case (Suc d)
  let ?es = "bn_parent_edges (nodes ! n)"
  let ?e = "?es ! j"
  have j: "j < length ?es" using Suc by simp
  have drop: "drop j ?es = ?e # drop (Suc j) ?es" using j by (simp add: Cons_nth_drop_Suc)
  have pop: "(if 0 < j \<and> pe_correction (?es ! (j - 1)) \<noteq> None then tl (after_edges (nodes ! n) j cur) else after_edges (nodes ! n) j cur) = cur"
    by (cases "pe_correction (?es ! (j - 1))") (auto simp: after_edges_def)
  have "paths_loop nodes ((n, j) # rest) (after_edges (nodes ! n) j cur) acc =
      paths_loop nodes ((pe_parent_node_index ?e, 0) # (n, j + 1) # rest) (after_edges (nodes ! n) (Suc j) cur) acc"
    using assms(2) j by (subst paths_loop.simps) (auto simp: Let_def pop after_edges_def split: option.splits)
  moreover have v: "visits nodes (pe_parent_node_index ?e) (ps ?e)" using assms(1) j by simp
  ultimately have eq: "paths_loop nodes ((n, j) # rest) (after_edges (nodes ! n) j cur) acc =
      (let acc' = acc @ map (\<lambda>p. p @ after_edges (nodes ! n) (Suc j) cur) (ps ?e) in
       if MaxOptimalPaths \<le> length acc' then Some (take MaxOptimalPaths acc')
       else paths_loop nodes ((n, Suc j) # rest) (after_edges (nodes ! n) (Suc j) cur) acc')"
    using Suc.prems(2) by (simp add: visits_def)
  let ?acc = "acc @ map (\<lambda>p. p @ after_edges (nodes ! n) (Suc j) cur) (ps ?e)"
  have acc: "?acc = acc @ map (\<lambda>p. p @ cur) (map (\<lambda>p. p @ opt_list (pe_correction ?e)) (ps ?e))"
    by (simp add: after_edges_def)
  show ?case
  proof (cases "MaxOptimalPaths \<le> length ?acc")
    case True
    then show ?thesis unfolding eq drop by (simp add: Let_def after_edges_def comp_def)
  next
    case False
    have "d = length ?es - Suc j" using Suc.hyps(2) by simp
    from Suc.hyps(1) [OF this, of ?acc] False j show ?thesis unfolding eq drop by (simp add: Let_def after_edges_def comp_def)
  qed
qed

lemma node_visits:
  assumes "edges_ok items rend nodes g" "\<And>n. n < length nodes \<Longrightarrow> length (fst (g n)) \<le> m"
  shows "n < length nodes \<Longrightarrow> \<exists>ps. visits nodes n ps"
proof (induction "rank items m (g n)" arbitrary: n rule: less_induct)
  case less
  let ?es = "bn_parent_edges (nodes ! n)"
  show ?case
  proof (cases "?es = []")
    case True
    have "visits nodes n [[]]"
      unfolding visits_def
    proof (intro conjI allI impI ballI)
      show "route nodes n p" if "p \<in> set [[]]" for p using that route_root [of nodes n] True by simp
      show "paths_loop nodes ((n, 0) # rest) cur acc =
          (let acc' = acc @ map (\<lambda>p. p @ cur) [[]] in
           if MaxOptimalPaths \<le> length acc' then Some (take MaxOptimalPaths acc') else paths_loop nodes rest cur acc')"
        if "length acc < MaxOptimalPaths" for rest cur acc
        using that True by (subst paths_loop.simps) (simp add: Let_def)
    qed simp
    then show ?thesis by blast
  next
    case False
    have "\<exists>ps. visits nodes (pe_parent_node_index e) ps" if e: "e \<in> set ?es" for e
    proof -
      note s = edges_okD(2,3) [OF assms(1) less.prems e]
      from less.hyps [OF step_rank [OF s(2) assms(2) [OF s(1)]] s(1)] show ?thesis .
    qed
    then obtain ps where ps: "\<And>e. e \<in> set ?es \<Longrightarrow> visits nodes (pe_parent_node_index e) (ps e)" by metis
    let ?ps = "concat (map (\<lambda>e. map (\<lambda>p. p @ opt_list (pe_correction e)) (ps e)) ?es)"
    have "visits nodes n ?ps"
      unfolding visits_def
    proof (intro conjI allI impI ballI)
      show "?ps \<noteq> []" using False ps [OF list.set_sel(1) [OF False]] by (cases ?es) (auto simp: visits_def)
      show "route nodes n p" if "p \<in> set ?ps" for p
        using that ps by (auto simp: visits_def intro!: route_edge)
      show "paths_loop nodes ((n, 0) # rest) cur acc =
          (let acc' = acc @ map (\<lambda>p. p @ cur) ?ps in
           if MaxOptimalPaths \<le> length acc' then Some (take MaxOptimalPaths acc') else paths_loop nodes rest cur acc')"
        if "length acc < MaxOptimalPaths" for rest cur acc
        using edges_visit [OF ps False, of 0 acc rest cur] that by (simp add: after_edges_def)
    qed
    then show ?thesis by blast
  qed
qed

lemma goals_visit:
  assumes "\<And>n. n \<in> set goals \<Longrightarrow> visits nodes n (ps n)" "length acc < MaxOptimalPaths"
  shows "paths_loop nodes (map (\<lambda>n. (n, 0)) goals) [] acc = Some (take MaxOptimalPaths (acc @ concat (map ps goals)))"
  using assms
proof (induction goals arbitrary: acc)
  case Nil
  then show ?case by (subst paths_loop.simps) simp
next
  case (Cons n goals)
  have v: "visits nodes n (ps n)" using Cons.prems(1) by simp
  then have "paths_loop nodes ((n, 0) # map (\<lambda>n. (n, 0)) goals) [] acc =
      (if MaxOptimalPaths \<le> length (acc @ ps n) then Some (take MaxOptimalPaths (acc @ ps n))
       else paths_loop nodes (map (\<lambda>n. (n, 0)) goals) [] (acc @ ps n))"
    using Cons.prems(2) by (simp add: visits_def)
  with Cons.IH [of "acc @ ps n"] Cons.prems(1) show ?case by (simp add: not_le)
qed

theorem EnumerateOptimalPaths_routes:
  assumes "edges_ok items rend nodes g" "goals \<noteq> []" "\<And>n. n \<in> set goals \<Longrightarrow> n < length nodes"
  shows "\<exists>ps. EnumerateOptimalPaths nodes goals = Some ps \<and> ps \<noteq> [] \<and> (\<forall>p \<in> set ps. \<exists>n \<in> set goals. route nodes n p)"
proof -
  let ?m = "Max (insert 0 ((\<lambda>n. length (fst (g n))) ` {..<length nodes}))"
  have "length (fst (g n)) \<le> ?m" if "n < length nodes" for n using that by (intro Max_ge) auto
  then obtain ps where ps: "\<And>n. n < length nodes \<Longrightarrow> visits nodes n (ps n)" using node_visits [OF assms(1)] by metis
  then have v: "\<And>n. n \<in> set (rev goals) \<Longrightarrow> visits nodes n (ps n)" using assms(3) by simp
  let ?all = "concat (map ps (rev goals))"
  have "EnumerateOptimalPaths nodes goals = Some (take MaxOptimalPaths ?all)"
    unfolding EnumerateOptimalPaths_def using goals_visit [of "rev goals" nodes ps "[]"] v by (simp add: MaxOptimalPaths_def)
  moreover have "?all \<noteq> []" using v [of "last goals"] assms(2) by (auto simp: visits_def)
  then have "take MaxOptimalPaths ?all \<noteq> []" by (simp add: MaxOptimalPaths_def)
  moreover have "\<forall>p \<in> set (take MaxOptimalPaths ?all). \<exists>n \<in> set goals. route nodes n p"
  proof
    fix p assume "p \<in> set (take MaxOptimalPaths ?all)"
    then have "p \<in> set ?all" by (rule in_set_takeD)
    then obtain n where "n \<in> set goals" "p \<in> set (ps n)" by auto
    with v [of n] show "\<exists>n \<in> set goals. route nodes n p" by (auto simp: visits_def)
  qed
  ultimately show ?thesis by blast
qed

end
