(* ===== verification/Bracket_Layers.thy ===== *)
theory Bracket_Layers
  imports Bracket_Nodes
begin

text \<open>
  The beam search keeps its nodes in step with the repairs they stand for: every edge it adds is a step, whatever
  costs decide which edges are kept. The closer phase ends because each closer leaves fewer brackets open.
\<close>

section \<open>The state of a node\<close>

definition node_stack :: "RegionSearch \<Rightarrow> nat \<Rightarrow> OpenBracketKey list" where
  "node_stack rs n = stack_of (rs_stacks rs) (bn_stack (rs_nodes rs ! n))"

definition point :: "RegionSearch \<Rightarrow> nat \<Rightarrow> search_point" where
  "point rs n = (node_stack rs n, bn_item_index (rs_nodes rs ! n))"

text \<open>Every edge is a step, and the deduplication table is right about the nodes before item \<open>j\<close>.\<close>

definition search_inv :: "Item list \<Rightarrow> int \<Rightarrow> nat \<Rightarrow> RegionSearch \<Rightarrow> bool" where
  "search_inv items rend j rs \<longleftrightarrow>
     edges_ok items rend (rs_nodes rs) (point rs) \<and> stacks_ok (rs_stacks rs) \<and>
     (\<forall>n < length (rs_nodes rs). stack_ok (rs_stacks rs) (bn_stack (rs_nodes rs ! n))) \<and>
     (\<forall>key n. rs_layer_dedup rs key = Some n \<longrightarrow>
        n < length (rs_nodes rs) \<and> bn_stack (rs_nodes rs ! n) = sk_stack key \<and> bn_item_index (rs_nodes rs ! n) = j)"

lemma search_invD:
  assumes "search_inv items rend j rs"
  shows "edges_ok items rend (rs_nodes rs) (point rs)" "stacks_ok (rs_stacks rs)"
    "\<And>n. n < length (rs_nodes rs) \<Longrightarrow> stack_ok (rs_stacks rs) (bn_stack (rs_nodes rs ! n))"
    "\<And>key n. rs_layer_dedup rs key = Some n \<Longrightarrow> n < length (rs_nodes rs)"
    "\<And>key n. rs_layer_dedup rs key = Some n \<Longrightarrow> bn_stack (rs_nodes rs ! n) = sk_stack key"
    "\<And>key n. rs_layer_dedup rs key = Some n \<Longrightarrow> bn_item_index (rs_nodes rs ! n) = j"
  using assms unfolding search_inv_def by blast+

lemma point_same: "rs_nodes rs' = rs_nodes rs \<Longrightarrow> rs_stacks rs' = rs_stacks rs \<Longrightarrow> point rs' = point rs"
  by (simp add: fun_eq_iff point_def node_stack_def)

lemma search_inv_other:
  "search_inv items rend j rs \<Longrightarrow> rs_layer_dedup rs' = (\<lambda>_. None) \<Longrightarrow> rs_nodes rs' = rs_nodes rs \<Longrightarrow> rs_stacks rs' = rs_stacks rs \<Longrightarrow>
   search_inv items rend j' rs'"
  by (simp add: search_inv_def point_same [of rs' rs])

text \<open>What a search never takes back.\<close>

definition search_extends :: "RegionSearch \<Rightarrow> RegionSearch \<Rightarrow> bool" where
  "search_extends rs rs' \<longleftrightarrow> length (rs_nodes rs) \<le> length (rs_nodes rs') \<and>
     (\<forall>n < length (rs_nodes rs). bn_stack (rs_nodes rs' ! n) = bn_stack (rs_nodes rs ! n) \<and>
        bn_item_index (rs_nodes rs' ! n) = bn_item_index (rs_nodes rs ! n)) \<and>
     (\<forall>s. stack_ok (rs_stacks rs) s \<longrightarrow> stack_ok (rs_stacks rs') s \<and> stack_of (rs_stacks rs') s = stack_of (rs_stacks rs) s)"

lemma search_extends_refl [simp]: "search_extends rs rs"
  by (simp add: search_extends_def)

lemma search_extends_trans [trans]: "search_extends a b \<Longrightarrow> search_extends b c \<Longrightarrow> search_extends a c"
  unfolding search_extends_def by (simp add: order.strict_trans2)

lemma search_extends_point:
  "search_extends rs rs' \<Longrightarrow> n < length (rs_nodes rs) \<Longrightarrow> stack_ok (rs_stacks rs) (bn_stack (rs_nodes rs ! n)) \<Longrightarrow>
   n < length (rs_nodes rs') \<and> point rs' n = point rs n \<and> node_stack rs' n = node_stack rs n"
  by (auto simp: search_extends_def point_def node_stack_def)

section \<open>Layers\<close>

text \<open>The synthetic openers of a stack were inserted before one of the first \<open>m\<close> items.\<close>

definition syn_before :: "Item list \<Rightarrow> nat \<Rightarrow> OpenBracketKey list \<Rightarrow> bool" where
  "syn_before items m s \<longleftrightarrow> (\<forall>x \<in> set s. ob_is_synthetic x \<longrightarrow> (\<exists>j < m. ob_insertion_token_index x = tok (items ! j)))"

definition layer_ok :: "Item list \<Rightarrow> nat \<Rightarrow> nat \<Rightarrow> RegionSearch \<Rightarrow> nat list \<Rightarrow> bool" where
  "layer_ok items i m rs L \<longleftrightarrow> (\<forall>n \<in> set L. n < length (rs_nodes rs) \<and> bn_item_index (rs_nodes rs ! n) = i \<and>
     stack_ok (rs_stacks rs) (bn_stack (rs_nodes rs ! n)) \<and> syn_before items m (node_stack rs n))"

lemma layer_okD:
  assumes "layer_ok items i m rs L" "n \<in> set L"
  shows "n < length (rs_nodes rs)" "bn_item_index (rs_nodes rs ! n) = i" "stack_ok (rs_stacks rs) (bn_stack (rs_nodes rs ! n))"
    "syn_before items m (node_stack rs n)" "point rs n = (node_stack rs n, i)"
  using assms by (auto simp: layer_ok_def point_def)

lemma layer_ok_append [simp]: "layer_ok items i m rs (L @ L') \<longleftrightarrow> layer_ok items i m rs L \<and> layer_ok items i m rs L'"
  by (auto simp: layer_ok_def)

lemma layer_ok_Nil [simp]: "layer_ok items i m rs []"
  by (simp add: layer_ok_def)

lemma layer_ok_mono: "layer_ok items i m rs L \<Longrightarrow> m \<le> m' \<Longrightarrow> set L' \<subseteq> set L \<Longrightarrow> layer_ok items i m' rs L'"
  unfolding layer_ok_def syn_before_def by (meson order_less_le_trans subsetD)

lemma layer_ok_extends: "layer_ok items i m rs L \<Longrightarrow> search_extends rs rs' \<Longrightarrow> layer_ok items i m rs' L"
  by (auto simp: layer_ok_def search_extends_def node_stack_def)

lemma layer_ok_same: "layer_ok items i m rs L \<Longrightarrow> rs_nodes rs' = rs_nodes rs \<Longrightarrow> rs_stacks rs' = rs_stacks rs \<Longrightarrow> layer_ok items i m rs' L"
  by (simp add: layer_ok_def node_stack_def)

section \<open>Adding a state to a layer\<close>

lemma edges_ok_update:
  assumes "edges_ok items rend nodes g" "idx < length nodes"
    "\<And>e. e \<in> set (bn_parent_edges node) \<Longrightarrow> e \<in> set (bn_parent_edges (nodes ! idx)) \<or>
       (pe_parent_node_index e < length nodes \<and> step items rend (g (pe_parent_node_index e)) (map_option fix_of (pe_correction e)) (g idx))"
    "bn_parent_edges node \<noteq> []"
  shows "edges_ok items rend (nodes[idx := node]) g"
  using assms edges_okD(2,3) [OF assms(1,2)] unfolding edges_ok_def by (auto simp: nth_list_update)

lemma edges_ok_snoc:
  assumes "edges_ok items rend nodes g" "bn_parent_edges node = [e]" "pe_parent_node_index e < length nodes"
    "step items rend (g (pe_parent_node_index e)) (map_option fix_of (pe_correction e)) (g' (length nodes))"
    "\<And>n. n < length nodes \<Longrightarrow> g' n = g n"
  shows "edges_ok items rend (nodes @ [node]) g'"
  unfolding edges_ok_def
proof (intro allI impI)
  fix n assume n: "n < length (nodes @ [node])"
  show "(bn_parent_edges ((nodes @ [node]) ! n) = [] \<longrightarrow> g' n = ([], 0)) \<and>
     (\<forall>e \<in> set (bn_parent_edges ((nodes @ [node]) ! n)). pe_parent_node_index e < length (nodes @ [node]) \<and>
        step items rend (g' (pe_parent_node_index e)) (map_option fix_of (pe_correction e)) (g' n))"
  proof (cases "n < length nodes")
    case True
    with edges_okD [OF assms(1) True] assms(5) show ?thesis by (auto simp: nth_append less_SucI)
  next
    case False
    with n have "n = length nodes" by simp
    with assms(2-5) show ?thesis by simp
  qed
qed

lemma MergeIntoNode_ok:
  assumes "search_inv items rend j rs" "idx < length (rs_nodes rs)" "pe_parent_node_index edge < length (rs_nodes rs)"
    "step items rend (point rs (pe_parent_node_index edge)) (map_option fix_of (pe_correction edge)) (point rs idx)"
    "MergeIntoNode idx cost edge wl rs = (wl', rs')"
  shows "search_inv items rend j rs'" "search_extends rs rs'" "rs_stacks rs' = rs_stacks rs" "rs_current_layer rs' = rs_current_layer rs"
    "wl' = wl \<or> wl' = wl @ [idx]"
proof -
  note i = search_invD [OF assms(1)]
  define node where "node = (if cost < bn_cost (rs_nodes rs ! idx) then (rs_nodes rs ! idx)\<lparr>bn_cost := cost, bn_parent_edges := [edge]\<rparr>
    else (rs_nodes rs ! idx)\<lparr>bn_parent_edges := bn_parent_edges (rs_nodes rs ! idx) @ [edge]\<rparr>)"
  have r: "rs' = rs \<or> rs' = rs\<lparr>rs_nodes := (rs_nodes rs)[idx := node]\<rparr>"
    using assms(5) by (auto simp: MergeIntoNode_def Let_def node_def split: if_splits)
  have n: "bn_stack node = bn_stack (rs_nodes rs ! idx)" "bn_item_index node = bn_item_index (rs_nodes rs ! idx)"
    by (simp_all add: node_def)
  let ?rs = "rs\<lparr>rs_nodes := (rs_nodes rs)[idx := node]\<rparr>"
  have same: "bn_stack (rs_nodes ?rs ! k) = bn_stack (rs_nodes rs ! k)" "bn_item_index (rs_nodes ?rs ! k) = bn_item_index (rs_nodes rs ! k)" for k
    using n assms(2) by (auto simp: nth_list_update)
  then have p: "point ?rs = point rs" by (simp add: fun_eq_iff point_def node_stack_def)
  have e: "edges_ok items rend (rs_nodes ?rs) (point ?rs)" unfolding p
    using i(1) assms(2) by (simp, rule edges_ok_update) (use assms(3,4) in \<open>auto simp: node_def split: if_splits\<close>)
  have s: "search_inv items rend j ?rs"
    unfolding search_inv_def using e same i by simp
  have x: "search_extends rs ?rs" unfolding search_extends_def using same by simp
  show "search_inv items rend j rs'" "search_extends rs rs'" "rs_stacks rs' = rs_stacks rs" "rs_current_layer rs' = rs_current_layer rs"
    using r s x assms(1) by auto
  show "wl' = wl \<or> wl' = wl @ [idx]" using assms(5) by (auto simp: MergeIntoNode_def Let_def split: if_splits)
qed

lemma AddToLayer_ok:
  assumes "search_inv items rend j rs" "stack_ok (rs_stacks rs) s" "pe_parent_node_index edge < length (rs_nodes rs)"
    "step items rend (point rs (pe_parent_node_index edge)) (map_option fix_of (pe_correction edge)) (stack_of (rs_stacks rs) s, j)"
    "AddToLayer layer j s ck cost edge wl rs = (layer', wl', rs')"
  shows "search_inv items rend j rs'" "search_extends rs rs'" "rs_stacks rs' = rs_stacks rs" "rs_current_layer rs' = rs_current_layer rs"
    "layer' = layer \<or> layer' = layer @ [length (rs_nodes rs)] \<and> length (rs_nodes rs) < length (rs_nodes rs') \<and>
       bn_stack (rs_nodes rs' ! length (rs_nodes rs)) = s \<and> bn_item_index (rs_nodes rs' ! length (rs_nodes rs)) = j"
    "wl' = wl \<or> (\<exists>n < length (rs_nodes rs'). wl' = wl @ [n] \<and> bn_stack (rs_nodes rs' ! n) = s \<and> bn_item_index (rs_nodes rs' ! n) = j)"
proof -
  note i = search_invD [OF assms(1)]
  let ?key = "\<lparr>sk_stack = s, sk_closer_inserted = ck\<rparr>"
  let ?node = "\<lparr>bn_item_index = j, bn_stack = s, bn_cost = cost, bn_closer_inserted = ck, bn_parent_edges = [edge]\<rparr>"
  let ?new = "rs\<lparr>rs_nodes := rs_nodes rs @ [?node], rs_layer_dedup := (rs_layer_dedup rs)(?key \<mapsto> length (rs_nodes rs))\<rparr>"
  consider (far) "layer' = layer" "wl' = wl" "rs' = rs"
    | (old) n where "rs_layer_dedup rs ?key = Some n" "layer' = layer" "MergeIntoNode n cost edge wl rs = (wl', rs')"
    | (new) "layer' = layer @ [length (rs_nodes rs)]" "wl' = wl @ [length (rs_nodes rs)]" "rs' = ?new"
  proof (cases "rs_min_goal_cost rs < cost")
    case True
    then show ?thesis using assms(5) far by (simp add: AddToLayer_def)
  next
    case False
    show ?thesis
    proof (cases "rs_layer_dedup rs ?key")
      case None
      then show ?thesis using assms(5) False new by (simp add: AddToLayer_def Let_def)
    next
      case (Some n)
      then show ?thesis using assms(5) False old [OF Some] by (simp add: AddToLayer_def Let_def)
    qed
  qed
  then have "search_inv items rend j rs' \<and> search_extends rs rs' \<and> rs_stacks rs' = rs_stacks rs \<and> rs_current_layer rs' = rs_current_layer rs \<and>
    (layer' = layer \<or> layer' = layer @ [length (rs_nodes rs)] \<and> length (rs_nodes rs) < length (rs_nodes rs') \<and>
       bn_stack (rs_nodes rs' ! length (rs_nodes rs)) = s \<and> bn_item_index (rs_nodes rs' ! length (rs_nodes rs)) = j) \<and>
    (wl' = wl \<or> (\<exists>n < length (rs_nodes rs'). wl' = wl @ [n] \<and> bn_stack (rs_nodes rs' ! n) = s \<and> bn_item_index (rs_nodes rs' ! n) = j))"
  proof cases
    case far
    then show ?thesis using assms(1) by simp
  next
    case (old n)
    have n: "n < length (rs_nodes rs)" "bn_stack (rs_nodes rs ! n) = s" "bn_item_index (rs_nodes rs ! n) = j"
      using i(4-6) [OF old(1)] by simp_all
    then have p: "point rs n = (stack_of (rs_stacks rs) s, j)" by (simp add: point_def node_stack_def)
    note m = MergeIntoNode_ok [OF assms(1) n(1) assms(3) assms(4) [folded p] old(3)]
    have "n < length (rs_nodes rs')" "bn_stack (rs_nodes rs' ! n) = s" "bn_item_index (rs_nodes rs' ! n) = j"
      using m(2) n by (auto simp: search_extends_def)
    with m old(2) show ?thesis by auto
  next
    case new
    have same: "rs_nodes ?new ! n = rs_nodes rs ! n" if "n < length (rs_nodes rs)" for n using that by (simp add: nth_append)
    have p: "point ?new n = point rs n" if "n < length (rs_nodes rs)" for n
      using same [OF that] by (simp add: point_def node_stack_def)
    have pn: "point ?new (length (rs_nodes rs)) = (stack_of (rs_stacks rs) s, j)" by (simp add: point_def node_stack_def)
    have e: "edges_ok items rend (rs_nodes ?new) (point ?new)"
      using edges_ok_snoc [OF i(1), of ?node edge "point ?new"] assms(3,4) pn p by simp
    have "search_inv items rend j ?new"
      unfolding search_inv_def
    proof (intro conjI allI impI)
      show "edges_ok items rend (rs_nodes ?new) (point ?new)" by (rule e)
      show "stacks_ok (rs_stacks ?new)" using i(2) by simp
      show "stack_ok (rs_stacks ?new) (bn_stack (rs_nodes ?new ! n))" if "n < length (rs_nodes ?new)" for n
        using that i(3) assms(2) by (cases "n < length (rs_nodes rs)") (auto simp: nth_append less_Suc_eq)
      fix key n assume k: "rs_layer_dedup ?new key = Some n"
      show "n < length (rs_nodes ?new)" using k i(4) [of key n] by (auto split: if_splits)
      show "bn_stack (rs_nodes ?new ! n) = sk_stack key" "bn_item_index (rs_nodes ?new ! n) = j"
        using k i(4-6) [of key n] same [of n] by (auto split: if_splits)
    qed
    moreover have "search_extends rs ?new" unfolding search_extends_def using same by simp
    ultimately show ?thesis using new by simp
  qed
  then show "search_inv items rend j rs'" "search_extends rs rs'" "rs_stacks rs' = rs_stacks rs" "rs_current_layer rs' = rs_current_layer rs"
    "layer' = layer \<or> layer' = layer @ [length (rs_nodes rs)] \<and> length (rs_nodes rs) < length (rs_nodes rs') \<and>
       bn_stack (rs_nodes rs' ! length (rs_nodes rs)) = s \<and> bn_item_index (rs_nodes rs' ! length (rs_nodes rs)) = j"
    "wl' = wl \<or> (\<exists>n < length (rs_nodes rs'). wl' = wl @ [n] \<and> bn_stack (rs_nodes rs' ! n) = s \<and> bn_item_index (rs_nodes rs' ! n) = j)"
    by blast+
qed

section \<open>Inserting closers\<close>

lemma key_of_simps [simp]:
  "ob_token_index (key_of x) = ob_token_index x" "ob_insertion_token_index (key_of x) = ob_insertion_token_index x"
  "ob_kind (key_of x) = ob_kind x" "ob_is_synthetic (key_of x) = ob_is_synthetic x"
  by (simp_all add: OpenBracketKey.truncate_def)

lemma Snapshot_simps [simp]:
  "ss_stack (Snapshot n) = bn_stack n" "ss_cost (Snapshot n) = bn_cost n" "ss_closer_inserted (Snapshot n) = bn_closer_inserted n"
  by (simp_all add: Snapshot_def)

lemma fix_of_closer:
  "fix_of (InsertCloserCorrection x t r) = (InsertBefore, t, ToTokenKind (MatchingClosingKind (ob_kind x)), ob_token_index x)"
  by (simp add: fix_of_def InsertCloserCorrection_def)

lemma syn_before_tail: "syn_before items m (x # s) \<Longrightarrow> syn_before items m s"
  by (simp add: syn_before_def)

text \<open>What every operation on the current layer keeps.\<close>

definition layer_inv :: "Item list \<Rightarrow> int \<Rightarrow> nat \<Rightarrow> nat \<Rightarrow> RegionSearch \<Rightarrow> bool" where
  "layer_inv items rend i m rs \<longleftrightarrow> search_inv items rend i rs \<and> layer_ok items i m rs (rs_current_layer rs)"

lemma closer_step_cases:
  assumes "closer_step item i n wl rs = (wl', rs')"
  obtains (skip) "wl' = wl" "rs' = rs"
  | (add) top_bracket cost r layer rs1 where "top_bracket = Top (rs_stacks rs) (bn_stack (rs_nodes rs ! n))"
      "\<not> IsEmpty (bn_stack (rs_nodes rs ! n))" "\<not> ob_is_synthetic top_bracket"
      "AddToLayer (rs_current_layer rs) i (Pop (rs_stacks rs) (bn_stack (rs_nodes rs ! n)))
         (MatchingClosingKind (ob_kind top_bracket)) cost
         \<lparr>pe_parent_node_index = n, pe_correction = Some (InsertCloserCorrection top_bracket (tok item) r)\<rparr> wl rs = (layer, wl', rs1)"
      "rs' = rs1\<lparr>rs_current_layer := layer\<rparr>"
proof -
  let ?n = "rs_nodes rs ! n"
  let ?t = "Top (rs_stacks rs) (bn_stack ?n)"
  show thesis
  proof (cases "rs_min_goal_cost rs < bn_cost ?n \<or> IsEmpty (bn_stack ?n) \<or> ob_is_synthetic ?t \<or>
      (item_kind item = MatchingClosingKind (ob_kind ?t) \<and> DirectMatchPreferred ?t item) \<or>
      ClassifyCloserInsertion ?t item (rs_stacks rs) (bn_stack ?n) = None")
    case True
    then show ?thesis using assms skip by (auto simp: closer_step_def Let_def split: if_splits)
  next
    case False
    then obtain cost r where c: "ClassifyCloserInsertion ?t item (rs_stacks rs) (bn_stack ?n) = Some (cost, r)" by force
    obtain layer wl1 rs1 where a: "AddToLayer (rs_current_layer rs) i (Pop (rs_stacks rs) (bn_stack ?n))
         (MatchingClosingKind (ob_kind ?t)) (bn_cost ?n + cost)
         \<lparr>pe_parent_node_index = n, pe_correction = Some (InsertCloserCorrection ?t (tok item) r)\<rparr> wl rs = (layer, wl1, rs1)"
      by (metis prod_cases3)
    have "closer_step item i n wl rs = (wl1, rs1\<lparr>rs_current_layer := layer\<rparr>)"
      using False c a by (auto simp: closer_step_def Let_def tok_def)
    with assms have "wl1 = wl'" "rs' = rs1\<lparr>rs_current_layer := layer\<rparr>" by simp_all
    with False add [OF refl _ _ a [unfolded \<open>wl1 = wl'\<close>]] show ?thesis by simp
  qed
qed

lemma search_inv_layer: "search_inv items rend j (rs\<lparr>rs_current_layer := L\<rparr>) = search_inv items rend j rs"
  by (simp add: search_inv_def point_same [of "rs\<lparr>rs_current_layer := L\<rparr>" rs])

lemma search_extends_layer: "search_extends rs (rs'\<lparr>rs_current_layer := L\<rparr>) = search_extends rs rs'"
  by (simp add: search_extends_def)

lemma layer_ok_layer: "layer_ok items i m (rs\<lparr>rs_current_layer := L\<rparr>) L' = layer_ok items i m rs L'"
  by (simp add: layer_ok_def node_stack_def)

lemmas layer_update = search_inv_layer search_extends_layer layer_ok_layer

lemma closer_step_ok:
  assumes "layer_inv items rend i m rs" "layer_ok items i m rs [n]" "i < length items" "closer_step (items ! i) i n wl rs = (wl', rs')"
  shows "layer_inv items rend i m rs'" "search_extends rs rs'"
    "wl' = wl \<or> (\<exists>k. wl' = wl @ [k] \<and> layer_ok items i m rs' [k] \<and> length (node_stack rs' k) < length (node_stack rs n))"
proof -
  have inv: "search_inv items rend i rs" and lay: "layer_ok items i m rs (rs_current_layer rs)"
    using assms(1) by (simp_all add: layer_inv_def)
  note i = search_invD [OF inv] and n = layer_okD [OF assms(2), of n, simplified]
  from assms(4) have "layer_inv items rend i m rs' \<and> search_extends rs rs' \<and>
    (wl' = wl \<or> (\<exists>k. wl' = wl @ [k] \<and> layer_ok items i m rs' [k] \<and> length (node_stack rs' k) < length (node_stack rs n)))"
  proof (cases rule: closer_step_cases)
    case skip
    then show ?thesis using assms(1) by simp
  next
    case (add t cost r layer rs1)
    let ?s = "Pop (rs_stacks rs) (bn_stack (rs_nodes rs ! n))"
    note tp = Top_Pop [OF i(2) n(3) add(2)]
    have ns: "node_stack rs n = key_of t # stack_of (rs_stacks rs) ?s" using tp(1) add(1) by (simp add: node_stack_def)
    have syn: "syn_before items m (stack_of (rs_stacks rs) ?s)" using n(4) unfolding ns by (rule syn_before_tail)
    have st: "step items rend (point rs n) (Some (fix_of (InsertCloserCorrection t (tok (items ! i)) r))) (stack_of (rs_stacks rs) ?s, i)"
      using step_closer [of "key_of t" i items rend "stack_of (rs_stacks rs) ?s"] add(3) assms(3)
      unfolding n(5) ns fix_of_closer by (simp add: gap_at_def)
    note a = AddToLayer_ok [OF inv tp(2) _ _ add(4), simplified, OF n(1) st]
    have k: "layer_ok items i m rs1 [k] \<and> node_stack rs1 k = stack_of (rs_stacks rs) ?s"
      if "k < length (rs_nodes rs1)" "bn_stack (rs_nodes rs1 ! k) = ?s" "bn_item_index (rs_nodes rs1 ! k) = i" for k
      using that tp(2) syn a(3) by (simp add: layer_ok_def node_stack_def)
    have "layer_ok items i m rs1 layer"
      using a(5) layer_ok_extends [OF lay a(2)] k by auto
    then have "layer_inv items rend i m rs'" using a(1) by (simp add: layer_inv_def add(5) layer_update)
    moreover have "search_extends rs rs'" using a(2) by (simp add: add(5) layer_update)
    moreover have "wl' = wl \<or> (\<exists>k. wl' = wl @ [k] \<and> layer_ok items i m rs' [k] \<and> length (node_stack rs' k) < length (node_stack rs n))"
      using a(6) k ns by (fastforce simp: add(5) layer_update node_stack_def)
    ultimately show ?thesis by blast
  qed
  then show "layer_inv items rend i m rs'" "search_extends rs rs'"
    "wl' = wl \<or> (\<exists>k. wl' = wl @ [k] \<and> layer_ok items i m rs' [k] \<and> length (node_stack rs' k) < length (node_stack rs n))" by blast+
qed

text \<open>The work left: a node can only be followed by ones with fewer open brackets.\<close>

definition work :: "RegionSearch \<Rightarrow> nat list \<Rightarrow> nat" where
  "work rs wl = sum_list (map (\<lambda>n. Suc (length (node_stack rs n))) wl)"

lemma work_search_extends:
  assumes "layer_ok items i m rs wl" "search_extends rs rs'"
  shows "work rs' wl = work rs wl"
proof -
  have "map (\<lambda>n. Suc (length (node_stack rs' n))) wl = map (\<lambda>n. Suc (length (node_stack rs n))) wl"
    using search_extends_point [OF assms(2)] layer_okD(1,3) [OF assms(1)] by (intro map_cong) auto
  then show ?thesis by (simp only: work_def)
qed

theorem closers_loop_ok:
  assumes "layer_inv items rend i m rs" "layer_ok items i m rs wl" "i < length items"
  shows "\<exists>rs'. closers_loop (items ! i) i head wl rs = Some rs' \<and> layer_inv items rend i m rs' \<and> search_extends rs rs'"
  using assms(1,2)
proof (induction "work rs (drop head wl)" arbitrary: head wl rs rule: less_induct)
  case less
  show ?case
  proof (cases "length wl \<le> head")
    case True
    then show ?thesis using less.prems by (subst closers_loop.simps) simp
  next
    case False
    then have d: "drop head wl = wl ! head # drop (Suc head) wl" by (simp add: Cons_nth_drop_Suc)
    obtain wl1 rs1 where c: "closer_step (items ! i) i (wl ! head) wl rs = (wl1, rs1)" by force
    have n: "layer_ok items i m rs [wl ! head]" using less.prems(2) False by (auto simp: layer_ok_def)
    note s = closer_step_ok [OF less.prems(1) n assms(3) c]
    have old: "layer_ok items i m rs1 wl" by (rule layer_ok_extends [OF less.prems(2) s(2)])
    have sub: "layer_ok items i m rs (drop (Suc head) wl)"
      using less.prems(2) by (rule layer_ok_mono) (auto dest: in_set_dropD)
    have w: "work rs1 (drop (Suc head) wl1) < work rs (drop head wl) \<and> layer_ok items i m rs1 wl1"
      using s(3)
    proof
      assume "wl1 = wl"
      then show ?thesis using work_search_extends [OF sub s(2)] old by (simp add: d work_def)
    next
      assume "\<exists>k. wl1 = wl @ [k] \<and> layer_ok items i m rs1 [k] \<and> length (node_stack rs1 k) < length (node_stack rs (wl ! head))"
      then obtain k where k: "wl1 = wl @ [k]" "layer_ok items i m rs1 [k]"
        "length (node_stack rs1 k) < length (node_stack rs (wl ! head))" by blast
      then show ?thesis using work_search_extends [OF sub s(2)] old False by (simp add: d work_def)
    qed
    then obtain rs' where "closers_loop (items ! i) i (Suc head) wl1 rs1 = Some rs'" "layer_inv items rend i m rs'" "search_extends rs1 rs'"
      using less.hyps [of rs1 "Suc head" wl1] s(1) by blast
    with False c s(2) show ?thesis by (subst closers_loop.simps) (auto intro: search_extends_trans)
  qed
qed

end
