(* ===== verification/Bracket_Beam.thy ===== *)
theory Bracket_Beam
  imports Bracket_Layers
begin

text \<open>
  The rest of the beam search: openers, advancing over an item, closing at the end of the region and reading the corrections
  back. The search of a region always ends, and what it returns are the corrections of a path.
\<close>

section \<open>Inserting openers\<close>

lemma synthetic_fresh:
  assumes "syn_before items i s" "distinct (map tok items)" "i < length items"
  shows "Inserted (tok (items ! i)) \<notin> fst ` pair_of ` set s"
proof
  assume "Inserted (tok (items ! i)) \<in> fst ` pair_of ` set s"
  then obtain x where x: "x \<in> set s" "ob_is_synthetic x" "ob_insertion_token_index x = tok (items ! i)"
    by (auto simp: pair_of_def split: if_splits)
  then obtain j where "j < i" "tok (items ! i) = tok (items ! j)" using assms(1) by (auto simp: syn_before_def)
  with assms(2,3) show False by (simp add: distinct_conv_nth)
qed

lemma search_inv_push:
  assumes "search_inv items rend j rs" "stack_ok (rs_stacks rs) s" "Push (rs_stacks rs) s x = (s', st)"
  shows "search_inv items rend j (rs\<lparr>rs_stacks := st\<rparr>)" "search_extends rs (rs\<lparr>rs_stacks := st\<rparr>)"
    "stack_ok st s'" "stack_of st s' = key_of x # stack_of (rs_stacks rs) s" "stack_of st s = stack_of (rs_stacks rs) s"
proof -
  note i = search_invD [OF assms(1)]
  note p = Push_ok [OF i(2) assms(2,3)]
  show "stack_ok st s'" "stack_of st s' = key_of x # stack_of (rs_stacks rs) s" "stack_of st s = stack_of (rs_stacks rs) s"
    using p(2-4) assms(2) by blast+
  show x: "search_extends rs (rs\<lparr>rs_stacks := st\<rparr>)" using p(4) by (simp add: search_extends_def)
  have pt: "point (rs\<lparr>rs_stacks := st\<rparr>) n = point rs n" if "n < length (rs_nodes rs)" for n
    using search_extends_point [OF x that i(3) [OF that]] by simp
  have "edges_ok items rend (rs_nodes rs) (point (rs\<lparr>rs_stacks := st\<rparr>))"
    unfolding edges_ok_def using edges_okD [OF i(1)] pt by simp
  then show "search_inv items rend j (rs\<lparr>rs_stacks := st\<rparr>)"
    unfolding search_inv_def using i(3-6) p(1,4) by simp
qed

text \<open>Pushing onto the stack of a node and adding the result to a layer.\<close>

lemma push_add_ok:
  assumes "search_inv items rend j rs" "layer_ok items i m rs [n]" "Push (rs_stacks rs) (bn_stack (rs_nodes rs ! n)) x = (s, st)"
    "step items rend (node_stack rs n, i) (map_option fix_of c) (key_of x # node_stack rs n, j)"
    "AddToLayer layer j s ck cost \<lparr>pe_parent_node_index = n, pe_correction = c\<rparr> wl (rs\<lparr>rs_stacks := st\<rparr>) = (layer', wl', rs')"
    "syn_before items m' (key_of x # node_stack rs n)" "layer_ok items j m' rs layer"
  shows "search_inv items rend j rs'" "search_extends rs rs'" "rs_current_layer rs' = rs_current_layer rs" "layer_ok items j m' rs' layer'"
    "\<exists>X. layer' = layer @ X"
proof -
  note n = layer_okD [OF assms(2), of n, simplified]
  note p = search_inv_push [OF assms(1) n(3) assms(3)]
  let ?rs = "rs\<lparr>rs_stacks := st\<rparr>"
  have e: "point ?rs n = (node_stack rs n, i)" using search_extends_point [OF p(2) n(1,3)] n(5) by simp
  have so: "stack_of st s = key_of x # node_stack rs n" using p(4) by (simp add: node_stack_def)
  note a = AddToLayer_ok [OF p(1) _ _ _ assms(5), simplified, OF p(3) n(1) assms(4) [folded e so]]
  show "search_inv items rend j rs'" "rs_current_layer rs' = rs_current_layer rs" using a(1,4) by simp_all
  show x: "search_extends rs rs'" using search_extends_trans [OF p(2) a(2)] .
  have "layer_ok items j m' rs' [k]" if "k < length (rs_nodes rs')" "bn_stack (rs_nodes rs' ! k) = s" "bn_item_index (rs_nodes rs' ! k) = j" for k
    using that assms(6) p(3) a(3) so by (simp add: layer_ok_def node_stack_def)
  then show "layer_ok items j m' rs' layer'" using a(5) layer_ok_extends [OF assms(7) x] by auto
  show "\<exists>X. layer' = layer @ X" using a(5) by auto
qed

text \<open>The same without a change of the stack, or with a bracket popped.\<close>

lemma keep_add_ok:
  assumes "search_inv items rend j rs" "layer_ok items i m rs [n]" "stack_ok (rs_stacks rs) s"
    "step items rend (node_stack rs n, i) (map_option fix_of c) (stack_of (rs_stacks rs) s, j)"
    "AddToLayer layer j s ck cost \<lparr>pe_parent_node_index = n, pe_correction = c\<rparr> wl rs = (layer', wl', rs')"
    "syn_before items m' (stack_of (rs_stacks rs) s)" "layer_ok items j m' rs layer"
  shows "search_inv items rend j rs'" "search_extends rs rs'" "rs_current_layer rs' = rs_current_layer rs" "layer_ok items j m' rs' layer'"
    "\<exists>X. layer' = layer @ X"
proof -
  note n = layer_okD [OF assms(2), of n, simplified]
  note a = AddToLayer_ok [OF assms(1,3) _ _ assms(5), simplified, OF n(1) assms(4) [folded n(5)]]
  show "search_inv items rend j rs'" "rs_current_layer rs' = rs_current_layer rs" "search_extends rs rs'" using a(1,2,4) by simp_all
  have "layer_ok items j m' rs' [k]" if "k < length (rs_nodes rs')" "bn_stack (rs_nodes rs' ! k) = s" "bn_item_index (rs_nodes rs' ! k) = j" for k
    using that assms(3,6) a(3) by (simp add: layer_ok_def node_stack_def)
  then show "layer_ok items j m' rs' layer'" using a(5) layer_ok_extends [OF assms(7) a(2)] by auto
  show "\<exists>X. layer' = layer @ X" using a(5) by auto
qed

definition layer_grows :: "Item list \<Rightarrow> int \<Rightarrow> nat \<Rightarrow> nat \<Rightarrow> RegionSearch \<Rightarrow> RegionSearch \<Rightarrow> bool" where
  "layer_grows items rend i m rs rs' \<longleftrightarrow> layer_inv items rend i m rs' \<and> search_extends rs rs' \<and>
     (\<exists>X. rs_current_layer rs' = rs_current_layer rs @ X)"

lemma layer_grows_refl: "layer_inv items rend i m rs \<Longrightarrow> layer_grows items rend i m rs rs"
  by (simp add: layer_grows_def)

lemma layer_grows_trans: "layer_grows items rend i m a b \<Longrightarrow> layer_grows items rend i m b c \<Longrightarrow> layer_grows items rend i m a c"
  by (auto simp: layer_grows_def intro: search_extends_trans)

lemma opener_step_ok:
  assumes "layer_inv items rend i (Suc i) rs" "layer_ok items i i rs [n]" "distinct (map tok items)" "i < length items"
    "ss_stack cur = bn_stack (rs_nodes rs ! n)" "IsOpeningBracket (fst fl)"
  shows "layer_grows items rend i (Suc i) rs (opener_step (items ! i) i n cur fl rs)"
proof (cases "ClassifyOpenerInsertion (fst fl) (snd fl) (items ! i)")
  case None
  then show ?thesis using layer_grows_refl [OF assms(1)] by (simp add: opener_step_def case_prod_unfold)
next
  case (Some cr)
  let ?x = "SyntheticOpener (items ! i) (fst fl) (snd fl) (snd cr)"
  obtain s st where p: "Push (rs_stacks rs) (bn_stack (rs_nodes rs ! n)) ?x = (s, st)" by force
  obtain layer wl rs1 where a: "AddToLayer (rs_current_layer rs) i s (ss_closer_inserted cur) (ss_cost cur + fst cr)
      \<lparr>pe_parent_node_index = n, pe_correction = None\<rparr> [] (rs\<lparr>rs_stacks := st\<rparr>) = (layer, wl, rs1)" by (metis prod_cases3)
  have o: "opener_step (items ! i) i n cur fl rs = rs1\<lparr>rs_current_layer := layer\<rparr>"
    using Some p a assms(5) by (simp add: opener_step_def case_prod_unfold)
  have inv: "search_inv items rend i rs" "layer_ok items i (Suc i) rs (rs_current_layer rs)"
    using assms(1) by (simp_all add: layer_inv_def)
  note n = layer_okD [OF assms(2), of n, simplified]
  have x: "ob_is_synthetic ?x" "ob_kind ?x = fst fl" "ob_insertion_token_index ?x = tok (items ! i)"
    by (simp_all add: SyntheticOpener_def tok_def)
  have st: "step items rend (node_stack rs n, i) (map_option fix_of None) (key_of ?x # node_stack rs n, i)"
    using step_opener [OF assms(4), of "key_of ?x" "node_stack rs n" rend] synthetic_fresh [OF n(4) assms(3,4)] x assms(6) by simp
  have syn: "syn_before items (Suc i) (key_of ?x # node_stack rs n)"
    using n(4) x by (auto simp: syn_before_def less_Suc_eq)
  note k = push_add_ok [OF inv(1) assms(2) p st a syn inv(2)]
  show ?thesis unfolding o layer_grows_def layer_inv_def using k by (simp add: layer_update)
qed

lemma openers_of_node_ok:
  assumes "layer_inv items rend i (Suc i) rs" "layer_ok items i i rs [rs_current_layer rs ! idx]"
    "distinct (map tok items)" "i < length items"
  shows "layer_grows items rend i (Suc i) rs (openers_of_node (items ! i) i idx rs)"
proof -
  let ?n = "rs_current_layer rs ! idx"
  let ?cur = "Snapshot (rs_nodes rs ! ?n)"
  have "layer_grows items rend i (Suc i) rs (fold (opener_step (items ! i) i ?n ?cur) fls rs)"
    if "\<forall>fl \<in> set fls. IsOpeningBracket (fst fl)" for fls
    using that
  proof (induction fls rule: rev_induct)
    case Nil
    then show ?case using layer_grows_refl [OF assms(1)] by simp
  next
    case (snoc fl fls)
    let ?rs = "fold (opener_step (items ! i) i ?n ?cur) fls rs"
    have g: "layer_grows items rend i (Suc i) rs ?rs" using snoc by simp
    then have x: "search_extends rs ?rs" and inv: "layer_inv items rend i (Suc i) ?rs" by (simp_all add: layer_grows_def)
    have "bn_stack (rs_nodes ?rs ! ?n) = ss_stack ?cur"
      using x layer_okD(1) [OF assms(2)] by (simp add: search_extends_def)
    with opener_step_ok [OF inv layer_ok_extends [OF assms(2) x] assms(3,4), of ?cur fl] snoc.prems
    have "layer_grows items rend i (Suc i) ?rs (opener_step (items ! i) i ?n ?cur fl ?rs)" by simp
    with g show ?case using layer_grows_trans by fastforce
  qed
  moreover have "\<forall>fl \<in> set SyntheticOpeners. IsOpeningBracket (fst fl)"
    by (simp add: SyntheticOpeners_def IsOpeningBracket_def)
  ultimately show ?thesis using layer_grows_refl [OF assms(1)] by (simp add: openers_of_node_def Let_def)
qed

lemma InsertSyntheticOpeners_ok:
  assumes "layer_inv items rend i i rs" "distinct (map tok items)" "i < length items"
  shows "layer_grows items rend i (Suc i) rs (InsertSyntheticOpeners items i rs)"
proof -
  let ?L = "rs_current_layer rs"
  have old: "layer_ok items i i rs ?L" using assms(1) by (simp add: layer_inv_def)
  have start: "layer_inv items rend i (Suc i) rs"
    using assms(1) layer_ok_mono [OF old, of "Suc i" ?L] by (simp add: layer_inv_def)
  have "k \<le> length ?L \<Longrightarrow> layer_grows items rend i (Suc i) rs (fold (openers_of_node (items ! i) i) [0..<k] rs)" for k
  proof (induction k)
    case 0
    then show ?case using layer_grows_refl [OF start] by simp
  next
    case (Suc k)
    let ?rs = "fold (openers_of_node (items ! i) i) [0..<k] rs"
    have g: "layer_grows items rend i (Suc i) rs ?rs" using Suc by simp
    then obtain X where x: "layer_inv items rend i (Suc i) ?rs" "search_extends rs ?rs" "rs_current_layer ?rs = ?L @ X"
      by (auto simp: layer_grows_def)
    have "layer_ok items i i ?rs [rs_current_layer ?rs ! k]"
      using layer_ok_extends [OF old x(2)] Suc.prems x(3) by (auto simp: layer_ok_def nth_append)
    from openers_of_node_ok [OF x(1) this assms(2,3)] g show ?case using layer_grows_trans by fastforce
  qed
  then show ?thesis by (simp add: InsertSyntheticOpeners_def)
qed

lemma PruneBeam_subset: "set (PruneBeam nodes layer) \<subseteq> set layer"
  by (auto simp: PruneBeam_def dest: in_set_takeD)

section \<open>Brackets before an item\<close>

lemma seed_dedup_ok:
  assumes "search_inv items rend i rs" "layer_ok items i m rs (rs_current_layer rs)"
  shows "layer_inv items rend i m (seed_dedup rs)" "search_extends rs (seed_dedup rs)"
proof -
  let ?f = "\<lambda>idx rs. let node = rs_nodes rs ! idx; key = \<lparr>sk_stack = bn_stack node, sk_closer_inserted = bn_closer_inserted node\<rparr> in
     case rs_layer_dedup rs key of Some _ \<Rightarrow> rs | None \<Rightarrow> rs\<lparr>rs_layer_dedup := (rs_layer_dedup rs)(key \<mapsto> idx)\<rparr>"
  have "search_inv items rend i (fold ?f L rs) \<and> rs_nodes (fold ?f L rs) = rs_nodes rs \<and>
     rs_stacks (fold ?f L rs) = rs_stacks rs \<and> rs_current_layer (fold ?f L rs) = rs_current_layer rs"
    if "layer_ok items i m rs L" for L
    using that
  proof (induction L rule: rev_induct)
    case Nil
    then show ?case using assms(1) by simp
  next
    case (snoc idx L)
    let ?rs = "fold ?f L rs"
    have IH: "search_inv items rend i ?rs" "rs_nodes ?rs = rs_nodes rs" "rs_stacks ?rs = rs_stacks rs"
      "rs_current_layer ?rs = rs_current_layer rs" using snoc by auto
    have idx: "idx < length (rs_nodes rs)" "bn_item_index (rs_nodes rs ! idx) = i"
      using snoc.prems by (auto simp: layer_ok_def)
    let ?key = "\<lparr>sk_stack = bn_stack (rs_nodes rs ! idx), sk_closer_inserted = bn_closer_inserted (rs_nodes rs ! idx)\<rparr>"
    let ?new = "?rs\<lparr>rs_layer_dedup := (rs_layer_dedup ?rs)(?key \<mapsto> idx)\<rparr>"
    have "search_inv items rend i ?new"
      unfolding search_inv_def using search_invD [OF IH(1)] IH(2,3) idx point_same [of ?new ?rs]
      by (auto split: if_splits)
    then show ?case using IH by (auto simp: Let_def split: option.splits)
  qed
  from this [OF assms(2)] have r: "search_inv items rend i (seed_dedup rs)" "rs_nodes (seed_dedup rs) = rs_nodes rs"
      "rs_stacks (seed_dedup rs) = rs_stacks rs" "rs_current_layer (seed_dedup rs) = rs_current_layer rs"
    by (simp_all add: seed_dedup_def)
  show "search_extends rs (seed_dedup rs)" using r by (simp add: search_extends_def)
  show "layer_inv items rend i m (seed_dedup rs)"
    using r layer_ok_same [OF assms(2)] by (simp add: layer_inv_def)
qed

lemma clear_dedup:
  "search_inv items rend j rs \<Longrightarrow> search_inv items rend j' (rs\<lparr>rs_layer_dedup := (\<lambda>_. None)\<rparr>)"
  by (rule search_inv_other) simp_all

theorem InsertBracketsBefore_ok:
  assumes "search_inv items rend i rs" "layer_ok items i i rs (rs_current_layer rs)" "distinct (map tok items)" "i < length items"
  shows "\<exists>rs'. InsertBracketsBefore items i rs = Some rs' \<and> search_inv items rend j rs' \<and>
    layer_ok items i (Suc i) rs' (rs_current_layer rs') \<and> rs_layer_dedup rs' = (\<lambda>_. None)"
proof -
  note s = seed_dedup_ok [OF assms(1,2)]
  have "layer_ok items i i (seed_dedup rs) (rs_current_layer (seed_dedup rs))" using s(1) by (simp add: layer_inv_def)
  from closers_loop_ok [OF s(1) this assms(4), of 0] obtain rs1 where
    c: "InsertSyntheticClosers items i (seed_dedup rs) = Some rs1" "layer_inv items rend i i rs1"
    by (auto simp: InsertSyntheticClosers_def)
  let ?rs2 = "InsertSyntheticOpeners items i rs1"
  have g: "layer_inv items rend i (Suc i) ?rs2" using InsertSyntheticOpeners_ok [OF c(2) assms(3,4)] by (simp add: layer_grows_def)
  let ?rs3 = "?rs2\<lparr>rs_layer_dedup := (\<lambda>_. None)\<rparr>"
  let ?L = "PruneBeam (rs_nodes ?rs3) (rs_current_layer ?rs3)"
  have "layer_ok items i (Suc i) ?rs2 ?L"
    using g layer_ok_mono [OF _ order_refl PruneBeam_subset] by (simp add: layer_inv_def)
  then have l: "layer_ok items i (Suc i) ?rs3 ?L" by (rule layer_ok_same) simp_all
  have "search_inv items rend j ?rs3" using g clear_dedup [of items rend i ?rs2] by (simp add: layer_inv_def)
  with l c(1) show ?thesis by (simp add: InsertBracketsBefore_def Let_def layer_update)
qed

section \<open>Advancing over an item\<close>

lemma fix_of_opener:
  "fix_of (InsertOpenerCorrection x t) = (InsertBefore, ob_insertion_token_index x, ToTokenKind (ob_kind x), mb_token_index t)"
  by (simp add: fix_of_def InsertOpenerCorrection_def)

definition next_ok :: "Item list \<Rightarrow> int \<Rightarrow> nat \<Rightarrow> RegionSearch \<Rightarrow> nat list \<times> RegionSearch \<Rightarrow> bool" where
  "next_ok items rend i rs st \<longleftrightarrow> search_inv items rend (Suc i) (snd st) \<and> search_extends rs (snd st) \<and>
     rs_current_layer (snd st) = rs_current_layer rs \<and> layer_ok items (Suc i) (Suc i) (snd st) (fst st)"

lemma next_okD:
  assumes "next_ok items rend i rs st"
  shows "search_inv items rend (Suc i) (snd st)" "search_extends rs (snd st)" "rs_current_layer (snd st) = rs_current_layer rs"
    "layer_ok items (Suc i) (Suc i) (snd st) (fst st)"
  using assms by (simp_all add: next_ok_def)

text \<open>One call of \<open>advance\<close> from a node of the layer before item \<open>i\<close>.\<close>

lemma advance_keep:
  assumes "next_ok items rend i rs st" "layer_ok items i (Suc i) rs [n]" "stack_ok (rs_stacks (snd st)) s"
    "step items rend (node_stack rs n, i) (map_option fix_of c) (stack_of (rs_stacks (snd st)) s, Suc i)"
    "set (stack_of (rs_stacks (snd st)) s) \<subseteq> set (node_stack rs n)"
  shows "next_ok items rend i rs (advance n i cur s cost c st)"
proof -
  note k = next_okD [OF assms(1)]
  obtain layer wl rs1 where a: "AddToLayer (fst st) (Suc i) s Other_k (ss_cost cur + cost)
      \<lparr>pe_parent_node_index = n, pe_correction = c\<rparr> [] (snd st) = (layer, wl, rs1)" by (metis prod_cases3)
  have n: "layer_ok items i (Suc i) (snd st) [n]" by (rule layer_ok_extends [OF assms(2) k(2)])
  have e: "node_stack (snd st) n = node_stack rs n"
    using search_extends_point [OF k(2)] layer_okD(1,3) [OF assms(2), of n] by simp
  have syn: "syn_before items (Suc i) (stack_of (rs_stacks (snd st)) s)"
    using layer_okD(4) [OF assms(2), of n] assms(5) by (auto simp: syn_before_def)
  note r = keep_add_ok [OF k(1) n assms(3) assms(4) [folded e] a syn k(4)]
  have "advance n i cur s cost c st = (layer, rs1)" using a by (simp add: advance_def case_prod_unfold)
  then show ?thesis using r k(3) search_extends_trans [OF k(2) r(2)] by (simp add: next_ok_def)
qed

lemma advance_push:
  assumes "next_ok items rend i rs st" "layer_ok items i (Suc i) rs [n]"
    "Push (rs_stacks (snd st)) (bn_stack (rs_nodes rs ! n)) x = (s, stk)" "\<not> ob_is_synthetic x"
    "step items rend (node_stack rs n, i) None (key_of x # node_stack rs n, Suc i)"
  shows "next_ok items rend i rs (advance n i cur s cost None (fst st, (snd st)\<lparr>rs_stacks := stk\<rparr>))"
proof -
  note k = next_okD [OF assms(1)]
  obtain layer wl rs1 where a: "AddToLayer (fst st) (Suc i) s Other_k (ss_cost cur + cost)
      \<lparr>pe_parent_node_index = n, pe_correction = None\<rparr> [] ((snd st)\<lparr>rs_stacks := stk\<rparr>) = (layer, wl, rs1)" by (metis prod_cases3)
  have n: "layer_ok items i (Suc i) (snd st) [n]" by (rule layer_ok_extends [OF assms(2) k(2)])
  have e: "node_stack (snd st) n = node_stack rs n" "bn_stack (rs_nodes (snd st) ! n) = bn_stack (rs_nodes rs ! n)"
    using search_extends_point [OF k(2)] layer_okD(1,3) [OF assms(2), of n] k(2) by (simp_all add: search_extends_def)
  have syn: "syn_before items (Suc i) (key_of x # node_stack (snd st) n)"
    using layer_okD(4) [OF assms(2), of n] assms(4) e(1) by (auto simp: syn_before_def)
  have p: "Push (rs_stacks (snd st)) (bn_stack (rs_nodes (snd st) ! n)) x = (s, stk)" using assms(3) e(2) by simp
  have st: "step items rend (node_stack (snd st) n, i) (map_option fix_of None) (key_of x # node_stack (snd st) n, Suc i)"
    using assms(5) e(1) by simp
  note r = push_add_ok [OF k(1) n p st a syn k(4)]
  have "advance n i cur s cost None (fst st, (snd st)\<lparr>rs_stacks := stk\<rparr>) = (layer, rs1)"
    using a by (simp add: advance_def case_prod_unfold)
  then show ?thesis using r k(3) search_extends_trans [OF k(2) r(2)] by (simp add: next_ok_def)
qed

lemma AdvanceNode_ok:
  assumes "next_ok items rend i rs st" "layer_ok items i (Suc i) rs [n]" "i < length items"
  shows "next_ok items rend i rs (AdvanceNode items i n st)"
proof -
  obtain next_layer rs' where [simp]: "st = (next_layer, rs')" by (cases st)
  note k = next_okD [OF assms(1), simplified]
  let ?item = "items ! i"
  let ?s = "bn_stack (rs_nodes rs ! n)" and ?k = "item_kind ?item" and ?cur = "Snapshot (rs_nodes rs' ! n)"
  let ?st = "rs_stacks rs'"
  note nl = layer_okD [OF assms(2), of n, simplified]
  have e: "bn_stack (rs_nodes rs' ! n) = ?s" "stack_ok ?st ?s" "stack_of ?st ?s = node_stack rs n"
    using k(2) nl(1,3) by (simp_all add: search_extends_def node_stack_def)
  note inv = search_invD [OF k(1)]
  define penalty where "penalty = AdvancePenalty ?st ?cur ?item"
  show ?thesis
  proof (cases "rs_min_goal_cost rs' < bn_cost (rs_nodes rs' ! n)")
    case True
    then show ?thesis using assms(1) by (simp add: AdvanceNode_def)
  next
    case False
    consider (block) "HasAll ?item {CollapsedBlock}" | (op) "\<not> HasAll ?item {CollapsedBlock}" "IsOpeningBracket ?k"
      | (cl) "\<not> HasAll ?item {CollapsedBlock}" "IsClosingBracket ?k" | (no) "\<not> HasAll ?item {CollapsedBlock}" "\<not> is_bracket ?k"
      by blast
    then show ?thesis
    proof cases
      case block
      then have "AdvanceNode items i n st = advance n i ?cur ?s penalty None st"
        using False e(1) by (simp add: AdvanceNode_def Let_def penalty_def)
      moreover have "next_ok items rend i rs (advance n i ?cur ?s penalty None st)"
        using advance_keep [OF assms(1,2), of ?s None] step_block [OF assms(3) block] e by simp
      ultimately show ?thesis by simp
    next
      case no
      then have "AdvanceNode items i n st = advance n i ?cur ?s penalty None st"
        using False e(1) by (simp add: AdvanceNode_def Let_def penalty_def)
      moreover have "next_ok items rend i rs (advance n i ?cur ?s penalty None st)"
        using advance_keep [OF assms(1,2), of ?s None] step_plain [OF assms(3) no] e by simp
      ultimately show ?thesis by simp
    next
      case op
      obtain s' stk where p: "Push ?st ?s (RealOpener ?item) = (s', stk)" by force
      define st1 where "st1 = (if Depth ?st ?s < MaxSearchStackDepth
        then advance n i ?cur s' penalty None (next_layer, rs'\<lparr>rs_stacks := stk\<rparr>) else st)"
      have x: "\<not> ob_is_synthetic (RealOpener ?item)" "ob_token_index (RealOpener ?item) = tok ?item" "ob_kind (RealOpener ?item) = ?k"
        by (simp_all add: RealOpener_def tok_def)
      have st1: "next_ok items rend i rs st1"
        using assms(1) advance_push [OF assms(1,2), of "RealOpener ?item" s' stk] p x
          step_push [OF assms(3) op, of "key_of (RealOpener ?item)"] by (simp add: st1_def)
      have a: "AdvanceNode items i n st = advance n i ?cur ?s CostReplaceOpening
          (Some (ReplaceWithError_fix (it_token ?item) UnmatchedOpening_d ''Adv_ReplaceOpener'')) st1"
        using False e(1) op p by (simp add: AdvanceNode_def Let_def penalty_def st1_def)
      have e1: "stack_ok (rs_stacks (snd st1)) ?s" "stack_of (rs_stacks (snd st1)) ?s = node_stack rs n"
        using next_okD(2) [OF st1] nl(3) by (simp_all add: search_extends_def node_stack_def)
      show ?thesis unfolding a
        by (rule advance_keep [OF st1 assms(2)])
          (use e1 step_error [OF assms(3) op(1)] op in \<open>simp_all add: fix_of_error give_up_def tok_def\<close>)
    next
      case cl
      let ?t = "Top ?st ?s"
      define st1 where "st1 = (if \<not> IsEmpty ?s \<and> ob_kind ?t = MatchingOpeningKind ?k
        then (case MatchClosePenalty ?t ?item of None \<Rightarrow> st
          | Some mc \<Rightarrow> advance n i ?cur (Pop ?st ?s) (penalty + mc)
              (if ob_is_synthetic ?t then Some (InsertOpenerCorrection ?t (it_token ?item)) else None) st) else st)"
      have st1: "next_ok items rend i rs st1"
      proof (cases "\<not> IsEmpty ?s \<and> ob_kind ?t = MatchingOpeningKind ?k")
        case True
        note tp = Top_Pop [OF inv(2) e(2)]
        let ?c = "if ob_is_synthetic ?t then Some (InsertOpenerCorrection ?t (it_token ?item)) else None"
        have s: "node_stack rs n = key_of ?t # stack_of ?st (Pop ?st ?s)" using tp(1) True e(3) by simp
        then have sub: "set (stack_of ?st (Pop ?st ?s)) \<subseteq> set (node_stack rs n)" by auto
        have stp: "step items rend (node_stack rs n, i) (map_option fix_of ?c) (stack_of ?st (Pop ?st ?s), Suc i)"
          using step_match [OF assms(3) cl, of "key_of ?t" rend "stack_of ?st (Pop ?st ?s)"] True s
          by (auto simp: fix_of_opener tok_def split: if_splits)
        have "next_ok items rend i rs (advance n i ?cur (Pop ?st ?s) (penalty + mc) ?c st)" for mc
          by (rule advance_keep [OF assms(1,2)]) (use stp sub tp(2) True in simp_all)
        note a = this
        show ?thesis
        proof (cases "MatchClosePenalty ?t ?item")
          case None
          with True assms(1) show ?thesis unfolding st1_def by simp
        next
          case (Some mc)
          with True have "st1 = advance n i ?cur (Pop ?st ?s) (penalty + mc) ?c st" unfolding st1_def by simp
          with a show ?thesis by (simp only:)
        qed
      qed (use assms(1) in \<open>auto simp: st1_def\<close>)
      have nop: "\<not> IsOpeningBracket ?k" using cl(2) opening_not_closing by blast
      have a: "AdvanceNode items i n st = advance n i ?cur ?s CostReplaceClosing
          (Some (ReplaceWithError_fix (it_token ?item) UnmatchedClosing_d ''Adv_ReplaceCloser'')) st1"
        using False e(1) cl nop
        by (cases "MatchClosePenalty ?t ?item") (simp_all add: AdvanceNode_def Let_def penalty_def st1_def)
      have e1: "stack_ok (rs_stacks (snd st1)) ?s" "stack_of (rs_stacks (snd st1)) ?s = node_stack rs n"
        using next_okD(2) [OF st1] nl(3) by (simp_all add: search_extends_def node_stack_def)
      show ?thesis unfolding a
        by (rule advance_keep [OF st1 assms(2)])
          (use e1 step_error [OF assms(3) cl(1)] cl in \<open>simp_all add: fix_of_error give_up_def tok_def\<close>)
    qed
  qed
qed

theorem AdvanceOverItem_ok:
  assumes "search_inv items rend (Suc i) rs" "layer_ok items i (Suc i) rs (rs_current_layer rs)" "i < length items"
  obtains L rs' where "AdvanceOverItem items i rs = (L, rs')" "search_inv items rend j rs'" "layer_ok items (Suc i) (Suc i) rs' L"
    "rs_layer_dedup rs' = (\<lambda>_. None)"
proof -
  have "next_ok items rend i rs (fold (AdvanceNode items i) ns ([], rs))" if "layer_ok items i (Suc i) rs ns" for ns
    using that
  proof (induction ns rule: rev_induct)
    case Nil
    then show ?case using assms(1) by (simp add: next_ok_def)
  next
    case (snoc n ns)
    then show ?case using AdvanceNode_ok [OF _ _ assms(3), of rend rs "fold (AdvanceNode items i) ns ([], rs)" n] by simp
  qed
  from this [OF assms(2)] obtain L rs1 where f: "fold (AdvanceNode items i) (rs_current_layer rs) ([], rs) = (L, rs1)"
      "next_ok items rend i rs (L, rs1)" by (metis surj_pair)
  let ?rs = "rs1\<lparr>rs_layer_dedup := (\<lambda>_. None)\<rparr>"
  have "AdvanceOverItem items i rs = (PruneBeam (rs_nodes rs1) L, ?rs)" using f(1) by (simp add: AdvanceOverItem_def)
  moreover have "search_inv items rend j ?rs" using clear_dedup next_okD(1) [OF f(2)] by simp
  moreover have "layer_ok items (Suc i) (Suc i) rs1 (PruneBeam (rs_nodes rs1) L)"
    using next_okD(4) [OF f(2)] PruneBeam_subset by (auto intro: layer_ok_mono)
  then have "layer_ok items (Suc i) (Suc i) ?rs (PruneBeam (rs_nodes rs1) L)" by (rule layer_ok_same) simp_all
  ultimately show ?thesis using that by simp
qed

section \<open>The layers of a region\<close>

theorem search_layers_ok:
  assumes "distinct (map tok items)"
  obtains rs where "search_layers items = Some rs" "search_inv items rend (length items) rs"
    "layer_ok items (length items) (length items) rs (rs_current_layer rs)"
proof -
  let ?start = "RegionSearch_init\<lparr>rs_nodes := [\<lparr>bn_item_index = 0, bn_stack = None, bn_cost = 0,
           bn_closer_inserted = Other_k, bn_parent_edges = []\<rparr>], rs_current_layer := [0]\<rparr>"
  have "i \<le> length items \<Longrightarrow> \<exists>rs. fold (search_item items) [0..<i] (Some ?start) = Some rs \<and>
     search_inv items rend i rs \<and> layer_ok items i i rs (rs_current_layer rs) \<and> rs_layer_dedup rs = (\<lambda>_. None)" for i
  proof (induction i)
    case 0
    show ?case
      by (simp add: search_inv_def edges_ok_def RegionSearch_init_def stacks_ok_empty layer_ok_def syn_before_def point_def node_stack_def)
  next
    case (Suc i)
    then obtain rs where f: "fold (search_item items) [0..<i] (Some ?start) = Some rs" "search_inv items rend i rs"
      "layer_ok items i i rs (rs_current_layer rs)" "rs_layer_dedup rs = (\<lambda>_. None)" by auto
    have i: "i < length items" using Suc.prems by simp
    obtain rs1 where rs1: "(if item_kind (items ! i) \<noteq> FileEnd_k then InsertBracketsBefore items i rs else Some rs) = Some rs1"
      "search_inv items rend (Suc i) rs1" "layer_ok items i (Suc i) rs1 (rs_current_layer rs1)"
    proof (cases "item_kind (items ! i) \<noteq> FileEnd_k")
      case True
      then show ?thesis using InsertBracketsBefore_ok [OF f(2,3) assms i, of "Suc i"] that by auto
    next
      case False
      have "search_inv items rend (Suc i) rs" using search_inv_other [OF f(2,4)] by simp
      moreover have "layer_ok items i (Suc i) rs (rs_current_layer rs)" using layer_ok_mono [OF f(3)] by simp
      ultimately show ?thesis using False that by simp
    qed
    obtain L rs2 where rs2: "AdvanceOverItem items i rs1 = (L, rs2)" "search_inv items rend (Suc i) rs2"
      "layer_ok items (Suc i) (Suc i) rs2 L" "rs_layer_dedup rs2 = (\<lambda>_. None)"
      using AdvanceOverItem_ok [OF rs1(2,3) i] by metis
    have "fold (search_item items) [0..<Suc i] (Some ?start) = Some (rs2\<lparr>rs_current_layer := L\<rparr>)"
      using f(1) rs1(1) rs2(1) by (auto simp: search_item_def split: if_splits)
    then show ?case using rs2 by (simp add: layer_update)
  qed
  from this [of "length items"] show ?thesis using that by (auto simp: search_layers_def)
qed

section \<open>Closing at the end of the region\<close>

text \<open>The state of the nodes added here is not recorded in them; \<open>g\<close> gives it.\<close>

lemma end_closers_ok:
  assumes "edges_ok items rend nodes g" "parent < length nodes" "g parent = (stack_of stacks s, length items)"
    "stacks_ok stacks" "stack_ok stacks s" "\<forall>x \<in> set (stack_of stacks s). \<not> ob_is_synthetic x" "d = length (stack_of stacks s)"
  shows "\<exists>fc parent' X g'. fold (end_closer items rend stacks) (stacks_below stacks d s) (cost, parent, nodes) = (fc, parent', nodes @ X) \<and>
    edges_ok items rend (nodes @ X) g' \<and> (\<forall>n < length nodes. g' n = g n) \<and> parent' < length (nodes @ X) \<and> g' parent' = ([], length items)"
  using assms
proof (induction d arbitrary: s cost parent nodes g)
  case 0
  then show ?case by (auto intro!: exI [of _ "[]"])
next
  case (Suc d)
  then have ne: "\<not> IsEmpty s" using stack_caches(1) [OF Suc.prems(4,5)] by auto
  note tp = Top_Pop [OF Suc.prems(4,5) ne]
  let ?t = "Top stacks s" and ?p = "Pop stacks s"
  define fc where "fc = cost + CostToCloseAtEnd ?t"
  define node where "node = \<lparr>bn_item_index = length items, bn_stack = None, bn_cost = fc, bn_closer_inserted = Other_k,
        bn_parent_edges = [\<lparr>pe_parent_node_index = parent,
          pe_correction = Some (InsertCloserCorrection ?t rend ''Close_RegionEnd'')\<rparr>]\<rparr>"
  have e: "end_closer items rend stacks s (cost, parent, nodes) = (fc, length nodes, nodes @ [node])"
    by (simp add: end_closer_def fc_def node_def Let_def)
  have real: "\<not> ob_is_synthetic ?t" using Suc.prems(6) tp(1) by simp
  define g1 where "g1 = g(length nodes := (stack_of stacks ?p, length items))"
  have "step items rend (g parent) (Some (fix_of (InsertCloserCorrection ?t rend ''Close_RegionEnd''))) (stack_of stacks ?p, length items)"
    using step_closer [of "key_of ?t" "length items" items rend "stack_of stacks ?p"] real Suc.prems(3) tp(1)
    by (simp add: fix_of_closer gap_at_def)
  then have "edges_ok items rend (nodes @ [node]) g1"
    using edges_ok_snoc [OF Suc.prems(1), of node _ g1] Suc.prems(2) by (simp add: node_def g1_def)
  from Suc.IH [OF this, of "length nodes" ?p fc] obtain fc' parent' X g' where r:
    "fold (end_closer items rend stacks) (stacks_below stacks d ?p) (fc, length nodes, nodes @ [node]) = (fc', parent', (nodes @ [node]) @ X)"
    "edges_ok items rend ((nodes @ [node]) @ X) g'" "\<forall>n < length (nodes @ [node]). g' n = g1 n"
    "parent' < length ((nodes @ [node]) @ X)" "g' parent' = ([], length items)"
    using Suc.prems tp by (auto simp: g1_def)
  have "fold (end_closer items rend stacks) (stacks_below stacks (Suc d) s) (cost, parent, nodes) = (fc', parent', nodes @ node # X)"
    using r(1) ne e by simp
  moreover have "\<forall>n < length nodes. g' n = g n" using r(3) by (simp add: g1_def)
  ultimately show ?case using r(2,4,5) by (metis append_Cons append_Nil append_assoc)
qed

definition goals_ok :: "Item list \<Rightarrow> int \<Rightarrow> RegionSearch \<Rightarrow> nat list \<times> RegionSearch \<Rightarrow> bool" where
  "goals_ok items rend rs st \<longleftrightarrow> rs_stacks (snd st) = rs_stacks rs \<and> rs_current_layer (snd st) = rs_current_layer rs \<and>
     (\<exists>X g. rs_nodes (snd st) = rs_nodes rs @ X \<and> edges_ok items rend (rs_nodes (snd st)) g \<and>
        (\<forall>n < length (rs_nodes rs). g n = point rs n) \<and>
        (\<forall>n \<in> set (fst st). n < length (rs_nodes (snd st)) \<and> g n = ([], length items)))"

lemma close_node_ok:
  assumes "goals_ok items rend rs st" "layer_ok items (length items) m rs [n]" "stacks_ok (rs_stacks rs)"
  shows "goals_ok items rend rs (close_node items rend n st)"
proof -
  obtain goals rs' where [simp]: "st = (goals, rs')" by (cases st)
  obtain X g where k: "rs_stacks rs' = rs_stacks rs" "rs_current_layer rs' = rs_current_layer rs" "rs_nodes rs' = rs_nodes rs @ X"
    "edges_ok items rend (rs_nodes rs') g" "\<forall>n < length (rs_nodes rs). g n = point rs n"
    "\<forall>n \<in> set goals. n < length (rs_nodes rs') \<and> g n = ([], length items)"
    using assms(1) by (auto simp: goals_ok_def)
  note nl = layer_okD [OF assms(2), of n, simplified]
  let ?s = "bn_stack (rs_nodes rs ! n)"
  have b: "rs_nodes rs' ! n = rs_nodes rs ! n" using k(3) nl(1) by (simp add: nth_append)
  show ?thesis
  proof (cases "rs_min_goal_cost rs' < bn_cost (rs_nodes rs ! n) \<or> HasSynthetic (rs_stacks rs) ?s")
    case True
    then show ?thesis using assms(1) b k(1) by (auto simp: close_node_def)
  next
    case False
    have real: "\<forall>x \<in> set (stack_of (rs_stacks rs) ?s). \<not> ob_is_synthetic x"
      using False stack_caches(3) [OF assms(3) nl(3)] by blast
    have g: "g n = (stack_of (rs_stacks rs) ?s, length items)" using k(5) nl(1,5) by (simp add: node_stack_def)
    have "n < length (rs_nodes rs')" using k(3) nl(1) by simp
    from end_closers_ok [OF k(4) this g assms(3) nl(3) real refl, of "bn_cost (rs_nodes rs ! n)"] obtain fc parent Y g' where
      r: "fold (end_closer items rend (rs_stacks rs)) (stacks_below (rs_stacks rs) (length (stack_of (rs_stacks rs) ?s)) ?s)
            (bn_cost (rs_nodes rs ! n), n, rs_nodes rs') = (fc, parent, rs_nodes rs' @ Y)"
        "edges_ok items rend (rs_nodes rs' @ Y) g'" "\<forall>n < length (rs_nodes rs'). g' n = g n"
        "parent < length (rs_nodes rs' @ Y)" "g' parent = ([], length items)" by blast
    have dd: "Depth (rs_stacks rs) ?s = length (stack_of (rs_stacks rs) ?s)" by (rule stack_caches(2) [OF assms(3) nl(3)])
    obtain goals2 rs2 where c: "close_node items rend n st = (goals2, rs2)" by force
    have k2: "rs_nodes rs2 = rs_nodes rs' @ Y" "rs_stacks rs2 = rs_stacks rs'" "rs_current_layer rs2 = rs_current_layer rs'"
      "set goals2 \<subseteq> insert parent (set goals)"
      using c False b k(1) r(1) dd by (auto simp: close_node_def Let_def split: if_splits)
    have "\<forall>n \<in> set goals2. n < length (rs_nodes rs' @ Y) \<and> g' n = ([], length items)"
      using k2(4) k(6) r(3-5) by (fastforce intro: trans_less_add1)
    moreover have "\<forall>n < length (rs_nodes rs). g' n = point rs n" using r(3) k(3,5) by simp
    ultimately show ?thesis unfolding goals_ok_def c using k(1-3) k2(1-3) r(2) by auto
  qed
qed

lemma CloseAtRegionEnd_ok:
  assumes "search_inv items rend (length items) rs" "layer_ok items (length items) m rs (rs_current_layer rs)"
    "CloseAtRegionEnd items rend rs = (goals, rs')"
  obtains g where "edges_ok items rend (rs_nodes rs') g" "\<forall>n \<in> set goals. n < length (rs_nodes rs') \<and> g n = ([], length items)"
proof -
  note i = search_invD [OF assms(1)]
  have "goals_ok items rend rs (fold (close_node items rend) ns ([], rs))" if "layer_ok items (length items) m rs ns" for ns
    using that
  proof (induction ns rule: rev_induct)
    case Nil
    then show ?case using i(1) by (auto simp: goals_ok_def)
  next
    case (snoc n ns)
    then show ?case using close_node_ok [OF _ _ i(2), of items rend "fold (close_node items rend) ns ([], rs)" m n] by simp
  qed
  from this [OF assms(2)] show ?thesis using that assms(3) by (auto simp: goals_ok_def CloseAtRegionEnd_def)
qed

section \<open>The corrections of a region\<close>

lemma fix_of_tied: "fix_of (c\<lparr>bc_is_tied := t\<rparr>) = fix_of c"
  by (simp add: fix_of_def)

lemma count_keys_length:
  "length (kc_key_id (fold (count_key f) cs kc)) = length (kc_key_id kc) + length cs"
  "length (kc_rank (fold (count_key f) cs kc)) = length (kc_rank kc) + length cs"
  by (induction cs arbitrary: kc) (simp_all add: count_key_def case_prod_unfold Let_def)

lemma FindTiedCorrections_length: "length (FindTiedCorrections all_paths f) = length (hd all_paths)"
  by (simp add: FindTiedCorrections_def Let_def count_keys_length)

lemma map_fix_of_tied:
  "length ts = length cs \<Longrightarrow> map fix_of (map2 (\<lambda>c t. c\<lparr>bc_is_tied := t\<rparr>) cs ts) = map fix_of cs"
  by (induction ts cs rule: list_induct2) (simp_all add: fix_of_tied)

theorem RegionSearch_Solve_path:
  assumes "distinct (map tok items)"
  shows "\<exists>C. RegionSearch_Solve items rend C0 = Some (C0 @ C) \<and> path_fixes items rend blk C"
proof -
  obtain rs where l: "search_layers items = Some rs" "search_inv items rend (length items) rs"
    "layer_ok items (length items) (length items) rs (rs_current_layer rs)" using search_layers_ok [OF assms] by metis
  obtain goals rs' where c: "CloseAtRegionEnd items rend rs = (goals, rs')" by force
  obtain g where g: "edges_ok items rend (rs_nodes rs') g" "\<forall>n \<in> set goals. n < length (rs_nodes rs') \<and> g n = ([], length items)"
    using CloseAtRegionEnd_ok [OF l(2,3) c] by metis
  show ?thesis
  proof (cases "goals = []")
    case True
    then show ?thesis using l(1) c SolveNaive_path by (simp add: RegionSearch_Solve_def)
  next
    case False
    obtain ps where ps: "EnumerateOptimalPaths (rs_nodes rs') goals = Some ps" "ps \<noteq> []"
      "\<forall>p \<in> set ps. \<exists>n \<in> set goals. route (rs_nodes rs') n p"
      using EnumerateOptimalPaths_routes [OF g(1) False] g(2) by blast
    then obtain n where n: "n \<in> set goals" "route (rs_nodes rs') n (hd ps)" by fastforce
    then obtain E where p: "path items rend blk E (map fix_of (hd ps)) [] (length items)"
      using route_path [OF g(1) n(2), of blk] g(2) by auto
    let ?C = "map2 (\<lambda>corr tied. corr\<lparr>bc_is_tied := tied\<rparr>) (hd ps) (FindTiedCorrections ps (repair_key items rend))"
    have "map fix_of ?C = map fix_of (hd ps)" by (rule map_fix_of_tied) (simp add: FindTiedCorrections_length)
    then have "path_fixes items rend blk ?C" unfolding path_fixes_def using p by metis
    moreover have "RegionSearch_Solve items rend C0 = Some (C0 @ ?C)"
      using l(1) c False ps(1,2) by (simp add: RegionSearch_Solve_def ReconstructCorrections_def)
    ultimately show ?thesis by blast
  qed
qed

theorem SolveRegionCostBased_path:
  "distinct (map tok items) \<Longrightarrow> \<exists>C. SolveRegionCostBased items rend C0 = Some (C0 @ C) \<and> path_fixes items rend blk C"
  using RegionSearch_Solve_path SolveNaive_path by (simp add: SolveRegionCostBased_def)

end
