(* ===== verification/Bracket_Clean.thy ===== *)
theory Bracket_Clean
  imports Bracket_Repair
begin

text \<open>
  The passes before the search keep what the search relies on: the first pairing pairs an opener with a closer of its kind,
  a range that is marked clean is balanced, and the items cover the tokens in order.
\<close>

section \<open>The first pairing\<close>

definition pairs_ok :: "MismatchedBracketToken list \<Rightarrow> nat option list \<Rightarrow> bool" where
  "pairs_ok tokens mp \<longleftrightarrow> length mp = length tokens \<and>
     (\<forall>i j. i < length tokens \<longrightarrow> mp ! i = Some j \<longrightarrow> j < length tokens \<and> mp ! j = Some i \<and> i \<noteq> j \<and>
        (i < j \<longrightarrow> IsOpeningBracket (mb_kind (tokens ! i)) \<and> mb_kind (tokens ! j) = MatchingClosingKind (mb_kind (tokens ! i))))"

lemma pairs_okD:
  assumes "pairs_ok tokens mp" "i < length tokens" "mp ! i = Some j"
  shows "j < length tokens" "mp ! j = Some i" "i \<noteq> j"
    "i < j \<Longrightarrow> IsOpeningBracket (mb_kind (tokens ! i))" "i < j \<Longrightarrow> mb_kind (tokens ! j) = MatchingClosingKind (mb_kind (tokens ! i))"
  using assms unfolding pairs_ok_def by blast+

lemma opener_loop_Some:
  "opener_loop tokens st c n = Some s \<Longrightarrow> s < n \<and> plausible_opener (tokens ! (st ! s)) c"
  by (induction tokens st c n rule: opener_loop.induct) (auto split: if_splits)

lemma plausible_kind:
  "plausible_opener o' c \<Longrightarrow> IsClosingBracket (mb_kind c) \<Longrightarrow>
   IsOpeningBracket (mb_kind o') \<and> mb_kind c = MatchingClosingKind (mb_kind o')"
  by (auto simp: plausible_opener_def matching_inverse split: if_splits) (auto simp: IsOpeningBracket_def)

definition match_inv :: "MismatchedBracketToken list \<Rightarrow> nat \<Rightarrow> nat option list \<times> nat list \<Rightarrow> bool" where
  "match_inv tokens k st \<longleftrightarrow> pairs_ok tokens (fst st) \<and> distinct (snd st) \<and>
     (\<forall>i < length tokens. k \<le> i \<longrightarrow> fst st ! i = None) \<and> (\<forall>s \<in> set (snd st). s < k \<and> fst st ! s = None)"

lemma match_step_inv:
  assumes "match_inv tokens k st" "k < length tokens"
  shows "match_inv tokens (Suc k) (match_step tokens k st)"
proof -
  obtain mp os where [simp]: "st = (mp, os)" by (cases st)
  have p: "pairs_ok tokens mp" and d: "distinct os" and late: "\<And>i. i < length tokens \<Longrightarrow> k \<le> i \<Longrightarrow> mp ! i = None"
    and os: "\<And>s. s \<in> set os \<Longrightarrow> s < k \<and> mp ! s = None"
    using assms(1) by (auto simp: match_inv_def)
  have l: "length mp = length tokens" using p by (simp add: pairs_ok_def)
  let ?k = "mb_kind (tokens ! k)"
  show ?thesis
  proof (cases "IsOpeningBracket ?k")
    case True
    then have "match_step tokens k st = (mp, os @ [k])" by (simp add: match_step_def)
    then show ?thesis using p d late os assms(2) by (fastforce simp: match_inv_def less_Suc_eq)
  next
    case False
    show ?thesis
    proof (cases "IsClosingBracket ?k \<and> FindMatchingOpener tokens os k \<noteq> None")
      case True
      then obtain s where s: "FindMatchingOpener tokens os k = Some s" by auto
      then have sl: "s < length os" "plausible_opener (tokens ! (os ! s)) (tokens ! k)"
        using opener_loop_Some by (auto simp: FindMatchingOpener_def)
      let ?o = "os ! s"
      have o: "?o < k" "mp ! ?o = None" using os sl(1) by (meson nth_mem)+
      have kinds: "IsOpeningBracket (mb_kind (tokens ! ?o))" "?k = MatchingClosingKind (mb_kind (tokens ! ?o))"
        using plausible_kind [OF sl(2)] True by simp_all
      let ?mp = "mp[?o := Some k, k := Some ?o]"
      have r: "match_step tokens k st = (?mp, take s os)" using False True s by (simp add: match_step_def)
      have other: "j \<noteq> ?o \<and> j \<noteq> k" if "i < length tokens" "mp ! i = Some j" for i j
        using pairs_okD(2) [OF p that] o(2) late [of k] assms(2) by auto
      have "pairs_ok tokens ?mp"
        unfolding pairs_ok_def
      proof (intro conjI allI impI)
        fix i j assume i: "i < length tokens" and ij: "?mp ! i = Some j"
        consider "i = k" "j = ?o" | "i = ?o" "j = k" "i \<noteq> k" | "i \<noteq> k" "i \<noteq> ?o" "mp ! i = Some j"
          using ij i l assms(2) o(1) by (auto simp: nth_list_update split: if_splits)
        then have "j < length tokens \<and> ?mp ! j = Some i \<and> i \<noteq> j \<and>
           (i < j \<longrightarrow> IsOpeningBracket (mb_kind (tokens ! i)) \<and> mb_kind (tokens ! j) = MatchingClosingKind (mb_kind (tokens ! i)))"
        proof cases
          case 3
          with pairs_okD [OF p i 3(3)] other [OF i 3(3)] show ?thesis by simp
        qed (use o(1) assms(2) kinds l in auto)
        then show "j < length tokens" "?mp ! j = Some i" "i \<noteq> j" "i < j \<Longrightarrow> IsOpeningBracket (mb_kind (tokens ! i))"
          "i < j \<Longrightarrow> mb_kind (tokens ! j) = MatchingClosingKind (mb_kind (tokens ! i))" by blast+
      qed (use l in simp)
      moreover have "\<forall>x \<in> set (take s os). x < Suc k \<and> ?mp ! x = None"
      proof
        fix x assume x: "x \<in> set (take s os)"
        then have "x \<in> set os" by (rule in_set_takeD)
        moreover have "x \<noteq> ?o" using x d sl(1) by (auto simp: in_set_conv_nth nth_eq_iff_index_eq)
        ultimately show "x < Suc k \<and> ?mp ! x = None" using os [of x] by simp
      qed
      moreover have "\<forall>i < length tokens. Suc k \<le> i \<longrightarrow> ?mp ! i = None" using late o(1) by simp
      ultimately show ?thesis unfolding r match_inv_def using d by simp
    next
      case False': False
      then have "match_step tokens k st = (mp, os)" using False by (auto simp: match_step_def split: option.splits)
      then show ?thesis using p d late os by (fastforce simp: match_inv_def)
    qed
  qed
qed

lemma MatchBracketPairs_ok: "pairs_ok tokens (MatchBracketPairs tokens)"
proof -
  have "k \<le> length tokens \<Longrightarrow> match_inv tokens k (fold (match_step tokens) [0..<k] (replicate (length tokens) None, []))" for k
  proof (induction k)
    case 0
    then show ?case by (simp add: match_inv_def pairs_ok_def)
  next
    case (Suc k)
    then show ?case using match_step_inv by simp
  qed
  from this [of "length tokens"] show ?thesis by (simp add: match_inv_def MatchBracketPairs_def)
qed

section \<open>Clean ranges\<close>

lemma PairInterior_cong:
  "\<forall>j > i. c ! j = c' ! j \<Longrightarrow> PairInteriorIsClean tokens a c i q = PairInteriorIsClean tokens a c' i q"
  unfolding PairInteriorIsClean_def by (rule list.pred_cong) (simp_all add: interior_ok_def)

definition clean_upto :: "MismatchedBracketToken list \<Rightarrow> TokenAnalysis \<Rightarrow> nat \<Rightarrow> bool list \<Rightarrow> bool" where
  "clean_upto tokens a k c \<longleftrightarrow> length c = length tokens \<and>
     (\<forall>i < length tokens. c ! i \<longrightarrow> k \<le> i \<and>
        (\<exists>q. ta_match_partner a ! i = Some q \<and> i < q \<and> PairInteriorIsClean tokens a c i q))"

lemma mark_step_clean:
  assumes "clean_upto tokens a (Suc k) c" "k < length tokens"
  shows "clean_upto tokens a k (mark_step tokens a k c)"
proof -
  have c: "length c = length tokens" "\<And>i. i < length tokens \<Longrightarrow> c ! i \<Longrightarrow> Suc k \<le> i \<and>
      (\<exists>q. ta_match_partner a ! i = Some q \<and> i < q \<and> PairInteriorIsClean tokens a c i q)"
    using assms(1) by (auto simp: clean_upto_def)
  have keep: "clean_upto tokens a k c" using c by (force simp: clean_upto_def)
  show ?thesis
  proof (cases "ta_match_partner a ! k")
    case None
    then show ?thesis using keep by (simp add: mark_step_def)
  next
    case (Some q)
    show ?thesis
    proof (cases "q \<le> k")
      case True
      then show ?thesis using keep Some by (simp add: mark_step_def)
    next
      case False
      define b where "b \<longleftrightarrow> (if mb_kind (tokens ! k) = OpenCurlyBrace_k then BracePairIsClean tokens a k q
             else GroupPairIsClean tokens a k q) \<and> PairInteriorIsClean tokens a c k q"
      have m: "mark_step tokens a k c = c[k := b]" using Some False by (simp add: mark_step_def b_def)
      have same: "PairInteriorIsClean tokens a (c[k := b]) i q' = PairInteriorIsClean tokens a c i q'" if "k \<le> i" for i q'
        using that by (intro PairInterior_cong) auto
      have "k \<le> i \<and> (\<exists>q. ta_match_partner a ! i = Some q \<and> i < q \<and> PairInteriorIsClean tokens a (c[k := b]) i q)"
        if i: "i < length tokens" "c[k := b] ! i" for i
      proof (cases "i = k")
        case True
        then have b using i assms(2) c(1) by simp
        then have "PairInteriorIsClean tokens a c k q" by (simp add: b_def)
        then have "PairInteriorIsClean tokens a (c[k := b]) k q" using same [of k q] by (simp only: order_refl)
        with True Some False show ?thesis by auto
      next
        case ne: False
        with i c(2) [of i] show ?thesis by (auto simp: same)
      qed
      then show ?thesis unfolding m clean_upto_def using c(1) by simp
    qed
  qed
qed

lemma MarkCleanRanges_clean: "clean_upto tokens a 0 (MarkCleanRanges tokens a)"
proof -
  have "k \<le> length tokens \<Longrightarrow> clean_upto tokens a k
    (fold (mark_step tokens a) (rev [k..<length tokens]) (replicate (length tokens) False))" for k
  proof (induction "length tokens - k" arbitrary: k)
    case 0
    then show ?case by (simp add: clean_upto_def)
  next
    case (Suc d)
    then have k: "k < length tokens" "d = length tokens - Suc k" by auto
    have "rev [k..<length tokens] = rev [Suc k..<length tokens] @ [k]" using k(1) by (simp add: upt_conv_Cons)
    then show ?case using mark_step_clean [OF _ k(1)] Suc.hyps(1) [OF k(2)] k(1) by simp
  qed
  from this [of 0] show ?thesis by (simp add: MarkCleanRanges_def)
qed

definition clean_range :: "MismatchedBracketToken list \<Rightarrow> nat option list \<Rightarrow> bool list \<Rightarrow> bool" where
  "clean_range tokens mp c \<longleftrightarrow> length c = length tokens \<and> (\<forall>i < length tokens. c ! i \<longrightarrow>
     (\<exists>q. mp ! i = Some q \<and> i < q \<and> (\<forall>j. i < j \<longrightarrow> j < q \<longrightarrow> is_bracket (mb_kind (tokens ! j)) \<longrightarrow>
        (\<exists>r. mp ! j = Some r \<and> i \<le> r \<and> r \<le> q) \<and> (IsOpeningBracket (mb_kind (tokens ! j)) \<longrightarrow> c ! j))))"

lemma clean_rangeD:
  assumes "clean_range tokens mp c" "i < length tokens" "c ! i"
  obtains q where "mp ! i = Some q" "i < q"
    "\<And>j. i < j \<Longrightarrow> j < q \<Longrightarrow> is_bracket (mb_kind (tokens ! j)) \<Longrightarrow> \<exists>r. mp ! j = Some r \<and> i \<le> r \<and> r \<le> q"
    "\<And>j. i < j \<Longrightarrow> j < q \<Longrightarrow> IsOpeningBracket (mb_kind (tokens ! j)) \<Longrightarrow> c ! j"
  using assms unfolding clean_range_def by blast

lemma clean_range_at:
  assumes "clean_range tokens mp c" "i < length tokens" "c ! i" "mp ! i = Some q"
  shows "i < q"
    "\<And>j. i < j \<Longrightarrow> j < q \<Longrightarrow> is_bracket (mb_kind (tokens ! j)) \<Longrightarrow> \<exists>r. mp ! j = Some r \<and> i \<le> r \<and> r \<le> q"
    "\<And>j. i < j \<Longrightarrow> j < q \<Longrightarrow> IsOpeningBracket (mb_kind (tokens ! j)) \<Longrightarrow> c ! j"
  using assms unfolding clean_range_def by (fastforce)+

lemma MarkCleanRanges_range: "clean_range tokens (ta_match_partner a) (MarkCleanRanges tokens a)"
proof -
  let ?c = "MarkCleanRanges tokens a"
  have c: "length ?c = length tokens" "\<And>i. i < length tokens \<Longrightarrow> ?c ! i \<Longrightarrow>
      \<exists>q. ta_match_partner a ! i = Some q \<and> i < q \<and> PairInteriorIsClean tokens a ?c i q"
    using MarkCleanRanges_clean [of tokens a] by (auto simp: clean_upto_def)
  have "(\<exists>r. ta_match_partner a ! j = Some r \<and> i \<le> r \<and> r \<le> q) \<and> (IsOpeningBracket (mb_kind (tokens ! j)) \<longrightarrow> ?c ! j)"
    if "PairInteriorIsClean tokens a ?c i q" "i < j" "j < q" "is_bracket (mb_kind (tokens ! j))" for i j q
  proof -
    have "interior_ok tokens a ?c i q j" using that(1-3) by (simp add: PairInteriorIsClean_def list_all_iff)
    then show ?thesis using that(4) by (auto simp: interior_ok_def Let_def split: option.splits)
  qed
  note int = this
  show ?thesis
    unfolding clean_range_def
  proof (intro conjI allI impI)
    fix i assume "i < length tokens" "?c ! i"
    then obtain q where q: "ta_match_partner a ! i = Some q" "i < q" "PairInteriorIsClean tokens a ?c i q" using c(2) by blast
    show "\<exists>q. ta_match_partner a ! i = Some q \<and> i < q \<and> (\<forall>j. i < j \<longrightarrow> j < q \<longrightarrow> is_bracket (mb_kind (tokens ! j)) \<longrightarrow>
        (\<exists>r. ta_match_partner a ! j = Some r \<and> i \<le> r \<and> r \<le> q) \<and> (IsOpeningBracket (mb_kind (tokens ! j)) \<longrightarrow> ?c ! j))"
      using q(1,2) int [OF q(3)] by (intro exI [of _ q]) simp
  qed (rule c(1))
qed

section \<open>Clean ranges are balanced\<close>

definition token_event :: "MismatchedBracketToken list \<Rightarrow> nat option list \<Rightarrow> nat \<Rightarrow> event" where
  "token_event tokens mp j = (let t = tokens ! j in
     ((mb_token_index t, 2, 0),
      Opened (if IsOpeningBracket (mb_kind t) then mb_token_index t
              else case mp ! j of Some r \<Rightarrow> mb_token_index (tokens ! r) | None \<Rightarrow> 0), mb_kind t))"

definition range_events :: "MismatchedBracketToken list \<Rightarrow> nat option list \<Rightarrow> nat \<Rightarrow> nat \<Rightarrow> event list" where
  "range_events tokens mp a b = map (token_event tokens mp) (filter (\<lambda>j. is_bracket (mb_kind (tokens ! j))) [a..<b])"

lemma range_events_split: "a \<le> b \<Longrightarrow> b \<le> c \<Longrightarrow> range_events tokens mp a c = range_events tokens mp a b @ range_events tokens mp b c"
  using upt_add_eq_append [of a b "c - b"] by (simp add: range_events_def)

lemma range_events_one:
  "range_events tokens mp a (Suc a) = (if is_bracket (mb_kind (tokens ! a)) then [token_event tokens mp a] else [])"
  by (simp add: range_events_def)

lemma range_balanced:
  assumes "pairs_ok tokens mp" "clean_range tokens mp c" "b \<le> length tokens"
    "\<And>p. a \<le> p \<Longrightarrow> p < b \<Longrightarrow> IsOpeningBracket (mb_kind (tokens ! p)) \<Longrightarrow> c ! p \<and> (\<exists>q < b. mp ! p = Some q)"
    "\<And>p. a \<le> p \<Longrightarrow> p < b \<Longrightarrow> IsClosingBracket (mb_kind (tokens ! p)) \<Longrightarrow> \<exists>q \<ge> a. mp ! p = Some q"
  shows "scan_events (range_events tokens mp a b) s = Some s"
  using assms(3-5)
proof (induction "b - a" arbitrary: a b s rule: less_induct)
  case less
  show ?case
  proof (cases "a < b")
    case False
    then show ?thesis by (simp add: range_events_def)
  next
    case ab: True
    have al: "a < length tokens" using ab less.prems(1) by simp
    let ?k = "mb_kind (tokens ! a)"
    have split: "range_events tokens mp a b = range_events tokens mp a (Suc a) @ range_events tokens mp (Suc a) b"
      using ab by (intro range_events_split) simp_all
    have closer_opener: "q < p \<and> IsOpeningBracket (mb_kind (tokens ! q)) \<and> mp ! q = Some p"
      if "p < length tokens" "IsClosingBracket (mb_kind (tokens ! p))" "mp ! p = Some q" for p q
      using pairs_okD [OF assms(1) that(1,3)] pairs_okD(4) [OF assms(1) pairs_okD(1,2) [OF assms(1) that(1,3)]] that(2)
        opening_not_closing by (metis linorder_neqE_nat)
    consider (op) "IsOpeningBracket ?k" | (cl) "IsClosingBracket ?k" | (no) "\<not> is_bracket ?k" by blast
    then show ?thesis
    proof cases
      case no
      have "scan_events (range_events tokens mp (Suc a) b) s = Some s"
      proof (rule less.hyps)
        show "\<exists>q \<ge> Suc a. mp ! p = Some q" if p: "Suc a \<le> p" "p < b" "IsClosingBracket (mb_kind (tokens ! p))" for p
        proof -
          obtain q where q: "a \<le> q" "mp ! p = Some q" using less.prems(3) [of p] p by auto
          have "q \<noteq> a" using closer_opener [OF _ p(3) q(2)] p(2) less.prems(1) no by auto
          with q show ?thesis by auto
        qed
      qed (use ab less.prems(1,2) in auto)
      then show ?thesis unfolding split using no by (simp add: range_events_one)
    next
      case cl
      obtain q where "a \<le> q" "mp ! a = Some q" using less.prems(3) [of a] ab cl by auto
      with closer_opener [OF al cl] show ?thesis by fastforce
    next
      case op
      obtain q where q: "c ! a" "q < b" "mp ! a = Some q" using less.prems(2) [of a] ab op by auto
      note in0 = clean_range_at [OF assms(2) al q(1,3)]
      note aq = in0(1) and inner = in0(2) and innerc = in0(3)
      note pq = pairs_okD [OF assms(1) al q(3)]
      have kq: "mb_kind (tokens ! q) = MatchingClosingKind ?k" "IsClosingBracket (mb_kind (tokens ! q))"
        using pq(5) aq op by simp_all
      have ql: "q < length tokens" using q(2) less.prems(1) by simp
      have in1: "scan_events (range_events tokens mp (Suc a) q) s' = Some s'" for s'
      proof (rule less.hyps)
        show "c ! p \<and> (\<exists>r < q. mp ! p = Some r)" if p: "Suc a \<le> p" "p < q" "IsOpeningBracket (mb_kind (tokens ! p))" for p
        proof -
          obtain r where r: "mp ! p = Some r" "r \<le> q" using inner [of p] p by auto
          have "r \<noteq> q" using pairs_okD(2) [OF assms(1) _ r(1)] pq(2) p ql by auto
          with r innerc [of p] p show ?thesis by auto
        qed
        show "\<exists>r \<ge> Suc a. mp ! p = Some r" if p: "Suc a \<le> p" "p < q" "IsClosingBracket (mb_kind (tokens ! p))" for p
        proof -
          obtain r where r: "mp ! p = Some r" "a \<le> r" using inner [of p] p by auto
          have "r \<noteq> a" using pairs_okD(2) [OF assms(1) _ r(1)] q(3) p ql by auto
          with r show ?thesis by auto
        qed
      qed (use aq q(2) ql in auto)
      have in2: "scan_events (range_events tokens mp (Suc q) b) s = Some s"
      proof (rule less.hyps)
        show "\<exists>r \<ge> Suc q. mp ! p = Some r" if p: "Suc q \<le> p" "p < b" "IsClosingBracket (mb_kind (tokens ! p))" for p
        proof -
          have pl: "p < length tokens" using p(2) less.prems(1) by simp
          obtain r where r: "a \<le> r" "mp ! p = Some r" using less.prems(3) [of p] p aq by auto
          note co = closer_opener [OF pl p(3) r(2)]
          have "r \<noteq> a" using co q(3) p by auto
          moreover have "r \<noteq> q" using co kq(2) opening_not_closing by blast
          moreover have "\<not> (a < r \<and> r < q)" using inner [of r] co p by auto
          ultimately show ?thesis using r by (intro exI [of _ r]) auto
        qed
        show "c ! p \<and> (\<exists>r < b. mp ! p = Some r)" if "Suc q \<le> p" "p < b" "IsOpeningBracket (mb_kind (tokens ! p))" for p
          using less.prems(2) [of p] that aq by auto
      qed (use aq q(2) less.prems(1) in auto)
      have "range_events tokens mp (Suc a) b = range_events tokens mp (Suc a) q @ token_event tokens mp q # range_events tokens mp (Suc q) b"
        using range_events_split [of "Suc a" q b tokens mp] range_events_split [of q "Suc q" b tokens mp] aq q(2) kq(2)
        by (simp add: range_events_one)
      moreover have "token_event tokens mp q = ((mb_token_index (tokens ! q), 2, 0), Opened (mb_token_index (tokens ! a)), MatchingClosingKind ?k)"
        using kq pq(2) opening_not_closing by (auto simp: token_event_def Let_def)
      moreover have "token_event tokens mp a = ((mb_token_index (tokens ! a), 2, 0), Opened (mb_token_index (tokens ! a)), ?k)"
        using op by (simp add: token_event_def Let_def)
      moreover have "\<not> IsOpeningBracket (MatchingClosingKind ?k)" "IsClosingBracket (MatchingClosingKind ?k)"
        using kq opening_not_closing by auto
      ultimately show ?thesis unfolding split using op in1 in2
        by (simp add: range_events_one scan_events_append)
    qed
  qed
qed

end
