(* ===== verification/Bracket_Items.thy ===== *)
theory Bracket_Items
  imports Bracket_Clean
begin

text \<open>
  The items of a token stream and its regions: the items cover the tokens in order, a collapsed item covers a clean range, and the
  regions cover the items.
\<close>

section \<open>Items\<close>

lemma make_item_simps [simp]:
  "it_token_start_index (make_item tokens a items i q b h) = i" "it_token_end_index (make_item tokens a items i q b h) = q"
  "it_token (make_item tokens a items i q b h) = tokens ! i"
  by (simp_all add: make_item_def)

lemma make_item_collapsed: "HasAll (make_item tokens a items i q b h) {CollapsedBlock} \<longleftrightarrow> b"
  by (auto simp: make_item_def HasAll_def ComputeItemCues_def Let_def CueIf_def PrevKindCue_def split: option.splits BracketTokenKind.splits if_splits)

definition item_ok :: "MismatchedBracketToken list \<Rightarrow> nat option list \<Rightarrow> bool list \<Rightarrow> Item \<Rightarrow> bool" where
  "item_ok tokens mp c item \<longleftrightarrow> it_token_start_index item \<le> it_token_end_index item \<and> it_token_end_index item < length tokens \<and>
     it_token item = tokens ! it_token_start_index item \<and>
     (if HasAll item {CollapsedBlock} then c ! it_token_start_index item \<and> mp ! it_token_start_index item = Some (it_token_end_index item)
      else it_token_end_index item = it_token_start_index item)"

definition item_range :: "Item \<Rightarrow> nat list" where
  "item_range item = [it_token_start_index item..<Suc (it_token_end_index item)]"

lemma upt_split: "a \<le> b \<Longrightarrow> b \<le> c \<Longrightarrow> [a..<b] @ [b..<c] = [a..<c]"
  using upt_add_eq_append [of a b "c - b"] by simp

lemma build_loop_ok:
  assumes "pairs_ok tokens (ta_match_partner a)" "clean_range tokens (ta_match_partner a) c"
  shows "\<exists>X. build_loop tokens a c i items = items @ X \<and> list_all (item_ok tokens (ta_match_partner a) c) X \<and>
    concat (map item_range X) = [i..<length tokens]"
proof (induction "length tokens - i" arbitrary: i items rule: less_induct)
  case less
  show ?case
  proof (cases "length tokens \<le> i")
    case True
    then show ?thesis by (subst build_loop.simps) simp
  next
    case i: False
    then have il: "i < length tokens" by simp
    show ?thesis
    proof (cases "c ! i")
      case False
      define item where "item = make_item tokens a items i i False (mb_kind (tokens ! i) = OpenCurlyBrace_k \<or> mb_kind (tokens ! i) = CloseCurlyBrace_k)"
      have b: "build_loop tokens a c i items = build_loop tokens a c (i + 1) (items @ [item])"
        using i False by (subst build_loop.simps) (simp add: item_def)
      obtain X where X: "build_loop tokens a c (i + 1) (items @ [item]) = (items @ [item]) @ X"
        "list_all (item_ok tokens (ta_match_partner a) c) X" "concat (map item_range X) = [i + 1..<length tokens]"
        using less.hyps [of "i + 1" "items @ [item]"] il by fastforce
      have "item_ok tokens (ta_match_partner a) c item" using il by (simp add: item_ok_def item_def make_item_collapsed)
      moreover have "item_range item @ [i + 1..<length tokens] = [i..<length tokens]"
        using il by (simp add: item_range_def item_def upt_conv_Cons)
      ultimately show ?thesis using b X by (intro exI [of _ "item # X"]) simp
    next
      case True
      obtain q where q: "ta_match_partner a ! i = Some q" "i < q" using clean_rangeD [OF assms(2) il True] by metis
      have ql: "q < length tokens" using pairs_okD(1) [OF assms(1) il q(1)] .
      define item where "item = make_item tokens a items i q True
        (list_ex (\<lambda>j. mb_kind (tokens ! j) = OpenCurlyBrace_k \<and> \<not> mb_is_struct_brace (tokens ! j)) [i..<q + 1])"
      have b: "build_loop tokens a c i items = build_loop tokens a c (q + 1) (items @ [item])"
        using i True q by (subst build_loop.simps) (simp add: item_def)
      obtain X where X: "build_loop tokens a c (q + 1) (items @ [item]) = (items @ [item]) @ X"
        "list_all (item_ok tokens (ta_match_partner a) c) X" "concat (map item_range X) = [q + 1..<length tokens]"
        using less.hyps [of "q + 1" "items @ [item]"] il q(2) by fastforce
      have "item_ok tokens (ta_match_partner a) c item" using il ql q True by (simp add: item_ok_def item_def make_item_collapsed)
      moreover have "item_range item @ [q + 1..<length tokens] = [i..<length tokens]"
        using upt_split [of i "Suc q" "length tokens"] ql q(2) by (simp add: item_range_def item_def del: upt_Suc)
      ultimately show ?thesis using b X by (intro exI [of _ "item # X"]) simp
    qed
  qed
qed

section \<open>The tokens of a region\<close>

definition token_pair :: "MismatchedBracketToken \<Rightarrow> int \<times> BracketTokenKind" where
  "token_pair t = (mb_token_index t, mb_kind t)"

definition item_toks :: "MismatchedBracketToken list \<Rightarrow> Item \<Rightarrow> (int \<times> BracketTokenKind) list" where
  "item_toks tokens item = map (\<lambda>j. token_pair (tokens ! j)) (item_range item)"

definition item_events :: "MismatchedBracketToken list \<Rightarrow> nat option list \<Rightarrow> Item \<Rightarrow> event list" where
  "item_events tokens mp item = range_events tokens mp (it_token_start_index item) (Suc (it_token_end_index item))"

text \<open>What the search relies on of a stream of tokens.\<close>

definition stream_ok :: "MismatchedBracketToken list \<Rightarrow> bool" where
  "stream_ok tokens \<longleftrightarrow> tokens \<noteq> [] \<and> sorted_wrt (<) (map mb_token_index tokens) \<and> mb_kind (last tokens) = FileEnd_k"

lemma clean_range_balanced:
  assumes "pairs_ok tokens mp" "clean_range tokens mp c" "i < length tokens" "c ! i" "mp ! i = Some q"
  shows "q < length tokens" "scan_events (range_events tokens mp i (Suc q)) s = Some s"
proof -
  note in0 = clean_range_at [OF assms(2-5)]
  note lt = in0(1) and inner = in0(2) and innerc = in0(3)
  note pq = pairs_okD [OF assms(1,3,5)]
  show q: "q < length tokens" by (rule pq(1))
  have kq: "IsClosingBracket (mb_kind (tokens ! q))" using pq(4,5) lt by simp
  show "scan_events (range_events tokens mp i (Suc q)) s = Some s"
  proof (rule range_balanced [OF assms(1,2)])
    show "c ! p \<and> (\<exists>r < Suc q. mp ! p = Some r)" if p: "i \<le> p" "p < Suc q" "IsOpeningBracket (mb_kind (tokens ! p))" for p
    proof -
      have "p \<noteq> q" using p(3) kq opening_not_closing by blast
      then consider "p = i" | "i < p" "p < q" using p by linarith
      then show ?thesis using assms(4,5) inner [of p] innerc [of p] p(3) by cases (auto simp: less_Suc_eq_le)
    qed
    show "\<exists>r \<ge> i. mp ! p = Some r" if p: "i \<le> p" "p < Suc q" "IsClosingBracket (mb_kind (tokens ! p))" for p
    proof -
      have "p \<noteq> i" using p(3) pq(4) lt opening_not_closing by blast
      then consider "p = q" | "i < p" "p < q" using p by linarith
      then show ?thesis using pq(2) inner [of p] p(3) by cases auto
    qed
  qed (use q in simp)
qed

lemma collapsed_block_ok:
  assumes "pairs_ok tokens mp" "clean_range tokens mp c" "item_ok tokens mp c item" "HasAll item {CollapsedBlock}"
  shows "block_ok (item_toks tokens item) (item_events tokens mp item)"
proof -
  have "scan_events (item_events tokens mp item) s = Some s" for s
    unfolding item_events_def using clean_range_balanced(2) [OF assms(1,2)] assms(3,4) by (simp add: item_ok_def)
  moreover have "map (\<lambda>e. (fst e, snd (snd e))) (item_events tokens mp item) =
     map (\<lambda>(p, k). ((p, 2, 0), k)) (filter (\<lambda>(p, k). is_bracket k) (item_toks tokens item))"
    by (simp add: item_events_def range_events_def item_toks_def item_range_def token_event_def token_pair_def Let_def filter_map comp_def)
  moreover have "fst (snd e) = Opened (fst (fst e))"
    if "e \<in> set (item_events tokens mp item)" "IsOpeningBracket (snd (snd e))" for e
    using that by (auto simp: item_events_def range_events_def token_event_def Let_def)
  ultimately show ?thesis by (simp add: block_ok_def)
qed

lemma region_distinct: "region_ok items rend toks blk \<Longrightarrow> distinct (map tok items)"
proof -
  assume r: "region_ok items rend toks blk"
  have "tok (items ! j) < tok (items ! i)" if "j < i" "i < length items" for i j
  proof -
    have jl: "j < length items" using that by simp
    have "items ! j \<in> set (take i items)" using that by (auto simp: in_set_conv_nth)
    moreover have "hd (toks (items ! j)) \<in> set (toks (items ! j))" using region_item(1) [OF r jl] by simp
    ultimately have "hd (toks (items ! j)) \<in> set (passed items toks i)" by (auto simp: passed_def)
    then show ?thesis using region_order(1) [OF r that(2)] region_item(2) [OF r jl] by metis
  qed
  then show "distinct (map tok items)" by (fastforce simp: distinct_conv_nth neq_iff)
qed

end
