(* ===== verification/Bracket_Fix.thy ===== *)
theory Bracket_Fix
  imports Bracket_Beam Bracket_Items
begin

text \<open>
  \<open>FixMismatchedBrackets\<close> on a whole stream of tokens: each region is repaired on its own, the repairs of the regions put together
  repair the stream, and the final sort changes nothing about it.
\<close>

section \<open>Putting repairs together\<close>

lemma repairsD:
  assumes "repairs lo hi ts C"
  shows "\<exists>S. in_order S \<and> set S = slots ts C \<and> balanced (map snd S)"
    "\<And>x. x \<in> slots ts C \<Longrightarrow> (lo, 1, 0) \<le> fst x" "\<And>x. x \<in> slots ts C \<Longrightarrow> fst x < (hi, 1, 0)"
    "\<And>c. c \<in> set C \<Longrightarrow> correction_ok lo hi ts c" "distinct (map slot (filter inserts C))"
    "distinct (map bc_diagnostic_token_index (filter inserts C))"
  using assms unfolding repairs_def by blast+

lemma given_up_append: "given_up (C @ D) = given_up C \<union> given_up D"
  by (auto simp: given_up_def)

lemma given_up_token:
  assumes "\<forall>c \<in> set C. correction_ok lo hi ts c" "p \<in> given_up C"
  shows "p \<in> fst ` set ts"
proof -
  obtain c where c: "c \<in> set C" "(bc_fix_action c = ReplaceWithError \<and> p = bc_fix_token_index c) \<or>
     (bc_fix_action c \<noteq> ReplaceWithError \<and> bc_is_tied c \<and> p = bc_diagnostic_token_index c)" using assms(2) by (auto simp: given_up_def)
  from assms(1) c have "p = bc_diagnostic_token_index c" "\<exists>k. (bc_diagnostic_token_index c, k) \<in> set ts"
    by (auto simp: correction_ok_def)
  then show ?thesis by force
qed

lemma slots_append:
  assumes "\<forall>c \<in> set C. correction_ok lo mid ts c" "\<forall>c \<in> set D. correction_ok mid hi us c"
    "\<And>x y. x \<in> set ts \<Longrightarrow> y \<in> set us \<Longrightarrow> fst x < fst y"
  shows "slots (ts @ us) (C @ D) = slots ts C \<union> slots us D"
proof -
  have "p \<notin> given_up D" if "(p, k) \<in> set ts" for p k using given_up_token [OF assms(2), of p] assms(3) that by force
  moreover have "p \<notin> given_up C" if "(p, k) \<in> set us" for p k using given_up_token [OF assms(1), of p] assms(3) that by force
  ultimately show ?thesis unfolding slots_def given_up_append by (auto simp: image_Un)
qed

theorem repairs_append:
  assumes "repairs lo mid ts C" "repairs mid hi us D" "lo \<le> mid" "mid \<le> hi"
    "\<And>x y. x \<in> set ts \<Longrightarrow> y \<in> set us \<Longrightarrow> fst x < fst y"
  shows "repairs lo hi (ts @ us) (C @ D)"
proof -
  note c = repairsD [OF assms(1)] and d = repairsD [OF assms(2)]
  have s: "slots (ts @ us) (C @ D) = slots ts C \<union> slots us D" using c(4) d(4) assms(5) by (intro slots_append) auto
  obtain S T where S: "in_order S" "set S = slots ts C" "balanced (map snd S)"
    and T: "in_order T" "set T = slots us D" "balanced (map snd T)" using c(1) d(1) by blast
  have lt: "fst x < fst y" if "x \<in> slots ts C" "y \<in> slots us D" for x y
    using c(3) [OF that(1)] d(2) [OF that(2)] by (rule order.strict_trans2)
  show ?thesis
    unfolding repairs_def
  proof (intro conjI ballI)
    show "\<exists>S. in_order S \<and> set S = slots (ts @ us) (C @ D) \<and> balanced (map snd S)"
      by (rule exI [of _ "S @ T"]) (use S T lt s in \<open>simp add: sorted_wrt_append balanced_append\<close>)
    show "(lo, 1, 0) \<le> fst x" if x: "x \<in> slots (ts @ us) (C @ D)" for x
    proof -
      have "(lo, 1 :: nat, 0 :: int) \<le> (mid, 1, 0)" using assms(3) by simp
      then show ?thesis using x c(2) d(2) unfolding s by (meson UnE order.trans)
    qed
    show "fst x < (hi, 1, 0)" if x: "x \<in> slots (ts @ us) (C @ D)" for x
    proof -
      have "(mid, 1 :: nat, 0 :: int) \<le> (hi, 1, 0)" using assms(4) by simp
      then show ?thesis using x c(3) d(3) unfolding s by (meson UnE order.strict_trans2)
    qed
    show "correction_ok lo hi (ts @ us) x" if "x \<in> set (C @ D)" for x
      using that c(4) [of x] d(4) [of x] assms(3,4) by (auto simp: correction_ok_def split: if_splits)
    have sub: "set (map slot (filter inserts C)) \<subseteq> slots ts C" "set (map slot (filter inserts D)) \<subseteq> slots us D"
      by (auto simp: slots_def)
    have "set (map slot (filter inserts C)) \<inter> set (map slot (filter inserts D)) = {}"
    proof (rule ccontr)
      assume "\<not> ?thesis"
      then obtain y where "y \<in> slots ts C" "y \<in> slots us D" using sub by blast
      with lt show False by blast
    qed
    then show "distinct (map slot (filter inserts (C @ D)))" using c(5) d(5) by simp
    have "bc_diagnostic_token_index x \<noteq> bc_diagnostic_token_index y" if "x \<in> set C" "y \<in> set D" for x y
    proof -
      have "\<exists>k. (bc_diagnostic_token_index x, k) \<in> set ts" "\<exists>k. (bc_diagnostic_token_index y, k) \<in> set us"
        using c(4) [of x] d(4) [of y] that by (auto simp: correction_ok_def)
      then show ?thesis using assms(5) by fastforce
    qed
    then show "distinct (map bc_diagnostic_token_index (filter inserts (C @ D)))" using c(6) d(6) by auto
  qed
qed

lemma repairs_Nil: "repairs lo hi [] []"
  by (simp add: repairs_def slots_def balanced_def)

lemma repairs_perm:
  assumes "repairs lo hi ts C" "mset D = mset C"
  shows "repairs lo hi ts D"
proof -
  have s: "set D = set C" using mset_eq_setD [OF assms(2)] .
  have "mset (map slot (filter inserts D)) = mset (map slot (filter inserts C))" using assms(2) by simp
  then have "distinct (map slot (filter inserts D))" using repairsD(5) [OF assms(1)] mset_eq_imp_distinct_iff by blast
  moreover have "mset (map bc_diagnostic_token_index (filter inserts D)) = mset (map bc_diagnostic_token_index (filter inserts C))"
    using assms(2) by simp
  then have "distinct (map bc_diagnostic_token_index (filter inserts D))"
    using repairsD(6) [OF assms(1)] mset_eq_imp_distinct_iff by blast
  ultimately show ?thesis using assms(1) by (simp add: repairs_def slots_def given_up_def s)
qed

section \<open>Regions\<close>

text \<open>The tokens of the items from \<open>i\<close> to \<open>j\<close>, and the token where a region that starts at item \<open>i\<close> starts.\<close>

definition span :: "MismatchedBracketToken list \<Rightarrow> Item list \<Rightarrow> nat \<Rightarrow> nat \<Rightarrow> (int \<times> BracketTokenKind) list" where
  "span tokens items i j = concat (map (item_toks tokens) (take (j - i) (drop i items)))"

definition start_of :: "MismatchedBracketToken list \<Rightarrow> Item list \<Rightarrow> nat \<Rightarrow> int" where
  "start_of tokens items i = (if i < length items then tok (items ! i) else mb_token_index (last tokens))"

text \<open>The items of a stream, as the passes before the search leave them.\<close>

definition items_ok :: "MismatchedBracketToken list \<Rightarrow> nat option list \<Rightarrow> bool list \<Rightarrow> Item list \<Rightarrow> bool" where
  "items_ok tokens mp c items \<longleftrightarrow> stream_ok tokens \<and> pairs_ok tokens mp \<and> clean_range tokens mp c \<and>
     list_all (item_ok tokens mp c) items \<and> concat (map item_range items) = [0..<length tokens]"

lemma items_okD:
  assumes "items_ok tokens mp c items"
  shows "stream_ok tokens" "pairs_ok tokens mp" "clean_range tokens mp c" "\<And>item. item \<in> set items \<Longrightarrow> item_ok tokens mp c item"
    "concat (map item_range items) = [0..<length tokens]"
  using assms by (auto simp: items_ok_def list_all_iff)

lemma item_toks_hd:
  assumes "item_ok tokens mp c item"
  shows "item_toks tokens item \<noteq> []" "fst (hd (item_toks tokens item)) = tok item"
proof -
  have r: "item_range item = it_token_start_index item # [Suc (it_token_start_index item)..<Suc (it_token_end_index item)]"
    using assms by (simp add: item_ok_def item_range_def upt_conv_Cons del: upt_Suc)
  show "item_toks tokens item \<noteq> []" "fst (hd (item_toks tokens item)) = tok item"
    using assms by (simp_all add: item_toks_def r token_pair_def tok_def item_ok_def)
qed

lemma all_toks:
  assumes "items_ok tokens mp c items"
  shows "concat (map (item_toks tokens) items) = map token_pair tokens" "sorted_wrt (<) (map fst (map token_pair tokens))"
proof -
  have "concat (map (item_toks tokens) items) = map (\<lambda>j. token_pair (tokens ! j)) (concat (map item_range items))"
    by (simp add: item_toks_def [abs_def] map_concat comp_def)
  also have "\<dots> = map token_pair tokens" unfolding items_okD(5) [OF assms] by (rule nth_equalityI) simp_all
  finally show "concat (map (item_toks tokens) items) = map token_pair tokens" .
  show "sorted_wrt (<) (map fst (map token_pair tokens))"
    using items_okD(1) [OF assms] by (simp add: stream_ok_def token_pair_def comp_def)
qed

lemma span_append: "i \<le> j \<Longrightarrow> j \<le> k \<Longrightarrow> span tokens items i k = span tokens items i j @ span tokens items j k"
proof -
  assume "i \<le> j" "j \<le> k"
  then have "take (k - i) (drop i items) = take (j - i) (drop i items) @ take (k - j) (drop j items)"
    using take_add [of "j - i" "k - j" "drop i items"] by simp
  then show ?thesis by (simp add: span_def)
qed

lemma span_all: "items_ok tokens mp c items \<Longrightarrow> span tokens items 0 (length items) = map token_pair tokens"
  using all_toks(1) by (simp add: span_def)

lemma span_split:
  assumes "items_ok tokens mp c items" "i \<le> j" "j \<le> length items"
  shows "map token_pair tokens = span tokens items 0 i @ span tokens items i j @ span tokens items j (length items)"
  using span_append [of 0 i "length items" tokens items] span_append [of i j "length items" tokens items] span_all [OF assms(1)] assms(2,3)
  by simp

lemma span_less:
  assumes "items_ok tokens mp c items" "i \<le> j" "j \<le> length items" "x \<in> set (span tokens items i j)" "y \<in> set (span tokens items j (length items))"
  shows "fst x < fst y"
  using all_toks(2) [OF assms(1)] assms(4,5) unfolding span_split [OF assms(1-3)] by (auto simp: sorted_wrt_append)

lemma span_start:
  assumes "items_ok tokens mp c items" "i < j" "j \<le> length items"
  shows "\<exists>x \<in> set (span tokens items i j). fst x = tok (items ! i)"
proof -
  have "take (j - i) (drop i items) = items ! i # take (j - Suc i) (drop (Suc i) items)"
    using assms(2,3) Cons_nth_drop_Suc [of i items] by (metis Suc_diff_Suc less_le_trans take_Suc_Cons)
  moreover have "item_ok tokens mp c (items ! i)" using items_okD(4) [OF assms(1)] assms(2,3) by simp
  ultimately show ?thesis using item_toks_hd [of tokens mp c "items ! i"]
    by (auto simp: span_def intro!: bexI [of _ "hd (item_toks tokens (items ! i))"])
qed

lemma stream_last_token:
  assumes "items_ok tokens mp c items" "x \<in> set (map token_pair tokens)"
  shows "fst x \<le> mb_token_index (last tokens)" "fst x = mb_token_index (last tokens) \<Longrightarrow> x = token_pair (last tokens)"
proof -
  have ne: "tokens \<noteq> []" using items_okD(1) [OF assms(1)] by (simp add: stream_ok_def)
  obtain j where j: "j < length tokens" "x = token_pair (tokens ! j)" using assms(2) by (auto simp: in_set_conv_nth)
  have s: "sorted_wrt (<) (map mb_token_index tokens)" using items_okD(1) [OF assms(1)] by (simp add: stream_ok_def)
  have lt: "mb_token_index (tokens ! j) < mb_token_index (last tokens)" if "j \<noteq> length tokens - 1"
    using sorted_wrt_nth_less [OF s, of j "length tokens - 1"] that j(1) ne by (simp add: last_conv_nth)
  show "fst x \<le> mb_token_index (last tokens)" "fst x = mb_token_index (last tokens) \<Longrightarrow> x = token_pair (last tokens)"
    using lt j ne by (cases "j = length tokens - 1"; simp add: token_pair_def last_conv_nth)+
qed

lemma start_of_mono:
  assumes "items_ok tokens mp c items" "i \<le> j" "j \<le> length items"
  shows "start_of tokens items i \<le> start_of tokens items j"
proof (cases "i = j")
  case False
  then have ij: "i < j" using assms(2) by simp
  obtain x where x: "x \<in> set (span tokens items i j)" "fst x = tok (items ! i)" using span_start [OF assms(1) ij assms(3)] by blast
  have si: "start_of tokens items i = fst x" using ij assms(3) x(2) by (simp add: start_of_def)
  show ?thesis
  proof (cases "j < length items")
    case True
    obtain y where y: "y \<in> set (span tokens items j (length items))" "fst y = tok (items ! j)"
      using span_start [OF assms(1) True order_refl] by blast
    then show ?thesis using span_less [OF assms x(1) y(1)] si True by (simp add: start_of_def)
  next
    case False
    have "x \<in> set (map token_pair tokens)" using x(1) unfolding span_split [OF assms] by simp
    then show ?thesis using stream_last_token(1) [OF assms(1)] si False by (simp add: start_of_def)
  qed
qed simp

lemma last_item_plain:
  assumes "items_ok tokens mp c items" "item \<in> set items" "x \<in> set (item_toks tokens item)" "fst x = mb_token_index (last tokens)"
  shows "plain_item item"
proof -
  note ok = items_okD [OF assms(1)]
  have it: "item_ok tokens mp c item" using ok(4) assms(2) .
  have "x \<in> set (map token_pair tokens)" using assms(2,3) unfolding all_toks(1) [OF assms(1), symmetric] by auto
  then have "x = token_pair (last tokens)" using stream_last_token(2) [OF assms(1)] assms(4) by blast
  then have k: "snd x = FileEnd_k" using ok(1) by (simp add: token_pair_def stream_ok_def)
  obtain j where j: "x = token_pair (tokens ! j)" "it_token_start_index item \<le> j" "j \<le> it_token_end_index item"
    using assms(3) by (auto simp: item_toks_def item_range_def simp del: upt_Suc)
  have jl: "j < length tokens" using j(3) it by (simp add: item_ok_def)
  have s: "sorted_wrt (<) (map mb_token_index tokens)" and ne: "tokens \<noteq> []" using ok(1) by (simp_all add: stream_ok_def)
  have "j = length tokens - 1"
  proof (rule ccontr)
    assume "j \<noteq> length tokens - 1"
    then have "j < length tokens - 1" using jl by simp
    with sorted_wrt_nth_less [OF s, of j "length tokens - 1"] jl ne assms(4) j(1) show False
      by (simp add: token_pair_def last_conv_nth)
  qed
  moreover have "it_token_end_index item < length tokens" using it by (simp add: item_ok_def)
  ultimately have e: "it_token_end_index item = j" using j(3) by linarith
  have kj: "mb_kind (tokens ! j) = FileEnd_k" using k j(1) by (simp add: token_pair_def)
  show ?thesis
  proof (cases "HasAll item {CollapsedBlock}")
    case True
    then have p: "it_token_start_index item < length tokens" "mp ! it_token_start_index item = Some j"
      using it e by (auto simp: item_ok_def)
    have "it_token_start_index item < j" using pairs_okD(3) [OF ok(2) p] j(2) by simp
    then have "IsClosingBracket (mb_kind (tokens ! j))" using pairs_okD(4,5) [OF ok(2) p] by simp
    with kj have "IsClosingBracket FileEnd_k" by (simp only:)
    then show ?thesis by (simp add: IsClosingBracket_def)
  next
    case False
    then have "item_kind item = FileEnd_k" using it e kj by (auto simp: item_ok_def)
    with False show ?thesis by (simp add: plain_item_def IsOpeningBracket_def IsClosingBracket_def)
  qed
qed

lemma region_is_ok:
  assumes "items_ok tokens mp c items" "i < j" "j \<le> length items"
  shows "region_ok (take (j - i) (drop i items)) (start_of tokens items j) (item_toks tokens) (item_events tokens mp)"
proof -
  let ?R = "take (j - i) (drop i items)"
  note ok = items_okD [OF assms(1)]
  have sub: "set ?R \<subseteq> set items" using set_take_subset set_drop_subset by (metis subset_trans)
  have sp: "concat (map (item_toks tokens) ?R) = span tokens items i j" by (simp add: span_def)
  have ij: "i \<le> j" using assms(2) by simp
  show ?thesis
    unfolding region_ok_def sp
  proof (intro conjI ballI)
    show "sorted_wrt (<) (map fst (span tokens items i j))"
      using all_toks(2) [OF assms(1)] unfolding span_split [OF assms(1) ij assms(3)] by (simp add: sorted_wrt_append)
    fix item assume item: "item \<in> set ?R"
    then have it: "item \<in> set items" "item_ok tokens mp c item" using sub ok(4) by auto
    show "item_toks tokens item \<noteq> []" "fst (hd (item_toks tokens item)) = tok item" using item_toks_hd [OF it(2)] .
    show "if HasAll item {CollapsedBlock} then block_ok (item_toks tokens item) (item_events tokens mp item)
      else item_toks tokens item = [(tok item, item_kind item)]"
      using collapsed_block_ok [OF ok(2,3) it(2)] it(2)
      by (auto simp: item_ok_def item_toks_def item_range_def token_pair_def tok_def)
    fix x assume x: "x \<in> set (item_toks tokens item)"
    then have xs: "x \<in> set (span tokens items i j)" using item unfolding sp [symmetric] by auto
    show "fst x < start_of tokens items j \<or> (fst x = start_of tokens items j \<and> plain_item item)"
    proof (cases "j < length items")
      case True
      obtain y where y: "y \<in> set (span tokens items j (length items))" "fst y = tok (items ! j)"
        using span_start [OF assms(1) True order_refl] by blast
      then show ?thesis using span_less [OF assms(1) ij assms(3) xs y(1)] True by (simp add: start_of_def)
    next
      case False
      have "x \<in> set (map token_pair tokens)" using xs unfolding span_split [OF assms(1) ij assms(3)] by simp
      then have "fst x \<le> mb_token_index (last tokens)" by (rule stream_last_token(1) [OF assms(1)])
      then show ?thesis using last_item_plain [OF assms(1) it(1) x] False by (auto simp: start_of_def)
    qed
  qed
qed

section \<open>Solving the regions\<close>

lemma solve_region_ok:
  assumes "items_ok tokens mp c items" "i < j" "j \<le> length items"
  shows "\<exists>C. solve_region tokens items (i, j) (Some cs) = Some (cs @ C) \<and>
    repairs (start_of tokens items i) (start_of tokens items j) (span tokens items i j) C"
proof -
  let ?R = "take (j - i) (drop i items)"
  note r = region_is_ok [OF assms]
  have "?R \<noteq> []" "?R ! 0 = items ! i" using assms(2,3) by auto
  then have g: "gap_at ?R (start_of tokens items j) 0 = start_of tokens items i"
    using assms(2,3) by (simp add: gap_at_def start_of_def)
  have "\<exists>C. solve_region tokens items (i, j) (Some cs) = Some (cs @ C) \<and> path_fixes ?R (start_of tokens items j) (item_events tokens mp) C"
  proof (cases "RegionIsBalanced ?R")
    case True
    then show ?thesis using RegionIsBalanced_path [OF True] assms(2) by (auto simp: solve_region_def Let_def)
  next
    case False
    have "solve_region tokens items (i, j) (Some cs) = SolveRegionCostBased ?R (start_of tokens items j) cs"
      using False assms(2) by (simp add: solve_region_def Let_def start_of_def tok_def)
    then show ?thesis using SolveRegionCostBased_path [OF region_distinct [OF r]] by metis
  qed
  then obtain C where C: "solve_region tokens items (i, j) (Some cs) = Some (cs @ C)"
    "path_fixes ?R (start_of tokens items j) (item_events tokens mp) C" by blast
  from path_fixes_repairs [OF r C(2)] have "repairs (start_of tokens items i) (start_of tokens items j) (span tokens items i j) C"
    unfolding g by (simp add: span_def)
  with C(1) show ?thesis by blast
qed

lemma solve_regions_ok:
  assumes "items_ok tokens mp c items" "sorted_wrt (<) (b # bs)" "\<forall>x \<in> set (b # bs). x \<le> length items"
  shows "\<exists>C. fold (solve_region tokens items) (zip (b # bs) bs) (Some cs) = Some (cs @ C) \<and>
    repairs (start_of tokens items b) (start_of tokens items (last (b # bs))) (span tokens items b (last (b # bs))) C"
  using assms(2,3)
proof (induction bs arbitrary: b cs)
  case Nil
  then show ?case using repairs_Nil by (simp add: span_def)
next
  case (Cons j bs)
  obtain C where C: "solve_region tokens items (b, j) (Some cs) = Some (cs @ C)"
    "repairs (start_of tokens items b) (start_of tokens items j) (span tokens items b j) C"
    using solve_region_ok [OF assms(1), of b j cs] Cons.prems by auto
  let ?l = "last (j # bs)"
  obtain D where D: "fold (solve_region tokens items) (zip (j # bs) bs) (Some (cs @ C)) = Some ((cs @ C) @ D)"
    "repairs (start_of tokens items j) (start_of tokens items ?l) (span tokens items j ?l) D"
    using Cons.IH [of j "cs @ C"] Cons.prems by auto
  have bj: "b \<le> j" and jl: "j \<le> ?l" and ll: "?l \<le> length items" and jn: "j \<le> length items"
    using Cons.prems by (cases bs; force simp: less_imp_le)+
  have "fst x < fst y" if "x \<in> set (span tokens items b j)" "y \<in> set (span tokens items j ?l)" for x y
  proof -
    have "y \<in> set (span tokens items j (length items))" using that(2) span_append [OF jl ll, of tokens items] by simp
    then show ?thesis using span_less [OF assms(1) bj jn that(1)] by blast
  qed
  then have "repairs (start_of tokens items b) (start_of tokens items ?l) (span tokens items b j @ span tokens items j ?l) (C @ D)"
    using repairs_append [OF C(2) D(2)] start_of_mono [OF assms(1)] bj jl ll jn by blast
  then show ?case using C(1) D(1) span_append [OF bj jl, of tokens items] by auto
qed

lemma FindRegionBoundaries_ok:
  assumes "items \<noteq> []"
  shows "\<exists>bs. FindRegionBoundaries tokens items = 0 # bs \<and> sorted_wrt (<) (0 # bs) \<and> (\<forall>x \<in> set (0 # bs). x \<le> length items) \<and>
    last (0 # bs) = length items"
proof -
  let ?f = "\<lambda>i bs. if starts_region tokens items i \<and> last bs \<noteq> i then bs @ [i] else bs"
  have "\<exists>bs. fold ?f [0..<k] [0] = 0 # bs \<and> sorted_wrt (<) (0 # bs) \<and> (\<forall>x \<in> set bs. x < k)" for k
  proof (induction k)
    case (Suc k)
    then obtain bs where bs: "fold ?f [0..<k] [0] = 0 # bs" "sorted_wrt (<) (0 # bs)" "\<forall>x \<in> set bs. x < k" by blast
    show ?case
    proof (cases "starts_region tokens items k \<and> last (0 # bs) \<noteq> k")
      case True
      then have "k \<noteq> 0" by (auto simp: starts_region_def Let_def split: if_splits)
      have "fold ?f [0..<Suc k] [0] = 0 # bs @ [k]" using True bs(1) by simp
      then show ?thesis using bs(2,3) \<open>k \<noteq> 0\<close> by (auto simp: sorted_wrt_append less_SucI)
    next
      case False
      then have "fold ?f [0..<Suc k] [0] = 0 # bs" using bs(1) by auto
      then show ?thesis using bs(2,3) by (auto simp: less_SucI)
    qed
  qed simp
  from this [of "length items"] obtain bs where bs: "fold ?f [0..<length items] [0] = 0 # bs" "sorted_wrt (<) (0 # bs)"
    "\<forall>x \<in> set bs. x < length items" by blast
  have n: "last (0 # bs) \<noteq> length items" using bs(3) assms by (metis last_ConsL last_ConsR last_in_set length_0_conv nat_neq_iff)
  have "FindRegionBoundaries tokens items = 0 # bs @ [length items]" using bs(1) n by (simp add: FindRegionBoundaries_def Let_def)
  then show ?thesis using bs(2,3) assms by (auto simp: sorted_wrt_append less_imp_le)
qed

section \<open>The whole stream\<close>

lemma sort_corrections_mset: "mset (sort_corrections C) = mset C"
  by (simp add: sort_corrections_def)

theorem FixMismatchedBrackets_repairs:
  assumes "stream_ok tokens"
  shows "\<exists>C. FixMismatchedBrackets tokens = Some C \<and>
    repairs (mb_token_index (hd tokens)) (mb_token_index (last tokens)) (map token_pair tokens) C"
proof -
  define a where "a = AnalyzeTokens tokens"
  define c where "c = MarkCleanRanges tokens a"
  define items where "items = BuildItems tokens a c"
  have mp: "ta_match_partner a = MatchBracketPairs tokens" by (simp add: a_def AnalyzeTokens_def Let_def)
  have p: "pairs_ok tokens (ta_match_partner a)" unfolding mp by (rule MatchBracketPairs_ok)
  have cl: "clean_range tokens (ta_match_partner a) c" unfolding c_def by (rule MarkCleanRanges_range)
  have it: "items_ok tokens (ta_match_partner a) c items"
    using build_loop_ok [OF p cl, of 0 "[]"] assms p cl by (auto simp: items_ok_def items_def BuildItems_def)
  have ne: "tokens \<noteq> []" using assms by (simp add: stream_ok_def)
  then have "[0..<length tokens] \<noteq> []" by simp
  then have ni: "items \<noteq> []" using items_okD(5) [OF it] by (metis concat.simps(1) list.simps(8))
  obtain bs where bs: "FindRegionBoundaries tokens items = 0 # bs" "sorted_wrt (<) (0 # bs)" "\<forall>x \<in> set (0 # bs). x \<le> length items"
    "last (0 # bs) = length items" using FindRegionBoundaries_ok [OF ni] by blast
  obtain C where C: "fold (solve_region tokens items) (zip (0 # bs) bs) (Some []) = Some C"
    "repairs (start_of tokens items 0) (start_of tokens items (length items)) (span tokens items 0 (length items)) C"
    using solve_regions_ok [OF it bs(2,3), of "[]"] bs(4) by auto
  have "FixMismatchedBrackets tokens = Some (sort_corrections C)"
    using ne bs(1) C(1) by (simp add: FixMismatchedBrackets_def Let_def a_def c_def items_def)
  moreover have "start_of tokens items 0 = mb_token_index (hd tokens)"
  proof -
    have "concat (map (item_toks tokens) items) = item_toks tokens (hd items) @ concat (map (item_toks tokens) (tl items))"
      using ni by (cases items) simp_all
    then have "hd (item_toks tokens (hd items)) = token_pair (hd tokens)"
      using all_toks(1) [OF it] item_toks_hd(1) [OF items_okD(4) [OF it], of "hd items"] ni ne by (metis hd_append hd_map list.set_sel(1))
    then show ?thesis using item_toks_hd(2) [OF items_okD(4) [OF it], of "hd items"] ni
      by (simp add: start_of_def token_pair_def hd_conv_nth)
  qed
  moreover have "start_of tokens items (length items) = mb_token_index (last tokens)" by (simp add: start_of_def)
  ultimately show ?thesis using C(2) repairs_perm [OF _ sort_corrections_mset] unfolding span_all [OF it] by metis
qed

end
