(* ===== verification/Bracket_Props.thy ===== *)
theory Bracket_Props
  imports Bracket_Fix
begin

text \<open>
  The properties of the recovery from mismatched brackets: the one-pass table of indents is the walk of each token, a correction
  is tied exactly when some optimal repair lacks a counterpart, pruning keeps the cheapest states, and the corrections of a
  stream balance it.
\<close>

section \<open>The walk of one token\<close>

text \<open>
  The walk backwards that the comment at \<open>ComputeAssociatedLineIndents\<close> describes, made separately for one token; \<open>n\<close> is the
  position it looks at next, plus one, and \<open>indent\<close> the indentation of the token it last stepped on.
\<close>

function walk_back :: "MismatchedBracketToken list \<Rightarrow> nat option list \<Rightarrow> nat \<Rightarrow> nat \<Rightarrow> nat" where
  "walk_back tokens match_partner 0 indent = indent"
| "walk_back tokens match_partner (Suc j) indent =
     (let kind = mb_kind (tokens ! j) in
      case (if IsClosingBracket kind then match_partner ! j else None) of
        Some q \<Rightarrow> if q < j then walk_back tokens match_partner q (mb_line_indent (tokens ! q))
                  else if kind = CloseCurlyBrace_k then indent else walk_back tokens match_partner j (mb_line_indent (tokens ! j))
      | None \<Rightarrow>
          if kind \<in> {Semi_k, OpenCurlyBrace_k, CloseCurlyBrace_k} then indent
          else if kind = StatementIntroducer_k then GetOuterStatementIntroducerIndent tokens match_partner j
          else walk_back tokens match_partner j (mb_line_indent (tokens ! j)))"
  by pat_completeness auto
termination by (relation "measure (\<lambda>(tokens, mp, n, indent). n)") auto

lemma walk_results_length [simp]: "length (walk_results tokens mp m) = m"
  by (induction m) (simp_all add: Let_def)

lemma walk_results_nth:
  "j < m \<Longrightarrow> walk_results tokens mp m ! j = walk_entry tokens mp (walk_results tokens mp j) j"
  by (induction m) (auto simp: Let_def nth_append less_Suc_eq)

lemma continue_walk_eq:
  "n \<le> m \<Longrightarrow> continue_walk (walk_results tokens mp m) n indent = walk_back tokens mp n indent"
proof (induction n arbitrary: m indent rule: less_induct)
  case (less n)
  show ?case
  proof (cases n)
    case 0
    then show ?thesis by (simp add: continue_walk_def)
  next
    case (Suc j)
    have "continue_walk (walk_results tokens mp m) n indent =
        (case walk_entry tokens mp (walk_results tokens mp j) j of Some r \<Rightarrow> r | None \<Rightarrow> indent)"
      using less.prems by (simp add: Suc continue_walk_def walk_results_nth)
    moreover have "continue_walk (walk_results tokens mp j) q i = walk_back tokens mp q i" if "q \<le> j" for q i
      using less.IH that Suc by simp
    ultimately show ?thesis
      by (simp add: Suc walk_entry_def Let_def IsClosingBracket_def split: option.splits)
  qed
qed

text \<open>
  \<open>ComputeAssociatedLineIndents\<close> fills its table in one pass; what it gives for a token is what the separate walk back from
  that token gives: over matched pairs, up to a semicolon or an unmatched brace, or to the enclosing statement introducer.
\<close>

theorem line_indents_are_walks:
  "ComputeAssociatedLineIndents tokens match_partner =
     map (\<lambda>i. if mb_kind (tokens ! i) = FileEnd_k then 0
              else walk_back tokens match_partner i (mb_line_indent (tokens ! i))) [0..<length tokens]"
  by (simp add: ComputeAssociatedLineIndents_def Let_def continue_walk_eq)

section \<open>Ties\<close>

text \<open>How many corrections of a path make the repair with this key.\<close>

definition repairs_with :: "(BracketCorrection \<Rightarrow> 64 word) \<Rightarrow> 64 word \<Rightarrow> BracketCorrection list \<Rightarrow> nat" where
  "repairs_with f k repair = count_list (map f repair) k"

definition counts_ok :: "(BracketCorrection \<Rightarrow> 64 word) \<Rightarrow> BracketCorrection list \<Rightarrow> key_counts \<Rightarrow> bool" where
  "counts_ok f repair kc \<longleftrightarrow>
     length (kc_key_id kc) = length repair \<and> length (kc_rank kc) = length repair \<and>
     (\<forall>k k' i. kc_ids kc k = Some i \<longrightarrow> kc_ids kc k' = Some i \<longrightarrow> k = k') \<and>
     (\<forall>k i. kc_ids kc k = Some i \<longrightarrow> i < length (kc_count kc) \<and> kc_count kc ! i = repairs_with f k repair) \<and>
     (\<forall>j < length repair. kc_ids kc (f (repair ! j)) = Some (kc_key_id kc ! j) \<and>
        kc_rank kc ! j = repairs_with f (f (repair ! j)) (take (Suc j) repair))"

lemma counts_okD:
  assumes "counts_ok f repair kc"
  shows "length (kc_key_id kc) = length repair" "length (kc_rank kc) = length repair"
    "kc_ids kc k = Some i \<Longrightarrow> kc_ids kc k' = Some i \<Longrightarrow> k = k'"
    "kc_ids kc k = Some i \<Longrightarrow> i < length (kc_count kc)"
    "kc_ids kc k = Some i \<Longrightarrow> kc_count kc ! i = repairs_with f k repair"
    "j < length repair \<Longrightarrow> kc_ids kc (f (repair ! j)) = Some (kc_key_id kc ! j)"
    "j < length repair \<Longrightarrow> kc_rank kc ! j = repairs_with f (f (repair ! j)) (take (Suc j) repair)"
  using assms unfolding counts_ok_def by blast+

lemma repairs_with_snoc: "repairs_with f k (repair @ [c]) = repairs_with f k repair + (if f c = k then 1 else 0)"
  by (simp add: repairs_with_def)

text \<open>A key that has no number yet has not occurred.\<close>

lemma counts_ok_absent:
  assumes "counts_ok f repair kc" "kc_ids kc k = None"
  shows "repairs_with f k repair = 0"
proof -
  have "k \<noteq> f c" if "c \<in> set repair" for c
    using that counts_okD(6) [OF assms(1)] assms(2) by (metis in_set_conv_nth option.distinct(1))
  then show ?thesis by (auto simp: repairs_with_def count_list_0_iff)
qed

lemma count_key_ok:
  assumes "counts_ok f repair kc"
  shows "counts_ok f (repair @ [c]) (count_key f c kc)"
proof -
  note d = counts_okD [OF assms]
  define ids where "ids = (case kc_ids kc (f c) of Some i \<Rightarrow> kc_ids kc | None \<Rightarrow> (kc_ids kc)(f c \<mapsto> length (kc_count kc)))"
  define i where "i = the (ids (f c))"
  define cs where "cs = (case kc_ids kc (f c) of Some i \<Rightarrow> kc_count kc | None \<Rightarrow> kc_count kc @ [0])"
  have kc: "count_key f c kc = \<lparr>kc_ids = ids, kc_key_id = kc_key_id kc @ [i], kc_rank = kc_rank kc @ [cs[i := cs ! i + 1] ! i],
      kc_count = cs[i := cs ! i + 1]\<rparr>"
    by (simp add: count_key_def ids_def i_def cs_def Let_def split: option.splits)
  have old: "ids k = Some h" if "kc_ids kc k = Some h" for k h
    using that by (auto simp: ids_def split: option.splits)
  have ic: "ids (f c) = Some i" by (auto simp: i_def ids_def split: option.splits)
  have inj: "k = k'" if "ids k = Some h" "ids k' = Some h" for k k' h
    using that d(3) d(4) [of _ "length (kc_count kc)"] by (auto simp: ids_def split: option.splits if_splits)
  have cnt: "h < length cs \<and> cs ! h = repairs_with f k repair" if "ids k = Some h" for k h
    using that d(4,5) counts_ok_absent [OF assms] by (auto simp: ids_def cs_def nth_append split: option.splits if_splits)
  have cnt': "h < length cs \<and> cs[i := cs ! i + 1] ! h = repairs_with f k (repair @ [c])" if "ids k = Some h" for k h
  proof (cases "k = f c")
    case True
    with that ic cnt [OF that] show ?thesis by (simp add: repairs_with_snoc)
  next
    case False
    then have "h \<noteq> i" using inj that ic by metis
    with False cnt [OF that] show ?thesis by (auto simp: repairs_with_snoc)
  qed
  have "ids (f ((repair @ [c]) ! j)) = Some ((kc_key_id kc @ [i]) ! j) \<and>
      (kc_rank kc @ [cs[i := cs ! i + 1] ! i]) ! j = repairs_with f (f ((repair @ [c]) ! j)) (take (Suc j) (repair @ [c]))"
    if j: "j < length (repair @ [c])" for j
  proof (cases "j < length repair")
    case True
    with d(1,2,6,7) old show ?thesis by (simp add: nth_append)
  next
    case False
    then have "j = length repair" using j by simp
    with d(1,2) ic cnt' [OF ic] show ?thesis by (simp add: nth_append)
  qed
  with inj cnt' d(1,2) show ?thesis unfolding counts_ok_def kc by fastforce
qed

lemma counts_ok_Nil: "counts_ok f [] \<lparr>kc_ids = (\<lambda>_. None), kc_key_id = [], kc_rank = [], kc_count = []\<rparr>"
  by (simp add: counts_ok_def)

lemma counts_ok_fold:
  "counts_ok f repair (fold (count_key f) repair \<lparr>kc_ids = (\<lambda>_. None), kc_key_id = [], kc_rank = [], kc_count = []\<rparr>)"
  by (induction repair rule: rev_induct) (simp_all add: count_key_ok counts_ok_Nil)

lemma path_counts_length [simp]: "length (path_counts f ids n repair) = n"
proof -
  have "length (fold (\<lambda>corr counts. case ids (f corr) of Some i \<Rightarrow> counts[i := counts ! i + 1] | None \<Rightarrow> counts) repair cs) = length cs"
    for cs :: "nat list" by (induction repair arbitrary: cs) (auto split: option.splits)
  then show ?thesis by (simp add: path_counts_def)
qed

lemma path_counts_nth:
  assumes "counts_ok f base kc" "kc_ids kc k = Some i"
  shows "path_counts f (kc_ids kc) (length (kc_count kc)) repair ! i = repairs_with f k repair"
proof (induction repair rule: rev_induct)
  case Nil
  then show ?case using counts_okD(4) [OF assms] by (simp add: path_counts_def repairs_with_def)
next
  case (snoc c repair)
  let ?p = "path_counts f (kc_ids kc) (length (kc_count kc)) repair"
  have step: "path_counts f (kc_ids kc) (length (kc_count kc)) (repair @ [c]) =
      (case kc_ids kc (f c) of Some i \<Rightarrow> ?p[i := ?p ! i + 1] | None \<Rightarrow> ?p)" unfolding path_counts_def by simp
  show ?case
  proof (cases "f c = k")
    case True
    with assms(2) snoc counts_okD(4) [OF assms] show ?thesis by (simp add: step repairs_with_snoc)
  next
    case False
    then have "kc_ids kc (f c) \<noteq> Some i" using counts_okD(3) [OF assms] by blast
    with False snoc show ?thesis by (cases "kc_ids kc (f c)") (auto simp: step repairs_with_snoc)
  qed
qed

lemma fold_min_less:
  assumes "\<And>p. length (g p) = length m" "i < length m"
  shows "fold (\<lambda>p mins. map2 min mins (g p)) ps m ! i < (r :: nat) \<longleftrightarrow> m ! i < r \<or> (\<exists>p \<in> set ps. g p ! i < r)"
  using assms
proof (induction ps arbitrary: m)
  case (Cons p ps)
  have "length (map2 min m (g p)) = length m" using Cons.prems(1) by simp
  with Cons.IH [of "map2 min m (g p)"] Cons.prems show ?case by (auto simp: min_less_iff_disj)
qed simp

lemma fold_min_length:
  assumes "\<And>p. length (g p) = length m"
  shows "length (fold (\<lambda>p mins. map2 min mins (g p)) ps m) = length (m :: nat list)"
  using assms by (induction ps arbitrary: m) auto

text \<open>
  C21. Tied corrections: \<open>FindTiedCorrections\<close> marks the \<open>j\<close>-th correction of the first repair exactly when some optimal repair has
  fewer corrections that make the same repair than the first one has up to and including its \<open>j\<close>-th.
\<close>

theorem tied_when_repairs_disagree:
  assumes "all_paths \<noteq> []" "j < length (hd all_paths)"
  shows "FindTiedCorrections all_paths f ! j \<longleftrightarrow>
    (\<exists>repair \<in> set all_paths. repairs_with f (f (hd all_paths ! j)) repair <
       repairs_with f (f (hd all_paths ! j)) (take (Suc j) (hd all_paths)))"
proof -
  obtain base rest where ps: "all_paths = base # rest" using assms(1) by (cases all_paths) auto
  define kc where "kc = fold (count_key f) base \<lparr>kc_ids = (\<lambda>_. None), kc_key_id = [], kc_rank = [], kc_count = []\<rparr>"
  have ok: "counts_ok f base kc" unfolding kc_def by (rule counts_ok_fold)
  note d = counts_okD [OF ok]
  let ?k = "f (base ! j)" and ?i = "kc_key_id kc ! j"
  have j: "j < length base" using assms(2) ps by simp
  have i: "kc_ids kc ?k = Some ?i" by (rule d(6) [OF j])
  have "FindTiedCorrections all_paths f ! j \<longleftrightarrow>
      fold (\<lambda>repair mins. map2 min mins (path_counts f (kc_ids kc) (length (kc_count kc)) repair)) rest (kc_count kc) ! ?i < kc_rank kc ! j"
    using j d(1,2) by (simp add: FindTiedCorrections_def ps kc_def Let_def)
  also have "\<dots> \<longleftrightarrow> kc_count kc ! ?i < kc_rank kc ! j \<or>
      (\<exists>p \<in> set rest. path_counts f (kc_ids kc) (length (kc_count kc)) p ! ?i < kc_rank kc ! j)"
    by (rule fold_min_less) (simp_all add: d(4) [OF i])
  also have "\<dots> \<longleftrightarrow> (\<exists>p \<in> set all_paths. repairs_with f ?k p < kc_rank kc ! j)"
    by (simp add: ps d(5) [OF i] path_counts_nth [OF ok i])
  finally show ?thesis using d(7) [OF j] by (simp add: ps)
qed

theorem tied_when_repairs_disagree_witness:
  "\<exists>c c'. FindTiedCorrections [[c, c'], [c]] (\<lambda>x. word_of_int (bc_fix_token_index x)) ! 1"
  using tied_when_repairs_disagree [of "[[InsertCloserCorrection o1 3 [], InsertCloserCorrection o1 5 []], [InsertCloserCorrection o1 3 []]]" 1
    "\<lambda>x. word_of_int (bc_fix_token_index x)" for o1]
  by (auto simp: repairs_with_def InsertCloserCorrection_def intro!: exI)

section \<open>The beam\<close>

text \<open>
  \<open>PruneBeam\<close> leaves at most \<open>MaxBeamWidth\<close> states of the layer, and no state that it drops is cheaper than one that it keeps.
\<close>

theorem beam_keeps_cheapest:
  "length (PruneBeam nodes layer) \<le> MaxBeamWidth \<and> set (PruneBeam nodes layer) \<subseteq> set layer \<and>
   (length layer \<le> MaxBeamWidth \<longrightarrow> PruneBeam nodes layer = layer) \<and>
   (\<exists>dropped. mset layer = mset (PruneBeam nodes layer) + mset dropped \<and>
     (\<forall>a \<in> set (PruneBeam nodes layer). \<forall>b \<in> set dropped. bn_cost (nodes ! a) \<le> bn_cost (nodes ! b)))"
proof (cases "MaxBeamWidth < length layer")
  case True
  let ?s = "sort_key (\<lambda>a. bn_cost (nodes ! a)) layer"
  have "sorted (map (\<lambda>a. bn_cost (nodes ! a)) (take MaxBeamWidth ?s @ drop MaxBeamWidth ?s))" by simp
  then have "\<forall>a \<in> set (take MaxBeamWidth ?s). \<forall>b \<in> set (drop MaxBeamWidth ?s). bn_cost (nodes ! a) \<le> bn_cost (nodes ! b)"
    unfolding map_append sorted_append by simp
  moreover have "mset layer = mset (take MaxBeamWidth ?s) + mset (drop MaxBeamWidth ?s)"
    by (metis append_take_drop_id mset_append mset_sort)
  ultimately show ?thesis using True PruneBeam_subset [of nodes layer] by (auto simp: PruneBeam_def)
next
  case False
  then show ?thesis by (auto simp: PruneBeam_def intro: exI [of _ "[]"])
qed

theorem beam_keeps_cheapest_witness: "length [0 :: nat] \<le> MaxBeamWidth \<and> PruneBeam [] [0] = [0]"
  using beam_keeps_cheapest [of "[]" "[0]"] by (simp add: MaxBeamWidth_def)

section \<open>Clean ranges\<close>

text \<open>
  A range that \<open>MarkCleanRanges\<close> marks, and that is treated as one item, runs from an opening bracket to the closing bracket it was
  paired with, and the brackets from the one to the other are balanced.
\<close>

theorem clean_ranges_are_balanced:
  assumes "i < length tokens" "MarkCleanRanges tokens (AnalyzeTokens tokens) ! i"
  shows "\<exists>q. MatchBracketPairs tokens ! i = Some q \<and> i < q \<and> q < length tokens \<and>
    balanced (map (\<lambda>j. ToTokenKind (mb_kind (tokens ! j))) (filter (\<lambda>j. is_bracket (mb_kind (tokens ! j))) [i..<Suc q]))"
proof -
  let ?a = "AnalyzeTokens tokens" and ?mp = "MatchBracketPairs tokens"
  have mp: "ta_match_partner ?a = ?mp" by (simp add: AnalyzeTokens_def Let_def)
  note c = MarkCleanRanges_range [of tokens ?a, unfolded mp]
  obtain q where q: "?mp ! i = Some q" "i < q" using clean_rangeD [OF c assms] by metis
  note b = clean_range_balanced [OF MatchBracketPairs_ok c assms q(1)]
  have "(\<lambda>e. ToTokenKind (snd (snd e))) (token_event tokens ?mp j) = ToTokenKind (mb_kind (tokens ! j))" for j
    by (simp add: token_event_def Let_def)
  with scan_events_open_after [OF b(2) [of "[]"]] q b(1) show ?thesis
    by (auto simp: balanced_def range_events_def comp_def simp del: upt_Suc)
qed

text \<open>A clean pair of parentheses.\<close>

definition clean_stream :: "MismatchedBracketToken list" where
  "clean_stream = map (\<lambda>(i, k). \<lparr>mb_token_index = i, mb_kind = k, mb_line = 1, mb_line_indent = 0, mb_is_at_end_of_line = False,
     mb_is_struct_brace = False, mb_is_paren_keyword = False, mb_is_else_keyword = False, mb_has_leading_space = False,
     mb_has_wide_leading_space = False\<rparr>) [(1, Leaf_k), (2, OpenParen_k), (3, CloseParen_k), (4, Semi_k), (5, FileEnd_k)]"

theorem clean_ranges_are_balanced_witness:
  "MarkCleanRanges clean_stream (AnalyzeTokens clean_stream) ! 1 \<and>
   (\<exists>q. MatchBracketPairs clean_stream ! 1 = Some q \<and> 1 < q \<and> q < length clean_stream)"
proof -
  have c: "MarkCleanRanges clean_stream (AnalyzeTokens clean_stream) ! 1" by code_simp
  have "1 < length clean_stream" by (simp add: clean_stream_def)
  from clean_ranges_are_balanced [OF this c] c show ?thesis by blast
qed

section \<open>The whole stream\<close>

text \<open>
  C9. For a stream of tokens with increasing indexes that ends with the end of the file, \<open>FixMismatchedBrackets\<close> returns. When its
  insertions are made and the brackets it gives up are taken out, the brackets of the stream in order are balanced; every
  correction is diagnosed at a bracket of the stream, inserts a bracket within it or gives up the bracket it is diagnosed at, and no two
  insertions take the same place.
\<close>

theorem fixes_balance_stream:
  assumes "stream_ok tokens"
  shows "\<exists>C S. FixMismatchedBrackets tokens = Some C \<and>
    in_order S \<and> set S = slots (map token_pair tokens) C \<and> balanced (map snd S) \<and>
    (\<forall>c \<in> set C. correction_ok (mb_token_index (hd tokens)) (mb_token_index (last tokens)) (map token_pair tokens) c) \<and>
    distinct (map slot (filter inserts C))"
  using FixMismatchedBrackets_repairs [OF assms] unfolding repairs_def by blast

text \<open>An opening parenthesis that is never closed.\<close>

definition open_paren_stream :: "MismatchedBracketToken list" where
  "open_paren_stream = map (\<lambda>(i, k). \<lparr>mb_token_index = i, mb_kind = k, mb_line = 1, mb_line_indent = 0, mb_is_at_end_of_line = False,
     mb_is_struct_brace = False, mb_is_paren_keyword = False, mb_is_else_keyword = False, mb_has_leading_space = False,
     mb_has_wide_leading_space = False\<rparr>) [(1, OpenParen_k), (2, Leaf_k), (3, FileEnd_k)]"

theorem fixes_balance_stream_witness:
  "stream_ok open_paren_stream \<and> (\<exists>C S. FixMismatchedBrackets open_paren_stream = Some C \<and> in_order S \<and>
     set S = slots (map token_pair open_paren_stream) C \<and> balanced (map snd S))"
proof -
  have "stream_ok open_paren_stream" by (simp add: stream_ok_def open_paren_stream_def)
  with fixes_balance_stream [of open_paren_stream] show ?thesis by blast
qed

end
