(* ===== verification/Parse_Tree.thy ===== *)
theory Parse_Tree
  imports Tokenized_Buffer
begin

text \<open>
  The parse tree: \<open>toolchain/parse/tree.cpp\<close>, \<open>tree.h\<close> and \<open>tree_and_subtrees.cpp\<close>.

  The tree is stored as the list of its nodes in postorder, without links; the class \<open>TreeAndSubtrees\<close> finds the size of every
  subtree from the kinds of the nodes, and with them walks the tree. Every kind of node is defined with a fixed number of children, a
  bracketing kind for its first child, or both. The definitions of the kinds are the argument \<open>defs\<close> of the operations,
  the table of \<open>NodeKind::definition\<close>, and the theorems hold for every such table. A \<open>NodeId\<close> is an \<open>int\<close> where it may be the
  position before the first node, and the back of a stack is the head of the list. Printing is modelled to the order and the depth of
  the nodes printed.
\<close>

section \<open>Kinds of nodes\<close>

record 'k NodeDefinition =
  nd_bracket :: 'k
  nd_child_count :: int

type_synonym 'k node_table = "'k \<Rightarrow> 'k NodeDefinition"

definition has_bracket :: "'k node_table \<Rightarrow> 'k \<Rightarrow> bool" where
  "has_bracket defs kind \<longleftrightarrow> nd_bracket (defs kind) \<noteq> kind"

definition bracket :: "'k node_table \<Rightarrow> 'k \<Rightarrow> 'k outcome" where
  "bracket defs kind = carbon_check (has_bracket defs kind) (Ret (nd_bracket (defs kind)))"

definition has_child_count :: "'k node_table \<Rightarrow> 'k \<Rightarrow> bool" where
  "has_child_count defs kind \<longleftrightarrow> 0 \<le> nd_child_count (defs kind)"

definition child_count :: "'k node_table \<Rightarrow> 'k \<Rightarrow> int outcome" where
  "child_count defs kind = carbon_check (has_child_count defs kind) (Ret (nd_child_count (defs kind)))"

section \<open>The tree\<close>

record 'k NodeImpl =
  ni_kind :: 'k
  ni_has_error :: bool
  ni_token :: nat

record ('k, 'a) Tree =
  tr_node_impls :: "'k NodeImpl list"
  tr_tokens :: "'a TokenizedBuffer"
  tr_has_errors :: bool

definition tree_size :: "('k, 'a) Tree \<Rightarrow> nat" where
  "tree_size tree = length (tr_node_impls tree)"

definition postorder :: "('k, 'a) Tree \<Rightarrow> nat list" where
  "postorder tree = [0..<tree_size tree]"

definition node_kind :: "('k, 'a) Tree \<Rightarrow> nat \<Rightarrow> 'k outcome" where
  "node_kind tree n = bind_outcome (store_get (tr_node_impls tree) n) (\<lambda>node. Ret (ni_kind node))"

definition node_token :: "('k, 'a) Tree \<Rightarrow> nat \<Rightarrow> nat outcome" where
  "node_token tree n = bind_outcome (store_get (tr_node_impls tree) n) (\<lambda>node. Ret (ni_token node))"

definition node_has_error :: "('k, 'a) Tree \<Rightarrow> nat \<Rightarrow> bool outcome" where
  "node_has_error tree n = bind_outcome (store_get (tr_node_impls tree) n) (\<lambda>node. Ret (ni_has_error node))"

section \<open>Sizes of subtrees\<close>

text \<open>
  The sizes of the nodes already visited are a list; a size that is not yet set cannot be read. First the loop over a fixed number of
  children, with the number that remain, then the loop that ends at the bracketing node.
\<close>

fun pop_counted ::
    "'k node_table \<Rightarrow> ('k, 'a) Tree \<Rightarrow> nat list \<Rightarrow> 'k \<Rightarrow> nat \<Rightarrow> nat list \<Rightarrow> nat \<Rightarrow> (nat list \<times> nat) outcome" where
  "pop_counted defs tree sizes kind 0 stack acc = Ret (stack, acc)"
| "pop_counted defs tree sizes kind (Suc remaining) [] acc = Fatal"
| "pop_counted defs tree sizes kind (Suc remaining) (child # stack) acc =
     bind_outcome (store_get sizes child) (\<lambda>child_size.
       bind_outcome
         (if has_bracket defs kind \<and> remaining = 0
          then bind_outcome (bracket defs kind) (\<lambda>b. bind_outcome (node_kind tree child) (\<lambda>k. carbon_check (b = k) (Ret ())))
          else Ret ())
         (\<lambda>_. pop_counted defs tree sizes kind remaining stack (acc + child_size)))"

fun pop_bracketed ::
    "'k node_table \<Rightarrow> ('k, 'a) Tree \<Rightarrow> nat list \<Rightarrow> 'k \<Rightarrow> nat list \<Rightarrow> nat \<Rightarrow> (nat list \<times> nat) outcome" where
  "pop_bracketed defs tree sizes kind [] acc = Fatal"
| "pop_bracketed defs tree sizes kind (child # stack) acc =
     bind_outcome (store_get sizes child) (\<lambda>child_size.
       bind_outcome (bracket defs kind) (\<lambda>b. bind_outcome (node_kind tree child) (\<lambda>k.
         if b = k then Ret (stack, acc + child_size)
         else pop_bracketed defs tree sizes kind stack (acc + child_size))))"

definition subtree_step ::
    "'k node_table \<Rightarrow> ('k, 'a) Tree \<Rightarrow> nat \<Rightarrow> (nat list \<times> nat list) outcome \<Rightarrow> (nat list \<times> nat list) outcome" where
  "subtree_step defs tree n st = bind_outcome st (\<lambda>(size_stack, sizes).
     bind_outcome (node_kind tree n) (\<lambda>kind.
       bind_outcome
         (if has_child_count defs kind
          then bind_outcome (child_count defs kind) (\<lambda>count.
                 carbon_check (count \<le> int (length size_stack)) (pop_counted defs tree sizes kind (nat count) size_stack 1))
          else pop_bracketed defs tree sizes kind size_stack 1)
         (\<lambda>(size_stack, size). Ret (n # size_stack, sizes @ [size]))))"

text \<open>The roots, from the first, must follow one another.\<close>

fun check_roots :: "nat list \<Rightarrow> int \<Rightarrow> nat list \<Rightarrow> unit outcome" where
  "check_roots sizes prev_index [] = Ret ()"
| "check_roots sizes prev_index (n # ns) =
     bind_outcome (store_get sizes n) (\<lambda>size.
       carbon_check (int n - int size = prev_index) (check_roots sizes (int n) ns))"

definition TreeAndSubtrees_init :: "'k node_table \<Rightarrow> ('k, 'a) Tree \<Rightarrow> nat list outcome" where
  "TreeAndSubtrees_init defs tree =
     bind_outcome (fold (subtree_step defs tree) (postorder tree) (Ret ([], []))) (\<lambda>(size_stack, sizes).
       case size_stack of
         [] \<Rightarrow> Fatal
       | newest # _ \<Rightarrow> carbon_check (int newest = int (tree_size tree) - 1)
           (bind_outcome (check_roots sizes (- 1) (rev size_stack)) (\<lambda>_. Ret sizes)))"

section \<open>Walking the tree\<close>

definition subtree_postorder :: "nat list \<Rightarrow> nat \<Rightarrow> nat list outcome" where
  "subtree_postorder sizes n =
     bind_outcome (store_get sizes n) (\<lambda>size.
       let begin_index = int n - int size + 1 in
       carbon_check (begin_index \<noteq> - 1) (Ret (map nat [begin_index..int n])))"

text \<open>The nodes a \<open>SiblingIterator\<close> gives from one node up to an end; the walk may not meet the end.\<close>

partial_function (option) siblings :: "nat list \<Rightarrow> int \<Rightarrow> int \<Rightarrow> nat list outcome option" where
  "siblings sizes node e =
     (if node = e then Some (Ret [])
      else if node < 0 then Some Fatal
      else case store_get sizes (nat node) of
        Fatal \<Rightarrow> Some Fatal
      | Ret extent \<Rightarrow> Option.bind (siblings sizes (node - int extent) e) (\<lambda>r. Some (bind_outcome r (\<lambda>ns. Ret (nat node # ns)))))"

definition children :: "nat list \<Rightarrow> nat \<Rightarrow> nat list outcome option" where
  "children sizes n =
     (case store_get sizes n of Fatal \<Rightarrow> Some Fatal | Ret extent \<Rightarrow> siblings sizes (int n - 1) (int n - int extent))"

definition roots :: "nat list \<Rightarrow> nat list outcome option" where
  "roots sizes = siblings sizes (int (length sizes) - 1) (- 1)"

section \<open>Orders of printing\<close>

text \<open>The depths that \<open>PrintPostorder\<close> computes, from the last node to the first.\<close>

fun depths_loop :: "nat list \<Rightarrow> nat list \<Rightarrow> nat list \<Rightarrow> nat list outcome option" where
  "depths_loop sizes [] depths = Some (Ret depths)"
| "depths_loop sizes (n # ns) depths =
     (case children sizes n of
        None \<Rightarrow> None
      | Some Fatal \<Rightarrow> Some Fatal
      | Some (Ret cs) \<Rightarrow> depths_loop sizes ns (fold (\<lambda>child ds. ds[child := depths ! n + 1]) cs depths))"

definition postorder_depths :: "nat list \<Rightarrow> nat list outcome option" where
  "postorder_depths sizes = depths_loop sizes (rev [0..<length sizes]) (replicate (length sizes) 0)"

text \<open>The nodes that \<open>PrintYamlPreorder\<close> visits, with their depths; a node without children ends levels down to the next node's depth.\<close>

partial_function (option) preorder_loop :: "nat list \<Rightarrow> (nat \<times> nat) list \<Rightarrow> (nat \<times> nat) list outcome option" where
  "preorder_loop sizes node_stack =
     (case node_stack of
        [] \<Rightarrow> Some (Ret [])
      | (n, depth) # node_stack \<Rightarrow>
          (case store_get sizes n of
             Fatal \<Rightarrow> Some Fatal
           | Ret extent \<Rightarrow>
               if 1 < extent
               then (case children sizes n of
                       None \<Rightarrow> None
                     | Some Fatal \<Rightarrow> Some Fatal
                     | Some (Ret cs) \<Rightarrow> Option.bind
                         (preorder_loop sizes (rev (map (\<lambda>c. (c, depth + 1)) cs) @ node_stack))
                         (\<lambda>r. Some (bind_outcome r (\<lambda>ns. Ret ((n, depth) # ns)))))
               else if node_stack \<noteq> [] \<and> depth < snd (hd node_stack) then Some Fatal
               else Option.bind (preorder_loop sizes node_stack) (\<lambda>r. Some (bind_outcome r (\<lambda>ns. Ret ((n, depth) # ns))))))"

definition preorder_nodes :: "nat list \<Rightarrow> (nat \<times> nat) list outcome option" where
  "preorder_nodes sizes =
     (case roots sizes of
        None \<Rightarrow> None
      | Some Fatal \<Rightarrow> Some Fatal
      | Some (Ret ns) \<Rightarrow> preorder_loop sizes (rev (map (\<lambda>n. (n, 0)) ns)))"

section \<open>Tokens of a subtree\<close>

definition extend_range :: "nat \<Rightarrow> nat \<times> nat \<Rightarrow> nat \<times> nat" where
  "extend_range token rng =
     (if token < fst rng then (token, snd rng) else if snd rng < token then (fst rng, token) else rng)"

fun extend_ranges :: "('k, 'a) Tree \<Rightarrow> nat list \<Rightarrow> nat \<times> nat \<Rightarrow> (nat \<times> nat) outcome" where
  "extend_ranges tree [] rng = Ret rng"
| "extend_ranges tree (n # ns) rng =
     bind_outcome (node_token tree n) (\<lambda>token. extend_ranges tree ns (extend_range token rng))"

definition GetSubtreeTokenRange :: "('k, 'a) Tree \<Rightarrow> nat list \<Rightarrow> nat \<Rightarrow> (nat \<times> nat) outcome" where
  "GetSubtreeTokenRange tree sizes n =
     bind_outcome (node_token tree n) (\<lambda>token.
       bind_outcome (subtree_postorder sizes n) (\<lambda>ns. extend_ranges tree ns (token, token)))"

text \<open>The location of a node: its line, number, column and length.\<close>

definition NodeToDiagnosticLoc ::
    "'a lex_env \<Rightarrow> ('k, 'a) Tree \<Rightarrow> nat list \<Rightarrow> nat \<Rightarrow> bool \<Rightarrow> (string \<times> nat \<times> nat \<times> nat) outcome" where
  "NodeToDiagnosticLoc env tree sizes n token_only =
     (if token_only
      then bind_outcome (node_token tree n) (TokenToDiagnosticLoc env (tr_tokens tree))
      else bind_outcome (GetSubtreeTokenRange tree sizes n) (\<lambda>(first, final).
        bind_outcome (TokenToDiagnosticLoc env (tr_tokens tree) first) (\<lambda>(line, number, column, len).
          if first = final then Ret (line, number, column, len)
          else bind_outcome (TokenToDiagnosticLoc env (tr_tokens tree) final) (\<lambda>(end_line, end_number, end_column, end_len).
            Ret (line, number, column,
              if number \<noteq> end_number then length line + 1 - column
              else if column \<noteq> end_column then end_column + end_len - column else len)))))"

section \<open>Verification\<close>

datatype verify_error =
    NodeHasErrors nat
  | NodeIsPlaceholder nat
  | MoreNodesThanExpected
  | FewerNodesThanTokens

definition verify_node :: "'k \<Rightarrow> ('k, 'a) Tree \<Rightarrow> nat \<Rightarrow> verify_error option outcome" where
  "verify_node placeholder tree n =
     bind_outcome (node_has_error tree n) (\<lambda>has_error.
       if has_error \<and> \<not> tr_has_errors tree then Ret (Some (NodeHasErrors n))
       else bind_outcome (node_kind tree n) (\<lambda>kind. Ret (if kind = placeholder then Some (NodeIsPlaceholder n) else None)))"

fun verify_nodes :: "'k \<Rightarrow> ('k, 'a) Tree \<Rightarrow> nat list \<Rightarrow> verify_error option outcome" where
  "verify_nodes placeholder tree [] = Ret None"
| "verify_nodes placeholder tree (n # ns) =
     bind_outcome (verify_node placeholder tree n) (\<lambda>e. case e of Some e \<Rightarrow> Ret (Some e) | None \<Rightarrow> verify_nodes placeholder tree ns)"

text \<open>\<open>Tree::Verify\<close> as it is in optimised builds; \<open>None\<close> is success.\<close>

definition Tree_Verify :: "'k \<Rightarrow> ('k, 'a) Tree \<Rightarrow> verify_error option outcome" where
  "Tree_Verify placeholder tree =
     bind_outcome (verify_nodes placeholder tree (postorder tree)) (\<lambda>e. case e of
        Some e \<Rightarrow> Ret (Some e)
      | None \<Rightarrow> Ret (
          if \<not> tr_has_errors tree \<and> tb_expected_max_parse_tree_size (tr_tokens tree) < tree_size tree then Some MoreNodesThanExpected
          else if \<not> tr_has_errors tree \<and> tree_size tree < length (tb_token_infos (tr_tokens tree)) then Some FewerNodesThanTokens
          else None))"

end
