(* ===== verification/Parse_Subtrees.thy ===== *)
theory Parse_Subtrees
  imports Parse_Tree
begin

text \<open>
  What the sizes that \<open>TreeAndSubtrees\<close> computes stand for: the list of nodes is the postorder of exactly one kind of forest, in
  which every node has the children its kind asks for, and the walks over the sizes are the walks over that forest.
\<close>

section \<open>Forests of nodes\<close>

text \<open>A tree of node indexes, its subtrees in postorder, and the size of each.\<close>

datatype ntree = Node (label: nat) (kids: "ntree list")

fun posts :: "ntree \<Rightarrow> ntree list" where
  "posts (Node n cs) = concat (map posts cs) @ [Node n cs]"

abbreviation posts_all :: "ntree list \<Rightarrow> ntree list" where
  "posts_all ts \<equiv> concat (map posts ts)"

abbreviation tsize :: "ntree \<Rightarrow> nat" where
  "tsize t \<equiv> length (posts t)"

text \<open>A forest whose postorder numbers the nodes from zero.\<close>

definition numbered :: "ntree list \<Rightarrow> bool" where
  "numbered ts \<longleftrightarrow> map label (posts_all ts) = [0..<length (posts_all ts)]"

text \<open>The children a kind asks for: so many, the first of the bracketing kind, or the first and only the first of the bracketing kind.\<close>

definition kids_ok :: "'k node_table \<Rightarrow> 'k \<Rightarrow> 'k list \<Rightarrow> bool" where
  "kids_ok defs k ks \<longleftrightarrow>
     (if has_child_count defs k
      then int (length ks) = nd_child_count (defs k) \<and> (has_bracket defs k \<and> ks \<noteq> [] \<longrightarrow> hd ks = nd_bracket (defs k))
      else has_bracket defs k \<and> ks \<noteq> [] \<and> hd ks = nd_bracket (defs k) \<and> nd_bracket (defs k) \<notin> set (tl ks))"

fun shaped :: "'k node_table \<Rightarrow> (nat \<Rightarrow> 'k) \<Rightarrow> ntree \<Rightarrow> bool" where
  "shaped defs kind (Node n cs) \<longleftrightarrow> kids_ok defs (kind n) (map (\<lambda>c. kind (label c)) cs) \<and> (\<forall>c \<in> set cs. shaped defs kind c)"

lemma posts_ne [simp]: "posts t \<noteq> []"
  by (cases t) simp

lemma posts_kids: "posts t = posts_all (kids t) @ [t]"
  by (cases t) simp

lemma posts_self: "t \<in> set (posts t)"
  by (subst posts_kids) simp

lemma tsize_kids: "tsize t = Suc (length (posts_all (kids t)))"
  by (cases t) simp

lemma kids_smaller: "c \<in> set (kids t) \<Longrightarrow> tsize c < tsize t"
  using tsize_kids [of t] member_le_sum_list [of "tsize c" "map tsize (kids t)"] by (simp add: length_concat comp_def)

section \<open>Subtrees in the postorder\<close>

text \<open>Each entry of a list of subtrees is preceded by the rest of its own postorder.\<close>

definition sliced :: "ntree list \<Rightarrow> bool" where
  "sliced L \<longleftrightarrow> (\<forall>n < length L. \<exists>pre suf. L = pre @ posts (L ! n) @ suf \<and> length pre + tsize (L ! n) = Suc n)"

lemma sliced_append:
  assumes "sliced A" "sliced B"
  shows "sliced (A @ B)"
  unfolding sliced_def
proof (intro allI impI)
  fix n assume n: "n < length (A @ B)"
  show "\<exists>pre suf. A @ B = pre @ posts ((A @ B) ! n) @ suf \<and> length pre + tsize ((A @ B) ! n) = Suc n"
  proof (cases "n < length A")
    case True
    then obtain pre suf where "A = pre @ posts (A ! n) @ suf" "length pre + tsize (A ! n) = Suc n"
      using assms(1) by (auto simp: sliced_def)
    then show ?thesis using True by (intro exI [of _ pre] exI [of _ "suf @ B"]) (simp add: nth_append)
  next
    case False
    then have m: "n - length A < length B" using n by simp
    then obtain pre suf where "B = pre @ posts (B ! (n - length A)) @ suf" "length pre + tsize (B ! (n - length A)) = Suc (n - length A)"
      using assms(2) unfolding sliced_def by blast
    then show ?thesis using False by (intro exI [of _ "A @ pre"] exI [of _ suf]) (simp add: nth_append)
  qed
qed

lemma sliced_concat: "\<forall>t \<in> set ts. sliced (posts t) \<Longrightarrow> sliced (posts_all ts)"
proof (induction ts)
  case (Cons t ts)
  then show ?case using sliced_append by simp
qed (simp add: sliced_def)

lemma sliced_posts: "sliced (posts t)"
proof (induction t)
  case (Node n cs)
  then have c: "sliced (posts_all cs)" by (intro sliced_concat) simp
  show ?case unfolding sliced_def
  proof (intro allI impI)
    fix i assume i: "i < tsize (Node n cs)"
    show "\<exists>pre suf. posts (Node n cs) = pre @ posts (posts (Node n cs) ! i) @ suf \<and> length pre + tsize (posts (Node n cs) ! i) = Suc i"
    proof (cases "i = length (posts_all cs)")
      case True
      then have "posts (Node n cs) ! i = Node n cs" by simp
      then show ?thesis using True by (intro exI [of _ "[]"]) simp
    next
      case False
      then have j: "i < length (posts_all cs)" using i by simp
      then obtain pre suf where "posts_all cs = pre @ posts (posts_all cs ! i) @ suf" "length pre + tsize (posts_all cs ! i) = Suc i"
        using c unfolding sliced_def by blast
      moreover have "posts (Node n cs) ! i = posts_all cs ! i" using j by (simp add: nth_append)
      ultimately show ?thesis by (intro exI [of _ pre] exI [of _ "suf @ [Node n cs]"]) simp
    qed
  qed
qed

lemma numbered_nth: "numbered ts \<Longrightarrow> t \<in> set (posts_all ts) \<Longrightarrow> label t < length (posts_all ts) \<and> posts_all ts ! label t = t"
proof -
  assume n: "numbered ts" and "t \<in> set (posts_all ts)"
  then obtain i where i: "i < length (posts_all ts)" "posts_all ts ! i = t" by (auto simp only: in_set_conv_nth)
  have "map label (posts_all ts) ! i = [0..<length (posts_all ts)] ! i" using n by (simp only: numbered_def)
  then have "label t = i" using i by (simp only: nth_map nth_upt add_0)
  then show ?thesis using i by simp
qed

lemma numbered_slice:
  assumes "numbered ts" "t \<in> set (posts_all ts)"
  obtains pre suf where "posts_all ts = pre @ posts t @ suf" "length pre + tsize t = Suc (label t)"
    "map label (posts t) = [length pre..<Suc (label t)]"
proof -
  note n = numbered_nth [OF assms]
  have "sliced (posts_all ts)" using sliced_posts by (intro sliced_concat) simp
  then obtain pre suf where s: "posts_all ts = pre @ posts t @ suf" "length pre + tsize t = Suc (label t)"
    using n unfolding sliced_def by metis
  have "map label (posts t) = take (tsize t) (drop (length pre) (map label (posts_all ts)))" unfolding s(1) by simp
  also have "\<dots> = take (tsize t) (drop (length pre) [0..<length (posts_all ts)])" using assms(1) by (simp only: numbered_def)
  also have "\<dots> = [length pre..<length pre + tsize t]" using arg_cong [OF s(1), of length] by (simp add: take_upt)
  finally have "map label (posts t) = [length pre..<length pre + tsize t]" .
  with s that show thesis by simp
qed

section \<open>Computing the sizes\<close>

abbreviation kind_of :: "('k, 'a) Tree \<Rightarrow> nat \<Rightarrow> 'k" where
  "kind_of tree n \<equiv> ni_kind (tr_node_impls tree ! n)"

abbreviation root_kinds :: "('k, 'a) Tree \<Rightarrow> ntree list \<Rightarrow> 'k list" where
  "root_kinds tree ts \<equiv> map (\<lambda>t. kind_of tree (label t)) ts"

text \<open>Nodes whose sizes and kinds can be read.\<close>

definition on_stack :: "('k, 'a) Tree \<Rightarrow> nat list \<Rightarrow> ntree \<Rightarrow> bool" where
  "on_stack tree sizes t \<longleftrightarrow> store_get sizes (label t) = Ret (tsize t) \<and> node_kind tree (label t) = Ret (kind_of tree (label t))"

lemma snoc_split:
  "(\<exists>ws cs. us @ [u] = ws @ cs \<and> cs \<noteq> [] \<and> Q ws cs) \<longleftrightarrow> (\<exists>ws cs. us = ws @ cs \<and> Q ws (cs @ [u]))"
proof
  assume "\<exists>ws cs. us @ [u] = ws @ cs \<and> cs \<noteq> [] \<and> Q ws cs"
  then obtain ws cs where c: "us @ [u] = ws @ cs" "cs \<noteq> []" "Q ws cs" by blast
  then obtain ds d where "cs = ds @ [d]" by (metis rev_exhaust)
  with c show "\<exists>ws cs. us = ws @ cs \<and> Q ws (cs @ [u])" by auto
qed fastforce

lemma pop_counted_iff:
  assumes "\<forall>u \<in> set us. on_stack tree sizes u"
  shows "pop_counted defs tree sizes k m (rev (map label us)) a = Ret (st, a') \<longleftrightarrow>
    (\<exists>ws cs. us = ws @ cs \<and> length cs = m \<and> (has_bracket defs k \<and> cs \<noteq> [] \<longrightarrow> hd (root_kinds tree cs) = nd_bracket (defs k)) \<and>
       st = rev (map label ws) \<and> a' = a + length (posts_all cs))"
  using assms
proof (induction us arbitrary: m a rule: rev_induct)
  case Nil
  then show ?case by (cases m) auto
next
  case (snoc u us)
  show ?case
  proof (cases m)
    case 0
    then show ?thesis by auto
  next
    case (Suc r)
    have u: "store_get sizes (label u) = Ret (tsize u)" "node_kind tree (label u) = Ret (kind_of tree (label u))"
      using snoc.prems by (simp_all add: on_stack_def)
    have "pop_counted defs tree sizes k m (rev (map label (us @ [u]))) a = Ret (st, a') \<longleftrightarrow>
        (has_bracket defs k \<and> r = 0 \<longrightarrow> kind_of tree (label u) = nd_bracket (defs k)) \<and>
        pop_counted defs tree sizes k r (rev (map label us)) (a + tsize u) = Ret (st, a')"
      by (auto simp: Suc u bracket_def carbon_check_def)
    also have "\<dots> \<longleftrightarrow> (\<exists>ws cs. us = ws @ cs \<and> length (cs @ [u]) = m \<and>
        (has_bracket defs k \<longrightarrow> hd (root_kinds tree (cs @ [u])) = nd_bracket (defs k)) \<and>
        st = rev (map label ws) \<and> a' = a + length (posts_all (cs @ [u])))"
    proof -
      have "\<forall>u \<in> set us. on_stack tree sizes u" using snoc.prems by simp
      note ih = snoc.IH [OF this, of r "a + tsize u"]
      have e: "length (cs @ [u]) = m \<and> (has_bracket defs k \<longrightarrow> hd (root_kinds tree (cs @ [u])) = nd_bracket (defs k)) \<and>
          a' = a + length (posts_all (cs @ [u])) \<longleftrightarrow>
          (has_bracket defs k \<and> r = 0 \<longrightarrow> kind_of tree (label u) = nd_bracket (defs k)) \<and> length cs = r \<and>
          (has_bracket defs k \<and> cs \<noteq> [] \<longrightarrow> hd (root_kinds tree cs) = nd_bracket (defs k)) \<and>
          a' = a + tsize u + length (posts_all cs)" for cs
        using Suc by (cases cs) auto
      show ?thesis unfolding ih using e by blast
    qed
    also have "\<dots> \<longleftrightarrow> (\<exists>ws cs. us @ [u] = ws @ cs \<and> cs \<noteq> [] \<and> length cs = m \<and>
        (has_bracket defs k \<longrightarrow> hd (root_kinds tree cs) = nd_bracket (defs k)) \<and>
        st = rev (map label ws) \<and> a' = a + length (posts_all cs))"
      by (rule snoc_split [symmetric])
    finally show ?thesis using Suc by fastforce
  qed
qed

lemma pop_bracketed_iff:
  assumes "\<forall>u \<in> set us. on_stack tree sizes u"
  shows "pop_bracketed defs tree sizes k (rev (map label us)) a = Ret (st, a') \<longleftrightarrow>
    (\<exists>ws cs. us = ws @ cs \<and> cs \<noteq> [] \<and> has_bracket defs k \<and> hd (root_kinds tree cs) = nd_bracket (defs k) \<and>
       nd_bracket (defs k) \<notin> set (tl (root_kinds tree cs)) \<and> st = rev (map label ws) \<and> a' = a + length (posts_all cs))"
  using assms
proof (induction us arbitrary: a rule: rev_induct)
  case (snoc u us)
  let ?b = "nd_bracket (defs k)"
  have u: "store_get sizes (label u) = Ret (tsize u)" "node_kind tree (label u) = Ret (kind_of tree (label u))"
    using snoc.prems by (simp_all add: on_stack_def)
  have "\<forall>u \<in> set us. on_stack tree sizes u" using snoc.prems by simp
  note ih = snoc.IH [OF this, of "a + tsize u"]
  have "pop_bracketed defs tree sizes k (rev (map label (us @ [u]))) a = Ret (st, a') \<longleftrightarrow> has_bracket defs k \<and>
      (if ?b = kind_of tree (label u) then st = rev (map label us) \<and> a' = a + tsize u
       else pop_bracketed defs tree sizes k (rev (map label us)) (a + tsize u) = Ret (st, a'))"
    by (auto simp: u bracket_def carbon_check_def)
  also have "\<dots> \<longleftrightarrow> (\<exists>ws cs. us = ws @ cs \<and> has_bracket defs k \<and> hd (root_kinds tree (cs @ [u])) = ?b \<and>
      ?b \<notin> set (tl (root_kinds tree (cs @ [u]))) \<and> st = rev (map label ws) \<and> a' = a + length (posts_all (cs @ [u])))"
  proof (cases "?b = kind_of tree (label u)")
    case True
    have e: "hd (root_kinds tree (cs @ [u])) = ?b \<and> ?b \<notin> set (tl (root_kinds tree (cs @ [u]))) \<and> a' = a + length (posts_all (cs @ [u])) \<longleftrightarrow>
        cs = [] \<and> a' = a + tsize u" for cs
      using True by (cases cs) auto
    show ?thesis unfolding if_P [OF True] using e by (metis append_Nil2)
  next
    case False
    have e: "hd (root_kinds tree (cs @ [u])) = ?b \<and> ?b \<notin> set (tl (root_kinds tree (cs @ [u]))) \<and> a' = a + length (posts_all (cs @ [u])) \<longleftrightarrow>
        cs \<noteq> [] \<and> hd (root_kinds tree cs) = ?b \<and> ?b \<notin> set (tl (root_kinds tree cs)) \<and> a' = a + tsize u + length (posts_all cs)" for cs
      using False by (cases cs) auto
    show ?thesis unfolding if_not_P [OF False] ih using e by blast
  qed
  also have "\<dots> \<longleftrightarrow> (\<exists>ws cs. us @ [u] = ws @ cs \<and> cs \<noteq> [] \<and> has_bracket defs k \<and> hd (root_kinds tree cs) = ?b \<and>
      ?b \<notin> set (tl (root_kinds tree cs)) \<and> st = rev (map label ws) \<and> a' = a + length (posts_all cs))"
    by (rule snoc_split [symmetric])
  finally show ?case .
qed simp

text \<open>The state after the nodes of a forest.\<close>

definition forest_state :: "ntree list \<Rightarrow> nat list \<times> nat list" where
  "forest_state ts = (rev (map label ts), map tsize (posts_all ts))"

lemma forest_on_stack:
  assumes "numbered ts" "length (posts_all ts) \<le> tree_size tree" "t \<in> set (posts_all ts)"
  shows "on_stack tree (map tsize (posts_all ts)) t"
  using numbered_nth [OF assms(1,3)] assms(2) by (simp add: on_stack_def node_kind_def store_get_def tree_size_def)

lemma subtree_step_iff:
  assumes "numbered ts" "length (posts_all ts) < tree_size tree"
  shows "subtree_step defs tree n (Ret (forest_state ts)) = Ret r \<and> n = length (posts_all ts) \<longleftrightarrow>
    (\<exists>ws cs. ts = ws @ cs \<and> kids_ok defs (kind_of tree n) (root_kinds tree cs) \<and> r = forest_state (ws @ [Node n cs]) \<and> n = length (posts_all ts))"
proof (cases "n = length (posts_all ts)")
  case True
  let ?k = "kind_of tree n" and ?sizes = "map tsize (posts_all ts)"
  have nk: "node_kind tree n = Ret ?k" using assms(2) True by (simp add: node_kind_def store_get_def tree_size_def)
  have on: "\<forall>t \<in> set ts. on_stack tree ?sizes t"
  proof
    fix t assume "t \<in> set ts"
    then have "t \<in> set (posts_all ts)" using posts_self by auto
    then show "on_stack tree ?sizes t" using forest_on_stack [OF assms(1)] assms(2) less_imp_le by blast
  qed
  let ?pop = "if has_child_count defs ?k
     then bind_outcome (child_count defs ?k) (\<lambda>count.
       carbon_check (count \<le> int (length (rev (map label ts)))) (pop_counted defs tree ?sizes ?k (nat count) (rev (map label ts)) 1))
     else pop_bracketed defs tree ?sizes ?k (rev (map label ts)) 1"
  have pop: "?pop = Ret (st, a) \<longleftrightarrow> (\<exists>ws cs. ts = ws @ cs \<and> kids_ok defs ?k (root_kinds tree cs) \<and> st = rev (map label ws) \<and>
      a = 1 + length (posts_all cs))" for st a
  proof (cases "has_child_count defs ?k")
    case True
    let ?c = "nat (nd_child_count (defs ?k))"
    have "?pop = Ret (st, a) \<longleftrightarrow> ?c \<le> length ts \<and> pop_counted defs tree ?sizes ?k ?c (rev (map label ts)) 1 = Ret (st, a)"
      using True by (auto simp: child_count_def carbon_check_def has_child_count_def)
    also have "\<dots> \<longleftrightarrow> pop_counted defs tree ?sizes ?k ?c (rev (map label ts)) 1 = Ret (st, a)"
      unfolding pop_counted_iff [OF on] by auto
    also have "\<dots> \<longleftrightarrow> (\<exists>ws cs. ts = ws @ cs \<and> kids_ok defs ?k (root_kinds tree cs) \<and> st = rev (map label ws) \<and> a = 1 + length (posts_all cs))"
    proof -
      have "length cs = ?c \<and> (has_bracket defs ?k \<and> cs \<noteq> [] \<longrightarrow> hd (root_kinds tree cs) = nd_bracket (defs ?k)) \<longleftrightarrow>
          kids_ok defs ?k (root_kinds tree cs)" for cs
        using True by (auto simp: kids_ok_def has_child_count_def)
      then show ?thesis unfolding pop_counted_iff [OF on] by metis
    qed
    finally show ?thesis .
  next
    case False
    then have "cs \<noteq> [] \<and> has_bracket defs ?k \<and> hd (root_kinds tree cs) = nd_bracket (defs ?k) \<and>
        nd_bracket (defs ?k) \<notin> set (tl (root_kinds tree cs)) \<longleftrightarrow> kids_ok defs ?k (root_kinds tree cs)" for cs
      by (auto simp: kids_ok_def)
    then show ?thesis unfolding if_not_P [OF False] pop_bracketed_iff [OF on] by metis
  qed
  have new: "forest_state (ws @ [Node n cs]) = (n # rev (map label ws), ?sizes @ [1 + length (posts_all cs)])" if "ts = ws @ cs" for ws cs
    using that by (simp add: forest_state_def)
  have "subtree_step defs tree n (Ret (forest_state ts)) = Ret r \<longleftrightarrow> (\<exists>st a. ?pop = Ret (st, a) \<and> r = (n # st, ?sizes @ [a]))"
    by (auto simp: subtree_step_def forest_state_def nk bind_outcome_Ret_iff)
  also have "\<dots> \<longleftrightarrow> (\<exists>ws cs. ts = ws @ cs \<and> kids_ok defs ?k (root_kinds tree cs) \<and> r = forest_state (ws @ [Node n cs]))"
  proof -
    have "(\<exists>st a. ?pop = Ret (st, a) \<and> r = (n # st, ?sizes @ [a])) \<longleftrightarrow>
        (\<exists>ws cs. ts = ws @ cs \<and> kids_ok defs ?k (root_kinds tree cs) \<and> r = (n # rev (map label ws), ?sizes @ [1 + length (posts_all cs)]))"
      unfolding pop by blast
    also have "\<dots> \<longleftrightarrow> (\<exists>ws cs. ts = ws @ cs \<and> kids_ok defs ?k (root_kinds tree cs) \<and> r = forest_state (ws @ [Node n cs]))"
      by (intro iff_exI conj_cong refl) (simp only: new)
    finally show ?thesis .
  qed
  finally show ?thesis using True by blast
qed simp

lemma numbered_snoc:
  "numbered (ws @ [Node n cs]) \<longleftrightarrow> numbered (ws @ cs) \<and> n = length (posts_all (ws @ cs))"
  by (auto simp: numbered_def)

lemma subtree_fold:
  assumes "k \<le> tree_size tree"
  shows "fold (subtree_step defs tree) [0..<k] (Ret ([], [])) = Ret r \<longleftrightarrow>
    (\<exists>ts. numbered ts \<and> length (posts_all ts) = k \<and> (\<forall>t \<in> set ts. shaped defs (kind_of tree) t) \<and> r = forest_state ts)"
  using assms
proof (induction k arbitrary: r)
  case 0
  have "length (posts_all ts) = 0 \<longleftrightarrow> ts = []" for ts by (cases ts) auto
  then show ?case by (auto simp: numbered_def forest_state_def)
next
  case (Suc k)
  let ?f = "\<lambda>k. fold (subtree_step defs tree) [0..<k] (Ret ([], []))"
  have ih: "?f k = Ret r \<longleftrightarrow> (\<exists>ts. numbered ts \<and> length (posts_all ts) = k \<and> (\<forall>t \<in> set ts. shaped defs (kind_of tree) t) \<and> r = forest_state ts)" for r
    using Suc by simp
  have "?f (Suc k) = Ret r \<longleftrightarrow> (\<exists>r'. ?f k = Ret r' \<and> subtree_step defs tree k (Ret r') = Ret r)"
    by (cases "?f k") (auto simp: subtree_step_def)
  also have "\<dots> \<longleftrightarrow> (\<exists>ts. numbered ts \<and> length (posts_all ts) = k \<and> (\<forall>t \<in> set ts. shaped defs (kind_of tree) t) \<and>
      subtree_step defs tree k (Ret (forest_state ts)) = Ret r)"
    unfolding ih by blast
  also have "\<dots> \<longleftrightarrow> (\<exists>ws cs. numbered (ws @ cs) \<and> length (posts_all (ws @ cs)) = k \<and>
      (\<forall>t \<in> set (ws @ cs). shaped defs (kind_of tree) t) \<and> kids_ok defs (kind_of tree k) (root_kinds tree cs) \<and>
      r = forest_state (ws @ [Node k cs]))"
  proof -
    have "subtree_step defs tree k (Ret (forest_state ts)) = Ret r \<longleftrightarrow>
        (\<exists>ws cs. ts = ws @ cs \<and> kids_ok defs (kind_of tree k) (root_kinds tree cs) \<and> r = forest_state (ws @ [Node k cs]))"
      if "numbered ts" "length (posts_all ts) = k" for ts
      using subtree_step_iff [OF that(1), of tree defs k r] that(2) Suc.prems by auto
    then show ?thesis by blast
  qed
  also have "\<dots> \<longleftrightarrow> (\<exists>ws cs. numbered (ws @ [Node k cs]) \<and> length (posts_all (ws @ [Node k cs])) = Suc k \<and>
      (\<forall>t \<in> set (ws @ [Node k cs]). shaped defs (kind_of tree) t) \<and> r = forest_state (ws @ [Node k cs]))"
  proof -
    have "numbered (ws @ cs) \<and> length (posts_all (ws @ cs)) = k \<and> (\<forall>t \<in> set (ws @ cs). shaped defs (kind_of tree) t) \<and>
        kids_ok defs (kind_of tree k) (root_kinds tree cs) \<longleftrightarrow>
        numbered (ws @ [Node k cs]) \<and> length (posts_all (ws @ [Node k cs])) = Suc k \<and>
        (\<forall>t \<in> set (ws @ [Node k cs]). shaped defs (kind_of tree) t)" for ws cs
      unfolding numbered_snoc by auto
    then show ?thesis by (simp only: conj_assoc [symmetric])
  qed
  also have "\<dots> \<longleftrightarrow> (\<exists>ts. numbered ts \<and> length (posts_all ts) = Suc k \<and> (\<forall>t \<in> set ts. shaped defs (kind_of tree) t) \<and> r = forest_state ts)"
  proof -
    have ex: "\<exists>ws cs. ts = ws @ [Node k cs]" if ts: "numbered ts" "length (posts_all ts) = Suc k" for ts
    proof -
      have "ts \<noteq> []" using ts(2) by auto
      then obtain ws n cs where w: "ts = ws @ [Node n cs]" by (metis ntree.exhaust rev_exhaust)
      with ts(1) have "n = length (posts_all (ws @ cs))" by (simp add: numbered_snoc)
      then have "n = k" using ts(2) w by simp
      with w show ?thesis by blast
    qed
    show ?thesis
    proof
      assume "\<exists>ts. numbered ts \<and> length (posts_all ts) = Suc k \<and> (\<forall>t \<in> set ts. shaped defs (kind_of tree) t) \<and> r = forest_state ts"
      then obtain ts where ts: "numbered ts" "length (posts_all ts) = Suc k" "\<forall>t \<in> set ts. shaped defs (kind_of tree) t" "r = forest_state ts"
        by blast
      from ex [OF ts(1,2)] obtain ws cs where "ts = ws @ [Node k cs]" by blast
      with ts show "\<exists>ws cs. numbered (ws @ [Node k cs]) \<and> length (posts_all (ws @ [Node k cs])) = Suc k \<and>
          (\<forall>t \<in> set (ws @ [Node k cs]). shaped defs (kind_of tree) t) \<and> r = forest_state (ws @ [Node k cs])" by blast
    qed blast
  qed
  finally show ?case .
qed

end
