(* ===== verification/Parse_Walks.thy ===== *)
theory Parse_Walks
  imports Parse_Subtrees
begin

text \<open>
  The walks over the sizes of subtrees are the walks over the forest: the roots and the children of a node, the nodes of a subtree,
  the orders in which the tree is printed and the tokens of a subtree.
\<close>

section \<open>Positions\<close>

lemma numbered_pos: "numbered ts \<Longrightarrow> i < length (posts_all ts) \<Longrightarrow> label (posts_all ts ! i) = i"
proof -
  assume "numbered ts" and i: "i < length (posts_all ts)"
  then have "map label (posts_all ts) ! i = [0..<length (posts_all ts)] ! i" by (simp only: numbered_def)
  then show ?thesis using i by (simp only: nth_map nth_upt add_0)
qed

lemma tsize_pos: "0 < tsize t"
  by simp

lemma posts_last: "posts t ! (tsize t - 1) = t"
  by (subst (1) posts_kids) (simp add: tsize_kids)

lemma root_label:
  assumes "numbered ts" "posts_all ts = A @ posts t @ B"
  shows "Suc (label t) = length A + tsize t" "t \<in> set (posts_all ts)"
proof -
  let ?i = "length A + (tsize t - 1)"
  have pos: "0 < tsize t" by simp
  then have "posts_all ts ! ?i = t" unfolding assms(2) using posts_last [of t] by (simp add: nth_append)
  moreover have i: "?i < length (posts_all ts)" unfolding assms(2) using tsize_pos [of t] by (simp only: length_append)
  ultimately show "Suc (label t) = length A + tsize t" "t \<in> set (posts_all ts)"
    using numbered_pos [OF assms(1) i] nth_mem [OF i] pos by auto
qed

lemma subtree_closed:
  assumes "numbered ts" "t \<in> set (posts_all ts)"
  shows "set (posts t) \<subseteq> set (posts_all ts)" "set (kids t) \<subseteq> set (posts_all ts)"
proof -
  obtain pre suf where s: "posts_all ts = pre @ posts t @ suf" by (rule numbered_slice [OF assms])
  show p: "set (posts t) \<subseteq> set (posts_all ts)" unfolding s by auto
  have "set (kids t) \<subseteq> set (posts t)" using posts_self by (subst posts_kids) auto
  with p show "set (kids t) \<subseteq> set (posts_all ts)" by blast
qed

lemma size_at:
  assumes "numbered ts" "t \<in> set (posts_all ts)"
  shows "store_get (map tsize (posts_all ts)) (label t) = Ret (tsize t)"
  using numbered_nth [OF assms] by (simp add: store_get_def)

section \<open>The sizes\<close>

lemma check_roots_ok:
  assumes "numbered ts"
  shows "posts_all ts = posts_all us @ posts_all vs \<Longrightarrow>
    check_roots (map tsize (posts_all ts)) (int (length (posts_all us)) - 1) (map label vs) = Ret ()"
proof (induction vs arbitrary: us)
  case (Cons v vs)
  have p: "posts_all ts = posts_all us @ posts v @ posts_all vs" using Cons.prems by simp
  note r = root_label [OF assms p]
  have "posts_all ts = posts_all (us @ [v]) @ posts_all vs" using p by simp
  from Cons.IH [OF this] have "check_roots (map tsize (posts_all ts)) (int (length (posts_all us) + tsize v) - 1) (map label vs) = Ret ()" by simp
  moreover have "int (length (posts_all us) + tsize v) - 1 = int (label v)" using r(1) by linarith
  ultimately have "check_roots (map tsize (posts_all ts)) (int (label v)) (map label vs) = Ret ()" by (simp only:)
  then show ?case using size_at [OF assms r(2)] r(1) by simp
qed simp

definition forest_of :: "'k node_table \<Rightarrow> ('k, 'a) Tree \<Rightarrow> ntree list \<Rightarrow> bool" where
  "forest_of defs tree ts \<longleftrightarrow> ts \<noteq> [] \<and> numbered ts \<and> length (posts_all ts) = tree_size tree \<and>
     (\<forall>t \<in> set ts. shaped defs (kind_of tree) t)"

lemma TreeAndSubtrees_init_iff:
  "TreeAndSubtrees_init defs tree = Ret sizes \<longleftrightarrow> (\<exists>ts. forest_of defs tree ts \<and> sizes = map tsize (posts_all ts))"
proof -
  let ?fold = "fold (subtree_step defs tree) (postorder tree) (Ret ([], []))"
  let ?rest = "\<lambda>(size_stack, sizes). case size_stack of [] \<Rightarrow> Fatal | newest # _ \<Rightarrow> carbon_check (int newest = int (tree_size tree) - 1)
           (bind_outcome (check_roots sizes (- 1) (rev size_stack)) (\<lambda>_. Ret sizes))"
  have rest: "?rest (forest_state ts) = Ret sizes \<longleftrightarrow> ts \<noteq> [] \<and> sizes = map tsize (posts_all ts)"
    if ts: "numbered ts" "length (posts_all ts) = tree_size tree" for ts
  proof (cases ts rule: rev_cases)
    case (snoc us t)
    have p: "posts_all ts = posts_all us @ posts t @ []" using snoc by simp
    have "int (label t) = int (tree_size tree) - 1" using root_label(1) [OF ts(1) p] ts(2) snoc by simp
    moreover have "check_roots (map tsize (posts_all ts)) (- 1) (map label ts) = Ret ()"
      using check_roots_ok [OF ts(1), of "[]" ts] by simp
    ultimately show ?thesis using snoc by (auto simp: forest_state_def)
  qed (simp add: forest_state_def)
  have "TreeAndSubtrees_init defs tree = Ret sizes \<longleftrightarrow> (\<exists>r. ?fold = Ret r \<and> ?rest r = Ret sizes)"
    unfolding TreeAndSubtrees_init_def by (rule bind_outcome_Ret_iff)
  also have "\<dots> \<longleftrightarrow> (\<exists>ts. numbered ts \<and> length (posts_all ts) = tree_size tree \<and> (\<forall>t \<in> set ts. shaped defs (kind_of tree) t) \<and>
      ?rest (forest_state ts) = Ret sizes)"
    unfolding postorder_def subtree_fold [OF order_refl] by blast
  also have "\<dots> \<longleftrightarrow> (\<exists>ts. forest_of defs tree ts \<and> sizes = map tsize (posts_all ts))"
    unfolding forest_of_def by (intro iff_exI) (use rest in blast)
  finally show ?thesis .
qed

section \<open>Siblings\<close>

lemma siblings_ok:
  assumes "numbered ts"
  shows "posts_all ts = A @ posts_all cs @ B \<Longrightarrow>
    siblings (map tsize (posts_all ts)) (int (length A + length (posts_all cs)) - 1) (int (length A) - 1) = Some (Ret (rev (map label cs)))"
proof (induction cs arbitrary: B rule: rev_induct)
  case Nil
  then show ?case by (simp add: siblings.simps)
next
  case (snoc c cs)
  have p: "posts_all ts = (A @ posts_all cs) @ posts c @ B" using snoc.prems by simp
  note r = root_label [OF assms p]
  have n: "int (length A + length (posts_all (cs @ [c]))) - 1 = int (label c)" using r(1) by simp
  have "posts_all ts = A @ posts_all cs @ (posts c @ B)" using p by simp
  note ih = snoc.IH [OF this]
  have ne: "int (label c) \<noteq> int (length A) - 1" using r(1) [unfolded length_append] tsize_pos [of c] by linarith
  have before: "int (label c) - int (tsize c) = int (length A + length (posts_all cs)) - 1" using r(1) by simp
  show ?case unfolding n
    using ne size_at [OF assms r(2)] ih by (subst siblings.simps) (simp add: before)
qed

lemma children_ok:
  assumes "numbered ts" "t \<in> set (posts_all ts)"
  shows "children (map tsize (posts_all ts)) (label t) = Some (Ret (rev (map label (kids t))))"
proof -
  obtain A B where s: "posts_all ts = A @ posts t @ B" "length A + tsize t = Suc (label t)" by (rule numbered_slice [OF assms])
  have p: "posts_all ts = A @ posts_all (kids t) @ (t # B)" using s(1) posts_kids [of t] by simp
  have e: "int (length A + length (posts_all (kids t))) - 1 = int (label t) - 1" "int (length A) - 1 = int (label t) - int (tsize t)"
    using s(2) tsize_kids [of t] by simp_all
  from siblings_ok [OF assms(1) p] show ?thesis unfolding e by (simp add: children_def size_at [OF assms])
qed

lemma roots_ok: "numbered ts \<Longrightarrow> roots (map tsize (posts_all ts)) = Some (Ret (rev (map label ts)))"
  using siblings_ok [of ts "[]" ts "[]"] by (simp add: roots_def)

lemma subtree_postorder_ok:
  assumes "numbered ts" "t \<in> set (posts_all ts)"
  shows "subtree_postorder (map tsize (posts_all ts)) (label t) = Ret (map label (posts t))"
proof -
  obtain A :: "ntree list" where s: "length A + tsize t = Suc (label t)" "map label (posts t) = [length A..<Suc (label t)]" by (rule numbered_slice [OF assms])
  have "int (label t) - int (tsize t) + 1 = int (length A)" using s(1) by simp
  moreover have "map nat [int a..int b] = [a..<Suc b]" for a b
    by (rule nth_equalityI) (auto simp: nth_upto simp del: upt_Suc)
  ultimately show ?thesis by (simp add: subtree_postorder_def size_at [OF assms] s(2))
qed

section \<open>Orders of printing\<close>

text \<open>The nodes of a tree in preorder with their depths, and the depths in postorder.\<close>

fun pres :: "nat \<Rightarrow> ntree \<Rightarrow> (nat \<times> nat) list" where
  "pres d (Node n cs) = (n, d) # concat (map (pres (Suc d)) cs)"

fun depths_of :: "nat \<Rightarrow> ntree \<Rightarrow> nat list" where
  "depths_of d (Node n cs) = concat (map (depths_of (Suc d)) cs) @ [d]"

lemma pres_kids: "pres d t = (label t, d) # concat (map (pres (Suc d)) (kids t))"
  by (cases t) simp

lemma depths_kids: "depths_of d t = concat (map (depths_of (Suc d)) (kids t)) @ [d]"
  by (cases t) simp

lemma preorder_loop_ok:
  assumes "numbered ts"
  shows "\<forall>x \<in> set items. fst x \<in> set (posts_all ts) \<Longrightarrow> sorted_wrt (\<lambda>x y. snd y \<le> snd x) items \<Longrightarrow>
    preorder_loop (map tsize (posts_all ts)) (map (\<lambda>(t, d). (label t, d)) items) = Some (Ret (concat (map (\<lambda>(t, d). pres d t) items)))"
proof (induction "sum_list (map (\<lambda>x. tsize (fst x)) items)" arbitrary: items rule: less_induct)
  case less
  show ?case
  proof (cases items)
    case Nil
    then show ?thesis by (simp add: preorder_loop.simps)
  next
    case (Cons x rest)
    obtain t d where x: "x = (t, d)" by force
    have t: "t \<in> set (posts_all ts)" using less.prems(1) Cons x by auto
    let ?sizes = "map tsize (posts_all ts)" and ?kids = "map (\<lambda>c. (c, Suc d)) (kids t)"
    let ?stack = "map (\<lambda>(t, d). (label t, d)) rest"
    have rest: "\<forall>x \<in> set rest. fst x \<in> set (posts_all ts)" "sorted_wrt (\<lambda>x y. snd y \<le> snd x) rest" "\<forall>y \<in> set rest. snd y \<le> d"
      using less.prems Cons x by auto
    show ?thesis
    proof (cases "kids t = []")
      case True
      then have "tsize t = 1" using tsize_kids [of t] by simp
      moreover have "\<not> (?stack \<noteq> [] \<and> d < snd (hd ?stack))" using rest(3) by (cases rest) auto
      moreover have "preorder_loop ?sizes ?stack = Some (Ret (concat (map (\<lambda>(t, d). pres d t) rest)))"
        by (rule less.hyps [OF _ rest(1,2)]) (use Cons x tsize_pos [of t] in simp)
      ultimately show ?thesis using Cons x size_at [OF assms t] pres_kids [of d t] True by (subst preorder_loop.simps) auto
    next
      case False
      have big: "1 < tsize t" using False tsize_kids [of t] by simp
      have "preorder_loop ?sizes (map (\<lambda>(t, d). (label t, d)) (?kids @ rest)) = Some (Ret (concat (map (\<lambda>(t, d). pres d t) (?kids @ rest))))"
      proof (rule less.hyps)
        show "sum_list (map (\<lambda>x. tsize (fst x)) (?kids @ rest)) < sum_list (map (\<lambda>x. tsize (fst x)) items)"
          using Cons x tsize_kids [of t] by (simp add: comp_def length_concat)
        show "\<forall>x \<in> set (?kids @ rest). fst x \<in> set (posts_all ts)" using rest(1) subtree_closed(2) [OF assms t] by (auto simp del: set_concat)
        show "sorted_wrt (\<lambda>x y. snd y \<le> snd x) (?kids @ rest)"
        proof -
          have "sorted_wrt (\<lambda>x y. snd y \<le> snd x) (map (\<lambda>c. (c, Suc d)) cs)" for cs :: "ntree list" by (induction cs) auto
          then show ?thesis using rest(2,3) by (auto simp: sorted_wrt_append le_SucI)
        qed
      qed
      moreover have "rev (map (\<lambda>c. (c, Suc d)) (rev (map label (kids t)))) @ ?stack = map (\<lambda>(t, d). (label t, d)) (?kids @ rest)"
        by (simp add: rev_map comp_def)
      ultimately show ?thesis using Cons x size_at [OF assms t] children_ok [OF assms t] pres_kids [of d t] big
        by (subst preorder_loop.simps) (simp add: comp_def)
    qed
  qed
qed

text \<open>A forest in which only the roots have their depths yet.\<close>

definition marked :: "(ntree \<times> nat) list \<Rightarrow> nat list" where
  "marked us = concat (map (\<lambda>(t, d). replicate (tsize t - 1) 0 @ [d]) us)"

lemma marked_length: "length (marked us) = length (posts_all (map fst us))"
  by (induction us) (auto simp: marked_def)

lemma mark_kids:
  assumes "numbered ts"
  shows "posts_all ts = A @ posts_all cs @ B \<Longrightarrow> length D = length A \<Longrightarrow>
    fold (\<lambda>c ds. ds[c := e]) (rev (map label cs)) (D @ replicate (length (posts_all cs)) 0 @ E) = D @ marked (map (\<lambda>c. (c, e)) cs) @ E"
proof (induction cs arbitrary: B E rule: rev_induct)
  case Nil
  then show ?case by (simp add: marked_def)
next
  case (snoc c cs)
  have p: "posts_all ts = (A @ posts_all cs) @ posts c @ B" using snoc.prems by simp
  note r = root_label(1) [OF assms p]
  have q: "posts_all ts = A @ posts_all cs @ (posts c @ B)" using p by simp
  obtain m where m: "tsize c = Suc m" using tsize_kids by blast
  have "replicate (length (posts_all (cs @ [c]))) 0 = replicate (length (posts_all cs)) 0 @ replicate (tsize c - 1) 0 @ [0 :: nat]"
    by (simp add: replicate_add m replicate_append_same)
  moreover have "label c = length D + (length (posts_all cs) + (tsize c - 1))" using r snoc.prems(2) m by simp
  ultimately have "(D @ replicate (length (posts_all (cs @ [c]))) 0 @ E)[label c := e] =
      D @ replicate (length (posts_all cs)) 0 @ (replicate (tsize c - 1) 0 @ [e] @ E)"
    by (simp add: list_update_append)
  then show ?case using snoc.IH [OF q snoc.prems(2), of "replicate (tsize c - 1) 0 @ [e] @ E"] by (simp add: marked_def)
qed

lemma depths_loop_ok:
  assumes "numbered ts"
  shows "posts_all ts = posts_all (map fst us) @ B \<Longrightarrow>
    depths_loop (map tsize (posts_all ts)) (rev [0..<length (posts_all (map fst us))]) (marked us @ D) =
      Some (Ret (concat (map (\<lambda>(t, d). depths_of d t) us) @ D))"
proof (induction "length (posts_all (map fst us))" arbitrary: us B D)
  case 0
  then have "us = []" by (cases us) auto
  then show ?case by (simp add: marked_def)
next
  case (Suc k)
  then obtain vs t d where us: "us = vs @ [(t, d)]" by (cases us rule: rev_cases) auto
  have p: "posts_all ts = posts_all (map fst vs) @ posts t @ B" using Suc.prems us by simp
  note r = root_label [OF assms p]
  have k: "label t = k" "k = length (posts_all (map fst vs)) + (tsize t - 1)" using r(1) Suc.hyps(2) us tsize_kids [of t] by simp_all
  have ts1: "tsize t - 1 = length (posts_all (kids t))" using tsize_kids [of t] by simp
  let ?ws = "vs @ map (\<lambda>c. (c, d + 1)) (kids t)"
  have q: "posts_all ts = posts_all (map fst vs) @ posts_all (kids t) @ (t # B)" using p posts_kids [of t] by simp
  have "(marked us @ D) ! k = d" using us k(2) marked_length [of vs] by (simp add: marked_def nth_append)
  moreover have "fold (\<lambda>c ds. ds[c := d + 1]) (rev (map label (kids t))) (marked us @ D) = marked ?ws @ d # D"
    using mark_kids [OF assms q, of "marked vs" "d + 1" "d # D"] marked_length [of vs] us ts1 by (simp add: marked_def)
  moreover have "depths_loop (map tsize (posts_all ts)) (rev [0..<k]) (marked ?ws @ d # D) =
      Some (Ret (concat (map (\<lambda>(t, d). depths_of d t) ?ws) @ d # D))"
  proof -
    have w: "k = length (posts_all (map fst ?ws))" "posts_all ts = posts_all (map fst ?ws) @ (t # B)"
      using k(2) ts1 q by (simp_all add: comp_def)
    from Suc.hyps(1) [OF w] show ?thesis by (simp only: w(1) [symmetric])
  qed
  ultimately show ?case unfolding Suc.hyps(2) [symmetric] using children_ok [OF assms r(2)] k(1) us depths_kids [of d t]
    by (simp add: comp_def)
qed

section \<open>Tokens\<close>

lemma extend_ranges_ok:
  assumes "\<forall>n \<in> set ns. n < tree_size tree" "lo \<le> hi"
  shows "extend_ranges tree ns (lo, hi) = Ret (Min (insert lo ((\<lambda>n. ni_token (tr_node_impls tree ! n)) ` set ns)),
    Max (insert hi ((\<lambda>n. ni_token (tr_node_impls tree ! n)) ` set ns)))"
  using assms
proof (induction ns arbitrary: lo hi)
  case (Cons n ns)
  let ?tok = "\<lambda>n. ni_token (tr_node_impls tree ! n)"
  have n: "node_token tree n = Ret (?tok n)" using Cons.prems(1) by (simp add: node_token_def store_get_def tree_size_def)
  have e: "extend_range (?tok n) (lo, hi) = (min lo (?tok n), max hi (?tok n))"
    using Cons.prems(2) by (auto simp: extend_range_def)
  have "min lo (?tok n) \<le> max hi (?tok n)" using Cons.prems(2) by auto
  from Cons.IH [OF _ this] Cons.prems(1) show ?case by (cases "ns = []") (simp_all add: n e min.assoc max.assoc)
qed simp

section \<open>One forest\<close>

lemma kid_labels:
  assumes "numbered ts" "t \<in> set (posts_all ts)" "c \<in> set (kids t)"
  shows "label c < label t"
proof -
  obtain A :: "ntree list" where s: "map label (posts t) = [length A..<Suc (label t)]" "length A + tsize t = Suc (label t)"
    by (rule numbered_slice [OF assms(1,2)])
  have "map label (posts_all (kids t)) = butlast (map label (posts t))" by (simp add: posts_kids [of t] map_butlast [symmetric])
  also have "\<dots> = [length A..<label t]" using s tsize_pos [of t] by (simp add: butlast_append upt_Suc)
  finally have "label ` set (posts_all (kids t)) = {length A..<label t}" by (metis list.set_map set_upt)
  moreover have "c \<in> set (posts_all (kids t))" using assms(3) posts_self by auto
  ultimately show ?thesis by (metis atLeastLessThan_iff imageI)
qed

lemma labelled:
  assumes "numbered ts" "set cs \<subseteq> set (posts_all ts)"
  shows "cs = map (\<lambda>i. posts_all ts ! i) (map label cs)"
  using assms(2) numbered_nth [OF assms(1)] by (intro nth_equalityI) (auto simp del: set_concat dest: nth_mem)

lemma forest_unique:
  assumes "numbered ts" "numbered us" "map tsize (posts_all ts) = map tsize (posts_all us)"
  shows "ts = us"
proof -
  let ?P = "posts_all ts" and ?Q = "posts_all us"
  have len: "length ?P = length ?Q" using arg_cong [OF assms(3), of length] by simp
  have same: "?P ! n = ?Q ! n" if "n < length ?P" for n
    using that
  proof (induction n rule: less_induct)
    case (less n)
    let ?t = "?P ! n" and ?u = "?Q ! n"
    have t: "?t \<in> set ?P" "label ?t = n" using less.prems numbered_pos [OF assms(1)] nth_mem by blast+
    have u: "?u \<in> set ?Q" "label ?u = n" using less.prems len numbered_pos [OF assms(2)] nth_mem by metis+
    have k: "map label (kids ?t) = map label (kids ?u)"
      using children_ok [OF assms(1) t(1)] children_ok [OF assms(2) u(1)] t(2) u(2) assms(3) by simp
    have "kids ?t = map (\<lambda>i. ?P ! i) (map label (kids ?t))" by (rule labelled [OF assms(1) subtree_closed(2) [OF assms(1) t(1)]])
    also have "\<dots> = map (\<lambda>i. ?Q ! i) (map label (kids ?t))"
    proof (rule map_cong [OF refl])
      fix i assume "i \<in> set (map label (kids ?t))"
      then have "i < n" using kid_labels [OF assms(1) t(1)] t(2) by auto
      then show "?P ! i = ?Q ! i" using less by simp
    qed
    also have "\<dots> = kids ?u" unfolding k by (rule labelled [OF assms(2) subtree_closed(2) [OF assms(2) u(1)], symmetric])
    finally show ?case using t(2) u(2) by (metis ntree.collapse)
  qed
  have r: "map label ts = map label us" using roots_ok [OF assms(1)] roots_ok [OF assms(2)] assms(3) by simp
  have sub: "set ws \<subseteq> set (posts_all ws)" for ws using posts_self by auto
  have "ts = map (\<lambda>i. ?P ! i) (map label ts)" by (rule labelled [OF assms(1) sub])
  also have "\<dots> = map (\<lambda>i. ?Q ! i) (map label ts)"
  proof (rule map_cong [OF refl])
    fix i assume "i \<in> set (map label ts)"
    then obtain t where "t \<in> set ts" "i = label t" by auto
    then have "i < length ?P" using numbered_nth [OF assms(1)] sub by blast
    then show "?P ! i = ?Q ! i" by (rule same)
  qed
  also have "\<dots> = us" unfolding r by (rule labelled [OF assms(2) sub, symmetric])
  finally show ?thesis .
qed

lemma forest_of_init:
  assumes "forest_of defs tree ts"
  shows "TreeAndSubtrees_init defs tree = Ret (map tsize (posts_all ts))" "numbered ts" "length (posts_all ts) = tree_size tree"
  using assms TreeAndSubtrees_init_iff by (auto simp: forest_of_def)

lemma subtree_token_range:
  assumes "numbered ts" "length (posts_all ts) = tree_size tree" "t \<in> set (posts_all ts)"
  defines "tokens \<equiv> (\<lambda>s. ni_token (tr_node_impls tree ! label s)) ` set (posts t)"
  shows "GetSubtreeTokenRange tree (map tsize (posts_all ts)) (label t) = Ret (Min tokens, Max tokens)"
proof -
  let ?tok = "\<lambda>n. ni_token (tr_node_impls tree ! n)"
  have lt: "label s < tree_size tree" if "s \<in> set (posts_all ts)" for s using numbered_nth [OF assms(1) that] assms(2) by simp
  have tok: "node_token tree (label t) = Ret (?tok (label t))"
    using lt [OF assms(3)] by (simp add: node_token_def store_get_def tree_size_def)
  have "\<forall>n \<in> set (map label (posts t)). n < tree_size tree" using lt subtree_closed(1) [OF assms(1,3)] by (auto simp del: set_concat)
  note e = extend_ranges_ok [OF this order_refl, of "?tok (label t)"]
  have img: "?tok ` set (map label (posts t)) = tokens" by (simp add: tokens_def image_image)
  have "?tok (label t) \<in> tokens" using posts_self by (auto simp: tokens_def)
  then have "insert (?tok (label t)) tokens = tokens" by blast
  then show ?thesis using e by (simp add: GetSubtreeTokenRange_def tok subtree_postorder_ok [OF assms(1,3)] img del: set_map)
qed

section \<open>An example\<close>

text \<open>The nodes of \<open>fn F();\<close> with the definitions of their kinds in \<open>typed_nodes.h\<close>, and their forest.\<close>

definition example_kinds :: "string node_table" where
  "example_kinds k =
     (if k = ''ExplicitParamList'' then \<lparr>nd_bracket = ''ExplicitParamListStart'', nd_child_count = - 1\<rparr>
      else if k = ''FunctionDecl'' then \<lparr>nd_bracket = ''FunctionIntroducer'', nd_child_count = - 1\<rparr>
      else \<lparr>nd_bracket = k, nd_child_count = 0\<rparr>)"

definition example_tree :: "'a TokenizedBuffer \<Rightarrow> (string, 'a) Tree" where
  "example_tree tokens =
     \<lparr>tr_node_impls = map (\<lambda>(k, n). \<lparr>ni_kind = k, ni_has_error = False, ni_token = n\<rparr>)
        [(''FileStart'', 0), (''FunctionIntroducer'', 1), (''IdentifierNameBeforeParams'', 2), (''ExplicitParamListStart'', 3),
         (''ExplicitParamList'', 4), (''FunctionDecl'', 5), (''FileEnd'', 6)],
      tr_tokens = tokens, tr_has_errors = False\<rparr>"

definition example_forest :: "ntree list" where
  "example_forest = [Node 0 [], Node 5 [Node 1 [], Node 2 [], Node 4 [Node 3 []]], Node 6 []]"

lemma example_forest_of: "forest_of example_kinds (example_tree tokens) example_forest"
  by (simp add: forest_of_def example_forest_def numbered_def tree_size_def example_tree_def kids_ok_def example_kinds_def
      has_child_count_def has_bracket_def upt_rec)

section \<open>Properties\<close>

text \<open>
  C32. The constructor of \<open>TreeAndSubtrees\<close> accepts exactly the lists of nodes that are the postorder of a
  forest in which every node has the children its kind asks for: as many as its child count, the first of its bracketing kind, or, without a
  count, a first child of the bracketing kind and no other of it. There is only one such forest, and
  the sizes are those of its subtrees; on any other list a check fails.
\<close>

theorem subtree_sizes_forest:
  "(TreeAndSubtrees_init defs tree = Ret sizes \<longleftrightarrow> (\<exists>!ts. forest_of defs tree ts \<and> sizes = map tsize (posts_all ts))) \<and>
   (TreeAndSubtrees_init defs tree = Fatal \<longleftrightarrow> (\<nexists>ts. forest_of defs tree ts))"
proof
  have "ts = us" if "forest_of defs tree ts" "forest_of defs tree us" "map tsize (posts_all ts) = map tsize (posts_all us)" for ts us
    using forest_unique that by (auto simp: forest_of_def)
  then show "TreeAndSubtrees_init defs tree = Ret sizes \<longleftrightarrow> (\<exists>!ts. forest_of defs tree ts \<and> sizes = map tsize (posts_all ts))"
    unfolding TreeAndSubtrees_init_iff by blast
  show "TreeAndSubtrees_init defs tree = Fatal \<longleftrightarrow> (\<nexists>ts. forest_of defs tree ts)"
    using TreeAndSubtrees_init_iff [of defs tree] by (cases "TreeAndSubtrees_init defs tree") auto
qed

theorem subtree_sizes_forest_witness:
  "\<forall>tokens :: unit TokenizedBuffer. TreeAndSubtrees_init example_kinds (example_tree tokens) = Ret [1, 1, 1, 1, 2, 5, 1]"
proof
  fix tokens :: "unit TokenizedBuffer"
  have e: "[1, 1, 1, 1, 2, 5, 1] = map tsize (posts_all example_forest)" by (simp add: example_forest_def)
  note f = example_forest_of [of tokens]
  have "\<exists>!ts. forest_of example_kinds (example_tree tokens) ts \<and> map tsize (posts_all example_forest) = map tsize (posts_all ts)"
    by (rule ex1I [of _ example_forest]) (use f forest_of_init(2) forest_unique in blast)+
  then show "TreeAndSubtrees_init example_kinds (example_tree tokens) = Ret [1, 1, 1, 1, 2, 5, 1]"
    unfolding e by (rule subtree_sizes_forest [THEN conjunct1, THEN iffD2])
qed

text \<open>
  C33. The walks over the sizes are the walks over the forest: the roots and the children of a node are given
  from the last to the first, the nodes of a subtree in postorder, and its range of tokens goes from the least to the greatest
  token of its nodes. None of the walks fails a check or runs on.
\<close>

theorem subtree_walks:
  assumes "forest_of defs tree ts" "t \<in> set (posts_all ts)"
  shows "\<exists>sizes. TreeAndSubtrees_init defs tree = Ret sizes \<and> roots sizes = Some (Ret (rev (map label ts))) \<and>
    children sizes (label t) = Some (Ret (rev (map label (kids t)))) \<and>
    subtree_postorder sizes (label t) = Ret (map label (posts t)) \<and>
    GetSubtreeTokenRange tree sizes (label t) =
      Ret (Min ((\<lambda>s. ni_token (tr_node_impls tree ! label s)) ` set (posts t)), Max ((\<lambda>s. ni_token (tr_node_impls tree ! label s)) ` set (posts t)))"
  using forest_of_init [OF assms(1)] roots_ok children_ok subtree_postorder_ok subtree_token_range assms(2) by blast

theorem subtree_walks_witness:
  "\<forall>tokens :: unit TokenizedBuffer. \<exists>sizes. TreeAndSubtrees_init example_kinds (example_tree tokens) = Ret sizes \<and> children sizes 5 = Some (Ret [4, 2, 1])"
proof
  fix tokens :: "unit TokenizedBuffer"
  have "Node 5 [Node 1 [], Node 2 [], Node 4 [Node 3 []]] \<in> set (posts_all example_forest)" by (simp add: example_forest_def)
  from subtree_walks [OF example_forest_of this] show "\<exists>sizes. TreeAndSubtrees_init example_kinds (example_tree tokens) = Ret sizes \<and>
      children sizes 5 = Some (Ret [4, 2, 1])" by auto
qed

text \<open>
  Printing visits the forest in the order it says: the preorder dump visits every node before its children and the children
  in order, with the depth of each, its check of the depths never fails, and the depths computed for the postorder
  dumps are those of the nodes.
\<close>

theorem dump_orders:
  assumes "forest_of defs tree ts"
  shows "\<exists>sizes. TreeAndSubtrees_init defs tree = Ret sizes \<and> preorder_nodes sizes = Some (Ret (concat (map (pres 0) ts))) \<and>
    postorder_depths sizes = Some (Ret (concat (map (depths_of 0) ts)))"
proof -
  note f = forest_of_init [OF assms]
  let ?sizes = "map tsize (posts_all ts)" and ?items = "map (\<lambda>t. (t, 0 :: nat)) ts"
  have "\<forall>x \<in> set ?items. fst x \<in> set (posts_all ts)" using posts_self by auto
  moreover have "sorted_wrt (\<lambda>x y. snd y \<le> snd x) (map (\<lambda>t. (t, 0 :: nat)) us)" for us :: "ntree list" by (induction us) auto
  ultimately have "preorder_loop ?sizes (map (\<lambda>(t, d). (label t, d)) ?items) = Some (Ret (concat (map (\<lambda>(t, d). pres d t) ?items)))"
    using preorder_loop_ok [OF f(2)] by blast
  moreover have "rev (map (\<lambda>n. (n, 0)) (rev (map label ts))) = map (\<lambda>(t, d). (label t, d)) ?items" by (simp add: rev_map comp_def)
  ultimately have visits: "preorder_nodes ?sizes = Some (Ret (concat (map (pres 0) ts)))"
    using roots_ok [OF f(2)] by (simp add: preorder_nodes_def comp_def)
  have "marked (map (\<lambda>t. (t, 0)) us) = replicate (length (posts_all us)) 0" for us :: "ntree list"
  proof (induction us)
    case (Cons u us)
    obtain m where "tsize u = Suc m" using tsize_kids by blast
    with Cons show ?case by (simp add: marked_def replicate_add replicate_append_same)
  qed (simp add: marked_def)
  then have "postorder_depths ?sizes = Some (Ret (concat (map (depths_of 0) ts)))"
    using depths_loop_ok [OF f(2), of ?items "[]" "[]"] by (simp add: postorder_depths_def comp_def)
  with f(1) visits show ?thesis by blast
qed

theorem dump_orders_witness:
  "\<forall>tokens :: unit TokenizedBuffer. \<exists>sizes. TreeAndSubtrees_init example_kinds (example_tree tokens) = Ret sizes \<and>
     preorder_nodes sizes = Some (Ret [(0, 0), (5, 0), (1, 1), (2, 1), (4, 1), (3, 2), (6, 0)]) \<and>
     postorder_depths sizes = Some (Ret [0, 1, 1, 2, 1, 0, 0])"
proof
  fix tokens :: "unit TokenizedBuffer"
  from dump_orders [OF example_forest_of [of tokens]] show "\<exists>sizes. TreeAndSubtrees_init example_kinds (example_tree tokens) = Ret sizes \<and>
      preorder_nodes sizes = Some (Ret [(0, 0), (5, 0), (1, 1), (2, 1), (4, 1), (3, 2), (6, 0)]) \<and>
      postorder_depths sizes = Some (Ret [0, 1, 1, 2, 1, 0, 0])"
    by (simp add: example_forest_def numeral_2_eq_2)
qed

end
