(* ===== verification/Parse_Context.thy ===== *)
theory Parse_Context
  imports Parse_Tree Precedence
begin

text \<open>
  The context the states of the parser share: \<open>toolchain/parse/context.cpp\<close> and \<open>context.h\<close>.

  A kind of node or state is its name. The record holds the nodes, deferred definitions and packaging of the tree being built, the
  tokens, the position in them and the position of the last token, the stacks of states and of unfinished deferred definitions, whose back is the head of
  the list, the state of packaging, and the diagnostics with the tokens they
  are at. An id that may be none is an option. \<open>None\<close> as a result is a loop that did not end.
\<close>

section \<open>State\<close>

datatype parse_diag =
    ExpectedCurlyBraceAfter TokenKind
  | ExpectedParenAfter TokenKind
  | ExpectedCloseSymbol TokenKind
  | BinaryOperatorRequiresWhitespace int
  | UnaryOperatorHasWhitespace bool
  | UnaryOperatorRequiresWhitespace bool
  | UnexpectedTokenAfterListElement TokenKind
  | ExpectedDeclSemi TokenKind
  | ExpectedDeclSemiOrDefinition TokenKind
  | ExpectedLibraryNameOrDefault
  | ExpectedLibraryName

datatype BindingContext = ExplicitParam | DeducedParam | CompileTimeEntityParam

datatype PackagingState = FileStart_state | InImports | AfterNonPackagingDecl | InImportsAfterNonPackagingDecl

record State =
  ps_kind :: string
  ps_has_error :: bool
  ps_in_var_pattern :: bool
  ps_in_unused_pattern :: bool
  ps_in_field_shorthand_pattern :: bool
  ps_binding_context :: BindingContext
  ps_ambient_precedence :: PrecedenceLevel
  ps_lhs_precedence :: PrecedenceLevel
  ps_token :: nat
  ps_subtree_start :: nat

record DeferredDefinition =
  df_start_id :: nat
  df_definition_id :: "nat option"
  df_next_definition_index :: "nat option"

record PackagingNames =
  pn_node_id :: "nat option"
  pn_package_id :: "32 word option"
  pn_library_id :: "32 word option"
  pn_inline_body_id :: "32 word option"
  pn_is_export :: bool

record PackagingDecl =
  pd_names :: PackagingNames
  pd_is_impl :: bool

record 'a Context =
  cx_nodes :: "string NodeImpl list"
  cx_tokens :: "'a TokenizedBuffer"
  cx_position :: nat
  cx_end :: nat
  cx_state_stack :: "State list"
  cx_deferred_definitions :: "DeferredDefinition list"
  cx_deferred_definition_stack :: "nat list"
  cx_packaging_decl :: "PackagingDecl option"
  cx_imports :: "PackagingNames list"
  cx_packaging_state :: PackagingState
  cx_first_non_packaging_token :: "nat option"
  cx_diags :: "parse_diag emitted"

definition Context_init :: "'a TokenizedBuffer \<Rightarrow> 'a Context outcome" where
  "Context_init tokens =
     carbon_check (0 \<noteq> tokens_end tokens)
       (let e = tokens_end tokens - 1 in
        bind_outcome (GetKind tokens e) (\<lambda>kind. carbon_check (kind = FileEnd)
          (Ret \<lparr>cx_nodes = [], cx_tokens = tokens, cx_position = 0, cx_end = e, cx_state_stack = [], cx_deferred_definitions = [],
             cx_deferred_definition_stack = [], cx_packaging_decl = None, cx_imports = [], cx_packaging_state = FileStart_state,
             cx_first_non_packaging_token = None, cx_diags = []\<rparr>)))"

definition emit_parse :: "nat \<Rightarrow> parse_diag \<Rightarrow> 'a Context \<Rightarrow> 'a Context" where
  "emit_parse token d cx = cx\<lparr>cx_diags := cx_diags cx @ [(token, d)]\<rparr>"

section \<open>Nodes\<close>

definition AddNode :: "string \<Rightarrow> nat \<Rightarrow> bool \<Rightarrow> 'a Context \<Rightarrow> 'a Context outcome" where
  "AddNode kind token has_error cx =
     carbon_check (has_error \<or> kind \<notin> {''InvalidParse'', ''InvalidParseStart'', ''InvalidParseSubtree''})
       (Ret (cx\<lparr>cx_nodes := cx_nodes cx @ [\<lparr>ni_kind = kind, ni_has_error = has_error, ni_token = token\<rparr>]\<rparr>))"

definition AddLeafNode :: "string \<Rightarrow> nat \<Rightarrow> bool \<Rightarrow> 'a Context \<Rightarrow> 'a Context outcome" where
  "AddLeafNode kind token has_error cx = AddNode kind token has_error cx"

definition AddInvalidParse :: "nat \<Rightarrow> 'a Context \<Rightarrow> 'a Context outcome" where
  "AddInvalidParse token cx = AddNode ''InvalidParse'' token True cx"

definition ReplacePlaceholderNode :: "nat \<Rightarrow> string \<Rightarrow> nat \<Rightarrow> bool \<Rightarrow> 'a Context \<Rightarrow> 'a Context outcome" where
  "ReplacePlaceholderNode position kind token has_error cx =
     carbon_check (kind \<notin> {''InvalidParse'', ''InvalidParseSubtree''}) (carbon_check (position < length (cx_nodes cx))
       (carbon_check (ni_kind (cx_nodes cx ! position) = ''Placeholder'')
         (Ret (cx\<lparr>cx_nodes := (cx_nodes cx)[position := \<lparr>ni_kind = kind, ni_has_error = has_error, ni_token = token\<rparr>]\<rparr>))))"

definition ReplaceIntroducerNode :: "nat \<Rightarrow> string \<Rightarrow> string \<Rightarrow> 'a Context \<Rightarrow> 'a Context outcome" where
  "ReplaceIntroducerNode position old_kind new_kind cx =
     carbon_check (position < length (cx_nodes cx))
       (carbon_check (ni_kind (cx_nodes cx ! position) = old_kind)
         (Ret (cx\<lparr>cx_nodes := (cx_nodes cx)[position := (cx_nodes cx ! position)\<lparr>ni_kind := new_kind\<rparr>]\<rparr>)))"

section \<open>Tokens\<close>

definition PositionKind :: "'a Context \<Rightarrow> TokenKind outcome" where
  "PositionKind cx = GetKind (cx_tokens cx) (cx_position cx)"

definition PositionIs :: "TokenKind \<Rightarrow> 'a Context \<Rightarrow> bool outcome" where
  "PositionIs kind cx = bind_outcome (PositionKind cx) (\<lambda>k. Ret (k = kind))"

definition Consume :: "'a Context \<Rightarrow> nat \<times> 'a Context" where
  "Consume cx = (cx_position cx, cx\<lparr>cx_position := cx_position cx + 1\<rparr>)"

definition ConsumeIf :: "TokenKind \<Rightarrow> 'a Context \<Rightarrow> (nat option \<times> 'a Context) outcome" where
  "ConsumeIf kind cx =
     bind_outcome (PositionIs kind cx) (\<lambda>b.
       Ret (if b then case Consume cx of (t, cx) \<Rightarrow> (Some t, cx) else (None, cx)))"

definition ConsumeChecked :: "TokenKind \<Rightarrow> 'a Context \<Rightarrow> (nat \<times> 'a Context) outcome" where
  "ConsumeChecked kind cx = bind_outcome (PositionIs kind cx) (\<lambda>b. carbon_check b (Ret (Consume cx)))"

definition ConsumeAndAddLeafNodeIf :: "TokenKind \<Rightarrow> string \<Rightarrow> 'a Context \<Rightarrow> (bool \<times> 'a Context) outcome" where
  "ConsumeAndAddLeafNodeIf token_kind nkind cx =
     bind_outcome (ConsumeIf token_kind cx) (\<lambda>(token, cx). case token of
        None \<Rightarrow> Ret (False, cx)
      | Some token \<Rightarrow> bind_outcome (AddLeafNode nkind token False cx) (\<lambda>cx. Ret (True, cx)))"

definition consume_and_add_open ::
    "TokenKind \<Rightarrow> (TokenKind \<Rightarrow> parse_diag) \<Rightarrow> nat \<Rightarrow> string \<Rightarrow> 'a Context \<Rightarrow> (nat option \<times> 'a Context) outcome" where
  "consume_and_add_open token_kind diag default_token start_kind cx =
     bind_outcome (ConsumeIf token_kind cx) (\<lambda>(opener, cx). case opener of
        Some token \<Rightarrow> bind_outcome (AddLeafNode start_kind token False cx) (\<lambda>cx. Ret (opener, cx))
      | None \<Rightarrow> bind_outcome (GetKind (cx_tokens cx) default_token) (\<lambda>default_kind.
          bind_outcome (AddLeafNode start_kind default_token True (emit_parse (cx_position cx) (diag default_kind) cx))
            (\<lambda>cx. Ret (None, cx))))"

definition ConsumeAndAddOpenCurlyBrace :: "nat \<Rightarrow> string \<Rightarrow> 'a Context \<Rightarrow> (nat option \<times> 'a Context) outcome" where
  "ConsumeAndAddOpenCurlyBrace = consume_and_add_open (Symbol OpenCurlyBrace) ExpectedCurlyBraceAfter"

definition ConsumeAndAddOpenParen :: "nat \<Rightarrow> string \<Rightarrow> 'a Context \<Rightarrow> (nat option \<times> 'a Context) outcome" where
  "ConsumeAndAddOpenParen = consume_and_add_open (Symbol OpenParen) ExpectedParenAfter"

section \<open>Skipping\<close>

definition SkipTo :: "int \<Rightarrow> 'a Context \<Rightarrow> 'a Context outcome" where
  "SkipTo t cx = carbon_check (int (cx_position cx) \<le> t) (carbon_check (t \<noteq> int (cx_end cx)) (Ret (cx\<lparr>cx_position := nat t\<rparr>)))"

partial_function (option) find_next :: "TokenKind list \<Rightarrow> 'a TokenizedBuffer \<Rightarrow> nat \<Rightarrow> nat option outcome option" where
  "find_next desired_kinds tokens new_position =
     (case GetKind tokens new_position of
        Fatal \<Rightarrow> Some Fatal
      | Ret kind \<Rightarrow>
          if kind \<in> set desired_kinds then Some (Ret (Some new_position))
          else if is_closing_symbol kind \<or> kind = FileEnd then Some (Ret None)
          else if is_opening_symbol kind
          then (case GetMatchedClosingToken tokens new_position of
                  Fatal \<Rightarrow> Some Fatal
                | Ret closer \<Rightarrow> find_next desired_kinds tokens (nat closer + 1))
          else find_next desired_kinds tokens (new_position + 1))"

definition FindNextOf :: "TokenKind list \<Rightarrow> 'a Context \<Rightarrow> nat option outcome option" where
  "FindNextOf desired_kinds cx = find_next desired_kinds (cx_tokens cx) (cx_position cx)"

definition SkipMatchingGroup :: "'a Context \<Rightarrow> (bool \<times> 'a Context) outcome" where
  "SkipMatchingGroup cx =
     bind_outcome (PositionKind cx) (\<lambda>kind.
       if \<not> is_opening_symbol kind then Ret (False, cx)
       else bind_outcome (GetMatchedClosingToken (cx_tokens cx) (cx_position cx)) (\<lambda>closer.
         bind_outcome (SkipTo closer cx) (\<lambda>cx. Ret (True, cx\<lparr>cx_position := cx_position cx + 1\<rparr>))))"

text \<open>The token before the position; there is none before the first.\<close>

definition token_before :: "'a Context \<Rightarrow> nat outcome" where
  "token_before cx = carbon_check (0 < cx_position cx) (Ret (cx_position cx - 1))"

definition indent_of :: "'a TokenizedBuffer \<Rightarrow> nat \<Rightarrow> nat outcome" where
  "indent_of tokens t = bind_outcome (GetLine tokens t) (GetIndentColumnNumber tokens)"

definition keep_scanning :: "'a TokenizedBuffer \<Rightarrow> nat \<Rightarrow> nat \<Rightarrow> bool outcome" where
  "keep_scanning tokens root_line_indent t =
     bind_outcome (indent_of tokens t) (\<lambda>indent. bind_outcome (GetColumnNumber tokens t) (\<lambda>column.
       Ret (indent < column \<or> root_line_indent < indent)))"

definition skip_done :: "'a Context \<Rightarrow> (nat \<times> 'a Context) outcome" where
  "skip_done cx = bind_outcome (token_before cx) (\<lambda>token. Ret (token, cx))"

text \<open>One turn of the loop before its condition: the result, or where scanning goes on.\<close>

definition skip_step :: "'a Context \<Rightarrow> ((nat \<times> 'a Context) + 'a Context) outcome" where
  "skip_step cx =
     bind_outcome (PositionIs (Symbol CloseCurlyBrace) cx) (\<lambda>close_curly.
       if close_curly then bind_outcome (skip_done cx) (\<lambda>r. Ret (Inl r))
       else bind_outcome (ConsumeIf (Symbol Semi) cx) (\<lambda>(semi, cx). case semi of
          Some semi \<Rightarrow> Ret (Inl (semi, cx))
        | None \<Rightarrow> bind_outcome (SkipMatchingGroup cx) (\<lambda>(skipped, cx).
            Ret (Inr (if skipped then cx else cx\<lparr>cx_position := cx_position cx + 1\<rparr>)))))"

partial_function (option) skip_loop :: "nat \<Rightarrow> 'a Context \<Rightarrow> (nat \<times> 'a Context) outcome option" where
  "skip_loop root_line_indent cx =
     (case skip_step cx of
        Fatal \<Rightarrow> Some Fatal
      | Ret turn \<Rightarrow>
          (case turn of
             Inl r \<Rightarrow> Some (Ret r)
           | Inr cx \<Rightarrow>
               if cx_position cx = cx_end cx then Some (skip_done cx)
               else (case keep_scanning (cx_tokens cx) root_line_indent (cx_position cx) of
                       Fatal \<Rightarrow> Some Fatal
                     | Ret again \<Rightarrow> if again then skip_loop root_line_indent cx else Some (skip_done cx))))"

definition SkipPastLikelyEnd :: "nat \<Rightarrow> 'a Context \<Rightarrow> (nat \<times> 'a Context) outcome option" where
  "SkipPastLikelyEnd skip_root cx =
     (if cx_position cx = cx_end cx then Some (skip_done cx)
      else case indent_of (cx_tokens cx) skip_root of
        Fatal \<Rightarrow> Some Fatal
      | Ret root_line_indent \<Rightarrow> skip_loop root_line_indent cx)"

section \<open>Operators\<close>

definition IsAssumedStartOfOperand :: "TokenKind \<Rightarrow> bool" where
  "IsAssumedStartOfOperand kind \<longleftrightarrow> kind \<in> {Symbol OpenParen, Identifier, IntLiteral, RealLiteral, StringLiteral}"

definition IsAssumedEndOfOperand :: "TokenKind \<Rightarrow> bool" where
  "IsAssumedEndOfOperand kind \<longleftrightarrow> kind \<in> {Symbol CloseParen, Symbol CloseCurlyBrace, Symbol CloseSquareBracket,
     Identifier, IntLiteral, RealLiteral, StringLiteral}"

definition IsPossibleStartOfOperand :: "TokenKind \<Rightarrow> bool" where
  "IsPossibleStartOfOperand kind \<longleftrightarrow> kind \<notin> {Symbol CloseParen, Symbol CloseCurlyBrace, Symbol CloseSquareBracket,
     Symbol Comma, Symbol Semi, Symbol Colon}"

definition IsLexicallyValidInfixOperator :: "'a Context \<Rightarrow> bool outcome" where
  "IsLexicallyValidInfixOperator cx =
     carbon_check (cx_position cx \<noteq> cx_end cx)
       (bind_outcome (HasLeadingWhitespace (cx_tokens cx) (cx_position cx)) (\<lambda>leading_space.
         bind_outcome (HasTrailingWhitespace (cx_tokens cx) (cx_position cx)) (\<lambda>trailing_space.
           if leading_space \<and> trailing_space then Ret True
           else if leading_space \<or> trailing_space then Ret False
           else if cx_position cx = 0 then Ret False
           else bind_outcome (GetKind (cx_tokens cx) (cx_position cx - 1)) (\<lambda>before.
             if \<not> IsAssumedEndOfOperand before then Ret False
             else bind_outcome (GetKind (cx_tokens cx) (cx_position cx + 1)) (\<lambda>after. Ret (IsAssumedStartOfOperand after))))))"

definition IsTrailingOperatorInfix :: "'a Context \<Rightarrow> bool outcome" where
  "IsTrailingOperatorInfix cx =
     (if cx_position cx = cx_end cx then Ret False
      else bind_outcome (IsLexicallyValidInfixOperator cx) (\<lambda>valid.
        bind_outcome (if valid then bind_outcome (GetKind (cx_tokens cx) (cx_position cx + 1)) (\<lambda>k. Ret (IsPossibleStartOfOperand k))
                      else Ret False) (\<lambda>infix_operator.
          if infix_operator then Ret True
          else bind_outcome (HasLeadingWhitespace (cx_tokens cx) (cx_position cx)) (\<lambda>leading_space.
            if leading_space then bind_outcome (GetKind (cx_tokens cx) (cx_position cx + 1)) (\<lambda>k. Ret (IsAssumedStartOfOperand k))
            else Ret False))))"

datatype OperatorFixity = Prefix | Infix | Postfix

definition DiagnoseOperatorFixity :: "OperatorFixity \<Rightarrow> 'a Context \<Rightarrow> 'a Context outcome" where
  "DiagnoseOperatorFixity fixity cx =
     (let tokens = cx_tokens cx; p = cx_position cx; is_prefix = (fixity = Prefix) in
      bind_outcome (PositionKind cx) (\<lambda>kind.
        if \<not> is_symbol kind then Ret cx
        else if fixity = Infix
        then bind_outcome (IsLexicallyValidInfixOperator cx) (\<lambda>valid.
               if valid then Ret cx
               else bind_outcome (HasLeadingWhitespace tokens p) (\<lambda>leading.
                 bind_outcome (HasTrailingWhitespace tokens p) (\<lambda>trailing.
                   Ret (emit_parse p (BinaryOperatorRequiresWhitespace (if leading then 1 else if trailing then - 1 else 0)) cx))))
        else bind_outcome (if is_prefix then HasTrailingWhitespace tokens p else HasLeadingWhitespace tokens p) (\<lambda>space.
          if space then Ret (emit_parse p (UnaryOperatorHasWhitespace is_prefix) cx)
          else bind_outcome (IsLexicallyValidInfixOperator cx) (\<lambda>valid.
            Ret (if valid then emit_parse p (UnaryOperatorRequiresWhitespace is_prefix) cx else cx)))))"

section \<open>Lists, closing symbols and declarations\<close>

datatype ListTokenKind = Comma_list | Close_list | CommaClose_list

definition ReturnErrorOnState :: "'a Context \<Rightarrow> 'a Context outcome" where
  "ReturnErrorOnState cx =
     (case cx_state_stack cx of
        [] \<Rightarrow> Fatal
      | state # states \<Rightarrow> Ret (cx\<lparr>cx_state_stack := state\<lparr>ps_has_error := True\<rparr> # states\<rparr>))"

definition PopState :: "'a Context \<Rightarrow> (State \<times> 'a Context) outcome" where
  "PopState cx =
     (case cx_state_stack cx of [] \<Rightarrow> Fatal | state # states \<Rightarrow> Ret (state, cx\<lparr>cx_state_stack := states\<rparr>))"

definition PopAndDiscardState :: "'a Context \<Rightarrow> 'a Context outcome" where
  "PopAndDiscardState cx = (case cx_state_stack cx of [] \<Rightarrow> Fatal | state # states \<Rightarrow> Ret (cx\<lparr>cx_state_stack := states\<rparr>))"

definition PushState :: "State \<Rightarrow> 'a Context \<Rightarrow> 'a Context outcome" where
  "PushState state cx =
     (let states = state # cx_state_stack cx in carbon_check (length states < 2 ^ 20) (Ret (cx\<lparr>cx_state_stack := states\<rparr>)))"

definition PushState_as :: "State \<Rightarrow> string \<Rightarrow> 'a Context \<Rightarrow> 'a Context outcome" where
  "PushState_as state kind cx = PushState (state\<lparr>ps_kind := kind\<rparr>) cx"

text \<open>A state with the defaults of its fields.\<close>

definition state_of :: "string \<Rightarrow> nat \<Rightarrow> 'a Context \<Rightarrow> State" where
  "state_of kind token cx =
     \<lparr>ps_kind = kind, ps_has_error = False, ps_in_var_pattern = False, ps_in_unused_pattern = False,
      ps_in_field_shorthand_pattern = False, ps_binding_context = ExplicitParam, ps_ambient_precedence = ForTopLevelExpr,
      ps_lhs_precedence = ForTopLevelExpr, ps_token = token, ps_subtree_start = length (cx_nodes cx)\<rparr>"

definition PushState_token :: "string \<Rightarrow> nat \<Rightarrow> 'a Context \<Rightarrow> 'a Context outcome" where
  "PushState_token kind token cx = PushState (state_of kind token cx) cx"

definition PushState_here :: "string \<Rightarrow> 'a Context \<Rightarrow> 'a Context outcome" where
  "PushState_here kind cx = PushState_token kind (cx_position cx) cx"

definition PushState_binding :: "string \<Rightarrow> nat \<Rightarrow> BindingContext \<Rightarrow> 'a Context \<Rightarrow> 'a Context outcome" where
  "PushState_binding kind token binding_context cx =
     PushState ((state_of kind token cx)\<lparr>ps_binding_context := binding_context\<rparr>) cx"

definition PushStateForExpr :: "PrecedenceLevel \<Rightarrow> 'a Context \<Rightarrow> 'a Context outcome" where
  "PushStateForExpr ambient_precedence cx =
     PushState ((state_of ''Expr'' (cx_position cx) cx)\<lparr>ps_ambient_precedence := ambient_precedence\<rparr>) cx"

definition PushStateForExprLoop :: "string \<Rightarrow> PrecedenceLevel \<Rightarrow> PrecedenceLevel \<Rightarrow> 'a Context \<Rightarrow> 'a Context outcome" where
  "PushStateForExprLoop kind ambient_precedence lhs_precedence cx =
     PushState ((state_of kind (cx_position cx) cx)
       \<lparr>ps_ambient_precedence := ambient_precedence, ps_lhs_precedence := lhs_precedence\<rparr>) cx"

definition PushStateForPattern ::
    "string \<Rightarrow> bool \<Rightarrow> bool \<Rightarrow> bool \<Rightarrow> BindingContext \<Rightarrow> PrecedenceLevel \<Rightarrow> 'a Context \<Rightarrow> 'a Context outcome" where
  "PushStateForPattern kind in_var_pattern in_unused_pattern in_field_shorthand_pattern binding_context precedence cx =
     PushState ((state_of kind (cx_position cx) cx)
       \<lparr>ps_in_var_pattern := in_var_pattern, ps_in_unused_pattern := in_unused_pattern,
        ps_in_field_shorthand_pattern := in_field_shorthand_pattern, ps_binding_context := binding_context,
        ps_ambient_precedence := precedence\<rparr>) cx"

text \<open>A list element that does not end in a comma or the closing symbol is skipped.\<close>

definition recover_list_element :: "TokenKind \<Rightarrow> bool \<Rightarrow> 'a Context \<Rightarrow> 'a Context outcome option" where
  "recover_list_element close_kind already_has_error cx =
     (case (if already_has_error then Ret cx
            else ReturnErrorOnState (emit_parse (cx_position cx) (UnexpectedTokenAfterListElement close_kind) cx)) of
        Fatal \<Rightarrow> Some Fatal
      | Ret cx \<Rightarrow>
          (case FindNextOf [Symbol Comma, close_kind] cx of
             None \<Rightarrow> None
           | Some Fatal \<Rightarrow> Some Fatal
           | Some (Ret None) \<Rightarrow> Some Fatal
           | Some (Ret (Some end_of_element)) \<Rightarrow> Some (SkipTo (int end_of_element) cx)))"

definition take_list_token :: "string \<Rightarrow> TokenKind \<Rightarrow> 'a Context \<Rightarrow> (ListTokenKind \<times> 'a Context) outcome" where
  "take_list_token comma_kind close_kind cx =
     bind_outcome (PositionIs close_kind cx) (\<lambda>at_close.
       if at_close then Ret (Close_list, cx)
       else case Consume cx of (token, cx) \<Rightarrow>
         bind_outcome (AddLeafNode comma_kind token (comma_kind = ''InvalidParse'') cx) (\<lambda>cx.
           bind_outcome (PositionIs close_kind cx) (\<lambda>at_close. Ret (if at_close then CommaClose_list else Comma_list, cx))))"

definition ConsumeListToken :: "string \<Rightarrow> TokenKind \<Rightarrow> bool \<Rightarrow> 'a Context \<Rightarrow> (ListTokenKind \<times> 'a Context) outcome option" where
  "ConsumeListToken comma_kind close_kind already_has_error cx =
     (case PositionKind cx of
        Fatal \<Rightarrow> Some Fatal
      | Ret kind \<Rightarrow>
          if kind \<noteq> Symbol Comma \<and> kind \<noteq> close_kind
          then map_option (\<lambda>r. bind_outcome r (take_list_token comma_kind close_kind)) (recover_list_element close_kind already_has_error cx)
          else Some (take_list_token comma_kind close_kind cx))"

definition ConsumeAndAddCloseSymbol :: "State \<Rightarrow> string \<Rightarrow> 'a Context \<Rightarrow> 'a Context outcome" where
  "ConsumeAndAddCloseSymbol state close_kind cx =
     bind_outcome (GetKind (cx_tokens cx) (ps_token state)) (\<lambda>open_token_kind.
       if \<not> is_opening_symbol open_token_kind then AddNode close_kind (ps_token state) True cx
       else bind_outcome (closing_symbol open_token_kind) (\<lambda>closing_kind.
         bind_outcome (ConsumeIf closing_kind cx) (\<lambda>(close_token, cx). case close_token of
            Some close_token \<Rightarrow> AddNode close_kind close_token (ps_has_error state) cx
          | None \<Rightarrow>
              bind_outcome (GetMatchedClosingToken (cx_tokens cx) (ps_token state)) (\<lambda>closer.
                bind_outcome (SkipTo closer (emit_parse (cx_position cx) (ExpectedCloseSymbol closing_kind) cx)) (\<lambda>cx.
                  case Consume cx of (token, cx) \<Rightarrow> AddNode close_kind token True cx)))))"

definition RecoverFromDeclError :: "State \<Rightarrow> string \<Rightarrow> bool \<Rightarrow> 'a Context \<Rightarrow> 'a Context outcome option" where
  "RecoverFromDeclError state nkind skip_past_likely_end cx =
     (if skip_past_likely_end
      then map_option (\<lambda>r. bind_outcome r (\<lambda>(token, cx). AddNode nkind token True cx)) (SkipPastLikelyEnd (ps_token state) cx)
      else Some (AddNode nkind (ps_token state) True cx))"

definition AddNodeExpectingDeclSemi :: "State \<Rightarrow> string \<Rightarrow> TokenKind \<Rightarrow> bool \<Rightarrow> 'a Context \<Rightarrow> 'a Context outcome option" where
  "AddNodeExpectingDeclSemi state nkind decl_kind is_def_allowed cx =
     (if ps_has_error state then RecoverFromDeclError state nkind True cx
      else case ConsumeIf (Symbol Semi) cx of
        Fatal \<Rightarrow> Some Fatal
      | Ret (Some semi, cx) \<Rightarrow> Some (AddNode nkind semi False cx)
      | Ret (None, cx) \<Rightarrow>
          RecoverFromDeclError state nkind True
            (emit_parse (cx_position cx) (if is_def_allowed then ExpectedDeclSemiOrDefinition decl_kind else ExpectedDeclSemi decl_kind) cx))"

text \<open>The name of a library: its string id, \<open>None\<close> within for the default library.\<close>

definition ParseLibraryName :: "bool \<Rightarrow> 'a Context \<Rightarrow> (32 word option option \<times> 'a Context) outcome" where
  "ParseLibraryName accept_default cx =
     bind_outcome (ConsumeIf StringLiteral cx) (\<lambda>(name, cx). case name of
        Some name \<Rightarrow> bind_outcome (AddLeafNode ''LibraryName'' name False cx) (\<lambda>cx.
          bind_outcome (GetStringLiteralValue (cx_tokens cx) name) (\<lambda>id. Ret (Some (Some id), cx)))
      | None \<Rightarrow>
          bind_outcome (if accept_default then ConsumeIf (Keyword Default_kw) cx else Ret (None, cx)) (\<lambda>(default, cx). case default of
             Some token \<Rightarrow> bind_outcome (AddLeafNode ''DefaultLibrary'' token False cx) (\<lambda>cx. Ret (Some None, cx))
           | None \<Rightarrow> Ret (None, emit_parse (cx_position cx)
               (if accept_default then ExpectedLibraryNameOrDefault else ExpectedLibraryName) cx)))"

definition ParseLibrarySpecifier :: "bool \<Rightarrow> 'a Context \<Rightarrow> (32 word option option \<times> 'a Context) outcome" where
  "ParseLibrarySpecifier accept_default cx =
     bind_outcome (ConsumeChecked (Keyword Library_kw) cx) (\<lambda>(library_token, cx).
       bind_outcome (ParseLibraryName accept_default cx) (\<lambda>(library_id, cx).
         bind_outcome (if library_id = None then AddLeafNode ''LibraryName'' (cx_position cx) True cx else Ret cx) (\<lambda>cx.
           bind_outcome (AddNode ''LibrarySpecifier'' library_token False cx) (\<lambda>cx. Ret (library_id, cx)))))"

section \<open>Packaging and deferred definitions\<close>

definition set_packaging_decl :: "PackagingNames \<Rightarrow> bool \<Rightarrow> 'a Context \<Rightarrow> 'a Context outcome" where
  "set_packaging_decl packaging_names is_impl cx =
     carbon_check (cx_packaging_decl cx = None) (Ret (cx\<lparr>cx_packaging_decl := Some \<lparr>pd_names = packaging_names, pd_is_impl = is_impl\<rparr>\<rparr>))"

definition AddImport :: "PackagingNames \<Rightarrow> 'a Context \<Rightarrow> 'a Context" where
  "AddImport package cx = cx\<lparr>cx_imports := cx_imports cx @ [package]\<rparr>"

definition set_packaging_state :: "PackagingState \<Rightarrow> 'a Context \<Rightarrow> 'a Context" where
  "set_packaging_state packaging_state cx = cx\<lparr>cx_packaging_state := packaging_state\<rparr>"

definition set_first_non_packaging_token :: "nat \<Rightarrow> 'a Context \<Rightarrow> 'a Context outcome" where
  "set_first_non_packaging_token token cx =
     carbon_check (cx_first_non_packaging_token cx = None) (Ret (cx\<lparr>cx_first_non_packaging_token := Some token\<rparr>))"

definition ParsingInDeferredDefinitionScope :: "'a Context \<Rightarrow> bool" where
  "ParsingInDeferredDefinitionScope cx \<longleftrightarrow>
     (case cx_state_stack cx of
        top_state # below # states \<Rightarrow>
          ps_kind top_state \<in> {''DeclScopeLoopAsClass'', ''DeclScopeLoopAsInterface'', ''DeclScopeLoopAsRegular'', ''DeclScopeLoopAsUnion''} \<and>
          ps_kind below \<in> {''DeclDefinitionFinishAsClass'', ''DeclDefinitionFinishAsImpl'', ''DeclDefinitionFinishAsInterface'',
            ''DeclDefinitionFinishAsNamedConstraint'', ''DeclDefinitionFinishAsUnion''}
      | _ \<Rightarrow> False)"

definition AddFunctionDefinitionStart :: "nat \<Rightarrow> bool \<Rightarrow> 'a Context \<Rightarrow> 'a Context outcome" where
  "AddFunctionDefinitionStart token has_error cx =
     bind_outcome (AddNode ''FunctionDefinitionStart'' token has_error cx) (\<lambda>cx.
       let start_id = length (cx_nodes cx) - 1 in
       Ret (if ParsingInDeferredDefinitionScope cx
            then cx\<lparr>cx_deferred_definition_stack := length (cx_deferred_definitions cx) # cx_deferred_definition_stack cx,
                    cx_deferred_definitions := cx_deferred_definitions cx @
                      [\<lparr>df_start_id = start_id, df_definition_id = None, df_next_definition_index = None\<rparr>]\<rparr>
            else cx))"

text \<open>\<open>AddFunctionDefinition\<close> and \<open>AddFunctionTerseDefinition\<close> differ in the kind of the node only.\<close>

definition add_definition :: "string \<Rightarrow> nat \<Rightarrow> bool \<Rightarrow> 'a Context \<Rightarrow> 'a Context outcome" where
  "add_definition kind token has_error cx =
     bind_outcome (AddNode kind token has_error cx) (\<lambda>cx.
       let definition_id = length (cx_nodes cx) - 1 in
       if ParsingInDeferredDefinitionScope cx
       then case cx_deferred_definition_stack cx of
            [] \<Rightarrow> Fatal
          | definition_index # indexes \<Rightarrow>
              bind_outcome (store_get (cx_deferred_definitions cx) definition_index) (\<lambda>d.
                Ret (cx\<lparr>cx_deferred_definition_stack := indexes,
                        cx_deferred_definitions := (cx_deferred_definitions cx)[definition_index :=
                          d\<lparr>df_definition_id := Some definition_id,
                            df_next_definition_index := Some (length (cx_deferred_definitions cx))\<rparr>]\<rparr>))
       else Ret cx)"

definition AddFunctionDefinition :: "nat \<Rightarrow> bool \<Rightarrow> 'a Context \<Rightarrow> 'a Context outcome" where
  "AddFunctionDefinition = add_definition ''FunctionDefinition''"

definition AddFunctionTerseDefinition :: "nat \<Rightarrow> bool \<Rightarrow> 'a Context \<Rightarrow> 'a Context outcome" where
  "AddFunctionTerseDefinition = add_definition ''FunctionTerseDefinition''"

end
