(* ===== verification/Lexer_Recovery.thy ===== *)
theory Lexer_Recovery
  imports Lexer Bracket_Search "HOL-Library.Product_Lexorder"
begin

text \<open>
  Recovery from mismatched brackets and the end of lexing: the rest of \<open>toolchain/lex/lex.cpp\<close>, from \<open>Lexer::Finalize\<close> on.

  The class \<open>ErrorRecoveryBuffer\<close> is the record of its members; its methods take and return the buffer it points to where they
  change it. A \<open>TokenIndex\<close> is an \<open>int\<close>, and positions in the source are byte offsets. \<open>None\<close> as the result of the recovery
  is that the search for corrections did not return, which theory \<open>Bracket_Fix\<close> excludes.
\<close>

section \<open>The recovery buffer\<close>

record Insertion =
  in_anchor :: int
  in_is_after :: bool
  in_insertion_order :: nat
  in_info :: TokenInfo

record ErrorRecoveryBuffer =
  er_insertions :: "Insertion list"
  er_any_error_tokens :: bool
  er_inserted_token_index :: "int list"
  er_new_token_index :: "int list"

definition ErrorRecoveryBuffer_init :: ErrorRecoveryBuffer where
  "ErrorRecoveryBuffer_init =
     \<lparr>er_insertions = [], er_any_error_tokens = False, er_inserted_token_index = [], er_new_token_index = []\<rparr>"

definition Recovery_empty :: "ErrorRecoveryBuffer \<Rightarrow> bool" where
  "Recovery_empty er \<longleftrightarrow> er_insertions er = [] \<and> \<not> er_any_error_tokens er"

definition get_token :: "'a TokenizedBuffer \<Rightarrow> int \<Rightarrow> TokenInfo outcome" where
  "get_token tb token = carbon_check (0 \<le> token) (store_get (tb_token_infos tb) (nat token))"

definition get_text :: "'a lex_env \<Rightarrow> 'a TokenizedBuffer \<Rightarrow> int \<Rightarrow> string outcome" where
  "get_text env tb token = bind_outcome (get_token tb token) (info_text env tb)"

text \<open>The token an insertion goes before, and the order in which insertions are made.\<close>

definition target :: "Insertion \<Rightarrow> int" where
  "target ins = (if in_is_after ins then in_anchor ins + 1 else in_anchor ins)"

abbreviation in_is_closing :: "Insertion \<Rightarrow> bool" where
  "in_is_closing ins \<equiv> is_closing_symbol (ti_kind (in_info ins))"

definition Insertion_less :: "Insertion \<Rightarrow> Insertion \<Rightarrow> bool" where
  "Insertion_less lhs rhs =
     (if target lhs \<noteq> target rhs then target lhs < target rhs
      else if in_is_after lhs \<noteq> in_is_after rhs then in_is_after lhs
      else if in_is_closing lhs \<noteq> in_is_closing rhs then in_is_closing lhs
      else if in_is_after lhs then in_insertion_order lhs < in_insertion_order rhs
      else in_insertion_order rhs < in_insertion_order lhs)"

definition AddInsertion ::
    "'a lex_env \<Rightarrow> 'a TokenizedBuffer \<Rightarrow> int \<Rightarrow> TokenKind \<Rightarrow> bool \<Rightarrow> ErrorRecoveryBuffer \<Rightarrow>
     (nat \<times> ErrorRecoveryBuffer) outcome" where
  "AddInsertion env tb anchor kind is_after er =
     carbon_check (0 \<le> anchor) (carbon_check (anchor < int (length (tb_token_infos tb)))
       (carbon_check (\<not> is_after \<longrightarrow> 0 < anchor)
         (bind_outcome
           (if \<not> is_after
            then bind_outcome (get_token tb anchor) (\<lambda>info.
                   bind_outcome (get_token tb (anchor - 1)) (\<lambda>prev_info.
                     bind_outcome (get_text env tb (anchor - 1)) (\<lambda>prev_text.
                       Ret (ti_has_leading_space info, ti_byte_offset prev_info + length prev_text))))
            else bind_outcome (get_token tb anchor) (\<lambda>anchor_info.
                   bind_outcome (get_text env tb anchor) (\<lambda>anchor_text.
                     bind_outcome (if anchor + 1 < int (length (tb_token_infos tb))
                         then bind_outcome (get_token tb (anchor + 1)) (\<lambda>info. Ret (ti_has_leading_space info)) else Ret False)
                       (\<lambda>insert_leading_space. Ret (insert_leading_space, ti_byte_offset anchor_info + length anchor_text)))))
           (\<lambda>(insert_leading_space, byte_offset).
              let insertion_order = length (er_insertions er) in
              Ret (insertion_order, er\<lparr>er_insertions := er_insertions er @
                [\<lparr>in_anchor = anchor, in_is_after = is_after, in_insertion_order = insertion_order,
                  in_info = TokenInfo_plain kind insert_leading_space byte_offset\<rparr>]\<rparr>)))))"

definition Recovery_InsertBefore ::
    "'a lex_env \<Rightarrow> 'a TokenizedBuffer \<Rightarrow> int \<Rightarrow> TokenKind \<Rightarrow> ErrorRecoveryBuffer \<Rightarrow> (nat \<times> ErrorRecoveryBuffer) outcome" where
  "Recovery_InsertBefore env tb insert_before kind er = AddInsertion env tb insert_before kind False er"

definition Recovery_InsertAfter ::
    "'a lex_env \<Rightarrow> 'a TokenizedBuffer \<Rightarrow> int \<Rightarrow> TokenKind \<Rightarrow> ErrorRecoveryBuffer \<Rightarrow> (nat \<times> ErrorRecoveryBuffer) outcome" where
  "Recovery_InsertAfter env tb insert_after kind er = AddInsertion env tb insert_after kind True er"

definition Recovery_ReplaceWithError ::
    "'a lex_env \<Rightarrow> int \<Rightarrow> ErrorRecoveryBuffer \<Rightarrow> 'a TokenizedBuffer \<Rightarrow> (ErrorRecoveryBuffer \<times> 'a TokenizedBuffer) outcome" where
  "Recovery_ReplaceWithError env token er tb =
     bind_outcome (get_token tb token) (\<lambda>token_info.
       bind_outcome (get_text env tb token) (\<lambda>token_text.
         Ret (er\<lparr>er_any_error_tokens := True\<rparr>,
              tb\<lparr>tb_token_infos := (tb_token_infos tb)[nat token := AsError (length token_text) token_info]\<rparr>)))"

section \<open>Merging the insertions\<close>

text \<open>The key sorts as \<open>operator<\<close> does, which \<open>Insertion_less_key\<close> shows.\<close>

definition insertion_key :: "Insertion \<Rightarrow> int \<times> bool \<times> bool \<times> int" where
  "insertion_key ins = (target ins, \<not> in_is_after ins, \<not> in_is_closing ins,
     if in_is_after ins then int (in_insertion_order ins) else - int (in_insertion_order ins))"

text \<open>The run of insertions before one old token; the first takes over the token's leading space.\<close>

fun apply_run ::
    "int \<Rightarrow> bool \<Rightarrow> Insertion list \<Rightarrow> int list \<Rightarrow> 'a TokenizedBuffer \<Rightarrow> Insertion list \<times> int list \<times> 'a TokenizedBuffer" where
  "apply_run old_idx leading_space [] inserted tb = ([], inserted, tb)"
| "apply_run old_idx leading_space (ins # insertions) inserted tb =
     (if target ins \<noteq> old_idx then (ins # insertions, inserted, tb)
      else case AddToken (WithLeadingSpace leading_space (in_info ins)) tb of (added, tb) \<Rightarrow>
        apply_run old_idx False insertions (inserted[in_insertion_order ins := int added])
          (tb\<lparr>tb_recovery_tokens := (tb_recovery_tokens tb)[added := True]\<rparr>))"

definition add_old :: "TokenInfo \<Rightarrow> 'a TokenizedBuffer \<Rightarrow> 'a TokenizedBuffer" where
  "add_old info tb = tb\<lparr>tb_token_infos := tb_token_infos tb @ [info]\<rparr>"

fun apply_loop ::
    "nat \<Rightarrow> TokenInfo list \<Rightarrow> Insertion list \<Rightarrow> int list \<Rightarrow> int list \<Rightarrow> 'a TokenizedBuffer \<Rightarrow>
     int list \<times> int list \<times> 'a TokenizedBuffer" where
  "apply_loop old_idx [] insertions inserted new_index tb = (inserted, new_index, tb)"
| "apply_loop old_idx (old # old_tokens) insertions inserted new_index tb =
     (if insertions = [] \<or> target (hd insertions) \<noteq> int old_idx
      then apply_loop (Suc old_idx) old_tokens insertions inserted
             (new_index[old_idx := int (length (tb_token_infos tb))]) (add_old old tb)
      else case apply_run (int old_idx) (ti_has_leading_space old) insertions inserted tb of (insertions, inserted, tb) \<Rightarrow>
        apply_loop (Suc old_idx) old_tokens insertions inserted
          (new_index[old_idx := int (length (tb_token_infos tb))]) (add_old (WithLeadingSpace False old) tb))"

definition resize_bits :: "nat \<Rightarrow> bool list \<Rightarrow> bool list" where
  "resize_bits n bits = take n bits @ replicate (n - length bits) False"

definition Apply_fixes :: "ErrorRecoveryBuffer \<Rightarrow> 'a TokenizedBuffer \<Rightarrow> ErrorRecoveryBuffer \<times> 'a TokenizedBuffer" where
  "Apply_fixes er tb =
     (let insertions = sort_key insertion_key (er_insertions er);
          old_tokens = tb_token_infos tb;
          new_size = length old_tokens + length insertions;
          tb = tb\<lparr>tb_token_infos := [], tb_recovery_tokens := resize_bits new_size (tb_recovery_tokens tb)\<rparr>
      in case apply_loop 0 old_tokens insertions (replicate (length insertions) TokenIndex_None)
                (replicate (length old_tokens) TokenIndex_None) tb
         of (inserted, new_index, tb) \<Rightarrow>
           (er\<lparr>er_insertions := insertions, er_inserted_token_index := inserted, er_new_token_index := new_index\<rparr>, tb))"

definition GetNewTokenIndex :: "ErrorRecoveryBuffer \<Rightarrow> int \<Rightarrow> int outcome" where
  "GetNewTokenIndex er old_index =
     (if er_insertions er = [] then Ret old_index
      else carbon_check (er_new_token_index er \<noteq> []) (carbon_check (0 \<le> old_index)
        (store_get (er_new_token_index er) (nat old_index))))"

definition GetInsertedTokenIndex :: "ErrorRecoveryBuffer \<Rightarrow> nat \<Rightarrow> int outcome" where
  "GetInsertedTokenIndex er insertion_id = store_get (er_inserted_token_index er) insertion_id"

section \<open>Cross-references\<close>

text \<open>The back of the vector of open groups is the head of the list.\<close>

definition cross_reference_step ::
    "nat \<Rightarrow> (nat list \<times> TokenInfo list) outcome \<Rightarrow> (nat list \<times> TokenInfo list) outcome" where
  "cross_reference_step token st = bind_outcome st (\<lambda>(open_groups, infos).
     bind_outcome (store_get infos token) (\<lambda>info.
       let kind = ti_kind info in
       if is_opening_symbol kind then Ret (token # open_groups, infos)
       else if is_closing_symbol kind
       then carbon_check (open_groups \<noteq> [])
              (let opening_token = hd open_groups in
               bind_outcome (store_get infos opening_token) (\<lambda>opening_token_info.
                 bind_outcome (closing_symbol (ti_kind opening_token_info)) (\<lambda>expected.
                   carbon_check (kind = expected)
                     (bind_outcome (set_closing_token_index (int token) opening_token_info) (\<lambda>opening_token_info.
                       bind_outcome (set_opening_token_index (int opening_token) info) (\<lambda>info.
                         Ret (tl open_groups, infos[opening_token := opening_token_info, token := info])))))))
       else Ret (open_groups, infos)))"

definition FixTokenCrossReferences :: "'a TokenizedBuffer \<Rightarrow> 'a TokenizedBuffer outcome" where
  "FixTokenCrossReferences tb =
     bind_outcome (fold cross_reference_step [0..<tokens_end tb] (Ret ([], tb_token_infos tb)))
       (\<lambda>(open_groups, infos). Ret (tb\<lparr>tb_token_infos := infos\<rparr>))"

section \<open>Collecting the tokens\<close>

definition IsLeafTokenKind :: "TokenKind \<Rightarrow> bool" where
  "IsLeafTokenKind kind \<longleftrightarrow> kind \<in> {Identifier, IntLiteral, RealLiteral, StringLiteral, CharLiteral, IntTypeLiteral,
     UnsignedIntTypeLiteral, FloatTypeLiteral, Keyword True_kw, Keyword False_kw, Keyword SelfValueIdentifier_kw,
     Keyword SelfTypeIdentifier_kw, Keyword Underscore_kw, Keyword Bool_kw, Keyword Type_kw, Keyword Auto_kw, Keyword Array_kw,
     Keyword Str_kw, Keyword Char_kw, Keyword Core_kw, Keyword Cpp_kw}"

text \<open>The declaration introducers of \<open>token_kind.def\<close> and the other keywords that start a statement.\<close>

definition statement_keywords :: "keyword list" where
  "statement_keywords =
     [If_kw, While_kw, For_kw, Match_kw, Else_kw,
      Adapt_kw, Alias_kw, Base_kw, Choice_kw, Class_kw, Constraint_kw, Export_kw, Fn_kw, Impl_kw, Import_kw, Interface_kw,
      Let_kw, Library_kw, MatchFirst_kw, Namespace_kw, Package_kw, Require_kw, Union_kw, Var_kw,
      Abstract_kw, Case_kw, Continue_kw, Default_kw, Eval_kw, Extend_kw, Final_kw, Friend_kw, Inline_kw, MustEval_kw,
      Observe_kw, Overload_kw, Override_kw, Private_kw, Protected_kw, Return_kw, Returned_kw, Static_kw, Virtual_kw]"

definition collect_symbol :: "symbol \<Rightarrow> BracketTokenKind" where
  "collect_symbol s =
     (case s of OpenParen \<Rightarrow> OpenParen_k | OpenCurlyBrace \<Rightarrow> OpenCurlyBrace_k | OpenSquareBracket \<Rightarrow> OpenSquareBracket_k
      | CloseParen \<Rightarrow> CloseParen_k | CloseCurlyBrace \<Rightarrow> CloseCurlyBrace_k | CloseSquareBracket \<Rightarrow> CloseSquareBracket_k
      | Semi \<Rightarrow> Semi_k | Comma \<Rightarrow> Comma_k | Period \<Rightarrow> Period_k | Equal \<Rightarrow> Assignment_k | MinusGreater \<Rightarrow> StructuralOp_k
      | EqualEqual \<Rightarrow> ComparisonOp_k | ExclaimEqual \<Rightarrow> ComparisonOp_k | Less \<Rightarrow> ComparisonOp_k | LessEqual \<Rightarrow> ComparisonOp_k
      | Greater \<Rightarrow> ComparisonOp_k | GreaterEqual \<Rightarrow> ComparisonOp_k | _ \<Rightarrow> Other_k)"

definition collect_keyword :: "keyword \<Rightarrow> BracketTokenKind" where
  "collect_keyword k =
     (if k \<in> set statement_keywords then StatementIntroducer_k
      else if k = As_kw then As_k
      else if k = Where_kw then StructuralOp_k
      else if k \<in> {Ref_kw, Unused_kw, Template_kw, Const_kw} then ModifierKeyword_k
      else if k \<in> {And_kw, Or_kw} then ComparisonOp_k
      else if IsLeafTokenKind (Keyword k) then Leaf_k else Other_k)"

text \<open>The bracket kind of a token that is not the start of the file, which is skipped.\<close>

fun collect_kind :: "TokenKind \<Rightarrow> BracketTokenKind" where
  "collect_kind (Symbol s) = collect_symbol s"
| "collect_kind (Keyword k) = collect_keyword k"
| "collect_kind FileEnd = FileEnd_k"
| "collect_kind k = (if IsLeafTokenKind k then Leaf_k else Other_k)"

definition is_paren_keyword_kind :: "TokenKind \<Rightarrow> bool" where
  "is_paren_keyword_kind kind \<longleftrightarrow>
     kind \<in> {Keyword If_kw, Keyword While_kw, Keyword For_kw, Keyword Match_kw, Keyword Forall_kw}"

text \<open>The kind of a token of the iteration, \<open>None\<close> at its end.\<close>

definition kind_at :: "'a TokenizedBuffer \<Rightarrow> nat \<Rightarrow> TokenKind option outcome" where
  "kind_at tb token = (if token = tokens_end tb then Ret None else bind_outcome (GetKind tb token) (\<lambda>k. Ret (Some k)))"

definition struct_brace_at :: "'a TokenizedBuffer \<Rightarrow> nat \<Rightarrow> bool outcome" where
  "struct_brace_at tb token =
     bind_outcome (kind_at tb (token + 1)) (\<lambda>next_kind.
       if next_kind = Some (Symbol Period) \<or> next_kind = Some (Symbol CloseCurlyBrace) then Ret True
       else if next_kind = Some Identifier
       then bind_outcome (kind_at tb (token + 2)) (\<lambda>next2_kind. Ret (next2_kind = Some (Symbol Colon)))
       else Ret False)"

definition else_keyword_at :: "'a TokenizedBuffer \<Rightarrow> nat \<Rightarrow> bool outcome" where
  "else_keyword_at tb token =
     bind_outcome (kind_at tb (token + 1)) (\<lambda>next_kind.
       Ret (next_kind = Some (Symbol OpenCurlyBrace) \<or> next_kind = Some (Keyword If_kw)))"

definition ends_line :: "'a TokenizedBuffer \<Rightarrow> nat \<Rightarrow> nat \<Rightarrow> bool outcome" where
  "ends_line tb token line =
     (if token + 1 = tokens_end tb then Ret True
      else bind_outcome (GetLine tb (token + 1)) (\<lambda>next_line. Ret (next_line \<noteq> line)))"

text \<open>One token of the loop, with the line and the bracket kind already found.\<close>

definition collect_token ::
    "'a TokenizedBuffer \<Rightarrow> nat \<Rightarrow> TokenInfo \<Rightarrow> nat \<Rightarrow> bool \<Rightarrow> MismatchedBracketToken outcome" where
  "collect_token tb token info line has_wide_leading_space =
     (let kind = ti_kind info in
      bind_outcome (if kind = Keyword Else_kw then else_keyword_at tb token else Ret False) (\<lambda>is_else_keyword.
       bind_outcome (if kind = FileEnd then Ret 0 else GetIndentColumnNumber tb line) (\<lambda>line_indent.
        bind_outcome (ends_line tb token line) (\<lambda>is_at_end_of_line.
         bind_outcome (if kind = Symbol OpenCurlyBrace then struct_brace_at tb token else Ret False) (\<lambda>is_struct_brace.
          Ret \<lparr>mb_token_index = int token, mb_kind = collect_kind kind, mb_line = line, mb_line_indent = line_indent,
               mb_is_at_end_of_line = is_at_end_of_line, mb_is_struct_brace = is_struct_brace,
               mb_is_paren_keyword = is_paren_keyword_kind kind, mb_is_else_keyword = is_else_keyword,
               mb_has_leading_space = ti_has_leading_space info, mb_has_wide_leading_space = has_wide_leading_space\<rparr>)))))"

text \<open>\<open>prev\<close> is where the previous token ended and its line, \<open>None\<close> before the first.\<close>

fun collect_loop ::
    "'a lex_env \<Rightarrow> 'a TokenizedBuffer \<Rightarrow> nat list \<Rightarrow> (nat \<times> nat) option \<Rightarrow> MismatchedBracketToken list outcome" where
  "collect_loop env tb [] prev = Ret []"
| "collect_loop env tb (token # tokens) prev =
     bind_outcome (store_get (tb_token_infos tb) token) (\<lambda>info.
      bind_outcome (GetLine tb token) (\<lambda>line.
       bind_outcome (GetTokenText env tb token) (\<lambda>token_text.
        let wide = (case prev of None \<Rightarrow> False
                    | Some (prev_end, prev_line) \<Rightarrow> line = prev_line \<and> prev_end + 2 \<le> ti_byte_offset info);
            prev = Some (ti_byte_offset info + length token_text, line)
        in if ti_kind info = FileStart then collect_loop env tb tokens prev
           else bind_outcome (collect_token tb token info line wide) (\<lambda>t.
             bind_outcome (collect_loop env tb tokens prev) (\<lambda>ts. Ret (t # ts))))))"

definition CollectMismatchedBracketTokens ::
    "'a lex_env \<Rightarrow> 'a TokenizedBuffer \<Rightarrow> MismatchedBracketToken list outcome" where
  "CollectMismatchedBracketTokens env tb = collect_loop env tb [0..<tokens_end tb] None"

section \<open>Positions\<close>

definition TokenStartPosition :: "'a TokenizedBuffer \<Rightarrow> int \<Rightarrow> nat outcome" where
  "TokenStartPosition tb token = bind_outcome (get_token tb token) (\<lambda>info. Ret (ti_byte_offset info))"

definition TokenEndPosition :: "'a lex_env \<Rightarrow> 'a TokenizedBuffer \<Rightarrow> int \<Rightarrow> nat outcome" where
  "TokenEndPosition env tb token =
     bind_outcome (TokenStartPosition tb token) (\<lambda>start.
       bind_outcome (get_text env tb token) (\<lambda>token_text. Ret (start + length token_text)))"

text \<open>The lambda \<open>skip_spaces\<close>; without a limit it is given the length of the source.\<close>

fun skip_spaces :: "string \<Rightarrow> nat \<Rightarrow> nat \<Rightarrow> nat" where
  "skip_spaces s pos 0 = pos"
| "skip_spaces s pos (Suc limit) = (if pos < length s \<and> s ! pos = CHR '' '' then skip_spaces s (pos + 1) limit else pos)"

definition BracketInsertionPosition ::
    "'a lex_env \<Rightarrow> 'a TokenizedBuffer \<Rightarrow> BracketCorrection \<Rightarrow> nat outcome" where
  "BracketInsertionPosition env tb correction =
     (let insert_after = (if bc_fix_action correction = InsertAfter then bc_fix_token_index correction
                          else bc_fix_token_index correction - 1);
          s = tb_source tb; no_limit = length s
      in if insert_after = TokenIndex_None then TokenStartPosition tb (bc_fix_token_index correction)
         else bind_outcome (TokenEndPosition env tb insert_after) (\<lambda>pos.
           if bc_fix_token_kind correction = Symbol CloseCurlyBrace
           then let line_end = skip_spaces s pos no_limit in
             if line_end < length s \<and> s ! line_end = newline
             then bind_outcome (get_token tb (bc_diagnostic_token_index correction)) (\<lambda>info.
                    bind_outcome (FindLineIndex tb (ti_byte_offset info)) (\<lambda>open_line.
                      bind_outcome (GetIndentColumnNumber tb open_line) (\<lambda>column.
                        Ret (skip_spaces s (line_end + 1) (column - 1)))))
             else Ret pos
           else if is_opening_symbol (bc_fix_token_kind correction) then Ret (skip_spaces s pos no_limit)
           else Ret pos))"

section \<open>Diagnosing and fixing\<close>

record 'a fixing =
  fx_fixes :: ErrorRecoveryBuffer
  fx_buffer :: "'a TokenizedBuffer"
  fx_diags :: "lex_diag emitted"
  fx_insertion_ids :: "nat option list"

definition fix_correction :: "'a lex_env \<Rightarrow> BracketCorrection \<Rightarrow> 'a fixing \<Rightarrow> 'a fixing outcome" where
  "fix_correction env correction fx =
     (let tb = fx_buffer fx; er = fx_fixes fx in
      bind_outcome (TokenStartPosition tb (bc_diagnostic_token_index correction)) (\<lambda>pos.
       bind_outcome
        (if bc_fix_action correction = ReplaceWithError
         then bind_outcome (Recovery_ReplaceWithError env (bc_fix_token_index correction) er tb)
                (\<lambda>(er, tb). Ret (er, tb, None, None))
         else if bc_is_tied correction
         then bind_outcome (Recovery_ReplaceWithError env (bc_diagnostic_token_index correction) er tb)
                (\<lambda>(er, tb). Ret (er, tb, None, None))
         else bind_outcome (BracketInsertionPosition env tb correction) (\<lambda>note_pos.
                bind_outcome
                  (if bc_fix_action correction = InsertBefore
                   then Recovery_InsertBefore env tb (bc_fix_token_index correction) (bc_fix_token_kind correction) er
                   else Recovery_InsertAfter env tb (bc_fix_token_index correction) (bc_fix_token_kind correction) er)
                  (\<lambda>(insertion_id, er).
                     Ret (er, tb, Some insertion_id, Some (note_pos, bc_fix_token_kind correction)))))
        (\<lambda>(er, tb, insertion_id, note).
           Ret \<lparr>fx_fixes = er, fx_buffer = tb,
                fx_diags = fx_diags fx @ [(pos, if bc_diagnostic_kind correction = UnmatchedOpening_d
                                                then UnmatchedOpening note else UnmatchedClosing note)],
                fx_insertion_ids = fx_insertion_ids fx @ [insertion_id]\<rparr>)))"

fun fix_corrections :: "'a lex_env \<Rightarrow> BracketCorrection list \<Rightarrow> 'a fixing \<Rightarrow> 'a fixing outcome" where
  "fix_corrections env [] fx = Ret fx"
| "fix_corrections env (c # cs) fx = bind_outcome (fix_correction env c fx) (fix_corrections env cs)"

text \<open>The corrections as the caller sees them, with the indexes of the changed buffer.\<close>

definition report_correction ::
    "ErrorRecoveryBuffer \<Rightarrow> BracketCorrection \<Rightarrow> nat option \<Rightarrow> BracketCorrection outcome" where
  "report_correction er correction insertion_id =
     bind_outcome (GetNewTokenIndex er (bc_diagnostic_token_index correction)) (\<lambda>diagnostic.
       bind_outcome (case insertion_id of Some i \<Rightarrow> GetInsertedTokenIndex er i
                     | None \<Rightarrow> GetNewTokenIndex er (bc_fix_token_index correction)) (\<lambda>fix_token.
         Ret (correction\<lparr>bc_diagnostic_token_index := diagnostic, bc_fix_token_index := fix_token\<rparr>)))"

fun report_corrections ::
    "ErrorRecoveryBuffer \<Rightarrow> (BracketCorrection \<times> nat option) list \<Rightarrow> BracketCorrection list outcome" where
  "report_corrections er [] = Ret []"
| "report_corrections er ((c, i) # cs) =
     bind_outcome (report_correction er c i) (\<lambda>c. bind_outcome (report_corrections er cs) (\<lambda>cs. Ret (c # cs)))"

text \<open>
  \<open>report\<close> says whether the option \<open>bracket_corrections\<close> points to a vector; the result is what is written there, if anything.
\<close>

definition apply_corrections ::
    "'a lex_env \<Rightarrow> bool \<Rightarrow> BracketCorrection list \<Rightarrow> 'a Lexer \<Rightarrow> (BracketCorrection list option \<times> 'a Lexer) outcome" where
  "apply_corrections env report corrections lx =
     bind_outcome (fix_corrections env corrections
         \<lparr>fx_fixes = ErrorRecoveryBuffer_init, fx_buffer = lx_buffer lx, fx_diags = lx_diags lx, fx_insertion_ids = []\<rparr>)
      (\<lambda>fx.
       let tb = (fx_buffer fx)\<lparr>tb_has_errors := True\<rparr> in
       bind_outcome
         (if Recovery_empty (fx_fixes fx) then Ret (fx_fixes fx, tb)
          else case Apply_fixes (fx_fixes fx) tb of (er, tb) \<Rightarrow>
                 bind_outcome (FixTokenCrossReferences tb) (\<lambda>tb. Ret (er, tb)))
         (\<lambda>(er, tb).
            let lx = lx\<lparr>lx_buffer := tb, lx_diags := fx_diags fx\<rparr> in
            if report
            then bind_outcome (report_corrections er (zip corrections (fx_insertion_ids fx))) (\<lambda>cs. Ret (Some cs, lx))
            else Ret (None, lx)))"

definition DiagnoseAndFixMismatchedBrackets ::
    "'a lex_env \<Rightarrow> bool \<Rightarrow> 'a Lexer \<Rightarrow> (BracketCorrection list option \<times> 'a Lexer) outcome option" where
  "DiagnoseAndFixMismatchedBrackets env report lx =
     (case CollectMismatchedBracketTokens env (lx_buffer lx) of
        Fatal \<Rightarrow> Some Fatal
      | Ret input_tokens \<Rightarrow> map_option (\<lambda>corrections. apply_corrections env report corrections lx)
          (FixMismatchedBrackets input_tokens))"

section \<open>The end of lexing\<close>

definition check_token_count :: "'a Lexer \<Rightarrow> 'a Lexer outcome" where
  "check_token_count lx =
     (if TokenIndex_Max < length (lx_token_infos lx)
      then bind_outcome (store_get (lx_token_infos lx) (TokenIndex_Max - 1)) (\<lambda>info.
             Ret (emit (ti_byte_offset info) TooManyTokens lx))
      else Ret lx)"

definition Finalize ::
    "'a lex_env \<Rightarrow> bool \<Rightarrow> 'a Lexer \<Rightarrow> (BracketCorrection list option \<times> 'a Lexer) outcome option" where
  "Finalize env report lx =
     map_option (\<lambda>r. bind_outcome r (\<lambda>(reported, lx). bind_outcome (check_token_count lx) (\<lambda>lx. Ret (reported, lx))))
       (if lx_has_mismatched_brackets lx \<or> lx_open_groups lx \<noteq> []
        then DiagnoseAndFixMismatchedBrackets env report lx else Some (Ret (None, lx)))"

text \<open>Lexing a text: the buffer, the diagnostics, and the corrections when they were asked for and any were made.\<close>

definition Lex ::
    "'a lex_env \<Rightarrow> bool \<Rightarrow> 'a SharedValueStores \<Rightarrow> string \<Rightarrow>
     ('a TokenizedBuffer \<times> lex_diag emitted \<times> BracketCorrection list option) outcome option" where
  "Lex env report stores source =
     (case Lex_file env stores source of
        None \<Rightarrow> None
      | Some Fatal \<Rightarrow> Some Fatal
      | Some (Ret lx) \<Rightarrow>
          map_option (\<lambda>r. bind_outcome r (\<lambda>(reported, lx).
            Ret ((lx_buffer lx)\<lparr>tb_has_errors := tb_has_errors (lx_buffer lx) \<or> lx_diags lx \<noteq> []\<rparr>, lx_diags lx, reported)))
            (Finalize env report lx))"

end
