(* ===== verification/Recovery_Groups.thy ===== *)
theory Recovery_Groups
  imports Lexer_Recovery Lexer_Tokens
begin

text \<open>
  \<open>FixTokenCrossReferences\<close>: on a buffer whose brackets are balanced no check fails, and every bracket then refers to its partner.
\<close>

definition same_but_payload :: "TokenInfo \<Rightarrow> TokenInfo \<Rightarrow> bool" where
  "same_but_payload t u \<longleftrightarrow> u\<lparr>ti_payload := ti_payload t\<rparr> = t \<and> (groupless t \<longrightarrow> u = t)"

definition cross_inv :: "TokenInfo list \<Rightarrow> nat \<Rightarrow> nat list \<Rightarrow> TokenInfo list \<Rightarrow> bool" where
  "cross_inv ts k og us \<longleftrightarrow> list_all2 same_but_payload ts us \<and> groups_ok (take k us) og \<and> opens_ok (take k us) og \<and>
     brackets_seen (take k us) og False"

lemma same_but_payload_refl [simp]: "same_but_payload t t"
  by (simp add: same_but_payload_def)

lemma same_but_payload_kind: "same_but_payload t u \<Longrightarrow> ti_kind u = ti_kind t"
  by (cases t; cases u) (simp add: same_but_payload_def)

lemma same_but_payload_update: "same_but_payload t u \<Longrightarrow> is_grouping_symbol (ti_kind t) \<Longrightarrow> same_but_payload t (u\<lparr>ti_payload := p\<rparr>)"
  by (simp add: same_but_payload_def)

lemma same_kinds: "list_all2 same_but_payload ts us \<Longrightarrow> map ti_kind us = map ti_kind ts"
  by (induction rule: list_all2_induct) (simp_all add: same_but_payload_kind)

lemma open_after_prefix:
  assumes "balanced ks"
  obtains s where "open_after (take k ks) [] = Some s"
proof -
  have "open_after (take k ks @ drop k ks) [] \<noteq> None" using assms by (simp add: balanced_def)
  then show thesis using that unfolding open_after_append by (cases "open_after (take k ks) []") auto
qed

lemma groups_ok_Nil: "groups_ok [] []" "opens_ok [] []" "brackets_seen [] [] False"
  by (auto simp: groups_ok_def opens_ok_def brackets_seen_def closes_def)

lemma cross_close:
  assumes "cross_inv ts k og us" "k < length us" "length ts \<le> 2 ^ 23" "is_closing_symbol (ti_kind (us ! k))"
    "open_after (take (Suc k) (map ti_kind us)) [] \<noteq> None"
  shows "\<exists>og' us'. cross_reference_step k (Ret (og, us)) = Ret (og', us') \<and> cross_inv ts (Suc k) og' us'"
proof -
  let ?ts = "take k us" and ?t = "us ! k"
  have inv: "list_all2 same_but_payload ts us" "groups_ok ?ts og" "opens_ok ?ts og" "brackets_seen ?ts og False"
    using assms(1) by (auto simp: cross_inv_def)
  have len: "length ts = length us" using inv(1) by (rule list_all2_lengthD)
  have no: "\<not> is_opening_symbol (ti_kind ?t)" using assms(4) opening_closing_exclusive by blast
  have seen: "open_after (map ti_kind ?ts) [] = Some (map (\<lambda>g. ti_kind (?ts ! g)) og)"
    using inv(4) by (simp add: brackets_seen_def)
  then obtain g rest where og: "og = g # rest" "closing_symbol (ti_kind (?ts ! g)) = Ret (ti_kind ?t)"
    using assms(2,4,5) no by (cases og) (auto simp: take_Suc_conv_app_nth open_after_append take_map split: if_splits)
  have g: "g < k" "is_opening_symbol (ti_kind (us ! g))" using inv(3) og(1) assms(2) by (auto simp: opens_ok_def)
  define t where "t = ?t\<lparr>ti_payload := Some (word_of_nat g)\<rparr>"
  define us' where "us' = us[g := (us ! g)\<lparr>ti_payload := Some (word_of_nat k)\<rparr>, k := t]"
  have step: "cross_reference_step k (Ret (og, us)) = Ret (rest, us')"
    using assms(2,4) no og g
    by (simp add: cross_reference_step_def store_get_def set_closing_token_index_def set_opening_token_index_def us'_def t_def Let_def)
  have take: "take (Suc k) us' = close_group ?ts g t"
    using assms(2) g(1) by (simp add: us'_def close_group_def take_Suc_conv_app_nth take_update_swap list_update_append)
  have open_g: "opening_symbol (ti_kind t) = Ret (ti_kind (?ts ! g))"
    using og(2) closing_of_opening by (simp add: t_def)
  have "groups_ok (close_group ?ts g t) rest"
    by (rule groups_ok_close) (use inv og(1) open_g assms(2,3) len in \<open>simp_all add: t_def\<close>)
  moreover have "opens_ok (close_group ?ts g t) rest" using opens_ok_close inv(3) og(1) by simp
  moreover have "brackets_seen (close_group ?ts g t) rest False" using brackets_seen_close inv(3,4) og(1) open_g by simp
  moreover have "list_all2 same_but_payload ts us'"
  proof -
    have "same_but_payload (ts ! i) (us' ! i)" if "i < length us" for i
    proof -
      have s: "same_but_payload (ts ! i) (us ! i)" using inv(1) that by (auto simp: list_all2_conv_all_nth)
      note k = same_but_payload_kind [OF s]
      show ?thesis using s k same_but_payload_update [OF s] assms(2,4) g that
        by (auto simp: us'_def t_def nth_list_update is_grouping_symbol_def)
    qed
    then show ?thesis using len by (auto simp: list_all2_conv_all_nth us'_def)
  qed
  ultimately show ?thesis using step take by (auto simp: cross_inv_def)
qed

lemma cross_step:
  assumes "cross_inv ts k og us" "k < length us" "length ts \<le> 2 ^ 23" "balanced (map ti_kind ts)"
  shows "\<exists>og' us'. cross_reference_step k (Ret (og, us)) = Ret (og', us') \<and> cross_inv ts (Suc k) og' us'"
proof -
  have inv: "list_all2 same_but_payload ts us" "groups_ok (take k us) og" "opens_ok (take k us) og" "brackets_seen (take k us) og False"
    using assms(1) by (auto simp: cross_inv_def)
  have take: "take (Suc k) us = take k us @ [us ! k]" using assms(2) by (rule take_Suc_conv_app_nth)
  have len: "length (take k us) = k" using assms(2) by simp
  show ?thesis
  proof (cases "is_opening_symbol (ti_kind (us ! k))")
    case True
    then have "cross_reference_step k (Ret (og, us)) = Ret (k # og, us)"
      using assms(2) by (simp add: cross_reference_step_def store_get_def Let_def)
    moreover have "cross_inv ts (Suc k) (k # og) us"
      using inv groups_ok_open [OF inv(2) True] opens_ok_open [OF inv(3) True] brackets_seen_open [OF inv(4,3) True]
      unfolding cross_inv_def take len by blast
    ultimately show ?thesis by blast
  next
    case no: False
    show ?thesis
    proof (cases "is_closing_symbol (ti_kind (us ! k))")
      case True
      have "open_after (take (Suc k) (map ti_kind us)) [] \<noteq> None"
        using open_after_prefix [OF assms(4), of "Suc k"] same_kinds [OF inv(1)] by (metis option.distinct(1))
      from cross_close [OF assms(1-3) True this] show ?thesis .
    next
      case False
      then have l: "groupless (us ! k)" using no by (simp add: is_grouping_symbol_def)
      have "cross_reference_step k (Ret (og, us)) = Ret (og, us)"
        using assms(2) no False by (simp add: cross_reference_step_def store_get_def Let_def)
      moreover have "groups_ok (take k us @ [us ! k]) og"
        by (rule groups_ok_agree [OF inv(2)]) (use l in \<open>auto simp: group_agree_def nth_append less_Suc_eq\<close>)
      moreover have "opens_ok (take k us @ [us ! k]) og"
        by (rule opens_ok_agree [OF inv(3)]) (auto simp: group_agree_def nth_append)
      ultimately have "cross_inv ts (Suc k) og us"
        using inv(1) brackets_seen_add [OF inv(4,3) l] unfolding cross_inv_def take by blast
      then show ?thesis using \<open>cross_reference_step k (Ret (og, us)) = Ret (og, us)\<close> by blast
    qed
  qed
qed

theorem FixTokenCrossReferences_ok:
  assumes "balanced (map ti_kind (tb_token_infos tb))" "length (tb_token_infos tb) \<le> 2 ^ 23"
    "tb_post_lexing_recovery_tokens tb = 0"
  shows "\<exists>us. FixTokenCrossReferences tb = Ret (tb\<lparr>tb_token_infos := us\<rparr>) \<and> groups_ok us [] \<and>
    list_all2 same_but_payload (tb_token_infos tb) us"
proof -
  let ?ts = "tb_token_infos tb"
  have "k \<le> length ?ts \<Longrightarrow> \<exists>og us. fold cross_reference_step [0..<k] (Ret ([], ?ts)) = Ret (og, us) \<and> cross_inv ?ts k og us" for k
  proof (induction k)
    case 0
    have "list_all2 same_but_payload ?ts ?ts" by (simp add: list.rel_refl)
    then show ?case using groups_ok_Nil by (simp add: cross_inv_def)
  next
    case (Suc k)
    then obtain og us where k: "fold cross_reference_step [0..<k] (Ret ([], ?ts)) = Ret (og, us)" "cross_inv ?ts k og us" by auto
    have "k < length us" using k(2) Suc.prems by (auto simp: cross_inv_def dest: list_all2_lengthD)
    from cross_step [OF k(2) this assms(2,1)] k(1) show ?case by simp
  qed
  from this [of "length ?ts"] obtain og us where u: "fold cross_reference_step [0..<length ?ts] (Ret ([], ?ts)) = Ret (og, us)"
    "cross_inv ?ts (length ?ts) og us" by auto
  have l: "length us = length ?ts" "map ti_kind us = map ti_kind ?ts"
    using u(2) same_kinds by (auto simp: cross_inv_def dest: list_all2_lengthD)
  have "brackets_seen us og False" "groups_ok us og" "list_all2 same_but_payload ?ts us"
    using u(2) l(1) by (auto simp: cross_inv_def)
  then have "og = []" "groups_ok us og" "list_all2 same_but_payload ?ts us"
    using assms(1) l(2) by (auto simp: brackets_seen_def balanced_def)
  then show ?thesis using u(1) assms(3) by (intro exI [of _ us]) (simp add: FixTokenCrossReferences_def tokens_end_def)
qed

end
