(* ===== verification/Recovery_Merge.thy ===== *)
theory Recovery_Merge
  imports Lexer_Recovery
begin

text \<open>
  What \<open>Apply\<close> leaves in the buffer: the old tokens in order, each after the insertions made before it, which are in the order of
  \<open>operator<\<close>. The sort key used for the order is shown to be that operator.
\<close>

section \<open>The order of insertions\<close>

lemma Insertion_less_key: "Insertion_less x y \<longleftrightarrow> insertion_key x < insertion_key y"
  by (auto simp: Insertion_less_def insertion_key_def)

section \<open>The merged tokens\<close>

text \<open>A run of insertions: only the first has the leading space of the token after the run.\<close>

fun run_infos :: "bool \<Rightarrow> Insertion list \<Rightarrow> TokenInfo list" where
  "run_infos leading_space [] = []"
| "run_infos leading_space (x # xs) = WithLeadingSpace leading_space (in_info x) # run_infos False xs"

text \<open>The tokens of the result, and whether each is a recovery token.\<close>

fun merged :: "nat \<Rightarrow> TokenInfo list \<Rightarrow> Insertion list \<Rightarrow> (bool \<times> TokenInfo) list" where
  "merged i [] xs = []"
| "merged i (old # olds) xs =
     (let run = takeWhile (\<lambda>x. target x = int i) xs in
      map (Pair True) (run_infos (ti_has_leading_space old) run) @
      (False, if run = [] then old else WithLeadingSpace False old) #
      merged (Suc i) olds (dropWhile (\<lambda>x. target x = int i) xs))"

lemma run_infos_length [simp]: "length (run_infos sp xs) = length xs"
  by (induction sp xs rule: run_infos.induct) simp_all

lemma WithLeadingSpace_simps [simp]:
  "ti_kind (WithLeadingSpace b t) = ti_kind t" "ti_byte_offset (WithLeadingSpace b t) = ti_byte_offset t"
  "ti_payload (WithLeadingSpace b t) = ti_payload t"
  by (simp_all add: WithLeadingSpace_def)

lemma run_infos_kinds: "map ti_kind (run_infos sp xs) = map (\<lambda>x. ti_kind (in_info x)) xs"
  by (induction sp xs rule: run_infos.induct) simp_all

lemma split_run: "length xs = length (takeWhile P xs) + length (dropWhile P xs)"
  by (metis length_append takeWhile_dropWhile_id)

lemma merged_length_le: "length (merged i olds xs) \<le> length olds + length xs"
proof (induction olds arbitrary: i xs)
  case (Cons old olds)
  from Cons [of "Suc i" "dropWhile (\<lambda>x. target x = int i) xs"] split_run [of xs "\<lambda>x. target x = int i"]
  show ?case by (simp add: Let_def)
qed simp

definition extended_buffer :: "'a TokenizedBuffer \<Rightarrow> TokenInfo list \<Rightarrow> bool list \<Rightarrow> 'a TokenizedBuffer \<Rightarrow> bool" where
  "extended_buffer tb infos bits tb' \<longleftrightarrow> (\<exists>size. tb' = tb\<lparr>tb_token_infos := infos, tb_recovery_tokens := bits,
     tb_expected_max_parse_tree_size := size\<rparr>)"

lemma extended_bufferD:
  "extended_buffer tb infos bits tb' \<Longrightarrow> tb_token_infos tb' = infos \<and> tb_recovery_tokens tb' = bits"
  by (auto simp: extended_buffer_def)

lemma extended_buffer_trans:
  "extended_buffer tb infos bits tb' \<Longrightarrow> extended_buffer tb' infos' bits' tb'' \<Longrightarrow> extended_buffer tb infos' bits' tb''"
  by (auto simp: extended_buffer_def)

lemma apply_run_spec:
  assumes "tb_recovery_tokens tb = bits @ replicate m False" "length bits = length (tb_token_infos tb)"
    "length (takeWhile (\<lambda>x. target x = i) xs) \<le> m" "apply_run i sp xs inserted tb = (rest, inserted', tb')"
  shows "rest = dropWhile (\<lambda>x. target x = i) xs \<and>
    extended_buffer tb (tb_token_infos tb @ run_infos sp (takeWhile (\<lambda>x. target x = i) xs))
      (bits @ replicate (length (takeWhile (\<lambda>x. target x = i) xs)) True @
        replicate (m - length (takeWhile (\<lambda>x. target x = i) xs)) False) tb'"
  using assms
proof (induction xs arbitrary: sp inserted tb bits m)
  case Nil
  then show ?case by (auto simp: extended_buffer_def intro: exI [of _ "tb_expected_max_parse_tree_size tb'"])
next
  case (Cons x xs)
  show ?case
  proof (cases "target x = i")
    case False
    with Cons.prems show ?thesis by (auto simp: extended_buffer_def intro: exI [of _ "tb_expected_max_parse_tree_size tb'"])
  next
    case True
    define info where "info = WithLeadingSpace sp (in_info x)"
    define tb1 where "tb1 = tb\<lparr>tb_expected_max_parse_tree_size := tb_expected_max_parse_tree_size tb + expected_max_parse_tree_size (ti_kind info),
      tb_token_infos := tb_token_infos tb @ [info], tb_recovery_tokens := (tb_recovery_tokens tb)[length (tb_token_infos tb) := True]\<rparr>"
    obtain m' where m': "m = Suc m'" using True Cons.prems(3) by (cases m) auto
    have rec: "apply_run i False xs (inserted[in_insertion_order x := int (length (tb_token_infos tb))]) tb1 = (rest, inserted', tb')"
      using Cons.prems(4) True by (simp add: AddToken_def tb1_def info_def)
    have bits: "tb_recovery_tokens tb1 = (bits @ [True]) @ replicate m' False" "length (bits @ [True]) = length (tb_token_infos tb1)"
      using Cons.prems(1,2) by (simp_all add: tb1_def m' list_update_append flip: Cons.prems(2))
    have ih: "rest = dropWhile (\<lambda>x. target x = i) xs \<and>
        extended_buffer tb1 (tb_token_infos tb1 @ run_infos False (takeWhile (\<lambda>x. target x = i) xs))
          ((bits @ [True]) @ replicate (length (takeWhile (\<lambda>x. target x = i) xs)) True @
            replicate (m' - length (takeWhile (\<lambda>x. target x = i) xs)) False) tb'"
      by (rule Cons.IH [OF bits _ rec]) (use Cons.prems(3) True m' in simp)
    moreover have "extended_buffer tb (tb_token_infos tb @ [info]) (tb_recovery_tokens tb1) tb1"
      unfolding extended_buffer_def by (intro exI [of _ "tb_expected_max_parse_tree_size tb1"]) (simp add: tb1_def)
    ultimately show ?thesis using True m' by (auto simp: tb1_def info_def dest: extended_buffer_trans)
  qed
qed

lemma add_old_extended:
  "extended_buffer tb (tb_token_infos tb @ [info]) (tb_recovery_tokens tb) (add_old info tb)"
  unfolding extended_buffer_def by (intro exI [of _ "tb_expected_max_parse_tree_size tb"]) (simp add: add_old_def)

lemma apply_loop_spec:
  assumes "tb_recovery_tokens tb = bits @ replicate m False" "length bits = length (tb_token_infos tb)"
    "length (merged i olds xs) \<le> m" "apply_loop i olds xs inserted new_index tb = (inserted', new_index', tb')"
  shows "extended_buffer tb (tb_token_infos tb @ map snd (merged i olds xs))
    (bits @ map fst (merged i olds xs) @ replicate (m - length (merged i olds xs)) False) tb'"
  using assms
proof (induction olds arbitrary: i xs inserted new_index tb bits m)
  case Nil
  then show ?case unfolding extended_buffer_def by (intro exI [of _ "tb_expected_max_parse_tree_size tb'"]) simp
next
  case (Cons old olds)
  let ?run = "takeWhile (\<lambda>x. target x = int i) xs" and ?rest = "dropWhile (\<lambda>x. target x = int i) xs"
  let ?old = "if ?run = [] then old else WithLeadingSpace False old"
  have empty: "xs = [] \<or> target (hd xs) \<noteq> int i \<longleftrightarrow> ?run = []" by (cases xs) simp_all
  obtain inserted1 tb1 where r: "(if ?run = [] then (xs, inserted, tb)
      else apply_run (int i) (ti_has_leading_space old) xs inserted tb) = (?rest, inserted1, tb1)"
    and e1: "extended_buffer tb (tb_token_infos tb @ run_infos (ti_has_leading_space old) ?run)
      (bits @ replicate (length ?run) True @ replicate (m - length ?run) False) tb1"
  proof (cases "?run = []")
    case True
    then have "?rest = xs" by (metis append_Nil takeWhile_dropWhile_id)
    moreover have "extended_buffer tb (tb_token_infos tb) (bits @ replicate m False) tb"
      unfolding extended_buffer_def using Cons.prems(1) by (intro exI [of _ "tb_expected_max_parse_tree_size tb"]) simp
    ultimately show thesis using that True by simp
  next
    case False
    obtain rest inserted1 tb1 where r: "apply_run (int i) (ti_has_leading_space old) xs inserted tb = (rest, inserted1, tb1)"
      by (metis prod_cases3)
    have "length ?run \<le> m" using Cons.prems(3) by (simp add: Let_def)
    from apply_run_spec [OF Cons.prems(1,2) this r] r False show thesis using that by simp
  qed
  define tb2 where "tb2 = add_old ?old tb1"
  have loop: "apply_loop (Suc i) olds ?rest inserted1 (new_index[i := int (length (tb_token_infos tb1))]) tb2 = (inserted', new_index', tb')"
    using Cons.prems(4) r empty by (simp add: tb2_def split: if_splits)
  let ?M = "merged (Suc i) olds ?rest"
  have e2: "extended_buffer tb (tb_token_infos tb @ run_infos (ti_has_leading_space old) ?run @ [?old])
      ((bits @ replicate (length ?run) True @ [False]) @ replicate (m - length ?run - 1) False) tb2"
  proof -
    have "m - length ?run = Suc (m - length ?run - 1)" using Cons.prems(3) by (simp add: Let_def)
    then have "replicate (m - length ?run) False = False # replicate (m - length ?run - 1) False" by (metis replicate_Suc)
    then show ?thesis using extended_buffer_trans [OF e1 add_old_extended, of ?old] extended_bufferD [OF e1] by (simp add: tb2_def)
  qed
  note d2 = extended_bufferD [OF e2]
  have "extended_buffer tb2 (tb_token_infos tb2 @ map snd ?M)
      ((bits @ replicate (length ?run) True @ [False]) @ map fst ?M @ replicate (m - length ?run - 1 - length ?M) False) tb'"
    by (rule Cons.IH [OF _ _ _ loop]) (use d2 Cons.prems(2,3) in \<open>simp_all add: Let_def\<close>)
  from extended_buffer_trans [OF e2 this] d2 show ?case
    by (simp add: Let_def comp_def map_replicate_const)
qed

section \<open>Where the tokens went\<close>

definition orders_ok :: "Insertion list \<Rightarrow> int list \<Rightarrow> bool" where
  "orders_ok xs inserted \<longleftrightarrow> distinct (map in_insertion_order xs) \<and> (\<forall>x \<in> set xs. in_insertion_order x < length inserted)"

lemma orders_ok_append: "orders_ok (xs @ ys) inserted \<longleftrightarrow> orders_ok xs inserted \<and> orders_ok ys inserted \<and>
    in_insertion_order ` set xs \<inter> in_insertion_order ` set ys = {}"
  by (auto simp: orders_ok_def)

lemma apply_run_inserted:
  assumes "apply_run i sp xs inserted tb = (rest, inserted', tb')" "orders_ok (takeWhile (\<lambda>x. target x = i) xs) inserted"
  shows "length inserted' = length inserted"
    "k \<notin> in_insertion_order ` set (takeWhile (\<lambda>x. target x = i) xs) \<Longrightarrow> inserted' ! k = inserted ! k"
    "j < length (takeWhile (\<lambda>x. target x = i) xs) \<Longrightarrow>
      inserted' ! in_insertion_order (takeWhile (\<lambda>x. target x = i) xs ! j) = int (length (tb_token_infos tb) + j)"
proof -
  let ?run = "takeWhile (\<lambda>x. target x = i) xs"
  have "length inserted' = length inserted \<and> (\<forall>k. k \<notin> in_insertion_order ` set ?run \<longrightarrow> inserted' ! k = inserted ! k) \<and>
    (\<forall>j < length ?run. inserted' ! in_insertion_order (?run ! j) = int (length (tb_token_infos tb) + j))"
    using assms
  proof (induction xs arbitrary: sp inserted tb)
    case (Cons x xs)
    show ?case
    proof (cases "target x = i")
      case True
      let ?r = "takeWhile (\<lambda>x. target x = i) xs" and ?ins = "inserted[in_insertion_order x := int (length (tb_token_infos tb))]"
      from True obtain tb1 where r: "apply_run i False xs ?ins tb1 = (rest, inserted', tb')"
        "length (tb_token_infos tb1) = Suc (length (tb_token_infos tb))"
        using Cons.prems(1) by (auto simp: AddToken_def)
      have o: "orders_ok ?r ?ins" "in_insertion_order x \<notin> in_insertion_order ` set ?r" "in_insertion_order x < length inserted"
        using Cons.prems(2) True by (auto simp: orders_ok_def)
      have ih: "length inserted' = length ?ins \<and> (\<forall>k. k \<notin> in_insertion_order ` set ?r \<longrightarrow> inserted' ! k = ?ins ! k) \<and>
          (\<forall>j < length ?r. inserted' ! in_insertion_order (?r ! j) = int (length (tb_token_infos tb1) + j))"
        by (rule Cons.IH [OF r(1) o(1)])
      then show ?thesis using True r(2) o(2,3) by (auto simp: nth_Cons split: nat.splits)
    qed (use Cons.prems in auto)
  qed auto
  then show "length inserted' = length inserted"
    "k \<notin> in_insertion_order ` set ?run \<Longrightarrow> inserted' ! k = inserted ! k"
    "j < length ?run \<Longrightarrow> inserted' ! in_insertion_order (?run ! j) = int (length (tb_token_infos tb) + j)" by blast+
qed

lemma apply_run_lengths:
  "apply_run i sp xs inserted tb = (rest, inserted', tb') \<Longrightarrow> rest = dropWhile (\<lambda>x. target x = i) xs \<and>
   length (tb_token_infos tb') = length (tb_token_infos tb) + length (takeWhile (\<lambda>x. target x = i) xs)"
proof (induction xs arbitrary: sp inserted tb)
  case (Cons x xs)
  show ?case
  proof (cases "target x = i")
    case True
    with Cons.prems obtain tb1 inserted1 where "apply_run i False xs inserted1 tb1 = (rest, inserted', tb')"
      "length (tb_token_infos tb1) = Suc (length (tb_token_infos tb))" by (auto simp: AddToken_def)
    with Cons.IH [OF this(1)] True show ?thesis by simp
  qed (use Cons.prems in auto)
qed simp

lemma run_infos_nth: "j < length xs \<Longrightarrow> \<exists>b. run_infos sp xs ! j = WithLeadingSpace b (in_info (xs ! j))"
  by (induction sp xs arbitrary: j rule: run_infos.induct) (auto simp: nth_Cons split: nat.splits)

lemma after_run:
  assumes "sorted_wrt (\<lambda>x y. target x \<le> target y) xs" "\<forall>x \<in> set xs. int i \<le> target x"
  shows "sorted_wrt (\<lambda>x y. target x \<le> target y) (dropWhile (\<lambda>x. target x = int i) xs)"
    "\<forall>x \<in> set (dropWhile (\<lambda>x. target x = int i) xs). int (Suc i) \<le> target x"
proof -
  let ?rest = "dropWhile (\<lambda>x. target x = int i) xs"
  have "sorted_wrt (\<lambda>x y. target x \<le> target y) (takeWhile (\<lambda>x. target x = int i) xs @ ?rest)" using assms(1) by simp
  then show s: "sorted_wrt (\<lambda>x y. target x \<le> target y) ?rest" unfolding sorted_wrt_append by blast
  show "\<forall>x \<in> set ?rest. int (Suc i) \<le> target x"
  proof (cases ?rest)
    case (Cons y ys)
    have "target y \<noteq> int i" using hd_dropWhile [of "\<lambda>x. target x = int i" xs] Cons by simp
    moreover have "y \<in> set xs" using Cons by (metis list.set_intros(1) set_dropWhileD)
    ultimately have "int (Suc i) \<le> target y" using assms(2) by force
    then show ?thesis using s Cons by fastforce
  next
    case Nil
    show ?thesis unfolding Nil by simp
  qed
qed

lemma WithLeadingSpace_same: "WithLeadingSpace (ti_has_leading_space t) t = t"
  by (simp add: WithLeadingSpace_def)

text \<open>Token \<open>p\<close> of a list of merged tokens, counted from \<open>n\<close>.\<close>

definition merged_at :: "(bool \<times> TokenInfo) list \<Rightarrow> nat \<Rightarrow> int \<Rightarrow> bool \<Rightarrow> TokenInfo \<Rightarrow> bool" where
  "merged_at M n p b t \<longleftrightarrow> (\<exists>k < length M. p = int (n + k) \<and> M ! k = (b, t))"

lemma merged_at_append: "merged_at M (n + length L) p b t \<Longrightarrow> merged_at (L @ M) n p b t"
proof -
  assume "merged_at M (n + length L) p b t"
  then obtain k where "k < length M" "p = int (n + length L + k)" "M ! k = (b, t)" by (auto simp: merged_at_def)
  then show "merged_at (L @ M) n p b t" unfolding merged_at_def by (intro exI [of _ "length L + k"]) simp
qed

lemma apply_loop_indexes:
  assumes "apply_loop i olds xs inserted new_index tb = (inserted', new_index', tb')" "orders_ok xs inserted"
    "i + length olds \<le> length new_index" "\<forall>x \<in> set xs. target x < int (i + length olds)"
    "sorted_wrt (\<lambda>x y. target x \<le> target y) xs" "\<forall>x \<in> set xs. int i \<le> target x"
  shows "(\<forall>x \<in> set xs. \<exists>sp. merged_at (merged i olds xs) (length (tb_token_infos tb)) (inserted' ! in_insertion_order x) True
       (WithLeadingSpace sp (in_info x))) \<and>
    (\<forall>j < length olds. \<exists>sp. merged_at (merged i olds xs) (length (tb_token_infos tb)) (new_index' ! (i + j)) False
       (WithLeadingSpace sp (olds ! j))) \<and>
    length inserted' = length inserted \<and> length new_index' = length new_index \<and>
    (\<forall>k. k \<notin> in_insertion_order ` set xs \<longrightarrow> inserted' ! k = inserted ! k) \<and> (\<forall>k < i. new_index' ! k = new_index ! k)"
  using assms
proof (induction olds arbitrary: i xs inserted new_index tb)
  case Nil
  then show ?case by fastforce
next
  case (Cons old olds)
  let ?run = "takeWhile (\<lambda>x. target x = int i) xs" and ?rest = "dropWhile (\<lambda>x. target x = int i) xs"
  let ?old = "if ?run = [] then old else WithLeadingSpace False old" and ?n = "length (tb_token_infos tb)"
  have xs: "xs = ?run @ ?rest" by simp
  have empty: "xs = [] \<or> target (hd xs) \<noteq> int i \<longleftrightarrow> ?run = []" by (cases xs) simp_all
  have o: "orders_ok ?run inserted" "orders_ok ?rest inserted" "in_insertion_order ` set ?run \<inter> in_insertion_order ` set ?rest = {}"
    using Cons.prems(2) orders_ok_append [of ?run ?rest] by auto
  obtain inserted1 tb1 where r: "(if ?run = [] then (xs, inserted, tb)
      else apply_run (int i) (ti_has_leading_space old) xs inserted tb) = (?rest, inserted1, tb1)"
    and len1: "length (tb_token_infos tb1) = ?n + length ?run" "length inserted1 = length inserted"
    and keep1: "\<forall>k. k \<notin> in_insertion_order ` set ?run \<longrightarrow> inserted1 ! k = inserted ! k"
    and run1: "\<forall>j < length ?run. inserted1 ! in_insertion_order (?run ! j) = int (?n + j)"
  proof (cases "?run = []")
    case True
    then have "?rest = xs" using xs by (metis append_Nil)
    then show thesis using that True by simp
  next
    case False
    obtain rest inserted1 tb1 where r: "apply_run (int i) (ti_has_leading_space old) xs inserted tb = (rest, inserted1, tb1)"
      by (metis prod_cases3)
    note a = apply_run_inserted [OF r o(1)]
    have "rest = ?rest \<and> length (tb_token_infos tb1) = ?n + length ?run" using apply_run_lengths [OF r] .
    then show thesis using that [of inserted1 tb1] r False a by auto
  qed
  let ?new1 = "new_index[i := int (length (tb_token_infos tb1))]" and ?M = "merged (Suc i) olds ?rest"
  let ?L = "map (Pair True) (run_infos (ti_has_leading_space old) ?run) @ [(False, ?old)]"
  have loop: "apply_loop (Suc i) olds ?rest inserted1 ?new1 (add_old ?old tb1) = (inserted', new_index', tb')"
    using Cons.prems(1) r empty by (simp split: if_splits)
  have M: "merged i (old # olds) xs = ?L @ ?M" by (simp add: Let_def)
  have nL: "length (tb_token_infos (add_old ?old tb1)) = ?n + length ?L" using len1(1) by (simp add: add_old_def)
  note rest = after_run [OF Cons.prems(5,6)]
  have "(\<forall>x \<in> set ?rest. \<exists>sp. merged_at ?M (?n + length ?L) (inserted' ! in_insertion_order x) True (WithLeadingSpace sp (in_info x))) \<and>
    (\<forall>j < length olds. \<exists>sp. merged_at ?M (?n + length ?L) (new_index' ! (Suc i + j)) False (WithLeadingSpace sp (olds ! j))) \<and>
    length inserted' = length inserted1 \<and> length new_index' = length ?new1 \<and>
    (\<forall>k. k \<notin> in_insertion_order ` set ?rest \<longrightarrow> inserted' ! k = inserted1 ! k) \<and> (\<forall>k < Suc i. new_index' ! k = ?new1 ! k)"
    unfolding nL [symmetric]
  proof (rule Cons.IH [OF loop _ _ _ rest])
    show "orders_ok ?rest inserted1" using o(2) len1(2) by (simp add: orders_ok_def)
    show "Suc i + length olds \<le> length ?new1" using Cons.prems(3) by simp
    show "\<forall>x \<in> set ?rest. target x < int (Suc i + length olds)" using Cons.prems(4) by (auto dest: set_dropWhileD)
  qed
  then have ih: "\<forall>x \<in> set ?rest. \<exists>sp. merged_at ?M (?n + length ?L) (inserted' ! in_insertion_order x) True (WithLeadingSpace sp (in_info x))"
    "\<forall>j < length olds. \<exists>sp. merged_at ?M (?n + length ?L) (new_index' ! (Suc i + j)) False (WithLeadingSpace sp (olds ! j))"
    "length inserted' = length inserted1" "length new_index' = length ?new1"
    "\<forall>k. k \<notin> in_insertion_order ` set ?rest \<longrightarrow> inserted' ! k = inserted1 ! k" "\<forall>k < Suc i. new_index' ! k = ?new1 ! k" by blast+
  have "\<exists>sp. merged_at (?L @ ?M) ?n (inserted' ! in_insertion_order x) True (WithLeadingSpace sp (in_info x))" if x: "x \<in> set xs" for x
  proof (cases "x \<in> set ?rest")
    case True
    then show ?thesis using ih(1) merged_at_append by blast
  next
    case False
    then have "x \<in> set ?run" using x xs by (metis Un_iff set_append)
    then obtain j where j: "j < length ?run" "?run ! j = x" by (auto simp: in_set_conv_nth)
    have "in_insertion_order x \<notin> in_insertion_order ` set ?rest" using o(3) \<open>x \<in> set ?run\<close> by blast
    then have "inserted' ! in_insertion_order x = int (?n + j)" using ih(5) run1 j by auto
    moreover obtain b where "run_infos (ti_has_leading_space old) ?run ! j = WithLeadingSpace b (in_info x)" using run_infos_nth [OF j(1)] j(2) by blast
    then have "(?L @ ?M) ! j = (True, WithLeadingSpace b (in_info x))" using j(1) by (simp add: nth_append)
    ultimately show ?thesis using j(1) unfolding merged_at_def by (intro exI [of _ b] exI [of _ j]) simp
  qed
  moreover have "\<exists>sp. merged_at (?L @ ?M) ?n (new_index' ! (i + j)) False (WithLeadingSpace sp ((old # olds) ! j))"
    if j: "j < length (old # olds)" for j
  proof (cases j)
    case 0
    have "new_index' ! i = int (?n + length ?run)" using ih(6) Cons.prems(3) len1(1) by simp
    moreover have "(?L @ ?M) ! length ?run = (False, ?old)" by (simp add: nth_append)
    moreover obtain sp where "?old = WithLeadingSpace sp old" using WithLeadingSpace_same [of old] by (metis (full_types))
    moreover have "length ?run < length (?L @ ?M)" by simp
    ultimately show ?thesis unfolding merged_at_def 0
      by (intro exI [of _ sp] exI [of _ "length ?run"] conjI) (simp_all only: nth_Cons_0 add_0_right)
  next
    case (Suc j')
    then have "\<exists>sp. merged_at ?M (?n + length ?L) (new_index' ! (Suc i + j')) False (WithLeadingSpace sp (olds ! j'))" using ih(2) j by simp
    then show ?thesis using merged_at_append Suc by fastforce
  qed
  moreover have "\<forall>k. k \<notin> in_insertion_order ` set xs \<longrightarrow> inserted' ! k = inserted ! k"
  proof (intro allI impI)
    fix k assume "k \<notin> in_insertion_order ` set xs"
    moreover have "set xs = set ?run \<union> set ?rest" using xs by (metis set_append)
    ultimately have "k \<notin> in_insertion_order ` set ?rest" "k \<notin> in_insertion_order ` set ?run" by blast+
    then show "inserted' ! k = inserted ! k" using ih(5) keep1 by simp
  qed
  ultimately show ?case unfolding M using ih(3,4,6) len1(2) by auto
qed

section \<open>Places\<close>

lemma merged_length:
  assumes "sorted_wrt (\<lambda>x y. target x \<le> target y) xs" "\<forall>x \<in> set xs. int i \<le> target x \<and> target x < int (i + length olds)"
  shows "length (merged i olds xs) = length olds + length xs"
  using assms
proof (induction olds arbitrary: i xs)
  case Nil
  then show ?case by (cases xs) auto
next
  case (Cons old olds)
  let ?rest = "dropWhile (\<lambda>x. target x = int i) xs"
  have "\<forall>x \<in> set xs. int i \<le> target x" using Cons.prems(2) by blast
  note rest = after_run [OF Cons.prems(1) this]
  have "\<forall>x \<in> set ?rest. int (Suc i) \<le> target x \<and> target x < int (Suc i + length olds)"
    using rest(2) Cons.prems(2) by (auto dest: set_dropWhileD)
  from Cons.IH [OF rest(1) this] split_run [of xs "\<lambda>x. target x = int i"] show ?case by (simp add: Let_def)
qed

text \<open>The merged tokens with their places, for any function that gives the place and the kind of an insertion.\<close>

type_synonym tplace = "int \<times> nat \<times> int"

fun merged_places :: "(Insertion \<Rightarrow> tplace \<times> TokenKind) \<Rightarrow> nat \<Rightarrow> TokenInfo list \<Rightarrow> Insertion list \<Rightarrow> (tplace \<times> TokenKind) list" where
  "merged_places f i [] xs = []"
| "merged_places f i (old # olds) xs =
     map f (takeWhile (\<lambda>x. target x = int i) xs) @ ((int i, 2, 0), ti_kind old) #
     merged_places f (Suc i) olds (dropWhile (\<lambda>x. target x = int i) xs)"

lemma merged_places_kinds:
  "\<forall>x \<in> set xs. snd (f x) = ti_kind (in_info x) \<Longrightarrow>
   map snd (merged_places f i olds xs) = map (\<lambda>m. ti_kind (snd m)) (merged i olds xs)"
proof (induction olds arbitrary: i xs)
  case (Cons old olds)
  have "\<forall>x \<in> set (dropWhile (\<lambda>x. target x = int i) xs). snd (f x) = ti_kind (in_info x)"
    using Cons.prems by (auto dest: set_dropWhileD)
  from Cons.IH [OF this] Cons.prems run_infos_kinds [of "ti_has_leading_space old" "takeWhile (\<lambda>x. target x = int i) xs"]
  show ?case by (auto simp: Let_def comp_def dest: set_takeWhileD)
qed simp

lemma merged_places_set:
  assumes "sorted_wrt (\<lambda>x y. target x \<le> target y) xs" "\<forall>x \<in> set xs. int i \<le> target x \<and> target x < int (i + length olds)"
  shows "set (merged_places f i olds xs) = f ` set xs \<union> {((int (i + j), 2, 0), ti_kind (olds ! j)) | j. j < length olds}"
  using assms
proof (induction olds arbitrary: i xs)
  case Nil
  then show ?case by fastforce
next
  case (Cons old olds)
  let ?run = "takeWhile (\<lambda>x. target x = int i) xs" and ?rest = "dropWhile (\<lambda>x. target x = int i) xs"
  have "\<forall>x \<in> set xs. int i \<le> target x" using Cons.prems(2) by blast
  note rest = after_run [OF Cons.prems(1) this]
  have "\<forall>x \<in> set ?rest. int (Suc i) \<le> target x \<and> target x < int (Suc i + length olds)"
    using rest(2) Cons.prems(2) by (auto dest: set_dropWhileD)
  note ih = Cons.IH [OF rest(1) this]
  have "set xs = set ?run \<union> set ?rest" by (metis set_append takeWhile_dropWhile_id)
  moreover have "{((int (i + j), 2 :: nat, 0 :: int), ti_kind ((old # olds) ! j)) | j. j < length (old # olds)} =
      insert ((int i, 2, 0), ti_kind old) {((int (Suc i + j), 2, 0), ti_kind (olds ! j)) | j. j < length olds}"
  proof -
    have "{g j | j. j < Suc n} = insert (g 0) {g (Suc j) | j. j < n}" for g :: "nat \<Rightarrow> tplace \<times> TokenKind" and n
      using less_Suc_eq_0_disj by auto
    from this [of "\<lambda>j. ((int (i + j), 2, 0), ti_kind ((old # olds) ! j))" "length olds"] show ?thesis by simp
  qed
  ultimately show ?case using ih by (auto simp: image_Un)
qed

lemma merged_places_order:
  assumes "sorted_wrt (\<lambda>x y. fst (f x) < fst (f y)) xs" "\<forall>x \<in> set xs. int i \<le> target x"
    "\<forall>x \<in> set xs. fst (fst (f x)) = target x \<and> fst (snd (fst (f x))) \<le> 1"
  shows "sorted_wrt (\<lambda>x y. fst x < fst y) (merged_places f i olds xs) \<and> (\<forall>y \<in> set (merged_places f i olds xs). int i \<le> fst (fst y))"
  using assms
proof (induction olds arbitrary: i xs)
  case (Cons old olds)
  let ?run = "takeWhile (\<lambda>x. target x = int i) xs" and ?rest = "dropWhile (\<lambda>x. target x = int i) xs"
  have t: "sorted_wrt (\<lambda>x y. target x \<le> target y) xs"
    using Cons.prems(1) by (rule sorted_wrt_mono_rel [rotated]) (use Cons.prems(3) in \<open>auto simp: less_prod_def\<close>)
  note rest = after_run [OF t Cons.prems(2)]
  have xs: "set xs = set ?run \<union> set ?rest" by (metis set_append takeWhile_dropWhile_id)
  have "sorted_wrt (\<lambda>x y. fst (f x) < fst (f y)) (?run @ ?rest)" using Cons.prems(1) by simp
  then have s: "sorted_wrt (\<lambda>x y. fst (f x) < fst (f y)) ?run" "sorted_wrt (\<lambda>x y. fst (f x) < fst (f y)) ?rest"
    unfolding sorted_wrt_append by blast+
  have "\<forall>x \<in> set ?rest. fst (fst (f x)) = target x \<and> fst (snd (fst (f x))) \<le> 1" using Cons.prems(3) by (auto dest: set_dropWhileD)
  from Cons.IH [OF s(2) rest(2) this]
  have ih: "sorted_wrt (\<lambda>x y. fst x < fst y) (merged_places f (Suc i) olds ?rest)"
    "\<forall>y \<in> set (merged_places f (Suc i) olds ?rest). int (Suc i) \<le> fst (fst y)" by blast+
  have run: "fst (fst (f x)) = int i" "fst (snd (fst (f x))) \<le> 1" if "x \<in> set ?run" for x
    using that Cons.prems(3) by (auto dest: set_takeWhileD)
  have a: "\<forall>x \<in> set ?run. fst (f x) < (int i, 2, 0)"
  proof
    fix x assume "x \<in> set ?run"
    from run [OF this] show "fst (f x) < (int i, 2, 0)" by (cases "fst (f x)") auto
  qed
  have later: "p < fst y" if "y \<in> set (merged_places f (Suc i) olds ?rest)" "fst p = int i" for p y
    using bspec [OF ih(2) that(1)] that(2) by (cases p; cases "fst y") auto
  have b: "\<forall>x \<in> set ?run. \<forall>y \<in> set (merged_places f (Suc i) olds ?rest). fst (f x) < fst y" using later run(1) by blast
  have c: "\<forall>y \<in> set (merged_places f (Suc i) olds ?rest). (int i, 2, 0) < fst y" using later by simp
  have d: "\<forall>y \<in> set (merged_places f (Suc i) olds ?rest). int i \<le> fst (fst y)" using ih(2) by fastforce
  have e: "\<forall>x \<in> set ?run. int i \<le> fst (fst (f x))" using run(1) by simp
  show ?case unfolding merged_places.simps sorted_wrt_append sorted_wrt_map sorted_wrt.simps
    using s(1) ih(1) a b c d e by (simp add: ball_Un)
qed simp

end
