(* ===== verification/Recovery_Collect.thy ===== *)
theory Recovery_Collect
  imports Lexer_Recovery Bracket_Fix
begin

text \<open>
  \<open>CollectMismatchedBracketTokens\<close> returns on every buffer whose tokens can be read, with every token but the start of the file, in
  order and with its bracket kind.
\<close>

definition readable :: "'a lex_env \<Rightarrow> 'a TokenizedBuffer \<Rightarrow> TokenInfo \<Rightarrow> bool" where
  "readable env tb ti \<longleftrightarrow> (\<exists>w. info_text env tb ti = Ret w \<and> ti_byte_offset ti + length w \<le> length (tb_source tb)) \<and>
     (\<exists>l < length (tb_line_infos tb). FindLineIndex tb (ti_byte_offset ti) = Ret l)"

definition readable_buffer :: "'a lex_env \<Rightarrow> 'a TokenizedBuffer \<Rightarrow> bool" where
  "readable_buffer env tb \<longleftrightarrow> tb_post_lexing_recovery_tokens tb = 0 \<and> (\<forall>i < length (tb_token_infos tb). readable env tb (tb_token_infos tb ! i))"

lemma readable_bufferD:
  assumes "readable_buffer env tb"
  shows "tokens_end tb = length (tb_token_infos tb)" "i < length (tb_token_infos tb) \<Longrightarrow> readable env tb (tb_token_infos tb ! i)"
  using assms by (simp_all add: readable_buffer_def tokens_end_def)

lemma kind_at_ok:
  assumes "readable_buffer env tb" "i \<le> length (tb_token_infos tb)"
  shows "kind_at tb i = Ret (if i = length (tb_token_infos tb) then None else Some (ti_kind (tb_token_infos tb ! i)))"
  using assms readable_bufferD(1) [OF assms(1)] by (simp add: kind_at_def GetKind_def store_get_def)

lemma struct_brace_ok:
  assumes "readable_buffer env tb" "i < length (tb_token_infos tb)"
  shows "\<exists>b. struct_brace_at tb i = Ret b"
  using kind_at_ok [OF assms(1), of "i + 1"] kind_at_ok [OF assms(1), of "i + 2"] assms(2)
  by (cases "i + 1 = length (tb_token_infos tb)") (auto simp: struct_brace_at_def)

lemma collect_token_ok:
  assumes "readable_buffer env tb" "i < length (tb_token_infos tb)" "line < length (tb_line_infos tb)"
  shows "\<exists>t. collect_token tb i (tb_token_infos tb ! i) line wide = Ret t \<and>
    token_pair t = (int i, collect_kind (ti_kind (tb_token_infos tb ! i)))"
proof -
  let ?kind = "ti_kind (tb_token_infos tb ! i)"
  have "\<exists>b. (if ?kind = Keyword Else_kw then else_keyword_at tb i else Ret False) = Ret b"
    using kind_at_ok [OF assms(1), of "i + 1"] assms(2) by (auto simp: else_keyword_at_def)
  then obtain b1 where b1: "(if ?kind = Keyword Else_kw then else_keyword_at tb i else Ret False) = Ret b1" by blast
  have "\<exists>n. (if ?kind = FileEnd then Ret 0 else GetIndentColumnNumber tb line) = Ret n"
    using assms(3) by (simp add: GetIndentColumnNumber_def store_get_def)
  then obtain n where n: "(if ?kind = FileEnd then Ret 0 else GetIndentColumnNumber tb line) = Ret n" by blast
  have "\<exists>b. ends_line tb i line = Ret b"
    using readable_bufferD(1) [OF assms(1)] readable_bufferD(2) [OF assms(1), of "i + 1"] assms(2) by (auto simp: ends_line_def GetLine_def store_get_def readable_def)
  then obtain b2 where b2: "ends_line tb i line = Ret b2" by blast
  obtain b3 where b3: "(if ?kind = Symbol OpenCurlyBrace then struct_brace_at tb i else Ret False) = Ret b3"
    using struct_brace_ok [OF assms(1,2)] by (cases "?kind = Symbol OpenCurlyBrace") auto
  show ?thesis by (simp add: collect_token_def Let_def b1 n b2 b3 token_pair_def)
qed

lemma collect_loop_ok:
  assumes "readable_buffer env tb" "\<forall>i \<in> set js. i < length (tb_token_infos tb)"
  shows "\<exists>ts. collect_loop env tb js prev = Ret ts \<and>
    map token_pair ts = map (\<lambda>i. (int i, collect_kind (ti_kind (tb_token_infos tb ! i))))
      (filter (\<lambda>i. ti_kind (tb_token_infos tb ! i) \<noteq> FileStart) js)"
  using assms(2)
proof (induction js arbitrary: prev)
  case (Cons j js)
  let ?info = "tb_token_infos tb ! j"
  have j: "j < length (tb_token_infos tb)" using Cons.prems by simp
  obtain w line where r: "info_text env tb ?info = Ret w" "line < length (tb_line_infos tb)"
    "FindLineIndex tb (ti_byte_offset ?info) = Ret line"
    using readable_bufferD(2) [OF assms(1) j] by (auto simp: readable_def)
  define wide where "wide = (case prev of None \<Rightarrow> False
    | Some (prev_end, prev_line) \<Rightarrow> line = prev_line \<and> prev_end + 2 \<le> ti_byte_offset ?info)"
  obtain t where t: "collect_token tb j ?info line wide = Ret t" "token_pair t = (int j, collect_kind (ti_kind ?info))"
    using collect_token_ok [OF assms(1) j r(2)] by blast
  have "\<forall>i \<in> set js. i < length (tb_token_infos tb)" using Cons.prems by simp
  from Cons.IH [OF this, of "Some (ti_byte_offset ?info + length w, line)"] obtain ts where
    ts: "collect_loop env tb js (Some (ti_byte_offset ?info + length w, line)) = Ret ts"
    "map token_pair ts = map (\<lambda>i. (int i, collect_kind (ti_kind (tb_token_infos tb ! i))))
      (filter (\<lambda>i. ti_kind (tb_token_infos tb ! i) \<noteq> FileStart) js)" by blast
  have "collect_loop env tb (j # js) prev = (if ti_kind ?info = FileStart then Ret ts else Ret (t # ts))"
    using j r ts(1) t(1) by (simp add: store_get_def GetLine_def GetTokenText_def wide_def)
  then show ?case using ts(2) t(2) by (cases "ti_kind ?info = FileStart") simp_all
qed simp

section \<open>Kinds\<close>

lemma collect_keyword_plain: "\<not> is_bracket (collect_keyword k)" "collect_keyword k \<noteq> FileEnd_k"
  by (simp_all add: collect_keyword_def IsOpeningBracket_def IsClosingBracket_def)

lemma collect_kind_bracket:
  "is_bracket (collect_kind k) \<longleftrightarrow> is_grouping_symbol k" "is_grouping_symbol k \<Longrightarrow> ToTokenKind (collect_kind k) = k"
proof -
  have "(is_bracket (collect_kind k) \<longleftrightarrow> is_grouping_symbol k) \<and> (is_grouping_symbol k \<longrightarrow> ToTokenKind (collect_kind k) = k)"
  proof (cases k)
    case (Symbol s)
    then show ?thesis
      by (cases s) (simp_all add: collect_symbol_def IsOpeningBracket_def IsClosingBracket_def
          is_grouping_symbol_def)
  next
    case (Keyword w)
    then show ?thesis using collect_keyword_plain(1) by (simp add: is_grouping_symbol_def)
  qed (simp_all add: IsOpeningBracket_def IsClosingBracket_def is_grouping_symbol_def IsLeafTokenKind_def)
  then show "is_bracket (collect_kind k) \<longleftrightarrow> is_grouping_symbol k" "is_grouping_symbol k \<Longrightarrow> ToTokenKind (collect_kind k) = k"
    by blast+
qed

section \<open>The stream\<close>

text \<open>The pairs of token index and bracket kind of a list of tokens.\<close>

definition bracket_stream :: "TokenInfo list \<Rightarrow> (int \<times> BracketTokenKind) list" where
  "bracket_stream infos = map (\<lambda>i. (int i, collect_kind (ti_kind (infos ! i)))) (filter (\<lambda>i. ti_kind (infos ! i) \<noteq> FileStart) [0..<length infos])"

lemma bracket_stream_iff:
  "(p, k) \<in> set (bracket_stream infos) \<longleftrightarrow>
   (\<exists>i < length infos. p = int i \<and> ti_kind (infos ! i) \<noteq> FileStart \<and> k = collect_kind (ti_kind (infos ! i)))"
  by (auto simp: bracket_stream_def)

theorem CollectMismatchedBracketTokens_ok:
  assumes "readable_buffer env tb" "2 \<le> length (tb_token_infos tb)" "ti_kind (hd (tb_token_infos tb)) = FileStart"
    "ti_kind (last (tb_token_infos tb)) = FileEnd"
  shows "\<exists>ts. CollectMismatchedBracketTokens env tb = Ret ts \<and> stream_ok ts \<and> map token_pair ts = bracket_stream (tb_token_infos tb) \<and>
    1 \<le> mb_token_index (hd ts) \<and> mb_token_index (last ts) = int (length (tb_token_infos tb)) - 1"
proof -
  let ?infos = "tb_token_infos tb" and ?js = "filter (\<lambda>i. ti_kind (tb_token_infos tb ! i) \<noteq> FileStart) [0..<length (tb_token_infos tb)]"
  obtain ts where ts: "CollectMismatchedBracketTokens env tb = Ret ts" "map token_pair ts = bracket_stream ?infos"
    using collect_loop_ok [OF assms(1), of "[0..<length ?infos]" None] readable_bufferD(1) [OF assms(1)]
    by (auto simp: CollectMismatchedBracketTokens_def bracket_stream_def)
  obtain m where m: "length ?infos = Suc m" "0 < m" using assms(2) by (cases "length ?infos") auto
  have "?infos ! m = last ?infos" "?infos ! 0 = hd ?infos" using m by (simp_all add: last_conv_nth hd_conv_nth flip: length_0_conv)
  then have js: "?js = filter (\<lambda>i. ti_kind (?infos ! i) \<noteq> FileStart) [0..<m] @ [m]" "\<forall>i \<in> set ?js. 1 \<le> i"
    using m assms(3,4) by (auto simp: Suc_le_eq intro: gr0I)
  have ne: "ts \<noteq> []" using ts(2) js(1) by (auto simp: bracket_stream_def)
  have idx: "map mb_token_index ts = map int ?js" "map mb_kind ts = map (\<lambda>i. collect_kind (ti_kind (?infos ! i))) ?js"
    using arg_cong [OF ts(2), of "map fst"] arg_cong [OF ts(2), of "map snd"] by (simp_all add: bracket_stream_def token_pair_def comp_def)
  have sorted: "sorted_wrt (<) (map mb_token_index ts)"
    unfolding idx by (simp add: sorted_wrt_map sorted_wrt_filter)
  have last: "mb_token_index (last ts) = int m" "mb_kind (last ts) = FileEnd_k"
    using arg_cong [OF idx(1), of last] arg_cong [OF idx(2), of last] js(1) ne \<open>?infos ! m = last ?infos\<close> assms(4)
    by (simp_all add: last_map)
  have "mb_token_index (hd ts) \<in> set (map int ?js)" using ne idx(1) by (metis hd_in_set image_eqI list.set_map)
  then have "1 \<le> mb_token_index (hd ts)" using js(2) by fastforce
  with ts ne sorted last m(1) show ?thesis by (simp add: stream_ok_def)
qed

end
