(* ===== verification/Recovery_Corrections.thy ===== *)
theory Recovery_Corrections
  imports Recovery_Collect
begin

text \<open>
  The loop of \<open>DiagnoseAndFixMismatchedBrackets\<close> over the corrections: no check fails; the brackets that are given up become error
  tokens, the others stay, and each insertion is requested in the order of the corrections.
\<close>

section \<open>Reading a buffer whose tokens change\<close>

lemma info_text_infos [simp]: "info_text env (tb\<lparr>tb_token_infos := us\<rparr>) ti = info_text env tb ti"
  by (simp add: info_text_def info_is_raw_def Let_def)

lemma FindLineIndex_infos [simp]: "FindLineIndex (tb\<lparr>tb_token_infos := us\<rparr>) off = FindLineIndex tb off"
  by (simp add: FindLineIndex_def)

lemma readable_infos [simp]: "readable env (tb\<lparr>tb_token_infos := us\<rparr>) ti = readable env tb ti"
  by (simp add: readable_def)

lemma AsError_simps [simp]:
  "ti_kind (AsError len ti) = Error" "ti_byte_offset (AsError len ti) = ti_byte_offset ti"
  "ti_has_leading_space (AsError len ti) = ti_has_leading_space ti" "AsError len (AsError len' ti) = AsError len ti"
  by (simp_all add: AsError_def)

lemma readable_AsError: "readable env tb ti \<Longrightarrow> readable env tb (AsError len ti)"
  by (auto simp: readable_def info_text_def error_length_def substr_def AsError_def)

lemma get_token_ok: "0 \<le> p \<Longrightarrow> p < int (length (tb_token_infos tb)) \<Longrightarrow> get_token tb p = Ret (tb_token_infos tb ! nat p)"
  by (simp add: get_token_def store_get_def)

section \<open>The corrections made so far\<close>

definition given_up_infos :: "BracketCorrection list \<Rightarrow> TokenInfo list \<Rightarrow> TokenInfo list \<Rightarrow> bool" where
  "given_up_infos P infos us \<longleftrightarrow> length us = length infos \<and>
     (\<forall>i < length infos. if int i \<in> given_up P then \<exists>len. us ! i = AsError len (infos ! i) else us ! i = infos ! i)"

definition insertion_of :: "nat \<Rightarrow> BracketCorrection \<Rightarrow> Insertion \<Rightarrow> bool" where
  "insertion_of j c x \<longleftrightarrow> in_anchor x = bc_fix_token_index c \<and> \<not> in_is_after x \<and> in_insertion_order x = j \<and>
     ti_kind (in_info x) = bc_fix_token_kind c"

definition insertions_of :: "BracketCorrection list \<Rightarrow> Insertion list \<Rightarrow> bool" where
  "insertions_of cs xs \<longleftrightarrow> length xs = length cs \<and> (\<forall>j < length cs. insertion_of j (cs ! j) (xs ! j))"

definition insertion_ids_of :: "BracketCorrection list \<Rightarrow> nat option list" where
  "insertion_ids_of P = map (\<lambda>k. if inserts (P ! k) then Some (length (filter inserts (take k P))) else None) [0..<length P]"

text \<open>The diagnostic of a correction: at its bracket, of its kind, and with a note for the bracket to insert when there is one.\<close>

definition diag_of :: "TokenInfo list \<Rightarrow> BracketCorrection \<Rightarrow> nat \<times> lex_diag \<Rightarrow> bool" where
  "diag_of infos c d \<longleftrightarrow> fst d = ti_byte_offset (infos ! nat (bc_diagnostic_token_index c)) \<and>
     (\<exists>pos. let note = (if inserts c then Some (pos, bc_fix_token_kind c) else None) in
        snd d = (if bc_diagnostic_kind c = UnmatchedOpening_d then UnmatchedOpening note else UnmatchedClosing note))"

definition diags_of :: "TokenInfo list \<Rightarrow> BracketCorrection list \<Rightarrow> lex_diag emitted \<Rightarrow> bool" where
  "diags_of infos P ds \<longleftrightarrow> list_all2 (diag_of infos) P ds"

definition fixing_ok :: "'a TokenizedBuffer \<Rightarrow> lex_diag emitted \<Rightarrow> BracketCorrection list \<Rightarrow> 'a fixing \<Rightarrow> bool" where
  "fixing_ok tb ds P fx \<longleftrightarrow>
     (\<exists>us. fx_buffer fx = tb\<lparr>tb_token_infos := us\<rparr> \<and> given_up_infos P (tb_token_infos tb) us) \<and>
     insertions_of (filter inserts P) (er_insertions (fx_fixes fx)) \<and>
     (\<forall>x \<in> set (er_insertions (fx_fixes fx)). ti_byte_offset (in_info x) \<le> length (tb_source tb)) \<and>
     (er_any_error_tokens (fx_fixes fx) \<longleftrightarrow> given_up P \<noteq> {}) \<and> fx_insertion_ids fx = insertion_ids_of P \<and>
     (\<exists>ds'. fx_diags fx = ds @ ds' \<and> diags_of (tb_token_infos tb) P ds')"

lemma insertions_of_snoc: "insertions_of cs xs \<Longrightarrow> insertion_of (length cs) c x \<Longrightarrow> insertions_of (cs @ [c]) (xs @ [x])"
  by (auto simp: insertions_of_def nth_append less_Suc_eq)

lemma insertion_ids_snoc:
  "insertion_ids_of (P @ [c]) = insertion_ids_of P @ [if inserts c then Some (length (filter inserts P)) else None]"
  by (simp add: insertion_ids_of_def nth_append cong: map_cong)

lemma diags_snoc: "diags_of infos P ds \<Longrightarrow> diag_of infos c d \<Longrightarrow> diags_of infos (P @ [c]) (ds @ [d])"
  by (simp add: diags_of_def list_all2_appendI)

lemma given_up_snoc:
  "given_up (P @ [c]) = given_up P \<union> (if inserts c then {} else if bc_fix_action c = ReplaceWithError then {bc_fix_token_index c}
     else {bc_diagnostic_token_index c})"
  by (auto simp: given_up_def inserts_def)

lemma given_up_infos_replace:
  assumes "given_up_infos P infos us" "0 \<le> p" "p < int (length infos)" "given_up (P @ [c]) = insert p (given_up P)"
  shows "given_up_infos (P @ [c]) infos (us[nat p := AsError len (us ! nat p)])"
  unfolding given_up_infos_def
proof (intro conjI allI impI)
  show "length (us[nat p := AsError len (us ! nat p)]) = length infos" using assms(1) by (simp add: given_up_infos_def)
  fix i assume i: "i < length infos"
  have u: "if int i \<in> given_up P then \<exists>len. us ! i = AsError len (infos ! i) else us ! i = infos ! i" "length us = length infos"
    using assms(1) i by (auto simp: given_up_infos_def)
  show "if int i \<in> given_up (P @ [c]) then \<exists>l. us[nat p := AsError len (us ! nat p)] ! i = AsError l (infos ! i)
      else us[nat p := AsError len (us ! nat p)] ! i = infos ! i"
  proof (cases "i = nat p")
    case True
    have "us ! i = infos ! i \<or> (\<exists>l. us ! i = AsError l (infos ! i))" using u(1) by (auto split: if_splits)
    then have "AsError len (us ! i) = AsError len (infos ! i)" by auto
    then show ?thesis using True assms(2-4) u(2) i by auto
  next
    case False
    then show ?thesis using u assms(2,4) by auto
  qed
qed

lemma given_up_infos_readable:
  assumes "readable_buffer env tb" "given_up_infos P (tb_token_infos tb) us" "i < length (tb_token_infos tb)"
  shows "readable env tb (us ! i)" "ti_byte_offset (us ! i) = ti_byte_offset (tb_token_infos tb ! i)"
proof -
  have "us ! i = tb_token_infos tb ! i \<or> (\<exists>len. us ! i = AsError len (tb_token_infos tb ! i))"
    using assms(2,3) by (auto simp: given_up_infos_def split: if_splits)
  then show "readable env tb (us ! i)" "ti_byte_offset (us ! i) = ti_byte_offset (tb_token_infos tb ! i)"
    using readable_bufferD(2) [OF assms(1,3)] readable_AsError by auto
qed

section \<open>One correction\<close>

lemma read_token:
  assumes "\<forall>i < length (tb_token_infos tb). readable env tb (tb_token_infos tb ! i)" "0 \<le> p" "p < int (length (tb_token_infos tb))"
  obtains w l where "get_token tb p = Ret (tb_token_infos tb ! nat p)" "info_text env tb (tb_token_infos tb ! nat p) = Ret w"
    "ti_byte_offset (tb_token_infos tb ! nat p) + length w \<le> length (tb_source tb)"
    "FindLineIndex tb (ti_byte_offset (tb_token_infos tb ! nat p)) = Ret l" "l < length (tb_line_infos tb)"
proof -
  have "nat p < length (tb_token_infos tb)" using assms(2,3) by simp
  with assms(1) have "readable env tb (tb_token_infos tb ! nat p)" by blast
  with get_token_ok [OF assms(2,3)] show thesis using that by (auto simp: readable_def)
qed

lemma BracketInsertionPosition_ok:
  assumes "\<forall>i < length (tb_token_infos tb). readable env tb (tb_token_infos tb ! i)" "bc_fix_action c = InsertBefore"
    "1 \<le> bc_fix_token_index c" "bc_fix_token_index c < int (length (tb_token_infos tb))"
    "0 \<le> bc_diagnostic_token_index c" "bc_diagnostic_token_index c < int (length (tb_token_infos tb))"
  shows "\<exists>pos. BracketInsertionPosition env tb c = Ret pos"
proof -
  let ?p = "bc_fix_token_index c - 1" and ?d = "bc_diagnostic_token_index c"
  have "0 \<le> ?p" "?p < int (length (tb_token_infos tb))" using assms(3,4) by simp_all
  then obtain w where p: "get_token tb ?p = Ret (tb_token_infos tb ! nat ?p)" "info_text env tb (tb_token_infos tb ! nat ?p) = Ret w"
    by (rule read_token [OF assms(1)])
  obtain l where d: "get_token tb ?d = Ret (tb_token_infos tb ! nat ?d)"
    "FindLineIndex tb (ti_byte_offset (tb_token_infos tb ! nat ?d)) = Ret l" "l < length (tb_line_infos tb)"
    by (rule read_token [OF assms(1,5,6)])
  show ?thesis using assms(2,3) p d
    by (simp add: BracketInsertionPosition_def TokenEndPosition_def TokenStartPosition_def get_text_def TokenIndex_None_def
        GetIndentColumnNumber_def store_get_def Let_def)
qed

lemma InsertBefore_ok:
  assumes "\<forall>i < length (tb_token_infos tb). readable env tb (tb_token_infos tb ! i)" "1 \<le> p" "p < int (length (tb_token_infos tb))"
  shows "\<exists>x. Recovery_InsertBefore env tb p kind er = Ret (length (er_insertions er), er\<lparr>er_insertions := er_insertions er @ [x]\<rparr>) \<and>
    in_anchor x = p \<and> \<not> in_is_after x \<and> in_insertion_order x = length (er_insertions er) \<and> ti_kind (in_info x) = kind \<and>
    ti_byte_offset (in_info x) \<le> length (tb_source tb)"
proof -
  have q: "0 \<le> p - 1" "p - 1 < int (length (tb_token_infos tb))" using assms(2,3) by simp_all
  obtain w where w: "get_token tb (p - 1) = Ret (tb_token_infos tb ! nat (p - 1))" "info_text env tb (tb_token_infos tb ! nat (p - 1)) = Ret w"
    "ti_byte_offset (tb_token_infos tb ! nat (p - 1)) + length w \<le> length (tb_source tb)"
    by (rule read_token [OF assms(1) q])
  have "get_token tb p = Ret (tb_token_infos tb ! nat p)" using assms(2,3) by (intro get_token_ok) simp_all
  then show ?thesis using assms(2,3) w
    by (intro exI [of _ "\<lparr>in_anchor = p, in_is_after = False, in_insertion_order = length (er_insertions er),
        in_info = TokenInfo_plain kind (ti_has_leading_space (tb_token_infos tb ! nat p))
          (ti_byte_offset (tb_token_infos tb ! nat (p - 1)) + length w)\<rparr>"])
      (simp add: Recovery_InsertBefore_def AddInsertion_def get_text_def Let_def)
qed

lemma ReplaceWithError_ok:
  assumes "\<forall>i < length (tb_token_infos tb). readable env tb (tb_token_infos tb ! i)" "0 \<le> p" "p < int (length (tb_token_infos tb))"
  shows "\<exists>len. Recovery_ReplaceWithError env p er tb = Ret (er\<lparr>er_any_error_tokens := True\<rparr>,
    tb\<lparr>tb_token_infos := (tb_token_infos tb)[nat p := AsError len (tb_token_infos tb ! nat p)]\<rparr>)"
proof -
  obtain w where "get_token tb p = Ret (tb_token_infos tb ! nat p)" "info_text env tb (tb_token_infos tb ! nat p) = Ret w"
    by (rule read_token [OF assms])
  then show ?thesis by (auto simp: Recovery_ReplaceWithError_def get_text_def)
qed

text \<open>A correction of a buffer's tokens, between the first token after the start of the file and the end of the file.\<close>

definition correction_in :: "TokenInfo list \<Rightarrow> BracketCorrection \<Rightarrow> bool" where
  "correction_in infos c \<longleftrightarrow> 1 \<le> bc_diagnostic_token_index c \<and> bc_diagnostic_token_index c < int (length infos) \<and>
     bc_fix_action c \<noteq> InsertAfter \<and>
     (if bc_fix_action c = ReplaceWithError then bc_fix_token_index c = bc_diagnostic_token_index c
      else 1 \<le> bc_fix_token_index c \<and> bc_fix_token_index c < int (length infos))"

lemma fix_correction_insert:
  assumes "readable_buffer env tb" "fixing_ok tb ds P fx" "correction_in (tb_token_infos tb) c" "inserts c"
  shows "\<exists>fx'. fix_correction env c fx = Ret fx' \<and> fixing_ok tb ds (P @ [c]) fx'"
proof -
  let ?infos = "tb_token_infos tb"
  obtain us where us: "fx_buffer fx = tb\<lparr>tb_token_infos := us\<rparr>" "given_up_infos P ?infos us"
    using assms(2) by (auto simp: fixing_ok_def)
  have len: "length us = length ?infos" using us(2) by (simp add: given_up_infos_def)
  have r: "\<forall>i < length (tb_token_infos (fx_buffer fx)). readable env (fx_buffer fx) (tb_token_infos (fx_buffer fx) ! i)"
    using given_up_infos_readable(1) [OF assms(1) us(2)] by (simp add: us(1) len)
  have a: "bc_fix_action c = InsertBefore" "\<not> bc_is_tied c"
    using assms(3,4) by (cases "bc_fix_action c", auto simp: correction_in_def inserts_def)
  have b: "1 \<le> bc_fix_token_index c" "bc_fix_token_index c < int (length us)" "0 \<le> bc_diagnostic_token_index c"
    "bc_diagnostic_token_index c < int (length us)"
    using assms(3) a(1) len by (auto simp: correction_in_def)
  obtain pos where pos: "BracketInsertionPosition env (fx_buffer fx) c = Ret pos"
    using BracketInsertionPosition_ok [OF r a(1)] b us(1) by auto
  obtain x where x: "Recovery_InsertBefore env (fx_buffer fx) (bc_fix_token_index c) (bc_fix_token_kind c) (fx_fixes fx) =
      Ret (length (er_insertions (fx_fixes fx)), (fx_fixes fx)\<lparr>er_insertions := er_insertions (fx_fixes fx) @ [x]\<rparr>)"
    "insertion_of (length (er_insertions (fx_fixes fx))) c x" "ti_byte_offset (in_info x) \<le> length (tb_source tb)"
    using InsertBefore_ok [OF r, of "bc_fix_token_index c" "bc_fix_token_kind c" "fx_fixes fx"] b us(1) by (auto simp: insertion_of_def)
  have n: "length (er_insertions (fx_fixes fx)) = length (filter inserts P)"
    using assms(2) by (simp add: fixing_ok_def insertions_of_def)
  have start: "TokenStartPosition (fx_buffer fx) (bc_diagnostic_token_index c) =
      Ret (ti_byte_offset (?infos ! nat (bc_diagnostic_token_index c)))"
    using get_token_ok [of "bc_diagnostic_token_index c" "fx_buffer fx"] b given_up_infos_readable(2) [OF assms(1) us(2)] len
    by (simp add: TokenStartPosition_def us(1))
  have g: "given_up (P @ [c]) = given_up P" using assms(4) by (simp add: given_up_snoc)
  have "given_up_infos (P @ [c]) ?infos us" using us(2) by (simp add: given_up_infos_def g)
  moreover have "insertions_of (filter inserts (P @ [c])) (er_insertions (fx_fixes fx) @ [x])"
    using insertions_of_snoc [of "filter inserts P" _ c x] assms(2,4) x(2) n by (simp add: fixing_ok_def)
  ultimately show ?thesis using assms(2,4) a pos x(1,3) start n us(1)
    by (auto simp: fix_correction_def fixing_ok_def g insertion_ids_snoc diag_of_def Let_def intro!: diags_snoc)
qed

lemma fix_correction_give_up:
  assumes "readable_buffer env tb" "fixing_ok tb ds P fx" "correction_in (tb_token_infos tb) c" "\<not> inserts c"
  shows "\<exists>fx'. fix_correction env c fx = Ret fx' \<and> fixing_ok tb ds (P @ [c]) fx'"
proof -
  let ?infos = "tb_token_infos tb" and ?d = "bc_diagnostic_token_index c"
  obtain us where us: "fx_buffer fx = tb\<lparr>tb_token_infos := us\<rparr>" "given_up_infos P ?infos us"
    using assms(2) by (auto simp: fixing_ok_def)
  have len: "length us = length ?infos" using us(2) by (simp add: given_up_infos_def)
  have r: "\<forall>i < length (tb_token_infos (fx_buffer fx)). readable env (fx_buffer fx) (tb_token_infos (fx_buffer fx) ! i)"
    using given_up_infos_readable(1) [OF assms(1) us(2)] by (simp add: us(1) len)
  have b: "0 \<le> ?d" "?d < int (length us)" "bc_fix_action c = ReplaceWithError \<Longrightarrow> bc_fix_token_index c = ?d"
    using assms(3) len by (auto simp: correction_in_def)
  obtain l where e: "Recovery_ReplaceWithError env ?d (fx_fixes fx) (fx_buffer fx) = Ret ((fx_fixes fx)\<lparr>er_any_error_tokens := True\<rparr>,
      tb\<lparr>tb_token_infos := us[nat ?d := AsError l (us ! nat ?d)]\<rparr>)"
    using ReplaceWithError_ok [OF r, of ?d "fx_fixes fx"] b us(1) by auto
  have start: "TokenStartPosition (fx_buffer fx) ?d = Ret (ti_byte_offset (?infos ! nat ?d))"
    using get_token_ok [of ?d "fx_buffer fx"] b given_up_infos_readable(2) [OF assms(1) us(2)] len
    by (simp add: TokenStartPosition_def us(1))
  have g: "given_up (P @ [c]) = insert ?d (given_up P)" using assms(4) b(3) by (auto simp: given_up_snoc)
  have "given_up_infos (P @ [c]) ?infos (us[nat ?d := AsError l (us ! nat ?d)])"
    using given_up_infos_replace [OF us(2) b(1) _ g] b(2) len by simp
  moreover have "bc_fix_action c = ReplaceWithError \<or> bc_is_tied c" using assms(4) by (simp add: inserts_def)
  ultimately show ?thesis using assms(2,4) b(3) e start
    by (auto simp: fix_correction_def fixing_ok_def g insertion_ids_snoc diag_of_def Let_def intro!: diags_snoc)
qed

section \<open>All corrections\<close>

lemma fix_corrections_from:
  assumes "readable_buffer env tb" "fixing_ok tb ds P fx" "\<forall>c \<in> set C. correction_in (tb_token_infos tb) c"
  shows "\<exists>fx'. fix_corrections env C fx = Ret fx' \<and> fixing_ok tb ds (P @ C) fx'"
  using assms(2,3)
proof (induction C arbitrary: P fx)
  case (Cons c C)
  have c: "correction_in (tb_token_infos tb) c" using Cons.prems(2) by simp
  obtain fx1 where f: "fix_correction env c fx = Ret fx1" "fixing_ok tb ds (P @ [c]) fx1"
    using fix_correction_insert [OF assms(1) Cons.prems(1) c] fix_correction_give_up [OF assms(1) Cons.prems(1) c] by blast
  from Cons.IH [OF f(2)] Cons.prems(2) f(1) show ?case by simp
qed simp

theorem fix_corrections_ok:
  assumes "readable_buffer env tb" "\<forall>c \<in> set C. correction_in (tb_token_infos tb) c"
  shows "\<exists>fx. fix_corrections env C \<lparr>fx_fixes = ErrorRecoveryBuffer_init, fx_buffer = tb, fx_diags = ds, fx_insertion_ids = []\<rparr> = Ret fx \<and>
    fixing_ok tb ds C fx"
proof -
  have "given_up [] = {}" by (simp add: given_up_def)
  then have "fixing_ok tb ds [] \<lparr>fx_fixes = ErrorRecoveryBuffer_init, fx_buffer = tb, fx_diags = ds, fx_insertion_ids = []\<rparr>"
    by (auto simp: fixing_ok_def given_up_infos_def insertions_of_def ErrorRecoveryBuffer_init_def insertion_ids_of_def diags_of_def
        intro!: exI [of _ "tb_token_infos tb"])
  from fix_corrections_from [OF assms(1) this assms(2)] show ?thesis by simp
qed

end
