(* ===== verification/Recovery_Apply.thy ===== *)
theory Recovery_Apply
  imports Recovery_Merge Recovery_Corrections
begin

text \<open>
  Applying the corrections of a repair: the insertions come to stand at the places the repair gives them, so that the brackets of the
  merged tokens are balanced.
\<close>

section \<open>Insertions in order\<close>

definition place_of :: "BracketCorrection list \<Rightarrow> Insertion \<Rightarrow> tplace \<times> TokenKind" where
  "place_of cs x = slot (cs ! in_insertion_order x)"

lemma insertions_ofD:
  assumes "insertions_of cs xs" "x \<in> set xs"
  obtains j where "j < length cs" "x = xs ! j" "insertion_of j (cs ! j) x"
  using assms by (auto simp: insertions_of_def in_set_conv_nth)

lemma place_of_simps:
  assumes "insertions_of cs xs" "x \<in> set xs"
  shows "fst (fst (place_of cs x)) = target x \<and> fst (snd (fst (place_of cs x))) \<le> 1" "snd (place_of cs x) = ti_kind (in_info x)"
    "place_of cs x \<in> slot ` set cs"
  using assms(2) by (auto elim!: insertions_ofD [OF assms(1)] simp: place_of_def insertion_of_def slot_def target_def)

lemma place_of_image: "insertions_of cs xs \<Longrightarrow> place_of cs ` set xs = slot ` set cs"
proof (intro equalityI subsetI)
  fix y assume i: "insertions_of cs xs" and "y \<in> slot ` set cs"
  then obtain j where j: "j < length cs" "y = slot (cs ! j)" by (auto simp: in_set_conv_nth)
  then have "xs ! j \<in> set xs" "in_insertion_order (xs ! j) = j" using i by (auto simp: insertions_of_def insertion_of_def)
  with j show "y \<in> place_of cs ` set xs" by (force simp: place_of_def)
qed (use place_of_simps(3) in blast)

definition insertable :: "BracketCorrection list \<Rightarrow> bool" where
  "insertable cs \<longleftrightarrow> sorted (map bc_diagnostic_token_index cs) \<and> distinct (map bc_diagnostic_token_index cs) \<and>
     distinct (map slot cs) \<and> (\<forall>c \<in> set cs. \<forall>c' \<in> set cs. fst (slot c) = fst (slot c') \<longrightarrow> slot c = slot c')"

lemma key_place_less:
  assumes "insertions_of cs xs" "insertable cs" "x \<in> set xs" "y \<in> set xs" "insertion_key x < insertion_key y"
  shows "fst (place_of cs x) < fst (place_of cs y)"
proof -
  obtain i where i: "i < length cs" "insertion_of i (cs ! i) x" by (rule insertions_ofD [OF assms(1,3)])
  obtain j where j: "j < length cs" "insertion_of j (cs ! j) y" by (rule insertions_ofD [OF assms(1,4)])
  let ?c = "cs ! i" and ?d = "cs ! j"
  have x: "place_of cs x = slot ?c" "insertion_key x = (bc_fix_token_index ?c, True, \<not> is_closing_symbol (bc_fix_token_kind ?c), - int i)"
    using i(2) by (simp_all add: place_of_def insertion_of_def insertion_key_def target_def)
  have y: "place_of cs y = slot ?d" "insertion_key y = (bc_fix_token_index ?d, True, \<not> is_closing_symbol (bc_fix_token_kind ?d), - int j)"
    using j(2) by (simp_all add: place_of_def insertion_of_def insertion_key_def target_def)
  have "bc_fix_token_index ?c < bc_fix_token_index ?d \<or> bc_fix_token_index ?c = bc_fix_token_index ?d \<and>
      (is_closing_symbol (bc_fix_token_kind ?c) \<and> \<not> is_closing_symbol (bc_fix_token_kind ?d) \<or>
       is_closing_symbol (bc_fix_token_kind ?c) = is_closing_symbol (bc_fix_token_kind ?d) \<and> j < i)"
    using assms(5) unfolding x(2) y(2)
    by (cases "is_closing_symbol (bc_fix_token_kind ?c)"; cases "is_closing_symbol (bc_fix_token_kind ?d)") auto
  then consider (place) "bc_fix_token_index ?c < bc_fix_token_index ?d \<or> bc_fix_token_index ?c = bc_fix_token_index ?d \<and>
      is_closing_symbol (bc_fix_token_kind ?c) \<and> \<not> is_closing_symbol (bc_fix_token_kind ?d)"
    | (order) "bc_fix_token_index ?c = bc_fix_token_index ?d" "is_closing_symbol (bc_fix_token_kind ?c) = is_closing_symbol (bc_fix_token_kind ?d)" "j < i"
    by blast
  then show ?thesis
  proof cases
    case place
    then show ?thesis using x(1) y(1) by (auto simp: slot_def)
  next
    case order
    have ne: "slot ?c \<noteq> slot ?d"
      using assms(2) i(1) j(1) order(3) by (auto simp: insertable_def distinct_conv_nth)
    then have "fst (slot ?c) \<noteq> fst (slot ?d)" using assms(2) i(1) j(1) by (auto simp: insertable_def)
    then have cl: "is_closing_symbol (bc_fix_token_kind ?c)" using order by (auto simp: slot_def)
    have "sorted (map bc_diagnostic_token_index cs)" "distinct (map bc_diagnostic_token_index cs)"
      using assms(2) by (auto simp: insertable_def)
    then have "sorted_wrt (<) (map bc_diagnostic_token_index cs)" using strict_sorted_iff by blast
    from sorted_wrt_nth_less [OF this order(3)] have "bc_diagnostic_token_index ?d < bc_diagnostic_token_index ?c"
      using i(1) j(1) by simp
    then show ?thesis using x(1) y(1) order cl by (simp add: slot_def)
  qed
qed

lemma insertion_order_distinct: "insertions_of cs xs \<Longrightarrow> distinct (map in_insertion_order xs) \<and> (\<forall>x \<in> set xs. in_insertion_order x < length cs)"
  by (auto simp: distinct_conv_nth insertions_of_def insertion_of_def in_set_conv_nth)

lemma sorted_insertions:
  assumes "insertions_of cs xs" "insertable cs"
  shows "sorted_wrt (\<lambda>x y. fst (place_of cs x) < fst (place_of cs y)) (sort_key insertion_key xs)"
    "sorted_wrt (\<lambda>x y. target x \<le> target y) (sort_key insertion_key xs)"
proof -
  let ?ss = "sort_key insertion_key xs"
  have "distinct (map insertion_key xs)"
  proof -
    have "inj_on insertion_key (set xs)"
    proof (rule inj_onI)
      fix x y assume "x \<in> set xs" "y \<in> set xs" "insertion_key x = insertion_key y"
      then have "in_insertion_order x = in_insertion_order y"
        by (auto elim!: insertions_ofD [OF assms(1)] simp: insertion_key_def insertion_of_def)
      then show "x = y" using insertion_order_distinct [OF assms(1)] \<open>x \<in> set xs\<close> \<open>y \<in> set xs\<close> by (auto simp: distinct_map inj_on_def)
    qed
    then show ?thesis using insertion_order_distinct [OF assms(1)] by (simp add: distinct_map)
  qed
  then have "distinct (map insertion_key ?ss)" by (simp add: distinct_map)
  then have "sorted_wrt (<) (map insertion_key ?ss)" using sorted_sort_key [of insertion_key xs] strict_sorted_iff by blast
  then have "sorted_wrt (\<lambda>x y. insertion_key x < insertion_key y) ?ss" by (simp add: sorted_wrt_map)
  then show s: "sorted_wrt (\<lambda>x y. fst (place_of cs x) < fst (place_of cs y)) ?ss"
    by (rule sorted_wrt_mono_rel [rotated]) (use key_place_less [OF assms] in simp)
  show "sorted_wrt (\<lambda>x y. target x \<le> target y) ?ss"
    using s by (rule sorted_wrt_mono_rel [rotated])
      (use place_of_simps(1) [OF assms(1)] in \<open>force simp: less_prod_def\<close>)
qed

section \<open>Balance\<close>

lemma repair_insertable:
  assumes "repairs lo hi ts C" "sorted (map bc_diagnostic_token_index C)"
  shows "insertable (filter inserts C)"
proof -
  note r = repairsD [OF assms(1)]
  obtain S where S: "in_order S" "set S = slots ts C" using r(1) by blast
  have "slot c \<in> slots ts C" if "c \<in> set (filter inserts C)" for c using that by (auto simp: slots_def)
  then have "slot c = slot c'" if "c \<in> set (filter inserts C)" "c' \<in> set (filter inserts C)" "fst (slot c) = fst (slot c')" for c c'
    using in_order_place [OF S(1)] S(2) that by blast
  then show ?thesis using r(5,6) assms(2) by (auto simp: insertable_def sorted_filter)
qed

lemma merged_balanced:
  assumes "repairs lo hi (bracket_stream infos) C" "sorted (map bc_diagnostic_token_index C)" "\<forall>c \<in> set C. correction_in infos c"
    "given_up_infos C infos us" "insertions_of (filter inserts C) xs"
  shows "balanced (map (\<lambda>m. ti_kind (snd m)) (merged 0 us (sort_key insertion_key xs)))"
    "length (merged 0 us (sort_key insertion_key xs)) = length infos + length (filter inserts C)"
proof -
  let ?cs = "filter inserts C" and ?ss = "sort_key insertion_key xs"
  have ins: "insertable ?cs" by (rule repair_insertable [OF assms(1,2)])
  note s = sorted_insertions [OF assms(5) ins]
  have len: "length us = length infos" using assms(4) by (simp add: given_up_infos_def)
  have range: "\<forall>x \<in> set ?ss. int 0 \<le> target x \<and> target x < int (0 + length us)"
  proof
    fix x assume "x \<in> set ?ss"
    then have x: "x \<in> set xs" by simp
    obtain j where j: "j < length ?cs" "insertion_of j (?cs ! j) x" by (rule insertions_ofD [OF assms(5) x])
    have c: "?cs ! j \<in> set ?cs" by (rule nth_mem [OF j(1)])
    then have "correction_in infos (?cs ! j)" "bc_fix_action (?cs ! j) \<noteq> ReplaceWithError" using assms(3) by (auto simp: inserts_def)
    then show "int 0 \<le> target x \<and> target x < int (0 + length us)"
      using j(2) len by (auto simp: correction_in_def insertion_of_def target_def)
  qed
  show "length (merged 0 us ?ss) = length infos + length ?cs"
    using merged_length [OF s(2) range] assms(5) len by (simp add: insertions_of_def)
  let ?L = "merged_places (place_of ?cs) 0 us ?ss"
  have kinds: "map snd ?L = map (\<lambda>m. ti_kind (snd m)) (merged 0 us ?ss)"
    by (rule merged_places_kinds) (use place_of_simps(2) [OF assms(5)] in simp)
  have set: "set ?L = slot ` set ?cs \<union> {((int j, 2, 0), ti_kind (us ! j)) | j. j < length us}"
    using merged_places_set [OF s(2) range, of "place_of ?cs"] place_of_image [OF assms(5)] by simp
  have order: "in_order ?L"
    using merged_places_order [OF s(1), of 0 us] range place_of_simps(1) [OF assms(5)] by auto
  let ?F = "filter (\<lambda>y. is_grouping_symbol (snd y)) ?L"
  have us: "is_grouping_symbol (ti_kind (us ! j)) \<longleftrightarrow> int j \<notin> given_up C \<and> is_grouping_symbol (ti_kind (infos ! j))"
    "int j \<notin> given_up C \<Longrightarrow> ti_kind (us ! j) = ti_kind (infos ! j)" if "j < length us" for j
    using assms(4) that len by (auto simp: given_up_infos_def is_grouping_symbol_def split: if_splits)
  have group: "is_grouping_symbol (snd (slot c))" if "c \<in> set ?cs" for c
    using repairsD(4) [OF assms(1), of c] that by (auto simp: correction_ok_def inserts_def slot_def is_grouping_symbol_def)
  have "set ?F = slots (bracket_stream infos) C"
  proof -
    have kept: "((int j, 2, 0), ti_kind (us ! j)) \<in> slots (bracket_stream infos) C" if j: "j < length us" "is_grouping_symbol (ti_kind (us ! j))" for j
    proof -
      have g: "int j \<notin> given_up C" "is_grouping_symbol (ti_kind (infos ! j))" "ti_kind (us ! j) = ti_kind (infos ! j)" using us [OF j(1)] j(2) by auto
      then have "(int j, collect_kind (ti_kind (infos ! j))) \<in> set (bracket_stream infos)"
        using j(1) len by (auto simp: bracket_stream_iff is_grouping_symbol_def)
      then show ?thesis using g collect_kind_bracket [of "ti_kind (infos ! j)"] by (force simp: slots_def)
    qed
    have old: "\<exists>j < length us. p = int j \<and> ToTokenKind k = ti_kind (us ! j) \<and> is_grouping_symbol (ti_kind (us ! j))"
      if pk: "(p, k) \<in> set (bracket_stream infos)" "is_bracket k" "p \<notin> given_up C" for p k
    proof -
      obtain j where j: "j < length us" "p = int j" "k = collect_kind (ti_kind (infos ! j))" using pk(1) len by (auto simp: bracket_stream_iff)
      moreover have "is_grouping_symbol (ti_kind (infos ! j))" using pk(2) j(3) collect_kind_bracket(1) by simp
      ultimately show ?thesis using us [OF j(1)] pk(3) collect_kind_bracket(2) by auto
    qed
    show ?thesis
    proof (intro equalityI subsetI)
      fix y assume "y \<in> set ?F"
      then have "y \<in> slot ` set ?cs \<or> (\<exists>j < length us. y = ((int j, 2, 0), ti_kind (us ! j)))" "is_grouping_symbol (snd y)"
        unfolding set_filter set by blast+
      moreover have "slot ` set ?cs \<subseteq> slots (bracket_stream infos) C" by (auto simp: slots_def)
      ultimately show "y \<in> slots (bracket_stream infos) C" using kept by auto
    next
      fix y assume "y \<in> slots (bracket_stream infos) C"
      then consider "y \<in> slot ` set ?cs" | p k where "y = ((p, 2, 0), ToTokenKind k)" "(p, k) \<in> set (bracket_stream infos)" "is_bracket k"
        "p \<notin> given_up C" by (auto simp: slots_def)
      then show "y \<in> set ?F"
      proof cases
        case 1
        then show ?thesis using group unfolding set_filter set by blast
      next
        case 2
        from old [OF 2(2-4)] 2(1) show ?thesis unfolding set_filter set by auto
      qed
    qed
  qed
  moreover have "in_order ?F" using order by (rule sorted_wrt_filter)
  ultimately obtain S where "?F = S" "balanced (map snd S)" using repairsD(1) [OF assms(1)] in_order_unique by metis
  then have "open_after (map snd ?F) [] = Some []" by (simp add: balanced_def)
  moreover have "map snd ?F = filter is_grouping_symbol (map snd ?L)" by (simp add: filter_map comp_def)
  ultimately show "balanced (map (\<lambda>m. ti_kind (snd m)) (merged 0 us ?ss))"
    using open_after_filter by (simp add: balanced_def kinds)
qed

end
