(* ===== verification/Recovery_Result.thy ===== *)
theory Recovery_Result
  imports Recovery_Groups Recovery_Apply
begin

text \<open>
  The buffer after \<open>ErrorRecoveryBuffer::Apply\<close> and the corrections as they are reported: where the old tokens and the insertions
  are found, and what the report refers to.
\<close>

section \<open>The merged tokens\<close>

lemma merged_without: "merged i olds [] = map (Pair False) olds"
  by (induction olds arbitrary: i) simp_all

lemma merged_kept:
  "list_all2 (\<lambda>old t. \<exists>sp. t = WithLeadingSpace sp old) olds (map snd (filter (\<lambda>m. \<not> fst m) (merged i olds xs)))"
proof (induction olds arbitrary: i xs)
  case (Cons old olds)
  have "\<exists>sp. old = WithLeadingSpace sp old" using WithLeadingSpace_same by metis
  with Cons show ?case by (auto simp: Let_def filter_map comp_def)
qed simp

lemma run_infos_from: "t \<in> set (run_infos sp xs) \<Longrightarrow> \<exists>x \<in> set xs. \<exists>b. t = WithLeadingSpace b (in_info x)"
  by (induction sp xs rule: run_infos.induct) auto

text \<open>Every merged token is an old one or an inserted one, but for its leading space.\<close>

lemma merged_from:
  "m \<in> set (merged i olds xs) \<Longrightarrow> \<exists>b. \<exists>t \<in> set olds \<union> in_info ` set xs. snd m = WithLeadingSpace b t"
proof (induction olds arbitrary: i xs)
  case (Cons old olds)
  let ?run = "takeWhile (\<lambda>x. target x = int i) xs" and ?rest = "dropWhile (\<lambda>x. target x = int i) xs"
  consider t where "snd m = t" "t \<in> set (run_infos (ti_has_leading_space old) ?run)" | "snd m = old \<or> snd m = WithLeadingSpace False old"
    | "m \<in> set (merged (Suc i) olds ?rest)"
    using Cons.prems by (auto simp: Let_def)
  then show ?case
  proof cases
    case 1
    then obtain x b where "x \<in> set ?run" "snd m = WithLeadingSpace b (in_info x)" using run_infos_from by blast
    then show ?thesis by (auto dest: set_takeWhileD)
  next
    case 2
    then show ?thesis using WithLeadingSpace_same [of old] by (metis UnI1 list.set_intros(1))
  next
    case 3
    from Cons.IH [OF this] show ?thesis by (auto dest: set_dropWhileD)
  qed
qed simp

lemma merged_last: "olds \<noteq> [] \<Longrightarrow> ti_kind (snd (last (merged i olds xs))) = ti_kind (last olds) \<and> merged i olds xs \<noteq> []"
proof (induction olds arbitrary: i xs)
  case (Cons old olds)
  let ?rest = "dropWhile (\<lambda>x. target x = int i) xs"
  show ?case
  proof (cases "olds = []")
    case False
    from Cons.IH [OF this, of "Suc i" ?rest] False show ?thesis by (simp add: Let_def)
  qed (simp add: Let_def)
qed simp

lemma merged_butlast:
  "k \<notin> ti_kind ` set (butlast olds) \<Longrightarrow> \<forall>x \<in> set xs. ti_kind (in_info x) \<noteq> k \<Longrightarrow> k \<notin> (ti_kind \<circ> snd) ` set (butlast (merged i olds xs))"
proof (induction olds arbitrary: i xs)
  case (Cons old olds)
  let ?run = "takeWhile (\<lambda>x. target x = int i) xs" and ?rest = "dropWhile (\<lambda>x. target x = int i) xs"
  have "k \<notin> set (map ti_kind (run_infos (ti_has_leading_space old) ?run))"
    unfolding run_infos_kinds using Cons.prems(2) by (auto dest: set_takeWhileD)
  then have added: "k \<notin> (ti_kind \<circ> snd) ` set (map (Pair True) (run_infos (ti_has_leading_space old) ?run))" by auto
  show ?case
  proof (cases "olds = []")
    case True
    with added show ?thesis by (auto simp: Let_def butlast_append)
  next
    case False
    have "k \<notin> (ti_kind \<circ> snd) ` set (butlast (merged (Suc i) olds ?rest))"
      by (rule Cons.IH) (use Cons.prems False in \<open>auto dest: set_dropWhileD\<close>)
    moreover have "merged (Suc i) olds ?rest \<noteq> []" using merged_last [OF False] by blast
    ultimately show ?thesis using added Cons.prems(1) False by (auto simp: Let_def butlast_append)
  qed
qed simp

lemma merged_hd: "olds \<noteq> [] \<Longrightarrow> \<forall>x \<in> set xs. target x \<noteq> int i \<Longrightarrow> snd (hd (merged i olds xs)) = hd olds"
  by (cases olds; cases xs) (auto simp: Let_def)

lemma merged_added: "fst m \<Longrightarrow> m \<in> set (merged i olds xs) \<Longrightarrow> \<exists>x \<in> set xs. ti_kind (snd m) = ti_kind (in_info x)"
proof (induction olds arbitrary: i xs)
  case (Cons old olds)
  let ?run = "takeWhile (\<lambda>x. target x = int i) xs" and ?rest = "dropWhile (\<lambda>x. target x = int i) xs"
  consider t where "m = (True, t)" "t \<in> set (run_infos (ti_has_leading_space old) ?run)" | "m \<in> set (merged (Suc i) olds ?rest)"
    using Cons.prems by (auto simp: Let_def)
  then show ?case
  proof cases
    case 1
    then have "ti_kind t \<in> set (map ti_kind (run_infos (ti_has_leading_space old) ?run))" by simp
    then show ?thesis unfolding run_infos_kinds using 1(1) by (auto dest: set_takeWhileD)
  next
    case 2
    from Cons.IH [OF Cons.prems(1) this] show ?thesis by (auto dest: set_dropWhileD)
  qed
qed simp

section \<open>Applying\<close>

lemma Apply_fixes_ok:
  assumes "Apply_fixes er tb = (er', tb')" "tb_recovery_tokens tb = []" "insertions_of cs (er_insertions er)" "insertable cs"
    "\<forall>x \<in> set (er_insertions er). 0 \<le> target x \<and> target x < int (length (tb_token_infos tb))"
  defines "M \<equiv> merged 0 (tb_token_infos tb) (sort_key insertion_key (er_insertions er))"
  shows "extended_buffer tb (map snd M) (map fst M) tb'"
    "0 \<le> p \<Longrightarrow> p < int (length (tb_token_infos tb)) \<Longrightarrow>
      \<exists>q sp. GetNewTokenIndex er' p = Ret q \<and> merged_at M 0 q False (WithLeadingSpace sp (tb_token_infos tb ! nat p))"
    "j < length (er_insertions er) \<Longrightarrow>
      \<exists>q sp. GetInsertedTokenIndex er' j = Ret q \<and> merged_at M 0 q True (WithLeadingSpace sp (in_info (er_insertions er ! j)))"
proof -
  let ?us = "tb_token_infos tb" and ?xs = "er_insertions er"
  let ?ss = "sort_key insertion_key ?xs" and ?n = "length ?us + length ?xs"
  let ?tb = "tb\<lparr>tb_token_infos := [], tb_recovery_tokens := resize_bits ?n (tb_recovery_tokens tb)\<rparr>"
  let ?ins = "replicate (length ?xs) TokenIndex_None" and ?new = "replicate (length ?us) TokenIndex_None"
  obtain inserted new_index where loop: "apply_loop 0 ?us ?ss ?ins ?new ?tb = (inserted, new_index, tb')"
    and er': "er' = er\<lparr>er_insertions := ?ss, er_inserted_token_index := inserted, er_new_token_index := new_index\<rparr>"
    using assms(1) by (auto simp: Apply_fixes_def Let_def split: prod.splits)
  note s = sorted_insertions(2) [OF assms(3,4)]
  have range: "\<forall>x \<in> set ?ss. int 0 \<le> target x \<and> target x < int (0 + length ?us)" using assms(5) by simp
  have len: "length M = ?n" unfolding M_def using merged_length [OF s range] by simp
  have "extended_buffer ?tb (tb_token_infos ?tb @ map snd M) ([] @ map fst M @ replicate (?n - length M) False) tb'"
    unfolding M_def using loop len [unfolded M_def] by (intro apply_loop_spec) (simp_all add: assms(2) resize_bits_def)
  then show "extended_buffer tb (map snd M) (map fst M) tb'" using len by (auto simp: extended_buffer_def)
  have "orders_ok ?ss ?ins"
    using insertion_order_distinct [OF assms(3)] assms(3) by (auto simp: orders_ok_def distinct_map insertions_of_def)
  note ix = apply_loop_indexes [OF loop this _ _ s]
  have i: "\<forall>x \<in> set ?ss. \<exists>sp. merged_at M 0 (inserted ! in_insertion_order x) True (WithLeadingSpace sp (in_info x))"
    and o: "\<forall>j < length ?us. \<exists>sp. merged_at M 0 (new_index ! j) False (WithLeadingSpace sp (?us ! j))"
    and l: "length inserted = length ?xs" "length new_index = length ?us"
    using ix range by (simp_all add: M_def)
  show "\<exists>q sp. GetInsertedTokenIndex er' j = Ret q \<and> merged_at M 0 q True (WithLeadingSpace sp (in_info (?xs ! j)))" if "j < length ?xs"
  proof -
    have "in_insertion_order (?xs ! j) = j" using assms(3) that by (simp add: insertions_of_def insertion_of_def)
    moreover have "?xs ! j \<in> set ?ss" using that by simp
    ultimately show ?thesis using i that l(1) by (fastforce simp: GetInsertedTokenIndex_def store_get_def er')
  qed
  show "\<exists>q sp. GetNewTokenIndex er' p = Ret q \<and> merged_at M 0 q False (WithLeadingSpace sp (?us ! nat p))" if p: "0 \<le> p" "p < int (length ?us)"
  proof (cases "?xs = []")
    case True
    have "WithLeadingSpace (ti_has_leading_space (?us ! nat p)) (?us ! nat p) = ?us ! nat p" by (rule WithLeadingSpace_same)
    moreover have "merged_at M 0 p False (?us ! nat p)"
      unfolding merged_at_def M_def True by (intro exI [of _ "nat p"]) (use p in \<open>simp add: merged_without\<close>)
    ultimately show ?thesis using True by (metis GetNewTokenIndex_def er' ErrorRecoveryBuffer.select_convs(1) ErrorRecoveryBuffer.surjective ErrorRecoveryBuffer.update_convs(1,3,4) sort_key_simps(1))
  next
    case False
    then have "?ss \<noteq> []" by (metis length_0_conv length_sort)
    moreover have "new_index \<noteq> []" "nat p < length new_index" using p l(2) by auto
    ultimately have "GetNewTokenIndex er' p = Ret (new_index ! nat p)" using p by (simp add: GetNewTokenIndex_def er' store_get_def)
    then show ?thesis using o p by auto
  qed
qed

section \<open>The tokens of the result\<close>

text \<open>The tokens that are not recovery tokens, and what each has kept of the token it was.\<close>

definition kept_tokens :: "'a TokenizedBuffer \<Rightarrow> TokenInfo list" where
  "kept_tokens tb = map ((!) (tb_token_infos tb)) (filter (\<lambda>i. IsRecoveryToken tb i = Ret False) [0..<length (tb_token_infos tb)])"

definition token_kept :: "TokenInfo \<Rightarrow> TokenInfo \<Rightarrow> bool" where
  "token_kept old t \<longleftrightarrow> ti_byte_offset t = ti_byte_offset old \<and>
     (if is_grouping_symbol (ti_kind old) then ti_kind t = ti_kind old \<or> ti_kind t = Error
      else ti_kind t = ti_kind old \<and> ti_payload t = ti_payload old)"

text \<open>A correction and its report: the token diagnosed is the same, and the token of the fix is the one inserted.\<close>

definition reported_as :: "'a TokenizedBuffer \<Rightarrow> TokenInfo list \<Rightarrow> BracketCorrection \<Rightarrow> BracketCorrection \<Rightarrow> bool" where
  "reported_as tb infos c c' \<longleftrightarrow> (\<exists>d f. d < length (tb_token_infos tb) \<and> f < length (tb_token_infos tb) \<and>
     c' = c\<lparr>bc_diagnostic_token_index := int d, bc_fix_token_index := int f\<rparr> \<and> IsRecoveryToken tb d = Ret False \<and>
     ti_byte_offset (tb_token_infos tb ! d) = ti_byte_offset (infos ! nat (bc_diagnostic_token_index c)) \<and>
     (if inserts c then IsRecoveryToken tb f = Ret True \<and> ti_kind (tb_token_infos tb ! f) = bc_fix_token_kind c
      else ti_kind (tb_token_infos tb ! d) = Error))"

lemma same_but_payloadD:
  "same_but_payload t u \<Longrightarrow> ti_kind u = ti_kind t \<and> ti_byte_offset u = ti_byte_offset t \<and> (groupless t \<longrightarrow> u = t)"
  by (cases t; cases u) (auto simp: same_but_payload_def)

lemma list_all2_filter_nth:
  "list_all2 R (map snd M) vs \<Longrightarrow>
   list_all2 R (map snd (filter P M)) (map ((!) vs) (filter (\<lambda>i. P (M ! i)) [0..<length vs]))"
proof (induction M arbitrary: vs rule: rev_induct)
  case (snoc m M)
  then obtain ws v where w: "vs = ws @ [v]" "list_all2 R (map snd M) ws" "R (snd m) v"
    by (auto simp: list_all2_append1 list_all2_Cons1)
  have len: "length M = length ws" using list_all2_lengthD [OF w(2)] by simp
  let ?js = "filter (\<lambda>i. P (M ! i)) [0..<length ws]"
  have js: "filter (\<lambda>i. P ((M @ [m]) ! i)) [0..<length vs] = ?js @ (if P m then [length ws] else [])"
    using len w(1) by (auto simp: nth_append intro!: filter_cong)
  have ms: "map ((!) vs) ?js = map ((!) ws) ?js" using w(1) by (auto simp: nth_append)
  have v: "vs ! length ws = v" using w(1) by simp
  show ?case unfolding js map_append ms using snoc.IH [OF w(2)] w(3) v by (auto intro: list_all2_appendI)
qed simp

text \<open>A buffer that holds the merged tokens, with the payloads of its brackets changed.\<close>

definition holds_merged :: "'a TokenizedBuffer \<Rightarrow> (bool \<times> TokenInfo) list \<Rightarrow> bool" where
  "holds_merged tb M \<longleftrightarrow> list_all2 same_but_payload (map snd M) (tb_token_infos tb) \<and> tb_recovery_tokens tb = map fst M \<and> M \<noteq> []"

lemma holds_mergedD:
  assumes "holds_merged tb M"
  shows "length (tb_token_infos tb) = length M" "k < length M \<Longrightarrow> IsRecoveryToken tb k = Ret (fst (M ! k))"
    "k < length M \<Longrightarrow> same_but_payload (snd (M ! k)) (tb_token_infos tb ! k)"
  using assms by (auto simp: holds_merged_def IsRecoveryToken_def store_get_def list_all2_conv_all_nth)

lemma merged_at_token:
  assumes "holds_merged tb M" "merged_at M 0 q b t"
  obtains k where "k < length (tb_token_infos tb)" "q = int k" "IsRecoveryToken tb k = Ret b" "same_but_payload t (tb_token_infos tb ! k)"
  using assms(2) holds_mergedD [OF assms(1)] that by (fastforce simp: merged_at_def)

lemma kept_tokens_merged:
  assumes "holds_merged tb M"
  shows "list_all2 same_but_payload (map snd (filter (\<lambda>m. \<not> fst m) M)) (kept_tokens tb)"
proof -
  have "filter (\<lambda>i. IsRecoveryToken tb i = Ret False) [0..<length (tb_token_infos tb)] =
      filter (\<lambda>i. \<not> fst (M ! i)) [0..<length (tb_token_infos tb)]"
    using holds_mergedD [OF assms] by (intro filter_cong) auto
  moreover have "list_all2 same_but_payload (map snd M) (tb_token_infos tb)" using assms by (simp add: holds_merged_def)
  ultimately show ?thesis using list_all2_filter_nth by (fastforce simp: kept_tokens_def)
qed

lemma given_up_bracket:
  assumes "\<forall>c \<in> set C. correction_ok lo hi (bracket_stream infos) c" "int i \<in> given_up C"
  shows "is_grouping_symbol (ti_kind (infos ! i))"
proof -
  obtain k where "(int i, k) \<in> set (bracket_stream infos)" "is_bracket k" using assms by (auto simp: given_up_def correction_ok_def)
  then show ?thesis using collect_kind_bracket(1) by (auto simp: bracket_stream_iff)
qed

lemma tokens_kept:
  assumes "holds_merged tb (merged 0 us xs)" "given_up_infos C infos us" "\<forall>c \<in> set C. correction_ok lo hi (bracket_stream infos) c"
  shows "list_all2 token_kept infos (kept_tokens tb)"
proof -
  let ?ms = "map snd (filter (\<lambda>m. \<not> fst m) (merged 0 us xs))"
  note a = merged_kept [of us 0 xs] and b = kept_tokens_merged [OF assms(1)]
  have len: "length us = length infos" "length ?ms = length us" "length (kept_tokens tb) = length us"
    using assms(2) list_all2_lengthD [OF a] list_all2_lengthD [OF b] by (simp_all add: given_up_infos_def)
  show ?thesis unfolding list_all2_conv_all_nth
  proof (intro conjI allI impI)
    show "length infos = length (kept_tokens tb)" using len by simp
    fix i assume i: "i < length infos"
    obtain sp where sp: "?ms ! i = WithLeadingSpace sp (us ! i)" using list_all2_nthD [OF a, of i] i len by auto
    have k: "same_but_payload (?ms ! i) (kept_tokens tb ! i)" using list_all2_nthD [OF b, of i] i len by auto
    show "token_kept (infos ! i) (kept_tokens tb ! i)"
    proof (cases "int i \<in> given_up C")
      case True
      then obtain l where "us ! i = AsError l (infos ! i)" using assms(2) i unfolding given_up_infos_def by metis
      moreover have "is_grouping_symbol (ti_kind (infos ! i))" by (rule given_up_bracket [OF assms(3) True])
      ultimately show ?thesis using same_but_payloadD [OF k] sp by (simp add: token_kept_def)
    next
      case False
      then have "us ! i = infos ! i" using assms(2) i by (simp add: given_up_infos_def)
      then show ?thesis using same_but_payloadD [OF k] sp by (auto simp: token_kept_def)
    qed
  qed
qed

section \<open>Making the corrections\<close>

lemma given_up_in:
  assumes "c \<in> set C" "correction_in infos c" "\<not> inserts c"
  shows "bc_diagnostic_token_index c \<in> given_up C"
  unfolding given_up_def using assms by (intro CollectI bexI [of _ c]) (auto simp: inserts_def correction_in_def)

lemma report_correction_ok:
  assumes "holds_merged tb M" "given_up_infos C infos us" "c \<in> set C" "correction_in infos c"
    "\<And>p. 0 \<le> p \<Longrightarrow> p < int (length us) \<Longrightarrow> \<exists>q sp. GetNewTokenIndex er p = Ret q \<and> merged_at M 0 q False (WithLeadingSpace sp (us ! nat p))"
    "inserts c \<Longrightarrow> \<exists>j q sp (x :: Insertion). i = Some j \<and> GetInsertedTokenIndex er j = Ret q \<and> merged_at M 0 q True (WithLeadingSpace sp (in_info x)) \<and>
       ti_kind (in_info x) = bc_fix_token_kind c"
    "\<not> inserts c \<Longrightarrow> i = None"
  shows "\<exists>c'. report_correction er c i = Ret c' \<and> reported_as tb infos c c'"
proof -
  let ?d = "bc_diagnostic_token_index c" and ?f = "bc_fix_token_index c" and ?us' = "tb_token_infos tb"
  have len: "length us = length infos" using assms(2) by (simp add: given_up_infos_def)
  have d: "0 \<le> ?d" "?d < int (length us)" "0 \<le> ?f" "?f < int (length us)"
    using assms(4) len by (auto simp: correction_in_def split: if_splits)
  obtain dq sp where dq: "GetNewTokenIndex er ?d = Ret dq" "merged_at M 0 dq False (WithLeadingSpace sp (us ! nat ?d))"
    using assms(5) [OF d(1,2)] by blast
  obtain dk where dk: "dk < length ?us'" "dq = int dk" "IsRecoveryToken tb dk = Ret False"
    "same_but_payload (WithLeadingSpace sp (us ! nat ?d)) (?us' ! dk)" by (rule merged_at_token [OF assms(1) dq(2)])
  have di: "nat ?d < length infos" "int (nat ?d) = ?d" using d(1,2) len by simp_all
  have u: "us ! nat ?d = infos ! nat ?d \<or> (\<exists>l. us ! nat ?d = AsError l (infos ! nat ?d))"
    using assms(2) di(1) unfolding given_up_infos_def by metis
  have off: "ti_byte_offset (?us' ! dk) = ti_byte_offset (infos ! nat ?d)" using same_but_payloadD [OF dk(4)] u by auto
  show ?thesis
  proof (cases "inserts c")
    case True
    then obtain j q sp' and x :: Insertion where j: "i = Some j" "GetInsertedTokenIndex er j = Ret q" "merged_at M 0 q True (WithLeadingSpace sp' (in_info x))"
      "ti_kind (in_info x) = bc_fix_token_kind c" using assms(6) by blast
    obtain k where k: "k < length ?us'" "q = int k" "IsRecoveryToken tb k = Ret True" "same_but_payload (WithLeadingSpace sp' (in_info x)) (?us' ! k)"
      by (rule merged_at_token [OF assms(1) j(3)])
    have "ti_kind (?us' ! k) = bc_fix_token_kind c" using same_but_payloadD [OF k(4)] j(4) by simp
    then show ?thesis using True j(1,2) k dk off dq(1) unfolding reported_as_def
      by (intro exI [of _ "c\<lparr>bc_diagnostic_token_index := int dk, bc_fix_token_index := int k\<rparr>"] conjI exI [of _ dk] exI [of _ k])
        (simp_all add: report_correction_def)
  next
    case False
    have "?d \<in> given_up C" by (rule given_up_in [OF assms(3,4) False])
    then obtain l where "us ! nat ?d = AsError l (infos ! nat ?d)" using assms(2) di unfolding given_up_infos_def by metis
    then have err: "ti_kind (?us' ! dk) = Error" using same_but_payloadD [OF dk(4)] by simp
    obtain q sp' where q: "GetNewTokenIndex er ?f = Ret q" "merged_at M 0 q False (WithLeadingSpace sp' (us ! nat ?f))"
      using assms(5) [OF d(3,4)] by blast
    obtain k where k: "k < length ?us'" "q = int k" by (rule merged_at_token [OF assms(1) q(2)])
    show ?thesis using False assms(7) q(1) k dk off err dq(1) unfolding reported_as_def
      by (intro exI [of _ "c\<lparr>bc_diagnostic_token_index := int dk, bc_fix_token_index := int k\<rparr>"] conjI exI [of _ dk] exI [of _ k])
        (simp_all add: report_correction_def)
  qed
qed

lemma report_corrections_ok:
  assumes "length ids = length C" "\<forall>k < length C. \<exists>c'. report_correction er (C ! k) (ids ! k) = Ret c' \<and> R (C ! k) c'"
  shows "\<exists>cs. report_corrections er (zip C ids) = Ret cs \<and> list_all2 R C cs"
  using assms
proof (induction C ids rule: list_induct2')
  case (4 c C i ids)
  obtain c' where "report_correction er c i = Ret c'" "R c c'" using 4(3) by force
  moreover have "\<forall>k < length C. \<exists>c'. report_correction er (C ! k) (ids ! k) = Ret c' \<and> R (C ! k) c'" using 4(3) by fastforce
  then obtain cs where "report_corrections er (zip C ids) = Ret cs" "list_all2 R C cs" using 4(1,2) by auto
  ultimately show ?case by simp
qed simp_all

lemma insertions_few:
  assumes "repairs lo hi ts C" "\<forall>c \<in> set C. correction_in infos c"
  shows "length (filter inserts C) \<le> length infos"
proof -
  let ?ds = "map bc_diagnostic_token_index (filter inserts C)"
  have "set ?ds \<subseteq> {0..<int (length infos)}" using assms(2) by (auto simp: correction_in_def)
  then have "card (set ?ds) \<le> length infos" using card_mono [of "{0..<int (length infos)}" "set ?ds"] by simp
  then show ?thesis using distinct_card [OF repairsD(6) [OF assms(1)]] by simp
qed

lemma repair_changes:
  assumes "repairs lo hi (bracket_stream infos) C" "sorted (map bc_diagnostic_token_index C)" "\<forall>c \<in> set C. correction_in infos c"
    "\<not> balanced (map ti_kind infos)"
  shows "\<exists>c. c \<in> set C"
proof (rule ccontr)
  assume "\<nexists>c. c \<in> set C"
  then have C: "C = []" by (cases C) auto
  then have "given_up_infos C infos infos" "insertions_of (filter inserts C) []"
    by (simp_all add: given_up_infos_def given_up_def insertions_of_def)
  from merged_balanced(1) [OF assms(1-3) this] assms(4) show False by (simp add: merged_without comp_def)
qed

text \<open>Recovery leaves the text, its lines and comments, the values and the ranges to dump as they are.\<close>

definition same_text :: "'a TokenizedBuffer \<Rightarrow> 'a TokenizedBuffer \<Rightarrow> bool" where
  "same_text tb tb' \<longleftrightarrow> tb_source tb' = tb_source tb \<and> tb_line_infos tb' = tb_line_infos tb \<and> tb_comments tb' = tb_comments tb \<and>
     tb_value_stores tb' = tb_value_stores tb \<and> tb_dump_sem_ir_ranges tb' = tb_dump_sem_ir_ranges tb \<and>
     tb_post_lexing_recovery_tokens tb' = tb_post_lexing_recovery_tokens tb"

text \<open>The tokens lie in the text, between the start and the end of the file.\<close>

definition in_text :: "'a TokenizedBuffer \<Rightarrow> bool" where
  "in_text tb \<longleftrightarrow> tb_token_infos tb \<noteq> [] \<and> ti_kind (hd (tb_token_infos tb)) = FileStart \<and> ti_kind (last (tb_token_infos tb)) = FileEnd \<and>
     FileEnd \<notin> ti_kind ` set (butlast (tb_token_infos tb)) \<and>
     (\<forall>t \<in> set (tb_token_infos tb). ti_byte_offset t \<le> length (tb_source tb))"

lemma merged_in_text:
  assumes "holds_merged tb (merged 0 us xs)" "given_up_infos C infos us" "\<forall>c \<in> set C. correction_ok lo hi (bracket_stream infos) c"
    "infos \<noteq> []" "ti_kind (hd infos) = FileStart" "ti_kind (last infos) = FileEnd" "\<forall>x \<in> set xs. 1 \<le> target x"
    "\<forall>t \<in> set infos. ti_byte_offset t \<le> length (tb_source tb)" "\<forall>x \<in> set xs. ti_byte_offset (in_info x) \<le> length (tb_source tb)"
    "FileEnd \<notin> ti_kind ` set (butlast infos)" "\<forall>x \<in> set xs. ti_kind (in_info x) \<noteq> FileEnd"
  shows "in_text tb"
proof -
  let ?M = "merged 0 us xs" and ?vs = "tb_token_infos tb"
  note h = holds_mergedD [OF assms(1)]
  have len: "length us = length infos" using assms(2) by (simp add: given_up_infos_def)
  have same: "us ! i = infos ! i" if "i < length infos" "\<not> is_grouping_symbol (ti_kind (infos ! i))" for i
    using assms(2) that given_up_bracket [OF assms(3)] unfolding given_up_infos_def by metis
  have off: "ti_byte_offset (us ! i) = ti_byte_offset (infos ! i)" if "i < length infos" for i
    using assms(2) that unfolding given_up_infos_def by (metis AsError_simps(2))
  have ne: "us \<noteq> []" "?vs \<noteq> []" using len assms(1,4) h(1) by (auto simp: holds_merged_def)
  have kind: "ti_kind (?vs ! k) = ti_kind (snd (?M ! k))" if "k < length ?M" for k
    using same_but_payloadD [OF h(3) [OF that]] by simp
  have Mn: "0 < length ?M" "?M \<noteq> []" using assms(1) by (simp_all add: holds_merged_def)
  have "ti_kind (hd ?vs) = ti_kind (snd (hd ?M))" using kind [OF Mn(1)] ne(2) Mn(2) by (simp add: hd_conv_nth)
  also have "\<dots> = ti_kind (hd us)" using merged_hd [OF ne(1), of xs 0] assms(7) by force
  also have "\<dots> = FileStart" using same [of 0] ne(1) assms(4,5) by (simp add: hd_conv_nth is_grouping_symbol_def)
  finally have first: "ti_kind (hd ?vs) = FileStart" .
  have "ti_kind (last ?vs) = ti_kind (snd (last ?M))" using kind [of "length ?M - 1"] Mn h(1) ne(2) by (simp add: last_conv_nth)
  also have "\<dots> = ti_kind (last us)" using merged_last [OF ne(1)] by blast
  also have "\<dots> = FileEnd" using same [of "length infos - 1"] ne(1) len assms(4,6) by (simp add: last_conv_nth is_grouping_symbol_def)
  finally have final: "ti_kind (last ?vs) = FileEnd" .
  have "ti_byte_offset t \<le> length (tb_source tb)" if "t \<in> set ?vs" for t
  proof -
    from that obtain k where "k < length ?vs" "?vs ! k = t" unfolding in_set_conv_nth by blast
    then have k: "k < length ?M" "t = ?vs ! k" using h(1) by simp_all
    obtain u b where u: "u \<in> set us \<union> in_info ` set xs" "snd (?M ! k) = WithLeadingSpace b u" using merged_from [OF nth_mem [OF k(1)]] by blast
    have "ti_byte_offset t = ti_byte_offset u" using same_but_payloadD [OF h(3) [OF k(1)]] k(2) u(2) by simp
    moreover have "ti_byte_offset u \<le> length (tb_source tb)" if old: "u \<in> set us"
    proof -
      obtain i where i: "i < length infos" "u = us ! i" using old len by (auto simp: in_set_conv_nth)
      then show ?thesis using off [OF i(1)] assms(8) nth_mem [OF i(1)] by simp
    qed
    ultimately show ?thesis using u(1) assms(9) by auto
  qed
  moreover have "FileEnd \<notin> ti_kind ` set (butlast ?vs)"
  proof -
    have "ti_kind (us ! i) \<noteq> FileEnd" if "i < length us - 1" for i
    proof -
      have i: "i < length (butlast infos)" using that len by simp
      then have "butlast infos ! i \<in> set (butlast infos)" "butlast infos ! i = infos ! i" by (rule nth_mem, rule nth_butlast)
      then have k: "ti_kind (infos ! i) \<noteq> FileEnd" using assms(10) by (metis imageI)
      have "us ! i = infos ! i \<or> (\<exists>n. us ! i = AsError n (infos ! i))"
        using assms(2) that len less_imp_diff_less by (cases "int i \<in> given_up C") (simp_all add: given_up_infos_def)
      then show ?thesis using k by auto
    qed
    then have "FileEnd \<notin> ti_kind ` set (butlast us)" by (fastforce simp: in_set_conv_nth nth_butlast)
    note m = merged_butlast [OF this assms(11), of 0]
    have "map ti_kind ?vs = map (ti_kind \<circ> snd) ?M" by (rule nth_equalityI) (use kind h(1) in auto)
    then have "map ti_kind (butlast ?vs) = map (ti_kind \<circ> snd) (butlast ?M)" by (simp add: map_butlast)
    then show ?thesis using m by (metis list.set_map)
  qed
  ultimately show ?thesis using first final ne(2) by (simp add: in_text_def)
qed

lemma made:
  assumes "insertions_of (filter inserts C) xs" "c \<in> set C" "\<forall>c \<in> set C. correction_in infos c"
  shows "xs \<noteq> [] \<or> given_up C \<noteq> {}"
proof (cases "inserts c")
  case True
  then have "filter inserts C \<noteq> []" using assms(2) by (auto simp: filter_empty_conv)
  then show ?thesis using assms(1) by (auto simp: insertions_of_def)
next
  case False
  then show ?thesis using given_up_in [OF assms(2)] assms(2,3) by blast
qed

lemma insertion_range:
  assumes "insertions_of (filter inserts C) xs" "\<forall>c \<in> set C. correction_in infos c" "x \<in> set xs"
  shows "0 \<le> target x \<and> target x < int (length infos)" "1 \<le> target x"
proof -
  obtain j where j: "j < length (filter inserts C)" "insertion_of j (filter inserts C ! j) x" by (rule insertions_ofD [OF assms(1,3)])
  then have "filter inserts C ! j \<in> set (filter inserts C)" using nth_mem by blast
  then have "correction_in infos (filter inserts C ! j)" "inserts (filter inserts C ! j)" using assms(2) by simp_all
  then show "0 \<le> target x \<and> target x < int (length infos)" "1 \<le> target x"
    using j(2) by (auto simp: correction_in_def insertion_of_def target_def inserts_def)
qed

lemma insertion_kind:
  assumes "insertions_of (filter inserts C) xs" "\<And>c. c \<in> set C \<Longrightarrow> correction_ok lo hi ts c" "x \<in> set xs"
  shows "ti_kind (in_info x) \<noteq> FileEnd"
proof -
  obtain j where j: "j < length (filter inserts C)" "insertion_of j (filter inserts C ! j) x" by (rule insertions_ofD [OF assms(1,3)])
  then have "filter inserts C ! j \<in> set (filter inserts C)" using nth_mem by blast
  then have "correction_ok lo hi ts (filter inserts C ! j)" "inserts (filter inserts C ! j)" using assms(2) by simp_all
  then show ?thesis using j(2) by (auto simp: correction_ok_def insertion_of_def inserts_def split: if_splits)
qed

lemma filter_position:
  assumes "k < length C" "P (C ! k)"
  shows "length (filter P (take k C)) < length (filter P C)" "filter P C ! length (filter P (take k C)) = C ! k"
proof -
  have "filter P C = filter P (take k C) @ C ! k # filter P (drop (Suc k) C)"
    using assms by (metis filter.simps(2) filter_append id_take_nth_drop)
  then show "length (filter P (take k C)) < length (filter P C)" "filter P C ! length (filter P (take k C)) = C ! k" by simp_all
qed

theorem apply_corrections_ok:
  assumes "readable_buffer env (lx_buffer lx)" "repairs lo hi (bracket_stream (lx_token_infos lx)) C"
    "sorted (map bc_diagnostic_token_index C)" "\<forall>c \<in> set C. correction_in (lx_token_infos lx) c"
    "tb_recovery_tokens (lx_buffer lx) = []" "\<not> balanced (map ti_kind (lx_token_infos lx))" "length (lx_token_infos lx) \<le> 2 ^ 22"
    "in_text (lx_buffer lx)"
  shows "\<exists>tb ds cs. apply_corrections env report C lx =
      Ret (if report then Some cs else None, lx\<lparr>lx_buffer := tb, lx_diags := lx_diags lx @ ds\<rparr>) \<and>
    groups_ok (tb_token_infos tb) [] \<and> length (tb_token_infos tb) \<le> 2 * length (lx_token_infos lx) \<and>
    list_all2 token_kept (lx_token_infos lx) (kept_tokens tb) \<and> diags_of (lx_token_infos lx) C ds \<and>
    list_all2 (reported_as tb (lx_token_infos lx)) C cs \<and> same_text (lx_buffer lx) tb \<and> in_text tb"
proof -
  let ?infos = "lx_token_infos lx"
  obtain fx where fx: "fix_corrections env C
      \<lparr>fx_fixes = ErrorRecoveryBuffer_init, fx_buffer = lx_buffer lx, fx_diags = lx_diags lx, fx_insertion_ids = []\<rparr> = Ret fx"
    "fixing_ok (lx_buffer lx) (lx_diags lx) C fx"
    using fix_corrections_ok [OF assms(1,4)] by blast
  then obtain us ds where us: "fx_buffer fx = (lx_buffer lx)\<lparr>tb_token_infos := us\<rparr>" "given_up_infos C ?infos us"
    and xs: "insertions_of (filter inserts C) (er_insertions (fx_fixes fx))"
    and offs: "\<forall>x \<in> set (er_insertions (fx_fixes fx)). ti_byte_offset (in_info x) \<le> length (tb_source (lx_buffer lx))"
    and err: "er_any_error_tokens (fx_fixes fx) \<longleftrightarrow> given_up C \<noteq> {}"
    and ids: "fx_insertion_ids fx = insertion_ids_of C"
    and ds: "fx_diags fx = lx_diags lx @ ds" "diags_of ?infos C ds"
    by (auto simp: fixing_ok_def)
  have len: "length us = length ?infos" using us(2) by (simp add: given_up_infos_def)
  define tb1 where "tb1 = (fx_buffer fx)\<lparr>tb_has_errors := True\<rparr>"
  have tb1: "tb_token_infos tb1 = us" "tb_recovery_tokens tb1 = []" "tb_post_lexing_recovery_tokens tb1 = 0"
    using us(1) assms(1,5) by (simp_all add: tb1_def readable_buffer_def)
  obtain er tb2 where ap: "Apply_fixes (fx_fixes fx) tb1 = (er, tb2)" by force
  have range: "\<forall>x \<in> set (er_insertions (fx_fixes fx)). 0 \<le> target x \<and> target x < int (length (tb_token_infos tb1))"
    using insertion_range(1) [OF xs assms(4)] len by (simp add: tb1(1))
  define M where "M = merged 0 us (sort_key insertion_key (er_insertions (fx_fixes fx)))"
  note A = Apply_fixes_ok [OF ap tb1(2) xs repair_insertable [OF assms(2,3)] range, unfolded tb1(1), folded M_def]
  note M = merged_balanced [OF assms(2-4) us(2) xs, folded M_def]
  have tb2: "tb_token_infos tb2 = map snd M" "tb_recovery_tokens tb2 = map fst M" "tb_post_lexing_recovery_tokens tb2 = 0"
    using A(1) tb1(3) by (auto simp: extended_buffer_def)
  have two: "length M \<le> 2 * length ?infos" using M(2) insertions_few [OF assms(2,4)] by simp
  obtain vs where vs: "FixTokenCrossReferences tb2 = Ret (tb2\<lparr>tb_token_infos := vs\<rparr>)" "groups_ok vs []"
    "list_all2 same_but_payload (map snd M) vs"
    using FixTokenCrossReferences_ok [of tb2] M(1) two assms(7) tb2 by (auto simp: comp_def)
  define tb3 where "tb3 = tb2\<lparr>tb_token_infos := vs\<rparr>"
  obtain c where c: "c \<in> set C" using repair_changes [OF assms(2-4,6)] by blast
  have "M \<noteq> []" using M(2) c assms(4) by (auto simp: correction_in_def)
  then have h: "holds_merged tb3 M" using vs(3) tb2(2) by (simp add: holds_merged_def tb3_def)
  have ne: "\<not> Recovery_empty (fx_fixes fx)" using made [OF xs c assms(4)] err by (auto simp: Recovery_empty_def)
  have "\<exists>cs. report_corrections er (zip C (fx_insertion_ids fx)) = Ret cs \<and> list_all2 (reported_as tb3 ?infos) C cs"
  proof (rule report_corrections_ok)
    show "length (fx_insertion_ids fx) = length C" by (simp add: ids insertion_ids_of_def)
    show "\<forall>k < length C. \<exists>c'. report_correction er (C ! k) (fx_insertion_ids fx ! k) = Ret c' \<and> reported_as tb3 ?infos (C ! k) c'"
    proof (intro allI impI)
      fix k assume k: "k < length C"
      have ck: "C ! k \<in> set C" using k by simp
      show "\<exists>c'. report_correction er (C ! k) (fx_insertion_ids fx ! k) = Ret c' \<and> reported_as tb3 ?infos (C ! k) c'"
      proof (rule report_correction_ok [OF h us(2) ck _ A(2)])
        assume "inserts (C ! k)"
        note f = filter_position [where P = inserts, OF k this]
        from xs f have "insertion_of (length (filter inserts (take k C))) (C ! k) (er_insertions (fx_fixes fx) ! length (filter inserts (take k C)))"
          "length (filter inserts (take k C)) < length (er_insertions (fx_fixes fx))" by (auto simp: insertions_of_def)
        then show "\<exists>j q sp (x :: Insertion). fx_insertion_ids fx ! k = Some j \<and> GetInsertedTokenIndex er j = Ret q \<and>
            merged_at M 0 q True (WithLeadingSpace sp (in_info x)) \<and> ti_kind (in_info x) = bc_fix_token_kind (C ! k)"
          using A(3) \<open>inserts (C ! k)\<close> k by (fastforce simp: ids insertion_ids_of_def insertion_of_def)
      qed (use assms(4) ck k in \<open>simp_all add: ids insertion_ids_of_def\<close>)
    qed
  qed
  then obtain cs where cs: "report_corrections er (zip C (fx_insertion_ids fx)) = Ret cs" "list_all2 (reported_as tb3 ?infos) C cs" by blast
  have "apply_corrections env report C lx =
      Ret (if report then Some cs else None, lx\<lparr>lx_buffer := tb3, lx_diags := lx_diags lx @ ds\<rparr>)"
    using fx(1) ne ap vs(1) cs(1) ds(1) by (simp add: apply_corrections_def Let_def tb1_def tb3_def)
  moreover have "list_all2 token_kept ?infos (kept_tokens tb3)"
    using tokens_kept [OF h [unfolded M_def] us(2)] repairsD(4) [OF assms(2)] by blast
  moreover have "length (tb_token_infos tb3) \<le> 2 * length ?infos" using two holds_mergedD(1) [OF h] by simp
  moreover have "groups_ok (tb_token_infos tb3) []" using vs(2) by (simp add: tb3_def)
  moreover have st: "same_text (lx_buffer lx) tb3"
    using A(1) us(1) by (auto simp: same_text_def extended_buffer_def tb3_def tb1_def)
  moreover have "in_text tb3"
  proof (rule merged_in_text [OF h [unfolded M_def] us(2)])
    show "\<forall>c \<in> set C. correction_ok lo hi (bracket_stream ?infos) c" using repairsD(4) [OF assms(2)] by blast
    show "\<forall>x \<in> set (sort_key insertion_key (er_insertions (fx_fixes fx))). 1 \<le> target x" using insertion_range(2) [OF xs assms(4)] by simp
    show "\<forall>x \<in> set (sort_key insertion_key (er_insertions (fx_fixes fx))). ti_kind (in_info x) \<noteq> FileEnd"
      using insertion_kind [OF xs repairsD(4) [OF assms(2)]] by simp
  qed (use assms(8) st offs in \<open>simp_all add: in_text_def same_text_def\<close>)
  ultimately show ?thesis using ds(2) cs(2) by blast
qed

end
