(* ===== verification/Recovery_Total.thy ===== *)
theory Recovery_Total
  imports Recovery_Result Lexer_Total
begin

text \<open>
  Lexing from the text to the finished buffer: on every text the lexer hands over, brackets matched or not, \<open>Finalize\<close> fails no check
  and returns, and in the buffer it returns every bracket is matched.
\<close>

section \<open>What the lexer hands over\<close>

lemma ends_before_nth:
  "ends_before env tb (rev ts) e \<Longrightarrow> i < length ts \<Longrightarrow>
   \<exists>w. tok_ok env tb (ts ! i) w \<and> gap tb (ti_byte_offset (ts ! i) + length w)
      (if i + 1 < length ts then ti_byte_offset (ts ! (i + 1)) else e) \<and> ti_byte_offset (ts ! i) \<le> e"
proof (induction ts arbitrary: e rule: rev_induct)
  case (snoc t ts)
  have t: "ti_byte_offset t \<le> e" using snoc.prems(1) by (auto simp: gap_def)
  show ?case
  proof (cases "i = length ts")
    case True
    with snoc.prems t show ?thesis by auto
  next
    case False
    then have "i < length ts" using snoc.prems(2) by simp
    moreover have "ends_before env tb (rev ts) (ti_byte_offset t)" using snoc.prems(1) by simp
    ultimately show ?thesis using snoc.IH [of "ti_byte_offset t"] t by (fastforce simp: nth_append split: if_splits)
  qed
qed simp

lemma tok_ok_in_text:
  assumes "tok_ok env tb ti w" "ti_byte_offset ti \<le> length (tb_source tb)"
  shows "ti_byte_offset ti + length w \<le> length (tb_source tb)"
proof -
  have "starts_with (drop (ti_byte_offset ti) (tb_source tb)) w" using assms(1) by (simp add: tok_ok_def)
  from starts_with_length [OF this] have "length w \<le> length (tb_source tb) - ti_byte_offset ti" by simp
  with assms(2) show ?thesis by simp
qed

lemma final_in_text:
  assumes "final_ok env uval src lx"
  shows "in_text (lx_buffer lx)"
proof -
  have f: "tb_source (lx_buffer lx) = src" "ends_before env (lx_buffer lx) (rev (lx_token_infos lx)) (length src)"
    "2 \<le> length (lx_token_infos lx)" "ti_kind (hd (lx_token_infos lx)) = FileStart" "ti_kind (last (lx_token_infos lx)) = FileEnd"
    "FileEnd \<notin> ti_kind ` set (butlast (lx_token_infos lx))"
    using assms by (simp_all add: final_ok_def)
  have "ti_byte_offset t \<le> length src" if "t \<in> set (lx_token_infos lx)" for t
    using that ends_before_nth [OF f(2)] by (auto simp: in_set_conv_nth)
  moreover have "lx_token_infos lx \<noteq> []" using f(3) by auto
  ultimately show ?thesis using f by (simp add: in_text_def)
qed

lemma final_readable:
  assumes "final_ok env uval src lx"
  shows "readable_buffer env (lx_buffer lx)"
proof -
  have f: "tb_source (lx_buffer lx) = src" "map line_start (lx_lines lx) = line_starts src"
    "ends_before env (lx_buffer lx) (rev (lx_token_infos lx)) (length src)" "tb_post_lexing_recovery_tokens (lx_buffer lx) = 0"
    using assms by (simp_all add: final_ok_def)
  have "readable env (lx_buffer lx) (lx_token_infos lx ! i)" if i: "i < length (lx_token_infos lx)" for i
  proof -
    obtain w where w: "tok_ok env (lx_buffer lx) (lx_token_infos lx ! i) w" "ti_byte_offset (lx_token_infos lx ! i) \<le> length src"
      using ends_before_nth [OF f(3) i] by blast
    obtain l where "FindLineIndex (lx_buffer lx) (ti_byte_offset (lx_token_infos lx ! i)) = Ret l" "l < length (line_starts src)"
      by (rule FindLineIndex_props [OF f(1,2) w(2)])
    moreover have "ti_byte_offset (lx_token_infos lx ! i) + length w \<le> length src"
      using tok_ok_in_text [OF w(1)] w(2) f(1) by simp
    ultimately show ?thesis using w(1) arg_cong [OF f(2), of length] f(1) by (auto simp: readable_def tok_ok_def)
  qed
  then show ?thesis using f(4) by (simp add: readable_buffer_def)
qed

lemma sort_corrections_sorted: "sorted (map bc_diagnostic_token_index (sort_corrections cs))"
  by (simp add: sort_corrections_def)

lemma FixMismatchedBrackets_sorted:
  "FixMismatchedBrackets ts = Some C \<Longrightarrow> sorted (map bc_diagnostic_token_index C)"
  by (auto simp: FixMismatchedBrackets_def Let_def sort_corrections_sorted split: if_splits)

section \<open>Finalizing\<close>

definition mismatched :: "'a Lexer \<Rightarrow> bool" where
  "mismatched lx \<longleftrightarrow> lx_has_mismatched_brackets lx \<or> lx_open_groups lx \<noteq> []"

lemma mismatched_balanced: "final_ok env uval src lx \<Longrightarrow> mismatched lx \<longleftrightarrow> \<not> balanced (map ti_kind (lx_token_infos lx))"
  by (auto simp: final_ok_def mismatched_def brackets_seen_def balanced_def split: if_splits)

lemma stream_corrections_in:
  assumes "repairs lo hi (bracket_stream infos) C" "1 \<le> lo" "hi < int (length infos)" "ti_kind (hd infos) = FileStart" "c \<in> set C"
  shows "correction_in infos c"
proof -
  note c = repairsD(4) [OF assms(1,5)]
  then obtain i where i: "i < length infos" "bc_diagnostic_token_index c = int i" "ti_kind (infos ! i) \<noteq> FileStart"
    by (auto simp: correction_ok_def bracket_stream_iff)
  then have "i \<noteq> 0" using assms(4) by (cases infos; cases i) auto
  then show ?thesis using c i assms(2,3) by (auto simp: correction_ok_def correction_in_def)
qed

text \<open>The result of recovery: the corrections made, and what they leave of the tokens.\<close>

definition recovered ::
    "TokenInfo list \<Rightarrow> 'a TokenizedBuffer \<Rightarrow> BracketCorrection list \<Rightarrow> lex_diag emitted \<Rightarrow> BracketCorrection list \<Rightarrow> bool" where
  "recovered infos tb C ds cs \<longleftrightarrow> C \<noteq> [] \<and> diags_of infos C ds \<and> list_all2 (reported_as tb infos) C cs \<and>
     list_all2 token_kept infos (kept_tokens tb) \<and> groups_ok (tb_token_infos tb) [] \<and> in_text tb \<and>
     length (tb_token_infos tb) \<le> 2 * length infos"

lemma DiagnoseAndFix_ok:
  assumes "final_ok env uval src lx" "mismatched lx" "length (lx_token_infos lx) \<le> 2 ^ 22"
  shows "\<exists>tb C ds cs. DiagnoseAndFixMismatchedBrackets env report lx =
      Some (Ret (if report then Some cs else None, lx\<lparr>lx_buffer := tb, lx_diags := lx_diags lx @ ds\<rparr>)) \<and>
    recovered (lx_token_infos lx) tb C ds cs \<and> same_text (lx_buffer lx) tb"
proof -
  let ?infos = "lx_token_infos lx"
  have f: "2 \<le> length ?infos" "ti_kind (hd ?infos) = FileStart" "ti_kind (last ?infos) = FileEnd" "tb_recovery_tokens (lx_buffer lx) = []"
    using assms(1) by (simp_all add: final_ok_def)
  note r = final_readable [OF assms(1)]
  obtain ts where ts: "CollectMismatchedBracketTokens env (lx_buffer lx) = Ret ts" "stream_ok ts" "map token_pair ts = bracket_stream ?infos"
    "1 \<le> mb_token_index (hd ts)" "mb_token_index (last ts) = int (length ?infos) - 1"
    using CollectMismatchedBracketTokens_ok [OF r f(1-3)] by blast
  obtain C where C: "FixMismatchedBrackets ts = Some C"
    "repairs (mb_token_index (hd ts)) (mb_token_index (last ts)) (bracket_stream ?infos) C"
    using FixMismatchedBrackets_repairs [OF ts(2)] ts(3) by auto
  have c: "\<forall>c \<in> set C. correction_in ?infos c" using stream_corrections_in [OF C(2) ts(4) _ f(2)] ts(5) by simp
  note s = FixMismatchedBrackets_sorted [OF C(1)]
  have nb: "\<not> balanced (map ti_kind ?infos)" using mismatched_balanced [OF assms(1)] assms(2) by simp
  have ne: "C \<noteq> []" using repair_changes [OF C(2) s c nb] by auto
  obtain tb ds cs where a: "apply_corrections env report C lx =
      Ret (if report then Some cs else None, lx\<lparr>lx_buffer := tb, lx_diags := lx_diags lx @ ds\<rparr>)"
    "recovered ?infos tb C ds cs" "same_text (lx_buffer lx) tb"
    using apply_corrections_ok [OF r C(2) s c f(4) nb assms(3) final_in_text [OF assms(1)]] ne unfolding recovered_def by blast
  have "DiagnoseAndFixMismatchedBrackets env report lx =
      Some (Ret (if report then Some cs else None, lx\<lparr>lx_buffer := tb, lx_diags := lx_diags lx @ ds\<rparr>))"
    using ts(1) C(1) a(1) by (simp add: DiagnoseAndFixMismatchedBrackets_def)
  with a(2,3) show ?thesis by blast
qed

section \<open>Lexing\<close>

lemma has_errors_unread [simp]:
  "IsRecoveryToken (tb\<lparr>tb_has_errors := b\<rparr>) i = IsRecoveryToken tb i" "kept_tokens (tb\<lparr>tb_has_errors := b\<rparr>) = kept_tokens tb"
  "reported_as (tb\<lparr>tb_has_errors := b\<rparr>) = reported_as tb"
  by (simp_all add: IsRecoveryToken_def kept_tokens_def reported_as_def fun_eq_iff)

lemma kept_tokens_lexed: "tb_recovery_tokens tb = [] \<Longrightarrow> kept_tokens tb = tb_token_infos tb"
  by (simp add: kept_tokens_def IsRecoveryToken_def map_nth)

lemma token_kept_refl [simp]: "token_kept t t"
  by (simp add: token_kept_def)

definition lexed ::
    "'a Lexer \<Rightarrow> bool \<Rightarrow> 'a TokenizedBuffer \<Rightarrow> lex_diag emitted \<Rightarrow> BracketCorrection list option \<Rightarrow> bool" where
  "lexed lx report tb ds reported \<longleftrightarrow>
     (if mismatched lx
      then \<exists>C ds' cs. ds = lx_diags lx @ ds' \<and> reported = (if report then Some cs else None) \<and> recovered (lx_token_infos lx) tb C ds' cs
      else ds = lx_diags lx \<and> reported = None \<and> tb_token_infos tb = lx_token_infos lx \<and> tb_recovery_tokens tb = [] \<and>
        groups_ok (tb_token_infos tb) [] \<and> in_text tb)"

lemma check_token_count_ok: "length (lx_token_infos lx) \<le> 2 ^ 23 - 1 \<Longrightarrow> check_token_count lx = Ret lx"
  by (simp add: check_token_count_def TokenIndex_Max_def TokenIndex_Bits_def)

lemma Lex_lexed:
  assumes "apint (env_apint env) uval" "utf8_encoder (env_to_utf8 env)" "utf8_decoder (env_from_utf8 env)"
    "stores_ok env uval n stores" "n + length src < 2 ^ 21 - 1"
  obtains lx tb ds reported where "Lex_file env stores src = Some (Ret lx)" "final_ok env uval src lx"
    "Lex env report stores src = Some (Ret (tb, ds, reported))" "lexed lx report tb ds reported"
    "tb_has_errors tb \<longleftrightarrow> tb_has_errors (lx_buffer lx) \<or> ds \<noteq> []" "same_text (lx_buffer lx) tb"
proof -
  have "lexing env uval" using assms(1-3) by (simp add: lexing_def)
  from lexing.Lex_file_ok [OF this assms(4,5)] obtain lx where lx: "Lex_file env stores src = Some (Ret lx)" "final_ok env uval src lx" by blast
  have few: "length (lx_token_infos lx) \<le> 2 ^ 21" using lx(2) assms(5) by (simp add: final_ok_def)
  show thesis
  proof (cases "mismatched lx")
    case True
    obtain tb C ds cs where d: "DiagnoseAndFixMismatchedBrackets env report lx =
        Some (Ret (if report then Some cs else None, lx\<lparr>lx_buffer := tb, lx_diags := lx_diags lx @ ds\<rparr>))"
      "recovered (lx_token_infos lx) tb C ds cs" "same_text (lx_buffer lx) tb"
      using DiagnoseAndFix_ok [OF lx(2) True] few by fastforce
    let ?lx = "lx\<lparr>lx_buffer := tb, lx_diags := lx_diags lx @ ds\<rparr>"
    have "check_token_count ?lx = Ret ?lx" by (rule check_token_count_ok) (use d(2) few in \<open>simp add: recovered_def\<close>)
    then have fin: "Finalize env report lx = Some (Ret (if report then Some cs else None, ?lx))"
      using d(1) True by (simp add: Finalize_def mismatched_def)
    have ne: "lx_diags lx @ ds \<noteq> []" using d(2) by (auto simp: recovered_def diags_of_def)
    show thesis
      by (rule that [OF lx, of "tb\<lparr>tb_has_errors := True\<rparr>" "lx_diags lx @ ds" "if report then Some cs else None"])
        (use fin lx(1) True d(2,3) ne in \<open>auto simp: Lex_def lexed_def recovered_def same_text_def in_text_def\<close>)
  next
    case False
    note it = final_in_text [OF lx(2)]
    have "check_token_count lx = Ret lx" by (rule check_token_count_ok) (use few in simp)
    then have fin: "Finalize env report lx = Some (Ret (None, lx))" using False by (simp add: Finalize_def mismatched_def)
    show thesis
      by (rule that [OF lx, of "(lx_buffer lx)\<lparr>tb_has_errors := tb_has_errors (lx_buffer lx) \<or> lx_diags lx \<noteq> []\<rparr>" "lx_diags lx" None])
        (use fin lx False it in \<open>auto simp: Lex_def lexed_def final_ok_def mismatched_def same_text_def in_text_def\<close>)
  qed
qed

lemma lexed_small:
  assumes "lexed lx report tb ds reported" "final_ok env uval src lx" "length src < 2 ^ 21"
  shows "length (tb_token_infos tb) \<le> 2 * length (lx_token_infos lx)" "length (tb_token_infos tb) \<le> 2 ^ 23"
  using assms by (auto simp: lexed_def recovered_def final_ok_def split: if_splits)

lemma lexed_groups: "lexed lx report tb ds reported \<Longrightarrow> groups_ok (tb_token_infos tb) [] \<and> in_text tb"
  by (auto simp: lexed_def recovered_def split: if_splits)

end
