(* ===== verification/Parse_Skip.thy ===== *)
theory Parse_Skip
  imports Parse_Context Recovery_Total
begin

text \<open>
  The parser moves through a buffer whose brackets match, as the lexer promises: searching and skipping always end, fail no
  check, never pass the end of the file, and stay within the group they started in.
\<close>

section \<open>Buffers with matched brackets\<close>

lemma closes_getters:
  assumes "closes (tb_token_infos tb) i j" "length (tb_token_infos tb) \<le> 2 ^ 23"
  shows "GetMatchedClosingToken tb i = Ret (int j)" "GetMatchedOpeningToken tb j = Ret (int i)"
    "closing_symbol (ti_kind (tb_token_infos tb ! i)) = Ret (ti_kind (tb_token_infos tb ! j))"
proof -
  note k = closes_kinds [OF assms(1)]
  have c: "ti_payload (tb_token_infos tb ! j) = Some (word_of_nat i)" "ti_payload (tb_token_infos tb ! i) = Some (word_of_nat j)"
      "opening_symbol (ti_kind (tb_token_infos tb ! j)) = Ret (ti_kind (tb_token_infos tb ! i))"
    using assms(1) by (simp_all add: closes_def)
  have u: "uint (word_of_nat i :: 23 word) = int i" "uint (word_of_nat j :: 23 word) = int j"
    using payload_uint [of "int i"] payload_uint [of "int j"] k assms(2) by simp_all
  show "GetMatchedClosingToken tb i = Ret (int j)" "GetMatchedOpeningToken tb j = Ret (int i)"
    using c k u by (simp_all add: GetMatchedClosingToken_def GetMatchedOpeningToken_def store_get_def closing_token_index_def
        opening_token_index_def token_payload_def)
  show "closing_symbol (ti_kind (tb_token_infos tb ! i)) = Ret (ti_kind (tb_token_infos tb ! j))"
    using c(3) k by (cases "ti_kind (tb_token_infos tb ! j)")
      (auto simp: opening_symbol_def OpeningSymbol_def closing_symbol_def ClosingSymbol_def carbon_check_def split: if_splits)
qed

definition parse_ready :: "'a TokenizedBuffer \<Rightarrow> bool" where
  "parse_ready tb \<longleftrightarrow> groups_ok (tb_token_infos tb) [] \<and> length (tb_token_infos tb) \<le> 2 ^ 23 \<and> 2 \<le> length (tb_token_infos tb) \<and>
     ti_kind (hd (tb_token_infos tb)) = FileStart \<and> ti_kind (last (tb_token_infos tb)) = FileEnd \<and>
     FileEnd \<notin> ti_kind ` set (butlast (tb_token_infos tb)) \<and>
     (\<forall>t \<in> set (tb_token_infos tb). \<exists>l < length (tb_line_infos tb). FindLineIndex tb (ti_byte_offset t) = Ret l)"

abbreviation kind_at_token :: "'a TokenizedBuffer \<Rightarrow> nat \<Rightarrow> TokenKind" where
  "kind_at_token tb i \<equiv> ti_kind (tb_token_infos tb ! i)"

abbreviation group_of :: "'a TokenizedBuffer \<Rightarrow> nat \<Rightarrow> nat \<Rightarrow> bool" where
  "group_of tb i j \<equiv> closes (tb_token_infos tb) i j"

abbreviation last_index :: "'a TokenizedBuffer \<Rightarrow> nat" where
  "last_index tb \<equiv> length (tb_token_infos tb) - 1"

lemma parse_ready_group:
  assumes "parse_ready tb"
  shows "i \<le> last_index tb \<Longrightarrow> is_opening_symbol (kind_at_token tb i) \<Longrightarrow> \<exists>j. group_of tb i j"
    "j \<le> last_index tb \<Longrightarrow> is_closing_symbol (kind_at_token tb j) \<Longrightarrow> \<exists>i. group_of tb i j"
    "group_of tb i j \<Longrightarrow> group_of tb i' j' \<Longrightarrow> i < i' \<Longrightarrow> i' < j \<Longrightarrow> j' < j"
    "group_of tb i j \<Longrightarrow> GetMatchedClosingToken tb i = Ret (int j) \<and> i < j \<and> j < last_index tb"
    "group_of tb i j \<Longrightarrow> is_opening_symbol (kind_at_token tb i) \<and> is_closing_symbol (kind_at_token tb j)"
    "group_of tb i j \<Longrightarrow> group_of tb i j' \<Longrightarrow> j = j'"
proof -
  have r: "groups_ok (tb_token_infos tb) []" "length (tb_token_infos tb) \<le> 2 ^ 23" "2 \<le> length (tb_token_infos tb)"
    "ti_kind (last (tb_token_infos tb)) = FileEnd"
    using assms by (simp_all add: parse_ready_def)
  note g = groups_okD [OF r(1)]
  show "\<exists>j. group_of tb i j" if "i \<le> last_index tb" "is_opening_symbol (kind_at_token tb i)" for i using g(2) [of i] that r(3) by simp
  show "\<exists>i. group_of tb i j" if "j \<le> last_index tb" "is_closing_symbol (kind_at_token tb j)" for j using g(1) [of j] that r(3) by simp
  show "j' < j" if "group_of tb i j" "group_of tb i' j'" "i < i'" "i' < j" for i j i' j' using g(3) [OF that] .
  show c: "GetMatchedClosingToken tb i = Ret (int j) \<and> i < j \<and> j < last_index tb" if "group_of tb i j" for i j
  proof -
    note k = closes_kinds [OF that]
    have "kind_at_token tb (last_index tb) = FileEnd" using r(3,4) by (subst last_conv_nth [symmetric]) auto
    then have "j \<noteq> last_index tb" using k by auto
    then have "j < last_index tb" using k by linarith
    then show ?thesis using k closes_getters(1) [OF that r(2)] by simp
  qed
  show "is_opening_symbol (kind_at_token tb i) \<and> is_closing_symbol (kind_at_token tb j)" if "group_of tb i j" for i j
    using closes_kinds [OF that] by simp
  show "j = j'" if "group_of tb i j" "group_of tb i j'" for i j j' using c [OF that(1)] c [OF that(2)] by simp
qed

lemma parse_ready_end:
  assumes "parse_ready tb"
  shows "kind_at_token tb (last_index tb) = FileEnd" "p \<le> last_index tb \<Longrightarrow> GetKind tb p = Ret (kind_at_token tb p)"
    "p < last_index tb \<Longrightarrow> kind_at_token tb p \<noteq> FileEnd" "0 < last_index tb" "kind_at_token tb 0 = FileStart"
proof -
  let ?ts = "tb_token_infos tb"
  have r: "2 \<le> length ?ts" "ti_kind (last ?ts) = FileEnd" "FileEnd \<notin> ti_kind ` set (butlast ?ts)" "ti_kind (hd ?ts) = FileStart"
    using assms by (simp_all add: parse_ready_def)
  have ne: "?ts \<noteq> []" using r(1) by auto
  show "kind_at_token tb (last_index tb) = FileEnd" "kind_at_token tb 0 = FileStart" "0 < last_index tb"
    using r ne by (simp_all add: last_conv_nth hd_conv_nth)
  show "GetKind tb p = Ret (kind_at_token tb p)" if "p \<le> last_index tb" using that r(1) by (simp add: GetKind_def store_get_def)
  show "kind_at_token tb p \<noteq> FileEnd" if "p < last_index tb"
  proof -
    have i: "p < length (butlast ?ts)" using that by simp
    have "ti_kind (butlast ?ts ! p) \<in> ti_kind ` set (butlast ?ts)" by (rule imageI [OF nth_mem [OF i]])
    then show ?thesis using r(3) nth_butlast [OF i] by metis
  qed
qed

lemma not_closing_opening: "is_opening_symbol k \<Longrightarrow> \<not> is_closing_symbol k \<and> k \<noteq> FileEnd"
  using opening_closing_exclusive by auto

lemma parse_readyI:
  assumes "groups_ok (tb_token_infos tb) []" "length (tb_token_infos tb) \<le> 2 ^ 23" "2 \<le> length (tb_token_infos tb)" "in_text tb"
    "map line_start (tb_line_infos tb) = line_starts (tb_source tb)"
  shows "parse_ready tb"
proof -
  have "\<exists>l < length (tb_line_infos tb). FindLineIndex tb (ti_byte_offset t) = Ret l" if "t \<in> set (tb_token_infos tb)" for t
  proof -
    have o: "ti_byte_offset t \<le> length (tb_source tb)" using assms(4) that by (simp add: in_text_def)
    obtain k where "FindLineIndex tb (ti_byte_offset t) = Ret k" "k < length (line_starts (tb_source tb))"
      by (rule FindLineIndex_props [OF refl assms(5) o])
    then show ?thesis using arg_cong [OF assms(5), of length] by simp
  qed
  then show ?thesis using assms(1-4) by (simp add: parse_ready_def in_text_def)
qed

section \<open>Positions at the same level\<close>

text \<open>
  Position \<open>t\<close> is at the level of \<open>p\<close>: between them groups begin and end in pairs. Position \<open>q\<close> is at the level of the group
  from \<open>i\<close> to \<open>j\<close> when it is at the level of the first position in it.
\<close>

definition same_level :: "'a TokenizedBuffer \<Rightarrow> nat \<Rightarrow> nat \<Rightarrow> bool" where
  "same_level tb p t \<longleftrightarrow> p \<le> t \<and> (\<forall>i j. group_of tb i j \<longrightarrow> (p \<le> i \<and> i < t \<longrightarrow> j < t) \<and> (p \<le> j \<and> j < t \<longrightarrow> p \<le> i))"

definition level :: "'a TokenizedBuffer \<Rightarrow> nat \<Rightarrow> nat \<Rightarrow> nat \<Rightarrow> bool" where
  "level tb i j q \<longleftrightarrow> group_of tb i j \<and> q \<le> j \<and> same_level tb (i + 1) q"

lemma same_levelD:
  assumes "same_level tb p t"
  shows "p \<le> t" "group_of tb i j \<Longrightarrow> p \<le> i \<Longrightarrow> i < t \<Longrightarrow> j < t" "group_of tb i j \<Longrightarrow> p \<le> j \<Longrightarrow> j < t \<Longrightarrow> p \<le> i"
  using assms by (auto simp: same_level_def)

lemma same_levelI:
  assumes "p \<le> t" "\<And>i j. group_of tb i j \<Longrightarrow> p \<le> i \<Longrightarrow> i < t \<Longrightarrow> j < t" "\<And>i j. group_of tb i j \<Longrightarrow> p \<le> j \<Longrightarrow> j < t \<Longrightarrow> p \<le> i"
  shows "same_level tb p t"
  using assms by (auto simp: same_level_def)

lemma same_level_refl [simp]: "same_level tb p p"
  by (auto simp: same_level_def)

lemma same_level_trans:
  assumes "same_level tb p q" "same_level tb q r"
  shows "same_level tb p r"
proof (rule same_levelI)
  note a = same_levelD [OF assms(1)] and b = same_levelD [OF assms(2)]
  show "p \<le> r" using a(1) b(1) by simp
  show "j < r" if "group_of tb i j" "p \<le> i" "i < r" for i j
    using a(2) [OF that(1,2)] b(2) [OF that(1) _ that(3)] b(1) by (cases "i < q") auto
  show "p \<le> i" if "group_of tb i j" "p \<le> j" "j < r" for i j
    using a(3) [OF that(1,2)] b(3) [OF that(1) _ that(3)] a(1) by (cases "j < q") auto
qed

text \<open>Where scanning goes from a token that ends nothing.\<close>

definition scan_past :: "'a TokenizedBuffer \<Rightarrow> nat \<Rightarrow> nat" where
  "scan_past tb p = (if is_opening_symbol (kind_at_token tb p)
     then case GetMatchedClosingToken tb p of Ret c \<Rightarrow> nat c + 1 | Fatal \<Rightarrow> 0 else p + 1)"

lemma advance_plain [simp]: "\<not> is_opening_symbol (kind_at_token tb p) \<Longrightarrow> scan_past tb p = p + 1"
  by (simp add: scan_past_def)

lemma advance_group:
  assumes "parse_ready tb" "p \<le> last_index tb" "is_opening_symbol (kind_at_token tb p)"
  obtains c where "group_of tb p c" "GetMatchedClosingToken tb p = Ret (int c)" "p < c" "c < last_index tb" "scan_past tb p = c + 1"
proof -
  note g = parse_ready_group [OF assms(1)]
  from g(1) [OF assms(2,3)] obtain c where c: "group_of tb p c" by blast
  with g(4) [OF c] assms(3) show thesis by (intro that [of c]) (simp_all add: scan_past_def)
qed

lemma group_inj: "parse_ready tb \<Longrightarrow> group_of tb i j \<Longrightarrow> group_of tb i' j \<Longrightarrow> i = i'"
  using parse_ready_group(3,4) by (metis linorder_neqE_nat order_less_irrefl)

lemma advance_range: "parse_ready tb \<Longrightarrow> p < last_index tb \<Longrightarrow> p < scan_past tb p \<and> scan_past tb p \<le> last_index tb"
  by (cases "is_opening_symbol (kind_at_token tb p)") (force elim: advance_group [where p = p and tb = tb] | simp)+

lemma same_level_over_group:
  assumes "parse_ready tb" "group_of tb p c"
  shows "same_level tb p t \<and> p \<noteq> t \<longleftrightarrow> same_level tb (c + 1) t"
proof
  note g = parse_ready_group [OF assms(1)]
  have pc: "p < c" "is_opening_symbol (kind_at_token tb p)" "\<not> is_closing_symbol (kind_at_token tb p)"
      "\<not> is_opening_symbol (kind_at_token tb c)"
    using g(4,5) [OF assms(2)] not_closing_opening by blast+
  have out: "i \<le> p \<or> i < c \<and> j < c \<or> c < i" if "group_of tb i j" for i j
    using g(3) [OF assms(2) that] g(5) [OF that] pc(4) by (metis linorder_neqE_nat not_less)
  assume l: "same_level tb p t \<and> p \<noteq> t"
  then have d: "same_level tb p t" "p < t" using same_levelD(1) by force+
  show "same_level tb (c + 1) t"
  proof (rule same_levelI)
    show "c + 1 \<le> t" using same_levelD(2) [OF d(1) assms(2) _ d(2)] by simp
    show "j < t" if "group_of tb i j" "c + 1 \<le> i" "i < t" for i j using same_levelD(2) [OF d(1) that(1) _ that(3)] that(2) pc(1) by simp
    show "c + 1 \<le> i" if "group_of tb i j" "c + 1 \<le> j" "j < t" for i j
    proof -
      have "p \<le> i" by (rule same_levelD(3) [OF d(1) that(1) _ that(3)]) (use that(2) pc(1) in simp)
      moreover have "i \<noteq> p" using g(6) [OF assms(2)] that(1,2) by fastforce
      ultimately show ?thesis using out [OF that(1)] that(2) by auto
    qed
  qed
next
  note g = parse_ready_group [OF assms(1)]
  have pc: "p < c" "is_opening_symbol (kind_at_token tb p)" "\<not> is_closing_symbol (kind_at_token tb p)"
      "\<not> is_opening_symbol (kind_at_token tb c)"
    using g(4,5) [OF assms(2)] not_closing_opening by blast+
  assume l: "same_level tb (c + 1) t"
  note d = same_levelD [OF l]
  show "same_level tb p t \<and> p \<noteq> t"
  proof (intro conjI same_levelI)
    show "p \<le> t" "p \<noteq> t" using d(1) pc(1) by simp_all
    show "j < t" if gr: "group_of tb i j" "p \<le> i" "i < t" for i j
    proof -
      consider "i = p" | "p < i" "i < c" | "i = c" | "c + 1 \<le> i" using gr(2) by linarith
      then show ?thesis
      proof cases
        case 1 then show ?thesis using g(6) [OF assms(2)] gr(1) d(1) by fastforce
      next
        case 2 then show ?thesis using g(3) [OF assms(2) gr(1)] d(1) by fastforce
      next
        case 3 then show ?thesis using g(5) [OF gr(1)] pc(4) by blast
      next
        case 4 then show ?thesis using d(2) [OF gr(1) _ gr(3)] by blast
      qed
    qed
    show "p \<le> i" if gr: "group_of tb i j" "p \<le> j" "j < t" for i j
    proof -
      consider "j = p" | "p < j" "j < c" | "j = c" | "c + 1 \<le> j" using gr(2) by linarith
      then show ?thesis
      proof cases
        case 1 then show ?thesis using g(5) [OF gr(1)] pc(3) by blast
      next
        case 2
        then show ?thesis using g(3) [OF gr(1) assms(2)] by (cases "i < p") auto
      next
        case 3 then show ?thesis using group_inj [OF assms(1,2)] gr(1) by blast
      next
        case 4 then show ?thesis using d(3) [OF gr(1) _ gr(3)] pc(1) by fastforce
      qed
    qed
  qed
qed

lemma same_level_over_token:
  assumes "parse_ready tb" "\<not> is_opening_symbol (kind_at_token tb p)" "\<not> is_closing_symbol (kind_at_token tb p)"
  shows "same_level tb p t \<and> p \<noteq> t \<longleftrightarrow> same_level tb (p + 1) t"
proof -
  note g = parse_ready_group [OF assms(1)]
  have n: "i \<noteq> p" "j \<noteq> p" if "group_of tb i j" for i j using g(5) [OF that] assms(2,3) by blast+
  show ?thesis
  proof
    assume "same_level tb p t \<and> p \<noteq> t"
    then have d: "same_level tb p t" "p < t" using same_levelD(1) by force+
    show "same_level tb (p + 1) t"
    proof (rule same_levelI)
      show "p + 1 \<le> t" using d(2) by simp
      show "j < t" if "group_of tb i j" "p + 1 \<le> i" "i < t" for i j using same_levelD(2) [OF d(1) that(1) _ that(3)] that(2) by simp
      show "p + 1 \<le> i" if "group_of tb i j" "p + 1 \<le> j" "j < t" for i j
        using same_levelD(3) [OF d(1) that(1) _ that(3)] that(2) n(1) [OF that(1)] by simp
    qed
  next
    assume l: "same_level tb (p + 1) t"
    note d = same_levelD [OF l]
    show "same_level tb p t \<and> p \<noteq> t"
    proof (intro conjI same_levelI)
      show "p \<le> t" "p \<noteq> t" using d(1) by simp_all
      show "j < t" if "group_of tb i j" "p \<le> i" "i < t" for i j using d(2) [OF that(1) _ that(3)] that(2) n(1) [OF that(1)] by simp
      show "p \<le> i" if "group_of tb i j" "p \<le> j" "j < t" for i j using d(3) [OF that(1) _ that(3)] that(2) n(2) [OF that(1)] by simp
    qed
  qed
qed

lemma same_level_advance:
  assumes "parse_ready tb" "p \<le> last_index tb" "\<not> is_closing_symbol (kind_at_token tb p)"
  shows "same_level tb p t \<longleftrightarrow> p = t \<or> same_level tb (scan_past tb p) t"
proof (cases "is_opening_symbol (kind_at_token tb p)")
  case True
  obtain c where "group_of tb p c" "scan_past tb p = c + 1" by (rule advance_group [OF assms(1,2) True])
  with same_level_over_group [OF assms(1), of p c t] show ?thesis by auto
next
  case False
  with same_level_over_token [OF assms(1) False assms(3), of t] show ?thesis by auto
qed

section \<open>Searching\<close>

text \<open>The first position at the level of \<open>p\<close> with a property.\<close>

definition first_at_level :: "'a TokenizedBuffer \<Rightarrow> (TokenKind \<Rightarrow> bool) \<Rightarrow> nat \<Rightarrow> nat \<Rightarrow> bool" where
  "first_at_level tb P p t \<longleftrightarrow> same_level tb p t \<and> P (kind_at_token tb t) \<and>
     (\<forall>t'. same_level tb p t' \<and> t' < t \<longrightarrow> \<not> P (kind_at_token tb t'))"

definition ends_search :: "TokenKind list \<Rightarrow> TokenKind \<Rightarrow> bool" where
  "ends_search ks k \<longleftrightarrow> k \<in> set ks \<or> is_closing_symbol k \<or> k = FileEnd"

lemma first_at_level_advance:
  assumes "parse_ready tb" "p \<le> last_index tb" "\<not> is_closing_symbol (kind_at_token tb p)" "\<not> P (kind_at_token tb p)"
    "first_at_level tb P (scan_past tb p) t"
  shows "first_at_level tb P p t"
  using assms(4,5) same_level_advance [OF assms(1-3)] by (auto simp: first_at_level_def)

lemma find_next_ok:
  assumes "parse_ready tb" "q \<le> last_index tb"
  shows "\<exists>t. find_next ks tb q = Some (Ret (if kind_at_token tb t \<in> set ks then Some t else None)) \<and> t \<le> last_index tb \<and>
    first_at_level tb (ends_search ks) q t"
  using assms(2)
proof (induction "last_index tb - q" arbitrary: q rule: less_induct)
  case less
  note k = parse_ready_end(2) [OF assms(1) less.prems]
  show ?case
  proof (cases "ends_search ks (kind_at_token tb q)")
    case True
    then have "first_at_level tb (ends_search ks) q q" by (auto simp: first_at_level_def dest: same_levelD(1))
    moreover have "find_next ks tb q = Some (Ret (if kind_at_token tb q \<in> set ks then Some q else None))"
      using True k by (subst find_next.simps) (auto simp: ends_search_def)
    ultimately show ?thesis using less.prems by blast
  next
    case False
    then have n: "kind_at_token tb q \<notin> set ks" "\<not> is_closing_symbol (kind_at_token tb q)" "kind_at_token tb q \<noteq> FileEnd"
      by (auto simp: ends_search_def)
    have lt: "q < last_index tb" using less.prems parse_ready_end(1) [OF assms(1)] n(3) by (cases "q = last_index tb") auto
    note a = advance_range [OF assms(1) lt]
    have eq: "find_next ks tb q = find_next ks tb (scan_past tb q)"
    proof (cases "is_opening_symbol (kind_at_token tb q)")
      case True
      obtain c where "GetMatchedClosingToken tb q = Ret (int c)" "scan_past tb q = c + 1" by (rule advance_group [OF assms(1) less.prems True])
      then show ?thesis using k n True by (subst find_next.simps) simp
    next
      case False
      then show ?thesis using k n by (subst find_next.simps) simp
    qed
    have "last_index tb - scan_past tb q < last_index tb - q" using a lt by linarith
    from less.hyps [OF this] a obtain t where t: "find_next ks tb (scan_past tb q) = Some (Ret (if kind_at_token tb t \<in> set ks then Some t else None))"
      "t \<le> last_index tb" "first_at_level tb (ends_search ks) (scan_past tb q) t" by blast
    from t(1,2) first_at_level_advance [OF assms(1) less.prems n(2) False t(3)] show ?thesis unfolding eq by blast
  qed
qed

section \<open>The level of a group\<close>

lemma level_closing:
  assumes "parse_ready tb" "level tb i j q" "is_closing_symbol (kind_at_token tb q)"
  shows "q = j"
proof -
  note g = parse_ready_group [OF assms(1)]
  have l: "group_of tb i j" "q \<le> j" "same_level tb (i + 1) q" using assms(2) by (simp_all add: level_def)
  have iq: "i < q" using same_levelD(1) [OF l(3)] by simp
  have "q \<le> last_index tb" using l(2) g(4) [OF l(1)] by linarith
  from g(2) [OF this assms(3)] obtain i' where c: "group_of tb i' q" by blast
  consider "i' < i" | "i' = i" | "i + 1 \<le> i'" by linarith
  then show ?thesis
  proof cases
    case 1
    from g(3) [OF c l(1) this iq] l(2) show ?thesis by simp
  next
    case 2
    with c l(1) g(6) show ?thesis by blast
  next
    case 3
    from same_levelD(2) [OF l(3) c this] g(4) [OF c] show ?thesis by simp
  qed
qed

lemma level_end:
  assumes "parse_ready tb" "level tb i j q"
  shows "same_level tb q j"
proof (rule same_levelI)
  note g = parse_ready_group [OF assms(1)]
  have l: "group_of tb i j" "q \<le> j" "same_level tb (i + 1) q" using assms(2) by (simp_all add: level_def)
  have iq: "i < q" using same_levelD(1) [OF l(3)] by simp
  show "q \<le> j" by (rule l(2))
  show "j' < j" if "group_of tb i' j'" "q \<le> i'" "i' < j" for i' j' using g(3) [OF l(1) that(1) _ that(3)] that(2) iq by simp
  show "q \<le> i'" if c: "group_of tb i' j'" "q \<le> j'" "j' < j" for i' j'
  proof (rule ccontr)
    assume "\<not> q \<le> i'"
    then have "i' < q" by simp
    then consider "i' < i" | "i' = i" | "i + 1 \<le> i'" "i' < q" by linarith
    then show False
    proof cases
      case 1
      from g(3) [OF c(1) l(1) this] iq c(2,3) show False by simp
    next
      case 2
      with c l(1) g(6) show False by blast
    next
      case 3
      from same_levelD(2) [OF l(3) c(1) this] c(2) show False by simp
    qed
  qed
qed

lemma level_onwards: "level tb i j p \<Longrightarrow> same_level tb p t \<Longrightarrow> t \<le> j \<Longrightarrow> level tb i j t"
  using same_level_trans by (auto simp: level_def)

lemma level_range: "parse_ready tb \<Longrightarrow> level tb i j p \<Longrightarrow> i < p \<and> p \<le> j \<and> j < last_index tb"
  using parse_ready_group(4) same_levelD(1) by (fastforce simp: level_def)

lemma level_advance:
  assumes "parse_ready tb" "level tb i j p" "p \<noteq> j"
  shows "level tb i j (scan_past tb p)"
proof -
  note r = level_range [OF assms(1,2)]
  have "\<not> is_closing_symbol (kind_at_token tb p)" using level_closing [OF assms(1,2)] assms(3) by blast
  from same_level_advance [OF assms(1) _ this] r have a: "same_level tb p t \<longleftrightarrow> p = t \<or> same_level tb (scan_past tb p) t" for t by simp
  have "same_level tb (scan_past tb p) j" using a level_end [OF assms(1,2)] assms(3) by blast
  from same_levelD(1) [OF this] have "scan_past tb p \<le> j" .
  moreover have "same_level tb p (scan_past tb p)" using a by simp
  ultimately show ?thesis using level_onwards [OF assms(2)] by blast
qed

text \<open>A search within a group for what ends it.\<close>

lemma find_next_level:
  assumes "parse_ready tb" "level tb i j p" "kind_at_token tb j \<in> set ks"
  shows "\<exists>t. find_next ks tb p = Some (Ret (Some t)) \<and> level tb i j t \<and> p \<le> t \<and> kind_at_token tb t \<in> set ks"
proof -
  note r = level_range [OF assms(1,2)]
  have "p \<le> last_index tb" using r by simp
  from find_next_ok [OF assms(1) this, of ks] obtain t where
    t: "find_next ks tb p = Some (Ret (if kind_at_token tb t \<in> set ks then Some t else None))" "first_at_level tb (ends_search ks) p t" by blast
  have f: "same_level tb p t" "ends_search ks (kind_at_token tb t)" using t(2) by (simp_all add: first_at_level_def)
  have "\<not> j < t" using t(2) level_end [OF assms(1,2)] assms(3) by (auto simp: first_at_level_def ends_search_def)
  then have l: "level tb i j t" using level_onwards [OF assms(2) f(1)] by simp
  have "kind_at_token tb t \<noteq> FileEnd" using parse_ready_end(3) [OF assms(1)] level_range [OF assms(1) l] by simp
  then have "kind_at_token tb t \<in> set ks" using f(2) level_closing [OF assms(1) l] assms(3) by (auto simp: ends_search_def)
  then show ?thesis using t(1) l same_levelD(1) [OF f(1)] by auto
qed

section \<open>Skipping\<close>

text \<open>A context over such a buffer whose position is in it.\<close>

definition parsing :: "'a Context \<Rightarrow> bool" where
  "parsing cx \<longleftrightarrow> parse_ready (cx_tokens cx) \<and> cx_end cx = last_index (cx_tokens cx) \<and> cx_position cx \<le> cx_end cx"

abbreviation kind_here :: "'a Context \<Rightarrow> TokenKind" where
  "kind_here cx \<equiv> kind_at_token (cx_tokens cx) (cx_position cx)"

lemma parsingD:
  assumes "parsing cx"
  shows "parse_ready (cx_tokens cx)" "cx_end cx = last_index (cx_tokens cx)" "cx_position cx \<le> last_index (cx_tokens cx)"
    "PositionKind cx = Ret (kind_here cx)" "PositionIs k cx = Ret (kind_here cx = k)"
    "ConsumeIf k cx = Ret (if kind_here cx = k then (Some (cx_position cx), cx\<lparr>cx_position := cx_position cx + 1\<rparr>) else (None, cx))"
proof -
  show r: "parse_ready (cx_tokens cx)" "cx_end cx = last_index (cx_tokens cx)" "cx_position cx \<le> last_index (cx_tokens cx)"
    using assms by (simp_all add: parsing_def)
  show k: "PositionKind cx = Ret (kind_here cx)" using parse_ready_end(2) [OF r(1,3)] by (simp add: PositionKind_def)
  then show "PositionIs k cx = Ret (kind_here cx = k)" by (simp add: PositionIs_def)
  then show "ConsumeIf k cx = Ret (if kind_here cx = k then (Some (cx_position cx), cx\<lparr>cx_position := cx_position cx + 1\<rparr>) else (None, cx))"
    by (simp add: ConsumeIf_def Consume_def)
qed

lemma SkipMatchingGroup_ok:
  assumes "parsing cx"
  shows "SkipMatchingGroup cx = Ret (if is_opening_symbol (kind_here cx)
    then (True, cx\<lparr>cx_position := scan_past (cx_tokens cx) (cx_position cx)\<rparr>) else (False, cx))"
proof (cases "is_opening_symbol (kind_here cx)")
  case True
  note d = parsingD [OF assms]
  obtain c where c: "GetMatchedClosingToken (cx_tokens cx) (cx_position cx) = Ret (int c)" "cx_position cx < c"
    "c < last_index (cx_tokens cx)" "scan_past (cx_tokens cx) (cx_position cx) = c + 1"
    by (rule advance_group [OF d(1,3) True])
  have "c \<noteq> cx_end cx" using c(3) d(2) by linarith
  then have "SkipTo (int c) cx = Ret (cx\<lparr>cx_position := c\<rparr>)" using c(2) by (simp add: SkipTo_def)
  then show ?thesis using True c(1,4) d(4) by (simp add: SkipMatchingGroup_def)
next
  case False
  then show ?thesis using parsingD(4) [OF assms] by (simp add: SkipMatchingGroup_def)
qed

lemma skip_step_ok:
  assumes "parsing cx"
  shows "skip_step cx = Ret (
    if kind_here cx = Symbol CloseCurlyBrace then Inl (cx_position cx - 1, cx)
    else if kind_here cx = Symbol Semi then Inl (cx_position cx, cx\<lparr>cx_position := cx_position cx + 1\<rparr>)
    else Inr (cx\<lparr>cx_position := scan_past (cx_tokens cx) (cx_position cx)\<rparr>))"
proof -
  note d = parsingD [OF assms] and g = SkipMatchingGroup_ok [OF assms]
  have "0 < cx_position cx" if "kind_here cx = Symbol CloseCurlyBrace"
    using that parse_ready_end(5) [OF d(1)] by (cases "cx_position cx") auto
  then show ?thesis using g by (simp add: skip_step_def skip_done_def token_before_def d(5,6))
qed

lemma indent_of_ok:
  assumes "parse_ready tb" "t \<le> last_index tb"
  obtains n where "indent_of tb t = Ret n"
proof -
  have i: "t < length (tb_token_infos tb)" using assms parse_ready_end(4) [OF assms(1)] by linarith
  then obtain l where "l < length (tb_line_infos tb)" "FindLineIndex tb (ti_byte_offset (tb_token_infos tb ! t)) = Ret l"
    using assms(1) unfolding parse_ready_def by (meson nth_mem)
  with i that show thesis by (simp add: indent_of_def GetLine_def GetIndentColumnNumber_def store_get_def)
qed

lemma keep_scanning_ok:
  assumes "parse_ready tb" "t \<le> last_index tb"
  obtains b where "keep_scanning tb n t = Ret b"
proof -
  have i: "t < length (tb_token_infos tb)" using assms parse_ready_end(4) [OF assms(1)] by linarith
  then obtain l where "l < length (tb_line_infos tb)" "FindLineIndex tb (ti_byte_offset (tb_token_infos tb ! t)) = Ret l"
    using assms(1) unfolding parse_ready_def by (meson nth_mem)
  moreover obtain m where "indent_of tb t = Ret m" by (rule indent_of_ok [OF assms])
  ultimately show thesis using i that by (simp add: keep_scanning_def GetColumnNumber_def store_get_def)
qed

text \<open>
  The positions that skipping from \<open>p\<close> comes by: those in no group that begins at \<open>p\<close> or behind it.
\<close>

definition skips_by :: "'a TokenizedBuffer \<Rightarrow> nat \<Rightarrow> nat \<Rightarrow> bool" where
  "skips_by tb p q \<longleftrightarrow> p \<le> q \<and> (\<forall>i j. group_of tb i j \<and> p \<le> i \<and> i < q \<longrightarrow> j < q)"

lemma skips_by_advance:
  assumes "parse_ready tb" "p < last_index tb"
  shows "skips_by tb p q \<longleftrightarrow> q = p \<or> skips_by tb (scan_past tb p) q"
proof (cases "is_opening_symbol (kind_at_token tb p)")
  case True
  note g = parse_ready_group [OF assms(1)]
  obtain c where c: "group_of tb p c" "p < c" "scan_past tb p = c + 1"
    by (rule advance_group [OF assms(1) less_imp_le [OF assms(2)] True])
  have closing: "\<not> group_of tb c j" for j using g(5) [OF c(1)] g(5) [of c j] not_closing_opening by blast
  show ?thesis
  proof
    assume s: "skips_by tb p q"
    have "c < q" if "q \<noteq> p"
    proof -
      have "p < q" using s that by (simp add: skips_by_def)
      then show ?thesis using s c(1) unfolding skips_by_def by blast
    qed
    moreover have "j < q" if "group_of tb i j" "c + 1 \<le> i" "i < q" for i j
    proof -
      have "p \<le> i" using that(2) c(2) by simp
      with s that show ?thesis unfolding skips_by_def by blast
    qed
    ultimately show "q = p \<or> skips_by tb (scan_past tb p) q" unfolding skips_by_def c(3) by auto
  next
    assume "q = p \<or> skips_by tb (scan_past tb p) q"
    moreover have "skips_by tb p q" if s: "skips_by tb (c + 1) q"
    proof -
      have "j < q" if ij: "group_of tb i j" "p \<le> i" "i < q" for i j
      proof -
        consider "i = p" | "p < i" "i < c" | "i = c" | "c + 1 \<le> i" using ij(2) by linarith
        then show ?thesis
        proof cases
          case 1 then show ?thesis using g(6) [OF c(1)] ij(1) s by (auto simp: skips_by_def)
        next
          case 2 then show ?thesis using g(3) [OF c(1) ij(1)] s by (auto simp: skips_by_def)
        next
          case 3 then show ?thesis using closing ij(1) by blast
        next
          case 4 then show ?thesis using s ij by (auto simp: skips_by_def)
        qed
      qed
      with s c(2) show ?thesis by (auto simp: skips_by_def)
    qed
    ultimately show "skips_by tb p q" by (auto simp: c(3)) (simp add: skips_by_def)
  qed
next
  case False
  then have n: "\<not> group_of tb p j" for j using parse_ready_group(5) [OF assms(1)] by blast
  have "skips_by tb p q \<longleftrightarrow> q = p \<or> skips_by tb (p + 1) q"
  proof -
    have i: "p \<le> i \<longleftrightarrow> p + 1 \<le> i" if "group_of tb i j" for i j using n that by (cases "i = p") auto
    have "(\<forall>i j. group_of tb i j \<and> p \<le> i \<and> i < q \<longrightarrow> j < q) \<longleftrightarrow> (\<forall>i j. group_of tb i j \<and> p + 1 \<le> i \<and> i < q \<longrightarrow> j < q)"
      using i by blast
    moreover have "p \<le> q \<longleftrightarrow> q = p \<or> p + 1 \<le> q" by auto
    ultimately show ?thesis unfolding skips_by_def by auto
  qed
  then show ?thesis using False by simp
qed

text \<open>
  Where skipping from \<open>p\<close> ends: at the end of the file, at a closing brace, past a semicolon, or at a token that starts a line
  with no more indentation than the root's line; the first such place; and in the braces it was in.
\<close>

definition ends_skip :: "'a TokenizedBuffer \<Rightarrow> nat \<Rightarrow> nat \<Rightarrow> bool" where
  "ends_skip tb n q \<longleftrightarrow> kind_at_token tb q = Symbol CloseCurlyBrace \<or> kind_at_token tb (q - 1) = Symbol Semi \<or>
     keep_scanning tb n q = Ret False"

definition skips :: "'a TokenizedBuffer \<Rightarrow> nat \<Rightarrow> nat \<Rightarrow> nat \<Rightarrow> bool" where
  "skips tb n p p' \<longleftrightarrow> p' \<le> last_index tb \<and> 0 < p' \<and> skips_by tb p p' \<and>
     (p' = p \<longleftrightarrow> kind_at_token tb p = Symbol CloseCurlyBrace) \<and> (p' = last_index tb \<or> ends_skip tb n p') \<and>
     (\<forall>q. skips_by tb p q \<and> p < q \<and> q < p' \<longrightarrow> \<not> ends_skip tb n q) \<and>
     (\<forall>i j. level tb i j p \<and> kind_at_token tb j = Symbol CloseCurlyBrace \<longrightarrow> level tb i j p')"

lemma skips_by_refl [simp]: "skips_by tb p p"
  by (simp add: skips_by_def)

lemma skips_by_le: "skips_by tb p q \<Longrightarrow> p \<le> q"
  by (simp add: skips_by_def)

lemma skips_refl:
  "p \<le> last_index tb \<Longrightarrow> kind_at_token tb p = Symbol CloseCurlyBrace \<Longrightarrow> 0 < p \<Longrightarrow> skips tb n p p"
  by (auto simp: skips_def ends_skip_def)

lemma skips_advance:
  assumes "parse_ready tb" "p < last_index tb" "kind_at_token tb p \<noteq> Symbol CloseCurlyBrace"
  shows "scan_past tb p = last_index tb \<or> ends_skip tb n (scan_past tb p) \<Longrightarrow> skips tb n p (scan_past tb p)"
    "skips tb n (scan_past tb p) p' \<Longrightarrow> kind_at_token tb (scan_past tb p - 1) \<noteq> Symbol Semi \<Longrightarrow>
      keep_scanning tb n (scan_past tb p) = Ret True \<Longrightarrow> skips tb n p p'"
proof -
  let ?s = "scan_past tb p"
  note a = advance_range [OF assms(1,2)] and adv = skips_by_advance [OF assms(1,2)]
  have l: "level tb i j ?s" if "level tb i j p" "kind_at_token tb j = Symbol CloseCurlyBrace" for i j
    by (rule level_advance [OF assms(1) that(1)]) (use that(2) assms(3) in blast)
  have s: "?s \<le> q" if "skips_by tb p q" "p < q" for q using that adv skips_by_le by auto
  show "skips tb n p ?s" if "?s = last_index tb \<or> ends_skip tb n ?s"
  proof -
    have "\<not> q < ?s" if "skips_by tb p q" "p < q" for q using s [OF that] by simp
    then show ?thesis using that a l assms(3) adv [of ?s] unfolding skips_def by (simp add: less_imp_neq) blast
  qed
  show "skips tb n p p'" if k: "skips tb n ?s p'" "kind_at_token tb (?s - 1) \<noteq> Symbol Semi" "keep_scanning tb n ?s = Ret True"
  proof -
    have p': "?s \<le> p'" using k(1) skips_by_le by (auto simp: skips_def)
    have "\<not> ends_skip tb n q" if q: "skips_by tb p q" "p < q" "q < p'" for q
    proof (cases "q = ?s")
      case True
      have "kind_at_token tb ?s \<noteq> Symbol CloseCurlyBrace" using k(1) q(3) True by (auto simp: skips_def)
      with True k(2,3) show ?thesis by (simp add: ends_skip_def)
    next
      case False
      then show ?thesis using k(1) q adv s [OF q(1,2)] unfolding skips_def by auto
    qed
    then show ?thesis using k(1) a l adv assms(3) p' unfolding skips_def by auto
  qed
qed

lemma advance_not_semi:
  assumes "parse_ready tb" "p < last_index tb" "kind_at_token tb p \<noteq> Symbol Semi"
  shows "kind_at_token tb (scan_past tb p - 1) \<noteq> Symbol Semi"
proof (cases "is_opening_symbol (kind_at_token tb p)")
  case True
  obtain c where "group_of tb p c" "scan_past tb p = c + 1" by (rule advance_group [OF assms(1) less_imp_le [OF assms(2)] True])
  with parse_ready_group(5) [OF assms(1), of p c] show ?thesis by auto
next
  case False
  with assms(3) show ?thesis by simp
qed

lemma skip_loop_ok:
  assumes "parsing cx" "cx_position cx < cx_end cx"
  shows "\<exists>p'. skip_loop n cx = Some (Ret (p' - 1, cx\<lparr>cx_position := p'\<rparr>)) \<and> skips (cx_tokens cx) n (cx_position cx) p'"
  using assms
proof (induction "cx_end cx - cx_position cx" arbitrary: cx rule: less_induct)
  case less
  let ?tb = "cx_tokens cx" and ?p = "cx_position cx"
  note d = parsingD [OF less.prems(1)] and s = skip_step_ok [OF less.prems(1)]
  have lt: "?p < last_index ?tb" using less.prems(2) d(2) by simp
  show ?case
  proof (cases "kind_here cx = Symbol CloseCurlyBrace")
    case True
    then have "0 < ?p" using parse_ready_end(5) [OF d(1)] by (cases "cx_position cx") auto
    from skips_refl [OF d(3) True this] show ?thesis
      using s True by (intro exI [of _ ?p]) (simp add: skip_loop.simps [of n cx])
  next
    case no: False
    note a = advance_range [OF d(1) lt] and sk = skips_advance [OF d(1) lt no]
    let ?cx = "cx\<lparr>cx_position := scan_past ?tb ?p\<rparr>"
    have dn: "skip_done ?cx = Ret (scan_past ?tb ?p - 1, ?cx)" using a by (simp add: skip_done_def token_before_def)
    show ?thesis
    proof (cases "kind_here cx = Symbol Semi")
      case True
      then have "scan_past ?tb ?p = ?p + 1" by simp
      then show ?thesis using s no True sk(1) by (intro exI [of _ "?p + 1"]) (simp add: skip_loop.simps [of n cx] ends_skip_def)
    next
      case False
      have eq: "skip_step cx = Ret (Inr ?cx)" using s no False by simp
      show ?thesis
      proof (cases "scan_past ?tb ?p = cx_end cx")
        case True
        then show ?thesis using eq dn sk(1) d(2) by (intro exI [of _ "scan_past ?tb ?p"]) (simp add: skip_loop.simps [of n cx])
      next
        case on: False
        obtain b where b: "keep_scanning ?tb n (scan_past ?tb ?p) = Ret b" by (rule keep_scanning_ok [OF d(1) conjunct2 [OF a]])
        show ?thesis
        proof (cases b)
          case False
          then show ?thesis using eq dn sk(1) b on by (intro exI [of _ "scan_past ?tb ?p"]) (simp add: skip_loop.simps [of n cx] ends_skip_def)
        next
          case True
          have "parsing ?cx" "cx_position ?cx < cx_end ?cx" using less.prems(1) a on d(2) by (simp_all add: parsing_def)
          with less.hyps [of ?cx] a lt d(2) obtain p' where
            p': "skip_loop n ?cx = Some (Ret (p' - 1, cx\<lparr>cx_position := p'\<rparr>))" "skips ?tb n (scan_past ?tb ?p) p'" by force
          then show ?thesis using eq on b True sk(2) [OF _ advance_not_semi [OF d(1) lt False]] by (intro exI [of _ p']) (simp add: skip_loop.simps [of n cx])
        qed
      qed
    qed
  qed
qed

end
