(* ===== verification/Parse_Recovery.thy ===== *)
theory Parse_Recovery
  imports Parse_Skip Lexer_Props
begin

text \<open>
  What the parser's context promises its states in a buffer with matched brackets: searches and skips end where they should, a
  list within a group is read up to the group's closing token, whatever is in it, and a group is always closed by its own token.
\<close>

section \<open>Searches and skips\<close>

lemma SkipPastLikelyEnd_skips:
  assumes "parsing cx" "skip_root \<le> cx_end cx"
  obtains n p' where "indent_of (cx_tokens cx) skip_root = Ret n"
    "SkipPastLikelyEnd skip_root cx = Some (Ret (p' - 1, cx\<lparr>cx_position := p'\<rparr>))"
    "if cx_position cx = cx_end cx then p' = cx_position cx else skips (cx_tokens cx) n (cx_position cx) p'"
proof -
  note d = parsingD [OF assms(1)]
  obtain n where n: "indent_of (cx_tokens cx) skip_root = Ret n" by (rule indent_of_ok [OF d(1)]) (use assms(2) d(2) in simp)
  show thesis
  proof (cases "cx_position cx = cx_end cx")
    case True
    then have "SkipPastLikelyEnd skip_root cx = Some (Ret (cx_position cx - 1, cx))"
      using parse_ready_end(4) [OF d(1)] d(2) by (simp add: SkipPastLikelyEnd_def skip_done_def token_before_def)
    with n True show thesis by (intro that [of n "cx_position cx"]) simp_all
  next
    case False
    then have "cx_position cx < cx_end cx" using d(2,3) by linarith
    from skip_loop_ok [OF assms(1) this, of n] obtain p' where
      "skip_loop n cx = Some (Ret (p' - 1, cx\<lparr>cx_position := p'\<rparr>))" "skips (cx_tokens cx) n (cx_position cx) p'" by blast
    with n False show thesis by (intro that [of n p']) (simp_all add: SkipPastLikelyEnd_def)
  qed
qed

lemma parsing_at: "parsing cx \<Longrightarrow> p \<le> cx_end cx \<Longrightarrow> parsing (cx\<lparr>cx_position := p\<rparr>)"
  by (simp add: parsing_def)

section \<open>Lists\<close>

lemma take_list_token_ok:
  assumes "parsing cx" "level (cx_tokens cx) i j (cx_position cx)" "close_kind = kind_at_token (cx_tokens cx) j"
    "kind_here cx \<in> {Symbol Comma, close_kind}" "comma_kind \<notin> {''InvalidParseStart'', ''InvalidParseSubtree''}"
  obtains kind cx' where "take_list_token comma_kind close_kind cx = Ret (kind, cx')" "parsing cx'" "cx_tokens cx' = cx_tokens cx"
    "level (cx_tokens cx) i j (cx_position cx')" "kind = Comma_list \<longleftrightarrow> cx_position cx' \<noteq> j"
    "kind \<noteq> Close_list \<longrightarrow> cx_position cx < cx_position cx'" "cx_state_stack cx' = cx_state_stack cx"
proof -
  let ?tb = "cx_tokens cx" and ?p = "cx_position cx"
  note d = parsingD [OF assms(1)] and r = level_range [OF parsingD(1) [OF assms(1)] assms(2)]
  have cl: "is_closing_symbol close_kind" using parse_ready_group(5) [OF d(1)] assms(2,3) by (auto simp: level_def)
  have at: "kind_at_token ?tb q = close_kind \<longleftrightarrow> q = j" if "level ?tb i j q" for q
    using level_closing [OF d(1) that] cl assms(3) by auto
  show thesis
  proof (cases "kind_here cx = close_kind")
    case True
    then show thesis using at [OF assms(2)] assms(1,2) d(5) by (intro that [of Close_list cx]) (simp_all add: take_list_token_def)
  next
    case False
    then have c: "kind_here cx = Symbol Comma" using assms(4) by simp
    let ?cx = "cx\<lparr>cx_position := ?p + 1, cx_nodes := cx_nodes cx @ [\<lparr>ni_kind = comma_kind, ni_has_error = (comma_kind = ''InvalidParse''), ni_token = ?p\<rparr>]\<rparr>"
    have "?p \<noteq> j" using False assms(3) by blast
    with level_advance [OF d(1) assms(2)] c have l: "level ?tb i j (?p + 1)" by simp
    have "parsing ?cx" using assms(1) level_range [OF d(1) l] d(2) by (simp add: parsing_def)
    moreover have "PositionIs close_kind ?cx = Ret (?p + 1 = j)" using parsingD(5) [OF calculation, of close_kind] at [OF l] by simp
    moreover have "AddLeafNode comma_kind ?p (comma_kind = ''InvalidParse'') (cx\<lparr>cx_position := ?p + 1\<rparr>) = Ret ?cx"
      using assms(5) by (simp add: AddLeafNode_def AddNode_def)
    ultimately show thesis using False d(5) l
      by (intro that [of "if ?p + 1 = j then CommaClose_list else Comma_list" ?cx]) (simp_all add: take_list_token_def Consume_def)
  qed
qed

lemma recover_list_element_ok:
  assumes "parsing cx" "level (cx_tokens cx) i j (cx_position cx)" "close_kind = kind_at_token (cx_tokens cx) j"
    "already_has_error \<or> cx_state_stack cx \<noteq> []"
  shows "\<exists>cx'. recover_list_element close_kind already_has_error cx = Some (Ret cx') \<and> parsing cx' \<and> cx_tokens cx' = cx_tokens cx \<and>
    level (cx_tokens cx) i j (cx_position cx') \<and> cx_position cx \<le> cx_position cx' \<and> kind_here cx' \<in> {Symbol Comma, close_kind} \<and>
    length (cx_state_stack cx') = length (cx_state_stack cx)"
proof -
  let ?tb = "cx_tokens cx" and ?p = "cx_position cx"
  define start where "start = (if already_has_error then Ret cx
    else ReturnErrorOnState (emit_parse ?p (UnexpectedTokenAfterListElement close_kind) cx))"
  note d = parsingD [OF assms(1)]
  have "\<exists>cx1. start = Ret cx1 \<and> cx_tokens cx1 = ?tb \<and> cx_position cx1 = ?p \<and> cx_end cx1 = cx_end cx \<and>
      length (cx_state_stack cx1) = length (cx_state_stack cx)"
  proof (cases already_has_error)
    case False
    with assms(4) obtain s ss where "cx_state_stack cx = s # ss" by (cases "cx_state_stack cx") auto
    then show ?thesis using False by (simp add: start_def ReturnErrorOnState_def emit_parse_def)
  qed (simp add: start_def)
  then obtain cx1 where cx1: "start = Ret cx1" "cx_tokens cx1 = ?tb" "cx_position cx1 = ?p" "cx_end cx1 = cx_end cx"
    "length (cx_state_stack cx1) = length (cx_state_stack cx)"
    by blast
  from find_next_level [OF d(1) assms(2), of "[Symbol Comma, close_kind]"] assms(3) obtain t where
    t: "find_next [Symbol Comma, close_kind] ?tb ?p = Some (Ret (Some t))" "level ?tb i j t" "?p \<le> t" "kind_at_token ?tb t \<in> {Symbol Comma, close_kind}"
    by auto
  have e: "t < cx_end cx" using level_range [OF d(1) t(2)] d(2) by simp
  then have "SkipTo (int t) cx1 = Ret (cx1\<lparr>cx_position := t\<rparr>)" using t(3) cx1 by (simp add: SkipTo_def)
  then have "recover_list_element close_kind already_has_error cx = Some (Ret (cx1\<lparr>cx_position := t\<rparr>))"
    using cx1 t(1) by (simp add: recover_list_element_def start_def [symmetric] FindNextOf_def)
  then show ?thesis using cx1 t e assms(1) by (auto simp: parsing_def)
qed

lemma ConsumeListToken_level:
  assumes "parsing cx" "level (cx_tokens cx) i j (cx_position cx)" "close_kind = kind_at_token (cx_tokens cx) j"
    "already_has_error \<or> cx_state_stack cx \<noteq> []" "comma_kind \<notin> {''InvalidParseStart'', ''InvalidParseSubtree''}"
  shows "\<exists>kind cx'. ConsumeListToken comma_kind close_kind already_has_error cx = Some (Ret (kind, cx')) \<and> parsing cx' \<and>
    cx_tokens cx' = cx_tokens cx \<and> level (cx_tokens cx) i j (cx_position cx') \<and> (kind = Comma_list \<longleftrightarrow> cx_position cx' \<noteq> j) \<and>
    (kind \<noteq> Close_list \<longrightarrow> cx_position cx < cx_position cx') \<and> length (cx_state_stack cx') = length (cx_state_stack cx)"
proof -
  note d = parsingD [OF assms(1)]
  show ?thesis
  proof (cases "kind_here cx \<in> {Symbol Comma, close_kind}")
    case True
    then have "ConsumeListToken comma_kind close_kind already_has_error cx = Some (take_list_token comma_kind close_kind cx)"
      using d(4) by (auto simp: ConsumeListToken_def)
    moreover obtain kind cx' where x: "take_list_token comma_kind close_kind cx = Ret (kind, cx')" "parsing cx'" "cx_tokens cx' = cx_tokens cx"
      "level (cx_tokens cx) i j (cx_position cx')" "kind = Comma_list \<longleftrightarrow> cx_position cx' \<noteq> j"
      "kind \<noteq> Close_list \<longrightarrow> cx_position cx < cx_position cx'" "cx_state_stack cx' = cx_state_stack cx"
      by (rule take_list_token_ok [OF assms(1-3) True assms(5)])
    ultimately show ?thesis by simp
  next
    case False
    from recover_list_element_ok [OF assms(1-4)] obtain cx1 where
      r: "recover_list_element close_kind already_has_error cx = Some (Ret cx1)" "parsing cx1" "cx_tokens cx1 = cx_tokens cx"
        "level (cx_tokens cx) i j (cx_position cx1)" "cx_position cx \<le> cx_position cx1" "kind_here cx1 \<in> {Symbol Comma, close_kind}"
        "length (cx_state_stack cx1) = length (cx_state_stack cx)" by blast
    have "ConsumeListToken comma_kind close_kind already_has_error cx = Some (take_list_token comma_kind close_kind cx1)"
      using d(4) False r(1) by (auto simp: ConsumeListToken_def)
    moreover have l: "level (cx_tokens cx1) i j (cx_position cx1)" "close_kind = kind_at_token (cx_tokens cx1) j" using r(3,4) assms(3) by simp_all
    obtain kind cx' where x: "take_list_token comma_kind close_kind cx1 = Ret (kind, cx')" "parsing cx'" "cx_tokens cx' = cx_tokens cx1"
      "level (cx_tokens cx1) i j (cx_position cx')" "kind = Comma_list \<longleftrightarrow> cx_position cx' \<noteq> j"
      "kind \<noteq> Close_list \<longrightarrow> cx_position cx1 < cx_position cx'" "cx_state_stack cx' = cx_state_stack cx1"
      by (rule take_list_token_ok [OF r(2) l r(6) assms(5)])
    moreover have "kind \<noteq> Close_list \<longrightarrow> cx_position cx < cx_position cx'" using x(6) r(5) by auto
    ultimately show ?thesis using r(3,7) by simp
  qed
qed

section \<open>Closing symbols\<close>

lemma ConsumeAndAddCloseSymbol_level:
  assumes "parsing cx" "level (cx_tokens cx) (ps_token state) j (cx_position cx)"
    "close_kind \<notin> {''InvalidParse'', ''InvalidParseStart'', ''InvalidParseSubtree''}"
  shows "ConsumeAndAddCloseSymbol state close_kind cx = Ret (cx\<lparr>cx_position := j + 1,
    cx_nodes := cx_nodes cx @ [\<lparr>ni_kind = close_kind, ni_has_error = ps_has_error state \<or> cx_position cx \<noteq> j, ni_token = j\<rparr>],
    cx_diags := cx_diags cx @ (if cx_position cx = j then [] else [(cx_position cx, ExpectedCloseSymbol (kind_at_token (cx_tokens cx) j))])\<rparr>)"
proof -
  let ?tb = "cx_tokens cx" and ?p = "cx_position cx" and ?i = "ps_token state"
  note d = parsingD [OF assms(1)] and r = level_range [OF parsingD(1) [OF assms(1)] assms(2)]
  have g: "group_of ?tb ?i j" using assms(2) by (simp add: level_def)
  note k = parse_ready_group(4,5) [OF d(1) g]
  have small: "length (tb_token_infos ?tb) \<le> 2 ^ 23" using d(1) by (simp add: parse_ready_def)
  note c = closes_getters(3) [OF g small]
  have i: "?i \<le> last_index ?tb" using r by linarith
  note ki = parse_ready_end(2) [OF d(1) i]
  show ?thesis
  proof (cases "?p = j")
    case True
    then show ?thesis using ki k c d(6) assms(3) by (simp add: ConsumeAndAddCloseSymbol_def AddNode_def)
  next
    case False
    have n: "kind_here cx \<noteq> kind_at_token ?tb j"
    proof
      assume "kind_here cx = kind_at_token ?tb j"
      then have "is_closing_symbol (kind_here cx)" using k(2) by simp
      from level_closing [OF d(1) assms(2) this] False show False by blast
    qed
    have "SkipTo (int j) (emit_parse ?p x cx) = Ret ((emit_parse ?p x cx)\<lparr>cx_position := j\<rparr>)" for x
    proof -
      have "j \<noteq> cx_end cx" "?p \<le> j" using r d(2) by linarith+
      then show ?thesis by (simp add: SkipTo_def emit_parse_def)
    qed
    then show ?thesis using n False ki k c d(6)
      by (simp add: ConsumeAndAddCloseSymbol_def AddNode_def Consume_def emit_parse_def)
  qed
qed

section \<open>Declarations and operators\<close>

text \<open>A declaration's node is added whatever follows: past its semicolon, or where a failed one is taken to end.\<close>

lemma RecoverFromDeclError_ok:
  assumes "parsing cx" "ps_token state \<le> cx_end cx"
  obtains cx' where "RecoverFromDeclError state nkind skip cx = Some (Ret cx')" "parsing cx'" "cx_position cx \<le> cx_position cx'"
    "map ni_kind (cx_nodes cx') = map ni_kind (cx_nodes cx) @ [nkind]"
proof (cases skip)
  case True
  note d = parsingD [OF assms(1)]
  obtain n p' where s: "SkipPastLikelyEnd (ps_token state) cx = Some (Ret (p' - 1, cx\<lparr>cx_position := p'\<rparr>))"
    "if cx_position cx = cx_end cx then p' = cx_position cx else skips (cx_tokens cx) n (cx_position cx) p'"
    by (rule SkipPastLikelyEnd_skips [OF assms])
  have p: "cx_position cx \<le> p'" "p' \<le> cx_end cx" using s(2) d(2,3) by (auto simp: skips_def dest: skips_by_le split: if_splits)
  let ?cx = "cx\<lparr>cx_position := p', cx_nodes := cx_nodes cx @ [\<lparr>ni_kind = nkind, ni_has_error = True, ni_token = p' - 1\<rparr>]\<rparr>"
  show thesis by (rule that [of ?cx]) (use True s(1) p assms(1) in \<open>simp_all add: RecoverFromDeclError_def AddNode_def parsing_def\<close>)
next
  case False
  let ?cx = "cx\<lparr>cx_nodes := cx_nodes cx @ [\<lparr>ni_kind = nkind, ni_has_error = True, ni_token = ps_token state\<rparr>]\<rparr>"
  show thesis by (rule that [of ?cx]) (use False assms(1) in \<open>simp_all add: RecoverFromDeclError_def AddNode_def parsing_def\<close>)
qed

lemma AddNodeExpectingDeclSemi_ok:
  assumes "parsing cx" "ps_token state \<le> cx_end cx" "nkind \<notin> {''InvalidParse'', ''InvalidParseStart'', ''InvalidParseSubtree''}"
  obtains cx' where "AddNodeExpectingDeclSemi state nkind decl_kind is_def_allowed cx = Some (Ret cx')" "parsing cx'"
    "cx_position cx \<le> cx_position cx'" "map ni_kind (cx_nodes cx') = map ni_kind (cx_nodes cx) @ [nkind]"
proof -
  note d = parsingD [OF assms(1)]
  consider "ps_has_error state" | "\<not> ps_has_error state" "kind_here cx = Symbol Semi" | "\<not> ps_has_error state" "kind_here cx \<noteq> Symbol Semi" by blast
  then show thesis
  proof cases
    case 1
    then show thesis using that RecoverFromDeclError_ok [OF assms(1,2), of nkind True] by (auto simp: AddNodeExpectingDeclSemi_def)
  next
    case 2
    then have "cx_position cx \<noteq> last_index (cx_tokens cx)" using parse_ready_end(1) [OF d(1)] by auto
    then have "cx_position cx + 1 \<le> cx_end cx" using d(2,3) by linarith
    then show thesis using that 2 d(6) [of "Symbol Semi"] assms(1,3) by (auto simp: AddNodeExpectingDeclSemi_def AddNode_def parsing_def)
  next
    case 3
    define cx1 where "cx1 = emit_parse (cx_position cx) (if is_def_allowed then ExpectedDeclSemiOrDefinition decl_kind else ExpectedDeclSemi decl_kind) cx"
    have x: "parsing cx1" "cx_end cx1 = cx_end cx" "cx_position cx1 = cx_position cx" "cx_nodes cx1 = cx_nodes cx"
      using assms(1) by (simp_all add: cx1_def emit_parse_def parsing_def)
    obtain cx' where "RecoverFromDeclError state nkind True cx1 = Some (Ret cx')" "parsing cx'" "cx_position cx1 \<le> cx_position cx'"
      "map ni_kind (cx_nodes cx') = map ni_kind (cx_nodes cx1) @ [nkind]"
      by (rule RecoverFromDeclError_ok [OF x(1)]) (use assms(2) x(2) in simp)
    then show thesis using that 3 d(6) [of "Symbol Semi"] x by (auto simp: AddNodeExpectingDeclSemi_def cx1_def [symmetric])
  qed
qed

lemma token_returns:
  assumes "parse_ready tb"
  shows "p \<le> last_index tb \<Longrightarrow> \<exists>b. HasLeadingWhitespace tb p = Ret b" "p < last_index tb \<Longrightarrow> \<exists>b. HasTrailingWhitespace tb p = Ret b"
  using parse_ready_end(4) [OF assms] by (auto simp: HasLeadingWhitespace_def HasTrailingWhitespace_def store_get_def)

lemma operator_queries:
  assumes "parsing cx" "cx_position cx < cx_end cx"
  shows "\<exists>b. IsLexicallyValidInfixOperator cx = Ret b" "\<exists>b. IsTrailingOperatorInfix cx = Ret b"
    "\<exists>ds. DiagnoseOperatorFixity fixity cx = Ret (cx\<lparr>cx_diags := cx_diags cx @ ds\<rparr>) \<and> length ds \<le> 1"
proof -
  note d = parsingD [OF assms(1)]
  have lt: "cx_position cx < last_index (cx_tokens cx)" using assms(2) d(2) by simp
  then have "cx_position cx - 1 \<le> last_index (cx_tokens cx)" "cx_position cx + 1 \<le> last_index (cx_tokens cx)" by linarith+
  note k = this [THEN parse_ready_end(2) [OF d(1)]]
  obtain l where l: "HasLeadingWhitespace (cx_tokens cx) (cx_position cx) = Ret l" using token_returns(1) [OF d(1,3)] by blast
  obtain r where r: "HasTrailingWhitespace (cx_tokens cx) (cx_position cx) = Ret r" using token_returns(2) [OF d(1) lt] by blast
  have ne: "cx_position cx \<noteq> cx_end cx" using assms(2) by simp
  show v: "\<exists>b. IsLexicallyValidInfixOperator cx = Ret b"
    unfolding IsLexicallyValidInfixOperator_def l r k carbon_check_def bind_outcome.simps using ne by auto
  then obtain b where b: "IsLexicallyValidInfixOperator cx = Ret b" by blast
  show "\<exists>b. IsTrailingOperatorInfix cx = Ret b"
    unfolding IsTrailingOperatorInfix_def l b k using ne by (cases b) auto
  have "\<exists>ds. Ret cx = Ret (cx\<lparr>cx_diags := cx_diags cx @ ds\<rparr>) \<and> length ds \<le> 1" by (intro exI [of _ "[]"]) simp
  moreover have "\<exists>ds. Ret (emit_parse p x cx) = Ret (cx\<lparr>cx_diags := cx_diags cx @ ds\<rparr>) \<and> length ds \<le> 1" for p x
    by (intro exI [of _ "[(p, x)]"]) (simp add: emit_parse_def)
  ultimately show "\<exists>ds. DiagnoseOperatorFixity fixity cx = Ret (cx\<lparr>cx_diags := cx_diags cx @ ds\<rparr>) \<and> length ds \<le> 1"
    unfolding DiagnoseOperatorFixity_def Let_def d(4) l r b by (cases fixity) simp_all
qed

section \<open>Properties\<close>

text \<open>The tokens of a text with one group, as an example.\<close>

definition sample_tokens :: "TokenInfo list" where
  "sample_tokens = [TokenInfo_plain FileStart False 0, TokenInfo_payload (Symbol OpenParen) False 6 0, TokenInfo_plain Identifier False 1,
     TokenInfo_plain Identifier True 3, TokenInfo_plain (Symbol Comma) False 4, TokenInfo_plain Identifier False 5,
     TokenInfo_payload (Symbol CloseParen) False 1 6, TokenInfo_plain FileEnd False 7]"

definition sample_context :: "bool list Context" where
  "sample_context = \<lparr>cx_nodes = [],
     cx_tokens = (TokenizedBuffer_init example_stores ''(a b,c)'')\<lparr>tb_token_infos := sample_tokens, tb_line_infos := MakeLines_list ''(a b,c)''\<rparr>,
     cx_position = 3, cx_end = 7,
     cx_state_stack = [\<lparr>ps_kind = ''ParenExpr'', ps_has_error = False, ps_in_var_pattern = False, ps_in_unused_pattern = False,
       ps_in_field_shorthand_pattern = False, ps_binding_context = ExplicitParam, ps_ambient_precedence = ForTopLevelExpr,
       ps_lhs_precedence = ForTopLevelExpr, ps_token = 1, ps_subtree_start = 0\<rparr>],
     cx_deferred_definitions = [], cx_deferred_definition_stack = [], cx_packaging_decl = None, cx_imports = [],
     cx_packaging_state = FileStart_state, cx_first_non_packaging_token = None, cx_diags = []\<rparr>"

lemma sample_kinds:
  "map ti_kind sample_tokens = [FileStart, Symbol OpenParen, Identifier, Identifier, Symbol Comma, Identifier, Symbol CloseParen, FileEnd]"
  "length sample_tokens = 8"
  by (simp_all add: sample_tokens_def TokenInfo_plain_def TokenInfo_payload_def)

lemma sample_group: "closes sample_tokens i j \<longleftrightarrow> i = 1 \<and> j = 6"
proof
  assume "closes sample_tokens i j"
  note k = closes_kinds [OF this]
  have n: "ti_kind (sample_tokens ! q) = [FileStart, Symbol OpenParen, Identifier, Identifier, Symbol Comma, Identifier, Symbol CloseParen, FileEnd] ! q"
    if "q < 8" for q using that sample_kinds by (metis nth_map)
  have "i < 8" "j < 8" using k sample_kinds(2) by auto
  then show "i = 1 \<and> j = 6" using k n [of i] n [of j] by (auto simp: numeral_eq_Suc less_Suc_eq nth_Cons' split: if_splits)
next
  assume "i = 1 \<and> j = 6"
  then show "closes sample_tokens i j"
    by (simp add: closes_def sample_tokens_def TokenInfo_plain_def TokenInfo_payload_def opening_symbol_def OpeningSymbol_def carbon_check_def)
qed

lemma sample_parsing: "parsing sample_context" "level (cx_tokens sample_context) 1 6 3"
proof -
  let ?tb = "cx_tokens sample_context"
  have infos: "tb_token_infos ?tb = sample_tokens" by (simp add: sample_context_def)
  have b: "\<forall>q < 8. is_opening_symbol (ti_kind (sample_tokens ! q)) \<longrightarrow> q = 1" "\<forall>q < 8. is_closing_symbol (ti_kind (sample_tokens ! q)) \<longrightarrow> q = 6"
    by (simp_all add: sample_tokens_def TokenInfo_plain_def TokenInfo_payload_def numeral_eq_Suc less_Suc_eq nth_Cons' all_conj_distrib)
  have "groups_ok sample_tokens []" by (rule groups_okI) (use b sample_kinds(2) in \<open>auto simp: sample_group\<close>)
  moreover have "in_text ?tb"
    by (simp add: in_text_def infos) (simp add: sample_context_def TokenizedBuffer_init_def sample_tokens_def TokenInfo_plain_def TokenInfo_payload_def)
  moreover have "map line_start (tb_line_infos ?tb) = line_starts (tb_source ?tb)"
    by (simp add: sample_context_def TokenizedBuffer_init_def line_starts_def)
  ultimately have "parse_ready ?tb" by (intro parse_readyI) (simp_all add: infos sample_kinds(2))
  then show "parsing sample_context" by (simp add: parsing_def sample_kinds(2) infos) (simp add: sample_context_def)
  show "level ?tb 1 6 3" by (auto simp: level_def infos sample_group same_level_def)
qed

text \<open>
  C7. A list within a group is read up to the closing token of the group, whatever its elements are. At a position at
  the level of the group, \<open>ConsumeListToken\<close> returns: an unexpected token is diagnosed and skipped, and the check that a comma or the closing
  symbol is found never fails. The new position is still at the level of the group, further on after a comma, and the result says
  that there are more elements exactly when it is not the closing token.
\<close>

theorem list_read_to_closing:
  assumes "parsing cx" "level (cx_tokens cx) i j (cx_position cx)" "close_kind = kind_at_token (cx_tokens cx) j"
    "already_has_error \<or> cx_state_stack cx \<noteq> []" "comma_kind \<notin> {''InvalidParseStart'', ''InvalidParseSubtree''}"
  shows "\<exists>kind cx'. ConsumeListToken comma_kind close_kind already_has_error cx = Some (Ret (kind, cx')) \<and> parsing cx' \<and>
    cx_tokens cx' = cx_tokens cx \<and> level (cx_tokens cx) i j (cx_position cx') \<and> (kind = Comma_list \<longleftrightarrow> cx_position cx' \<noteq> j) \<and>
    (kind \<noteq> Close_list \<longrightarrow> cx_position cx < cx_position cx') \<and> length (cx_state_stack cx') = length (cx_state_stack cx)"
  by (rule ConsumeListToken_level [OF assms])

theorem list_read_to_closing_witness:
  "\<exists>kind cx'. ConsumeListToken ''TupleLiteralComma'' (Symbol CloseParen) False sample_context = Some (Ret (kind, cx')) \<and>
     (kind = Comma_list \<longleftrightarrow> cx_position cx' \<noteq> 6)"
proof -
  have "level (cx_tokens sample_context) 1 6 (cx_position sample_context)" using sample_parsing(2) by (simp add: sample_context_def)
  moreover have "Symbol CloseParen = kind_at_token (cx_tokens sample_context) 6" by code_simp
  ultimately show ?thesis
    using list_read_to_closing [OF sample_parsing(1), of 1 6 "Symbol CloseParen" False "''TupleLiteralComma''"] by (auto simp: sample_context_def)
qed

text \<open>
  C8. A group is always closed by its own closing token. From any position at the level of the group that a state's
  token opened, \<open>ConsumeAndAddCloseSymbol\<close> adds the node of the closing token and goes on behind it; when
  it had to skip to it, the skipped position is diagnosed and the node has an error.
\<close>

theorem close_symbol_closes_group:
  assumes "parsing cx" "level (cx_tokens cx) (ps_token state) j (cx_position cx)"
    "close_kind \<notin> {''InvalidParse'', ''InvalidParseStart'', ''InvalidParseSubtree''}"
  shows "ConsumeAndAddCloseSymbol state close_kind cx = Ret (cx\<lparr>cx_position := j + 1,
    cx_nodes := cx_nodes cx @ [\<lparr>ni_kind = close_kind, ni_has_error = ps_has_error state \<or> cx_position cx \<noteq> j, ni_token = j\<rparr>],
    cx_diags := cx_diags cx @ (if cx_position cx = j then [] else [(cx_position cx, ExpectedCloseSymbol (kind_at_token (cx_tokens cx) j))])\<rparr>)"
  by (rule ConsumeAndAddCloseSymbol_level [OF assms])

theorem close_symbol_closes_group_witness:
  "ConsumeAndAddCloseSymbol (hd (cx_state_stack sample_context)) ''TupleLiteral'' sample_context = Ret (sample_context\<lparr>cx_position := 7,
     cx_nodes := [\<lparr>ni_kind = ''TupleLiteral'', ni_has_error = True, ni_token = 6\<rparr>], cx_diags := [(3, ExpectedCloseSymbol (Symbol CloseParen))]\<rparr>)"
proof -
  have "level (cx_tokens sample_context) (ps_token (hd (cx_state_stack sample_context))) 6 (cx_position sample_context)"
    using sample_parsing(2) by (simp add: sample_context_def)
  moreover have "kind_at_token (cx_tokens sample_context) 6 = Symbol CloseParen" by code_simp
  ultimately show ?thesis
    using close_symbol_closes_group [OF sample_parsing(1), of "hd (cx_state_stack sample_context)" 6 "''TupleLiteral''"] by (simp add: sample_context_def)
qed

text \<open>
  C30. \<open>FindNextOf\<close> returns from every position and fails no check. It looks at the positions at the level of the current one, those
  with balanced groups between, and at nothing in a group: it stops at the first that has a desired kind, closes the group around or ends the
  file, and gives the position in the first case only.
\<close>

theorem find_next_first:
  assumes "parsing cx"
  shows "\<exists>t. FindNextOf desired_kinds cx = Some (Ret (if kind_at_token (cx_tokens cx) t \<in> set desired_kinds then Some t else None)) \<and>
    t \<le> cx_end cx \<and>
    first_at_level (cx_tokens cx) (\<lambda>k. k \<in> set desired_kinds \<or> is_closing_symbol k \<or> k = FileEnd) (cx_position cx) t"
  using find_next_ok [OF parsingD(1) [OF assms] parsingD(3) [OF assms], of desired_kinds] parsingD(2) [OF assms]
  by (simp add: FindNextOf_def ends_search_def [abs_def])

theorem find_next_first_witness:
  "\<exists>t. FindNextOf [Symbol Semi] sample_context = Some (Ret (if kind_at_token (cx_tokens sample_context) t \<in> {Symbol Semi} then Some t else None)) \<and> t \<le> 7"
  using find_next_first [OF sample_parsing(1), of "[Symbol Semi]"] by (auto simp: sample_context_def)

text \<open>
  Token \<open>t\<close> begins its line, and the line is indented no more than that of \<open>base\<close>: its first byte is not behind the
  indentation of the line it is on.
\<close>

definition begins_outer_line :: "'a TokenizedBuffer \<Rightarrow> nat \<Rightarrow> nat \<Rightarrow> bool" where
  "begins_outer_line tb base t \<longleftrightarrow>
     (\<exists>l r. FindLineIndex tb (ti_byte_offset (tb_token_infos tb ! t)) = Ret l \<and>
        FindLineIndex tb (ti_byte_offset (tb_token_infos tb ! base)) = Ret r \<and>
        ti_byte_offset (tb_token_infos tb ! t) \<le> line_start (tb_line_infos tb ! l) + line_indent (tb_line_infos tb ! l) \<and>
        line_indent (tb_line_infos tb ! l) \<le> line_indent (tb_line_infos tb ! r))"

lemma keep_scanning_iff:
  assumes "parse_ready tb" "t \<le> last_index tb" "base \<le> last_index tb" "indent_of tb base = Ret n"
  shows "keep_scanning tb n t = Ret (\<not> begins_outer_line tb base t)"
proof -
  have line: "i < length (tb_token_infos tb)"
    "\<exists>l < length (tb_line_infos tb). FindLineIndex tb (ti_byte_offset (tb_token_infos tb ! i)) = Ret l" if "i \<le> last_index tb" for i
  proof -
    show i: "i < length (tb_token_infos tb)" using that parse_ready_end(4) [OF assms(1)] by linarith
    show "\<exists>l < length (tb_line_infos tb). FindLineIndex tb (ti_byte_offset (tb_token_infos tb ! i)) = Ret l"
      using assms(1) i unfolding parse_ready_def by (meson nth_mem)
  qed
  obtain l where l: "l < length (tb_line_infos tb)" "FindLineIndex tb (ti_byte_offset (tb_token_infos tb ! t)) = Ret l"
    using line(2) [OF assms(2)] by blast
  obtain r where r: "r < length (tb_line_infos tb)" "FindLineIndex tb (ti_byte_offset (tb_token_infos tb ! base)) = Ret r"
    using line(2) [OF assms(3)] by blast
  have "n = line_indent (tb_line_infos tb ! r) + 1"
    using assms(4) r line(1) [OF assms(3)] by (simp add: indent_of_def GetLine_def GetIndentColumnNumber_def store_get_def)
  then show ?thesis
    using l r line(1) [OF assms(2)]
    by (auto simp: keep_scanning_def indent_of_def GetLine_def GetIndentColumnNumber_def GetColumnNumber_def store_get_def begins_outer_line_def)
qed

text \<open>
  C29. \<open>SkipPastLikelyEnd\<close> returns from every position and fails no check, and gives the token before the position it skips to. It
  moves on, except at a closing brace and at the end of the file. It comes by the positions in none of the groups it passes, and ends at the
  end of the file or at the first of them that is a closing brace, follows a semicolon or has a token that begins a line indented no
  more than the line of the root. It does not leave the braces it is in.
\<close>

theorem skip_past_likely_end:
  fixes cx :: "'a Context"
  assumes "parsing cx" "skip_root \<le> cx_end cx"
  defines "kind \<equiv> kind_at_token (cx_tokens cx)"
    and "ends \<equiv> \<lambda>q. kind_at_token (cx_tokens cx) q = Symbol CloseCurlyBrace \<or> kind_at_token (cx_tokens cx) (q - 1) = Symbol Semi \<or>
      begins_outer_line (cx_tokens cx) skip_root q"
  shows "\<exists>p. SkipPastLikelyEnd skip_root cx = Some (Ret (p - 1, cx\<lparr>cx_position := p\<rparr>)) \<and>
    0 < p \<and> p \<le> cx_end cx \<and> skips_by (cx_tokens cx) (cx_position cx) p \<and>
    (p = cx_position cx \<longleftrightarrow> cx_position cx = cx_end cx \<or> kind (cx_position cx) = Symbol CloseCurlyBrace) \<and>
    (p = cx_end cx \<or> ends p) \<and>
    (\<forall>q. skips_by (cx_tokens cx) (cx_position cx) q \<and> cx_position cx < q \<and> q < p \<longrightarrow> \<not> ends q) \<and>
    (\<forall>i j. level (cx_tokens cx) i j (cx_position cx) \<and> kind j = Symbol CloseCurlyBrace \<longrightarrow> level (cx_tokens cx) i j p)"
proof -
  note d = parsingD [OF assms(1)]
  obtain n p where s: "indent_of (cx_tokens cx) skip_root = Ret n"
    "SkipPastLikelyEnd skip_root cx = Some (Ret (p - 1, cx\<lparr>cx_position := p\<rparr>))"
    "if cx_position cx = cx_end cx then p = cx_position cx else skips (cx_tokens cx) n (cx_position cx) p"
    by (rule SkipPastLikelyEnd_skips [OF assms(1,2)])
  have e: "ends_skip (cx_tokens cx) n q \<longleftrightarrow> ends q" if "q \<le> last_index (cx_tokens cx)" for q
    using keep_scanning_iff [OF d(1) that _ s(1)] assms(2) d(2) by (simp add: ends_skip_def ends_def)
  show ?thesis
  proof (cases "cx_position cx = cx_end cx")
    case True
    then show ?thesis using s parse_ready_end(4) [OF d(1)] d(2) by (intro exI [of _ p]) auto
  next
    case False
    then have sk: "skips (cx_tokens cx) n (cx_position cx) p" using s(3) by simp
    then have "p \<le> last_index (cx_tokens cx)" by (simp add: skips_def)
    with sk e s(2) d(2) False show ?thesis unfolding skips_def kind_def by (intro exI [of _ p]) auto
  qed
qed

theorem skip_past_likely_end_witness:
  "\<exists>p. SkipPastLikelyEnd 1 sample_context = Some (Ret (p - 1, sample_context\<lparr>cx_position := p\<rparr>)) \<and> 3 \<le> p \<and> p \<le> 7"
  using skip_past_likely_end [OF sample_parsing(1), of 1] by (auto simp: sample_context_def dest: skips_by_le)

end
