(* ===== verification/Parse_Deferred.thy ===== *)
theory Parse_Deferred
  imports Parse_Context Lexer_Props
begin

text \<open>
  Deferred definitions: functions defined in a class or a similar scope, whose bodies are checked later. The context
  keeps a list of them and a stack of those not finished; this theory shows that the indexes it records describe how they nest.
\<close>

section \<open>How deferred definitions change\<close>

text \<open>Between the three functions that change them, a state may do anything that keeps them and only adds nodes.\<close>

inductive defining :: "'a Context \<Rightarrow> 'a Context \<Rightarrow> bool" where
  defining_refl: "defining cx cx"
| defining_other: "defining cx cx' \<Longrightarrow> cx_deferred_definitions cx'' = cx_deferred_definitions cx' \<Longrightarrow>
    cx_deferred_definition_stack cx'' = cx_deferred_definition_stack cx' \<Longrightarrow> length (cx_nodes cx') \<le> length (cx_nodes cx'') \<Longrightarrow>
    defining cx cx''"
| defining_start: "defining cx cx' \<Longrightarrow> AddFunctionDefinitionStart token has_error cx' = Ret cx'' \<Longrightarrow> defining cx cx''"
| defining_finish: "defining cx cx' \<Longrightarrow> AddFunctionDefinition token has_error cx' = Ret cx'' \<Longrightarrow> defining cx cx''"
| defining_terse: "defining cx cx' \<Longrightarrow> AddFunctionTerseDefinition token has_error cx' = Ret cx'' \<Longrightarrow> defining cx cx''"

section \<open>How they nest\<close>

text \<open>
  Definition \<open>j\<close>, begun after \<open>k\<close>, is finished within the nodes of \<open>k\<close> when it is before the index \<open>k\<close> records, and
  begins behind them otherwise.
\<close>

definition nests :: "DeferredDefinition list \<Rightarrow> nat \<Rightarrow> nat \<Rightarrow> nat \<Rightarrow> bool" where
  "nests ds d n j \<longleftrightarrow>
     (if j < n then \<exists>d' n'. df_definition_id (ds ! j) = Some d' \<and> df_next_definition_index (ds ! j) = Some n' \<and> d' < d \<and> n' \<le> n
      else d < df_start_id (ds ! j))"

definition definition_ok :: "DeferredDefinition list \<Rightarrow> nat \<Rightarrow> nat \<Rightarrow> bool" where
  "definition_ok ds m k \<longleftrightarrow>
     (case df_definition_id (ds ! k) of
        None \<Rightarrow> df_next_definition_index (ds ! k) = None
      | Some d \<Rightarrow> df_start_id (ds ! k) < d \<and> d < m \<and>
          (\<exists>n. df_next_definition_index (ds ! k) = Some n \<and> k < n \<and> n \<le> length ds \<and>
             (\<forall>j < length ds. k < j \<longrightarrow> df_start_id (ds ! k) < df_start_id (ds ! j) \<and> nests ds d n j)))"

definition deferred_ok :: "DeferredDefinition list \<Rightarrow> nat list \<Rightarrow> nat \<Rightarrow> bool" where
  "deferred_ok ds stack m \<longleftrightarrow> sorted_wrt (>) stack \<and>
     (\<forall>k. k \<in> set stack \<longleftrightarrow> k < length ds \<and> df_definition_id (ds ! k) = None) \<and>
     sorted_wrt (<) (map df_start_id ds) \<and> (\<forall>d \<in> set ds. df_start_id d < m) \<and>
     (\<forall>k < length ds. definition_ok ds m k)"

lemma deferred_okD:
  assumes "deferred_ok ds stack m"
  shows "sorted_wrt (>) stack" "k \<in> set stack \<longleftrightarrow> k < length ds \<and> df_definition_id (ds ! k) = None"
    "i < j \<Longrightarrow> j < length ds \<Longrightarrow> df_start_id (ds ! i) < df_start_id (ds ! j)" "k < length ds \<Longrightarrow> df_start_id (ds ! k) < m"
    "k < length ds \<Longrightarrow> definition_ok ds m k"
  using assms by (auto simp: deferred_ok_def sorted_wrt_iff_nth_less)

lemma definition_ok_later:
  assumes "definition_ok ds m k" "m \<le> m'"
  shows "definition_ok ds m' k"
  using assms by (auto simp: definition_ok_def split: option.splits)

lemma deferred_ok_later: "deferred_ok ds stack m \<Longrightarrow> m \<le> m' \<Longrightarrow> deferred_ok ds stack m'"
  using definition_ok_later by (fastforce simp: deferred_ok_def)

lemma deferred_ok_start:
  assumes "deferred_ok ds stack m"
  shows "deferred_ok (ds @ [\<lparr>df_start_id = m, df_definition_id = None, df_next_definition_index = None\<rparr>]) (length ds # stack) (m + 1)"
proof -
  let ?ds = "ds @ [\<lparr>df_start_id = m, df_definition_id = None, df_next_definition_index = None\<rparr>]"
  note d = deferred_okD [OF assms]
  have "definition_ok ?ds (m + 1) k" if k: "k < length ?ds" for k
  proof (cases "k = length ds")
    case False
    then have k': "k < length ds" using k by simp
    have same: "?ds ! j = ds ! j" if "j < length ds" for j using that by (simp add: nth_append)
    have old: "nests ?ds e n j" if "nests ds e n j" "j < length ds" for e n j
      using that(1) unfolding nests_def same [OF that(2)] .
    have new: "nests ?ds e n (length ds)" if "n \<le> length ds" "e < m" for e n using that by (simp add: nests_def)
    show ?thesis
    proof (cases "df_definition_id (ds ! k)")
      case None
      then show ?thesis using d(5) [OF k'] same [OF k'] by (simp add: definition_ok_def)
    next
      case (Some e)
      then obtain n where n: "df_next_definition_index (ds ! k) = Some n" "k < n" "n \<le> length ds" "df_start_id (ds ! k) < e" "e < m"
        "\<forall>j < length ds. k < j \<longrightarrow> df_start_id (ds ! k) < df_start_id (ds ! j) \<and> nests ds e n j"
        using d(5) [OF k'] by (auto simp: definition_ok_def)
      have "df_start_id (ds ! k) < df_start_id (?ds ! j) \<and> nests ?ds e n j" if "j < length ?ds" "k < j" for j
        using that n old [of e n j] new [of n e] same [of j] d(4) [OF k'] by (cases "j = length ds") auto
      then show ?thesis using Some n same [OF k'] by (simp add: definition_ok_def)
    qed
  qed (simp add: definition_ok_def)
  moreover have "\<forall>i \<in> set stack. i < length ds" using d(2) by blast
  ultimately show ?thesis using assms d(2)
    by (auto simp: deferred_ok_def sorted_wrt_append nth_append less_Suc_eq)
qed

lemma deferred_ok_finish:
  assumes "deferred_ok ds (i # stack) m"
  shows "i < length ds"
    "deferred_ok (ds[i := (ds ! i)\<lparr>df_definition_id := Some m, df_next_definition_index := Some (length ds)\<rparr>]) stack (m + 1)"
proof -
  let ?ds = "ds[i := (ds ! i)\<lparr>df_definition_id := Some m, df_next_definition_index := Some (length ds)\<rparr>]"
  note d = deferred_okD [OF assms]
  show i: "i < length ds" using d(2) [of i] by simp
  have top: "df_definition_id (ds ! j) \<noteq> None" if "i < j" "j < length ds" for j using d(1) d(2) [of j] that by auto
  have start: "df_start_id (?ds ! j) = df_start_id (ds ! j)" for j by (cases "j = i") (use i in simp_all)
  have "definition_ok ?ds (m + 1) k" if k: "k < length ds" for k
  proof (cases "k = i")
    case True
    have "nests ?ds m (length ds) j" if j: "j < length ds" "i < j" for j
    proof -
      obtain d' where d': "df_definition_id (ds ! j) = Some d'" using top j by blast
      with d(5) [OF j(1)] show ?thesis using j by (auto simp: definition_ok_def nests_def)
    qed
    then show ?thesis using True i d(3,4) by (auto simp: definition_ok_def)
  next
    case False
    have open_i: "df_definition_id (ds ! i) = None" using d(2) [of i] by simp
    have "nests ?ds e n j" if n: "nests ds e n j" for e n j
    proof (cases "j = i")
      case True
      then show ?thesis using n i open_i by (auto simp: nests_def split: if_splits)
    qed (use n in \<open>auto simp: nests_def split: if_splits\<close>)
    then show ?thesis using definition_ok_later [OF d(5) [OF k], of "m + 1"] False unfolding definition_ok_def start
      by (fastforce split: option.splits)
  qed
  moreover have "map df_start_id ?ds = map df_start_id ds" by (rule nth_equalityI) (simp_all add: start)
  moreover have "\<forall>k \<in> set stack. k \<noteq> i" using d(1) by auto
  moreover have "k \<in> set stack \<longleftrightarrow> k < length ?ds \<and> df_definition_id (?ds ! k) = None" for k
    using d(2) [of k] calculation(3) i by (cases "k = i") auto
  moreover have "df_start_id x < m + 1" if x: "x \<in> set ?ds" for x
  proof -
    obtain k where "k < length ds" "x = ?ds ! k" using x by (auto simp: in_set_conv_nth)
    then show ?thesis using d(4) [of k] start [of k] by simp
  qed
  ultimately show "deferred_ok ?ds stack (m + 1)" using assms by (simp add: deferred_ok_def)
qed

lemma add_definition_ok:
  assumes "deferred_ok (cx_deferred_definitions cx) (cx_deferred_definition_stack cx) (length (cx_nodes cx))"
    "add_definition kind token has_error cx = Ret cx'"
  shows "deferred_ok (cx_deferred_definitions cx') (cx_deferred_definition_stack cx') (length (cx_nodes cx'))"
proof -
  obtain cx1 where a: "AddNode kind token has_error cx = Ret cx1"
    using assms(2) by (auto simp: add_definition_def bind_outcome_Ret_iff)
  then have cx1: "cx_deferred_definitions cx1 = cx_deferred_definitions cx" "cx_deferred_definition_stack cx1 = cx_deferred_definition_stack cx"
      "length (cx_nodes cx1) = length (cx_nodes cx) + 1"
    by (auto simp: AddNode_def carbon_check_def split: if_splits)
  show ?thesis
  proof (cases "ParsingInDeferredDefinitionScope cx1")
    case False
    then have "cx' = cx1" using assms(2) a by (simp add: add_definition_def Let_def)
    then show ?thesis using deferred_ok_later [OF assms(1)] cx1 by simp
  next
    case True
    then obtain i stack where s: "cx_deferred_definition_stack cx = i # stack"
      using assms(2) a cx1(2) by (cases "cx_deferred_definition_stack cx") (simp_all add: add_definition_def Let_def)
    note f = deferred_ok_finish [OF assms(1) [unfolded s]]
    have "cx' = cx1\<lparr>cx_deferred_definition_stack := stack, cx_deferred_definitions := (cx_deferred_definitions cx)[i :=
        (cx_deferred_definitions cx ! i)\<lparr>df_definition_id := Some (length (cx_nodes cx)),
          df_next_definition_index := Some (length (cx_deferred_definitions cx))\<rparr>]\<rparr>"
      using assms(2) a True s cx1 f(1) by (simp add: add_definition_def Let_def store_get_def)
    then show ?thesis using f(2) cx1(3) by simp
  qed
qed

lemma AddFunctionDefinitionStart_ok:
  assumes "deferred_ok (cx_deferred_definitions cx) (cx_deferred_definition_stack cx) (length (cx_nodes cx))"
    "AddFunctionDefinitionStart token has_error cx = Ret cx'"
  shows "deferred_ok (cx_deferred_definitions cx') (cx_deferred_definition_stack cx') (length (cx_nodes cx'))"
proof -
  obtain cx1 where a: "AddNode ''FunctionDefinitionStart'' token has_error cx = Ret cx1"
    using assms(2) by (auto simp: AddFunctionDefinitionStart_def bind_outcome_Ret_iff)
  then have cx1: "cx_deferred_definitions cx1 = cx_deferred_definitions cx" "cx_deferred_definition_stack cx1 = cx_deferred_definition_stack cx"
      "length (cx_nodes cx1) = length (cx_nodes cx) + 1"
    by (auto simp: AddNode_def carbon_check_def split: if_splits)
  show ?thesis
  proof (cases "ParsingInDeferredDefinitionScope cx1")
    case False
    then have "cx' = cx1" using assms(2) a by (simp add: AddFunctionDefinitionStart_def Let_def)
    then show ?thesis using deferred_ok_later [OF assms(1)] cx1 by simp
  next
    case True
    then show ?thesis using assms(2) a cx1 deferred_ok_start [OF assms(1)] by (auto simp: AddFunctionDefinitionStart_def Let_def)
  qed
qed

lemma defining_deferred_ok:
  assumes "defining cx cx'" "deferred_ok (cx_deferred_definitions cx) (cx_deferred_definition_stack cx) (length (cx_nodes cx))"
  shows "deferred_ok (cx_deferred_definitions cx') (cx_deferred_definition_stack cx') (length (cx_nodes cx'))"
  using assms
proof (induction rule: defining.induct)
  case (defining_other cx cx' cx'')
  then show ?case using deferred_ok_later by metis
qed (auto simp: AddFunctionDefinition_def AddFunctionTerseDefinition_def dest: add_definition_ok AddFunctionDefinitionStart_ok)

section \<open>Properties\<close>

text \<open>
  C31. The recorded indexes of deferred definitions describe how the functions nest, however the states call the functions that begin and
  finish them, from a context without any. The unfinished ones are those on the stack, the innermost on top. A finished
  definition has a node after that of its start, and the index it records is the first not nested within it: the definitions begun
  after it and before that index are finished, with their nodes between its own, and record no greater index; any other begins behind its last node.
\<close>

theorem deferred_definitions_nest:
  assumes "defining cx cx'" "cx_deferred_definitions cx = []" "cx_deferred_definition_stack cx = []"
  shows "sorted_wrt (>) (cx_deferred_definition_stack cx') \<and>
    (\<forall>k. k \<in> set (cx_deferred_definition_stack cx') \<longleftrightarrow>
       k < length (cx_deferred_definitions cx') \<and> df_definition_id (cx_deferred_definitions cx' ! k) = None) \<and>
    (\<forall>k < length (cx_deferred_definitions cx'). \<forall>d. df_definition_id (cx_deferred_definitions cx' ! k) = Some d \<longrightarrow>
       df_start_id (cx_deferred_definitions cx' ! k) < d \<and> d < length (cx_nodes cx') \<and>
       (\<exists>n. df_next_definition_index (cx_deferred_definitions cx' ! k) = Some n \<and> k < n \<and> n \<le> length (cx_deferred_definitions cx') \<and>
          (\<forall>j < length (cx_deferred_definitions cx'). k < j \<longrightarrow>
             df_start_id (cx_deferred_definitions cx' ! k) < df_start_id (cx_deferred_definitions cx' ! j) \<and>
             nests (cx_deferred_definitions cx') d n j)))"
proof -
  have "deferred_ok (cx_deferred_definitions cx) (cx_deferred_definition_stack cx) (length (cx_nodes cx))"
    using assms(2,3) by (simp add: deferred_ok_def)
  note d = deferred_okD [OF defining_deferred_ok [OF assms(1) this]]
  show ?thesis
  proof (intro conjI allI impI)
    fix k e assume k: "k < length (cx_deferred_definitions cx')" "df_definition_id (cx_deferred_definitions cx' ! k) = Some e"
    have o: "definition_ok (cx_deferred_definitions cx') (length (cx_nodes cx')) k" by (rule d(5) [OF k(1)])
    then show "df_start_id (cx_deferred_definitions cx' ! k) < e" "e < length (cx_nodes cx')"
      "\<exists>n. df_next_definition_index (cx_deferred_definitions cx' ! k) = Some n \<and> k < n \<and> n \<le> length (cx_deferred_definitions cx') \<and>
          (\<forall>j < length (cx_deferred_definitions cx'). k < j \<longrightarrow>
             df_start_id (cx_deferred_definitions cx' ! k) < df_start_id (cx_deferred_definitions cx' ! j) \<and>
             nests (cx_deferred_definitions cx') e n j)"
      using k(2) by (simp_all add: definition_ok_def)
  qed (use d(1,2) in blast)+
qed

text \<open>A function in a class, as an example.\<close>

definition class_context :: "bool list Context" where
  "class_context = \<lparr>cx_nodes = [], cx_tokens = TokenizedBuffer_init example_stores [], cx_position = 0, cx_end = 0,
     cx_state_stack = map (\<lambda>kind. \<lparr>ps_kind = kind, ps_has_error = False, ps_in_var_pattern = False, ps_in_unused_pattern = False,
       ps_in_field_shorthand_pattern = False, ps_binding_context = ExplicitParam, ps_ambient_precedence = ForTopLevelExpr,
       ps_lhs_precedence = ForTopLevelExpr, ps_token = 1, ps_subtree_start = 0\<rparr>) [''DeclScopeLoopAsClass'', ''DeclDefinitionFinishAsClass''],
     cx_deferred_definitions = [], cx_deferred_definition_stack = [], cx_packaging_decl = None, cx_imports = [],
     cx_packaging_state = FileStart_state, cx_first_non_packaging_token = None, cx_diags = []\<rparr>"

definition one_function :: "bool list Context" where
  "one_function = class_context\<lparr>cx_nodes := [\<lparr>ni_kind = ''FunctionDefinitionStart'', ni_has_error = False, ni_token = 3\<rparr>],
     cx_deferred_definitions := [\<lparr>df_start_id = 0, df_definition_id = None, df_next_definition_index = None\<rparr>],
     cx_deferred_definition_stack := [0]\<rparr>"

theorem deferred_definitions_nest_witness:
  "\<exists>cx. AddFunctionDefinition 5 False one_function = Ret cx \<and> df_definition_id (cx_deferred_definitions cx ! 0) = Some 1 \<and>
     (\<exists>n. df_next_definition_index (cx_deferred_definitions cx ! 0) = Some n \<and> 0 < n)"
proof -
  have s: "AddFunctionDefinitionStart 3 False class_context = Ret one_function"
    by (simp add: AddFunctionDefinitionStart_def AddNode_def class_context_def one_function_def ParsingInDeferredDefinitionScope_def Let_def)
  obtain cx where f: "AddFunctionDefinition 5 False one_function = Ret cx" "length (cx_deferred_definitions cx) = 1"
      "df_definition_id (cx_deferred_definitions cx ! 0) = Some 1"
    by (simp add: AddFunctionDefinition_def add_definition_def AddNode_def class_context_def one_function_def
        ParsingInDeferredDefinitionScope_def Let_def store_get_def)
  have "defining class_context cx" by (rule defining_finish [OF defining_start [OF defining_refl s] f(1)])
  from deferred_definitions_nest [OF this] f show ?thesis by (auto simp: class_context_def)
qed

end
