(* ===== verification/Spec2Isabelle.thy ===== *)
theory Spec2Isabelle
  imports Numeric_Value Int_Store Precedence Lexer_Props Bracket_Props Parse_Walks Parse_Recovery Parse_Deferred
begin

text \<open>
  A verification development for the lexical half of the Carbon toolchain: the stores every phase
  keeps its values in (\<^verbatim>\<open>src/toolchain/base\<close>), the lexer
  (\<^verbatim>\<open>src/toolchain/lex\<close>), and of the parser the operator precedence table
  (\<^verbatim>\<open>src/toolchain/parse/precedence.cpp\<close>) the parse tree (\<^verbatim>\<open>tree.cpp\<close>, \<^verbatim>\<open>tree_and_subtrees.cpp\<close>)
  and the context its states share (\<^verbatim>\<open>context.cpp\<close>).

  \<^bold>\<open>The program.\<close> \<^verbatim>\<open>Lexer::Lex\<close> (\<^verbatim>\<open>lex.cpp\<close>) reads a source text once. It first makes a
  table of lines, then dispatches on the next byte through a table of 256 functions to the function
  for blanks, comments, symbols, brackets, words, numbers, strings and characters, until the zero byte
  past the end; it appends a packed token to the tokenized buffer for each, puts identifiers,
  integers, reals and strings into the shared value stores, and reports diagnostics. If brackets were
  left open or did not match, it gives the tokens to a search for the cheapest corrections
  (\<^verbatim>\<open>mismatched_brackets.cpp\<close>), inserts the missing brackets or turns the superfluous ones into error tokens, and
  connects the brackets again. The parser reads the buffer back through its accessors and
  decides between operators by comparing their precedence groups; it stores the tree as its nodes in postorder.

  \<^bold>\<open>Theories.\<close>
  \<^item> \<^verbatim>\<open>Prelude\<close>: the type of outcomes (a result, or the message of a failed \<^verbatim>\<open>CARBON_CHECK\<close>) with its
    bind, lists, words, and the collections of simplification rules.
  \<^item> \<^verbatim>\<open>Id_Tag\<close>, \<^verbatim>\<open>Value_Store\<close>, \<^verbatim>\<open>Canonical_Store\<close>, \<^verbatim>\<open>APInt_Interface\<close>, \<^verbatim>\<open>Int_Store\<close>:
    \<^verbatim>\<open>id_tag.h\<close>, \<^verbatim>\<open>value_store.h\<close>, \<^verbatim>\<open>canonical_value_store.h\<close>, \<^verbatim>\<open>int.h\<close>, \<^verbatim>\<open>int.cpp\<close>. Ids are 32-bit
    words with the tag in the high bits reversed; a store is a list of chunks; an integer is embedded
    in its id or stored at its canonical width. \<^verbatim>\<open>APInt_Interface\<close> states as a locale what the stores
    rely on of \<^verbatim>\<open>llvm::APInt\<close>.
  \<^item> \<^verbatim>\<open>Character_Set\<close>, \<^verbatim>\<open>Numeric_Literal\<close>, \<^verbatim>\<open>Numeric_Scan\<close>, \<^verbatim>\<open>Numeric_Value\<close>: \<^verbatim>\<open>character_set.h\<close>,
    \<^verbatim>\<open>numeric_literal.cpp\<close>, \<^verbatim>\<open>helpers.cpp\<close>: scanning, checking and evaluating numbers. \<^verbatim>\<open>Numeric_Scan\<close> states the shapes
    of a literal without the loop that finds them, and \<^verbatim>\<open>Numeric_Value\<close> real literals as they are written.
  \<^item> \<^verbatim>\<open>String_Literal\<close>, \<^verbatim>\<open>String_Scan\<close>, \<^verbatim>\<open>String_Value\<close>: \<^verbatim>\<open>string_literal.cpp\<close>: introducers, delimiting, indentation,
    escapes, the two fast paths, character literals. \<^verbatim>\<open>String_Scan\<close> states which quotes open a literal and where its content ends.
  \<^item> \<^verbatim>\<open>Token_Kind\<close>, \<^verbatim>\<open>Token_Info\<close>, \<^verbatim>\<open>Tokenized_Buffer\<close>: \<^verbatim>\<open>token_kind.def\<close>, \<^verbatim>\<open>token_kind.h\<close>,
    \<^verbatim>\<open>token_info.h\<close>, \<^verbatim>\<open>tokenized_buffer.cpp\<close>: the kinds with their spellings, the 23-bit payload,
    every query and change of the buffer.
  \<^item> \<^verbatim>\<open>Identifier_Scan\<close>, \<^verbatim>\<open>Lexer\<close>: the functions of \<^verbatim>\<open>lex.cpp\<close> in its order; the state of class
    \<^verbatim>\<open>Lexer\<close> is the record \<open>Lexer\<close>, which holds the buffer, the stores and the diagnostics. A function of the
    class takes and returns the record and, as the code does, the position in the text.
  \<^item> \<^verbatim>\<open>Lexer_Lines\<close>, \<^verbatim>\<open>Lexer_Stores\<close>, \<^verbatim>\<open>Lexer_Tokens\<close>, \<^verbatim>\<open>Lexer_Inv\<close>: the line table, the stores
    during lexing, and the invariant of the dispatch loop: tokens and comments in order with their
    texts, brackets matched or on the stack of open groups, the current line, room in the stores.
  \<^item> \<^verbatim>\<open>Lexer_Handlers\<close>, \<^verbatim>\<open>Lexer_Literals\<close>, \<^verbatim>\<open>Lexer_Strings\<close>, \<^verbatim>\<open>Lexer_Words\<close>, \<^verbatim>\<open>Lexer_Total\<close>: every
    entry of the dispatch table moves forward, fails no check and keeps the invariant; hence the
    loop ends, with the file's last token. The locale \<open>lexing\<close> collects the assumptions on the
    parameters, and \<^verbatim>\<open>Lexer_Props\<close> interprets it on concrete ones.
  \<^item> \<^verbatim>\<open>Bracket_Kinds\<close>, \<^verbatim>\<open>Bracket_Stack\<close>, \<^verbatim>\<open>Bracket_Rules\<close>, \<^verbatim>\<open>Bracket_Analysis\<close>, \<^verbatim>\<open>Bracket_Search\<close>: the functions of
    \<^verbatim>\<open>mismatched_brackets.cpp\<close> in its order: the categories of tokens, the interned stacks of open brackets, the tables of weighted
    rules with their bit-mask index, the analysis of the token stream, and the beam search for the cheapest repair. The loops of the search that
    the code does not bound are partial functions.
  \<^item> \<^verbatim>\<open>Bracket_Paths\<close>, \<^verbatim>\<open>Bracket_Repair\<close>, \<^verbatim>\<open>Bracket_Contract\<close>: what a path through the search stands for (events at places of the
    stream), and that the corrections of a complete path repair the stream. \<^verbatim>\<open>Bracket_Naive\<close>, \<^verbatim>\<open>Bracket_Nodes\<close>,
    \<^verbatim>\<open>Bracket_Layers\<close>, \<^verbatim>\<open>Bracket_Beam\<close>: the greedy fallback, the graph of nodes, the worklist and the whole search end and give
    such a path. \<^verbatim>\<open>Bracket_Clean\<close>, \<^verbatim>\<open>Bracket_Items\<close>, \<^verbatim>\<open>Bracket_Fix\<close>, \<^verbatim>\<open>Bracket_Props\<close>: collapsed ranges are balanced, the items
    and regions cover the stream, and the properties.
  \<^item> \<^verbatim>\<open>Lexer_Recovery\<close>: the rest of \<^verbatim>\<open>lex.cpp\<close>: the class \<^verbatim>\<open>ErrorRecoveryBuffer\<close>, the collection of the
    tokens, positions, \<^verbatim>\<open>DiagnoseAndFixMismatchedBrackets\<close>, \<^verbatim>\<open>Finalize\<close> and \<^verbatim>\<open>Lex\<close>. \<^verbatim>\<open>Recovery_Collect\<close>,
    \<^verbatim>\<open>Recovery_Corrections\<close>, \<^verbatim>\<open>Recovery_Merge\<close>, \<^verbatim>\<open>Recovery_Groups\<close>: the collected stream is the one the search is shown right on,
    the corrections can be requested, the merge puts every insertion before its token in the order of \<^verbatim>\<open>operator<\<close>, and the
    cross-references of balanced tokens can be made. \<^verbatim>\<open>Recovery_Apply\<close>, \<^verbatim>\<open>Recovery_Result\<close>, \<^verbatim>\<open>Recovery_Total\<close>: the merged
    tokens are balanced, what the result and the report refer to, and lexing as a whole.
  \<^item> \<^verbatim>\<open>Precedence\<close>: the groups, the declared pairs, the closure the code computes at compile time,
    and the lookups of the parser.
  \<^item> \<^verbatim>\<open>Parse_Tree\<close>, \<^verbatim>\<open>Parse_Subtrees\<close>, \<^verbatim>\<open>Parse_Walks\<close>: \<^verbatim>\<open>tree.cpp\<close>, \<^verbatim>\<open>tree_and_subtrees.cpp\<close>: the nodes in postorder, the
    sizes of subtrees computed from the kinds of the nodes, and the walks over them, compared with a forest of nodes.
  \<^item> \<^verbatim>\<open>Parse_Context\<close>: \<^verbatim>\<open>context.cpp\<close> and the functions of \<^verbatim>\<open>context.h\<close>: adding nodes, consuming tokens, searching and skipping,
    the rules for operators, list elements, closing symbols and declarations; its state is the record \<open>Context\<close>. The two
    loops are partial functions. \<^verbatim>\<open>Parse_Deferred\<close>: the deferred function definitions. \<^verbatim>\<open>Parse_Skip\<close>, \<^verbatim>\<open>Parse_Recovery\<close>: in a buffer with matched brackets, as the lexer returns it, they
    end; positions at the level of a group, and what the recovery of the parser promises there.

  \<^bold>\<open>What is shown.\<close> Of the lexer: it returns on every text, with every token's text at the
  token's offset and only blanks and comments between; in the buffer returned, repaired or not, all brackets match and nest; recovery
  keeps every other token, diagnoses each mismatch, and reports the tokens it inserted;
  the longest operator symbol is taken; the vector scans for identifiers and comment blocks equal their scalar
  forms; the line found for an offset is the one it is in. Of literals: a number is the longest prefix with the shape
  of one and a string ends at its first unescaped terminator; the value computed is the
  one the digits denote, every malformed literal is diagnosed, and the fast path of strings agrees with the
  slow one but for spaces at the end of a line, which is stated. Of the stores: an id gives back what was
  added, equal values get equal ids, ids of different tags differ, growth keeps the elements, and integers
  compare equal exactly when their ids do. Of the repair of brackets: the search ends, its corrections balance
  the stream, the rule index and the table of indents equal their plain forms, and ties are exactly the disagreements. Of precedence: the closure is the transitive one and the
  lookups agree with the declared order. Of the parse tree: the sizes are found exactly for the postorders of well-formed forests, and
  the walks and the dumps are those of the forest. Of the context: every buffer the lexer returns can be parsed from; searches and skips
  return at every position, stop where they should and stay in the group they are in; a list is read to its closing token and a group is
  closed by its own; the indexes of deferred definitions describe how they nest.

  \<^bold>\<open>Parameters and bounds.\<close> \<^verbatim>\<open>llvm::APInt\<close> and LLVM's conversions between UTF-8 and code points are not
  part of the repository: they are components of the environment \<open>env\<close>, with their documented laws as the
  locale \<open>apint\<close> and the predicates \<open>utf8_encoder\<close> and \<open>utf8_decoder\<close>, each shown to hold of a concrete implementation. The
  environment also says whether the machine has the vector instructions. The number of calls of
  \<open>DispatchNext\<close> is bounded by one more than the bytes of the text; \<open>lex_total\<close> shows that this is
  enough, and that the unbounded loops of the search for corrections end. A failed check is the outcome \<open>Fatal\<close>. The theorems on the whole lexer are for texts and
  stores of together fewer than \<open>2 ^ 21 - 1\<close> bytes and entries, so that token indices and ids fit the 23
  bits of a payload.

  \<^bold>\<open>Not modelled.\<close> The costs of the search are unbounded
  integers where the code has 32 bits, and the sets of cues and kinds are sets where the code has bit masks. The check that the location of a
  diagnostic lies in the source (\<^verbatim>\<open>SourcePointerToDiagnosticLoc\<close>) is left out: a diagnostic is recorded with its offset.
  The number of bits for a decimal literal is the exact ceiling of the logarithm that the code computes in double precision. The vector code for ARM is the same
  algorithm with other instructions. Printing, memory statistics, the hash tables behind the canonical stores (a map here),
  the states of the parser, and the semantic, lowering and driver phases are left out.
\<close>

section \<open>The lexer as a whole\<close>

text \<open>
  C1. Lexing always succeeds: for every text and stores with fewer than \<open>2 ^ 21 - 1\<close> bytes and
  entries, one dispatch more than the text has bytes is enough, no check fails on the way, and the
  tokens begin with the start and end with the end of the file. Brackets matched or not, the search
  for corrections ends, they can be made and reported, and the buffer is returned; it has errors if there
  is a diagnostic.
\<close>

theorem lex_total:
  assumes "apint (env_apint env) uval" "utf8_encoder (env_to_utf8 env)" "utf8_decoder (env_from_utf8 env)"
    "stores_ok env uval n stores" "n + length src < 2 ^ 21 - 1"
  shows "\<exists>lx tb ds reported. Lex_file env stores src = Some (Ret lx) \<and> 2 \<le> length (lx_token_infos lx) \<and>
    ti_kind (hd (lx_token_infos lx)) = FileStart \<and> ti_kind (last (lx_token_infos lx)) = FileEnd \<and>
    Lex env report stores src = Some (Ret (tb, ds, reported)) \<and>
    (tb_has_errors tb \<longleftrightarrow> tb_has_errors (lx_buffer lx) \<or> ds \<noteq> [])"
proof -
  obtain lx tb ds reported where l: "Lex_file env stores src = Some (Ret lx)" "final_ok env uval src lx"
    "Lex env report stores src = Some (Ret (tb, ds, reported))" "tb_has_errors tb \<longleftrightarrow> tb_has_errors (lx_buffer lx) \<or> ds \<noteq> []"
    by (rule Lex_lexed [OF assms])
  have "2 \<le> length (lx_token_infos lx)" "ti_kind (hd (lx_token_infos lx)) = FileStart" "ti_kind (last (lx_token_infos lx)) = FileEnd"
    using l(2) by (simp_all add: final_ok_def)
  with l(1,3,4) show ?thesis by blast
qed

theorem lex_total_witness:
  "\<exists>tb ds reported. Lex example_env True example_stores ''fn F( { return 1; }'' = Some (Ret (tb, ds, reported))"
  using lex_total [OF example.arith example.encoder example.decoder example_stores_ok, of "''fn F( { return 1; }''" True]
  by auto



section \<open>Brackets\<close>

text \<open>
  C3. In the buffer that lexing returns the brackets match, whatever the text: every opening token
  has a closing token after it of the same shape and every closing token an opening one before it, the two
  refer to each other, and groups nest.
\<close>

theorem lex_brackets_match:
  assumes "apint (env_apint env) uval" "utf8_encoder (env_to_utf8 env)" "utf8_decoder (env_from_utf8 env)"
    "stores_ok env uval n stores" "n + length src < 2 ^ 21 - 1" "Lex env report stores src = Some (Ret (tb, ds, reported))"
  defines "kind \<equiv> \<lambda>i. ti_kind (tb_token_infos tb ! i)"
  shows "(\<forall>i < length (tb_token_infos tb). is_opening_symbol (kind i) \<longrightarrow>
      (\<exists>j. i < j \<and> j < length (tb_token_infos tb) \<and> GetMatchedClosingToken tb i = Ret (int j) \<and>
         GetMatchedOpeningToken tb j = Ret (int i) \<and> closing_symbol (kind i) = Ret (kind j))) \<and>
    (\<forall>j < length (tb_token_infos tb). is_closing_symbol (kind j) \<longrightarrow>
      (\<exists>i < j. GetMatchedOpeningToken tb j = Ret (int i) \<and> GetMatchedClosingToken tb i = Ret (int j))) \<and>
    (\<forall>i j i' j'. GetMatchedClosingToken tb i = Ret (int j) \<and> GetMatchedClosingToken tb i' = Ret (int j') \<and>
       i < i' \<and> i' < j \<longrightarrow> j' < j)"
proof -
  define ts where "ts = tb_token_infos tb"
  have g: "groups_ok ts []" "length ts \<le> 2 ^ 23"
  proof -
    obtain lx where l: "final_ok env uval src lx" "lexed lx report tb ds reported"
      by (rule Lex_lexed [OF assms(1-5), of report]) (use assms(6) in auto)
    then show "groups_ok ts []" "length ts \<le> 2 ^ 23" using lexed_groups [OF l(2)] lexed_small(2) [OF l(2,1)] assms(5) by (simp_all add: ts_def)
  qed
  note get = closes_getters [of tb, folded ts_def, OF _ g(2)] and ok = groups_okD [OF g(1)]
  have opens: "\<exists>j. closes ts i j" if "i < length ts" "is_opening_symbol (ti_kind (ts ! i))" for i
    using ok(2) [OF that] by simp
  have closed: "closes ts i j" if "GetMatchedClosingToken tb i = Ret (int j)" for i j
  proof -
    have "i < length ts" "is_opening_symbol (ti_kind (ts ! i))"
      using that by (auto simp: GetMatchedClosingToken_def store_get_def ts_def carbon_check_def bind_outcome_Ret_iff split: if_splits)
    from opens [OF this] obtain j' where j': "closes ts i j'" by blast
    with get(1) [OF j'] that show ?thesis by simp
  qed
  show ?thesis
    unfolding kind_def ts_def [symmetric]
  proof (intro conjI allI impI)
    fix i assume "i < length ts" "is_opening_symbol (ti_kind (ts ! i))"
    from opens [OF this] obtain j where j: "closes ts i j" by blast
    then show "\<exists>j. i < j \<and> j < length ts \<and> GetMatchedClosingToken tb i = Ret (int j) \<and>
        GetMatchedOpeningToken tb j = Ret (int i) \<and> closing_symbol (ti_kind (ts ! i)) = Ret (ti_kind (ts ! j))"
      using get [OF j] closes_kinds [OF j] by blast
  next
    fix j assume "j < length ts" "is_closing_symbol (ti_kind (ts ! j))"
    from ok(1) [OF this] obtain i where i: "closes ts i j" by blast
    then show "\<exists>i < j. GetMatchedOpeningToken tb j = Ret (int i) \<and> GetMatchedClosingToken tb i = Ret (int j)"
      using get(1,2) [OF i] closes_kinds [OF i] by blast
  next
    fix i j i' j'
    assume a: "GetMatchedClosingToken tb i = Ret (int j) \<and> GetMatchedClosingToken tb i' = Ret (int j') \<and> i < i' \<and> i' < j"
    then show "j' < j" using ok(3) [OF closed closed, of i j i' j'] by blast
  qed
qed

theorem lex_brackets_match_witness:
  "\<exists>tb ds reported. Lex example_env True example_stores ''({)}'' = Some (Ret (tb, ds, reported)) \<and>
     (\<forall>i < length (tb_token_infos tb). is_opening_symbol (ti_kind (tb_token_infos tb ! i)) \<longrightarrow>
       (\<exists>j. GetMatchedClosingToken tb i = Ret (int j) \<and> GetMatchedOpeningToken tb j = Ret (int i)))"
proof -
  have len: "0 + length ''({)}'' < 2 ^ 21 - 1" by simp
  obtain tb ds reported where l: "Lex example_env True example_stores ''({)}'' = Some (Ret (tb, ds, reported))"
    by (rule Lex_lexed [OF example.arith example.encoder example.decoder example_stores_ok len])
  note m = lex_brackets_match [OF example.arith example.encoder example.decoder example_stores_ok len l, THEN conjunct1]
  from l m show ?thesis by (intro exI [of _ tb] exI [of _ ds] exI [of _ reported]) blast
qed

section \<open>Recovery\<close>

text \<open>
  C4. Recovery from mismatched brackets changes nothing but brackets. The tokens that were not
  inserted are those that were lexed, in order, each at its offset: a token that is no bracket has its kind and value, a
  bracket is still that bracket or an error token. At most one token is inserted for each lexed one, none
  when the brackets of the text are balanced. The text, its lines and comments and the values stay,
  and so do the ranges of tokens to dump, although the tokens they name may have moved.
\<close>

theorem lex_recovery_keeps_tokens:
  assumes "apint (env_apint env) uval" "utf8_encoder (env_to_utf8 env)" "utf8_decoder (env_from_utf8 env)"
    "stores_ok env uval n stores" "n + length src < 2 ^ 21 - 1"
  shows "\<exists>lx tb ds reported. Lex_file env stores src = Some (Ret lx) \<and> Lex env report stores src = Some (Ret (tb, ds, reported)) \<and>
    list_all2 token_kept (lx_token_infos lx) (kept_tokens tb) \<and>
    length (tb_token_infos tb) \<le> 2 * length (lx_token_infos lx) \<and>
    (balanced (map ti_kind (lx_token_infos lx)) \<longrightarrow> tb_token_infos tb = lx_token_infos lx) \<and> same_text (lx_buffer lx) tb"
proof -
  obtain lx tb ds reported where l: "Lex_file env stores src = Some (Ret lx)" "final_ok env uval src lx"
    "Lex env report stores src = Some (Ret (tb, ds, reported))" "lexed lx report tb ds reported" "same_text (lx_buffer lx) tb"
    by (rule Lex_lexed [OF assms])
  have "list_all2 token_kept (lx_token_infos lx) (kept_tokens tb)"
    using l(4) kept_tokens_lexed [of tb] by (auto simp: lexed_def recovered_def list.rel_refl split: if_splits)
  moreover have "length (tb_token_infos tb) \<le> 2 * length (lx_token_infos lx)" using lexed_small(1) [OF l(4,2)] assms(5) by simp
  moreover have "balanced (map ti_kind (lx_token_infos lx)) \<longrightarrow> tb_token_infos tb = lx_token_infos lx"
    using l(4) mismatched_balanced [OF l(2)] by (simp add: lexed_def)
  ultimately show ?thesis using l(1,3,5) by blast
qed

theorem lex_recovery_keeps_tokens_witness:
  "\<exists>lx tb ds reported. Lex_file example_env example_stores ''f(x]'' = Some (Ret lx) \<and>
     Lex example_env True example_stores ''f(x]'' = Some (Ret (tb, ds, reported)) \<and>
     list_all2 token_kept (lx_token_infos lx) (kept_tokens tb)"
  using lex_recovery_keeps_tokens [OF example.arith example.encoder example.decoder example_stores_ok, of "''f(x]''" True] by auto

text \<open>
  C5. Mismatched brackets are always diagnosed and the report is right. There is a list of
  corrections, empty exactly when the brackets of the text are balanced, with one diagnostic each, at the offset
  of the bracket it is about, of its kind, and with a note naming the bracket to insert when one is inserted. When
  a report is asked for and there are corrections, it lists them in the same order with indexes of the
  returned buffer: an insertion names the inserted token, which is marked as a recovery token and has the kind of the correction; the
  bracket of any other is an error token.
\<close>

theorem lex_brackets_diagnosed:
  assumes "apint (env_apint env) uval" "utf8_encoder (env_to_utf8 env)" "utf8_decoder (env_from_utf8 env)"
    "stores_ok env uval n stores" "n + length src < 2 ^ 21 - 1"
  shows "\<exists>lx tb ds C cs. Lex_file env stores src = Some (Ret lx) \<and>
    Lex env report stores src = Some (Ret (tb, lx_diags lx @ ds, if report \<and> C \<noteq> [] then Some cs else None)) \<and>
    (C = [] \<longleftrightarrow> balanced (map ti_kind (lx_token_infos lx))) \<and>
    list_all2 (diag_of (lx_token_infos lx)) C ds \<and> list_all2 (reported_as tb (lx_token_infos lx)) C cs"
proof -
  obtain lx tb ds reported where l: "Lex_file env stores src = Some (Ret lx)" "final_ok env uval src lx"
    "Lex env report stores src = Some (Ret (tb, ds, reported))" "lexed lx report tb ds reported"
    by (rule Lex_lexed [OF assms])
  show ?thesis
  proof (cases "mismatched lx")
    case True
    then obtain C ds' cs where "ds = lx_diags lx @ ds'" "reported = (if report then Some cs else None)"
      "recovered (lx_token_infos lx) tb C ds' cs" using l(4) by (auto simp: lexed_def)
    then show ?thesis using l(1,3) True mismatched_balanced [OF l(2)]
      by (intro exI [of _ lx] exI [of _ tb] exI [of _ ds'] exI [of _ C] exI [of _ cs]) (simp add: recovered_def diags_of_def)
  next
    case False
    then show ?thesis using l mismatched_balanced [OF l(2)]
      by (intro exI [of _ lx] exI [of _ tb] exI [of _ "[]"] exI [of _ "[]"] exI [of _ "[]"]) (simp add: lexed_def)
  qed
qed

lemma example_open_paren:
  "case example_result ''('' of
     Some lx \<Rightarrow> map ti_kind (lx_token_infos lx) = [FileStart, Symbol OpenParen, FileEnd] | None \<Rightarrow> False"
  by code_simp

theorem lex_brackets_diagnosed_witness:
  "\<exists>tb ds cs. Lex example_env True example_stores ''('' = Some (Ret (tb, ds, Some cs)) \<and> ds \<noteq> [] \<and> cs \<noteq> []"
proof -
  have len: "0 + length ''('' < 2 ^ 21 - 1" by simp
  obtain lx tb ds C cs where l: "Lex_file example_env example_stores ''('' = Some (Ret lx)"
    "Lex example_env True example_stores ''('' = Some (Ret (tb, lx_diags lx @ ds, if True \<and> C \<noteq> [] then Some cs else None))"
    "C = [] \<longleftrightarrow> balanced (map ti_kind (lx_token_infos lx))" "list_all2 (diag_of (lx_token_infos lx)) C ds"
    "list_all2 (reported_as tb (lx_token_infos lx)) C cs"
    using lex_brackets_diagnosed [OF example.arith example.encoder example.decoder example_stores_ok len, of True] by blast
  have "map ti_kind (lx_token_infos lx) = [FileStart, Symbol OpenParen, FileEnd]"
    using example_open_paren l(1) by (simp add: example_result_def)
  moreover have "\<not> balanced [FileStart, Symbol OpenParen, FileEnd]" by (simp add: balanced_def)
  ultimately have C: "C \<noteq> []" using l(3) by simp
  then have "ds \<noteq> []" "cs \<noteq> []" using l(4,5) by auto
  then show ?thesis using l(2) C by auto
qed

section \<open>From the lexer to the parser\<close>

lemma lexed_parse_ready:
  assumes "final_ok env uval src lx" "lexed lx report tb ds reported" "same_text (lx_buffer lx) tb" "length src < 2 ^ 21"
  shows "parse_ready tb" "tokens_end tb = length (tb_token_infos tb)"
proof -
  have f: "tb_source (lx_buffer lx) = src" "map line_start (lx_lines lx) = line_starts src" "tb_post_lexing_recovery_tokens (lx_buffer lx) = 0"
    using assms(1) by (simp_all add: final_ok_def)
  have g: "groups_ok (tb_token_infos tb) []" "in_text tb" using lexed_groups [OF assms(2)] by simp_all
  have "2 \<le> length (tb_token_infos tb)"
    using g(2) by (cases "tb_token_infos tb"; cases "tl (tb_token_infos tb)") (auto simp: in_text_def)
  then show "parse_ready tb"
    using g f lexed_small(2) [OF assms(2,1,4)] assms(3) by (intro parse_readyI) (simp_all add: same_text_def)
  show "tokens_end tb = length (tb_token_infos tb)" using f(3) assms(3) by (simp add: tokens_end_def same_text_def)
qed

text \<open>
  C6. What the lexer returns can be parsed, whatever the text: the context of the parser is made without a failed check and
  its first token is the start of the file; at every position a search for any kinds and a skip to the
  likely end of a declaration return, and while the end of the file is not reached the questions about an operator have an answer.
\<close>

theorem lex_ready_to_parse:
  assumes "apint (env_apint env) uval" "utf8_encoder (env_to_utf8 env)" "utf8_decoder (env_from_utf8 env)"
    "stores_ok env uval n stores" "n + length src < 2 ^ 21 - 1" "Lex env report stores src = Some (Ret (tb, ds, reported))"
  shows "\<exists>cx. Context_init tb = Ret cx \<and> cx_tokens cx = tb \<and> ConsumeChecked FileStart cx = Ret (0, cx\<lparr>cx_position := 1\<rparr>) \<and>
    (\<forall>p \<le> cx_end cx.
      (\<forall>ks. \<exists>r. FindNextOf ks (cx\<lparr>cx_position := p\<rparr>) = Some (Ret r)) \<and>
      (\<forall>root \<le> cx_end cx. \<exists>r. SkipPastLikelyEnd root (cx\<lparr>cx_position := p\<rparr>) = Some (Ret r)) \<and>
      (p < cx_end cx \<longrightarrow> (\<exists>b. IsTrailingOperatorInfix (cx\<lparr>cx_position := p\<rparr>) = Ret b) \<and>
        (\<forall>fixity. \<exists>cx'. DiagnoseOperatorFixity fixity (cx\<lparr>cx_position := p\<rparr>) = Ret cx')))"
proof -
  obtain lx where l: "final_ok env uval src lx" "lexed lx report tb ds reported" "same_text (lx_buffer lx) tb"
    by (rule Lex_lexed [OF assms(1-5), of report]) (use assms(6) in auto)
  have "length src < 2 ^ 21" using assms(5) by simp
  note r = lexed_parse_ready [OF l this]
  define cx where "cx = \<lparr>cx_nodes = [], cx_tokens = tb, cx_position = 0, cx_end = last_index tb, cx_state_stack = [],
    cx_deferred_definitions = [], cx_deferred_definition_stack = [], cx_packaging_decl = None, cx_imports = [], cx_packaging_state = FileStart_state,
    cx_first_non_packaging_token = None, cx_diags = []\<rparr>"
  have "tb_token_infos tb \<noteq> []" using parse_ready_end(4) [OF r(1)] by auto
  then have i: "Context_init tb = Ret cx"
    using parse_ready_end(1,4) [OF r(1)] parse_ready_end(2) [OF r(1) order_refl] r(2) by (simp add: Context_init_def Let_def cx_def)
  have at: "parsing (cx\<lparr>cx_position := p\<rparr>)" if "p \<le> cx_end cx" for p using that r(1) by (simp add: cx_def parsing_def)
  have "ConsumeChecked FileStart cx = Ret (0, cx\<lparr>cx_position := 1\<rparr>)"
    using parsingD(5) [OF at [of 0], of FileStart] parse_ready_end(5) [OF r(1)] by (simp add: ConsumeChecked_def Consume_def cx_def)
  moreover have "\<exists>r. FindNextOf ks (cx\<lparr>cx_position := p\<rparr>) = Some (Ret r)" if "p \<le> cx_end cx" for p ks
    using find_next_ok [OF parsingD(1) [OF at [OF that]] parsingD(3) [OF at [OF that]], of ks] unfolding FindNextOf_def by blast
  moreover have "\<exists>r. SkipPastLikelyEnd root (cx\<lparr>cx_position := p\<rparr>) = Some (Ret r)" if "p \<le> cx_end cx" "root \<le> cx_end cx" for p root
    using SkipPastLikelyEnd_skips [OF at [OF that(1)], of root] that(2) by (metis Context.select_convs(4) Context.update_convs(3) Context.surjective)
  moreover have "\<exists>b. IsTrailingOperatorInfix (cx\<lparr>cx_position := p\<rparr>) = Ret b"
    "\<exists>cx'. DiagnoseOperatorFixity fixity (cx\<lparr>cx_position := p\<rparr>) = Ret cx'" if "p < cx_end cx" for p fixity
    using operator_queries(2,3) [OF at [of p]] that by (simp_all, blast)
  moreover have "cx_tokens cx = tb" by (simp add: cx_def)
  ultimately show ?thesis using i by blast
qed

theorem lex_ready_to_parse_witness:
  "\<exists>tb ds reported cx. Lex example_env True example_stores ''fn F( { return 1; }'' = Some (Ret (tb, ds, reported)) \<and> Context_init tb = Ret cx \<and>
     ConsumeChecked FileStart cx = Ret (0, cx\<lparr>cx_position := 1\<rparr>)"
proof -
  have len: "0 + length ''fn F( { return 1; }'' < 2 ^ 21 - 1" by simp
  obtain tb ds reported where l: "Lex example_env True example_stores ''fn F( { return 1; }'' = Some (Ret (tb, ds, reported))"
    by (rule Lex_lexed [OF example.arith example.encoder example.decoder example_stores_ok len])
  from lex_ready_to_parse [OF example.arith example.encoder example.decoder example_stores_ok len l] l show ?thesis by blast
qed

end
